(* ===== verification/Prelude.thy ===== *)
theory Prelude
  imports Main "HOL-Library.Word"
begin

text \<open>
  Shared vocabulary of the XIOSim development: the C++ machine types of
  \<^verbatim>\<open>xiosim/host.h\<close>, the argument checks of \<^verbatim>\<open>xiosim/valcheck.h\<close>, the modular
  arithmetic of \<^verbatim>\<open>xiosim/misc.h\<close>, and the generic lemmas on masks, words and
  tables that every predictor, cache and queue of the library uses to show that its
  array accesses are in range.
\<close>

unbundle bit_operations_syntax

named_theorems table_simps \<open>lengths and entries of updated tables\<close>
named_theorems inv_intros \<open>introduction rules for component invariants\<close>

section \<open>Machine types\<close>

text \<open>
  The build modelled is the LP64 one: \<^verbatim>\<open>md_addr_t\<close> is a 64-bit unsigned word,
  \<^verbatim>\<open>int\<close> a 32-bit two's complement word, \<^verbatim>\<open>counter_t\<close> and \<^verbatim>\<open>tick_t\<close> are
  64-bit words. Arithmetic on them wraps around, as the compiled code does.
\<close>

type_synonym md_addr_t = "64 word"
type_synonym md_paddr_t = "64 word"
type_synonym counter_t = "64 word"
type_synonym tick_t = "64 word"
type_synonym seq_t = "64 word"
type_synonym cint = "32 word"
type_synonym uchar = "8 word"

text \<open>
  The run-time errors that end a simulation: \<^verbatim>\<open>fatal()\<close> raised by an argument check
  of \<^verbatim>\<open>valcheck.h\<close>, by any other configuration test, by an allocation that cannot
  succeed (a negative count becomes a huge \<^verbatim>\<open>size_t\<close>), and a failed
  \<^verbatim>\<open>xiosim_assert\<close>.
\<close>

datatype fatal =
    Not_ppow2
  | Not_nneg
  | Not_pos
  | Not_bool
  | Not_in_range
  | Bad_config
  | Alloc_failed
  | Assert_failed

section \<open>Argument checks (\<^verbatim>\<open>valcheck.h\<close>)\<close>

definition IS_POW2 :: "cint \<Rightarrow> bool" where
  "IS_POW2 x \<longleftrightarrow> (x - 1) AND x = 0"

definition check_ppow2 :: "cint \<Rightarrow> bool" where
  "check_ppow2 x \<longleftrightarrow> IS_POW2 x \<and> \<not> (sint x < 1)"

definition check_nneg :: "cint \<Rightarrow> bool" where
  "check_nneg x \<longleftrightarrow> \<not> (sint x < 0)"

definition check_pos :: "cint \<Rightarrow> bool" where
  "check_pos x \<longleftrightarrow> \<not> (sint x \<le> 0)"

definition check_bool :: "cint \<Rightarrow> bool" where
  "check_bool x \<longleftrightarrow> \<not> (x \<noteq> 0 \<and> x \<noteq> 1)"

definition check_pos_leq :: "cint \<Rightarrow> int \<Rightarrow> bool" where
  "check_pos_leq x y \<longleftrightarrow> \<not> (sint x \<le> 0 \<or> sint x > y)"

definition check_nneg_leq :: "cint \<Rightarrow> int \<Rightarrow> bool" where
  "check_nneg_leq x y \<longleftrightarrow> \<not> (sint x < 0 \<or> sint x > y)"

text \<open>
  A constructor runs its checks in order and stops at the first that fails, as
  \<^verbatim>\<open>fatal()\<close> does.
\<close>

fun checks :: "(bool \<times> fatal) list \<Rightarrow> 'a \<Rightarrow> fatal + 'a" where
  "checks [] a = Inr a"
| "checks ((ok, e) # cs) a = (if ok then checks cs a else Inl e)"

section \<open>Modular arithmetic (\<^verbatim>\<open>misc.h\<close>)\<close>

definition modinc :: "cint \<Rightarrow> cint \<Rightarrow> cint" where
  "modinc x m = (let xinc = x + 1 in if xinc = m then 0 else xinc)"

definition moddec :: "cint \<Rightarrow> cint \<Rightarrow> cint" where
  "moddec x m = (let xdec = x - 1 in if x = 0 then m - 1 else xdec)"

definition mod2m :: "cint \<Rightarrow> cint \<Rightarrow> cint" where
  "mod2m x m = (let ret = x in if m \<le>s x then ret - m else ret)"

section \<open>Index computations\<close>

text \<open>
  \<^verbatim>\<open>int index = PC & mask\<close>: the mask is converted to the 64-bit unsigned type of the
  address (sign-extended), the result truncated to \<^verbatim>\<open>int\<close>.
\<close>

definition pc_mask :: "md_addr_t \<Rightarrow> cint \<Rightarrow> cint" where
  "pc_mask PC m = ucast (PC AND scast m)"

text \<open>\<^verbatim>\<open>table[PC & mask]\<close>: the same, used as an index without the conversion to \<^verbatim>\<open>int\<close>.\<close>

definition pc_index :: "md_addr_t \<Rightarrow> cint \<Rightarrow> nat" where
  "pc_index PC m = unat (PC AND scast m)"

text \<open>\<^verbatim>\<open>std::log2\<close> of a positive power of two, converted to \<^verbatim>\<open>int\<close>.\<close>

fun log2_nat :: "nat \<Rightarrow> nat" where
  "log2_nat n = (if n \<le> 1 then 0 else Suc (log2_nat (n div 2)))"

declare log2_nat.simps [simp del]

definition log2_int :: "cint \<Rightarrow> cint" where
  "log2_int x = word_of_nat (log2_nat (unat x))"

text \<open>\<^verbatim>\<open>x << n\<close> and \<^verbatim>\<open>x >> n\<close> on \<^verbatim>\<open>int\<close>, for counts below the width.\<close>

definition shl :: "cint \<Rightarrow> cint \<Rightarrow> cint" where
  "shl x n = push_bit (unat n) x"

definition sar :: "cint \<Rightarrow> cint \<Rightarrow> cint" where
  "sar x n = signed_drop_bit (unat n) x"

section \<open>Lemmas on checks\<close>

lemma checks_Inr_iff: "checks cs a = Inr b \<longleftrightarrow> (\<forall>c \<in> set cs. fst c) \<and> b = a"
  by (induction cs a rule: checks.induct) auto

declare checks.simps [simp del]

section \<open>Lemmas on words\<close>

lemma unat_lt32: "unat (x :: cint) < 4294967296"
  using unsigned_less [of x, where 'a = nat] by simp

lemma bit_top_nat: "bit n k \<longleftrightarrow> 2 ^ k \<le> n" if "n < 2 ^ Suc k" for n :: nat
proof (cases "2 ^ k \<le> n")
  case True
  then have "n div 2 ^ k = 1"
    using that by (simp add: div_nat_eqI)
  then show ?thesis using True by (simp add: bit_iff_odd)
next
  case False
  then show ?thesis by (simp add: bit_iff_odd)
qed

lemma bit_unat: "bit (unat w) k \<longleftrightarrow> bit w k" for w :: "'a::len word"
  by (simp add: bit_unsigned_iff)

text \<open>The signed reading of an \<^verbatim>\<open>int\<close> by the size of its unsigned value.\<close>

lemma sint_cint: "sint (x :: cint) = (if unat x < 2 ^ 31 then int (unat x) else int (unat x) - 2 ^ 32)"
proof -
  have u: "unat x < 2 ^ Suc 31" using unat_lt32 [of x] by simp
  have "bit (uint x) 31 \<longleftrightarrow> 2 ^ 31 \<le> unat x"
    using bit_top_nat [OF u] by (simp add: bit_unat bit_unsigned_iff)
  moreover have "take_bit 32 (uint x) = uint x"
    using uint_bounded [of x] by (simp add: take_bit_int_eq_self_iff)
  ultimately show ?thesis using u
    by (simp add: sint_uint signed_take_bit_eq_take_bit_minus of_bool_def)
qed

lemma sint_nneg_iff: "0 \<le> sint x \<longleftrightarrow> unat x < 2 ^ 31" for x :: cint
  using uint_bounded [of x] by (simp add: sint_cint not_less)

lemma sint_pos_iff: "0 < sint x \<longleftrightarrow> 0 < unat x \<and> unat x < 2 ^ 31" for x :: cint
  using unat_lt32 [of x] by (auto simp: sint_cint simp del: of_nat_unat)

lemma sle_unat: "m \<le>s x \<longleftrightarrow> unat m \<le> unat x"
  if "unat m < 2 ^ 31" "unat x < 2 ^ 31" for x m :: cint
  using that by (simp add: word_sle_eq sint_cint word_le_def [symmetric] word_le_nat_alt)

lemma check_ppow2_pos: "check_ppow2 x \<Longrightarrow> 0 < unat x \<and> unat x < 2 ^ 31"
  using sint_pos_iff [of x] by (simp add: check_ppow2_def not_less)

lemma check_ppow2_neq0: "check_ppow2 x \<Longrightarrow> x \<noteq> 0"
  using check_ppow2_pos by force

lemma check_nneg_unat: "check_nneg x \<longleftrightarrow> unat x < 2 ^ 31"
  using sint_nneg_iff [of x] by (simp add: check_nneg_def not_less)

text \<open>What \<^verbatim>\<open>CHECK_PPOW2\<close> accepts is exactly the powers of two an \<^verbatim>\<open>int\<close> can hold.\<close>

lemma check_ppow2_power:
  assumes "check_ppow2 x"
  shows "\<exists>k<31. x = 2 ^ k"
proof -
  have z: "(x - 1) AND x = 0" and x0: "x \<noteq> 0" and xm: "unat x < 2 ^ 31"
    using assms check_ppow2_neq0 [OF assms] check_ppow2_pos [OF assms]
    unfolding check_ppow2_def IS_POW2_def by blast+
  have "1 \<le> unat x" using x0 by (simp add: Suc_leI unat_gt_0)
  then obtain k where k: "2 ^ k \<le> unat x" "unat x < 2 ^ (k + 1)"
    using ex_power_ivl1 [of 2 "unat x"] by auto
  have "(2::nat) ^ k < 2 ^ 31" using k(1) xm by linarith
  then have "k < 31" by (rule power_less_imp_less_exp [rotated]) simp
  have "unat x = 2 ^ k"
  proof (rule ccontr)
    assume "unat x \<noteq> 2 ^ k"
    then have lt: "2 ^ k \<le> unat (x - 1)" "unat (x - 1) < 2 ^ Suc k"
      using k x0 by (simp_all add: unat_minus_one)
    have "bit x k" "bit (x - 1) k"
      using bit_top_nat [of "unat x" k] bit_top_nat [of "unat (x - 1)" k] k lt
      by (simp_all add: bit_unat)
    then have "bit ((x - 1) AND x) k" by (simp add: bit_and_iff)
    with z show False by simp
  qed
  then have "word_of_nat (unat x) = (2 ^ k :: cint)" by simp
  then have "x = 2 ^ k" by simp
  with \<open>k < 31\<close> show ?thesis by blast
qed

text \<open>\<^verbatim>\<open>PC & mask\<close> is the mask applied to the low 32 bits of the address.\<close>

lemma pc_mask_eq: "pc_mask PC m = ucast PC AND m"
  unfolding pc_mask_def
proof (rule bit_word_eqI)
  fix n assume "n < LENGTH(32)"
  then have "n = 31 \<or> n < 31" by auto
  then show "bit (ucast (PC AND scast m) :: cint) n \<longleftrightarrow> bit (ucast PC AND m :: cint) n"
    by (auto simp: bit_simps min_def)
qed

lemma unat_and_le: "unat (x AND m) \<le> unat m" for x m :: "'a::len word"
  using word_and_le1 [of x m] by (simp add: word_le_nat_alt)

lemma mask_less: "unat (y AND (x - 1)) < unat x" if "x \<noteq> 0" for x y :: "'a::len word"
proof -
  have "unat (y AND (x - 1)) \<le> unat (x - 1)" by (rule unat_and_le)
  also have "\<dots> < unat x" using that by (rule measure_unat)
  finally show ?thesis .
qed

lemma pc_mask_less: "x \<noteq> 0 \<Longrightarrow> unat (pc_mask PC (x - 1)) < unat x"
  by (simp add: pc_mask_eq mask_less)

lemma scast_nneg: "unat m < 2 ^ 31 \<Longrightarrow> unat (scast m :: 64 word) = unat m" for m :: cint
proof -
  assume m: "unat m < 2 ^ 31"
  have "(scast m :: 64 word) = word_of_int (sint m)" by simp
  also have "sint m = int (unat m)" using m by (simp add: sint_cint)
  finally have "(scast m :: 64 word) = ucast m" by simp
  then show ?thesis using m by (simp add: unsigned_ucast_eq take_bit_nat_eq_self)
qed

lemma ppow2_minus_one: "check_ppow2 x \<Longrightarrow> unat (x - 1) < unat x \<and> unat (x - 1) < 2 ^ 31"
  using check_ppow2_pos [of x] measure_unat [OF check_ppow2_neq0, of x] by linarith

lemma pc_index_less [simp]: "check_ppow2 x \<Longrightarrow> pc_index PC (x - 1) < unat x"
proof -
  assume x: "check_ppow2 x"
  have "pc_index PC (x - 1) \<le> unat (scast (x - 1) :: 64 word)"
    unfolding pc_index_def by (rule unat_and_le)
  then show ?thesis using x ppow2_minus_one [OF x] by (simp add: scast_nneg)
qed

lemma ppow2_mask_less [simp]: "check_ppow2 x \<Longrightarrow> unat (y AND (x - 1)) < unat x"
  by (simp add: mask_less check_ppow2_neq0)

lemma ppow2_pc_mask_less [simp]: "check_ppow2 x \<Longrightarrow> unat (pc_mask PC (x - 1)) < unat x"
  by (simp add: pc_mask_less check_ppow2_neq0)

section \<open>Lemmas on modular arithmetic\<close>

text \<open>The three functions compute what the comments beside them promise, on their domains.\<close>

lemma unat_modinc:
  assumes "unat x < unat m" and "unat m < 2 ^ 31"
  shows "unat (modinc x m) = (unat x + 1) mod unat m"
proof -
  have "unat (x + 1) = unat x + 1"
    using assms by (simp add: unat_word_ariths)
  then show ?thesis using assms
    by (auto simp: modinc_def Let_def word_unat_eq_iff mod_less)
qed

lemma unat_moddec:
  assumes "unat x < unat m" and "unat m < 2 ^ 31"
  shows "unat (moddec x m) = (unat x + unat m - 1) mod unat m"
proof (cases "x = 0")
  case True
  have "m \<noteq> 0" using assms(1) by auto
  then have "unat (m - 1) = unat m - 1" by (rule unat_minus_one)
  with True assms(1) show ?thesis by (simp add: moddec_def)
next
  case False
  have eq: "unat (x - 1) = unat x - 1" using False by (rule unat_minus_one)
  have "0 < unat x" using False by (simp add: unat_gt_0)
  then have "unat x + unat m - 1 = (unat x - 1) + unat m" by simp
  moreover have "unat x - 1 < unat m" using assms(1) by simp
  ultimately have "(unat x + unat m - 1) mod unat m = unat x - 1"
    by (simp only: mod_add_self2 mod_less)
  with False eq show ?thesis by (simp add: moddec_def)
qed

lemma unat_mod2m:
  assumes "unat x < 2 * unat m" and "unat x < 2 ^ 31" and "unat m < 2 ^ 31"
  shows "unat (mod2m x m) = unat x mod unat m"
proof (cases "unat m \<le> unat x")
  case True
  have "unat (x - m) = unat x - unat m"
    using True by (simp add: unat_sub word_le_nat_alt)
  with True assms show ?thesis
    by (simp add: mod2m_def sle_unat le_mod_geq)
next
  case False
  with assms show ?thesis by (simp add: mod2m_def sle_unat)
qed

lemma modinc_less: "unat x < unat m \<Longrightarrow> unat m < 2 ^ 31 \<Longrightarrow> unat (modinc x m) < unat m"
  by (simp add: unat_modinc)

lemma moddec_less: "unat x < unat m \<Longrightarrow> unat m < 2 ^ 31 \<Longrightarrow> unat (moddec x m) < unat m"
  by (simp add: unat_moddec)

lemma moddec_modinc:
  assumes "unat x < unat m" and "unat m < 2 ^ 31"
  shows "moddec (modinc x m) m = x"
proof -
  have "x + 1 \<noteq> 0"
    using assms by (simp add: word_unat_eq_iff unat_word_ariths)
  then show ?thesis by (auto simp: moddec_def modinc_def Let_def)
qed

lemma modinc_moddec:
  assumes "unat x < unat m" and "unat m < 2 ^ 31"
  shows "modinc (moddec x m) m = x"
  using assms by (auto simp: moddec_def modinc_def)

section \<open>Lemmas on tables\<close>

lemma list_all_update: "list_all P xs \<Longrightarrow> P v \<Longrightarrow> list_all P (xs[i := v])"
  unfolding list_all_length by (metis length_list_update nth_list_update_eq nth_list_update_neq)

lemma list_all_nth: "list_all P xs \<Longrightarrow> i < length xs \<Longrightarrow> P (xs ! i)"
  by (simp add: list_all_length)

end
