(* ===== verification/TwoBitC.thy ===== *)
theory TwoBitC
  imports Prelude
begin

text \<open>
  The branch-free two-bit saturating counters of \<^verbatim>\<open>xiosim/2bitc.h\<close>. A counter is an
  \<^verbatim>\<open>unsigned char\<close> with its two bits swapped (bit 0 the direction, bit 1 the
  hysteresis); its transitions are read out of packed 16-bit tables by shifting. The
  abstract counter is the usual number 0..3, and the lemmas here show that the packed
  tables implement saturating increment and decrement on it.
\<close>

type_synonym my2bc_t = uchar

section \<open>The macros\<close>

definition MY2BC_TABLE :: cint where "MY2BC_TABLE = 0xD4E8"
definition MY2BC_CINC_TABLE :: cint where "MY2BC_CINC_TABLE = 0xF6D8"
definition MY2BC_CDEC_TABLE :: cint where "MY2BC_CDEC_TABLE = 0x7290"

definition MY2BC_STRONG_TAKEN :: my2bc_t where "MY2BC_STRONG_TAKEN = 3"
definition MY2BC_WEAKLY_TAKEN :: my2bc_t where "MY2BC_WEAKLY_TAKEN = 1"
definition MY2BC_WEAKLY_NT :: my2bc_t where "MY2BC_WEAKLY_NT = 2"
definition MY2BC_STRONG_NT :: my2bc_t where "MY2BC_STRONG_NT = 0"

text \<open>\<^verbatim>\<open>MY2BC_DIR\<close> is an \<^verbatim>\<open>int\<close> 0 or 1; read as a \<^verbatim>\<open>bool\<close> it is the prediction.\<close>

definition MY2BC_DIR :: "my2bc_t \<Rightarrow> bool" where
  "MY2BC_DIR ctr \<longleftrightarrow> ctr AND 1 \<noteq> 0"

definition MY2BC_HYST :: "my2bc_t \<Rightarrow> bool" where
  "MY2BC_HYST ctr \<longleftrightarrow> ctr AND 2 \<noteq> 0"

definition packed_step :: "cint \<Rightarrow> my2bc_t \<Rightarrow> bool \<Rightarrow> my2bc_t" where
  "packed_step tbl ctr p = ucast (sar tbl (push_bit 1 (push_bit 1 (ucast ctr) + of_bool p)) AND 3)"

definition MY2BC_UPDATE :: "my2bc_t \<Rightarrow> bool \<Rightarrow> my2bc_t" where
  "MY2BC_UPDATE ctr dir = packed_step MY2BC_TABLE ctr dir"

definition MY2BC_COND_INC :: "my2bc_t \<Rightarrow> bool \<Rightarrow> my2bc_t" where
  "MY2BC_COND_INC ctr p = packed_step MY2BC_CINC_TABLE ctr p"

definition MY2BC_COND_DEC :: "my2bc_t \<Rightarrow> bool \<Rightarrow> my2bc_t" where
  "MY2BC_COND_DEC ctr p = packed_step MY2BC_CDEC_TABLE ctr p"

text \<open>The initial contents of a pattern table: weakly taken at odd, weakly not taken at even
  indices (the loop every constructor repeats).\<close>

definition weak_init :: "nat \<Rightarrow> my2bc_t" where
  "weak_init i = (if odd i then MY2BC_WEAKLY_TAKEN else MY2BC_WEAKLY_NT)"

section \<open>The abstract counter\<close>

definition ctr_ok :: "my2bc_t \<Rightarrow> bool" where
  "ctr_ok c \<longleftrightarrow> c < 4"

text \<open>The number a counter stands for: the direction bit counts two, the hysteresis bit one,
  inverted when not taken is predicted (00, 10, 01, 11 are 0, 1, 2, 3).\<close>

definition ctr_val :: "my2bc_t \<Rightarrow> nat" where
  "ctr_val c = 2 * of_bool (MY2BC_DIR c) + of_bool (MY2BC_HYST c)"

definition sat_inc :: "nat \<Rightarrow> nat" where "sat_inc n = min 3 (n + 1)"
definition sat_dec :: "nat \<Rightarrow> nat" where "sat_dec n = n - 1"

lemma ctr_cases: "ctr_ok c \<longleftrightarrow> c = 0 \<or> c = 1 \<or> c = 2 \<or> c = 3"
proof
  assume "ctr_ok c"
  then have "unat c < 4" by (simp add: ctr_ok_def word_less_nat_alt)
  then have "unat c \<in> {0, 1, 2, 3}" by auto
  then show "c = 0 \<or> c = 1 \<or> c = 2 \<or> c = 3"
    by (auto simp: word_unat_eq_iff)
qed (auto simp: ctr_ok_def)

lemmas ctr_consts = MY2BC_STRONG_TAKEN_def MY2BC_WEAKLY_TAKEN_def MY2BC_WEAKLY_NT_def
  MY2BC_STRONG_NT_def

lemmas ctr_defs = packed_step_def sar_def MY2BC_UPDATE_def MY2BC_COND_INC_def MY2BC_COND_DEC_def
  MY2BC_TABLE_def MY2BC_CINC_TABLE_def MY2BC_CDEC_TABLE_def

lemma ctr_ok_consts [simp]:
  "ctr_ok MY2BC_STRONG_TAKEN" "ctr_ok MY2BC_WEAKLY_TAKEN" "ctr_ok MY2BC_WEAKLY_NT"
  "ctr_ok MY2BC_STRONG_NT" "ctr_ok 0" "ctr_ok 3" "ctr_ok (weak_init i)"
  by (simp_all add: ctr_consts ctr_ok_def weak_init_def)

lemma update_table:
  "MY2BC_UPDATE 0 p = (if p then 2 else 0)" "MY2BC_UPDATE 1 p = (if p then 3 else 2)"
  "MY2BC_UPDATE 2 p = (if p then 1 else 0)" "MY2BC_UPDATE 3 p = (if p then 3 else 1)"
  by (cases p; simp add: ctr_defs)+

lemma cond_inc_table:
  "MY2BC_COND_INC 0 p = (if p then 2 else 0)" "MY2BC_COND_INC 1 p = (if p then 3 else 1)"
  "MY2BC_COND_INC 2 p = (if p then 1 else 2)" "MY2BC_COND_INC 3 p = 3"
  by (cases p; simp add: ctr_defs)+

lemma cond_dec_table:
  "MY2BC_COND_DEC 0 p = 0" "MY2BC_COND_DEC 1 p = (if p then 2 else 1)"
  "MY2BC_COND_DEC 2 p = (if p then 0 else 2)" "MY2BC_COND_DEC 3 p = (if p then 1 else 3)"
  by (cases p; simp add: ctr_defs)+

text \<open>Whatever the old value, the new one has two bits only.\<close>

lemma ctr_ok_packed [simp]: "ctr_ok (packed_step tbl c p)"
proof -
  let ?w = "sar tbl (push_bit 1 (push_bit 1 (ucast c) + of_bool p)) AND 3"
  have "unat (ucast ?w :: my2bc_t) \<le> unat ?w"
    by (simp add: unsigned_ucast_eq take_bit_nat_less_eq_self)
  also have "\<dots> \<le> unat (3 :: cint)" by (rule unat_and_le)
  finally show ?thesis by (simp add: packed_step_def ctr_ok_def word_less_nat_alt)
qed

lemma ctr_ok_ops [simp]:
  "ctr_ok (MY2BC_UPDATE c p)" "ctr_ok (MY2BC_COND_INC c p)" "ctr_ok (MY2BC_COND_DEC c p)"
  by (simp_all add: MY2BC_UPDATE_def MY2BC_COND_INC_def MY2BC_COND_DEC_def)

lemma ctr_val_inj: "ctr_ok c \<Longrightarrow> ctr_ok d \<Longrightarrow> ctr_val c = ctr_val d \<longleftrightarrow> c = d"
  by (auto simp: ctr_cases ctr_val_def MY2BC_DIR_def MY2BC_HYST_def)

lemma ctr_val_le3: "ctr_val c \<le> 3"
  by (simp add: ctr_val_def of_bool_def)

lemma dir_iff_val: "MY2BC_DIR c \<longleftrightarrow> 2 \<le> ctr_val c"
  by (simp add: ctr_val_def of_bool_def)

lemma strong_taken_iff: "ctr_ok c \<Longrightarrow> c = MY2BC_STRONG_TAKEN \<longleftrightarrow> ctr_val c = 3"
  by (auto simp: ctr_cases ctr_val_def MY2BC_DIR_def MY2BC_HYST_def ctr_consts)

section \<open>Properties\<close>

text \<open>C4: the packed transition tables of \<^verbatim>\<open>2bitc.h\<close> implement the saturating two-bit counter:
  \<^verbatim>\<open>MY2BC_UPDATE\<close> increments on taken and decrements on not taken, \<^verbatim>\<open>MY2BC_COND_INC\<close> and
  \<^verbatim>\<open>MY2BC_COND_DEC\<close> move only when their predicate holds, all saturate at 0 and 3 and keep the
  representation to two bits, and the direction bit is set exactly in the upper half.\<close>

theorem my2bc_refines_saturating:
  assumes "ctr_ok c"
  shows "ctr_val (MY2BC_UPDATE c d) = (if d then sat_inc (ctr_val c) else sat_dec (ctr_val c)) \<and>
    ctr_val (MY2BC_COND_INC c d) = (if d then sat_inc (ctr_val c) else ctr_val c) \<and>
    ctr_val (MY2BC_COND_DEC c d) = (if d then sat_dec (ctr_val c) else ctr_val c) \<and>
    ctr_ok (MY2BC_UPDATE c d) \<and> ctr_ok (MY2BC_COND_INC c d) \<and> ctr_ok (MY2BC_COND_DEC c d) \<and>
    (MY2BC_DIR c \<longleftrightarrow> 2 \<le> ctr_val c)"
  using assms unfolding ctr_cases
  by (elim disjE) (simp_all add: update_table cond_inc_table cond_dec_table ctr_val_def
      MY2BC_DIR_def MY2BC_HYST_def sat_inc_def sat_dec_def ctr_ok_def)

theorem my2bc_refines_saturating_witness:
  "ctr_ok 1 \<and> ctr_val 1 = 2 \<and> ctr_val (MY2BC_UPDATE 1 False) = 1"
  using my2bc_refines_saturating [of 1 False]
  by (simp add: ctr_ok_def ctr_val_def MY2BC_DIR_def MY2BC_HYST_def sat_dec_def)

end
