(* ===== verification/History.thy ===== *)
theory History
  imports Prelude
begin

text \<open>
  Branch history registers and the table indices formed from them, which the two-level direction
  predictors and the two-level branch target buffer compute with the same statements.
\<close>

section \<open>Index and history computations\<close>

text \<open>
  \<^verbatim>\<open>xorshift\<close>, which the constructors set only when \<^verbatim>\<open>Xor\<close> is set and the look-ups read
  only then; the branch history masks; and the second-level index, which \<^verbatim>\<open>2lev\<close>,
  \<^verbatim>\<open>bimode\<close>, \<^verbatim>\<open>yags\<close> and \<^verbatim>\<open>2levbtac\<close> compute with the same statements.
\<close>

definition xorshift_of :: "cint \<Rightarrow> cint \<Rightarrow> cint \<Rightarrow> cint" where
  "xorshift_of Xor sz history_length =
     (if Xor \<noteq> 0
      then let x = log2_int sz - history_length in if sint x < 0 then 0 else x
      else 0)"

definition history_mask_of :: "cint \<Rightarrow> cint" where
  "history_mask_of history_length = shl 1 history_length - 1"

definition l2_index :: "cint \<Rightarrow> cint \<Rightarrow> cint \<Rightarrow> cint \<Rightarrow> md_addr_t \<Rightarrow> cint \<Rightarrow> cint" where
  "l2_index Xor xorshift history_length msk PC bhr =
     (if Xor \<noteq> 0
      then ucast (PC XOR scast (shl bhr xorshift))
      else ucast (push_bit (unat history_length) PC OR scast bhr)) AND msk"

definition shift_in :: "cint \<Rightarrow> bool \<Rightarrow> cint" where
  "shift_in bhr b = push_bit 1 bhr OR of_bool b"

lemma history_mask_eq: "unat n < 32 \<Longrightarrow> history_mask_of n = mask (unat n)"
  by (simp add: history_mask_of_def shl_def mask_eq_exp_minus_1 push_bit_eq_mult)

lemma bit_shift_in: "bit (shift_in h b) k \<longleftrightarrow> k < 32 \<and> (if k = 0 then b else bit h (k - 1))"
  unfolding shift_in_def bit_or_iff bit_push_bit_iff
  by (cases "k = 0") (auto simp: bit_simps)

text \<open>A history register that fits its length still fits after a masked shift; an unmasked
  shift keeps it within its length exactly when the oldest outcome was not taken.\<close>

lemma shift_in_fits:
  assumes "0 < n" and "n < 32" and "h AND mask n = h"
  shows "shift_in h b AND mask n = shift_in h b \<longleftrightarrow> \<not> bit h (n - 1)"
proof
  assume e: "shift_in h b AND mask n = shift_in h b"
  have "\<not> bit (shift_in h b AND mask n) n" by (simp add: bit_simps)
  then have "\<not> bit (shift_in h b) n" using e by simp
  then show "\<not> bit h (n - 1)" using assms(1,2) by (simp add: bit_shift_in)
next
  assume nb: "\<not> bit h (n - 1)"
  have hb: "\<And>k. bit h k \<Longrightarrow> k < n"
    using assms(3) by (metis bit_and_iff bit_mask_iff)
  show "shift_in h b AND mask n = shift_in h b"
  proof (rule bit_word_eqI)
    fix k assume "k < LENGTH(32)"
    have "bit (shift_in h b) k \<Longrightarrow> k < n"
      using hb [of "k - 1"] nb assms(1)
      by (cases "k = n") (auto simp: bit_shift_in split: if_splits)
    then show "bit (shift_in h b AND mask n) k = bit (shift_in h b) k"
      using \<open>k < LENGTH(32)\<close> by (auto simp: bit_simps)
  qed
qed

end
