(* ===== verification/Bpred_Dir.thy ===== *)
theory Bpred_Dir
  imports TwoBitC History
begin

text \<open>
  The branch direction predictor interface: the base class \<^verbatim>\<open>bpred_dir_t\<close> of
  \<^verbatim>\<open>xiosim/zesto-bpred.h\<close> and \<^verbatim>\<open>zesto-bpred.cpp\<close> with its statistics, the base state
  cache \<^verbatim>\<open>bpred_sc_t\<close>, the events the pipeline sends to a predictor (look-up in the
  front end, speculative update, commit-time update, misprediction recovery, flush), and
  two locales. \<open>dir_predictor\<close> is the contract every predictor class keeps;
  \<open>spec_history\<close> extends it for the predictors that keep a speculatively updated global
  history. Both are interpreted for each predictor in the predictor's own theory.
  Classes derived from \<^verbatim>\<open>bpred_dir_t\<close> are record extensions of \<open>bpred_dir_t\<close>.
\<close>

section \<open>The base class\<close>

record bpred_sc_t =
  updated :: bool

record bpred_dir_t =
  name :: string
  type_ :: string
  bits :: cint
  num_hits :: counter_t
  lookups :: counter_t
  updates :: counter_t
  spec_updates :: counter_t
  frozen :: bool

text \<open>\<^verbatim>\<open>bpred_dir_t::init\<close>, with the three fields the derived constructors then set.\<close>

definition bpred_dir_init :: "string \<Rightarrow> string \<Rightarrow> cint \<Rightarrow> bpred_dir_t" where
  "bpred_dir_init nm ty b = \<lparr>name = nm, type_ = ty, bits = b, num_hits = 0, lookups = 0,
     updates = 0, spec_updates = 0, frozen = False\<rparr>"

definition bpred_dir_count_lookup :: "'a bpred_dir_t_scheme \<Rightarrow> 'a bpred_dir_t_scheme" where
  "bpred_dir_count_lookup s = (if frozen s then s else s\<lparr>lookups := lookups s + 1\<rparr>)"

definition bpred_dir_update ::
  "'a bpred_dir_t_scheme \<Rightarrow> 'b bpred_sc_t_scheme \<Rightarrow> bool \<Rightarrow> bool \<Rightarrow>
   'a bpred_dir_t_scheme \<times> 'b bpred_sc_t_scheme" where
  "bpred_dir_update s sc outcome our_pred =
     (if \<not> updated sc
      then (if frozen s then s
            else s\<lparr>updates := updates s + 1,
                   num_hits := num_hits s + of_bool (our_pred = outcome)\<rparr>,
            sc\<lparr>updated := True\<rparr>)
      else (s, sc))"

definition bpred_dir_spec_update :: "'a bpred_dir_t_scheme \<Rightarrow> 'a bpred_dir_t_scheme" where
  "bpred_dir_spec_update s = (if frozen s then s else s\<lparr>spec_updates := spec_updates s + 1\<rparr>)"

definition bpred_dir_recover ::
  "'a bpred_dir_t_scheme \<Rightarrow> 'b bpred_sc_t_scheme \<Rightarrow> bool \<Rightarrow> 'a bpred_dir_t_scheme" where
  "bpred_dir_recover s sc outcome = s"

definition bpred_dir_flush ::
  "'a bpred_dir_t_scheme \<Rightarrow> 'b bpred_sc_t_scheme \<Rightarrow> 'a bpred_dir_t_scheme" where
  "bpred_dir_flush s sc = s"

definition bpred_dir_reset_stats :: "'a bpred_dir_t_scheme \<Rightarrow> 'a bpred_dir_t_scheme" where
  "bpred_dir_reset_stats s = s\<lparr>num_hits := 0, lookups := 0, updates := 0, spec_updates := 0\<rparr>"

definition bpred_dir_get_cache :: bpred_sc_t where
  "bpred_dir_get_cache = \<lparr>updated = False\<rparr>"

lemmas bpred_dir_defs = bpred_dir_count_lookup_def bpred_dir_update_def bpred_dir_spec_update_def
  bpred_dir_recover_def bpred_dir_flush_def

lemma bpred_dir_frozen [simp]:
  "frozen s \<Longrightarrow> bpred_dir_count_lookup s = s"
  "frozen s \<Longrightarrow> fst (bpred_dir_update s sc outcome our_pred) = s"
  "frozen s \<Longrightarrow> bpred_dir_spec_update s = s"
  by (simp_all add: bpred_dir_defs)

text \<open>The projections of a derived object to its base class commute with the base methods.\<close>

lemma truncate_base [simp]:
  "bpred_dir_t.truncate (bpred_dir_count_lookup s) = bpred_dir_count_lookup (bpred_dir_t.truncate s)"
  "bpred_dir_t.truncate (bpred_dir_spec_update s) = bpred_dir_spec_update (bpred_dir_t.truncate s)"
  "bpred_dir_t.truncate (fst (bpred_dir_update s sc outcome our_pred)) =
     fst (bpred_dir_update (bpred_dir_t.truncate s) (bpred_sc_t.truncate sc) outcome our_pred)"
  "bpred_sc_t.truncate (snd (bpred_dir_update s sc outcome our_pred)) =
     snd (bpred_dir_update (bpred_dir_t.truncate s) (bpred_sc_t.truncate sc) outcome our_pred)"
  by (simp_all add: bpred_dir_defs bpred_dir_t.defs bpred_sc_t.defs)

lemma bpred_dir_update_via:
  assumes "bpred_dir_update s2 sc outcome our_pred = (s', sc')"
    and "bpred_dir_t.truncate s2 = bpred_dir_t.truncate s"
  shows "bpred_dir_t.truncate s' =
      fst (bpred_dir_update (bpred_dir_t.truncate s) (bpred_sc_t.truncate sc) outcome our_pred) \<and>
    bpred_sc_t.truncate sc' =
      snd (bpred_dir_update (bpred_dir_t.truncate s) (bpred_sc_t.truncate sc) outcome our_pred)"
  using assms truncate_base(3,4) [of s2 sc outcome our_pred] by simp

text \<open>Hits never overtake updates, as long as the update counter does not wrap around.\<close>

definition hits_le :: "'a bpred_dir_t_scheme \<Rightarrow> nat \<Rightarrow> bool" where
  "hits_le s n \<longleftrightarrow> unat (num_hits s) \<le> unat (updates s) \<and> unat (updates s) + n < 2 ^ 64"

lemma hits_le_ops:
  "hits_le s n \<Longrightarrow> hits_le (bpred_dir_count_lookup s) n"
  "hits_le s n \<Longrightarrow> hits_le (bpred_dir_spec_update s) n"
  "hits_le s (Suc n) \<Longrightarrow> hits_le (fst (bpred_dir_update s sc outcome our_pred)) n"
  "hits_le s (Suc n) \<Longrightarrow> hits_le s n"
proof -
  assume h: "hits_le s (Suc n)"
  then have "unat (updates s + 1) = unat (updates s) + 1"
    "unat (num_hits s + 1) = unat (num_hits s) + 1"
    by (simp_all add: hits_le_def unat_word_ariths)
  with h show "hits_le (fst (bpred_dir_update s sc outcome our_pred)) n"
    by (auto simp: hits_le_def bpred_dir_update_def)
qed (auto simp: hits_le_def bpred_dir_defs)

section \<open>Pipeline events\<close>

text \<open>
  The calls one predictor receives. Each in-flight branch, named by a number, owns a state
  cache; the number of a branch whose cache has not been filled by a look-up is ignored by
  the other events, since the pipeline sends them for looked-up branches only.
\<close>

datatype bp_event =
    BP_lookup nat md_addr_t md_addr_t md_addr_t bool
  | BP_update nat md_addr_t md_addr_t md_addr_t bool bool
  | BP_spec_update nat md_addr_t md_addr_t md_addr_t bool bool
  | BP_recover nat bool
  | BP_flush nat

type_synonym ('s, 'sc) lookup_fn =
  "'s \<Rightarrow> 'sc \<Rightarrow> md_addr_t \<Rightarrow> md_addr_t \<Rightarrow> md_addr_t \<Rightarrow> bool \<Rightarrow> bool \<times> 's \<times> 'sc"
type_synonym ('s, 'sc) update_fn =
  "'s \<Rightarrow> 'sc \<Rightarrow> md_addr_t \<Rightarrow> md_addr_t \<Rightarrow> md_addr_t \<Rightarrow> bool \<Rightarrow> bool \<Rightarrow> 's \<times> 'sc"
type_synonym ('s, 'sc) recover_fn = "'s \<Rightarrow> 'sc \<Rightarrow> bool \<Rightarrow> 's"
type_synonym ('s, 'sc) flush_fn = "'s \<Rightarrow> 'sc \<Rightarrow> 's"

fun bp_step ::
  "('s, 'sc) lookup_fn \<Rightarrow> ('s, 'sc) update_fn \<Rightarrow> ('s, 'sc) update_fn \<Rightarrow>
   ('s, 'sc) recover_fn \<Rightarrow> ('s, 'sc) flush_fn \<Rightarrow> 'sc \<Rightarrow>
   's \<times> (nat \<rightharpoonup> 'sc) \<Rightarrow> bp_event \<Rightarrow> 's \<times> (nat \<rightharpoonup> 'sc)" where
  "bp_step lk up sp rc fl sc0 (s, f) (BP_lookup i PC tPC oPC outcome) =
     (let (p, s', sc') = lk s (case f i of None \<Rightarrow> sc0 | Some sc \<Rightarrow> sc) PC tPC oPC outcome
      in (s', f(i \<mapsto> sc')))"
| "bp_step lk up sp rc fl sc0 (s, f) (BP_update i PC tPC oPC outcome our_pred) =
     (case f i of None \<Rightarrow> (s, f)
      | Some sc \<Rightarrow> let (s', sc') = up s sc PC tPC oPC outcome our_pred in (s', f(i \<mapsto> sc')))"
| "bp_step lk up sp rc fl sc0 (s, f) (BP_spec_update i PC tPC oPC outcome our_pred) =
     (case f i of None \<Rightarrow> (s, f)
      | Some sc \<Rightarrow> let (s', sc') = sp s sc PC tPC oPC outcome our_pred in (s', f(i \<mapsto> sc')))"
| "bp_step lk up sp rc fl sc0 (s, f) (BP_recover i outcome) =
     (case f i of None \<Rightarrow> (s, f) | Some sc \<Rightarrow> (rc s sc outcome, f))"
| "bp_step lk up sp rc fl sc0 (s, f) (BP_flush i) =
     (case f i of None \<Rightarrow> (s, f) | Some sc \<Rightarrow> (fl s sc, f))"

fun bp_run ::
  "('s, 'sc) lookup_fn \<Rightarrow> ('s, 'sc) update_fn \<Rightarrow> ('s, 'sc) update_fn \<Rightarrow>
   ('s, 'sc) recover_fn \<Rightarrow> ('s, 'sc) flush_fn \<Rightarrow> 'sc \<Rightarrow>
   's \<times> (nat \<rightharpoonup> 'sc) \<Rightarrow> bp_event list \<Rightarrow> 's \<times> (nat \<rightharpoonup> 'sc)" where
  "bp_run lk up sp rc fl sc0 st [] = st"
| "bp_run lk up sp rc fl sc0 st (e # es) =
     bp_run lk up sp rc fl sc0 (bp_step lk up sp rc fl sc0 st e) es"

definition lookup_of :: "nat \<Rightarrow> bp_event \<Rightarrow> bool" where
  "lookup_of i e \<longleftrightarrow> (case e of BP_lookup j _ _ _ _ \<Rightarrow> i = j | _ \<Rightarrow> False)"

lemma bp_run_append:
  "bp_run lk up sp rc fl sc0 st (es @ es') =
   bp_run lk up sp rc fl sc0 (bp_run lk up sp rc fl sc0 st es) es'"
  by (induction es arbitrary: st) simp_all

text \<open>The changes of the statistics that an event can make.\<close>

inductive base_step :: "bpred_dir_t \<Rightarrow> bpred_dir_t \<Rightarrow> bool" where
  base_stay: "base_step b b"
| base_lookup: "base_step b (bpred_dir_count_lookup b)"
| base_spec_update: "base_step b (bpred_dir_spec_update b)"
| base_update: "base_step b (fst (bpred_dir_update b (sc :: bpred_sc_t) outcome our_pred))"

lemma base_step_frozen: "base_step b b' \<Longrightarrow> frozen b \<Longrightarrow> b' = b"
  by (induction rule: base_step.induct) auto

lemma base_step_hits: "base_step b b' \<Longrightarrow> hits_le b (Suc n) \<Longrightarrow> hits_le b' n"
  by (induction rule: base_step.induct) (auto intro: hits_le_ops)

section \<open>The contract of a direction predictor\<close>

text \<open>
  \<open>inv\<close> is the shape of the predictor's tables, \<open>sc_ok\<close> says that the pointers a state
  cache holds point into them, \<open>base\<close> and \<open>base_sc\<close> project to the base classes. Every
  operation keeps the shape and every in-flight cache, and its effect on the base class is
  the one of the base class's own method.
\<close>

locale dir_predictor =
  fixes inv :: "'s \<Rightarrow> bool"
    and sc_ok :: "'s \<Rightarrow> 'sc \<Rightarrow> bool"
    and base :: "'s \<Rightarrow> bpred_dir_t"
    and base_sc :: "'sc \<Rightarrow> bpred_sc_t"
    and lookup :: "('s, 'sc) lookup_fn"
    and update :: "('s, 'sc) update_fn"
    and spec_update :: "('s, 'sc) update_fn"
    and recover :: "('s, 'sc) recover_fn"
    and flush :: "('s, 'sc) flush_fn"
  assumes lookup_law: "inv s \<Longrightarrow> lookup s sc PC tPC oPC outcome = (p, s', sc') \<Longrightarrow>
      inv s' \<and> sc_ok s' sc' \<and> (\<forall>x. sc_ok s x \<longrightarrow> sc_ok s' x)"
    and lookup_base: "lookup s sc PC tPC oPC outcome = (p, s', sc') \<Longrightarrow>
      base s' = bpred_dir_count_lookup (base s) \<and> \<not> updated (base_sc sc')"
    and update_law: "inv s \<Longrightarrow> sc_ok s sc \<Longrightarrow>
      update s sc PC tPC oPC outcome our_pred = (s', sc') \<Longrightarrow>
      inv s' \<and> sc_ok s' sc' \<and> (\<forall>x. sc_ok s x \<longrightarrow> sc_ok s' x)"
    and update_base: "update s sc PC tPC oPC outcome our_pred = (s', sc') \<Longrightarrow>
      base s' = fst (bpred_dir_update (base s) (base_sc sc) outcome our_pred) \<and>
      base_sc sc' = snd (bpred_dir_update (base s) (base_sc sc) outcome our_pred)"
    and spec_update_law: "inv s \<Longrightarrow> sc_ok s sc \<Longrightarrow>
      spec_update s sc PC tPC oPC outcome our_pred = (s', sc') \<Longrightarrow>
      inv s' \<and> sc_ok s' sc' \<and> (\<forall>x. sc_ok s x \<longrightarrow> sc_ok s' x)"
    and spec_update_base: "spec_update s sc PC tPC oPC outcome our_pred = (s', sc') \<Longrightarrow>
      base s' = bpred_dir_spec_update (base s) \<and> base_sc sc' = base_sc sc"
    and recover_law: "inv s \<Longrightarrow> sc_ok s sc \<Longrightarrow>
      inv (recover s sc outcome) \<and> (\<forall>x. sc_ok s x \<longrightarrow> sc_ok (recover s sc outcome) x)"
    and recover_base: "base (recover s sc outcome) = base s"
    and flush_law: "inv s \<Longrightarrow> sc_ok s sc \<Longrightarrow>
      inv (flush s sc) \<and> (\<forall>x. sc_ok s x \<longrightarrow> sc_ok (flush s sc) x)"
    and flush_base: "base (flush s sc) = base s"
begin

abbreviation step where
  "step \<equiv> bp_step lookup update spec_update recover flush"

abbreviation run where
  "run \<equiv> bp_run lookup update spec_update recover flush"

definition good :: "'s \<times> (nat \<rightharpoonup> 'sc) \<Rightarrow> bool" where
  "good st \<longleftrightarrow> inv (fst st) \<and> (\<forall>sc \<in> ran (snd st). sc_ok (fst st) sc)"

lemma good_upd: "good (s, f) \<Longrightarrow> inv s' \<Longrightarrow> sc_ok s' sc' \<Longrightarrow>
    (\<forall>x. sc_ok s x \<longrightarrow> sc_ok s' x) \<Longrightarrow> good (s', f(i \<mapsto> sc'))"
  by (auto simp: good_def ran_def split: if_splits)

lemma step_good:
  assumes "good st"
  shows "good (step sc0 st e)"
proof (cases st)
  case (Pair s f)
  with assms have i: "inv s" and ok: "\<And>i sc. f i = Some sc \<Longrightarrow> sc_ok s sc"
    and g: "good (s, f)"
    by (auto simp: good_def ran_def)
  show ?thesis
  proof (cases e)
    case (BP_lookup j PC tPC oPC outcome)
    then show ?thesis using Pair good_upd [OF g] lookup_law [OF i]
      by (auto split: prod.splits)
  next
    case (BP_update j PC tPC oPC outcome our_pred)
    then show ?thesis using Pair g good_upd [OF g] update_law [OF i ok]
      by (auto split: prod.splits option.splits)
  next
    case (BP_spec_update j PC tPC oPC outcome our_pred)
    then show ?thesis using Pair g good_upd [OF g] spec_update_law [OF i ok]
      by (auto split: prod.splits option.splits)
  next
    case (BP_recover j outcome)
    then show ?thesis using Pair g recover_law [OF i ok]
      by (auto simp: good_def split: option.splits)
  next
    case (BP_flush j)
    then show ?thesis using Pair g flush_law [OF i ok]
      by (auto simp: good_def split: option.splits)
  qed
qed

text \<open>No sequence of pipeline events leads to a table access out of range.\<close>

lemma run_good: "good st \<Longrightarrow> good (run sc0 st es)"
proof (induction es arbitrary: st)
  case (Cons e es)
  then show ?case using step_good [OF Cons.prems, of sc0 e] by simp
qed simp

lemma run_init_good: "inv s \<Longrightarrow> good (run sc0 (s, Map.empty) es)"
  by (rule run_good) (simp add: good_def)

text \<open>The effect of one event on the base class, which is one of the base class's methods.\<close>

lemma step_base: "base_step (base s) (base (fst (step sc0 (s, f) e)))"
proof (cases e)
  case (BP_lookup j PC tPC oPC outcome)
  then show ?thesis using lookup_base by (auto split: prod.splits intro: base_step.intros)
next
  case (BP_update j PC tPC oPC outcome our_pred)
  show ?thesis
  proof (cases "f j")
    case None
    then show ?thesis using BP_update by (simp add: base_stay)
  next
    case (Some sc)
    obtain s' sc' where u: "update s sc PC tPC oPC outcome our_pred = (s', sc')" by force
    have "base_step (base s) (base s')"
      using update_base [OF u] base_update by metis
    then show ?thesis using BP_update Some u by simp
  qed
next
  case (BP_spec_update j PC tPC oPC outcome our_pred)
  then show ?thesis using spec_update_base
    by (auto split: prod.splits option.splits intro: base_step.intros)
next
  case (BP_recover j outcome)
  then show ?thesis using recover_base by (auto split: option.splits intro: base_step.intros)
next
  case (BP_flush j)
  then show ?thesis using flush_base by (auto split: option.splits intro: base_step.intros)
qed

text \<open>Once statistics are frozen, no event changes a counter again.\<close>

lemma run_frozen: "frozen (base (fst st)) \<Longrightarrow> base (fst (run sc0 st es)) = base (fst st)"
proof (induction es arbitrary: st)
  case Nil
  then show ?case by simp
next
  case (Cons e es)
  obtain s f where st: "st = (s, f)" by (cases st)
  with Cons.prems have "base (fst (step sc0 st e)) = base (fst st)"
    using base_step_frozen [OF step_base] by simp
  with Cons show ?case by (simp del: bp_step.simps)
qed

lemma run_hits: "hits_le (base (fst st)) (length es) \<Longrightarrow> hits_le (base (fst (run sc0 st es))) 0"
proof (induction es arbitrary: st)
  case Nil
  then show ?case by simp
next
  case (Cons e es)
  obtain s f where st: "st = (s, f)" by (cases st)
  have "hits_le (base s) (Suc (length es))" using Cons.prems st by simp
  then have "hits_le (base (fst (step sc0 (s, f) e))) (length es)"
    by (rule base_step_hits [OF step_base])
  then show ?case using Cons.IH st by (simp del: bp_step.simps)
qed

end

section \<open>Speculative global history\<close>

text \<open>
  \<open>glob\<close>: the predictor keeps one global history register (\<^verbatim>\<open>bht_size == 1\<close>), \<open>hist\<close>
  reads it, \<open>saved\<close> is the copy a look-up leaves in the state cache (\<^verbatim>\<open>lookup_bhr\<close>).
\<close>

locale spec_history = dir_predictor +
  fixes glob :: "'a \<Rightarrow> bool"
    and hist :: "'a \<Rightarrow> cint"
    and hmask :: "'a \<Rightarrow> cint"
    and saved :: "'b \<Rightarrow> cint"
  assumes lookup_hist: "lookup s sc PC tPC oPC outcome = (p, s', sc') \<Longrightarrow>
      glob s' = glob s \<and> (inv s \<longrightarrow> glob s \<longrightarrow> hist s' = hist s \<and> saved sc' = hist s)"
    and update_hist: "update s sc PC tPC oPC outcome our_pred = (s', sc') \<Longrightarrow>
      glob s' = glob s \<and> saved sc' = saved sc"
    and spec_update_hist: "spec_update s sc PC tPC oPC outcome our_pred = (s', sc') \<Longrightarrow>
      glob s' = glob s \<and> saved sc' = saved sc"
    and spec_update_shift: "spec_update s sc PC tPC oPC outcome our_pred = (s', sc') \<Longrightarrow>
      inv s \<Longrightarrow> sc_ok s sc \<Longrightarrow> glob s \<Longrightarrow> hist s' = shift_in (hist s) our_pred AND hmask s"
    and recover_hist: "glob (recover s sc outcome) = glob s"
      "inv s \<Longrightarrow> glob s \<Longrightarrow> hist (recover s sc outcome) = shift_in (saved sc) outcome"
    and flush_hist: "glob (flush s sc) = glob s"
      "inv s \<Longrightarrow> glob s \<Longrightarrow> hist (flush s sc) = saved sc"
begin

lemma step_glob: "glob (fst (step sc0 (s, f) e)) = glob s"
  by (cases e) (auto split: prod.splits option.splits
      dest: lookup_hist update_hist spec_update_hist simp: recover_hist flush_hist)

lemma run_glob: "glob (fst (run sc0 st es)) = glob (fst st)"
proof (induction es arbitrary: st)
  case (Cons e es)
  then show ?case by (cases st) (simp add: step_glob del: bp_step.simps)
qed simp

lemma step_saved:
  assumes "f i = Some sc" and "\<not> lookup_of i e"
  shows "\<exists>sc'. snd (step sc0 (s, f) e) i = Some sc' \<and> saved sc' = saved sc"
  using assms
  by (cases e) (auto simp: lookup_of_def split: prod.splits option.splits
      dest: update_hist spec_update_hist)

lemma run_saved:
  assumes "snd st i = Some sc" and "\<forall>e \<in> set es. \<not> lookup_of i e"
  shows "\<exists>sc'. snd (run sc0 st es) i = Some sc' \<and> saved sc' = saved sc"
  using assms
proof (induction es arbitrary: st sc)
  case (Cons e es)
  obtain s f where st: "st = (s, f)" by (cases st)
  obtain sc1 where "snd (step sc0 st e) i = Some sc1" "saved sc1 = saved sc"
    using step_saved [of f i sc e sc0 s] Cons.prems st by auto
  with Cons.IH [of "step sc0 st e" sc1] Cons.prems show ?case
    by (simp del: bp_step.simps)
qed auto

text \<open>
  Whatever happens between the look-up of a branch and the end of its speculation (any
  number of younger branches looked up, speculatively updated, recovered or committed), a
  flush at the branch puts the global history back to what its look-up saw, and a recovery
  puts it to that history with the actual outcome shifted in.
\<close>

lemma flush_recover_restore:
  assumes g: "good (s, f)" and gl: "glob s"
    and no: "\<forall>e \<in> set es. \<not> lookup_of i e"
    and st_def: "st = run sc0 (s, f) (BP_lookup i PC tPC oPC outcome # es)"
  shows "hist (fst (step sc0 st (BP_flush i))) = hist s"
    and "hist (fst (step sc0 st (BP_recover i oc))) = shift_in (hist s) oc"
proof -
  let ?st1 = "step sc0 (s, f) (BP_lookup i PC tPC oPC outcome)"
  have i: "inv s" using g by (simp add: good_def)
  obtain sc1 where sc1: "snd ?st1 i = Some sc1" "saved sc1 = hist s"
    using lookup_hist i gl
    by (cases "lookup s (case f i of None \<Rightarrow> sc0 | Some sc \<Rightarrow> sc) PC tPC oPC outcome") auto
  obtain sc2 where sc2: "snd st i = Some sc2" "saved sc2 = hist s"
    using run_saved [OF sc1(1) no, of sc0] sc1(2) unfolding st_def by auto
  have gd: "good st" unfolding st_def by (rule run_good [OF g])
  have glb: "glob (fst st)" unfolding st_def using gl run_glob [of sc0 "(s, f)"] by (simp only: fst_conv)
  obtain t h where st: "st = (t, h)" by (cases st)
  show "hist (fst (step sc0 st (BP_flush i))) = hist s"
    using st sc2 gd glb flush_hist(2) by (auto simp: good_def)
  show "hist (fst (step sc0 st (BP_recover i oc))) = shift_in (hist s) oc"
    using st sc2 gd glb recover_hist(2) by (auto simp: good_def)
qed

end

end
