(* ===== verification/Bpred_2bC.thy ===== *)
theory Bpred_2bC
  imports Bpred_Dir
begin

text \<open>
  The bimodal predictor \<^verbatim>\<open>bpred_2bC_t\<close> (\<^verbatim>\<open>xiosim/ZCOMPS-bpred/bpred-2bc.cpp\<close>): one table
  of two-bit counters indexed by the low bits of the PC. A pointer of the state cache into
  the table is the index it points at.
\<close>

record bpred_2bC_sc_t = bpred_sc_t +
  current_ctr :: nat

record bpred_2bC_t = bpred_dir_t +
  num_entries :: cint
  entry_mask :: cint
  table :: "my2bc_t list"

definition bpred_2bC_create :: "string \<Rightarrow> cint \<Rightarrow> fatal + bpred_2bC_t" where
  "bpred_2bC_create arg_name arg_num_entries =
     checks [(check_ppow2 arg_num_entries, Not_ppow2)]
       (bpred_dir_t.extend (bpred_dir_init arg_name ''2bC'' (arg_num_entries * 2))
         (bpred_2bC_t.fields arg_num_entries (arg_num_entries - 1)
           (map weak_init [0..<unat arg_num_entries])))"

definition bpred_2bC_lookup :: "(bpred_2bC_t, bpred_2bC_sc_t) lookup_fn" where
  "bpred_2bC_lookup s sc PC tPC oPC outcome =
     (let ctr = pc_index PC (entry_mask s);
          sc' = sc\<lparr>current_ctr := ctr, updated := False\<rparr>
      in (MY2BC_DIR (table s ! ctr), bpred_dir_count_lookup s, sc'))"

definition bpred_2bC_update :: "(bpred_2bC_t, bpred_2bC_sc_t) update_fn" where
  "bpred_2bC_update s sc PC tPC oPC outcome our_pred =
     (let (s1, sc1) = bpred_dir_update s sc outcome our_pred; c = current_ctr sc
      in (s1\<lparr>table := (table s1)[c := MY2BC_UPDATE (table s1 ! c) outcome]\<rparr>, sc1))"

text \<open>The class inherits \<^verbatim>\<open>spec_update\<close>, \<^verbatim>\<open>recover\<close> and \<^verbatim>\<open>flush\<close>.\<close>

definition bpred_2bC_spec_update :: "(bpred_2bC_t, bpred_2bC_sc_t) update_fn" where
  "bpred_2bC_spec_update s sc PC tPC oPC outcome our_pred = (bpred_dir_spec_update s, sc)"

definition bpred_2bC_get_cache :: bpred_2bC_sc_t where
  "bpred_2bC_get_cache = \<lparr>updated = False, current_ctr = 0\<rparr>"

section \<open>Invariant\<close>

definition bpred_2bC_inv :: "bpred_2bC_t \<Rightarrow> bool" where
  "bpred_2bC_inv s \<longleftrightarrow> check_ppow2 (num_entries s) \<and> entry_mask s = num_entries s - 1 \<and>
     length (table s) = unat (num_entries s) \<and> list_all ctr_ok (table s)"

definition bpred_2bC_sc_ok :: "bpred_2bC_t \<Rightarrow> bpred_2bC_sc_t \<Rightarrow> bool" where
  "bpred_2bC_sc_ok s sc \<longleftrightarrow> current_ctr sc < length (table s)"

lemma bpred_2bC_create_inv: "bpred_2bC_create nm n = Inr s \<Longrightarrow> bpred_2bC_inv s"
  by (auto simp: bpred_2bC_create_def checks_Inr_iff bpred_2bC_inv_def bpred_2bC_t.defs
      bpred_dir_t.defs list_all_iff)

lemma bpred_dir_table [simp]:
  "table (bpred_dir_count_lookup s) = table s"
  "table (bpred_dir_spec_update s) = table s"
  "table (fst (bpred_dir_update s sc a b)) = table s"
  "num_entries (bpred_dir_count_lookup s) = num_entries s"
  "num_entries (bpred_dir_spec_update s) = num_entries s"
  "num_entries (fst (bpred_dir_update s sc a b)) = num_entries s"
  "entry_mask (bpred_dir_count_lookup s) = entry_mask s"
  "entry_mask (bpred_dir_spec_update s) = entry_mask s"
  "entry_mask (fst (bpred_dir_update s sc a b)) = entry_mask s"
  "current_ctr (snd (bpred_dir_update s' sc' a b)) = current_ctr sc'"
  by (simp_all add: bpred_dir_defs)

lemmas bpred_2bC_ops = bpred_2bC_lookup_def bpred_2bC_update_def bpred_2bC_spec_update_def

interpretation p2bC: dir_predictor bpred_2bC_inv bpred_2bC_sc_ok bpred_dir_t.truncate
  bpred_sc_t.truncate bpred_2bC_lookup bpred_2bC_update bpred_2bC_spec_update
  bpred_dir_recover bpred_dir_flush
proof (unfold_locales, goal_cases)
  case (1 s sc PC tPC oPC outcome p s' sc')
  then show ?case
    by (auto simp: bpred_2bC_ops Let_def bpred_2bC_inv_def bpred_2bC_sc_ok_def)
next
  case (3 s sc PC tPC oPC outcome our_pred s' sc')
  then show ?case
    by (auto simp: bpred_2bC_ops Let_def split_beta bpred_2bC_inv_def bpred_2bC_sc_ok_def
        intro!: list_all_update)
next
  case (5 s sc PC tPC oPC outcome our_pred s' sc')
  then show ?case by (auto simp: bpred_2bC_ops bpred_2bC_inv_def bpred_2bC_sc_ok_def)
qed (auto simp: bpred_2bC_ops Let_def split_beta bpred_dir_recover_def bpred_dir_flush_def
    bpred_dir_t.truncate_def bpred_sc_t.truncate_def bpred_dir_count_lookup_def
    bpred_dir_spec_update_def bpred_dir_update_def)

end
