(* ===== verification/Bpred_2lev.thy ===== *)
theory Bpred_2lev
  imports Bpred_Dir
begin

text \<open>
  The two-level predictor \<^verbatim>\<open>bpred_2lev_t\<close> (\<^verbatim>\<open>xiosim/ZCOMPS-bpred/bpred-2lev.cpp\<close>), which covers
  GAg, GAp, PAg, PAp, gshare and pshare: a first-level table of branch history registers and
  a second-level table of two-bit counters.
\<close>

record bpred_2lev_sc_t = bpred_sc_t +
  current_ctr :: nat
  bhr :: nat
  lookup_bhr :: cint

record bpred_2lev_t = bpred_dir_t +
  bht_size :: cint
  bht_mask :: cint
  bht :: "cint list"
  pht_size :: cint
  pht_mask :: cint
  pht :: "my2bc_t list"
  history_length :: cint
  history_mask :: cint
  Xor :: cint
  xorshift :: cint

definition bpred_2lev_create ::
  "string \<Rightarrow> cint \<Rightarrow> cint \<Rightarrow> cint \<Rightarrow> cint \<Rightarrow> fatal + bpred_2lev_t" where
  "bpred_2lev_create arg_name arg_bht_size arg_pht_size arg_history_length arg_Xor =
     checks [(check_ppow2 arg_bht_size, Not_ppow2), (check_ppow2 arg_pht_size, Not_ppow2),
             (check_nneg arg_history_length, Not_nneg), (check_bool arg_Xor, Not_bool)]
       (bpred_dir_t.extend
         (bpred_dir_init arg_name ''2lev'' (arg_bht_size * arg_history_length + arg_pht_size * 2))
         (bpred_2lev_t.fields arg_bht_size (arg_bht_size - 1) (replicate (unat arg_bht_size) 0)
           arg_pht_size (arg_pht_size - 1) (map weak_init [0..<unat arg_pht_size])
           arg_history_length (history_mask_of arg_history_length) arg_Xor
           (xorshift_of arg_Xor arg_pht_size arg_history_length)))"

definition bpred_2lev_lookup :: "(bpred_2lev_t, bpred_2lev_sc_t) lookup_fn" where
  "bpred_2lev_lookup s sc PC tPC oPC outcome =
     (let l1index = unat (pc_mask PC (bht_mask s));
          h = bht s ! l1index;
          l2index = unat (l2_index (Xor s) (xorshift s) (history_length s) (pht_mask s) PC h);
          sc' = sc\<lparr>bhr := l1index, current_ctr := l2index, updated := False, lookup_bhr := h\<rparr>
      in (MY2BC_DIR (pht s ! l2index), bpred_dir_count_lookup s, sc'))"

definition bpred_2lev_update :: "(bpred_2lev_t, bpred_2lev_sc_t) update_fn" where
  "bpred_2lev_update s sc PC tPC oPC outcome our_pred =
     (let c = current_ctr sc; s1 = s\<lparr>pht := (pht s)[c := MY2BC_UPDATE (pht s ! c) outcome]\<rparr>
      in bpred_dir_update s1 sc outcome our_pred)"

definition bpred_2lev_spec_update :: "(bpred_2lev_t, bpred_2lev_sc_t) update_fn" where
  "bpred_2lev_spec_update s sc PC tPC oPC outcome our_pred =
     (let s1 = bpred_dir_spec_update s; b = bhr sc
      in (s1\<lparr>bht := (bht s1)[b := shift_in (bht s1 ! b) our_pred AND history_mask s1]\<rparr>, sc))"

definition bpred_2lev_recover :: "(bpred_2lev_t, bpred_2lev_sc_t) recover_fn" where
  "bpred_2lev_recover s sc outcome =
     (if bht_size s = 1 then s\<lparr>bht := (bht s)[0 := shift_in (lookup_bhr sc) outcome]\<rparr> else s)"

definition bpred_2lev_flush :: "(bpred_2lev_t, bpred_2lev_sc_t) flush_fn" where
  "bpred_2lev_flush s sc =
     (if bht_size s = 1 then s\<lparr>bht := (bht s)[0 := lookup_bhr sc]\<rparr> else s)"

definition bpred_2lev_get_cache :: bpred_2lev_sc_t where
  "bpred_2lev_get_cache = \<lparr>updated = False, current_ctr = 0, bhr = 0, lookup_bhr = 0\<rparr>"

section \<open>Invariant\<close>

definition bpred_2lev_inv :: "bpred_2lev_t \<Rightarrow> bool" where
  "bpred_2lev_inv s \<longleftrightarrow> check_ppow2 (bht_size s) \<and> check_ppow2 (pht_size s) \<and>
     bht_mask s = bht_size s - 1 \<and> pht_mask s = pht_size s - 1 \<and>
     length (bht s) = unat (bht_size s) \<and> length (pht s) = unat (pht_size s) \<and>
     history_mask s = history_mask_of (history_length s) \<and> list_all ctr_ok (pht s)"

definition bpred_2lev_sc_ok :: "bpred_2lev_t \<Rightarrow> bpred_2lev_sc_t \<Rightarrow> bool" where
  "bpred_2lev_sc_ok s sc \<longleftrightarrow> current_ctr sc < length (pht s) \<and> bhr sc < length (bht s)"

lemma bpred_2lev_create_inv: "bpred_2lev_create nm b p h x = Inr s \<Longrightarrow> bpred_2lev_inv s"
  by (auto simp: bpred_2lev_create_def checks_Inr_iff bpred_2lev_inv_def bpred_2lev_t.defs
      bpred_dir_t.defs list_all_iff)

lemma bpred_dir_2lev [simp]:
  "bpred_2lev_inv (bpred_dir_count_lookup s) = bpred_2lev_inv s"
  "bpred_2lev_inv (bpred_dir_spec_update s) = bpred_2lev_inv s"
  "bpred_2lev_inv (fst (bpred_dir_update s sc a b)) = bpred_2lev_inv s"
  "bpred_2lev_sc_ok (bpred_dir_count_lookup s) = bpred_2lev_sc_ok s"
  "bpred_2lev_sc_ok (bpred_dir_spec_update s) = bpred_2lev_sc_ok s"
  "bpred_2lev_sc_ok (fst (bpred_dir_update s sc a b)) = bpred_2lev_sc_ok s"
  "bpred_2lev_sc_ok s (snd (bpred_dir_update s' sc' a b)) = bpred_2lev_sc_ok s sc'"
  by (auto simp: bpred_dir_defs bpred_2lev_inv_def bpred_2lev_sc_ok_def fun_eq_iff)

lemma bpred_2lev_set_pht [simp]:
  "bpred_2lev_inv s \<Longrightarrow> bpred_2lev_inv (s\<lparr>pht := (pht s)[c := MY2BC_UPDATE v outcome]\<rparr>)"
  "bpred_2lev_sc_ok (s\<lparr>pht := (pht s)[c := w]\<rparr>) = bpred_2lev_sc_ok s"
  by (auto simp: bpred_2lev_inv_def bpred_2lev_sc_ok_def fun_eq_iff intro!: list_all_update)

lemma bpred_2lev_set_bht [simp]:
  "bpred_2lev_inv s \<Longrightarrow> bpred_2lev_inv (s\<lparr>bht := (bht s)[i := h]\<rparr>)"
  "bpred_2lev_sc_ok (s\<lparr>bht := (bht s)[i := h]\<rparr>) = bpred_2lev_sc_ok s"
  by (auto simp: bpred_2lev_inv_def bpred_2lev_sc_ok_def fun_eq_iff)

lemmas bpred_2lev_ops = bpred_2lev_lookup_def bpred_2lev_update_def bpred_2lev_spec_update_def
  bpred_2lev_recover_def bpred_2lev_flush_def

interpretation p2lev: dir_predictor bpred_2lev_inv bpred_2lev_sc_ok bpred_dir_t.truncate
  bpred_sc_t.truncate bpred_2lev_lookup bpred_2lev_update bpred_2lev_spec_update
  bpred_2lev_recover bpred_2lev_flush
proof (unfold_locales, goal_cases)
  case (1 s sc PC tPC oPC outcome p s' sc')
  then show ?case
    by (auto simp: bpred_2lev_ops Let_def, auto simp: bpred_2lev_inv_def bpred_2lev_sc_ok_def l2_index_def)
next
  case (3 s sc PC tPC oPC outcome our_pred s' sc')
  then show ?case
    by (auto simp: bpred_2lev_ops Let_def prod_eq_iff)
next
  case (5 s sc PC tPC oPC outcome our_pred s' sc')
  then show ?case by (auto simp: bpred_2lev_ops Let_def)
qed (auto simp: bpred_2lev_ops Let_def split_beta
    bpred_dir_t.truncate_def bpred_sc_t.truncate_def bpred_dir_count_lookup_def
    bpred_dir_spec_update_def bpred_dir_update_def)

lemma bpred_2lev_glob_index: "bpred_2lev_inv s \<Longrightarrow> bht_size s = 1 \<Longrightarrow>
    pc_mask PC (bht_mask s) = 0 \<and> length (bht s) = 1"
  by (simp add: bpred_2lev_inv_def pc_mask_eq)

interpretation p2lev_hist: spec_history bpred_2lev_inv bpred_2lev_sc_ok bpred_dir_t.truncate
  bpred_sc_t.truncate bpred_2lev_lookup bpred_2lev_update bpred_2lev_spec_update
  bpred_2lev_recover bpred_2lev_flush "\<lambda>s. bht_size s = 1" "\<lambda>s. bht s ! 0" history_mask lookup_bhr
proof (unfold_locales, goal_cases)
  case (1 s sc PC tPC oPC outcome p s' sc')
  then show ?case
    by (auto simp: bpred_2lev_ops Let_def bpred_dir_defs bpred_2lev_glob_index split: if_splits)
next
  case (4 s sc PC tPC oPC outcome our_pred s' sc')
  then show ?case
    by (auto simp: bpred_2lev_ops Let_def bpred_dir_defs bpred_2lev_sc_ok_def bpred_2lev_glob_index
        split: if_splits)
qed (auto simp: bpred_2lev_ops Let_def bpred_dir_defs bpred_2lev_glob_index split: if_splits)

end
