(* ===== verification/Bpred_Bimode.thy ===== *)
theory Bpred_Bimode
  imports Bpred_Dir
begin

text \<open>
  The bi-mode predictor \<^verbatim>\<open>bpred_bimode_t\<close> (\<^verbatim>\<open>xiosim/ZCOMPS-bpred/bpred-bimode.cpp\<close>): a choice
  table indexed by the PC selects one of two direction tables, one biased not taken and one
  biased taken. The pointer \<^verbatim>\<open>pred_ctr\<close> into \<^verbatim>\<open>pht[select][l2index]\<close> is the pair of indices.
  The state cache declares an \<^verbatim>\<open>updated\<close> flag of its own, which hides the inherited one; the
  model has the one flag the code reads.
\<close>

record bpred_bimode_sc_t = bpred_sc_t +
  bhr :: nat
  select_ctr :: nat
  pred_ctr :: "nat \<times> nat"
  lookup_bhr :: cint

record bpred_bimode_t = bpred_dir_t +
  bht_size :: cint
  bht_mask :: cint
  bht :: "cint list"
  pht_size :: cint
  pht_mask :: cint
  pht :: "my2bc_t list list"
  pht_meta :: "my2bc_t list"
  history_length :: cint
  history_mask :: cint
  Xor :: cint
  xorshift :: cint

definition bpred_bimode_create ::
  "string \<Rightarrow> cint \<Rightarrow> cint \<Rightarrow> cint \<Rightarrow> cint \<Rightarrow> fatal + bpred_bimode_t" where
  "bpred_bimode_create arg_name arg_bht_size arg_pht_size arg_history_length arg_Xor =
     checks [(check_ppow2 arg_bht_size, Not_ppow2), (check_ppow2 arg_pht_size, Not_ppow2),
             (check_nneg arg_history_length, Not_nneg), (check_bool arg_Xor, Not_bool)]
       (bpred_dir_t.extend
         (bpred_dir_init arg_name ''bimode'' (arg_bht_size * arg_history_length + arg_pht_size * 6))
         (bpred_bimode_t.fields arg_bht_size (arg_bht_size - 1) (replicate (unat arg_bht_size) 0)
           arg_pht_size (arg_pht_size - 1)
           [replicate (unat arg_pht_size) MY2BC_WEAKLY_NT,
            replicate (unat arg_pht_size) MY2BC_WEAKLY_TAKEN]
           (map weak_init [0..<unat arg_pht_size])
           arg_history_length (history_mask_of arg_history_length) arg_Xor
           (xorshift_of arg_Xor arg_pht_size arg_history_length)))"

definition pht_at :: "'a bpred_bimode_t_scheme \<Rightarrow> nat \<times> nat \<Rightarrow> my2bc_t" where
  "pht_at s c = pht s ! fst c ! snd c"

definition bpred_bimode_lookup :: "(bpred_bimode_t, bpred_bimode_sc_t) lookup_fn" where
  "bpred_bimode_lookup s sc PC tPC oPC outcome =
     (let l1index = unat (pc_mask PC (bht_mask s));
          h = bht s ! l1index;
          l2index = unat (l2_index (Xor s) (xorshift s) (history_length s) (pht_mask s) PC h);
          sel = pc_index PC (pht_mask s);
          select = MY2BC_DIR (pht_meta s ! sel);
          c = (if select then 1 else 0, l2index);
          pred = MY2BC_DIR (pht_at s c);
          sc' = sc\<lparr>bhr := l1index, select_ctr := sel, pred_ctr := c, updated := False,
                   lookup_bhr := h\<rparr>
      in (pred, bpred_dir_count_lookup s, sc'))"

definition bpred_bimode_update :: "(bpred_bimode_t, bpred_bimode_sc_t) update_fn" where
  "bpred_bimode_update s sc PC tPC oPC outcome our_pred =
     (let (t, i) = pred_ctr sc; m = select_ctr sc;
          select = MY2BC_DIR (pht_meta s ! m);
          pred = MY2BC_DIR (pht_at s (t, i));
          s1 = s\<lparr>pht := (pht s)[t := (pht s ! t)[i := MY2BC_UPDATE (pht_at s (t, i)) outcome]]\<rparr>;
          s2 = (if \<not> (pred = outcome \<and> select \<noteq> outcome)
                then s1\<lparr>pht_meta := (pht_meta s1)[m := MY2BC_UPDATE (pht_meta s1 ! m) outcome]\<rparr>
                else s1)
      in bpred_dir_update s2 sc outcome our_pred)"

definition bpred_bimode_spec_update :: "(bpred_bimode_t, bpred_bimode_sc_t) update_fn" where
  "bpred_bimode_spec_update s sc PC tPC oPC outcome our_pred =
     (let s1 = bpred_dir_spec_update s; b = bhr sc
      in (s1\<lparr>bht := (bht s1)[b := shift_in (bht s1 ! b) our_pred AND history_mask s1]\<rparr>, sc))"

definition bpred_bimode_recover :: "(bpred_bimode_t, bpred_bimode_sc_t) recover_fn" where
  "bpred_bimode_recover s sc outcome =
     (if bht_size s = 1 then s\<lparr>bht := (bht s)[0 := shift_in (lookup_bhr sc) outcome]\<rparr> else s)"

definition bpred_bimode_flush :: "(bpred_bimode_t, bpred_bimode_sc_t) flush_fn" where
  "bpred_bimode_flush s sc =
     (if bht_size s = 1 then s\<lparr>bht := (bht s)[0 := lookup_bhr sc]\<rparr> else s)"

definition bpred_bimode_get_cache :: bpred_bimode_sc_t where
  "bpred_bimode_get_cache =
     \<lparr>updated = False, bhr = 0, select_ctr = 0, pred_ctr = (0, 0), lookup_bhr = 0\<rparr>"

section \<open>Invariant\<close>

definition bpred_bimode_inv :: "bpred_bimode_t \<Rightarrow> bool" where
  "bpred_bimode_inv s \<longleftrightarrow> check_ppow2 (bht_size s) \<and> check_ppow2 (pht_size s) \<and>
     bht_mask s = bht_size s - 1 \<and> pht_mask s = pht_size s - 1 \<and>
     length (bht s) = unat (bht_size s) \<and> length (pht_meta s) = unat (pht_size s) \<and>
     length (pht s) = 2 \<and> list_all (\<lambda>t. length t = unat (pht_size s) \<and> list_all ctr_ok t) (pht s) \<and>
     history_mask s = history_mask_of (history_length s) \<and> list_all ctr_ok (pht_meta s)"

definition bpred_bimode_sc_ok :: "bpred_bimode_t \<Rightarrow> bpred_bimode_sc_t \<Rightarrow> bool" where
  "bpred_bimode_sc_ok s sc \<longleftrightarrow> select_ctr sc < length (pht_meta s) \<and> bhr sc < length (bht s) \<and>
     fst (pred_ctr sc) < 2 \<and> snd (pred_ctr sc) < unat (pht_size s)"

lemma bpred_bimode_create_inv: "bpred_bimode_create nm b p h x = Inr s \<Longrightarrow> bpred_bimode_inv s"
  by (auto simp: bpred_bimode_create_def checks_Inr_iff bpred_bimode_inv_def bpred_bimode_t.defs
      bpred_dir_t.defs list_all_iff)

lemma bpred_dir_bimode [simp]:
  "bpred_bimode_inv (bpred_dir_count_lookup s) = bpred_bimode_inv s"
  "bpred_bimode_inv (bpred_dir_spec_update s) = bpred_bimode_inv s"
  "bpred_bimode_inv (fst (bpred_dir_update s sc a b)) = bpred_bimode_inv s"
  "bpred_bimode_sc_ok (bpred_dir_count_lookup s) = bpred_bimode_sc_ok s"
  "bpred_bimode_sc_ok (bpred_dir_spec_update s) = bpred_bimode_sc_ok s"
  "bpred_bimode_sc_ok (fst (bpred_dir_update s sc a b)) = bpred_bimode_sc_ok s"
  "bpred_bimode_sc_ok s (snd (bpred_dir_update s' sc' a b)) = bpred_bimode_sc_ok s sc'"
  by (auto simp: bpred_dir_defs bpred_bimode_inv_def bpred_bimode_sc_ok_def fun_eq_iff)

lemma bpred_bimode_set_pht [simp]:
  "bpred_bimode_inv s \<Longrightarrow> t < 2 \<Longrightarrow>
     bpred_bimode_inv (s\<lparr>pht := (pht s)[t := (pht s ! t)[i := MY2BC_UPDATE v outcome]]\<rparr>)"
  "bpred_bimode_sc_ok (s\<lparr>pht := x\<rparr>) = bpred_bimode_sc_ok s"
  by (auto simp: bpred_bimode_inv_def bpred_bimode_sc_ok_def fun_eq_iff
      intro!: list_all_update dest: list_all_nth)

lemma bpred_bimode_set_meta [simp]:
  "bpred_bimode_inv s \<Longrightarrow> bpred_bimode_inv (s\<lparr>pht_meta := (pht_meta s)[m := MY2BC_UPDATE v outcome]\<rparr>)"
  "length x = length (pht_meta s) \<Longrightarrow> bpred_bimode_sc_ok (s\<lparr>pht_meta := x\<rparr>) = bpred_bimode_sc_ok s"
  by (auto simp: bpred_bimode_inv_def bpred_bimode_sc_ok_def fun_eq_iff intro!: list_all_update)

lemma bpred_bimode_set_bht [simp]:
  "bpred_bimode_inv s \<Longrightarrow> bpred_bimode_inv (s\<lparr>bht := (bht s)[i := h]\<rparr>)"
  "bpred_bimode_sc_ok (s\<lparr>bht := (bht s)[i := h]\<rparr>) = bpred_bimode_sc_ok s"
  by (auto simp: bpred_bimode_inv_def bpred_bimode_sc_ok_def fun_eq_iff)

lemmas bpred_bimode_ops = bpred_bimode_lookup_def bpred_bimode_update_def
  bpred_bimode_spec_update_def bpred_bimode_recover_def bpred_bimode_flush_def

lemma bpred_bimode_update_ok:
  assumes "bpred_bimode_inv s" and "bpred_bimode_sc_ok s sc"
    and u: "bpred_bimode_update s sc PC tPC oPC outcome our_pred = (s', sc')"
  shows "bpred_bimode_inv s' \<and> bpred_bimode_sc_ok s' = bpred_bimode_sc_ok s \<and>
    bpred_bimode_sc_ok s' sc'"
proof -
  obtain t i where c: "pred_ctr sc = (t, i)" by force
  have "t < 2" using assms(2) c by (simp add: bpred_bimode_sc_ok_def)
  let ?s1 = "s\<lparr>pht := (pht s)[t := (pht s ! t)[i := MY2BC_UPDATE (pht_at s (t, i)) outcome]]\<rparr>"
  have s1: "bpred_bimode_inv ?s1" using assms(1) \<open>t < 2\<close> by simp
  have s2: "bpred_bimode_inv (?s1\<lparr>pht_meta := (pht_meta ?s1)[m := MY2BC_UPDATE v outcome]\<rparr>)" for m v
    using s1 by (rule bpred_bimode_set_meta)
  show ?thesis using u c s1 s2 assms(2)
    by (auto simp: bpred_bimode_update_def Let_def prod_eq_iff split: if_splits)
qed

interpretation pbimode: dir_predictor bpred_bimode_inv bpred_bimode_sc_ok bpred_dir_t.truncate
  bpred_sc_t.truncate bpred_bimode_lookup bpred_bimode_update bpred_bimode_spec_update
  bpred_bimode_recover bpred_bimode_flush
proof (unfold_locales, goal_cases)
  case (1 s sc PC tPC oPC outcome p s' sc')
  then show ?case
    by (auto simp: bpred_bimode_ops Let_def,
        auto simp: bpred_bimode_inv_def bpred_bimode_sc_ok_def l2_index_def)
next
  case (3 s sc PC tPC oPC outcome our_pred s' sc')
  then show ?case using bpred_bimode_update_ok [OF 3] by metis
next
  case (4 s sc PC tPC oPC outcome our_pred s' sc')
  then show ?case
    by (intro bpred_dir_update_via [OF 4 [unfolded bpred_bimode_update_def Let_def split_beta]])
      (simp add: bpred_dir_t.truncate_def)
next
  case (5 s sc PC tPC oPC outcome our_pred s' sc')
  then show ?case by (auto simp: bpred_bimode_ops Let_def)
qed (auto simp: bpred_bimode_ops Let_def split_beta
    bpred_dir_t.truncate_def bpred_sc_t.truncate_def bpred_dir_count_lookup_def
    bpred_dir_spec_update_def bpred_dir_update_def)

lemma bpred_bimode_glob_index: "bpred_bimode_inv s \<Longrightarrow> bht_size s = 1 \<Longrightarrow>
    pc_mask PC (bht_mask s) = 0 \<and> length (bht s) = 1"
  by (simp add: bpred_bimode_inv_def pc_mask_eq)

interpretation pbimode_hist: spec_history bpred_bimode_inv bpred_bimode_sc_ok bpred_dir_t.truncate
  bpred_sc_t.truncate bpred_bimode_lookup bpred_bimode_update bpred_bimode_spec_update
  bpred_bimode_recover bpred_bimode_flush "\<lambda>s. bht_size s = 1" "\<lambda>s. bht s ! 0" history_mask
  lookup_bhr
proof (unfold_locales, goal_cases)
  case (1 s sc PC tPC oPC outcome p s' sc')
  then show ?case
    by (auto simp: bpred_bimode_ops Let_def bpred_dir_defs bpred_bimode_glob_index split: if_splits)
next
  case (4 s sc PC tPC oPC outcome our_pred s' sc')
  then show ?case
    by (auto simp: bpred_bimode_ops Let_def bpred_dir_defs bpred_bimode_sc_ok_def
        bpred_bimode_glob_index split: if_splits)
qed (auto simp: bpred_bimode_ops Let_def split_beta bpred_dir_defs bpred_bimode_glob_index
    split: if_splits)

end
