(* ===== verification/Bpred_Skewed.thy ===== *)
theory Bpred_Skewed
  imports Bpred_Dir
begin

text \<open>
  The skewed predictor \<^verbatim>\<open>bpred_skewed_t\<close> (\<^verbatim>\<open>xiosim/ZCOMPS-bpred/bpred-skewed.cpp\<close>): three
  tables of two-bit counters indexed by three skewing functions, meant to vote. The vote is
  accumulated in a C++ \<^verbatim>\<open>bool\<close>; the model keeps the conversions that this implies.
\<close>

record bpred_skewed_sc_t = bpred_sc_t +
  pht_ctr :: "nat list"
  bhr :: nat
  pred :: bool
  lookup_bhr :: cint

record bpred_skewed_t = bpred_dir_t +
  partial_update :: bool
  enhanced :: bool
  double_bim :: bool
  bht_size :: cint
  bht_mask :: cint
  bht :: "cint list"
  pht_size :: cint
  pht_mask :: cint
  pht :: "my2bc_t list list"
  history_length :: cint
  history_mask :: cint
  half_length :: cint
  half_mask :: cint
  high_mask :: cint

definition bpred_skewed_create ::
  "string \<Rightarrow> cint \<Rightarrow> cint \<Rightarrow> cint \<Rightarrow> cint \<Rightarrow> cint \<Rightarrow> cint \<Rightarrow> fatal + bpred_skewed_t" where
  "bpred_skewed_create arg_name arg_bht_size arg_pht_size arg_history_length arg_partial_update
      arg_enhanced arg_double_bim =
     checks [(check_ppow2 arg_bht_size, Not_ppow2), (check_ppow2 arg_pht_size, Not_ppow2),
             (check_nneg arg_history_length, Not_nneg), (check_bool arg_enhanced, Not_bool),
             (check_bool arg_double_bim, Not_bool), (check_bool arg_partial_update, Not_bool)]
       (let n = unat arg_pht_size; dbl = (arg_double_bim \<noteq> 0)
        in bpred_dir_t.extend
         (bpred_dir_init arg_name ''skewed''
           (if dbl then arg_bht_size * arg_history_length + arg_pht_size * 8
            else arg_bht_size * arg_history_length + arg_pht_size * 6))
         (bpred_skewed_t.fields (arg_partial_update \<noteq> 0) (arg_enhanced \<noteq> 0) dbl
           arg_bht_size (arg_bht_size - 1) (replicate (unat arg_bht_size) 0)
           arg_pht_size (arg_pht_size - 1)
           [map weak_init [0..<n] @ (if dbl then map weak_init [0..<n] else []),
            map (\<lambda>i. if even i then MY2BC_WEAKLY_TAKEN else MY2BC_WEAKLY_NT) [0..<n],
            map weak_init [0..<n]]
           arg_history_length (history_mask_of arg_history_length)
           (log2_int arg_pht_size) (arg_pht_size - 1) (sar arg_pht_size 1)))"

text \<open>The shuffle \<^verbatim>\<open>H\<close> of the skewing functions and its inverse, on the low \<^verbatim>\<open>half_length\<close> bits.\<close>

definition skew_H :: "'a bpred_skewed_t_scheme \<Rightarrow> cint \<Rightarrow> cint" where
  "skew_H s v = sar v 1 OR ((v AND high_mask s) XOR shl (v AND 1) (half_length s - 1))"

definition skew_Hinv :: "'a bpred_skewed_t_scheme \<Rightarrow> cint \<Rightarrow> cint" where
  "skew_Hinv s v = push_bit 1 v OR
     sar ((v AND high_mask s) XOR push_bit 1 (v AND sar (high_mask s) 1)) (half_length s - 1)"

definition skew_index :: "bpred_skewed_t \<Rightarrow> md_addr_t \<Rightarrow> cint \<Rightarrow> cint list" where
  "skew_index s PC h =
     (let l2index_base = ucast (push_bit (unat (history_length s)) PC OR scast h);
          v2 = sar l2index_base (half_length s) AND half_mask s;
          v1 = l2index_base AND half_mask s;
          i0 = (if \<not> enhanced s then skew_H s v1 XOR skew_Hinv s v2 XOR v2 else ucast PC);
          i1 = skew_H s v1 XOR skew_Hinv s v2 XOR v1;
          i2 = skew_H s v2 XOR skew_Hinv s v1 XOR v2
      in [i0 AND (if double_bim s then push_bit 1 (pht_mask s) OR 1 else pht_mask s),
          i1 AND pht_mask s, i2 AND pht_mask s])"

text \<open>
  \<^verbatim>\<open>bool pred; pred = d0; pred += d1; pred += d2; pred >>= 1;\<close>: each assignment
  converts the \<^verbatim>\<open>int\<close> result back to \<^verbatim>\<open>bool\<close>.
\<close>

definition skew_vote :: "bool \<Rightarrow> bool \<Rightarrow> bool \<Rightarrow> bool" where
  "skew_vote d0 d1 d2 =
     (let p = d0;
          p = ((of_bool p + of_bool d1 :: cint) \<noteq> 0);
          p = ((of_bool p + of_bool d2 :: cint) \<noteq> 0)
      in sar (of_bool p) 1 \<noteq> 0)"

definition bpred_skewed_lookup :: "(bpred_skewed_t, bpred_skewed_sc_t) lookup_fn" where
  "bpred_skewed_lookup s sc PC tPC oPC outcome =
     (let l1index = unat (pc_mask PC (bht_mask s));
          h = bht s ! l1index;
          c = map unat (skew_index s PC h);
          p = skew_vote (MY2BC_DIR (pht s ! 0 ! (c ! 0))) (MY2BC_DIR (pht s ! 1 ! (c ! 1)))
                (MY2BC_DIR (pht s ! 2 ! (c ! 2)));
          sc' = sc\<lparr>bhr := l1index, pht_ctr := c, pred := p, updated := False, lookup_bhr := h\<rparr>
      in (p, bpred_dir_count_lookup s, sc'))"

definition skew_upd :: "bool \<Rightarrow> bool \<Rightarrow> nat list \<Rightarrow> my2bc_t list list \<Rightarrow> nat \<Rightarrow> my2bc_t list list" where
  "skew_upd partial outcome c tbls k =
     (let v = tbls ! k ! (c ! k)
      in if partial \<and> MY2BC_DIR v \<noteq> outcome then tbls
         else tbls[k := (tbls ! k)[c ! k := MY2BC_UPDATE v outcome]])"

definition bpred_skewed_update :: "(bpred_skewed_t, bpred_skewed_sc_t) update_fn" where
  "bpred_skewed_update s sc PC tPC oPC outcome our_pred =
     (let partial = (pred sc = outcome \<and> partial_update s);
          s1 = s\<lparr>pht := foldl (skew_upd partial outcome (pht_ctr sc)) (pht s) [0, 1, 2]\<rparr>
      in bpred_dir_update s1 sc outcome our_pred)"

definition bpred_skewed_spec_update :: "(bpred_skewed_t, bpred_skewed_sc_t) update_fn" where
  "bpred_skewed_spec_update s sc PC tPC oPC outcome our_pred =
     (let s1 = bpred_dir_spec_update s; b = bhr sc
      in (s1\<lparr>bht := (bht s1)[b := shift_in (bht s1 ! b) our_pred AND history_mask s1]\<rparr>, sc))"

definition bpred_skewed_recover :: "(bpred_skewed_t, bpred_skewed_sc_t) recover_fn" where
  "bpred_skewed_recover s sc outcome =
     (if bht_size s = 1 then s\<lparr>bht := (bht s)[0 := shift_in (lookup_bhr sc) outcome]\<rparr> else s)"

definition bpred_skewed_flush :: "(bpred_skewed_t, bpred_skewed_sc_t) flush_fn" where
  "bpred_skewed_flush s sc =
     (if bht_size s = 1 then s\<lparr>bht := (bht s)[0 := lookup_bhr sc]\<rparr> else s)"

definition bpred_skewed_get_cache :: bpred_skewed_sc_t where
  "bpred_skewed_get_cache =
     \<lparr>updated = False, pht_ctr = [0, 0, 0], bhr = 0, pred = False, lookup_bhr = 0\<rparr>"

section \<open>Invariant\<close>

definition pht_shape :: "bpred_skewed_t \<Rightarrow> my2bc_t list list \<Rightarrow> bool" where
  "pht_shape s tbls \<longleftrightarrow> length tbls = 3 \<and> list_all (list_all ctr_ok) tbls \<and>
     length (tbls ! 0) = (if double_bim s then 2 * unat (pht_size s) else unat (pht_size s)) \<and>
     length (tbls ! 1) = unat (pht_size s) \<and> length (tbls ! 2) = unat (pht_size s)"

definition bpred_skewed_inv :: "bpred_skewed_t \<Rightarrow> bool" where
  "bpred_skewed_inv s \<longleftrightarrow> check_ppow2 (bht_size s) \<and> check_ppow2 (pht_size s) \<and>
     bht_mask s = bht_size s - 1 \<and> pht_mask s = pht_size s - 1 \<and>
     length (bht s) = unat (bht_size s) \<and> pht_shape s (pht s) \<and>
     history_mask s = history_mask_of (history_length s)"

definition bpred_skewed_sc_ok :: "bpred_skewed_t \<Rightarrow> bpred_skewed_sc_t \<Rightarrow> bool" where
  "bpred_skewed_sc_ok s sc \<longleftrightarrow> bhr sc < length (bht s) \<and> length (pht_ctr sc) = 3 \<and>
     (\<forall>k<3. pht_ctr sc ! k < length (pht s ! k))"

lemma bpred_skewed_create_inv: "bpred_skewed_create nm b p h u e d = Inr s \<Longrightarrow> bpred_skewed_inv s"
  by (auto simp: bpred_skewed_create_def checks_Inr_iff bpred_skewed_inv_def bpred_skewed_t.defs
      bpred_dir_t.defs list_all_iff pht_shape_def Let_def nth_append)

lemma double_mask:
  assumes "check_ppow2 m"
  shows "unat (x AND (push_bit 1 (m - 1) OR 1)) < 2 * unat m"
proof -
  have dbl: "push_bit 1 y OR 1 = 2 * y + 1" "unat (2 * y + 1) \<le> 2 * unat y + 1" for y :: cint
    by (simp_all add: or_one_eq push_bit_eq_mult unat_word_ariths)
  have "unat (push_bit 1 (m - 1) OR 1) \<le> 2 * unat (m - 1) + 1"
    using dbl(2) [of "m - 1"] by (simp only: dbl(1))
  moreover have "unat (x AND (push_bit 1 (m - 1) OR 1)) \<le> unat (push_bit 1 (m - 1) OR 1)"
    by (rule unat_and_le)
  ultimately show ?thesis using ppow2_minus_one [OF assms] by simp
qed

lemma less_3_cases: "k < 3 \<longleftrightarrow> k = 0 \<or> k = 1 \<or> k = (2::nat)"
  by auto

lemma skew_index_bounds:
  assumes "bpred_skewed_inv s" and "k < 3"
  shows "unat (skew_index s PC h ! k) < length (pht s ! k)"
  using assms double_mask [of "pht_size s"]
  by (auto simp: less_3_cases bpred_skewed_inv_def pht_shape_def skew_index_def Let_def)

lemma pht_shape_upd:
  assumes "pht_shape s tbls" and "k < 3"
  shows "pht_shape s (skew_upd partial outcome c tbls k) \<and>
    (\<forall>j<3. length (skew_upd partial outcome c tbls k ! j) = length (tbls ! j))"
proof -
  have "list_all ctr_ok (tbls ! k)" using assms by (auto simp: pht_shape_def dest: list_all_nth)
  then have "list_all (list_all ctr_ok) (tbls[k := (tbls ! k)[c ! k := MY2BC_UPDATE v outcome]])" for v
    using assms by (auto simp: pht_shape_def intro!: list_all_update)
  then show ?thesis using assms
    by (auto simp: pht_shape_def skew_upd_def Let_def less_3_cases nth_list_update)
qed

lemma pht_shape_foldl:
  assumes "pht_shape s tbls" and "\<forall>k \<in> set ks. k < 3"
  shows "pht_shape s (foldl (skew_upd partial outcome c) tbls ks) \<and>
    (\<forall>j<3. length (foldl (skew_upd partial outcome c) tbls ks ! j) = length (tbls ! j))"
  using assms
proof (induction ks arbitrary: tbls)
  case (Cons k ks)
  then show ?case using pht_shape_upd [of s tbls k partial outcome c] by simp
qed simp

lemma pht_shape_cong: "double_bim s = double_bim t \<Longrightarrow> pht_size s = pht_size t \<Longrightarrow>
    pht_shape s = pht_shape t"
  by (simp add: pht_shape_def fun_eq_iff)

lemma bpred_dir_skewed [simp]:
  "bpred_skewed_inv (bpred_dir_count_lookup s) = bpred_skewed_inv s"
  "bpred_skewed_inv (bpred_dir_spec_update s) = bpred_skewed_inv s"
  "bpred_skewed_inv (fst (bpred_dir_update s sc a b)) = bpred_skewed_inv s"
  "bpred_skewed_sc_ok (bpred_dir_count_lookup s) = bpred_skewed_sc_ok s"
  "bpred_skewed_sc_ok (bpred_dir_spec_update s) = bpred_skewed_sc_ok s"
  "bpred_skewed_sc_ok (fst (bpred_dir_update s sc a b)) = bpred_skewed_sc_ok s"
  "bpred_skewed_sc_ok s (snd (bpred_dir_update s' sc' a b)) = bpred_skewed_sc_ok s sc'"
  by (auto simp: bpred_dir_defs bpred_skewed_inv_def bpred_skewed_sc_ok_def pht_shape_def fun_eq_iff)

lemma bpred_skewed_set_bht [simp]:
  "bpred_skewed_inv s \<Longrightarrow> bpred_skewed_inv (s\<lparr>bht := (bht s)[i := h]\<rparr>)"
  "bpred_skewed_sc_ok (s\<lparr>bht := (bht s)[i := h]\<rparr>) = bpred_skewed_sc_ok s"
  by (auto simp: bpred_skewed_inv_def bpred_skewed_sc_ok_def pht_shape_def fun_eq_iff)

lemmas bpred_skewed_ops = bpred_skewed_lookup_def bpred_skewed_update_def
  bpred_skewed_spec_update_def bpred_skewed_recover_def bpred_skewed_flush_def

lemma bpred_skewed_update_ok:
  assumes inv: "bpred_skewed_inv s" and ok: "bpred_skewed_sc_ok s sc"
    and u: "bpred_skewed_update s sc PC tPC oPC outcome our_pred = (s', sc')"
  shows "bpred_skewed_inv s' \<and> bpred_skewed_sc_ok s' sc' \<and>
    (\<forall>x. bpred_skewed_sc_ok s x \<longrightarrow> bpred_skewed_sc_ok s' x)"
proof -
  define tbls where "tbls = foldl (skew_upd (pred sc = outcome \<and> partial_update s) outcome
    (pht_ctr sc)) (pht s) [0, 1, 2]"
  have "pht_shape s tbls \<and> (\<forall>j<3. length (tbls ! j) = length (pht s ! j))"
    unfolding tbls_def using inv by (intro pht_shape_foldl) (auto simp: bpred_skewed_inv_def)
  then have "bpred_skewed_inv (s\<lparr>pht := tbls\<rparr>)"
    and "bpred_skewed_sc_ok (s\<lparr>pht := tbls\<rparr>) = bpred_skewed_sc_ok s"
    using inv by (auto simp: bpred_skewed_inv_def bpred_skewed_sc_ok_def pht_shape_def fun_eq_iff)
  moreover have "bpred_dir_update (s\<lparr>pht := tbls\<rparr>) sc outcome our_pred = (s', sc')"
    using u by (simp only: bpred_skewed_update_def Let_def tbls_def)
  ultimately show ?thesis using ok by (auto simp: prod_eq_iff)
qed

interpretation pskewed: dir_predictor bpred_skewed_inv bpred_skewed_sc_ok bpred_dir_t.truncate
  bpred_sc_t.truncate bpred_skewed_lookup bpred_skewed_update bpred_skewed_spec_update
  bpred_skewed_recover bpred_skewed_flush
proof (unfold_locales, goal_cases)
  case (1 s sc PC tPC oPC outcome p s' sc')
  then have "unat (pc_mask PC (bht_mask s)) < length (bht s)"
    by (simp add: bpred_skewed_inv_def)
  moreover have "length (skew_index s PC h) = 3" for h by (simp add: skew_index_def Let_def)
  ultimately show ?case using 1 skew_index_bounds
    by (auto simp: bpred_skewed_lookup_def Let_def) (auto simp: bpred_skewed_sc_ok_def)
next
  case (3 s sc PC tPC oPC outcome our_pred s' sc')
  then show ?case using bpred_skewed_update_ok by blast
next
  case (5 s sc PC tPC oPC outcome our_pred s' sc')
  then show ?case by (auto simp: bpred_skewed_ops Let_def)
qed (auto simp: bpred_skewed_ops Let_def split_beta
    bpred_dir_t.truncate_def bpred_sc_t.truncate_def bpred_dir_count_lookup_def
    bpred_dir_spec_update_def bpred_dir_update_def)

lemma bpred_skewed_glob_index: "bpred_skewed_inv s \<Longrightarrow> bht_size s = 1 \<Longrightarrow>
    pc_mask PC (bht_mask s) = 0 \<and> length (bht s) = 1"
  by (simp add: bpred_skewed_inv_def pc_mask_eq)

interpretation pskewed_hist: spec_history bpred_skewed_inv bpred_skewed_sc_ok bpred_dir_t.truncate
  bpred_sc_t.truncate bpred_skewed_lookup bpred_skewed_update bpred_skewed_spec_update
  bpred_skewed_recover bpred_skewed_flush "\<lambda>s. bht_size s = 1" "\<lambda>s. bht s ! 0" history_mask
  lookup_bhr
proof (unfold_locales, goal_cases)
  case (1 s sc PC tPC oPC outcome p s' sc')
  then show ?case
    by (auto simp: bpred_skewed_ops Let_def bpred_dir_defs bpred_skewed_glob_index split: if_splits)
next
  case (4 s sc PC tPC oPC outcome our_pred s' sc')
  then show ?case
    by (auto simp: bpred_skewed_ops Let_def bpred_dir_defs bpred_skewed_sc_ok_def
        bpred_skewed_glob_index split: if_splits)
qed (auto simp: bpred_skewed_ops Let_def bpred_dir_defs bpred_skewed_glob_index split: if_splits)

section \<open>The vote\<close>

lemma skew_vote_False [simp]: "skew_vote d0 d1 d2 = False"
  by (simp add: skew_vote_def Let_def sar_def)

end
