(* ===== verification/Bpred_Yags.thy ===== *)
theory Bpred_Yags
  imports Bpred_Dir
begin

text \<open>
  The YAGS predictor \<^verbatim>\<open>bpred_yags_t\<close> (\<^verbatim>\<open>xiosim/ZCOMPS-bpred/bpred-yags.cpp\<close>): a choice table and
  two small tagged caches that hold the exceptions to the choice. A pointer to a cache entry
  is the cache it is in (\<open>True\<close> for \<^verbatim>\<open>NT_cache\<close>) and the index there. Tags are stored in an
  \<^verbatim>\<open>unsigned char\<close> and compared as full words.
\<close>

record yags_cache_t =
  tag :: uchar
  ctr :: my2bc_t

record bpred_yags_sc_t = bpred_sc_t +
  pht_ctr :: nat
  cache_entry :: "bool \<times> nat"
  bhr :: nat
  tag_match :: bool
  pred :: bool
  choice :: bool
  lookup_bhr :: cint

record bpred_yags_t = bpred_dir_t +
  bht_size :: cint
  bht_mask :: cint
  bht :: "cint list"
  pht_size :: cint
  pht_mask :: cint
  tag_width :: cint
  tag_mask :: cint
  cache_size :: cint
  cache_mask :: cint
  pht :: "my2bc_t list"
  T_cache :: "yags_cache_t list"
  NT_cache :: "yags_cache_t list"
  history_length :: cint
  history_mask :: cint
  Xor :: cint
  xorshift :: cint

definition bpred_yags_create ::
  "string \<Rightarrow> cint \<Rightarrow> cint \<Rightarrow> cint \<Rightarrow> cint \<Rightarrow> cint \<Rightarrow> cint \<Rightarrow> fatal + bpred_yags_t" where
  "bpred_yags_create arg_name arg_bht_size arg_pht_size arg_history_length arg_Xor arg_cache_size
      arg_tag_width =
     checks [(check_ppow2 arg_bht_size, Not_ppow2), (check_ppow2 arg_pht_size, Not_ppow2),
             (check_ppow2 arg_cache_size, Not_ppow2), (check_nneg arg_history_length, Not_nneg),
             (check_bool arg_Xor, Not_bool)]
       (bpred_dir_t.extend
         (bpred_dir_init arg_name ''yags'' (arg_bht_size * arg_history_length + arg_pht_size * 2
           + (arg_tag_width + 2) * arg_cache_size * 2))
         (bpred_yags_t.fields arg_bht_size (arg_bht_size - 1) (replicate (unat arg_bht_size) 0)
           arg_pht_size (arg_pht_size - 1) arg_tag_width (shl 1 arg_tag_width - 1)
           arg_cache_size (arg_cache_size - 1) (map weak_init [0..<unat arg_pht_size])
           (replicate (unat arg_cache_size) \<lparr>tag = 0, ctr = MY2BC_WEAKLY_TAKEN\<rparr>)
           (replicate (unat arg_cache_size) \<lparr>tag = 0, ctr = MY2BC_WEAKLY_NT\<rparr>)
           arg_history_length (history_mask_of arg_history_length) arg_Xor
           (xorshift_of arg_Xor arg_cache_size arg_history_length)))"

definition entry_at :: "'a bpred_yags_t_scheme \<Rightarrow> bool \<times> nat \<Rightarrow> yags_cache_t" where
  "entry_at s e = (if fst e then NT_cache s ! snd e else T_cache s ! snd e)"

definition set_entry :: "bool \<times> nat \<Rightarrow> yags_cache_t \<Rightarrow> bpred_yags_t \<Rightarrow> bpred_yags_t" where
  "set_entry e v s =
     (if fst e then s\<lparr>NT_cache := (NT_cache s)[snd e := v]\<rparr>
      else s\<lparr>T_cache := (T_cache s)[snd e := v]\<rparr>)"

definition bpred_yags_lookup :: "(bpred_yags_t, bpred_yags_sc_t) lookup_fn" where
  "bpred_yags_lookup s sc PC tPC oPC outcome =
     (let l1index = unat (pc_mask PC (bht_mask s));
          h = bht s ! l1index;
          pc = pc_index PC (pht_mask s);
          ch = MY2BC_DIR (pht s ! pc);
          l2index = unat (l2_index (Xor s) (xorshift s) (history_length s) (cache_mask s) PC h);
          e = (ch, l2index);
          tm = (ucast (tag (entry_at s e)) = PC AND scast (tag_mask s));
          p = (if tm then MY2BC_DIR (ctr (entry_at s e)) else ch);
          sc' = sc\<lparr>bhr := l1index, pht_ctr := pc, choice := ch, cache_entry := e, tag_match := tm,
                   pred := p, updated := False, lookup_bhr := h\<rparr>
      in (p, bpred_dir_count_lookup s, sc'))"

definition bpred_yags_update :: "(bpred_yags_t, bpred_yags_sc_t) update_fn" where
  "bpred_yags_update s sc PC tPC oPC outcome our_pred =
     (let p = pred sc; ch = choice sc; e = cache_entry sc; v = entry_at s e;
          v1 = v\<lparr>ctr := MY2BC_UPDATE (ctr v) outcome\<rparr>;
          s1 = (if tag_match sc then set_entry e v1 s
                else if ch \<noteq> outcome then set_entry e (v1\<lparr>tag := ucast (PC AND scast (tag_mask s))\<rparr>) s
                else s);
          c = pht_ctr sc;
          s2 = (if \<not> (p = outcome \<and> ch \<noteq> outcome)
                then s1\<lparr>pht := (pht s1)[c := MY2BC_UPDATE (pht s1 ! c) outcome]\<rparr> else s1)
      in bpred_dir_update s2 sc outcome our_pred)"

definition bpred_yags_spec_update :: "(bpred_yags_t, bpred_yags_sc_t) update_fn" where
  "bpred_yags_spec_update s sc PC tPC oPC outcome our_pred =
     (let s1 = bpred_dir_spec_update s; b = bhr sc
      in (s1\<lparr>bht := (bht s1)[b := shift_in (bht s1 ! b) our_pred AND history_mask s1]\<rparr>, sc))"

definition bpred_yags_recover :: "(bpred_yags_t, bpred_yags_sc_t) recover_fn" where
  "bpred_yags_recover s sc outcome =
     (if bht_size s = 1 then s\<lparr>bht := (bht s)[0 := shift_in (lookup_bhr sc) outcome]\<rparr> else s)"

definition bpred_yags_flush :: "(bpred_yags_t, bpred_yags_sc_t) flush_fn" where
  "bpred_yags_flush s sc =
     (if bht_size s = 1 then s\<lparr>bht := (bht s)[0 := lookup_bhr sc]\<rparr> else s)"

definition bpred_yags_get_cache :: bpred_yags_sc_t where
  "bpred_yags_get_cache =
     \<lparr>updated = False, pht_ctr = 0, cache_entry = (False, 0), bhr = 0, tag_match = False,
      pred = False, choice = False, lookup_bhr = 0\<rparr>"

section \<open>Invariant\<close>

definition bpred_yags_inv :: "bpred_yags_t \<Rightarrow> bool" where
  "bpred_yags_inv s \<longleftrightarrow> check_ppow2 (bht_size s) \<and> check_ppow2 (pht_size s) \<and>
     check_ppow2 (cache_size s) \<and> bht_mask s = bht_size s - 1 \<and> pht_mask s = pht_size s - 1 \<and>
     cache_mask s = cache_size s - 1 \<and> length (bht s) = unat (bht_size s) \<and>
     length (pht s) = unat (pht_size s) \<and> length (T_cache s) = unat (cache_size s) \<and>
     length (NT_cache s) = unat (cache_size s) \<and>
     history_mask s = history_mask_of (history_length s) \<and> list_all ctr_ok (pht s) \<and>
     list_all (\<lambda>e. ctr_ok (ctr e)) (T_cache s) \<and> list_all (\<lambda>e. ctr_ok (ctr e)) (NT_cache s)"

definition bpred_yags_sc_ok :: "bpred_yags_t \<Rightarrow> bpred_yags_sc_t \<Rightarrow> bool" where
  "bpred_yags_sc_ok s sc \<longleftrightarrow> pht_ctr sc < length (pht s) \<and> bhr sc < length (bht s) \<and>
     snd (cache_entry sc) < length (T_cache s) \<and> snd (cache_entry sc) < length (NT_cache s)"

lemma bpred_yags_create_inv: "bpred_yags_create nm b p h x c t = Inr s \<Longrightarrow> bpred_yags_inv s"
  by (auto simp: bpred_yags_create_def checks_Inr_iff bpred_yags_inv_def bpred_yags_t.defs
      bpred_dir_t.defs list_all_iff)

lemma bpred_dir_yags [simp]:
  "bpred_yags_inv (bpred_dir_count_lookup s) = bpred_yags_inv s"
  "bpred_yags_inv (bpred_dir_spec_update s) = bpred_yags_inv s"
  "bpred_yags_inv (fst (bpred_dir_update s sc a b)) = bpred_yags_inv s"
  "bpred_yags_sc_ok (bpred_dir_count_lookup s) = bpred_yags_sc_ok s"
  "bpred_yags_sc_ok (bpred_dir_spec_update s) = bpred_yags_sc_ok s"
  "bpred_yags_sc_ok (fst (bpred_dir_update s sc a b)) = bpred_yags_sc_ok s"
  "bpred_yags_sc_ok s (snd (bpred_dir_update s' sc' a b)) = bpred_yags_sc_ok s sc'"
  by (auto simp: bpred_dir_defs bpred_yags_inv_def bpred_yags_sc_ok_def fun_eq_iff)

lemma bpred_yags_set [simp]:
  "bpred_yags_inv s \<Longrightarrow> bpred_yags_inv (s\<lparr>pht := (pht s)[c := MY2BC_UPDATE v outcome]\<rparr>)"
  "bpred_yags_sc_ok (s\<lparr>pht := (pht s)[c := w]\<rparr>) = bpred_yags_sc_ok s"
  "bpred_yags_inv s \<Longrightarrow> bpred_yags_inv (s\<lparr>bht := (bht s)[i := h]\<rparr>)"
  "bpred_yags_sc_ok (s\<lparr>bht := (bht s)[i := h]\<rparr>) = bpred_yags_sc_ok s"
  "bpred_yags_inv s \<Longrightarrow> ctr_ok (ctr ent) \<Longrightarrow> bpred_yags_inv (set_entry e ent s)"
  "bpred_yags_sc_ok (set_entry e ent s) = bpred_yags_sc_ok s"
  by (auto simp: bpred_yags_inv_def bpred_yags_sc_ok_def set_entry_def fun_eq_iff
      intro!: list_all_update)

lemmas bpred_yags_ops = bpred_yags_lookup_def bpred_yags_update_def
  bpred_yags_spec_update_def bpred_yags_recover_def bpred_yags_flush_def

interpretation pyags: dir_predictor bpred_yags_inv bpred_yags_sc_ok bpred_dir_t.truncate
  bpred_sc_t.truncate bpred_yags_lookup bpred_yags_update bpred_yags_spec_update
  bpred_yags_recover bpred_yags_flush
proof (unfold_locales, goal_cases)
  case (1 s sc PC tPC oPC outcome p s' sc')
  then show ?case
    by (auto simp: bpred_yags_ops Let_def,
        auto simp: bpred_yags_inv_def bpred_yags_sc_ok_def l2_index_def)
next
  case (3 s sc PC tPC oPC outcome our_pred s' sc')
  then show ?case by (auto simp: bpred_yags_update_def Let_def prod_eq_iff split: if_splits)
next
  case (4 s sc PC tPC oPC outcome our_pred s' sc')
  then show ?case
    by (intro bpred_dir_update_via [OF 4 [unfolded bpred_yags_update_def Let_def split_beta]])
      (simp add: bpred_dir_t.truncate_def set_entry_def)
next
  case (5 s sc PC tPC oPC outcome our_pred s' sc')
  then show ?case by (auto simp: bpred_yags_ops Let_def)
qed (auto simp: bpred_yags_ops Let_def split_beta set_entry_def
    bpred_dir_t.truncate_def bpred_sc_t.truncate_def bpred_dir_count_lookup_def
    bpred_dir_spec_update_def bpred_dir_update_def)

lemma bpred_yags_glob_index: "bpred_yags_inv s \<Longrightarrow> bht_size s = 1 \<Longrightarrow>
    pc_mask PC (bht_mask s) = 0 \<and> length (bht s) = 1"
  by (simp add: bpred_yags_inv_def pc_mask_eq)

interpretation pyags_hist: spec_history bpred_yags_inv bpred_yags_sc_ok bpred_dir_t.truncate
  bpred_sc_t.truncate bpred_yags_lookup bpred_yags_update bpred_yags_spec_update
  bpred_yags_recover bpred_yags_flush "\<lambda>s. bht_size s = 1" "\<lambda>s. bht s ! 0" history_mask
  lookup_bhr
proof (unfold_locales, goal_cases)
  case (1 s sc PC tPC oPC outcome p s' sc')
  then show ?case
    by (auto simp: bpred_yags_ops Let_def bpred_dir_defs bpred_yags_glob_index split: if_splits)
next
  case (4 s sc PC tPC oPC outcome our_pred s' sc')
  then show ?case
    by (auto simp: bpred_yags_ops Let_def bpred_dir_defs bpred_yags_sc_ok_def
        bpred_yags_glob_index split: if_splits)
qed (auto simp: bpred_yags_ops Let_def set_entry_def bpred_dir_defs bpred_yags_glob_index
    split: if_splits)

end
