(* ===== verification/Bpred_Static.thy ===== *)
theory Bpred_Static
  imports Bpred_Dir
begin

text \<open>
  The predictors without tables (\<^verbatim>\<open>bpred-taken.cpp\<close>, \<^verbatim>\<open>bpred-nottaken.cpp\<close>,
  \<^verbatim>\<open>bpred-btfnt.cpp\<close>, \<^verbatim>\<open>bpred-perfect.cpp\<close>, \<^verbatim>\<open>bpred-random.cpp\<close> of
  \<^verbatim>\<open>xiosim/ZCOMPS-bpred/\<close>). The first four differ in what their look-up returns and inherit
  everything else; \<^verbatim>\<open>random\<close> also counts taken branches, and the value its look-up draws
  from the C library's \<^verbatim>\<open>random()\<close> is an argument.
\<close>

definition bpred_taken_create :: bpred_dir_t where
  "bpred_taken_create = bpred_dir_init ''taken'' ''static taken'' 0"

definition bpred_nottaken_create :: bpred_dir_t where
  "bpred_nottaken_create = bpred_dir_init ''nottaken'' ''static not-taken'' 0"

definition bpred_btfnt_create :: bpred_dir_t where
  "bpred_btfnt_create = bpred_dir_init ''btfnt'' ''static btfnt'' 0"

definition bpred_perfect_create :: bpred_dir_t where
  "bpred_perfect_create = bpred_dir_init ''perfect'' ''perfect/oracle'' 0"

definition bpred_taken_lookup :: "(bpred_dir_t, bpred_sc_t) lookup_fn" where
  "bpred_taken_lookup s sc PC tPC oPC outcome =
     (True, bpred_dir_count_lookup s, sc\<lparr>updated := False\<rparr>)"

definition bpred_nottaken_lookup :: "(bpred_dir_t, bpred_sc_t) lookup_fn" where
  "bpred_nottaken_lookup s sc PC tPC oPC outcome =
     (False, bpred_dir_count_lookup s, sc\<lparr>updated := False\<rparr>)"

definition bpred_btfnt_lookup :: "(bpred_dir_t, bpred_sc_t) lookup_fn" where
  "bpred_btfnt_lookup s sc PC tPC oPC outcome =
     (tPC < PC, bpred_dir_count_lookup s, sc\<lparr>updated := False\<rparr>)"

definition bpred_perfect_lookup :: "(bpred_dir_t, bpred_sc_t) lookup_fn" where
  "bpred_perfect_lookup s sc PC tPC oPC outcome =
     (outcome, bpred_dir_count_lookup s, sc\<lparr>updated := False\<rparr>)"

text \<open>The inherited methods with the full argument lists of the interface.\<close>

definition bpred_inherited_update :: "(bpred_dir_t, bpred_sc_t) update_fn" where
  "bpred_inherited_update s sc PC tPC oPC outcome our_pred = bpred_dir_update s sc outcome our_pred"

definition bpred_inherited_spec_update :: "(bpred_dir_t, bpred_sc_t) update_fn" where
  "bpred_inherited_spec_update s sc PC tPC oPC outcome our_pred = (bpred_dir_spec_update s, sc)"

record bpred_random_t = bpred_dir_t +
  num_taken :: counter_t

definition bpred_random_create :: bpred_random_t where
  "bpred_random_create = bpred_dir_t.extend (bpred_dir_init ''random'' ''completely random'' 0)
     (bpred_random_t.fields 0)"

definition bpred_random_lookup :: "64 word \<Rightarrow> (bpred_random_t, bpred_sc_t) lookup_fn" where
  "bpred_random_lookup rnd s sc PC tPC oPC outcome =
     (rnd AND 1 \<noteq> 0, bpred_dir_count_lookup s, sc\<lparr>updated := False\<rparr>)"

definition bpred_random_update :: "(bpred_random_t, bpred_sc_t) update_fn" where
  "bpred_random_update s sc PC tPC oPC outcome our_pred =
     (let s1 = (if \<not> updated sc \<and> outcome \<and> \<not> frozen s
                then s\<lparr>num_taken := num_taken s + 1\<rparr> else s)
      in bpred_dir_update s1 sc outcome our_pred)"

definition bpred_random_spec_update :: "(bpred_random_t, bpred_sc_t) update_fn" where
  "bpred_random_spec_update s sc PC tPC oPC outcome our_pred = (bpred_dir_spec_update s, sc)"

definition bpred_random_reset_stats :: "bpred_random_t \<Rightarrow> bpred_random_t" where
  "bpred_random_reset_stats s = (bpred_dir_reset_stats s)\<lparr>num_taken := 0\<rparr>"

section \<open>Contracts\<close>

lemmas static_ops = bpred_taken_lookup_def bpred_nottaken_lookup_def bpred_btfnt_lookup_def
  bpred_perfect_lookup_def bpred_inherited_update_def bpred_inherited_spec_update_def
  bpred_dir_recover_def bpred_dir_flush_def

text \<open>The four table-free classes keep the contract with the trivial invariant.\<close>

interpretation ptaken: dir_predictor "\<lambda>_. True" "\<lambda>_ _. True" "\<lambda>s. s" "\<lambda>sc. sc"
  bpred_taken_lookup bpred_inherited_update bpred_inherited_spec_update
  bpred_dir_recover bpred_dir_flush
  by unfold_locales (auto simp: static_ops)

interpretation pnottaken: dir_predictor "\<lambda>_. True" "\<lambda>_ _. True" "\<lambda>s. s" "\<lambda>sc. sc"
  bpred_nottaken_lookup bpred_inherited_update bpred_inherited_spec_update
  bpred_dir_recover bpred_dir_flush
  by unfold_locales (auto simp: static_ops)

interpretation pbtfnt: dir_predictor "\<lambda>_. True" "\<lambda>_ _. True" "\<lambda>s. s" "\<lambda>sc. sc"
  bpred_btfnt_lookup bpred_inherited_update bpred_inherited_spec_update
  bpred_dir_recover bpred_dir_flush
  by unfold_locales (auto simp: static_ops)

interpretation pperfect: dir_predictor "\<lambda>_. True" "\<lambda>_ _. True" "\<lambda>s. s" "\<lambda>sc. sc"
  bpred_perfect_lookup bpred_inherited_update bpred_inherited_spec_update
  bpred_dir_recover bpred_dir_flush
  by unfold_locales (auto simp: static_ops)

interpretation prandom: dir_predictor "\<lambda>_. True" "\<lambda>_ _. True" bpred_dir_t.truncate bpred_sc_t.truncate
  "bpred_random_lookup rnd" bpred_random_update bpred_random_spec_update
  bpred_dir_recover bpred_dir_flush for rnd
proof (unfold_locales, goal_cases)
  case (4 s sc PC tPC oPC outcome our_pred s' sc')
  have "bpred_dir_t.truncate (if \<not> updated sc \<and> outcome \<and> \<not> frozen s
      then s\<lparr>num_taken := num_taken s + 1\<rparr> else s) = bpred_dir_t.truncate s"
    by (simp add: bpred_dir_t.truncate_def)
  from bpred_dir_update_via [OF 4 [unfolded bpred_random_update_def Let_def] this]
  show ?case .
qed (auto simp: bpred_random_lookup_def bpred_random_spec_update_def
      bpred_dir_defs bpred_dir_t.truncate_def bpred_sc_t.truncate_def)

end
