(* ===== verification/Bpred_Perceptron.thy ===== *)
theory Bpred_Perceptron
  imports Bpred_Dir
begin

text \<open>
  The perceptron predictor \<^verbatim>\<open>bpred_perceptron_t\<close>
  (\<^verbatim>\<open>xiosim/ZCOMPS-bpred/bpred-perceptron.cpp\<close>): a table of weight vectors, a 128-bit global
  history in two 64-bit words, prediction by the sign of the dot product, training on a
  misprediction or a weak sum. Weights are C \<^verbatim>\<open>short\<close>s. \<^verbatim>\<open>theta\<close> is
  \<^verbatim>\<open>floor(1.93*h + 14.0)\<close>, computed here exactly.
\<close>

type_synonym short = "16 word"

record bpred_perceptron_sc_t = bpred_sc_t +
  top_entry :: nat
  sum :: cint
  lookup_bhr :: "64 word"
  lookup_bhr_old :: "64 word"

record bpred_perceptron_t = bpred_dir_t +
  bhr :: "64 word"
  bhr_old :: "64 word"
  top_size :: cint
  top_mask :: cint
  top_tbl :: "short list list"
  weight_width :: cint
  weight_max :: cint
  weight_min :: cint
  theta :: cint
  history_length :: cint

definition theta_of :: "cint \<Rightarrow> cint" where
  "theta_of h = word_of_nat ((193 * unat h) div 100 + 14)"

definition weight_width_of :: "cint \<Rightarrow> cint" where
  "weight_width_of th =
     (if th = shl 1 (log2_int th) then log2_int th + 2 else log2_int th + 1)"

definition bpred_perceptron_create :: "string \<Rightarrow> cint \<Rightarrow> cint \<Rightarrow> fatal + bpred_perceptron_t" where
  "bpred_perceptron_create arg_name arg_history_length arg_top_size =
     checks [(check_nneg arg_history_length, Not_nneg), (check_ppow2 arg_top_size, Not_ppow2)]
       (let th = theta_of arg_history_length; ww = weight_width_of th
        in bpred_dir_t.extend
         (bpred_dir_init arg_name ''perceptron''
           (arg_history_length + arg_top_size * (arg_history_length + 1) * ww))
         (bpred_perceptron_t.fields 0 0 arg_top_size (arg_top_size - 1)
           (replicate (unat arg_top_size) (replicate (Suc (unat arg_history_length)) 0))
           ww (shl 1 (ww - 1) - 1) (- shl 1 (ww - 1)) th arg_history_length))"

definition hist_bit :: "64 word \<Rightarrow> 64 word \<Rightarrow> nat \<Rightarrow> bool" where
  "hist_bit h h_old i = (if i < 64 then bit h i else bit h_old (i - 64))"

text \<open>The summation loop of \<^verbatim>\<open>lookup\<close>, from index \<open>i\<close> with \<open>n\<close> weights left.\<close>

fun perceptron_sum :: "64 word \<Rightarrow> 64 word \<Rightarrow> nat \<Rightarrow> short list \<Rightarrow> cint \<Rightarrow> cint" where
  "perceptron_sum h h_old i [] acc = acc"
| "perceptron_sum h h_old i (w # ws) acc =
     perceptron_sum h h_old (Suc i) ws (acc + scast w * (if hist_bit h h_old i then 1 else - 1))"

definition bpred_perceptron_lookup :: "(bpred_perceptron_t, bpred_perceptron_sc_t) lookup_fn" where
  "bpred_perceptron_lookup s sc PC tPC oPC outcome =
     (let top_index = unat (pc_mask PC (top_mask s));
          row = top_tbl s ! top_index;
          sm = perceptron_sum (bhr s) (bhr_old s) 0 (tl row) (scast (hd row));
          sc' = sc\<lparr>top_entry := top_index, sum := sm, lookup_bhr_old := bhr_old s,
                   lookup_bhr := bhr s, updated := False\<rparr>
      in (0 \<le> sint sm, bpred_dir_count_lookup s, sc'))"

definition train_weight :: "cint \<Rightarrow> cint \<Rightarrow> bool \<Rightarrow> short \<Rightarrow> short" where
  "train_weight wmax wmin up w =
     (if up then if sint w < sint wmax then w + 1 else w
      else if sint w > sint wmin then w - 1 else w)"

fun train_row :: "cint \<Rightarrow> cint \<Rightarrow> bool \<Rightarrow> 64 word \<Rightarrow> 64 word \<Rightarrow> nat \<Rightarrow> short list \<Rightarrow> short list" where
  "train_row wmax wmin outcome h h_old i [] = []"
| "train_row wmax wmin outcome h h_old i (w # ws) =
     train_weight wmax wmin (hist_bit h h_old i = outcome) w #
     train_row wmax wmin outcome h h_old (Suc i) ws"

definition needs_training :: "'a bpred_perceptron_t_scheme \<Rightarrow> cint \<Rightarrow> bool \<Rightarrow> bool" where
  "needs_training s sm outcome \<longleftrightarrow>
     (0 \<le> sint sm) \<noteq> outcome \<or> (sint sm < sint (theta s) \<and> sint sm > - sint (theta s))"

definition train_entry :: "'a bpred_perceptron_t_scheme \<Rightarrow> bpred_perceptron_sc_t \<Rightarrow> bool \<Rightarrow>
    short list \<Rightarrow> short list" where
  "train_entry s sc outcome row =
     train_weight (weight_max s) (weight_min s) outcome (hd row) #
     train_row (weight_max s) (weight_min s) outcome (lookup_bhr sc) (lookup_bhr_old sc) 0 (tl row)"

definition bpred_perceptron_update :: "(bpred_perceptron_t, bpred_perceptron_sc_t) update_fn" where
  "bpred_perceptron_update s sc PC tPC oPC outcome our_pred =
     (let e = top_entry sc;
          s1 = (if needs_training s (sum sc) outcome
                then s\<lparr>top_tbl := (top_tbl s)[e := train_entry s sc outcome (top_tbl s ! e)]\<rparr>
                else s)
      in bpred_dir_update s1 sc outcome our_pred)"

definition bpred_perceptron_spec_update :: "(bpred_perceptron_t, bpred_perceptron_sc_t) update_fn" where
  "bpred_perceptron_spec_update s sc PC tPC oPC outcome our_pred =
     (let s1 = bpred_dir_spec_update s
      in (s1\<lparr>bhr_old := push_bit 1 (bhr_old s1) OR (drop_bit 63 (bhr s1) AND 1),
             bhr := push_bit 1 (bhr s1) OR of_bool our_pred\<rparr>, sc))"

text \<open>\<^verbatim>\<open>recover\<close> writes \<^verbatim>\<open>bhr_old = (sc->lookup_bhr_old<<1)|(sc->lookup_bhr<1)\<close>: a comparison,
  where \<^verbatim>\<open>spec_update\<close> has the shift \<^verbatim>\<open>(bhr>>63)&1\<close>.\<close>

definition bpred_perceptron_recover :: "(bpred_perceptron_t, bpred_perceptron_sc_t) recover_fn" where
  "bpred_perceptron_recover s sc outcome =
     s\<lparr>bhr_old := push_bit 1 (lookup_bhr_old sc) OR of_bool (lookup_bhr sc < 1),
       bhr := push_bit 1 (lookup_bhr sc) OR of_bool outcome\<rparr>"

definition bpred_perceptron_flush :: "(bpred_perceptron_t, bpred_perceptron_sc_t) flush_fn" where
  "bpred_perceptron_flush s sc = s\<lparr>bhr_old := lookup_bhr_old sc, bhr := lookup_bhr sc\<rparr>"

definition bpred_perceptron_get_cache :: bpred_perceptron_sc_t where
  "bpred_perceptron_get_cache =
     \<lparr>updated = False, top_entry = 0, sum = 0, lookup_bhr = 0, lookup_bhr_old = 0\<rparr>"

section \<open>Invariant\<close>

definition bpred_perceptron_inv :: "bpred_perceptron_t \<Rightarrow> bool" where
  "bpred_perceptron_inv s \<longleftrightarrow> check_ppow2 (top_size s) \<and> top_mask s = top_size s - 1 \<and>
     length (top_tbl s) = unat (top_size s) \<and>
     list_all (\<lambda>row. length row = Suc (unat (history_length s))) (top_tbl s)"

definition bpred_perceptron_sc_ok :: "bpred_perceptron_t \<Rightarrow> bpred_perceptron_sc_t \<Rightarrow> bool" where
  "bpred_perceptron_sc_ok s sc \<longleftrightarrow> top_entry sc < length (top_tbl s)"

lemma bpred_perceptron_create_inv: "bpred_perceptron_create nm h t = Inr s \<Longrightarrow> bpred_perceptron_inv s"
  by (auto simp: bpred_perceptron_create_def checks_Inr_iff bpred_perceptron_inv_def
      bpred_perceptron_t.defs bpred_dir_t.defs list_all_iff Let_def)

lemma length_train_row [simp]: "length (train_row a b c h ho i ws) = length ws"
  by (induction ws arbitrary: i) simp_all

lemma length_train_entry [simp]: "row \<noteq> [] \<Longrightarrow> length (train_entry s sc outcome row) = length row"
  by (cases row) (simp_all add: train_entry_def)

lemma bpred_dir_perceptron [simp]:
  "bpred_perceptron_inv (bpred_dir_count_lookup s) = bpred_perceptron_inv s"
  "bpred_perceptron_inv (bpred_dir_spec_update s) = bpred_perceptron_inv s"
  "bpred_perceptron_inv (fst (bpred_dir_update s sc a b)) = bpred_perceptron_inv s"
  "bpred_perceptron_sc_ok (bpred_dir_count_lookup s) = bpred_perceptron_sc_ok s"
  "bpred_perceptron_sc_ok (bpred_dir_spec_update s) = bpred_perceptron_sc_ok s"
  "bpred_perceptron_sc_ok (fst (bpred_dir_update s sc a b)) = bpred_perceptron_sc_ok s"
  "bpred_perceptron_sc_ok s (snd (bpred_dir_update s' sc' a b)) = bpred_perceptron_sc_ok s sc'"
  by (auto simp: bpred_dir_defs bpred_perceptron_inv_def bpred_perceptron_sc_ok_def fun_eq_iff)

lemma bpred_perceptron_set_row:
  assumes "bpred_perceptron_inv s" and "e < length (top_tbl s)"
  shows "bpred_perceptron_inv (s\<lparr>top_tbl := (top_tbl s)[e := train_entry s sc outcome (top_tbl s ! e)]\<rparr>)"
proof -
  have "length (top_tbl s ! e) = Suc (unat (history_length s))"
    using assms by (auto simp: bpred_perceptron_inv_def dest: list_all_nth)
  then have "length (train_entry s sc outcome (top_tbl s ! e)) = Suc (unat (history_length s))"
    by (metis length_0_conv length_train_entry nat.distinct(1))
  with assms(1) show ?thesis
    by (auto simp: bpred_perceptron_inv_def intro!: list_all_update)
qed

lemma bpred_perceptron_set [simp]:
  "bpred_perceptron_sc_ok (s\<lparr>top_tbl := (top_tbl s)[e := r]\<rparr>) = bpred_perceptron_sc_ok s"
  "bpred_perceptron_inv (s\<lparr>bhr_old := x, bhr := y\<rparr>) = bpred_perceptron_inv s"
  "bpred_perceptron_inv (s\<lparr>bhr := y, bhr_old := x\<rparr>) = bpred_perceptron_inv s"
  "bpred_perceptron_sc_ok (s\<lparr>bhr_old := x, bhr := y\<rparr>) = bpred_perceptron_sc_ok s"
  "bpred_perceptron_sc_ok (s\<lparr>bhr := y, bhr_old := x\<rparr>) = bpred_perceptron_sc_ok s"
  by (auto simp: bpred_perceptron_inv_def bpred_perceptron_sc_ok_def fun_eq_iff)

lemmas bpred_perceptron_ops = bpred_perceptron_lookup_def bpred_perceptron_update_def
  bpred_perceptron_spec_update_def bpred_perceptron_recover_def bpred_perceptron_flush_def

interpretation pperceptron: dir_predictor bpred_perceptron_inv bpred_perceptron_sc_ok
  bpred_dir_t.truncate bpred_sc_t.truncate bpred_perceptron_lookup bpred_perceptron_update
  bpred_perceptron_spec_update bpred_perceptron_recover bpred_perceptron_flush
proof (unfold_locales, goal_cases)
  case (1 s sc PC tPC oPC outcome p s' sc')
  then show ?case
    by (auto simp: bpred_perceptron_ops Let_def,
        auto simp: bpred_perceptron_inv_def bpred_perceptron_sc_ok_def)
next
  case (3 s sc PC tPC oPC outcome our_pred s' sc')
  then have "top_entry sc < length (top_tbl s)" by (simp add: bpred_perceptron_sc_ok_def)
  with 3 show ?case
    by (auto simp: bpred_perceptron_update_def Let_def prod_eq_iff bpred_perceptron_set_row
        split: if_splits)
next
  case (4 s sc PC tPC oPC outcome our_pred s' sc')
  then show ?case
    by (intro bpred_dir_update_via [OF 4 [unfolded bpred_perceptron_update_def Let_def]])
      (simp add: bpred_dir_t.truncate_def)
next
  case (5 s sc PC tPC oPC outcome our_pred s' sc')
  then show ?case by (auto simp: bpred_perceptron_ops Let_def)
qed (auto simp: bpred_perceptron_ops Let_def bpred_dir_t.truncate_def bpred_dir_count_lookup_def
    bpred_dir_spec_update_def bpred_sc_t.truncate_def)

end
