(* ===== verification/Bpred_Tage.thy ===== *)
theory Bpred_Tage
  imports Bpred_Dir
begin

text \<open>
  The TAGE predictor \<^verbatim>\<open>bpred_tage_t\<close> (\<^verbatim>\<open>xiosim/ZCOMPS-bpred/bpred-tage.cpp\<close>): a bimodal table
  \<open>T ! 0\<close> and tagged tables \<open>T ! 1, \<dots>\<close> indexed with geometrically longer pieces of a
  512-bit global history kept in eight 64-bit words. Arguments stand for what the code takes
  from outside: the base \<^verbatim>\<open>alpha\<close> of the history lengths, which the constructor computes with
  \<^verbatim>\<open>log\<close> and \<^verbatim>\<open>exp\<close> of the C library, and the draw from the random engine that chooses
  between two entries that may be allocated.
\<close>

section \<open>Global history\<close>

type_synonym tage_hist_t = "64 word list"

text \<open>\<^verbatim>\<open>bpred_tage_hist_update\<close>: the eight words shifted by one, from the highest down.\<close>

fun tage_shift_words :: "bool \<Rightarrow> tage_hist_t \<Rightarrow> tage_hist_t" where
  "tage_shift_words carry [] = []"
| "tage_shift_words carry (h # hs) = (push_bit 1 h OR of_bool carry) # tage_shift_words (bit h 63) hs"

definition bpred_tage_hist_update :: "tage_hist_t \<Rightarrow> bool \<Rightarrow> tage_hist_t" where
  "bpred_tage_hist_update H outcome = tage_shift_words outcome H"

text \<open>One turn of the loop of \<^verbatim>\<open>bpred_tage_hist_hash\<close>, on the variables \<^verbatim>\<open>result\<close>, \<^verbatim>\<open>row\<close> and
  \<^verbatim>\<open>pos\<close>, and the loop.\<close>

definition tage_hash_step :: "tage_hist_t \<Rightarrow> nat \<Rightarrow> cint \<times> nat \<times> nat \<Rightarrow> cint \<times> nat \<times> nat" where
  "tage_hash_step H hash_length = (\<lambda>(result, row, pos).
     let msk = scast (push_bit hash_length 1 - 1 :: cint);
         result = result XOR ucast (drop_bit pos (H ! row) AND msk)
     in if pos + hash_length > 64
        then let row = row + 1; pos = (pos + hash_length) mod 64
             in (result XOR ucast (push_bit (hash_length - pos) (H ! row) AND msk), row, pos)
        else let pos = pos + hash_length
             in if pos > 63 then (result, row + 1, pos mod 64) else (result, row, pos))"

fun tage_hash_loop :: "tage_hist_t \<Rightarrow> nat \<Rightarrow> nat \<Rightarrow> cint \<times> nat \<times> nat" where
  "tage_hash_loop H hash_length 0 = (0, 0, 0)"
| "tage_hash_loop H hash_length (Suc i) = tage_hash_step H hash_length (tage_hash_loop H hash_length i)"

definition bpred_tage_hist_hash :: "tage_hist_t \<Rightarrow> cint \<Rightarrow> cint \<Rightarrow> cint" where
  "bpred_tage_hist_hash H hist_length hash_length =
     fst (tage_hash_loop H (unat hash_length) (unat hist_length div unat hash_length))"

section \<open>Tables\<close>

record bpred_tage_ent_t =
  tag :: cint
  ctr :: uchar
  u :: uchar

record bpred_tage_sc_t = bpred_sc_t +
  lookup_bhr :: tage_hist_t
  index :: "cint list"
  provider :: nat
  provpred :: bool
  alt :: nat
  altpred :: bool
  used_alt :: bool
  provnew :: bool

record bpred_tage_t = bpred_dir_t +
  num_tables :: cint
  table_size :: cint
  log_size :: cint
  table_mask :: cint
  tag_width :: cint
  tag_mask :: cint
  bim_size :: cint
  bim_mask :: cint
  alpha :: cint
  Hlen :: "cint list"
  T :: "bpred_tage_ent_t list list"
  pwin :: cint
  Tuses :: "counter_t list"
  bhr :: tage_hist_t

definition tage_Hlen :: "nat \<Rightarrow> cint \<Rightarrow> cint \<Rightarrow> cint \<Rightarrow> cint list" where
  "tage_Hlen n fst_len last_len a = 0 # map (\<lambda>i. fst_len * a ^ (i - 1)) [1..<n - 1] @ [last_len]"

definition bpred_tage_create ::
  "cint \<Rightarrow> string \<Rightarrow> cint \<Rightarrow> cint \<Rightarrow> cint \<Rightarrow> cint \<Rightarrow> cint \<Rightarrow> cint \<Rightarrow> fatal + bpred_tage_t" where
  "bpred_tage_create a arg_name arg_num_tables arg_bim_size arg_table_size arg_tag_width
      arg_first_length arg_last_length =
     checks [(check_ppow2 arg_bim_size, Not_ppow2), (check_ppow2 arg_table_size, Not_ppow2),
             (check_pos arg_num_tables, Not_pos), (check_pos arg_tag_width, Not_pos),
             (check_pos arg_first_length, Not_pos), (check_pos arg_last_length, Not_pos),
             (\<not> (sint arg_last_length \<le> 0 \<or> sint arg_last_length \<le> sint arg_first_length), Not_in_range),
             (\<not> (sint arg_num_tables \<le> 0 \<or> sint arg_num_tables \<ge> 16), Not_in_range),
             (check_pos_leq arg_last_length 512, Not_in_range)]
       (let n = unat arg_num_tables
        in bpred_dir_t.extend
         (bpred_dir_init arg_name ''tage''
           (arg_bim_size * 2 + (arg_num_tables - 1) * (2 + 3 + arg_tag_width) * arg_table_size
             + arg_last_length + 4))
         (bpred_tage_t.fields arg_num_tables arg_table_size (log2_int arg_table_size)
           (arg_table_size - 1) arg_tag_width (shl 1 arg_tag_width - 1) arg_bim_size (arg_bim_size - 1)
           a (tage_Hlen n arg_first_length arg_last_length a)
           (replicate (unat arg_bim_size) \<lparr>tag = 0, ctr = MY2BC_WEAKLY_TAKEN, u = 0\<rparr> #
            replicate (n - 1) (replicate (unat arg_table_size) \<lparr>tag = 0, ctr = 4, u = 0\<rparr>))
           15 (replicate n 0) (replicate 8 0)))"

definition tage_index :: "bpred_tage_t \<Rightarrow> md_addr_t \<Rightarrow> nat \<Rightarrow> cint" where
  "tage_index s PC i =
     (if i = 0 then ucast PC
      else ucast (PC XOR scast (bpred_tage_hist_hash (bhr s) (Hlen s ! i) (log_size s))))"

text \<open>\<^verbatim>\<open>T[i][index[i]&table_mask]\<close> and \<^verbatim>\<open>T[0][index[0]&bim_mask]\<close> are addressed by pairs.\<close>

definition slot :: "'a bpred_tage_t_scheme \<Rightarrow> cint list \<Rightarrow> nat \<Rightarrow> nat \<times> nat" where
  "slot s idx i = (i, unat (idx ! i AND table_mask s))"

definition bim_slot :: "'a bpred_tage_t_scheme \<Rightarrow> cint list \<Rightarrow> nat \<times> nat" where
  "bim_slot s idx = (0, unat (idx ! 0 AND bim_mask s))"

definition ent_at :: "bpred_tage_ent_t list list \<Rightarrow> nat \<times> nat \<Rightarrow> bpred_tage_ent_t" where
  "ent_at Ts p = Ts ! fst p ! snd p"

definition upd_ent :: "nat \<times> nat \<Rightarrow> (bpred_tage_ent_t \<Rightarrow> bpred_tage_ent_t) \<Rightarrow>
    bpred_tage_ent_t list list \<Rightarrow> bpred_tage_ent_t list list" where
  "upd_ent p f Ts = Ts[fst p := (Ts ! fst p)[snd p := f (ent_at Ts p)]]"

text \<open>The downward search for the longest matching table below or at \<open>i\<close>; 0 when none matches.\<close>

fun tage_find :: "(nat \<Rightarrow> bool) \<Rightarrow> nat \<Rightarrow> nat" where
  "tage_find match 0 = 0"
| "tage_find match (Suc i) = (if match (Suc i) then Suc i else tage_find match i)"

definition tage_match :: "bpred_tage_t \<Rightarrow> cint list \<Rightarrow> md_addr_t \<Rightarrow> nat \<Rightarrow> bool" where
  "tage_match s idx PC i \<longleftrightarrow>
     (ucast (tag (ent_at (T s) (slot s idx i))) :: 64 word) = PC AND scast (tag_mask s)"

definition bpred_tage_lookup :: "(bpred_tage_t, bpred_tage_sc_t) lookup_fn" where
  "bpred_tage_lookup s sc PC tPC oPC outcome =
     (let idx = map (tage_index s PC) [0..<unat (num_tables s)];
          match = tage_match s idx PC;
          prov = tage_find match (unat (num_tables s) - 1);
          hit = (prov \<noteq> 0);
          ent = ent_at (T s) (slot s idx prov);
          pnew = (hit \<and> u ent = 0 \<and> (ctr ent = 4 \<or> ctr ent = 3));
          pwin_hit = (hit \<and> (sint (pwin s) < 8 \<or> \<not> pnew));
          pp = (hit \<and> 4 \<le> sint (ctr ent));
          al = (if hit then tage_find match (prov - 1) else 0);
          ap = (if al \<noteq> 0 then 4 \<le> sint (ctr (ent_at (T s) (slot s idx al)))
                else MY2BC_DIR (ctr (ent_at (T s) (bim_slot s idx))));
          sc' = sc\<lparr>index := idx, provider := prov, provpred := pp, altpred := ap, provnew := pnew,
                   alt := al, updated := False, lookup_bhr := bhr s, used_alt := \<not> pwin_hit\<rparr>
      in (if \<not> pwin_hit then ap else pp, bpred_dir_count_lookup s, sc'))"

definition tage_pwin :: "bpred_tage_sc_t \<Rightarrow> bool \<Rightarrow> cint \<Rightarrow> cint" where
  "tage_pwin sc outcome p =
     (if provnew sc \<and> altpred sc \<noteq> provpred sc
      then if altpred sc = outcome then if sint p < 15 then p + 1 else p
           else if sint p > 0 then p - 1 else p
      else p)"

definition tage_install :: "md_addr_t \<Rightarrow> cint \<Rightarrow> bool \<Rightarrow> bpred_tage_ent_t \<Rightarrow> bpred_tage_ent_t" where
  "tage_install PC msk outcome e =
     e\<lparr>u := 0, ctr := 3 + of_bool outcome, tag := ucast (PC AND scast msk)\<rparr>"

definition dec_u :: "bpred_tage_ent_t \<Rightarrow> bpred_tage_ent_t" where
  "dec_u e = (if sint (u e) > 0 then e\<lparr>u := u e - 1\<rparr> else e)"

definition inc_u :: "bpred_tage_ent_t \<Rightarrow> bpred_tage_ent_t" where
  "inc_u e = (if sint (u e) < 3 then e\<lparr>u := u e + 1\<rparr> else e)"

definition tage_allocate :: "bool \<Rightarrow> bpred_tage_t \<Rightarrow> bpred_tage_sc_t \<Rightarrow> md_addr_t \<Rightarrow> bool \<Rightarrow>
    bpred_tage_ent_t list list \<Rightarrow> bpred_tage_ent_t list list" where
  "tage_allocate second s sc PC outcome Ts =
     (let longer = [provider sc + 1..<unat (num_tables s)];
          free = filter (\<lambda>i. u (ent_at Ts (slot s (index sc) i)) = 0) longer
      in case free of
           [] \<Rightarrow> foldl (\<lambda>Ts i. upd_ent (slot s (index sc) i) dec_u Ts) Ts longer
         | a # rest \<Rightarrow>
             (let i = (case rest of [] \<Rightarrow> a | b # _ \<Rightarrow> if second then b else a)
              in upd_ent (slot s (index sc) i) (tage_install PC (tag_mask s) outcome) Ts))"

definition tage_age :: "counter_t \<Rightarrow> bpred_tage_ent_t list list \<Rightarrow> bpred_tage_ent_t list list" where
  "tage_age upds Ts =
     (if upds AND (push_bit 18 1 - 1) = 0
      then let msk = (if upds AND push_bit 18 1 \<noteq> 0 then NOT 2 else NOT 1)
           in hd Ts # map (map (\<lambda>e. e\<lparr>u := u e AND msk\<rparr>)) (tl Ts)
      else Ts)"

definition tage_train :: "bool \<Rightarrow> bpred_tage_ent_t \<Rightarrow> bpred_tage_ent_t" where
  "tage_train outcome e =
     (if outcome then if sint (ctr e) < 7 then e\<lparr>ctr := ctr e + 1\<rparr> else e
      else if sint (ctr e) > 0 then e\<lparr>ctr := ctr e - 1\<rparr> else e)"

definition tage_update_body :: "bool \<Rightarrow> (bpred_tage_t, bpred_tage_sc_t) update_fn" where
  "tage_update_body second s sc PC tPC oPC outcome our_pred =
     (if \<not> updated sc
      then let s1 = fst (bpred_dir_update s sc outcome our_pred);
               used = (if used_alt sc then alt sc else provider sc);
               tu = (Tuses s1)[used := Tuses s1 ! used + 1];
               T1 = (if our_pred \<noteq> outcome \<and> int (provider sc) < sint (num_tables s) - 1
                     then tage_allocate second s sc PC outcome (T s1) else T s1);
               T2 = tage_age (updates s1) T1;
               T3 = (if provider sc = 0 \<or> (alt sc = 0 \<and> used_alt sc)
                     then upd_ent (bim_slot s (index sc)) (\<lambda>e. e\<lparr>ctr := MY2BC_UPDATE (ctr e) outcome\<rparr>) T2
                     else upd_ent (slot s (index sc) (provider sc)) (tage_train outcome) T2);
               T4 = (if provpred sc \<noteq> altpred sc
                     then upd_ent (slot s (index sc) (provider sc))
                            (if provpred sc = outcome then inc_u else dec_u) T3
                     else T3)
           in (s1\<lparr>Tuses := tu, pwin := tage_pwin sc outcome (pwin s1), T := T4\<rparr>, sc\<lparr>updated := True\<rparr>)
      else (s, sc))"

text \<open>A prediction that did not come from the alternate component must have a tagged provider
  (\<^verbatim>\<open>assert(sc->provider)\<close>).\<close>

definition bpred_tage_update :: "bool \<Rightarrow> bpred_tage_t \<Rightarrow> bpred_tage_sc_t \<Rightarrow> md_addr_t \<Rightarrow> md_addr_t \<Rightarrow>
    md_addr_t \<Rightarrow> bool \<Rightarrow> bool \<Rightarrow> (bpred_tage_t \<times> bpred_tage_sc_t) option" where
  "bpred_tage_update second s sc PC tPC oPC outcome our_pred =
     (if \<not> updated sc \<and> \<not> used_alt sc \<and> provider sc = 0 then None
      else Some (tage_update_body second s sc PC tPC oPC outcome our_pred))"

definition bpred_tage_spec_update :: "(bpred_tage_t, bpred_tage_sc_t) update_fn" where
  "bpred_tage_spec_update s sc PC tPC oPC outcome our_pred =
     (let s1 = bpred_dir_spec_update s
      in (s1\<lparr>bhr := bpred_tage_hist_update (bhr s1) our_pred\<rparr>, sc))"

definition bpred_tage_recover :: "(bpred_tage_t, bpred_tage_sc_t) recover_fn" where
  "bpred_tage_recover s sc outcome =
     (let s1 = s\<lparr>bhr := lookup_bhr sc\<rparr> in s1\<lparr>bhr := bpred_tage_hist_update (bhr s1) outcome\<rparr>)"

definition bpred_tage_flush :: "(bpred_tage_t, bpred_tage_sc_t) flush_fn" where
  "bpred_tage_flush s sc = s\<lparr>bhr := lookup_bhr sc\<rparr>"

definition bpred_tage_get_cache :: bpred_tage_sc_t where
  "bpred_tage_get_cache = \<lparr>updated = False, lookup_bhr = replicate 8 0, index = replicate 16 0,
     provider = 0, provpred = False, alt = 0, altpred = False, used_alt = False, provnew = False\<rparr>"

section \<open>Invariant\<close>

definition tage_lens :: "bpred_tage_t \<Rightarrow> nat list" where
  "tage_lens s = unat (bim_size s) # replicate (unat (num_tables s) - 1) (unat (table_size s))"

definition ent_ok :: "nat \<Rightarrow> bpred_tage_ent_t \<Rightarrow> bool" where
  "ent_ok i e \<longleftrightarrow> unat (u e) \<le> 3 \<and> unat (ctr e) \<le> (if i = 0 then 3 else 7)"

definition tables_ok :: "bpred_tage_ent_t list list \<Rightarrow> bool" where
  "tables_ok Ts \<longleftrightarrow> (\<forall>i<length Ts. list_all (ent_ok i) (Ts ! i))"

definition bpred_tage_inv :: "bpred_tage_t \<Rightarrow> bool" where
  "bpred_tage_inv s \<longleftrightarrow> check_ppow2 (bim_size s) \<and> check_ppow2 (table_size s) \<and>
     bim_mask s = bim_size s - 1 \<and> table_mask s = table_size s - 1 \<and>
     1 < unat (num_tables s) \<and> unat (num_tables s) < 16 \<and>
     unat (table_size s) \<le> unat (bim_size s) \<and>
     map length (T s) = tage_lens s \<and> tables_ok (T s) \<and> unat (pwin s) \<le> 15 \<and>
     length (Tuses s) = unat (num_tables s) \<and> length (Hlen s) = unat (num_tables s) \<and>
     length (bhr s) = 8"

definition bpred_tage_sc_ok :: "bpred_tage_t \<Rightarrow> bpred_tage_sc_t \<Rightarrow> bool" where
  "bpred_tage_sc_ok s sc \<longleftrightarrow> length (index sc) = unat (num_tables s) \<and>
     provider sc < unat (num_tables s) \<and> alt sc < unat (num_tables s) \<and>
     (\<not> used_alt sc \<longrightarrow> provider sc \<noteq> 0) \<and> length (lookup_bhr sc) = 8"

definition in_tables :: "bpred_tage_ent_t list list \<Rightarrow> nat \<times> nat \<Rightarrow> bool" where
  "in_tables Ts p \<longleftrightarrow> fst p < length Ts \<and> snd p < length (Ts ! fst p)"

lemma small_char_cases: "unat x \<le> 7 \<longleftrightarrow>
    x = 0 \<or> x = 1 \<or> x = 2 \<or> x = 3 \<or> x = 4 \<or> x = 5 \<or> x = 6 \<or> x = 7" for x :: uchar
proof
  assume "unat x \<le> 7"
  then have "unat x \<in> {0, 1, 2, 3, 4, 5, 6, 7}" by auto
  then show "x = 0 \<or> x = 1 \<or> x = 2 \<or> x = 3 \<or> x = 4 \<or> x = 5 \<or> x = 6 \<or> x = 7"
    by (auto simp: word_unat_eq_iff)
qed auto

lemma upd_ent_lens [simp]: "map length (upd_ent p f Ts) = map length Ts"
proof (cases "fst p < length Ts")
  case True
  then show ?thesis
    by (simp add: upd_ent_def map_update) (metis length_map list_update_id nth_map)
qed (simp add: upd_ent_def list_update_beyond)

lemma upd_ent_tables_ok:
  assumes "tables_ok Ts" and "\<And>e. ent_ok (fst p) e \<Longrightarrow> ent_ok (fst p) (f e)" and "in_tables Ts p"
  shows "tables_ok (upd_ent p f Ts)"
proof -
  have "list_all (ent_ok (fst p)) (Ts ! fst p)"
    using assms by (simp add: tables_ok_def in_tables_def)
  moreover from this have "ent_ok (fst p) (f (ent_at Ts p))"
    using assms(2,3) list_all_nth by (auto simp: in_tables_def ent_at_def)
  ultimately have "list_all (ent_ok (fst p)) ((Ts ! fst p)[snd p := f (ent_at Ts p)])"
    by (rule list_all_update)
  moreover have "fst p < length Ts" using assms(3) by (simp add: in_tables_def)
  ultimately have "list_all (ent_ok i) (upd_ent p f Ts ! i)" if "i < length Ts" for i
    using assms(1) that by (cases "i = fst p") (simp_all add: tables_ok_def upd_ent_def)
  then show ?thesis by (simp add: tables_ok_def upd_ent_def)
qed

lemma ent_ok_ops:
  "ent_ok i e \<Longrightarrow> ent_ok i (dec_u e)" "ent_ok i e \<Longrightarrow> ent_ok i (inc_u e)"
  "i \<noteq> 0 \<Longrightarrow> ent_ok i e \<Longrightarrow> ent_ok i (tage_train outcome e)"
  "i \<noteq> 0 \<Longrightarrow> ent_ok i e \<Longrightarrow> ent_ok i (tage_install PC m outcome e)"
  "ent_ok 0 e \<Longrightarrow> ent_ok 0 (e\<lparr>ctr := MY2BC_UPDATE (ctr e) outcome\<rparr>)"
  "ent_ok i e \<Longrightarrow> ent_ok i (e\<lparr>u := u e AND m'\<rparr>)"
proof -
  assume e: "ent_ok i e"
  then have u: "unat (u e) \<le> 7" by (simp add: ent_ok_def)
  show "ent_ok i (dec_u e)" "ent_ok i (inc_u e)"
    using e u unfolding small_char_cases
    by (elim disjE; simp add: ent_ok_def dec_u_def inc_u_def)+
  have "unat (u e AND m') \<le> unat (u e)"
    using word_and_le2 [of "u e" m'] by (simp add: word_le_nat_alt)
  then show "ent_ok i (e\<lparr>u := u e AND m'\<rparr>)" using e by (simp add: ent_ok_def)
next
  assume "i \<noteq> 0" and e: "ent_ok i e"
  then have c: "unat (ctr e) \<le> 7" by (simp add: ent_ok_def)
  show "ent_ok i (tage_train outcome e)"
    using e \<open>i \<noteq> 0\<close> c unfolding small_char_cases
    by (elim disjE; simp add: ent_ok_def tage_train_def)
  show "ent_ok i (tage_install PC m outcome e)"
    using \<open>i \<noteq> 0\<close> by (simp add: ent_ok_def tage_install_def)
next
  assume "ent_ok 0 e"
  moreover have "unat (MY2BC_UPDATE (ctr e) outcome) \<le> 3"
    using ctr_ok_ops(1) [of "ctr e" outcome] by (simp add: ctr_ok_def word_less_nat_alt)
  ultimately show "ent_ok 0 (e\<lparr>ctr := MY2BC_UPDATE (ctr e) outcome\<rparr>)" by (simp add: ent_ok_def)
qed

lemma tage_lens_nth: "i < unat (num_tables s) \<Longrightarrow> 0 < unat (num_tables s) \<Longrightarrow>
    tage_lens s ! i = (if i = 0 then unat (bim_size s) else unat (table_size s))"
  by (cases i) (simp_all add: tage_lens_def)

text \<open>Every table access of the code, by table number, is in range when the bimodal table is at
  least as large as a tagged one.\<close>

lemma slots_in_tables:
  assumes "bpred_tage_inv s" and l: "map length Ts = tage_lens s"
  shows "i < unat (num_tables s) \<Longrightarrow> in_tables Ts (slot s idx i)" and "in_tables Ts (bim_slot s idx)"
proof -
  have n: "1 < unat (num_tables s)" using assms(1) by (simp add: bpred_tage_inv_def)
  have len: "length Ts = unat (num_tables s)"
    using arg_cong [OF l, of length] n by (simp add: tage_lens_def)
  have nth: "i < unat (num_tables s) \<Longrightarrow> length (Ts ! i) = tage_lens s ! i" for i
    using l len by (metis nth_map)
  have c: "check_ppow2 (table_size s)" "check_ppow2 (bim_size s)"
    "table_mask s = table_size s - 1" "bim_mask s = bim_size s - 1"
    "unat (table_size s) \<le> unat (bim_size s)"
    using assms(1) by (simp_all add: bpred_tage_inv_def)
  have t: "unat (x AND table_mask s) < unat (table_size s)" for x
    using c by simp
  show "in_tables Ts (bim_slot s idx)"
    using nth [of 0] n len c by (simp add: in_tables_def bim_slot_def tage_lens_nth)
  show "in_tables Ts (slot s idx i)" if i: "i < unat (num_tables s)"
    using nth [OF i] n len less_le_trans [OF t c(5)] t i
    by (simp add: in_tables_def slot_def tage_lens_nth)
qed

lemma foldl_upd_ent:
  assumes "bpred_tage_inv s" and "tables_ok Ts" and "map length Ts = tage_lens s"
    and "\<forall>i \<in> set is. i < unat (num_tables s)"
  shows "tables_ok (foldl (\<lambda>Ts i. upd_ent (slot s idx i) dec_u Ts) Ts is) \<and>
    map length (foldl (\<lambda>Ts i. upd_ent (slot s idx i) dec_u Ts) Ts is) = tage_lens s"
  using assms(2-)
proof (induction "is" arbitrary: Ts)
  case (Cons i "is")
  have "tables_ok (upd_ent (slot s idx i) dec_u Ts)"
    using Cons.prems slots_in_tables(1) [OF assms(1)]
    by (auto intro!: upd_ent_tables_ok ent_ok_ops)
  then show ?case using Cons by simp
qed simp

lemma tage_allocate_ok:
  assumes inv: "bpred_tage_inv s" and Ts: "tables_ok Ts" "map length Ts = tage_lens s"
  shows "tables_ok (tage_allocate second s sc PC outcome Ts) \<and>
    map length (tage_allocate second s sc PC outcome Ts) = tage_lens s"
proof -
  let ?longer = "[provider sc + 1..<unat (num_tables s)]"
  let ?free = "filter (\<lambda>i. u (ent_at Ts (slot s (index sc) i)) = 0) ?longer"
  have install: "tables_ok (upd_ent (slot s (index sc) i) (tage_install PC (tag_mask s) outcome) Ts)"
    if "i \<in> set ?free" for i
  proof (rule upd_ent_tables_ok [OF Ts(1)])
    have i: "i \<noteq> 0" "i < unat (num_tables s)" using that by auto
    show "ent_ok (fst (slot s (index sc) i)) (tage_install PC (tag_mask s) outcome e)"
      if "ent_ok (fst (slot s (index sc) i)) e" for e
      using i that by (intro ent_ok_ops) (auto simp: slot_def)
    show "in_tables Ts (slot s (index sc) i)"
      using slots_in_tables(1) [OF inv Ts(2) i(2)] .
  qed
  show ?thesis
  proof (cases ?free)
    case Nil
    then show ?thesis using foldl_upd_ent [OF inv Ts, of ?longer]
      by (simp add: tage_allocate_def Let_def)
  next
    case (Cons a rest)
    then have "tables_ok (upd_ent (slot s (index sc) (case rest of [] \<Rightarrow> a | b # _ \<Rightarrow> if second then b else a))
        (tage_install PC (tag_mask s) outcome) Ts)"
      by (intro install) (auto split: list.splits)
    then show ?thesis using Cons Ts(2) by (simp add: tage_allocate_def Let_def)
  qed
qed

lemma tage_age_ok:
  assumes Ts: "tables_ok Ts" "map length Ts = tage_lens s"
  shows "tables_ok (tage_age k Ts) \<and> map length (tage_age k Ts) = tage_lens s"
proof -
  obtain t0 ts where t: "Ts = t0 # ts" using Ts(2) by (cases Ts) (auto simp: tage_lens_def)
  have "tables_ok (t0 # map (map (\<lambda>e. e\<lparr>u := u e AND m\<rparr>)) ts)" for m
    unfolding tables_ok_def
  proof (intro allI impI)
    fix i assume i: "i < length (t0 # map (map (\<lambda>e. e\<lparr>u := u e AND m\<rparr>)) ts)"
    have "list_all (ent_ok i) (Ts ! i)" using Ts(1) t i by (simp add: tables_ok_def)
    then show "list_all (ent_ok i) ((t0 # map (map (\<lambda>e. e\<lparr>u := u e AND m\<rparr>)) ts) ! i)"
      using t i by (cases i) (auto simp: list_all_iff intro!: ent_ok_ops)
  qed
  then show ?thesis using Ts t by (auto simp: tage_age_def Let_def comp_def)
qed

lemma tage_pwin_le: "unat p \<le> 15 \<Longrightarrow> unat (tage_pwin sc outcome p) \<le> 15"
proof -
  assume p: "unat p \<le> 15"
  have "sint p < 15 \<Longrightarrow> unat (p + 1) \<le> 15"
    using p by (simp add: sint_cint unat_word_ariths del: of_nat_unat)
  moreover have "unat (p - 1) \<le> 15" if "sint p > 0"
    using p that unat_minus_one [of p] sint_pos_iff [of p] by (simp add: unat_gt_0)
  ultimately show ?thesis using p by (simp add: tage_pwin_def)
qed

lemma tage_find_le: "tage_find match i \<le> i"
  by (induction i) auto

lemma tage_update_body_tables:
  assumes inv: "bpred_tage_inv s" and ok: "bpred_tage_sc_ok s sc"
    and u: "tage_update_body second s sc PC tPC oPC outcome our_pred = (s', sc')"
  shows "tables_ok (T s') \<and> map length (T s') = tage_lens s"
proof (cases "updated sc")
  case True
  then show ?thesis using u inv by (auto simp: tage_update_body_def bpred_tage_inv_def)
next
  case False
  define s1 where "s1 = fst (bpred_dir_update s sc outcome our_pred)"
  have Ts1: "T s1 = T s" by (simp add: s1_def bpred_dir_update_def)
  define T1 where "T1 = (if our_pred \<noteq> outcome \<and> int (provider sc) < sint (num_tables s) - 1
    then tage_allocate second s sc PC outcome (T s1) else T s1)"
  define T2 where "T2 = tage_age (updates s1) T1"
  define T3 where "T3 = (if provider sc = 0 \<or> (alt sc = 0 \<and> used_alt sc)
    then upd_ent (bim_slot s (index sc)) (\<lambda>e. e\<lparr>ctr := MY2BC_UPDATE (ctr e) outcome\<rparr>) T2
    else upd_ent (slot s (index sc) (provider sc)) (tage_train outcome) T2)"
  define T4 where "T4 = (if provpred sc \<noteq> altpred sc
    then upd_ent (slot s (index sc) (provider sc)) (if provpred sc = outcome then inc_u else dec_u) T3
    else T3)"
  have prov: "provider sc < unat (num_tables s)" using ok by (simp add: bpred_tage_sc_ok_def)
  have T1: "tables_ok T1" "map length T1 = tage_lens s"
    using inv tage_allocate_ok [OF inv] Ts1 by (auto simp: T1_def bpred_tage_inv_def)
  have T2: "tables_ok T2" "map length T2 = tage_lens s"
    using tage_age_ok [OF T1] by (auto simp: T2_def)
  have T3: "map length T3 = tage_lens s" using T2 by (simp add: T3_def)
  have T3ok: "tables_ok T3"
    unfolding T3_def
    using slots_in_tables [OF inv T2(2)] prov T2(1)
    by (auto intro!: upd_ent_tables_ok ent_ok_ops simp: slot_def bim_slot_def)
  have "tables_ok T4 \<and> map length T4 = tage_lens s"
    unfolding T4_def
    using slots_in_tables(1) [OF inv T3 prov] T3ok T3
    by (auto intro!: upd_ent_tables_ok ent_ok_ops)
  moreover have "T s' = T4"
    using u False unfolding T4_def T3_def T2_def T1_def s1_def
    by (auto simp: tage_update_body_def Let_def)
  ultimately show ?thesis by simp
qed

lemma tage_update_body_frame:
  assumes u: "tage_update_body second s sc PC tPC oPC outcome our_pred = (s', sc')"
  shows "num_tables s' = num_tables s" "table_size s' = table_size s" "log_size s' = log_size s"
    "table_mask s' = table_mask s" "tag_mask s' = tag_mask s" "bim_size s' = bim_size s"
    "bim_mask s' = bim_mask s" "Hlen s' = Hlen s" "bhr s' = bhr s"
    "length (Tuses s') = length (Tuses s)" "unat (pwin s) \<le> 15 \<Longrightarrow> unat (pwin s') \<le> 15"
    "index sc' = index sc" "provider sc' = provider sc" "alt sc' = alt sc"
    "used_alt sc' = used_alt sc" "lookup_bhr sc' = lookup_bhr sc"
proof -
  have eq: "(s', sc') = tage_update_body second s sc PC tPC oPC outcome our_pred"
    using u by simp
  show "num_tables s' = num_tables s" "table_size s' = table_size s" "log_size s' = log_size s"
    "table_mask s' = table_mask s" "tag_mask s' = tag_mask s" "bim_size s' = bim_size s"
    "bim_mask s' = bim_mask s" "Hlen s' = Hlen s" "bhr s' = bhr s"
    "length (Tuses s') = length (Tuses s)" "unat (pwin s) \<le> 15 \<Longrightarrow> unat (pwin s') \<le> 15"
    "index sc' = index sc" "provider sc' = provider sc" "alt sc' = alt sc"
    "used_alt sc' = used_alt sc" "lookup_bhr sc' = lookup_bhr sc"
    using eq
    by (auto simp: tage_update_body_def bpred_dir_update_def Let_def tage_pwin_le split: if_splits)
qed

lemma length_tage_shift [simp]: "length (tage_shift_words c hs) = length hs"
  by (induction hs arbitrary: c) simp_all

lemma bpred_tage_set_bhr:
  "bpred_tage_inv s \<Longrightarrow> length h = 8 \<Longrightarrow> bpred_tage_inv (s\<lparr>bhr := h\<rparr>)"
  "bpred_tage_sc_ok (s\<lparr>bhr := h\<rparr>) = bpred_tage_sc_ok s"
  by (auto simp: bpred_tage_inv_def bpred_tage_sc_ok_def tage_lens_def fun_eq_iff)

lemma bpred_dir_tage [simp]:
  "bpred_tage_inv (bpred_dir_count_lookup s) = bpred_tage_inv s"
  "bpred_tage_inv (bpred_dir_spec_update s) = bpred_tage_inv s"
  "bpred_tage_sc_ok (bpred_dir_count_lookup s) = bpred_tage_sc_ok s"
  "bpred_tage_sc_ok (bpred_dir_spec_update s) = bpred_tage_sc_ok s"
  "bhr (bpred_dir_spec_update s) = bhr s"
  by (auto simp: bpred_dir_defs bpred_tage_inv_def bpred_tage_sc_ok_def tage_lens_def fun_eq_iff)

lemmas bpred_tage_ops = bpred_tage_lookup_def bpred_tage_spec_update_def
  bpred_tage_recover_def bpred_tage_flush_def bpred_tage_hist_update_def

lemma bpred_tage_sc_ok_lookup:
  assumes "bpred_tage_inv s" and "bpred_tage_lookup s sc PC tPC oPC outcome = (p, s', sc')"
  shows "bpred_tage_sc_ok s sc'"
proof -
  have n: "1 < unat (num_tables s)" using assms(1) by (simp add: bpred_tage_inv_def)
  have b: "tage_find m i < unat (num_tables s)" if "i < unat (num_tables s)" for m i
    using tage_find_le [of m i] that by simp
  have "tage_find m (tage_find m' (unat (num_tables s) - 1) - 1) < unat (num_tables s)" for m m'
    using n b [of "unat (num_tables s) - 1" m'] by (intro b) simp
  then show ?thesis using assms n b
    by (auto simp: bpred_tage_lookup_def Let_def bpred_tage_sc_ok_def bpred_tage_inv_def)
qed

interpretation ptage: dir_predictor bpred_tage_inv bpred_tage_sc_ok bpred_dir_t.truncate
  bpred_sc_t.truncate bpred_tage_lookup "tage_update_body second" bpred_tage_spec_update
  bpred_tage_recover bpred_tage_flush for second
proof (unfold_locales, goal_cases)
  case (1 s sc PC tPC oPC outcome p s' sc')
  have "s' = bpred_dir_count_lookup s" using 1(2) by (auto simp: bpred_tage_lookup_def Let_def)
  with 1 show ?case using bpred_tage_sc_ok_lookup [OF 1] by simp
next
  case (2 s sc PC tPC oPC outcome p s' sc')
  then show ?case
    by (auto simp: bpred_tage_lookup_def Let_def bpred_dir_t.truncate_def bpred_sc_t.truncate_def
        bpred_dir_count_lookup_def)
next
  case (3 s sc PC tPC oPC outcome our_pred s' sc')
  note fr = tage_update_body_frame [OF 3(3)]
  have "bpred_tage_sc_ok s' = bpred_tage_sc_ok s" by (simp add: bpred_tage_sc_ok_def fun_eq_iff fr)
  moreover have "tage_lens s' = tage_lens s" by (simp add: tage_lens_def fr)
  ultimately show ?case using 3(1,2) tage_update_body_tables [OF 3] fr(11)
    by (auto simp: bpred_tage_inv_def fr, simp add: bpred_tage_sc_ok_def fr)
next
  case (4 s sc PC tPC oPC outcome our_pred s' sc')
  show ?case
  proof (cases "updated sc")
    case True
    with 4 show ?thesis
      by (simp add: tage_update_body_def bpred_dir_update_def bpred_sc_t.truncate_def)
  next
    case False
    define s1 where "s1 = fst (bpred_dir_update s sc outcome our_pred)"
    obtain tu pw T' where "s' = s1\<lparr>Tuses := tu, pwin := pw, T := T'\<rparr>" and "sc' = sc\<lparr>updated := True\<rparr>"
    proof (rule that)
      show "s' = s1\<lparr>Tuses := Tuses s', pwin := pwin s', T := T s'\<rparr>" "sc' = sc\<lparr>updated := True\<rparr>"
        using 4 False by (simp_all only: tage_update_body_def Let_def not_False_eq_True if_True
            s1_def prod.inject, auto)
    qed
    then show ?thesis using False
      by (simp add: s1_def bpred_dir_update_def bpred_sc_t.truncate_def bpred_dir_t.truncate_def)
  qed
next
  case (5 s sc PC tPC oPC outcome our_pred s' sc')
  then have "length (bhr s) = 8" by (simp add: bpred_tage_inv_def)
  with 5 show ?case by (auto simp: bpred_tage_ops Let_def bpred_tage_set_bhr)
next
  case (7 s sc outcome)
  then have "length (lookup_bhr sc) = 8" by (simp add: bpred_tage_sc_ok_def)
  with 7 show ?case by (auto simp: bpred_tage_ops Let_def bpred_tage_set_bhr)
next
  case (9 s sc)
  then have "length (lookup_bhr sc) = 8" by (simp add: bpred_tage_sc_ok_def)
  with 9 show ?case by (auto simp: bpred_tage_ops Let_def bpred_tage_set_bhr)
qed (auto simp: bpred_tage_ops Let_def bpred_dir_t.truncate_def bpred_dir_spec_update_def)

text \<open>The assertion of the update holds for every cache filled by a look-up.\<close>

lemma bpred_tage_update_ok:
  "bpred_tage_sc_ok s sc \<Longrightarrow> bpred_tage_update second s sc PC tPC oPC outcome our_pred =
     Some (tage_update_body second s sc PC tPC oPC outcome our_pred)"
  by (auto simp: bpred_tage_update_def bpred_tage_sc_ok_def)

section \<open>Correctness of the history operations\<close>

definition tage_hist_bit :: "tage_hist_t \<Rightarrow> nat \<Rightarrow> bool" where
  "tage_hist_bit H k \<longleftrightarrow> bit (H ! (k div 64)) (k mod 64)"

fun hist_parity :: "tage_hist_t \<Rightarrow> nat \<Rightarrow> nat \<Rightarrow> nat \<Rightarrow> bool" where
  "hist_parity H w j 0 = False"
| "hist_parity H w j (Suc n) = (hist_parity H w j n \<noteq> tage_hist_bit H (n * w + j))"

lemma divmod64: "m < 64 \<Longrightarrow> (m + 64 * q) div 64 = q \<and> (m + 64 * q) mod 64 = m" for m q :: nat
  by simp

lemma bit_shl1: "bit (push_bit 1 h OR of_bool c) m \<longleftrightarrow> m < 64 \<and> (if m = 0 then c else bit h (m - 1))"
  for h :: "64 word"
  unfolding bit_or_iff bit_push_bit_iff by (cases "m = 0") (auto simp: bit_simps)

lemma tage_shift_bit: "i < length hs \<Longrightarrow> bit (tage_shift_words c hs ! i) m \<longleftrightarrow>
    m < 64 \<and> (if m = 0 then if i = 0 then c else bit (hs ! (i - 1)) 63 else bit (hs ! i) (m - 1))"
proof (induction hs arbitrary: c i)
  case (Cons h hs)
  then show ?case by (cases i) (auto simp: bit_shl1 nth_Cons simp del: One_nat_def split: nat.split)
qed simp

lemma tage_hist_bit_update:
  assumes "k < 64 * length H"
  shows "tage_hist_bit (bpred_tage_hist_update H outcome) k =
    (if k = 0 then outcome else tage_hist_bit H (k - 1))"
proof -
  have k: "k div 64 < length H" using assms by (simp add: less_mult_imp_div_less mult.commute)
  show ?thesis
  proof (cases "k mod 64 = 0")
    case True
    then obtain q where q: "k = 64 * q" by auto
    show ?thesis
    proof (cases q)
      case (Suc q')
      then have "(k - 1) div 64 = q'" "(k - 1) mod 64 = 63" using q by auto
      then show ?thesis using k q Suc
        by (simp add: tage_hist_bit_def bpred_tage_hist_update_def tage_shift_bit)
    qed (use k q in \<open>simp add: tage_hist_bit_def bpred_tage_hist_update_def tage_shift_bit\<close>)
  next
    case False
    have "k - 1 = (k mod 64 - 1) + 64 * (k div 64)" using False by simp
    then have "(k - 1) div 64 = k div 64" "(k - 1) mod 64 = k mod 64 - 1"
      using divmod64 [of "k mod 64 - 1" "k div 64"] False by simp_all
    then show ?thesis using k False
      by (auto simp: tage_hist_bit_def bpred_tage_hist_update_def tage_shift_bit)
  qed
qed

lemma bit_mask_scast: "w < 31 \<Longrightarrow> (scast (2 ^ w - 1 :: cint) :: 64 word) = mask w"
proof (rule bit_word_eqI)
  fix n assume w: "w < 31" and n: "n < LENGTH(64)"
  have "(2 ^ w - 1 :: cint) = mask w" by (simp add: mask_eq_exp_minus_1)
  then show "bit (scast (2 ^ w - 1 :: cint) :: 64 word) n = bit (mask w :: 64 word) n"
    using w n by (simp add: bit_simps min_def)
qed

lemma tage_hash_invariant:
  assumes w: "0 < w" "w < 31" and "n * w \<le> 512" and H: "length H = 8"
    and l: "tage_hash_loop H w n = (r, row, pos)"
  shows "row * 64 + pos = n * w \<and> pos < 64 \<and>
    (\<forall>j<32. bit r j \<longleftrightarrow> j < w \<and> hist_parity H w j n)"
  using assms(3) l
proof (induction n arbitrary: r row pos)
  case (Suc n)
  obtain r0 row0 pos0 where l0: "tage_hash_loop H w n = (r0, row0, pos0)"
    by (cases "tage_hash_loop H w n")
  have IH: "row0 * 64 + pos0 = n * w" "pos0 < 64"
    "\<And>j. j < 32 \<Longrightarrow> bit r0 j \<longleftrightarrow> j < w \<and> hist_parity H w j n"
    using Suc.IH [OF _ l0] Suc.prems by auto
  have step: "(r, row, pos) = tage_hash_step H w (r0, row0, pos0)"
    using Suc.prems l0 by simp
  have at: "tage_hist_bit H (n * w + j) \<longleftrightarrow>
      (if pos0 + j < 64 then bit (H ! row0) (pos0 + j) else bit (H ! (row0 + 1)) (pos0 + j - 64))"
    if "j < w" for j
  proof -
    have n: "n * w + j = 64 * row0 + (pos0 + j)" using IH(1) by simp
    show ?thesis
    proof (cases "pos0 + j < 64")
      case True
      then show ?thesis by (simp add: tage_hist_bit_def n)
    next
      case False
      then have "n * w + j = (pos0 + j - 64) + 64 * Suc row0" "pos0 + j - 64 < 64"
        using n IH(2) that w by auto
      then have "(n * w + j) div 64 = Suc row0" "(n * w + j) mod 64 = pos0 + j - 64"
        using divmod64 [of "pos0 + j - 64" "Suc row0"] by simp_all
      then show ?thesis using False unfolding tage_hist_bit_def by simp
    qed
  qed
  show ?case
  proof (cases "pos0 + w > 64")
    case True
    have m: "(pos0 + w) mod 64 = pos0 + w - 64" using True IH(2) w by (simp add: mod_if)
    have sh: "w - (pos0 + w - 64) = 64 - pos0" using True IH(2) by simp
    have e: "row = row0 + 1" "pos = pos0 + w - 64"
      "r = (r0 XOR ucast (drop_bit pos0 (H ! row0) AND mask w))
        XOR ucast (push_bit (64 - pos0) (H ! (row0 + 1)) AND mask w)"
      using step True by (simp_all add: tage_hash_step_def Let_def bit_mask_scast [OF w(2)] m sh)
    have "bit r j \<longleftrightarrow> j < w \<and> hist_parity H w j (Suc n)" if j: "j < 32" for j
    proof -
      have "\<not> pos0 + j < 64 \<longrightarrow> \<not> bit (H ! row0) (pos0 + j)"
        using bit_imp_le_length [of "H ! row0" "pos0 + j"] by auto
      moreover have "bit (push_bit (64 - pos0) (H ! (row0 + 1))) j \<longleftrightarrow>
          \<not> pos0 + j < 64 \<and> bit (H ! (row0 + 1)) (pos0 + j - 64)"
        using IH(2) j w by (auto simp: bit_push_bit_iff algebra_simps)
      ultimately show ?thesis using j IH(3) [OF j] at [of j] unfolding e
        by (cases "j < w"; cases "pos0 + j < 64")
          (simp_all add: bit_xor_iff bit_and_iff bit_unsigned_iff bit_drop_bit_eq bit_mask_iff)
    qed
    then show ?thesis using e IH True w by auto
  next
    case False
    have m: "63 < pos0 + w \<longleftrightarrow> pos0 + w = 64" using False by auto
    have e: "row = (if pos0 + w = 64 then row0 + 1 else row0)"
      "pos = (if pos0 + w = 64 then 0 else pos0 + w)"
      "r = r0 XOR ucast (drop_bit pos0 (H ! row0) AND mask w)"
      using step False by (auto simp: m tage_hash_step_def Let_def bit_mask_scast [OF w(2)] split: if_splits)
    have "bit r j \<longleftrightarrow> j < w \<and> hist_parity H w j (Suc n)" if j: "j < 32" for j
      using j IH(3) [OF j] at [of j] False unfolding e(3)
      by (cases "j < w") (simp_all add: bit_xor_iff bit_and_iff bit_unsigned_iff bit_drop_bit_eq bit_mask_iff)
    then show ?thesis using e IH False w by auto
  qed
qed simp

text \<open>C5: the loop of \<^verbatim>\<open>bpred_tage_hist_hash\<close>, which walks the eight history words with a row and a
  position and splices pieces across word boundaries, folds the history: bit \<open>j\<close> of the hash is the
  parity of the history bits \<open>j, j + w, j + 2w, \<dots>\<close>, for every width \<open>w\<close> up to 30 and every length up
  to 512, and nothing above the width is set.\<close>

theorem tage_hash_folds_history:
  assumes "0 < unat hash_length" and "unat hash_length < 31" and "unat hist_length \<le> 512"
    and "length H = 8" and "j < 32"
  shows "bit (bpred_tage_hist_hash H hist_length hash_length) j \<longleftrightarrow>
    j < unat hash_length \<and>
    hist_parity H (unat hash_length) j (unat hist_length div unat hash_length)"
proof -
  let ?n = "unat hist_length div unat hash_length"
  have "?n * unat hash_length \<le> 512"
    using assms(3) div_times_less_eq_dividend [of "unat hist_length" "unat hash_length"] by linarith
  then show ?thesis
    using tage_hash_invariant [OF assms(1,2) _ assms(4), of ?n] assms(5)
    by (cases "tage_hash_loop H (unat hash_length) ?n") (auto simp: bpred_tage_hist_hash_def)
qed

theorem tage_hash_folds_history_witness:
  "\<not> bit (bpred_tage_hist_hash [6, 0, 0, 0, 0, 0, 0, 0] 6 3) 0"
proof -
  have "\<not> hist_parity [6, 0, 0, 0, 0, 0, 0, 0] 3 0 2" by code_simp
  then show ?thesis
    using tage_hash_folds_history [of 3 6 "[6, 0, 0, 0, 0, 0, 0, 0]" 0] by simp
qed

lemma tage_create_inv:
  assumes "bpred_tage_create a nm n bs ts tw fl ll = Inr s" and "1 < unat n" and "unat ts \<le> unat bs"
  shows "bpred_tage_inv s"
proof -
  have c: "check_ppow2 bs" "check_ppow2 ts" "0 < sint n" "sint n < 16"
    using assms(1) by (auto simp: bpred_tage_create_def checks_Inr_iff)
  have n: "unat n < 16" using c(3,4) unat_lt32 [of n] by (auto simp: sint_cint simp del: of_nat_unat split: if_splits)
  have s: "s = (let k = unat n in bpred_dir_t.extend (bpred_dir_init nm ''tage''
      (bs * 2 + (n - 1) * (2 + 3 + tw) * ts + ll + 4))
         (bpred_tage_t.fields n ts (log2_int ts) (ts - 1) tw (shl 1 tw - 1) bs (bs - 1) a
           (tage_Hlen k fl ll a)
           (replicate (unat bs) \<lparr>tag = 0, ctr = MY2BC_WEAKLY_TAKEN, u = 0\<rparr> #
            replicate (k - 1) (replicate (unat ts) \<lparr>tag = 0, ctr = 4, u = 0\<rparr>))
           15 (replicate k 0) (replicate 8 0)))"
    using assms(1) by (simp add: bpred_tage_create_def checks_Inr_iff)
  have "tables_ok (T s)"
    unfolding tables_ok_def
    using assms(2) by (auto simp: s Let_def bpred_tage_t.defs bpred_dir_t.defs bpred_dir_init_def
        nth_Cons list_all_iff ent_ok_def MY2BC_WEAKLY_TAKEN_def split: nat.split)
  then show ?thesis using c assms n
    by (auto simp: bpred_tage_inv_def s Let_def tage_lens_def tage_Hlen_def bpred_tage_t.defs
        bpred_dir_t.defs bpred_dir_init_def)
qed

end
