(* ===== verification/Bpred_Dispatch.thy ===== *)
theory Bpred_Dispatch
  imports Bpred_2bC Bpred_2lev Bpred_Bimode Bpred_Skewed Bpred_Yags Bpred_Static Bpred_Perceptron
    Bpred_Tage
begin

text \<open>
  Virtual dispatch of the direction predictors. The top-level predictor holds pointers to
  \<^verbatim>\<open>bpred_dir_t\<close> objects of any of the classes and passes each the state cache it allocated, which
  the class casts to its own type. An object is a value of \<open>dir_pred\<close>, a cache of \<open>dir_sc\<close>, a cast of
  a cache of another class is None. The lemmas lift the laws of \<open>dir_predictor\<close>, interpreted for
  each class, to the dispatched operations: with caches of the right class no cast fails, shapes
  are kept and the statistics change as the base class's do.
\<close>

section \<open>Objects and casts\<close>

datatype dir_pred =
    D_taken bpred_dir_t
  | D_nottaken bpred_dir_t
  | D_btfnt bpred_dir_t
  | D_perfect bpred_dir_t
  | D_random bpred_random_t
  | D_2bC bpred_2bC_t
  | D_2lev bpred_2lev_t
  | D_bimode bpred_bimode_t
  | D_skewed bpred_skewed_t
  | D_yags bpred_yags_t
  | D_perceptron bpred_perceptron_t
  | D_tage bpred_tage_t

datatype dir_sc =
    SC_base bpred_sc_t
  | SC_2bC bpred_2bC_sc_t
  | SC_2lev bpred_2lev_sc_t
  | SC_bimode bpred_bimode_sc_t
  | SC_skewed bpred_skewed_sc_t
  | SC_yags bpred_yags_sc_t
  | SC_perceptron bpred_perceptron_sc_t
  | SC_tage bpred_tage_sc_t

definition as_base :: "dir_sc \<Rightarrow> bpred_sc_t option" where
  "as_base sc = (case sc of SC_base x \<Rightarrow> Some x | _ \<Rightarrow> None)"

definition as_2bC :: "dir_sc \<Rightarrow> bpred_2bC_sc_t option" where
  "as_2bC sc = (case sc of SC_2bC x \<Rightarrow> Some x | _ \<Rightarrow> None)"

definition as_2lev :: "dir_sc \<Rightarrow> bpred_2lev_sc_t option" where
  "as_2lev sc = (case sc of SC_2lev x \<Rightarrow> Some x | _ \<Rightarrow> None)"

definition as_bimode :: "dir_sc \<Rightarrow> bpred_bimode_sc_t option" where
  "as_bimode sc = (case sc of SC_bimode x \<Rightarrow> Some x | _ \<Rightarrow> None)"

definition as_skewed :: "dir_sc \<Rightarrow> bpred_skewed_sc_t option" where
  "as_skewed sc = (case sc of SC_skewed x \<Rightarrow> Some x | _ \<Rightarrow> None)"

definition as_yags :: "dir_sc \<Rightarrow> bpred_yags_sc_t option" where
  "as_yags sc = (case sc of SC_yags x \<Rightarrow> Some x | _ \<Rightarrow> None)"

definition as_perceptron :: "dir_sc \<Rightarrow> bpred_perceptron_sc_t option" where
  "as_perceptron sc = (case sc of SC_perceptron x \<Rightarrow> Some x | _ \<Rightarrow> None)"

definition as_tage :: "dir_sc \<Rightarrow> bpred_tage_sc_t option" where
  "as_tage sc = (case sc of SC_tage x \<Rightarrow> Some x | _ \<Rightarrow> None)"

lemmas casts = as_base_def as_2bC_def as_2lev_def as_bimode_def as_skewed_def as_yags_def as_perceptron_def as_tage_def

section \<open>Dispatched operations\<close>

text \<open>The number \<open>r\<close> is the draw of the classes that use random numbers.\<close>

fun dir_lookup :: "nat \<Rightarrow> dir_pred \<Rightarrow> dir_sc \<Rightarrow> md_addr_t \<Rightarrow> md_addr_t \<Rightarrow> md_addr_t \<Rightarrow> bool \<Rightarrow>
    (bool \<times> dir_pred \<times> dir_sc) option" where
    "dir_lookup r (D_taken s) sc PC tPC oPC outcome =
      map_option (\<lambda>x. case bpred_taken_lookup s x PC tPC oPC outcome of (p, s', x') \<Rightarrow> (p, D_taken s', SC_base x'))
        (as_base sc)"
  | "dir_lookup r (D_nottaken s) sc PC tPC oPC outcome =
      map_option (\<lambda>x. case bpred_nottaken_lookup s x PC tPC oPC outcome of (p, s', x') \<Rightarrow> (p, D_nottaken s', SC_base x'))
        (as_base sc)"
  | "dir_lookup r (D_btfnt s) sc PC tPC oPC outcome =
      map_option (\<lambda>x. case bpred_btfnt_lookup s x PC tPC oPC outcome of (p, s', x') \<Rightarrow> (p, D_btfnt s', SC_base x'))
        (as_base sc)"
  | "dir_lookup r (D_perfect s) sc PC tPC oPC outcome =
      map_option (\<lambda>x. case bpred_perfect_lookup s x PC tPC oPC outcome of (p, s', x') \<Rightarrow> (p, D_perfect s', SC_base x'))
        (as_base sc)"
  | "dir_lookup r (D_random s) sc PC tPC oPC outcome =
      map_option (\<lambda>x. case bpred_random_lookup (word_of_nat r) s x PC tPC oPC outcome of (p, s', x') \<Rightarrow> (p, D_random s', SC_base x'))
        (as_base sc)"
  | "dir_lookup r (D_2bC s) sc PC tPC oPC outcome =
      map_option (\<lambda>x. case bpred_2bC_lookup s x PC tPC oPC outcome of (p, s', x') \<Rightarrow> (p, D_2bC s', SC_2bC x'))
        (as_2bC sc)"
  | "dir_lookup r (D_2lev s) sc PC tPC oPC outcome =
      map_option (\<lambda>x. case bpred_2lev_lookup s x PC tPC oPC outcome of (p, s', x') \<Rightarrow> (p, D_2lev s', SC_2lev x'))
        (as_2lev sc)"
  | "dir_lookup r (D_bimode s) sc PC tPC oPC outcome =
      map_option (\<lambda>x. case bpred_bimode_lookup s x PC tPC oPC outcome of (p, s', x') \<Rightarrow> (p, D_bimode s', SC_bimode x'))
        (as_bimode sc)"
  | "dir_lookup r (D_skewed s) sc PC tPC oPC outcome =
      map_option (\<lambda>x. case bpred_skewed_lookup s x PC tPC oPC outcome of (p, s', x') \<Rightarrow> (p, D_skewed s', SC_skewed x'))
        (as_skewed sc)"
  | "dir_lookup r (D_yags s) sc PC tPC oPC outcome =
      map_option (\<lambda>x. case bpred_yags_lookup s x PC tPC oPC outcome of (p, s', x') \<Rightarrow> (p, D_yags s', SC_yags x'))
        (as_yags sc)"
  | "dir_lookup r (D_perceptron s) sc PC tPC oPC outcome =
      map_option (\<lambda>x. case bpred_perceptron_lookup s x PC tPC oPC outcome of (p, s', x') \<Rightarrow> (p, D_perceptron s', SC_perceptron x'))
        (as_perceptron sc)"
  | "dir_lookup r (D_tage s) sc PC tPC oPC outcome =
      map_option (\<lambda>x. case bpred_tage_lookup s x PC tPC oPC outcome of (p, s', x') \<Rightarrow> (p, D_tage s', SC_tage x'))
        (as_tage sc)"

fun dir_update :: "nat \<Rightarrow> dir_pred \<Rightarrow> dir_sc \<Rightarrow> md_addr_t \<Rightarrow> md_addr_t \<Rightarrow> md_addr_t \<Rightarrow> bool \<Rightarrow> bool \<Rightarrow>
    (dir_pred \<times> dir_sc) option" where
    "dir_update r (D_taken s) sc PC tPC oPC outcome our_pred =
      map_option (\<lambda>x. case bpred_inherited_update s x PC tPC oPC outcome our_pred of (s', x') \<Rightarrow> (D_taken s', SC_base x'))
        (as_base sc)"
  | "dir_update r (D_nottaken s) sc PC tPC oPC outcome our_pred =
      map_option (\<lambda>x. case bpred_inherited_update s x PC tPC oPC outcome our_pred of (s', x') \<Rightarrow> (D_nottaken s', SC_base x'))
        (as_base sc)"
  | "dir_update r (D_btfnt s) sc PC tPC oPC outcome our_pred =
      map_option (\<lambda>x. case bpred_inherited_update s x PC tPC oPC outcome our_pred of (s', x') \<Rightarrow> (D_btfnt s', SC_base x'))
        (as_base sc)"
  | "dir_update r (D_perfect s) sc PC tPC oPC outcome our_pred =
      map_option (\<lambda>x. case bpred_inherited_update s x PC tPC oPC outcome our_pred of (s', x') \<Rightarrow> (D_perfect s', SC_base x'))
        (as_base sc)"
  | "dir_update r (D_random s) sc PC tPC oPC outcome our_pred =
      map_option (\<lambda>x. case bpred_random_update s x PC tPC oPC outcome our_pred of (s', x') \<Rightarrow> (D_random s', SC_base x'))
        (as_base sc)"
  | "dir_update r (D_2bC s) sc PC tPC oPC outcome our_pred =
      map_option (\<lambda>x. case bpred_2bC_update s x PC tPC oPC outcome our_pred of (s', x') \<Rightarrow> (D_2bC s', SC_2bC x'))
        (as_2bC sc)"
  | "dir_update r (D_2lev s) sc PC tPC oPC outcome our_pred =
      map_option (\<lambda>x. case bpred_2lev_update s x PC tPC oPC outcome our_pred of (s', x') \<Rightarrow> (D_2lev s', SC_2lev x'))
        (as_2lev sc)"
  | "dir_update r (D_bimode s) sc PC tPC oPC outcome our_pred =
      map_option (\<lambda>x. case bpred_bimode_update s x PC tPC oPC outcome our_pred of (s', x') \<Rightarrow> (D_bimode s', SC_bimode x'))
        (as_bimode sc)"
  | "dir_update r (D_skewed s) sc PC tPC oPC outcome our_pred =
      map_option (\<lambda>x. case bpred_skewed_update s x PC tPC oPC outcome our_pred of (s', x') \<Rightarrow> (D_skewed s', SC_skewed x'))
        (as_skewed sc)"
  | "dir_update r (D_yags s) sc PC tPC oPC outcome our_pred =
      map_option (\<lambda>x. case bpred_yags_update s x PC tPC oPC outcome our_pred of (s', x') \<Rightarrow> (D_yags s', SC_yags x'))
        (as_yags sc)"
  | "dir_update r (D_perceptron s) sc PC tPC oPC outcome our_pred =
      map_option (\<lambda>x. case bpred_perceptron_update s x PC tPC oPC outcome our_pred of (s', x') \<Rightarrow> (D_perceptron s', SC_perceptron x'))
        (as_perceptron sc)"
  | "dir_update r (D_tage s) sc PC tPC oPC outcome our_pred =
      Option.bind (as_tage sc) (\<lambda>x. map_option (\<lambda>(s', x'). (D_tage s', SC_tage x'))
        (bpred_tage_update (odd r) s x PC tPC oPC outcome our_pred))"

fun dir_spec_update :: "dir_pred \<Rightarrow> dir_sc \<Rightarrow> md_addr_t \<Rightarrow> md_addr_t \<Rightarrow> md_addr_t \<Rightarrow> bool \<Rightarrow> bool \<Rightarrow>
    (dir_pred \<times> dir_sc) option" where
    "dir_spec_update (D_taken s) sc PC tPC oPC outcome our_pred =
      map_option (\<lambda>x. case bpred_inherited_spec_update s x PC tPC oPC outcome our_pred of (s', x') \<Rightarrow> (D_taken s', SC_base x'))
        (as_base sc)"
  | "dir_spec_update (D_nottaken s) sc PC tPC oPC outcome our_pred =
      map_option (\<lambda>x. case bpred_inherited_spec_update s x PC tPC oPC outcome our_pred of (s', x') \<Rightarrow> (D_nottaken s', SC_base x'))
        (as_base sc)"
  | "dir_spec_update (D_btfnt s) sc PC tPC oPC outcome our_pred =
      map_option (\<lambda>x. case bpred_inherited_spec_update s x PC tPC oPC outcome our_pred of (s', x') \<Rightarrow> (D_btfnt s', SC_base x'))
        (as_base sc)"
  | "dir_spec_update (D_perfect s) sc PC tPC oPC outcome our_pred =
      map_option (\<lambda>x. case bpred_inherited_spec_update s x PC tPC oPC outcome our_pred of (s', x') \<Rightarrow> (D_perfect s', SC_base x'))
        (as_base sc)"
  | "dir_spec_update (D_random s) sc PC tPC oPC outcome our_pred =
      map_option (\<lambda>x. case bpred_random_spec_update s x PC tPC oPC outcome our_pred of (s', x') \<Rightarrow> (D_random s', SC_base x'))
        (as_base sc)"
  | "dir_spec_update (D_2bC s) sc PC tPC oPC outcome our_pred =
      map_option (\<lambda>x. case bpred_2bC_spec_update s x PC tPC oPC outcome our_pred of (s', x') \<Rightarrow> (D_2bC s', SC_2bC x'))
        (as_2bC sc)"
  | "dir_spec_update (D_2lev s) sc PC tPC oPC outcome our_pred =
      map_option (\<lambda>x. case bpred_2lev_spec_update s x PC tPC oPC outcome our_pred of (s', x') \<Rightarrow> (D_2lev s', SC_2lev x'))
        (as_2lev sc)"
  | "dir_spec_update (D_bimode s) sc PC tPC oPC outcome our_pred =
      map_option (\<lambda>x. case bpred_bimode_spec_update s x PC tPC oPC outcome our_pred of (s', x') \<Rightarrow> (D_bimode s', SC_bimode x'))
        (as_bimode sc)"
  | "dir_spec_update (D_skewed s) sc PC tPC oPC outcome our_pred =
      map_option (\<lambda>x. case bpred_skewed_spec_update s x PC tPC oPC outcome our_pred of (s', x') \<Rightarrow> (D_skewed s', SC_skewed x'))
        (as_skewed sc)"
  | "dir_spec_update (D_yags s) sc PC tPC oPC outcome our_pred =
      map_option (\<lambda>x. case bpred_yags_spec_update s x PC tPC oPC outcome our_pred of (s', x') \<Rightarrow> (D_yags s', SC_yags x'))
        (as_yags sc)"
  | "dir_spec_update (D_perceptron s) sc PC tPC oPC outcome our_pred =
      map_option (\<lambda>x. case bpred_perceptron_spec_update s x PC tPC oPC outcome our_pred of (s', x') \<Rightarrow> (D_perceptron s', SC_perceptron x'))
        (as_perceptron sc)"
  | "dir_spec_update (D_tage s) sc PC tPC oPC outcome our_pred =
      map_option (\<lambda>x. case bpred_tage_spec_update s x PC tPC oPC outcome our_pred of (s', x') \<Rightarrow> (D_tage s', SC_tage x'))
        (as_tage sc)"

fun dir_recover :: "dir_pred \<Rightarrow> dir_sc \<Rightarrow> bool \<Rightarrow> dir_pred option" where
    "dir_recover (D_taken s) sc outcome = map_option (\<lambda>x. D_taken (bpred_dir_recover s x outcome)) (as_base sc)"
  | "dir_recover (D_nottaken s) sc outcome = map_option (\<lambda>x. D_nottaken (bpred_dir_recover s x outcome)) (as_base sc)"
  | "dir_recover (D_btfnt s) sc outcome = map_option (\<lambda>x. D_btfnt (bpred_dir_recover s x outcome)) (as_base sc)"
  | "dir_recover (D_perfect s) sc outcome = map_option (\<lambda>x. D_perfect (bpred_dir_recover s x outcome)) (as_base sc)"
  | "dir_recover (D_random s) sc outcome = map_option (\<lambda>x. D_random (bpred_dir_recover s x outcome)) (as_base sc)"
  | "dir_recover (D_2bC s) sc outcome = map_option (\<lambda>x. D_2bC (bpred_dir_recover s x outcome)) (as_2bC sc)"
  | "dir_recover (D_2lev s) sc outcome = map_option (\<lambda>x. D_2lev (bpred_2lev_recover s x outcome)) (as_2lev sc)"
  | "dir_recover (D_bimode s) sc outcome = map_option (\<lambda>x. D_bimode (bpred_bimode_recover s x outcome)) (as_bimode sc)"
  | "dir_recover (D_skewed s) sc outcome = map_option (\<lambda>x. D_skewed (bpred_skewed_recover s x outcome)) (as_skewed sc)"
  | "dir_recover (D_yags s) sc outcome = map_option (\<lambda>x. D_yags (bpred_yags_recover s x outcome)) (as_yags sc)"
  | "dir_recover (D_perceptron s) sc outcome = map_option (\<lambda>x. D_perceptron (bpred_perceptron_recover s x outcome)) (as_perceptron sc)"
  | "dir_recover (D_tage s) sc outcome = map_option (\<lambda>x. D_tage (bpred_tage_recover s x outcome)) (as_tage sc)"

fun dir_flush :: "dir_pred \<Rightarrow> dir_sc \<Rightarrow> dir_pred option" where
    "dir_flush (D_taken s) sc = map_option (\<lambda>x. D_taken (bpred_dir_flush s x)) (as_base sc)"
  | "dir_flush (D_nottaken s) sc = map_option (\<lambda>x. D_nottaken (bpred_dir_flush s x)) (as_base sc)"
  | "dir_flush (D_btfnt s) sc = map_option (\<lambda>x. D_btfnt (bpred_dir_flush s x)) (as_base sc)"
  | "dir_flush (D_perfect s) sc = map_option (\<lambda>x. D_perfect (bpred_dir_flush s x)) (as_base sc)"
  | "dir_flush (D_random s) sc = map_option (\<lambda>x. D_random (bpred_dir_flush s x)) (as_base sc)"
  | "dir_flush (D_2bC s) sc = map_option (\<lambda>x. D_2bC (bpred_dir_flush s x)) (as_2bC sc)"
  | "dir_flush (D_2lev s) sc = map_option (\<lambda>x. D_2lev (bpred_2lev_flush s x)) (as_2lev sc)"
  | "dir_flush (D_bimode s) sc = map_option (\<lambda>x. D_bimode (bpred_bimode_flush s x)) (as_bimode sc)"
  | "dir_flush (D_skewed s) sc = map_option (\<lambda>x. D_skewed (bpred_skewed_flush s x)) (as_skewed sc)"
  | "dir_flush (D_yags s) sc = map_option (\<lambda>x. D_yags (bpred_yags_flush s x)) (as_yags sc)"
  | "dir_flush (D_perceptron s) sc = map_option (\<lambda>x. D_perceptron (bpred_perceptron_flush s x)) (as_perceptron sc)"
  | "dir_flush (D_tage s) sc = map_option (\<lambda>x. D_tage (bpred_tage_flush s x)) (as_tage sc)"

fun dir_get_cache :: "dir_pred \<Rightarrow> dir_sc" where
    "dir_get_cache (D_taken s) = SC_base bpred_dir_get_cache"
  | "dir_get_cache (D_nottaken s) = SC_base bpred_dir_get_cache"
  | "dir_get_cache (D_btfnt s) = SC_base bpred_dir_get_cache"
  | "dir_get_cache (D_perfect s) = SC_base bpred_dir_get_cache"
  | "dir_get_cache (D_random s) = SC_base bpred_dir_get_cache"
  | "dir_get_cache (D_2bC s) = SC_2bC bpred_2bC_get_cache"
  | "dir_get_cache (D_2lev s) = SC_2lev bpred_2lev_get_cache"
  | "dir_get_cache (D_bimode s) = SC_bimode bpred_bimode_get_cache"
  | "dir_get_cache (D_skewed s) = SC_skewed bpred_skewed_get_cache"
  | "dir_get_cache (D_yags s) = SC_yags bpred_yags_get_cache"
  | "dir_get_cache (D_perceptron s) = SC_perceptron bpred_perceptron_get_cache"
  | "dir_get_cache (D_tage s) = SC_tage bpred_tage_get_cache"

fun dir_reset_stats :: "dir_pred \<Rightarrow> dir_pred" where
    "dir_reset_stats (D_taken s) = D_taken (bpred_dir_reset_stats s)"
  | "dir_reset_stats (D_nottaken s) = D_nottaken (bpred_dir_reset_stats s)"
  | "dir_reset_stats (D_btfnt s) = D_btfnt (bpred_dir_reset_stats s)"
  | "dir_reset_stats (D_perfect s) = D_perfect (bpred_dir_reset_stats s)"
  | "dir_reset_stats (D_random s) = D_random (bpred_random_reset_stats s)"
  | "dir_reset_stats (D_2bC s) = D_2bC (bpred_dir_reset_stats s)"
  | "dir_reset_stats (D_2lev s) = D_2lev (bpred_dir_reset_stats s)"
  | "dir_reset_stats (D_bimode s) = D_bimode (bpred_dir_reset_stats s)"
  | "dir_reset_stats (D_skewed s) = D_skewed (bpred_dir_reset_stats s)"
  | "dir_reset_stats (D_yags s) = D_yags (bpred_dir_reset_stats s)"
  | "dir_reset_stats (D_perceptron s) = D_perceptron (bpred_dir_reset_stats s)"
  | "dir_reset_stats (D_tage s) = D_tage (bpred_dir_reset_stats s)"

fun dir_freeze :: "dir_pred \<Rightarrow> dir_pred" where
    "dir_freeze (D_taken s) = D_taken (s\<lparr>bpred_dir_t.frozen := True\<rparr>)"
  | "dir_freeze (D_nottaken s) = D_nottaken (s\<lparr>bpred_dir_t.frozen := True\<rparr>)"
  | "dir_freeze (D_btfnt s) = D_btfnt (s\<lparr>bpred_dir_t.frozen := True\<rparr>)"
  | "dir_freeze (D_perfect s) = D_perfect (s\<lparr>bpred_dir_t.frozen := True\<rparr>)"
  | "dir_freeze (D_random s) = D_random (s\<lparr>bpred_dir_t.frozen := True\<rparr>)"
  | "dir_freeze (D_2bC s) = D_2bC (s\<lparr>bpred_dir_t.frozen := True\<rparr>)"
  | "dir_freeze (D_2lev s) = D_2lev (s\<lparr>bpred_dir_t.frozen := True\<rparr>)"
  | "dir_freeze (D_bimode s) = D_bimode (s\<lparr>bpred_dir_t.frozen := True\<rparr>)"
  | "dir_freeze (D_skewed s) = D_skewed (s\<lparr>bpred_dir_t.frozen := True\<rparr>)"
  | "dir_freeze (D_yags s) = D_yags (s\<lparr>bpred_dir_t.frozen := True\<rparr>)"
  | "dir_freeze (D_perceptron s) = D_perceptron (s\<lparr>bpred_dir_t.frozen := True\<rparr>)"
  | "dir_freeze (D_tage s) = D_tage (s\<lparr>bpred_dir_t.frozen := True\<rparr>)"

section \<open>Laws\<close>

fun dir_base :: "dir_pred \<Rightarrow> bpred_dir_t" where
    "dir_base (D_taken s) = bpred_dir_t.truncate s"
  | "dir_base (D_nottaken s) = bpred_dir_t.truncate s"
  | "dir_base (D_btfnt s) = bpred_dir_t.truncate s"
  | "dir_base (D_perfect s) = bpred_dir_t.truncate s"
  | "dir_base (D_random s) = bpred_dir_t.truncate s"
  | "dir_base (D_2bC s) = bpred_dir_t.truncate s"
  | "dir_base (D_2lev s) = bpred_dir_t.truncate s"
  | "dir_base (D_bimode s) = bpred_dir_t.truncate s"
  | "dir_base (D_skewed s) = bpred_dir_t.truncate s"
  | "dir_base (D_yags s) = bpred_dir_t.truncate s"
  | "dir_base (D_perceptron s) = bpred_dir_t.truncate s"
  | "dir_base (D_tage s) = bpred_dir_t.truncate s"

fun dir_inv :: "dir_pred \<Rightarrow> bool" where
    "dir_inv (D_taken s) = True"
  | "dir_inv (D_nottaken s) = True"
  | "dir_inv (D_btfnt s) = True"
  | "dir_inv (D_perfect s) = True"
  | "dir_inv (D_random s) = True"
  | "dir_inv (D_2bC s) = bpred_2bC_inv s"
  | "dir_inv (D_2lev s) = bpred_2lev_inv s"
  | "dir_inv (D_bimode s) = bpred_bimode_inv s"
  | "dir_inv (D_skewed s) = bpred_skewed_inv s"
  | "dir_inv (D_yags s) = bpred_yags_inv s"
  | "dir_inv (D_perceptron s) = bpred_perceptron_inv s"
  | "dir_inv (D_tage s) = bpred_tage_inv s"

fun dir_match :: "dir_pred \<Rightarrow> dir_sc \<Rightarrow> bool" where
    "dir_match (D_taken s) sc = (as_base sc \<noteq> None)"
  | "dir_match (D_nottaken s) sc = (as_base sc \<noteq> None)"
  | "dir_match (D_btfnt s) sc = (as_base sc \<noteq> None)"
  | "dir_match (D_perfect s) sc = (as_base sc \<noteq> None)"
  | "dir_match (D_random s) sc = (as_base sc \<noteq> None)"
  | "dir_match (D_2bC s) sc = (as_2bC sc \<noteq> None)"
  | "dir_match (D_2lev s) sc = (as_2lev sc \<noteq> None)"
  | "dir_match (D_bimode s) sc = (as_bimode sc \<noteq> None)"
  | "dir_match (D_skewed s) sc = (as_skewed sc \<noteq> None)"
  | "dir_match (D_yags s) sc = (as_yags sc \<noteq> None)"
  | "dir_match (D_perceptron s) sc = (as_perceptron sc \<noteq> None)"
  | "dir_match (D_tage s) sc = (as_tage sc \<noteq> None)"

fun dir_sc_ok :: "dir_pred \<Rightarrow> dir_sc \<Rightarrow> bool" where
    "dir_sc_ok (D_taken s) sc = (case as_base sc of None \<Rightarrow> False | Some x \<Rightarrow> True)"
  | "dir_sc_ok (D_nottaken s) sc = (case as_base sc of None \<Rightarrow> False | Some x \<Rightarrow> True)"
  | "dir_sc_ok (D_btfnt s) sc = (case as_base sc of None \<Rightarrow> False | Some x \<Rightarrow> True)"
  | "dir_sc_ok (D_perfect s) sc = (case as_base sc of None \<Rightarrow> False | Some x \<Rightarrow> True)"
  | "dir_sc_ok (D_random s) sc = (case as_base sc of None \<Rightarrow> False | Some x \<Rightarrow> True)"
  | "dir_sc_ok (D_2bC s) sc = (case as_2bC sc of None \<Rightarrow> False | Some x \<Rightarrow> bpred_2bC_sc_ok s x)"
  | "dir_sc_ok (D_2lev s) sc = (case as_2lev sc of None \<Rightarrow> False | Some x \<Rightarrow> bpred_2lev_sc_ok s x)"
  | "dir_sc_ok (D_bimode s) sc = (case as_bimode sc of None \<Rightarrow> False | Some x \<Rightarrow> bpred_bimode_sc_ok s x)"
  | "dir_sc_ok (D_skewed s) sc = (case as_skewed sc of None \<Rightarrow> False | Some x \<Rightarrow> bpred_skewed_sc_ok s x)"
  | "dir_sc_ok (D_yags s) sc = (case as_yags sc of None \<Rightarrow> False | Some x \<Rightarrow> bpred_yags_sc_ok s x)"
  | "dir_sc_ok (D_perceptron s) sc = (case as_perceptron sc of None \<Rightarrow> False | Some x \<Rightarrow> bpred_perceptron_sc_ok s x)"
  | "dir_sc_ok (D_tage s) sc = (case as_tage sc of None \<Rightarrow> False | Some x \<Rightarrow> bpred_tage_sc_ok s x)"

definition sc_base :: "dir_sc \<Rightarrow> bpred_sc_t" where
  "sc_base sc = (case sc of SC_base x \<Rightarrow> x
     | SC_2bC y \<Rightarrow> bpred_sc_t.truncate y
     | SC_2lev y \<Rightarrow> bpred_sc_t.truncate y
     | SC_bimode y \<Rightarrow> bpred_sc_t.truncate y
     | SC_skewed y \<Rightarrow> bpred_sc_t.truncate y
     | SC_yags y \<Rightarrow> bpred_sc_t.truncate y
     | SC_perceptron y \<Rightarrow> bpred_sc_t.truncate y
     | SC_tage y \<Rightarrow> bpred_sc_t.truncate y)"

text \<open>What an operation keeps: the shape, the class, and the validity of every cache.\<close>

definition dir_keeps :: "dir_pred \<Rightarrow> dir_pred \<Rightarrow> bool" where
  "dir_keeps d d' \<longleftrightarrow> dir_inv d' \<and> dir_match d' = dir_match d \<and> (\<forall>x. dir_sc_ok d x \<longrightarrow> dir_sc_ok d' x)"

lemma dir_sc_ok_match: "dir_sc_ok d sc \<Longrightarrow> dir_match d sc"
  by (cases d) (auto split: option.splits)

lemma dir_get_cache_match [simp]: "dir_match d (dir_get_cache d)"
  by (cases d) (simp_all add: casts)

text \<open>The laws of all classes, in one bundle per operation.\<close>

lemmas lookup_laws = p2bC.lookup_law p2lev.lookup_law pbimode.lookup_law pskewed.lookup_law
  pyags.lookup_law pperceptron.lookup_law ptage.lookup_law

lemmas update_laws = p2bC.update_law p2lev.update_law pbimode.update_law pskewed.update_law
  pyags.update_law pperceptron.update_law ptage.update_law

lemmas spec_update_laws = p2bC.spec_update_law p2lev.spec_update_law pbimode.spec_update_law
  pskewed.spec_update_law pyags.spec_update_law pperceptron.spec_update_law ptage.spec_update_law

lemmas recover_laws = p2bC.recover_law p2lev.recover_law pbimode.recover_law pskewed.recover_law
  pyags.recover_law pperceptron.recover_law ptage.recover_law

lemmas flush_laws = p2bC.flush_law p2lev.flush_law pbimode.flush_law pskewed.flush_law
  pyags.flush_law pperceptron.flush_law ptage.flush_law

lemma as_Some [simp]:
  "as_base (SC_base x0) = Some x0" "as_2bC (SC_2bC x1) = Some x1" "as_2lev (SC_2lev x2) = Some x2"
  "as_bimode (SC_bimode x3) = Some x3" "as_skewed (SC_skewed x4) = Some x4"
  "as_yags (SC_yags x5) = Some x5" "as_perceptron (SC_perceptron x6) = Some x6"
  "as_tage (SC_tage x7) = Some x7"
  by (simp_all add: casts)

lemma dir_lookup_ok:
  assumes "dir_inv d" and "dir_match d sc"
  shows "\<exists>p d' sc'. dir_lookup r d sc PC tPC oPC outcome = Some (p, d', sc') \<and>
    dir_keeps d d' \<and> dir_sc_ok d' sc'"
  using assms
  by (cases d; cases sc)
    (auto simp: casts dir_keeps_def fun_eq_iff split: prod.splits dir_sc.splits dest: lookup_laws)

lemma dir_update_ok:
  assumes "dir_inv d" and "dir_sc_ok d sc"
  shows "\<exists>d' sc'. dir_update r d sc PC tPC oPC outcome our_pred = Some (d', sc') \<and>
    dir_keeps d d' \<and> dir_sc_ok d' sc'"
  using assms
  by (cases d; cases sc)
    (auto simp: casts dir_keeps_def fun_eq_iff bpred_tage_update_ok split: prod.splits dir_sc.splits dest: update_laws)

lemma dir_spec_update_ok:
  assumes "dir_inv d" and "dir_sc_ok d sc"
  shows "\<exists>d' sc'. dir_spec_update d sc PC tPC oPC outcome our_pred = Some (d', sc') \<and>
    dir_keeps d d' \<and> dir_sc_ok d' sc'"
  using assms
  by (cases d; cases sc)
    (auto simp: casts dir_keeps_def fun_eq_iff split: prod.splits dir_sc.splits dest: spec_update_laws)

lemma dir_recover_ok:
  assumes "dir_inv d" and "dir_sc_ok d sc"
  shows "\<exists>d'. dir_recover d sc outcome = Some d' \<and> dir_keeps d d'"
  using assms
  by (cases d; cases sc)
    (auto simp: casts dir_keeps_def fun_eq_iff recover_laws split: dir_sc.splits)

lemma dir_flush_ok:
  assumes "dir_inv d" and "dir_sc_ok d sc"
  shows "\<exists>d'. dir_flush d sc = Some d' \<and> dir_keeps d d'"
  using assms
  by (cases d; cases sc)
    (auto simp: casts dir_keeps_def fun_eq_iff flush_laws split: dir_sc.splits)

text \<open>The statistics of the base class.\<close>

lemma truncate_dir [simp]: "bpred_dir_t.truncate s = s" for s :: bpred_dir_t
  by (simp add: bpred_dir_t.truncate_def)

context dir_predictor
begin

lemma lookup_base_proj:
  "base (fst (snd (lookup s sc PC tPC oPC outcome))) = bpred_dir_count_lookup (base s)"
  using lookup_base by (metis prod.collapse)

lemma update_base_proj:
  "base (fst (update s sc PC tPC oPC outcome our_pred)) =
     fst (bpred_dir_update (base s) (base_sc sc) outcome our_pred)"
  using update_base by (metis prod.collapse)

lemma spec_update_base_proj:
  "base (fst (spec_update s sc PC tPC oPC outcome our_pred)) = bpred_dir_spec_update (base s)"
  using spec_update_base by (metis prod.collapse)

end

lemmas lookup_bases = ptaken.lookup_base_proj pnottaken.lookup_base_proj pbtfnt.lookup_base_proj pperfect.lookup_base_proj
  prandom.lookup_base_proj p2bC.lookup_base_proj p2lev.lookup_base_proj pbimode.lookup_base_proj pskewed.lookup_base_proj
  pyags.lookup_base_proj pperceptron.lookup_base_proj ptage.lookup_base_proj

lemmas update_bases = ptaken.update_base_proj prandom.update_base_proj p2bC.update_base_proj p2lev.update_base_proj
  pbimode.update_base_proj pskewed.update_base_proj pyags.update_base_proj pperceptron.update_base_proj ptage.update_base_proj

lemmas spec_update_bases = ptaken.spec_update_base_proj prandom.spec_update_base_proj p2bC.spec_update_base_proj
  p2lev.spec_update_base_proj pbimode.spec_update_base_proj pskewed.spec_update_base_proj pyags.spec_update_base_proj
  pperceptron.spec_update_base_proj ptage.spec_update_base_proj

lemmas history_bases = ptaken.recover_base prandom.recover_base p2bC.recover_base p2lev.recover_base
  pbimode.recover_base pskewed.recover_base pyags.recover_base pperceptron.recover_base
  ptage.recover_base ptaken.flush_base prandom.flush_base p2bC.flush_base p2lev.flush_base
  pbimode.flush_base pskewed.flush_base pyags.flush_base pperceptron.flush_base ptage.flush_base

lemma dir_lookup_base:
  "dir_lookup r d sc PC tPC oPC outcome = Some (p, d', sc') \<Longrightarrow>
   dir_base d' = bpred_dir_count_lookup (dir_base d)"
  by (cases d) (auto simp: case_prod_beta lookup_bases)

lemma bpred_tage_update_base:
  "bpred_tage_update second s x PC tPC oPC outcome our_pred = Some (s', x') \<Longrightarrow>
   bpred_dir_t.truncate s' = fst (bpred_dir_update (bpred_dir_t.truncate s) (bpred_sc_t.truncate x) outcome our_pred)"
  using ptage.update_base_proj [of second s x PC tPC oPC outcome our_pred]
  by (auto simp: bpred_tage_update_def split: if_splits)

lemma dir_update_base:
  "dir_update r d sc PC tPC oPC outcome our_pred = Some (d', sc') \<Longrightarrow>
   \<exists>x. dir_base d' = fst (bpred_dir_update (dir_base d) (x :: bpred_sc_t) outcome our_pred)"
  by (cases d) (auto simp: case_prod_beta update_bases bind_eq_Some_conv dest!: bpred_tage_update_base)

lemma dir_spec_update_base:
  "dir_spec_update d sc PC tPC oPC outcome our_pred = Some (d', sc') \<Longrightarrow>
   dir_base d' = bpred_dir_spec_update (dir_base d)"
  by (cases d) (auto simp: case_prod_beta spec_update_bases)

lemma dir_history_base:
  "dir_recover d sc outcome = Some d' \<Longrightarrow> dir_base d' = dir_base d"
  "dir_flush d sc = Some d' \<Longrightarrow> dir_base d' = dir_base d"
  by (cases d; auto simp: history_bases)+

lemma dir_base_step:
  "dir_lookup r d sc PC tPC oPC outcome = Some (p, d', sc') \<Longrightarrow> base_step (dir_base d) (dir_base d')"
  "dir_update r d sc PC tPC oPC outcome our_pred = Some (d', sc') \<Longrightarrow> base_step (dir_base d) (dir_base d')"
  "dir_spec_update d sc PC tPC oPC outcome our_pred = Some (d', sc') \<Longrightarrow> base_step (dir_base d) (dir_base d')"
  "dir_recover d sc outcome = Some d' \<Longrightarrow> base_step (dir_base d) (dir_base d')"
  "dir_flush d sc = Some d' \<Longrightarrow> base_step (dir_base d) (dir_base d')"
  using dir_lookup_base dir_update_base dir_spec_update_base dir_history_base
  by (auto intro: base_step.intros dest!: dir_lookup_base dir_update_base dir_spec_update_base dir_history_base)

end
