(* ===== verification/Ras.thy ===== *)
theory Ras
  imports Prelude
begin

text \<open>
  Return address stacks: the base class \<^verbatim>\<open>RAS_t\<close> of \<^verbatim>\<open>zesto-bpred.cpp\<close> and the three
  classes of \<^verbatim>\<open>xiosim/ZCOMPS-ras\<close>. The locale \<open>ras_view\<close> is what the front end relies on:
  a stack shows its \<open>depth\<close> most recent return addresses, a push puts one in front, a pop
  returns the first. Inside it, any sequence of calls and returns that an unbounded stack of
  at most \<open>depth\<close> entries can execute is predicted exactly as that stack would. It is
  interpreted for the circular stack and for the speculative/committed pair of stacks.
\<close>

section \<open>The base class\<close>

record RAS_t =
  name :: string
  type_ :: string
  bits :: cint
  num_hits :: counter_t
  num_pushes :: counter_t
  num_pops :: counter_t
  num_recovers :: counter_t
  frozen :: bool

definition RAS_init :: "string \<Rightarrow> string \<Rightarrow> cint \<Rightarrow> RAS_t" where
  "RAS_init nm ty b = \<lparr>name = nm, type_ = ty, bits = b, num_hits = 0, num_pushes = 0,
     num_pops = 0, num_recovers = 0, frozen = False\<rparr>"

definition RAS_reset_stats :: "'a RAS_t_scheme \<Rightarrow> 'a RAS_t_scheme" where
  "RAS_reset_stats s = s\<lparr>num_hits := 0, num_pushes := 0, num_pops := 0, num_recovers := 0\<rparr>"

definition RAS_count_recover :: "'a RAS_t_scheme \<Rightarrow> 'a RAS_t_scheme" where
  "RAS_count_recover s = (if frozen s then s else s\<lparr>num_recovers := num_recovers s + 1\<rparr>)"

text \<open>The default methods, which the derived classes override or inherit.\<close>

definition RAS_push :: "'a RAS_t_scheme \<Rightarrow> md_addr_t \<Rightarrow> 'a RAS_t_scheme" where
  "RAS_push s ftPC = s"

definition RAS_real_push :: "'a RAS_t_scheme \<Rightarrow> md_addr_t \<Rightarrow> 'a RAS_t_scheme" where
  "RAS_real_push s ftPC = s"

definition RAS_real_pop :: "'a RAS_t_scheme \<Rightarrow> md_addr_t \<times> 'a RAS_t_scheme" where
  "RAS_real_pop s = (0, s)"

section \<open>The interface\<close>

datatype ras_op = Push md_addr_t | Pop

text \<open>The return addresses a stack predicts for a sequence of calls and returns.\<close>

fun ras_run :: "('s \<Rightarrow> md_addr_t \<Rightarrow> 's) \<Rightarrow> ('s \<Rightarrow> md_addr_t \<times> 's) \<Rightarrow> 's \<Rightarrow> ras_op list \<Rightarrow>
    md_addr_t list \<times> 's" where
  "ras_run psh pp s [] = ([], s)"
| "ras_run psh pp s (Push a # es) = ras_run psh pp (psh s a) es"
| "ras_run psh pp s (Pop # es) =
     (let (a, s1) = pp s; (outs, s2) = ras_run psh pp s1 es in (a # outs, s2))"

text \<open>The specification: an unbounded stack that stays within \<open>n\<close> entries; None when a call goes
  deeper or a return finds it empty.\<close>

fun spec_run :: "nat \<Rightarrow> md_addr_t list \<Rightarrow> ras_op list \<Rightarrow> (md_addr_t list \<times> md_addr_t list) option" where
  "spec_run n stk [] = Some ([], stk)"
| "spec_run n stk (Push a # es) = (if length stk < n then spec_run n (a # stk) es else None)"
| "spec_run n [] (Pop # es) = None"
| "spec_run n (a # stk) (Pop # es) =
     map_option (\<lambda>(outs, stk'). (a # outs, stk')) (spec_run n stk es)"

locale ras_view =
  fixes inv :: "'s \<Rightarrow> bool"
    and depth :: "'s \<Rightarrow> nat"
    and view :: "'s \<Rightarrow> md_addr_t list"
    and push :: "'s \<Rightarrow> md_addr_t \<Rightarrow> 's"
    and pop :: "'s \<Rightarrow> md_addr_t \<times> 's"
  assumes length_view: "inv s \<Longrightarrow> length (view s) = depth s"
    and push_law: "inv s \<Longrightarrow> inv (push s a) \<and> depth (push s a) = depth s \<and>
      view (push s a) = a # butlast (view s)"
    and pop_law: "inv s \<Longrightarrow> pop s = (a, s') \<Longrightarrow> inv s' \<and> depth s' = depth s \<and>
      a = hd (view s) \<and> butlast (view s') = tl (view s)"
    and depth_pos: "inv s \<Longrightarrow> 0 < depth s"
begin

lemma take_push:
  assumes "inv s" and "length stk < depth s" and "take (length stk) (view s) = stk"
  shows "take (length (a # stk)) (view (push s a)) = a # stk"
proof -
  have "length stk \<le> length (view s) - 1" using assms length_view [OF assms(1)] by simp
  then have "take (length stk) (butlast (view s)) = take (length stk) (view s)"
    by (simp add: butlast_conv_take min_def)
  then show ?thesis using assms push_law [OF assms(1), of a] by simp
qed

lemma take_pop:
  assumes "inv s" and "take (length (a # stk)) (view s) = a # stk" and "pop s = (b, s')"
  shows "b = a \<and> take (length stk) (view s') = stk"
proof -
  have l: "length (view s) = depth s" "length (view s') = depth s"
    using length_view pop_law [OF assms(1,3)] assms(1) by auto
  obtain x xs where v: "view s = x # xs" using assms(2) by (cases "view s") auto
  then have "butlast (view s') = xs" "b = x" using pop_law [OF assms(1,3)] by auto
  moreover have "length stk \<le> length xs"
    using arg_cong [OF assms(2), of length] v by simp
  moreover from this have "take (length stk) (butlast (view s')) = take (length stk) (view s')"
    using l v by (auto simp: butlast_conv_take min_def)
  ultimately show ?thesis using assms(2) v by simp
qed

lemma run_refines:
  assumes "inv s" and "take (length stk) (view s) = stk"
    and "spec_run (depth s) stk es = Some (outs, stk')"
  shows "\<exists>s'. ras_run push pop s es = (outs, s') \<and> inv s' \<and>
    take (length stk') (view s') = stk'"
  using assms
proof (induction "depth s" stk es arbitrary: s outs rule: spec_run.induct)
  case (1 stk)
  then show ?case by auto
next
  case (2 stk a es)
  have len: "length stk < depth s" using "2.prems"(3) by (simp split: if_splits)
  show ?case
    using "2.hyps" [OF len _ _ take_push [OF "2.prems"(1) len "2.prems"(2)], of outs]
      push_law [OF "2.prems"(1), of a] "2.prems"(3) len by simp
next
  case (3 es)
  then show ?case by simp
next
  case (4 a stk es)
  obtain b s1 where p: "pop s = (b, s1)" by force
  obtain outs1 where o: "spec_run (depth s) stk es = Some (outs1, stk')" "outs = a # outs1"
    using "4.prems"(3) by auto
  have s1: "inv s1" "depth s1 = depth s" using pop_law [OF "4.prems"(1) p] by auto
  have t: "b = a" "take (length stk) (view s1) = stk"
    using take_pop [OF "4.prems"(1,2) p] by auto
  show ?case using "4.hyps" [OF s1(2) [symmetric] s1(1) t(2)] o p t(1) s1 by auto
qed

end

section \<open>The circular stack (\<^verbatim>\<open>ras-stack.cpp\<close>)\<close>

record RAS_stack_t = RAS_t +
  stack :: "md_addr_t list"
  sz :: cint
  head :: cint

definition RAS_stack_create :: "string \<Rightarrow> cint \<Rightarrow> fatal + RAS_stack_t" where
  "RAS_stack_create arg_name arg_num_entries =
     checks [(check_nneg arg_num_entries, Alloc_failed)]
       (RAS_t.extend (RAS_init arg_name ''finite RAS'' (arg_num_entries * 8 * 8))
         (RAS_stack_t.fields (replicate (unat arg_num_entries) 0) arg_num_entries 0))"

definition RAS_stack_push :: "RAS_stack_t \<Rightarrow> md_addr_t \<Rightarrow> RAS_stack_t" where
  "RAS_stack_push s ftPC =
     (let s1 = s\<lparr>head := modinc (head s) (sz s)\<rparr>
      in s1\<lparr>stack := (stack s1)[unat (head s1) := ftPC]\<rparr>)"

definition RAS_stack_pop :: "RAS_stack_t \<Rightarrow> md_addr_t \<times> RAS_stack_t" where
  "RAS_stack_pop s =
     (let predPC = stack s ! unat (head s)
      in (predPC, s\<lparr>head := moddec (head s) (sz s)\<rparr>))"

text \<open>A checkpoint is the saved position.\<close>

definition RAS_stack_recover :: "RAS_stack_t \<Rightarrow> cint \<Rightarrow> RAS_stack_t" where
  "RAS_stack_recover s pos = (let s1 = RAS_count_recover s in s1\<lparr>head := pos\<rparr>)"

definition RAS_stack_recover_state :: "RAS_stack_t \<Rightarrow> cint" where
  "RAS_stack_recover_state s = head s"

definition RAS_stack_get_size :: "RAS_stack_t \<Rightarrow> cint" where
  "RAS_stack_get_size s = sz s"

definition RAS_stack_inv :: "RAS_stack_t \<Rightarrow> bool" where
  "RAS_stack_inv s \<longleftrightarrow> length (stack s) = unat (sz s) \<and> unat (head s) < unat (sz s) \<and>
     unat (sz s) < 2 ^ 31"

text \<open>The entry \<open>k\<close> places below the top of a circular buffer, and the buffer read from the top.\<close>

definition circ :: "'a list \<Rightarrow> nat \<Rightarrow> nat \<Rightarrow> 'a" where
  "circ xs h k = xs ! ((h + length xs - k) mod length xs)"

definition circ_view :: "'a list \<Rightarrow> nat \<Rightarrow> 'a list" where
  "circ_view xs h = map (circ xs h) [0..<length xs]"

definition RAS_stack_view :: "RAS_stack_t \<Rightarrow> md_addr_t list" where
  "RAS_stack_view s = circ_view (stack s) (unat (head s))"

lemma sub_mod:
  assumes "h < n" and "k < n"
  shows "(h + n - k) mod n = (if k \<le> h then h - k else h + n - (k::nat))"
proof (cases "k \<le> h")
  case True
  then have "h + n - k = (h - k) + n" by simp
  then have "(h + n - k) mod n = (h - k) mod n" by (simp only: mod_add_self2)
  then show ?thesis using True assms by simp
qed (use assms in simp)

lemma circ_mod_eq:
  "h < n \<Longrightarrow> j < n \<Longrightarrow> k < n \<Longrightarrow> ((h + n - j) mod n = (h + n - k) mod n) \<longleftrightarrow> j = (k::nat)"
  by (auto simp: sub_mod)

lemma Suc_mod: "h < n \<Longrightarrow> (h + 1) mod n = (if h + 1 = n then 0 else h + (1::nat))"
  by simp

lemma circ_Suc_mod:
  assumes "h < n" and "Suc k < n"
  shows "((h + 1) mod n + n - Suc k) mod n = (h + n - k) mod (n::nat)"
proof -
  have "(h + 1) mod n < n" using assms by (intro mod_less_divisor) auto
  then show ?thesis
    using assms by (cases "h + 1 = n") (auto simp: sub_mod)
qed

lemma circ_push:
  assumes "h < length xs" and "k < length xs"
  shows "circ (xs[(h + 1) mod length xs := a]) ((h + 1) mod length xs) k =
    (if k = 0 then a else circ xs h (k - 1))"
proof (cases k)
  case 0
  have "(h + 1) mod length xs < length xs" using assms(1) by (intro mod_less_divisor) auto
  then show ?thesis using 0 by (simp add: circ_def)
next
  case (Suc j)
  let ?h = "(h + 1) mod length xs"
  have h: "?h < length xs" using assms(1) by (intro mod_less_divisor) auto
  have "(?h + length xs - k) mod length xs \<noteq> (?h + length xs - 0) mod length xs"
    using circ_mod_eq [OF h, of k 0] assms Suc by fastforce
  moreover have "(?h + length xs - k) mod length xs = (h + length xs - j) mod length xs"
    using circ_Suc_mod [of h "length xs" j] assms Suc by simp
  ultimately show ?thesis using Suc h by (simp add: circ_def)
qed

lemma circ_pop:
  assumes "h < length xs" and "Suc k < length xs"
  shows "circ xs ((h + length xs - 1) mod length xs) k = circ xs h (Suc k)"
proof -
  have "(h + length xs - 1) mod length xs < length xs" using assms by (intro mod_less_divisor) auto
  then have "((h + length xs - 1) mod length xs + length xs - k) mod length xs =
      (h + length xs - Suc k) mod length xs"
    using assms by (simp only: sub_mod Suc_lessD) (auto simp: sub_mod)
  then show ?thesis by (simp only: circ_def)
qed

lemma circ_view_push:
  assumes "h < length xs"
  shows "circ_view (xs[(h + 1) mod length xs := a]) ((h + 1) mod length xs) =
    a # butlast (circ_view xs h)"
proof (rule nth_equalityI)
  show "length (circ_view (xs[(h + 1) mod length xs := a]) ((h + 1) mod length xs)) =
      length (a # butlast (circ_view xs h))"
    using assms by (simp add: circ_view_def)
next
  fix k assume "k < length (circ_view (xs[(h + 1) mod length xs := a]) ((h + 1) mod length xs))"
  then have k: "k < length xs" by (simp add: circ_view_def)
  then show "circ_view (xs[(h + 1) mod length xs := a]) ((h + 1) mod length xs) ! k =
      (a # butlast (circ_view xs h)) ! k"
    using circ_push [OF assms k, of a] by (simp add: circ_view_def nth_Cons nth_butlast split: nat.split)
qed

lemma circ_view_pop:
  assumes "h < length xs"
  shows "butlast (circ_view xs ((h + length xs - 1) mod length xs)) = tl (circ_view xs h)"
  by (rule nth_equalityI)
    (use circ_pop [OF assms] in \<open>auto simp: circ_view_def nth_butlast nth_tl simp del: One_nat_def\<close>)

lemma hd_circ_view: "h < length xs \<Longrightarrow> hd (circ_view xs h) = xs ! h"
  using sub_mod [of h "length xs" 0]
  by (cases "length xs") (auto simp: circ_view_def circ_def upt_conv_Cons simp del: upt_Suc)

lemma length_circ_view [simp]: "length (circ_view xs h) = length xs"
  by (simp add: circ_view_def)

interpretation rstack: ras_view RAS_stack_inv "\<lambda>s. unat (sz s)" RAS_stack_view
  RAS_stack_push RAS_stack_pop
proof (unfold_locales, goal_cases)
  case (1 s)
  then show ?case by (simp add: RAS_stack_view_def RAS_stack_inv_def)
next
  case (2 s a)
  then have "length (stack s) = unat (sz s)" "unat (head s) < length (stack s)"
    "unat (modinc (head s) (sz s)) = (unat (head s) + 1) mod length (stack s)"
    by (simp_all add: RAS_stack_inv_def unat_modinc)
  with 2 show ?case using circ_view_push [of "unat (head s)" "stack s" a]
    by (auto simp: RAS_stack_inv_def RAS_stack_view_def RAS_stack_push_def)
next
  case (3 s a s')
  then have "length (stack s) = unat (sz s)" "unat (head s) < length (stack s)"
    "unat (moddec (head s) (sz s)) = (unat (head s) + length (stack s) - 1) mod length (stack s)"
    by (simp_all add: RAS_stack_inv_def unat_moddec)
  with 3 show ?case using circ_view_pop [of "unat (head s)" "stack s"]
    by (auto simp: RAS_stack_inv_def RAS_stack_view_def RAS_stack_pop_def hd_circ_view)
next
  case (4 s)
  then show ?case by (simp add: RAS_stack_inv_def)
qed

lemma RAS_stack_create_inv:
  "RAS_stack_create nm n = Inr s \<Longrightarrow> n \<noteq> 0 \<Longrightarrow> RAS_stack_inv s"
  by (auto simp: RAS_stack_create_def checks_Inr_iff check_nneg_unat RAS_stack_inv_def
      RAS_t.defs RAS_stack_t.defs RAS_init_def unat_gt_0)

text \<open>
  Recovery. The wrong path between a checkpoint and the recovery to it may call and return; \<open>l\<close> is
  the height of the stack relative to the checkpoint. Pushes above the checkpoint by at most
  \<open>room\<close> do not reach around into the entries below it; a push below it does overwrite one.
\<close>

fun within_room :: "nat \<Rightarrow> int \<Rightarrow> ras_op list \<Rightarrow> bool" where
  "within_room room l [] = True"
| "within_room room l (Push a # es) \<longleftrightarrow> 0 \<le> l \<and> l < int room \<and> within_room room (l + 1) es"
| "within_room room l (Pop # es) \<longleftrightarrow> within_room room (l - 1) es"

lemma head_push:
  assumes "RAS_stack_inv s"
  shows "int (unat (head (RAS_stack_push s a))) = (int (unat (head s)) + 1) mod int (unat (sz s))"
  using assms by (simp add: RAS_stack_inv_def RAS_stack_push_def unat_modinc zmod_int add.commute
      del: of_nat_unat)

lemma head_pop:
  assumes "RAS_stack_inv s"
  shows "int (unat (head (snd (RAS_stack_pop s)))) = (int (unat (head s)) - 1) mod int (unat (sz s))"
proof -
  let ?h = "unat (head s)" and ?n = "unat (sz s)"
  have "int (?h + ?n - 1) = (int ?h - 1) + int ?n" using assms by (simp add: RAS_stack_inv_def)
  then have "int ((?h + ?n - 1) mod ?n) = (int ?h - 1) mod int ?n" by (simp add: zmod_int del: of_nat_unat)
  then show ?thesis using assms by (simp add: RAS_stack_inv_def RAS_stack_pop_def unat_moddec)
qed

lemma push_keeps_below:
  assumes i: "RAS_stack_inv s" and h: "h < unat (sz s)"
    and hd: "int (unat (head s)) = (int h + l) mod int (unat (sz s))"
    and l: "0 \<le> l" "l < int (unat (sz s)) - int m" and k: "k < m"
  shows "circ (stack (RAS_stack_push s a)) h k = circ (stack s) h k"
proof -
  let ?n = "unat (sz s)"
  have len: "length (stack s) = ?n" using i by (simp add: RAS_stack_inv_def)
  let ?i = "unat (head (RAS_stack_push s a))" and ?j = "(h + ?n - k) mod ?n"
  have "int ?i = (int h + l + 1) mod int ?n"
    unfolding head_push [OF i] hd by (simp add: mod_simps del: of_nat_unat)
  moreover have "int ?j = (int h - int k) mod int ?n"
  proof -
    have "int (h + ?n - k) = (int h - int k) + int ?n" using k l by (simp del: of_nat_unat)
    then show ?thesis by (simp add: zmod_int del: of_nat_unat)
  qed
  moreover have "(int h + l + 1) mod int ?n \<noteq> (int h - int k) mod int ?n"
  proof
    assume "(int h + l + 1) mod int ?n = (int h - int k) mod int ?n"
    then have "int ?n dvd (int h + l + 1) - (int h - int k)" by (simp only: mod_eq_dvd_iff)
    then have "int ?n dvd l + 1 + int k" by (simp add: algebra_simps)
    moreover have "0 < l + 1 + int k" "l + 1 + int k < int ?n" using l k by simp_all
    ultimately show False using zdvd_not_zless by blast
  qed
  ultimately have "?i \<noteq> ?j" by metis
  moreover have "stack (RAS_stack_push s a) = (stack s)[?i := a]" by (simp add: RAS_stack_push_def Let_def)
  ultimately show ?thesis using len by (simp add: circ_def)
qed

lemma wrong_path_keeps:
  assumes "RAS_stack_inv s" and "h < unat (sz s)"
    and "int (unat (head s)) = (int h + l) mod int (unat (sz s))"
    and "within_room (unat (sz s) - m) l es" and "m \<le> unat (sz s)" and "k < m"
  shows "circ (stack (snd (ras_run RAS_stack_push RAS_stack_pop s es))) h k = circ (stack s) h k \<and>
    length (stack (snd (ras_run RAS_stack_push RAS_stack_pop s es))) = length (stack s)"
  using assms
proof (induction RAS_stack_push RAS_stack_pop s es arbitrary: l rule: ras_run.induct)
  case (1 s)
  then show ?case by simp
next
  case (2 s a es)
  let ?s = "RAS_stack_push s a"
  have i: "RAS_stack_inv ?s" "sz ?s = sz s" "length (stack ?s) = length (stack s)"
    using rstack.push_law [OF "2.prems"(1), of a] by (auto simp: RAS_stack_push_def Let_def)
  have "int (unat (head ?s)) = (int h + (l + 1)) mod int (unat (sz ?s))"
    unfolding head_push [OF "2.prems"(1)] "2.prems"(3) i(2)
    by (simp add: mod_simps add.assoc del: of_nat_unat)
  moreover have "circ (stack ?s) h k = circ (stack s) h k"
    using "2.prems"(4,5) by (intro push_keeps_below [OF "2.prems"(1-3) _ _ "2.prems"(6)]) auto
  ultimately show ?case using "2.hyps" [OF i(1), of "l + 1"] i "2.prems" by simp
next
  case (3 s es)
  obtain x s1 where p: "RAS_stack_pop s = (x, s1)" by force
  have i: "RAS_stack_inv s1" "sz s1 = sz s" "stack s1 = stack s"
    using rstack.pop_law [OF "3.prems"(1) p] p by (auto simp: RAS_stack_pop_def Let_def)
  have "int (unat (head s1)) = (int h + (l - 1)) mod int (unat (sz s))"
    using head_pop [OF "3.prems"(1)] p unfolding "3.prems"(3)
    by (simp add: mod_simps add_diff_eq del: of_nat_unat)
  then show ?case using "3.hyps" [OF p [symmetric] refl i(1), of "l - 1"] i "3.prems" p
    by (simp add: case_prod_beta)
qed

text \<open>C7: after any wrong path, recovering to the checkpoint brings back the \<open>m\<close> youngest return
  addresses, provided the wrong path pushed at most \<open>size - m\<close> entries above the checkpoint and
  never below it.\<close>

theorem RAS_stack_recover_restores:
  assumes "RAS_stack_inv s" and "m \<le> unat (sz s)" and "within_room (unat (sz s) - m) 0 es"
    and "(outs, s') = ras_run RAS_stack_push RAS_stack_pop s es"
  shows "take m (RAS_stack_view (RAS_stack_recover s' (RAS_stack_recover_state s))) =
    take m (RAS_stack_view s)"
proof -
  have h: "unat (head s) < unat (sz s)" "length (stack s) = unat (sz s)"
    using assms(1) by (simp_all add: RAS_stack_inv_def)
  have s': "s' = snd (ras_run RAS_stack_push RAS_stack_pop s es)" using assms(4) by (metis snd_conv)
  have "circ (stack s') (unat (head s)) k = circ (stack s) (unat (head s)) k \<and>
      length (stack s') = length (stack s)" if "k < m" for k
    unfolding s' using wrong_path_keeps [OF assms(1) h(1) _ assms(3,2) that] h(1)
    by (simp add: zmod_int [symmetric] del: of_nat_unat)
  then show ?thesis using h assms(2)
    by (cases "m = 0") (auto simp: RAS_stack_view_def RAS_stack_recover_def RAS_count_recover_def
        RAS_stack_recover_state_def circ_view_def take_map Let_def)
qed

theorem RAS_stack_recover_restores_witness:
  "take 1 (RAS_stack_view (RAS_stack_recover
      (snd (ras_run RAS_stack_push RAS_stack_pop
        \<lparr>name = ''r'', type_ = ''finite RAS'', bits = 128, num_hits = 0, num_pushes = 0, num_pops = 0,
         num_recovers = 0, frozen = False, stack = [3, 7], sz = 2, head = 1\<rparr>
        [Push 5, Pop, Pop])) 1)) = [7]"
proof -
  let ?s = "\<lparr>name = ''r'', type_ = ''finite RAS'', bits = 128, num_hits = 0, num_pushes = 0,
    num_pops = 0, num_recovers = 0, frozen = False, stack = [3, 7], sz = 2, head = 1\<rparr> :: RAS_stack_t"
  have v: "take 1 (RAS_stack_view ?s) = [7]"
    by (simp add: RAS_stack_view_def circ_view_def circ_def mod_Suc)
  have i: "RAS_stack_inv ?s" by (simp add: RAS_stack_inv_def)
  have r: "RAS_stack_recover_state ?s = 1" by (simp add: RAS_stack_recover_state_def)
  have w: "within_room (unat (sz ?s) - 1) 0 [Push 5, Pop, Pop]" by simp
  show ?thesis
    using RAS_stack_recover_restores [OF i _ w prod.collapse] v r by simp
qed

section \<open>The perfect stack (\<^verbatim>\<open>ras-perfect.cpp\<close>)\<close>

definition RAS_perfect_create :: RAS_t where
  "RAS_perfect_create = RAS_init ''RAS'' ''perfect'' 0"

definition RAS_perfect_get_size :: cint where
  "RAS_perfect_get_size = 0"

definition RAS_perfect_pop :: "RAS_t \<Rightarrow> md_addr_t \<Rightarrow> md_addr_t \<times> RAS_t" where
  "RAS_perfect_pop s oPC = (oPC, s)"

definition RAS_perfect_recover :: "RAS_t \<Rightarrow> RAS_t" where
  "RAS_perfect_recover s = RAS_count_recover s"

section \<open>The speculative and committed stacks (\<^verbatim>\<open>ras-multistack.cpp\<close>)\<close>

record stack_entry_t =
  addr :: md_addr_t
  valid :: bool

record RAS_multistack_t = RAS_t +
  spec_stack :: "stack_entry_t list"
  real_stack :: "md_addr_t list"
  spec_size :: cint
  real_size :: cint
  spec_head :: cint
  real_head :: cint
  spec_to_real_head :: cint

text \<open>\<^verbatim>\<open>real_stack\<close> is allocated with \<^verbatim>\<open>spec_size\<close> entries; \<^verbatim>\<open>sizeof(stack_entry_t)\<close> is 16.\<close>

definition RAS_multistack_create :: "string \<Rightarrow> cint \<Rightarrow> cint \<Rightarrow> fatal + RAS_multistack_t" where
  "RAS_multistack_create arg_name arg_num_spec_entries arg_num_real_entries =
     checks [(check_nneg arg_num_spec_entries, Alloc_failed)]
       (RAS_t.extend
         (RAS_init arg_name ''finite RAS'' (arg_num_spec_entries * 8 * 16 + arg_num_real_entries * 8 * 8))
         (RAS_multistack_t.fields
           (replicate (unat arg_num_spec_entries) \<lparr>addr = 0, valid = False\<rparr>)
           (replicate (unat arg_num_spec_entries) 0)
           arg_num_spec_entries arg_num_real_entries 0 0 0))"

definition RAS_multistack_get_size :: "RAS_multistack_t \<Rightarrow> cint" where
  "RAS_multistack_get_size s = real_size s + spec_size s"

definition RAS_multistack_real_push :: "RAS_multistack_t \<Rightarrow> md_addr_t \<Rightarrow> RAS_multistack_t" where
  "RAS_multistack_real_push s ftPC =
     (let s1 = s\<lparr>real_head := modinc (real_head s) (real_size s)\<rparr>
      in s1\<lparr>real_stack := (real_stack s1)[unat (real_head s1) := ftPC]\<rparr>)"

definition RAS_multistack_real_pop :: "RAS_multistack_t \<Rightarrow> md_addr_t \<times> RAS_multistack_t" where
  "RAS_multistack_real_pop s =
     (let predPC = real_stack s ! unat (real_head s)
      in (predPC, s\<lparr>real_head := moddec (real_head s) (real_size s)\<rparr>))"

definition RAS_multistack_push :: "RAS_multistack_t \<Rightarrow> md_addr_t \<Rightarrow> RAS_multistack_t" where
  "RAS_multistack_push s ftPC =
     (let s1 = s\<lparr>spec_head := modinc (spec_head s) (spec_size s),
                 spec_to_real_head := modinc (spec_to_real_head s) (real_size s)\<rparr>
      in s1\<lparr>spec_stack := (spec_stack s1)[unat (spec_head s1) := \<lparr>addr = ftPC, valid = True\<rparr>]\<rparr>)"

definition RAS_multistack_pop :: "RAS_multistack_t \<Rightarrow> md_addr_t \<times> RAS_multistack_t" where
  "RAS_multistack_pop s =
     (let e = spec_stack s ! unat (spec_head s);
          predPC = (if valid e then addr e else real_stack s ! unat (spec_to_real_head s))
      in (predPC, s\<lparr>spec_head := moddec (spec_head s) (spec_size s),
                    spec_to_real_head := moddec (spec_to_real_head s) (real_size s)\<rparr>))"

definition RAS_multistack_recover :: "RAS_multistack_t \<Rightarrow> RAS_multistack_t" where
  "RAS_multistack_recover s =
     (let s1 = s\<lparr>spec_stack := map (\<lambda>e. e\<lparr>valid := False\<rparr>) (spec_stack s)\<rparr>;
          s2 = s1\<lparr>spec_to_real_head := real_head s1\<rparr>
      in RAS_count_recover s2)"

text \<open>The shape the accesses need: the committed stack may not be larger than the speculative one,
  whose size it is allocated with.\<close>

definition RAS_multistack_inv :: "RAS_multistack_t \<Rightarrow> bool" where
  "RAS_multistack_inv s \<longleftrightarrow>
     length (spec_stack s) = unat (spec_size s) \<and> length (real_stack s) = unat (spec_size s) \<and>
     0 < unat (real_size s) \<and> unat (real_size s) \<le> unat (spec_size s) \<and>
     unat (spec_size s) < 2 ^ 31 \<and> unat (spec_head s) < unat (spec_size s) \<and>
     unat (real_head s) < unat (real_size s) \<and> unat (spec_to_real_head s) < unat (real_size s)"

definition real_view :: "RAS_multistack_t \<Rightarrow> md_addr_t list" where
  "real_view s = circ_view (take (unat (real_size s)) (real_stack s)) (unat (real_head s))"

definition RAS_multistack_view :: "RAS_multistack_t \<Rightarrow> md_addr_t list" where
  "RAS_multistack_view s =
     map2 (\<lambda>e a. if valid e then addr e else a)
       (take (unat (real_size s)) (circ_view (spec_stack s) (unat (spec_head s))))
       (circ_view (take (unat (real_size s)) (real_stack s)) (unat (spec_to_real_head s)))"

lemma RAS_multistack_view_nth:
  "RAS_multistack_inv s \<Longrightarrow> k < unat (real_size s) \<Longrightarrow> RAS_multistack_view s ! k =
    (let e = circ (spec_stack s) (unat (spec_head s)) k
     in if valid e then addr e
        else circ (take (unat (real_size s)) (real_stack s)) (unat (spec_to_real_head s)) k)"
  by (simp add: RAS_multistack_view_def RAS_multistack_inv_def circ_view_def Let_def)

lemma length_RAS_multistack_view:
  "RAS_multistack_inv s \<Longrightarrow> length (RAS_multistack_view s) = unat (real_size s)"
  by (simp add: RAS_multistack_view_def RAS_multistack_inv_def)

lemma circ_0: "h < length xs \<Longrightarrow> circ xs h 0 = xs ! h"
  by (simp add: circ_def)

lemma circ_up:
  "h < length xs \<Longrightarrow> 0 < k \<Longrightarrow> k < length xs \<Longrightarrow> circ xs ((h + 1) mod length xs) k = circ xs h (k - 1)"
  using circ_Suc_mod [of h "length xs" "k - 1"] by (simp add: circ_def)

lemma RAS_multistack_push_law:
  assumes i: "RAS_multistack_inv s"
  shows "RAS_multistack_inv (RAS_multistack_push s a) \<and>
    RAS_multistack_view (RAS_multistack_push s a) = a # butlast (RAS_multistack_view s)"
proof -
  let ?s = "RAS_multistack_push s a"
  have sh: "unat (modinc (spec_head s) (spec_size s)) = (unat (spec_head s) + 1) mod unat (spec_size s)"
    and rh: "unat (modinc (spec_to_real_head s) (real_size s)) =
      (unat (spec_to_real_head s) + 1) mod unat (real_size s)"
    using i by (simp_all add: RAS_multistack_inv_def unat_modinc)
  have i': "RAS_multistack_inv ?s" using i
    by (auto simp: RAS_multistack_inv_def RAS_multistack_push_def Let_def intro!: modinc_less)
  have r: "real_size ?s = real_size s" "real_stack ?s = real_stack s"
    "spec_to_real_head ?s = modinc (spec_to_real_head s) (real_size s)"
    by (simp_all add: RAS_multistack_push_def Let_def)
  have len: "length (take (unat (real_size s)) (real_stack s)) = unat (real_size s)"
    "unat (spec_to_real_head s) < unat (real_size s)"
    using i by (simp_all add: RAS_multistack_inv_def)
  have "RAS_multistack_view ?s ! k = (a # butlast (RAS_multistack_view s)) ! k"
    if k: "k < unat (real_size s)" for k
  proof -
    have spec: "circ (spec_stack ?s) (unat (spec_head ?s)) k =
        (if k = 0 then \<lparr>addr = a, valid = True\<rparr> else circ (spec_stack s) (unat (spec_head s)) (k - 1))"
      using circ_push [of "unat (spec_head s)" "spec_stack s" k "\<lparr>addr = a, valid = True\<rparr>"] i k
      by (simp add: RAS_multistack_inv_def RAS_multistack_push_def Let_def sh)
    have "circ (take (unat (real_size s)) (real_stack ?s)) (unat (spec_to_real_head ?s)) k =
        circ (take (unat (real_size s)) (real_stack s)) (unat (spec_to_real_head s)) (k - 1)" if "0 < k"
      using circ_up [of "unat (spec_to_real_head s)" "take (unat (real_size s)) (real_stack s)" k]
        k that len by (simp only: r rh)
    then show ?thesis using spec k i
      by (cases k) (simp_all add: RAS_multistack_view_nth [OF i'] RAS_multistack_view_nth [OF i] r
          length_RAS_multistack_view [OF i] nth_butlast Let_def)
  qed
  then have "RAS_multistack_view ?s = a # butlast (RAS_multistack_view s)"
    using length_RAS_multistack_view [OF i] length_RAS_multistack_view [OF i'] i r
    by (intro nth_equalityI) (auto simp: RAS_multistack_inv_def)
  with i' show ?thesis by simp
qed

lemma RAS_multistack_pop_law:
  assumes i: "RAS_multistack_inv s" and p: "RAS_multistack_pop s = (a, s')"
  shows "RAS_multistack_inv s' \<and> real_size s' = real_size s \<and>
    a = hd (RAS_multistack_view s) \<and> butlast (RAS_multistack_view s') = tl (RAS_multistack_view s)"
proof -
  have sh: "unat (moddec (spec_head s) (spec_size s)) =
      (unat (spec_head s) + unat (spec_size s) - 1) mod unat (spec_size s)"
    and rh: "unat (moddec (spec_to_real_head s) (real_size s)) =
      (unat (spec_to_real_head s) + unat (real_size s) - 1) mod unat (real_size s)"
    using i by (simp_all add: RAS_multistack_inv_def unat_moddec)
  have s': "s' = s\<lparr>spec_head := moddec (spec_head s) (spec_size s),
      spec_to_real_head := moddec (spec_to_real_head s) (real_size s)\<rparr>"
    using p by (simp add: RAS_multistack_pop_def Let_def)
  have i': "RAS_multistack_inv s'" using i
    by (auto simp: RAS_multistack_inv_def s' intro!: moddec_less)
  have R: "0 < unat (real_size s)" using i by (simp add: RAS_multistack_inv_def)
  have len: "length (take (unat (real_size s)) (real_stack s)) = unat (real_size s)"
    "unat (spec_to_real_head s) < unat (real_size s)"
    "length (spec_stack s) = unat (spec_size s)" "unat (spec_head s) < unat (spec_size s)"
    "unat (real_size s) \<le> unat (spec_size s)"
    using i by (simp_all add: RAS_multistack_inv_def)
  have "circ (take (unat (real_size s)) (real_stack s)) (unat (spec_to_real_head s)) 0 =
      real_stack s ! unat (spec_to_real_head s)"
    using len by (subst circ_0) simp_all
  then have "a = RAS_multistack_view s ! 0"
    using p R len(3,4)
    by (simp add: RAS_multistack_view_nth [OF i R] circ_0 RAS_multistack_pop_def Let_def split: if_splits)
  then have a: "a = hd (RAS_multistack_view s)"
    using R length_RAS_multistack_view [OF i] by (metis hd_conv_nth length_greater_0_conv)
  have "RAS_multistack_view s' ! k = RAS_multistack_view s ! Suc k" if k: "Suc k < unat (real_size s)" for k
  proof -
    have "circ (spec_stack s) (unat (spec_head s')) k = circ (spec_stack s) (unat (spec_head s)) (Suc k)"
      using circ_pop [of "unat (spec_head s)" "spec_stack s" k] k len sh by (simp add: s')
    moreover have "circ (take (unat (real_size s)) (real_stack s)) (unat (spec_to_real_head s')) k =
        circ (take (unat (real_size s)) (real_stack s)) (unat (spec_to_real_head s)) (Suc k)"
      using circ_pop [of "unat (spec_to_real_head s)" "take (unat (real_size s)) (real_stack s)" k]
        k len(1,2) rh by (simp only: s') simp
    moreover have "real_size s' = real_size s" "spec_stack s' = spec_stack s" "real_stack s' = real_stack s"
      by (simp_all add: s')
    ultimately show ?thesis
      using RAS_multistack_view_nth [OF i', of k] RAS_multistack_view_nth [OF i k] k
      by (simp add: Let_def)
  qed
  then have "butlast (RAS_multistack_view s') = tl (RAS_multistack_view s)"
    using length_RAS_multistack_view [OF i] length_RAS_multistack_view [OF i'] s'
    by (intro nth_equalityI) (auto simp: nth_butlast nth_tl)
  with i' a s' show ?thesis by simp
qed

interpretation rmulti: ras_view RAS_multistack_inv "\<lambda>s. unat (real_size s)" RAS_multistack_view
  RAS_multistack_push RAS_multistack_pop
proof (unfold_locales, goal_cases)
  case (2 s a)
  then show ?case using RAS_multistack_push_law [of s a]
    by (simp add: RAS_multistack_push_def Let_def)
next
  case (3 s a s')
  show ?case using RAS_multistack_pop_law [OF 3] by simp
next
  case (4 s)
  then show ?case by (simp add: RAS_multistack_inv_def)
qed (simp add: length_RAS_multistack_view)

text \<open>The committed stack alone keeps the same contract.\<close>

interpretation rreal: ras_view RAS_multistack_inv "\<lambda>s. unat (real_size s)" real_view
  RAS_multistack_real_push RAS_multistack_real_pop
proof (unfold_locales, goal_cases)
  case (1 s)
  then show ?case by (simp add: real_view_def RAS_multistack_inv_def)
next
  case (2 s a)
  let ?xs = "take (unat (real_size s)) (real_stack s)"
  have h: "length ?xs = unat (real_size s)" "unat (real_head s) < length ?xs"
    "unat (modinc (real_head s) (real_size s)) = (unat (real_head s) + 1) mod length ?xs"
    using 2 by (simp_all add: RAS_multistack_inv_def unat_modinc)
  then have "(unat (real_head s) + 1) mod length ?xs < unat (real_size s)" by (simp add: 2)
  with 2 h show ?case using circ_view_push [OF h(2), of a]
    by (auto simp: RAS_multistack_inv_def real_view_def RAS_multistack_real_push_def Let_def take_update_swap)
next
  case (3 s a s')
  let ?xs = "take (unat (real_size s)) (real_stack s)"
  have h: "length ?xs = unat (real_size s)" "unat (real_head s) < length ?xs"
    "unat (moddec (real_head s) (real_size s)) = (unat (real_head s) + length ?xs - 1) mod length ?xs"
    using 3 by (simp_all add: RAS_multistack_inv_def unat_moddec)
  with 3 show ?case using circ_view_pop [OF h(2)] hd_circ_view [OF h(2)]
    by (auto simp: RAS_multistack_inv_def real_view_def RAS_multistack_real_pop_def Let_def)
next
  case (4 s)
  then show ?case by (simp add: RAS_multistack_inv_def)
qed

text \<open>A recovery makes the speculative side show the committed stack again, whatever
  the wrong path pushed and popped.\<close>

lemma RAS_multistack_recover_view:
  assumes "RAS_multistack_inv s"
  shows "RAS_multistack_inv (RAS_multistack_recover s) \<and>
    RAS_multistack_view (RAS_multistack_recover s) = real_view s"
proof -
  let ?s = "RAS_multistack_recover s"
  have f: "real_size ?s = real_size s" "real_stack ?s = real_stack s" "spec_size ?s = spec_size s"
    "spec_head ?s = spec_head s" "real_head ?s = real_head s" "spec_to_real_head ?s = real_head s"
    "spec_stack ?s = map (\<lambda>e. e\<lparr>valid := False\<rparr>) (spec_stack s)"
    by (simp_all add: RAS_multistack_recover_def RAS_count_recover_def Let_def)
  have i: "RAS_multistack_inv ?s" using assms by (simp add: RAS_multistack_inv_def f)
  have l: "length (spec_stack s) = unat (spec_size s)" "unat (spec_head s) < unat (spec_size s)"
    "unat (real_size s) \<le> unat (spec_size s)" "length (real_stack s) = unat (spec_size s)"
    using assms by (simp_all add: RAS_multistack_inv_def)
  have "\<not> valid (circ (map (\<lambda>e. e\<lparr>valid := False\<rparr>) (spec_stack s)) (unat (spec_head s)) k)" for k
    using l(1,2) by (simp add: circ_def nth_map)
  then have "RAS_multistack_view ?s ! k = real_view s ! k" if "k < unat (real_size s)" for k
    using RAS_multistack_view_nth [OF i, of k] that l
    by (simp add: f real_view_def circ_view_def)
  then have "RAS_multistack_view ?s = real_view s"
    using length_RAS_multistack_view [OF i] l by (intro nth_equalityI) (simp_all add: f real_view_def)
  with i show ?thesis by simp
qed

lemma RAS_multistack_recover_view_witness:
  "RAS_multistack_view (RAS_multistack_recover
      \<lparr>name = ''r'', type_ = ''finite RAS'', bits = 0, num_hits = 0, num_pushes = 0, num_pops = 0,
       num_recovers = 0, frozen = False, spec_stack = [\<lparr>addr = 9, valid = True\<rparr>],
       real_stack = [6], spec_size = 1, real_size = 1, spec_head = 0, real_head = 0,
       spec_to_real_head = 0\<rparr>) = [6]"
  using RAS_multistack_recover_view [of
      "\<lparr>name = ''r'', type_ = ''finite RAS'', bits = 0, num_hits = 0, num_pushes = 0, num_pops = 0,
       num_recovers = 0, frozen = False, spec_stack = [\<lparr>addr = 9, valid = True\<rparr>],
       real_stack = [6], spec_size = 1, real_size = 1, spec_head = 0, real_head = 0,
       spec_to_real_head = 0\<rparr>"]
  by (simp add: RAS_multistack_inv_def real_view_def circ_view_def circ_def)

text \<open>The two sides work at their own pace: the front end pushes and pops speculatively, the commit stage
  for good. The committed returns are what the run gives; the speculative ones may be on a wrong path.\<close>

datatype multi_op = Speculative ras_op | Committed ras_op

fun multi_run :: "RAS_multistack_t \<Rightarrow> multi_op list \<Rightarrow> md_addr_t list \<times> RAS_multistack_t" where
  "multi_run s [] = ([], s)"
| "multi_run s (Speculative (Push a) # es) = multi_run (RAS_multistack_push s a) es"
| "multi_run s (Speculative Pop # es) = multi_run (snd (RAS_multistack_pop s)) es"
| "multi_run s (Committed (Push a) # es) = multi_run (RAS_multistack_real_push s a) es"
| "multi_run s (Committed Pop # es) =
     (let (a, s1) = RAS_multistack_real_pop s; (outs, s2) = multi_run s1 es in (a # outs, s2))"

fun committed :: "multi_op list \<Rightarrow> ras_op list" where
  "committed [] = []"
| "committed (Speculative e # es) = committed es"
| "committed (Committed e # es) = e # committed es"

lemma speculative_keeps:
  "real_view (RAS_multistack_push s a) = real_view s" "real_size (RAS_multistack_push s a) = real_size s"
  "real_view (snd (RAS_multistack_pop s)) = real_view s" "real_size (snd (RAS_multistack_pop s)) = real_size s"
  by (simp_all add: real_view_def RAS_multistack_push_def RAS_multistack_pop_def Let_def)

lemma multi_run_refines:
  assumes "RAS_multistack_inv s" and "take (length stk) (real_view s) = stk"
    and "spec_run (unat (real_size s)) stk (committed es) = Some (outs, stk')"
  shows "\<exists>s'. multi_run s es = (outs, s') \<and> RAS_multistack_inv s' \<and> real_size s' = real_size s \<and>
    take (length stk') (real_view s') = stk'"
  using assms
proof (induction s es arbitrary: stk outs rule: multi_run.induct)
  case (1 s)
  then show ?case by auto
next
  case (2 s a es)
  then show ?case using RAS_multistack_push_law [of s a] by (simp add: speculative_keeps)
next
  case (3 s es)
  then show ?case using RAS_multistack_pop_law [of s "fst (RAS_multistack_pop s)" "snd (RAS_multistack_pop s)"]
    by (simp add: speculative_keeps)
next
  case (4 s a es)
  have len: "length stk < unat (real_size s)" using "4.prems"(3) by (simp split: if_splits)
  have sz: "real_size (RAS_multistack_real_push s a) = real_size s"
    by (simp add: RAS_multistack_real_push_def Let_def)
  show ?case
    using "4.IH" [OF _ rreal.take_push [OF "4.prems"(1) len "4.prems"(2)], of outs]
      rreal.push_law [OF "4.prems"(1), of a] "4.prems"(3) len sz by simp
next
  case (5 s es)
  obtain b s1 where p: "RAS_multistack_real_pop s = (b, s1)" by force
  obtain a stk0 where stk: "stk = a # stk0" using "5.prems"(3) by (cases stk) auto
  then obtain outs1 where o: "spec_run (unat (real_size s)) stk0 (committed es) = Some (outs1, stk')" "outs = a # outs1"
    using "5.prems"(3) by auto
  have s1: "RAS_multistack_inv s1" "real_size s1 = real_size s"
    using rreal.pop_law [OF "5.prems"(1) p] p by (auto simp: RAS_multistack_real_pop_def Let_def)
  have t: "b = a" "take (length stk0) (real_view s1) = stk0"
    using rreal.take_pop [OF "5.prems"(1) _ p] "5.prems"(2) stk by auto
  show ?case using "5.IH" [OF p [symmetric] refl s1(1) t(2)] o p t(1) s1 by auto
qed

section \<open>Properties\<close>

text \<open>C6: while the program's call depth stays within the size of the circular stack, every return
  address it predicts is the one an unbounded stack would give, whatever it held before.\<close>

theorem RAS_stack_predicts_returns:
  assumes "RAS_stack_inv s" and "spec_run (unat (sz s)) [] es = Some (outs, stk)"
  shows "fst (ras_run RAS_stack_push RAS_stack_pop s es) = outs"
  using rstack.run_refines [OF assms(1) _ assms(2)] by auto

theorem RAS_stack_predicts_returns_witness:
  "fst (ras_run RAS_stack_push RAS_stack_pop
      \<lparr>name = ''r'', type_ = ''finite RAS'', bits = 128, num_hits = 0, num_pushes = 0, num_pops = 0,
       num_recovers = 0, frozen = False, stack = [0, 0], sz = 2, head = 0\<rparr>
      [Push 4, Push 8, Pop, Push 12, Pop, Pop]) = [8, 12, 4]"
  by (rule RAS_stack_predicts_returns) (simp_all add: RAS_stack_inv_def)

text \<open>Without a recovery too, the speculative side predicts what an unbounded stack would, whatever it
  held before.\<close>

lemma RAS_multistack_predicts_returns:
  assumes "RAS_multistack_inv s" and "spec_run (unat (real_size s)) [] es = Some (outs, stk)"
  shows "fst (ras_run RAS_multistack_push RAS_multistack_pop s es) = outs"
  using rmulti.run_refines [OF assms(1) _ assms(2)] by auto

lemma RAS_multistack_predicts_returns_witness:
  "fst (ras_run RAS_multistack_push RAS_multistack_pop
      \<lparr>name = ''r'', type_ = ''finite RAS'', bits = 0, num_hits = 0, num_pushes = 0, num_pops = 0,
       num_recovers = 0, frozen = False, spec_stack = replicate 3 \<lparr>addr = 0, valid = False\<rparr>,
       real_stack = [0, 0, 0], spec_size = 3, real_size = 2, spec_head = 0, real_head = 0,
       spec_to_real_head = 0\<rparr>
      [Push 4, Push 8, Pop, Pop]) = [8, 4]"
  by (rule RAS_multistack_predicts_returns) (simp_all add: RAS_multistack_inv_def)

text \<open>C8: the pair of stacks predicts the returns of the program across mispredictions. The front end may
  have pushed and popped anything on a wrong path, interleaved with the calls and returns that commit.
  As long as the committed call depth stays within the committed stack, which may not be larger than the
  speculative one, every committed return pops the address an unbounded stack would. After a recovery
  the speculative side goes on from the committed calls: it predicts what an unbounded stack holding
  them would give, for calls made after the recovery and for those made before it.\<close>

theorem RAS_multistack_recovers_committed:
  assumes "RAS_multistack_inv s"
    and "spec_run (unat (real_size s)) [] (committed ops) = Some (rets, stk)"
    and "spec_run (unat (real_size s)) stk es = Some (outs, stk')"
  shows "fst (multi_run s ops) = rets \<and>
    fst (ras_run RAS_multistack_push RAS_multistack_pop (RAS_multistack_recover (snd (multi_run s ops))) es) = outs"
proof -
  obtain s1 where s1: "multi_run s ops = (rets, s1)" "RAS_multistack_inv s1" "real_size s1 = real_size s"
    "take (length stk) (real_view s1) = stk"
    using multi_run_refines [OF assms(1) _ assms(2)] by auto
  let ?r = "RAS_multistack_recover s1"
  have r: "RAS_multistack_inv ?r" "take (length stk) (RAS_multistack_view ?r) = stk"
    using RAS_multistack_recover_view [OF s1(2)] s1(4) by simp_all
  have "real_size ?r = real_size s" using s1(3) by (simp add: RAS_multistack_recover_def RAS_count_recover_def Let_def)
  then show ?thesis using rmulti.run_refines [OF r, of es outs stk'] assms(3) s1(1) by auto
qed

theorem RAS_multistack_recovers_committed_witness:
  "(let s = \<lparr>name = ''r'', type_ = ''finite RAS'', bits = 0, num_hits = 0, num_pushes = 0, num_pops = 0,
         num_recovers = 0, frozen = False, spec_stack = replicate 3 \<lparr>addr = 0, valid = False\<rparr>,
         real_stack = [0, 0, 0], spec_size = 3, real_size = 2, spec_head = 0, real_head = 0, spec_to_real_head = 0\<rparr>;
       ops = [Speculative (Push 4), Committed (Push 4), Speculative (Push 8), Committed (Push 8), Committed Pop,
         Committed (Push 12), Speculative Pop, Speculative (Push 90), Speculative (Push 91)]
     in fst (multi_run s ops) = [8] \<and>
        fst (ras_run RAS_multistack_push RAS_multistack_pop (RAS_multistack_recover (snd (multi_run s ops)))
          [Pop, Push 16, Pop, Pop]) = [12, 16, 4])"
  unfolding Let_def by (rule RAS_multistack_recovers_committed [where stk = "[12, 4]" and stk' = "[]"]) (simp_all add: RAS_multistack_inv_def)

text \<open>C9: the constructor allocates the committed stack with the size of the speculative one: with
  more committed than speculative entries, committing calls writes past the allocation.\<close>

theorem RAS_multistack_real_push_overrun:
  assumes "RAS_multistack_create nm spc rl = Inr s" and "unat spc < unat rl" and "unat rl < 2 ^ 31"
  shows "length (real_stack s) \<le>
    unat (real_head (foldl RAS_multistack_real_push s (replicate (unat spc) a)))"
proof -
  have s: "length (real_stack s) = unat spc" "real_size s = rl" "real_head s = 0"
    using assms(1) by (auto simp: RAS_multistack_create_def checks_Inr_iff RAS_t.defs
        RAS_multistack_t.defs RAS_init_def)
  have "unat (real_head (foldl RAS_multistack_real_push s (replicate n a))) = n \<and>
      real_size (foldl RAS_multistack_real_push s (replicate n a)) = rl" if "n \<le> unat spc" for n
    using that
  proof (induction n)
    case (Suc n)
    have "replicate (Suc n) a = replicate n a @ [a]" by (simp add: replicate_append_same)
    then have "foldl RAS_multistack_real_push s (replicate (Suc n) a) =
        RAS_multistack_real_push (foldl RAS_multistack_real_push s (replicate n a)) a"
      by (simp only: foldl_append foldl.simps)
    moreover have "real_head (RAS_multistack_real_push t a) = modinc (real_head t) (real_size t)"
      "real_size (RAS_multistack_real_push t a) = real_size t" for t
      by (simp_all add: RAS_multistack_real_push_def Let_def)
    ultimately show ?case using Suc assms(2,3) by (simp add: unat_modinc del: replicate.simps)
  qed (use s in simp)
  then show ?thesis using s by simp
qed

theorem RAS_multistack_real_push_overrun_witness:
  "1 \<le> unat (real_head (RAS_multistack_real_push
      \<lparr>name = ''r'', type_ = ''finite RAS'', bits = 256, num_hits = 0, num_pushes = 0, num_pops = 0,
       num_recovers = 0, frozen = False, spec_stack = [\<lparr>addr = 0, valid = False\<rparr>],
       real_stack = [0], spec_size = 1, real_size = 2, spec_head = 0, real_head = 0,
       spec_to_real_head = 0\<rparr> 5))"
  using RAS_multistack_real_push_overrun [of "''r''" 1 2 _ 5]
  by (simp add: RAS_multistack_create_def checks.simps check_nneg_def RAS_t.defs
      RAS_multistack_t.defs RAS_init_def)

end
