(* ===== verification/Fusion.thy ===== *)
theory Fusion
  imports TwoBitC
begin

text \<open>
  Fusion (meta-)predictors: the base class \<^verbatim>\<open>fusion_t\<close> of \<^verbatim>\<open>zesto-bpred.cpp\<close> and the seven
  classes of \<^verbatim>\<open>xiosim/ZCOMPS-fusion\<close>, which combine the directions the component predictors
  give for a branch. The locale \<open>fusion_selector\<close> is the contract of the classes that select:
  the fused prediction is one of the component predictions, in every state that any sequence of
  look-ups and updates can reach; so all components being wrong is the only way a
  branch all of them agree on is mispredicted. \<^verbatim>\<open>colt\<close>, which reads a table indexed with the
  predictions instead, is described at the end.
\<close>

section \<open>The base class\<close>

record fusion_sc_t =
  updated :: bool

record fusion_t =
  name :: string
  type_ :: string
  bits :: cint
  num_pred :: cint
  num_hits :: counter_t
  lookups :: counter_t
  updates :: counter_t
  spec_updates :: counter_t
  frozen :: bool

definition fusion_init :: "string \<Rightarrow> string \<Rightarrow> cint \<Rightarrow> cint \<Rightarrow> fusion_t" where
  "fusion_init nm ty n b = \<lparr>name = nm, type_ = ty, bits = b, num_pred = n, num_hits = 0, lookups = 0,
     updates = 0, spec_updates = 0, frozen = False\<rparr>"

definition fusion_count_lookup :: "'a fusion_t_scheme \<Rightarrow> 'a fusion_t_scheme" where
  "fusion_count_lookup s = (if frozen s then s else s\<lparr>lookups := lookups s + 1\<rparr>)"

definition fusion_update :: "'a fusion_t_scheme \<Rightarrow> 'b fusion_sc_t_scheme \<Rightarrow> bool \<Rightarrow> bool \<Rightarrow>
    'a fusion_t_scheme \<times> 'b fusion_sc_t_scheme" where
  "fusion_update s sc outcome our_pred =
     (if \<not> updated sc
      then (if frozen s then s
            else s\<lparr>updates := updates s + 1, num_hits := num_hits s + of_bool (our_pred = outcome)\<rparr>,
            sc\<lparr>updated := True\<rparr>)
      else (s, sc))"

definition fusion_spec_update :: "'a fusion_t_scheme \<Rightarrow> 'a fusion_t_scheme" where
  "fusion_spec_update s = (if frozen s then s else s\<lparr>spec_updates := spec_updates s + 1\<rparr>)"

definition fusion_recover :: "'a fusion_t_scheme \<Rightarrow> 'b fusion_sc_t_scheme \<Rightarrow> bool \<Rightarrow> 'a fusion_t_scheme" where
  "fusion_recover s sc outcome = s"

definition fusion_flush :: "'a fusion_t_scheme \<Rightarrow> 'b fusion_sc_t_scheme \<Rightarrow> 'a fusion_t_scheme" where
  "fusion_flush s sc = s"

definition fusion_reset_stats :: "'a fusion_t_scheme \<Rightarrow> 'a fusion_t_scheme" where
  "fusion_reset_stats s = s\<lparr>num_hits := 0, lookups := 0, updates := 0, spec_updates := 0\<rparr>"

definition fusion_get_cache :: fusion_sc_t where
  "fusion_get_cache = \<lparr>updated = False\<rparr>"

lemmas fusion_base_defs = fusion_count_lookup_def fusion_update_def fusion_spec_update_def
  fusion_recover_def fusion_flush_def

section \<open>The contract of a selector\<close>

type_synonym ('s, 'sc) flookup_fn = "'s \<Rightarrow> 'sc \<Rightarrow> bool list \<Rightarrow> md_addr_t \<Rightarrow> bool \<Rightarrow> bool \<times> 's \<times> 'sc"
type_synonym ('s, 'sc) fupdate_fn =
  "'s \<Rightarrow> 'sc \<Rightarrow> bool list \<Rightarrow> md_addr_t \<Rightarrow> bool \<Rightarrow> bool \<Rightarrow> 's \<times> 'sc"

datatype fusion_event =
    F_lookup "bool list" md_addr_t bool
  | F_update bool "bool list" md_addr_t bool bool
  | F_spec_update

text \<open>An update comes with the state cache's \<^verbatim>\<open>updated\<close> flag, since a branch may be updated more
  than once.\<close>

fun fusion_step :: "('s, fusion_sc_t) flookup_fn \<Rightarrow> ('s, fusion_sc_t) fupdate_fn \<Rightarrow> ('s \<Rightarrow> 's) \<Rightarrow>
    's \<Rightarrow> fusion_event \<Rightarrow> 's" where
  "fusion_step lk up sp s (F_lookup preds PC outcome) =
     fst (snd (lk s \<lparr>updated = False\<rparr> preds PC outcome))"
| "fusion_step lk up sp s (F_update u preds PC outcome our_pred) =
     fst (up s \<lparr>updated = u\<rparr> preds PC outcome our_pred)"
| "fusion_step lk up sp s F_spec_update = sp s"

fun event_preds :: "fusion_event \<Rightarrow> bool list option" where
  "event_preds (F_lookup preds PC outcome) = Some preds"
| "event_preds (F_update u preds PC outcome our_pred) = Some preds"
| "event_preds F_spec_update = None"

definition arity_ok :: "nat \<Rightarrow> fusion_event \<Rightarrow> bool" where
  "arity_ok n e \<longleftrightarrow> (case event_preds e of None \<Rightarrow> True | Some ps \<Rightarrow> length ps = n)"

locale fusion_selector =
  fixes inv :: "'s \<Rightarrow> bool"
    and arity :: "'s \<Rightarrow> nat"
    and lookup :: "('s, fusion_sc_t) flookup_fn"
    and update :: "('s, fusion_sc_t) fupdate_fn"
    and spec_update :: "'s \<Rightarrow> 's"
  assumes lookup_law: "inv s \<Longrightarrow> length preds = arity s \<Longrightarrow>
      lookup s sc preds PC outcome = (p, s', sc') \<Longrightarrow>
      p \<in> set preds \<and> inv s' \<and> arity s' = arity s"
    and update_law: "inv s \<Longrightarrow> length preds = arity s \<Longrightarrow>
      update s sc preds PC outcome our_pred = (s', sc') \<Longrightarrow> inv s' \<and> arity s' = arity s"
    and spec_update_law: "inv s \<Longrightarrow> inv (spec_update s) \<and> arity (spec_update s) = arity s"
begin

lemma step_inv:
  assumes "inv s" and "arity_ok (arity s) e"
  shows "inv (fusion_step lookup update spec_update s e) \<and>
    arity (fusion_step lookup update spec_update s e) = arity s"
proof (cases e)
  case (F_lookup preds PC outcome)
  obtain p s' sc' where "lookup s \<lparr>updated = False\<rparr> preds PC outcome = (p, s', sc')"
    by (cases "lookup s \<lparr>updated = False\<rparr> preds PC outcome")
  then show ?thesis using assms F_lookup lookup_law [OF assms(1), of preds]
    by (simp add: arity_ok_def)
next
  case (F_update u preds PC outcome our_pred)
  obtain s' sc' where "update s \<lparr>updated = u\<rparr> preds PC outcome our_pred = (s', sc')"
    by (cases "update s \<lparr>updated = u\<rparr> preds PC outcome our_pred")
  then show ?thesis using assms F_update update_law [OF assms(1), of preds]
    by (simp add: arity_ok_def)
next
  case F_spec_update
  then show ?thesis using spec_update_law assms by simp
qed

lemma run_inv:
  assumes "inv s" and "\<forall>e \<in> set es. arity_ok (arity s) e"
  shows "inv (foldl (fusion_step lookup update spec_update) s es) \<and>
    arity (foldl (fusion_step lookup update spec_update) s es) = arity s"
  using assms
proof (induction es arbitrary: s)
  case (Cons e es)
  then show ?case using step_inv [OF Cons.prems(1), of e] Cons.IH by simp
qed simp

text \<open>After any history, the fused prediction is one of the component predictions.\<close>

lemma run_selects:
  assumes "inv s" and "\<forall>e \<in> set es. arity_ok (arity s) e" and "length preds = arity s"
  shows "fst (lookup (foldl (fusion_step lookup update spec_update) s es) sc preds PC outcome) \<in> set preds"
proof -
  let ?s = "foldl (fusion_step lookup update spec_update) s es"
  have r: "inv ?s" "arity ?s = arity s" using run_inv [OF assms(1,2)] by auto
  obtain p s' sc' where l: "lookup ?s sc preds PC outcome = (p, s', sc')"
    by (cases "lookup ?s sc preds PC outcome")
  have "p \<in> set preds" using lookup_law [OF r(1) _ l] assms(3) r(2) by simp
  then show ?thesis using l by simp
qed

end

section \<open>No fusion, random choice, oracle choice\<close>

definition fusion_inherited_update :: "(fusion_t, fusion_sc_t) fupdate_fn" where
  "fusion_inherited_update s sc preds PC outcome our_pred = fusion_update s sc outcome our_pred"

definition fusion_singleton_create :: fusion_t where
  "fusion_singleton_create = fusion_init ''none'' ''none'' 1 0"

definition fusion_singleton_lookup :: "(fusion_t, fusion_sc_t) flookup_fn" where
  "fusion_singleton_lookup s sc preds PC outcome =
     (preds ! 0, fusion_count_lookup s, sc\<lparr>updated := False\<rparr>)"

definition fusion_random_create :: "cint \<Rightarrow> fusion_t" where
  "fusion_random_create arg_num_pred = fusion_init ''random'' ''random Selection'' arg_num_pred 0"

text \<open>The number drawn from the C library's \<^verbatim>\<open>random()\<close>, which is not negative, is an argument.\<close>

definition fusion_random_lookup :: "nat \<Rightarrow> (fusion_t, fusion_sc_t) flookup_fn" where
  "fusion_random_lookup rnd s sc preds PC outcome =
     (preds ! (rnd mod unat (num_pred s)), fusion_count_lookup s, sc\<lparr>updated := False\<rparr>)"

definition fusion_oracle_create :: "cint \<Rightarrow> fusion_t" where
  "fusion_oracle_create arg_num_pred = fusion_init ''oracle'' ''oracle'' arg_num_pred 0"

definition fusion_oracle_lookup :: "(fusion_t, fusion_sc_t) flookup_fn" where
  "fusion_oracle_lookup s sc preds PC outcome =
     (let pred = (if \<exists>i \<in> set [0..<unat (num_pred s)]. preds ! i = outcome then outcome else \<not> outcome)
      in (pred, fusion_count_lookup s, sc\<lparr>updated := False\<rparr>))"

section \<open>Tournament selection (\<^verbatim>\<open>fusion-mcfarling.cpp\<close>)\<close>

text \<open>The fields \<^verbatim>\<open>meta_size\<close>, \<^verbatim>\<open>meta_mask\<close> and \<^verbatim>\<open>meta\<close>, which three classes
  declare, carry the prefixes \<open>mc\<close>, \<open>pr\<close> and \<open>mh\<close>.\<close>

record fusion_mcfarling_t = fusion_t +
  mc_size :: cint
  mc_mask :: cint
  mc_meta :: "my2bc_t list"

definition fusion_mcfarling_create :: "string \<Rightarrow> cint \<Rightarrow> cint \<Rightarrow> fatal + fusion_mcfarling_t" where
  "fusion_mcfarling_create arg_name arg_num_pred arg_meta_size =
     checks [(check_ppow2 arg_meta_size, Not_ppow2), (arg_num_pred = 2, Bad_config)]
       (fusion_t.extend
         (fusion_init arg_name ''McFarling tournament selection'' arg_num_pred (arg_meta_size * 2))
         (fusion_mcfarling_t.fields arg_meta_size (arg_meta_size - 1)
           (replicate (unat arg_meta_size) 0)))"

definition fusion_mcfarling_lookup :: "(fusion_mcfarling_t, fusion_sc_t) flookup_fn" where
  "fusion_mcfarling_lookup s sc preds PC outcome =
     (let index = pc_mask PC (mc_mask s);
          meta_direction = of_bool (MY2BC_DIR (mc_meta s ! unat index))
      in (preds ! meta_direction, fusion_count_lookup s, sc\<lparr>updated := False\<rparr>))"

definition fusion_mcfarling_update :: "(fusion_mcfarling_t, fusion_sc_t) fupdate_fn" where
  "fusion_mcfarling_update s sc preds PC outcome our_pred =
     (let index = unat (pc_mask PC (mc_mask s));
          (s1, sc1) = fusion_update s sc outcome our_pred
      in (if preds ! 0 \<noteq> preds ! 1
          then s1\<lparr>mc_meta := (mc_meta s1)[index := MY2BC_UPDATE (mc_meta s1 ! index) (preds ! 1 = outcome)]\<rparr>
          else s1, sc1))"

section \<open>Priority selection (\<^verbatim>\<open>fusion-priority.cpp\<close>)\<close>

record fusion_priority_t = fusion_t +
  pr_size :: cint
  pr_mask :: cint
  pr_meta :: "my2bc_t list list"

definition fusion_priority_create :: "string \<Rightarrow> cint \<Rightarrow> cint \<Rightarrow> fatal + fusion_priority_t" where
  "fusion_priority_create arg_name arg_num_pred arg_meta_size =
     checks [(check_ppow2 arg_meta_size, Not_ppow2), (check_nneg arg_num_pred, Alloc_failed)]
       (fusion_t.extend
         (fusion_init arg_name ''priority Multi-Hybrid'' arg_num_pred (arg_meta_size * arg_num_pred * 2))
         (fusion_priority_t.fields arg_meta_size (arg_meta_size - 1)
           (replicate (unat arg_meta_size) (replicate (unat arg_num_pred) 3))))"

text \<open>The search loop: the first counter with value 3, or the number of counters.\<close>

fun first_strong :: "my2bc_t list \<Rightarrow> nat" where
  "first_strong [] = 0"
| "first_strong (c # cs) = (if c = MY2BC_STRONG_TAKEN then 0 else Suc (first_strong cs))"

definition fusion_priority_lookup :: "(fusion_priority_t, fusion_sc_t) flookup_fn" where
  "fusion_priority_lookup s sc preds PC outcome =
     (let meta_counters = pr_meta s ! unat (pc_mask PC (pr_mask s));
          i = first_strong meta_counters
      in (preds ! i, fusion_count_lookup s, sc\<lparr>updated := False\<rparr>))"

definition a_3_was_correct :: "my2bc_t list \<Rightarrow> bool list \<Rightarrow> bool \<Rightarrow> bool" where
  "a_3_was_correct cs preds outcome \<longleftrightarrow>
     list_ex (\<lambda>(c, p). c = MY2BC_STRONG_TAKEN \<and> p = outcome) (zip cs preds)"

definition priority_counters :: "my2bc_t list \<Rightarrow> bool list \<Rightarrow> bool \<Rightarrow> my2bc_t list" where
  "priority_counters cs preds outcome =
     (if a_3_was_correct cs preds outcome
      then map2 (\<lambda>c p. MY2BC_COND_DEC c (p \<noteq> outcome)) cs preds
      else map2 (\<lambda>c p. MY2BC_COND_INC c (p = outcome)) cs preds)"

definition fusion_priority_update :: "(fusion_priority_t, fusion_sc_t) fupdate_fn" where
  "fusion_priority_update s sc preds PC outcome our_pred =
     (let index = unat (pc_mask PC (pr_mask s));
          (s1, sc1) = fusion_update s sc outcome our_pred
      in (s1\<lparr>pr_meta := (pr_meta s1)[index := priority_counters (pr_meta s1 ! index) preds outcome]\<rparr>, sc1))"

section \<open>Two-level tournament (\<^verbatim>\<open>fusion-multihybrid.cpp\<close>)\<close>

definition meta_selection :: "nat list list list" where
  "meta_selection = [[[0, 0], [1, 1]], [[2, 3], [2, 3]]]"

record fusion_multihybrid_t = fusion_t +
  mh_size :: cint
  mh_mask :: cint
  mh_meta :: "my2bc_t list list"
  meta_direction :: nat

definition fusion_multihybrid_create :: "string \<Rightarrow> cint \<Rightarrow> cint \<Rightarrow> fatal + fusion_multihybrid_t" where
  "fusion_multihybrid_create arg_name arg_num_pred arg_meta_size =
     checks [(check_ppow2 arg_meta_size, Not_ppow2), (arg_num_pred = 4, Bad_config)]
       (fusion_t.extend
         (fusion_init arg_name ''multihybrid Selection'' arg_num_pred (arg_meta_size * 7))
         (fusion_multihybrid_t.fields arg_meta_size (arg_meta_size - 1)
           [replicate (unat arg_meta_size) 3,
            map (\<lambda>i. if odd i then MY2BC_WEAKLY_NT else MY2BC_WEAKLY_TAKEN) [0..<unat arg_meta_size],
            map (\<lambda>i. if odd i then MY2BC_WEAKLY_TAKEN else MY2BC_WEAKLY_NT) [0..<unat arg_meta_size]]
           0))"

definition fusion_multihybrid_lookup :: "(fusion_multihybrid_t, fusion_sc_t) flookup_fn" where
  "fusion_multihybrid_lookup s sc preds PC outcome =
     (let index = unat (pc_mask PC (mh_mask s));
          d = meta_selection ! unat (drop_bit 2 (mh_meta s ! 0 ! index))
                ! of_bool (MY2BC_DIR (mh_meta s ! 1 ! index)) ! of_bool (MY2BC_DIR (mh_meta s ! 2 ! index));
          s1 = s\<lparr>meta_direction := d\<rparr>
      in (preds ! d, fusion_count_lookup s1, sc\<lparr>updated := False\<rparr>))"

definition multi_top :: "my2bc_t \<Rightarrow> bool \<Rightarrow> my2bc_t" where
  "multi_top c up = (if up then if c < 7 then c + 1 else c else if c > 0 then c - 1 else c)"

definition fusion_multihybrid_update :: "(fusion_multihybrid_t, fusion_sc_t) fupdate_fn" where
  "fusion_multihybrid_update s sc preds PC outcome our_pred =
     (let index = unat (pc_mask PC (mh_mask s));
          (s1, sc1) = fusion_update s sc outcome our_pred;
          p01 = preds ! of_bool (MY2BC_DIR (mh_meta s ! 1 ! index));
          p23 = preds ! (2 + of_bool (MY2BC_DIR (mh_meta s ! 2 ! index)));
          m0 = (if p01 \<noteq> p23
                then (mh_meta s ! 0)[index := multi_top (mh_meta s ! 0 ! index) (p23 = outcome)] else mh_meta s ! 0);
          m1 = (if preds ! 0 \<noteq> preds ! 1
                then (mh_meta s ! 1)[index := MY2BC_UPDATE (mh_meta s ! 1 ! index) (preds ! 1 = outcome)]
                else mh_meta s ! 1);
          m2 = (if preds ! 2 \<noteq> preds ! 3
                then (mh_meta s ! 2)[index := MY2BC_UPDATE (mh_meta s ! 2 ! index) (preds ! 3 = outcome)]
                else mh_meta s ! 2)
      in (s1\<lparr>mh_meta := [m0, m1, m2]\<rparr>, sc1))"

section \<open>Selection\<close>

lemma fusion_base_frame [simp]:
  "num_pred (fusion_count_lookup s) = num_pred s" "num_pred (fst (fusion_update s sc outcome our_pred)) = num_pred s"
  "num_pred (fusion_spec_update s) = num_pred s"
  by (simp_all add: fusion_base_defs)

lemmas fusion_simple_ops = fusion_singleton_lookup_def fusion_random_lookup_def fusion_oracle_lookup_def
  fusion_inherited_update_def

interpretation fsingleton: fusion_selector "\<lambda>s. num_pred s = 1" "\<lambda>s. unat (num_pred s)"
  fusion_singleton_lookup fusion_inherited_update fusion_spec_update
  by unfold_locales (auto simp: fusion_simple_ops fusion_base_defs split: if_splits)

interpretation frandom: fusion_selector "\<lambda>s. num_pred s \<noteq> 0" "\<lambda>s. unat (num_pred s)"
  "fusion_random_lookup rnd" fusion_inherited_update fusion_spec_update for rnd
  by unfold_locales (auto simp: fusion_simple_ops fusion_base_defs unat_gt_0 split: if_splits)

interpretation foracle: fusion_selector "\<lambda>s. num_pred s \<noteq> 0" "\<lambda>s. unat (num_pred s)"
  fusion_oracle_lookup fusion_inherited_update fusion_spec_update
proof (unfold_locales, goal_cases)
  case (1 s preds sc PC outcome p s' sc')
  have n: "0 < unat (num_pred s)" using 1(1) by (simp add: unat_gt_0)
  have "\<exists>i < length preds. preds ! i = p"
  proof (cases "\<exists>i \<in> set [0..<unat (num_pred s)]. preds ! i = outcome")
    case True
    then show ?thesis using 1(2,3) by (auto simp: fusion_oracle_lookup_def)
  next
    case False
    then have "p = (\<not> outcome)" "preds ! 0 \<noteq> outcome"
      using 1(3) n by (auto simp: fusion_oracle_lookup_def)
    then show ?thesis using 1(2) n by (intro exI [of _ 0]) auto
  qed
  then have "p \<in> set preds" using nth_mem by blast
  moreover have "s' = fusion_count_lookup s" using 1(3) by (simp add: fusion_oracle_lookup_def Let_def)
  ultimately show ?case using 1(1) by simp
qed (auto simp: fusion_simple_ops fusion_base_defs split: if_splits)

definition fusion_mcfarling_inv :: "fusion_mcfarling_t \<Rightarrow> bool" where
  "fusion_mcfarling_inv s \<longleftrightarrow> check_ppow2 (mc_size s) \<and> mc_mask s = mc_size s - 1 \<and>
     length (mc_meta s) = unat (mc_size s) \<and> num_pred s = 2 \<and> list_all ctr_ok (mc_meta s)"

interpretation fmcfarling: fusion_selector fusion_mcfarling_inv "\<lambda>s. unat (num_pred s)"
  fusion_mcfarling_lookup fusion_mcfarling_update fusion_spec_update
proof (unfold_locales, goal_cases)
  case (1 s preds sc PC outcome p s' sc')
  let ?i = "of_bool (MY2BC_DIR (mc_meta s ! unat (pc_mask PC (mc_mask s)))) :: nat"
  have "?i < length preds" using 1(1,2) by (simp add: fusion_mcfarling_inv_def of_bool_def)
  then have "preds ! ?i \<in> set preds" by (rule nth_mem)
  moreover have "p = preds ! ?i" "s' = fusion_count_lookup s"
    using 1(3) by (simp_all add: fusion_mcfarling_lookup_def Let_def)
  ultimately show ?case using 1(1) by (simp add: fusion_mcfarling_inv_def fusion_count_lookup_def)
next
  case (2 s preds sc PC outcome our_pred s' sc')
  then show ?case
    by (auto simp: fusion_mcfarling_update_def fusion_mcfarling_inv_def Let_def fusion_base_defs
        intro!: list_all_update split: if_splits)
qed (auto simp: fusion_mcfarling_inv_def fusion_base_defs)

text \<open>Every row of the priority table keeps a counter with value 3.\<close>

definition has_3 :: "my2bc_t list \<Rightarrow> bool" where
  "has_3 cs \<longleftrightarrow> list_ex (\<lambda>c. c = MY2BC_STRONG_TAKEN) cs"

definition fusion_priority_inv :: "fusion_priority_t \<Rightarrow> bool" where
  "fusion_priority_inv s \<longleftrightarrow> check_ppow2 (pr_size s) \<and> pr_mask s = pr_size s - 1 \<and>
     length (pr_meta s) = unat (pr_size s) \<and>
     list_all (\<lambda>cs. length cs = unat (num_pred s) \<and> has_3 cs) (pr_meta s)"

lemma first_strong_less: "has_3 cs \<Longrightarrow> first_strong cs < length cs"
  by (induction cs) (auto simp: has_3_def)

lemma cond_keep_3:
  "MY2BC_COND_INC MY2BC_STRONG_TAKEN p = MY2BC_STRONG_TAKEN"
  "MY2BC_COND_DEC MY2BC_STRONG_TAKEN False = MY2BC_STRONG_TAKEN"
  by (simp_all add: MY2BC_STRONG_TAKEN_def cond_inc_table cond_dec_table)

lemma priority_counters_has_3:
  assumes "has_3 cs" and "length preds = length cs"
  shows "has_3 (priority_counters cs preds outcome)"
proof (cases "a_3_was_correct cs preds outcome")
  case True
  then obtain i where i: "i < length cs" "cs ! i = MY2BC_STRONG_TAKEN" "preds ! i = outcome"
    using assms(2) by (auto simp: a_3_was_correct_def list_ex_length)
  have "map2 (\<lambda>c p. MY2BC_COND_DEC c (p \<noteq> outcome)) cs preds ! i = MY2BC_STRONG_TAKEN"
    using i assms(2) by (simp add: cond_keep_3)
  then show ?thesis using True i(1) assms(2)
    by (auto simp: priority_counters_def has_3_def list_ex_length)
next
  case False
  obtain i where i: "i < length cs" "cs ! i = MY2BC_STRONG_TAKEN"
    using assms(1) by (auto simp: has_3_def list_ex_length)
  have "map2 (\<lambda>c p. MY2BC_COND_INC c (p = outcome)) cs preds ! i = MY2BC_STRONG_TAKEN"
    using i assms(2) by (simp add: cond_keep_3)
  then show ?thesis using False i(1) assms(2)
    by (auto simp: priority_counters_def has_3_def list_ex_length)
qed

lemma priority_row:
  assumes "fusion_priority_inv s"
  shows "length (pr_meta s ! unat (pc_mask PC (pr_mask s))) = unat (num_pred s)"
    and "has_3 (pr_meta s ! unat (pc_mask PC (pr_mask s)))"
proof -
  have "unat (pc_mask PC (pr_mask s)) < length (pr_meta s)"
    using assms by (simp add: fusion_priority_inv_def)
  moreover have "list_all (\<lambda>cs. length cs = unat (num_pred s) \<and> has_3 cs) (pr_meta s)"
    using assms by (simp add: fusion_priority_inv_def)
  ultimately have "length (pr_meta s ! unat (pc_mask PC (pr_mask s))) = unat (num_pred s) \<and>
      has_3 (pr_meta s ! unat (pc_mask PC (pr_mask s)))"
    by (rule list_all_nth [rotated])
  then show "length (pr_meta s ! unat (pc_mask PC (pr_mask s))) = unat (num_pred s)"
    "has_3 (pr_meta s ! unat (pc_mask PC (pr_mask s)))" by simp_all
qed

interpretation fpriority: fusion_selector fusion_priority_inv "\<lambda>s. unat (num_pred s)"
  fusion_priority_lookup fusion_priority_update fusion_spec_update
proof (unfold_locales, goal_cases)
  case (1 s preds sc PC outcome p s' sc')
  let ?i = "first_strong (pr_meta s ! unat (pc_mask PC (pr_mask s)))"
  have "?i < length preds" using first_strong_less priority_row [OF 1(1)] 1(2) by metis
  then have "preds ! ?i \<in> set preds" by (rule nth_mem)
  moreover have "p = preds ! ?i" "s' = fusion_count_lookup s"
    using 1(3) by (simp_all add: fusion_priority_lookup_def Let_def)
  ultimately show ?case using 1(1) by (simp add: fusion_priority_inv_def fusion_count_lookup_def)
next
  case (2 s preds sc PC outcome our_pred s' sc')
  let ?row = "priority_counters (pr_meta s ! unat (pc_mask PC (pr_mask s))) preds outcome"
  have "has_3 ?row" using priority_row [OF 2(1)] 2(2) by (intro priority_counters_has_3) simp_all
  moreover have "length ?row = unat (num_pred s)"
    using priority_row(1) [OF 2(1)] 2(2) by (simp add: priority_counters_def)
  ultimately show ?case using 2
    by (auto simp: fusion_priority_update_def Let_def fusion_priority_inv_def fusion_base_defs
        intro!: list_all_update split: if_splits)
qed (auto simp: fusion_priority_inv_def fusion_base_defs)

definition fusion_multihybrid_inv :: "fusion_multihybrid_t \<Rightarrow> bool" where
  "fusion_multihybrid_inv s \<longleftrightarrow> check_ppow2 (mh_size s) \<and> mh_mask s = mh_size s - 1 \<and>
     map length (mh_meta s) = replicate 3 (unat (mh_size s)) \<and> num_pred s = 4 \<and>
     list_all (\<lambda>c. unat c \<le> 7) (mh_meta s ! 0)"

text \<open>What the selection table means: the top counter's upper half picks the second pair.\<close>

lemma meta_selection_tournament:
  fixes c :: my2bc_t
  assumes "unat c \<le> 7"
  shows "meta_selection ! unat (drop_bit 2 c) ! of_bool a ! of_bool b =
    (if 4 \<le> unat c then 2 + of_bool b else of_bool a)"
proof -
  have "unat (drop_bit 2 c) = unat c div 4"
    using unat_drop_bit_eq [of 2 c] by (simp add: drop_bit_eq_div)
  moreover have "unat c div 4 = (if 4 \<le> unat c then 1 else 0)"
    using assms by (auto intro: div_nat_eqI)
  ultimately show ?thesis by (simp add: meta_selection_def of_bool_def)
qed

lemma multi_top_le: "unat c \<le> 7 \<Longrightarrow> unat (multi_top c up) \<le> 7"
proof -
  assume c: "unat c \<le> 7"
  have "c < 7 \<Longrightarrow> unat (c + 1) \<le> 7" by (simp add: word_less_nat_alt unat_word_ariths)
  moreover have "c > 0 \<Longrightarrow> unat (c - 1) \<le> 7" using c by (simp add: unat_minus_one word_gt_0)
  ultimately show ?thesis using c by (simp add: multi_top_def)
qed

lemma multihybrid_top:
  "fusion_multihybrid_inv s \<Longrightarrow> unat (mh_meta s ! 0 ! unat (pc_mask PC (mh_mask s))) \<le> 7"
proof -
  assume i: "fusion_multihybrid_inv s"
  then have "length (mh_meta s ! 0) = unat (mh_size s)"
    by (cases "mh_meta s") (auto simp: fusion_multihybrid_inv_def eval_nat_numeral)
  then show ?thesis using i list_all_nth [of "\<lambda>c. unat c \<le> 7" "mh_meta s ! 0" "unat (pc_mask PC (mh_mask s))"]
    by (simp add: fusion_multihybrid_inv_def)
qed

lemma multihybrid_lengths:
  "fusion_multihybrid_inv s \<Longrightarrow> map length [mh_meta s ! 0, mh_meta s ! 1, mh_meta s ! 2] = replicate 3 (unat (mh_size s))"
  by (auto simp: fusion_multihybrid_inv_def eval_nat_numeral map_eq_Cons_conv)

interpretation fmultihybrid: fusion_selector fusion_multihybrid_inv "\<lambda>s. unat (num_pred s)"
  fusion_multihybrid_lookup fusion_multihybrid_update fusion_spec_update
proof (unfold_locales, goal_cases)
  case (1 s preds sc PC outcome p s' sc')
  let ?i = "if 4 \<le> unat (mh_meta s ! 0 ! unat (pc_mask PC (mh_mask s)))
    then 2 + of_bool (MY2BC_DIR (mh_meta s ! 2 ! unat (pc_mask PC (mh_mask s))))
    else of_bool (MY2BC_DIR (mh_meta s ! 1 ! unat (pc_mask PC (mh_mask s)))) :: nat"
  have "?i < length preds" using 1(1,2) by (simp add: fusion_multihybrid_inv_def of_bool_def)
  then have "preds ! ?i \<in> set preds" by (rule nth_mem)
  moreover have "p = preds ! ?i" "s' = fusion_count_lookup (s\<lparr>meta_direction := ?i\<rparr>)"
    using 1(3) unfolding fusion_multihybrid_lookup_def Let_def
      meta_selection_tournament [OF multihybrid_top [OF 1(1)]] by (auto simp only: prod.inject)
  ultimately show ?case using 1(1) by (simp add: fusion_multihybrid_inv_def fusion_count_lookup_def)
next
  case (2 s preds sc PC outcome our_pred s' sc')
  let ?i = "unat (pc_mask PC (mh_mask s))" and ?s1 = "fst (fusion_update s sc outcome our_pred)"
  define m0 where "m0 = (if preds ! of_bool (MY2BC_DIR (mh_meta s ! 1 ! ?i)) \<noteq>
      preds ! (2 + of_bool (MY2BC_DIR (mh_meta s ! 2 ! ?i)))
    then (mh_meta s ! 0)[?i := multi_top (mh_meta s ! 0 ! ?i)
      (preds ! (2 + of_bool (MY2BC_DIR (mh_meta s ! 2 ! ?i))) = outcome)] else mh_meta s ! 0)"
  define m1 where "m1 = (if preds ! 0 \<noteq> preds ! 1
    then (mh_meta s ! 1)[?i := MY2BC_UPDATE (mh_meta s ! 1 ! ?i) (preds ! 1 = outcome)] else mh_meta s ! 1)"
  define m2 where "m2 = (if preds ! 2 \<noteq> preds ! 3
    then (mh_meta s ! 2)[?i := MY2BC_UPDATE (mh_meta s ! 2 ! ?i) (preds ! 3 = outcome)] else mh_meta s ! 2)"
  have s': "s' = ?s1\<lparr>mh_meta := [m0, m1, m2]\<rparr>"
    using 2(3) unfolding fusion_multihybrid_update_def Let_def case_prod_beta m0_def m1_def m2_def
    by (simp only: prod.inject)
  have "list_all (\<lambda>c. unat c \<le> 7) (mh_meta s ! 0)" using 2(1) by (simp add: fusion_multihybrid_inv_def)
  then have "list_all (\<lambda>c. unat c \<le> 7) m0"
    unfolding m0_def using multi_top_le [OF multihybrid_top [OF 2(1), of PC]]
    by (simp add: list_all_update)
  moreover have "map length [m0, m1, m2] = replicate 3 (unat (mh_size s))"
    using multihybrid_lengths [OF 2(1)] by (simp add: m0_def m1_def m2_def)
  moreover have "mh_size ?s1 = mh_size s" "mh_mask ?s1 = mh_mask s" by (simp_all add: fusion_update_def)
  ultimately show ?case using 2(1) s' by (simp add: fusion_multihybrid_inv_def)
qed (auto simp: fusion_multihybrid_inv_def fusion_base_defs)

section \<open>Combined output look-up table (\<^verbatim>\<open>fusion-colt.cpp\<close>)\<close>

text \<open>Pointers into \<^verbatim>\<open>ftable\<close> and \<^verbatim>\<open>history\<close> are indices; \<^verbatim>\<open>char\<close> is signed. The constructor never
  sets \<^verbatim>\<open>xorshift\<close>: whatever the memory held is an argument of it.\<close>

record fusion_colt_sc_t = fusion_sc_t +
  current_ctr :: nat
  bhr :: nat
  lookup_bhr :: cint

record fusion_colt_t = fusion_t +
  colt_size :: cint
  colt_mask :: cint
  counter_width :: cint
  counter_shift :: cint
  counter_max :: cint
  history_size :: cint
  history_mask :: cint
  bhr_width :: cint
  bhr_mask :: cint
  xorshift :: cint
  xormask :: cint
  xor2shift :: cint
  history :: "cint list"
  ftable :: "uchar list"

definition fusion_colt_create ::
  "cint \<Rightarrow> string \<Rightarrow> cint \<Rightarrow> cint \<Rightarrow> cint \<Rightarrow> cint \<Rightarrow> cint \<Rightarrow> fatal + fusion_colt_t" where
  "fusion_colt_create garbage arg_name arg_num_pred arg_meta_size arg_counter_width arg_history_size
      arg_bhr_width =
     checks [(check_ppow2 arg_meta_size, Not_ppow2), (check_ppow2 arg_history_size, Not_ppow2),
             (check_nneg arg_bhr_width, Not_nneg), (check_pos_leq arg_counter_width 8, Not_in_range)]
       (fusion_t.extend
         (fusion_init arg_name ''fusion Table'' arg_num_pred
           (arg_meta_size * arg_counter_width + arg_history_size * arg_bhr_width))
         (fusion_colt_t.fields arg_meta_size (arg_meta_size - 1) arg_counter_width (arg_counter_width - 1)
           (shl 1 arg_counter_width - 1) arg_history_size (arg_history_size - 1) arg_bhr_width
           (shl 1 arg_bhr_width - 1) garbage (sar (arg_meta_size - 1) arg_num_pred)
           (log2_int arg_meta_size - arg_num_pred)
           (replicate (unat arg_history_size) 0)
           (map (\<lambda>i. ucast (if odd i then shl 1 (arg_counter_width - 1) - 1 else shl 1 (arg_counter_width - 1)))
              [0..<unat arg_meta_size])))"

definition pred_cat :: "nat \<Rightarrow> bool list \<Rightarrow> cint" where
  "pred_cat n preds = foldl (\<lambda>acc i. acc OR push_bit i (of_bool (preds ! i))) 0 [0..<n]"

definition colt_index :: "fusion_colt_t \<Rightarrow> cint \<Rightarrow> bool list \<Rightarrow> md_addr_t \<Rightarrow> cint" where
  "colt_index s h preds PC =
     ucast ((PC XOR scast (shl h (xorshift s))) AND scast (xormask s) OR
            scast (shl (pred_cat (unat (num_pred s)) preds) (xor2shift s)))"

definition fusion_colt_lookup :: "(fusion_colt_t, fusion_colt_sc_t) flookup_fn" where
  "fusion_colt_lookup s sc preds PC outcome =
     (let b = pc_index PC (history_mask s);
          h = history s ! b;
          i = unat (colt_index s h preds PC AND colt_mask s);
          pred = bit (ftable s ! i) (unat (counter_shift s))
      in (pred, fusion_count_lookup s, sc\<lparr>bhr := b, current_ctr := i, lookup_bhr := h, updated := False\<rparr>))"

definition colt_train :: "cint \<Rightarrow> uchar \<Rightarrow> bool \<Rightarrow> uchar" where
  "colt_train mx c outcome =
     (if outcome then if sint c < sint mx then c + 1 else c
      else if sint c > 0 then c - 1 else c)"

definition fusion_colt_update :: "(fusion_colt_t, fusion_colt_sc_t) fupdate_fn" where
  "fusion_colt_update s sc preds PC outcome our_pred =
     (let (s1, sc1) = fusion_update s sc outcome our_pred;
          i = current_ctr sc1
      in (s1\<lparr>ftable := (ftable s1)[i := colt_train (counter_max s1) (ftable s1 ! i) outcome]\<rparr>, sc1))"

definition fusion_colt_spec_update :: "fusion_colt_t \<Rightarrow> fusion_colt_sc_t \<Rightarrow> bool \<Rightarrow> fusion_colt_t" where
  "fusion_colt_spec_update s sc our_pred =
     (let s1 = fusion_spec_update s
      in s1\<lparr>history := (history s1)[bhr sc := (push_bit 1 (history s1 ! bhr sc) OR of_bool our_pred) AND bhr_mask s1]\<rparr>)"

definition fusion_colt_recover :: "fusion_colt_t \<Rightarrow> fusion_colt_sc_t \<Rightarrow> bool \<Rightarrow> fusion_colt_t" where
  "fusion_colt_recover s sc outcome =
     (if history_size s = 1
      then s\<lparr>history := (history s)[0 := push_bit 1 (lookup_bhr sc) OR of_bool outcome]\<rparr> else s)"

definition fusion_colt_flush :: "fusion_colt_t \<Rightarrow> fusion_colt_sc_t \<Rightarrow> fusion_colt_t" where
  "fusion_colt_flush s sc = (if history_size s = 1 then s\<lparr>history := (history s)[0 := lookup_bhr sc]\<rparr> else s)"

definition fusion_colt_get_cache :: fusion_colt_sc_t where
  "fusion_colt_get_cache = \<lparr>updated = False, current_ctr = 0, bhr = 0, lookup_bhr = 0\<rparr>"

definition colt_ctr_ok :: "cint \<Rightarrow> uchar \<Rightarrow> bool" where
  "colt_ctr_ok mx c \<longleftrightarrow> 0 \<le> sint c \<and> sint c \<le> sint mx"

definition fusion_colt_inv :: "fusion_colt_t \<Rightarrow> bool" where
  "fusion_colt_inv s \<longleftrightarrow> check_ppow2 (colt_size s) \<and> colt_mask s = colt_size s - 1 \<and>
     check_ppow2 (history_size s) \<and> history_mask s = history_size s - 1 \<and>
     length (ftable s) = unat (colt_size s) \<and> length (history s) = unat (history_size s)"

definition fusion_colt_sc_ok :: "fusion_colt_t \<Rightarrow> fusion_colt_sc_t \<Rightarrow> bool" where
  "fusion_colt_sc_ok s sc \<longleftrightarrow> current_ctr sc < unat (colt_size s) \<and> bhr sc < unat (history_size s)"

lemma sint_uchar: "sint c = (if unat c < 128 then int (unat c) else int (unat c) - 256)" for c :: uchar
proof -
  have u: "unat c < 2 ^ Suc 7" using unsigned_less [of c, where 'a = nat] by simp
  have "bit (uint c) 7 \<longleftrightarrow> 128 \<le> unat c"
    using bit_top_nat [OF u] by (simp add: bit_unat bit_unsigned_iff)
  moreover have "take_bit 8 (uint c) = uint c"
    using uint_bounded [of c] by (simp add: take_bit_int_eq_self_iff)
  ultimately show ?thesis using u
    by (simp add: sint_uint signed_take_bit_eq_take_bit_minus of_bool_def)
qed

text \<open>With at most seven bits the counter saturates between 0 and its maximum.\<close>

lemma colt_train_saturates:
  assumes "colt_ctr_ok mx c" and "sint mx < 128"
  shows "colt_ctr_ok mx (colt_train mx c outcome) \<and>
    sint (colt_train mx c outcome) =
      (if outcome then min (sint mx) (sint c + 1) else max 0 (sint c - 1))"
proof -
  have r: "unat c < 128" "sint c = int (unat c)"
    using assms unsigned_less [of c, where 'a = nat]
    by (auto simp: colt_ctr_ok_def sint_uchar simp del: of_nat_unat split: if_splits)
  have "unat (c + 1) = unat c + 1" using r(1) by (simp add: unat_word_ariths)
  moreover have "sint (c + 1) = int (unat c) + 1" if "sint c < sint mx"
    using calculation that assms(2) r by (simp add: sint_uchar del: of_nat_unat)
  moreover have "sint (c - 1) = int (unat c) - 1" if "0 < sint c"
  proof -
    have "c \<noteq> 0" using that by auto
    then have "unat (c - 1) = unat c - 1" "0 < unat c" by (simp_all add: unat_minus_one unat_gt_0)
    then show ?thesis using r(1) by (simp add: sint_uchar of_nat_diff del: of_nat_unat)
  qed
  ultimately show ?thesis using assms r(2)
    by (auto simp: colt_train_def colt_ctr_ok_def simp del: of_nat_unat)
qed

section \<open>Properties\<close>

lemma fusion_priority_create_inv:
  assumes "fusion_priority_create nm n sz = Inr s" and "n \<noteq> 0"
  shows "fusion_priority_inv s \<and> num_pred s = n"
proof -
  have "has_3 (replicate (unat n) 3)"
    using assms(2) by (auto simp: has_3_def list_ex_iff MY2BC_STRONG_TAKEN_def unat_gt_0)
  then show ?thesis using assms(1)
    by (auto simp: fusion_priority_create_def checks_Inr_iff fusion_priority_inv_def fusion_t.defs
        fusion_priority_t.defs fusion_init_def list_all_length)
qed

text \<open>C10: the search for a priority counter with value 3 always ends at one: after any sequence of
  look-ups and updates of a table the constructor built, each row still has such a counter, so the
  look-up reads the prediction of an existing component.\<close>

theorem fusion_priority_always_a_three:
  assumes "fusion_priority_create nm n sz = Inr s" and "n \<noteq> 0"
    and "\<forall>e \<in> set es. arity_ok (unat n) e"
    and "s' = foldl (fusion_step fusion_priority_lookup fusion_priority_update fusion_spec_update) s es"
  shows "first_strong (pr_meta s' ! unat (pc_mask PC (pr_mask s'))) < unat n"
proof -
  have c: "fusion_priority_inv s" "num_pred s = n"
    using fusion_priority_create_inv [OF assms(1,2)] by auto
  have r: "fusion_priority_inv s'" "unat (num_pred s') = unat n"
    using fpriority.run_inv [OF c(1), of es] assms(3) unfolding assms(4) c(2) by auto
  show ?thesis using priority_row [OF r(1), of PC] first_strong_less r(2) by metis
qed

theorem fusion_priority_always_a_three_witness:
  "\<exists>s. fusion_priority_create ''p'' 2 1 = Inr s \<and>
    first_strong (pr_meta (foldl (fusion_step fusion_priority_lookup fusion_priority_update fusion_spec_update) s
      [F_update False [True, False] 9 False True]) ! unat (pc_mask 0 (pr_mask (foldl
      (fusion_step fusion_priority_lookup fusion_priority_update fusion_spec_update) s
      [F_update False [True, False] 9 False True])))) < 2"
proof -
  obtain s where s: "fusion_priority_create ''p'' 2 1 = Inr s"
    by (simp add: fusion_priority_create_def checks.simps check_ppow2_def IS_POW2_def check_nneg_def)
  have "\<forall>e \<in> set [F_update False [True, False] 9 False True]. arity_ok (unat (2 :: cint)) e"
    by (simp add: arity_ok_def)
  from fusion_priority_always_a_three [OF s _ this refl, of 0] s show ?thesis by auto
qed

lemma fusion_multihybrid_create_inv:
  assumes "fusion_multihybrid_create nm n sz = Inr s"
  shows "fusion_multihybrid_inv s"
proof -
  have "[k, k, k] = replicate 3 k" for k :: nat by (simp add: numeral_3_eq_3)
  then show ?thesis
    using assms by (auto simp: fusion_multihybrid_create_def checks_Inr_iff fusion_multihybrid_inv_def
        fusion_t.defs fusion_multihybrid_t.defs fusion_init_def list_all_iff)
qed

text \<open>A tournament between two predictions, as \<^verbatim>\<open>fusion-mcfarling.cpp\<close> does it.\<close>

definition tournament :: "bool \<Rightarrow> bool \<Rightarrow> bool \<Rightarrow> bool" where
  "tournament second p0 p1 = (if second then p1 else p0)"

text \<open>C11: the table-driven selection of \<^verbatim>\<open>multihybrid\<close> is the two-level tournament its header
  describes, in every state reachable from the constructor: one meta-counter chooses between the
  first two predictors, one between the last two, and the top counter between the winners.\<close>

theorem fusion_multihybrid_is_tournament:
  assumes "fusion_multihybrid_create nm n sz = Inr s0" and "\<forall>e \<in> set es. arity_ok 4 e"
    and "s = foldl (fusion_step fusion_multihybrid_lookup fusion_multihybrid_update fusion_spec_update) s0 es"
    and "length preds = 4" and "i = unat (pc_mask PC (mh_mask s))"
  shows "fst (fusion_multihybrid_lookup s sc preds PC outcome) =
    tournament (4 \<le> unat (mh_meta s ! 0 ! i))
      (tournament (MY2BC_DIR (mh_meta s ! 1 ! i)) (preds ! 0) (preds ! 1))
      (tournament (MY2BC_DIR (mh_meta s ! 2 ! i)) (preds ! 2) (preds ! 3))"
proof -
  have c: "fusion_multihybrid_inv s0" using assms(1) by (rule fusion_multihybrid_create_inv)
  then have "num_pred s0 = 4" by (simp add: fusion_multihybrid_inv_def)
  then have inv: "fusion_multihybrid_inv s"
    using fmultihybrid.run_inv [OF c, of es] assms(2) unfolding assms(3) by simp
  show ?thesis
    unfolding fusion_multihybrid_lookup_def Let_def meta_selection_tournament [OF multihybrid_top [OF inv]]
      assms(5) tournament_def
    by (simp add: of_bool_def numeral_3_eq_3 numeral_2_eq_2)
qed

theorem fusion_multihybrid_is_tournament_witness:
  "\<exists>s. fusion_multihybrid_create ''m'' 4 1 = Inr s \<and>
    fst (fusion_multihybrid_lookup s \<lparr>updated = False\<rparr> [False, True, False, False] 0 True)"
proof -
  obtain s where s: "fusion_multihybrid_create ''m'' 4 1 = Inr s"
    by (simp add: fusion_multihybrid_create_def checks.simps check_ppow2_def IS_POW2_def)
  then have m: "mh_mask s = 0" "mh_meta s ! 0 ! 0 = 3" "mh_meta s ! 1 ! 0 = 1"
    by (auto simp: fusion_multihybrid_create_def checks_Inr_iff fusion_t.defs fusion_multihybrid_t.defs
        fusion_init_def MY2BC_WEAKLY_TAKEN_def)
  have "fst (fusion_multihybrid_lookup s \<lparr>updated = False\<rparr> [False, True, False, False] 0 True)"
    using fusion_multihybrid_is_tournament [OF s, of "[]" s "[False, True, False, False]" 0 0] m
    by (simp add: pc_mask_def tournament_def MY2BC_DIR_def)
  with s show ?thesis by blast
qed

text \<open>C12: a \<^verbatim>\<open>colt\<close> table with 8-bit counters, which the constructor accepts, does not learn: its
  counters are signed \<^verbatim>\<open>char\<close>s, so an entry initialised to 128 reads as -128, predicts taken and is
  never decremented, however many not-taken outcomes train it.\<close>

theorem fusion_colt_8bit_stuck:
  assumes "fusion_colt_create g nm n sz 8 hs bw = Inr s" and "even (current_ctr sc)"
    and "current_ctr sc < unat sz"
    and "s' = ((\<lambda>t. fst (fusion_colt_update t sc preds PC False our_pred)) ^^ k) s"
  shows "bit (ftable s' ! current_ctr sc) (unat (counter_shift s'))"
proof -
  let ?step = "\<lambda>t. fst (fusion_colt_update t sc preds PC False our_pred)"
  have s: "counter_shift s = 7" "ftable s ! current_ctr sc = 128" "length (ftable s) = unat sz"
    using assms by (auto simp: fusion_colt_create_def checks_Inr_iff fusion_t.defs fusion_colt_t.defs
        fusion_init_def shl_def)
  have stay: "counter_shift (?step t) = counter_shift t \<and> ftable (?step t) ! current_ctr sc = 128 \<and>
      length (ftable (?step t)) = length (ftable t)"
    if "ftable t ! current_ctr sc = 128" "current_ctr sc < length (ftable t)" for t
    using that by (simp add: fusion_colt_update_def Let_def case_prod_beta fusion_update_def colt_train_def)
  have "counter_shift ((?step ^^ k) s) = 7 \<and> ftable ((?step ^^ k) s) ! current_ctr sc = 128 \<and>
      length (ftable ((?step ^^ k) s)) = unat sz"
  proof (induction k)
    case (Suc k)
    then show ?case using stay [of "(?step ^^ k) s"] assms(3) by simp
  qed (use s in simp)
  then show ?thesis unfolding assms(4) by (simp add: bit_iff_odd_drop_bit)
qed

theorem fusion_colt_8bit_stuck_witness:
  "\<exists>s. fusion_colt_create 0 ''c'' 2 4 8 1 0 = Inr s \<and>
    bit (ftable (fst (fusion_colt_update s \<lparr>updated = False, current_ctr = 2, bhr = 0, lookup_bhr = 0\<rparr>
      [False, False] 0 False True)) ! 2) 7"
proof -
  let ?sc = "\<lparr>updated = False, current_ctr = 2, bhr = 0, lookup_bhr = 0\<rparr> :: fusion_colt_sc_t"
  obtain s where s: "fusion_colt_create 0 ''c'' 2 4 8 1 0 = Inr s"
    by (simp add: fusion_colt_create_def checks.simps check_ppow2_def IS_POW2_def check_nneg_def
        check_pos_leq_def)
  then have "counter_shift (fst (fusion_colt_update s ?sc [False, False] 0 False True)) = 7"
    by (auto simp: fusion_colt_create_def checks_Inr_iff fusion_t.defs fusion_colt_t.defs
        fusion_init_def fusion_colt_update_def fusion_update_def)
  with fusion_colt_8bit_stuck [OF s, of ?sc _ 1 "[False, False]" 0 True] s show ?thesis by simp
qed

end
