(* ===== verification/Btb_List.thy ===== *)
theory Btb_List
  imports Prelude
begin

text \<open>
  The doubly linked recency lists that \<^verbatim>\<open>btb-btac.cpp\<close> and \<^verbatim>\<open>btb-2levbtac.cpp\<close> build for each set,
  at the level of their \<^verbatim>\<open>prev\<close> and \<^verbatim>\<open>next\<close> pointers. The two files contain the same statements;
  they are modelled once, on an explicit store of entries. A pointer is an index into the store,
  \<^verbatim>\<open>NULL\<close> is None. The lemmas show that the pointer surgery implements moving an element to the
  front of a list and that the \<^verbatim>\<open>while (p)\<close> loops end.
\<close>

section \<open>Entries and pointer code\<close>

record btb_ent =
  ent_PC :: md_addr_t
  ent_target :: md_addr_t
  ent_prev :: "nat option"
  ent_next :: "nat option"

type_synonym btb_heap = "btb_ent list"

definition upd_at :: "btb_heap \<Rightarrow> nat \<Rightarrow> (btb_ent \<Rightarrow> btb_ent) \<Rightarrow> btb_heap" where
  "upd_at h x f = h[x := f (h ! x)]"

text \<open>One turn of the constructor's inner loop: entry \<open>x\<close> is put in front of \<^verbatim>\<open>set[i]\<close>.\<close>

definition link_front :: "nat \<Rightarrow> btb_heap \<times> nat option \<Rightarrow> btb_heap \<times> nat option" where
  "link_front x = (\<lambda>(h, hd). case hd of
       None \<Rightarrow> (h, Some x)
     | Some q \<Rightarrow> (upd_at (upd_at h x (\<lambda>e. e\<lparr>ent_next := hd\<rparr>)) q (\<lambda>e. e\<lparr>ent_prev := Some x\<rparr>), Some x))"

text \<open>The search loop. It returns at all (outer option) only if the list is not cyclic.\<close>

partial_function (option) find_ent :: "btb_heap \<Rightarrow> md_addr_t \<Rightarrow> nat option \<Rightarrow> nat option option" where
  "find_ent h t p =
     (case p of None \<Rightarrow> Some None
      | Some x \<Rightarrow> if ent_PC (h ! x) = t then Some (Some x) else find_ent h t (ent_next (h ! x)))"

text \<open>The victim loop: the last entry for policy \<^verbatim>\<open>'l'\<close>, the one at \<^verbatim>\<open>randpos\<close> for \<^verbatim>\<open>'r'\<close>.\<close>

partial_function (option) find_victim :: "char \<Rightarrow> nat \<Rightarrow> btb_heap \<Rightarrow> nat \<Rightarrow> nat option \<Rightarrow> nat option option" where
  "find_victim policy randpos h pos p =
     (case p of None \<Rightarrow> Some None
      | Some x \<Rightarrow>
          if policy = CHR ''l'' \<and> ent_next (h ! x) = None then Some (Some x)
          else if policy = CHR ''r'' \<and> pos = randpos then Some (Some x)
          else find_victim policy randpos h (pos + 1) (ent_next (h ! x)))"

text \<open>The splice: unlink \<open>x\<close> and put it in front, unless it is there already.\<close>

definition to_front :: "nat \<Rightarrow> btb_heap \<times> nat option \<Rightarrow> btb_heap \<times> nat option" where
  "to_front x = (\<lambda>(h, hd). case ent_prev (h ! x) of
       None \<Rightarrow> (h, hd)
     | Some q \<Rightarrow>
        (let h1 = upd_at h q (\<lambda>e. e\<lparr>ent_next := ent_next (h ! x)\<rparr>);
             h2 = (case ent_next (h1 ! x) of None \<Rightarrow> h1
                   | Some n \<Rightarrow> upd_at h1 n (\<lambda>e. e\<lparr>ent_prev := ent_prev (h1 ! x)\<rparr>));
             h3 = (case hd of None \<Rightarrow> h2 | Some f \<Rightarrow> upd_at h2 f (\<lambda>e. e\<lparr>ent_prev := Some x\<rparr>));
             h4 = upd_at h3 x (\<lambda>e. e\<lparr>ent_prev := None\<rparr>);
             h5 = upd_at h4 x (\<lambda>e. e\<lparr>ent_next := hd\<rparr>)
         in (h5, Some x)))"

definition touch :: "nat \<Rightarrow> md_addr_t \<Rightarrow> btb_heap \<times> nat option \<Rightarrow> btb_heap \<times> nat option" where
  "touch x oPC = (\<lambda>(h, hd). to_front x (upd_at h x (\<lambda>e. e\<lparr>ent_target := oPC\<rparr>), hd))"

definition install :: "nat \<Rightarrow> md_addr_t \<Rightarrow> md_addr_t \<Rightarrow> btb_heap \<times> nat option \<Rightarrow> btb_heap \<times> nat option" where
  "install x t oPC = (\<lambda>(h, hd). to_front x (upd_at h x (\<lambda>e. e\<lparr>ent_target := oPC, ent_PC := t\<rparr>), hd))"

section \<open>List segments\<close>

fun dlseg :: "btb_heap \<Rightarrow> nat option \<Rightarrow> nat option \<Rightarrow> nat list \<Rightarrow> nat option \<Rightarrow> bool" where
  "dlseg h prv p [] q \<longleftrightarrow> p = q"
| "dlseg h prv p (x # xs) q \<longleftrightarrow> p = Some x \<and> x < length h \<and> ent_prev (h ! x) = prv \<and>
     dlseg h (Some x) (ent_next (h ! x)) xs q"

abbreviation dll :: "btb_heap \<Rightarrow> nat option \<Rightarrow> nat list \<Rightarrow> bool" where
  "dll h p xs \<equiv> dlseg h None p xs None"

definition last_of :: "nat option \<Rightarrow> nat list \<Rightarrow> nat option" where
  "last_of prv xs = (if xs = [] then prv else Some (last xs))"

lemma length_upd_at [simp]: "length (upd_at h x f) = length h"
  by (simp add: upd_at_def)

lemma upd_at_nth [simp]: "x < length h \<Longrightarrow> upd_at h x f ! y = (if x = y then f (h ! x) else h ! y)"
  by (simp add: upd_at_def nth_list_update)

lemma dlseg_append:
  "dlseg h prv p (xs @ ys) q \<longleftrightarrow> (\<exists>r. dlseg h prv p xs r \<and> dlseg h (last_of prv xs) r ys q)"
proof (induction xs arbitrary: prv p)
  case Nil
  then show ?case by (simp add: last_of_def)
next
  case (Cons x xs)
  then show ?case by (simp add: last_of_def)
qed

lemma dlseg_less: "dlseg h prv p xs q \<Longrightarrow> x \<in> set xs \<Longrightarrow> x < length h"
  by (induction h prv p xs q rule: dlseg.induct) auto

text \<open>Changes at a node outside a segment, and of the fields the segment does not constrain.\<close>

lemma dlseg_frame:
  "y \<notin> set xs \<Longrightarrow> dlseg (upd_at h y f) prv p xs q = dlseg h prv p xs q"
  by (induction xs arbitrary: prv p) (auto simp: upd_at_def)

lemma dlseg_cong:
  "length h' = length h \<Longrightarrow> (\<And>x. x \<in> set xs \<Longrightarrow> h' ! x = h ! x) \<Longrightarrow>
   dlseg h' prv p xs q = dlseg h prv p xs q"
  by (induction xs arbitrary: prv p) auto

lemma dlseg_data:
  assumes "\<And>e. ent_prev (f e) = ent_prev e" and "\<And>e. ent_next (f e) = ent_next e"
  shows "dlseg (upd_at h y f) prv p xs q = dlseg h prv p xs q"
proof (cases "y < length h")
  case True
  then show ?thesis using assms by (induction xs arbitrary: prv p) auto
qed (simp add: upd_at_def list_update_beyond)

lemma dlseg_set_prev:
  assumes "dlseg h prv p (x # xs) q" and "x \<notin> set xs"
  shows "dlseg (upd_at h x (\<lambda>e. e\<lparr>ent_prev := v\<rparr>)) v p (x # xs) q"
  using assms dlseg_frame [OF assms(2), of h "\<lambda>e. e\<lparr>ent_prev := v\<rparr>"] by simp

lemma dlseg_set_next:
  assumes "dlseg h prv p (xs @ [x]) q" and "x \<notin> set xs"
  shows "dlseg (upd_at h x (\<lambda>e. e\<lparr>ent_next := v\<rparr>)) prv p (xs @ [x]) v"
  using assms dlseg_frame [OF assms(2), of h "\<lambda>e. e\<lparr>ent_next := v\<rparr>"]
  by (auto simp: dlseg_append)

lemma dlseg_head: "dlseg h prv p (x # xs) q \<Longrightarrow> p = Some x" by simp

section \<open>The pointer code implements list operations\<close>

text \<open>The list a head pointer denotes, reading at most \<open>n\<close> nodes.\<close>

fun walk :: "btb_heap \<Rightarrow> nat \<Rightarrow> nat option \<Rightarrow> nat list" where
  "walk h 0 p = []"
| "walk h (Suc n) None = []"
| "walk h (Suc n) (Some x) = x # walk h n (ent_next (h ! x))"

lemma walk_dll: "dlseg h prv p xs None \<Longrightarrow> length xs \<le> n \<Longrightarrow> walk h n p = xs"
proof (induction xs arbitrary: n prv p)
  case Nil
  then show ?case by (cases n) simp_all
next
  case (Cons x xs)
  then show ?case by (cases n) auto
qed

lemma link_front_dll:
  assumes "dll h p xs" and "x < length h" and "distinct (x # xs)"
    and "h ! x = \<lparr>ent_PC = 0, ent_target = 0, ent_prev = None, ent_next = None\<rparr>"
  shows "case link_front x (h, p) of (h', p') \<Rightarrow> dll h' p' (x # xs) \<and> length h' = length h \<and>
    (\<forall>y. y \<notin> insert x (set xs) \<longrightarrow> h' ! y = h ! y)"
proof (cases xs)
  case Nil
  then show ?thesis using assms by (simp add: link_front_def)
next
  case (Cons q qs)
  let ?h1 = "upd_at h x (\<lambda>e. e\<lparr>ent_next := Some q\<rparr>)"
  let ?h2 = "upd_at ?h1 q (\<lambda>e. e\<lparr>ent_prev := Some x\<rparr>)"
  have p: "p = Some q" "q < length h" "x \<noteq> q" using assms Cons by auto
  show ?thesis using assms Cons p dlseg_frame [of x xs h] by (auto simp: link_front_def dlseg_frame)
qed

lemma find_ent_dll:
  assumes "dlseg h prv p xs None"
  shows "find_ent h t p = Some (find (\<lambda>x. ent_PC (h ! x) = t) xs)"
  using assms
proof (induction xs arbitrary: prv p)
  case Nil
  then show ?case by (simp add: find_ent.simps)
next
  case (Cons x xs)
  then show ?case by (subst find_ent.simps) auto
qed

lemma find_victim_lru:
  assumes "dlseg h prv p xs None" and "xs \<noteq> []"
  shows "find_victim (CHR ''l'') r h k p = Some (Some (last xs))"
  using assms
proof (induction xs arbitrary: prv p k)
  case (Cons x xs)
  then show ?case by (subst find_victim.simps) (cases xs; auto)
qed simp

lemma find_victim_random:
  assumes "dlseg h prv p xs None" and "k \<le> r" and "r < k + length xs"
  shows "find_victim (CHR ''r'') r h k p = Some (Some (xs ! (r - k)))"
  using assms
proof (induction xs arbitrary: prv p k)
  case (Cons x xs)
  show ?case
  proof (cases "k = r")
    case False
    then have "r - k = Suc (r - Suc k)" using Cons.prems(2) by simp
    then show ?thesis using Cons.prems False Cons.IH [of "Some x" "ent_next (h ! x)" "Suc k"]
      by (subst find_victim.simps) auto
  qed (use Cons.prems in \<open>subst find_victim.simps, auto\<close>)
qed simp

text \<open>Any other policy runs off the end of the list.\<close>

lemma find_victim_none:
  assumes "dlseg h prv p xs None" and "policy \<noteq> CHR ''l''" and "policy \<noteq> CHR ''r''"
  shows "find_victim policy r h k p = Some None"
  using assms
proof (induction xs arbitrary: prv p k)
  case Nil
  then show ?case by (simp add: find_victim.simps)
next
  case (Cons x xs)
  then show ?case by (subst find_victim.simps) auto
qed

text \<open>Moving to the front. The list \<open>ys @ x # zs\<close> becomes \<open>x # ys @ zs\<close>.\<close>

lemma to_front_dll:
  assumes d: "dll h p (ys @ x # zs)" and dist: "distinct (ys @ x # zs)"
    and r: "to_front x (h, p) = (h', p')"
  shows "dll h' p' (x # ys @ zs) \<and> length h' = length h \<and>
    (\<forall>y. y \<notin> set (ys @ x # zs) \<longrightarrow> h' ! y = h ! y) \<and>
    (\<forall>y < length h. ent_PC (h' ! y) = ent_PC (h ! y) \<and> ent_target (h' ! y) = ent_target (h ! y))"
proof (cases ys)
  case Nil
  then show ?thesis using d r by (auto simp: to_front_def)
next
  case (Cons f fs)
  define l where "l = last ys"
  have ysl: "butlast ys @ [l] = ys" using Cons by (simp add: l_def)
  then have l: "l \<in> set ys" "l \<notin> set (butlast ys)"
    using dist by (metis in_set_conv_decomp, metis distinct_append not_distinct_conv_prefix)
  define nx where "nx = ent_next (h ! x)"
  have x: "x < length h" "ent_prev (h ! x) = Some l" "dlseg h (Some x) nx zs None"
    and ys: "dlseg h None p ys (Some x)" and p: "p = Some f"
    using d Cons by (auto simp: dlseg_append last_of_def l_def nx_def)
  have lt: "l < length h" "f < length h" using dlseg_less [OF ys] l(1) Cons by auto
  have ne: "x \<noteq> l" "l \<notin> set zs" "x \<notin> set ys" "x \<notin> set zs" "x \<noteq> f"
    using dist l(1) Cons by auto
  define h1 where "h1 = upd_at h l (\<lambda>e. e\<lparr>ent_next := nx\<rparr>)"
  have h1: "dlseg h1 None p ys nx" "dlseg h1 (Some x) nx zs None" "h1 ! x = h ! x" "length h1 = length h"
    using dlseg_set_next [of h None p "butlast ys" l "Some x" nx] ys ysl l(2) x(3) ne lt(1)
    by (simp_all add: h1_def dlseg_frame)
  define h2 where "h2 = (case nx of None \<Rightarrow> h1 | Some n \<Rightarrow> upd_at h1 n (\<lambda>e. e\<lparr>ent_prev := Some l\<rparr>))"
  have h2: "dlseg h2 None p (ys @ zs) None \<and> h2 ! x = h ! x \<and> length h2 = length h"
  proof (cases zs)
    case Nil
    then show ?thesis using h1 by (simp add: h2_def)
  next
    case (Cons n ns)
    then have n: "nx = Some n" "n < length h1" "n \<notin> set ys" "n \<notin> set ns" "n \<noteq> x"
      using h1 dist by auto
    then show ?thesis using h1 ysl dlseg_set_prev [of h1 "Some x" nx n ns None "Some l"] Cons
      by (auto simp: h2_def dlseg_append last_of_def l_def dlseg_frame simp del: dlseg.simps)
  qed
  define h3 where "h3 = upd_at h2 f (\<lambda>e. e\<lparr>ent_prev := Some x\<rparr>)"
  have h3: "dlseg h3 (Some x) p (ys @ zs) None" "length h3 = length h" "h3 ! x = h ! x"
    using h2 dlseg_set_prev [of h2 None p f "fs @ zs" None "Some x"] Cons dist ne(5) lt(2)
    by (simp_all add: h3_def)
  define h5 where "h5 = upd_at (upd_at h3 x (\<lambda>e. e\<lparr>ent_prev := None\<rparr>)) x (\<lambda>e. e\<lparr>ent_next := p\<rparr>)"
  have res: "h' = h5" "p' = Some x"
    using r x p lt(1) ne(1) h1(3)
    by (cases "ent_next (h ! x)";
      simp add: to_front_def h5_def h3_def h2_def h1_def nx_def Let_def)+
  have "dll h5 (Some x) (x # ys @ zs)"
    using h3 x(1) ne by (simp add: h5_def dlseg_frame)
  moreover have "length h5 = length h" using h3 by (simp add: h5_def)
  moreover have nx: "n < length h1 \<and> n \<in> set zs" if "nx = Some n" for n
    using h1(2) that by (cases zs) auto
  moreover have "h5 ! y = h ! y" if "y \<notin> set (ys @ x # zs)" for y
    using that l(1) Cons nx lt x(1) h1(4) h2 h3(2)
    by (auto simp: h5_def h3_def h2_def h1_def split: option.splits)
  moreover have "ent_PC (h5 ! y) = ent_PC (h ! y) \<and> ent_target (h5 ! y) = ent_target (h ! y)" for y
    using nx lt x(1) h1(4) h2 h3(2)
    by (auto simp: h5_def h3_def h2_def h1_def split: option.splits)
  ultimately show ?thesis using res by auto
qed

end
