(* ===== verification/Btb.thy ===== *)
theory Btb
  imports Btb_List
begin

text \<open>
  Branch target buffers: the base class \<^verbatim>\<open>BTB_t\<close> of \<^verbatim>\<open>zesto-bpred.cpp\<close>, the oracle of
  \<^verbatim>\<open>btb-perfect.cpp\<close> and the set-associative buffer of \<^verbatim>\<open>btb-btac.cpp\<close>, whose sets are the linked
  lists of \<open>Btb_List\<close>. The operations of the set-associative buffers that the two classes share are
  defined on the store and the set heads. Their contract is the one of a recency-ordered
  association list: \<open>lru_update\<close> is its specification.
\<close>

section \<open>The base class\<close>

record BTB_sc_t =
  updated :: bool

record BTB_t =
  name :: string
  type_ :: string
  bits :: cint
  num_hits :: counter_t
  lookups :: counter_t
  updates :: counter_t
  spec_updates :: counter_t
  num_nt :: counter_t
  frozen :: bool

definition BTB_init :: "string \<Rightarrow> string \<Rightarrow> cint \<Rightarrow> BTB_t" where
  "BTB_init nm ty b = \<lparr>name = nm, type_ = ty, bits = b, num_hits = 0, lookups = 0, updates = 0,
     spec_updates = 0, num_nt = 0, frozen = False\<rparr>"

definition BTB_count_lookup :: "'a BTB_t_scheme \<Rightarrow> 'a BTB_t_scheme" where
  "BTB_count_lookup s = (if frozen s then s else s\<lparr>lookups := lookups s + 1\<rparr>)"

definition BTB_count_nt :: "'a BTB_t_scheme \<Rightarrow> 'a BTB_t_scheme" where
  "BTB_count_nt s = (if frozen s then s else s\<lparr>num_nt := num_nt s + 1\<rparr>)"

text \<open>The statistics of an update, which the three classes count with the same statements.\<close>

definition BTB_count_update :: "'a BTB_t_scheme \<Rightarrow> 'b BTB_sc_t_scheme \<Rightarrow> md_addr_t \<Rightarrow> md_addr_t \<Rightarrow>
    'a BTB_t_scheme \<times> 'b BTB_sc_t_scheme" where
  "BTB_count_update s sc oPC our_target =
     (if \<not> updated sc
      then (if frozen s then s
            else s\<lparr>updates := updates s + 1, num_hits := num_hits s + of_bool (oPC = our_target)\<rparr>,
            sc\<lparr>updated := True\<rparr>)
      else (s, sc))"

definition BTB_spec_update :: "'a BTB_t_scheme \<Rightarrow> 'a BTB_t_scheme" where
  "BTB_spec_update s = (if frozen s then s else s\<lparr>spec_updates := spec_updates s + 1\<rparr>)"

definition BTB_recover :: "'a BTB_t_scheme \<Rightarrow> 'b BTB_sc_t_scheme \<Rightarrow> bool \<Rightarrow> 'a BTB_t_scheme" where
  "BTB_recover s sc outcome = s"

definition BTB_flush :: "'a BTB_t_scheme \<Rightarrow> 'b BTB_sc_t_scheme \<Rightarrow> 'a BTB_t_scheme" where
  "BTB_flush s sc = s"

definition BTB_reset_stats :: "'a BTB_t_scheme \<Rightarrow> 'a BTB_t_scheme" where
  "BTB_reset_stats s = s\<lparr>num_hits := 0, lookups := 0, updates := 0, spec_updates := 0, num_nt := 0\<rparr>"

definition BTB_get_cache :: BTB_sc_t where
  "BTB_get_cache = \<lparr>updated = False\<rparr>"

lemmas BTB_base_defs = BTB_count_lookup_def BTB_count_nt_def BTB_count_update_def BTB_spec_update_def

section \<open>The oracle (\<^verbatim>\<open>btb-perfect.cpp\<close>)\<close>

definition BTB_perfect_create :: BTB_t where
  "BTB_perfect_create = BTB_init ''perfect'' ''perfect'' 0"

definition BTB_perfect_lookup :: "BTB_t \<Rightarrow> BTB_sc_t \<Rightarrow> md_addr_t \<Rightarrow> md_addr_t \<Rightarrow> bool \<Rightarrow> bool \<Rightarrow>
    md_addr_t \<times> BTB_t \<times> BTB_sc_t" where
  "BTB_perfect_lookup s sc tPC oPC outcome our_pred =
     (if our_pred \<and> outcome then oPC else if our_pred then tPC else 0,
      BTB_count_lookup s, sc\<lparr>updated := False\<rparr>)"

definition BTB_perfect_update :: "BTB_t \<Rightarrow> BTB_sc_t \<Rightarrow> md_addr_t \<Rightarrow> md_addr_t \<Rightarrow> BTB_t \<times> BTB_sc_t" where
  "BTB_perfect_update s sc oPC our_target = BTB_count_update s sc oPC our_target"

section \<open>Sets\<close>

text \<open>The store and the head pointers of the sets, built by the constructor's two loops. The entry
  allocated for way \<open>j\<close> of set \<open>i\<close> has address \<open>i * ways + j\<close>.\<close>

type_synonym btb_sets = "btb_heap \<times> nat option list"

definition zero_ent :: btb_ent where
  "zero_ent = \<lparr>ent_PC = 0, ent_target = 0, ent_prev = None, ent_next = None\<rparr>"

definition build_set :: "nat \<Rightarrow> btb_sets \<Rightarrow> nat \<Rightarrow> btb_sets" where
  "build_set ways hs i =
     (let (h, p) = foldl (\<lambda>hp j. link_front (i * ways + j) hp) (fst hs, None) [0..<ways]
      in (h, (snd hs)[i := p]))"

definition build_sets :: "nat \<Rightarrow> nat \<Rightarrow> btb_sets" where
  "build_sets n ways = foldl (build_set ways) (replicate (n * ways) zero_ent, replicate n None) [0..<n]"

text \<open>What an update does to the set \<open>i\<close>: the entry \<open>p\<close> hit, or a victim, is rewritten and moved to
  the front. The result is None if a loop does not end and an error if the assertion fails.\<close>

definition btac_store :: "char \<Rightarrow> nat \<Rightarrow> md_addr_t \<Rightarrow> md_addr_t \<Rightarrow> nat \<Rightarrow> nat option \<Rightarrow> btb_sets \<Rightarrow>
    (fatal + btb_sets) option" where
  "btac_store policy randpos t oPC i p = (\<lambda>(h, hs). case p of
       Some x \<Rightarrow> (let (h', p') = touch x oPC (h, hs ! i) in Some (Inr (h', hs[i := p'])))
     | None \<Rightarrow> (case find_victim policy randpos h 0 (hs ! i) of
           None \<Rightarrow> None
         | Some None \<Rightarrow> Some (Inl Assert_failed)
         | Some (Some x) \<Rightarrow> (let (h', p') = install x t oPC (h, hs ! i) in Some (Inr (h', hs[i := p'])))))"

section \<open>The set-associative buffer (\<^verbatim>\<open>btb-btac.cpp\<close>)\<close>

record BTB_btac_sc_t = BTB_sc_t +
  sc_p :: "nat option"
  sc_set :: nat

record BTB_btac_t = BTB_t +
  num_entries :: cint
  num_ways :: cint
  tag_width :: cint
  tag_mask :: cint
  tag_shift :: cint
  replacement_policy :: char
  sets :: btb_sets
  btac_mask :: cint

definition policy_ok :: "char \<Rightarrow> bool" where
  "policy_ok c \<longleftrightarrow> c = CHR ''l'' \<or> c = CHR ''L'' \<or> c = CHR ''r'' \<or> c = CHR ''R''"

definition btac_bits :: "cint \<Rightarrow> cint \<Rightarrow> cint" where
  "btac_bits n ways = n * ways * (8 + (64 - log2_int n) + log2_int ways + 1)"

definition BTB_btac_create :: "string \<Rightarrow> cint \<Rightarrow> cint \<Rightarrow> cint \<Rightarrow> char \<Rightarrow> fatal + BTB_btac_t" where
  "BTB_btac_create arg_name arg_num_entries arg_num_ways arg_tag_width arg_replacement_policy =
     checks [(check_ppow2 arg_num_entries, Not_ppow2), (check_pos arg_num_ways, Not_pos),
             (policy_ok arg_replacement_policy, Bad_config)]
       (BTB_t.extend (BTB_init arg_name ''btac'' (btac_bits arg_num_entries arg_num_ways))
         (BTB_btac_t.fields arg_num_entries arg_num_ways arg_tag_width (shl 1 arg_tag_width - 1)
           (log2_int arg_num_entries) arg_replacement_policy
           (build_sets (unat arg_num_entries) (unat arg_num_ways)) (arg_num_entries - 1)))"

definition btac_tag :: "BTB_btac_t \<Rightarrow> md_addr_t \<Rightarrow> md_addr_t" where
  "btac_tag s PC = drop_bit (unat (tag_shift s)) PC AND scast (tag_mask s)"

definition btac_index :: "BTB_btac_t \<Rightarrow> md_addr_t \<Rightarrow> nat" where
  "btac_index s PC = unat (pc_mask PC (btac_mask s))"

definition BTB_btac_lookup :: "BTB_btac_t \<Rightarrow> BTB_btac_sc_t \<Rightarrow> md_addr_t \<Rightarrow>
    (md_addr_t \<times> BTB_btac_t \<times> BTB_btac_sc_t) option" where
  "BTB_btac_lookup s sc PC =
     (let i = btac_index s PC
      in case find_ent (fst (sets s)) (btac_tag s PC) (snd (sets s) ! i) of
           None \<Rightarrow> None
         | Some p \<Rightarrow> Some (case p of None \<Rightarrow> 0 | Some x \<Rightarrow> ent_target (fst (sets s) ! x),
                          BTB_count_lookup s, sc\<lparr>updated := False, sc_set := i, sc_p := p\<rparr>))"

definition BTB_btac_update :: "nat \<Rightarrow> BTB_btac_t \<Rightarrow> BTB_btac_sc_t \<Rightarrow> md_addr_t \<Rightarrow> md_addr_t \<Rightarrow>
    md_addr_t \<Rightarrow> bool \<Rightarrow> bool \<Rightarrow> (fatal + BTB_btac_t \<times> BTB_btac_sc_t) option" where
  "BTB_btac_update rnd s sc PC oPC our_target outcome our_pred =
     (if \<not> outcome then Some (Inr (BTB_count_nt s, sc))
      else let (s1, sc1) = BTB_count_update s sc oPC our_target;
               i = btac_index s PC;
               found = (if \<not> our_pred then find_ent (fst (sets s)) (btac_tag s PC) (snd (sets s) ! i)
                        else Some (sc_p sc1))
           in case found of
                None \<Rightarrow> None
              | Some p \<Rightarrow>
                 (let sc2 = (if \<not> our_pred then sc1\<lparr>sc_set := i, sc_p := p\<rparr> else sc1)
                  in map_option (map_sum id (\<lambda>st. (s1\<lparr>sets := st\<rparr>, sc2)))
                       (btac_store (replacement_policy s) (rnd mod unat (num_ways s)) (btac_tag s PC) oPC
                         (sc_set sc2) p (sets s))))"

definition BTB_btac_get_cache :: BTB_btac_sc_t where
  "BTB_btac_get_cache = \<lparr>updated = False, sc_p = None, sc_set = 0\<rparr>"

section \<open>Invariant and abstraction\<close>

text \<open>\<open>nodes\<close> is the list of a set; set \<open>i\<close> owns the entries \<open>i * ways\<close> to \<open>i * ways + ways - 1\<close>;
  \<open>contents\<close> are its tags and targets, most recent first.\<close>

definition nodes :: "nat \<Rightarrow> btb_sets \<Rightarrow> nat \<Rightarrow> nat list" where
  "nodes ways st i = walk (fst st) ways (snd st ! i)"

definition set_ok :: "nat \<Rightarrow> btb_sets \<Rightarrow> nat \<Rightarrow> bool" where
  "set_ok ways st i \<longleftrightarrow> dll (fst st) (snd st ! i) (nodes ways st i) \<and> distinct (nodes ways st i) \<and>
     set (nodes ways st i) = set [i * ways..<i * ways + ways]"

definition sets_ok :: "nat \<Rightarrow> nat \<Rightarrow> btb_sets \<Rightarrow> bool" where
  "sets_ok n ways st \<longleftrightarrow> length (fst st) = n * ways \<and> length (snd st) = n \<and> 0 < ways \<and>
     (\<forall>i \<in> set [0..<n]. set_ok ways st i)"

definition contents :: "nat \<Rightarrow> btb_sets \<Rightarrow> nat \<Rightarrow> (md_addr_t \<times> md_addr_t) list" where
  "contents ways st i = map (\<lambda>x. (ent_PC (fst st ! x), ent_target (fst st ! x))) (nodes ways st i)"

text \<open>The specification: a list of tag and target in order of recency.\<close>

definition lru_lookup :: "md_addr_t \<Rightarrow> (md_addr_t \<times> md_addr_t) list \<Rightarrow> md_addr_t" where
  "lru_lookup t es = (case map_of es t of None \<Rightarrow> 0 | Some a \<Rightarrow> a)"

definition lru_update :: "md_addr_t \<Rightarrow> md_addr_t \<Rightarrow> (md_addr_t \<times> md_addr_t) list \<Rightarrow>
    (md_addr_t \<times> md_addr_t) list" where
  "lru_update t a es = (t, a) #
     (if t \<in> fst ` set es then takeWhile (\<lambda>e. fst e \<noteq> t) es @ tl (dropWhile (\<lambda>e. fst e \<noteq> t) es)
      else butlast es)"

lemma length_walk: "length (walk h n p) \<le> n"
  by (induction h n p rule: walk.induct) auto

lemma nodes_disjoint:
  assumes "set_ok ways st i" and "set_ok ways st j" and "i \<noteq> j"
  shows "set (nodes ways st i) \<inter> set (nodes ways st j) = {}"
proof -
  have "i * ways + ways \<le> j * ways \<or> j * ways + ways \<le> i * ways"
  proof (cases "i < j")
    case True
    then have "Suc i * ways \<le> j * ways" by (intro mult_le_mono1) simp
    then show ?thesis by simp
  next
    case False
    then have "Suc j * ways \<le> i * ways" using assms(3) by (intro mult_le_mono1) simp
    then show ?thesis by simp
  qed
  then show ?thesis using assms(1,2) by (auto simp: set_ok_def)
qed

text \<open>Rewriting an entry of set \<open>i\<close> and moving it to the front keeps every set well-formed and changes
  nothing else.\<close>

lemma front_sets_ok:
  assumes ok: "sets_ok n ways (h, hs)" and i: "i < n" and xs: "nodes ways (h, hs) i = ys @ x # zs"
    and f: "\<And>e. ent_prev (f e) = ent_prev e" "\<And>e. ent_next (f e) = ent_next e"
    and r: "to_front x (upd_at h x f, hs ! i) = (h', p')"
  shows "sets_ok n ways (h', hs[i := p'])"
    and "contents ways (h', hs[i := p']) i =
      (ent_PC (f (h ! x)), ent_target (f (h ! x))) #
      map (\<lambda>y. (ent_PC (h ! y), ent_target (h ! y))) (ys @ zs)"
    and "j \<noteq> i \<Longrightarrow> j < n \<Longrightarrow> contents ways (h', hs[i := p']) j = contents ways (h, hs) j"
proof -
  let ?st = "(h, hs)" and ?st' = "(h', hs[i := p'])"
  have si: "set_ok ways ?st j" if "j < n" for j using ok that by (simp add: sets_ok_def)
  have len: "length h = n * ways" "length hs = n" using ok by (simp_all add: sets_ok_def)
  have d: "dll (upd_at h x f) (hs ! i) (ys @ x # zs)" "distinct (ys @ x # zs)"
    using si [OF i] xs dlseg_data [OF f] by (simp_all add: set_ok_def)
  have xl: "x < length h" using d(1) dlseg_less [of _ _ _ _ _ x] by fastforce
  note t = to_front_dll [OF d r]
  have keep: "h' ! y = h ! y" if "y \<notin> set (ys @ x # zs)" for y
    using t that xl by auto
  have W: "length (nodes ways ?st j) = ways" if "j < n" for j
  proof -
    have "distinct (nodes ways ?st j)" "set (nodes ways ?st j) = set [j * ways..<j * ways + ways]"
      using si [OF that] by (simp_all add: set_ok_def)
    then show ?thesis by (metis add_diff_cancel_left' distinct_card distinct_upt length_upt)
  qed
  have ni: "nodes ways ?st' i = x # ys @ zs"
    using t W [OF i] xs i len by (simp add: nodes_def walk_dll [of _ None])
  have nj: "nodes ways ?st' j = nodes ways ?st j \<and> set_ok ways ?st' j \<and>
      (\<forall>y \<in> set (nodes ways ?st j). h' ! y = h ! y)" if "j \<noteq> i" "j < n" for j
  proof -
    have same: "h' ! y = h ! y" if "y \<in> set (nodes ways ?st j)" for y
      using nodes_disjoint [OF si [OF i] si [OF \<open>j < n\<close>]] \<open>j \<noteq> i\<close> xs that by (intro keep) auto
    have dj: "dll h' (hs ! j) (nodes ways ?st j)"
    proof -
      have "length h' = length h" using t by simp
      from dlseg_cong [OF this, of "nodes ways ?st j"] same show ?thesis
        using si [OF \<open>j < n\<close>] unfolding set_ok_def by auto
    qed
    have "nodes ways ?st' j = nodes ways ?st j"
      using walk_dll [OF dj] W [OF \<open>j < n\<close>] that by (simp add: nodes_def)
    then show ?thesis using dj si [OF \<open>j < n\<close>] that same by (simp add: set_ok_def)
  qed
  have "set_ok ways ?st' i"
    using ni t si [OF i] xs d(2) i len by (auto simp: set_ok_def)
  then have "set_ok ways ?st' j" if "j < n" for j using nj [of j] that by (cases "j = i") auto
  then show "sets_ok n ways ?st'" using ok t len by (simp add: sets_ok_def)
  have "ent_PC (h' ! y) = ent_PC (h ! y) \<and> ent_target (h' ! y) = ent_target (h ! y)"
    if "y \<in> set (ys @ zs)" for y
  proof -
    have "y < length h" "y \<noteq> x" using that d dlseg_less [of _ _ _ _ _ y] by fastforce+
    then show ?thesis using t xl by auto
  qed
  moreover have "ent_PC (h' ! x) = ent_PC (f (h ! x))" "ent_target (h' ! x) = ent_target (f (h ! x))"
    using t xl by auto
  ultimately show "contents ways ?st' i = (ent_PC (f (h ! x)), ent_target (f (h ! x))) #
      map (\<lambda>y. (ent_PC (h ! y), ent_target (h ! y))) (ys @ zs)"
    unfolding contents_def ni by (simp del: append_assoc)
  show "contents ways ?st' j = contents ways ?st j" if "j \<noteq> i" "j < n"
    using nj [OF that] by (simp add: contents_def)
qed

lemma find_split:
  "find P xs = Some x \<Longrightarrow> \<exists>ys zs. xs = ys @ x # zs \<and> P x \<and> (\<forall>y \<in> set ys. \<not> P y)"
proof (induction xs)
  case (Cons a xs)
  show ?case
  proof (cases "P a")
    case True
    then show ?thesis using Cons.prems by (intro exI [of _ "[]"] exI [of _ xs]) auto
  next
    case False
    then obtain ys zs where "xs = ys @ x # zs" "P x" "\<forall>y \<in> set ys. \<not> P y" using Cons by auto
    then show ?thesis using False by (intro exI [of _ "a # ys"] exI [of _ zs]) auto
  qed
qed simp

lemma find_in_set: "find P xs = Some x \<Longrightarrow> x \<in> set xs"
  by (drule find_split) auto

lemma lru_update_hit:
  assumes "\<forall>y \<in> set ys. fst (g y) \<noteq> t" and "fst (g x) = t"
  shows "lru_update t a (map g (ys @ x # zs)) = (t, a) # map g (ys @ zs)"
proof -
  have "takeWhile (\<lambda>e. fst e \<noteq> t) (map g (ys @ x # zs)) = map g ys"
    "dropWhile (\<lambda>e. fst e \<noteq> t) (map g (ys @ x # zs)) = map g (x # zs)"
    using assms by (induction ys) auto
  then show ?thesis using assms(2) by (force simp: lru_update_def)
qed

lemma lru_update_miss:
  "\<forall>y \<in> set xs. fst (g y) \<noteq> t \<Longrightarrow> lru_update t a (map g xs) = (t, a) # butlast (map g xs)"
  by (auto simp: lru_update_def)

text \<open>The search loop reads the list of the set.\<close>

lemma find_ent_nodes:
  assumes "sets_ok n ways st" and "i < n"
  shows "find_ent (fst st) t (snd st ! i) = Some (find (\<lambda>x. ent_PC (fst st ! x) = t) (nodes ways st i))"
proof -
  have "dll (fst st) (snd st ! i) (nodes ways st i)" using assms by (simp add: sets_ok_def set_ok_def)
  then show ?thesis by (rule find_ent_dll)
qed

lemma find_map_of:
  "map_of (map (\<lambda>x. (p x, q x)) xs) t = map_option q (find (\<lambda>x. p x = t) xs)"
  by (induction xs) auto

text \<open>Storing into a set whose entry was just searched for is the update of the specification, for
  the LRU policy.\<close>

lemma btac_store_lru:
  assumes ok: "sets_ok n ways st" and i: "i < n"
    and p: "p = find (\<lambda>x. ent_PC (fst st ! x) = t) (nodes ways st i)"
  shows "\<exists>st'. btac_store (CHR ''l'') r t a i p st = Some (Inr st') \<and> sets_ok n ways st' \<and>
    contents ways st' i = lru_update t a (contents ways st i) \<and>
    (\<forall>j<n. j \<noteq> i \<longrightarrow> contents ways st' j = contents ways st j)"
proof -
  obtain h hs where st: "st = (h, hs)" by (cases st)
  let ?g = "\<lambda>x. (ent_PC (h ! x), ent_target (h ! x))"
  have c: "contents ways st i = map ?g (nodes ways st i)" by (simp add: contents_def st)
  have si: "set_ok ways st i" and w: "0 < ways" using ok i by (simp_all add: sets_ok_def)
  show ?thesis
  proof (cases p)
    case (Some x)
    obtain ys zs where xs: "nodes ways st i = ys @ x # zs" "ent_PC (h ! x) = t"
      "\<forall>y \<in> set ys. ent_PC (h ! y) \<noteq> t"
      using find_split [of _ _ x] p Some st by fastforce
    obtain h' p' where r: "to_front x (upd_at h x (\<lambda>e. e\<lparr>ent_target := a\<rparr>), hs ! i) = (h', p')"
      by force
    note f = front_sets_ok [OF ok [unfolded st] i xs(1) [unfolded st] _ _ r]
    have "btac_store (CHR ''l'') r t a i p st = Some (Inr (h', hs[i := p']))"
      using r Some st by (simp add: btac_store_def touch_def)
    moreover have "contents ways (h', hs[i := p']) i = lru_update t a (contents ways st i)"
      using f(2) lru_update_hit [of ys ?g t x a zs] xs unfolding c by simp
    ultimately show ?thesis using f(1,3) st by auto
  next
    case None
    have ne: "nodes ways st i \<noteq> []" using si w by (auto simp: set_ok_def)
    then obtain ys x where xs: "nodes ways st i = ys @ [x]" by (metis rev_exhaust)
    have miss: "\<forall>y \<in> set (nodes ways st i). ent_PC (h ! y) \<noteq> t"
      using None p st by (auto simp: find_None_iff)
    have v: "find_victim (CHR ''l'') r h 0 (hs ! i) = Some (Some x)"
      using find_victim_lru [OF _ ne, of h None "hs ! i" r 0] si st xs by (simp add: set_ok_def)
    obtain h' p' where r: "to_front x (upd_at h x (\<lambda>e. e\<lparr>ent_target := a, ent_PC := t\<rparr>), hs ! i) = (h', p')"
      by force
    note f = front_sets_ok [OF ok [unfolded st] i xs [unfolded st] _ _ r]
    have "btac_store (CHR ''l'') r t a i p st = Some (Inr (h', hs[i := p']))"
      using r None st v by (simp add: btac_store_def install_def)
    moreover have "contents ways (h', hs[i := p']) i = lru_update t a (contents ways st i)"
      using f(2) lru_update_miss [of "nodes ways st i" ?g t a] miss xs unfolding c by simp
    ultimately show ?thesis using f(1,3) st by auto
  qed
qed

text \<open>Storing through the pointer an earlier look-up left is safe for both policies: an entry never
  leaves its set.\<close>

lemma btac_store_safe:
  assumes ok: "sets_ok n ways st" and i: "i < n" and policy: "policy = CHR ''l'' \<or> policy = CHR ''r''"
    and r: "r < ways" and p: "\<And>x. p = Some x \<Longrightarrow> x \<in> set [i * ways..<i * ways + ways]"
  shows "\<exists>st'. btac_store policy r t a i p st = Some (Inr st') \<and> sets_ok n ways st'"
proof -
  obtain h hs where st: "st = (h, hs)" by (cases st)
  have si: "set_ok ways st i" and w: "0 < ways" using ok i by (simp_all add: sets_ok_def)
  have len: "length (nodes ways st i) = ways"
    using si by (metis add_diff_cancel_left' distinct_card distinct_upt length_upt set_ok_def)
  have keep: "sets_ok n ways (fst hp, hs[i := snd hp])"
    if x: "x \<in> set (nodes ways st i)" and hp: "hp = to_front x (upd_at h x f, hs ! i)"
      and f: "\<And>e. ent_prev (f e) = ent_prev e" "\<And>e. ent_next (f e) = ent_next e" for x hp f
  proof -
    obtain ys zs where xs: "nodes ways st i = ys @ x # zs" using split_list [OF x] by blast
    obtain h' p' where "to_front x (upd_at h x f, hs ! i) = (h', p')" by force
    with front_sets_ok(1) [OF ok [unfolded st] i xs [unfolded st] f] hp show ?thesis by simp
  qed
  show ?thesis
  proof (cases p)
    case (Some x)
    then have "x \<in> set (nodes ways st i)" using p [OF Some] si by (simp add: set_ok_def)
    from keep [OF this refl, of "\<lambda>e. e\<lparr>ent_target := a\<rparr>"]
    have "sets_ok n ways (fst (touch x a (h, hs ! i)), hs[i := snd (touch x a (h, hs ! i))])"
      by (simp add: touch_def)
    then show ?thesis using Some st by (simp add: btac_store_def case_prod_beta)
  next
    case None
    have d: "dll h (hs ! i) (nodes ways st i)" using si st by (simp add: set_ok_def)
    have "\<exists>x. find_victim policy r h 0 (hs ! i) = Some (Some x) \<and> x \<in> set (nodes ways st i)"
    proof (cases "policy = CHR ''l''")
      case True
      have "nodes ways st i \<noteq> []" using len w by auto
      then show ?thesis using True find_victim_lru [OF d, of r 0] by simp
    next
      case False
      then show ?thesis using policy find_victim_random [OF d, of 0 r] len r by simp
    qed
    then obtain x where x: "find_victim policy r h 0 (hs ! i) = Some (Some x)" "x \<in> set (nodes ways st i)"
      by blast
    from keep [OF x(2) refl, of "\<lambda>e. e\<lparr>ent_target := a, ent_PC := t\<rparr>"]
    have "sets_ok n ways (fst (install x t a (h, hs ! i)), hs[i := snd (install x t a (h, hs ! i))])"
      by (simp add: install_def)
    then show ?thesis using None st x(1) by (simp add: btac_store_def case_prod_beta)
  qed
qed

section \<open>The constructor builds well-formed sets\<close>

lemma build_set_links:
  assumes "k \<le> ways" and "i * ways + ways \<le> length h"
    and "\<forall>y. i * ways \<le> y \<longrightarrow> y < i * ways + ways \<longrightarrow> h ! y = zero_ent"
  shows "case foldl (\<lambda>hp j. link_front (i * ways + j) hp) (h, None) [0..<k] of (h', p) \<Rightarrow>
    dll h' p (rev [i * ways..<i * ways + k]) \<and> length h' = length h \<and>
    (\<forall>y. y \<notin> set [i * ways..<i * ways + k] \<longrightarrow> h' ! y = h ! y)"
  using assms(1)
proof (induction k)
  case (Suc k)
  obtain h1 p1 where f: "foldl (\<lambda>hp j. link_front (i * ways + j) hp) (h, None) [0..<k] = (h1, p1)"
    by force
  have IH: "dll h1 p1 (rev [i * ways..<i * ways + k])" "length h1 = length h"
    "\<forall>y. y \<notin> set [i * ways..<i * ways + k] \<longrightarrow> h1 ! y = h ! y"
    using Suc.IH Suc.prems f by auto
  let ?x = "i * ways + k"
  have "h1 ! ?x = zero_ent" using IH(3) assms(3) Suc.prems by simp
  then have z: "h1 ! ?x = \<lparr>ent_PC = 0, ent_target = 0, ent_prev = None, ent_next = None\<rparr>"
    by (simp add: zero_ent_def)
  have "?x < length h1" "distinct (?x # rev [i * ways..<i * ways + k])"
    using IH(2) Suc.prems assms(2) by auto
  from link_front_dll [OF IH(1) this z] show ?case using f IH by (auto split: prod.splits)
qed simp

lemma build_set_ok:
  assumes "i < n" and "0 < ways" and "length (fst st) = n * ways" and "length (snd st) = n"
    and "\<forall>j<i. set_ok ways st j" and "\<forall>y. i * ways \<le> y \<longrightarrow> y < n * ways \<longrightarrow> fst st ! y = zero_ent"
    and "st' = build_set ways st i"
  shows "length (fst st') = n * ways \<and> length (snd st') = n \<and> (\<forall>j<Suc i. set_ok ways st' j) \<and>
    (\<forall>y. Suc i * ways \<le> y \<longrightarrow> y < n * ways \<longrightarrow> fst st' ! y = zero_ent)"
proof -
  obtain h hs where st: "st = (h, hs)" by (cases st)
  have le: "i * ways + ways \<le> n * ways"
  proof -
    have "Suc i * ways \<le> n * ways" using assms(1) by (intro mult_le_mono1) simp
    then show ?thesis by simp
  qed
  obtain h' p where f: "foldl (\<lambda>hp j. link_front (i * ways + j) hp) (h, None) [0..<ways] = (h', p)"
    by force
  have L: "dll h' p (rev [i * ways..<i * ways + ways])" "length h' = length h"
    "\<forall>y. y \<notin> set [i * ways..<i * ways + ways] \<longrightarrow> h' ! y = h ! y"
    using build_set_links [of ways ways i h] f assms le st by auto
  have st': "st' = (h', hs[i := p])" using assms(7) f st by (simp add: build_set_def)
  have ni: "nodes ways st' i = rev [i * ways..<i * ways + ways]"
    using walk_dll [OF L(1), of ways] assms(1,4) st by (simp add: nodes_def st')
  have "set_ok ways st' i" using L(1) ni assms(1,4) st by (simp add: set_ok_def st')
  moreover have "set_ok ways st' j" if "j < i" for j
  proof -
    have j: "set_ok ways st j" using assms(5) that by simp
    have "Suc j * ways \<le> i * ways" using that by (intro mult_le_mono1) simp
    then have same: "h' ! y = h ! y" if "y \<in> set (nodes ways st j)" for y
      using L(3) j that by (auto simp: set_ok_def)
    have "dll h' (hs ! j) (nodes ways st j)"
      using j dlseg_cong [OF L(2), of "nodes ways st j"] same st unfolding set_ok_def by auto
    moreover from this have "nodes ways st' j = nodes ways st j"
      using walk_dll [of h' None "hs ! j" "nodes ways st j" ways] that j st
      by (simp add: nodes_def st') (metis length_walk nodes_def fst_conv snd_conv)
    ultimately show ?thesis using j that by (simp add: set_ok_def st')
  qed
  ultimately have "\<forall>j<Suc i. set_ok ways st' j" by (auto simp: less_Suc_eq)
  moreover have "\<forall>y. Suc i * ways \<le> y \<longrightarrow> y < n * ways \<longrightarrow> h' ! y = zero_ent"
    using L(3) assms(6) st by auto
  ultimately show ?thesis using L(2) assms(3,4) st by (simp add: st')
qed

lemma build_sets_ok:
  assumes "0 < ways"
  shows "sets_ok n ways (build_sets n ways)"
proof -
  let ?st0 = "(replicate (n * ways) zero_ent, replicate n None)"
  have "length (fst (foldl (build_set ways) ?st0 [0..<k])) = n * ways \<and>
      length (snd (foldl (build_set ways) ?st0 [0..<k])) = n \<and>
      (\<forall>j<k. set_ok ways (foldl (build_set ways) ?st0 [0..<k]) j) \<and>
      (\<forall>y. k * ways \<le> y \<longrightarrow> y < n * ways \<longrightarrow> fst (foldl (build_set ways) ?st0 [0..<k]) ! y = zero_ent)"
    if "k \<le> n" for k
    using that
  proof (induction k)
    case (Suc k)
    define st where "st = foldl (build_set ways) ?st0 [0..<k]"
    have "foldl (build_set ways) ?st0 [0..<Suc k] = build_set ways st k" by (simp add: st_def)
    moreover have "k < n" using Suc.prems by simp
    ultimately show ?case
      using build_set_ok [of k n ways st, OF _ assms _ _ _ _ refl] Suc.IH unfolding st_def [symmetric] by auto
  qed simp
  from this [of n] show ?thesis using assms by (simp add: sets_ok_def build_sets_def)
qed

text \<open>The new entries have tag and target 0.\<close>

lemma link_front_tags:
  "link_front x (h, p) = (h', p') \<Longrightarrow> \<forall>y < length h. ent_PC (h ! y) = 0 \<Longrightarrow>
   length h' = length h \<and> (\<forall>y < length h. ent_PC (h' ! y) = 0)"
  unfolding link_front_def upd_at_def
  by (cases p) (auto, metis (no_types, lifting) btb_ent.select_convs(1) btb_ent.surjective
      btb_ent.update_convs(3,4) length_list_update nth_list_update_eq nth_list_update_neq)

lemma build_set_tags:
  assumes "\<forall>y < length h. ent_PC (h ! y) = 0"
  shows "case foldl (\<lambda>hp j. link_front (g j) hp) (h, p) js of (h', p') \<Rightarrow>
    length h' = length h \<and> (\<forall>y < length h. ent_PC (h' ! y) = 0)"
  using assms
proof (induction js arbitrary: h p)
  case (Cons j js)
  obtain h1 p1 where l: "link_front (g j) (h, p) = (h1, p1)" by force
  then show ?case using link_front_tags [OF l Cons.prems] Cons.IH [of h1 p1] by auto
qed simp

lemma build_sets_tags: "x < length (fst (build_sets n ways)) \<Longrightarrow> ent_PC (fst (build_sets n ways) ! x) = 0"
proof -
  have "\<forall>y < length (fst (foldl (build_set ways) st is)). ent_PC (fst (foldl (build_set ways) st is) ! y) = 0"
    if "\<forall>y < length (fst st). ent_PC (fst st ! y) = 0" for st "is"
    using that
  proof (induction "is" arbitrary: st)
    case (Cons i "is")
    show ?case
      using Cons.IH [of "build_set ways st i"] build_set_tags [OF Cons.prems, of "\<lambda>j. i * ways + j" None "[0..<ways]"]
      by (auto simp: build_set_def split: prod.splits)
  qed simp
  then show "x < length (fst (build_sets n ways)) \<Longrightarrow> ent_PC (fst (build_sets n ways) ! x) = 0"
    by (simp add: build_sets_def zero_ent_def)
qed

section \<open>Properties\<close>

definition BTB_btac_inv :: "BTB_btac_t \<Rightarrow> bool" where
  "BTB_btac_inv s \<longleftrightarrow> check_ppow2 (num_entries s) \<and> btac_mask s = num_entries s - 1 \<and>
     sets_ok (unat (num_entries s)) (unat (num_ways s)) (sets s)"

definition BTB_btac_sc_ok :: "BTB_btac_t \<Rightarrow> BTB_btac_sc_t \<Rightarrow> bool" where
  "BTB_btac_sc_ok s sc \<longleftrightarrow> sc_set sc < unat (num_entries s) \<and>
     (case sc_p sc of None \<Rightarrow> True
      | Some x \<Rightarrow> sc_set sc * unat (num_ways s) \<le> x \<and> x < sc_set sc * unat (num_ways s) + unat (num_ways s))"

lemma BTB_btac_create_inv:
  assumes "BTB_btac_create nm n w tw c = Inr s"
  shows "BTB_btac_inv s \<and> num_entries s = n \<and> num_ways s = w \<and> replacement_policy s = c"
proof -
  have "check_ppow2 n" "check_pos w" using assms by (auto simp: BTB_btac_create_def checks_Inr_iff)
  then have "0 < unat w" using sint_pos_iff [of w] by (simp add: check_pos_def not_le)
  then show ?thesis using assms build_sets_ok [of "unat w" "unat n"]
    by (auto simp: BTB_btac_create_def checks_Inr_iff BTB_btac_inv_def BTB_t.defs BTB_btac_t.defs
        BTB_init_def)
qed

lemma BTB_frame [simp]:
  "sets (BTB_count_lookup s) = sets s" "num_entries (BTB_count_lookup s) = num_entries s"
  "num_ways (BTB_count_lookup s) = num_ways s" "btac_mask (BTB_count_lookup s) = btac_mask s"
  "num_entries (fst (BTB_count_update s sc oPC t)) = num_entries s"
  "num_ways (fst (BTB_count_update s sc oPC t)) = num_ways s"
  "btac_mask (fst (BTB_count_update s sc oPC t)) = btac_mask s"
  "tag_shift (fst (BTB_count_update s sc oPC t)) = tag_shift s"
  "tag_mask (fst (BTB_count_update s sc oPC t)) = tag_mask s"
  "replacement_policy (fst (BTB_count_update s sc oPC t)) = replacement_policy s"
  "sc_set (snd (BTB_count_update s' sc' oPC t)) = sc_set sc'"
  "sc_p (snd (BTB_count_update s' sc' oPC t)) = sc_p sc'"
  "BTB_btac_inv (BTB_count_nt s) = BTB_btac_inv s"
  "BTB_btac_sc_ok (BTB_count_nt s) = BTB_btac_sc_ok s"
  by (auto simp: BTB_base_defs BTB_btac_inv_def BTB_btac_sc_ok_def fun_eq_iff split: option.splits)

lemma btac_index_less: "BTB_btac_inv s \<Longrightarrow> btac_index s PC < unat (num_entries s)"
  by (simp add: btac_index_def BTB_btac_inv_def)

text \<open>The look-up of a set is the look-up of its association list.\<close>

lemma BTB_btac_lookup_contents:
  assumes "BTB_btac_inv s"
  shows "\<exists>sc'. BTB_btac_lookup s sc PC =
    Some (lru_lookup (btac_tag s PC) (contents (unat (num_ways s)) (sets s) (btac_index s PC)),
          BTB_count_lookup s, sc') \<and> BTB_btac_sc_ok s sc'"
proof -
  let ?w = "unat (num_ways s)" and ?i = "btac_index s PC" and ?t = "btac_tag s PC"
  let ?xs = "nodes ?w (sets s) ?i"
  have ok: "sets_ok (unat (num_entries s)) ?w (sets s)" and i: "?i < unat (num_entries s)"
    using assms btac_index_less by (simp_all add: BTB_btac_inv_def)
  then have si: "set_ok ?w (sets s) ?i" by (simp add: sets_ok_def)
  let ?f = "find (\<lambda>x. ent_PC (fst (sets s) ! x) = ?t) ?xs"
  have "x \<in> set ?xs" if "?f = Some x" for x
    using find_in_set [OF that] .
  then have "BTB_btac_sc_ok s (sc\<lparr>updated := False, sc_set := ?i, sc_p := ?f\<rparr>)"
    using i si by (auto simp: BTB_btac_sc_ok_def set_ok_def split: option.splits)
  moreover have "BTB_btac_lookup s sc PC =
      Some (lru_lookup ?t (contents ?w (sets s) ?i), BTB_count_lookup s,
        sc\<lparr>updated := False, sc_set := ?i, sc_p := ?f\<rparr>)"
    using find_ent_nodes [OF ok i, of ?t]
    by (simp add: BTB_btac_lookup_def Let_def lru_lookup_def contents_def find_map_of split: option.split)
  ultimately show ?thesis by blast
qed

text \<open>Updates never fail nor loop for the policies the code implements, whatever look-up the state
  cache stems from.\<close>

lemma BTB_btac_update_safe:
  assumes "BTB_btac_inv s" and "BTB_btac_sc_ok s sc"
    and "replacement_policy s = CHR ''l'' \<or> replacement_policy s = CHR ''r''"
  shows "\<exists>s' sc'. BTB_btac_update rnd s sc PC oPC our_target outcome our_pred = Some (Inr (s', sc')) \<and>
    BTB_btac_inv s' \<and> BTB_btac_sc_ok s' sc' \<and> BTB_btac_sc_ok s' = BTB_btac_sc_ok s \<and>
    replacement_policy s' = replacement_policy s"
proof (cases outcome)
  case False
  have "replacement_policy (BTB_count_nt s) = replacement_policy s" by (simp add: BTB_count_nt_def)
  then show ?thesis using assms False by (simp add: BTB_btac_update_def)
next
  case True
  let ?w = "unat (num_ways s)" and ?i = "btac_index s PC" and ?t = "btac_tag s PC"
  let ?s1 = "fst (BTB_count_update s sc oPC our_target)" and ?sc1 = "snd (BTB_count_update s sc oPC our_target)"
  have ok: "sets_ok (unat (num_entries s)) ?w (sets s)" and i: "?i < unat (num_entries s)"
    using assms(1) btac_index_less by (simp_all add: BTB_btac_inv_def)
  then have si: "set_ok ?w (sets s) ?i" and w: "0 < ?w" by (simp_all add: sets_ok_def)
  define p where "p = (if our_pred then sc_p sc
    else find (\<lambda>x. ent_PC (fst (sets s) ! x) = ?t) (nodes ?w (sets s) ?i))"
  define j where "j = (if our_pred then sc_set sc else ?i)"
  have j: "j < unat (num_entries s)" using i assms(2) by (simp add: j_def BTB_btac_sc_ok_def)
  have p: "x \<in> set [j * ?w..<j * ?w + ?w]" if "p = Some x" for x
  proof (cases our_pred)
    case False
    then have "x \<in> set (nodes ?w (sets s) ?i)" using that find_in_set by (auto simp: p_def)
    then show ?thesis using False si by (simp add: j_def set_ok_def)
  qed (use that assms(2) in \<open>simp add: p_def j_def BTB_btac_sc_ok_def\<close>)
  obtain st' where st': "btac_store (replacement_policy s) (rnd mod ?w) ?t oPC j p (sets s) = Some (Inr st')"
    "sets_ok (unat (num_entries s)) ?w st'"
    using btac_store_safe [OF ok j assms(3) mod_less_divisor [OF w] p] by blast
  define sc2 where "sc2 = (if our_pred then ?sc1 else ?sc1\<lparr>sc_set := ?i, sc_p := p\<rparr>)"
  have u: "BTB_btac_update rnd s sc PC oPC our_target outcome our_pred = Some (Inr (?s1\<lparr>sets := st'\<rparr>, sc2))"
    using st'(1) find_ent_nodes [OF ok i, of ?t] True
    by (cases our_pred) (simp_all add: BTB_btac_update_def Let_def case_prod_beta p_def j_def sc2_def)
  have "BTB_btac_inv (?s1\<lparr>sets := st'\<rparr>)" using assms(1) st'(2) by (simp add: BTB_btac_inv_def)
  moreover have "sc_set sc2 = j" "sc_p sc2 = p" by (simp_all add: sc2_def j_def p_def)
  then have "BTB_btac_sc_ok (?s1\<lparr>sets := st'\<rparr>) sc2"
    using j p by (auto simp: BTB_btac_sc_ok_def split: option.split)
  moreover have "BTB_btac_sc_ok (?s1\<lparr>sets := st'\<rparr>) = BTB_btac_sc_ok s"
    by (auto simp: fun_eq_iff BTB_btac_sc_ok_def split: option.split)
  ultimately show ?thesis using u by simp
qed

text \<open>C14: the constructor also accepts the policies \<^verbatim>\<open>'L'\<close> and \<^verbatim>\<open>'R'\<close> (it tests \<^verbatim>\<open>tolower\<close>), which the
  replacement loop does not know. In a new buffer with either of them the first taken branch whose tag is
  not 0 (the tag of the empty entries) runs off the list and fails the assertion: predicted not taken with
  any state cache, or predicted taken with a cache whose look-up missed.\<close>

theorem BTB_btac_uppercase_policy_fails:
  assumes "BTB_btac_create nm n w tw c = Inr s" and "c = CHR ''L'' \<or> c = CHR ''R''" and "btac_tag s PC \<noteq> 0"
    and "our_pred \<Longrightarrow> sc_p sc = None \<and> sc_set sc < unat n"
  shows "BTB_btac_update rnd s sc PC oPC our_target True our_pred = Some (Inl Assert_failed)"
proof -
  let ?w = "unat (num_ways s)" and ?i = "btac_index s PC" and ?t = "btac_tag s PC"
  have inv: "BTB_btac_inv s" and c: "replacement_policy s = c" and n: "num_entries s = n"
    using BTB_btac_create_inv [OF assms(1)] by auto
  have ok: "sets_ok (unat (num_entries s)) ?w (sets s)" and i: "?i < unat (num_entries s)"
    using inv btac_index_less by (simp_all add: BTB_btac_inv_def)
  have d: "dll (fst (sets s)) (snd (sets s) ! j) (nodes ?w (sets s) j)" if "j < unat (num_entries s)" for j
    using ok that by (simp add: sets_ok_def set_ok_def)
  have "sets s = build_sets (unat n) (unat w)"
    using assms(1) by (auto simp: BTB_btac_create_def checks_Inr_iff BTB_t.defs BTB_btac_t.defs BTB_init_def)
  then have "ent_PC (fst (sets s) ! x) = 0" if "x \<in> set (nodes ?w (sets s) ?i)" for x
    using build_sets_tags dlseg_less [OF d [OF i] that] by simp
  then have "find (\<lambda>x. ent_PC (fst (sets s) ! x) = ?t) (nodes ?w (sets s) ?i) = None"
    using assms(3) by (auto simp: find_None_iff)
  then have f: "find_ent (fst (sets s)) ?t (snd (sets s) ! ?i) = Some None" using find_ent_nodes [OF ok i, of ?t] by simp
  have "btac_store c r ?t oPC j None (sets s) = Some (Inl Assert_failed)" if "j < unat (num_entries s)" for r j
    using find_victim_none [OF d [OF that], of c r 0] assms(2) by (auto simp: btac_store_def case_prod_beta)
  then show ?thesis using f i c n assms(4)
    by (cases our_pred) (simp_all add: BTB_btac_update_def Let_def case_prod_beta)
qed

theorem BTB_btac_uppercase_policy_fails_witness:
  "\<exists>s. BTB_btac_create ''b'' 1 1 4 (CHR ''R'') = Inr s \<and>
    BTB_btac_update 0 s BTB_btac_get_cache 1 64 0 True False = Some (Inl Assert_failed) \<and>
    BTB_btac_update 0 s BTB_btac_get_cache 1 64 0 True True = Some (Inl Assert_failed)"
proof -
  obtain s where s: "BTB_btac_create ''b'' 1 1 4 (CHR ''R'') = Inr s"
    by (simp add: BTB_btac_create_def checks.simps check_ppow2_def IS_POW2_def check_pos_def policy_ok_def)
  then have t: "btac_tag s 1 \<noteq> 0"
    by (auto simp: BTB_btac_create_def checks_Inr_iff BTB_t.defs BTB_btac_t.defs BTB_init_def btac_tag_def
        log2_int_def log2_nat.simps shl_def)
  show ?thesis
    using BTB_btac_uppercase_policy_fails [OF s _ t, of False BTB_btac_get_cache 0 64 0]
      BTB_btac_uppercase_policy_fails [OF s _ t, of True BTB_btac_get_cache 0 64 0] s
    by (simp add: BTB_btac_get_cache_def)
qed

lemma BTB_btac_lookup_cache:
  assumes "BTB_btac_inv s0" and "BTB_btac_lookup s0 sc0 PC = Some (a, s, sc)"
  shows "sc_set sc = btac_index s PC \<and>
    sc_p sc = find (\<lambda>x. ent_PC (fst (sets s) ! x) = btac_tag s PC) (nodes (unat (num_ways s)) (sets s) (btac_index s PC))"
proof -
  have ok: "sets_ok (unat (num_entries s0)) (unat (num_ways s0)) (sets s0)" and i: "btac_index s0 PC < unat (num_entries s0)"
    using assms(1) btac_index_less by (simp_all add: BTB_btac_inv_def)
  have e: "btac_index (BTB_count_lookup s0) PC = btac_index s0 PC" "btac_tag (BTB_count_lookup s0) PC = btac_tag s0 PC"
    by (simp_all add: btac_index_def btac_tag_def BTB_base_defs)
  show ?thesis using assms(2) find_ent_nodes [OF ok i, of "btac_tag s0 PC"] e by (auto simp: BTB_btac_lookup_def Let_def)
qed

text \<open>C13: the linked sets of the branch target buffer implement recency lists. After a taken branch, for
  the LRU policy \<^verbatim>\<open>'l'\<close>, the update ends normally, keeps every list well-formed, turns the set of the branch
  into the LRU update of its contents and leaves the other sets as they are; a look-up then finds the new
  target. A branch predicted not taken is searched for again, so any state cache will do; for one predicted
  taken the cache must come from the look-up of the branch that left the present state.\<close>

theorem BTB_btac_update_refines_lru:
  assumes "BTB_btac_inv s" and "replacement_policy s = CHR ''l''"
    and "our_pred \<Longrightarrow> \<exists>s0 sc0 a. BTB_btac_inv s0 \<and> BTB_btac_lookup s0 sc0 PC = Some (a, s, sc)"
  shows "\<exists>s' sc'. BTB_btac_update rnd s sc PC oPC our_target True our_pred = Some (Inr (s', sc')) \<and>
    BTB_btac_inv s' \<and>
    contents (unat (num_ways s)) (sets s') (btac_index s PC) =
      lru_update (btac_tag s PC) oPC (contents (unat (num_ways s)) (sets s) (btac_index s PC)) \<and>
    (\<forall>j < unat (num_entries s). j \<noteq> btac_index s PC \<longrightarrow>
      contents (unat (num_ways s)) (sets s') j = contents (unat (num_ways s)) (sets s) j) \<and>
    map_option fst (BTB_btac_lookup s' sc' PC) = Some oPC"
proof -
  let ?w = "unat (num_ways s)" and ?i = "btac_index s PC" and ?t = "btac_tag s PC"
  have ok: "sets_ok (unat (num_entries s)) ?w (sets s)" and i: "?i < unat (num_entries s)"
    using assms(1) btac_index_less by (simp_all add: BTB_btac_inv_def)
  obtain st' where st': "btac_store (CHR ''l'') (rnd mod ?w) ?t oPC ?i
      (find (\<lambda>x. ent_PC (fst (sets s) ! x) = ?t) (nodes ?w (sets s) ?i)) (sets s) = Some (Inr st')"
    "sets_ok (unat (num_entries s)) ?w st'" "contents ?w st' ?i = lru_update ?t oPC (contents ?w (sets s) ?i)"
    "\<forall>j<unat (num_entries s). j \<noteq> ?i \<longrightarrow> contents ?w st' j = contents ?w (sets s) j"
    using btac_store_lru [OF ok i refl] by blast
  let ?s1 = "fst (BTB_count_update s sc oPC our_target)" and ?sc1 = "snd (BTB_count_update s sc oPC our_target)"
  let ?s' = "?s1\<lparr>sets := st'\<rparr>"
  have "our_pred \<Longrightarrow> sc_set sc = ?i \<and> sc_p sc = find (\<lambda>x. ent_PC (fst (sets s) ! x) = ?t) (nodes ?w (sets s) ?i)"
    using assms(3) BTB_btac_lookup_cache by blast
  then obtain sc' where u: "BTB_btac_update rnd s sc PC oPC our_target True our_pred = Some (Inr (?s', sc'))"
    using find_ent_nodes [OF ok i, of ?t] st'(1) assms(2)
    by (cases our_pred) (auto simp: BTB_btac_update_def Let_def case_prod_beta)
  have inv: "BTB_btac_inv ?s'" using assms(1) st'(2) by (simp add: BTB_btac_inv_def)
  have "btac_index ?s' PC = ?i" "btac_tag ?s' PC = ?t" by (simp_all add: btac_index_def btac_tag_def)
  then have "map_option fst (BTB_btac_lookup ?s' sc' PC) = Some oPC"
    using BTB_btac_lookup_contents [OF inv, of sc' PC] st'(3) by (auto simp: lru_lookup_def lru_update_def)
  then show ?thesis using u inv st' by (intro exI [of _ ?s'] exI [of _ sc']) simp
qed

theorem BTB_btac_update_refines_lru_witness:
  "\<exists>s a s1 sc1 s2 sc2 s3 sc3. BTB_btac_create ''b'' 2 2 4 (CHR ''l'') = Inr s \<and>
    BTB_btac_update 0 s BTB_btac_get_cache 5 64 0 True False = Some (Inr (s2, sc2)) \<and>
    map_option fst (BTB_btac_lookup s2 sc2 5) = Some 64 \<and>
    BTB_btac_lookup s BTB_btac_get_cache 5 = Some (a, s1, sc1) \<and>
    BTB_btac_update 0 s1 sc1 5 96 a True True = Some (Inr (s3, sc3)) \<and>
    map_option fst (BTB_btac_lookup s3 sc3 5) = Some 96"
proof -
  obtain s where s: "BTB_btac_create ''b'' 2 2 4 (CHR ''l'') = Inr s"
    by (simp add: BTB_btac_create_def checks.simps check_ppow2_def IS_POW2_def check_pos_def policy_ok_def)
  have i: "BTB_btac_inv s" "replacement_policy s = CHR ''l''" using BTB_btac_create_inv [OF s] by auto
  obtain a sc1 where l: "BTB_btac_lookup s BTB_btac_get_cache 5 = Some (a, BTB_count_lookup s, sc1)"
    using BTB_btac_lookup_contents [OF i(1)] by blast
  have i1: "BTB_btac_inv (BTB_count_lookup s)" "replacement_policy (BTB_count_lookup s) = CHR ''l''"
    using i by (simp_all add: BTB_btac_inv_def) (simp add: BTB_base_defs)
  show ?thesis
    using BTB_btac_update_refines_lru [OF i, of False 5 BTB_btac_get_cache 0 64 0]
      BTB_btac_update_refines_lru [OF i1, of True 5 sc1 0 96 a] i(1) l s by blast
qed

end
