(* ===== verification/Btb_2lev.thy ===== *)
theory Btb_2lev
  imports Btb History
begin

text \<open>
  The history-indexed branch target buffer \<^verbatim>\<open>BTB_2levbtac_t\<close>
  (\<^verbatim>\<open>xiosim/ZCOMPS-btb/btb-2levbtac.cpp\<close>): the sets of \<open>Btb\<close>, selected with the branch history
  of the entry of a first-level table, which is updated speculatively and restored on recovery.
\<close>

record BTB_2levbtac_sc_t = BTB_sc_t +
  sc_p :: "nat option"
  sc_set :: nat
  bhr :: nat
  lookup_bhr :: cint

record BTB_2levbtac_t = BTB_t +
  bht_size :: cint
  hist_width :: cint
  history_mask :: cint
  num_entries :: cint
  num_ways :: cint
  tag_width :: cint
  replacement_policy :: char
  sets :: btb_sets
  bht :: "cint list"
  bht_mask :: cint
  btac_mask :: cint
  tag_shift :: cint
  tag_mask :: cint
  Xor :: cint
  xorshift :: cint

definition BTB_2levbtac_create ::
  "string \<Rightarrow> cint \<Rightarrow> cint \<Rightarrow> cint \<Rightarrow> cint \<Rightarrow> cint \<Rightarrow> cint \<Rightarrow> char \<Rightarrow> fatal + BTB_2levbtac_t" where
  "BTB_2levbtac_create arg_name arg_bht_size arg_hist_width arg_Xor arg_num_entries arg_num_ways
      arg_tag_width arg_replacement_policy =
     checks [(check_ppow2 arg_bht_size, Not_ppow2), (check_ppow2 arg_num_entries, Not_ppow2),
             (check_pos arg_num_ways, Not_pos), (check_bool arg_Xor, Not_bool),
             (policy_ok arg_replacement_policy, Bad_config)]
       (BTB_t.extend
         (BTB_init arg_name ''2levbtac'' (btac_bits arg_num_entries arg_num_ways + arg_bht_size * arg_hist_width))
         (BTB_2levbtac_t.fields arg_bht_size arg_hist_width (history_mask_of arg_hist_width)
           arg_num_entries arg_num_ways arg_tag_width arg_replacement_policy
           (build_sets (unat arg_num_entries) (unat arg_num_ways))
           (replicate (unat arg_bht_size) 0) (arg_bht_size - 1) (arg_num_entries - 1)
           (log2_int arg_num_entries) (shl 1 arg_tag_width - 1) arg_Xor
           (xorshift_of arg_Xor arg_num_entries arg_hist_width)))"

definition btac2_tag :: "BTB_2levbtac_t \<Rightarrow> md_addr_t \<Rightarrow> md_addr_t" where
  "btac2_tag s PC = drop_bit (unat (tag_shift s)) PC AND scast (tag_mask s)"

definition btac2_index :: "BTB_2levbtac_t \<Rightarrow> md_addr_t \<Rightarrow> cint \<Rightarrow> nat" where
  "btac2_index s PC h = unat (l2_index (Xor s) (xorshift s) (hist_width s) (btac_mask s) PC h)"

definition BTB_2levbtac_lookup :: "BTB_2levbtac_t \<Rightarrow> BTB_2levbtac_sc_t \<Rightarrow> md_addr_t \<Rightarrow>
    (md_addr_t \<times> BTB_2levbtac_t \<times> BTB_2levbtac_sc_t) option" where
  "BTB_2levbtac_lookup s sc PC =
     (let b = unat (pc_mask PC (bht_mask s));
          h = bht s ! b;
          i = btac2_index s PC h
      in case find_ent (fst (sets s)) (btac2_tag s PC) (snd (sets s) ! i) of
           None \<Rightarrow> None
         | Some p \<Rightarrow> Some (case p of None \<Rightarrow> 0 | Some x \<Rightarrow> ent_target (fst (sets s) ! x),
                          BTB_count_lookup s,
                          sc\<lparr>updated := False, bhr := b, lookup_bhr := h, sc_set := i, sc_p := p\<rparr>))"

text \<open>An update of a branch predicted not taken searches the set that the history register names now,
  and counts a look-up.\<close>

definition BTB_2levbtac_update :: "nat \<Rightarrow> BTB_2levbtac_t \<Rightarrow> BTB_2levbtac_sc_t \<Rightarrow> md_addr_t \<Rightarrow> md_addr_t \<Rightarrow>
    md_addr_t \<Rightarrow> bool \<Rightarrow> bool \<Rightarrow> (fatal + BTB_2levbtac_t \<times> BTB_2levbtac_sc_t) option" where
  "BTB_2levbtac_update rnd s sc PC oPC our_target outcome our_pred =
     (let (s1, sc1) = BTB_count_update s sc oPC our_target
      in if \<not> outcome then Some (Inr (BTB_count_nt s1, sc1))
         else let i = btac2_index s PC (bht s ! bhr sc);
                  s2 = (if \<not> our_pred then BTB_count_lookup s1 else s1);
                  found = (if \<not> our_pred then find_ent (fst (sets s)) (btac2_tag s PC) (snd (sets s) ! i)
                           else Some (sc_p sc1))
              in case found of
                   None \<Rightarrow> None
                 | Some p \<Rightarrow>
                    (let sc2 = (if \<not> our_pred then sc1\<lparr>sc_set := i, sc_p := p\<rparr> else sc1)
                     in map_option (map_sum id (\<lambda>st. (s2\<lparr>sets := st\<rparr>, sc2)))
                          (btac_store (replacement_policy s) (rnd mod unat (num_ways s)) (btac2_tag s PC) oPC
                            (sc_set sc2) p (sets s))))"

definition BTB_2levbtac_spec_update :: "BTB_2levbtac_t \<Rightarrow> BTB_2levbtac_sc_t \<Rightarrow> bool \<Rightarrow> BTB_2levbtac_t" where
  "BTB_2levbtac_spec_update s sc our_pred =
     (let s1 = BTB_spec_update s
      in s1\<lparr>bht := (bht s1)[bhr sc := shift_in (bht s1 ! bhr sc) our_pred AND history_mask s1]\<rparr>)"

definition BTB_2levbtac_recover :: "BTB_2levbtac_t \<Rightarrow> BTB_2levbtac_sc_t \<Rightarrow> bool \<Rightarrow> BTB_2levbtac_t" where
  "BTB_2levbtac_recover s sc outcome =
     (if bht_size s = 1 then s\<lparr>bht := (bht s)[0 := shift_in (lookup_bhr sc) outcome]\<rparr> else s)"

definition BTB_2levbtac_flush :: "BTB_2levbtac_t \<Rightarrow> BTB_2levbtac_sc_t \<Rightarrow> BTB_2levbtac_t" where
  "BTB_2levbtac_flush s sc = (if bht_size s = 1 then s\<lparr>bht := (bht s)[0 := lookup_bhr sc]\<rparr> else s)"

definition BTB_2levbtac_get_cache :: BTB_2levbtac_sc_t where
  "BTB_2levbtac_get_cache = \<lparr>updated = False, sc_p = None, sc_set = 0, bhr = 0, lookup_bhr = 0\<rparr>"

section \<open>Invariant\<close>

definition BTB_2levbtac_inv :: "BTB_2levbtac_t \<Rightarrow> bool" where
  "BTB_2levbtac_inv s \<longleftrightarrow> check_ppow2 (num_entries s) \<and> btac_mask s = num_entries s - 1 \<and>
     check_ppow2 (bht_size s) \<and> bht_mask s = bht_size s - 1 \<and> length (bht s) = unat (bht_size s) \<and>
     sets_ok (unat (num_entries s)) (unat (num_ways s)) (sets s)"

definition BTB_2levbtac_sc_ok :: "BTB_2levbtac_t \<Rightarrow> BTB_2levbtac_sc_t \<Rightarrow> bool" where
  "BTB_2levbtac_sc_ok s sc \<longleftrightarrow> sc_set sc < unat (num_entries s) \<and> bhr sc < unat (bht_size s) \<and>
     (case sc_p sc of None \<Rightarrow> True
      | Some x \<Rightarrow> sc_set sc * unat (num_ways s) \<le> x \<and> x < sc_set sc * unat (num_ways s) + unat (num_ways s))"

lemma BTB_2levbtac_create_inv:
  assumes "BTB_2levbtac_create nm bs hw x n w tw c = Inr s"
  shows "BTB_2levbtac_inv s \<and> num_entries s = n \<and> num_ways s = w \<and> replacement_policy s = c"
proof -
  have "check_ppow2 n" "check_pos w" using assms by (auto simp: BTB_2levbtac_create_def checks_Inr_iff)
  then have "0 < unat w" using sint_pos_iff [of w] by (simp add: check_pos_def not_le)
  then show ?thesis using assms build_sets_ok [of "unat w" "unat n"]
    by (auto simp: BTB_2levbtac_create_def checks_Inr_iff BTB_2levbtac_inv_def BTB_t.defs
        BTB_2levbtac_t.defs BTB_init_def)
qed

lemma BTB2_frame [simp]:
  "num_entries (BTB_count_lookup s) = num_entries s" "num_ways (BTB_count_lookup s) = num_ways s"
  "bht_size (BTB_count_lookup s) = bht_size s" "bht (BTB_count_lookup s) = bht s"
  "bht_mask (BTB_count_lookup s) = bht_mask s" "btac_mask (BTB_count_lookup s) = btac_mask s"
  "sets (BTB_count_lookup s) = sets s" "replacement_policy (BTB_count_lookup s) = replacement_policy s"
  "num_entries (BTB_count_nt s) = num_entries s" "num_ways (BTB_count_nt s) = num_ways s"
  "bht_size (BTB_count_nt s) = bht_size s" "bht (BTB_count_nt s) = bht s"
  "bht_mask (BTB_count_nt s) = bht_mask s" "btac_mask (BTB_count_nt s) = btac_mask s"
  "sets (BTB_count_nt s) = sets s" "replacement_policy (BTB_count_nt s) = replacement_policy s"
  "num_entries (fst (BTB_count_update s sc oPC t)) = num_entries s"
  "num_ways (fst (BTB_count_update s sc oPC t)) = num_ways s"
  "bht_size (fst (BTB_count_update s sc oPC t)) = bht_size s"
  "bht (fst (BTB_count_update s sc oPC t)) = bht s"
  "bht_mask (fst (BTB_count_update s sc oPC t)) = bht_mask s"
  "btac_mask (fst (BTB_count_update s sc oPC t)) = btac_mask s"
  "sets (fst (BTB_count_update s sc oPC t)) = sets s"
  "replacement_policy (fst (BTB_count_update s sc oPC t)) = replacement_policy s"
  by (simp_all add: BTB_base_defs)

lemma BTB2_sc_frame [simp]:
  "sc_set (snd (BTB_count_update s sc oPC t)) = sc_set sc" "sc_p (snd (BTB_count_update s sc oPC t)) = sc_p sc"
  "bhr (snd (BTB_count_update s sc oPC t)) = bhr sc"
  by (simp_all add: BTB_base_defs)

lemma btac2_index_less: "BTB_2levbtac_inv s \<Longrightarrow> btac2_index s PC h < unat (num_entries s)"
  by (simp add: btac2_index_def l2_index_def BTB_2levbtac_inv_def)

lemma BTB_2levbtac_lookup_ok:
  assumes "BTB_2levbtac_inv s"
  shows "\<exists>a sc'. BTB_2levbtac_lookup s sc PC = Some (a, BTB_count_lookup s, sc') \<and> BTB_2levbtac_sc_ok s sc' \<and>
    a = lru_lookup (btac2_tag s PC) (contents (unat (num_ways s)) (sets s)
      (btac2_index s PC (bht s ! unat (pc_mask PC (bht_mask s)))))"
proof -
  let ?b = "unat (pc_mask PC (bht_mask s))"
  let ?w = "unat (num_ways s)" and ?i = "btac2_index s PC (bht s ! ?b)" and ?t = "btac2_tag s PC"
  have ok: "sets_ok (unat (num_entries s)) ?w (sets s)" and i: "?i < unat (num_entries s)"
    and b: "?b < unat (bht_size s)"
    using assms btac2_index_less by (simp_all add: BTB_2levbtac_inv_def)
  then have si: "set_ok ?w (sets s) ?i" by (simp add: sets_ok_def)
  let ?f = "find (\<lambda>x. ent_PC (fst (sets s) ! x) = ?t) (nodes ?w (sets s) ?i)"
  have "BTB_2levbtac_sc_ok s (sc\<lparr>updated := False, bhr := ?b, lookup_bhr := bht s ! ?b, sc_set := ?i, sc_p := ?f\<rparr>)"
    using i si b find_in_set [of _ "nodes ?w (sets s) ?i"]
    by (auto simp: BTB_2levbtac_sc_ok_def set_ok_def split: option.splits)
  moreover have "BTB_2levbtac_lookup s sc PC =
      Some (lru_lookup ?t (contents ?w (sets s) ?i), BTB_count_lookup s,
        sc\<lparr>updated := False, bhr := ?b, lookup_bhr := bht s ! ?b, sc_set := ?i, sc_p := ?f\<rparr>)"
    using find_ent_nodes [OF ok i, of ?t]
    by (simp add: BTB_2levbtac_lookup_def Let_def lru_lookup_def contents_def find_map_of split: option.split)
  ultimately show ?thesis by blast
qed

lemma BTB_2levbtac_update_safe:
  assumes "BTB_2levbtac_inv s" and "BTB_2levbtac_sc_ok s sc"
    and "replacement_policy s = CHR ''l'' \<or> replacement_policy s = CHR ''r''"
  shows "\<exists>s' sc'. BTB_2levbtac_update rnd s sc PC oPC our_target outcome our_pred = Some (Inr (s', sc')) \<and>
    BTB_2levbtac_inv s' \<and> BTB_2levbtac_sc_ok s' sc' \<and> BTB_2levbtac_sc_ok s' = BTB_2levbtac_sc_ok s \<and>
    replacement_policy s' = replacement_policy s"
proof -
  let ?w = "unat (num_ways s)" and ?i = "btac2_index s PC (bht s ! bhr sc)" and ?t = "btac2_tag s PC"
  let ?s1 = "fst (BTB_count_update s sc oPC our_target)" and ?sc1 = "snd (BTB_count_update s sc oPC our_target)"
  have eq: "BTB_2levbtac_sc_ok s' = BTB_2levbtac_sc_ok s"
    if "num_entries s' = num_entries s" "num_ways s' = num_ways s" "bht_size s' = bht_size s" for s'
    using that by (auto simp: fun_eq_iff BTB_2levbtac_sc_ok_def split: option.splits)
  show ?thesis
  proof (cases outcome)
    case False
    have "BTB_2levbtac_inv (BTB_count_nt ?s1)" using assms(1) by (simp add: BTB_2levbtac_inv_def)
    moreover have "BTB_2levbtac_sc_ok s ?sc1"
      using assms(2) by (auto simp: BTB_2levbtac_sc_ok_def split: option.splits)
    ultimately show ?thesis using False eq [of "BTB_count_nt ?s1"]
      by (simp add: BTB_2levbtac_update_def case_prod_beta)
  next
    case True
    have ok: "sets_ok (unat (num_entries s)) ?w (sets s)" and i: "?i < unat (num_entries s)"
      using assms(1) btac2_index_less by (simp_all add: BTB_2levbtac_inv_def)
    then have si: "set_ok ?w (sets s) ?i" and w: "0 < ?w" by (simp_all add: sets_ok_def)
    define p where "p = (if our_pred then sc_p sc
      else find (\<lambda>x. ent_PC (fst (sets s) ! x) = ?t) (nodes ?w (sets s) ?i))"
    define j where "j = (if our_pred then sc_set sc else ?i)"
    have j: "j < unat (num_entries s)" using i assms(2) by (simp add: j_def BTB_2levbtac_sc_ok_def)
    have p: "x \<in> set [j * ?w..<j * ?w + ?w]" if "p = Some x" for x
    proof (cases our_pred)
      case False
      then have "x \<in> set (nodes ?w (sets s) ?i)" using that find_in_set by (auto simp: p_def)
      then show ?thesis using False si by (simp add: j_def set_ok_def)
    qed (use that assms(2) in \<open>simp add: p_def j_def BTB_2levbtac_sc_ok_def\<close>)
    obtain st' where st': "btac_store (replacement_policy s) (rnd mod ?w) ?t oPC j p (sets s) = Some (Inr st')"
      "sets_ok (unat (num_entries s)) ?w st'"
      using btac_store_safe [OF ok j assms(3) mod_less_divisor [OF w] p] by blast
    define sc2 where "sc2 = (if our_pred then ?sc1 else ?sc1\<lparr>sc_set := ?i, sc_p := p\<rparr>)"
    define s2 where "s2 = (if our_pred then ?s1 else BTB_count_lookup ?s1)"
    have u: "BTB_2levbtac_update rnd s sc PC oPC our_target outcome our_pred = Some (Inr (s2\<lparr>sets := st'\<rparr>, sc2))"
      using st'(1) find_ent_nodes [OF ok i, of ?t] True
      by (cases our_pred) (simp_all add: BTB_2levbtac_update_def Let_def case_prod_beta p_def j_def sc2_def s2_def)
    have "BTB_2levbtac_inv (s2\<lparr>sets := st'\<rparr>)" using assms(1) st'(2) by (simp add: BTB_2levbtac_inv_def s2_def)
    moreover have "sc_set sc2 = j" "sc_p sc2 = p" "bhr sc2 = bhr sc" by (simp_all add: sc2_def j_def p_def)
    then have "BTB_2levbtac_sc_ok s sc2"
      using j p assms(2) by (auto simp: BTB_2levbtac_sc_ok_def split: option.split)
    ultimately show ?thesis using u eq [of "s2\<lparr>sets := st'\<rparr>"] by (simp add: s2_def)
  qed
qed

text \<open>The remaining operations keep the shape.\<close>

lemma BTB_2levbtac_history_ops:
  assumes "BTB_2levbtac_inv s"
  shows "BTB_2levbtac_inv (BTB_2levbtac_spec_update s sc our_pred)" "BTB_2levbtac_inv (BTB_2levbtac_recover s sc outcome)"
    "BTB_2levbtac_inv (BTB_2levbtac_flush s sc)"
    "BTB_2levbtac_sc_ok (BTB_2levbtac_spec_update s sc our_pred) = BTB_2levbtac_sc_ok s"
    "BTB_2levbtac_sc_ok (BTB_2levbtac_recover s sc outcome) = BTB_2levbtac_sc_ok s"
    "BTB_2levbtac_sc_ok (BTB_2levbtac_flush s sc) = BTB_2levbtac_sc_ok s"
  using assms by (auto simp: BTB_2levbtac_inv_def BTB_2levbtac_sc_ok_def fun_eq_iff BTB_2levbtac_spec_update_def
      BTB_2levbtac_recover_def BTB_2levbtac_flush_def BTB_spec_update_def Let_def split: option.splits)

end
