(* ===== verification/Front_Dispatch.thy ===== *)
theory Front_Dispatch
  imports Ras Fusion Btb_2lev
begin

text \<open>
  Virtual dispatch of the other parts of the branch predictor: fusion predictors, branch target
  buffers and return address stacks, as \<open>Bpred_Dispatch\<close> does it for the direction predictors. The
  target buffers can fail an assertion; their result is None when a cast is wrong or a loop does not
  end.
\<close>

section \<open>Fusion predictors\<close>

datatype fusion_obj =
    F_singleton fusion_t
  | F_random fusion_t
  | F_oracle fusion_t
  | F_mcfarling fusion_mcfarling_t
  | F_priority fusion_priority_t
  | F_multihybrid fusion_multihybrid_t
  | F_colt fusion_colt_t

datatype fusion_sc = FSC_base fusion_sc_t | FSC_colt fusion_colt_sc_t

definition as_fbase :: "fusion_sc \<Rightarrow> fusion_sc_t option" where
  "as_fbase sc = (case sc of FSC_base x \<Rightarrow> Some x | _ \<Rightarrow> None)"

definition as_colt :: "fusion_sc \<Rightarrow> fusion_colt_sc_t option" where
  "as_colt sc = (case sc of FSC_colt x \<Rightarrow> Some x | _ \<Rightarrow> None)"

lemmas fcasts = as_fbase_def as_colt_def

fun fus_lookup :: "nat \<Rightarrow> fusion_obj \<Rightarrow> fusion_sc \<Rightarrow> bool list \<Rightarrow> md_addr_t \<Rightarrow> bool \<Rightarrow>
    (bool \<times> fusion_obj \<times> fusion_sc) option" where
    "fus_lookup r (F_singleton s) sc preds PC outcome =
      map_option (\<lambda>x. case fusion_singleton_lookup s x preds PC outcome of (p, s', x') \<Rightarrow> (p, F_singleton s', FSC_base x')) (as_fbase sc)"
  | "fus_lookup r (F_random s) sc preds PC outcome =
      map_option (\<lambda>x. case fusion_random_lookup r s x preds PC outcome of (p, s', x') \<Rightarrow> (p, F_random s', FSC_base x')) (as_fbase sc)"
  | "fus_lookup r (F_oracle s) sc preds PC outcome =
      map_option (\<lambda>x. case fusion_oracle_lookup s x preds PC outcome of (p, s', x') \<Rightarrow> (p, F_oracle s', FSC_base x')) (as_fbase sc)"
  | "fus_lookup r (F_mcfarling s) sc preds PC outcome =
      map_option (\<lambda>x. case fusion_mcfarling_lookup s x preds PC outcome of (p, s', x') \<Rightarrow> (p, F_mcfarling s', FSC_base x')) (as_fbase sc)"
  | "fus_lookup r (F_priority s) sc preds PC outcome =
      map_option (\<lambda>x. case fusion_priority_lookup s x preds PC outcome of (p, s', x') \<Rightarrow> (p, F_priority s', FSC_base x')) (as_fbase sc)"
  | "fus_lookup r (F_multihybrid s) sc preds PC outcome =
      map_option (\<lambda>x. case fusion_multihybrid_lookup s x preds PC outcome of (p, s', x') \<Rightarrow> (p, F_multihybrid s', FSC_base x')) (as_fbase sc)"
  | "fus_lookup r (F_colt s) sc preds PC outcome =
      map_option (\<lambda>x. case fusion_colt_lookup s x preds PC outcome of (p, s', x') \<Rightarrow> (p, F_colt s', FSC_colt x')) (as_colt sc)"

fun fus_update :: "fusion_obj \<Rightarrow> fusion_sc \<Rightarrow> bool list \<Rightarrow> md_addr_t \<Rightarrow> bool \<Rightarrow> bool \<Rightarrow>
    (fusion_obj \<times> fusion_sc) option" where
    "fus_update (F_singleton s) sc preds PC outcome our_pred =
      map_option (\<lambda>x. case fusion_inherited_update s x preds PC outcome our_pred of (s', x') \<Rightarrow> (F_singleton s', FSC_base x')) (as_fbase sc)"
  | "fus_update (F_random s) sc preds PC outcome our_pred =
      map_option (\<lambda>x. case fusion_inherited_update s x preds PC outcome our_pred of (s', x') \<Rightarrow> (F_random s', FSC_base x')) (as_fbase sc)"
  | "fus_update (F_oracle s) sc preds PC outcome our_pred =
      map_option (\<lambda>x. case fusion_inherited_update s x preds PC outcome our_pred of (s', x') \<Rightarrow> (F_oracle s', FSC_base x')) (as_fbase sc)"
  | "fus_update (F_mcfarling s) sc preds PC outcome our_pred =
      map_option (\<lambda>x. case fusion_mcfarling_update s x preds PC outcome our_pred of (s', x') \<Rightarrow> (F_mcfarling s', FSC_base x')) (as_fbase sc)"
  | "fus_update (F_priority s) sc preds PC outcome our_pred =
      map_option (\<lambda>x. case fusion_priority_update s x preds PC outcome our_pred of (s', x') \<Rightarrow> (F_priority s', FSC_base x')) (as_fbase sc)"
  | "fus_update (F_multihybrid s) sc preds PC outcome our_pred =
      map_option (\<lambda>x. case fusion_multihybrid_update s x preds PC outcome our_pred of (s', x') \<Rightarrow> (F_multihybrid s', FSC_base x')) (as_fbase sc)"
  | "fus_update (F_colt s) sc preds PC outcome our_pred =
      map_option (\<lambda>x. case fusion_colt_update s x preds PC outcome our_pred of (s', x') \<Rightarrow> (F_colt s', FSC_colt x')) (as_colt sc)"

text \<open>Only \<^verbatim>\<open>colt\<close> overrides the operations on histories.\<close>

fun fus_spec_update :: "fusion_obj \<Rightarrow> fusion_sc \<Rightarrow> bool \<Rightarrow> fusion_obj option" where
    "fus_spec_update (F_singleton s) sc our_pred = Some (F_singleton (fusion_spec_update s))"
  | "fus_spec_update (F_random s) sc our_pred = Some (F_random (fusion_spec_update s))"
  | "fus_spec_update (F_oracle s) sc our_pred = Some (F_oracle (fusion_spec_update s))"
  | "fus_spec_update (F_mcfarling s) sc our_pred = Some (F_mcfarling (fusion_spec_update s))"
  | "fus_spec_update (F_priority s) sc our_pred = Some (F_priority (fusion_spec_update s))"
  | "fus_spec_update (F_multihybrid s) sc our_pred = Some (F_multihybrid (fusion_spec_update s))"
  | "fus_spec_update (F_colt s) sc our_pred =
      map_option (\<lambda>x. F_colt (fusion_colt_spec_update s x our_pred)) (as_colt sc)"

fun fus_recover :: "fusion_obj \<Rightarrow> fusion_sc \<Rightarrow> bool \<Rightarrow> fusion_obj option" where
    "fus_recover (F_colt s) sc outcome = map_option (\<lambda>x. F_colt (fusion_colt_recover s x outcome)) (as_colt sc)"
  | "fus_recover f sc outcome = Some f"

fun fus_flush :: "fusion_obj \<Rightarrow> fusion_sc \<Rightarrow> fusion_obj option" where
    "fus_flush (F_colt s) sc = map_option (\<lambda>x. F_colt (fusion_colt_flush s x)) (as_colt sc)"
  | "fus_flush f sc = Some f"

fun fus_get_cache :: "fusion_obj \<Rightarrow> fusion_sc" where
    "fus_get_cache (F_colt s) = FSC_colt fusion_colt_get_cache"
  | "fus_get_cache f = FSC_base fusion_get_cache"

fun fus_map :: "(fusion_t \<Rightarrow> fusion_t) \<Rightarrow> (fusion_mcfarling_t \<Rightarrow> fusion_mcfarling_t) \<Rightarrow>
    (fusion_priority_t \<Rightarrow> fusion_priority_t) \<Rightarrow> (fusion_multihybrid_t \<Rightarrow> fusion_multihybrid_t) \<Rightarrow>
    (fusion_colt_t \<Rightarrow> fusion_colt_t) \<Rightarrow> fusion_obj \<Rightarrow> fusion_obj" where
    "fus_map f0 f1 f2 f3 f4 (F_singleton s) = F_singleton (f0 s)"
  | "fus_map f0 f1 f2 f3 f4 (F_random s) = F_random (f0 s)"
  | "fus_map f0 f1 f2 f3 f4 (F_oracle s) = F_oracle (f0 s)"
  | "fus_map f0 f1 f2 f3 f4 (F_mcfarling s) = F_mcfarling (f1 s)"
  | "fus_map f0 f1 f2 f3 f4 (F_priority s) = F_priority (f2 s)"
  | "fus_map f0 f1 f2 f3 f4 (F_multihybrid s) = F_multihybrid (f3 s)"
  | "fus_map f0 f1 f2 f3 f4 (F_colt s) = F_colt (f4 s)"

definition fus_reset_stats :: "fusion_obj \<Rightarrow> fusion_obj" where
  "fus_reset_stats = fus_map fusion_reset_stats fusion_reset_stats fusion_reset_stats fusion_reset_stats
     fusion_reset_stats"

definition fus_freeze :: "fusion_obj \<Rightarrow> fusion_obj" where
  "fus_freeze = fus_map (\<lambda>s. s\<lparr>fusion_t.frozen := True\<rparr>) (\<lambda>s. s\<lparr>fusion_t.frozen := True\<rparr>)
     (\<lambda>s. s\<lparr>fusion_t.frozen := True\<rparr>) (\<lambda>s. s\<lparr>fusion_t.frozen := True\<rparr>) (\<lambda>s. s\<lparr>fusion_t.frozen := True\<rparr>)"

section \<open>Branch target buffers\<close>

datatype btb_obj = T_perfect BTB_t | T_btac BTB_btac_t | T_2lev BTB_2levbtac_t

datatype btb_sc = TSC_base BTB_sc_t | TSC_btac BTB_btac_sc_t | TSC_2lev BTB_2levbtac_sc_t

definition as_tbase :: "btb_sc \<Rightarrow> BTB_sc_t option" where
  "as_tbase sc = (case sc of TSC_base x \<Rightarrow> Some x | _ \<Rightarrow> None)"

definition as_btac :: "btb_sc \<Rightarrow> BTB_btac_sc_t option" where
  "as_btac sc = (case sc of TSC_btac x \<Rightarrow> Some x | _ \<Rightarrow> None)"

definition as_2levbtac :: "btb_sc \<Rightarrow> BTB_2levbtac_sc_t option" where
  "as_2levbtac sc = (case sc of TSC_2lev x \<Rightarrow> Some x | _ \<Rightarrow> None)"

lemmas tcasts = as_tbase_def as_btac_def as_2levbtac_def

fun btb_lookup :: "btb_obj \<Rightarrow> btb_sc \<Rightarrow> md_addr_t \<Rightarrow> md_addr_t \<Rightarrow> md_addr_t \<Rightarrow> bool \<Rightarrow> bool \<Rightarrow>
    (md_addr_t \<times> btb_obj \<times> btb_sc) option" where
    "btb_lookup (T_perfect s) sc PC tPC oPC outcome our_pred =
      map_option (\<lambda>x. case BTB_perfect_lookup s x tPC oPC outcome our_pred of (a, s', x') \<Rightarrow>
        (a, T_perfect s', TSC_base x')) (as_tbase sc)"
  | "btb_lookup (T_btac s) sc PC tPC oPC outcome our_pred =
      (case as_btac sc of None \<Rightarrow> None
       | Some x \<Rightarrow> map_option (\<lambda>(a, s', x'). (a, T_btac s', TSC_btac x')) (BTB_btac_lookup s x PC))"
  | "btb_lookup (T_2lev s) sc PC tPC oPC outcome our_pred =
      (case as_2levbtac sc of None \<Rightarrow> None
       | Some x \<Rightarrow> map_option (\<lambda>(a, s', x'). (a, T_2lev s', TSC_2lev x')) (BTB_2levbtac_lookup s x PC))"

fun btb_update :: "nat \<Rightarrow> btb_obj \<Rightarrow> btb_sc \<Rightarrow> md_addr_t \<Rightarrow> md_addr_t \<Rightarrow> md_addr_t \<Rightarrow> bool \<Rightarrow> bool \<Rightarrow>
    (fatal + btb_obj \<times> btb_sc) option" where
    "btb_update r (T_perfect s) sc PC oPC our_target outcome our_pred =
      map_option (\<lambda>x. case BTB_perfect_update s x oPC our_target of (s', x') \<Rightarrow>
        Inr (T_perfect s', TSC_base x')) (as_tbase sc)"
  | "btb_update r (T_btac s) sc PC oPC our_target outcome our_pred =
      (case as_btac sc of None \<Rightarrow> None
       | Some x \<Rightarrow> map_option (map_sum id (\<lambda>(s', x'). (T_btac s', TSC_btac x')))
                    (BTB_btac_update r s x PC oPC our_target outcome our_pred))"
  | "btb_update r (T_2lev s) sc PC oPC our_target outcome our_pred =
      (case as_2levbtac sc of None \<Rightarrow> None
       | Some x \<Rightarrow> map_option (map_sum id (\<lambda>(s', x'). (T_2lev s', TSC_2lev x')))
                    (BTB_2levbtac_update r s x PC oPC our_target outcome our_pred))"

fun btb_spec_update :: "btb_obj \<Rightarrow> btb_sc \<Rightarrow> bool \<Rightarrow> btb_obj option" where
    "btb_spec_update (T_perfect s) sc our_pred = Some (T_perfect (BTB_spec_update s))"
  | "btb_spec_update (T_btac s) sc our_pred = Some (T_btac (BTB_spec_update s))"
  | "btb_spec_update (T_2lev s) sc our_pred =
      map_option (\<lambda>x. T_2lev (BTB_2levbtac_spec_update s x our_pred)) (as_2levbtac sc)"

fun btb_recover :: "btb_obj \<Rightarrow> btb_sc \<Rightarrow> bool \<Rightarrow> btb_obj option" where
    "btb_recover (T_2lev s) sc outcome =
      map_option (\<lambda>x. T_2lev (BTB_2levbtac_recover s x outcome)) (as_2levbtac sc)"
  | "btb_recover t sc outcome = Some t"

fun btb_flush :: "btb_obj \<Rightarrow> btb_sc \<Rightarrow> btb_obj option" where
    "btb_flush (T_2lev s) sc = map_option (\<lambda>x. T_2lev (BTB_2levbtac_flush s x)) (as_2levbtac sc)"
  | "btb_flush t sc = Some t"

fun btb_get_cache :: "btb_obj \<Rightarrow> btb_sc" where
    "btb_get_cache (T_perfect s) = TSC_base BTB_get_cache"
  | "btb_get_cache (T_btac s) = TSC_btac BTB_btac_get_cache"
  | "btb_get_cache (T_2lev s) = TSC_2lev BTB_2levbtac_get_cache"

fun btb_reset_stats :: "btb_obj \<Rightarrow> btb_obj" where
    "btb_reset_stats (T_perfect s) = T_perfect (BTB_reset_stats s)"
  | "btb_reset_stats (T_btac s) = T_btac (BTB_reset_stats s)"
  | "btb_reset_stats (T_2lev s) = T_2lev (BTB_reset_stats s)"

fun btb_freeze :: "btb_obj \<Rightarrow> btb_obj" where
    "btb_freeze (T_perfect s) = T_perfect (s\<lparr>BTB_t.frozen := True\<rparr>)"
  | "btb_freeze (T_btac s) = T_btac (s\<lparr>BTB_t.frozen := True\<rparr>)"
  | "btb_freeze (T_2lev s) = T_2lev (s\<lparr>BTB_t.frozen := True\<rparr>)"

section \<open>Return address stacks\<close>

text \<open>A checkpoint is a position, or \<^verbatim>\<open>NULL\<close> for the stacks that do not take one.\<close>

datatype ras_obj = R_stack RAS_stack_t | R_perfect RAS_t | R_multi RAS_multistack_t

fun ras_push :: "ras_obj \<Rightarrow> md_addr_t \<Rightarrow> ras_obj" where
    "ras_push (R_stack s) ftPC = R_stack (RAS_stack_push s ftPC)"
  | "ras_push (R_perfect s) ftPC = R_perfect (RAS_push s ftPC)"
  | "ras_push (R_multi s) ftPC = R_multi (RAS_multistack_push s ftPC)"

fun ras_pop :: "ras_obj \<Rightarrow> md_addr_t \<Rightarrow> md_addr_t \<times> ras_obj" where
    "ras_pop (R_stack s) oPC = map_prod id R_stack (RAS_stack_pop s)"
  | "ras_pop (R_perfect s) oPC = map_prod id R_perfect (RAS_perfect_pop s oPC)"
  | "ras_pop (R_multi s) oPC = map_prod id R_multi (RAS_multistack_pop s)"

fun ras_real_push :: "ras_obj \<Rightarrow> md_addr_t \<Rightarrow> ras_obj" where
    "ras_real_push (R_stack s) ftPC = R_stack (RAS_real_push s ftPC)"
  | "ras_real_push (R_perfect s) ftPC = R_perfect (RAS_real_push s ftPC)"
  | "ras_real_push (R_multi s) ftPC = R_multi (RAS_multistack_real_push s ftPC)"

fun ras_real_pop :: "ras_obj \<Rightarrow> md_addr_t \<times> ras_obj" where
    "ras_real_pop (R_stack s) = map_prod id R_stack (RAS_real_pop s)"
  | "ras_real_pop (R_perfect s) = map_prod id R_perfect (RAS_real_pop s)"
  | "ras_real_pop (R_multi s) = map_prod id R_multi (RAS_multistack_real_pop s)"

fun ras_recover :: "ras_obj \<Rightarrow> cint option \<Rightarrow> ras_obj option" where
    "ras_recover (R_stack s) cp = map_option (\<lambda>pos. R_stack (RAS_stack_recover s pos)) cp"
  | "ras_recover (R_perfect s) cp = Some (R_perfect (RAS_perfect_recover s))"
  | "ras_recover (R_multi s) cp = Some (R_multi (RAS_multistack_recover s))"

text \<open>\<^verbatim>\<open>recover_state\<close> writes the position into the checkpoint it is given.\<close>

fun ras_recover_state :: "ras_obj \<Rightarrow> cint option \<Rightarrow> cint option option" where
    "ras_recover_state (R_stack s) cp = map_option (\<lambda>_. Some (RAS_stack_recover_state s)) cp"
  | "ras_recover_state (R_perfect s) cp = Some cp"
  | "ras_recover_state (R_multi s) cp = Some cp"

fun ras_get_state :: "ras_obj \<Rightarrow> cint option" where
    "ras_get_state (R_stack s) = Some 0"
  | "ras_get_state (R_perfect s) = None"
  | "ras_get_state (R_multi s) = None"

fun ras_upd_stats :: "(RAS_stack_t \<Rightarrow> RAS_stack_t) \<Rightarrow> (RAS_t \<Rightarrow> RAS_t) \<Rightarrow> (RAS_multistack_t \<Rightarrow> RAS_multistack_t) \<Rightarrow>
    ras_obj \<Rightarrow> ras_obj" where
    "ras_upd_stats f g h (R_stack s) = R_stack (f s)"
  | "ras_upd_stats f g h (R_perfect s) = R_perfect (g s)"
  | "ras_upd_stats f g h (R_multi s) = R_multi (h s)"

definition ras_count_push :: "ras_obj \<Rightarrow> ras_obj" where
  "ras_count_push = ras_upd_stats (\<lambda>s. s\<lparr>RAS_t.num_pushes := RAS_t.num_pushes s + 1\<rparr>)
     (\<lambda>s. s\<lparr>RAS_t.num_pushes := RAS_t.num_pushes s + 1\<rparr>) (\<lambda>s. s\<lparr>RAS_t.num_pushes := RAS_t.num_pushes s + 1\<rparr>)"

definition ras_count_pop :: "ras_obj \<Rightarrow> ras_obj" where
  "ras_count_pop = ras_upd_stats (\<lambda>s. s\<lparr>RAS_t.num_pops := RAS_t.num_pops s + 1\<rparr>)
     (\<lambda>s. s\<lparr>RAS_t.num_pops := RAS_t.num_pops s + 1\<rparr>) (\<lambda>s. s\<lparr>RAS_t.num_pops := RAS_t.num_pops s + 1\<rparr>)"

definition ras_count_hit :: "ras_obj \<Rightarrow> ras_obj" where
  "ras_count_hit = ras_upd_stats (\<lambda>s. s\<lparr>RAS_t.num_hits := RAS_t.num_hits s + 1\<rparr>)
     (\<lambda>s. s\<lparr>RAS_t.num_hits := RAS_t.num_hits s + 1\<rparr>) (\<lambda>s. s\<lparr>RAS_t.num_hits := RAS_t.num_hits s + 1\<rparr>)"

definition ras_reset_stats :: "ras_obj \<Rightarrow> ras_obj" where
  "ras_reset_stats = ras_upd_stats RAS_reset_stats RAS_reset_stats RAS_reset_stats"

definition ras_freeze :: "ras_obj \<Rightarrow> ras_obj" where
  "ras_freeze = ras_upd_stats (\<lambda>s. s\<lparr>RAS_t.frozen := True\<rparr>) (\<lambda>s. s\<lparr>RAS_t.frozen := True\<rparr>)
     (\<lambda>s. s\<lparr>RAS_t.frozen := True\<rparr>)"

section \<open>Laws\<close>

text \<open>Shapes, and the caches that fit them. A fusion predictor expects as many predictions as there
  are direction predictors.\<close>

fun fus_inv :: "nat \<Rightarrow> fusion_obj \<Rightarrow> bool" where
    "fus_inv n (F_singleton s) \<longleftrightarrow> fusion_t.num_pred s = 1 \<and> 0 < n"
  | "fus_inv n (F_random s) \<longleftrightarrow> fusion_t.num_pred s \<noteq> 0 \<and> n = unat (fusion_t.num_pred s)"
  | "fus_inv n (F_oracle s) \<longleftrightarrow> fusion_t.num_pred s \<noteq> 0 \<and> n = unat (fusion_t.num_pred s)"
  | "fus_inv n (F_mcfarling s) \<longleftrightarrow> fusion_mcfarling_inv s \<and> n = 2"
  | "fus_inv n (F_priority s) \<longleftrightarrow> fusion_priority_inv s \<and> n = unat (fusion_t.num_pred s)"
  | "fus_inv n (F_multihybrid s) \<longleftrightarrow> fusion_multihybrid_inv s \<and> n = 4"
  | "fus_inv n (F_colt s) \<longleftrightarrow> fusion_colt_inv s \<and> n = unat (fusion_t.num_pred s)"

fun fus_match :: "fusion_obj \<Rightarrow> fusion_sc \<Rightarrow> bool" where
    "fus_match (F_colt s) sc = (as_colt sc \<noteq> None)"
  | "fus_match f sc = (as_fbase sc \<noteq> None)"

fun fus_sc_ok :: "fusion_obj \<Rightarrow> fusion_sc \<Rightarrow> bool" where
    "fus_sc_ok (F_colt s) sc = (case as_colt sc of None \<Rightarrow> False | Some x \<Rightarrow> fusion_colt_sc_ok s x)"
  | "fus_sc_ok f sc = (as_fbase sc \<noteq> None)"

fun btb_inv :: "btb_obj \<Rightarrow> bool" where
    "btb_inv (T_perfect s) = True"
  | "btb_inv (T_btac s) \<longleftrightarrow> BTB_btac_inv s \<and> BTB_btac_t.replacement_policy s \<in> {CHR ''l'', CHR ''r''}"
  | "btb_inv (T_2lev s) \<longleftrightarrow> BTB_2levbtac_inv s \<and> BTB_2levbtac_t.replacement_policy s \<in> {CHR ''l'', CHR ''r''}"

fun btb_match :: "btb_obj \<Rightarrow> btb_sc \<Rightarrow> bool" where
    "btb_match (T_perfect s) sc = (as_tbase sc \<noteq> None)"
  | "btb_match (T_btac s) sc = (as_btac sc \<noteq> None)"
  | "btb_match (T_2lev s) sc = (as_2levbtac sc \<noteq> None)"

fun btb_sc_ok :: "btb_obj \<Rightarrow> btb_sc \<Rightarrow> bool" where
    "btb_sc_ok (T_perfect s) sc = (as_tbase sc \<noteq> None)"
  | "btb_sc_ok (T_btac s) sc = (case as_btac sc of None \<Rightarrow> False | Some x \<Rightarrow> BTB_btac_sc_ok s x)"
  | "btb_sc_ok (T_2lev s) sc = (case as_2levbtac sc of None \<Rightarrow> False | Some x \<Rightarrow> BTB_2levbtac_sc_ok s x)"

fun ras_inv :: "ras_obj \<Rightarrow> bool" where
    "ras_inv (R_stack s) = RAS_stack_inv s"
  | "ras_inv (R_perfect s) = True"
  | "ras_inv (R_multi s) = RAS_multistack_inv s"

fun ras_match :: "ras_obj \<Rightarrow> cint option \<Rightarrow> bool" where
    "ras_match (R_stack s) cp = (cp \<noteq> None)"
  | "ras_match (R_perfect s) cp = True"
  | "ras_match (R_multi s) cp = True"

fun ras_cp_ok :: "ras_obj \<Rightarrow> cint option \<Rightarrow> bool" where
    "ras_cp_ok (R_stack s) cp = (case cp of None \<Rightarrow> False | Some pos \<Rightarrow> unat pos < unat (sz s))"
  | "ras_cp_ok (R_perfect s) cp = True"
  | "ras_cp_ok (R_multi s) cp = True"

definition fus_keeps :: "nat \<Rightarrow> fusion_obj \<Rightarrow> fusion_obj \<Rightarrow> bool" where
  "fus_keeps n f f' \<longleftrightarrow> fus_inv n f' \<and> fus_match f' = fus_match f \<and> (\<forall>x. fus_sc_ok f x \<longrightarrow> fus_sc_ok f' x)"

definition btb_keeps :: "btb_obj \<Rightarrow> btb_obj \<Rightarrow> bool" where
  "btb_keeps t t' \<longleftrightarrow> btb_inv t' \<and> btb_match t' = btb_match t \<and> (\<forall>x. btb_sc_ok t x \<longrightarrow> btb_sc_ok t' x)"

definition ras_keeps :: "ras_obj \<Rightarrow> ras_obj \<Rightarrow> bool" where
  "ras_keeps s s' \<longleftrightarrow> ras_inv s' \<and> ras_match s' = ras_match s \<and> (\<forall>x. ras_cp_ok s x \<longrightarrow> ras_cp_ok s' x)"

lemma keeps_trans:
  "fus_keeps n f f' \<Longrightarrow> fus_keeps n f' f'' \<Longrightarrow> fus_keeps n f f''"
  "btb_keeps t t' \<Longrightarrow> btb_keeps t' t'' \<Longrightarrow> btb_keeps t t''"
  "ras_keeps s s' \<Longrightarrow> ras_keeps s' s'' \<Longrightarrow> ras_keeps s s''"
  by (auto simp: fus_keeps_def btb_keeps_def ras_keeps_def)

lemma keeps_refl:
  "fus_inv n f \<Longrightarrow> fus_keeps n f f" "btb_inv t \<Longrightarrow> btb_keeps t t" "ras_inv s \<Longrightarrow> ras_keeps s s"
  by (auto simp: fus_keeps_def btb_keeps_def ras_keeps_def)

lemma fus_get_cache_match [simp]: "fus_match f (fus_get_cache f)"
  by (cases f) (simp_all add: fcasts)

lemma btb_get_cache_match [simp]: "btb_match t (btb_get_cache t)"
  by (cases t) (simp_all add: tcasts)

lemma ras_get_state_match [simp]: "ras_match s (ras_get_state s)"
  by (cases s) simp_all

lemma fus_sc_ok_match: "fus_sc_ok f x \<Longrightarrow> fus_match f x"
  by (cases f) (auto split: option.splits)

lemma btb_sc_ok_match: "btb_sc_ok t x \<Longrightarrow> btb_match t x"
  by (cases t) (auto split: option.splits)

lemma ras_cp_ok_match: "ras_cp_ok s x \<Longrightarrow> ras_match s x"
  by (cases s) (auto split: option.splits)

lemma as_fcast [simp]: "as_fbase (FSC_base x) = Some x" "as_colt (FSC_colt y) = Some y"
  by (simp_all add: fcasts)

lemma as_tcast [simp]:
  "as_tbase (TSC_base x) = Some x" "as_btac (TSC_btac y) = Some y" "as_2levbtac (TSC_2lev z) = Some z"
  by (simp_all add: tcasts)

text \<open>The table of \<^verbatim>\<open>colt\<close>.\<close>

lemma colt_frame [simp]:
  "fusion_colt_inv (fusion_count_lookup s) = fusion_colt_inv s"
  "fusion_colt_sc_ok (fusion_count_lookup s) = fusion_colt_sc_ok s"
  "fusion_colt_inv (fst (fusion_update s sc outcome our_pred)) = fusion_colt_inv s"
  "fusion_colt_sc_ok (fst (fusion_update s sc outcome our_pred)) = fusion_colt_sc_ok s"
  "current_ctr (snd (fusion_update s sc' outcome our_pred)) = current_ctr sc'"
  "Fusion.bhr (snd (fusion_update s sc' outcome our_pred)) = Fusion.bhr sc'"
  by (auto simp: fusion_colt_inv_def fusion_colt_sc_ok_def fusion_base_defs fun_eq_iff)

lemma colt_lookup_ok:
  "fusion_colt_inv s \<Longrightarrow> fusion_colt_lookup s x preds PC outcome = (p, s', x') \<Longrightarrow>
   s' = fusion_count_lookup s \<and> fusion_colt_sc_ok s x'"
  by (auto simp: fusion_colt_lookup_def Let_def fusion_colt_inv_def fusion_colt_sc_ok_def)

lemma colt_table_frame [simp]:
  "length ft = length (ftable s) \<Longrightarrow> fusion_colt_inv (s\<lparr>ftable := ft\<rparr>) = fusion_colt_inv s"
  "fusion_colt_sc_ok (s\<lparr>ftable := ft\<rparr>) = fusion_colt_sc_ok s"
  by (auto simp: fusion_colt_inv_def fusion_colt_sc_ok_def fun_eq_iff)

lemma fusion_update_num_pred [simp]:
  "fusion_t.num_pred (fst (fusion_update s sc outcome our_pred)) = fusion_t.num_pred s"
  by (simp add: fusion_update_def)

lemma colt_sc_ok_update [simp]:
  "fusion_colt_sc_ok s (snd (fusion_update t x outcome our_pred)) = fusion_colt_sc_ok s x"
  by (simp add: fusion_colt_sc_ok_def fusion_update_def)

lemma colt_update_ok:
  assumes "fusion_colt_inv s" and "fusion_colt_sc_ok s x"
    and "fusion_colt_update s x preds PC outcome our_pred = (s', x')"
  shows "fusion_colt_inv s' \<and> fusion_colt_sc_ok s' x' \<and> fusion_colt_sc_ok s' = fusion_colt_sc_ok s \<and>
    fusion_t.num_pred s' = fusion_t.num_pred s"
  using assms by (auto simp: fusion_colt_update_def Let_def case_prod_beta)

lemma colt_history_ok:
  assumes "fusion_colt_inv s"
  shows "fusion_colt_inv (fusion_colt_spec_update s x our_pred)" "fusion_colt_inv (fusion_colt_recover s x outcome)"
    "fusion_colt_inv (fusion_colt_flush s x)"
    "fusion_colt_sc_ok (fusion_colt_spec_update s x our_pred) = fusion_colt_sc_ok s"
    "fusion_colt_sc_ok (fusion_colt_recover s x outcome) = fusion_colt_sc_ok s"
    "fusion_colt_sc_ok (fusion_colt_flush s x) = fusion_colt_sc_ok s"
    "fusion_t.num_pred (fusion_colt_spec_update s x our_pred) = fusion_t.num_pred s"
    "fusion_t.num_pred (fusion_colt_recover s x outcome) = fusion_t.num_pred s"
    "fusion_t.num_pred (fusion_colt_flush s x) = fusion_t.num_pred s"
  using assms by (auto simp: fusion_colt_inv_def fusion_colt_sc_ok_def fun_eq_iff fusion_base_defs Let_def
      fusion_colt_spec_update_def fusion_colt_recover_def fusion_colt_flush_def)

lemma fus_lookup_ok:
  assumes "fus_inv n f" and "fus_match f sc" and "length preds = n"
  shows "\<exists>p f' sc'. fus_lookup r f sc preds PC outcome = Some (p, f', sc') \<and> fus_keeps n f f' \<and> fus_sc_ok f' sc'"
proof (cases f)
  case (F_singleton s)
  then show ?thesis using assms by (auto simp: fusion_singleton_lookup_def fus_keeps_def fun_eq_iff fcasts)
next
  case (F_random s)
  then show ?thesis using assms by (auto simp: fusion_random_lookup_def fus_keeps_def fun_eq_iff fcasts)
next
  case (F_oracle s)
  then show ?thesis using assms by (auto simp: fusion_oracle_lookup_def Let_def fus_keeps_def fun_eq_iff fcasts)
next
  case (F_mcfarling s)
  then obtain x where x: "as_fbase sc = Some x" using assms(2) by auto
  obtain p s' x' where l: "fusion_mcfarling_lookup s x preds PC outcome = (p, s', x')" by (metis prod_cases3)
  have "fusion_mcfarling_inv s'"
    using fmcfarling.lookup_law [OF _ _ l] F_mcfarling assms by (simp add: fusion_mcfarling_inv_def)
  then show ?thesis using F_mcfarling x l assms by (simp add: fus_keeps_def fun_eq_iff fcasts)
next
  case (F_priority s)
  then obtain x where x: "as_fbase sc = Some x" using assms(2) by auto
  obtain p s' x' where l: "fusion_priority_lookup s x preds PC outcome = (p, s', x')" by (metis prod_cases3)
  have "fusion_priority_inv s' \<and> unat (fusion_t.num_pred s') = unat (fusion_t.num_pred s)"
    using fpriority.lookup_law [OF _ _ l] F_priority assms by simp
  then show ?thesis using F_priority x l assms by (simp add: fus_keeps_def fun_eq_iff fcasts)
next
  case (F_multihybrid s)
  then obtain x where x: "as_fbase sc = Some x" using assms(2) by auto
  obtain p s' x' where l: "fusion_multihybrid_lookup s x preds PC outcome = (p, s', x')" by (metis prod_cases3)
  have "fusion_multihybrid_inv s'"
    using fmultihybrid.lookup_law [OF _ _ l] F_multihybrid assms by (simp add: fusion_multihybrid_inv_def)
  then show ?thesis using F_multihybrid x l assms by (simp add: fus_keeps_def fun_eq_iff fcasts)
next
  case (F_colt s)
  then obtain x where x: "as_colt sc = Some x" using assms(2) by auto
  obtain p s' x' where l: "fusion_colt_lookup s x preds PC outcome = (p, s', x')" by (metis prod_cases3)
  show ?thesis using colt_lookup_ok [OF _ l] F_colt x l assms by (auto simp: fus_keeps_def fun_eq_iff split: option.splits)
qed

lemma fus_update_ok:
  assumes "fus_inv n f" and "fus_sc_ok f sc" and "length preds = n"
  shows "\<exists>f' sc'. fus_update f sc preds PC outcome our_pred = Some (f', sc') \<and> fus_keeps n f f' \<and> fus_sc_ok f' sc'"
proof (cases f)
  case (F_mcfarling s)
  then obtain x where x: "as_fbase sc = Some x" using assms(2) by auto
  obtain s' x' where l: "fusion_mcfarling_update s x preds PC outcome our_pred = (s', x')" by force
  have "fusion_mcfarling_inv s'"
    using fmcfarling.update_law [OF _ _ l] F_mcfarling assms by (simp add: fusion_mcfarling_inv_def)
  then show ?thesis using F_mcfarling x l assms by (simp add: fus_keeps_def fun_eq_iff fcasts)
next
  case (F_priority s)
  then obtain x where x: "as_fbase sc = Some x" using assms(2) by auto
  obtain s' x' where l: "fusion_priority_update s x preds PC outcome our_pred = (s', x')" by force
  have "fusion_priority_inv s' \<and> unat (fusion_t.num_pred s') = unat (fusion_t.num_pred s)"
    using fpriority.update_law [OF _ _ l] F_priority assms by simp
  then show ?thesis using F_priority x l assms by (simp add: fus_keeps_def fun_eq_iff fcasts)
next
  case (F_multihybrid s)
  then obtain x where x: "as_fbase sc = Some x" using assms(2) by auto
  obtain s' x' where l: "fusion_multihybrid_update s x preds PC outcome our_pred = (s', x')" by force
  have "fusion_multihybrid_inv s'"
    using fmultihybrid.update_law [OF _ _ l] F_multihybrid assms by (simp add: fusion_multihybrid_inv_def)
  then show ?thesis using F_multihybrid x l assms by (simp add: fus_keeps_def fun_eq_iff fcasts)
next
  case (F_colt s)
  then obtain x where x: "as_colt sc = Some x" "fusion_colt_sc_ok s x" using assms(2) by (auto split: option.splits)
  obtain s' x' where l: "fusion_colt_update s x preds PC outcome our_pred = (s', x')" by force
  show ?thesis using colt_update_ok [OF _ x(2) l] F_colt x l assms by (auto simp: fus_keeps_def fun_eq_iff split: option.splits)
qed (use assms in \<open>auto simp: fusion_inherited_update_def case_prod_beta fus_keeps_def fun_eq_iff\<close>)

lemma fus_history_ok:
  assumes "fus_inv n f" and "fus_sc_ok f sc"
  shows "\<exists>f'. fus_spec_update f sc our_pred = Some f' \<and> fus_keeps n f f'"
    and "\<exists>f'. fus_recover f sc outcome = Some f' \<and> fus_keeps n f f'"
    and "\<exists>f'. fus_flush f sc = Some f' \<and> fus_keeps n f f'"
  using assms fmcfarling.spec_update_law fpriority.spec_update_law fmultihybrid.spec_update_law
  by (cases f; auto simp: fus_keeps_def fun_eq_iff colt_history_ok split: option.splits)+

text \<open>The target buffers.\<close>

lemma btac_count_frame [simp]:
  "BTB_btac_inv (BTB_count_lookup s) = BTB_btac_inv s" "BTB_btac_sc_ok (BTB_count_lookup s) = BTB_btac_sc_ok s"
  "BTB_btac_t.replacement_policy (BTB_count_lookup s) = BTB_btac_t.replacement_policy s"
  "BTB_btac_inv (BTB_spec_update s) = BTB_btac_inv s" "BTB_btac_sc_ok (BTB_spec_update s) = BTB_btac_sc_ok s"
  "BTB_btac_t.replacement_policy (BTB_spec_update s) = BTB_btac_t.replacement_policy s"
  by (auto simp: BTB_base_defs BTB_btac_inv_def BTB_btac_sc_ok_def fun_eq_iff split: option.splits)

lemma btac2_count_frame [simp]:
  "BTB_2levbtac_inv (BTB_count_lookup s) = BTB_2levbtac_inv s"
  "BTB_2levbtac_sc_ok (BTB_count_lookup s) = BTB_2levbtac_sc_ok s"
  by (auto simp: BTB_base_defs BTB_2levbtac_inv_def BTB_2levbtac_sc_ok_def fun_eq_iff split: option.splits)

lemma btac2_policy_frame [simp]:
  "BTB_2levbtac_t.replacement_policy (BTB_2levbtac_spec_update s sc our_pred) = BTB_2levbtac_t.replacement_policy s"
  "BTB_2levbtac_t.replacement_policy (BTB_2levbtac_recover s sc outcome) = BTB_2levbtac_t.replacement_policy s"
  "BTB_2levbtac_t.replacement_policy (BTB_2levbtac_flush s sc) = BTB_2levbtac_t.replacement_policy s"
  by (simp_all add: BTB_2levbtac_spec_update_def BTB_2levbtac_recover_def BTB_2levbtac_flush_def Let_def BTB_base_defs)

lemma btb_lookup_ok:
  assumes "btb_inv t" and "btb_match t sc"
  shows "\<exists>a t' sc'. btb_lookup t sc PC tPC oPC outcome our_pred = Some (a, t', sc') \<and> btb_keeps t t' \<and> btb_sc_ok t' sc'"
proof (cases t)
  case (T_perfect s)
  then show ?thesis using assms by (auto simp: BTB_perfect_lookup_def btb_keeps_def fun_eq_iff)
next
  case (T_btac s)
  then obtain x where x: "as_btac sc = Some x" using assms(2) by auto
  then show ?thesis using BTB_btac_lookup_contents [of s x PC] T_btac assms
    by (auto simp: btb_keeps_def fun_eq_iff split: option.splits)
next
  case (T_2lev s)
  then obtain x where x: "as_2levbtac sc = Some x" using assms(2) by auto
  then show ?thesis using BTB_2levbtac_lookup_ok [of s x PC] T_2lev assms
    by (auto simp: btb_keeps_def fun_eq_iff split: option.splits)
qed

lemma btb_update_ok:
  assumes "btb_inv t" and "btb_sc_ok t sc"
  shows "\<exists>t' sc'. btb_update r t sc PC oPC our_target outcome our_pred = Some (Inr (t', sc')) \<and>
    btb_keeps t t' \<and> btb_sc_ok t' sc'"
proof (cases t)
  case (T_perfect s)
  then show ?thesis using assms by (auto simp: BTB_perfect_update_def case_prod_beta btb_keeps_def fun_eq_iff)
next
  case (T_btac s)
  then obtain x where x: "as_btac sc = Some x" "BTB_btac_sc_ok s x" using assms(2) by (auto split: option.splits)
  moreover from T_btac assms x obtain s' x' where
    "BTB_btac_update r s x PC oPC our_target outcome our_pred = Some (Inr (s', x'))" "BTB_btac_inv s'"
    "BTB_btac_sc_ok s' x'" "BTB_btac_sc_ok s' = BTB_btac_sc_ok s"
    "BTB_btac_t.replacement_policy s' = BTB_btac_t.replacement_policy s"
    using BTB_btac_update_safe [of s x r PC oPC our_target outcome our_pred] by auto
  ultimately show ?thesis using T_btac assms by (auto simp: btb_keeps_def fun_eq_iff split: option.splits)
next
  case (T_2lev s)
  then obtain x where x: "as_2levbtac sc = Some x" "BTB_2levbtac_sc_ok s x" using assms(2) by (auto split: option.splits)
  moreover from T_2lev assms x obtain s' x' where
    "BTB_2levbtac_update r s x PC oPC our_target outcome our_pred = Some (Inr (s', x'))" "BTB_2levbtac_inv s'"
    "BTB_2levbtac_sc_ok s' x'" "BTB_2levbtac_sc_ok s' = BTB_2levbtac_sc_ok s"
    "BTB_2levbtac_t.replacement_policy s' = BTB_2levbtac_t.replacement_policy s"
    using BTB_2levbtac_update_safe [of s x r PC oPC our_target outcome our_pred] by auto
  ultimately show ?thesis using T_2lev assms by (auto simp: btb_keeps_def fun_eq_iff split: option.splits)
qed

lemma btb_history_ok:
  assumes "btb_inv t" and "btb_sc_ok t sc"
  shows "\<exists>t'. btb_spec_update t sc our_pred = Some t' \<and> btb_keeps t t'"
    and "\<exists>t'. btb_recover t sc outcome = Some t' \<and> btb_keeps t t'"
    and "\<exists>t'. btb_flush t sc = Some t' \<and> btb_keeps t t'"
  using assms
  by (cases t; auto simp: btb_keeps_def fun_eq_iff BTB_2levbtac_history_ops split: option.splits)+

text \<open>The return address stacks. A checkpoint they write is one they can be recovered to.\<close>

lemma ras_count_frame [simp]:
  "ras_inv (ras_count_push s) = ras_inv s" "ras_match (ras_count_push s) = ras_match s"
  "ras_cp_ok (ras_count_push s) = ras_cp_ok s"
  "ras_inv (ras_count_pop s) = ras_inv s" "ras_match (ras_count_pop s) = ras_match s"
  "ras_cp_ok (ras_count_pop s) = ras_cp_ok s"
  "ras_inv (ras_count_hit s) = ras_inv s" "ras_match (ras_count_hit s) = ras_match s"
  "ras_cp_ok (ras_count_hit s) = ras_cp_ok s"
  by (cases s; simp add: ras_count_push_def ras_count_pop_def ras_count_hit_def RAS_stack_inv_def
      RAS_multistack_inv_def fun_eq_iff split: option.split)+

lemma RAS_stack_pop_size: "RAS_stack_pop s = (a, s') \<Longrightarrow> sz s' = sz s"
  by (auto simp: RAS_stack_pop_def Let_def)

lemma RAS_multistack_real_ops:
  assumes "RAS_multistack_inv s"
  shows "RAS_multistack_inv (RAS_multistack_real_push s a)" "RAS_multistack_inv (snd (RAS_multistack_real_pop s))"
  using assms by (simp_all add: RAS_multistack_inv_def RAS_multistack_real_push_def RAS_multistack_real_pop_def
      Let_def modinc_less moddec_less)

lemma ras_push_ok: "ras_inv s \<Longrightarrow> ras_keeps s (ras_push s a)"
  using rstack.push_law rmulti.push_law
  by (cases s) (auto simp: ras_keeps_def fun_eq_iff RAS_stack_push_def Let_def split: option.splits)

lemma ras_pop_ok: "ras_inv s \<Longrightarrow> ras_keeps s (snd (ras_pop s oPC))"
proof (cases s)
  case (R_stack x)
  moreover obtain a x' where "RAS_stack_pop x = (a, x')" by force
  moreover assume "ras_inv s"
  ultimately show ?thesis using rstack.pop_law [of x a x']
    by (auto simp: ras_keeps_def fun_eq_iff RAS_stack_pop_size split: option.splits)
next
  case (R_multi x)
  moreover obtain a x' where "RAS_multistack_pop x = (a, x')" by force
  moreover assume "ras_inv s"
  ultimately show ?thesis using rmulti.pop_law [of x a x'] by (auto simp: ras_keeps_def)
qed (auto simp: ras_keeps_def RAS_perfect_pop_def)

lemma ras_real_ok:
  assumes "ras_inv s"
  shows "ras_keeps s (ras_real_push s a)" "ras_keeps s (snd (ras_real_pop s))"
  using assms
  by (cases s; auto simp: ras_keeps_def RAS_real_push_def RAS_real_pop_def RAS_multistack_real_ops fun_eq_iff)+

lemma ras_recover_ok:
  assumes "ras_inv s" and "ras_cp_ok s cp"
  shows "\<exists>s'. ras_recover s cp = Some s' \<and> ras_keeps s s'"
proof (cases s)
  case (R_multi x)
  have "RAS_multistack_inv (RAS_multistack_recover x)"
    using assms R_multi by (simp add: RAS_multistack_inv_def RAS_multistack_recover_def RAS_count_recover_def Let_def)
  then show ?thesis using R_multi by (auto simp: ras_keeps_def fun_eq_iff)
qed (use assms in \<open>auto simp: ras_keeps_def fun_eq_iff RAS_stack_recover_def RAS_count_recover_def
    RAS_stack_inv_def Let_def split: option.splits\<close>)

lemma ras_recover_state_ok:
  assumes "ras_inv s" and "ras_match s cp"
  shows "\<exists>cp'. ras_recover_state s cp = Some cp' \<and> ras_cp_ok s cp'"
  using assms by (cases s) (auto simp: RAS_stack_recover_state_def RAS_stack_inv_def)

end
