(* ===== verification/Bpred_Top.thy ===== *)
theory Bpred_Top
  imports Bpred_Dispatch Front_Dispatch
begin

text \<open>
  The top-level branch predictor \<^verbatim>\<open>bpred_t\<close> of \<^verbatim>\<open>zesto-bpred.cpp\<close>: direction predictors, their fusion,
  target buffers and return address stack behind one interface, the pool of state caches, and the
  sequences of calls its clients make (fetch, commit, recovery and squash in the pipeline,
  \<^verbatim>\<open>BranchPredict\<close> in the Pin tool). None is a wrong cast, a missing state cache, an index out of
  range or a loop that does not end; \<open>Some (Inl e)\<close> a failed assertion.
\<close>

section \<open>State\<close>

record inst_flags_t =
  CTRL :: bool
  UNCOND :: bool
  COND :: bool
  MEM :: bool
  LOAD :: bool
  STORE :: bool
  TRAP :: bool
  INDIR :: bool
  CALL :: bool
  RETN :: bool
  ATOMIC :: bool

record bpred_state_cache_t =
  preds :: "bool list"
  our_target :: md_addr_t
  pcache :: "dir_sc list"
  fcache :: fusion_sc
  dirjmp :: btb_sc
  indirjmp :: "btb_sc option"
  ras_checkpoint :: "cint option"
  our_pred :: bool

record bpred_t =
  num_pred :: cint
  bpreds :: "dir_pred list"
  fusion :: fusion_obj
  ras :: ras_obj
  dirjmp_BTB :: btb_obj
  indirjmp_BTB :: "btb_obj option"
  bpredSCC_size :: cint
  bpredSCC_head :: cint
  bpredSCC :: "bpred_state_cache_t option list"
  SC_debt :: cint
  num_lookups :: counter_t
  num_updates :: counter_t
  num_spec_updates :: counter_t
  num_cond :: counter_t
  num_call :: counter_t
  num_ret :: counter_t
  num_uncond :: counter_t
  num_dir_hits :: counter_t
  num_addr_hits :: counter_t
  num_hits :: counter_t
  frozen :: bool

text \<open>\<^verbatim>\<open>BPRED_STAT\<close>.\<close>

definition BPRED_STAT :: "(bpred_t \<Rightarrow> bpred_t) \<Rightarrow> bpred_t \<Rightarrow> bpred_t" where
  "BPRED_STAT f s = (if frozen s then s else f s)"

section \<open>Construction\<close>

definition init_state_cache_pool :: "cint \<Rightarrow> bpred_t \<Rightarrow> fatal + bpred_t" where
  "init_state_cache_pool start_size s =
     checks [(\<not> sint start_size \<le> 0, Bad_config)]
       (s\<lparr>bpredSCC_size := start_size, bpredSCC_head := 0, bpredSCC := replicate (unat start_size) None\<rparr>)"

fun all_ok :: "('e + 'a) list \<Rightarrow> 'e + 'a list" where
  "all_ok [] = Inr []"
| "all_ok (Inl e # xs) = Inl e"
| "all_ok (Inr a # xs) = (case all_ok xs of Inl e \<Rightarrow> Inl e | Inr as \<Rightarrow> Inr (a # as))"

text \<open>The constructor takes the objects the \<^verbatim>\<open>_from_string\<close> functions build, or the first error; the
  indirect buffer is None for \<^verbatim>\<open>"none"\<close>.\<close>

definition bpred_create :: "(fatal + dir_pred) list \<Rightarrow> fatal + fusion_obj \<Rightarrow> fatal + btb_obj \<Rightarrow>
    (fatal + btb_obj) option \<Rightarrow> fatal + ras_obj \<Rightarrow> fatal + bpred_t" where
  "bpred_create ds f d i r =
     (case all_ok ds of Inl e \<Rightarrow> Inl e | Inr ds' \<Rightarrow>
      case f of Inl e \<Rightarrow> Inl e | Inr f' \<Rightarrow>
      case d of Inl e \<Rightarrow> Inl e | Inr d' \<Rightarrow>
      case (case i of None \<Rightarrow> Inr None | Some (Inl e) \<Rightarrow> Inl e | Some (Inr i') \<Rightarrow> Inr (Some i')) of
        Inl e \<Rightarrow> Inl e | Inr i' \<Rightarrow>
      case r of Inl e \<Rightarrow> Inl e | Inr r' \<Rightarrow>
      init_state_cache_pool 32
        \<lparr>num_pred = word_of_nat (length ds'), bpreds = ds', fusion = f', ras = r', dirjmp_BTB = d',
         indirjmp_BTB = i', bpredSCC_size = 0, bpredSCC_head = 0, bpredSCC = [], SC_debt = 0,
         num_lookups = 0, num_updates = 0, num_spec_updates = 0, num_cond = 0, num_call = 0, num_ret = 0,
         num_uncond = 0, num_dir_hits = 0, num_addr_hits = 0, num_hits = 0, frozen = False\<rparr>)"

section \<open>Operations\<close>

text \<open>The loops over the direction predictors: predictor \<open>i\<close>, its cache and its prediction.\<close>

fun for_preds :: "(nat \<Rightarrow> 'd \<Rightarrow> 'c \<Rightarrow> 'p \<Rightarrow> ('d \<times> 'c \<times> 'p) option) \<Rightarrow> nat \<Rightarrow> 'd list \<Rightarrow> 'c list \<Rightarrow> 'p list \<Rightarrow>
    ('d list \<times> 'c list \<times> 'p list) option" where
  "for_preds f i [] [] [] = Some ([], [], [])"
| "for_preds f i (d # ds) (c # cs) (p # ps) =
     (case f i d c p of None \<Rightarrow> None
      | Some (d', c', p') \<Rightarrow>
        map_option (\<lambda>(ds', cs', ps'). (d' # ds', c' # cs', p' # ps')) (for_preds f (Suc i) ds cs ps))"
| "for_preds f i _ _ _ = None"

text \<open>An operation of the indirect buffer, if there is one.\<close>

definition opt_BTB :: "(btb_obj \<Rightarrow> btb_sc \<Rightarrow> 'a option) \<Rightarrow> 'a \<Rightarrow> btb_obj option \<Rightarrow> btb_sc option \<Rightarrow> 'a option" where
  "opt_BTB f dflt t sc = (case t of None \<Rightarrow> Some dflt
     | Some t' \<Rightarrow> (case sc of None \<Rightarrow> None | Some x \<Rightarrow> f t' x))"

text \<open>Draws of the random number generator: one per direction predictor, one for the fusion
  predictor, one for a target buffer.\<close>

record draws =
  dir_draw :: "nat \<Rightarrow> nat"
  fusion_draw :: nat
  btb_draw :: nat

definition bpred_lookup :: "draws \<Rightarrow> bpred_t \<Rightarrow> bpred_state_cache_t \<Rightarrow> inst_flags_t \<Rightarrow> md_addr_t \<Rightarrow> md_addr_t \<Rightarrow>
    md_addr_t \<Rightarrow> md_addr_t \<Rightarrow> bool \<Rightarrow> (md_addr_t \<times> bpred_t \<times> bpred_state_cache_t) option" where
  "bpred_lookup rnd s sc opflags PC fallthruPC targetPC oraclePC outcome =
     (let s = BPRED_STAT (\<lambda>s. s\<lparr>num_lookups := num_lookups s + 1\<rparr>) s in
      case for_preds (\<lambda>i d c p. map_option (\<lambda>(p', d', c'). (d', c', p'))
             (dir_lookup (dir_draw rnd i) d c PC targetPC oraclePC outcome)) 0 (bpreds s) (pcache sc) (preds sc) of
        None \<Rightarrow> None | Some (ds, cs, ps) \<Rightarrow>
      case fus_lookup (fusion_draw rnd) (fusion s) (fcache sc) ps PC outcome of
        None \<Rightarrow> None | Some (cond_dir, f, fc) \<Rightarrow>
      case btb_lookup (dirjmp_BTB s) (dirjmp sc) PC targetPC oraclePC outcome True of
        None \<Rightarrow> None | Some (dirPC, dt, dc) \<Rightarrow>
      case opt_BTB (\<lambda>t x. map_option (\<lambda>(a, t', x'). (a, Some t', Some x'))
             (btb_lookup t x PC targetPC oraclePC outcome True))
             (dirPC, None, indirjmp sc) (indirjmp_BTB s) (indirjmp sc) of
        None \<Rightarrow> None | Some (indirPC, it, ic) \<Rightarrow>
      (let (predPC, dir, r) =
         (if RETN opflags then (let (a, r') = ras_pop (ras s) oraclePC in (a, True, r'))
          else
            (let (dir, r') = (if COND opflags then (cond_dir, ras s)
                              else if CALL opflags then (True, ras_push (ras s) fallthruPC)
                              else (True, ras s))
             in (if dir \<and> INDIR opflags then indirPC else dirPC, dir, r')));
         predPC = (if \<not> dir \<or> predPC = 1 \<or> predPC = 0 then fallthruPC else predPC)
       in map_option (\<lambda>cp.
            (predPC,
             s\<lparr>bpreds := ds, fusion := f, dirjmp_BTB := dt, indirjmp_BTB := it, ras := r\<rparr>,
             sc\<lparr>preds := ps, pcache := cs, fcache := fc, dirjmp := dc, indirjmp := ic, our_pred := dir,
                ras_checkpoint := cp, our_target := predPC\<rparr>))
          (ras_recover_state r (ras_checkpoint sc))))"

text \<open>The statistics of an update, and the update of the direction predictors.\<close>

definition bpred_count_update :: "bpred_state_cache_t \<Rightarrow> md_addr_t \<Rightarrow> bool \<Rightarrow> bpred_t \<Rightarrow> bpred_t" where
  "bpred_count_update sc oraclePC outcome =
     BPRED_STAT (\<lambda>s. s\<lparr>num_updates := num_updates s + 1,
       num_dir_hits := num_dir_hits s + of_bool (our_pred sc = outcome),
       num_addr_hits := num_addr_hits s + of_bool (our_target sc = oraclePC),
       num_hits := num_hits s + of_bool (our_pred sc = outcome \<and> our_target sc = oraclePC)\<rparr>)"

definition bpred_update_cond :: "draws \<Rightarrow> bpred_t \<Rightarrow> bpred_state_cache_t \<Rightarrow> md_addr_t \<Rightarrow> md_addr_t \<Rightarrow> md_addr_t \<Rightarrow>
    bool \<Rightarrow> (bpred_t \<times> bpred_state_cache_t) option" where
  "bpred_update_cond rnd s sc PC targetPC oraclePC outcome =
     (let s = BPRED_STAT (\<lambda>s. s\<lparr>num_cond := num_cond s + 1\<rparr>) s in
      case for_preds (\<lambda>i d c p. map_option (\<lambda>(d', c'). (d', c', p))
             (dir_update (dir_draw rnd i) d c PC targetPC oraclePC outcome p)) 0 (bpreds s) (pcache sc) (preds sc) of
        None \<Rightarrow> None | Some (ds, cs, ps) \<Rightarrow>
      map_option (\<lambda>(f, fc). (s\<lparr>bpreds := ds, fusion := f\<rparr>, sc\<lparr>pcache := cs, fcache := fc\<rparr>))
        (fus_update (fusion s) (fcache sc) (preds sc) PC outcome (our_pred sc)))"

definition bpred_update_BTB :: "draws \<Rightarrow> bpred_t \<Rightarrow> bpred_state_cache_t \<Rightarrow> inst_flags_t \<Rightarrow> md_addr_t \<Rightarrow>
    md_addr_t \<Rightarrow> bool \<Rightarrow> (fatal + bpred_t \<times> bpred_state_cache_t) option" where
  "bpred_update_BTB rnd s sc opflags PC oraclePC outcome =
     (case (indirjmp_BTB s, INDIR opflags) of
        (Some t, True) \<Rightarrow>
          (case indirjmp sc of None \<Rightarrow> None
           | Some x \<Rightarrow> map_option (map_sum id (\<lambda>(t', x'). (s\<lparr>indirjmp_BTB := Some t'\<rparr>, sc\<lparr>indirjmp := Some x'\<rparr>)))
               (btb_update (btb_draw rnd) t x PC oraclePC (our_target sc) outcome (our_pred sc)))
      | _ \<Rightarrow> map_option (map_sum id (\<lambda>(t', x'). (s\<lparr>dirjmp_BTB := t'\<rparr>, sc\<lparr>dirjmp := x'\<rparr>)))
               (btb_update (btb_draw rnd) (dirjmp_BTB s) (dirjmp sc) PC oraclePC (our_target sc) outcome (our_pred sc)))"

definition bpred_update :: "draws \<Rightarrow> bpred_t \<Rightarrow> bpred_state_cache_t \<Rightarrow> inst_flags_t \<Rightarrow> md_addr_t \<Rightarrow> md_addr_t \<Rightarrow>
    md_addr_t \<Rightarrow> md_addr_t \<Rightarrow> bool \<Rightarrow> (fatal + bpred_t \<times> bpred_state_cache_t) option" where
  "bpred_update rnd s sc opflags PC fallthruPC targetPC oraclePC outcome =
     (let s = bpred_count_update sc oraclePC outcome s in
      if \<not> RETN opflags then
        (case (if COND opflags then bpred_update_cond rnd s sc PC targetPC oraclePC outcome
               else if CALL opflags then
                 Some (BPRED_STAT (\<lambda>s. s\<lparr>num_call := num_call s + 1, ras := ras_count_push (ras s)\<rparr>)
                         (s\<lparr>ras := ras_real_push (ras s) fallthruPC\<rparr>), sc)
               else Some (BPRED_STAT (\<lambda>s. s\<lparr>num_uncond := num_uncond s + 1\<rparr>) s, sc)) of
           None \<Rightarrow> None
         | Some (s, sc) \<Rightarrow> bpred_update_BTB rnd s sc opflags PC oraclePC outcome)
      else
        Some (Inr (BPRED_STAT (\<lambda>s. s\<lparr>num_ret := num_ret s + 1,
            ras := (if our_target sc = oraclePC then ras_count_hit else id) (ras_count_pop (ras s))\<rparr>)
          (s\<lparr>ras := snd (ras_real_pop (ras s))\<rparr>), sc)))"

definition bpred_spec_update :: "bpred_t \<Rightarrow> bpred_state_cache_t \<Rightarrow> inst_flags_t \<Rightarrow> md_addr_t \<Rightarrow> md_addr_t \<Rightarrow>
    md_addr_t \<Rightarrow> bool \<Rightarrow> (bpred_t \<times> bpred_state_cache_t) option" where
  "bpred_spec_update s sc opflags PC targetPC oraclePC outcome =
     (let s = BPRED_STAT (\<lambda>s. s\<lparr>num_spec_updates := num_spec_updates s + 1\<rparr>) s in
      if COND opflags then
        case for_preds (\<lambda>i d c p. map_option (\<lambda>(d', c'). (d', c', p))
               (dir_spec_update d c PC targetPC oraclePC outcome (our_pred sc))) 0 (bpreds s) (pcache sc) (preds sc) of
          None \<Rightarrow> None | Some (ds, cs, ps) \<Rightarrow>
        case fus_spec_update (fusion s) (fcache sc) (our_pred sc) of None \<Rightarrow> None | Some f \<Rightarrow>
        case btb_spec_update (dirjmp_BTB s) (dirjmp sc) (our_pred sc) of None \<Rightarrow> None | Some dt \<Rightarrow>
        case opt_BTB (\<lambda>t x. map_option Some (btb_spec_update t x (our_pred sc))) None (indirjmp_BTB s) (indirjmp sc) of
          None \<Rightarrow> None | Some it \<Rightarrow>
        Some (s\<lparr>bpreds := ds, fusion := f, dirjmp_BTB := dt, indirjmp_BTB := it\<rparr>, sc\<lparr>pcache := cs\<rparr>)
      else Some (s, sc))"

text \<open>\<^verbatim>\<open>recover\<close> and \<^verbatim>\<open>flush\<close> call the methods of the same name of every component in the same order.\<close>

definition bpred_restore :: "(dir_pred \<Rightarrow> dir_sc \<Rightarrow> dir_pred option) \<Rightarrow> (fusion_obj \<Rightarrow> fusion_sc \<Rightarrow> fusion_obj option) \<Rightarrow>
    (btb_obj \<Rightarrow> btb_sc \<Rightarrow> btb_obj option) \<Rightarrow> bpred_t \<Rightarrow> bpred_state_cache_t \<Rightarrow> bpred_t option" where
  "bpred_restore df ff bf s sc =
     (case for_preds (\<lambda>i d c p. map_option (\<lambda>d'. (d', c, p)) (df d c)) 0 (bpreds s) (pcache sc) (preds sc) of
        None \<Rightarrow> None | Some (ds, cs, ps) \<Rightarrow>
      case ff (fusion s) (fcache sc) of None \<Rightarrow> None | Some f \<Rightarrow>
      case ras_recover (ras s) (ras_checkpoint sc) of None \<Rightarrow> None | Some r \<Rightarrow>
      case bf (dirjmp_BTB s) (dirjmp sc) of None \<Rightarrow> None | Some dt \<Rightarrow>
      case opt_BTB (\<lambda>t x. map_option Some (bf t x)) None (indirjmp_BTB s) (indirjmp sc) of
        None \<Rightarrow> None | Some it \<Rightarrow>
      Some (s\<lparr>bpreds := ds, fusion := f, ras := r, dirjmp_BTB := dt, indirjmp_BTB := it\<rparr>))"

definition bpred_recover :: "bpred_t \<Rightarrow> bpred_state_cache_t \<Rightarrow> bool \<Rightarrow> bpred_t option" where
  "bpred_recover s sc outcome =
     bpred_restore (\<lambda>d x. dir_recover d x outcome) (\<lambda>f x. fus_recover f x outcome) (\<lambda>t x. btb_recover t x outcome) s sc"

definition bpred_flush :: "bpred_t \<Rightarrow> bpred_state_cache_t \<Rightarrow> bpred_t option" where
  "bpred_flush s sc = bpred_restore dir_flush fus_flush btb_flush s sc"

definition bpred_reset_stats :: "bpred_t \<Rightarrow> bpred_t" where
  "bpred_reset_stats s =
     s\<lparr>bpreds := map dir_reset_stats (bpreds s), fusion := fus_reset_stats (fusion s), ras := ras_reset_stats (ras s),
       dirjmp_BTB := btb_reset_stats (dirjmp_BTB s), indirjmp_BTB := map_option btb_reset_stats (indirjmp_BTB s),
       num_lookups := 0, num_updates := 0, num_spec_updates := 0, num_cond := 0, num_call := 0, num_ret := 0,
       num_uncond := 0, num_dir_hits := 0, num_addr_hits := 0, num_hits := 0\<rparr>"

definition bpred_freeze_stats :: "bpred_t \<Rightarrow> bpred_t" where
  "bpred_freeze_stats s =
     s\<lparr>frozen := True, bpreds := map dir_freeze (bpreds s), fusion := fus_freeze (fusion s), ras := ras_freeze (ras s),
       dirjmp_BTB := btb_freeze (dirjmp_BTB s), indirjmp_BTB := map_option btb_freeze (indirjmp_BTB s)\<rparr>"

section \<open>The pool of state caches\<close>

definition new_state_cache :: "bpred_t \<Rightarrow> bpred_state_cache_t" where
  "new_state_cache s =
     \<lparr>preds = replicate (unat (num_pred s)) False, our_target = 0, pcache = map dir_get_cache (bpreds s),
      fcache = fus_get_cache (fusion s), dirjmp = btb_get_cache (dirjmp_BTB s),
      indirjmp = map_option btb_get_cache (indirjmp_BTB s), ras_checkpoint = ras_get_state (ras s),
      our_pred = False\<rparr>"

definition get_state_cache :: "bpred_t \<Rightarrow> bpred_state_cache_t \<times> bpred_t" where
  "get_state_cache s =
     (case bpredSCC s ! unat (bpredSCC_head s) of
        None \<Rightarrow> (let s = s\<lparr>SC_debt := SC_debt s + 1\<rparr> in (new_state_cache s, s))
      | Some sc \<Rightarrow>
          (let s = s\<lparr>bpredSCC := (bpredSCC s)[unat (bpredSCC_head s) := None]\<rparr>
           in (sc, if sint (bpredSCC_head s) > 0 then s\<lparr>bpredSCC_head := bpredSCC_head s - 1\<rparr> else s)))"

definition grow_pool :: "bpred_t \<Rightarrow> bpred_t" where
  "grow_pool s =
     (let new_size = bpredSCC_size s * 2
      in s\<lparr>bpredSCC := take (unat new_size) (bpredSCC s) @ replicate (unat new_size - unat (bpredSCC_size s)) None,
           bpredSCC_size := new_size\<rparr>)"

definition return_state_cache :: "bpred_t \<Rightarrow> bpred_state_cache_t \<Rightarrow> bpred_t" where
  "return_state_cache s sc =
     (if bpredSCC s ! unat (bpredSCC_head s) = None
      then s\<lparr>bpredSCC := (bpredSCC s)[unat (bpredSCC_head s) := Some sc]\<rparr>
      else
        (let s = (if bpredSCC_head s = bpredSCC_size s - 1 then grow_pool s else s);
             s = s\<lparr>bpredSCC_head := bpredSCC_head s + 1\<rparr>
         in s\<lparr>bpredSCC := (bpredSCC s)[unat (bpredSCC_head s) := Some sc]\<rparr>))"

text \<open>The pool is destroyed at the end; what is left of \<^verbatim>\<open>SC_debt\<close> is the number of leaked caches.\<close>

definition destroy_state_cache_pool :: "bpred_t \<Rightarrow> bpred_t" where
  "destroy_state_cache_pool s =
     (let s = fold (\<lambda>e s. if e = None then s else s\<lparr>SC_debt := SC_debt s - 1\<rparr>) (bpredSCC s) s
      in s\<lparr>bpredSCC := [], bpredSCC_size := 0, bpredSCC_head := 0\<rparr>)"

section \<open>Laws of the components, put together\<close>

definition bp_inv :: "bpred_t \<Rightarrow> bool" where
  "bp_inv s \<longleftrightarrow> unat (num_pred s) = length (bpreds s) \<and> list_all dir_inv (bpreds s) \<and>
     fus_inv (length (bpreds s)) (fusion s) \<and> ras_inv (ras s) \<and> btb_inv (dirjmp_BTB s) \<and>
     pred_option btb_inv (indirjmp_BTB s)"

definition sc_fits :: "(dir_pred \<Rightarrow> dir_sc \<Rightarrow> bool) \<Rightarrow> (fusion_obj \<Rightarrow> fusion_sc \<Rightarrow> bool) \<Rightarrow> (btb_obj \<Rightarrow> btb_sc \<Rightarrow> bool) \<Rightarrow>
    (ras_obj \<Rightarrow> cint option \<Rightarrow> bool) \<Rightarrow> bpred_t \<Rightarrow> bpred_state_cache_t \<Rightarrow> bool" where
  "sc_fits pf ff tf rf s sc \<longleftrightarrow> list_all2 pf (bpreds s) (pcache sc) \<and> length (preds sc) = length (bpreds s) \<and>
     ff (fusion s) (fcache sc) \<and> tf (dirjmp_BTB s) (dirjmp sc) \<and>
     rel_option tf (indirjmp_BTB s) (indirjmp sc) \<and> rf (ras s) (ras_checkpoint sc)"

text \<open>A cache of the right classes, and one that a look-up has filled.\<close>

definition sc_match :: "bpred_t \<Rightarrow> bpred_state_cache_t \<Rightarrow> bool" where
  "sc_match = sc_fits dir_match fus_match btb_match ras_match"

definition sc_ok :: "bpred_t \<Rightarrow> bpred_state_cache_t \<Rightarrow> bool" where
  "sc_ok = sc_fits dir_sc_ok fus_sc_ok btb_sc_ok ras_cp_ok"

definition same_pool :: "bpred_t \<Rightarrow> bpred_t \<Rightarrow> bool" where
  "same_pool s s' \<longleftrightarrow> bpredSCC s' = bpredSCC s \<and> bpredSCC_size s' = bpredSCC_size s \<and>
     bpredSCC_head s' = bpredSCC_head s \<and> SC_debt s' = SC_debt s"

definition bp_keeps :: "bpred_t \<Rightarrow> bpred_t \<Rightarrow> bool" where
  "bp_keeps s s' \<longleftrightarrow> bp_inv s' \<and> sc_match s' = sc_match s \<and> (\<forall>x. sc_ok s x \<longrightarrow> sc_ok s' x) \<and> same_pool s s'"

definition parts_keep :: "bpred_t \<Rightarrow> bpred_t \<Rightarrow> bool" where
  "parts_keep s s' \<longleftrightarrow> num_pred s' = num_pred s \<and> list_all2 dir_keeps (bpreds s) (bpreds s') \<and>
     fus_keeps (length (bpreds s)) (fusion s) (fusion s') \<and> ras_keeps (ras s) (ras s') \<and>
     btb_keeps (dirjmp_BTB s) (dirjmp_BTB s') \<and> rel_option btb_keeps (indirjmp_BTB s) (indirjmp_BTB s')"

lemma sc_ok_match: "sc_ok s x \<Longrightarrow> sc_match s x"
  unfolding sc_ok_def sc_match_def sc_fits_def
  by (auto elim!: list.rel_mono_strong option.rel_mono_strong
      intro: dir_sc_ok_match fus_sc_ok_match btb_sc_ok_match ras_cp_ok_match)

lemma list_all2_keeps:
  assumes "list_all2 K ds ds'" and "\<And>d d' c. K d d' \<Longrightarrow> P d c \<Longrightarrow> P d' c"
  shows "list_all2 P ds cs \<Longrightarrow> list_all2 P ds' cs"
  using assms(1)
proof (induction arbitrary: cs)
  case (Cons d ds d' ds')
  then show ?case using assms(2) by (auto simp: list_all2_Cons1)
qed simp

lemma list_all2_keeps_eq:
  assumes "list_all2 K ds ds'" and "\<And>d d'. K d d' \<Longrightarrow> P d' = P d"
  shows "list_all2 P ds' cs = list_all2 P ds cs"
  using assms(1)
proof (induction arbitrary: cs)
  case (Cons d ds d' ds')
  then show ?case using assms(2) [of d d'] by (auto simp: list_all2_Cons1)
qed simp

lemma parts_keepI:
  assumes "bp_inv s" and "parts_keep s s'" and "same_pool s s'"
  shows "bp_keeps s s'"
proof -
  have l: "length (bpreds s') = length (bpreds s)"
    using assms(2) by (auto simp: parts_keep_def dest: list_all2_lengthD)
  have "list_all dir_inv (bpreds s')"
    using assms(2) unfolding parts_keep_def
    by (auto simp: list_all_length list_all2_conv_all_nth dir_keeps_def)
  then have "bp_inv s'" using assms(1,2) l
    by (auto simp: bp_inv_def parts_keep_def fus_keeps_def btb_keeps_def ras_keeps_def option.rel_sel option.pred_set
        split: option.splits)
  moreover have "sc_match s' x = sc_match s x" for x
    using assms(2) l list_all2_keeps_eq [of dir_keeps "bpreds s" "bpreds s'" dir_match "pcache x"]
    by (cases "indirjmp_BTB s"; cases "indirjmp_BTB s'"; cases "indirjmp x")
      (auto simp: sc_match_def sc_fits_def parts_keep_def dir_keeps_def fus_keeps_def btb_keeps_def ras_keeps_def)
  moreover have "sc_ok s' x" if "sc_ok s x" for x
    using assms(2) l that list_all2_keeps [of dir_keeps "bpreds s" "bpreds s'" dir_sc_ok "pcache x"]
    by (cases "indirjmp_BTB s"; cases "indirjmp_BTB s'"; cases "indirjmp x")
      (auto simp: sc_ok_def sc_fits_def parts_keep_def dir_keeps_def fus_keeps_def btb_keeps_def ras_keeps_def)
  ultimately show ?thesis using assms(3) by (simp add: bp_keeps_def fun_eq_iff)
qed

lemma for_preds_ok:
  assumes "list_all2 P ds cs" and "length ps = length ds"
    and "\<And>i d c p. P d c \<Longrightarrow> \<exists>d' c' p'. f i d c p = Some (d', c', p') \<and> K d d' \<and> Q d' c'"
  shows "\<exists>ds' cs' ps'. for_preds f i ds cs ps = Some (ds', cs', ps') \<and> list_all2 K ds ds' \<and>
    list_all2 Q ds' cs' \<and> length ps' = length ds"
  using assms(1,2)
proof (induction arbitrary: i ps)
  case (Cons d ds c cs)
  then obtain p ps1 where ps: "ps = p # ps1" "length ps1 = length ds"
    by (cases ps) (auto dest: list_all2_lengthD)
  obtain d' c' p' where "f i d c p = Some (d', c', p')" "K d d'" "Q d' c'"
    using assms(3) [OF Cons.hyps(1), of i p] by auto
  then show ?case using Cons.IH [OF ps(2), of "Suc i"] ps(1) by auto
qed simp

text \<open>Every operation on a cache of the right kind succeeds and keeps the state well-formed.\<close>

lemma list_all2_inv: "bp_inv s \<Longrightarrow> list_all2 P (bpreds s) cs \<Longrightarrow> list_all2 (\<lambda>d c. dir_inv d \<and> P d c) (bpreds s) cs"
  by (auto simp: bp_inv_def list_all_length list_all2_conv_all_nth)

lemma stat_frame [simp]:
  "bpreds (bpred_count_update sc oPC oc s) = bpreds s" "fusion (bpred_count_update sc oPC oc s) = fusion s"
  "ras (bpred_count_update sc oPC oc s) = ras s" "dirjmp_BTB (bpred_count_update sc oPC oc s) = dirjmp_BTB s"
  "indirjmp_BTB (bpred_count_update sc oPC oc s) = indirjmp_BTB s" "num_pred (bpred_count_update sc oPC oc s) = num_pred s"
  "bpredSCC (bpred_count_update sc oPC oc s) = bpredSCC s" "bpredSCC_size (bpred_count_update sc oPC oc s) = bpredSCC_size s"
  "bpredSCC_head (bpred_count_update sc oPC oc s) = bpredSCC_head s" "SC_debt (bpred_count_update sc oPC oc s) = SC_debt s"
  by (simp_all add: bpred_count_update_def BPRED_STAT_def)

lemma opt_BTB_ok:
  assumes "pred_option btb_inv t" and "rel_option P t sc"
    and "\<And>t x. btb_inv t \<Longrightarrow> P t x \<Longrightarrow> \<exists>y. f t x = Some y \<and> Q t x y" and "t = None \<Longrightarrow> sc = None \<Longrightarrow> R dflt"
    and "\<And>u x y. t = Some u \<Longrightarrow> sc = Some x \<Longrightarrow> Q u x y \<Longrightarrow> R y"
  shows "\<exists>y. opt_BTB f dflt t sc = Some y \<and> R y"
proof (cases t)
  case None
  then show ?thesis using assms(2,4) by (simp add: opt_BTB_def)
next
  case (Some u)
  then obtain x where x: "sc = Some x" "P u x" using assms(2) by (auto simp: option_rel_Some1)
  then obtain y where "f u x = Some y" "Q u x y" using assms(1,3) Some by auto
  then show ?thesis using Some x assms(5) by (auto simp: opt_BTB_def)
qed

lemma indir_lookup_ok:
  assumes "pred_option btb_inv t" and "rel_option btb_match t sc"
  shows "\<exists>ip it ic. opt_BTB (\<lambda>t x. map_option (\<lambda>(a, t', x'). (a, Some t', Some x'))
      (btb_lookup t x PC tPC oPC outcome True)) (dp, None, sc) t sc = Some (ip, it, ic) \<and>
    rel_option btb_keeps t it \<and> rel_option btb_sc_ok it ic"
proof -
  let ?g = "\<lambda>t x. map_option (\<lambda>(a, t', x'). (a, Some t', Some x')) (btb_lookup t x PC tPC oPC outcome True)"
  have "\<exists>y. opt_BTB ?g (dp, None, sc) t sc = Some y \<and>
      (case y of (_, it, ic) \<Rightarrow> rel_option btb_keeps t it \<and> rel_option btb_sc_ok it ic)"
    by (rule opt_BTB_ok [OF assms, where Q = "\<lambda>t x y. \<exists>a t' x'. y = (a, Some t', Some x') \<and> btb_keeps t t' \<and> btb_sc_ok t' x'"])
      (use btb_lookup_ok in \<open>fastforce+\<close>)
  then show ?thesis by auto
qed

lemma preds_lookup_ok:
  assumes "bp_inv s" and "sc_match s sc"
  shows "\<exists>ds cs ps. for_preds (\<lambda>i d c p. map_option (\<lambda>(p', d', c'). (d', c', p'))
      (dir_lookup (dir_draw rnd i) d c PC tPC oPC outcome)) 0 (bpreds s) (pcache sc) (preds sc) = Some (ds, cs, ps) \<and>
    list_all2 dir_keeps (bpreds s) ds \<and> list_all2 dir_sc_ok ds cs \<and> length ps = length (bpreds s)"
proof (rule for_preds_ok [where P = "\<lambda>d c. dir_inv d \<and> dir_match d c"])
  show "list_all2 (\<lambda>d c. dir_inv d \<and> dir_match d c) (bpreds s) (pcache sc)" "length (preds sc) = length (bpreds s)"
    using assms list_all2_inv by (auto simp: sc_match_def sc_fits_def)
  show "\<exists>d' c' p'. map_option (\<lambda>(p', d', c'). (d', c', p')) (dir_lookup (dir_draw rnd i) d c PC tPC oPC outcome) =
      Some (d', c', p') \<and> dir_keeps d d' \<and> dir_sc_ok d' c'"
    if "dir_inv d \<and> dir_match d c" for i d c p
    using dir_lookup_ok [of d c "dir_draw rnd i" PC tPC oPC outcome] that by auto
qed

lemma bpred_stat_frame:
  assumes "s' = BPRED_STAT (\<lambda>s. s\<lparr>num_lookups := num_lookups s + 1\<rparr>) s \<or>
    s' = BPRED_STAT (\<lambda>s. s\<lparr>num_cond := num_cond s + 1\<rparr>) s \<or>
    s' = BPRED_STAT (\<lambda>s. s\<lparr>num_uncond := num_uncond s + 1\<rparr>) s \<or>
    s' = BPRED_STAT (\<lambda>s. s\<lparr>num_spec_updates := num_spec_updates s + 1\<rparr>) s"
  shows "bpreds s' = bpreds s" "fusion s' = fusion s" "ras s' = ras s" "dirjmp_BTB s' = dirjmp_BTB s"
    "indirjmp_BTB s' = indirjmp_BTB s" "num_pred s' = num_pred s" "bpredSCC s' = bpredSCC s"
    "bpredSCC_size s' = bpredSCC_size s" "bpredSCC_head s' = bpredSCC_head s" "SC_debt s' = SC_debt s"
  using assms by (auto simp: BPRED_STAT_def split: if_splits)

lemma bpred_lookup_ok:
  assumes "bp_inv s" and "sc_match s sc"
  shows "\<exists>a s' sc'. bpred_lookup rnd s sc fl PC ftPC tPC oPC outcome = Some (a, s', sc') \<and> bp_keeps s s' \<and> sc_ok s' sc'"
proof -
  let ?s = "BPRED_STAT (\<lambda>s. s\<lparr>num_lookups := num_lookups s + 1\<rparr>) s"
  note fr = bpred_stat_frame [of ?s s, OF disjI1, OF refl]
  have m: "fus_match (fusion s) (fcache sc)" "btb_match (dirjmp_BTB s) (dirjmp sc)"
    "rel_option btb_match (indirjmp_BTB s) (indirjmp sc)" "ras_match (ras s) (ras_checkpoint sc)"
    using assms(2) by (simp_all add: sc_match_def sc_fits_def)
  have i: "fus_inv (length (bpreds s)) (fusion s)" "ras_inv (ras s)" "btb_inv (dirjmp_BTB s)"
    "pred_option btb_inv (indirjmp_BTB s)" using assms(1) by (simp_all add: bp_inv_def)
  obtain ds cs ps where p: "for_preds (\<lambda>i d c p. map_option (\<lambda>(p', d', c'). (d', c', p'))
      (dir_lookup (dir_draw rnd i) d c PC tPC oPC outcome)) 0 (bpreds s) (pcache sc) (preds sc) = Some (ds, cs, ps)"
    "list_all2 dir_keeps (bpreds s) ds" "list_all2 dir_sc_ok ds cs" "length ps = length (bpreds s)"
    using preds_lookup_ok [OF assms] by blast
  obtain cd f fc where f: "fus_lookup (fusion_draw rnd) (fusion s) (fcache sc) ps PC outcome = Some (cd, f, fc)"
    "fus_keeps (length (bpreds s)) (fusion s) f" "fus_sc_ok f fc"
    using fus_lookup_ok [OF i(1) m(1) p(4)] by blast
  obtain dp dt dc where d: "btb_lookup (dirjmp_BTB s) (dirjmp sc) PC tPC oPC outcome True = Some (dp, dt, dc)"
    "btb_keeps (dirjmp_BTB s) dt" "btb_sc_ok dt dc"
    using btb_lookup_ok [OF i(3) m(2)] by blast
  obtain ip it ic where t: "opt_BTB (\<lambda>t x. map_option (\<lambda>(a, t', x'). (a, Some t', Some x'))
      (btb_lookup t x PC tPC oPC outcome True)) (dp, None, indirjmp sc) (indirjmp_BTB s) (indirjmp sc) = Some (ip, it, ic)"
    "rel_option btb_keeps (indirjmp_BTB s) it" "rel_option btb_sc_ok it ic"
    using indir_lookup_ok [OF i(4) m(3)] by blast
  define pr where "pr = (if RETN fl then (let (a, r') = ras_pop (ras s) oPC in (a, True, r'))
    else (let (dir, r') = (if COND fl then (cd, ras s) else if CALL fl then (True, ras_push (ras s) ftPC) else (True, ras s))
          in (if dir \<and> INDIR fl then ip else dp, dir, r')))"
  obtain pp dir r where pr': "pr = (pp, dir, r)" by (cases pr) auto
  have r: "ras_keeps (ras s) r"
    using pr' ras_push_ok [OF i(2)] ras_pop_ok [OF i(2)] keeps_refl(3) [OF i(2)]
    by (auto simp: pr_def case_prod_beta Let_def split: if_splits)
  then obtain cp where cp: "ras_recover_state r (ras_checkpoint sc) = Some cp" "ras_cp_ok r cp"
    using ras_recover_state_ok [of r "ras_checkpoint sc"] m(4) by (auto simp: ras_keeps_def)
  let ?a = "if \<not> dir \<or> pp = 1 \<or> pp = 0 then ftPC else pp"
  let ?s' = "?s\<lparr>bpreds := ds, fusion := f, dirjmp_BTB := dt, indirjmp_BTB := it, ras := r\<rparr>"
  let ?sc' = "sc\<lparr>preds := ps, pcache := cs, fcache := fc, dirjmp := dc, indirjmp := ic, our_pred := dir,
                ras_checkpoint := cp, our_target := ?a\<rparr>"
  have "bpred_lookup rnd s sc fl PC ftPC tPC oPC outcome = Some (?a, ?s', ?sc')"
    unfolding bpred_lookup_def Let_def [of ?s] fr p(1) f(1) d(1) t(1) option.case prod.case pr_def [symmetric] pr'
    by (simp add: cp(1))
  moreover have "parts_keep s ?s'" using p(2) f(2) d(2) t(2) r by (simp add: parts_keep_def fr)
  then have "bp_keeps s ?s'" by (rule parts_keepI [OF assms(1)]) (simp add: same_pool_def fr)
  moreover have "sc_ok ?s' ?sc'" using p(2-4) f(3) d(3) t(3) cp(2)
    by (simp add: sc_ok_def sc_fits_def list_all2_lengthD)
  ultimately show ?thesis by blast
qed

text \<open>Updating the direction predictors; both loops that only change predictors and caches.\<close>

lemma preds_update_ok:
  assumes "bp_inv s" and "sc_ok s sc"
    and g: "\<And>i d c p. dir_inv d \<Longrightarrow> dir_sc_ok d c \<Longrightarrow> \<exists>d' c'. g i d c p = Some (d', c') \<and> dir_keeps d d' \<and> dir_sc_ok d' c'"
  shows "\<exists>ds cs ps. for_preds (\<lambda>i d c p. map_option (\<lambda>(d', c'). (d', c', p)) (g i d c p)) 0 (bpreds s) (pcache sc) (preds sc) =
      Some (ds, cs, ps) \<and> list_all2 dir_keeps (bpreds s) ds \<and> list_all2 dir_sc_ok ds cs"
proof -
  have "\<exists>d' c' p'. map_option (\<lambda>(d', c'). (d', c', p)) (g i d c p) = Some (d', c', p') \<and> dir_keeps d d' \<and> dir_sc_ok d' c'"
    if "dir_inv d \<and> dir_sc_ok d c" for i d c p
    using g [of d c i p] that by auto
  moreover have "list_all2 (\<lambda>d c. dir_inv d \<and> dir_sc_ok d c) (bpreds s) (pcache sc)" "length (preds sc) = length (bpreds s)"
    using assms(1,2) list_all2_inv by (auto simp: sc_ok_def sc_fits_def)
  ultimately show ?thesis
    using for_preds_ok [of "\<lambda>d c. dir_inv d \<and> dir_sc_ok d c" "bpreds s" "pcache sc" "preds sc"
        "\<lambda>i d c p. map_option (\<lambda>(d', c'). (d', c', p)) (g i d c p)" dir_keeps dir_sc_ok 0] by blast
qed

lemma sc_okD:
  assumes "sc_ok s sc" and "bp_inv s"
  shows "length (preds sc) = length (bpreds s)" "fus_sc_ok (fusion s) (fcache sc)" "btb_sc_ok (dirjmp_BTB s) (dirjmp sc)"
    "rel_option btb_sc_ok (indirjmp_BTB s) (indirjmp sc)" "ras_cp_ok (ras s) (ras_checkpoint sc)"
    "fus_inv (length (bpreds s)) (fusion s)" "ras_inv (ras s)" "btb_inv (dirjmp_BTB s)" "pred_option btb_inv (indirjmp_BTB s)"
    "list_all2 dir_sc_ok (bpreds s) (pcache sc)"
  using assms by (simp_all add: sc_ok_def sc_fits_def bp_inv_def)

lemma parts_refl:
  assumes "bp_inv s"
  shows "list_all2 dir_keeps (bpreds s) (bpreds s)" "fus_keeps (length (bpreds s)) (fusion s) (fusion s)"
    "ras_keeps (ras s) (ras s)" "btb_keeps (dirjmp_BTB s) (dirjmp_BTB s)"
    "rel_option btb_keeps (indirjmp_BTB s) (indirjmp_BTB s)"
  using assms keeps_refl
  by (auto simp: bp_inv_def list_all_length list_all2_conv_all_nth dir_keeps_def option.rel_sel option.pred_set)

lemma bpred_update_cond_ok:
  assumes "bp_inv s" and "sc_ok s sc"
  shows "\<exists>s' sc'. bpred_update_cond rnd s sc PC tPC oPC outcome = Some (s', sc') \<and> bp_keeps s s' \<and> sc_ok s' sc'"
proof -
  let ?s = "BPRED_STAT (\<lambda>s. s\<lparr>num_cond := num_cond s + 1\<rparr>) s"
  note fr = bpred_stat_frame [of ?s s, OF disjI2, OF disjI1, OF refl]
  note ok = sc_okD [OF assms(2,1)]
  obtain ds cs ps where p: "for_preds (\<lambda>i d c p. map_option (\<lambda>(d', c'). (d', c', p))
      (dir_update (dir_draw rnd i) d c PC tPC oPC outcome p)) 0 (bpreds s) (pcache sc) (preds sc) = Some (ds, cs, ps)"
    "list_all2 dir_keeps (bpreds s) ds" "list_all2 dir_sc_ok ds cs"
    using preds_update_ok [OF assms, where g = "\<lambda>i d c p. dir_update (dir_draw rnd i) d c PC tPC oPC outcome p"]
      dir_update_ok by blast
  obtain f fc where f: "fus_update (fusion s) (fcache sc) (preds sc) PC outcome (our_pred sc) = Some (f, fc)"
    "fus_keeps (length (bpreds s)) (fusion s) f" "fus_sc_ok f fc"
    using fus_update_ok [OF ok(6,2,1)] by blast
  let ?s' = "?s\<lparr>bpreds := ds, fusion := f\<rparr>" and ?sc' = "sc\<lparr>pcache := cs, fcache := fc\<rparr>"
  have "bpred_update_cond rnd s sc PC tPC oPC outcome = Some (?s', ?sc')"
    unfolding bpred_update_cond_def Let_def fr p(1) f(1) by simp
  moreover have "parts_keep s ?s'" using p(2) f(2) parts_refl [OF assms(1)] by (simp add: parts_keep_def fr)
  then have "bp_keeps s ?s'" by (rule parts_keepI [OF assms(1)]) (simp add: same_pool_def fr)
  moreover have "sc_ok ?s' ?sc'" using p(2,3) f(3) ok
    by (simp add: sc_ok_def sc_fits_def list_all2_lengthD fr)
  ultimately show ?thesis by blast
qed

lemma bp_keeps_trans: "bp_keeps s s' \<Longrightarrow> bp_keeps s' s'' \<Longrightarrow> bp_keeps s s''"
  by (auto simp: bp_keeps_def same_pool_def)

lemma bpred_update_BTB_ok:
  assumes "bp_inv s" and "sc_ok s sc"
  shows "\<exists>s' sc'. bpred_update_BTB rnd s sc fl PC oPC outcome = Some (Inr (s', sc')) \<and> bp_keeps s s' \<and> sc_ok s' sc'"
proof (cases "\<exists>t. indirjmp_BTB s = Some t \<and> INDIR fl")
  case True
  note ok = sc_okD [OF assms(2,1)]
  obtain t x where t: "indirjmp_BTB s = Some t" "INDIR fl" "indirjmp sc = Some x" "btb_sc_ok t x" "btb_inv t"
    using True ok(4,9) by (auto simp: option_rel_Some1)
  obtain t' x' where u: "btb_update (btb_draw rnd) t x PC oPC (our_target sc) outcome (our_pred sc) = Some (Inr (t', x'))"
    "btb_keeps t t'" "btb_sc_ok t' x'" using btb_update_ok [OF t(5,4)] by blast
  let ?s' = "s\<lparr>indirjmp_BTB := Some t'\<rparr>" and ?sc' = "sc\<lparr>indirjmp := Some x'\<rparr>"
  have "parts_keep s ?s'" using u(2) t(1) parts_refl [OF assms(1)] by (simp add: parts_keep_def)
  then have "bp_keeps s ?s'" by (rule parts_keepI [OF assms(1)]) (simp add: same_pool_def)
  moreover have "sc_ok ?s' ?sc'" using u(3) ok by (simp add: sc_ok_def sc_fits_def)
  ultimately show ?thesis using u(1) t by (simp add: bpred_update_BTB_def)
next
  case False
  note ok = sc_okD [OF assms(2,1)]
  obtain t' x' where u: "btb_update (btb_draw rnd) (dirjmp_BTB s) (dirjmp sc) PC oPC (our_target sc) outcome (our_pred sc) =
      Some (Inr (t', x'))" "btb_keeps (dirjmp_BTB s) t'" "btb_sc_ok t' x'" using btb_update_ok [OF ok(8,3)] by blast
  let ?s' = "s\<lparr>dirjmp_BTB := t'\<rparr>" and ?sc' = "sc\<lparr>dirjmp := x'\<rparr>"
  have "parts_keep s ?s'" using u(2) parts_refl [OF assms(1)] by (simp add: parts_keep_def)
  then have "bp_keeps s ?s'" by (rule parts_keepI [OF assms(1)]) (simp add: same_pool_def)
  moreover have "sc_ok ?s' ?sc'" using u(3) ok by (simp add: sc_ok_def sc_fits_def)
  ultimately show ?thesis using u(1) False
    by (cases "indirjmp_BTB s"; cases "INDIR fl") (simp_all add: bpred_update_BTB_def)
qed

text \<open>Changes of statistics and of the return address stack only.\<close>

lemma ras_change_keeps:
  assumes "bp_inv s" and "ras_keeps (ras s) (ras s')" and "bpreds s' = bpreds s" "fusion s' = fusion s"
    "dirjmp_BTB s' = dirjmp_BTB s" "indirjmp_BTB s' = indirjmp_BTB s" "num_pred s' = num_pred s" and "same_pool s s'"
  shows "bp_keeps s s'"
  by (rule parts_keepI [OF assms(1) _ assms(8)]) (use assms parts_refl [OF assms(1)] in \<open>simp add: parts_keep_def\<close>)

lemma count_update_keeps: "bp_inv s \<Longrightarrow> bp_keeps s (bpred_count_update sc oPC outcome s)"
  by (rule ras_change_keeps) (simp_all add: same_pool_def parts_refl)

lemma ras_keeps_counts:
  "ras_keeps r (ras_count_push r') = ras_keeps r r'" "ras_keeps r (ras_count_pop r') = ras_keeps r r'"
  "ras_keeps r (ras_count_hit r') = ras_keeps r r'"
  by (simp_all add: ras_keeps_def)

lemma ras_update_keeps:
  assumes "bp_inv s"
  shows "bp_keeps s (BPRED_STAT (\<lambda>s. s\<lparr>num_call := num_call s + 1, ras := ras_count_push (ras s)\<rparr>)
      (s\<lparr>ras := ras_real_push (ras s) ftPC\<rparr>))"
    and "bp_keeps s (BPRED_STAT (\<lambda>s. s\<lparr>num_ret := num_ret s + 1,
        ras := (if b then ras_count_hit else id) (ras_count_pop (ras s))\<rparr>) (s\<lparr>ras := snd (ras_real_pop (ras s))\<rparr>))"
    and "bp_keeps s (BPRED_STAT (\<lambda>s. s\<lparr>num_uncond := num_uncond s + 1\<rparr>) s)"
  using assms ras_real_ok [of "ras s"] parts_refl(3) [OF assms]
  by (auto intro!: ras_change_keeps simp: BPRED_STAT_def same_pool_def ras_keeps_counts bp_inv_def)

lemma bpred_update_ok:
  assumes "bp_inv s" and "sc_ok s sc"
  shows "\<exists>s' sc'. bpred_update rnd s sc fl PC ftPC tPC oPC outcome = Some (Inr (s', sc')) \<and> bp_keeps s s' \<and> sc_ok s' sc'"
proof -
  define s1 where "s1 = bpred_count_update sc oPC outcome s"
  have k1: "bp_keeps s s1" using count_update_keeps [OF assms(1)] by (simp add: s1_def)
  then have i1: "bp_inv s1" "sc_ok s1 sc" using assms(2) by (auto simp: bp_keeps_def)
  show ?thesis
  proof (cases "RETN fl")
    case True
    let ?s2 = "BPRED_STAT (\<lambda>s. s\<lparr>num_ret := num_ret s + 1,
        ras := (if our_target sc = oPC then ras_count_hit else id) (ras_count_pop (ras s))\<rparr>) (s1\<lparr>ras := snd (ras_real_pop (ras s1))\<rparr>)"
    have k2: "bp_keeps s1 ?s2" by (rule ras_update_keeps(2) [OF i1(1)])
    then have "sc_ok ?s2 sc" using i1(2) unfolding bp_keeps_def by blast
    moreover have "bpred_update rnd s sc fl PC ftPC tPC oPC outcome = Some (Inr (?s2, sc))"
      unfolding bpred_update_def s1_def [symmetric] Let_def using True by simp
    ultimately show ?thesis using bp_keeps_trans [OF k1 k2] by blast
  next
    case False
    define u where "u = (if COND fl then bpred_update_cond rnd s1 sc PC tPC oPC outcome
      else if CALL fl then Some (BPRED_STAT (\<lambda>s. s\<lparr>num_call := num_call s + 1, ras := ras_count_push (ras s)\<rparr>)
                                   (s1\<lparr>ras := ras_real_push (ras s1) ftPC\<rparr>), sc)
      else Some (BPRED_STAT (\<lambda>s. s\<lparr>num_uncond := num_uncond s + 1\<rparr>) s1, sc))"
    have "\<exists>s2 sc2. u = Some (s2, sc2) \<and> bp_keeps s1 s2 \<and> sc_ok s2 sc2"
      using bpred_update_cond_ok [OF i1] ras_update_keeps(1,3) [OF i1(1)] i1(2) by (simp add: u_def bp_keeps_def)
    then obtain s2 sc2 where s2: "u = Some (s2, sc2)" "bp_keeps s1 s2" "sc_ok s2 sc2" by blast
    have "bp_inv s2" using s2(2) by (simp add: bp_keeps_def)
    then obtain s3 sc3 where s3: "bpred_update_BTB rnd s2 sc2 fl PC oPC outcome = Some (Inr (s3, sc3))"
      "bp_keeps s2 s3" "sc_ok s3 sc3" using bpred_update_BTB_ok [OF _ s2(3)] by blast
    have "bpred_update rnd s sc fl PC ftPC tPC oPC outcome = Some (Inr (s3, sc3))"
      unfolding bpred_update_def Let_def s1_def [symmetric] u_def [symmetric] s2(1) using False s3(1) by simp
    then show ?thesis using bp_keeps_trans [OF bp_keeps_trans [OF k1 s2(2)] s3(2)] s3(3) by blast
  qed
qed

lemma opt_btb_ok:
  assumes "pred_option btb_inv t" and "rel_option btb_sc_ok t sc"
    and "\<And>t x. btb_inv t \<Longrightarrow> btb_sc_ok t x \<Longrightarrow> \<exists>t'. f t x = Some t' \<and> btb_keeps t t'"
  shows "\<exists>it. opt_BTB (\<lambda>t x. map_option Some (f t x)) None t sc = Some it \<and> rel_option btb_keeps t it"
  by (rule opt_BTB_ok [OF assms(1,2), where Q = "\<lambda>t x y. \<exists>t'. y = Some t' \<and> btb_keeps t t'"])
    (use assms(3) in \<open>fastforce+\<close>)

lemma bpred_spec_update_ok:
  assumes "bp_inv s" and "sc_ok s sc"
  shows "\<exists>s' sc'. bpred_spec_update s sc fl PC tPC oPC outcome = Some (s', sc') \<and> bp_keeps s s' \<and> sc_ok s' sc'"
proof -
  let ?s = "BPRED_STAT (\<lambda>s. s\<lparr>num_spec_updates := num_spec_updates s + 1\<rparr>) s"
  note fr = bpred_stat_frame [of ?s s, OF disjI2, OF disjI2, OF disjI2, OF refl]
  note ok = sc_okD [OF assms(2,1)]
  obtain ds cs ps where p: "for_preds (\<lambda>i d c p. map_option (\<lambda>(d', c'). (d', c', p))
      (dir_spec_update d c PC tPC oPC outcome (our_pred sc))) 0 (bpreds s) (pcache sc) (preds sc) = Some (ds, cs, ps)"
    "list_all2 dir_keeps (bpreds s) ds" "list_all2 dir_sc_ok ds cs"
    using preds_update_ok [OF assms, where g = "\<lambda>i d c p. dir_spec_update d c PC tPC oPC outcome (our_pred sc)"]
      dir_spec_update_ok by blast
  obtain f where f: "fus_spec_update (fusion s) (fcache sc) (our_pred sc) = Some f" "fus_keeps (length (bpreds s)) (fusion s) f"
    using fus_history_ok(1) [OF ok(6,2)] by blast
  obtain dt where d: "btb_spec_update (dirjmp_BTB s) (dirjmp sc) (our_pred sc) = Some dt" "btb_keeps (dirjmp_BTB s) dt"
    using btb_history_ok(1) [OF ok(8,3)] by blast
  obtain it where it: "opt_BTB (\<lambda>t x. map_option Some (btb_spec_update t x (our_pred sc))) None (indirjmp_BTB s) (indirjmp sc) = Some it"
    "rel_option btb_keeps (indirjmp_BTB s) it"
    using opt_btb_ok [OF ok(9,4), of "\<lambda>t x. btb_spec_update t x (our_pred sc)"] btb_history_ok(1) by blast
  let ?s' = "?s\<lparr>bpreds := ds, fusion := f, dirjmp_BTB := dt, indirjmp_BTB := it\<rparr>"
  have "parts_keep s ?s" using parts_refl [OF assms(1)] by (simp add: parts_keep_def fr)
  then have k: "bp_keeps s ?s" by (rule parts_keepI [OF assms(1)]) (simp add: same_pool_def fr)
  have "parts_keep s ?s'" using p(2) f(2) d(2) it(2) parts_refl [OF assms(1)] by (simp add: parts_keep_def fr)
  then have k': "bp_keeps s ?s'" by (rule parts_keepI [OF assms(1)]) (simp add: same_pool_def fr)
  then have "sc_ok ?s' sc" using assms(2) by (simp add: bp_keeps_def)
  then have "sc_ok ?s' (sc\<lparr>pcache := cs\<rparr>)" using p(3) by (simp add: sc_ok_def sc_fits_def)
  moreover have "bpred_spec_update s sc fl PC tPC oPC outcome = (if COND fl then Some (?s', sc\<lparr>pcache := cs\<rparr>) else Some (?s, sc))"
    unfolding bpred_spec_update_def Let_def fr p(1) f(1) d(1) it(1) by simp
  ultimately show ?thesis using k k' assms(2) by (auto simp: bp_keeps_def)
qed

lemma bpred_restore_ok:
  assumes "bp_inv s" and "sc_ok s sc"
    and df: "\<And>d c. dir_inv d \<Longrightarrow> dir_sc_ok d c \<Longrightarrow> \<exists>d'. df d c = Some d' \<and> dir_keeps d d'"
    and ff: "\<And>n f x. fus_inv n f \<Longrightarrow> fus_sc_ok f x \<Longrightarrow> \<exists>f'. ff f x = Some f' \<and> fus_keeps n f f'"
    and bf: "\<And>t x. btb_inv t \<Longrightarrow> btb_sc_ok t x \<Longrightarrow> \<exists>t'. bf t x = Some t' \<and> btb_keeps t t'"
  shows "\<exists>s'. bpred_restore df ff bf s sc = Some s' \<and> bp_keeps s s'"
proof -
  note ok = sc_okD [OF assms(2,1)]
  have "\<exists>d' c' p'. map_option (\<lambda>d'. (d', c, p)) (df d c) = Some (d', c', p') \<and> dir_keeps d d' \<and> True"
    if "dir_inv d \<and> dir_sc_ok d c" for d c p
    using df [of d c] that by auto
  then obtain ds cs ps where p: "for_preds (\<lambda>i d c p. map_option (\<lambda>d'. (d', c, p)) (df d c)) 0 (bpreds s) (pcache sc) (preds sc) =
      Some (ds, cs, ps)" "list_all2 dir_keeps (bpreds s) ds"
    using for_preds_ok [OF list_all2_inv [OF assms(1) ok(10)] ok(1), of "\<lambda>i d c p. map_option (\<lambda>d'. (d', c, p)) (df d c)"
        dir_keeps "\<lambda>_ _. True" 0] by blast
  obtain f where f: "ff (fusion s) (fcache sc) = Some f" "fus_keeps (length (bpreds s)) (fusion s) f"
    using ff [OF ok(6,2)] by blast
  obtain r where r: "ras_recover (ras s) (ras_checkpoint sc) = Some r" "ras_keeps (ras s) r"
    using ras_recover_ok [OF ok(7,5)] by blast
  obtain dt where d: "bf (dirjmp_BTB s) (dirjmp sc) = Some dt" "btb_keeps (dirjmp_BTB s) dt"
    using bf [OF ok(8,3)] by blast
  obtain it where it: "opt_BTB (\<lambda>t x. map_option Some (bf t x)) None (indirjmp_BTB s) (indirjmp sc) = Some it"
    "rel_option btb_keeps (indirjmp_BTB s) it"
    using opt_btb_ok [OF ok(9,4), of bf] bf by blast
  let ?s' = "s\<lparr>bpreds := ds, fusion := f, ras := r, dirjmp_BTB := dt, indirjmp_BTB := it\<rparr>"
  have "parts_keep s ?s'" using p(2) f(2) r(2) d(2) it(2) by (simp add: parts_keep_def)
  then have "bp_keeps s ?s'" by (rule parts_keepI [OF assms(1)]) (simp add: same_pool_def)
  then show ?thesis unfolding bpred_restore_def p(1) f(1) r(1) d(1) it(1) by simp
qed

lemma bpred_recover_ok:
  "bp_inv s \<Longrightarrow> sc_ok s sc \<Longrightarrow> \<exists>s'. bpred_recover s sc outcome = Some s' \<and> bp_keeps s s'"
  unfolding bpred_recover_def
  by (rule bpred_restore_ok) (auto intro: dir_recover_ok fus_history_ok(2) btb_history_ok(2))

lemma bpred_flush_ok:
  "bp_inv s \<Longrightarrow> sc_ok s sc \<Longrightarrow> \<exists>s'. bpred_flush s sc = Some s' \<and> bp_keeps s s'"
  unfolding bpred_flush_def
  by (rule bpred_restore_ok) (auto intro: dir_flush_ok fus_history_ok(3) btb_history_ok(3))

end
