(* ===== verification/Bpred_Client.thy ===== *)
theory Bpred_Client
  imports Bpred_Top
begin

text \<open>
  The clients of the top-level predictor: the pipeline fetches a branch (take a state cache, look up,
  update speculatively), recovers from it, squashes it or commits it; the Pin tool's
  \<^verbatim>\<open>BranchPredict\<close> does all of it at once. The pool of state caches is an interface of its own
  (locale \<open>lifo_pool\<close>). The theorems follow arbitrary sequences of these calls.
\<close>

section \<open>Calls of the pipeline and of the Pin tool\<close>

text \<open>What the calls read of an instruction.\<close>

record branch =
  opflags :: inst_flags_t
  br_PC :: md_addr_t
  br_ftPC :: md_addr_t
  br_targetPC :: md_addr_t
  br_NextPC :: md_addr_t
  taken_branch :: bool

definition fetch_branch :: "draws \<Rightarrow> bpred_t \<Rightarrow> branch \<Rightarrow> (md_addr_t \<times> bpred_t \<times> bpred_state_cache_t) option" where
  "fetch_branch rnd s b =
     (let (sc, s) = get_state_cache s in
      case bpred_lookup rnd s sc (opflags b) (br_PC b) (br_ftPC b) (br_targetPC b) (br_NextPC b) (taken_branch b) of
        None \<Rightarrow> None | Some (pred_NPC, s, sc) \<Rightarrow>
      map_option (\<lambda>(s, sc). (pred_NPC, s, sc))
        (bpred_spec_update s sc (opflags b) (br_PC b) (br_targetPC b) (br_NextPC b) (our_pred sc)))"

definition commit_branch :: "draws \<Rightarrow> bpred_t \<Rightarrow> bpred_state_cache_t \<Rightarrow> branch \<Rightarrow> (fatal + bpred_t) option" where
  "commit_branch rnd s sc b =
     map_option (map_sum id (\<lambda>(s, sc). return_state_cache s sc))
       (bpred_update rnd s sc (opflags b) (br_PC b) (br_ftPC b) (br_targetPC b) (br_NextPC b) (taken_branch b))"

definition squash_branch :: "bpred_t \<Rightarrow> bpred_state_cache_t \<Rightarrow> bpred_t option" where
  "squash_branch s sc = map_option (\<lambda>s. return_state_cache s sc) (bpred_flush s sc)"

text \<open>\<^verbatim>\<open>BranchPredict\<close>: the flags come from the decoder, the outcome from the executed instruction.\<close>

definition BranchPredict :: "draws \<Rightarrow> bool \<Rightarrow> inst_flags_t \<Rightarrow> md_addr_t \<Rightarrow> md_addr_t \<Rightarrow> md_addr_t \<Rightarrow> bool \<Rightarrow> bpred_t \<Rightarrow>
    (fatal + (bool \<times> md_addr_t) \<times> bpred_t) option" where
  "BranchPredict rnd speculation_mode fl pc npc tpc brtaken s =
     (if npc = tpc then Some (Inr ((True, 0), s))
      else
        (let (sc, s) = get_state_cache s; oracle_NPC = (if brtaken then tpc else npc) in
         case bpred_lookup rnd s sc fl pc npc tpc oracle_NPC brtaken of None \<Rightarrow> None | Some (pred_NPC, s, sc) \<Rightarrow>
         case bpred_spec_update s sc fl pc tpc oracle_NPC (our_pred sc) of None \<Rightarrow> None | Some (s, sc) \<Rightarrow>
         let correct = (pred_NPC = oracle_NPC) in
         case (if speculation_mode then Some (Inr (s, sc))
               else
                 case (if correct then Some s else bpred_recover s sc brtaken) of None \<Rightarrow> None
                 | Some s \<Rightarrow> bpred_update rnd s sc fl pc npc tpc oracle_NPC brtaken) of
           None \<Rightarrow> None
         | Some (Inl e) \<Rightarrow> Some (Inl e)
         | Some (Inr (s, sc)) \<Rightarrow> Some (Inr ((correct, pred_NPC), return_state_cache s sc))))"

text \<open>A run: the predictor and the caches of the branches in flight. A call for an instruction that has
  no cache does nothing (\<^verbatim>\<open>if(Mop->fetch.bpred_update)\<close>).\<close>

datatype client_event =
    Fetch draws branch
  | Commit draws nat branch
  | Recover nat bool
  | Squash nat
  | Predict draws bool inst_flags_t md_addr_t md_addr_t md_addr_t bool
  | Freeze
  | Reset

definition del_nth :: "nat \<Rightarrow> 'a list \<Rightarrow> 'a list" where
  "del_nth i xs = take i xs @ drop (Suc i) xs"

fun client_step :: "client_event \<Rightarrow> bpred_t \<times> bpred_state_cache_t list \<Rightarrow> (fatal + bpred_t \<times> bpred_state_cache_t list) option" where
  "client_step (Fetch rnd b) (s, q) = map_option (\<lambda>(_, s, sc). Inr (s, sc # q)) (fetch_branch rnd s b)"
| "client_step (Commit rnd i b) (s, q) =
     (if i < length q then map_option (map_sum id (\<lambda>s. (s, del_nth i q))) (commit_branch rnd s (q ! i) b)
      else Some (Inr (s, q)))"
| "client_step (Recover i outcome) (s, q) =
     (if i < length q then map_option (\<lambda>s. Inr (s, q)) (bpred_recover s (q ! i) outcome) else Some (Inr (s, q)))"
| "client_step (Squash i) (s, q) =
     (if i < length q then map_option (\<lambda>s. Inr (s, del_nth i q)) (squash_branch s (q ! i)) else Some (Inr (s, q)))"
| "client_step (Predict rnd m fl pc npc tpc tk) (s, q) =
     map_option (map_sum id (\<lambda>(_, s). (s, q))) (BranchPredict rnd m fl pc npc tpc tk s)"
| "client_step Freeze (s, q) = Some (Inr (bpred_freeze_stats s, q))"
| "client_step Reset (s, q) = Some (Inr (bpred_reset_stats s, q))"

fun client_run :: "client_event list \<Rightarrow> bpred_t \<times> bpred_state_cache_t list \<Rightarrow> (fatal + bpred_t \<times> bpred_state_cache_t list) option" where
  "client_run [] sq = Some (Inr sq)"
| "client_run (e # es) sq = (case client_step e sq of None \<Rightarrow> None | Some (Inl e) \<Rightarrow> Some (Inl e) | Some (Inr sq') \<Rightarrow> client_run es sq')"

section \<open>The pool as a stack\<close>

fun get_many :: "('s \<Rightarrow> 'c \<times> 's) \<Rightarrow> nat \<Rightarrow> 's \<Rightarrow> 'c list \<times> 's" where
  "get_many get 0 s = ([], s)"
| "get_many get (Suc n) s = (let (c, s) = get s; (cs, s) = get_many get n s in (c # cs, s))"

text \<open>What a client relies on: the pool holds a list of caches, \<open>get\<close> takes the last one and \<open>ret\<close> adds
  one at the end, as long as there is room.\<close>

locale lifo_pool =
  fixes holds :: "'s \<Rightarrow> 'c list \<Rightarrow> bool"
    and get :: "'s \<Rightarrow> 'c \<times> 's"
    and ret :: "'s \<Rightarrow> 'c \<Rightarrow> 's"
    and room :: nat
  assumes get_law: "holds s (xs @ [c]) \<Longrightarrow> \<exists>s'. get s = (c, s') \<and> holds s' xs"
    and ret_law: "holds s xs \<Longrightarrow> length xs < room \<Longrightarrow> holds (ret s c) (xs @ [c])"
begin

lemma ret_many: "holds s xs \<Longrightarrow> length xs + length cs \<le> room \<Longrightarrow> holds (foldl ret s cs) (xs @ cs)"
proof (induction cs arbitrary: s xs)
  case (Cons c cs)
  then show ?case using Cons.IH [OF ret_law [OF Cons.prems(1), of c]] by simp
qed simp

lemma get_ret_many: "holds s (xs @ cs) \<Longrightarrow> \<exists>s'. get_many get (length cs) s = (rev cs, s') \<and> holds s' xs"
proof (induction cs arbitrary: s rule: rev_induct)
  case (snoc c cs)
  then obtain s1 where s1: "get s = (c, s1)" "holds s1 (xs @ cs)"
    using get_law [of s "xs @ cs" c] by auto
  then show ?case using snoc.IH [OF s1(2)] by (auto simp: Let_def)
qed simp

end

definition pool_holds :: "bpred_t \<Rightarrow> bpred_state_cache_t list \<Rightarrow> bool" where
  "pool_holds s xs \<longleftrightarrow> length xs \<le> unat (bpredSCC_size s) \<and> 0 < unat (bpredSCC_size s) \<and>
     unat (bpredSCC_size s) \<le> 2 ^ 30 \<and> unat (bpredSCC_head s) = length xs - 1 \<and>
     bpredSCC s = map Some xs @ replicate (unat (bpredSCC_size s) - length xs) None"

lemma pool_get_empty:
  assumes "pool_holds s []"
  shows "get_state_cache s = (new_state_cache s, s\<lparr>SC_debt := SC_debt s + 1\<rparr>)"
proof -
  have "bpredSCC s ! unat (bpredSCC_head s) = None" using assms by (simp add: pool_holds_def)
  then show ?thesis by (simp add: get_state_cache_def new_state_cache_def)
qed

lemma list_update_last: "length xs = n \<Longrightarrow> (map Some (xs @ [c]) @ ys)[n := None] = map Some xs @ None # ys"
  by (simp add: list_update_append)

definition drop_top :: "bpred_t \<Rightarrow> bpred_t" where
  "drop_top s = (let s = s\<lparr>bpredSCC := (bpredSCC s)[unat (bpredSCC_head s) := None]\<rparr>
     in if sint (bpredSCC_head s) > 0 then s\<lparr>bpredSCC_head := bpredSCC_head s - 1\<rparr> else s)"

lemma pool_get_last:
  assumes "pool_holds s (xs @ [c])"
  shows "get_state_cache s = (c, drop_top s) \<and> pool_holds (drop_top s) xs"
proof -
  let ?n = "unat (bpredSCC_size s)"
  have h: "unat (bpredSCC_head s) = length xs" "length xs < ?n" "?n \<le> 2 ^ 30"
    "bpredSCC s = map Some (xs @ [c]) @ replicate (?n - Suc (length xs)) None"
    using assms by (simp_all add: pool_holds_def)
  have "bpredSCC s ! unat (bpredSCC_head s) = Some c" using h by (simp add: nth_append)
  then have g: "get_state_cache s = (c, drop_top s)" by (simp add: get_state_cache_def drop_top_def Let_def)
  have p: "0 < sint (bpredSCC_head s) \<longleftrightarrow> xs \<noteq> []" using h(1-3) by (simp add: sint_pos_iff)
  have m: "unat (bpredSCC_head s - 1) = length xs - 1" if "xs \<noteq> []"
    using h(1) that by (metis length_greater_0_conv unat_gt_0 unat_minus_one)
  have "(bpredSCC s)[unat (bpredSCC_head s) := None] = map Some xs @ replicate (?n - length xs) None"
    unfolding h(4) h(1) using h(2) by (simp only: list_update_last flip: replicate_Suc) (simp add: Suc_diff_Suc)
  then have "pool_holds (drop_top s) xs" using h p m
    by (auto simp: pool_holds_def drop_top_def Let_def)
  with g show ?thesis by simp
qed

lemma grow:
  assumes "length (bpredSCC s) = unat (bpredSCC_size s)" and "unat (bpredSCC_size s) < 2 ^ 29"
  shows "unat (bpredSCC_size (grow_pool s)) = 2 * unat (bpredSCC_size s)"
    "bpredSCC (grow_pool s) = bpredSCC s @ replicate (unat (bpredSCC_size s)) None"
    "bpredSCC_head (grow_pool s) = bpredSCC_head s"
proof -
  have u: "unat (bpredSCC_size s * 2) = 2 * unat (bpredSCC_size s)" using assms(2) by (simp add: unat_word_ariths)
  then show "unat (bpredSCC_size (grow_pool s)) = 2 * unat (bpredSCC_size s)"
    "bpredSCC (grow_pool s) = bpredSCC s @ replicate (unat (bpredSCC_size s)) None"
    "bpredSCC_head (grow_pool s) = bpredSCC_head s"
    using assms(1) by (simp_all add: grow_pool_def Let_def)
qed

lemma pool_ret:
  assumes "pool_holds s xs" and "length xs < 2 ^ 29"
  shows "pool_holds (return_state_cache s c) (xs @ [c])"
proof -
  let ?n = "unat (bpredSCC_size s)"
  have h: "unat (bpredSCC_head s) = length xs - 1" "length xs \<le> ?n" "0 < ?n" "?n \<le> 2 ^ 30"
    "bpredSCC s = map Some xs @ replicate (?n - length xs) None"
    using assms(1) by (simp_all add: pool_holds_def)
  show ?thesis
  proof (cases xs rule: rev_cases)
    case Nil
    then have "bpredSCC s = None # replicate (?n - 1) None" using h(3,5) by (simp flip: replicate_Suc)
    then show ?thesis using h Nil by (simp add: return_state_cache_def pool_holds_def)
  next
    case (snoc ys y)
    define s1 where "s1 = (if bpredSCC_head s = bpredSCC_size s - 1 then grow_pool s else s)"
    have "unat (bpredSCC_size s - 1) = ?n - 1" using h(3) unat_minus_one [of "bpredSCC_size s"] by (simp add: unat_gt_0)
    then have full: "bpredSCC_head s = bpredSCC_size s - 1 \<longleftrightarrow> length xs = ?n"
      using h(1-3) snoc by (auto simp: word_unat_eq_iff)
    have s1: "bpredSCC s1 = map Some xs @ replicate (unat (bpredSCC_size s1) - length xs) None"
      "length xs < unat (bpredSCC_size s1)" "unat (bpredSCC_size s1) \<le> 2 ^ 30" "bpredSCC_head s1 = bpredSCC_head s"
      using grow [of s] h full assms(2) by (auto simp: s1_def)
    have "bpredSCC s ! unat (bpredSCC_head s) = Some y" using h snoc by (simp add: nth_append)
    then have r: "return_state_cache s c = s1\<lparr>bpredSCC_head := bpredSCC_head s1 + 1,
        bpredSCC := (bpredSCC s1)[unat (bpredSCC_head s1 + 1) := Some c]\<rparr>"
      by (simp add: return_state_cache_def s1_def Let_def)
    have hd: "unat (bpredSCC_head s1 + 1) = length xs"
      using h(1) s1(4) snoc assms(2) by (simp add: unat_word_ariths)
    have "replicate (unat (bpredSCC_size s1) - length xs) (None :: bpred_state_cache_t option) =
        None # replicate (unat (bpredSCC_size s1) - Suc (length xs)) None"
      using s1(2) by (simp flip: replicate_Suc add: Suc_diff_Suc)
    then have "(bpredSCC s1)[length xs := Some c] = map Some (xs @ [c]) @ replicate (unat (bpredSCC_size s1) - length (xs @ [c])) None"
      using s1(1) by (simp add: list_update_append)
    then show ?thesis using r hd s1(2,3) by (simp add: pool_holds_def)
  qed
qed

interpretation scc: lifo_pool pool_holds get_state_cache return_state_cache "2 ^ 29"
  using pool_get_last pool_ret by unfold_locales blast+

section \<open>Runs\<close>

text \<open>Freezing and resetting the statistics changes no shape.\<close>

lemmas dir_inv_defs = bpred_2bC_inv_def bpred_2lev_inv_def bpred_bimode_inv_def bpred_skewed_inv_def bpred_yags_inv_def
  bpred_perceptron_inv_def bpred_tage_inv_def pht_shape_def tage_lens_def

lemmas dir_sc_ok_defs = bpred_2bC_sc_ok_def bpred_2lev_sc_ok_def bpred_bimode_sc_ok_def bpred_skewed_sc_ok_def
  bpred_yags_sc_ok_def bpred_perceptron_sc_ok_def bpred_tage_sc_ok_def

lemma dir_freeze_keeps: "dir_inv d \<Longrightarrow> dir_keeps d (dir_freeze d)"
  by (cases d) (auto simp: dir_keeps_def fun_eq_iff dir_inv_defs dir_sc_ok_defs split: option.splits)

lemma dir_reset_keeps: "dir_inv d \<Longrightarrow> dir_keeps d (dir_reset_stats d)"
  by (cases d) (auto simp: dir_keeps_def fun_eq_iff dir_inv_defs dir_sc_ok_defs bpred_dir_reset_stats_def split: option.splits)

lemma fus_stats_keep:
  assumes "fus_inv n f"
  shows "fus_keeps n f (fus_freeze f)" "fus_keeps n f (fus_reset_stats f)"
  using assms
  by (cases f; auto simp: fus_keeps_def fun_eq_iff fus_freeze_def fus_reset_stats_def fusion_reset_stats_def
      fusion_mcfarling_inv_def fusion_priority_inv_def fusion_multihybrid_inv_def fusion_colt_inv_def
      fusion_colt_sc_ok_def split: option.splits)+

lemma btb_stats_keep:
  assumes "btb_inv t"
  shows "btb_keeps t (btb_freeze t)" "btb_keeps t (btb_reset_stats t)"
  using assms
  by (cases t; auto simp: btb_keeps_def fun_eq_iff BTB_reset_stats_def BTB_btac_inv_def BTB_btac_sc_ok_def
      BTB_2levbtac_inv_def BTB_2levbtac_sc_ok_def split: option.splits)+

lemma ras_stats_keep:
  assumes "ras_inv r"
  shows "ras_keeps r (ras_freeze r)" "ras_keeps r (ras_reset_stats r)"
  using assms
  by (cases r; auto simp: ras_keeps_def fun_eq_iff ras_freeze_def ras_reset_stats_def RAS_reset_stats_def
      RAS_stack_inv_def RAS_multistack_inv_def split: option.splits)+

lemma stats_keep:
  assumes "bp_inv s"
  shows "bp_keeps s (bpred_freeze_stats s)" "bp_keeps s (bpred_reset_stats s)"
proof -
  have i: "list_all dir_inv (bpreds s)" "fus_inv (length (bpreds s)) (fusion s)" "ras_inv (ras s)"
    "btb_inv (dirjmp_BTB s)" "pred_option btb_inv (indirjmp_BTB s)" using assms by (simp_all add: bp_inv_def)
  have "parts_keep s (bpred_freeze_stats s)" "parts_keep s (bpred_reset_stats s)"
    using i fus_stats_keep [OF i(2)] btb_stats_keep ras_stats_keep
    by (auto simp: parts_keep_def bpred_freeze_stats_def bpred_reset_stats_def list_all2_conv_all_nth list_all_length
        dir_freeze_keeps dir_reset_keeps option.rel_map option.pred_set intro!: option.rel_refl_strong)
  then show "bp_keeps s (bpred_freeze_stats s)" "bp_keeps s (bpred_reset_stats s)"
    using parts_keepI [OF assms]
    by (simp_all add: same_pool_def bpred_freeze_stats_def bpred_reset_stats_def)
qed

text \<open>Operations of the pool change no component.\<close>

lemma pool_frame [simp]:
  "bp_inv (drop_top s) = bp_inv s" "sc_match (drop_top s) = sc_match s" "sc_ok (drop_top s) = sc_ok s"
  "SC_debt (drop_top s) = SC_debt s"
  "bp_inv (return_state_cache s c) = bp_inv s" "sc_match (return_state_cache s c) = sc_match s"
  "sc_ok (return_state_cache s c) = sc_ok s" "SC_debt (return_state_cache s c) = SC_debt s"
  "bp_inv (s\<lparr>SC_debt := n\<rparr>) = bp_inv s" "sc_match (s\<lparr>SC_debt := n\<rparr>) = sc_match s" "sc_ok (s\<lparr>SC_debt := n\<rparr>) = sc_ok s"
  "pool_holds (s\<lparr>SC_debt := n\<rparr>) = pool_holds s"
  by (auto simp: drop_top_def return_state_cache_def grow_pool_def bp_inv_def sc_match_def sc_ok_def sc_fits_def
      pool_holds_def fun_eq_iff Let_def)

lemma pool_keeps: "bp_keeps s s' \<Longrightarrow> pool_holds s' = pool_holds s"
  by (auto simp: bp_keeps_def same_pool_def pool_holds_def fun_eq_iff)

lemma new_state_cache_match: "bp_inv s \<Longrightarrow> sc_match s (new_state_cache s)"
  by (auto simp: new_state_cache_def sc_match_def sc_fits_def bp_inv_def list_all2_conv_all_nth option.rel_map
      intro!: option.rel_refl)

text \<open>Well-formed states: the caches in the pool and in flight fit the predictor, and \<^verbatim>\<open>SC_debt\<close> counts
  them.\<close>

definition pool_ok :: "bpred_t \<Rightarrow> nat \<Rightarrow> bool" where
  "pool_ok s k \<longleftrightarrow> bp_inv s \<and> (\<exists>xs. pool_holds s xs \<and> list_all (sc_match s) xs \<and> unat (SC_debt s) = length xs + k)"

definition run_ok :: "bpred_t \<times> bpred_state_cache_t list \<Rightarrow> bool" where
  "run_ok sq \<longleftrightarrow> (case sq of (s, q) \<Rightarrow> list_all (sc_ok s) q \<and> pool_ok s (length q))"

lemma pool_ok_keeps: "bp_keeps s s' \<Longrightarrow> pool_ok s k \<Longrightarrow> pool_ok s' k \<and> SC_debt s' = SC_debt s"
  using pool_keeps [of s s'] by (auto simp: pool_ok_def bp_keeps_def same_pool_def)

lemma pool_ok_get:
  assumes "pool_ok s k" and "k < 2 ^ 29"
  shows "\<exists>sc s'. get_state_cache s = (sc, s') \<and> pool_ok s' (Suc k) \<and> sc_match s' sc \<and> sc_ok s' = sc_ok s \<and>
    unat (SC_debt s') \<le> max (unat (SC_debt s)) (Suc k)"
proof -
  obtain xs where xs: "pool_holds s xs" "list_all (sc_match s) xs" "unat (SC_debt s) = length xs + k" and i: "bp_inv s"
    using assms(1) by (auto simp: pool_ok_def)
  show ?thesis
  proof (cases xs rule: rev_cases)
    case Nil
    have "unat (SC_debt s + 1) = Suc (unat (SC_debt s))" using assms(2) xs(3) Nil by (simp add: unat_word_ariths)
    moreover have "pool_ok (s\<lparr>SC_debt := SC_debt s + 1\<rparr>) (Suc k)"
      using xs i Nil calculation by (auto simp: pool_ok_def intro!: exI [of _ "[]"])
    ultimately show ?thesis using pool_get_empty [of s] xs Nil new_state_cache_match [OF i] by simp
  next
    case (snoc ys y)
    then have "pool_ok (drop_top s) (Suc k)"
      using xs i pool_get_last [of s ys y] by (auto simp: pool_ok_def intro!: exI [of _ ys])
    then show ?thesis using pool_get_last [of s ys y] xs snoc by simp
  qed
qed

lemma pool_ok_ret:
  assumes "pool_ok s (Suc k)" and "unat (SC_debt s) \<le> 2 ^ 29" and "sc_match s sc"
  shows "pool_ok (return_state_cache s sc) k"
proof -
  obtain xs where "pool_holds s xs" "list_all (sc_match s) xs" "unat (SC_debt s) = length xs + Suc k" and i: "bp_inv s"
    using assms(1) by (auto simp: pool_ok_def)
  then show ?thesis using pool_ret [of s xs sc] assms(2,3) by (auto simp: pool_ok_def intro!: exI [of _ "xs @ [sc]"])
qed

lemma list_all_sc_keeps: "bp_keeps s s' \<Longrightarrow> list_all (sc_ok s) q \<Longrightarrow> list_all (sc_ok s') q"
  by (auto simp: bp_keeps_def elim: list.pred_mono_strong)

text \<open>Look-up and speculative update of a fresh cache.\<close>

lemma predict_ok:
  assumes "pool_ok s k" and "sc_match s sc"
  shows "\<exists>a s1 sc1 s2 sc2. bpred_lookup rnd s sc fl PC ftPC tPC oPC outcome = Some (a, s1, sc1) \<and>
    bpred_spec_update s1 sc1 fl PC tPC oPC (our_pred sc1) = Some (s2, sc2) \<and> bp_keeps s s2 \<and> sc_ok s2 sc2"
proof -
  have i: "bp_inv s" using assms(1) by (simp add: pool_ok_def)
  obtain a s1 sc1 where l: "bpred_lookup rnd s sc fl PC ftPC tPC oPC outcome = Some (a, s1, sc1)" "bp_keeps s s1" "sc_ok s1 sc1"
    using bpred_lookup_ok [OF i assms(2)] by blast
  have "bp_inv s1" using l(2) by (simp add: bp_keeps_def)
  then obtain s2 sc2 where "bpred_spec_update s1 sc1 fl PC tPC oPC (our_pred sc1) = Some (s2, sc2)" "bp_keeps s1 s2" "sc_ok s2 sc2"
    using bpred_spec_update_ok [OF _ l(3)] by blast
  then show ?thesis using l bp_keeps_trans by blast
qed

definition debt_step :: "bpred_t \<times> bpred_state_cache_t list \<Rightarrow> bpred_t \<times> bpred_state_cache_t list \<Rightarrow> bool" where
  "debt_step sq sq' \<longleftrightarrow> run_ok sq' \<and> unat (SC_debt (fst sq')) \<le> max (unat (SC_debt (fst sq))) (Suc (length (snd sq)))"

lemma fetch_ok:
  assumes "run_ok (s, q)" and "length q < 2 ^ 29"
  shows "\<exists>a s' sc. fetch_branch rnd s b = Some (a, s', sc) \<and> debt_step (s, q) (s', sc # q)"
proof -
  have q: "pool_ok s (length q)" "list_all (sc_ok s) q" using assms(1) by (simp_all add: run_ok_def)
  obtain sc s0 where g: "get_state_cache s = (sc, s0)" "pool_ok s0 (Suc (length q))" "sc_match s0 sc"
    "sc_ok s0 = sc_ok s" "unat (SC_debt s0) \<le> max (unat (SC_debt s)) (Suc (length q))" using pool_ok_get [OF q(1) assms(2)] by blast
  obtain a s1 sc1 s2 sc2 where p:
    "bpred_lookup rnd s0 sc (opflags b) (br_PC b) (br_ftPC b) (br_targetPC b) (br_NextPC b) (taken_branch b) = Some (a, s1, sc1)"
    "bpred_spec_update s1 sc1 (opflags b) (br_PC b) (br_targetPC b) (br_NextPC b) (our_pred sc1) = Some (s2, sc2)"
    "bp_keeps s0 s2" "sc_ok s2 sc2" using predict_ok [OF g(2,3)] by blast
  have "pool_ok s2 (Suc (length q))" "SC_debt s2 = SC_debt s0" using pool_ok_keeps [OF p(3) g(2)] by auto
  moreover have "list_all (sc_ok s2) q" using list_all_sc_keeps [OF p(3)] q(2) g(4) by simp
  ultimately show ?thesis using g(1,5) p by (simp add: fetch_branch_def debt_step_def run_ok_def)
qed

lemma length_del_nth: "i < length q \<Longrightarrow> length q = Suc (length (del_nth i q))"
  by (simp add: del_nth_def min_def)

lemma list_all_del_nth: "list_all P q \<Longrightarrow> list_all P (del_nth i q)"
  unfolding del_nth_def by (metis append_take_drop_id list_all_append)

text \<open>Giving back the cache of a branch in flight after an operation on it.\<close>

lemma retire_ok:
  assumes "run_ok (s, q)" and "unat (SC_debt s) \<le> 2 ^ 29" and "i < length q" and "bp_keeps s s'" and "sc_match s' sc"
  shows "debt_step (s, q) (return_state_cache s' sc, del_nth i q)"
proof -
  have "pool_ok s' (Suc (length (del_nth i q)))" "SC_debt s' = SC_debt s"
    using pool_ok_keeps [OF assms(4)] assms(1) length_del_nth [OF assms(3)] by (auto simp: run_ok_def)
  then have "pool_ok (return_state_cache s' sc) (length (del_nth i q))" using pool_ok_ret assms(2,5) by simp
  moreover have "list_all (sc_ok s') (del_nth i q)"
    using list_all_sc_keeps [OF assms(4)] assms(1) list_all_del_nth by (auto simp: run_ok_def)
  ultimately show ?thesis using \<open>SC_debt s' = SC_debt s\<close> by (simp add: debt_step_def run_ok_def)
qed

lemma run_ok_nth: "run_ok (s, q) \<Longrightarrow> i < length q \<Longrightarrow> bp_inv s \<and> sc_ok s (q ! i)"
  by (simp add: run_ok_def pool_ok_def list_all_length)

lemma commit_ok:
  assumes "run_ok (s, q)" and "unat (SC_debt s) \<le> 2 ^ 29" and "i < length q"
  shows "\<exists>s'. commit_branch rnd s (q ! i) b = Some (Inr s') \<and> debt_step (s, q) (s', del_nth i q)"
proof -
  obtain s' sc' where u: "bpred_update rnd s (q ! i) (opflags b) (br_PC b) (br_ftPC b) (br_targetPC b) (br_NextPC b)
      (taken_branch b) = Some (Inr (s', sc'))" "bp_keeps s s'" "sc_ok s' sc'"
    using bpred_update_ok run_ok_nth [OF assms(1,3)] by blast
  then show ?thesis using retire_ok [OF assms u(2) sc_ok_match [OF u(3)]] by (simp add: commit_branch_def)
qed

lemma squash_ok:
  assumes "run_ok (s, q)" and "unat (SC_debt s) \<le> 2 ^ 29" and "i < length q"
  shows "\<exists>s'. squash_branch s (q ! i) = Some s' \<and> debt_step (s, q) (s', del_nth i q)"
proof -
  obtain s' where u: "bpred_flush s (q ! i) = Some s'" "bp_keeps s s'"
    using bpred_flush_ok run_ok_nth [OF assms(1,3)] by blast
  have "sc_match s' (q ! i)" using u(2) sc_ok_match run_ok_nth [OF assms(1,3)] by (simp add: bp_keeps_def)
  then show ?thesis using retire_ok [OF assms u(2)] u(1) by (simp add: squash_branch_def)
qed

lemma recover_ok:
  assumes "run_ok (s, q)" and "i < length q"
  shows "\<exists>s'. bpred_recover s (q ! i) outcome = Some s' \<and> debt_step (s, q) (s', q)"
proof -
  obtain s' where u: "bpred_recover s (q ! i) outcome = Some s'" "bp_keeps s s'"
    using bpred_recover_ok run_ok_nth [OF assms] by blast
  then show ?thesis using pool_ok_keeps [OF u(2)] list_all_sc_keeps [OF u(2)] assms(1)
    by (auto simp: debt_step_def run_ok_def)
qed

lemma bp_keeps_refl: "bp_inv s \<Longrightarrow> bp_keeps s s"
  by (rule ras_change_keeps) (simp_all add: same_pool_def parts_refl)

lemma settle_ok:
  assumes "bp_inv s" and "sc_ok s sc"
  shows "\<exists>s' sc'. (if speculation_mode then Some (Inr (s, sc))
      else case (if correct then Some s else bpred_recover s sc brtaken) of None \<Rightarrow> None
           | Some s \<Rightarrow> bpred_update rnd s sc fl pc npc tpc oPC brtaken) = Some (Inr (s', sc')) \<and> bp_keeps s s' \<and> sc_ok s' sc'"
proof -
  obtain s1 where s1: "(if correct then Some s else bpred_recover s sc brtaken) = Some s1" "bp_keeps s s1"
    using bpred_recover_ok [OF assms, of brtaken] bp_keeps_refl [OF assms(1)] by (cases correct) auto
  then have "bp_inv s1" "sc_ok s1 sc" using assms(2) by (simp_all add: bp_keeps_def)
  then obtain s2 sc2 where "bpred_update rnd s1 sc fl pc npc tpc oPC brtaken = Some (Inr (s2, sc2))" "bp_keeps s1 s2" "sc_ok s2 sc2"
    using bpred_update_ok by blast
  then show ?thesis using s1 bp_keeps_trans [OF s1(2)] assms(2) bp_keeps_refl [OF assms(1)] by (cases speculation_mode) auto
qed

lemma BranchPredict_ok:
  assumes "run_ok (s, q)" and "unat (SC_debt s) \<le> 2 ^ 29" and "length q < 2 ^ 29"
  shows "\<exists>r s'. BranchPredict rnd m fl pc npc tpc tk s = Some (Inr (r, s')) \<and> debt_step (s, q) (s', q)"
proof (cases "npc = tpc")
  case False
  have q: "pool_ok s (length q)" "list_all (sc_ok s) q" using assms(1) by (simp_all add: run_ok_def)
  obtain sc s0 where g: "get_state_cache s = (sc, s0)" "pool_ok s0 (Suc (length q))" "sc_match s0 sc"
    "sc_ok s0 = sc_ok s" "unat (SC_debt s0) \<le> max (unat (SC_debt s)) (Suc (length q))" using pool_ok_get [OF q(1) assms(3)] by blast
  let ?o = "if tk then tpc else npc"
  obtain a s1 sc1 s2 sc2 where p: "bpred_lookup rnd s0 sc fl pc npc tpc ?o tk = Some (a, s1, sc1)"
    "bpred_spec_update s1 sc1 fl pc tpc ?o (our_pred sc1) = Some (s2, sc2)" "bp_keeps s0 s2" "sc_ok s2 sc2"
    using predict_ok [OF g(2,3)] by blast
  have "bp_inv s2" using p(3) by (simp add: bp_keeps_def)
  then obtain s3 sc3 where f: "(if m then Some (Inr (s2, sc2))
      else case (if a = ?o then Some s2 else bpred_recover s2 sc2 tk) of None \<Rightarrow> None
           | Some s \<Rightarrow> bpred_update rnd s sc2 fl pc npc tpc ?o tk) = Some (Inr (s3, sc3))" "bp_keeps s2 s3" "sc_ok s3 sc3"
    using settle_ok [OF _ p(4)] by blast
  have e: "BranchPredict rnd m fl pc npc tpc tk s = Some (Inr ((a = ?o, a), return_state_cache s3 sc3))"
    unfolding BranchPredict_def Let_def g(1) prod.case p(1) option.case p(2) f(1) sum.case using False by simp
  have k: "bp_keeps s0 s3" using bp_keeps_trans [OF p(3) f(2)] .
  then have "pool_ok s3 (Suc (length q))" "SC_debt s3 = SC_debt s0" using pool_ok_keeps [OF _ g(2)] by auto
  moreover have "pool_ok (return_state_cache s3 sc3) (length q)"
    by (rule pool_ok_ret [OF calculation(1) _ sc_ok_match [OF f(3)]]) (use calculation(2) g(5) assms(2,3) in simp)
  moreover have "list_all (sc_ok s3) q" using list_all_sc_keeps [OF k] q(2) g(4) by simp
  ultimately show ?thesis using e g(5) by (simp add: debt_step_def run_ok_def)
qed (use assms(1) in \<open>auto simp: BranchPredict_def debt_step_def\<close>)

lemma step_ok:
  assumes "run_ok sq" and "unat (SC_debt (fst sq)) \<le> 2 ^ 29" and "length (snd sq) < 2 ^ 29"
  shows "\<exists>sq'. client_step e sq = Some (Inr sq') \<and> debt_step sq sq'"
proof -
  obtain s q where sq: "sq = (s, q)" by force
  note ok = assms [unfolded sq fst_conv snd_conv]
  have i: "bp_inv s" using ok(1) by (simp add: run_ok_def pool_ok_def)
  have st: "debt_step (s, q) (s', q)" if "bp_keeps s s'" for s'
    using pool_ok_keeps [OF that] list_all_sc_keeps [OF that] ok(1) by (auto simp: debt_step_def run_ok_def)
  have self: "debt_step (s, q) (s, q)" using ok(1) by (simp add: debt_step_def)
  show ?thesis
  proof (cases e)
    case (Fetch rnd b)
    then show ?thesis using fetch_ok [OF ok(1,3), of rnd b] sq by auto
  next
    case (Commit rnd j b)
    then show ?thesis using commit_ok [OF ok(1,2), of j rnd b] sq self by auto
  next
    case (Recover j outcome)
    then show ?thesis using recover_ok [OF ok(1), of j outcome] sq self by auto
  next
    case (Squash j)
    then show ?thesis using squash_ok [OF ok(1,2), of j] sq self by auto
  next
    case (Predict rnd m fl pc npc tpc tk)
    then show ?thesis using BranchPredict_ok [OF ok, of rnd m fl pc npc tpc tk] sq by auto
  qed (use st stats_keep [OF i] sq in auto)
qed

text \<open>The number of caches in flight after a call and during a run. The bound on a run is one on the
  branches in flight at a time, not on its length.\<close>

fun flight :: "nat \<Rightarrow> client_event \<Rightarrow> nat" where
  "flight n (Fetch rnd b) = Suc n"
| "flight n (Commit rnd i b) = (if i < n then n - 1 else n)"
| "flight n (Squash i) = (if i < n then n - 1 else n)"
| "flight n _ = n"

fun flight_ok :: "nat \<Rightarrow> client_event list \<Rightarrow> bool" where
  "flight_ok n [] = True"
| "flight_ok n (e # es) = (n < 2 ^ 29 \<and> flight_ok (flight n e) es)"

lemma map_sum_Inr: "map_sum id f x = Inr y \<longleftrightarrow> (\<exists>z. x = Inr z \<and> f z = y)"
  by (cases x) auto

lemma step_flight: "client_step e (s, q) = Some (Inr (s', q')) \<Longrightarrow> length q' = flight (length q) e"
  by (cases e) (auto simp: map_sum_Inr del_nth_def split: if_splits)

lemma run_from_ok:
  "run_ok sq \<Longrightarrow> unat (SC_debt (fst sq)) \<le> 2 ^ 29 \<Longrightarrow> flight_ok (length (snd sq)) es \<Longrightarrow>
    \<exists>sq'. client_run es sq = Some (Inr sq') \<and> run_ok sq' \<and> unat (SC_debt (fst sq')) \<le> 2 ^ 29"
proof (induction es arbitrary: sq)
  case (Cons e es)
  have n: "length (snd sq) < 2 ^ 29" using Cons.prems(3) by simp
  obtain sq1 where st: "client_step e sq = Some (Inr sq1)" "debt_step sq sq1"
    using step_ok [OF Cons.prems(1,2) n] by blast
  have "length (snd sq1) = flight (length (snd sq)) e"
    using step_flight [of e "fst sq" "snd sq" "fst sq1" "snd sq1"] st(1) by simp
  then show ?case using Cons.IH [of sq1] Cons.prems(2,3) n st by (auto simp: debt_step_def)
qed auto

section \<open>Construction\<close>

lemma all_ok_Inr [simp]: "all_ok (map Inr xs) = Inr xs"
  by (induction xs) simp_all

lemma bpred_create_ok:
  assumes "bpred_create (map Inr ds) (Inr f) (Inr d) (map_option Inr i) (Inr r) = Inr s" and "length ds < 2 ^ 32"
    and "list_all dir_inv ds" and "fus_inv (length ds) f" and "btb_inv d" and "pred_option btb_inv i" and "ras_inv r"
  shows "run_ok (s, []) \<and> SC_debt s = 0"
proof -
  have "unat (word_of_nat (length ds) :: cint) = length ds" using assms(2) by (simp add: unat_of_nat)
  then show ?thesis using assms
    by (cases i) (auto simp: bpred_create_def init_state_cache_pool_def checks_Inr_iff run_ok_def pool_ok_def bp_inv_def
        pool_holds_def intro!: exI [of _ "[]"])
qed

section \<open>A concrete predictor\<close>

text \<open>Two direction predictors chosen at random, a direct oracle target buffer, no indirect one, and a
  return address stack of two entries.\<close>

definition ex_dirs :: "dir_pred list" where
  "ex_dirs = [D_nottaken (bpred_dir_init ''nottaken'' ''static'' 0), D_perfect bpred_perfect_create]"

definition ex_stack :: RAS_stack_t where
  "ex_stack = RAS_t.extend (RAS_init ''r'' ''finite RAS'' 128) (RAS_stack_t.fields [0, 0] 2 0)"

definition ex_flags :: inst_flags_t where
  "ex_flags = \<lparr>CTRL = True, UNCOND = False, COND = True, MEM = False, LOAD = False, STORE = False, TRAP = False,
     INDIR = False, CALL = False, RETN = False, ATOMIC = False\<rparr>"

definition ex_branch :: branch where
  "ex_branch = \<lparr>opflags = ex_flags, br_PC = 16, br_ftPC = 20, br_targetPC = 64, br_NextPC = 64, taken_branch = True\<rparr>"

definition ex_draws :: draws where
  "ex_draws = \<lparr>dir_draw = (\<lambda>_. 0), fusion_draw = 1, btb_draw = 0\<rparr>"

definition ex_create :: "fatal + bpred_t" where
  "ex_create = bpred_create (map Inr ex_dirs) (Inr (F_random (fusion_random_create 2))) (Inr (T_perfect BTB_perfect_create))
     (map_option Inr None) (Inr (R_stack ex_stack))"

lemma ex_inv:
  "list_all dir_inv ex_dirs" "fus_inv (length ex_dirs) (F_random (fusion_random_create 2))" "btb_inv (T_perfect BTB_perfect_create)"
  "ras_inv (R_stack ex_stack)" "length ex_dirs < 2 ^ 32"
  by (simp_all add: ex_dirs_def fusion_random_create_def fusion_init_def ex_stack_def RAS_stack_inv_def RAS_init_def
      RAS_t.defs RAS_stack_t.defs)

lemma ex_create_ok: "\<exists>s. ex_create = Inr s"
  by (simp add: ex_create_def bpred_create_def init_state_cache_pool_def checks.simps)

section \<open>Properties\<close>

text \<open>C2: the branch predictor never fails. From a predictor built of well-formed components, any
  sequence, however long, of fetches, recoveries, squashes, commits, Pin predictions, freezes and resets
  in which fewer than 2^29 branches are in flight when a call starts runs to its end: every cast of a
  state cache finds its class, every pointer it follows is set, every list walk ends, no assertion
  fails; and the number of caches allocated is the number in the pool plus the number in flight.\<close>

theorem bpred_runs_safely:
  assumes "bpred_create (map Inr ds) (Inr f) (Inr d) (map_option Inr i) (Inr r) = Inr s0" and "length ds < 2 ^ 32"
    and "list_all dir_inv ds" and "fus_inv (length ds) f" and "btb_inv d" and "pred_option btb_inv i" and "ras_inv r"
    and "flight_ok 0 es"
  shows "\<exists>s q xs. client_run es (s0, []) = Some (Inr (s, q)) \<and> pool_holds s xs \<and>
    unat (SC_debt s) = length xs + length q"
proof -
  have "run_ok (s0, [])" "SC_debt s0 = 0" using bpred_create_ok [OF assms(1-7)] by auto
  then show ?thesis using run_from_ok [of "(s0, [])" es] assms(8) by (force simp: run_ok_def pool_ok_def)
qed

theorem bpred_runs_safely_witness:
  "\<exists>s0 s q xs. ex_create = Inr s0 \<and>
     client_run [Fetch ex_draws ex_branch, Recover 0 True, Fetch ex_draws ex_branch, Squash 0, Commit ex_draws 0 ex_branch] (s0, []) =
       Some (Inr (s, q)) \<and> pool_holds s xs \<and> unat (SC_debt s) = length xs + length q"
proof -
  obtain s0 where "ex_create = Inr s0" using ex_create_ok by blast
  moreover have "\<exists>s q xs. client_run [Fetch ex_draws ex_branch, Recover 0 True, Fetch ex_draws ex_branch, Squash 0,
      Commit ex_draws 0 ex_branch] (s0, []) = Some (Inr (s, q)) \<and> pool_holds s xs \<and> unat (SC_debt s) = length xs + length q"
    by (rule bpred_runs_safely [OF _ ex_inv(5,1,2,3) _ ex_inv(4), of None])
      (use calculation in \<open>simp_all add: ex_create_def del: client_run.simps\<close>)
  ultimately show ?thesis by blast
qed

text \<open>C15: caches returned to the pool come back in the reverse order, and the pool is then as before.\<close>

theorem pool_is_lifo:
  assumes "pool_holds s xs" and "length xs + length cs \<le> 2 ^ 29"
  shows "\<exists>s'. get_many get_state_cache (length cs) (foldl return_state_cache s cs) = (rev cs, s') \<and> pool_holds s' xs"
  using scc.get_ret_many [OF scc.ret_many [OF assms]] .

theorem pool_is_lifo_witness:
  "\<exists>s c s'. ex_create = Inr s \<and> get_many get_state_cache 2
      (foldl return_state_cache s [c, c\<lparr>our_target := 4\<rparr>]) = ([c\<lparr>our_target := 4\<rparr>, c], s') \<and> pool_holds s' []"
proof -
  obtain s where s: "ex_create = Inr s" using ex_create_ok by blast
  then have "pool_holds s []"
    by (auto simp: ex_create_def bpred_create_def init_state_cache_pool_def checks_Inr_iff pool_holds_def)
  from pool_is_lifo [OF this, of "[new_state_cache s, new_state_cache s\<lparr>our_target := 4\<rparr>]"]
  have "\<exists>s'. get_many get_state_cache 2 (foldl return_state_cache s [new_state_cache s, new_state_cache s\<lparr>our_target := 4\<rparr>]) =
      ([new_state_cache s\<lparr>our_target := 4\<rparr>, new_state_cache s], s') \<and> pool_holds s' []"
    by (simp del: get_many.simps foldl.simps flip: numeral_2_eq_2)
  with s show ?thesis by blast
qed

text \<open>C16: after any run in which fewer than 2^29 branches are in flight when a call starts, destroying
  the pool leaves a debt of exactly the caches still in flight: with none in flight every cache
  allocated is freed.\<close>

theorem destroy_counts_leaks:
  assumes "bpred_create (map Inr ds) (Inr f) (Inr d) (map_option Inr i) (Inr r) = Inr s0" and "length ds < 2 ^ 32"
    and "list_all dir_inv ds" and "fus_inv (length ds) f" and "btb_inv d" and "pred_option btb_inv i" and "ras_inv r"
    and "flight_ok 0 es" and "client_run es (s0, []) = Some (Inr (s, q))"
  shows "unat (SC_debt (destroy_state_cache_pool s)) = length q"
proof -
  have "run_ok (s0, [])" "SC_debt s0 = 0" using bpred_create_ok [OF assms(1-7)] by auto
  then obtain xs where xs: "pool_holds s xs" "unat (SC_debt s) = length xs + length q"
    using run_from_ok [of "(s0, [])" es] assms(8,9) by (auto simp: run_ok_def pool_ok_def)
  have n: "fold (\<lambda>e s. if e = None then s else s\<lparr>SC_debt := SC_debt s - 1\<rparr>) (replicate k None) t = t" for k t
    by (induction k) simp_all
  have m: "SC_debt (fold (\<lambda>e s. if e = None then s else s\<lparr>SC_debt := SC_debt s - 1\<rparr>) (map Some ys) t) =
      SC_debt t - word_of_nat (length ys)" for ys :: "bpred_state_cache_t list" and t
    by (induction ys arbitrary: t) simp_all
  have "SC_debt (destroy_state_cache_pool s) = SC_debt s - word_of_nat (length xs)"
    using xs(1) unfolding destroy_state_cache_pool_def pool_holds_def Let_def by (simp only: fold_append comp_apply n) (simp add: m)
  moreover have "SC_debt s = word_of_nat (length xs + length q)" unfolding xs(2) [symmetric] by simp
  ultimately have "SC_debt (destroy_state_cache_pool s) = word_of_nat (length q)" by simp
  moreover have "length q < 2 ^ 32" using xs(2) unat_lt32 [of "SC_debt s"] by simp
  ultimately show ?thesis by (simp add: unat_of_nat)
qed

theorem destroy_counts_leaks_witness:
  "\<exists>s0 s q. ex_create = Inr s0 \<and> client_run [Fetch ex_draws ex_branch] (s0, []) = Some (Inr (s, q)) \<and> q \<noteq> [] \<and>
     unat (SC_debt (destroy_state_cache_pool s)) = length q"
proof -
  obtain s0 where s0: "ex_create = Inr s0" using ex_create_ok by blast
  then have ok: "run_ok (s0, [])" "SC_debt s0 = 0"
    using bpred_create_ok [OF _ ex_inv(5,1,2,3) _ ex_inv(4), of None s0] by (simp_all add: ex_create_def)
  then obtain s q where r: "client_run [Fetch ex_draws ex_branch] (s0, []) = Some (Inr (s, q))" "q \<noteq> []"
    using fetch_ok [OF ok(1), of ex_draws ex_branch] by auto
  then show ?thesis
    using destroy_counts_leaks [OF _ ex_inv(5,1,2,3) _ ex_inv(4) _ r(1), of None] s0 by (auto simp: ex_create_def)
qed

section \<open>Statistics\<close>

text \<open>The branches an update counts, by kind.\<close>

definition by_kind :: "bpred_t \<Rightarrow> counter_t" where
  "by_kind s = num_cond s + num_call s + num_ret s + num_uncond s"

definition stats :: "bpred_t \<Rightarrow> counter_t list" where
  "stats s = [num_lookups s, num_updates s, num_spec_updates s, num_cond s, num_call s, num_ret s, num_uncond s,
     num_dir_hits s, num_addr_hits s, num_hits s]"

lemma case_optionE_Some: "case_option None f x = Some y \<Longrightarrow> (\<And>z. x = Some z \<Longrightarrow> f z = Some y \<Longrightarrow> P) \<Longrightarrow> P"
  by (cases x) auto

text \<open>How the operations change the counters: an update by one in one kind, nothing else does.\<close>

definition balanced_step :: "bpred_t \<Rightarrow> bpred_t \<Rightarrow> bool" where
  "balanced_step s s' \<longleftrightarrow> num_updates s' - by_kind s' = num_updates s - by_kind s \<and> frozen s' = frozen s \<and>
     (frozen s \<longrightarrow> stats s' = stats s)"

lemma balanced_trans: "balanced_step s s' \<Longrightarrow> balanced_step s' s'' \<Longrightarrow> balanced_step s s''"
  by (simp add: balanced_step_def)

lemma balanced_refl [simp]: "balanced_step s s"
  by (simp add: balanced_step_def)

lemma balanced_parts:
  "balanced_step s (s'\<lparr>bpreds := ds, fusion := f, dirjmp_BTB := dt, indirjmp_BTB := it\<rparr>) = balanced_step s s'"
  "balanced_step s (s'\<lparr>ras := r\<rparr>) = balanced_step s s'"
  by (simp_all add: balanced_step_def by_kind_def stats_def)

lemma balanced_counts:
  "balanced_step s (BPRED_STAT (\<lambda>s. s\<lparr>num_lookups := num_lookups s + 1\<rparr>) s)"
  "balanced_step s (BPRED_STAT (\<lambda>s. s\<lparr>num_spec_updates := num_spec_updates s + 1\<rparr>) s)"
  by (simp_all add: balanced_step_def by_kind_def stats_def BPRED_STAT_def)

lemma bpred_lookup_frame:
  assumes "bpred_lookup rnd s sc fl PC ftPC tPC oPC outcome = Some (a, s', sc')"
  shows "\<exists>ds f dt it r. s' = BPRED_STAT (\<lambda>s. s\<lparr>num_lookups := num_lookups s + 1\<rparr>) s
    \<lparr>bpreds := ds, fusion := f, dirjmp_BTB := dt, indirjmp_BTB := it\<rparr>\<lparr>ras := r\<rparr>"
  using assms unfolding bpred_lookup_def Let_def case_prod_beta
  by (elim case_optionE_Some) (simp add: map_option_eq_Some, blast)

lemma balanced_lookup:
  assumes "bpred_lookup rnd s sc fl PC ftPC tPC oPC outcome = Some (a, s', sc')"
  shows "balanced_step s s'"
  using bpred_lookup_frame [OF assms] by (auto simp: balanced_parts balanced_counts)

lemma balanced_spec_update:
  "bpred_spec_update s sc fl PC tPC oPC outcome = Some (s', sc') \<Longrightarrow> balanced_step s s'"
  unfolding bpred_spec_update_def Let_def case_prod_beta
  by (auto simp: balanced_parts balanced_counts elim!: case_optionE_Some split: if_splits)

lemma balanced_restore: "bpred_restore df ff bf s sc = Some s' \<Longrightarrow> balanced_step s s'"
  by (auto simp: bpred_restore_def balanced_step_def by_kind_def stats_def split: option.splits prod.splits)

lemma balanced_pool:
  "get_state_cache s = (sc, s') \<Longrightarrow> balanced_step s s'" "balanced_step s (return_state_cache s sc)"
  by (auto simp: get_state_cache_def return_state_cache_def grow_pool_def balanced_step_def by_kind_def stats_def Let_def
      split: option.splits if_splits)

text \<open>The counting of an update, then of its kind.\<close>

lemma balanced_update_kind:
  "balanced_step s (BPRED_STAT (\<lambda>s. s\<lparr>num_cond := num_cond s + 1\<rparr>) (bpred_count_update sc oPC outcome s))"
  "balanced_step s (BPRED_STAT (\<lambda>s. s\<lparr>num_uncond := num_uncond s + 1\<rparr>) (bpred_count_update sc oPC outcome s))"
  "balanced_step s (BPRED_STAT (\<lambda>s. s\<lparr>num_call := num_call s + 1, ras := g (ras s)\<rparr>)
     (bpred_count_update sc oPC outcome s\<lparr>ras := r\<rparr>))"
  "balanced_step s (BPRED_STAT (\<lambda>s. s\<lparr>num_ret := num_ret s + 1, ras := g (ras s)\<rparr>)
     (bpred_count_update sc oPC outcome s\<lparr>ras := r\<rparr>))"
  by (simp_all add: balanced_step_def by_kind_def stats_def BPRED_STAT_def bpred_count_update_def)

lemma balanced_update_BTB:
  "bpred_update_BTB rnd s sc fl PC oPC outcome = Some (Inr (s', sc')) \<Longrightarrow> balanced_step s0 s \<Longrightarrow> balanced_step s0 s'"
  by (auto simp: bpred_update_BTB_def balanced_step_def by_kind_def stats_def map_sum_Inr
      split: option.splits bool.splits)

lemma balanced_update_cond:
  "bpred_update_cond rnd s sc PC tPC oPC outcome = Some (s', sc') \<Longrightarrow>
   balanced_step s0 (BPRED_STAT (\<lambda>s. s\<lparr>num_cond := num_cond s + 1\<rparr>) s) \<Longrightarrow> balanced_step s0 s'"
  unfolding bpred_update_cond_def Let_def case_prod_beta
  by (elim case_optionE_Some) (auto simp: balanced_step_def by_kind_def stats_def)

lemma balanced_update:
  assumes "bpred_update rnd s sc fl PC ftPC tPC oPC outcome = Some (Inr (s', sc'))"
  shows "balanced_step s s'"
proof (cases "RETN fl")
  case True
  then show ?thesis using assms balanced_update_kind(4) by (auto simp: bpred_update_def Let_def)
next
  case False
  let ?s1 = "bpred_count_update sc oPC outcome s"
  obtain s2 sc2 where u: "bpred_update_BTB rnd s2 sc2 fl PC oPC outcome = Some (Inr (s', sc'))"
    and s2: "(if COND fl then bpred_update_cond rnd ?s1 sc PC tPC oPC outcome
      else if CALL fl then Some (BPRED_STAT (\<lambda>s. s\<lparr>num_call := num_call s + 1, ras := ras_count_push (ras s)\<rparr>)
                                   (?s1\<lparr>ras := ras_real_push (ras ?s1) ftPC\<rparr>), sc)
      else Some (BPRED_STAT (\<lambda>s. s\<lparr>num_uncond := num_uncond s + 1\<rparr>) ?s1, sc)) = Some (s2, sc2)"
    using assms False unfolding bpred_update_def Let_def by (auto elim!: case_optionE_Some simp del: if_split)
  have "balanced_step s s2"
  proof (cases "COND fl")
    case True
    then show ?thesis using s2 balanced_update_cond balanced_update_kind(1) by auto
  next
    case False
    then show ?thesis using s2 balanced_update_kind(2,3) by (cases "CALL fl") auto
  qed
  with u show ?thesis by (rule balanced_update_BTB)
qed

lemma balanced_recover: "bpred_recover s sc outcome = Some s' \<Longrightarrow> balanced_step s s'"
  unfolding bpred_recover_def by (rule balanced_restore)

lemma balanced_flush: "bpred_flush s sc = Some s' \<Longrightarrow> balanced_step s s'"
  unfolding bpred_flush_def by (rule balanced_restore)

lemmas balanced_ops = balanced_lookup balanced_spec_update balanced_update balanced_recover balanced_flush balanced_pool(1)

lemma balanced_fetch:
  assumes "fetch_branch rnd s b = Some (a, s', sc')"
  shows "balanced_step s s'"
proof -
  obtain sc s0 where g: "get_state_cache s = (sc, s0)" by force
  then obtain s1 sc1 where "bpred_lookup rnd s0 sc (opflags b) (br_PC b) (br_ftPC b) (br_targetPC b) (br_NextPC b) (taken_branch b) =
      Some (a, s1, sc1)" "bpred_spec_update s1 sc1 (opflags b) (br_PC b) (br_targetPC b) (br_NextPC b) (our_pred sc1) = Some (s', sc')"
    using assms by (auto simp: fetch_branch_def split: option.splits)
  then show ?thesis using balanced_lookup balanced_spec_update balanced_pool(1) [OF g] by (meson balanced_trans)
qed

lemma balanced_commit:
  assumes "commit_branch rnd s sc b = Some (Inr s')"
  shows "balanced_step s s'"
proof -
  obtain s1 sc1 where "bpred_update rnd s sc (opflags b) (br_PC b) (br_ftPC b) (br_targetPC b) (br_NextPC b) (taken_branch b) =
      Some (Inr (s1, sc1))" "s' = return_state_cache s1 sc1"
    using assms by (auto simp: commit_branch_def map_sum_Inr)
  then show ?thesis using balanced_update balanced_pool(2) by (meson balanced_trans)
qed

lemma balanced_BranchPredict:
  assumes "BranchPredict rnd m fl pc npc tpc tk s = Some (Inr (x, s'))"
  shows "balanced_step s s'"
proof (cases "npc = tpc")
  case False
  obtain sc s0 where g: "get_state_cache s = (sc, s0)" by force
  let ?o = "if tk then tpc else npc"
  obtain a s1 sc1 s2 sc2 where l: "bpred_lookup rnd s0 sc fl pc npc tpc ?o tk = Some (a, s1, sc1)"
    "bpred_spec_update s1 sc1 fl pc tpc ?o (our_pred sc1) = Some (s2, sc2)"
    using assms False g by (auto simp: BranchPredict_def Let_def elim!: case_optionE_Some)
  have b2: "balanced_step s s2" using balanced_lookup [OF l(1)] balanced_spec_update [OF l(2)] balanced_pool(1) [OF g] by (meson balanced_trans)
  obtain s3 sc3 where f: "(if m then Some (Inr (s2, sc2))
      else case (if a = ?o then Some s2 else bpred_recover s2 sc2 tk) of None \<Rightarrow> None
           | Some s \<Rightarrow> bpred_update rnd s sc2 fl pc npc tpc ?o tk) = Some (Inr (s3, sc3))" "s' = return_state_cache s3 sc3"
    using assms False unfolding BranchPredict_def Let_def g prod.case l option.case
    by (auto elim!: case_optionE_Some split: sum.splits)
  have "balanced_step s2 s3"
  proof (cases m)
    case False
    then obtain s4 where "(if a = ?o then Some s2 else bpred_recover s2 sc2 tk) = Some s4"
      "bpred_update rnd s4 sc2 fl pc npc tpc ?o tk = Some (Inr (s3, sc3))"
      using f(1) by (auto elim!: case_optionE_Some simp del: if_split)
    then show ?thesis using balanced_update balanced_recover balanced_trans by (metis balanced_refl option.inject)
  qed (use f(1) in simp)
  then show ?thesis using b2 balanced_pool(2) f(2) by (meson balanced_trans)
qed (use assms in \<open>simp add: BranchPredict_def\<close>)

lemma balanced_client_step:
  assumes "client_step e (s, q) = Some (Inr (s', q'))" and "e \<noteq> Freeze" and "e \<noteq> Reset"
  shows "balanced_step s s'"
proof (cases e)
  case (Squash i)
  then show ?thesis using assms(1) balanced_flush [of s "q ! i"] balanced_pool(2)
    by (auto simp: squash_branch_def split: if_splits intro: balanced_trans)
next
  case (Recover i outcome)
  then show ?thesis using assms(1) balanced_recover by (auto split: if_splits)
next
  case (Commit rnd i b)
  then show ?thesis using assms(1) balanced_commit by (auto simp: map_sum_Inr split: if_splits)
next
  case (Fetch rnd b)
  then show ?thesis using assms(1) balanced_fetch by auto
next
  case (Predict rnd m fl pc npc tpc tk)
  then show ?thesis using assms(1) balanced_BranchPredict by (auto simp: map_sum_Inr)
qed (use assms in auto)

lemma run_step:
  assumes "client_run (e # es) (s, q) = Some (Inr (s', q'))"
  shows "\<exists>s1 q1. client_step e (s, q) = Some (Inr (s1, q1)) \<and> client_run es (s1, q1) = Some (Inr (s', q'))"
  using assms by (auto split: option.splits sum.splits)

lemma run_balanced:
  "client_run es (s, q) = Some (Inr (s', q')) \<Longrightarrow> num_updates s = by_kind s \<Longrightarrow> num_updates s' = by_kind s'"
proof (induction es arbitrary: s q)
  case (Cons e es)
  obtain s1 q1 where s1: "client_step e (s, q) = Some (Inr (s1, q1))" "client_run es (s1, q1) = Some (Inr (s', q'))"
    using run_step [OF Cons.prems(1)] by blast
  consider "e = Freeze" | "e = Reset" | "balanced_step s s1" using balanced_client_step [OF s1(1)] by blast
  then have "num_updates s1 = by_kind s1"
    by cases (use s1(1) Cons.prems(2) in \<open>auto simp: by_kind_def bpred_freeze_stats_def bpred_reset_stats_def balanced_step_def\<close>)
  then show ?case by (rule Cons.IH [OF s1(2)])
qed simp

lemma client_run_frozen:
  "client_run es (s, q) = Some (Inr (s', q')) \<Longrightarrow> frozen s \<Longrightarrow> Reset \<notin> set es \<Longrightarrow> stats s' = stats s"
proof (induction es arbitrary: s q)
  case (Cons e es)
  obtain s1 q1 where s1: "client_step e (s, q) = Some (Inr (s1, q1))" "client_run es (s1, q1) = Some (Inr (s', q'))"
    using run_step [OF Cons.prems(1)] by blast
  consider "e = Freeze" | "balanced_step s s1" using balanced_client_step [OF s1(1)] Cons.prems(3) by force
  then have "stats s1 = stats s \<and> frozen s1"
    by cases (use s1(1) Cons.prems(2) in \<open>auto simp: stats_def bpred_freeze_stats_def balanced_step_def\<close>)
  then show ?case using Cons.IH [OF s1(2)] Cons.prems(3) by simp
qed simp

text \<open>C17: however the components predict, every committed branch is counted in exactly one of the four
  kinds: conditional, call, return, other.\<close>

theorem updates_counted_by_kind:
  assumes "bpred_create ds f d i r = Inr s0" and "client_run es (s0, []) = Some (Inr (s, q))"
  shows "num_updates s = num_cond s + num_call s + num_ret s + num_uncond s"
proof -
  have "num_updates s0 = by_kind s0"
    using assms(1) by (auto simp: bpred_create_def init_state_cache_pool_def checks_Inr_iff by_kind_def split: sum.splits)
  then show ?thesis using run_balanced [OF assms(2)] by (simp add: by_kind_def)
qed

theorem updates_counted_by_kind_witness:
  "\<exists>s0 s q. ex_create = Inr s0 \<and> client_run [Fetch ex_draws ex_branch, Commit ex_draws 0 ex_branch] (s0, []) = Some (Inr (s, q)) \<and>
     num_updates s = num_cond s + num_call s + num_ret s + num_uncond s"
proof -
  obtain s0 where s0: "ex_create = Inr s0" using ex_create_ok by blast
  then have ok: "run_ok (s0, [])" "SC_debt s0 = 0"
    using bpred_create_ok [OF _ ex_inv(5,1,2,3) _ ex_inv(4), of None s0] by (simp_all add: ex_create_def)
  obtain s q where r: "client_run [Fetch ex_draws ex_branch, Commit ex_draws 0 ex_branch] (s0, []) = Some (Inr (s, q))"
    using run_from_ok [OF ok(1), of "[Fetch ex_draws ex_branch, Commit ex_draws 0 ex_branch]"] ok(2) by auto
  then show ?thesis using updates_counted_by_kind [OF _ r] s0 by (auto simp: ex_create_def)
qed

text \<open>Once the statistics are frozen, no sequence of calls short of a reset changes a counter of
  the predictor.\<close>

lemma freeze_stops_counters:
  assumes "client_run (Freeze # es) (s, q) = Some (Inr (s', q'))" and "Reset \<notin> set es"
  shows "stats s' = stats s"
proof -
  have "client_run es (bpred_freeze_stats s, q) = Some (Inr (s', q'))" using assms(1) by simp
  then have "stats s' = stats (bpred_freeze_stats s)"
    using client_run_frozen assms(2) by (simp add: bpred_freeze_stats_def)
  then show ?thesis by (simp add: stats_def bpred_freeze_stats_def)
qed

lemma freeze_stops_counters_witness:
  "\<exists>s0 s q. ex_create = Inr s0 \<and> client_run [Freeze, Fetch ex_draws ex_branch, Commit ex_draws 0 ex_branch] (s0, []) = Some (Inr (s, q)) \<and>
     stats s = stats s0"
proof -
  obtain s0 where s0: "ex_create = Inr s0" using ex_create_ok by blast
  then have ok: "run_ok (s0, [])" "SC_debt s0 = 0"
    using bpred_create_ok [OF _ ex_inv(5,1,2,3) _ ex_inv(4), of None s0] by (simp_all add: ex_create_def)
  obtain s q where r: "client_run [Freeze, Fetch ex_draws ex_branch, Commit ex_draws 0 ex_branch] (s0, []) = Some (Inr (s, q))"
    using run_from_ok [OF ok(1), of "[Freeze, Fetch ex_draws ex_branch, Commit ex_draws 0 ex_branch]"] ok(2) by auto
  then show ?thesis using freeze_stops_counters [OF r] s0 by auto
qed

lemma perfect_preds:
  "for_preds (\<lambda>i d c p. map_option (\<lambda>(p', d', c'). (d', c', p')) (dir_lookup (r i) d c PC tPC oPC outcome)) 0 [D_perfect d] cs ps =
     Some (ds', cs', ps') \<Longrightarrow> ps' = [outcome]"
  by (cases cs; cases ps; cases "tl cs"; cases "tl ps") (auto simp: bpred_perfect_lookup_def split: option.splits)

lemma perfect_btb:
  "btb_lookup (T_perfect t) x PC tPC oPC outcome True = Some (a, t', x') \<Longrightarrow> a = (if outcome then oPC else tPC)"
  by (auto simp: BTB_perfect_lookup_def split: if_splits)

lemma perfect_indir:
  assumes "opt_BTB (\<lambda>t x. map_option (\<lambda>(a, t', x'). (a, Some t', Some x')) (btb_lookup t x PC tPC oPC outcome True))
      (if outcome then oPC else tPC, None, sc) t sc = Some (ip, it, ic)" and "pred_option (\<lambda>t. \<exists>u. t = T_perfect u) t"
  shows "ip = (if outcome then oPC else tPC)"
  using assms by (auto simp: opt_BTB_def option.pred_set BTB_perfect_lookup_def split: option.splits if_splits)

text \<open>C3: with oracle components (one perfect direction predictor, perfect target buffers and return
  address stack) every look-up returns the instruction that comes next, for conditional branches, calls,
  returns, direct and indirect jumps alike, provided the caller's data are consistent: a branch not
  taken goes to its fall-through address, only conditional branches are not taken, and the next address
  is neither 0 nor 1, which the code uses for "no prediction".\<close>

theorem perfect_predictor_is_oracle:
  assumes "bpreds s = [D_perfect d]" and "fusion s = F_singleton f" and "ras s = R_perfect r"
    and "dirjmp_BTB s = T_perfect t" and "pred_option (\<lambda>t. \<exists>u. t = T_perfect u) (indirjmp_BTB s)"
    and "bpred_lookup rnd s sc fl PC ftPC tPC oPC outcome = Some (a, s', sc')"
    and "\<not> outcome \<Longrightarrow> COND fl \<and> \<not> RETN fl \<and> oPC = ftPC" and "oPC \<noteq> 0" and "oPC \<noteq> 1"
  shows "a = oPC \<and> our_target sc' = oPC \<and> our_pred sc' = outcome"
proof -
  let ?s = "BPRED_STAT (\<lambda>s. s\<lparr>num_lookups := num_lookups s + 1\<rparr>) s"
  note fr = bpred_stat_frame [of ?s s, OF disjI1, OF refl]
  note l = assms(6) [unfolded bpred_lookup_def Let_def [of ?s] fr assms(1-4)]
  obtain ds cs ps where p: "for_preds (\<lambda>i d c p. map_option (\<lambda>(p', d', c'). (d', c', p'))
      (dir_lookup (dir_draw rnd i) d c PC tPC oPC outcome)) 0 [D_perfect d] (pcache sc) (preds sc) = Some (ds, cs, ps)"
    using l by (elim case_optionE_Some) auto
  note l1 = l [unfolded p option.case prod.case perfect_preds [OF p]]
  obtain cd f' fc where f: "fus_lookup (fusion_draw rnd) (F_singleton f) (fcache sc) [outcome] PC outcome = Some (cd, f', fc)"
    using l1 by (elim case_optionE_Some) auto
  have cd: "cd = outcome" using f by (auto simp: fusion_singleton_lookup_def)
  note l2 = l1 [unfolded f option.case prod.case]
  obtain dp dt dc where d: "btb_lookup (T_perfect t) (dirjmp sc) PC tPC oPC outcome True = Some (dp, dt, dc)"
    using l2 by (elim case_optionE_Some) auto
  note l3 = l2 [unfolded d option.case prod.case perfect_btb [OF d]]
  obtain ip it ic where i: "opt_BTB (\<lambda>t x. map_option (\<lambda>(a, t', x'). (a, Some t', Some x')) (btb_lookup t x PC tPC oPC outcome True))
      (if outcome then oPC else tPC, None, indirjmp sc) (indirjmp_BTB s) (indirjmp sc) = Some (ip, it, ic)"
    using l3 by (elim case_optionE_Some) auto
  note l4 = l3 [unfolded i option.case prod.case perfect_indir [OF i assms(5)] cd]
  show ?thesis using l4 assms(7-9)
    by (cases "RETN fl"; cases "COND fl"; cases outcome; cases "CALL fl") (auto simp: Let_def RAS_perfect_pop_def RAS_push_def)
qed

definition ex_perfect :: bpred_t where
  "ex_perfect = \<lparr>num_pred = 1, bpreds = [D_perfect bpred_perfect_create], fusion = F_singleton fusion_singleton_create,
     ras = R_perfect RAS_perfect_create, dirjmp_BTB = T_perfect BTB_perfect_create, indirjmp_BTB = None, bpredSCC_size = 1,
     bpredSCC_head = 0, bpredSCC = [None], SC_debt = 0, num_lookups = 0, num_updates = 0, num_spec_updates = 0, num_cond = 0,
     num_call = 0, num_ret = 0, num_uncond = 0, num_dir_hits = 0, num_addr_hits = 0, num_hits = 0, frozen = False\<rparr>"

theorem perfect_predictor_is_oracle_witness:
  "\<exists>s' sc'. bpred_lookup ex_draws ex_perfect (new_state_cache ex_perfect) ex_flags 16 20 64 64 True = Some (64, s', sc')"
proof -
  have i: "bp_inv ex_perfect"
    by (simp add: bp_inv_def ex_perfect_def fusion_singleton_create_def fusion_init_def)
  obtain a s' sc' where l:
    "bpred_lookup ex_draws ex_perfect (new_state_cache ex_perfect) ex_flags 16 20 64 64 True = Some (a, s', sc')"
    using bpred_lookup_ok [OF i new_state_cache_match [OF i]] by blast
  have "a = 64" using perfect_predictor_is_oracle [OF _ _ _ _ _ l] by (simp add: ex_perfect_def)
  with l show ?thesis by blast
qed

end
