(* ===== verification/Memdep.thy ===== *)
theory Memdep
  imports Prelude
begin

text \<open>
  Memory dependence predictors: \<^verbatim>\<open>zesto-memdep.cpp\<close> and \<^verbatim>\<open>xiosim/ZCOMPS-memdep\<close>. A predictor says whether
  a load may issue before earlier store addresses are known. Cycle counts (\<^verbatim>\<open>tick_t\<close>) are signed 64-bit
  in the code and integers here: a simulation never counts to \<^verbatim>\<open>2^63\<close>. The locale \<open>dep_predictor\<close> is
  what the execution stage relies on.
\<close>

section \<open>Base class\<close>

record memdep_t =
  name :: string
  type_ :: string
  bits :: cint
  lookups :: counter_t
  updates :: counter_t
  frozen :: bool

definition memdep_init :: "string \<Rightarrow> string \<Rightarrow> cint \<Rightarrow> memdep_t" where
  "memdep_init nm ty b = \<lparr>name = nm, type_ = ty, bits = b, lookups = 0, updates = 0, frozen = False\<rparr>"

definition memdep_count_lookup :: "'a memdep_t_scheme \<Rightarrow> 'a memdep_t_scheme" where
  "memdep_count_lookup s = (if \<not> frozen s then s\<lparr>lookups := lookups s + 1\<rparr> else s)"

definition memdep_update :: "'a memdep_t_scheme \<Rightarrow> md_addr_t \<Rightarrow> 'a memdep_t_scheme" where
  "memdep_update s PC = (if \<not> frozen s then s\<lparr>updates := updates s + 1\<rparr> else s)"

definition memdep_freeze_stats :: "'a memdep_t_scheme \<Rightarrow> 'a memdep_t_scheme" where
  "memdep_freeze_stats s = s\<lparr>frozen := True\<rparr>"

section \<open>Stateless predictors\<close>

definition memdep_blind_create :: memdep_t where
  "memdep_blind_create = memdep_init ''blind'' ''blind'' 0"

definition memdep_blind_lookup :: "memdep_t \<Rightarrow> md_addr_t \<Rightarrow> bool \<Rightarrow> bool \<Rightarrow> bool \<Rightarrow> bool \<times> memdep_t" where
  "memdep_blind_lookup s PC sta_unknown conflict_exists partial_match = (True, memdep_count_lookup s)"

definition memdep_none_create :: memdep_t where
  "memdep_none_create = memdep_init ''none'' ''none'' 0"

definition memdep_none_lookup :: "memdep_t \<Rightarrow> md_addr_t \<Rightarrow> bool \<Rightarrow> bool \<Rightarrow> bool \<Rightarrow> bool \<times> memdep_t" where
  "memdep_none_lookup s PC sta_unknown conflict_exists partial_match =
     (\<not> sta_unknown \<and> \<not> partial_match, memdep_count_lookup s)"

definition memdep_oracle_create :: memdep_t where
  "memdep_oracle_create = memdep_init ''oracle'' ''oracle'' 0"

definition memdep_oracle_lookup :: "memdep_t \<Rightarrow> md_addr_t \<Rightarrow> bool \<Rightarrow> bool \<Rightarrow> bool \<Rightarrow> bool \<times> memdep_t" where
  "memdep_oracle_lookup s PC sta_unknown conflict_exists partial_match =
     ((\<not> conflict_exists \<and> \<not> partial_match) \<or> \<not> sta_unknown, memdep_count_lookup s)"

section \<open>Load wait table (\<^verbatim>\<open>memdep-lwt.cpp\<close>)\<close>

record memdep_lwt_t = memdep_t +
  num_entries :: cint
  array :: "bool list"
  reset_interval :: cint
  last_reset :: int
  mask :: cint

text \<open>\<open>lg\<close> is the value of \<^verbatim>\<open>(int)ceil(log(reset_interval)/log(2.0))\<close>.\<close>

definition memdep_lwt_create :: "cint \<Rightarrow> string \<Rightarrow> cint \<Rightarrow> cint \<Rightarrow> fatal + memdep_lwt_t" where
  "memdep_lwt_create lg arg_name arg_num_entries arg_reset_interval =
     checks [(check_ppow2 arg_num_entries, Not_ppow2), (check_pos arg_reset_interval, Not_pos)]
       (memdep_t.extend (memdep_init arg_name ''lwt-memdep'' (arg_num_entries + lg))
         (memdep_lwt_t.fields arg_num_entries (replicate (unat arg_num_entries) False) arg_reset_interval 0 (arg_num_entries - 1)))"

definition lwt_reset :: "int \<Rightarrow> memdep_lwt_t \<Rightarrow> memdep_lwt_t" where
  "lwt_reset sim_cycle s =
     (if sim_cycle - last_reset s \<ge> sint (reset_interval s)
      then s\<lparr>array := replicate (unat (num_entries s)) False, last_reset := sim_cycle - sim_cycle mod sint (reset_interval s)\<rparr>
      else s)"

definition memdep_lwt_lookup :: "int \<Rightarrow> memdep_lwt_t \<Rightarrow> md_addr_t \<Rightarrow> bool \<Rightarrow> bool \<Rightarrow> bool \<Rightarrow> bool \<times> memdep_lwt_t" where
  "memdep_lwt_lookup sim_cycle s PC sta_unknown conflict_exists partial_match =
     (let index = unat (pc_mask PC (mask s));
          s = lwt_reset sim_cycle (memdep_count_lookup s)
      in (if array s ! index then \<not> sta_unknown else True, s))"

definition memdep_lwt_update :: "int \<Rightarrow> memdep_lwt_t \<Rightarrow> md_addr_t \<Rightarrow> memdep_lwt_t" where
  "memdep_lwt_update sim_cycle s PC =
     (let s = lwt_reset sim_cycle (memdep_update s PC);
          index = unat (pc_mask PC (mask s))
      in s\<lparr>array := (array s)[index := True]\<rparr>)"

section \<open>The interface\<close>

text \<open>A predictor over time: look-ups and updates at given cycles keep its shape, and a load whose store
  addresses are all known is never held back by the wait table.\<close>

locale dep_predictor =
  fixes inv :: "'s \<Rightarrow> bool"
    and lookup :: "int \<Rightarrow> 's \<Rightarrow> md_addr_t \<Rightarrow> bool \<Rightarrow> bool \<Rightarrow> bool \<Rightarrow> bool \<times> 's"
    and update :: "int \<Rightarrow> 's \<Rightarrow> md_addr_t \<Rightarrow> 's"
  assumes lookup_inv: "inv s \<Longrightarrow> inv (snd (lookup t s PC su ce pm))"
    and update_inv: "inv s \<Longrightarrow> inv (update t s PC)"
    and known_issues: "inv s \<Longrightarrow> fst (lookup t s PC False ce False)"

datatype dep_op = Lookup int md_addr_t bool bool bool | Update int md_addr_t

fun dep_step :: "(int \<Rightarrow> 's \<Rightarrow> md_addr_t \<Rightarrow> bool \<Rightarrow> bool \<Rightarrow> bool \<Rightarrow> bool \<times> 's) \<Rightarrow> (int \<Rightarrow> 's \<Rightarrow> md_addr_t \<Rightarrow> 's) \<Rightarrow>
    's \<Rightarrow> dep_op \<Rightarrow> 's" where
  "dep_step lk up s (Lookup t PC su ce pm) = snd (lk t s PC su ce pm)"
| "dep_step lk up s (Update t PC) = up t s PC"

context dep_predictor begin

lemma run_inv: "inv s \<Longrightarrow> inv (foldl (dep_step lookup update) s es)"
proof (induction es arbitrary: s)
  case (Cons e es)
  then show ?case using lookup_inv update_inv by (cases e) simp_all
qed simp

lemma run_known_issues:
  "inv s \<Longrightarrow> fst (lookup t (foldl (dep_step lookup update) s es) PC False ce False)"
  using run_inv known_issues by blast

end

interpretation dblind: dep_predictor "\<lambda>_. True" "\<lambda>t. memdep_blind_lookup" "\<lambda>t. memdep_update"
  by unfold_locales (simp_all add: memdep_blind_lookup_def)

interpretation dnone: dep_predictor "\<lambda>_. True" "\<lambda>t. memdep_none_lookup" "\<lambda>t. memdep_update"
  by unfold_locales (simp_all add: memdep_none_lookup_def)

interpretation doracle: dep_predictor "\<lambda>_. True" "\<lambda>t. memdep_oracle_lookup" "\<lambda>t. memdep_update"
  by unfold_locales (simp_all add: memdep_oracle_lookup_def)

definition memdep_lwt_inv :: "memdep_lwt_t \<Rightarrow> bool" where
  "memdep_lwt_inv s \<longleftrightarrow> check_ppow2 (num_entries s) \<and> mask s = num_entries s - 1 \<and>
     length (array s) = unat (num_entries s) \<and> check_pos (reset_interval s)"

lemma lwt_frame [simp]:
  "memdep_lwt_inv (memdep_count_lookup s) = memdep_lwt_inv s" "memdep_lwt_inv (memdep_update s PC) = memdep_lwt_inv s"
  "array (memdep_count_lookup s) = array s" "array (memdep_update s PC) = array s"
  "last_reset (memdep_count_lookup s) = last_reset s" "last_reset (memdep_update s PC) = last_reset s"
  "reset_interval (memdep_count_lookup s) = reset_interval s" "reset_interval (memdep_update s PC) = reset_interval s"
  "mask (memdep_count_lookup s) = mask s" "mask (memdep_update s PC) = mask s"
  by (simp_all add: memdep_count_lookup_def memdep_update_def memdep_lwt_inv_def)

lemma lwt_reset_frame [simp]:
  "memdep_lwt_inv s \<Longrightarrow> memdep_lwt_inv (lwt_reset t s)" "mask (lwt_reset t s) = mask s"
  "reset_interval (lwt_reset t s) = reset_interval s"
  by (simp_all add: lwt_reset_def memdep_lwt_inv_def)

interpretation dlwt: dep_predictor memdep_lwt_inv memdep_lwt_lookup memdep_lwt_update
proof (unfold_locales, goal_cases)
  case (2 s t PC)
  then have "memdep_lwt_inv (lwt_reset t (memdep_update s PC))" by simp
  then show ?case by (simp add: memdep_lwt_update_def Let_def memdep_lwt_inv_def)
qed (simp_all add: memdep_lwt_lookup_def Let_def)

section \<open>Properties\<close>

fun op_time :: "dep_op \<Rightarrow> int" where
  "op_time (Lookup t PC su ce pm) = t"
| "op_time (Update t PC) = t"

text \<open>The last reset is the start of a reset interval not after the current one.\<close>

definition lwt_time_ok :: "int \<Rightarrow> memdep_lwt_t \<Rightarrow> bool" where
  "lwt_time_ok t s \<longleftrightarrow> memdep_lwt_inv s \<and> 0 \<le> last_reset s \<and> last_reset s \<le> t \<and> last_reset s mod sint (reset_interval s) = 0"

lemma interval_pos: "memdep_lwt_inv s \<Longrightarrow> 0 < sint (reset_interval s)"
  by (simp add: memdep_lwt_inv_def check_pos_def)

lemma lwt_reset_time:
  assumes "lwt_time_ok t0 s" and "t0 \<le> t"
  shows "lwt_time_ok t (lwt_reset t s) \<and> last_reset (lwt_reset t s) div sint (reset_interval s) = t div sint (reset_interval s)"
proof -
  let ?r = "sint (reset_interval s)"
  have r: "0 < ?r" and l: "0 \<le> last_reset s" "last_reset s \<le> t0" "last_reset s mod ?r = 0" and i: "memdep_lwt_inv s"
    using assms(1) interval_pos by (auto simp: lwt_time_ok_def)
  show ?thesis
  proof (cases "t - last_reset s \<ge> ?r")
    case True
    have e: "t - t mod ?r = ?r * (t div ?r)" by (simp add: minus_mod_eq_mult_div)
    have "0 \<le> t" using l assms(2) by linarith
    then have "0 \<le> ?r * (t div ?r)" using r by (simp add: pos_imp_zdiv_nonneg_iff)
    moreover have "?r * (t div ?r) \<le> t" using e pos_mod_sign [OF r, of t] by linarith
    ultimately show ?thesis using True i e r by (simp add: lwt_reset_def lwt_time_ok_def memdep_lwt_inv_def)
  next
    case False
    have "last_reset s = ?r * (last_reset s div ?r)" using l(3) by (metis add.right_neutral mult_div_mod_eq)
    then have "t div ?r = last_reset s div ?r"
      using False r l assms(2) by (intro int_div_pos_eq [of _ _ _ "t - last_reset s"]) auto
    then show ?thesis using False i l assms(2) by (simp add: lwt_reset_def lwt_time_ok_def)
  qed
qed

abbreviation lwt_run :: "memdep_lwt_t \<Rightarrow> dep_op list \<Rightarrow> memdep_lwt_t" where
  "lwt_run \<equiv> foldl (dep_step memdep_lwt_lookup memdep_lwt_update)"

text \<open>The updates of entry \<open>i\<close> in the interval numbered \<open>k\<close>.\<close>

definition updated_in :: "memdep_lwt_t \<Rightarrow> dep_op list \<Rightarrow> int \<Rightarrow> nat \<Rightarrow> bool" where
  "updated_in s es k i \<longleftrightarrow> (\<exists>t PC. Update t PC \<in> set es \<and> t div sint (reset_interval s) = k \<and> unat (pc_mask PC (mask s)) = i)"

text \<open>What a run leaves: the table holds the updates since the start of the interval of the last reset.\<close>

definition lwt_holds :: "memdep_lwt_t \<Rightarrow> dep_op list \<Rightarrow> int \<Rightarrow> memdep_lwt_t \<Rightarrow> bool" where
  "lwt_holds s0 es t s \<longleftrightarrow> lwt_time_ok t s \<and> reset_interval s = reset_interval s0 \<and> mask s = mask s0 \<and>
     (\<forall>e \<in> set es. op_time e div sint (reset_interval s0) \<le> last_reset s div sint (reset_interval s0)) \<and>
     (\<forall>i < unat (num_entries s). array s ! i \<longleftrightarrow> updated_in s0 es (last_reset s div sint (reset_interval s0)) i)"

lemma lwt_reset_holds:
  assumes "lwt_holds s0 es t0 s" and "t0 \<le> t"
  shows "lwt_holds s0 es t (lwt_reset t s) \<and> last_reset (lwt_reset t s) div sint (reset_interval s0) = t div sint (reset_interval s0)"
proof -
  let ?r = "sint (reset_interval s0)"
  have h: "lwt_time_ok t0 s" "reset_interval s = reset_interval s0" "mask s = mask s0"
    "\<And>e. e \<in> set es \<Longrightarrow> op_time e div ?r \<le> last_reset s div ?r"
    "\<And>i. i < unat (num_entries s) \<Longrightarrow> array s ! i \<longleftrightarrow> updated_in s0 es (last_reset s div ?r) i"
    using assms(1) by (auto simp: lwt_holds_def)
  have k: "lwt_time_ok t (lwt_reset t s)" "last_reset (lwt_reset t s) div ?r = t div ?r"
    using lwt_reset_time [OF h(1) assms(2)] h(2) by auto
  show ?thesis
  proof (cases "t - last_reset s \<ge> ?r")
    case False
    then have "lwt_reset t s = s" by (simp add: lwt_reset_def h(2))
    then show ?thesis using k h by (auto simp: lwt_holds_def)
  next
    case True
    have r: "0 < ?r" using h(1,2) interval_pos by (metis lwt_time_ok_def)
    have "last_reset s + ?r \<le> t" using True by simp
    then have lt: "last_reset s div ?r < t div ?r"
      using zdiv_mono1 [of "last_reset s + ?r" t ?r] r div_add_self2 [of ?r "last_reset s"] by simp
    have "op_time e div ?r \<noteq> t div ?r" if "e \<in> set es" for e using h(4) [OF that] lt by linarith
    then have "\<not> updated_in s0 es (t div ?r) i" for i by (force simp: updated_in_def)
    moreover have "op_time e div ?r \<le> t div ?r" if "e \<in> set es" for e using h(4) [OF that] lt by linarith
    moreover have "array (lwt_reset t s) = replicate (unat (num_entries s)) False" "num_entries (lwt_reset t s) = num_entries s"
      using True by (simp_all add: lwt_reset_def h(2))
    ultimately show ?thesis using k h(2,3) by (simp add: lwt_holds_def)
  qed
qed

lemma lwt_holds_count [simp]:
  "lwt_holds s0 es t (memdep_count_lookup s) = lwt_holds s0 es t s" "lwt_holds s0 es t (memdep_update s PC) = lwt_holds s0 es t s"
  by (simp_all add: lwt_holds_def lwt_time_ok_def memdep_count_lookup_def memdep_update_def memdep_lwt_inv_def)

lemma updated_in_snoc:
  "updated_in s0 (es @ [Lookup t PC su ce pm]) k i = updated_in s0 es k i"
  "updated_in s0 (es @ [Update t PC]) k i \<longleftrightarrow> updated_in s0 es k i \<or>
     t div sint (reset_interval s0) = k \<and> unat (pc_mask PC (mask s0)) = i"
  by (auto simp: updated_in_def)

lemma lwt_step_holds:
  assumes "lwt_holds s0 es t0 s" and "t0 \<le> op_time e"
  shows "lwt_holds s0 (es @ [e]) (op_time e) (dep_step memdep_lwt_lookup memdep_lwt_update s e)"
proof (cases e)
  case (Lookup t PC su ce pm)
  define s1 where "s1 = lwt_reset t (memdep_count_lookup s)"
  have "lwt_holds s0 es t s1" "last_reset s1 div sint (reset_interval s0) = t div sint (reset_interval s0)"
    using lwt_reset_holds [of s0 es t0 "memdep_count_lookup s" t] assms Lookup by (auto simp: s1_def)
  then show ?thesis using Lookup
    by (auto simp: memdep_lwt_lookup_def Let_def s1_def [symmetric] lwt_holds_def updated_in_snoc)
next
  case (Update t PC)
  define s1 where "s1 = lwt_reset t (memdep_update s PC)"
  have h: "lwt_holds s0 es t s1" "last_reset s1 div sint (reset_interval s0) = t div sint (reset_interval s0)"
    using lwt_reset_holds [of s0 es t0 "memdep_update s PC" t] assms Update by (auto simp: s1_def)
  then have "length (array s1) = unat (num_entries s1)" by (simp add: lwt_holds_def lwt_time_ok_def memdep_lwt_inv_def)
  then show ?thesis using h Update
    by (auto simp: memdep_lwt_update_def Let_def s1_def [symmetric] lwt_holds_def updated_in_snoc nth_list_update
        lwt_time_ok_def memdep_lwt_inv_def)
qed

lemma lwt_run_holds:
  assumes "memdep_lwt_create lg nm n r = Inr s0" and "sorted (0 # map op_time es @ [t])"
  shows "lwt_holds s0 es (last (0 # map op_time es)) (lwt_run s0 es)"
  using assms(2)
proof (induction es rule: rev_induct)
  case Nil
  show ?case using assms(1)
    by (auto simp: memdep_lwt_create_def checks_Inr_iff lwt_holds_def lwt_time_ok_def memdep_lwt_inv_def updated_in_def
        memdep_t.defs memdep_lwt_t.defs memdep_init_def)
next
  case (snoc e es)
  have "lwt_holds s0 es (last (0 # map op_time es)) (lwt_run s0 es)" using snoc by (auto simp: sorted_append)
  moreover have "last (0 # map op_time es) \<le> op_time e" using snoc.prems by (auto simp: sorted_append last_map)
  ultimately show ?case using lwt_step_holds by simp
qed

text \<open>C23: a load waits exactly when the address of an earlier store is unknown and a load of the same table
  entry caused an ordering violation earlier in the same reset interval: a load whose earlier stores are all
  known never waits, and neither a longer history nor one cleared too early has an effect, for any sequence
  of look-ups and violations in time order.\<close>

theorem lwt_waits_iff_violated_this_interval:
  assumes "memdep_lwt_create lg nm n r = Inr s" and "sorted (0 # map op_time es @ [t])"
  shows "fst (memdep_lwt_lookup t (lwt_run s es) PC sta_unknown ce pm) \<longleftrightarrow>
    \<not> (sta_unknown \<and> (\<exists>t' PC'. Update t' PC' \<in> set es \<and> t' div sint r = t div sint r \<and> pc_mask PC' (n - 1) = pc_mask PC (n - 1)))"
proof -
  have s: "reset_interval s = r" "mask s = n - 1" "check_ppow2 n"
    using assms(1) by (auto simp: memdep_lwt_create_def checks_Inr_iff memdep_t.defs memdep_lwt_t.defs memdep_init_def)
  have "last (0 # map op_time es) \<le> t" using assms(2) by (auto simp: sorted_append last_map)
  then have h: "lwt_holds s es t (lwt_reset t (memdep_count_lookup (lwt_run s es)))"
    "last_reset (lwt_reset t (memdep_count_lookup (lwt_run s es))) div sint r = t div sint r"
    using lwt_reset_holds [of s es "last (0 # map op_time es)" "memdep_count_lookup (lwt_run s es)" t]
      lwt_run_holds [OF assms] s(1) by auto
  have m: "mask (lwt_run s es) = n - 1" "num_entries (lwt_reset t (memdep_count_lookup (lwt_run s es))) = n"
    using h(1) s by (auto simp: lwt_holds_def lwt_time_ok_def memdep_lwt_inv_def)
  have "unat (pc_mask PC (n - 1)) < unat n" using s(3) by simp
  then have "array (lwt_reset t (memdep_count_lookup (lwt_run s es))) ! unat (pc_mask PC (n - 1)) \<longleftrightarrow>
      updated_in s es (t div sint r) (unat (pc_mask PC (n - 1)))"
    using h m(2) s(1) by (simp add: lwt_holds_def)
  then show ?thesis using s(1,2) by (simp add: memdep_lwt_lookup_def Let_def updated_in_def m(1) word_unat_eq_iff [symmetric]) blast
qed

theorem lwt_waits_iff_violated_this_interval_witness:
  "\<exists>s. memdep_lwt_create 7 ''lwt'' 4 100 = Inr s \<and> \<not> fst (memdep_lwt_lookup 150 (lwt_run s [Update 120 5]) 9 True False False) \<and>
     fst (memdep_lwt_lookup 150 (lwt_run s [Update 120 5]) 9 False False False) \<and>
     fst (memdep_lwt_lookup 250 (lwt_run s [Update 120 5]) 9 True False False)"
proof -
  obtain s where s: "memdep_lwt_create 7 ''lwt'' 4 100 = Inr s"
    by (simp add: memdep_lwt_create_def checks.simps check_ppow2_def IS_POW2_def check_pos_def)
  have "pc_mask 5 (4 - 1) = pc_mask 9 (4 - 1)" by (simp add: pc_mask_eq)
  then show ?thesis using s lwt_waits_iff_violated_this_interval [OF s, of "[Update 120 5]" 150 9 True False False]
      lwt_waits_iff_violated_this_interval [OF s, of "[Update 120 5]" 150 9 False False False]
      lwt_waits_iff_violated_this_interval [OF s, of "[Update 120 5]" 250 9 True False False] by simp
qed

text \<open>The wait table never holds back a load whose earlier store addresses are all known.\<close>

lemma lwt_known_stores_issue:
  "memdep_lwt_inv s \<Longrightarrow> fst (memdep_lwt_lookup t (lwt_run s es) PC False ce False)"
  by (rule dlwt.run_known_issues)

end
