(* ===== verification/Slist.thy ===== *)
theory Slist
  imports Prelude
begin

text \<open>
  The singly linked recency lists of \<^verbatim>\<open>prefetch-stream.cpp\<close> and of the sets of
  \<^verbatim>\<open>zesto-cache.cpp\<close>: a loop that walks the \<^verbatim>\<open>next\<close> pointers and remembers the previous node, and the
  two splices that follow it (to the front, to the end). The \<^verbatim>\<open>next\<close> members are a store of their
  own, \<^verbatim>\<open>NULL\<close> is None. The lemmas show that loops over an acyclic list end and that the splices
  implement moving an element of a list.
\<close>

section \<open>Pointer code\<close>

type_synonym links = "nat \<Rightarrow> nat option"

text \<open>\<^verbatim>\<open>while(p) { if(found(p)) break; prev = p; p = p->next; }\<close>, giving \<^verbatim>\<open>prev\<close> and \<^verbatim>\<open>p\<close>.\<close>

partial_function (option) find_from ::
  "(nat \<Rightarrow> bool) \<Rightarrow> links \<Rightarrow> nat option \<Rightarrow> nat option \<Rightarrow> (nat option \<times> nat option) option" where
  "find_from found nxt prev p =
     (case p of None \<Rightarrow> Some (prev, None)
      | Some x \<Rightarrow> if found x then Some (prev, p) else find_from found nxt p (nxt x))"

declare find_from.simps [code]

lemma find_from_simps:
  "find_from found nxt prev None = Some (prev, None)"
  "find_from found nxt prev (Some x) = (if found x then Some (prev, Some x) else find_from found nxt (Some x) (nxt x))"
  by (subst find_from.simps, simp)+

text \<open>\<^verbatim>\<open>if(prev) { prev->next = p->next; p->next = head; head = p; }\<close>\<close>

definition to_mru :: "nat option \<Rightarrow> nat \<Rightarrow> links \<times> nat option \<Rightarrow> links \<times> nat option" where
  "to_mru prev x = (\<lambda>(nxt, head). case prev of
       None \<Rightarrow> (nxt, head)
     | Some q \<Rightarrow> let nxt = nxt(q := nxt x); nxt = nxt(x := head) in (nxt, Some x))"

text \<open>The splice of the MRU policy: unlink the node, walk to the end, append it.\<close>

definition to_lru :: "nat option \<Rightarrow> nat \<Rightarrow> links \<times> nat option \<Rightarrow> (links \<times> nat option) option" where
  "to_lru prev x = (\<lambda>(nxt, head).
     if nxt x = None then Some (nxt, head)
     else
       (let (nxt1, head1) = (case prev of Some q \<Rightarrow> (nxt(q := nxt x), head) | None \<Rightarrow> (nxt, nxt x))
        in case find_from (\<lambda>y. nxt1 y = None) nxt1 None (nxt1 x) of
             Some (_, Some l) \<Rightarrow> Some (nxt1(l := Some x, x := None), head1)
           | _ \<Rightarrow> None))"

section \<open>List segments\<close>

fun lseg :: "links \<Rightarrow> nat option \<Rightarrow> nat list \<Rightarrow> nat option \<Rightarrow> bool" where
  "lseg nxt p [] q \<longleftrightarrow> p = q"
| "lseg nxt p (x # xs) q \<longleftrightarrow> p = Some x \<and> lseg nxt (nxt x) xs q"

definition linked :: "links \<Rightarrow> nat option \<Rightarrow> nat list \<Rightarrow> bool" where
  "linked nxt p xs \<longleftrightarrow> lseg nxt p xs None \<and> distinct xs"

definition last_opt :: "nat option \<Rightarrow> nat list \<Rightarrow> nat option" where
  "last_opt prev xs = (if xs = [] then prev else Some (last xs))"

definition hd_opt :: "'a list \<Rightarrow> 'a option" where
  "hd_opt xs = (case xs of [] \<Rightarrow> None | x # _ \<Rightarrow> Some x)"

lemma last_opt_simps [simp]:
  "last_opt prev [] = prev" "last_opt prev (x # xs) = last_opt (Some x) xs"
  "last_opt prev (xs @ [y]) = Some y"
  by (simp_all add: last_opt_def)

lemma hd_opt_simps [simp]: "hd_opt [] = None" "hd_opt (x # xs) = Some x"
  by (simp_all add: hd_opt_def)

lemma lseg_append: "lseg nxt p (xs @ ys) q \<longleftrightarrow> (\<exists>r. lseg nxt p xs r \<and> lseg nxt r ys q)"
  by (induction xs arbitrary: p) auto

lemma lseg_frame: "y \<notin> set xs \<Longrightarrow> lseg (nxt(y := v)) p xs q = lseg nxt p xs q"
  by (induction xs arbitrary: p) auto

lemma lseg_cong: "(\<And>x. x \<in> set xs \<Longrightarrow> nxt' x = nxt x) \<Longrightarrow> lseg nxt' p xs q = lseg nxt p xs q"
  by (induction xs arbitrary: p) auto

lemma lseg_head: "lseg nxt p xs None \<Longrightarrow> p = hd_opt xs"
  by (cases xs) auto

lemma lseg_redirect: "lseg nxt p (xs @ [y]) q \<Longrightarrow> y \<notin> set xs \<Longrightarrow> lseg (nxt(y := v)) p (xs @ [y]) v"
  by (auto simp: lseg_append lseg_frame)

lemma lseg_last_next: "lseg nxt p xs None \<Longrightarrow> distinct xs \<Longrightarrow> x \<in> set xs \<Longrightarrow> nxt x = None \<longleftrightarrow> x = last xs"
proof (induction xs arbitrary: p)
  case (Cons y ys)
  then show ?case by (cases ys) auto
qed simp

lemma linked_head: "linked nxt p xs \<Longrightarrow> p = hd_opt xs"
  unfolding linked_def using lseg_head by blast

section \<open>Loops end, splices move\<close>

lemma find_from_lseg:
  "lseg nxt p xs None \<Longrightarrow>
   find_from found nxt prev p =
     Some (last_opt prev (takeWhile (\<lambda>x. \<not> found x) xs), hd_opt (dropWhile (\<lambda>x. \<not> found x) xs))"
  by (induction xs arbitrary: p prev) (subst find_from.simps, simp)+

lemma find_from_miss:
  "linked nxt p xs \<Longrightarrow> \<forall>x \<in> set xs. \<not> found x \<Longrightarrow> find_from found nxt prev p = Some (last_opt prev xs, None)"
  using find_from_lseg [of nxt p xs found prev] unfolding linked_def
  by (simp add: takeWhile_eq_all_conv [THEN iffD2] dropWhile_eq_Nil_conv [THEN iffD2])

lemma find_from_hit:
  assumes "linked nxt p (ys @ x # zs)" and "\<forall>y \<in> set ys. \<not> found y" and "found x"
  shows "find_from found nxt prev p = Some (last_opt prev ys, Some x)"
  using find_from_lseg [of nxt p "ys @ x # zs" found prev] assms unfolding linked_def by simp

lemma find_from_last:
  assumes "linked nxt p (ys @ [x])"
  shows "find_from (\<lambda>y. nxt y = None) nxt prev p = Some (last_opt prev ys, Some x)"
proof (rule find_from_hit [where zs = "[]"])
  have l: "lseg nxt p (ys @ [x]) None" and d: "distinct (ys @ [x])" using assms by (auto simp: linked_def)
  then show "\<forall>y \<in> set ys. nxt y \<noteq> None" and "nxt x = None"
    using lseg_last_next [OF l d] by auto
qed (use assms in simp)

lemma to_mru_linked:
  assumes "linked nxt h (ys @ x # zs)"
  obtains nxt' where "to_mru (last_opt None ys) x (nxt, h) = (nxt', Some x)"
    and "linked nxt' (Some x) (x # ys @ zs)"
    and "\<And>y. y \<notin> set (ys @ x # zs) \<Longrightarrow> nxt' y = nxt y"
proof (cases ys rule: rev_cases)
  case Nil
  then show thesis using assms that [of nxt] by (simp add: to_mru_def linked_def)
next
  case (snoc ws w)
  have l: "lseg nxt h (ws @ w # x # zs) None" and d: "distinct (ws @ w # x # zs)"
    using assms snoc by (simp_all add: linked_def)
  let ?n = "nxt(w := nxt x, x := h)"
  have z: "lseg nxt (nxt x) zs None" and h: "lseg nxt h (ws @ [w]) (Some x)"
    using l by (auto simp: lseg_append)
  have "lseg (nxt(w := nxt x)) h (ws @ [w]) (nxt x)"
    using lseg_redirect [OF h, of "nxt x"] d by simp
  then have "lseg ?n h (ws @ [w]) (nxt x)" using d by (subst lseg_frame) auto
  moreover have "lseg ?n (nxt x) zs None" using z d by (simp add: lseg_frame)
  ultimately have "lseg ?n h (ys @ zs) None" using snoc by (auto simp: lseg_append)
  then show thesis
    using that [of ?n] d snoc by (auto simp: to_mru_def linked_def Let_def)
qed

lemma to_lru_linked:
  assumes "linked nxt h (ys @ x # zs)"
  obtains nxt' h' where "to_lru (last_opt None ys) x (nxt, h) = Some (nxt', h')"
    and "linked nxt' h' (ys @ zs @ [x])"
    and "\<And>y. y \<notin> set (ys @ x # zs) \<Longrightarrow> nxt' y = nxt y"
proof (cases zs rule: rev_cases)
  case Nil
  have "nxt x = None" using assms Nil by (auto simp: linked_def lseg_append)
  then show thesis using assms Nil that [of nxt h] by (simp add: to_lru_def)
next
  case (snoc us l)
  have l: "lseg nxt h (ys @ x # us @ [l]) None" and d: "distinct (ys @ x # us @ [l])"
    using assms snoc by (simp_all add: linked_def)
  have z: "lseg nxt (nxt x) (us @ [l]) None" and y: "lseg nxt h ys (Some x)"
    using l by (auto simp: lseg_append)
  have nx: "nxt x \<noteq> None" using z by (cases us) auto
  obtain nxt1 h1 where e: "(case last_opt None ys of Some q \<Rightarrow> (nxt(q := nxt x), h) | None \<Rightarrow> (nxt, nxt x)) = (nxt1, h1)"
    and y1: "lseg nxt1 h1 ys (nxt x)" and f: "\<And>v. v \<notin> set ys \<Longrightarrow> nxt1 v = nxt v"
  proof (cases ys rule: rev_cases)
    case Nil
    then show thesis using that [of nxt "nxt x"] by simp
  next
    case (snoc ws w)
    then show thesis using that [of "nxt(w := nxt x)" h] lseg_redirect [of nxt h ws w "Some x" "nxt x"] y d by simp
  qed
  have z1: "lseg nxt1 (nxt x) (us @ [l]) None"
    using z d f by (subst lseg_cong [where nxt = nxt]) auto
  have x1: "nxt1 x = nxt x" using f d by simp
  have g: "find_from (\<lambda>y. nxt1 y = None) nxt1 None (nxt1 x) = Some (last_opt None us, Some l)"
    using find_from_last [of nxt1 "nxt x" us l] z1 d x1 by (simp add: linked_def)
  let ?n = "nxt1(l := Some x, x := None)"
  have "lseg ?n h1 ys (nxt x)" using y1 d by (subst lseg_cong [where nxt = nxt1]) auto
  moreover have "lseg ?n (nxt x) (us @ [l]) (Some x)"
    using lseg_redirect [OF z1, of "Some x"] d by (subst lseg_frame) auto
  ultimately have "lseg ?n h1 (ys @ zs @ [x]) None" using snoc by (auto simp: lseg_append)
  then show thesis
    using that [of ?n h1] e g nx d snoc f by (auto simp: to_lru_def linked_def Let_def)
qed

end
