(* ===== verification/Cache_Heap.thy ===== *)
theory Cache_Heap
  imports Prelude "HOL-Library.Multiset"
begin

text \<open>
  The access and fill pipelines of \<^verbatim>\<open>zesto-cache.cpp\<close> are arrays used as binary heaps ordered by
  \<^verbatim>\<open>pipe_exit_time\<close>, with the root at index 1. \<^verbatim>\<open>cache_heap_balance\<close>/\<^verbatim>\<open>cache_heap_remove\<close> and
  \<^verbatim>\<open>fill_heap_balance\<close>/\<^verbatim>\<open>fill_heap_remove\<close> are the same statements on two entry types; they are
  modelled once, over the key of an entry and the assignments that empty it. The lemmas show that
  each pair implements a priority queue.
\<close>

section \<open>Entries\<close>

text \<open>\<^verbatim>\<open>tick_t\<close> is a signed 64-bit type; times are compared as such.\<close>

definition TICK_T_MAX :: tick_t where "TICK_T_MAX = 0x7FFFFFFFFFFFFFFF"

datatype cache_command = CACHE_NOP | CACHE_READ | CACHE_WRITE | CACHE_WRITEBACK | CACHE_PREFETCH | CACHE_WAIT | CACHE_SIGNAL

datatype mshr_entry_type_t = MSHR_MISS | MSHR_WRITEBACK

text \<open>Pointers to cores, caches, operations and callbacks are identifiers, \<^verbatim>\<open>NULL\<close> is None.\<close>

record cache_action_t =
  ca_core :: "nat option"
  ca_op :: "nat option"
  action_id :: seq_t
  ca_PC :: md_addr_t
  ca_paddr :: md_paddr_t
  mtype :: mshr_entry_type_t
  MSHR_bank :: cint
  MSHR_index :: cint
  miss_cb_invoked :: bool
  ca_cmd :: cache_command
  ca_coh :: "64 word"
  prev_cp :: "nat option"
  cb :: "nat option"
  miss_cb :: "nat option"
  translated_cb :: "nat option"
  get_action_id :: "nat option"
  when_enqueued :: tick_t
  when_started :: tick_t
  when_returned :: tick_t
  pipe_exit_time :: tick_t
  MSHR_link :: "nat option"
  MSHR_linked :: bool
  prefetcher_hint :: bool

text \<open>An entry of the memory \<^verbatim>\<open>calloc\<close> returns.\<close>

definition action0 :: cache_action_t where
  "action0 = \<lparr>ca_core = None, ca_op = None, action_id = 0, ca_PC = 0, ca_paddr = 0, mtype = MSHR_MISS, MSHR_bank = 0,
     MSHR_index = 0, miss_cb_invoked = False, ca_cmd = CACHE_NOP, ca_coh = 0, prev_cp = None, cb = None, miss_cb = None,
     translated_cb = None, get_action_id = None, when_enqueued = 0, when_started = 0, when_returned = 0,
     pipe_exit_time = 0, MSHR_link = None, MSHR_linked = False, prefetcher_hint = False\<rparr>"

record cache_fill_t =
  cf_valid :: bool
  cf_paddr :: md_paddr_t
  cf_cmd :: cache_command
  cf_exit_time :: tick_t
  cf_core :: "nat option"

section \<open>Heap code\<close>

definition memswap :: "'e list \<Rightarrow> nat \<Rightarrow> nat \<Rightarrow> 'e list" where
  "memswap pipe i j = pipe[i := pipe ! j, j := pipe ! i]"

fun heap_balance :: "('e \<Rightarrow> int) \<Rightarrow> 'e list \<Rightarrow> nat \<Rightarrow> 'e list" where
  "heap_balance key pipe pos =
     (if pos > 1
      then (let parent = pos div 2 in
            if key (pipe ! parent) > key (pipe ! pos) then heap_balance key (memswap pipe parent pos) parent
            else pipe)
      else pipe)"

declare heap_balance.simps [simp del]

text \<open>The loop of the removal; it starts at position 1, so the first test, which is not in the code,
  never succeeds: it makes the recursion well-founded.\<close>

function heap_sift :: "('e \<Rightarrow> int) \<Rightarrow> nat \<Rightarrow> 'e list \<Rightarrow> nat \<Rightarrow> 'e list" where
  "heap_sift key pipe_num pipe pos =
     (if pos = 0 then pipe else
      (let Lindex = 2 * pos; Rindex = 2 * pos + 1; myValue = key (pipe ! pos);
           Lvalue = (if Lindex < pipe_num then key (pipe ! Lindex) else sint TICK_T_MAX);
           Rvalue = (if Rindex < pipe_num then key (pipe ! Rindex) else sint TICK_T_MAX)
       in if (myValue > Lvalue \<and> Lvalue \<noteq> sint TICK_T_MAX) \<or> (myValue > Rvalue \<and> Rvalue \<noteq> sint TICK_T_MAX)
          then if Rvalue = sint TICK_T_MAX then memswap pipe Lindex pos
               else if myValue > Lvalue \<and> Lvalue < Rvalue then heap_sift key pipe_num (memswap pipe Lindex pos) Lindex
               else heap_sift key pipe_num (memswap pipe Rindex pos) Rindex
          else pipe))"
  by pat_completeness auto

termination
  by (relation "measure (\<lambda>(key, n, pipe, pos). n - pos)")
    (auto simp: Let_def split: if_splits)

declare heap_sift.simps [simp del]

definition heap_remove :: "('e \<Rightarrow> int) \<Rightarrow> ('e \<Rightarrow> 'e) \<Rightarrow> 'e list \<Rightarrow> nat \<Rightarrow> 'e list" where
  "heap_remove key clear pipe pipe_num =
     (if pipe_num = 1 then pipe[1 := clear (pipe ! 1)]
      else (let pipe = pipe[1 := pipe ! pipe_num];
                pipe = pipe[pipe_num := clear (pipe ! pipe_num)]
            in heap_sift key pipe_num pipe 1))"

definition exit_time :: "cache_action_t \<Rightarrow> int" where "exit_time e = sint (pipe_exit_time e)"

definition fill_exit_time :: "cache_fill_t \<Rightarrow> int" where "fill_exit_time e = sint (cf_exit_time e)"

definition cache_heap_balance :: "cache_action_t list \<Rightarrow> nat \<Rightarrow> cache_action_t list" where
  "cache_heap_balance = heap_balance exit_time"

definition clear_action :: "cache_action_t \<Rightarrow> cache_action_t" where
  "clear_action e = e\<lparr>cb := None, pipe_exit_time := TICK_T_MAX\<rparr>"

definition cache_heap_remove :: "cache_action_t list \<Rightarrow> nat \<Rightarrow> cache_action_t list" where
  "cache_heap_remove = heap_remove exit_time clear_action"

definition fill_heap_balance :: "cache_fill_t list \<Rightarrow> nat \<Rightarrow> cache_fill_t list" where
  "fill_heap_balance = heap_balance fill_exit_time"

definition clear_fill :: "cache_fill_t \<Rightarrow> cache_fill_t" where
  "clear_fill e = e\<lparr>cf_valid := False, cf_exit_time := TICK_T_MAX\<rparr>"

definition fill_heap_remove :: "cache_fill_t list \<Rightarrow> nat \<Rightarrow> cache_fill_t list" where
  "fill_heap_remove = heap_remove fill_exit_time clear_fill"

section \<open>The heap invariant\<close>

definition heap_ok :: "('e \<Rightarrow> int) \<Rightarrow> 'e list \<Rightarrow> nat \<Rightarrow> bool" where
  "heap_ok key pipe n \<longleftrightarrow> n < length pipe \<and> (\<forall>i. 2 \<le> i \<and> i \<le> n \<longrightarrow> key (pipe ! (i div 2)) \<le> key (pipe ! i))"

text \<open>The invariants of the loops: the heap property holds except between \<open>pos\<close> and its parent, or
  between \<open>pos\<close> and its children.\<close>

definition heap_up :: "('e \<Rightarrow> int) \<Rightarrow> 'e list \<Rightarrow> nat \<Rightarrow> nat \<Rightarrow> bool" where
  "heap_up key pipe n pos \<longleftrightarrow> n < length pipe \<and> 1 \<le> pos \<and> pos \<le> n \<and>
     (\<forall>i. 2 \<le> i \<and> i \<le> n \<and> i \<noteq> pos \<longrightarrow> key (pipe ! (i div 2)) \<le> key (pipe ! i)) \<and>
     (\<forall>i. 2 \<le> i \<and> i \<le> n \<and> i div 2 = pos \<and> 2 \<le> pos \<longrightarrow> key (pipe ! (pos div 2)) \<le> key (pipe ! i))"

definition heap_down :: "('e \<Rightarrow> int) \<Rightarrow> 'e list \<Rightarrow> nat \<Rightarrow> nat \<Rightarrow> bool" where
  "heap_down key pipe n pos \<longleftrightarrow> n < length pipe \<and> 1 \<le> pos \<and> pos \<le> n \<and>
     (\<forall>i. 2 \<le> i \<and> i \<le> n \<and> i div 2 \<noteq> pos \<longrightarrow> key (pipe ! (i div 2)) \<le> key (pipe ! i)) \<and>
     (\<forall>i. 2 \<le> i \<and> i \<le> n \<and> i div 2 = pos \<and> 2 \<le> pos \<longrightarrow> key (pipe ! (pos div 2)) \<le> key (pipe ! i))"

lemma length_memswap [simp]: "length (memswap xs i j) = length xs"
  by (simp add: memswap_def)

lemma memswap_nth:
  "i < length xs \<Longrightarrow> j < length xs \<Longrightarrow>
   memswap xs i j ! k = (if k = i then xs ! j else if k = j then xs ! i else xs ! k)"
  by (auto simp: memswap_def nth_list_update)

text \<open>The entries 1 to \<open>n\<close> of the array, as a multiset.\<close>

definition entries :: "'e list \<Rightarrow> nat \<Rightarrow> 'e multiset" where
  "entries pipe n = mset (map ((!) pipe) [1 ..< Suc n])"

lemma entries_Suc [simp]: "entries pipe (Suc n) = add_mset (pipe ! Suc n) (entries pipe n)"
  by (simp add: entries_def)

lemma entries_0 [simp]: "entries pipe 0 = {#}"
  by (simp add: entries_def)

lemma size_entries [simp]: "size (entries pipe n) = n"
  by (simp add: entries_def)

lemma in_entries: "e \<in># entries pipe n \<longleftrightarrow> (\<exists>i. 1 \<le> i \<and> i \<le> n \<and> e = pipe ! i)"
  by (auto simp: entries_def image_iff less_Suc_eq_le)

lemma entries_cong: "(\<And>i. 1 \<le> i \<Longrightarrow> i \<le> n \<Longrightarrow> pipe' ! i = pipe ! i) \<Longrightarrow> entries pipe' n = entries pipe n"
  unfolding entries_def by (intro arg_cong [where f = mset] map_cong) auto

lemma entries_update_out: "n < k \<Longrightarrow> entries (pipe[k := v]) n = entries pipe n"
  by (rule entries_cong) simp

lemma entries_eq_take: "n < length pipe \<Longrightarrow> entries pipe n = mset (take n (drop 1 pipe))"
proof -
  assume n: "n < length pipe"
  have "map ((!) pipe) [1 ..< Suc n] = take n (drop 1 pipe)"
    by (rule nth_equalityI) (use n in \<open>auto simp del: upt_Suc\<close>)
  then show ?thesis by (simp add: entries_def)
qed

lemma entries_update:
  assumes "1 \<le> k" and "k \<le> n" and "n < length pipe"
  shows "entries (pipe[k := v]) n = add_mset v (entries pipe n - {#pipe ! k#})"
proof -
  have l: "k - 1 < length (take n (drop 1 pipe))" using assms by simp
  have "take n (drop 1 (pipe[k := v])) = (take n (drop 1 pipe))[k - 1 := v]"
    using assms by (simp add: drop_update_swap take_update_swap)
  then show ?thesis using assms mset_update [OF l, of v] by (simp add: entries_eq_take)
qed

lemma entries_memswap:
  assumes "1 \<le> i" "i \<le> n" "1 \<le> j" "j \<le> n" "n < length pipe"
  shows "entries (memswap pipe i j) n = entries pipe n"
proof (cases "i = j")
  case True
  then show ?thesis by (simp add: memswap_def)
next
  case False
  have "pipe ! i \<in># entries pipe n" "pipe ! j \<in># entries pipe n" using assms by (auto simp: in_entries)
  then show ?thesis
    using assms False unfolding memswap_def
    by (simp add: entries_update nth_list_update)
qed

section \<open>Insertion\<close>

lemma heap_up_step:
  assumes "heap_up key pipe n pos" and "1 < pos" and "key (pipe ! (pos div 2)) > key (pipe ! pos)"
  shows "heap_up key (memswap pipe (pos div 2) pos) n (pos div 2)"
proof -
  let ?q = "pos div 2"
  let ?s = "memswap pipe ?q pos"
  have n: "n < length pipe" "1 \<le> ?q" "?q < pos" "pos \<le> n" "?q \<le> n" using assms by (auto simp: heap_up_def)
  have s: "?s ! k = (if k = ?q then pipe ! pos else if k = pos then pipe ! ?q else pipe ! k)" for k
    using n by (intro memswap_nth) auto
  have h: "key (pipe ! (i div 2)) \<le> key (pipe ! i)" if "2 \<le> i" "i \<le> n" "i \<noteq> pos" for i
    using assms(1) that by (simp add: heap_up_def)
  have g: "key (pipe ! ?q) \<le> key (pipe ! i)" if "2 \<le> i" "i \<le> n" "i div 2 = pos" for i
    using assms(1,2) that by (simp add: heap_up_def)
  have "key (?s ! (i div 2)) \<le> key (?s ! i)" if i: "2 \<le> i" "i \<le> n" "i \<noteq> ?q" for i
  proof -
    have d: "i div 2 < i" using i by simp
    consider "i = pos" | "i \<noteq> pos" "i div 2 = pos" | "i \<noteq> pos" "i div 2 = ?q" | "i \<noteq> pos" "i div 2 \<noteq> pos" "i div 2 \<noteq> ?q" by blast
    then show ?thesis
    proof cases
      case 2
      then show ?thesis using g [OF i(1,2)] i n d by (auto simp: s)
    next
      case 3
      then show ?thesis using h [OF i(1,2)] i n d assms(3) by (simp add: s)
    qed (use i n assms(3) h [OF i(1,2)] in \<open>auto simp: s\<close>)
  qed
  moreover have "key (?s ! (?q div 2)) \<le> key (?s ! i)" if i: "2 \<le> i" "i \<le> n" "i div 2 = ?q" "2 \<le> ?q" for i
  proof -
    have q: "key (pipe ! (?q div 2)) \<le> key (pipe ! ?q)" using h [of ?q] i n by simp
    have e: "?q div 2 < ?q" using i by simp
    show ?thesis
    proof (cases "i = pos")
      case True
      then show ?thesis using q e n by (auto simp: s)
    next
      case False
      have "key (pipe ! ?q) \<le> key (pipe ! i)" using h [OF i(1,2) False] i(3) by simp
      then have "key (pipe ! (?q div 2)) \<le> key (pipe ! i)" by (rule order_trans [OF q])
      moreover have "i \<noteq> ?q" "?q div 2 \<noteq> ?q" "?q div 2 \<noteq> pos" using i n e by auto
      ultimately show ?thesis using False by (simp add: s)
    qed
  qed
  ultimately show ?thesis using n by (simp add: heap_up_def)
qed

lemma heap_up_done:
  "heap_up key pipe n pos \<Longrightarrow> pos \<le> 1 \<or> key (pipe ! (pos div 2)) \<le> key (pipe ! pos) \<Longrightarrow> heap_ok key pipe n"
  unfolding heap_up_def heap_ok_def by (metis le_trans not_less_eq_eq one_add_one plus_1_eq_Suc)

lemma heap_balance_spec:
  assumes "heap_up key pipe n pos"
  shows "heap_ok key (heap_balance key pipe pos) n \<and> entries (heap_balance key pipe pos) n = entries pipe n \<and>
    length (heap_balance key pipe pos) = length pipe \<and> (\<forall>k. n < k \<longrightarrow> heap_balance key pipe pos ! k = pipe ! k)"
  using assms
proof (induction key pipe pos rule: heap_balance.induct)
  case (1 key pipe pos)
  show ?case
  proof (cases "1 < pos \<and> key (pipe ! (pos div 2)) > key (pipe ! pos)")
    case True
    let ?s = "memswap pipe (pos div 2) pos"
    have "heap_balance key pipe pos = heap_balance key ?s (pos div 2)"
      using True by (subst heap_balance.simps) (simp add: Let_def)
    moreover have "entries ?s n = entries pipe n" "\<forall>k. n < k \<longrightarrow> ?s ! k = pipe ! k"
      using True 1(2) by (auto simp: heap_up_def memswap_nth intro!: entries_memswap)
    ultimately show ?thesis
      using 1(1) [of "pos div 2"] True heap_up_step [OF 1(2)] by simp
  next
    case False
    then have "heap_balance key pipe pos = pipe" by (subst heap_balance.simps) (auto simp: Let_def)
    moreover have "heap_ok key pipe n" using False 1(2) by (intro heap_up_done) auto
    ultimately show ?thesis by simp
  qed
qed

section \<open>Removal\<close>

lemma heap_down_swap:
  assumes "heap_down key pipe n pos" and c: "c = 2 * pos \<or> c = 2 * pos + 1" "c \<le> n"
    and lt: "key (pipe ! c) < key (pipe ! pos)"
    and sib: "\<And>i. 2 \<le> i \<Longrightarrow> i \<le> n \<Longrightarrow> i div 2 = pos \<Longrightarrow> key (pipe ! c) \<le> key (pipe ! i)"
  shows "heap_down key (memswap pipe c pos) n c"
proof -
  let ?s = "memswap pipe c pos"
  have n: "n < length pipe" "1 \<le> pos" "pos < c" "c div 2 = pos" "2 \<le> c" using assms by (auto simp: heap_down_def)
  have s: "?s ! k = (if k = c then pipe ! pos else if k = pos then pipe ! c else pipe ! k)" for k
    using n c by (intro memswap_nth) auto
  have h: "key (pipe ! (i div 2)) \<le> key (pipe ! i)" if "2 \<le> i" "i \<le> n" "i div 2 \<noteq> pos" for i
    using assms(1) that by (simp add: heap_down_def)
  have g: "key (pipe ! (pos div 2)) \<le> key (pipe ! i)" if "2 \<le> i" "i \<le> n" "i div 2 = pos" "2 \<le> pos" for i
    using assms(1) that by (simp add: heap_down_def)
  have "key (?s ! (i div 2)) \<le> key (?s ! i)" if i: "2 \<le> i" "i \<le> n" "i div 2 \<noteq> c" for i
  proof -
    have d: "i div 2 < i" using i by simp
    consider "i div 2 = pos" | "i div 2 \<noteq> pos" "i = pos" | "i div 2 \<noteq> pos" "i \<noteq> pos" by blast
    then show ?thesis
    proof cases
      case 1
      then show ?thesis using sib [OF i(1,2)] lt d n by (auto simp: s)
    next
      case 2
      then show ?thesis using g [of c] i d n c by (simp add: s)
    next
      case 3
      then have "i \<noteq> c" using n by auto
      then show ?thesis using 3 h [OF i(1,2)] i d n by (simp add: s)
    qed
  qed
  moreover have "key (?s ! (c div 2)) \<le> key (?s ! i)" if i: "2 \<le> i" "i \<le> n" "i div 2 = c" for i
  proof -
    have "i \<noteq> c" "i \<noteq> pos" "i div 2 \<noteq> pos" using i n by auto
    then show ?thesis using h [OF i(1,2)] i n by (simp add: s)
  qed
  ultimately show ?thesis using n c by (simp add: heap_down_def)
qed

lemma heap_down_done:
  assumes "heap_down key pipe n pos"
    and "\<And>i. 2 \<le> i \<Longrightarrow> i \<le> n \<Longrightarrow> i div 2 = pos \<Longrightarrow> key (pipe ! pos) \<le> key (pipe ! i)"
  shows "heap_ok key pipe n"
  using assms unfolding heap_down_def heap_ok_def by metis

lemma heap_sift_spec:
  assumes "heap_down key pipe n pos" and "\<And>i. 1 \<le> i \<Longrightarrow> i \<le> n \<Longrightarrow> key (pipe ! i) < sint TICK_T_MAX"
  shows "heap_ok key (heap_sift key (Suc n) pipe pos) n \<and> entries (heap_sift key (Suc n) pipe pos) n = entries pipe n \<and>
    length (heap_sift key (Suc n) pipe pos) = length pipe \<and> (\<forall>k. n < k \<longrightarrow> heap_sift key (Suc n) pipe pos ! k = pipe ! k)"
  using assms
proof (induction key "Suc n" pipe pos rule: heap_sift.induct)
  case (1 key pipe pos)
  let ?L = "2 * pos" and ?R = "2 * pos + 1"
  have p: "pos \<noteq> 0" "pos \<le> n" "n < length pipe" using 1(3) by (auto simp: heap_down_def)
  have kids: "i div 2 = pos \<longleftrightarrow> i = ?L \<or> i = ?R" for i by auto
  have keep: "entries (memswap pipe c pos) n = entries pipe n" "\<forall>k. n < k \<longrightarrow> memswap pipe c pos ! k = pipe ! k"
    if "c \<le> n" "0 < c" for c
    using p that by (auto simp: memswap_nth intro!: entries_memswap)
  have max: "key (memswap pipe c pos ! i) < sint TICK_T_MAX" if "1 \<le> i" "i \<le> n" "c \<le> n" "0 < c" for c i
    using p that 1(4) by (simp add: memswap_nth)
  have ne: "key (pipe ! i) \<noteq> sint TICK_T_MAX" if "1 \<le> i" "i \<le> n" for i using 1(4) [OF that] by auto
  consider (none) "\<not> (?L \<le> n \<and> key (pipe ! pos) > key (pipe ! ?L))" "\<not> (?R \<le> n \<and> key (pipe ! pos) > key (pipe ! ?R))"
    | (only) "?L = n" "key (pipe ! pos) > key (pipe ! ?L)"
    | (left) "?R \<le> n" "key (pipe ! pos) > key (pipe ! ?L)" "key (pipe ! ?L) < key (pipe ! ?R)"
    | (right) "?R \<le> n" "key (pipe ! pos) > key (pipe ! ?R)" "key (pipe ! ?R) \<le> key (pipe ! ?L)"
    by (cases "?R \<le> n"; cases "?L \<le> n"; force simp: not_less)
  then show ?case
  proof cases
    case none
    then have "heap_sift key (Suc n) pipe pos = pipe"
      using p by (subst heap_sift.simps) (auto simp: Let_def less_Suc_eq_le)
    moreover have "heap_ok key pipe n" using none by (intro heap_down_done [OF 1(3)]) (auto simp: kids not_less)
    ultimately show ?thesis by simp
  next
    case only
    then have e: "heap_sift key (Suc n) pipe pos = memswap pipe ?L pos"
      using p ne [of ?L] by (subst heap_sift.simps) (auto simp: Let_def)
    have "heap_down key (memswap pipe ?L pos) n ?L"
      using only by (intro heap_down_swap [OF 1(3)]) (auto simp: kids)
    then have "heap_ok key (memswap pipe ?L pos) n"
      using only by (intro heap_down_done) auto
    then show ?thesis using e keep [of ?L] only p by simp
  next
    case left
    then have e: "heap_sift key (Suc n) pipe pos = heap_sift key (Suc n) (memswap pipe ?L pos) ?L"
      using p ne [of ?L] ne [of ?R] by (subst heap_sift.simps) (auto simp: Let_def)
    have "heap_down key (memswap pipe ?L pos) n ?L"
      using left by (intro heap_down_swap [OF 1(3)]) (auto simp: kids)
    then show ?thesis
      using 1(1) [OF p(1) refl refl refl refl refl] left keep [of ?L] max [of _ ?L] ne [of ?L] ne [of ?R] p e by simp
  next
    case right
    then have e: "heap_sift key (Suc n) pipe pos = heap_sift key (Suc n) (memswap pipe ?R pos) ?R"
      using p ne [of ?L] ne [of ?R] by (subst heap_sift.simps) (auto simp: Let_def)
    have "heap_down key (memswap pipe ?R pos) n ?R"
      using right by (intro heap_down_swap [OF 1(3)]) (auto simp: kids)
    then show ?thesis
      using 1(2) [OF p(1) refl refl refl refl refl] right keep [of ?R] max [of _ ?R] ne [of ?L] ne [of ?R] p e
      by (simp add: not_less)
  qed
qed

section \<open>Priority queues\<close>

text \<open>A pipeline is the array with its number of entries (\<^verbatim>\<open>pipe_num\<close>, \<^verbatim>\<open>fill_num\<close>). An insertion
  writes the entry behind the last one and balances.\<close>

definition pipe_push :: "('e list \<Rightarrow> nat \<Rightarrow> 'e list) \<Rightarrow> 'e \<Rightarrow> 'e list \<times> nat \<Rightarrow> 'e list \<times> nat" where
  "pipe_push balance e = (\<lambda>(pipe, n). (balance (pipe[Suc n := e]) (Suc n), Suc n))"

definition pipe_pop :: "('e list \<Rightarrow> nat \<Rightarrow> 'e list) \<Rightarrow> 'e list \<times> nat \<Rightarrow> 'e list \<times> nat" where
  "pipe_pop remove = (\<lambda>(pipe, n). (remove pipe n, n - 1))"

definition pipe_root :: "'e list \<times> nat \<Rightarrow> 'e" where
  "pipe_root = (\<lambda>(pipe, n). pipe ! 1)"

definition pipe_entries :: "'e list \<times> nat \<Rightarrow> 'e multiset" where
  "pipe_entries = (\<lambda>(pipe, n). entries pipe n)"

definition pipe_room :: "'e list \<times> nat \<Rightarrow> bool" where
  "pipe_room = (\<lambda>(pipe, n). Suc n < length pipe)"

definition pipe_ok :: "('e \<Rightarrow> int) \<Rightarrow> 'e list \<times> nat \<Rightarrow> bool" where
  "pipe_ok key = (\<lambda>(pipe, n). heap_ok key pipe n \<and> (\<forall>e \<in># entries pipe n. key e < sint TICK_T_MAX))"

lemma heap_root_le: "heap_ok key pipe n \<Longrightarrow> 1 \<le> i \<Longrightarrow> i \<le> n \<Longrightarrow> key (pipe ! 1) \<le> key (pipe ! i)"
proof (induction i rule: less_induct)
  case (less i)
  show ?case
  proof (cases "i = 1")
    case False
    then have "1 \<le> i div 2" "i div 2 < i" "i div 2 \<le> n" using less.prems by auto
    then have "key (pipe ! 1) \<le> key (pipe ! (i div 2))" using less by blast
    also have "\<dots> \<le> key (pipe ! i)" using less.prems False by (simp add: heap_ok_def)
    finally show ?thesis .
  qed simp
qed

lemma heap_balance_push:
  assumes "heap_ok key pipe n" and "Suc n < length pipe"
  shows "heap_ok key (heap_balance key (pipe[Suc n := e]) (Suc n)) (Suc n) \<and>
    entries (heap_balance key (pipe[Suc n := e]) (Suc n)) (Suc n) = add_mset e (entries pipe n) \<and>
    length (heap_balance key (pipe[Suc n := e]) (Suc n)) = length pipe"
proof -
  have "heap_up key (pipe[Suc n := e]) (Suc n) (Suc n)"
    using assms by (auto simp: heap_up_def heap_ok_def nth_list_update)
  then show ?thesis using heap_balance_spec [of key "pipe[Suc n := e]" "Suc n" "Suc n"] assms
    by (simp add: entries_update_out)
qed

lemma heap_remove_pop:
  assumes h: "heap_ok key pipe (Suc n)" and m: "\<forall>e \<in># entries pipe (Suc n). key e < sint TICK_T_MAX"
  shows "heap_ok key (heap_remove key clear pipe (Suc n)) n \<and>
    entries (heap_remove key clear pipe (Suc n)) n = entries pipe (Suc n) - {#pipe ! 1#} \<and>
    length (heap_remove key clear pipe (Suc n)) = length pipe"
proof (cases n)
  case 0
  then show ?thesis using h by (auto simp: heap_remove_def heap_ok_def)
next
  case (Suc k)
  let ?p = "(pipe[1 := pipe ! Suc n])[Suc n := clear ((pipe[1 := pipe ! Suc n]) ! Suc n)]"
  have l: "Suc n < length pipe" using h by (simp add: heap_ok_def)
  have e: "entries ?p n = entries pipe (Suc n) - {#pipe ! 1#}"
  proof -
    have "pipe ! 1 \<in># entries pipe n" unfolding in_entries using Suc by (intro exI [of _ 1]) simp
    moreover have "entries ?p n = add_mset (pipe ! Suc n) (entries pipe n - {#pipe ! 1#})"
      using l Suc by (simp add: entries_update_out entries_update del: entries_Suc)
    ultimately show ?thesis by simp
  qed
  have "heap_down key ?p n 1"
    using h l Suc by (auto simp: heap_down_def heap_ok_def nth_list_update)
  moreover have "key (?p ! i) < sint TICK_T_MAX" if "1 \<le> i" "i \<le> n" for i
  proof -
    have "?p ! i \<in># entries ?p n" using that by (auto simp: in_entries)
    then show ?thesis using m unfolding e by (meson in_diffD)
  qed
  ultimately show ?thesis
    using heap_sift_spec [of key ?p n 1] e Suc by (simp add: heap_remove_def Let_def)
qed

text \<open>What the cache expects of a pipeline.\<close>

locale exit_time_queue =
  fixes key :: "'e \<Rightarrow> int" and push :: "'e \<Rightarrow> 'q \<Rightarrow> 'q" and pop :: "'q \<Rightarrow> 'q"
    and root :: "'q \<Rightarrow> 'e" and contents :: "'q \<Rightarrow> 'e multiset" and room :: "'q \<Rightarrow> bool" and ok :: "'q \<Rightarrow> bool"
  assumes push_ok: "ok q \<Longrightarrow> room q \<Longrightarrow> key e < sint TICK_T_MAX \<Longrightarrow> ok (push e q)"
    and push_contents: "ok q \<Longrightarrow> room q \<Longrightarrow> contents (push e q) = add_mset e (contents q)"
    and pop_ok: "ok q \<Longrightarrow> contents q \<noteq> {#} \<Longrightarrow> ok (pop q)"
    and pop_contents: "ok q \<Longrightarrow> contents q \<noteq> {#} \<Longrightarrow> contents (pop q) = contents q - {#root q#}"
    and root_in: "ok q \<Longrightarrow> contents q \<noteq> {#} \<Longrightarrow> root q \<in># contents q"
    and root_min: "ok q \<Longrightarrow> e \<in># contents q \<Longrightarrow> key (root q) \<le> key e"

fun drain :: "('q \<Rightarrow> 'e) \<Rightarrow> ('q \<Rightarrow> 'q) \<Rightarrow> nat \<Rightarrow> 'q \<Rightarrow> 'e list" where
  "drain root pop 0 q = []"
| "drain root pop (Suc k) q = root q # drain root pop k (pop q)"

context exit_time_queue
begin

lemma drain_sorts:
  "ok q \<Longrightarrow> size (contents q) = k \<Longrightarrow>
   mset (drain root pop k q) = contents q \<and> sorted (map key (drain root pop k q))"
proof (induction k arbitrary: q)
  case (Suc k)
  then have ne: "contents q \<noteq> {#}" by auto
  have r: "root q \<in># contents q" and c: "contents (pop q) = contents q - {#root q#}"
    using root_in pop_contents Suc.prems ne by blast+
  have s: "size (contents (pop q)) = k" using Suc.prems r c by (simp add: size_Diff_singleton)
  have ih: "mset (drain root pop k (pop q)) = contents (pop q)" "sorted (map key (drain root pop k (pop q)))"
    using Suc.IH [OF pop_ok [OF Suc.prems(1) ne] s] by auto
  have "key (root q) \<le> key e" if "e \<in> set (drain root pop k (pop q))" for e
    using that ih(1) c root_min [OF Suc.prems(1)] by (metis in_diffD set_mset_mset)
  then show ?case using ih r c by simp
qed simp

end

lemma heap_exit_time_queue:
  "exit_time_queue key (pipe_push (heap_balance key)) (pipe_pop (heap_remove key clear))
     pipe_root pipe_entries pipe_room (pipe_ok key)"
proof
  fix q :: "'a list \<times> nat" and e
  obtain pipe n where q: "q = (pipe, n)" by (cases q)
  assume ok: "pipe_ok key q"
  then have h: "heap_ok key pipe n" and m: "\<forall>e \<in># entries pipe n. key e < sint TICK_T_MAX"
    by (auto simp: q pipe_ok_def)
  { assume "pipe_room q"
    then show "pipe_entries (pipe_push (heap_balance key) e q) = add_mset e (pipe_entries q)"
      and "key e < sint TICK_T_MAX \<Longrightarrow> pipe_ok key (pipe_push (heap_balance key) e q)"
      using heap_balance_push [OF h, of e] m
      by (auto simp: q pipe_room_def pipe_push_def pipe_entries_def pipe_ok_def) }
  { assume "pipe_entries q \<noteq> {#}"
    then obtain k where n: "n = Suc k" by (cases n) (auto simp: q pipe_entries_def)
    have "pipe ! 1 \<in># entries pipe (Suc k)" unfolding in_entries by (intro exI [of _ 1]) simp
    then show "pipe_root q \<in># pipe_entries q" by (simp add: q n pipe_root_def pipe_entries_def)
    show "pipe_entries (pipe_pop (heap_remove key clear) q) = pipe_entries q - {#pipe_root q#}"
      and "pipe_ok key (pipe_pop (heap_remove key clear) q)"
      using heap_remove_pop [of key pipe k clear] h m
      by (auto simp: q n pipe_pop_def pipe_entries_def pipe_root_def pipe_ok_def dest: in_diffD simp del: entries_Suc) }
  show "key (pipe_root q) \<le> key e" if "e \<in># pipe_entries q"
    using that heap_root_le [OF h] by (auto simp: q pipe_entries_def pipe_root_def in_entries)
qed

interpretation pipeq: exit_time_queue exit_time "pipe_push cache_heap_balance" "pipe_pop cache_heap_remove"
  pipe_root pipe_entries pipe_room "pipe_ok exit_time"
  unfolding cache_heap_balance_def cache_heap_remove_def by (rule heap_exit_time_queue)

interpretation fillq: exit_time_queue fill_exit_time "pipe_push fill_heap_balance" "pipe_pop fill_heap_remove"
  pipe_root pipe_entries pipe_room "pipe_ok fill_exit_time"
  unfolding fill_heap_balance_def fill_heap_remove_def by (rule heap_exit_time_queue)

section \<open>Properties\<close>

text \<open>C27: a pipeline of a cache bank serves its requests in the order of their exit times: however
  requests have been pushed, at most as many as the array has room for, popping the root until the
  heap is empty gives all of them, sorted.\<close>

theorem pipe_serves_in_exit_order:
  assumes "length es < length pipe" and "\<forall>e \<in> set es. exit_time e < sint TICK_T_MAX"
  shows "mset (drain pipe_root (pipe_pop cache_heap_remove) (length es) (fold (pipe_push cache_heap_balance) es (pipe, 0))) = mset es \<and>
    sorted (map exit_time (drain pipe_root (pipe_pop cache_heap_remove) (length es) (fold (pipe_push cache_heap_balance) es (pipe, 0))))"
proof -
  have "pipe_ok exit_time q \<Longrightarrow> length (fst q) = length pipe \<Longrightarrow> size (pipe_entries q) = snd q \<Longrightarrow>
      snd q + length es < length pipe \<Longrightarrow>
      pipe_ok exit_time (fold (pipe_push cache_heap_balance) es q) \<and>
      pipe_entries (fold (pipe_push cache_heap_balance) es q) = mset es + pipe_entries q" for q
    using assms(2)
  proof (induction es arbitrary: q)
    case (Cons e es)
    let ?q = "pipe_push cache_heap_balance e q"
    have r: "pipe_room q" using Cons.prems by (cases q) (auto simp: pipe_room_def)
    have "length (fst ?q) = length pipe" "snd ?q = Suc (snd q)"
      using Cons.prems heap_balance_push [of exit_time "fst q" "snd q" e]
      by (auto simp: pipe_push_def cache_heap_balance_def pipe_ok_def case_prod_beta)
    then show ?case
      using Cons.IH [of ?q] Cons.prems pipeq.push_ok [OF Cons.prems(1) r, of e] pipeq.push_contents [OF Cons.prems(1) r, of e]
      by simp
  qed simp
  note * = this [of "(pipe, 0)"]
  have "pipe_ok exit_time (pipe, 0)" "pipe_entries (pipe, 0) = {#}"
    using assms(1) by (auto simp: pipe_ok_def heap_ok_def pipe_entries_def)
  with * assms(1) have "pipe_ok exit_time (fold (pipe_push cache_heap_balance) es (pipe, 0))"
    "pipe_entries (fold (pipe_push cache_heap_balance) es (pipe, 0)) = mset es"
    by simp_all
  then show ?thesis using pipeq.drain_sorts [of _ "length es"] by simp
qed

theorem pipe_serves_in_exit_order_witness:
  "sorted (map exit_time (drain pipe_root (pipe_pop cache_heap_remove) 3
     (fold (pipe_push cache_heap_balance) (map (\<lambda>t. action0\<lparr>pipe_exit_time := t\<rparr>) [7, 3, 5]) (replicate 4 action0, 0))))"
proof -
  let ?es = "map (\<lambda>t. action0\<lparr>pipe_exit_time := t\<rparr>) [7, 3, 5]"
  have "length ?es < length (replicate 4 action0)" and "\<forall>e \<in> set ?es. exit_time e < sint TICK_T_MAX"
    by (simp_all add: TICK_T_MAX_def exit_time_def)
  from pipe_serves_in_exit_order [OF this] show ?thesis by (simp add: numeral_3_eq_3)
qed

end
