(* ===== verification/Cache_Set.thy ===== *)
theory Cache_Set
  imports Slist Cache_Heap
begin

text \<open>
  The data array of \<^verbatim>\<open>zesto-cache.cpp\<close>: the lines of a set, the recency list through their \<^verbatim>\<open>next\<close>
  pointers, the six replacement policies, and the operations \<^verbatim>\<open>cache_is_hit\<close>, \<^verbatim>\<open>cache_peek\<close>,
  \<^verbatim>\<open>cache_insert_block\<close> and \<^verbatim>\<open>cache_get_evictee\<close>. The lines of a set are one array and
  \<^verbatim>\<open>blocks[index]\<close> is a pointer into it, so that \<^verbatim>\<open>blocks[index][k]\<close> is the line \<open>k\<close> places after the
  head of the list. Results are options: None is a failed assertion, an access outside the array or a
  loop that does not end.
\<close>

section \<open>Lines and sets\<close>

datatype repl_policy_t = REPLACE_LRU | REPLACE_MRU | REPLACE_RANDOM | REPLACE_NMRU | REPLACE_PLRU | REPLACE_CLOCK
datatype alloc_policy_t = WRITE_ALLOC | NO_WRITE_ALLOC
datatype write_policy_t = WRITE_THROUGH | WRITE_BACK

record cache_line_t =
  tag :: md_paddr_t
  cl_core :: "nat option"
  way :: cint
  meta :: "64 word"
  cl_coh :: "64 word"
  valid :: bool
  dirty :: bool
  victim :: bool
  prefetched :: bool
  prefetch_used :: bool

record cache_set_t =
  lines :: "cache_line_t list"
  cl_next :: links
  head :: "nat option"

record cache_params =
  sets :: cint
  assoc :: cint
  log2_assoc :: cint
  linesize :: cint
  addr_shift :: cint
  replacement_policy :: repl_policy_t
  allocate_policy :: alloc_policy_t
  write_policy :: write_policy_t
  read_only :: bool

definition line0 :: cache_line_t where
  "line0 = \<lparr>tag = 0, cl_core = None, way = 0, meta = 0, cl_coh = 0, valid = False, dirty = False, victim = False,
     prefetched = False, prefetch_used = False\<rparr>"

text \<open>The loop of \<^verbatim>\<open>cache_create\<close> that allocates a set and chains its lines.\<close>

definition cache_set_create :: "nat \<Rightarrow> cache_set_t" where
  "cache_set_create a =
     \<lparr>lines = map (\<lambda>j. line0\<lparr>way := of_nat j\<rparr>) [0 ..< a],
      cl_next = (\<lambda>i. if i = a - 1 then None else Some (i + 1)), head = Some 0\<rparr>"

definition upd_line :: "nat \<Rightarrow> (cache_line_t \<Rightarrow> cache_line_t) \<Rightarrow> cache_set_t \<Rightarrow> cache_set_t" where
  "upd_line x f s = s\<lparr>lines := (lines s)[x := f (lines s ! x)]\<rparr>"

definition set_list :: "links \<times> nat option \<Rightarrow> cache_set_t \<Rightarrow> cache_set_t" where
  "set_list = (\<lambda>(n, h) s. s\<lparr>cl_next := n, head := h\<rparr>)"

section \<open>Replacement state\<close>

text \<open>\<^verbatim>\<open>blocks[index][k].meta\<close>, read and written.\<close>

definition get_meta :: "nat \<Rightarrow> cache_set_t \<Rightarrow> 64 word option" where
  "get_meta k s = (case head s of None \<Rightarrow> None
     | Some h \<Rightarrow> if h + k < length (lines s) then Some (meta (lines s ! (h + k))) else None)"

definition set_meta :: "nat \<Rightarrow> 64 word \<Rightarrow> cache_set_t \<Rightarrow> cache_set_t" where
  "set_meta k v s = (case head s of None \<Rightarrow> s | Some h \<Rightarrow> upd_line (h + k) (\<lambda>l. l\<lparr>meta := v\<rparr>) s)"

text \<open>The tree of pseudo-LRU: the bits on the path to a way point towards it.\<close>

definition plru_bit :: "nat \<Rightarrow> cint \<Rightarrow> nat \<Rightarrow> cint \<Rightarrow> cint" where
  "plru_bit log2a w i bitmask =
     (let pos = unat (drop_bit (log2a - i) w) + 2 ^ i in
      if bit w (log2a - i - 1) then bitmask OR push_bit pos 1 else bitmask AND NOT (push_bit pos 1))"

definition plru_touch :: "nat \<Rightarrow> cint \<Rightarrow> cint \<Rightarrow> cint" where
  "plru_touch log2a w bitmask = fold (plru_bit log2a w) [0 ..< log2a] bitmask"

definition plru_step :: "cint \<Rightarrow> nat \<Rightarrow> nat" where
  "plru_step bitmask node = 2 * node + of_bool (\<not> bit bitmask node)"

definition plru_victim :: "nat \<Rightarrow> cint \<Rightarrow> cint" where
  "plru_victim log2a bitmask = of_nat ((plru_step bitmask ^^ log2a) 1) AND NOT (push_bit log2a 1)"

definition plru_update :: "cache_params \<Rightarrow> nat \<Rightarrow> cache_set_t \<Rightarrow> cache_set_t option" where
  "plru_update c x s = map_option
     (\<lambda>m. set_meta 0 (scast (plru_touch (unat (log2_assoc c)) (way (lines s ! x)) (ucast m))) s) (get_meta 0 s)"

definition move_front :: "nat option \<Rightarrow> nat \<Rightarrow> cache_set_t \<Rightarrow> cache_set_t" where
  "move_front prev x s = set_list (to_mru prev x (cl_next s, head s)) s"

definition move_back :: "nat option \<Rightarrow> nat \<Rightarrow> cache_set_t \<Rightarrow> cache_set_t option" where
  "move_back prev x s = map_option (\<lambda>l. set_list l s) (to_lru prev x (cl_next s, head s))"

text \<open>The switch over the policies, as \<^verbatim>\<open>cache_is_hit\<close> and \<^verbatim>\<open>cache_insert_block\<close> share it; the clock
  policy differs: only a hit sets the referenced bit.\<close>

definition touch_list :: "cache_params \<Rightarrow> nat option \<Rightarrow> nat \<Rightarrow> cache_set_t \<Rightarrow> cache_set_t option" where
  "touch_list c prev x s =
     (case replacement_policy c of
        REPLACE_PLRU \<Rightarrow> map_option (move_front prev x) (plru_update c x s)
      | REPLACE_MRU \<Rightarrow> move_back prev x s
      | REPLACE_CLOCK \<Rightarrow> Some s
      | _ \<Rightarrow> Some (move_front prev x s))"

definition clock_reference :: "nat \<Rightarrow> cache_set_t \<Rightarrow> cache_set_t option" where
  "clock_reference x s =
     map_option (\<lambda>m. set_meta 0 (m OR push_bit (unat (way (lines s ! x))) 1) s) (get_meta 0 s)"

section \<open>Look-up\<close>

definition is_block :: "cache_set_t \<Rightarrow> md_paddr_t \<Rightarrow> nat \<Rightarrow> bool" where
  "is_block s block_addr x \<longleftrightarrow> valid (lines s ! x) \<and> tag (lines s ! x) = block_addr"

definition writes :: "cache_command \<Rightarrow> bool" where
  "writes cmd \<longleftrightarrow> cmd = CACHE_WRITE \<or> cmd = CACHE_WRITEBACK"

text \<open>\<^verbatim>\<open>magic\<close> is None when \<^verbatim>\<open>magic_hit_rate\<close> is -1.0, otherwise the outcome of the random draw.\<close>

definition set_is_hit :: "cache_params \<Rightarrow> bool option \<Rightarrow> cache_command \<Rightarrow> md_paddr_t \<Rightarrow> cache_set_t \<Rightarrow> (nat option \<times> cache_set_t) option" where
  "set_is_hit c magic cmd block_addr s =
     (case magic of
        Some True \<Rightarrow> if head s = None then None else Some (head s, s)
      | Some False \<Rightarrow> Some (None, s)
      | None \<Rightarrow>
         (case find_from (is_block s block_addr) (cl_next s) None (head s) of
            None \<Rightarrow> None
          | Some (prev, None) \<Rightarrow> Some (None, s)
          | Some (prev, Some x) \<Rightarrow>
              (case (if cmd = CACHE_WRITEBACK then Some s
                     else if replacement_policy c = REPLACE_CLOCK then clock_reference x s
                     else touch_list c prev x s) of
                 None \<Rightarrow> None
               | Some s \<Rightarrow>
                   if writes cmd
                   then if read_only c then None
                        else Some (Some x, if write_policy c = WRITE_BACK then upd_line x (\<lambda>l. l\<lparr>dirty := True\<rparr>) s else s)
                   else Some (Some x, s))))"

definition set_peek :: "md_paddr_t \<Rightarrow> cache_set_t \<Rightarrow> nat option option" where
  "set_peek block_addr s = map_option snd (find_from (is_block s block_addr) (cl_next s) None (head s))"

section \<open>Insertion and eviction\<close>

definition set_insert_block :: "cache_params \<Rightarrow> cache_command \<Rightarrow> md_paddr_t \<Rightarrow> nat option \<Rightarrow> cache_set_t \<Rightarrow> cache_set_t option" where
  "set_insert_block c cmd block_addr core s =
     (case find_from (\<lambda>x. \<not> valid (lines s ! x)) (cl_next s) None (head s) of
        Some (prev, Some x) \<Rightarrow>
          (let s = upd_line x (\<lambda>l. l\<lparr>tag := block_addr, cl_core := core, valid := True, dirty := writes cmd\<rparr>) s;
               s = (if cmd = CACHE_PREFETCH then upd_line x (\<lambda>l. l\<lparr>prefetched := True\<rparr>) s else s)
           in if cmd \<noteq> CACHE_WRITEBACK then touch_list c prev x s else Some s)
      | _ \<Rightarrow> None)"

definition invalid_line :: "cache_set_t \<Rightarrow> nat option option" where
  "invalid_line s = map_option snd (find_from (\<lambda>x. \<not> valid (lines s ! x)) (cl_next s) None (head s))"

text \<open>\<^verbatim>\<open>for(int i=0;i<pos;i++) p = p->next;\<close>\<close>

fun walk_next :: "links \<Rightarrow> nat \<Rightarrow> nat option \<Rightarrow> nat option" where
  "walk_next nxt 0 p = p"
| "walk_next nxt (Suc n) p = (case p of None \<Rightarrow> None | Some x \<Rightarrow> walk_next nxt n (nxt x))"

text \<open>The loop of the clock policy. The hand is \<^verbatim>\<open>blocks[index][1].meta\<close>, the referenced bits are
  \<^verbatim>\<open>blocks[index][0].meta\<close>; the counter \<^verbatim>\<open>just_in_case\<close> bounds it.\<close>

definition clock_clear :: "nat \<Rightarrow> cache_set_t \<Rightarrow> cache_set_t option" where
  "clock_clear x s =
     map_option (\<lambda>m. set_meta 0 (m AND NOT (push_bit (unat (way (lines s ! x))) 1)) s) (get_meta 0 s)"

fun clock_loop :: "cache_params \<Rightarrow> nat \<Rightarrow> cache_set_t \<Rightarrow> (nat \<times> cache_set_t) option" where
  "clock_loop c 0 s = None"
| "clock_loop c (Suc fuel) s =
     (case (head s, get_meta 1 s) of
        (Some h, Some hand) \<Rightarrow>
          (let x = h + unat hand in
           if length (lines s) \<le> x then None
           else
             (let s = set_meta 1 (scast (modinc (ucast hand) (assoc c))) s in
              if \<not> valid (lines s ! x) then map_option (\<lambda>s. (x, s)) (clock_clear x s)
              else (case get_meta 0 s of None \<Rightarrow> None
                    | Some m \<Rightarrow>
                        if \<not> bit m (unat (way (lines s ! x))) then Some (x, s)
                        else (case clock_clear x s of None \<Rightarrow> None | Some s \<Rightarrow> clock_loop c fuel s))))
      | _ \<Rightarrow> None)"

text \<open>\<^verbatim>\<open>for(i=0;i<assoc;i++) { if(p->way==way) break; p = p->next; }\<close>\<close>

fun find_way :: "cint \<Rightarrow> cache_set_t \<Rightarrow> nat \<Rightarrow> nat option \<Rightarrow> nat option option" where
  "find_way w s 0 p = Some p"
| "find_way w s (Suc n) p = (case p of None \<Rightarrow> None
     | Some x \<Rightarrow> if way (lines s ! x) = w then Some p else find_way w s n (cl_next s x))"

text \<open>The evictee, possibly \<^verbatim>\<open>NULL\<close>; \<open>r\<close> is the value of \<^verbatim>\<open>random()\<close>.\<close>

definition set_get_evictee :: "cache_params \<Rightarrow> nat \<Rightarrow> cache_set_t \<Rightarrow> (nat option \<times> cache_set_t) option" where
  "set_get_evictee c r s =
     (case replacement_policy c of
        REPLACE_CLOCK \<Rightarrow> map_option (\<lambda>(x, s). (Some x, s)) (clock_loop c (20 * unat (assoc c) + 1) s)
      | REPLACE_RANDOM \<Rightarrow>
          (case invalid_line s of None \<Rightarrow> None | Some (Some x) \<Rightarrow> Some (Some x, s)
           | Some None \<Rightarrow> Some (walk_next (cl_next s) (r mod unat (assoc c)) (head s), s))
      | REPLACE_NMRU \<Rightarrow>
          (case invalid_line s of None \<Rightarrow> None | Some (Some x) \<Rightarrow> Some (Some x, s)
           | Some None \<Rightarrow>
               Some (if 1 <s assoc c then walk_next (cl_next s) (Suc (r mod (unat (assoc c) - 1))) (head s) else None, s))
      | REPLACE_PLRU \<Rightarrow>
          (case get_meta 0 s of None \<Rightarrow> None
           | Some m \<Rightarrow>
              (case invalid_line s of None \<Rightarrow> None | Some (Some x) \<Rightarrow> Some (Some x, s)
               | Some None \<Rightarrow>
                   map_option (\<lambda>p. (p, s))
                     (find_way (plru_victim (unat (log2_assoc c)) (ucast m)) s (unat (assoc c)) (head s))))
      | _ \<Rightarrow>
          (case find_from (\<lambda>x. cl_next s x = None \<or> \<not> valid (lines s ! x)) (cl_next s) None (head s) of
             Some (_, Some x) \<Rightarrow> Some (Some x, s) | _ \<Rightarrow> None))"

text \<open>The part of \<^verbatim>\<open>cache_process_fills\<close> that concerns the array: a block that is not present takes
  the place of the evictee. The evictee is dereferenced without a test for \<^verbatim>\<open>NULL\<close>.\<close>

definition set_fill :: "cache_params \<Rightarrow> nat \<Rightarrow> cache_command \<Rightarrow> md_paddr_t \<Rightarrow> nat option \<Rightarrow> cache_set_t \<Rightarrow> cache_set_t option" where
  "set_fill c r cmd block_addr core s =
     (case set_peek block_addr s of None \<Rightarrow> None | Some (Some _) \<Rightarrow> Some s
      | Some None \<Rightarrow>
          (case set_get_evictee c r s of
             Some (Some x, s) \<Rightarrow>
               set_insert_block c cmd block_addr core (upd_line x (\<lambda>l. l\<lparr>valid := False, dirty := False\<rparr>) s)
           | _ \<Rightarrow> None))"

section \<open>Sets as lists of lines\<close>

text \<open>A well-formed set: the list through the \<^verbatim>\<open>next\<close> pointers visits every line once.\<close>

definition ordered :: "cache_set_t \<Rightarrow> nat list \<Rightarrow> bool" where
  "ordered s ns \<longleftrightarrow> linked (cl_next s) (head s) ns \<and> set ns = {..< length (lines s)}"

text \<open>Equal up to the replacement state.\<close>

definition same_lines :: "cache_set_t \<Rightarrow> cache_set_t \<Rightarrow> bool" where
  "same_lines s t \<longleftrightarrow> map (meta_update (\<lambda>_. 0)) (lines s) = map (meta_update (\<lambda>_. 0)) (lines t)"

lemma same_lines_refl [simp]: "same_lines s s" by (simp add: same_lines_def)

lemma same_lines_trans: "same_lines s t \<Longrightarrow> same_lines t u \<Longrightarrow> same_lines s u" by (simp add: same_lines_def)

lemma same_lines_length: "same_lines s t \<Longrightarrow> length (lines s) = length (lines t)"
  unfolding same_lines_def by (metis length_map)

lemma same_lines_nth:
  assumes "same_lines s t" and "x < length (lines s)"
  shows "valid (lines s ! x) = valid (lines t ! x)" "tag (lines s ! x) = tag (lines t ! x)" "way (lines s ! x) = way (lines t ! x)"
proof -
  have "meta_update (\<lambda>_. 0) (lines s ! x) = meta_update (\<lambda>_. 0) (lines t ! x)"
    using assms same_lines_length [OF assms(1)] unfolding same_lines_def by (metis nth_map)
  then show "valid (lines s ! x) = valid (lines t ! x)" "tag (lines s ! x) = tag (lines t ! x)" "way (lines s ! x) = way (lines t ! x)"
    by (cases "lines s ! x"; cases "lines t ! x"; simp)+
qed

lemma upd_line_simps [simp]:
  "cl_next (upd_line x f s) = cl_next s" "head (upd_line x f s) = head s" "length (lines (upd_line x f s)) = length (lines s)"
  "x < length (lines s) \<Longrightarrow> lines (upd_line x f s) ! y = (if y = x then f (lines s ! x) else lines s ! y)"
  by (simp_all add: upd_line_def nth_list_update)

lemma set_list_simps [simp]:
  "cl_next (set_list l s) = fst l" "head (set_list l s) = snd l" "lines (set_list l s) = lines s"
  by (simp_all add: set_list_def split: prod.splits)

lemma ordered_upd_line [simp]: "ordered (upd_line x f s) ns = ordered s ns"
  by (simp add: ordered_def)

lemma same_lines_set_meta: "same_lines (set_meta k v s) s"
proof -
  have "map (meta_update (\<lambda>_. 0)) (xs[x := (xs ! x)\<lparr>meta := v\<rparr>]) = map (meta_update (\<lambda>_. 0)) xs" for xs :: "cache_line_t list" and x
    by (cases "x < length xs") (auto simp: list_eq_iff_nth_eq nth_list_update list_update_beyond)
  then show ?thesis by (simp add: same_lines_def set_meta_def upd_line_def split: option.splits)
qed

lemma set_meta_simps [simp]:
  "cl_next (set_meta k v s) = cl_next s" "head (set_meta k v s) = head s" "length (lines (set_meta k v s)) = length (lines s)"
  "ordered (set_meta k v s) ns = ordered s ns"
  by (simp_all add: set_meta_def ordered_def split: option.splits)

lemma move_front_ordered:
  assumes "ordered s (ys @ x # zs)"
  shows "ordered (move_front (last_opt None ys) x s) (x # ys @ zs)" and "lines (move_front prev x s) = lines s"
proof -
  obtain n where "to_mru (last_opt None ys) x (cl_next s, head s) = (n, Some x)" and "linked n (Some x) (x # ys @ zs)"
    using to_mru_linked [of "cl_next s" "head s" ys x zs] assms unfolding ordered_def by metis
  then show "ordered (move_front (last_opt None ys) x s) (x # ys @ zs)"
    using assms by (auto simp: ordered_def move_front_def)
qed (simp add: move_front_def)

lemma move_back_ordered:
  assumes "ordered s (ys @ x # zs)"
  shows "\<exists>t. move_back (last_opt None ys) x s = Some t \<and> ordered t (ys @ zs @ [x]) \<and> lines t = lines s"
proof -
  obtain n h where "to_lru (last_opt None ys) x (cl_next s, head s) = Some (n, h)" and "linked n h (ys @ zs @ [x])"
    using to_lru_linked [of "cl_next s" "head s" ys x zs] assms unfolding ordered_def by metis
  then show ?thesis using assms by (auto simp: ordered_def move_back_def)
qed

lemma ordered_head: "ordered s ns \<Longrightarrow> head s = hd_opt ns"
  unfolding ordered_def using linked_head by blast

lemma get_meta_head: "ordered s ns \<Longrightarrow> ns \<noteq> [] \<Longrightarrow> \<exists>m. get_meta 0 s = Some m"
  using ordered_head [of s ns] by (cases ns) (auto simp: ordered_def get_meta_def)

text \<open>Updating the replacement state never fails and changes nothing else.\<close>

lemma touch_list_ordered:
  assumes "ordered s (ys @ x # zs)"
  shows "\<exists>t ns. touch_list c (last_opt None ys) x s = Some t \<and> ordered t ns \<and> same_lines t s"
proof (cases "replacement_policy c")
  case REPLACE_PLRU
  obtain m where m: "get_meta 0 s = Some m" using get_meta_head [OF assms] by blast
  let ?t = "set_meta 0 (scast (plru_touch (unat (log2_assoc c)) (way (lines s ! x)) (ucast m))) s"
  have "ordered ?t (ys @ x # zs)" using assms by simp
  from move_front_ordered [OF this] show ?thesis
    using m REPLACE_PLRU same_lines_set_meta by (auto simp: touch_list_def plru_update_def same_lines_def)
next
  case REPLACE_MRU
  then show ?thesis using move_back_ordered [OF assms] by (auto simp: touch_list_def same_lines_def)
qed (use move_front_ordered [OF assms] assms in \<open>auto simp: touch_list_def same_lines_def\<close>)

lemma ordered_less: "ordered s ns \<Longrightarrow> x \<in> set ns \<Longrightarrow> x < length (lines s)"
  by (auto simp: ordered_def)

lemma ordered_find:
  assumes "ordered s ns"
  shows "(\<exists>ys x zs. ns = ys @ x # zs \<and> (\<forall>y \<in> set ys. \<not> P y) \<and> P x \<and>
      find_from P (cl_next s) None (head s) = Some (last_opt None ys, Some x)) \<or>
    ((\<forall>x < length (lines s). \<not> P x) \<and> (\<exists>prev. find_from P (cl_next s) None (head s) = Some (prev, None)))"
proof (cases "\<exists>x \<in> set ns. P x")
  case True
  then obtain ys x zs where e: "ns = ys @ x # zs" "P x" "\<forall>y \<in> set ys. \<not> P y"
    using split_list_first_prop [of ns P] by blast
  moreover have "find_from P (cl_next s) None (head s) = Some (last_opt None ys, Some x)"
    using assms e unfolding ordered_def by (intro find_from_hit) auto
  ultimately show ?thesis by blast
next
  case False
  then show ?thesis using assms find_from_miss [of "cl_next s" "head s" ns P] by (auto simp: ordered_def)
qed

lemma set_peek_iff:
  assumes "ordered s ns"
  shows "(\<exists>x < length (lines s). is_block s b x) \<Longrightarrow> \<exists>x < length (lines s). set_peek b s = Some (Some x) \<and> is_block s b x"
    and "\<not> (\<exists>x < length (lines s). is_block s b x) \<Longrightarrow> set_peek b s = Some None"
  using ordered_find [OF assms, of "is_block s b"] ordered_less [OF assms] by (auto simp: set_peek_def)

section \<open>Insertion and eviction succeed\<close>

text \<open>What each policy needs beyond a well-formed list.\<close>

definition clock_wf :: "cache_params \<Rightarrow> cache_set_t \<Rightarrow> bool" where
  "clock_wf c s \<longleftrightarrow> head s = Some 0 \<and> length (lines s) = unat (assoc c) \<and> 1 < unat (assoc c) \<and> unat (assoc c) \<le> 64 \<and>
     unat (meta (lines s ! 1)) < unat (assoc c) \<and> (\<forall>i < unat (assoc c). way (lines s ! i) = of_nat i)"

definition policy_ok :: "cache_params \<Rightarrow> cache_set_t \<Rightarrow> bool" where
  "policy_ok c s \<longleftrightarrow> length (lines s) = unat (assoc c) \<and> 0 < unat (assoc c) \<and> unat (assoc c) < 2 ^ 31 \<and>
     (\<forall>i < unat (assoc c). way (lines s ! i) = of_nat i) \<and>
     (case replacement_policy c of
        REPLACE_NMRU \<Rightarrow> 1 < unat (assoc c)
      | REPLACE_PLRU \<Rightarrow> unat (log2_assoc c) < 31 \<and> unat (assoc c) = 2 ^ unat (log2_assoc c)
      | REPLACE_CLOCK \<Rightarrow> clock_wf c s
      | _ \<Rightarrow> True)"

definition unique :: "cache_set_t \<Rightarrow> bool" where
  "unique s \<longleftrightarrow> (\<forall>x < length (lines s). \<forall>y < length (lines s). \<forall>b. is_block s b x \<longrightarrow> is_block s b y \<longrightarrow> x = y)"

definition set_ok :: "cache_params \<Rightarrow> cache_set_t \<Rightarrow> bool" where
  "set_ok c s \<longleftrightarrow> policy_ok c s \<and> (\<exists>ns. ordered s ns) \<and> unique s"

lemma is_block_same: "same_lines t s \<Longrightarrow> x < length (lines s) \<Longrightarrow> is_block t b x = is_block s b x"
  using same_lines_nth [of t s x] same_lines_length [of t s] by (auto simp: is_block_def)

lemma unique_same: "same_lines t s \<Longrightarrow> unique t = unique s"
  using is_block_same [of t s] same_lines_length [of t s] by (auto simp: unique_def)

lemma policy_ok_same:
  "same_lines t s \<Longrightarrow> policy_ok c s \<Longrightarrow> replacement_policy c \<noteq> REPLACE_CLOCK \<Longrightarrow> policy_ok c t"
  using same_lines_nth(3) [of t s] same_lines_length [of t s] by (auto simp: policy_ok_def split: repl_policy_t.splits)

text \<open>Writing a line's tag and flags leaves the replacement state alone.\<close>

lemma policy_ok_upd_line:
  assumes "policy_ok c s" and "\<And>l. way (f l) = way l" and "\<And>l. meta (f l) = meta l" and "x < length (lines s)"
  shows "policy_ok c (upd_line x f s)"
  using assms by (auto simp: policy_ok_def clock_wf_def split: repl_policy_t.splits)

lemma touch_list_policy_ok:
  assumes "touch_list c prev x s = Some t" and "same_lines t s" and "policy_ok c s"
  shows "policy_ok c t"
proof (cases "replacement_policy c = REPLACE_CLOCK")
  case True
  then show ?thesis using assms by (simp add: touch_list_def)
next
  case False
  then show ?thesis by (rule policy_ok_same [OF assms(2,3)])
qed

text \<open>Insertion overwrites one invalid line.\<close>

lemma set_insert_block_spec:
  assumes o: "ordered s ns" and inv: "x0 < length (lines s)" "\<not> valid (lines s ! x0)"
  obtains x t ns' where "x < length (lines s)" and "\<not> valid (lines s ! x)"
    and "set_insert_block c cmd b core s = Some t" and "ordered t ns'" and "length (lines t) = length (lines s)"
    and "is_block t b x" and "policy_ok c s \<Longrightarrow> policy_ok c t"
    and "\<And>y. y < length (lines s) \<Longrightarrow> y \<noteq> x \<Longrightarrow> valid (lines t ! y) = valid (lines s ! y) \<and> tag (lines t ! y) = tag (lines s ! y)"
proof -
  let ?P = "\<lambda>x. \<not> valid (lines s ! x)"
  obtain ys x zs where ns: "ns = ys @ x # zs" and x: "?P x"
    and f: "find_from ?P (cl_next s) None (head s) = Some (last_opt None ys, Some x)"
    using ordered_find [OF o, of ?P] inv by blast
  have l: "x < length (lines s)" using ordered_less [OF o] ns by simp
  define u where "u = (let s = upd_line x (\<lambda>l. l\<lparr>tag := b, cl_core := core, valid := True, dirty := writes cmd\<rparr>) s
    in if cmd = CACHE_PREFETCH then upd_line x (\<lambda>l. l\<lparr>prefetched := True\<rparr>) s else s)"
  have u: "ordered u ns" "length (lines u) = length (lines s)" "is_block u b x"
    "\<And>y. y < length (lines s) \<Longrightarrow> y \<noteq> x \<Longrightarrow> lines u ! y = lines s ! y"
    using o l by (auto simp: u_def is_block_def Let_def)
  obtain v ns' where v: "touch_list c (last_opt None ys) x u = Some v" "ordered v ns'" "same_lines v u"
    using touch_list_ordered [of u ys x zs c] u(1) unfolding ns by blast
  have pu: "policy_ok c u" if "policy_ok c s"
    using that l unfolding u_def Let_def by (auto intro!: policy_ok_upd_line)
  have pv: "policy_ok c v" if "policy_ok c s" using touch_list_policy_ok [OF v(1,3)] pu that by blast
  define t where "t = (if cmd \<noteq> CACHE_WRITEBACK then v else u)"
  have pt: "policy_ok c t" if "policy_ok c s" using pu pv that by (simp add: t_def)
  have t: "ordered t (if cmd \<noteq> CACHE_WRITEBACK then ns' else ns)" "same_lines t u" using v u by (simp_all add: t_def)
  have len: "length (lines t) = length (lines s)" using same_lines_length [OF t(2)] u(2) by simp
  have "set_insert_block c cmd b core s = Some t"
    using f v(1) by (simp add: set_insert_block_def t_def u_def Let_def)
  then show thesis
    using that [OF l x _ t(1) len] same_lines_nth [OF t(2)] u(3,4) l pt by (simp add: is_block_def len)
qed

lemma walk_next_lseg: "lseg nxt p ns None \<Longrightarrow> k < length ns \<Longrightarrow> walk_next nxt k p = Some (ns ! k)"
proof (induction k arbitrary: p ns)
  case 0
  then show ?case by (cases ns) auto
next
  case (Suc k)
  then show ?case by (cases ns) auto
qed

lemma find_way_lseg:
  "lseg (cl_next s) p ns None \<Longrightarrow> length ns \<le> n \<Longrightarrow> \<exists>x \<in> set ns. way (lines s ! x) = w \<Longrightarrow>
   \<exists>x \<in> set ns. find_way w s n p = Some (Some x)"
proof (induction n arbitrary: p ns)
  case (Suc n)
  then show ?case by (cases ns) auto
qed simp

text \<open>The victim of the tree is a way.\<close>

lemma plru_node: "\<exists>j < 2 ^ k. (plru_step m ^^ k) 1 = 2 ^ k + j"
proof (induction k)
  case (Suc k)
  then obtain j where j: "j < 2 ^ k" "(plru_step m ^^ k) 1 = 2 ^ k + j" by blast
  have "(plru_step m ^^ Suc k) 1 = plru_step m (2 ^ k + j)" by (simp add: j(2) del: One_nat_def)
  also have "\<dots> = 2 ^ Suc k + (2 * j + of_bool (\<not> bit m (2 ^ k + j)))" by (simp add: plru_step_def)
  finally have "(plru_step m ^^ Suc k) 1 = 2 ^ Suc k + (2 * j + of_bool (\<not> bit m (2 ^ k + j)))" .
  moreover have "2 * j + of_bool (\<not> bit m (2 ^ k + j)) < 2 ^ Suc k" using j(1) by simp
  ultimately show ?case by blast
qed simp

lemma plru_victim_eq:
  assumes "j < 2 ^ k" and "(plru_step m ^^ k) 1 = 2 ^ k + j" and "k < 31"
  shows "plru_victim k m = of_nat j"
proof -
  have j: "(of_nat j :: cint) = take_bit k (of_nat j)"
    using assms(1,3) by (simp add: take_bit_of_nat take_bit_nat_eq_self)
  have o: "(of_nat (2 ^ k + j) :: cint) = 2 ^ k OR of_nat j"
  proof -
    have "(2 :: cint) ^ k AND of_nat j = 0"
      by (subst j) (rule bit_word_eqI, auto simp: bit_simps)
    then show ?thesis by (simp add: disjunctive_add_eq_or)
  qed
  show ?thesis
    unfolding plru_victim_def assms(2) o by (subst (1 2) j) (rule bit_word_eqI, auto simp: bit_simps)
qed

lemma plru_victim_less: "k < 31 \<Longrightarrow> \<exists>j < 2 ^ k. plru_victim k m = of_nat j"
  using plru_node [of k m] plru_victim_eq by blast

text \<open>The clock: every turn that does not return clears a referenced bit.\<close>

definition referenced :: "cache_set_t \<Rightarrow> nat set" where
  "referenced s = {i. i < length (lines s) \<and> bit (meta (lines s ! 0)) i}"

lemma clock_meta:
  assumes "clock_wf c s"
  shows "get_meta 0 s = Some (meta (lines s ! 0))" "get_meta 1 s = Some (meta (lines s ! 1))"
    "set_meta k v s = upd_line k (\<lambda>l. l\<lparr>meta := v\<rparr>) s"
  using assms by (auto simp: clock_wf_def get_meta_def set_meta_def)

lemma clock_wf_set_meta:
  assumes "clock_wf c s" and "k = 0 \<or> k = 1 \<and> unat v < unat (assoc c)"
  shows "clock_wf c (set_meta k v s)"
  using assms by (auto simp: clock_wf_def clock_meta [OF assms(1)])

lemma clock_hand_next:
  assumes "clock_wf c s"
  shows "unat (scast (modinc (ucast (meta (lines s ! 1))) (assoc c)) :: 64 word) < unat (assoc c)"
proof -
  let ?h = "ucast (meta (lines s ! 1)) :: cint"
  have "unat ?h = unat (meta (lines s ! 1))"
    using assms by (simp add: unsigned_ucast_eq clock_wf_def take_bit_nat_eq_self)
  then have "unat (modinc ?h (assoc c)) < unat (assoc c)"
    using assms by (intro modinc_less) (auto simp: clock_wf_def)
  moreover have "unat (modinc ?h (assoc c)) < 2 ^ 31" using calculation assms by (auto simp: clock_wf_def)
  ultimately show ?thesis by (simp add: scast_nneg)
qed

lemma clock_loop_returns:
  assumes "clock_wf c s" and "card (referenced s) < fuel"
  shows "\<exists>x t. clock_loop c fuel s = Some (x, t) \<and> x < length (lines s) \<and> clock_wf c t \<and> same_lines t s \<and>
    cl_next t = cl_next s \<and> head t = head s"
  using assms
proof (induction fuel arbitrary: s)
  case (Suc fuel)
  define h x where "h = meta (lines s ! 1)" and "x = unat (meta (lines s ! 1))"
  define s1 where "s1 = set_meta 1 (scast (modinc (ucast h) (assoc c))) s"
  have x: "x < length (lines s)" and hd: "head s = Some 0" using Suc.prems(1) by (auto simp: clock_wf_def x_def)
  have w1: "clock_wf c s1"
    unfolding s1_def h_def using clock_hand_next [OF Suc.prems(1)] Suc.prems(1) by (intro clock_wf_set_meta) auto
  have way1: "unat (way (lines s1 ! x)) = x"
  proof -
    have "way (lines s1 ! x) = of_nat x" and "x < 64" using w1 x Suc.prems(1) unfolding clock_wf_def by auto
    then show ?thesis by (simp only: unsigned_of_nat) (simp add: take_bit_nat_eq_self)
  qed
  have l1: "length (lines s1) = length (lines s)" by (simp add: s1_def)
  define s2 where "s2 = set_meta 0 (meta (lines s1 ! 0) AND NOT (push_bit x 1)) s1"
  have c2: "clock_clear x s1 = Some s2"
    using clock_meta [OF w1] by (simp add: clock_clear_def s2_def way1)
  have w2: "clock_wf c s2" unfolding s2_def using w1 by (intro clock_wf_set_meta) auto
  have sm: "same_lines s1 s" "same_lines s2 s"
    unfolding s2_def s1_def by (blast intro: same_lines_set_meta same_lines_trans)+
  have links: "cl_next s1 = cl_next s" "head s1 = head s" "cl_next s2 = cl_next s" "head s2 = head s"
    by (simp_all add: s1_def s2_def)
  have step: "clock_loop c (Suc fuel) s =
      (if \<not> valid (lines s1 ! x) then Some (x, s2)
       else if \<not> bit (meta (lines s1 ! 0)) x then Some (x, s1) else clock_loop c fuel s2)"
  proof -
    have "get_meta (Suc 0) s = Some h" "unat h = x" "set_meta (Suc 0) (scast (modinc (ucast h) (assoc c))) s = s1"
      using clock_meta(2) [OF Suc.prems(1)] by (simp_all add: h_def x_def s1_def)
    then show ?thesis using x hd clock_meta(1) [OF w1] c2 way1 by (simp add: Let_def)
  qed
  show ?case
  proof (cases "valid (lines s1 ! x) \<and> bit (meta (lines s1 ! 0)) x")
    case False
    then show ?thesis using step x w1 w2 sm links by auto
  next
    case True
    have "lines s1 ! 0 = lines s ! 0" using Suc.prems(1) clock_meta(3) [OF Suc.prems(1)] by (simp add: s1_def clock_wf_def)
    then have "referenced s2 = referenced s - {x}" "x \<in> referenced s"
      using True x w1 clock_meta(3) [OF w1] l1 by (auto simp: referenced_def s2_def bit_simps clock_wf_def)
    moreover have "finite (referenced s)" by (simp add: referenced_def)
    ultimately have "card (referenced s2) < fuel"
      using Suc.prems(2) psubset_card_mono [of "referenced s" "referenced s2"] by force
    then show ?thesis
      using Suc.IH [OF w2] True step sm links same_lines_trans same_lines_length [OF sm(2)] by auto
  qed
qed simp

lemma invalid_line_cases:
  assumes "ordered s ns"
  obtains x where "invalid_line s = Some (Some x)" "x < length (lines s)" "\<not> valid (lines s ! x)"
    | "invalid_line s = Some None" "\<forall>x < length (lines s). valid (lines s ! x)"
  using ordered_find [OF assms, of "\<lambda>x. \<not> valid (lines s ! x)"] ordered_less [OF assms] by (auto simp: invalid_line_def)

lemma length_ordered: "ordered s ns \<Longrightarrow> length ns = length (lines s)"
  unfolding ordered_def linked_def by (metis card_lessThan distinct_card)

lemma referenced_card: "card (referenced s) \<le> length (lines s)"
proof -
  have "referenced s \<subseteq> {..< length (lines s)}" by (auto simp: referenced_def)
  then show ?thesis by (metis card_lessThan card_mono finite_lessThan)
qed

text \<open>Every policy finds an evictee.\<close>

lemma set_get_evictee_some:
  assumes p: "policy_ok c s" and o: "ordered s ns"
  shows "\<exists>x t. set_get_evictee c r s = Some (Some x, t) \<and> x < length (lines s) \<and> policy_ok c t \<and> ordered t ns \<and> same_lines t s"
proof -
  let ?A = "unat (assoc c)"
  have l: "lseg (cl_next s) (head s) ns None" "length ns = ?A" "0 < ?A" "length (lines s) = ?A"
    using o p length_ordered [OF o] by (auto simp: ordered_def linked_def policy_ok_def)
  have inv: "(\<exists>x < length (lines s). invalid_line s = Some (Some x)) \<or> invalid_line s = Some None"
    by (rule invalid_line_cases [OF o]) auto
  have tail: "\<exists>prev x. x < length (lines s) \<and>
      find_from (\<lambda>x. cl_next s x = None \<or> \<not> valid (lines s ! x)) (cl_next s) None (head s) = Some (prev, Some x)"
  proof -
    have "last ns \<in> set ns" using l by (intro last_in_set) auto
    moreover have "cl_next s (last ns) = None"
      using lseg_last_next [OF l(1) _ \<open>last ns \<in> set ns\<close>] o by (auto simp: ordered_def linked_def)
    ultimately show ?thesis
      using ordered_find [OF o, of "\<lambda>x. cl_next s x = None \<or> \<not> valid (lines s ! x)"] ordered_less [OF o] by fastforce
  qed
  have nth: "ns ! i < length (lines s)" if "i < ?A" for i using ordered_less [OF o] that l by simp
  show ?thesis
  proof (cases "replacement_policy c")
    case REPLACE_CLOCK
    then have w: "clock_wf c s" using p by (simp add: policy_ok_def)
    have "card (referenced s) < 20 * ?A + 1" using referenced_card [of s] l by simp
    from clock_loop_returns [OF w this] obtain x t where "clock_loop c (20 * ?A + 1) s = Some (x, t)" "x < length (lines s)"
      "clock_wf c t" "same_lines t s" "cl_next t = cl_next s" "head t = head s" by blast
    moreover from this have "policy_ok c t" "ordered t ns"
      using o p same_lines_length REPLACE_CLOCK by (auto simp: policy_ok_def ordered_def clock_wf_def)
    ultimately show ?thesis using REPLACE_CLOCK by (simp add: set_get_evictee_def)
  next
    case REPLACE_RANDOM
    have "r mod ?A < ?A" using l by simp
    then have "walk_next (cl_next s) (r mod ?A) (head s) = Some (ns ! (r mod ?A))" using l by (intro walk_next_lseg) auto
    then show ?thesis using inv REPLACE_RANDOM p o nth [OF \<open>r mod ?A < ?A\<close>]
      by (auto simp: set_get_evictee_def)
  next
    case REPLACE_NMRU
    then have "1 < ?A" "?A < 2 ^ 31" using p by (simp_all add: policy_ok_def)
    then have "1 <s assoc c" "Suc (r mod (?A - 1)) < ?A"
      using mod_less_divisor [of "?A - 1" r]
      by (auto simp: word_sless_alt sint_cint [of "assoc c"] simp del: of_nat_unat mod_less_divisor)
    moreover from this have "walk_next (cl_next s) (Suc (r mod (?A - 1))) (head s) = Some (ns ! Suc (r mod (?A - 1)))"
      using l by (intro walk_next_lseg) auto
    ultimately show ?thesis using inv REPLACE_NMRU p o nth [of "Suc (r mod (?A - 1))"]
      by (auto simp: set_get_evictee_def)
  next
    case REPLACE_PLRU
    then have k: "unat (log2_assoc c) < 31" "?A = 2 ^ unat (log2_assoc c)" using p by (simp_all add: policy_ok_def)
    obtain m where m: "get_meta 0 s = Some m" using get_meta_head [OF o] l by fastforce
    obtain j where j: "j < ?A" "plru_victim (unat (log2_assoc c)) (ucast m) = of_nat j" using plru_victim_less [OF k(1)] k(2) by metis
    have "j \<in> set ns" "way (lines s ! j) = of_nat j" using j o l p by (auto simp: ordered_def policy_ok_def)
    then obtain x where "x \<in> set ns" "find_way (of_nat j) s ?A (head s) = Some (Some x)"
      using find_way_lseg [OF l(1), of ?A "of_nat j"] l by auto
    then show ?thesis using inv REPLACE_PLRU p o ordered_less [OF o] m j
      by (auto simp: set_get_evictee_def)
  next
    case REPLACE_LRU
    then show ?thesis using tail p o by (auto simp: set_get_evictee_def)
  next
    case REPLACE_MRU
    then show ?thesis using tail p o by (auto simp: set_get_evictee_def)
  qed
qed

lemma upd_invalid:
  assumes "x < length (lines s)" and "y < length (lines s)"
  shows "valid (lines (upd_line x (\<lambda>l. l\<lparr>valid := False, dirty := False\<rparr>) s) ! y) = (valid (lines s ! y) \<and> y \<noteq> x)"
    and "tag (lines (upd_line x (\<lambda>l. l\<lparr>valid := False, dirty := False\<rparr>) s) ! y) = tag (lines s ! y)"
  using assms by auto

text \<open>A fill succeeds, makes its block present and keeps all blocks but the evictee's.\<close>

lemma set_fill_ok:
  assumes "set_ok c s"
  shows "\<exists>t v. set_fill c r cmd b core s = Some t \<and> set_ok c t \<and> (\<exists>x. set_peek b t = Some (Some x)) \<and>
    (\<forall>a. a \<noteq> v \<and> (\<exists>x < length (lines s). is_block s a x) \<longrightarrow> (\<exists>x < length (lines t). is_block t a x)) \<and>
    (\<forall>a. a \<noteq> b \<and> (\<exists>x < length (lines t). is_block t a x) \<longrightarrow> (\<exists>x < length (lines s). is_block s a x)) \<and>
    (set_peek b s = Some None \<longrightarrow> (\<exists>x s1. set_get_evictee c r s = Some (Some x, s1) \<and> v = tag (lines s ! x)))"
proof (cases "\<exists>x < length (lines s). is_block s b x")
  case True
  obtain ns where o: "ordered s ns" using assms by (auto simp: set_ok_def)
  from set_peek_iff(1) [OF o True] obtain x where "set_peek b s = Some (Some x)" by blast
  then show ?thesis using assms by (intro exI [of _ s]) (auto simp: set_fill_def)
next
  case False
  obtain ns where o: "ordered s ns" and p: "policy_ok c s" and u: "unique s" using assms by (auto simp: set_ok_def)
  have peek: "set_peek b s = Some None" using set_peek_iff(2) [OF o False] .
  obtain x s1 where ev: "set_get_evictee c r s = Some (Some x, s1)" and x: "x < length (lines s)"
    and p1: "policy_ok c s1" and o1: "ordered s1 ns" and sm: "same_lines s1 s"
    using set_get_evictee_some [OF p o] by blast
  define s2 where "s2 = upd_line x (\<lambda>l. l\<lparr>valid := False, dirty := False\<rparr>) s1"
  have len: "length (lines s1) = length (lines s)" "length (lines s2) = length (lines s)"
    using same_lines_length [OF sm] by (simp_all add: s2_def)
  have o2: "ordered s2 ns" using o1 by (simp add: s2_def)
  have p2: "policy_ok c s2" unfolding s2_def using p1 x len by (intro policy_ok_upd_line) auto
  have x2: "x < length (lines s2)" "\<not> valid (lines s2 ! x)" using x len by (simp_all add: s2_def)
  have b2: "is_block s2 a y \<longleftrightarrow> is_block s a y \<and> y \<noteq> x" if "y < length (lines s)" for a y
    using that x len same_lines_nth [OF sm, of y] upd_invalid [of x s1 y] by (auto simp: is_block_def s2_def)
  obtain z t ns' where z: "z < length (lines s2)" "\<not> valid (lines s2 ! z)"
    and t: "set_insert_block c cmd b core s2 = Some t" "ordered t ns'" "length (lines t) = length (lines s2)" "is_block t b z"
    and pt: "policy_ok c s2 \<Longrightarrow> policy_ok c t"
    and keep: "\<And>y. y < length (lines s2) \<Longrightarrow> y \<noteq> z \<Longrightarrow> valid (lines t ! y) = valid (lines s2 ! y) \<and> tag (lines t ! y) = tag (lines s2 ! y)"
    using set_insert_block_spec [OF o2 x2, of c cmd b core] by blast
  have bt: "is_block t a y \<longleftrightarrow> (if y = z then a = b else is_block s a y \<and> y \<noteq> x)" if "y < length (lines s)" for a y
    using that keep [of y] b2 [OF that] t(4) len by (auto simp: is_block_def)
  have not_z: "\<not> is_block s2 a z" for a using z by (simp add: is_block_def)
  have "unique t"
    unfolding unique_def using u False bt t(3) len unfolding unique_def by (metis (full_types))
  then have ok: "set_ok c t" using t(2) pt p2 by (auto simp: set_ok_def)
  have fill: "set_fill c r cmd b core s = Some t" using peek ev t(1) by (simp add: set_fill_def s2_def)
  have "\<exists>y < length (lines t). is_block t b y" using t(3,4) z(1) by auto
  then have pk: "\<exists>x. set_peek b t = Some (Some x)" using set_peek_iff(1) [OF t(2)] by blast
  have k1: "\<exists>y < length (lines t). is_block t a y" if k: "a \<noteq> tag (lines s ! x)" "\<exists>y < length (lines s). is_block s a y" for a
  proof -
    obtain y where y: "y < length (lines s)" "is_block s a y" using k(2) by blast
    then have "y \<noteq> x" using k(1) by (auto simp: is_block_def)
    then have "y \<noteq> z" using not_z [of a] b2 y by auto
    then show ?thesis using bt [OF y(1)] y \<open>y \<noteq> x\<close> t(3) len by auto
  qed
  have k2: "\<exists>y < length (lines s). is_block s a y" if "a \<noteq> b" "\<exists>y < length (lines t). is_block t a y" for a
    using that bt t(3) len by (metis (full_types))
  show ?thesis using fill ok pk k1 k2 ev by (intro exI [of _ t] exI [of _ "tag (lines s ! x)"]) simp
qed

text \<open>A look-up hits exactly when the block is present.\<close>

lemma set_is_hit_ok:
  assumes "set_ok c s" and ro: "read_only c \<Longrightarrow> \<not> writes cmd"
  obtains p t where "set_is_hit c None cmd b s = Some (p, t)" and "set_ok c t" and "length (lines t) = length (lines s)"
    and "p \<noteq> None \<longleftrightarrow> (\<exists>x < length (lines s). is_block s b x)"
    and "\<And>a x. x < length (lines s) \<Longrightarrow> is_block t a x = is_block s a x"
proof -
  obtain ns where o: "ordered s ns" and p: "policy_ok c s" and u: "unique s" using assms by (auto simp: set_ok_def)
  consider (hit) ys x zs where "ns = ys @ x # zs" "is_block s b x"
      "find_from (is_block s b) (cl_next s) None (head s) = Some (last_opt None ys, Some x)"
    | (miss) prev where "\<forall>x < length (lines s). \<not> is_block s b x" "find_from (is_block s b) (cl_next s) None (head s) = Some (prev, None)"
    using ordered_find [OF o, of "is_block s b"] by blast
  then show thesis
  proof cases
    case miss
    then show ?thesis using that [of None s] assms(1) by (simp add: set_is_hit_def)
  next
    case hit
    have x: "x < length (lines s)" using ordered_less [OF o] hit(1) by simp
    have "\<exists>v ns'. (if cmd = CACHE_WRITEBACK then Some s
        else if replacement_policy c = REPLACE_CLOCK then clock_reference x s
        else touch_list c (last_opt None ys) x s) = Some v \<and> ordered v ns' \<and> same_lines v s \<and> policy_ok c v"
    proof (cases "replacement_policy c = REPLACE_CLOCK")
      case True
      then have w: "clock_wf c s" using p by (simp add: policy_ok_def)
      let ?v = "set_meta 0 (meta (lines s ! 0) OR push_bit (unat (way (lines s ! x))) 1) s"
      have "clock_reference x s = Some ?v" using clock_meta(1) [OF w] by (simp add: clock_reference_def)
      moreover have "policy_ok c ?v" using p True clock_wf_set_meta [OF w, of 0] by (auto simp: policy_ok_def clock_wf_def)
      ultimately show ?thesis using True p o same_lines_set_meta by auto
    next
      case False
      obtain v ns' where v: "touch_list c (last_opt None ys) x s = Some v" "ordered v ns'" "same_lines v s"
        using touch_list_ordered [of s ys x zs c] o hit(1) by blast
      then show ?thesis using False p o touch_list_policy_ok [OF v(1,3) p] by auto
    qed
    then obtain v ns' where v: "(if cmd = CACHE_WRITEBACK then Some s
        else if replacement_policy c = REPLACE_CLOCK then clock_reference x s
        else touch_list c (last_opt None ys) x s) = Some v" "ordered v ns'" "same_lines v s" "policy_ok c v" by blast
    define t where "t = (if writes cmd \<and> write_policy c = WRITE_BACK then upd_line x (\<lambda>l. l\<lparr>dirty := True\<rparr>) v else v)"
    have lv: "length (lines v) = length (lines s)" by (rule same_lines_length [OF v(3)])
    have lt: "length (lines t) = length (lines s)" using lv by (simp add: t_def)
    have b: "is_block t a y = is_block s a y" if "y < length (lines s)" for a y
      using is_block_same [OF v(3) that] x lv that by (auto simp: t_def is_block_def)
    have "policy_ok c t" "ordered t ns'" using v x lv unfolding t_def by (auto intro!: policy_ok_upd_line)
    then have "set_ok c t" using u b lt by (auto simp: set_ok_def unique_def)
    moreover have "set_is_hit c None cmd b s = Some (Some x, t)"
      unfolding set_is_hit_def using hit(3) v(1) ro by (simp add: t_def)
    ultimately show ?thesis using that [of "Some x" t] hit(2) x b lt by blast
  qed
qed

section \<open>Runs\<close>

text \<open>The calls a cache makes on a set: look-ups and fills, with the value of \<^verbatim>\<open>random()\<close> for each fill.\<close>

datatype set_op = Set_Access cache_command md_paddr_t | Set_Fill nat cache_command md_paddr_t "nat option"

fun set_step :: "cache_params \<Rightarrow> set_op \<Rightarrow> cache_set_t \<Rightarrow> cache_set_t option" where
  "set_step c (Set_Access cmd b) s = map_option snd (set_is_hit c None cmd b s)"
| "set_step c (Set_Fill r cmd b core) s = set_fill c r cmd b core s"

fun set_run :: "cache_params \<Rightarrow> set_op list \<Rightarrow> cache_set_t \<Rightarrow> cache_set_t option" where
  "set_run c [] s = Some s"
| "set_run c (op # ops) s = (case set_step c op s of None \<Rightarrow> None | Some s \<Rightarrow> set_run c ops s)"

text \<open>A read-only cache is not written.\<close>

fun op_allowed :: "cache_params \<Rightarrow> set_op \<Rightarrow> bool" where
  "op_allowed c (Set_Access cmd b) \<longleftrightarrow> \<not> (read_only c \<and> writes cmd)"
| "op_allowed c (Set_Fill r cmd b core) \<longleftrightarrow> True"

text \<open>The parameters: those \<^verbatim>\<open>cache_create\<close> checks, and at least two ways for the NMRU and clock
  policies, which it does not check.\<close>

definition params_ok :: "cache_params \<Rightarrow> bool" where
  "params_ok c \<longleftrightarrow> 0 < sint (assoc c) \<and>
     (case replacement_policy c of
        REPLACE_NMRU \<Rightarrow> 1 < sint (assoc c)
      | REPLACE_PLRU \<Rightarrow> unat (log2_assoc c) < 31 \<and> unat (assoc c) = 2 ^ unat (log2_assoc c)
      | REPLACE_CLOCK \<Rightarrow> 1 < sint (assoc c) \<and> sint (assoc c) \<le> 64
      | _ \<Rightarrow> True)"

lemma set_create_ok:
  assumes "params_ok c"
  shows "set_ok c (cache_set_create (unat (assoc c)))"
proof -
  let ?A = "unat (assoc c)" and ?s = "cache_set_create (unat (assoc c))"
  have A: "0 < ?A" "?A < 2 ^ 31" "sint (assoc c) = int ?A" using assms sint_pos_iff [of "assoc c"] sint_cint [of "assoc c"]
    by (simp_all add: params_ok_def)
  have ln: "lines ?s ! i = line0\<lparr>way := of_nat i\<rparr>" if "i < ?A" for i using that by (simp add: cache_set_create_def)
  have "lseg (cl_next ?s) (Some k) [k ..< ?A] None" if "k < ?A" for k
    using that
  proof (induction "?A - k" arbitrary: k)
    case (Suc d)
    have "[k ..< ?A] = k # [Suc k ..< ?A]" using Suc.prems by (rule upt_conv_Cons)
    then show ?case using Suc by (cases "Suc k = ?A") (auto simp: cache_set_create_def)
  qed simp
  then have "ordered ?s [0 ..< ?A]" using A by (auto simp: ordered_def linked_def cache_set_create_def)
  moreover have "unique ?s" by (simp add: unique_def is_block_def cache_set_create_def line0_def)
  moreover have "policy_ok c ?s"
    using assms A
    by (auto simp: policy_ok_def params_ok_def clock_wf_def ln line0_def cache_set_create_def simp del: of_nat_unat split: repl_policy_t.splits)
  ultimately show ?thesis by (auto simp: set_ok_def)
qed

lemma set_step_ok: "set_ok c s \<Longrightarrow> op_allowed c op \<Longrightarrow> \<exists>t. set_step c op s = Some t \<and> set_ok c t"
proof (cases op)
  case (Set_Access cmd b)
  assume "set_ok c s" "op_allowed c op"
  then show ?thesis using set_is_hit_ok [of c s cmd b] Set_Access by (metis op_allowed.simps(1) option.simps(9) set_step.simps(1) snd_conv)
next
  case (Set_Fill r cmd b core)
  assume "set_ok c s"
  then show ?thesis using set_fill_ok [of c s r cmd b core] Set_Fill by (metis set_step.simps(2))
qed

lemma set_run_ok: "set_ok c s \<Longrightarrow> list_all (op_allowed c) ops \<Longrightarrow> \<exists>t. set_run c ops s = Some t \<and> set_ok c t"
proof (induction ops arbitrary: s)
  case (Cons op ops)
  then obtain t where "set_step c op s = Some t" "set_ok c t" using set_step_ok [of c s op] by auto
  then show ?case using Cons by simp
qed simp

section \<open>LRU sets are LRU lists\<close>

text \<open>The blocks of a set, in the order of its list.\<close>

definition set_blocks :: "cache_set_t \<Rightarrow> nat list \<Rightarrow> md_paddr_t list" where
  "set_blocks s ns = map (\<lambda>x. tag (lines s ! x)) (filter (\<lambda>x. valid (lines s ! x)) ns)"

definition shows_blocks :: "cache_set_t \<Rightarrow> md_paddr_t list \<Rightarrow> bool" where
  "shows_blocks s bs \<longleftrightarrow> (\<exists>ns. ordered s ns \<and> bs = set_blocks s ns)"

text \<open>The reference: a list of at most \<open>a\<close> blocks, most recently used first.\<close>

definition lru_access :: "nat \<Rightarrow> md_paddr_t \<Rightarrow> md_paddr_t list \<Rightarrow> bool \<times> md_paddr_t list" where
  "lru_access a b bs =
     (if b \<in> set bs then (True, b # remove1 b bs)
      else (False, b # (if length bs < a then bs else butlast bs)))"

fun lru_run :: "nat \<Rightarrow> md_paddr_t list \<Rightarrow> md_paddr_t list \<Rightarrow> bool list" where
  "lru_run a [] L = []"
| "lru_run a (b # bs) L = (let (h, L') = lru_access a b L in h # lru_run a bs L')"

text \<open>A read of the cache: look up, and fill on a miss.\<close>

definition set_read :: "cache_params \<Rightarrow> md_paddr_t \<Rightarrow> cache_set_t \<Rightarrow> (bool \<times> cache_set_t) option" where
  "set_read c b s = (case set_is_hit c None CACHE_READ b s of
     None \<Rightarrow> None | Some (Some x, s) \<Rightarrow> Some (True, s)
   | Some (None, s) \<Rightarrow> map_option (\<lambda>s. (False, s)) (set_fill c 0 CACHE_READ b None s))"

fun set_reads :: "cache_params \<Rightarrow> md_paddr_t list \<Rightarrow> cache_set_t \<Rightarrow> bool list option" where
  "set_reads c [] s = Some []"
| "set_reads c (b # bs) s = (case set_read c b s of None \<Rightarrow> None
     | Some (h, s) \<Rightarrow> map_option ((#) h) (set_reads c bs s))"

lemma set_blocks_append [simp]: "set_blocks s (xs @ ys) = set_blocks s xs @ set_blocks s ys"
  by (simp add: set_blocks_def)

lemma set_blocks_Cons: "set_blocks s (x # xs) = (if valid (lines s ! x) then [tag (lines s ! x)] else []) @ set_blocks s xs"
  by (simp add: set_blocks_def)

lemma set_blocks_cong: "(\<And>x. x \<in> set xs \<Longrightarrow> lines t ! x = lines s ! x) \<Longrightarrow> set_blocks t xs = set_blocks s xs"
  unfolding set_blocks_def by (induction xs) auto

lemma in_set_blocks: "b \<in> set (set_blocks s ns) \<longleftrightarrow> (\<exists>x \<in> set ns. is_block s b x)"
  by (auto simp: set_blocks_def is_block_def)

lemma lru_hit:
  assumes o: "ordered s ns" and b: "b \<in> set (set_blocks s ns)" and c: "replacement_policy c = REPLACE_LRU"
  obtains x t where "set_is_hit c None CACHE_READ b s = Some (Some x, t)"
    and "shows_blocks t (b # remove1 b (set_blocks s ns))" and "length (lines t) = length (lines s)"
proof -
  from b obtain ys x zs where ns: "ns = ys @ x # zs" and x: "is_block s b x" and ys: "\<forall>y \<in> set ys. \<not> is_block s b y"
    unfolding in_set_blocks using split_list_first_prop [of ns "is_block s b"] by blast
  have f: "find_from (is_block s b) (cl_next s) None (head s) = Some (last_opt None ys, Some x)"
    using o x ys unfolding ns ordered_def by (intro find_from_hit) auto
  note m = move_front_ordered [OF o [unfolded ns]]
  have "b \<notin> set (set_blocks s ys)" using ys by (auto simp: in_set_blocks)
  then have "b # remove1 b (set_blocks s ns) = set_blocks s (x # ys @ zs)"
    using x by (simp add: ns set_blocks_Cons is_block_def remove1_append)
  also have "\<dots> = set_blocks (move_front (last_opt None ys) x s) (x # ys @ zs)"
    by (rule set_blocks_cong) (simp add: m(2))
  finally have "shows_blocks (move_front (last_opt None ys) x s) (b # remove1 b (set_blocks s ns))"
    using m(1) unfolding shows_blocks_def by blast
  then show thesis
    using that [of x "move_front (last_opt None ys) x s"] f c m(2) by (simp add: set_is_hit_def touch_list_def writes_def)
qed

lemma lru_fill:
  assumes o: "ordered s ns" and b: "b \<notin> set (set_blocks s ns)" and c: "replacement_policy c = REPLACE_LRU" and ne: "lines s \<noteq> []"
  obtains t where "set_fill c r CACHE_READ b None s = Some t" and "length (lines t) = length (lines s)"
    and "shows_blocks t (b # (if length (set_blocks s ns) < length (lines s) then set_blocks s ns else butlast (set_blocks s ns)))"
proof -
  let ?P = "\<lambda>x. cl_next s x = None \<or> \<not> valid (lines s ! x)"
  have l: "lseg (cl_next s) (head s) ns None" "distinct ns" "length ns = length (lines s)"
    using o length_ordered [OF o] by (auto simp: ordered_def linked_def)
  have "last ns \<in> set ns" using l ne by (intro last_in_set) auto
  then have "cl_next s (last ns) = None" using lseg_last_next [OF l(1,2)] by blast
  then obtain ys x zs where ns: "ns = ys @ x # zs" and x: "?P x" and ys: "\<forall>y \<in> set ys. \<not> ?P y"
    and f: "find_from ?P (cl_next s) None (head s) = Some (last_opt None ys, Some x)"
    using ordered_find [OF o, of ?P] ordered_less [OF o \<open>last ns \<in> set ns\<close>] by blast
  have xl: "x < length (lines s)" "x \<notin> set ys" "x \<notin> set zs" using ordered_less [OF o] l(2) by (auto simp: ns)
  have zs: "\<not> valid (lines s ! x) \<or> zs = []"
    using x l(1) by (cases zs) (auto simp: ns lseg_append)
  have peek: "set_peek b s = Some None"
    using b o set_peek_iff(2) [OF o, of b] by (auto simp: in_set_blocks ordered_def)
  define s2 where "s2 = upd_line x (\<lambda>l. l\<lparr>valid := False, dirty := False\<rparr>) s"
  define u where "u = upd_line x (\<lambda>l. l\<lparr>tag := b, cl_core := None, valid := True, dirty := writes CACHE_READ\<rparr>) s2"
  define t where "t = move_front (last_opt None ys) x u"
  have g: "find_from (\<lambda>x. \<not> valid (lines s2 ! x)) (cl_next s2) None (head s2) = Some (last_opt None ys, Some x)"
    using o ys xl unfolding ns s2_def ordered_def by (intro find_from_hit) auto
  have t: "ordered t (x # ys @ zs)" "lines t = lines u"
    using move_front_ordered [of u ys x zs] o unfolding ns t_def u_def s2_def by simp_all
  have "set_insert_block c CACHE_READ b None s2 = Some t"
    using g c by (simp add: set_insert_block_def touch_list_def u_def t_def)
  then have fill: "set_fill c r CACHE_READ b None s = Some t"
    using peek f c by (simp add: set_fill_def set_get_evictee_def s2_def)
  have new: "set_blocks t (x # ys @ zs) = b # set_blocks s (ys @ zs)"
  proof -
    have "set_blocks t (ys @ zs) = set_blocks s (ys @ zs)"
      by (rule set_blocks_cong) (use xl in \<open>auto simp: t(2) u_def s2_def\<close>)
    then show ?thesis using xl by (simp add: set_blocks_Cons t(2) u_def s2_def)
  qed
  have old: "set_blocks s (ys @ zs) = (if length (set_blocks s ns) < length (lines s) then set_blocks s ns else butlast (set_blocks s ns))"
  proof (cases "valid (lines s ! x)")
    case True
    then have z: "zs = []" using zs by simp
    have "filter (\<lambda>y. valid (lines s ! y)) ns = ns" using ys True by (auto simp: ns z filter_id_conv)
    then have "length (set_blocks s ns) = length (lines s)" using l(3) by (simp add: set_blocks_def)
    then show ?thesis using True by (simp add: ns z set_blocks_Cons) (simp add: set_blocks_def)
  next
    case False
    then have e: "set_blocks s ns = set_blocks s (ys @ zs)" by (simp add: ns set_blocks_Cons)
    have "length (set_blocks s (ys @ zs)) \<le> length (ys @ zs)" unfolding set_blocks_def length_map by (rule length_filter_le)
    also have "\<dots> < length (lines s)" using l(3) by (simp add: ns)
    finally show ?thesis using e by simp
  qed
  have "length (lines t) = length (lines s)" by (simp add: t(2) u_def s2_def)
  moreover have "shows_blocks t (b # (if length (set_blocks s ns) < length (lines s) then set_blocks s ns else butlast (set_blocks s ns)))"
    unfolding shows_blocks_def old [symmetric] new [symmetric] using t(1) by blast
  ultimately show thesis by (rule that [OF fill])
qed

lemma set_read_lru:
  assumes "shows_blocks s L" and "replacement_policy c = REPLACE_LRU" and "lines s \<noteq> []"
  obtains t where "set_read c b s = Some (fst (lru_access (length (lines s)) b L), t)"
    and "shows_blocks t (snd (lru_access (length (lines s)) b L))" and "length (lines t) = length (lines s)"
proof -
  obtain ns where o: "ordered s ns" and L: "L = set_blocks s ns" using assms by (auto simp: shows_blocks_def)
  show thesis
  proof (cases "b \<in> set L")
    case True
    then obtain x t where "set_is_hit c None CACHE_READ b s = Some (Some x, t)" "shows_blocks t (b # remove1 b L)"
      "length (lines t) = length (lines s)" using lru_hit [OF o _ assms(2), of b] unfolding L by blast
    then show ?thesis using that [of t] True by (simp add: set_read_def lru_access_def)
  next
    case False
    have "\<not> (\<exists>x < length (lines s). is_block s b x)" using False o by (auto simp: L in_set_blocks ordered_def)
    then obtain prev where "find_from (is_block s b) (cl_next s) None (head s) = Some (prev, None)"
      using ordered_find [OF o, of "is_block s b"] ordered_less [OF o] by fastforce
    then have "set_is_hit c None CACHE_READ b s = Some (None, s)" by (simp add: set_is_hit_def)
    moreover obtain t where "set_fill c 0 CACHE_READ b None s = Some t" "length (lines t) = length (lines s)"
      "shows_blocks t (b # (if length L < length (lines s) then L else butlast L))"
      using lru_fill [OF o _ assms(2,3), of b 0] False unfolding L by blast
    ultimately show ?thesis using that [of t] False by (simp add: set_read_def lru_access_def)
  qed
qed

lemma set_reads_lru:
  "shows_blocks s L \<Longrightarrow> replacement_policy c = REPLACE_LRU \<Longrightarrow> lines s \<noteq> [] \<Longrightarrow>
   set_reads c bs s = Some (lru_run (length (lines s)) bs L)"
proof (induction bs arbitrary: s L)
  case (Cons b bs)
  obtain t where "set_read c b s = Some (fst (lru_access (length (lines s)) b L), t)"
    "shows_blocks t (snd (lru_access (length (lines s)) b L))" "length (lines t) = length (lines s)"
    using set_read_lru [OF Cons.prems] by blast
  moreover from this have "set_reads c bs t = Some (lru_run (length (lines s)) bs (snd (lru_access (length (lines s)) b L)))"
    using Cons.IH [of t] Cons.prems by (metis length_0_conv)
  ultimately show ?case by (simp add: case_prod_beta Let_def)
qed simp

section \<open>The pseudo-LRU tree\<close>

lemma plru_touch_root:
  assumes "1 \<le> k" and "k \<le> 5" and "unat w < 2 ^ k"
  shows "bit (plru_touch k w m) 1 \<longleftrightarrow> bit w (k - 1)"
proof -
  have other: "bit (plru_bit k w i m) 1 = bit m 1" if "1 \<le> i" for i m
  proof -
    have "(2 :: nat) ^ 1 \<le> 2 ^ i" using that by (intro power_increasing) auto
    then show ?thesis by (auto simp: plru_bit_def Let_def bit_simps)
  qed
  have rest: "bit (fold (plru_bit k w) is m) 1 = bit m 1" if "\<forall>i \<in> set is. 1 \<le> i" for "is" m
    using that by (induction "is" arbitrary: m) (auto simp: other [unfolded One_nat_def])
  have "drop_bit k w = 0"
  proof -
    have "unat (drop_bit k w) = drop_bit k (take_bit 32 (unat w))" by (simp add: unsigned_drop_bit_eq)
    also have "\<dots> = unat w div 2 ^ k" using unat_lt32 [of w] by (simp add: take_bit_nat_eq_self drop_bit_eq_div)
    finally show ?thesis using assms(3) by (simp add: word_unat_eq_iff)
  qed
  then have "bit (plru_bit k w 0 m) 1 \<longleftrightarrow> bit w (k - 1)" by (auto simp: plru_bit_def bit_simps)
  moreover have "[0 ..< k] = 0 # [1 ..< k]" using assms(1) by (simp add: upt_conv_Cons)
  ultimately show ?thesis by (simp add: plru_touch_def rest [unfolded One_nat_def])
qed

lemma plru_subtree: "\<exists>j < 2 ^ k. (plru_step m ^^ k) n = n * 2 ^ k + j"
proof (induction k)
  case (Suc k)
  then obtain j where j: "j < 2 ^ k" "(plru_step m ^^ k) n = n * 2 ^ k + j" by blast
  have "(plru_step m ^^ Suc k) n = plru_step m (n * 2 ^ k + j)" by (simp add: j(2))
  also have "\<dots> = n * 2 ^ Suc k + (2 * j + of_bool (\<not> bit m (n * 2 ^ k + j)))" by (simp add: plru_step_def algebra_simps)
  finally have "(plru_step m ^^ Suc k) n = n * 2 ^ Suc k + (2 * j + of_bool (\<not> bit m (n * 2 ^ k + j)))" .
  moreover have "2 * j + of_bool (\<not> bit m (n * 2 ^ k + j)) < 2 ^ Suc k" using j(1) by simp
  ultimately show ?case by blast
qed simp

lemma find_way_2:
  "find_way w s 2 (Some x) = (if way (lines s ! x) = w then Some (Some x) else find_way w s 1 (cl_next s x))"
  by (simp add: numeral_2_eq_2)

text \<open>A concrete two-way configuration.\<close>

definition plru_two_way :: cache_params where
  "plru_two_way = \<lparr>sets = 1, assoc = 2, log2_assoc = 1, linesize = 64, addr_shift = 6, replacement_policy = REPLACE_PLRU,
     allocate_policy = WRITE_ALLOC, write_policy = WRITE_BACK, read_only = False\<rparr>"

section \<open>Properties\<close>

text \<open>C28: with the parameters \<^verbatim>\<open>cache_create\<close> accepts, and two ways at least for NMRU and clock (with one way
  they find no evictee), every sequence of look-ups and fills on a set, in a read-only cache without writing
  look-ups, succeeds for each of the six policies: pointer loops end, an evictee is found, assertions hold.
  In every state reached, each line is on the recency list once and no block is present twice.\<close>

theorem cache_set_runs_safely:
  assumes "params_ok c" and "list_all (op_allowed c) ops"
  shows "\<exists>s. set_run c ops (cache_set_create (unat (assoc c))) = Some s \<and> set_ok c s"
  by (rule set_run_ok [OF set_create_ok [OF assms(1)] assms(2)])

theorem cache_set_runs_safely_witness:
  "\<exists>s. set_run \<lparr>sets = 1, assoc = 2, log2_assoc = 1, linesize = 64, addr_shift = 6, replacement_policy = REPLACE_CLOCK,
       allocate_policy = WRITE_ALLOC, write_policy = WRITE_BACK, read_only = False\<rparr>
     [Set_Fill 0 CACHE_READ 10 None, Set_Access CACHE_WRITE 10, Set_Fill 0 CACHE_READ 11 None, Set_Fill 0 CACHE_PREFETCH 12 None]
     (cache_set_create 2) = Some s"
  using cache_set_runs_safely [of "\<lparr>sets = 1, assoc = 2, log2_assoc = 1, linesize = 64, addr_shift = 6, replacement_policy = REPLACE_CLOCK,
       allocate_policy = WRITE_ALLOC, write_policy = WRITE_BACK, read_only = False\<rparr>"
      "[Set_Fill 0 CACHE_READ 10 None, Set_Access CACHE_WRITE 10, Set_Fill 0 CACHE_READ 11 None, Set_Fill 0 CACHE_PREFETCH 12 None]"]
  by (simp add: params_ok_def del: set_run.simps) blast

text \<open>C29: insert and look up: in every state a set can reach (with the parameters above), a fill makes its
  block present, every other block but one stays present, and no other block appears; the one that goes when
  the block was absent is that of the line \<^verbatim>\<open>cache_get_evictee\<close> picks.\<close>

theorem fill_then_present:
  assumes "params_ok c" and "list_all (op_allowed c) ops" and "set_run c ops (cache_set_create (unat (assoc c))) = Some s"
  shows "\<exists>t v. set_fill c r cmd b core s = Some t \<and> (\<exists>x. set_peek b t = Some (Some x)) \<and>
    (\<forall>a. a \<noteq> v \<and> (\<exists>x. set_peek a s = Some (Some x)) \<longrightarrow> (\<exists>x. set_peek a t = Some (Some x))) \<and>
    (\<forall>a. a \<noteq> b \<and> (\<exists>x. set_peek a t = Some (Some x)) \<longrightarrow> (\<exists>x. set_peek a s = Some (Some x))) \<and>
    (set_peek b s = Some None \<longrightarrow> (\<exists>x s1. set_get_evictee c r s = Some (Some x, s1) \<and> v = tag (lines s ! x)))"
proof -
  have s: "set_ok c s" using set_run_ok [OF set_create_ok [OF assms(1)] assms(2)] assms(3) by auto
  have pk: "(\<exists>x. set_peek a u = Some (Some x)) \<longleftrightarrow> (\<exists>x < length (lines u). is_block u a x)" if u: "set_ok c u" for a u
  proof -
    obtain ns where "ordered u ns" using u by (auto simp: set_ok_def)
    from set_peek_iff [OF this, of a] show ?thesis by fastforce
  qed
  obtain t v where f: "set_fill c r cmd b core s = Some t" and t: "set_ok c t" and p: "\<exists>x. set_peek b t = Some (Some x)"
    and k: "\<forall>a. a \<noteq> v \<and> (\<exists>x < length (lines s). is_block s a x) \<longrightarrow> (\<exists>x < length (lines t). is_block t a x)"
      "\<forall>a. a \<noteq> b \<and> (\<exists>x < length (lines t). is_block t a x) \<longrightarrow> (\<exists>x < length (lines s). is_block s a x)"
      "set_peek b s = Some None \<longrightarrow> (\<exists>x s1. set_get_evictee c r s = Some (Some x, s1) \<and> v = tag (lines s ! x))"
    using set_fill_ok [OF s, of r cmd b core] by blast
  show ?thesis
    by (rule exI [of _ t], rule exI [of _ v]) (use f p k in \<open>simp only: pk [OF s] pk [OF t] simp_thms\<close>)
qed

theorem fill_then_present_witness:
  "\<exists>s t. set_run \<lparr>sets = 1, assoc = 2, log2_assoc = 1, linesize = 64, addr_shift = 6, replacement_policy = REPLACE_RANDOM,
       allocate_policy = WRITE_ALLOC, write_policy = WRITE_BACK, read_only = False\<rparr>
     [Set_Fill 0 CACHE_READ 10 None] (cache_set_create 2) = Some s \<and>
     set_fill \<lparr>sets = 1, assoc = 2, log2_assoc = 1, linesize = 64, addr_shift = 6, replacement_policy = REPLACE_RANDOM,
       allocate_policy = WRITE_ALLOC, write_policy = WRITE_BACK, read_only = False\<rparr> 7 CACHE_WRITE 11 None s = Some t \<and>
     (\<exists>x. set_peek 11 t = Some (Some x))"
proof -
  let ?c = "\<lparr>sets = 1, assoc = 2, log2_assoc = 1, linesize = 64, addr_shift = 6, replacement_policy = REPLACE_RANDOM,
       allocate_policy = WRITE_ALLOC, write_policy = WRITE_BACK, read_only = False\<rparr>"
  have p: "params_ok ?c" "list_all (op_allowed ?c) [Set_Fill 0 CACHE_READ 10 None]" by (simp_all add: params_ok_def)
  from set_run_ok [OF set_create_ok [OF p(1)] p(2)] obtain s
    where s: "set_run ?c [Set_Fill 0 CACHE_READ 10 None] (cache_set_create (unat (assoc ?c))) = Some s" by blast
  from fill_then_present [OF p s, of 7 CACHE_WRITE 11 None] s show ?thesis by (simp del: set_run.simps) blast
qed

text \<open>C30: a set with the LRU policy hits exactly when a list of the \<^verbatim>\<open>assoc\<close> most recently used
  distinct blocks contains the block: the pointer manipulation of look-up, eviction and insertion
  refines the LRU list.\<close>

theorem lru_set_refines_lru_list:
  assumes "params_ok c" and "replacement_policy c = REPLACE_LRU"
  shows "set_reads c bs (cache_set_create (unat (assoc c))) = Some (lru_run (unat (assoc c)) bs [])"
proof -
  let ?s = "cache_set_create (unat (assoc c))"
  have ok: "set_ok c ?s" by (rule set_create_ok [OF assms(1)])
  then obtain ns where "ordered ?s ns" by (auto simp: set_ok_def)
  moreover have "set_blocks ?s ns = []" if "ordered ?s ns" for ns
    using ordered_less [OF that] by (auto simp: set_blocks_def filter_empty_conv cache_set_create_def line0_def)
  ultimately have "shows_blocks ?s []" unfolding shows_blocks_def by metis
  moreover have "length (lines ?s) = unat (assoc c)" "lines ?s \<noteq> []"
    using ok by (auto simp: set_ok_def policy_ok_def)
  ultimately show ?thesis using set_reads_lru [of ?s "[]" c bs] assms(2) by simp
qed

theorem lru_set_refines_lru_list_witness:
  "set_reads \<lparr>sets = 1, assoc = 2, log2_assoc = 1, linesize = 64, addr_shift = 6, replacement_policy = REPLACE_LRU,
       allocate_policy = WRITE_ALLOC, write_policy = WRITE_BACK, read_only = False\<rparr>
     [1, 2, 1, 3, 2, 1] (cache_set_create 2) = Some [False, False, True, False, False, False]"
  using lru_set_refines_lru_list [of "\<lparr>sets = 1, assoc = 2, log2_assoc = 1, linesize = 64, addr_shift = 6, replacement_policy = REPLACE_LRU,
       allocate_policy = WRITE_ALLOC, write_policy = WRITE_BACK, read_only = False\<rparr>" "[1, 2, 1, 3, 2, 1]"]
  by (simp add: params_ok_def lru_access_def del: set_reads.simps)

text \<open>C31: the tree itself is right: after a way has been touched, the walk over the tree bits never
  chooses that way, for 2 to 32 ways.\<close>

theorem plru_tree_spares_touched_way:
  assumes "1 \<le> k" and "k \<le> 5" and "unat w < 2 ^ k"
  shows "plru_victim k (plru_touch k w m) \<noteq> w"
proof
  let ?m = "plru_touch k w m"
  define d :: nat where "d = of_bool (\<not> bit w (k - 1))"
  assume v: "plru_victim k ?m = w"
  obtain k' where k: "k = Suc k'" using assms(1) by (cases k) auto
  have "plru_step ?m 1 = 2 + d" using plru_touch_root [OF assms] by (simp add: plru_step_def d_def)
  moreover obtain j where j: "j < 2 ^ k'" "(plru_step ?m ^^ k') (2 + d) = (2 + d) * 2 ^ k' + j" using plru_subtree by blast
  ultimately have "(plru_step ?m ^^ k) 1 = 2 ^ k + (d * 2 ^ k' + j)"
    unfolding k funpow_Suc_right comp_def by (simp add: algebra_simps)
  moreover have "d * 2 ^ k' + j < 2 ^ k" using j(1) by (auto simp: d_def k)
  ultimately have w: "w = of_nat (d * 2 ^ k' + j)" using plru_victim_eq [of "d * 2 ^ k' + j" k ?m] assms(2) v by simp
  have "bit w k' \<longleftrightarrow> d = 1"
  proof -
    have "bit (d * 2 ^ k' + j) k' \<longleftrightarrow> d = 1" using j(1) by (auto simp: bit_iff_odd d_def)
    moreover have "k' < 32" using assms(2) k by simp
    ultimately show ?thesis unfolding w by (subst bit_of_nat_iff) simp
  qed
  then show False by (cases "bit w k'") (simp_all add: d_def k)
qed

theorem plru_tree_spares_touched_way_witness: "plru_victim 2 (plru_touch 2 3 0) \<noteq> 3"
  using plru_tree_spares_touched_way [of 2 3 0] by simp

text \<open>C32: the cache nevertheless evicts the most recently used line: the tree bits are those of
  \<^verbatim>\<open>blocks[index][0]\<close>, the head of the recency list, which the next statement moves to another line.
  On a fresh two-way set, after reading \<open>a\<close> and then \<open>b\<close>, the evictee is \<open>b\<close>.\<close>

theorem plru_evicts_most_recent:
  assumes "a \<noteq> b"
  shows "\<exists>s x. set_run plru_two_way [Set_Fill 0 CACHE_READ a None, Set_Fill 0 CACHE_READ b None] (cache_set_create 2) = Some s \<and>
    set_get_evictee plru_two_way r s = Some (Some x, s) \<and> tag (lines s ! x) = b"
  using assms
  by (simp add: set_fill_def set_peek_def plru_two_way_def cache_set_create_def set_get_evictee_def invalid_line_def find_from_simps
      is_block_def set_insert_block_def touch_list_def plru_update_def get_meta_def set_meta_def upd_line_def move_front_def to_mru_def
      set_list_def plru_touch_def plru_bit_def plru_victim_def plru_step_def line0_def writes_def find_way_2 upt_rec)

theorem plru_evicts_most_recent_witness:
  "\<exists>s x. set_run plru_two_way [Set_Fill 0 CACHE_READ 1 None, Set_Fill 0 CACHE_READ 2 None] (cache_set_create 2) = Some s \<and>
    set_get_evictee plru_two_way 0 s = Some (Some x, s) \<and> tag (lines s ! x) = 2"
  using plru_evicts_most_recent [of 1 2 0] by simp

text \<open>C33: with the NMRU policy and one way, a full set has no evictee: \<^verbatim>\<open>cache_get_evictee\<close> returns
  \<^verbatim>\<open>NULL\<close>, which the fill dereferences; the constructor accepts this configuration.\<close>

theorem nmru_direct_mapped_no_evictee:
  assumes "replacement_policy c = REPLACE_NMRU" and "assoc c = 1"
  shows "\<exists>s. set_fill c r CACHE_READ a None (cache_set_create 1) = Some s \<and> set_get_evictee c q s = Some (None, s) \<and>
    (b \<noteq> a \<longrightarrow> set_fill c q CACHE_READ b None s = None)"
  using assms
  by (simp add: set_fill_def set_peek_def cache_set_create_def set_get_evictee_def invalid_line_def find_from_simps
      is_block_def set_insert_block_def touch_list_def upd_line_def move_front_def to_mru_def set_list_def line0_def writes_def)

theorem nmru_direct_mapped_no_evictee_witness:
  "\<exists>s. set_fill (plru_two_way\<lparr>replacement_policy := REPLACE_NMRU, assoc := 1\<rparr>) 0 CACHE_READ 1 None (cache_set_create 1) = Some s \<and>
     set_fill (plru_two_way\<lparr>replacement_policy := REPLACE_NMRU, assoc := 1\<rparr>) 0 CACHE_READ 2 None s = None"
  using nmru_direct_mapped_no_evictee [of "plru_two_way\<lparr>replacement_policy := REPLACE_NMRU, assoc := 1\<rparr>" 0 1 0 2] by auto

end
