(* ===== verification/Memory.thy ===== *)
theory Memory
  imports Prelude
begin

text \<open>
  The virtual memory of the simulator, \<^verbatim>\<open>xiosim/memory.cpp\<close> and \<^verbatim>\<open>memory.h\<close>: page tables per address
  space, first-come first-served physical pages, the program break, and the notifications of the
  feeder. The loops over pages are partial functions; they are shown to return on every input the
  guards let through. A failed assertion or \<^verbatim>\<open>abort()\<close> is an error value.
\<close>

section \<open>Pages (\<^verbatim>\<open>memory.h\<close>)\<close>

definition PAGE_SIZE :: md_addr_t where "PAGE_SIZE = 4096"

definition PAGE_SHIFT :: nat where "PAGE_SHIFT = 12"

definition PAGE_MASK :: md_addr_t where "PAGE_MASK = PAGE_SIZE - 1"

definition page_round_up :: "md_addr_t \<Rightarrow> md_addr_t" where
  "page_round_up addr = (addr + PAGE_MASK) AND NOT PAGE_MASK"

definition page_round_down :: "md_addr_t \<Rightarrow> md_addr_t" where
  "page_round_down addr = addr AND NOT PAGE_MASK"

definition page_offset :: "md_addr_t \<Rightarrow> md_addr_t" where
  "page_offset addr = addr AND PAGE_MASK"

definition page_table_address :: "cint \<Rightarrow> md_addr_t \<Rightarrow> md_addr_t" where
  "page_table_address asid addr =
     (push_bit 4 (drop_bit PAGE_SHIFT addr) + scast asid + 0x00080000) AND 0x03ffffff"

section \<open>State and operations (\<^verbatim>\<open>memory.cpp\<close>)\<close>

type_synonym page_table_t = "md_addr_t \<rightharpoonup> md_paddr_t"

record mem_t =
  num_address_spaces :: cint
  page_tables :: "page_table_t list"
  brk_point :: "md_addr_t list"
  page_count :: "counter_t list"
  phys_page_count :: counter_t
  next_ppn_to_allocate :: md_paddr_t

definition DO_NOT_TRANSLATE :: cint where "DO_NOT_TRANSLATE = -1"

text \<open>The statics before \<^verbatim>\<open>init\<close>; \<^verbatim>\<open>new T[n]\<close> of a negative count fails.\<close>

definition mem_statics :: mem_t where
  "mem_statics = \<lparr>num_address_spaces = 0, page_tables = [], brk_point = [], page_count = [],
     phys_page_count = 0, next_ppn_to_allocate = 0x100\<rparr>"

definition mem_init :: "cint \<Rightarrow> mem_t \<Rightarrow> fatal + mem_t" where
  "mem_init num_processes s =
     checks [(check_nneg num_processes, Alloc_failed)]
       (s\<lparr>num_address_spaces := num_processes, page_tables := replicate (unat num_processes) Map.empty,
          page_count := replicate (unat num_processes) 0, brk_point := replicate (unat num_processes) 0\<rparr>)"

definition asid_ok :: "mem_t \<Rightarrow> cint \<Rightarrow> bool" where
  "asid_ok s asid \<longleftrightarrow> 0 \<le> sint asid \<and> sint asid < sint (num_address_spaces s)"

definition mem_is_mapped :: "cint \<Rightarrow> md_addr_t \<Rightarrow> mem_t \<Rightarrow> bool" where
  "mem_is_mapped asid addr s \<longleftrightarrow> (page_tables s ! unat asid) (drop_bit PAGE_SHIFT addr) \<noteq> None"

text \<open>The loop \<^verbatim>\<open>for (curr = addr; (curr <= last) && curr; curr += PAGE_SIZE)\<close>.\<close>

partial_function (option) page_loop :: "(md_addr_t \<Rightarrow> mem_t \<Rightarrow> mem_t) \<Rightarrow> md_addr_t \<Rightarrow> md_addr_t \<Rightarrow> mem_t \<Rightarrow> mem_t option" where
  "page_loop f curr_addr last_addr s =
     (if curr_addr \<le> last_addr \<and> curr_addr \<noteq> 0 then page_loop f (curr_addr + PAGE_SIZE) last_addr (f curr_addr s) else Some s)"

definition map_page :: "cint \<Rightarrow> md_addr_t \<Rightarrow> mem_t \<Rightarrow> mem_t" where
  "map_page asid curr_addr s =
     (if mem_is_mapped asid curr_addr s then s
      else
        (let i = unat asid; curr_vpn = drop_bit PAGE_SHIFT curr_addr
         in s\<lparr>page_tables := (page_tables s)[i := (page_tables s ! i)(curr_vpn \<mapsto> next_ppn_to_allocate s)],
              next_ppn_to_allocate := next_ppn_to_allocate s + 1,
              page_count := (page_count s)[i := page_count s ! i + 1],
              phys_page_count := phys_page_count s + 1\<rparr>))"

definition unmap_page :: "cint \<Rightarrow> md_addr_t \<Rightarrow> mem_t \<Rightarrow> mem_t" where
  "unmap_page asid curr_addr s =
     (if \<not> mem_is_mapped asid curr_addr s then s
      else
        (let i = unat asid; curr_vpn = drop_bit PAGE_SHIFT curr_addr
         in s\<lparr>page_tables := (page_tables s)[i := (page_tables s ! i)(curr_vpn := None)],
              page_count := (page_count s)[i := page_count s ! i - 1],
              phys_page_count := phys_page_count s - 1\<rparr>))"

definition mem_newmap :: "cint \<Rightarrow> md_addr_t \<Rightarrow> 64 word \<Rightarrow> mem_t \<Rightarrow> (fatal + mem_t) option" where
  "mem_newmap asid addr len s =
     (if \<not> asid_ok s asid then Some (Inl Assert_failed)
      else if addr = 0 then Some (Inl Assert_failed)
      else if page_offset addr \<noteq> 0 then Some (Inl Bad_config)
      else map_option Inr (page_loop (map_page asid) addr (page_round_up (addr + len)) s))"

definition mem_delmap :: "cint \<Rightarrow> md_addr_t \<Rightarrow> 64 word \<Rightarrow> mem_t \<Rightarrow> (fatal + mem_t) option" where
  "mem_delmap asid addr len s =
     (if \<not> asid_ok s asid then Some (Inl Assert_failed)
      else if page_offset addr \<noteq> 0 then Some (Inl Bad_config)
      else map_option Inr (page_loop (unmap_page asid) addr (page_round_up (addr + len)) s))"

definition get_brk :: "cint \<Rightarrow> mem_t \<Rightarrow> md_addr_t" where
  "get_brk asid s = brk_point s ! unat asid"

definition set_brk :: "cint \<Rightarrow> md_addr_t \<Rightarrow> mem_t \<Rightarrow> mem_t" where
  "set_brk asid brk_addr s = s\<lparr>brk_point := (brk_point s)[unat asid := brk_addr]\<rparr>"

definition v2p_translate :: "cint \<Rightarrow> md_addr_t \<Rightarrow> mem_t \<Rightarrow> fatal + md_paddr_t" where
  "v2p_translate asid addr s =
     (if asid = DO_NOT_TRANSLATE then Inr addr
      else if \<not> asid_ok s asid then Inl Assert_failed
      else case (page_tables s ! unat asid) (drop_bit PAGE_SHIFT addr) of
             Some ppn \<Rightarrow> Inr (push_bit PAGE_SHIFT ppn + page_offset addr)
           | None \<Rightarrow> Inr (0 + page_offset addr))"

definition notify_write :: "cint \<Rightarrow> md_addr_t \<Rightarrow> mem_t \<Rightarrow> (fatal + mem_t) option" where
  "notify_write asid addr s =
     (if \<not> asid_ok s asid then Some (Inl Assert_failed)
      else if \<not> mem_is_mapped asid addr s then mem_newmap asid (page_round_down addr) PAGE_SIZE s
      else Some (Inr s))"

definition notify_mmap :: "cint \<Rightarrow> md_addr_t \<Rightarrow> 64 word \<Rightarrow> bool \<Rightarrow> mem_t \<Rightarrow> (fatal + mem_t) option" where
  "notify_mmap asid addr len mod_brk s =
     (let page_addr = page_round_down addr; page_length = page_round_up len in
      map_option (map_sum id (\<lambda>s. let curr_brk = get_brk asid s in
          if mod_brk \<and> page_addr > curr_brk then set_brk asid (page_addr + page_length) s else s))
        (mem_newmap asid page_addr page_length s))"

definition notify_munmap :: "cint \<Rightarrow> md_addr_t \<Rightarrow> 64 word \<Rightarrow> bool \<Rightarrow> mem_t \<Rightarrow> (fatal + mem_t) option" where
  "notify_munmap asid addr len mod_brk s = mem_delmap asid (page_round_up addr) len s"

definition update_brk :: "cint \<Rightarrow> md_addr_t \<Rightarrow> bool \<Rightarrow> mem_t \<Rightarrow> (fatal + mem_t) option" where
  "update_brk asid brk_end do_mmap s =
     (if brk_end = 0 \<or> \<not> asid_ok s asid then Some (Inl Assert_failed)
      else
        map_option (map_sum id (set_brk asid brk_end))
          (if do_mmap then
             (let old_brk_end = get_brk asid s in
              if brk_end > old_brk_end then
                notify_mmap asid (page_round_up old_brk_end) (page_round_up (brk_end - old_brk_end)) False s
              else if brk_end < old_brk_end then
                notify_munmap asid (page_round_up brk_end) (page_round_up (old_brk_end - brk_end)) False s
              else Some (Inr s))
           else Some (Inr s)))"

definition map_stack :: "cint \<Rightarrow> md_addr_t \<Rightarrow> md_addr_t \<Rightarrow> mem_t \<Rightarrow> (fatal + mem_t) option" where
  "map_stack asid sp bos s =
     (if sp = 0 \<or> bos = 0 then Some (Inl Assert_failed)
      else
        (let page_start = page_round_down sp; page_end = page_round_up bos
         in mem_newmap asid page_start (page_end - page_start) s))"

section \<open>Pages as numbers\<close>

lemmas page_consts = PAGE_SIZE_def PAGE_SHIFT_def PAGE_MASK_def

lemma page_mask_eq: "PAGE_MASK = mask 12"
  by (simp add: page_consts mask_eq_exp_minus_1)

lemma unat_page_offset: "unat (page_offset a) = unat a mod 4096"
proof -
  have "page_offset a = take_bit 12 a" by (simp add: page_offset_def page_mask_eq take_bit_eq_mask)
  then show ?thesis by (simp add: take_bit_eq_mod unat_mod)
qed

lemma unat_vpn: "unat (drop_bit PAGE_SHIFT a) = unat a div 4096" for a :: md_addr_t
  by (simp add: PAGE_SHIFT_def drop_bit_eq_div unat_div)

lemma and_not_and [simp]: "(x AND NOT m) AND m = 0" "(x AND NOT m) AND (y AND m) = 0" for x y m :: "64 word"
  by (rule bit_eqI, auto simp: bit_simps)+

lemma round_down_offset: "page_round_down a + page_offset a = a" "page_offset (page_round_down a) = 0"
proof -
  have "page_round_down a + page_offset a = (a AND NOT PAGE_MASK) OR (a AND PAGE_MASK)"
    by (simp add: page_round_down_def page_offset_def disjunctive_add_eq_or del: and_not_and(1))
  also have "\<dots> = a" by (rule bit_eqI) (auto simp: bit_simps)
  finally show "page_round_down a + page_offset a = a" .
  show "page_offset (page_round_down a) = 0" by (simp add: page_round_down_def page_offset_def)
qed

lemma round_up_offset: "page_offset (page_round_up a) = 0"
  by (simp add: page_round_up_def page_offset_def)

lemma offset_0_iff: "page_offset a = 0 \<longleftrightarrow> unat a mod 4096 = 0"
  by (simp add: word_unat_eq_iff unat_page_offset)

lemma unat_next_page:
  assumes "page_offset a = 0"
  shows "a + PAGE_SIZE = 0 \<and> unat a + 4096 = 2 ^ 64 \<or> unat (a + PAGE_SIZE) = unat a + 4096" and "page_offset (a + PAGE_SIZE) = 0"
proof -
  have u: "unat (a + PAGE_SIZE) = (unat a + 4096) mod 2 ^ 64" by (simp add: PAGE_SIZE_def unat_word_ariths)
  have a: "unat a mod 4096 = 0" "unat a < 2 ^ 64" using assms unsigned_less [of a, where 'a = nat] by (simp_all add: offset_0_iff)
  show "a + PAGE_SIZE = 0 \<and> unat a + 4096 = 2 ^ 64 \<or> unat (a + PAGE_SIZE) = unat a + 4096"
  proof (cases "unat a + 4096 < 2 ^ 64")
    case False
    obtain k where "unat a = 4096 * k" using a(1) by auto
    then have "unat a + 4096 = 2 ^ 64" using a(2) False by simp
    then show ?thesis using u by (simp add: word_unat_eq_iff)
  qed (use u in simp)
  have "(unat a + 4096) mod 2 ^ 64 mod 4096 = 0" using a(1) by (simp add: mod_mod_cancel)
  then show "page_offset (a + PAGE_SIZE) = 0" using u by (simp add: offset_0_iff)
qed

text \<open>The addresses the loop visits.\<close>

definition in_pages :: "md_addr_t \<Rightarrow> md_addr_t \<Rightarrow> md_addr_t \<Rightarrow> bool" where
  "in_pages first last_addr a \<longleftrightarrow> first \<noteq> 0 \<and> first \<le> a \<and> a \<le> last_addr \<and> page_offset a = 0"

definition n_pages :: "md_addr_t \<Rightarrow> md_addr_t \<Rightarrow> nat" where
  "n_pages first last_addr =
     (if first \<le> last_addr \<and> first \<noteq> 0 then Suc ((unat last_addr - unat first) div 4096) else 0)"

fun page_list :: "nat \<Rightarrow> md_addr_t \<Rightarrow> md_addr_t list" where
  "page_list 0 a = []"
| "page_list (Suc n) a = a # page_list n (a + PAGE_SIZE)"

lemma n_pages_step:
  assumes "page_offset a = 0" and "a \<le> last_addr" and "a \<noteq> 0"
  shows "n_pages a last_addr = Suc (n_pages (a + PAGE_SIZE) last_addr)"
proof (cases "a + PAGE_SIZE = 0")
  case True
  then have "unat a + 4096 = 2 ^ 64" using unat_next_page(1) [OF assms(1)] by auto
  moreover have "unat last_addr < 2 ^ 64" using unsigned_less [of last_addr, where 'a = nat] by simp
  ultimately have "(unat last_addr - unat a) div 4096 = 0" by (intro div_less) linarith
  then show ?thesis using True assms by (simp add: n_pages_def)
next
  case False
  then have "unat (a + PAGE_SIZE) = unat a + 4096" using unat_next_page [OF assms(1)] by blast
  then show ?thesis using assms False by (auto simp: n_pages_def word_le_nat_alt le_div_geq diff_diff_left)
qed

lemma in_pages_step:
  assumes "page_offset a = 0" and "a \<le> last_addr" and "a \<noteq> 0"
  shows "in_pages a last_addr x \<longleftrightarrow> x = a \<or> in_pages (a + PAGE_SIZE) last_addr x"
proof -
  have nx: "a + PAGE_SIZE = 0 \<and> unat a + 4096 = 2 ^ 64 \<or> unat (a + PAGE_SIZE) = unat a + 4096"
    using unat_next_page(1) [OF assms(1)] .
  have "unat a + 4096 \<le> unat x" if "a \<le> x" "x \<noteq> a" "page_offset x = 0"
  proof -
    have "unat a mod 4096 = 0" "unat x mod 4096 = 0" using assms(1) that(3) by (simp_all add: offset_0_iff)
    then obtain k m where "unat a = 4096 * k" "unat x = 4096 * m" by (auto elim!: dvdE)
    moreover have "unat a < unat x" using that by (simp add: word_le_nat_alt word_unat_eq_iff)
    ultimately show ?thesis by simp
  qed
  moreover have "unat x < 2 ^ 64" using unsigned_less [of x, where 'a = nat] by simp
  ultimately show ?thesis using nx assms by (auto simp: in_pages_def word_le_nat_alt)
qed

text \<open>The loop returns, and is the fold over the pages of the range.\<close>

lemma page_loop_fold:
  assumes "page_offset a = 0"
  shows "page_loop f a last_addr s = Some (fold f (page_list (n_pages a last_addr) a) s) \<and>
    (\<forall>x. x \<in> set (page_list (n_pages a last_addr) a) \<longleftrightarrow> in_pages a last_addr x)"
  using assms
proof (induction "n_pages a last_addr" arbitrary: a s)
  case 0
  then have "\<not> (a \<le> last_addr \<and> a \<noteq> 0)" by (auto simp: n_pages_def split: if_splits)
  then show ?case using 0 by (subst page_loop.simps) (auto simp: in_pages_def)
next
  case (Suc n)
  have c: "a \<le> last_addr" "a \<noteq> 0" using Suc.hyps(2) by (auto simp: n_pages_def split: if_splits)
  have "n = n_pages (a + PAGE_SIZE) last_addr" using Suc.hyps(2) n_pages_step [OF Suc.prems c] by simp
  with Suc.hyps(1) [OF this unat_next_page(2) [OF Suc.prems]] Suc.hyps(2) [symmetric] c
  show ?case using in_pages_step [OF Suc.prems c] by (subst page_loop.simps) auto
qed

lemma length_page_list [simp]: "length (page_list n a) = n"
  by (induction n a rule: page_list.induct) simp_all

section \<open>Invariant\<close>

text \<open>Physical page numbers are handed out once each, and the counters count the tables' entries.\<close>

definition mem_inv :: "mem_t \<Rightarrow> bool" where
  "mem_inv s \<longleftrightarrow> length (page_tables s) = unat (num_address_spaces s) \<and> length (page_count s) = unat (num_address_spaces s) \<and>
     length (brk_point s) = unat (num_address_spaces s) \<and> unat (num_address_spaces s) < 2 ^ 31 \<and>
     unat (next_ppn_to_allocate s) \<le> 2 ^ 63 \<and>
     (\<forall>i < unat (num_address_spaces s). finite (dom (page_tables s ! i)) \<and>
        page_count s ! i = of_nat (card (dom (page_tables s ! i)))) \<and>
     phys_page_count s = sum_list (page_count s) \<and>
     (\<forall>i < unat (num_address_spaces s). \<forall>v p. (page_tables s ! i) v = Some p \<longrightarrow>
        0x100 \<le> unat p \<and> unat p < unat (next_ppn_to_allocate s) \<and>
        (\<forall>j < unat (num_address_spaces s). \<forall>w. (page_tables s ! j) w = Some p \<longrightarrow> i = j \<and> v = w)) \<and>
     0x100 \<le> unat (next_ppn_to_allocate s)"

lemma mem_init_inv: "mem_init n mem_statics = Inr s \<Longrightarrow> mem_inv s"
  by (auto simp: mem_init_def mem_statics_def checks_Inr_iff mem_inv_def check_nneg_unat sum_list_replicate)

lemma asid_less: "mem_inv s \<Longrightarrow> asid_ok s asid \<Longrightarrow> unat asid < unat (num_address_spaces s)"
  using sint_nneg_iff [of asid] by (auto simp: asid_ok_def mem_inv_def sint_cint simp del: of_nat_unat)

lemma sum_list_upd:
  "i < length xs \<Longrightarrow> sum_list (xs[i := x]) = sum_list xs - xs ! i + (x :: 'a::ring_1)"
proof (induction xs arbitrary: i)
  case (Cons y ys)
  then show ?case by (cases i) (simp_all add: algebra_simps)
qed simp

definition pages_left :: "mem_t \<Rightarrow> nat" where
  "pages_left s = 2 ^ 63 - unat (next_ppn_to_allocate s)"

lemma map_page_inv:
  assumes "mem_inv s" and "unat asid < unat (num_address_spaces s)" and "0 < pages_left s"
  shows "mem_inv (map_page asid a s)"
proof (cases "mem_is_mapped asid a s")
  case True
  then show ?thesis using assms by (simp add: map_page_def)
next
  case False
  let ?i = "unat asid" and ?v = "drop_bit PAGE_SHIFT a" and ?n = "next_ppn_to_allocate s" and ?s = "map_page asid a s"
  have un: "unat (?n + 1) = unat ?n + 1" using assms(3) by (simp add: pages_left_def unat_word_ariths)
  have f: "num_address_spaces ?s = num_address_spaces s" "brk_point ?s = brk_point s"
    "page_tables ?s = (page_tables s)[?i := (page_tables s ! ?i)(?v \<mapsto> ?n)]"
    "page_count ?s = (page_count s)[?i := page_count s ! ?i + 1]" "next_ppn_to_allocate ?s = ?n + 1"
    "phys_page_count ?s = phys_page_count s + 1"
    using False by (simp_all add: map_page_def Let_def)
  have l: "length (page_tables s) = unat (num_address_spaces s)" "length (page_count s) = unat (num_address_spaces s)"
    using assms(1) by (simp_all add: mem_inv_def)
  have nin: "?v \<notin> dom (page_tables s ! ?i)" using False by (auto simp: mem_is_mapped_def)
  have t: "(page_tables ?s ! j) w = (if j = ?i \<and> w = ?v then Some ?n else (page_tables s ! j) w)"
    if "j < unat (num_address_spaces s)" for j w
    using that l(1) assms(2) by (auto simp: f nth_list_update)
  have d: "dom (page_tables ?s ! j) = (if j = ?i then insert ?v (dom (page_tables s ! j)) else dom (page_tables s ! j))"
    if "j < unat (num_address_spaces s)" for j
    using that l(1) assms(2) by (auto simp: f nth_list_update)
  have c: "page_count ?s ! j = (if j = ?i then page_count s ! j + 1 else page_count s ! j)"
    if "j < unat (num_address_spaces s)" for j using that l(2) assms(2) by (simp add: f nth_list_update)
  have old: "0x100 \<le> unat p \<and> unat p < unat ?n" if "(page_tables s ! j) w = Some p" "j < unat (num_address_spaces s)" for j w p
    using assms(1) that by (auto simp: mem_inv_def)
  have "finite (dom (page_tables ?s ! j)) \<and> page_count ?s ! j = of_nat (card (dom (page_tables ?s ! j)))"
    if "j < unat (num_address_spaces s)" for j
    using that assms(1) nin by (auto simp: d c mem_inv_def)
  moreover have "0x100 \<le> unat p \<and> unat p < unat (next_ppn_to_allocate ?s) \<and>
      (\<forall>k < unat (num_address_spaces s). \<forall>w. (page_tables ?s ! k) w = Some p \<longrightarrow> j = k \<and> v = w)"
    if "(page_tables ?s ! j) v = Some p" "j < unat (num_address_spaces s)" for j v p
    using that assms(1) old un by (auto simp: t f(5) mem_inv_def less_Suc_eq split: if_splits)
  moreover have "phys_page_count ?s = sum_list (page_count ?s)"
    using assms(1,2) by (simp add: f sum_list_upd mem_inv_def)
  moreover have "length (page_tables ?s) = unat (num_address_spaces s)" "length (page_count ?s) = unat (num_address_spaces s)"
    using l by (simp_all add: f)
  ultimately show ?thesis using assms un by (auto simp: mem_inv_def f(1,2,5) pages_left_def)
qed

lemma card_minus: "finite A \<Longrightarrow> x \<in> A \<Longrightarrow> of_nat (card (A - {x})) = (of_nat (card A) - 1 :: 'a::ring_1)"
  by (subst card.remove [of A x]) (simp_all del: card_Diff_insert)

lemma unmap_page_inv:
  assumes "mem_inv s" and "unat asid < unat (num_address_spaces s)"
  shows "mem_inv (unmap_page asid a s)"
proof (cases "mem_is_mapped asid a s")
  case True
  let ?i = "unat asid" and ?v = "drop_bit PAGE_SHIFT a" and ?s = "unmap_page asid a s"
  have f: "num_address_spaces ?s = num_address_spaces s" "brk_point ?s = brk_point s"
    "page_tables ?s = (page_tables s)[?i := (page_tables s ! ?i)(?v := None)]"
    "page_count ?s = (page_count s)[?i := page_count s ! ?i - 1]" "next_ppn_to_allocate ?s = next_ppn_to_allocate s"
    "phys_page_count ?s = phys_page_count s - 1"
    using True by (simp_all add: unmap_page_def Let_def)
  have l: "length (page_tables s) = unat (num_address_spaces s)" "length (page_count s) = unat (num_address_spaces s)"
    using assms(1) by (simp_all add: mem_inv_def)
  have "?v \<in> dom (page_tables s ! ?i)" using True by (auto simp: mem_is_mapped_def)
  then have c1: "of_nat (card (dom (page_tables s ! ?i) - {?v})) = (of_nat (card (dom (page_tables s ! ?i))) - 1 :: 64 word)"
    if "finite (dom (page_tables s ! ?i))" using card_minus [OF that] by simp
  have t: "(page_tables ?s ! j) w = (if j = ?i \<and> w = ?v then None else (page_tables s ! j) w)"
    if "j < unat (num_address_spaces s)" for j w
    using that l(1) assms(2) by (auto simp: f nth_list_update)
  have d: "dom (page_tables ?s ! j) = (if j = ?i then dom (page_tables s ! j) - {?v} else dom (page_tables s ! j))"
    if "j < unat (num_address_spaces s)" for j
    using that l(1) assms(2) by (auto simp: f nth_list_update)
  have c: "page_count ?s ! j = (if j = ?i then page_count s ! j - 1 else page_count s ! j)"
    if "j < unat (num_address_spaces s)" for j using that l(2) assms(2) by (simp add: f nth_list_update)
  have "finite (dom (page_tables ?s ! j)) \<and> page_count ?s ! j = of_nat (card (dom (page_tables ?s ! j)))"
    if "j < unat (num_address_spaces s)" for j
    using that assms c1 by (auto simp: d c mem_inv_def)
  moreover have "0x100 \<le> unat p \<and> unat p < unat (next_ppn_to_allocate ?s) \<and>
      (\<forall>k < unat (num_address_spaces s). \<forall>w. (page_tables ?s ! k) w = Some p \<longrightarrow> j = k \<and> v = w)"
    if "(page_tables ?s ! j) v = Some p" "j < unat (num_address_spaces s)" for j v p
    using that assms(1) by (auto simp: t f(5) mem_inv_def split: if_splits)
  moreover have "phys_page_count ?s = sum_list (page_count ?s)"
    using assms(1,2) by (simp add: f sum_list_upd mem_inv_def)
  moreover have "length (page_tables ?s) = unat (num_address_spaces s)" "length (page_count ?s) = unat (num_address_spaces s)"
    using l by (simp_all add: f)
  ultimately show ?thesis using assms by (auto simp: mem_inv_def f(1,2,5))
qed (use assms in \<open>simp add: unmap_page_def\<close>)

section \<open>Whole operations\<close>

abbreviation table :: "mem_t \<Rightarrow> nat \<Rightarrow> page_table_t" where
  "table s i \<equiv> page_tables s ! i"

definition vpn :: "md_addr_t \<Rightarrow> md_addr_t" where
  "vpn a = drop_bit PAGE_SHIFT a"

text \<open>What mapping and unmapping a set of pages does to the tables.\<close>

definition maps_pages :: "nat \<Rightarrow> md_addr_t set \<Rightarrow> mem_t \<Rightarrow> mem_t \<Rightarrow> bool" where
  "maps_pages i A s s' \<longleftrightarrow> mem_inv s' \<and> num_address_spaces s' = num_address_spaces s \<and> brk_point s' = brk_point s \<and>
     (\<forall>j < unat (num_address_spaces s). (\<forall>v p. table s j v = Some p \<longrightarrow> table s' j v = Some p) \<and>
        dom (table s' j) = dom (table s j) \<union> (if j = i then vpn ` A else {}))"

definition unmaps_pages :: "nat \<Rightarrow> md_addr_t set \<Rightarrow> mem_t \<Rightarrow> mem_t \<Rightarrow> bool" where
  "unmaps_pages i A s s' \<longleftrightarrow> mem_inv s' \<and> num_address_spaces s' = num_address_spaces s \<and> brk_point s' = brk_point s \<and>
     (\<forall>j < unat (num_address_spaces s). \<forall>v. table s' j v = (if j = i \<and> v \<in> vpn ` A then None else table s j v))"

lemma map_page_maps:
  assumes "mem_inv s" and "unat asid < unat (num_address_spaces s)" and "0 < pages_left s"
  shows "maps_pages (unat asid) {a} s (map_page asid a s) \<and> pages_left s \<le> Suc (pages_left (map_page asid a s))"
proof -
  have "unat (next_ppn_to_allocate s + 1) = unat (next_ppn_to_allocate s) + 1"
    using assms(3) by (simp add: pages_left_def unat_word_ariths)
  moreover have "length (page_tables s) = unat (num_address_spaces s)" using assms(1) by (simp add: mem_inv_def)
  ultimately show ?thesis using map_page_inv [OF assms, of a] assms(2)
    by (auto simp: maps_pages_def map_page_def mem_is_mapped_def vpn_def nth_list_update pages_left_def Let_def)
qed

lemma fold_map_page:
  assumes "mem_inv s" and "unat asid < unat (num_address_spaces s)" and "length as \<le> pages_left s"
  shows "maps_pages (unat asid) (set as) s (fold (map_page asid) as s)"
  using assms
proof (induction as arbitrary: s)
  case (Cons a as)
  have m: "maps_pages (unat asid) {a} s (map_page asid a s)" "length as \<le> pages_left (map_page asid a s)"
    using map_page_maps [OF Cons.prems(1,2), of a] Cons.prems(3) by auto
  then have "maps_pages (unat asid) (set as) (map_page asid a s) (fold (map_page asid) as (map_page asid a s))"
    using Cons.IH Cons.prems(2) by (simp add: maps_pages_def)
  then show ?case using m(1) by (auto simp: maps_pages_def)
qed (simp add: maps_pages_def)

lemma fold_unmap_page:
  assumes "mem_inv s" and "unat asid < unat (num_address_spaces s)"
  shows "unmaps_pages (unat asid) (set as) s (fold (unmap_page asid) as s) \<and>
    next_ppn_to_allocate (fold (unmap_page asid) as s) = next_ppn_to_allocate s"
  using assms
proof (induction as arbitrary: s)
  case (Cons a as)
  have l: "length (page_tables s) = unat (num_address_spaces s)" using Cons.prems(1) by (simp add: mem_inv_def)
  have m: "unmaps_pages (unat asid) {a} s (unmap_page asid a s)"
    "next_ppn_to_allocate (unmap_page asid a s) = next_ppn_to_allocate s"
    using unmap_page_inv [OF Cons.prems, of a] Cons.prems(2) l
    by (auto simp: unmaps_pages_def unmap_page_def mem_is_mapped_def vpn_def nth_list_update Let_def)
  then have "unmaps_pages (unat asid) (set as) (unmap_page asid a s) (fold (unmap_page asid) as (unmap_page asid a s))"
    "next_ppn_to_allocate (fold (unmap_page asid) as (unmap_page asid a s)) = next_ppn_to_allocate s"
    using Cons.IH [of "unmap_page asid a s"] Cons.prems(2) by (auto simp: unmaps_pages_def)
  then show ?case using m(1) by (auto simp: unmaps_pages_def)
qed (simp add: unmaps_pages_def)

lemma n_pages_le: "n_pages a b \<le> 2 ^ 52"
proof -
  have "unat b < 2 ^ 52 * 4096" using unsigned_less [of b, where 'a = nat] by simp
  then have "(unat b - unat a) div 4096 < 2 ^ 52" by (intro less_mult_imp_div_less) linarith
  then show ?thesis by (simp add: n_pages_def)
qed

text \<open>Every operation returns; it fails or leaves a well-formed memory.\<close>

lemma mem_newmap_cases:
  assumes "mem_inv s" and "unat (next_ppn_to_allocate s) \<le> 2 ^ 52"
  shows "(\<exists>e. mem_newmap asid a len s = Some (Inl e)) \<or>
    (\<exists>s'. mem_newmap asid a len s = Some (Inr s') \<and> asid_ok s asid \<and>
       maps_pages (unat asid) {x. in_pages a (page_round_up (a + len)) x} s s')"
proof (cases "asid_ok s asid \<and> a \<noteq> 0 \<and> page_offset a = 0")
  case True
  let ?l = "page_round_up (a + len)" and ?xs = "page_list (n_pages a (page_round_up (a + len))) a"
  have "length ?xs \<le> pages_left s" using n_pages_le [of a ?l] assms(2) by (simp add: pages_left_def)
  then have "maps_pages (unat asid) (set ?xs) s (fold (map_page asid) ?xs s)"
    using fold_map_page [OF assms(1) asid_less] True assms(1) by blast
  moreover have "set ?xs = {x. in_pages a ?l x}" using page_loop_fold [of a "\<lambda>_ s. s" ?l] True by blast
  ultimately show ?thesis using page_loop_fold [of a "map_page asid" ?l s] True by (simp add: mem_newmap_def)
qed (auto simp: mem_newmap_def)

lemma mem_delmap_cases:
  assumes "mem_inv s"
  shows "(\<exists>e. mem_delmap asid a len s = Some (Inl e)) \<or>
    (\<exists>s'. mem_delmap asid a len s = Some (Inr s') \<and> asid_ok s asid \<and> next_ppn_to_allocate s' = next_ppn_to_allocate s \<and>
       unmaps_pages (unat asid) {x. in_pages a (page_round_up (a + len)) x} s s')"
proof (cases "asid_ok s asid \<and> page_offset a = 0")
  case True
  let ?l = "page_round_up (a + len)" and ?xs = "page_list (n_pages a (page_round_up (a + len))) a"
  have "unmaps_pages (unat asid) (set ?xs) s (fold (unmap_page asid) ?xs s)"
    "next_ppn_to_allocate (fold (unmap_page asid) ?xs s) = next_ppn_to_allocate s"
    using fold_unmap_page [OF assms asid_less] True assms by blast+
  moreover have "set ?xs = {x. in_pages a ?l x}" using page_loop_fold [of a "\<lambda>_ s. s" ?l] True by blast
  ultimately show ?thesis using page_loop_fold [of a "unmap_page asid" ?l s] True by (simp add: mem_delmap_def)
qed (auto simp: mem_delmap_def)

section \<open>Reachable memories\<close>

datatype mem_op =
    Write cint md_addr_t
  | Mmap cint md_addr_t "64 word" bool
  | Munmap cint md_addr_t "64 word" bool
  | Brk cint md_addr_t bool
  | Stack cint md_addr_t md_addr_t

fun mem_step :: "mem_op \<Rightarrow> mem_t \<Rightarrow> (fatal + mem_t) option" where
  "mem_step (Write asid a) s = notify_write asid a s"
| "mem_step (Mmap asid a len b) s = notify_mmap asid a len b s"
| "mem_step (Munmap asid a len b) s = notify_munmap asid a len b s"
| "mem_step (Brk asid a b) s = update_brk asid a b s"
| "mem_step (Stack asid sp bos) s = map_stack asid sp bos s"

text \<open>As long as physical page numbers fit into the 52 bits a 64-bit address leaves them.\<close>

inductive mem_reach :: "mem_t \<Rightarrow> bool" where
  init: "mem_init n mem_statics = Inr s \<Longrightarrow> mem_reach s"
| step: "mem_reach s \<Longrightarrow> mem_step op s = Some (Inr s') \<Longrightarrow> unat (next_ppn_to_allocate s') \<le> 2 ^ 52 \<Longrightarrow> mem_reach s'"

text \<open>A step fails or leaves a well-formed memory in which the other address spaces are as before and,
  unless it unmaps, every mapping is kept.\<close>

definition step_ok :: "nat \<Rightarrow> bool \<Rightarrow> mem_t \<Rightarrow> mem_t \<Rightarrow> bool" where
  "step_ok i unmaps s s' \<longleftrightarrow> mem_inv s' \<and> num_address_spaces s' = num_address_spaces s \<and>
     (\<forall>j < unat (num_address_spaces s). \<forall>v. (j \<noteq> i \<longrightarrow> table s' j v = table s j v) \<and>
        (\<not> unmaps \<longrightarrow> table s j v \<noteq> None \<longrightarrow> table s' j v = table s j v))"

definition result_ok :: "nat \<Rightarrow> bool \<Rightarrow> mem_t \<Rightarrow> (fatal + mem_t) option \<Rightarrow> bool" where
  "result_ok i unmaps s r \<longleftrightarrow> (\<exists>e. r = Some (Inl e)) \<or> (\<exists>s'. r = Some (Inr s') \<and> step_ok i unmaps s s')"

lemma set_brk_frame [simp]:
  "mem_inv (set_brk asid b s) = mem_inv s" "step_ok i u s0 (set_brk asid b s) = step_ok i u s0 s"
  "page_tables (set_brk asid b s) = page_tables s"
  by (auto simp: set_brk_def mem_inv_def step_ok_def)

lemma maps_step_ok:
  assumes "maps_pages i A s s'"
  shows "step_ok i False s s'"
proof -
  have "table s' j v = table s j v" if "j < unat (num_address_spaces s)" "j \<noteq> i" for j v
  proof (cases "table s j v")
    case None
    moreover have "dom (table s' j) = dom (table s j)" using assms that by (simp add: maps_pages_def)
    ultimately show ?thesis by (metis domIff)
  qed (use assms that in \<open>simp add: maps_pages_def\<close>)
  moreover have "table s' j v = table s j v" if "j < unat (num_address_spaces s)" "table s j v \<noteq> None" for j v
    using assms that by (auto simp: maps_pages_def)
  ultimately show ?thesis using assms by (simp add: maps_pages_def step_ok_def)
qed

lemma unmaps_step_ok: "unmaps_pages i A s s' \<Longrightarrow> step_ok i True s s'"
  by (auto simp: unmaps_pages_def step_ok_def)

lemma step_ok_refl: "mem_inv s \<Longrightarrow> step_ok i u s s"
  by (simp add: step_ok_def)

lemma step_ok_weaken: "step_ok i False s s' \<Longrightarrow> step_ok i True s s'"
  by (simp add: step_ok_def)

lemma newmap_result:
  assumes "mem_inv s" and "unat (next_ppn_to_allocate s) \<le> 2 ^ 52"
  shows "result_ok (unat asid) False s (mem_newmap asid a len s)"
  using mem_newmap_cases [OF assms, of asid a len] maps_step_ok by (auto simp: result_ok_def)

lemma delmap_result:
  assumes "mem_inv s"
  shows "result_ok (unat asid) True s (mem_delmap asid a len s)"
  using mem_delmap_cases [OF assms, of asid a len] unmaps_step_ok by (auto simp: result_ok_def)

fun op_asid :: "mem_op \<Rightarrow> cint" where
  "op_asid (Write asid a) = asid"
| "op_asid (Mmap asid a len b) = asid"
| "op_asid (Munmap asid a len b) = asid"
| "op_asid (Brk asid a b) = asid"
| "op_asid (Stack asid sp bos) = asid"

fun op_unmaps :: "mem_op \<Rightarrow> bool" where
  "op_unmaps (Munmap asid a len b) = True"
| "op_unmaps (Brk asid a b) = True"
| "op_unmaps _ = False"

lemma mmap_result:
  assumes "mem_inv s" and "unat (next_ppn_to_allocate s) \<le> 2 ^ 52"
  shows "result_ok (unat asid) False s (notify_mmap asid a len b s)"
  using newmap_result [OF assms, of asid "page_round_down a" "page_round_up len"]
  by (auto simp: notify_mmap_def Let_def result_ok_def)

lemma mem_step_ok:
  assumes "mem_inv s" and "unat (next_ppn_to_allocate s) \<le> 2 ^ 52"
  shows "result_ok (unat (op_asid op)) (op_unmaps op) s (mem_step op s)"
proof (cases op)
  case (Brk asid a b)
  have "result_ok (unat asid) True s (notify_mmap asid x len False s)" for x len
    using mmap_result [OF assms, of asid x len False] step_ok_weaken by (auto simp: result_ok_def)
  moreover have "result_ok (unat asid) True s (notify_munmap asid x len False s)" for x len
    using delmap_result [OF assms(1)] by (simp add: notify_munmap_def)
  moreover have "result_ok (unat asid) True s (map_option (map_sum id (set_brk asid a)) r)" if "result_ok (unat asid) True s r" for r
    using that by (auto simp: result_ok_def)
  moreover have "result_ok (unat asid) True s (Some (Inr s))" using step_ok_refl [OF assms(1)] by (simp add: result_ok_def)
  moreover have "result_ok (unat asid) True s (Some (Inl e))" for e by (simp add: result_ok_def)
  ultimately show ?thesis using Brk by (auto simp: update_brk_def Let_def simp del: map_option_eq_Some option.map)
next
  case (Write asid a)
  then show ?thesis using newmap_result [OF assms] step_ok_refl [OF assms(1)] by (auto simp: notify_write_def result_ok_def)
next
  case (Stack asid sp bos)
  then show ?thesis using newmap_result [OF assms] by (auto simp: map_stack_def Let_def result_ok_def)
qed (use mmap_result [OF assms] delmap_result [OF assms(1)] in \<open>simp_all add: notify_munmap_def\<close>)

lemma mem_reach_inv: "mem_reach s \<Longrightarrow> mem_inv s \<and> unat (next_ppn_to_allocate s) \<le> 2 ^ 52"
proof (induction rule: mem_reach.induct)
  case (init n s)
  then show ?case using mem_init_inv by (auto simp: mem_init_def mem_statics_def checks_Inr_iff)
next
  case (step s op s')
  then show ?case using mem_step_ok [of s op] by (auto simp: result_ok_def step_ok_def)
qed

section \<open>A concrete memory\<close>

text \<open>Two address spaces, after a write to page 5 of the first.\<close>

definition ex_mem :: mem_t where
  "ex_mem = mem_statics\<lparr>num_address_spaces := 2, page_tables := [Map.empty, Map.empty], page_count := [0, 0], brk_point := [0, 0]\<rparr>"

definition ex_mem1 :: mem_t where
  "ex_mem1 = map_page 0 0x6000 (map_page 0 0x5000 ex_mem)"

lemma ex_loop: "page_loop (map_page 0) 0x5000 0x6000 ex_mem = Some ex_mem1"
  by (subst page_loop.simps, simp add: PAGE_SIZE_def, subst page_loop.simps, simp add: PAGE_SIZE_def,
      subst page_loop.simps, simp add: ex_mem1_def)

lemma ex_write: "mem_step (Write 0 0x5000) ex_mem = Some (Inr ex_mem1)"
proof -
  have "page_round_down 0x5000 = 0x5000" "page_offset 0x5000 = 0" "page_round_up (0x5000 + PAGE_SIZE) = 0x6000"
    by (simp_all add: page_round_down_def page_offset_def page_round_up_def page_consts)
  moreover have "\<not> mem_is_mapped 0 0x5000 ex_mem" "asid_ok ex_mem 0"
    by (simp_all add: mem_is_mapped_def ex_mem_def asid_ok_def)
  ultimately show ?thesis using ex_loop by (simp add: notify_write_def mem_newmap_def)
qed

lemma replicate_2: "replicate 2 x = [x, x]"
  by (simp add: numeral_2_eq_2)

lemma ex_mem_reach: "mem_reach ex_mem"
proof (rule mem_reach.init)
  show "mem_init 2 mem_statics = Inr ex_mem"
    by (simp add: mem_init_def checks.simps check_nneg_def ex_mem_def replicate_2)
qed

lemma ex_mem1_vals:
  "mem_is_mapped 0 0x5008 ex_mem1" "mem_is_mapped 0 0x6010 ex_mem1" "asid_ok ex_mem1 0" "asid_ok ex_mem1 1"
  "next_ppn_to_allocate ex_mem1 = 0x102"
  by (simp_all add: ex_mem1_def ex_mem_def mem_statics_def map_page_def mem_is_mapped_def PAGE_SHIFT_def asid_ok_def drop_bit_eq_div)

lemma ex_mem1_reach: "mem_reach ex_mem1"
  by (rule mem_reach.step [OF ex_mem_reach ex_write]) (simp add: ex_mem1_vals)

text \<open>A write to page 4 maps the pages 4 and 5, of which the second is mapped already.\<close>

definition ex_mem2 :: mem_t where
  "ex_mem2 = map_page 0 0x5000 (map_page 0 0x4000 ex_mem1)"

lemma ex_write2: "mem_step (Write 0 0x4000) ex_mem1 = Some (Inr ex_mem2)"
proof -
  have "page_loop (map_page 0) 0x4000 0x5000 ex_mem1 = Some ex_mem2"
    by (subst page_loop.simps, simp add: PAGE_SIZE_def, subst page_loop.simps, simp add: PAGE_SIZE_def,
        subst page_loop.simps, simp add: ex_mem2_def)
  moreover have "page_round_down 0x4000 = 0x4000" "page_offset 0x4000 = 0" "page_round_up (0x4000 + PAGE_SIZE) = 0x5000"
    by (simp_all add: page_round_down_def page_offset_def page_round_up_def page_consts)
  moreover have "\<not> mem_is_mapped 0 0x4000 ex_mem1"
    by (simp add: ex_mem1_def ex_mem_def mem_statics_def map_page_def mem_is_mapped_def PAGE_SHIFT_def drop_bit_eq_div)
  ultimately show ?thesis using ex_mem1_vals(3) by (simp add: notify_write_def mem_newmap_def)
qed

section \<open>Properties\<close>

lemma v2p_mapped:
  assumes "mem_inv s" and "asid_ok s asid" and "mem_is_mapped asid a s"
  shows "\<exists>p. table s (unat asid) (vpn a) = Some p \<and> v2p_translate asid a s = Inr (push_bit 12 p + page_offset a)"
proof -
  have "asid \<noteq> DO_NOT_TRANSLATE" using assms(2) by (auto simp: asid_ok_def DO_NOT_TRANSLATE_def)
  then show ?thesis using assms(2,3) by (auto simp: v2p_translate_def mem_is_mapped_def vpn_def PAGE_SHIFT_def)
qed

lemma split_page:
  assumes "x * 4096 + r = y * 4096 + q" and "r < 4096" and "q < (4096::nat)"
  shows "x = y \<and> r = q"
proof -
  have "x = (x * 4096 + r) div 4096" "y = (y * 4096 + q) div 4096" using assms(2,3) by simp_all
  with assms(1) show ?thesis by simp
qed

lemma paddr_unique:
  assumes "push_bit 12 p + page_offset a = push_bit 12 q + page_offset b" and "unat p < 2 ^ 52" and "unat q < 2 ^ 52"
  shows "p = q \<and> page_offset a = page_offset b"
proof -
  have "unat (push_bit 12 x + page_offset c) = unat x * 4096 + unat (page_offset c)" if "unat x < 2 ^ 52" for x c :: "64 word"
  proof -
    have "unat (page_offset c) < 4096" by (simp add: unat_page_offset)
    then have "unat x * 4096 + unat (page_offset c) < 2 ^ 64" using that by simp
    then show ?thesis by (simp add: push_bit_eq_mult unat_word_ariths mult.commute)
  qed
  then have "unat p * 4096 + unat (page_offset a) = unat q * 4096 + unat (page_offset b)" using assms by metis
  moreover have "unat (page_offset a) < 4096" "unat (page_offset b) < 4096" by (simp_all add: unat_page_offset)
  ultimately have "unat p = unat q \<and> unat (page_offset a) = unat (page_offset b)" by (rule split_page)
  then show ?thesis using word_unat_eq_iff by blast
qed

lemma addr_from_page: "vpn a = vpn b \<Longrightarrow> page_offset a = page_offset b \<Longrightarrow> a = b"
proof -
  assume "vpn a = vpn b" "page_offset a = page_offset b"
  then have "unat a div 4096 = unat b div 4096" "unat a mod 4096 = unat b mod 4096"
    by (metis unat_vpn vpn_def, metis unat_page_offset)
  then show ?thesis by (metis div_mult_mod_eq word_unat_eq_iff)
qed

text \<open>C18: translation is injective: in every reachable memory two mapped addresses, of the same or of
  different address spaces, have the same physical address only if they are the same address of the
  same space. No two processes ever share a physical page.\<close>

theorem v2p_translate_injective:
  assumes "mem_reach s" and "asid_ok s asid" and "asid_ok s asid'" and "mem_is_mapped asid a s" and "mem_is_mapped asid' b s"
    and "v2p_translate asid a s = v2p_translate asid' b s"
  shows "asid = asid' \<and> a = b"
proof -
  have i: "mem_inv s" "unat (next_ppn_to_allocate s) \<le> 2 ^ 52" using mem_reach_inv [OF assms(1)] by auto
  obtain p q where p: "table s (unat asid) (vpn a) = Some p" "v2p_translate asid a s = Inr (push_bit 12 p + page_offset a)"
    and q: "table s (unat asid') (vpn b) = Some q" "v2p_translate asid' b s = Inr (push_bit 12 q + page_offset b)"
    using v2p_mapped [OF i(1)] assms by blast
  have l: "unat asid < unat (num_address_spaces s)" "unat asid' < unat (num_address_spaces s)"
    using asid_less [OF i(1)] assms(2,3) by auto
  have "unat p < unat (next_ppn_to_allocate s)" "unat q < unat (next_ppn_to_allocate s)"
    using i(1) p(1) q(1) l unfolding mem_inv_def by blast+
  then have "p = q" "page_offset a = page_offset b"
    using paddr_unique [of p a q b] p(2) q(2) assms(6) i(2) by auto
  moreover have "unat asid = unat asid' \<and> vpn a = vpn b" if "p = q"
    using i(1) p(1) q(1) l that unfolding mem_inv_def by blast
  ultimately show ?thesis using addr_from_page word_unat_eq_iff by blast
qed

theorem v2p_translate_injective_witness:
  "v2p_translate 0 0x5008 ex_mem1 \<noteq> v2p_translate 0 0x6010 ex_mem1"
  using v2p_translate_injective [OF ex_mem1_reach ex_mem1_vals(3,3,1,2)] by force

text \<open>C19: the page counters are exact: each address space's counter is the number of entries of its page
  table, and the physical page count is their sum.\<close>

theorem page_counts_exact:
  assumes "mem_reach s"
  shows "phys_page_count s = sum_list (map (\<lambda>t. of_nat (card (dom t))) (page_tables s)) \<and>
    page_count s = map (\<lambda>t. of_nat (card (dom t))) (page_tables s)"
proof -
  have i: "mem_inv s" using mem_reach_inv [OF assms] by auto
  then have "page_count s = map (\<lambda>t. of_nat (card (dom t))) (page_tables s)"
    by (intro nth_equalityI) (simp_all add: mem_inv_def)
  then show ?thesis using i by (simp add: mem_inv_def)
qed

theorem page_counts_exact_witness:
  "phys_page_count ex_mem1 = sum_list (map (\<lambda>t. of_nat (card (dom t))) (page_tables ex_mem1))"
  using page_counts_exact [OF ex_mem1_reach] by simp

text \<open>C20: every notification returns from every reachable memory, with an error or a new memory, also for
  ranges that reach or wrap around the end of the address space.\<close>

theorem mem_ops_terminate:
  assumes "mem_reach s"
  shows "mem_step op s \<noteq> None"
  using mem_step_ok [of s op] mem_reach_inv [OF assms] by (auto simp: result_ok_def)

theorem mem_ops_terminate_witness: "mem_step (Mmap 1 0xfffffffffffff000 0x3000 True) ex_mem1 \<noteq> None"
  by (rule mem_ops_terminate [OF ex_mem1_reach])

text \<open>C21: writes, mappings and stacks never change the translation of an address that is mapped, and no
  operation changes the translation of an address of another address space.\<close>

theorem translation_stable:
  assumes "mem_reach s" and "mem_step op s = Some (Inr s')" and "asid_ok s asid"
    and "asid \<noteq> op_asid op \<or> mem_is_mapped asid a s \<and> \<not> op_unmaps op"
  shows "v2p_translate asid a s' = v2p_translate asid a s"
proof -
  have i: "mem_inv s" "unat (next_ppn_to_allocate s) \<le> 2 ^ 52" using mem_reach_inv [OF assms(1)] by auto
  have st: "step_ok (unat (op_asid op)) (op_unmaps op) s s'" using mem_step_ok [OF i, of op] assms(2) by (simp add: result_ok_def)
  have "unat asid < unat (num_address_spaces s)" using asid_less [OF i(1) assms(3)] .
  moreover have "unat asid \<noteq> unat (op_asid op) \<or> table s (unat asid) (vpn a) \<noteq> None \<and> \<not> op_unmaps op"
    using assms(4) by (auto simp: word_unat_eq_iff mem_is_mapped_def vpn_def)
  ultimately have "table s' (unat asid) (vpn a) = table s (unat asid) (vpn a)" using st unfolding step_ok_def by blast
  moreover have "asid_ok s' asid" using st assms(3) by (simp add: step_ok_def asid_ok_def)
  ultimately show ?thesis using assms(3) by (simp add: v2p_translate_def vpn_def)
qed

theorem translation_stable_witness:
  "v2p_translate 0 0x5008 ex_mem2 = v2p_translate 0 0x5008 ex_mem1 \<and>
   v2p_translate 1 0x5008 ex_mem2 = v2p_translate 1 0x5008 ex_mem1"
  using translation_stable [OF ex_mem1_reach ex_write2, of 0 "0x5008"]
    translation_stable [OF ex_mem1_reach ex_write2, of 1 "0x5008"] ex_mem1_vals by simp

lemma round_up_aligned:
  assumes "page_offset x = 0"
  shows "page_round_up x = x"
proof -
  have "unat (x + PAGE_MASK) mod 4096 = (unat x + 4095) mod 4096"
    by (simp add: page_consts unat_word_ariths mod_mod_cancel)
  also have "\<dots> = (unat x mod 4096 + 4095) mod 4096" by (simp add: mod_add_left_eq)
  also have "\<dots> = 4095" using assms by (simp add: offset_0_iff)
  finally have "unat (page_offset (x + PAGE_MASK)) = unat PAGE_MASK" by (simp add: unat_page_offset page_consts)
  then have "page_offset (x + PAGE_MASK) = PAGE_MASK" using word_unat_eq_iff by blast
  then show ?thesis using round_down_offset(1) [of "x + PAGE_MASK"] by (simp add: page_round_up_def page_round_down_def)
qed

text \<open>C22: unmapping a range also unmaps the page that follows it (the loop runs up to and including the end
  of the range): the first byte after the range translates to physical address 0 afterwards.\<close>

theorem munmap_takes_next_page:
  assumes "mem_reach s" and "asid_ok s asid" and "page_offset a = 0" and "page_offset len = 0" and "a \<noteq> 0"
    and "unat a + unat len < 2 ^ 64"
  shows "\<exists>s'. notify_munmap asid a len b s = Some (Inr s') \<and> v2p_translate asid (a + len) s' = Inr 0"
proof -
  have i: "mem_inv s" using mem_reach_inv [OF assms(1)] by auto
  have u: "unat (a + len) = unat a + unat len" using assms(6) by (simp add: unat_word_ariths)
  then have o: "page_offset (a + len) = 0" using assms(3,4) by (simp add: offset_0_iff mod_add_eq [symmetric] del: mod_add_eq)
  have r: "notify_munmap asid a len b s = mem_delmap asid a len s"
    using round_up_aligned [OF assms(3)] by (simp add: notify_munmap_def)
  have "mem_delmap asid a len s \<noteq> Some (Inl e)" for e using assms(2,3) by (simp add: mem_delmap_def)
  then obtain s' where s': "mem_delmap asid a len s = Some (Inr s')"
    "unmaps_pages (unat asid) {x. in_pages a (page_round_up (a + len)) x} s s'"
    using mem_delmap_cases [OF i, of asid a len] by blast
  have "in_pages a (page_round_up (a + len)) (a + len)"
    using round_up_aligned [OF o] assms(5) u o by (simp add: in_pages_def word_le_nat_alt)
  then have "table s' (unat asid) (vpn (a + len)) = None"
    using s'(2) asid_less [OF i assms(2)] by (auto simp: unmaps_pages_def)
  moreover have "asid_ok s' asid" "asid \<noteq> DO_NOT_TRANSLATE"
    using s'(2) assms(2) by (auto simp: unmaps_pages_def asid_ok_def DO_NOT_TRANSLATE_def)
  ultimately show ?thesis using r s'(1) o by (simp add: v2p_translate_def vpn_def)
qed

theorem munmap_takes_next_page_witness:
  "\<exists>s'. notify_munmap 0 0x5000 0x1000 False ex_mem1 = Some (Inr s') \<and> v2p_translate 0 0x6000 s' = Inr 0"
  using munmap_takes_next_page [OF ex_mem1_reach ex_mem1_vals(3), of "0x5000" "0x1000" False]
  by (simp add: page_offset_def page_consts)

end
