(* ===== verification/Cache.thy ===== *)
theory Cache
  imports Cache_Set Memory
begin

text \<open>
  The cache of \<^verbatim>\<open>zesto-cache.cpp\<close> around the array: its configuration, the access pipelines
  (\<^verbatim>\<open>cache_enqueuable\<close>, \<^verbatim>\<open>cache_enqueue\<close>), the fill pipelines (\<^verbatim>\<open>cache_fillable\<close>, \<^verbatim>\<open>cache_fill\<close>,
  \<^verbatim>\<open>cache_process_fills\<close>), the miss status handling registers (\<^verbatim>\<open>MSHR_*\<close>, \<^verbatim>\<open>fill_arrived\<close>) and the
  prefetch filter. The current cycle (\<^verbatim>\<open>cache_get_cycle\<close>) is an argument. Results are options: None is
  a failed assertion, \<^verbatim>\<open>fatal()\<close> or an access outside an array. The occupancy counters are \<^verbatim>\<open>int\<close>s that
  stay between 0 and the size of their array, so they are modelled as mathematical integers.
\<close>

section \<open>State\<close>

record prefetch_filter_t =
  pf_table :: "int list"
  pf_num_entries :: cint
  pf_mask :: cint
  reset_interval :: cint
  last_reset :: int

record cache_t = cache_params +
  banks :: cint
  bank_width :: cint
  bank_shift :: cint
  bank_mask :: md_paddr_t
  latency :: cint
  heap_size :: nat
  write_combining :: bool
  pipe :: "cache_action_t list list"
  pipe_num :: "int list"
  fill_pipe :: "cache_fill_t list list"
  fill_num :: "int list"
  MSHR_banks :: cint
  MSHR_mask :: cint
  MSHR_size :: cint
  MSHR_WB_size :: cint
  MSHR_num :: "int list"
  MSHR_num_pf :: "int list"
  MSHR_fill_num :: "int list"
  MSHR_WB_num :: "int list"
  MSHR_unprocessed_num :: "int list"
  MSHR :: "cache_action_t list list"
  blocks :: "cache_set_t list"
  PF_filter :: "prefetch_filter_t option"
  check_for_work :: bool
  check_for_MSHR_fill_work :: bool
  check_for_fill_work :: bool
  check_for_pipe_work :: bool
  check_for_MSHR_work :: bool
  check_for_MSHR_WB_work :: bool

section \<open>Construction\<close>

text \<open>\<^verbatim>\<open>(int)ceil(log(n)/log(2.0))\<close>, computed exactly: the least power of two that reaches \<open>n\<close>. The rounding
  of the code's \<^verbatim>\<open>double\<close> shows first at \<open>n = 2^29\<close>; for negative numbers the code is undefined.\<close>

fun ceil_log2 :: "nat \<Rightarrow> nat" where
  "ceil_log2 n = (if n \<le> 1 then 0 else Suc (ceil_log2 ((n + 1) div 2)))"

declare ceil_log2.simps [simp del]

definition parse_rp :: "char \<Rightarrow> repl_policy_t option" where
  "parse_rp c =
     (if c \<in> {CHR ''l'', CHR ''L''} then Some REPLACE_LRU
      else if c \<in> {CHR ''m'', CHR ''M''} then Some REPLACE_MRU
      else if c \<in> {CHR ''r'', CHR ''R''} then Some REPLACE_RANDOM
      else if c \<in> {CHR ''n'', CHR ''N''} then Some REPLACE_NMRU
      else if c \<in> {CHR ''p'', CHR ''P''} then Some REPLACE_PLRU
      else if c \<in> {CHR ''c'', CHR ''C''} then Some REPLACE_CLOCK else None)"

definition parse_ap :: "char \<Rightarrow> alloc_policy_t option" where
  "parse_ap c = (if c \<in> {CHR ''w'', CHR ''W''} then Some WRITE_ALLOC
     else if c \<in> {CHR ''n'', CHR ''N''} then Some NO_WRITE_ALLOC else None)"

definition parse_wp :: "char \<Rightarrow> write_policy_t option" where
  "parse_wp c = (if c \<in> {CHR ''t'', CHR ''T''} then Some WRITE_THROUGH
     else if c \<in> {CHR ''b'', CHR ''B''} then Some WRITE_BACK else None)"

definition parse_wc :: "char \<Rightarrow> bool option" where
  "parse_wc c = (if c \<in> {CHR ''c'', CHR ''C''} then Some True
     else if c \<in> {CHR ''n'', CHR ''N''} then Some False else None)"

definition pow2_or_zero :: "cint \<Rightarrow> bool" where
  "pow2_or_zero n \<longleftrightarrow> n AND (n - 1) = 0"

definition fill0 :: cache_fill_t where
  "fill0 = \<lparr>cf_valid = False, cf_paddr = 0, cf_cmd = CACHE_NOP, cf_exit_time = 0, cf_core = None\<rparr>"

definition cache_create ::
  "bool \<Rightarrow> cint \<Rightarrow> cint \<Rightarrow> cint \<Rightarrow> char \<Rightarrow> char \<Rightarrow> char \<Rightarrow> char \<Rightarrow> cint \<Rightarrow> cint \<Rightarrow> cint \<Rightarrow> cint \<Rightarrow> cint \<Rightarrow> cint \<Rightarrow> cache_t option" where
  "cache_create ro n_sets n_assoc lsize rp ap wp wc n_banks bwidth lat msize wbsize mbanks =
     (case (parse_rp rp, parse_ap ap, parse_wp wp, parse_wc wc) of
        (Some r, Some a, Some w, Some comb) \<Rightarrow>
          if (r = REPLACE_PLRU \<and> \<not> pow2_or_zero n_assoc) \<or> (r = REPLACE_CLOCK \<and> 64 <s n_assoc) \<or>
             \<not> pow2_or_zero n_sets \<or> \<not> pow2_or_zero lsize \<or> \<not> pow2_or_zero n_banks \<or> \<not> 0 <s msize - wbsize
          then None
          else
            (let shift = of_nat (ceil_log2 (unat lsize)); hsize = 2 ^ ceil_log2 (unat lat + 1); mb = unat mbanks; nb = unat n_banks in
             Some \<lparr>sets = n_sets, assoc = n_assoc, log2_assoc = of_nat (ceil_log2 (unat n_assoc)), linesize = lsize,
               addr_shift = shift, replacement_policy = r, allocate_policy = a, write_policy = w, read_only = ro,
               banks = n_banks, bank_width = bwidth, bank_shift = shift, bank_mask = scast (n_banks - 1), latency = lat,
               heap_size = hsize, write_combining = comb,
               pipe = replicate nb (replicate hsize action0), pipe_num = replicate nb 0,
               fill_pipe = replicate nb (replicate hsize fill0), fill_num = replicate nb 0,
               MSHR_banks = mbanks, MSHR_mask = mbanks - 1, MSHR_size = msize, MSHR_WB_size = wbsize,
               MSHR_num = replicate mb 0, MSHR_num_pf = replicate mb 0, MSHR_fill_num = replicate mb 0,
               MSHR_WB_num = replicate mb 0, MSHR_unprocessed_num = replicate mb 0,
               MSHR = replicate mb (replicate (unat msize) action0),
               blocks = replicate (unat n_sets) (cache_set_create (unat n_assoc)), PF_filter = None,
               check_for_work = True, check_for_MSHR_fill_work = True, check_for_fill_work = False,
               check_for_pipe_work = False, check_for_MSHR_work = False, check_for_MSHR_WB_work = False\<rparr>)
      | _ \<Rightarrow> None)"

section \<open>Banks\<close>

definition GET_BANK :: "cache_t \<Rightarrow> md_paddr_t \<Rightarrow> nat" where
  "GET_BANK cp x = unat (drop_bit (unat (bank_shift cp)) x AND bank_mask cp)"

definition GET_MSHR_BANK :: "cache_t \<Rightarrow> md_paddr_t \<Rightarrow> nat" where
  "GET_MSHR_BANK cp x = unat (drop_bit (unat (bank_shift cp)) x AND scast (MSHR_mask cp))"

definition upd :: "'a list \<Rightarrow> nat \<Rightarrow> ('a \<Rightarrow> 'a) \<Rightarrow> 'a list" where
  "upd xs i f = xs[i := f (xs ! i)]"

text \<open>A failed assertion gives no result.\<close>

definition checked :: "bool \<Rightarrow> 'a \<Rightarrow> 'a option" where
  "checked ok v = (if ok then Some v else None)"

section \<open>Access pipeline\<close>

definition cache_enqueuable :: "mem_t \<Rightarrow> cache_t \<Rightarrow> cint \<Rightarrow> md_paddr_t \<Rightarrow> bool option" where
  "cache_enqueuable mem cp asid addr =
     (case v2p_translate asid addr mem of Inl _ \<Rightarrow> None
      | Inr pa \<Rightarrow> Some (pipe_num cp ! GET_BANK cp pa < sint (latency cp)))"

text \<open>The entry the request writes; \<^verbatim>\<open>op\<close> and the callbacks are identifiers.\<close>

record request =
  rq_core :: "nat option"
  rq_prev_cp :: "nat option"
  rq_cmd :: cache_command
  rq_PC :: md_addr_t
  rq_action_id :: seq_t
  rq_MSHR_bank :: cint
  rq_MSHR_index :: cint
  rq_op :: "nat option"
  rq_cb :: "nat option"
  rq_miss_cb :: "nat option"
  rq_translated_cb :: "nat option"
  rq_get_action_id :: "nat option"
  rq_prefetcher_hint :: bool

definition write_action :: "cache_t \<Rightarrow> tick_t \<Rightarrow> request \<Rightarrow> md_paddr_t \<Rightarrow> cache_action_t \<Rightarrow> cache_action_t" where
  "write_action cp cycle rq pa e =
     e\<lparr>ca_core := rq_core rq, prev_cp := rq_prev_cp rq, ca_cmd := rq_cmd rq, ca_PC := rq_PC rq, ca_paddr := pa,
       ca_op := rq_op rq, action_id := rq_action_id rq, MSHR_bank := rq_MSHR_bank rq, MSHR_index := rq_MSHR_index rq,
       cb := rq_cb rq, miss_cb := rq_miss_cb rq, translated_cb := rq_translated_cb rq, get_action_id := rq_get_action_id rq,
       when_started := cycle, when_returned := TICK_T_MAX, mtype := MSHR_MISS, prefetcher_hint := rq_prefetcher_hint rq,
       pipe_exit_time := cycle + scast (latency cp), miss_cb_invoked := False\<rparr>"

definition cache_enqueue :: "mem_t \<Rightarrow> tick_t \<Rightarrow> request \<Rightarrow> cint \<Rightarrow> md_paddr_t \<Rightarrow> cache_t \<Rightarrow> cache_t option" where
  "cache_enqueue mem cycle rq asid addr cp =
     (case v2p_translate asid addr mem of Inl _ \<Rightarrow> None
      | Inr pa \<Rightarrow>
          (let bank = GET_BANK cp pa; insert_position = nat (pipe_num cp ! bank + 1) in
           if length (pipe cp ! bank) \<le> insert_position \<or> cb (pipe cp ! bank ! insert_position) \<noteq> None \<or> rq_cb rq = None \<or>
              \<not> insert_position < heap_size cp
           then None
           else Some (cp\<lparr>pipe := upd (pipe cp) bank
                            (\<lambda>p. cache_heap_balance (upd p insert_position (write_action cp cycle rq pa)) insert_position),
                         pipe_num := upd (pipe_num cp) bank (\<lambda>n. n + 1),
                         check_for_work := True, check_for_pipe_work := True\<rparr>)))"

text \<open>The root of the heap leaves the pipeline (in \<^verbatim>\<open>cache_process_pipe\<close>).\<close>

definition pipe_dequeue :: "nat \<Rightarrow> cache_t \<Rightarrow> cache_t option" where
  "pipe_dequeue bank c =
     (let c = c\<lparr>pipe := upd (pipe c) bank (\<lambda>p. cache_heap_remove p (nat (pipe_num c ! bank))),
                pipe_num := upd (pipe_num c) bank (\<lambda>n. n - 1)\<rparr>
      in checked (0 \<le> pipe_num c ! bank) c)"

section \<open>Fill pipeline\<close>

definition cache_fillable :: "cache_t \<Rightarrow> md_paddr_t \<Rightarrow> bool" where
  "cache_fillable cp pa \<longleftrightarrow> fill_num cp ! GET_BANK cp pa < sint (latency cp)"

definition cache_fill :: "tick_t \<Rightarrow> cache_command \<Rightarrow> md_paddr_t \<Rightarrow> nat option \<Rightarrow> cache_t \<Rightarrow> cache_t option" where
  "cache_fill cycle cmd pa core cp =
     (let bank = GET_BANK cp pa; insert_position = nat (fill_num cp ! bank + 1) in
      if length (fill_pipe cp ! bank) \<le> insert_position \<or> cf_valid (fill_pipe cp ! bank ! insert_position) \<or>
         \<not> insert_position < heap_size cp \<or> \<not> fill_num cp ! bank + 1 \<le> sint (latency cp)
      then None
      else Some (cp\<lparr>fill_pipe := upd (fill_pipe cp) bank
                       (\<lambda>p. fill_heap_balance
                          (upd p insert_position (\<lambda>e. e\<lparr>cf_valid := True, cf_cmd := cmd, cf_paddr := pa, cf_core := core,
                             cf_exit_time := cycle + scast (latency cp)\<rparr>)) insert_position),
                    fill_num := upd (fill_num cp) bank (\<lambda>n. n + 1),
                    check_for_work := True, check_for_fill_work := True\<rparr>))"

section \<open>Miss status handling registers\<close>

definition MSHR_available :: "cache_t \<Rightarrow> md_paddr_t \<Rightarrow> bool" where
  "MSHR_available cp pa \<longleftrightarrow> MSHR_num cp ! GET_MSHR_BANK cp pa < sint (MSHR_size cp) - sint (MSHR_WB_size cp)"

definition MSHR_WB_available :: "cache_t \<Rightarrow> md_paddr_t \<Rightarrow> bool" where
  "MSHR_WB_available cp pa \<longleftrightarrow> MSHR_WB_num cp ! GET_MSHR_BANK cp pa < sint (MSHR_WB_size cp)"

text \<open>The first free entry of the bank. Combining is commented out in the source, so \<^verbatim>\<open>prev\<close> is always
  \<^verbatim>\<open>NULL\<close> and the entry is not linked.\<close>

definition MSHR_allocate :: "md_paddr_t \<Rightarrow> cache_t \<Rightarrow> (nat \<times> cache_t) option" where
  "MSHR_allocate pa cp =
     (let bank = GET_MSHR_BANK cp pa in
      case find (\<lambda>i. cb (MSHR cp ! bank ! i) = None) [0 ..< unat (MSHR_size cp)] of
        None \<Rightarrow> None
      | Some i \<Rightarrow>
          if MSHR_link (MSHR cp ! bank ! i) \<noteq> None then None
          else Some (i, cp\<lparr>check_for_work := True, check_for_MSHR_work := True, check_for_MSHR_WB_work := True,
                 MSHR := upd (MSHR cp) bank (\<lambda>m. upd m i (\<lambda>e. e\<lparr>MSHR_link := None, MSHR_linked := False\<rparr>))\<rparr>))"

definition MSHR_deallocate :: "md_paddr_t \<Rightarrow> nat \<Rightarrow> cache_t \<Rightarrow> cache_t option" where
  "MSHR_deallocate pa i cp =
     (let bank = GET_MSHR_BANK cp pa; e = MSHR cp ! bank ! i;
          cp1 = cp\<lparr>MSHR := upd (MSHR cp) bank (\<lambda>m. upd m i (\<lambda>e. e\<lparr>cb := None\<rparr>))\<rparr>;
          cp2 = (if mtype e = MSHR_WRITEBACK then cp1\<lparr>MSHR_WB_num := upd (MSHR_WB_num cp1) bank (\<lambda>n. n - 1)\<rparr>
                 else cp1\<lparr>MSHR_num := upd (MSHR_num cp1) bank (\<lambda>n. n - 1)\<rparr>);
          cp3 = (if ca_cmd e = CACHE_PREFETCH then cp2\<lparr>MSHR_num_pf := upd (MSHR_num_pf cp2) bank (\<lambda>n. n - 1)\<rparr> else cp2);
          cp4 = (if mtype e = MSHR_MISS then cp3\<lparr>MSHR_fill_num := upd (MSHR_fill_num cp3) bank (\<lambda>n. n - 1)\<rparr> else cp3)
      in checked (cb e \<noteq> None \<and> 0 \<le> MSHR_WB_num cp4 ! bank \<and> 0 \<le> MSHR_num cp4 ! bank \<and>
           (ca_cmd e = CACHE_PREFETCH \<longrightarrow> 0 \<le> MSHR_num_pf cp4 ! bank) \<and> 0 \<le> MSHR_fill_num cp4 ! bank) cp4)"

text \<open>The identifier of \<^verbatim>\<open>dummy_callback\<close>.\<close>

definition dummy_callback :: nat where "dummy_callback = 0"

definition MSHR_WB_insert :: "tick_t \<Rightarrow> nat \<Rightarrow> cache_line_t \<Rightarrow> cache_t \<Rightarrow> cache_t option" where
  "MSHR_WB_insert cycle self line cp =
     (let new_addr = push_bit (unat (addr_shift cp)) (tag line) in
      case MSHR_allocate new_addr cp of None \<Rightarrow> None
      | Some (i, cp) \<Rightarrow>
          (let bank = GET_MSHR_BANK cp new_addr;
               cp = cp\<lparr>MSHR_WB_num := upd (MSHR_WB_num cp) bank (\<lambda>n. n + 1)\<rparr>;
               cp = cp\<lparr>MSHR := upd (MSHR cp) bank (\<lambda>m. upd m i (\<lambda>e.
                  e\<lparr>ca_core := cl_core line, ca_op := None, ca_PC := 0, ca_paddr := new_addr, mtype := MSHR_WRITEBACK,
                    MSHR_bank := of_nat bank, MSHR_index := of_nat i, miss_cb_invoked := False, ca_cmd := CACHE_WRITEBACK,
                    prev_cp := Some self, cb := Some dummy_callback, miss_cb := None, translated_cb := None,
                    get_action_id := None, when_enqueued := cycle, when_started := TICK_T_MAX, when_returned := TICK_T_MAX,
                    pipe_exit_time := TICK_T_MAX\<rparr>)), check_for_work := True, check_for_MSHR_WB_work := True\<rparr>
           in checked (MSHR_WB_num cp ! bank \<le> sint (MSHR_WB_size cp)) cp))"

text \<open>The counter of prefetches is indexed by the bank stored in the request, which for a request of a
  lower level is a bank of that level.\<close>

definition MSHR_insert :: "tick_t \<Rightarrow> cache_action_t \<Rightarrow> cache_t \<Rightarrow> cache_t option" where
  "MSHR_insert cycle ca cp =
     (case MSHR_allocate (ca_paddr ca) cp of None \<Rightarrow> None
      | Some (i, cp) \<Rightarrow>
          (let bank = GET_MSHR_BANK cp (ca_paddr ca); pf = unat (MSHR_bank ca);
               linked = MSHR_linked (MSHR cp ! bank ! i);
               cp = cp\<lparr>MSHR := upd (MSHR cp) bank (\<lambda>m. m[i := ca\<lparr>mtype := MSHR_MISS, when_enqueued := cycle,
                       when_started := (if linked then cycle else TICK_T_MAX), when_returned := TICK_T_MAX, MSHR_linked := linked\<rparr>]),
                       MSHR_num := upd (MSHR_num cp) bank (\<lambda>n. n + 1)\<rparr>;
               cp = (if linked then cp else cp\<lparr>MSHR_unprocessed_num := upd (MSHR_unprocessed_num cp) bank (\<lambda>n. n + 1)\<rparr>);
               cp = cp\<lparr>MSHR_fill_num := upd (MSHR_fill_num cp) bank (\<lambda>n. n + 1)\<rparr>;
               cp = (if ca_cmd ca = CACHE_PREFETCH then cp\<lparr>MSHR_num_pf := upd (MSHR_num_pf cp) pf (\<lambda>n. n + 1)\<rparr> else cp)
           in checked (MSHR_num cp ! bank \<le> sint (MSHR_size cp) - sint (MSHR_WB_size cp) \<and>
                MSHR_unprocessed_num cp ! bank \<le> sint (MSHR_size cp) \<and> MSHR_fill_num cp ! bank \<le> sint (MSHR_size cp) \<and>
                (ca_cmd ca = CACHE_PREFETCH \<longrightarrow> pf < length (MSHR_num_pf cp) \<and> MSHR_num_pf cp ! pf \<le> sint (MSHR_size cp))) cp))"

text \<open>Without combining the chain of linked entries is empty.\<close>

definition fill_arrived :: "tick_t \<Rightarrow> nat \<Rightarrow> cint \<Rightarrow> tick_t \<Rightarrow> cache_t \<Rightarrow> cache_t option" where
  "fill_arrived cycle bank index delay cp =
     (if sint index < 0 \<or> sint (MSHR_size cp) \<le> sint index then None
      else
        (let e = MSHR cp ! bank ! unat index in
         if MSHR_linked e \<or> MSHR_link e \<noteq> None then None
         else Some (cp\<lparr>check_for_work := True, check_for_MSHR_fill_work := True, check_for_MSHR_WB_work := True,
           MSHR := upd (MSHR cp) bank (\<lambda>m. upd m (unat index) (\<lambda>e.
             if cb e \<noteq> None then e\<lparr>when_returned := cycle + delay\<rparr> else e))\<rparr>)))"

section \<open>Scheduling of the registers\<close>

text \<open>The scan for the oldest eligible entry, as \<^verbatim>\<open>cache_process_MSHR_WB\<close>, \<^verbatim>\<open>cache_process_MSHR_fill\<close> and
  \<^verbatim>\<open>cache_process_MSHR\<close> write it: \<^verbatim>\<open>if(ok && when_enqueued < oldest) { oldest = when_enqueued; index = i; }\<close>.\<close>

fun oldest_loop :: "(cache_action_t \<Rightarrow> bool) \<Rightarrow> cache_action_t list \<Rightarrow> nat \<Rightarrow> int \<Rightarrow> nat option \<Rightarrow> nat option" where
  "oldest_loop ok [] i oldest index = index"
| "oldest_loop ok (e # es) i oldest index =
     (if ok e \<and> sint (when_enqueued e) < oldest then oldest_loop ok es (Suc i) (sint (when_enqueued e)) (Some i)
      else oldest_loop ok es (Suc i) oldest index)"

definition MSHR_oldest :: "(cache_action_t \<Rightarrow> bool) \<Rightarrow> cache_action_t list \<Rightarrow> nat option" where
  "MSHR_oldest ok es = oldest_loop ok es 0 (sint TICK_T_MAX) None"

text \<open>\<^verbatim>\<open>MSHR->when_started = cycle\<close>, set by the controller when it has sent the request.\<close>

definition mark_started :: "tick_t \<Rightarrow> nat \<Rightarrow> nat \<Rightarrow> cache_t \<Rightarrow> cache_t" where
  "mark_started cycle bank i cp =
     cp\<lparr>MSHR := upd (MSHR cp) bank (\<lambda>m. upd m i (\<lambda>e. e\<lparr>when_started := cycle\<rparr>))\<rparr>"

text \<open>One bank of \<^verbatim>\<open>cache_process_MSHR\<close> in first-come first-served order. \<open>translated\<close> is the answer of
  \<^verbatim>\<open>translated_cb\<close>, \<open>sent\<close> that of \<^verbatim>\<open>send_request_upstream\<close>.\<close>

definition miss_ready :: "(cache_action_t \<Rightarrow> bool) \<Rightarrow> cache_action_t \<Rightarrow> bool" where
  "miss_ready translated e \<longleftrightarrow> mtype e \<noteq> MSHR_WRITEBACK \<and> cb e \<noteq> None \<and> when_started e = TICK_T_MAX \<and>
     (translated_cb e = None \<or> translated e)"

definition MSHR_send :: "tick_t \<Rightarrow> (cache_action_t \<Rightarrow> bool) \<Rightarrow> bool \<Rightarrow> nat \<Rightarrow> cache_t \<Rightarrow> cache_t option" where
  "MSHR_send cycle translated sent bank cp =
     (if MSHR_num cp ! bank \<noteq> 0 \<and> 0 < MSHR_unprocessed_num cp ! bank
      then (case MSHR_oldest (miss_ready translated) (MSHR cp ! bank) of
              None \<Rightarrow> Some cp
            | Some i \<Rightarrow>
                if sent
                then (let cp = mark_started cycle bank i cp;
                          cp = cp\<lparr>MSHR_unprocessed_num := upd (MSHR_unprocessed_num cp) bank (\<lambda>n. n - 1)\<rparr>
                      in checked (0 \<le> MSHR_unprocessed_num cp ! bank) cp)
                else Some cp)
      else Some cp)"

text \<open>One bank of \<^verbatim>\<open>cache_process_MSHR_WB\<close>: send the oldest write-back; then drop the answered ones.\<close>

definition MSHR_WB_send :: "tick_t \<Rightarrow> bool \<Rightarrow> nat \<Rightarrow> cache_t \<Rightarrow> cache_t" where
  "MSHR_WB_send cycle sent bank cp =
     (if MSHR_WB_num cp ! bank \<noteq> 0
      then (case MSHR_oldest (\<lambda>e. cb e \<noteq> None \<and> mtype e = MSHR_WRITEBACK \<and> when_started e = TICK_T_MAX) (MSHR cp ! bank) of
              None \<Rightarrow> cp | Some i \<Rightarrow> if sent then mark_started cycle bank i cp else cp)
      else cp)"

definition WB_done :: "tick_t \<Rightarrow> cache_action_t \<Rightarrow> bool" where
  "WB_done cycle e \<longleftrightarrow> cb e \<noteq> None \<and> mtype e = MSHR_WRITEBACK \<and> when_started e \<noteq> TICK_T_MAX \<and> when_returned e \<le>s cycle"

fun MSHR_WB_drop :: "tick_t \<Rightarrow> nat \<Rightarrow> nat list \<Rightarrow> cache_t \<Rightarrow> cache_t option" where
  "MSHR_WB_drop cycle bank [] cp = Some cp"
| "MSHR_WB_drop cycle bank (j # js) cp =
     (if WB_done cycle (MSHR cp ! bank ! j)
      then (case MSHR_deallocate (ca_paddr (MSHR cp ! bank ! j)) j cp of None \<Rightarrow> None
            | Some cp \<Rightarrow> MSHR_WB_drop cycle bank js cp)
      else MSHR_WB_drop cycle bank js cp)"

section \<open>Prefetch filter\<close>

definition prefetch_filter_create :: "cint \<Rightarrow> cint \<Rightarrow> cache_t \<Rightarrow> cache_t" where
  "prefetch_filter_create n ri cp =
     (if n = 0 then cp
      else cp\<lparr>PF_filter := Some \<lparr>pf_table = replicate (unat n) 3, pf_num_entries = n, pf_mask = n - 1, reset_interval = ri,
                               last_reset = 0\<rparr>\<rparr>)"

text \<open>A reset divides by its interval; the remainder of a non-negative cycle does not depend on the sign
  of the divisor.\<close>

definition filter_reset :: "int \<Rightarrow> prefetch_filter_t \<Rightarrow> prefetch_filter_t option" where
  "filter_reset cycle p = checked (reset_interval p \<noteq> 0)
     (p\<lparr>pf_table := replicate (unat (pf_num_entries p)) 3, last_reset := cycle - cycle mod \<bar>sint (reset_interval p)\<bar>\<rparr>)"

definition prefetch_filter_lookup :: "int \<Rightarrow> md_paddr_t \<Rightarrow> prefetch_filter_t \<Rightarrow> (bool \<times> prefetch_filter_t) option" where
  "prefetch_filter_lookup cycle addr p =
     (if last_reset p + sint (reset_interval p) \<le> cycle then map_option (Pair True) (filter_reset cycle p)
      else Some (2 \<le> pf_table p ! unat (pc_mask addr (pf_mask p)), p))"

definition prefetch_filter_update :: "int \<Rightarrow> md_paddr_t \<Rightarrow> bool \<Rightarrow> prefetch_filter_t \<Rightarrow> prefetch_filter_t option" where
  "prefetch_filter_update cycle addr useful p =
     (let i = unat (pc_mask addr (pf_mask p)) in
      map_option (\<lambda>p. if useful then (if pf_table p ! i < 3 then p\<lparr>pf_table := upd (pf_table p) i (\<lambda>n. n + 1)\<rparr> else p)
                      else (if 0 < pf_table p ! i then p\<lparr>pf_table := upd (pf_table p) i (\<lambda>n. n - 1)\<rparr> else p))
        (if last_reset p + sint (reset_interval p) < cycle then filter_reset cycle p else Some p))"

section \<open>Returned requests and fills\<close>

text \<open>The commands whose blocks enter the array, in \<^verbatim>\<open>cache_process_MSHR_fill\<close>.\<close>

definition fills_array :: "cache_t \<Rightarrow> cache_command \<Rightarrow> bool" where
  "fills_array cp cmd \<longleftrightarrow> cmd = CACHE_READ \<or> cmd = CACHE_PREFETCH \<or> (writes cmd \<and> allocate_policy cp = WRITE_ALLOC)"

text \<open>The look-up of an address in the array: its set, and the search of the set.\<close>

definition set_index :: "cache_t \<Rightarrow> md_paddr_t \<Rightarrow> nat" where
  "set_index c a = unat (pc_mask (drop_bit (unat (addr_shift c)) a) (sets c - 1))"

definition cache_is_hit :: "bool option \<Rightarrow> cache_command \<Rightarrow> md_paddr_t \<Rightarrow> cache_t \<Rightarrow> (nat option \<times> cache_t) option" where
  "cache_is_hit magic cmnd a c =
     (let i = set_index c a in
      map_option (\<lambda>(line, s). (line, c\<lparr>blocks := (blocks c)[i := s]\<rparr>))
        (set_is_hit (cache_params.truncate c) magic cmnd (drop_bit (unat (addr_shift c)) a) (blocks c ! i)))"

text \<open>One bank of \<^verbatim>\<open>cache_process_fills\<close>: the root of the fill heap, when its time has come, takes the
  place of the evictee, whose block is written back if it is dirty and a register is available.\<close>

definition fill_done :: "nat \<Rightarrow> cache_t \<Rightarrow> cache_t option" where
  "fill_done bank cp =
     (let cp = cp\<lparr>fill_pipe := upd (fill_pipe cp) bank (\<lambda>p. fill_heap_remove p (nat (fill_num cp ! bank))),
                   fill_num := upd (fill_num cp) bank (\<lambda>n. n - 1)\<rparr>
      in checked (0 \<le> fill_num cp ! bank) cp)"

definition fill_victim :: "tick_t \<Rightarrow> nat \<Rightarrow> cache_line_t \<Rightarrow> cache_t \<Rightarrow> cache_t option" where
  "fill_victim cycle self p cp =
     (case (if valid p \<and> dirty p \<and> write_policy cp = WRITE_BACK then MSHR_WB_insert cycle self p cp else Some cp) of
        None \<Rightarrow> None
      | Some cp \<Rightarrow>
          (case PF_filter cp of
             Some f \<Rightarrow> if prefetched p
               then map_option (\<lambda>f. cp\<lparr>PF_filter := Some f\<rparr>) (prefetch_filter_update (sint cycle) (tag p) (prefetch_used p) f)
               else Some cp
           | None \<Rightarrow> Some cp))"

definition fill_replace :: "tick_t \<Rightarrow> nat \<Rightarrow> nat \<Rightarrow> nat \<Rightarrow> cache_fill_t \<Rightarrow> cache_t \<Rightarrow> cache_t option" where
  "fill_replace cycle r self bank cf cp =
     (let block = drop_bit (unat (addr_shift cp)) (cf_paddr cf); i = set_index cp (cf_paddr cf); c = cache_params.truncate cp in
      case set_get_evictee c r (blocks cp ! i) of
        Some (Some x, s) \<Rightarrow>
          (let cp = cp\<lparr>blocks := (blocks cp)[i := s]\<rparr>; p = lines s ! x;
               must_write = (valid p \<and> dirty p \<and> write_policy cp = WRITE_BACK) in
           if must_write \<and> \<not> MSHR_WB_available cp (push_bit (unat (addr_shift cp)) (tag p)) then Some cp
           else (case fill_victim cycle self p cp of
                   None \<Rightarrow> None
                 | Some cp \<Rightarrow>
                     (case set_insert_block c (cf_cmd cf) block (cf_core cf) (upd_line x (\<lambda>l. l\<lparr>valid := False, dirty := False\<rparr>) s) of
                        None \<Rightarrow> None
                      | Some s' \<Rightarrow> fill_done bank (cp\<lparr>blocks := (blocks cp)[i := s']\<rparr>))))
      | _ \<Rightarrow> None)"

definition cache_process_fill :: "tick_t \<Rightarrow> nat \<Rightarrow> nat \<Rightarrow> nat \<Rightarrow> cache_t \<Rightarrow> cache_t option" where
  "cache_process_fill cycle r self bank cp =
     (let cf = fill_pipe cp ! bank ! 1 in
      if fill_num cp ! bank = 0 \<or> \<not> (cf_valid cf \<and> cf_exit_time cf \<le>s cycle) then Some cp
      else case set_peek (drop_bit (unat (addr_shift cp)) (cf_paddr cf)) (blocks cp ! set_index cp (cf_paddr cf)) of
             None \<Rightarrow> None
           | Some (Some _) \<Rightarrow> fill_done bank cp
           | Some None \<Rightarrow> fill_replace cycle r self bank cf cp)"

end
