(* ===== verification/Cache_Mshr.thy ===== *)
theory Cache_Mshr
  imports Cache
begin

text \<open>
  The miss status handling registers of a cache: in every state that misses, write-backs, sent and
  returned requests can reach, the occupancy counters count the occupied registers, a request that
  was announced by \<^verbatim>\<open>MSHR_available\<close> or \<^verbatim>\<open>MSHR_WB_available\<close> finds a free one, and every assertion of the
  register code holds. The scan for the oldest request is shown to be first-come first-served.
\<close>

section \<open>Counting registers\<close>

definition cnt :: "('a \<Rightarrow> bool) \<Rightarrow> 'a list \<Rightarrow> int" where
  "cnt P xs = int (length (filter P xs))"

lemma cnt_update:
  "i < length xs \<Longrightarrow> cnt P (xs[i := v]) = cnt P xs - of_bool (P (xs ! i)) + of_bool (P v)"
proof (induction xs arbitrary: i)
  case (Cons x xs)
  then show ?case by (cases i) (auto simp: cnt_def)
qed simp

lemma cnt_nneg [simp]: "0 \<le> cnt P xs" by (simp add: cnt_def)

lemma cnt_pos: "i < length xs \<Longrightarrow> P (xs ! i) \<Longrightarrow> 1 \<le> cnt P xs"
  using cnt_update [of i xs P "xs ! i"] unfolding cnt_def
  by (metis filter_empty_conv int_one_le_iff_zero_less length_greater_0_conv nth_mem of_nat_0_less_iff)

lemma cnt_le: "cnt P xs \<le> int (length xs)" by (simp add: cnt_def)

lemma cnt_mono: "(\<And>x. x \<in> set xs \<Longrightarrow> P x \<Longrightarrow> Q x) \<Longrightarrow> cnt P xs \<le> cnt Q xs"
  unfolding cnt_def by (induction xs) (auto simp: le_Suc_eq)

definition occ :: "cache_action_t \<Rightarrow> bool" where "occ e \<longleftrightarrow> cb e \<noteq> None"
definition is_miss :: "cache_action_t \<Rightarrow> bool" where "is_miss e \<longleftrightarrow> occ e \<and> mtype e = MSHR_MISS"
definition is_wb :: "cache_action_t \<Rightarrow> bool" where "is_wb e \<longleftrightarrow> occ e \<and> mtype e = MSHR_WRITEBACK"
definition unsent :: "cache_action_t \<Rightarrow> bool" where "unsent e \<longleftrightarrow> is_miss e \<and> when_started e = TICK_T_MAX"
definition is_pf :: "cache_action_t \<Rightarrow> bool" where "is_pf e \<longleftrightarrow> occ e \<and> ca_cmd e = CACHE_PREFETCH"

lemmas kinds = occ_def is_miss_def is_wb_def unsent_def is_pf_def

lemma cnt_occ: "cnt occ m = cnt is_miss m + cnt is_wb m"
  unfolding cnt_def
proof (induction m)
  case (Cons e m)
  then show ?case by (cases "mtype e") (auto simp: is_miss_def is_wb_def)
qed simp

lemma free_exists: "cnt occ m < int (length m) \<Longrightarrow> \<exists>i < length m. cb (m ! i) = None"
proof (rule ccontr)
  assume "cnt occ m < int (length m)" and "\<not> (\<exists>i < length m. cb (m ! i) = None)"
  then have "filter occ m = m" by (intro filter_True) (auto simp: in_set_conv_nth occ_def)
  then show False using \<open>cnt occ m < int (length m)\<close> by (simp add: cnt_def)
qed

section \<open>The invariant\<close>

definition entry_ok :: "(md_paddr_t \<Rightarrow> nat) \<Rightarrow> nat \<Rightarrow> cache_action_t \<Rightarrow> bool" where
  "entry_ok gb b e \<longleftrightarrow> MSHR_link e = None \<and> \<not> MSHR_linked e \<and>
     (occ e \<longrightarrow> gb (ca_paddr e) = b \<and> (when_returned e \<noteq> TICK_T_MAX \<longrightarrow> when_started e \<noteq> TICK_T_MAX) \<and>
        (mtype e = MSHR_WRITEBACK \<longrightarrow> ca_cmd e = CACHE_WRITEBACK))"

definition bank_ok :: "cache_t \<Rightarrow> nat \<Rightarrow> bool" where
  "bank_ok cp b \<longleftrightarrow>
     (let m = MSHR cp ! b in
      length m = unat (MSHR_size cp) \<and> MSHR_num cp ! b = cnt is_miss m \<and> MSHR_WB_num cp ! b = cnt is_wb m \<and>
      MSHR_fill_num cp ! b = cnt is_miss m \<and> MSHR_unprocessed_num cp ! b = cnt unsent m \<and> MSHR_num_pf cp ! b = cnt is_pf m \<and>
      cnt is_miss m \<le> sint (MSHR_size cp) - sint (MSHR_WB_size cp) \<and> cnt is_wb m \<le> sint (MSHR_WB_size cp) \<and>
      list_all (entry_ok (GET_MSHR_BANK cp) b) m)"

definition static_ok :: "cache_t \<Rightarrow> bool" where
  "static_ok cp \<longleftrightarrow> (let n = unat (MSHR_banks cp) in
     0 < n \<and> n < 2 ^ 31 \<and> MSHR_mask cp = MSHR_banks cp - 1 \<and> 0 \<le> sint (MSHR_WB_size cp) \<and>
     sint (MSHR_size cp) = int (unat (MSHR_size cp)) \<and>
     length (MSHR cp) = n \<and> length (MSHR_num cp) = n \<and> length (MSHR_WB_num cp) = n \<and> length (MSHR_fill_num cp) = n \<and>
     length (MSHR_unprocessed_num cp) = n \<and> length (MSHR_num_pf cp) = n)"

definition mshr_inv :: "cache_t \<Rightarrow> bool" where
  "mshr_inv cp \<longleftrightarrow> static_ok cp \<and> (\<forall>b < unat (MSHR_banks cp). bank_ok cp b)"

lemma length_upd [simp]: "length (upd xs i f) = length xs" by (simp add: upd_def)

lemma upd_nth [simp]: "i < length xs \<Longrightarrow> upd xs i f ! j = (if j = i then f (xs ! i) else xs ! j)"
  by (simp add: upd_def nth_list_update)

lemma GET_MSHR_BANK_less:
  assumes "static_ok cp"
  shows "GET_MSHR_BANK cp pa < unat (MSHR_banks cp)"
proof -
  have "unat (MSHR_banks cp - 1) < 2 ^ 31" "unat (MSHR_banks cp - 1) < unat (MSHR_banks cp)"
    using assms mask_less [of "MSHR_banks cp" "-1"] by (auto simp: static_ok_def Let_def word_less_nat_alt unat_gt_0)
  then have "unat (scast (MSHR_banks cp - 1) :: 64 word) < unat (MSHR_banks cp)" by (simp add: scast_nneg)
  moreover have "GET_MSHR_BANK cp pa \<le> unat (scast (MSHR_banks cp - 1) :: 64 word)"
    using assms unat_and_le by (simp add: GET_MSHR_BANK_def static_ok_def Let_def)
  ultimately show ?thesis by simp
qed

text \<open>A step that changes bank \<open>b\<close> only keeps the invariant if it keeps it for \<open>b\<close>.\<close>

definition touches_bank :: "nat \<Rightarrow> cache_t \<Rightarrow> cache_t \<Rightarrow> bool" where
  "touches_bank b cp cp' \<longleftrightarrow> MSHR_banks cp' = MSHR_banks cp \<and> MSHR_mask cp' = MSHR_mask cp \<and> MSHR_size cp' = MSHR_size cp \<and>
     MSHR_WB_size cp' = MSHR_WB_size cp \<and> bank_shift cp' = bank_shift cp \<and>
     (\<forall>b'. b' \<noteq> b \<longrightarrow> MSHR cp' ! b' = MSHR cp ! b' \<and> MSHR_num cp' ! b' = MSHR_num cp ! b' \<and> MSHR_WB_num cp' ! b' = MSHR_WB_num cp ! b' \<and>
        MSHR_fill_num cp' ! b' = MSHR_fill_num cp ! b' \<and> MSHR_unprocessed_num cp' ! b' = MSHR_unprocessed_num cp ! b' \<and>
        MSHR_num_pf cp' ! b' = MSHR_num_pf cp ! b')"

lemma mshr_inv_step:
  assumes "mshr_inv cp" and "touches_bank b cp cp'" and "static_ok cp'" and "bank_ok cp' b"
  shows "mshr_inv cp'"
proof -
  have g: "GET_MSHR_BANK cp' = GET_MSHR_BANK cp" using assms(2) by (simp add: touches_bank_def GET_MSHR_BANK_def fun_eq_iff)
  have "bank_ok cp' b'" if "b' < unat (MSHR_banks cp')" for b'
    using assms that g by (cases "b' = b") (auto simp: mshr_inv_def bank_ok_def touches_bank_def)
  then show ?thesis using assms(3) by (simp add: mshr_inv_def)
qed

text \<open>The scan over the bank finds a free register when the counters leave room.\<close>

lemma find_free:
  assumes "mshr_inv cp" and "b < unat (MSHR_banks cp)" and "cnt occ (MSHR cp ! b) < int (unat (MSHR_size cp))"
  obtains i where "find (\<lambda>i. cb (MSHR cp ! b ! i) = None) [0 ..< unat (MSHR_size cp)] = Some i"
    and "i < length (MSHR cp ! b)" and "cb (MSHR cp ! b ! i) = None" and "MSHR_link (MSHR cp ! b ! i) = None"
proof -
  have l: "length (MSHR cp ! b) = unat (MSHR_size cp)" and e: "list_all (entry_ok (GET_MSHR_BANK cp) b) (MSHR cp ! b)"
    using assms by (auto simp: mshr_inv_def bank_ok_def Let_def)
  obtain j where "j < length (MSHR cp ! b)" "cb (MSHR cp ! b ! j) = None" using free_exists [of "MSHR cp ! b"] assms(3) l by auto
  then obtain i where i: "find (\<lambda>i. cb (MSHR cp ! b ! i) = None) [0 ..< unat (MSHR_size cp)] = Some i"
    using l by (cases "find (\<lambda>i. cb (MSHR cp ! b ! i) = None) [0 ..< unat (MSHR_size cp)]") (auto simp: find_None_iff)
  then have "i < length (MSHR cp ! b)" "cb (MSHR cp ! b ! i) = None" using l by (auto simp: find_Some_iff)
  then show thesis using that [OF i] e by (auto simp: list_all_length entry_ok_def)
qed

section \<open>Every operation keeps it\<close>

lemma bank_facts:
  assumes "mshr_inv cp" and "b < unat (MSHR_banks cp)"
  shows "static_ok cp" "length (MSHR cp ! b) = unat (MSHR_size cp)" "MSHR_num cp ! b = cnt is_miss (MSHR cp ! b)"
    "MSHR_WB_num cp ! b = cnt is_wb (MSHR cp ! b)" "MSHR_fill_num cp ! b = cnt is_miss (MSHR cp ! b)"
    "MSHR_unprocessed_num cp ! b = cnt unsent (MSHR cp ! b)" "MSHR_num_pf cp ! b = cnt is_pf (MSHR cp ! b)"
    "cnt is_miss (MSHR cp ! b) \<le> sint (MSHR_size cp) - sint (MSHR_WB_size cp)" "cnt is_wb (MSHR cp ! b) \<le> sint (MSHR_WB_size cp)"
    "list_all (entry_ok (GET_MSHR_BANK cp) b) (MSHR cp ! b)"
    "sint (MSHR_size cp) = int (unat (MSHR_size cp))" "0 \<le> sint (MSHR_WB_size cp)"
  using assms by (auto simp: mshr_inv_def bank_ok_def static_ok_def Let_def)

lemma static_bank:
  assumes "static_ok cp" and "b < unat (MSHR_banks cp)"
  shows "b < length (MSHR cp)" "b < length (MSHR_num cp)" "b < length (MSHR_WB_num cp)" "b < length (MSHR_fill_num cp)"
    "b < length (MSHR_unprocessed_num cp)" "b < length (MSHR_num_pf cp)"
  using assms by (auto simp: static_ok_def Let_def)

lemma cnt_free:
  assumes "i < length m" and "cb (m ! i) = None"
  shows "cnt is_miss (m[i := e]) = cnt is_miss m + of_bool (is_miss e)" "cnt is_wb (m[i := e]) = cnt is_wb m + of_bool (is_wb e)"
    "cnt unsent (m[i := e]) = cnt unsent m + of_bool (unsent e)" "cnt is_pf (m[i := e]) = cnt is_pf m + of_bool (is_pf e)"
  using assms by (simp_all add: cnt_update kinds)

lemma cnt_unsent_le: "cnt unsent m \<le> cnt is_miss m"
  by (rule cnt_mono) (simp add: unsent_def)

lemma GET_MSHR_BANK_cong:
  "bank_shift cp' = bank_shift cp \<Longrightarrow> MSHR_mask cp' = MSHR_mask cp \<Longrightarrow> GET_MSHR_BANK cp' = GET_MSHR_BANK cp"
  by (simp add: GET_MSHR_BANK_def fun_eq_iff)

text \<open>Allocation finds a free register and only marks it as not linked.\<close>

definition allocated :: "nat \<Rightarrow> nat \<Rightarrow> cache_t \<Rightarrow> cache_t" where
  "allocated b i cp = cp\<lparr>check_for_work := True, check_for_MSHR_work := True, check_for_MSHR_WB_work := True,
     MSHR := upd (MSHR cp) b (\<lambda>m. upd m i (\<lambda>e. e\<lparr>MSHR_link := None, MSHR_linked := False\<rparr>))\<rparr>"

lemma allocated_simps [simp]:
  "MSHR (allocated b i cp) = upd (MSHR cp) b (\<lambda>m. upd m i (\<lambda>e. e\<lparr>MSHR_link := None, MSHR_linked := False\<rparr>))"
  "MSHR_num (allocated b i cp) = MSHR_num cp" "MSHR_WB_num (allocated b i cp) = MSHR_WB_num cp"
  "MSHR_fill_num (allocated b i cp) = MSHR_fill_num cp" "MSHR_unprocessed_num (allocated b i cp) = MSHR_unprocessed_num cp"
  "MSHR_num_pf (allocated b i cp) = MSHR_num_pf cp" "MSHR_size (allocated b i cp) = MSHR_size cp"
  "MSHR_WB_size (allocated b i cp) = MSHR_WB_size cp" "MSHR_banks (allocated b i cp) = MSHR_banks cp"
  "MSHR_mask (allocated b i cp) = MSHR_mask cp" "bank_shift (allocated b i cp) = bank_shift cp"
  "GET_MSHR_BANK (allocated b i cp) = GET_MSHR_BANK cp"
  by (simp_all add: allocated_def GET_MSHR_BANK_def fun_eq_iff)

lemma MSHR_allocate_ok:
  assumes inv: "mshr_inv cp" and "cnt occ (MSHR cp ! GET_MSHR_BANK cp pa) < int (unat (MSHR_size cp))"
  obtains i where "MSHR_allocate pa cp = Some (i, allocated (GET_MSHR_BANK cp pa) i cp)"
    and "i < length (MSHR cp ! GET_MSHR_BANK cp pa)" and "cb (MSHR cp ! GET_MSHR_BANK cp pa ! i) = None"
proof -
  have "GET_MSHR_BANK cp pa < unat (MSHR_banks cp)" using GET_MSHR_BANK_less inv by (simp add: mshr_inv_def)
  then obtain i where "find (\<lambda>i. cb (MSHR cp ! GET_MSHR_BANK cp pa ! i) = None) [0 ..< unat (MSHR_size cp)] = Some i"
    "i < length (MSHR cp ! GET_MSHR_BANK cp pa)" "cb (MSHR cp ! GET_MSHR_BANK cp pa ! i) = None"
    "MSHR_link (MSHR cp ! GET_MSHR_BANK cp pa ! i) = None"
    using find_free [OF inv _ assms(2)] by metis
  then show thesis by (intro that [of i]) (simp_all add: MSHR_allocate_def Let_def allocated_def)
qed

text \<open>The new contents of a bank, and of its counters.\<close>

lemma bank_update_ok:
  assumes inv: "mshr_inv cp" and b: "b < unat (MSHR_banks cp)" and tb: "touches_bank b cp cp'"
    and len: "length (MSHR cp') = length (MSHR cp)" "length (MSHR_num cp') = length (MSHR_num cp)" "length (MSHR_WB_num cp') = length (MSHR_WB_num cp)"
      "length (MSHR_fill_num cp') = length (MSHR_fill_num cp)" "length (MSHR_unprocessed_num cp') = length (MSHR_unprocessed_num cp)"
      "length (MSHR_num_pf cp') = length (MSHR_num_pf cp)"
    and bank: "MSHR cp' ! b = (MSHR cp ! b)[i := e]" "i < length (MSHR cp ! b)" "entry_ok (GET_MSHR_BANK cp) b e"
    and nums: "MSHR_num cp' ! b = MSHR_num cp ! b + (of_bool (is_miss e) - of_bool (is_miss (MSHR cp ! b ! i)))"
      "MSHR_WB_num cp' ! b = MSHR_WB_num cp ! b + (of_bool (is_wb e) - of_bool (is_wb (MSHR cp ! b ! i)))"
      "MSHR_fill_num cp' ! b = MSHR_fill_num cp ! b + (of_bool (is_miss e) - of_bool (is_miss (MSHR cp ! b ! i)))"
      "MSHR_unprocessed_num cp' ! b = MSHR_unprocessed_num cp ! b + (of_bool (unsent e) - of_bool (unsent (MSHR cp ! b ! i)))"
      "MSHR_num_pf cp' ! b = MSHR_num_pf cp ! b + (of_bool (is_pf e) - of_bool (is_pf (MSHR cp ! b ! i)))"
    and room: "MSHR_num cp' ! b \<le> sint (MSHR_size cp) - sint (MSHR_WB_size cp)" "MSHR_WB_num cp' ! b \<le> sint (MSHR_WB_size cp)"
  shows "mshr_inv cp'"
proof (rule mshr_inv_step [OF inv tb])
  note f = bank_facts [OF inv b]
  have s: "MSHR_banks cp' = MSHR_banks cp" "MSHR_mask cp' = MSHR_mask cp" "MSHR_size cp' = MSHR_size cp"
    "MSHR_WB_size cp' = MSHR_WB_size cp" "GET_MSHR_BANK cp' = GET_MSHR_BANK cp"
    using tb GET_MSHR_BANK_cong [of cp' cp] by (auto simp: touches_bank_def)
  show "static_ok cp'" using f(1) len s by (simp add: static_ok_def)
  have "cnt P (MSHR cp' ! b) = cnt P (MSHR cp ! b) + (of_bool (P e) - of_bool (P (MSHR cp ! b ! i)))" for P
    using cnt_update [OF bank(2), of P e] bank(1) by simp
  then show "bank_ok cp' b"
    unfolding bank_ok_def Let_def s using f(2-7,10) nums room bank(1,3) by (simp add: list_all_update)
qed

text \<open>The state after a miss has been entered into register \<open>i\<close> of bank \<open>b\<close>.\<close>

definition inserted :: "nat \<Rightarrow> nat \<Rightarrow> cache_action_t \<Rightarrow> cache_action_t \<Rightarrow> cache_t \<Rightarrow> cache_t" where
  "inserted b i e ca cp =
     (let c1 = (allocated b i cp)\<lparr>MSHR := upd (MSHR (allocated b i cp)) b (\<lambda>m. m[i := e]),
            MSHR_num := upd (MSHR_num (allocated b i cp)) b (\<lambda>n. n + 1)\<rparr>;
          c2 = c1\<lparr>MSHR_unprocessed_num := upd (MSHR_unprocessed_num c1) b (\<lambda>n. n + 1)\<rparr>;
          c3 = c2\<lparr>MSHR_fill_num := upd (MSHR_fill_num c2) b (\<lambda>n. n + 1)\<rparr>
      in if ca_cmd ca = CACHE_PREFETCH then c3\<lparr>MSHR_num_pf := upd (MSHR_num_pf c3) (unat (MSHR_bank ca)) (\<lambda>n. n + 1)\<rparr> else c3)"

definition miss_entry :: "tick_t \<Rightarrow> cache_action_t \<Rightarrow> cache_action_t" where
  "miss_entry cycle ca = ca\<lparr>mtype := MSHR_MISS, when_enqueued := cycle, when_started := TICK_T_MAX, when_returned := TICK_T_MAX, MSHR_linked := False\<rparr>"

lemma MSHR_insert_eq:
  assumes "MSHR_allocate (ca_paddr ca) cp = Some (i, allocated b i cp)" and "b = GET_MSHR_BANK cp (ca_paddr ca)"
    and "b < length (MSHR cp)" and "i < length (MSHR cp ! b)" and "c = inserted b i (miss_entry cycle ca) ca cp"
  shows "MSHR_insert cycle ca cp = checked (MSHR_num c ! b \<le> sint (MSHR_size c) - sint (MSHR_WB_size c) \<and>
      MSHR_unprocessed_num c ! b \<le> sint (MSHR_size c) \<and> MSHR_fill_num c ! b \<le> sint (MSHR_size c) \<and>
      (ca_cmd ca = CACHE_PREFETCH \<longrightarrow> unat (MSHR_bank ca) < length (MSHR_num_pf c) \<and> MSHR_num_pf c ! unat (MSHR_bank ca) \<le> sint (MSHR_size c))) c"
  using assms(1,3,4) unfolding assms(5) by (simp add: MSHR_insert_def Let_def inserted_def miss_entry_def assms(2) [symmetric])

lemma MSHR_insert_ok:
  assumes inv: "mshr_inv cp" and av: "MSHR_available cp (ca_paddr ca)" and ca: "cb ca \<noteq> None" "MSHR_link ca = None"
    and pf: "ca_cmd ca = CACHE_PREFETCH \<Longrightarrow> unat (MSHR_bank ca) = GET_MSHR_BANK cp (ca_paddr ca)"
  shows "\<exists>cp'. MSHR_insert cycle ca cp = Some cp' \<and> mshr_inv cp'"
proof -
  define b where "b = GET_MSHR_BANK cp (ca_paddr ca)"
  have bl: "b < unat (MSHR_banks cp)" using GET_MSHR_BANK_less inv by (simp add: b_def mshr_inv_def)
  note f = bank_facts [OF inv bl] and sb = static_bank [OF bank_facts(1) [OF inv bl] bl]
  have room: "cnt is_miss (MSHR cp ! b) < sint (MSHR_size cp) - sint (MSHR_WB_size cp)"
    using av f(3) by (simp add: MSHR_available_def b_def)
  then have o: "cnt occ (MSHR cp ! b) < int (unat (MSHR_size cp))" using f(9,11) by (simp add: cnt_occ)
  obtain i where i: "MSHR_allocate (ca_paddr ca) cp = Some (i, allocated b i cp)" "i < length (MSHR cp ! b)" "cb (MSHR cp ! b ! i) = None"
    using MSHR_allocate_ok [OF inv] o by (auto simp: b_def)
  define e where "e = miss_entry cycle ca"
  define c4 where "c4 = inserted b i e ca cp"
  note c = c4_def inserted_def Let_def
  note eq = MSHR_insert_eq [OF i(1) b_def sb(1) i(2) c4_def [unfolded e_def]]
  have ke: "is_miss e" "\<not> is_wb e" "unsent e" "is_pf e \<longleftrightarrow> ca_cmd ca = CACHE_PREFETCH" "entry_ok (GET_MSHR_BANK cp) b e"
    using ca by (simp_all add: e_def miss_entry_def kinds entry_ok_def b_def)
  have free: "\<not> is_miss (MSHR cp ! b ! i)" "\<not> is_wb (MSHR cp ! b ! i)" "\<not> unsent (MSHR cp ! b ! i)" "\<not> is_pf (MSHR cp ! b ! i)"
    using i(3) by (simp_all add: kinds)
  have pfb: "ca_cmd ca = CACHE_PREFETCH \<Longrightarrow> unat (MSHR_bank ca) = b" using pf by (simp add: b_def)
  have m4: "MSHR c4 ! b = (MSHR cp ! b)[i := e]" using sb by (simp add: c upd_def)
  have inv4: "mshr_inv c4"
    by (rule bank_update_ok [OF inv bl _ _ _ _ _ _ _ m4 i(2) ke(5)])
      (use sb f room ke free pfb in \<open>auto simp: c touches_bank_def\<close>)
  have s4: "MSHR_size c4 = MSHR_size cp" "MSHR_WB_size c4 = MSHR_WB_size cp" "MSHR_banks c4 = MSHR_banks cp" by (simp_all add: c)
  note f4 = bank_facts [OF inv4 bl [folded s4(3)]]
  have "cnt is_pf (MSHR c4 ! b) \<le> sint (MSHR_size cp)" using cnt_le [of is_pf "MSHR c4 ! b"] f(2,11) by (simp add: m4)
  then have "MSHR_insert cycle ca cp = Some c4"
    unfolding eq checked_def using f4(3,5-8,12) s4 cnt_unsent_le [of "MSHR c4 ! b"] pfb static_bank(6) [OF f4(1)] bl by simp
  then show ?thesis using inv4 by blast
qed

lemma MSHR_WB_insert_ok:
  assumes inv: "mshr_inv cp" and av: "MSHR_WB_available cp (push_bit (unat (addr_shift cp)) (tag line))"
  shows "\<exists>cp'. MSHR_WB_insert cycle self line cp = Some cp' \<and> mshr_inv cp'"
proof -
  define pa where "pa = push_bit (unat (addr_shift cp)) (tag line)"
  define b where "b = GET_MSHR_BANK cp pa"
  have bl: "b < unat (MSHR_banks cp)" using GET_MSHR_BANK_less inv by (simp add: b_def mshr_inv_def)
  note f = bank_facts [OF inv bl] and sb = static_bank [OF bank_facts(1) [OF inv bl] bl]
  have room: "cnt is_wb (MSHR cp ! b) < sint (MSHR_WB_size cp)" using av f(4) by (simp add: MSHR_WB_available_def b_def pa_def)
  then have o: "cnt occ (MSHR cp ! b) < int (unat (MSHR_size cp))" using f(8,11) by (simp add: cnt_occ)
  obtain i where i: "MSHR_allocate pa cp = Some (i, allocated b i cp)" "i < length (MSHR cp ! b)" "cb (MSHR cp ! b ! i) = None"
    using MSHR_allocate_ok [OF inv] o by (auto simp: b_def)
  define e where "e = (MSHR cp ! b ! i)\<lparr>MSHR_link := None, MSHR_linked := False,
    ca_core := cl_core line, ca_op := None, ca_PC := 0, ca_paddr := pa, mtype := MSHR_WRITEBACK,
    MSHR_bank := of_nat b, MSHR_index := of_nat i, miss_cb_invoked := False, ca_cmd := CACHE_WRITEBACK,
    prev_cp := Some self, cb := Some dummy_callback, miss_cb := None, translated_cb := None,
    get_action_id := None, when_enqueued := cycle, when_started := TICK_T_MAX, when_returned := TICK_T_MAX,
    pipe_exit_time := TICK_T_MAX\<rparr>"
  define c1 where "c1 = (allocated b i cp)\<lparr>MSHR_WB_num := upd (MSHR_WB_num (allocated b i cp)) b (\<lambda>n. n + 1)\<rparr>"
  define c2 where "c2 = c1\<lparr>MSHR := upd (MSHR c1) b (\<lambda>m. upd m i (\<lambda>e.
     e\<lparr>ca_core := cl_core line, ca_op := None, ca_PC := 0, ca_paddr := pa, mtype := MSHR_WRITEBACK,
       MSHR_bank := of_nat b, MSHR_index := of_nat i, miss_cb_invoked := False, ca_cmd := CACHE_WRITEBACK,
       prev_cp := Some self, cb := Some dummy_callback, miss_cb := None, translated_cb := None,
       get_action_id := None, when_enqueued := cycle, when_started := TICK_T_MAX, when_returned := TICK_T_MAX,
       pipe_exit_time := TICK_T_MAX\<rparr>)), check_for_work := True, check_for_MSHR_WB_work := True\<rparr>"
  have eq: "MSHR_WB_insert cycle self line cp = checked (MSHR_WB_num c2 ! b \<le> sint (MSHR_WB_size c2)) c2"
    using i(1) by (simp add: MSHR_WB_insert_def Let_def c1_def c2_def pa_def [symmetric] b_def [symmetric])
  have ke: "\<not> is_miss e" "is_wb e" "\<not> unsent e" "\<not> is_pf e" "entry_ok (GET_MSHR_BANK cp) b e"
    by (simp_all add: e_def kinds entry_ok_def b_def)
  have free: "\<not> is_miss (MSHR cp ! b ! i)" "\<not> is_wb (MSHR cp ! b ! i)" "\<not> unsent (MSHR cp ! b ! i)" "\<not> is_pf (MSHR cp ! b ! i)"
    using i(3) by (simp_all add: kinds)
  have m2: "MSHR c2 ! b = (MSHR cp ! b)[i := e]" using sb i(2) by (simp add: c1_def c2_def e_def) (simp add: upd_def)
  have "mshr_inv c2"
    by (rule bank_update_ok [OF inv bl _ _ _ _ _ _ _ m2 i(2) ke(5)])
      (use sb f room ke free in \<open>auto simp: c1_def c2_def touches_bank_def\<close>)
  moreover have "MSHR_WB_insert cycle self line cp = Some c2"
    unfolding eq checked_def using f(4) room sb by (simp add: c1_def c2_def)
  ultimately show ?thesis by blast
qed

section \<open>First come, first served\<close>

lemma oldest_loop_spec:
  "(oldest_loop ok es k old idx = idx \<and> (\<forall>j < length es. ok (es ! j) \<longrightarrow> old \<le> sint (when_enqueued (es ! j)))) \<or>
   (\<exists>i < length es. oldest_loop ok es k old idx = Some (k + i) \<and> ok (es ! i) \<and> sint (when_enqueued (es ! i)) < old \<and>
      (\<forall>j < length es. ok (es ! j) \<longrightarrow> sint (when_enqueued (es ! i)) \<le> sint (when_enqueued (es ! j)) \<and>
         (j < i \<longrightarrow> sint (when_enqueued (es ! i)) < sint (when_enqueued (es ! j)))))"
proof (induction es arbitrary: k old idx)
  case (Cons e es)
  show ?case
  proof (cases "ok e \<and> sint (when_enqueued e) < old")
    case True
    from Cons.IH [of "Suc k" "sint (when_enqueued e)" "Some k"] show ?thesis
    proof (elim disjE exE conjE)
      assume "oldest_loop ok es (Suc k) (sint (when_enqueued e)) (Some k) = Some k"
        and "\<forall>j < length es. ok (es ! j) \<longrightarrow> sint (when_enqueued e) \<le> sint (when_enqueued (es ! j))"
      then show ?thesis using True by (intro disjI2 exI [of _ 0]) (auto simp: nth_Cons split: nat.split)
    next
      fix i assume "i < length es" "oldest_loop ok es (Suc k) (sint (when_enqueued e)) (Some k) = Some (Suc k + i)" "ok (es ! i)"
        "sint (when_enqueued (es ! i)) < sint (when_enqueued e)"
        "\<forall>j < length es. ok (es ! j) \<longrightarrow> sint (when_enqueued (es ! i)) \<le> sint (when_enqueued (es ! j)) \<and>
           (j < i \<longrightarrow> sint (when_enqueued (es ! i)) < sint (when_enqueued (es ! j)))"
      then show ?thesis using True by (intro disjI2 exI [of _ "Suc i"]) (auto simp: nth_Cons split: nat.split)
    qed
  next
    case False
    from Cons.IH [of "Suc k" old idx] show ?thesis
    proof (elim disjE exE conjE)
      assume "oldest_loop ok es (Suc k) old idx = idx" "\<forall>j < length es. ok (es ! j) \<longrightarrow> old \<le> sint (when_enqueued (es ! j))"
      then show ?thesis using False by (intro disjI1) (auto simp: nth_Cons split: nat.split)
    next
      fix i assume "i < length es" "oldest_loop ok es (Suc k) old idx = Some (Suc k + i)" "ok (es ! i)" "sint (when_enqueued (es ! i)) < old"
        "\<forall>j < length es. ok (es ! j) \<longrightarrow> sint (when_enqueued (es ! i)) \<le> sint (when_enqueued (es ! j)) \<and>
           (j < i \<longrightarrow> sint (when_enqueued (es ! i)) < sint (when_enqueued (es ! j)))"
      then show ?thesis using False by (intro disjI2 exI [of _ "Suc i"]) (auto simp: nth_Cons split: nat.split)
    qed
  qed
qed simp

lemma MSHR_oldest_Some:
  "MSHR_oldest ok es = Some i \<Longrightarrow> i < length es \<and> ok (es ! i)"
  using oldest_loop_spec [of ok es 0 "sint TICK_T_MAX" None] by (auto simp: MSHR_oldest_def)

section \<open>Sent, answered and released requests\<close>

text \<open>Marking a request as sent, for a miss or a write-back.\<close>

lemma mark_started_ok:
  assumes inv: "mshr_inv cp" and b: "b < unat (MSHR_banks cp)" and i: "i < length (MSHR cp ! b)"
    and c: "cycle \<noteq> TICK_T_MAX" and n: "n = MSHR_unprocessed_num cp ! b - of_bool (unsent (MSHR cp ! b ! i))"
  shows "mshr_inv ((mark_started cycle b i cp)\<lparr>MSHR_unprocessed_num := (MSHR_unprocessed_num cp)[b := n]\<rparr>)"
proof -
  note f = bank_facts [OF inv b] and sb = static_bank [OF bank_facts(1) [OF inv b] b]
  let ?e = "(MSHR cp ! b ! i)\<lparr>when_started := cycle\<rparr>"
  let ?c = "(mark_started cycle b i cp)\<lparr>MSHR_unprocessed_num := (MSHR_unprocessed_num cp)[b := n]\<rparr>"
  have m: "MSHR ?c ! b = (MSHR cp ! b)[i := ?e]" using sb i by (simp add: mark_started_def) (simp add: upd_def)
  have "entry_ok (GET_MSHR_BANK cp) b (MSHR cp ! b ! i)" using f(10) i by (simp add: list_all_length)
  then have e: "entry_ok (GET_MSHR_BANK cp) b ?e" using c by (simp add: entry_ok_def occ_def)
  show ?thesis
    by (rule bank_update_ok [OF inv b _ _ _ _ _ _ _ m i e]) (use sb f n c in \<open>auto simp: mark_started_def touches_bank_def kinds\<close>)
qed

lemma MSHR_send_ok:
  assumes inv: "mshr_inv cp" and b: "b < unat (MSHR_banks cp)" and c: "cycle \<noteq> TICK_T_MAX"
  shows "\<exists>cp'. MSHR_send cycle translated sent b cp = Some cp' \<and> mshr_inv cp'"
proof (cases "MSHR_oldest (miss_ready translated) (MSHR cp ! b)")
  case None
  then show ?thesis using inv by (simp add: MSHR_send_def)
next
  case (Some i)
  note f = bank_facts [OF inv b] and sb = static_bank [OF bank_facts(1) [OF inv b] b]
  have i: "i < length (MSHR cp ! b)" and r: "miss_ready translated (MSHR cp ! b ! i)" using MSHR_oldest_Some [OF Some] by auto
  have u: "unsent (MSHR cp ! b ! i)" using r by (cases "mtype (MSHR cp ! b ! i)") (auto simp: miss_ready_def kinds)
  then have pos: "1 \<le> MSHR_unprocessed_num cp ! b" using cnt_pos [OF i, of unsent] f(6) by simp
  let ?c = "(mark_started cycle b i cp)\<lparr>MSHR_unprocessed_num := (MSHR_unprocessed_num cp)[b := MSHR_unprocessed_num cp ! b - 1]\<rparr>"
  have up: "MSHR_unprocessed_num (mark_started cycle b i cp) = MSHR_unprocessed_num cp" by (simp add: mark_started_def)
  have "mshr_inv ?c" by (rule mark_started_ok [OF inv b i c]) (simp add: u)
  then show ?thesis using Some inv pos sb by (simp add: MSHR_send_def Let_def checked_def upd_def up)
qed

lemma MSHR_WB_send_ok:
  assumes inv: "mshr_inv cp" and b: "b < unat (MSHR_banks cp)" and c: "cycle \<noteq> TICK_T_MAX"
  shows "mshr_inv (MSHR_WB_send cycle sent b cp)"
proof (cases "MSHR_oldest (\<lambda>e. cb e \<noteq> None \<and> mtype e = MSHR_WRITEBACK \<and> when_started e = TICK_T_MAX) (MSHR cp ! b)")
  case None
  then show ?thesis using inv by (simp add: MSHR_WB_send_def)
next
  case (Some i)
  have i: "i < length (MSHR cp ! b)" and u: "\<not> unsent (MSHR cp ! b ! i)" using MSHR_oldest_Some [OF Some] by (auto simp: kinds)
  let ?c = "(mark_started cycle b i cp)\<lparr>MSHR_unprocessed_num := (MSHR_unprocessed_num cp)[b := MSHR_unprocessed_num cp ! b]\<rparr>"
  have "mshr_inv ?c" by (rule mark_started_ok [OF inv b i c]) (simp add: u)
  moreover have "?c = mark_started cycle b i cp" by (simp add: mark_started_def)
  ultimately show ?thesis using Some inv by (simp add: MSHR_WB_send_def)
qed

lemma fill_arrived_ok:
  assumes inv: "mshr_inv cp" and b: "b < unat (MSHR_banks cp)" and i: "0 \<le> sint index" "sint index < sint (MSHR_size cp)"
    and s: "occ (MSHR cp ! b ! unat index) \<Longrightarrow> when_started (MSHR cp ! b ! unat index) \<noteq> TICK_T_MAX"
  shows "\<exists>cp'. fill_arrived cycle b index delay cp = Some cp' \<and> mshr_inv cp'"
proof -
  note f = bank_facts [OF inv b] and sb = static_bank [OF bank_facts(1) [OF inv b] b]
  let ?e = "if cb (MSHR cp ! b ! unat index) \<noteq> None then (MSHR cp ! b ! unat index)\<lparr>when_returned := cycle + delay\<rparr> else MSHR cp ! b ! unat index"
  have u: "unat index < length (MSHR cp ! b)"
    using i f(2,11) sint_nneg_iff [of index] sint_cint [of index] by (simp del: of_nat_unat)
  have ok: "entry_ok (GET_MSHR_BANK cp) b (MSHR cp ! b ! unat index)" using f(10) u by (simp add: list_all_length)
  define c where "c = cp\<lparr>check_for_work := True, check_for_MSHR_fill_work := True, check_for_MSHR_WB_work := True,
     MSHR := upd (MSHR cp) b (\<lambda>m. upd m (unat index) (\<lambda>e. if cb e \<noteq> None then e\<lparr>when_returned := cycle + delay\<rparr> else e))\<rparr>"
  have m: "MSHR c ! b = (MSHR cp ! b)[unat index := ?e]" using sb u by (simp add: c_def) (simp add: upd_def)
  have e: "entry_ok (GET_MSHR_BANK cp) b ?e" using ok s by (auto simp: entry_ok_def occ_def)
  have "mshr_inv c"
    by (rule bank_update_ok [OF inv b _ _ _ _ _ _ _ m u e]) (use sb f in \<open>auto simp: c_def touches_bank_def kinds\<close>)
  moreover have "fill_arrived cycle b index delay cp = Some c"
    using i ok by (auto simp: fill_arrived_def Let_def entry_ok_def c_def)
  ultimately show ?thesis by blast
qed

lemma MSHR_deallocate_ok:
  assumes inv: "mshr_inv cp" and b: "b < unat (MSHR_banks cp)" and i: "i < length (MSHR cp ! b)"
    and o: "occ (MSHR cp ! b ! i)" and s: "when_started (MSHR cp ! b ! i) \<noteq> TICK_T_MAX"
  shows "\<exists>cp'. MSHR_deallocate (ca_paddr (MSHR cp ! b ! i)) i cp = Some cp' \<and> mshr_inv cp' \<and>
    MSHR_banks cp' = MSHR_banks cp \<and> MSHR_size cp' = MSHR_size cp \<and> MSHR cp' ! b = (MSHR cp ! b)[i := (MSHR cp ! b ! i)\<lparr>cb := None\<rparr>]"
proof -
  note f = bank_facts [OF inv b] and sb = static_bank [OF bank_facts(1) [OF inv b] b]
  define e where "e = MSHR cp ! b ! i"
  have ok: "entry_ok (GET_MSHR_BANK cp) b e" using f(10) i by (simp add: list_all_length e_def)
  then have bk: "GET_MSHR_BANK cp (ca_paddr e) = b" using o by (simp add: entry_ok_def e_def)
  define c1 where "c1 = cp\<lparr>MSHR := upd (MSHR cp) b (\<lambda>m. upd m i (\<lambda>e. e\<lparr>cb := None\<rparr>))\<rparr>"
  define c2 where "c2 = (if mtype e = MSHR_WRITEBACK then c1\<lparr>MSHR_WB_num := upd (MSHR_WB_num c1) b (\<lambda>n. n - 1)\<rparr>
                 else c1\<lparr>MSHR_num := upd (MSHR_num c1) b (\<lambda>n. n - 1)\<rparr>)"
  define c3 where "c3 = (if ca_cmd e = CACHE_PREFETCH then c2\<lparr>MSHR_num_pf := upd (MSHR_num_pf c2) b (\<lambda>n. n - 1)\<rparr> else c2)"
  define c4 where "c4 = (if mtype e = MSHR_MISS then c3\<lparr>MSHR_fill_num := upd (MSHR_fill_num c3) b (\<lambda>n. n - 1)\<rparr> else c3)"
  note c = c1_def c2_def c3_def c4_def
  have eq: "MSHR_deallocate (ca_paddr (MSHR cp ! b ! i)) i cp = checked (cb e \<noteq> None \<and> 0 \<le> MSHR_WB_num c4 ! b \<and> 0 \<le> MSHR_num c4 ! b \<and>
           (ca_cmd e = CACHE_PREFETCH \<longrightarrow> 0 \<le> MSHR_num_pf c4 ! b) \<and> 0 \<le> MSHR_fill_num c4 ! b) c4"
    unfolding MSHR_deallocate_def e_def [symmetric] bk Let_def by (simp only: c e_def)
  have m4: "MSHR c4 ! b = (MSHR cp ! b)[i := e\<lparr>cb := None\<rparr>]" using sb i by (simp add: c e_def) (simp add: upd_def)
  have ok': "entry_ok (GET_MSHR_BANK cp) b (e\<lparr>cb := None\<rparr>)" using ok by (simp add: entry_ok_def occ_def)
  have k: "is_miss e \<longleftrightarrow> mtype e = MSHR_MISS" "is_wb e \<longleftrightarrow> mtype e = MSHR_WRITEBACK" "\<not> unsent e" "is_pf e \<longleftrightarrow> ca_cmd e = CACHE_PREFETCH"
    "\<not> is_miss (e\<lparr>cb := None\<rparr>)" "\<not> is_wb (e\<lparr>cb := None\<rparr>)" "\<not> unsent (e\<lparr>cb := None\<rparr>)" "\<not> is_pf (e\<lparr>cb := None\<rparr>)"
    using o s by (auto simp: kinds e_def)
  have mt: "mtype e \<noteq> MSHR_WRITEBACK \<longleftrightarrow> mtype e = MSHR_MISS" by (cases "mtype e") auto
  have inv4: "mshr_inv c4"
    by (rule bank_update_ok [OF inv b _ _ _ _ _ _ _ m4 i ok'])
      (use sb f k mt in \<open>auto simp: c touches_bank_def e_def [symmetric]\<close>)
  have s4: "MSHR_banks c4 = MSHR_banks cp" "MSHR_size c4 = MSHR_size cp" by (simp_all add: c)
  note f4 = bank_facts [OF inv4 b [folded s4(1)]]
  have "MSHR_deallocate (ca_paddr (MSHR cp ! b ! i)) i cp = Some c4"
    unfolding eq checked_def using f4(3-7) o by (simp add: occ_def e_def)
  then show ?thesis using inv4 s4 m4 by (simp add: e_def)
qed

lemma MSHR_WB_drop_ok:
  "mshr_inv cp \<Longrightarrow> b < unat (MSHR_banks cp) \<Longrightarrow> \<forall>j \<in> set js. j < unat (MSHR_size cp) \<Longrightarrow>
   \<exists>cp'. MSHR_WB_drop cycle b js cp = Some cp' \<and> mshr_inv cp'"
proof (induction js arbitrary: cp)
  case (Cons j js)
  show ?case
  proof (cases "WB_done cycle (MSHR cp ! b ! j)")
    case True
    have "j < length (MSHR cp ! b)" using Cons.prems bank_facts(2) [OF Cons.prems(1,2)] by simp
    moreover have "occ (MSHR cp ! b ! j)" "when_started (MSHR cp ! b ! j) \<noteq> TICK_T_MAX" using True by (auto simp: WB_done_def occ_def)
    ultimately obtain cp' where "MSHR_deallocate (ca_paddr (MSHR cp ! b ! j)) j cp = Some cp'" "mshr_inv cp'"
      "MSHR_banks cp' = MSHR_banks cp" "MSHR_size cp' = MSHR_size cp" using MSHR_deallocate_ok [OF Cons.prems(1,2)] by blast
    then show ?thesis using True Cons.IH [of cp'] Cons.prems by simp
  qed (use Cons in simp)
qed simp

section \<open>Reachable registers\<close>

text \<open>The operations on the registers, with the answers of the environment.\<close>

datatype mshr_op =
    Op_Miss tick_t cache_action_t
  | Op_WB tick_t nat cache_line_t
  | Op_Send tick_t "cache_action_t \<Rightarrow> bool" bool nat
  | Op_WB_Send tick_t bool nat
  | Op_Arrive tick_t nat cint tick_t
  | Op_Done nat nat
  | Op_WB_Drop tick_t nat

fun mshr_step :: "mshr_op \<Rightarrow> cache_t \<Rightarrow> cache_t option" where
  "mshr_step (Op_Miss cycle ca) cp = MSHR_insert cycle ca cp"
| "mshr_step (Op_WB cycle self line) cp = MSHR_WB_insert cycle self line cp"
| "mshr_step (Op_Send cycle tr sent b) cp = MSHR_send cycle tr sent b cp"
| "mshr_step (Op_WB_Send cycle sent b) cp = Some (MSHR_WB_send cycle sent b cp)"
| "mshr_step (Op_Arrive cycle b i delay) cp = fill_arrived cycle b i delay cp"
| "mshr_step (Op_Done b i) cp = MSHR_deallocate (ca_paddr (MSHR cp ! b ! i)) i cp"
| "mshr_step (Op_WB_Drop cycle b) cp = MSHR_WB_drop cycle b [0 ..< unat (MSHR_size cp)] cp"

text \<open>When the callers perform an operation: after the availability tests, on a bank and a register of
  the cache, an answer only for a request that was sent, a release only of an answered miss. A
  prefetch carries a bank of this cache.\<close>

fun mshr_allowed :: "mshr_op \<Rightarrow> cache_t \<Rightarrow> bool" where
  "mshr_allowed (Op_Miss cycle ca) cp \<longleftrightarrow> MSHR_available cp (ca_paddr ca) \<and> cb ca \<noteq> None \<and> MSHR_link ca = None \<and>
     (ca_cmd ca = CACHE_PREFETCH \<longrightarrow> unat (MSHR_bank ca) = GET_MSHR_BANK cp (ca_paddr ca))"
| "mshr_allowed (Op_WB cycle self line) cp \<longleftrightarrow> MSHR_WB_available cp (push_bit (unat (addr_shift cp)) (tag line))"
| "mshr_allowed (Op_Send cycle tr sent b) cp \<longleftrightarrow> b < unat (MSHR_banks cp) \<and> cycle \<noteq> TICK_T_MAX"
| "mshr_allowed (Op_WB_Send cycle sent b) cp \<longleftrightarrow> b < unat (MSHR_banks cp) \<and> cycle \<noteq> TICK_T_MAX"
| "mshr_allowed (Op_Arrive cycle b i delay) cp \<longleftrightarrow> b < unat (MSHR_banks cp) \<and> 0 \<le> sint i \<and> sint i < sint (MSHR_size cp) \<and>
     (cb (MSHR cp ! b ! unat i) \<noteq> None \<longrightarrow> when_started (MSHR cp ! b ! unat i) \<noteq> TICK_T_MAX)"
| "mshr_allowed (Op_Done b i) cp \<longleftrightarrow> b < unat (MSHR_banks cp) \<and> i < unat (MSHR_size cp) \<and> cb (MSHR cp ! b ! i) \<noteq> None \<and>
     mtype (MSHR cp ! b ! i) = MSHR_MISS \<and> when_returned (MSHR cp ! b ! i) \<noteq> TICK_T_MAX"
| "mshr_allowed (Op_WB_Drop cycle b) cp \<longleftrightarrow> b < unat (MSHR_banks cp)"

inductive mshr_reach :: "cache_t \<Rightarrow> cache_t \<Rightarrow> bool" for cp0 where
  init: "mshr_reach cp0 cp0"
| step: "mshr_reach cp0 cp \<Longrightarrow> mshr_allowed op cp \<Longrightarrow> mshr_step op cp = Some cp' \<Longrightarrow> mshr_reach cp0 cp'"

lemma mshr_step_ok:
  assumes "mshr_inv cp" and "mshr_allowed op cp"
  shows "\<exists>cp'. mshr_step op cp = Some cp' \<and> mshr_inv cp'"
proof (cases op)
  case (Op_Done b i)
  then have b: "b < unat (MSHR_banks cp)" and i: "i < length (MSHR cp ! b)" and o: "occ (MSHR cp ! b ! i)"
    using assms bank_facts(2) [OF assms(1), of b] by (auto simp: occ_def)
  have "when_started (MSHR cp ! b ! i) \<noteq> TICK_T_MAX"
    using bank_facts(10) [OF assms(1) b] i o assms(2) Op_Done by (auto simp: list_all_length entry_ok_def)
  then show ?thesis using MSHR_deallocate_ok [OF assms(1) b i o] Op_Done by auto
next
  case (Op_Arrive cycle b i delay)
  then show ?thesis using fill_arrived_ok [OF assms(1), of b i cycle delay] assms(2) by (simp add: occ_def)
next
  case (Op_WB_Drop cycle b)
  then show ?thesis using MSHR_WB_drop_ok [OF assms(1), of b "[0 ..< unat (MSHR_size cp)]" cycle] assms(2) by simp
qed (use assms MSHR_insert_ok MSHR_WB_insert_ok MSHR_send_ok MSHR_WB_send_ok in auto)

lemma mshr_reach_inv: "mshr_reach cp0 cp \<Longrightarrow> mshr_inv cp0 \<Longrightarrow> mshr_inv cp"
proof (induction rule: mshr_reach.induct)
  case (step cp op cp')
  then show ?case using mshr_step_ok [of cp op] by auto
qed

lemma cache_create_mshr_inv:
  assumes c: "cache_create ro n_sets n_assoc lsize rp ap wp wc n_banks bwidth lat msize wbsize mbanks = Some cp"
    and "0 < sint mbanks" and "0 \<le> sint wbsize" and "sint wbsize < sint msize"
  shows "mshr_inv cp"
proof -
  have s: "MSHR_banks cp = mbanks" "MSHR_mask cp = mbanks - 1" "MSHR_size cp = msize" "MSHR_WB_size cp = wbsize"
    "MSHR cp = replicate (unat mbanks) (replicate (unat msize) action0)" "MSHR_num cp = replicate (unat mbanks) 0"
    "MSHR_num_pf cp = replicate (unat mbanks) 0" "MSHR_fill_num cp = replicate (unat mbanks) 0"
    "MSHR_WB_num cp = replicate (unat mbanks) 0" "MSHR_unprocessed_num cp = replicate (unat mbanks) 0"
    using c by (auto simp: cache_create_def Let_def split: option.splits if_splits)
  have "sint msize = int (unat msize)" using assms(3,4) sint_cint [of msize] unat_lt32 [of msize]
    by (simp del: of_nat_unat split: if_splits)
  then have "static_ok cp" using assms(2,3) sint_pos_iff [of mbanks] by (simp add: static_ok_def s)
  moreover have "cnt P (replicate n action0) = 0" if "\<not> P action0" for P n using that by (simp add: cnt_def)
  then have "bank_ok cp b" if "b < unat mbanks" for b
    using that assms(3,4) by (simp add: bank_ok_def s kinds action0_def entry_ok_def list_all_length)
  ultimately show ?thesis by (simp add: mshr_inv_def s)
qed

section \<open>Properties\<close>

text \<open>C34: the miss registers of a cache: starting from \<^verbatim>\<open>cache_create\<close>, whatever misses, write-backs,
  sendings, answers and releases happen, where availability is tested before an insertion, a prefetch
  carries the register bank of its own address in this cache (another bank breaks the counters), an answer
  goes to a register that was sent and a release to one that was answered, no operation fails (an announced register is always found, no assertion is violated), and in every bank the
  counters are exactly the numbers of registers occupied by misses, write-backs, unsent misses and
  prefetches, within the configured sizes.\<close>

theorem mshr_counters_exact:
  assumes "cache_create ro n_sets n_assoc lsize rp ap wp wc n_banks bwidth lat msize wbsize mbanks = Some cp0"
    and "0 < sint mbanks" and "0 \<le> sint wbsize" and "sint wbsize < sint msize" and "mshr_reach cp0 cp"
  shows "(\<forall>op. mshr_allowed op cp \<longrightarrow> mshr_step op cp \<noteq> None) \<and>
    (\<forall>b < unat (MSHR_banks cp).
       MSHR_num cp ! b = cnt is_miss (MSHR cp ! b) \<and> MSHR_WB_num cp ! b = cnt is_wb (MSHR cp ! b) \<and>
       MSHR_fill_num cp ! b = cnt is_miss (MSHR cp ! b) \<and> MSHR_unprocessed_num cp ! b = cnt unsent (MSHR cp ! b) \<and>
       MSHR_num_pf cp ! b = cnt is_pf (MSHR cp ! b) \<and>
       MSHR_num cp ! b \<le> sint (MSHR_size cp) - sint (MSHR_WB_size cp) \<and> MSHR_WB_num cp ! b \<le> sint (MSHR_WB_size cp))"
proof -
  have inv: "mshr_inv cp" by (rule mshr_reach_inv [OF assms(5) cache_create_mshr_inv [OF assms(1-4)]])
  have "mshr_step op cp \<noteq> None" if "mshr_allowed op cp" for op using mshr_step_ok [OF inv that] by auto
  then show ?thesis using bank_facts(3-9) [OF inv] by simp
qed

text \<open>The configuration of an example cache: two sets of two ways, one bank, two register banks.\<close>

definition ex_cache :: "cache_t option" where
  "ex_cache = cache_create False 2 2 64 (CHR ''L'') (CHR ''W'') (CHR ''B'') (CHR ''N'') 1 8 3 4 2 2"

theorem mshr_counters_exact_witness:
  "\<exists>cp. ex_cache = Some cp \<and> (\<forall>op. mshr_allowed op cp \<longrightarrow> mshr_step op cp \<noteq> None)"
proof -
  have "\<exists>cp. ex_cache = Some cp"
    by (simp add: ex_cache_def cache_create_def parse_rp_def parse_ap_def parse_wp_def parse_wc_def pow2_or_zero_def Let_def word_sless_alt)
  then obtain cp where cp: "ex_cache = Some cp" by blast
  show ?thesis
    using mshr_counters_exact [OF cp [unfolded ex_cache_def] _ _ _ mshr_reach.init] cp by auto
qed

text \<open>C35: the scan for the next request is first come, first served: it returns an eligible register
  whose request was enqueued no later than any other eligible one, the first of them in the array, and
  finds one whenever one with a finite time exists.\<close>

theorem MSHR_oldest_is_fcfs:
  "case MSHR_oldest ok es of
     Some i \<Rightarrow> i < length es \<and> ok (es ! i) \<and>
       (\<forall>j < length es. ok (es ! j) \<longrightarrow> sint (when_enqueued (es ! i)) \<le> sint (when_enqueued (es ! j)) \<and>
          (j < i \<longrightarrow> sint (when_enqueued (es ! i)) < sint (when_enqueued (es ! j))))
   | None \<Rightarrow> (\<forall>j < length es. ok (es ! j) \<longrightarrow> sint TICK_T_MAX \<le> sint (when_enqueued (es ! j)))"
  using oldest_loop_spec [of ok es 0 "sint TICK_T_MAX" None] by (auto simp: MSHR_oldest_def)

theorem MSHR_oldest_is_fcfs_witness:
  "case MSHR_oldest (\<lambda>e. cb e = None) (map (\<lambda>t. action0\<lparr>when_enqueued := t\<rparr>) [7, 3, 5, 3]) of
     Some i \<Rightarrow> i = 1 | None \<Rightarrow> False"
  using MSHR_oldest_is_fcfs [where ok = "\<lambda>e. cb e = None" and es = "map (\<lambda>t. action0\<lparr>when_enqueued := t\<rparr>) [7, 3, 5, 3]"]
  by (simp add: MSHR_oldest_def action0_def TICK_T_MAX_def)

lemma cnt_nonneg: "0 \<le> cnt f m"
  by (simp add: cnt_def)

text \<open>C39: a prefetch that a lower level sends carries a register bank of that level. When it misses here
  (a register is available, the other bank's prefetch count is below the limit), \<^verbatim>\<open>MSHR_insert\<close> puts it in a
  free register \<open>i\<close> of the bank of its address and touches no other register of that bank, but counts it
  under the bank it carries. \<^verbatim>\<open>MSHR_deallocate\<close> of this register subtracts it from the bank of its address:
  with no other prefetch there the counter would become negative and the assertion fails; otherwise both
  counters are wrong for good, one prefetch too few in the one bank and one too many in the other.\<close>

theorem lower_level_prefetch_breaks_count:
  assumes inv: "mshr_inv cp" and av: "MSHR_available cp (ca_paddr ca)" and ca: "cb ca \<noteq> None" "ca_cmd ca = CACHE_PREFETCH"
    and b_def: "b = GET_MSHR_BANK cp (ca_paddr ca)" and p_def: "p = unat (MSHR_bank ca)"
    and bank: "p < unat (MSHR_banks cp)" "p \<noteq> b" and more: "MSHR_num_pf cp ! p < sint (MSHR_size cp)"
  shows "\<exists>cp' i. MSHR_insert cycle ca cp = Some cp' \<and>
    i < length (MSHR cp ! b) \<and> cb (MSHR cp ! b ! i) = None \<and> MSHR cp' ! b = (MSHR cp ! b)[i := miss_entry cycle ca] \<and>
    MSHR_num_pf cp' ! p = MSHR_num_pf cp ! p + 1 \<and> MSHR_num_pf cp' ! b = MSHR_num_pf cp ! b \<and>
    (if MSHR_num_pf cp ! b = 0 then MSHR_deallocate (ca_paddr ca) i cp' = None
     else \<exists>cp''. MSHR_deallocate (ca_paddr ca) i cp' = Some cp'' \<and>
       MSHR_num_pf cp'' ! p = MSHR_num_pf cp ! p + 1 \<and> MSHR_num_pf cp'' ! b = MSHR_num_pf cp ! b - 1)"
proof -
  have bl: "b < unat (MSHR_banks cp)" using GET_MSHR_BANK_less inv by (simp add: b_def mshr_inv_def)
  note f = bank_facts [OF inv bl] and sb = static_bank [OF bank_facts(1) [OF inv bl] bl]
  have pl: "p < length (MSHR_num_pf cp)" using static_bank(6) [OF f(1) bank(1)] .
  have room: "cnt is_miss (MSHR cp ! b) < sint (MSHR_size cp) - sint (MSHR_WB_size cp)"
    using av f(3) by (simp add: MSHR_available_def b_def)
  then have o: "cnt occ (MSHR cp ! b) < int (unat (MSHR_size cp))" using f(9,11) by (simp add: cnt_occ)
  obtain i where i: "MSHR_allocate (ca_paddr ca) cp = Some (i, allocated b i cp)" "i < length (MSHR cp ! b)"
    "cb (MSHR cp ! b ! i) = None"
    using MSHR_allocate_ok [OF inv] o by (auto simp: b_def)
  define c where "c = inserted b i (miss_entry cycle ca) ca cp"
  have n: "cnt is_miss (MSHR cp ! b) + 1 \<le> sint (MSHR_size cp) - sint (MSHR_WB_size cp)"
    "cnt unsent (MSHR cp ! b) + 1 \<le> sint (MSHR_size cp)" "cnt is_miss (MSHR cp ! b) + 1 \<le> sint (MSHR_size cp)"
    using room f(12) cnt_unsent_le [of "MSHR cp ! b"] by simp_all
  have ins: "MSHR_insert cycle ca cp = Some c"
    unfolding MSHR_insert_eq [OF i(1) b_def sb(1) i(2) c_def] checked_def using n f(3,5,6) sb pl more ca
    by (simp add: c_def inserted_def Let_def p_def)
  have m: "MSHR c ! b = (MSHR cp ! b)[i := miss_entry cycle ca]"
    using sb(1) i(2) by (simp add: c_def inserted_def Let_def) (simp add: upd_def)
  then have e: "MSHR c ! b ! i = miss_entry cycle ca" using i(2) by simp
  have k: "MSHR_num_pf c ! p = MSHR_num_pf cp ! p + 1" "MSHR_num_pf c ! b = MSHR_num_pf cp ! b"
    "b < length (MSHR_num_pf c)" "GET_MSHR_BANK c = GET_MSHR_BANK cp" "MSHR_num c ! b = MSHR_num cp ! b + 1"
    "MSHR_fill_num c ! b = MSHR_fill_num cp ! b + 1" "MSHR_WB_num c ! b = MSHR_WB_num cp ! b"
    "b < length (MSHR_num c)" "b < length (MSHR_fill_num c)"
    using bank(2) pl sb ca by (auto simp: c_def inserted_def Let_def p_def GET_MSHR_BANK_def)
  have pos: "0 < cnt is_pf (MSHR cp ! b) \<longleftrightarrow> cnt is_pf (MSHR cp ! b) \<noteq> 0" by (auto simp: cnt_def)
  have "MSHR_deallocate (ca_paddr ca) i c = (if MSHR_num_pf cp ! b = 0 then None else
      Some (c\<lparr>MSHR := upd (MSHR c) b (\<lambda>m. upd m i (\<lambda>e. e\<lparr>cb := None\<rparr>)), MSHR_num := upd (MSHR_num c) b (\<lambda>n. n - 1),
        MSHR_num_pf := upd (MSHR_num_pf c) b (\<lambda>n. n - 1), MSHR_fill_num := upd (MSHR_fill_num c) b (\<lambda>n. n - 1)\<rparr>))"
    using e ca k f(3,4,5,7) pos
      cnt_nonneg [of is_miss "MSHR cp ! b"] cnt_nonneg [of is_wb "MSHR cp ! b"]
    by (simp add: MSHR_deallocate_def b_def [symmetric] Let_def checked_def miss_entry_def)
  moreover have "upd (MSHR_num_pf c) b (\<lambda>n. n - 1) ! p = MSHR_num_pf cp ! p + 1"
    "upd (MSHR_num_pf c) b (\<lambda>n. n - 1) ! b = MSHR_num_pf cp ! b - 1"
    using k(1-3) bank(2) by (simp_all add: upd_def)
  ultimately show ?thesis using ins i(2,3) m k(1,2) by (intro exI [of _ c] exI [of _ i]) simp
qed

text \<open>The witness: a fresh cache, in which the first prefetch of a lower level fails on its release.\<close>

theorem lower_level_prefetch_breaks_count_witness:
  "\<exists>cp cp' i. ex_cache = Some cp \<and>
     MSHR_insert 5 (action0\<lparr>cb := Some 0, ca_cmd := CACHE_PREFETCH, ca_paddr := 0x1000, MSHR_bank := 1\<rparr>) cp = Some cp' \<and>
     ca_paddr (MSHR cp' ! 0 ! i) = 0x1000 \<and> cb (MSHR cp' ! 0 ! i) \<noteq> None \<and>
     MSHR_num_pf cp' ! 1 = 1 \<and> MSHR_num_pf cp' ! 0 = 0 \<and> MSHR_deallocate 0x1000 i cp' = None"
proof -
  let ?ca = "action0\<lparr>cb := Some 0, ca_cmd := CACHE_PREFETCH, ca_paddr := 0x1000, MSHR_bank := 1\<rparr>"
  have "\<exists>cp. ex_cache = Some cp"
    by (simp add: ex_cache_def cache_create_def parse_rp_def parse_ap_def parse_wp_def parse_wc_def pow2_or_zero_def Let_def word_sless_alt)
  then obtain cp where cp: "ex_cache = Some cp" by blast
  have inv: "mshr_inv cp" by (rule cache_create_mshr_inv [OF cp [unfolded ex_cache_def]]) simp_all
  have s: "MSHR_banks cp = 2" "MSHR_mask cp = 1" "bank_shift cp = 6" "MSHR_size cp = 4" "MSHR_WB_size cp = 2"
    "MSHR_num cp = replicate 2 0" "MSHR_num_pf cp = replicate 2 0"
    using cp by (auto simp: ex_cache_def cache_create_def parse_rp_def parse_ap_def parse_wp_def parse_wc_def pow2_or_zero_def Let_def
        word_sless_alt ceil_log2.simps)
  have b: "0 = GET_MSHR_BANK cp (ca_paddr ?ca)" using s by (simp add: GET_MSHR_BANK_def drop_bit_eq_div)
  have "MSHR_available cp (ca_paddr ?ca)" using s b by (simp add: MSHR_available_def)
  from lower_level_prefetch_breaks_count [OF inv this _ _ b, of 1 5] obtain cp' i where
    "MSHR_insert 5 ?ca cp = Some cp'" "i < length (MSHR cp ! 0)" "MSHR cp' ! 0 = (MSHR cp ! 0)[i := miss_entry 5 ?ca]"
    "MSHR_num_pf cp' ! 1 = 1" "MSHR_num_pf cp' ! 0 = 0" "MSHR_deallocate (ca_paddr ?ca) i cp' = None"
    using s by auto
  then show ?thesis using cp by (intro exI [of _ cp] exI [of _ cp'] exI [of _ i]) (simp add: miss_entry_def)
qed

end
