(* ===== verification/Prefetch.thy ===== *)
theory Prefetch
  imports TwoBitC Memory Slist
begin

text \<open>
  Hardware prefetchers: \<^verbatim>\<open>zesto-prefetch.cpp\<close> and \<^verbatim>\<open>xiosim/ZCOMPS-prefetch\<close>. A look-up trains the
  prefetcher with an access and returns the address to prefetch, 0 for none. The stream prefetcher
  keeps its entries in singly linked lists, modelled at the level of their pointers and shown to
  implement most-recently-used lists of addresses.
\<close>

section \<open>Base class\<close>

text \<open>The fields of the cache that prefetchers read.\<close>

record cache_geom =
  geom_linesize :: cint
  geom_addr_shift :: cint

record prefetch_t =
  pf_cp :: cache_geom
  type_ :: string
  bits :: cint
  lookups :: counter_t

definition prefetch_init :: "cache_geom \<Rightarrow> string \<Rightarrow> cint \<Rightarrow> prefetch_t" where
  "prefetch_init c ty b = \<lparr>pf_cp = c, type_ = ty, bits = b, lookups = 0\<rparr>"

definition pf_count :: "'a prefetch_t_scheme \<Rightarrow> 'a prefetch_t_scheme" where
  "pf_count s = s\<lparr>lookups := lookups s + 1\<rparr>"

section \<open>Next line\<close>

definition prefetch_nextline_create :: "cache_geom \<Rightarrow> prefetch_t" where
  "prefetch_nextline_create c = prefetch_init c ''nextline'' 0"

definition prefetch_nextline_lookup :: "prefetch_t \<Rightarrow> md_addr_t \<Rightarrow> md_paddr_t \<Rightarrow> md_paddr_t \<times> prefetch_t" where
  "prefetch_nextline_lookup s PC paddr =
     ((paddr + scast (geom_linesize (pf_cp s))) AND scast (NOT (geom_linesize (pf_cp s) - 1)), pf_count s)"

section \<open>Instruction pointer (\<^verbatim>\<open>prefetch-IP.cpp\<close>)\<close>

record prefetch_IP_ent =
  last_paddr :: md_paddr_t
  last_stride :: cint
  conf :: uchar
  last_prefetch :: md_paddr_t

record prefetch_IP_t = prefetch_t +
  num_entries :: cint
  ip_mask :: cint
  last_addr_bits :: cint
  last_stride_bits :: cint
  last_prefetch_bits :: cint
  last_addr_mask :: cint
  last_stride_mask :: cint
  last_prefetch_mask :: cint
  table :: "prefetch_IP_ent list"

definition bit_mask_of :: "cint \<Rightarrow> cint" where
  "bit_mask_of n = shl 1 n - 1"

definition prefetch_IP_create :: "cache_geom \<Rightarrow> cint \<Rightarrow> cint \<Rightarrow> cint \<Rightarrow> cint \<Rightarrow> fatal + prefetch_IP_t" where
  "prefetch_IP_create c n ab sb pb =
     checks [(check_ppow2 n, Not_ppow2)]
       (prefetch_t.extend (prefetch_init c ''IP'' (n * (ab + sb + pb + 2)))
         (prefetch_IP_t.fields n (n - 1) ab sb pb (bit_mask_of ab) (bit_mask_of sb) (bit_mask_of pb)
           (replicate (unat n) \<lparr>last_paddr = 0, last_stride = 0, conf = 0, last_prefetch = 0\<rparr>)))"

text \<open>\<^verbatim>\<open>(paddr - ((paddr & ~addr_mask) | last)) & stride_mask\<close>, truncated to \<^verbatim>\<open>int\<close>.\<close>

definition this_stride :: "cint \<Rightarrow> cint \<Rightarrow> md_paddr_t \<Rightarrow> md_paddr_t \<Rightarrow> cint" where
  "this_stride addr_mask stride_mask prev_paddr paddr =
     ucast ((paddr - ((paddr AND scast (NOT addr_mask)) OR prev_paddr)) AND scast stride_mask)"

definition IP_train :: "cint \<Rightarrow> cint \<Rightarrow> cint \<Rightarrow> prefetch_IP_ent \<Rightarrow> md_paddr_t \<Rightarrow> md_paddr_t \<times> prefetch_IP_ent" where
  "IP_train addr_mask stride_mask prefetch_mask e paddr =
     (let st = this_stride addr_mask stride_mask (last_paddr e) paddr;
          e = e\<lparr>conf := (if st = last_stride e then MY2BC_UPDATE (conf e) True else MY2BC_STRONG_NT)\<rparr>;
          e = e\<lparr>last_paddr := paddr AND scast addr_mask, last_stride := st\<rparr>
      in if conf e = MY2BC_STRONG_TAKEN
         then (let pf = paddr + scast st;
                   pf = (if pf AND scast prefetch_mask = last_prefetch e then 0 else pf)
               in (pf, e\<lparr>last_prefetch := pf AND scast prefetch_mask\<rparr>))
         else (0, e))"

definition prefetch_IP_lookup :: "prefetch_IP_t \<Rightarrow> md_addr_t \<Rightarrow> md_paddr_t \<Rightarrow> md_paddr_t \<times> prefetch_IP_t" where
  "prefetch_IP_lookup s PC paddr =
     (let s = pf_count s; index = unat (pc_mask PC (ip_mask s));
          (pf, e) = IP_train (last_addr_mask s) (last_stride_mask s) (last_prefetch_mask s) (table s ! index) paddr
      in (pf, s\<lparr>table := (table s)[index := e]\<rparr>))"

section \<open>Two-level instruction pointer (\<^verbatim>\<open>prefetch-2lev-IP.cpp\<close>)\<close>

record prefetch_2lev_IP_ent =
  last_paddr2 :: md_paddr_t
  last_stride2 :: cint
  conf2 :: uchar

record prefetch_2lev_IP_t = prefetch_t +
  num_entries2 :: cint
  mask2 :: cint
  last_addr_bits2 :: cint
  last_stride_bits2 :: cint
  last_addr_mask2 :: cint
  last_stride_mask2 :: cint
  table2 :: "prefetch_2lev_IP_ent list"

definition prefetch_2lev_IP_create :: "cache_geom \<Rightarrow> cint \<Rightarrow> cint \<Rightarrow> cint \<Rightarrow> fatal + prefetch_2lev_IP_t" where
  "prefetch_2lev_IP_create c n ab sb =
     checks [(check_ppow2 n, Not_ppow2)]
       (prefetch_t.extend (prefetch_init c ''2lev-IP'' (n * (ab + sb + 2)))
         (prefetch_2lev_IP_t.fields n (n - 1) ab sb (bit_mask_of ab) (bit_mask_of sb)
           (replicate (unat n) \<lparr>last_paddr2 = 0, last_stride2 = 0, conf2 = 0\<rparr>)))"

definition IP2_train :: "cint \<Rightarrow> cint \<Rightarrow> prefetch_2lev_IP_ent \<Rightarrow> md_paddr_t \<Rightarrow> md_paddr_t \<times> prefetch_2lev_IP_ent" where
  "IP2_train addr_mask stride_mask e paddr =
     (let st = this_stride addr_mask stride_mask (last_paddr2 e) paddr in
      if st = 0 then (0, e)
      else
        (let e = e\<lparr>last_paddr2 := paddr AND scast addr_mask\<rparr>;
             e = (if conf2 e \<noteq> MY2BC_STRONG_TAKEN then e\<lparr>last_stride2 := st\<rparr> else e);
             is_correct = (st = last_stride2 e);
             e = (if conf2 e = MY2BC_WEAKLY_NT \<and> is_correct then e\<lparr>conf2 := MY2BC_STRONG_TAKEN\<rparr>
                  else e\<lparr>conf2 := MY2BC_UPDATE (conf2 e) is_correct\<rparr>)
         in if conf2 e \<noteq> MY2BC_STRONG_NT
            then (let pf = paddr + scast (last_stride2 e)
                  in if page_round_down pf \<noteq> page_round_down paddr then (0, e) else (pf, e))
            else (0, e)))"

definition prefetch_2lev_IP_lookup :: "prefetch_2lev_IP_t \<Rightarrow> md_addr_t \<Rightarrow> md_paddr_t \<Rightarrow> md_paddr_t \<times> prefetch_2lev_IP_t" where
  "prefetch_2lev_IP_lookup s PC paddr =
     (let s = pf_count s; index = unat (pc_mask PC (mask2 s));
          (pf, e) = IP2_train (last_addr_mask2 s) (last_stride_mask2 s) (table2 s ! index) paddr
      in (pf, s\<lparr>table2 := (table2 s)[index := e]\<rparr>))"

definition prefetch_2lev_IP_latest_lookup :: "prefetch_2lev_IP_t \<Rightarrow> md_addr_t \<Rightarrow> md_paddr_t \<Rightarrow> md_paddr_t" where
  "prefetch_2lev_IP_latest_lookup s PC paddr =
     scast (last_stride2 (table2 s ! unat (pc_mask PC (mask2 s)))) + paddr"

section \<open>Context (\<^verbatim>\<open>prefetch-context.cpp\<close>)\<close>

record prefetch_context_ent =
  ctag :: md_paddr_t
  next_paddr :: md_paddr_t
  cconf :: cint
  cu :: cint

record prefetch_context_t = prefetch_t +
  cnum_entries :: cint
  cmask :: cint
  tag_bits :: cint
  next_bits :: cint
  conf_bits :: cint
  u_bits :: cint
  tag_mask :: md_paddr_t
  next_mask :: md_paddr_t
  conf_max :: cint
  u_max :: cint
  ctable :: "prefetch_context_ent list"
  clast_paddr :: md_paddr_t

definition prefetch_context_create :: "cache_geom \<Rightarrow> cint \<Rightarrow> cint \<Rightarrow> cint \<Rightarrow> cint \<Rightarrow> cint \<Rightarrow> fatal + prefetch_context_t" where
  "prefetch_context_create c n tb nb cb ub =
     checks [(check_ppow2 n, Not_ppow2)]
       (prefetch_t.extend (prefetch_init c ''context'' (n * (tb + nb + cb + ub)))
         (prefetch_context_t.fields n (n - 1) tb nb cb ub (scast (shl (bit_mask_of tb) (log2_int n))) (scast (bit_mask_of nb))
           (bit_mask_of cb) (bit_mask_of ub)
           (replicate (unat n) \<lparr>ctag = 0, next_paddr = 0, cconf = 0, cu = 0\<rparr>) 0))"

text \<open>The prediction reads the confidence counter where the learnt address is meant.\<close>

definition context_predict :: "prefetch_context_t \<Rightarrow> md_paddr_t \<Rightarrow> md_paddr_t" where
  "context_predict s paddr =
     (let e = ctable s ! unat (pc_mask paddr (cmask s)) in
      if paddr AND tag_mask s = ctag e \<and> conf_max s \<le>s cconf e
      then (paddr AND NOT (next_mask s)) OR (scast (cconf e) AND next_mask s) else 0)"

definition context_train :: "prefetch_context_t \<Rightarrow> prefetch_context_ent \<Rightarrow> md_paddr_t \<Rightarrow> prefetch_context_ent" where
  "context_train s e paddr =
     (if clast_paddr s AND tag_mask s = ctag e
      then
        (let e = (if cu e <s u_max s then e\<lparr>cu := cu e + 1\<rparr> else e) in
         if paddr AND next_mask s = next_paddr e
         then (if cconf e <s conf_max s then e\<lparr>cconf := cconf e + 1\<rparr> else e)
         else
           (let e = e\<lparr>next_paddr := paddr AND next_mask s, cconf := 0\<rparr>
            in if 0 <s cu e then e\<lparr>cu := cu e - 1\<rparr> else e))
      else if 0 <s cu e then e\<lparr>cu := cu e - 1\<rparr>
      else e\<lparr>cu := u_max s, cconf := 0, ctag := clast_paddr s AND tag_mask s, next_paddr := paddr\<rparr>)"

definition prefetch_context_lookup :: "prefetch_context_t \<Rightarrow> md_addr_t \<Rightarrow> md_paddr_t \<Rightarrow> md_paddr_t \<times> prefetch_context_t" where
  "prefetch_context_lookup s PC paddr =
     (let s = pf_count s; pf = context_predict s paddr;
          index = unat (pc_mask (clast_paddr s) (cmask s))
      in (pf, s\<lparr>ctable := (ctable s)[index := context_train s (ctable s ! index) paddr], clast_paddr := paddr\<rparr>))"

section \<open>Stream (\<^verbatim>\<open>prefetch-stream.cpp\<close>)\<close>

text \<open>One table: the addresses and the \<^verbatim>\<open>next\<close> pointers of its entries, and the head pointer. The
  entries of \<^verbatim>\<open>calloc\<close> hold address 0 and are chained in order.\<close>

record prefetch_stream_table_t =
  slast_paddr :: "nat \<Rightarrow> md_paddr_t"
  snext :: links
  shead :: "nat option"

record prefetch_stream_t = prefetch_t +
  num_upstream_entries :: cint
  num_downstream_entries :: cint
  upstream :: prefetch_stream_table_t
  downstream :: prefetch_stream_table_t

definition stream_table_create :: "cint \<Rightarrow> prefetch_stream_table_t" where
  "stream_table_create n =
     \<lparr>slast_paddr = (\<lambda>_. 0),
      snext = (\<lambda>i. if int i < sint n - 1 then Some (i + 1) else None),
      shead = Some 0\<rparr>"

definition prefetch_stream_create :: "cache_geom \<Rightarrow> cint \<Rightarrow> cint \<Rightarrow> prefetch_stream_t" where
  "prefetch_stream_create c n m =
     prefetch_t.extend (prefetch_init c ''stream'' ((n + m) * (40 - 12)))
       (prefetch_stream_t.fields n m (stream_table_create n) (stream_table_create m))"

definition stream_find :: "md_paddr_t \<Rightarrow> prefetch_stream_table_t \<Rightarrow> (nat option \<times> nat option) option" where
  "stream_find page_addr t =
     find_from (\<lambda>x. page_addr = page_round_down (slast_paddr t x)) (snext t) None (shead t)"

definition stream_record :: "nat option \<Rightarrow> nat \<Rightarrow> md_paddr_t \<Rightarrow> prefetch_stream_table_t \<Rightarrow> prefetch_stream_table_t" where
  "stream_record prev x paddr t =
     (let t = t\<lparr>slast_paddr := (slast_paddr t)(x := paddr)\<rparr>; (n, h) = to_mru prev x (snext t, shead t)
      in t\<lparr>snext := n, shead := h\<rparr>)"

text \<open>The allocation loop \<^verbatim>\<open>while(p->next)\<close>; it reads the head without a test for \<^verbatim>\<open>NULL\<close>.\<close>

definition stream_alloc :: "md_paddr_t \<Rightarrow> prefetch_stream_table_t \<Rightarrow> prefetch_stream_table_t option" where
  "stream_alloc paddr t =
     (case find_from (\<lambda>x. snext t x = None) (snext t) None (shead t) of
        Some (prev, Some x) \<Rightarrow> Some (stream_record prev x paddr t)
      | _ \<Rightarrow> None)"

definition block_of :: "prefetch_stream_t \<Rightarrow> md_paddr_t \<Rightarrow> md_paddr_t" where
  "block_of s a = drop_bit (unat (geom_addr_shift (pf_cp s))) a"

definition block_size :: "prefetch_stream_t \<Rightarrow> md_paddr_t" where
  "block_size s = scast (shl 1 (geom_addr_shift (pf_cp s)))"

text \<open>The look-up: None stands for a dereferenced null pointer or a loop that does not end.\<close>

definition stream_train :: "prefetch_stream_t \<Rightarrow> bool \<Rightarrow> bool \<Rightarrow> bool \<Rightarrow> bool \<Rightarrow> md_paddr_t \<Rightarrow> (md_paddr_t \<times> prefetch_stream_t) option" where
  "stream_train s up_hit down_hit possible_up possible_down paddr =
     (if (\<not> up_hit \<and> \<not> down_hit) \<or> (\<not> up_hit \<and> possible_up)
      then map_option (\<lambda>t. (0, s\<lparr>upstream := t\<rparr>)) (stream_alloc paddr (upstream s))
      else if \<not> down_hit \<and> possible_down
      then map_option (\<lambda>t. (0, s\<lparr>downstream := t\<rparr>)) (stream_alloc paddr (downstream s))
      else Some (0, s))"

definition stream_check_down :: "prefetch_stream_t \<Rightarrow> bool \<Rightarrow> bool \<Rightarrow> md_paddr_t \<Rightarrow> (md_paddr_t \<times> prefetch_stream_t) option" where
  "stream_check_down s up_hit possible_down paddr =
     (case stream_find (page_round_down paddr) (downstream s) of
        None \<Rightarrow> None
      | Some (prev, None) \<Rightarrow> stream_train s up_hit False False possible_down paddr
      | Some (prev, Some x) \<Rightarrow>
          (let l = slast_paddr (downstream s) x in
           if block_of s paddr = block_of s l - 1
           then Some (paddr - block_size s, s\<lparr>downstream := stream_record prev x paddr (downstream s)\<rparr>)
           else stream_train s up_hit True (block_of s paddr = block_of s l + 1) possible_down paddr))"

definition prefetch_stream_lookup :: "prefetch_stream_t \<Rightarrow> md_addr_t \<Rightarrow> md_paddr_t \<Rightarrow> (md_paddr_t \<times> prefetch_stream_t) option" where
  "prefetch_stream_lookup s PC paddr =
     (let s = pf_count s in
      case stream_find (page_round_down paddr) (upstream s) of
        None \<Rightarrow> None
      | Some (prev, None) \<Rightarrow> stream_check_down s False False paddr
      | Some (prev, Some x) \<Rightarrow>
          (let l = slast_paddr (upstream s) x in
           if block_of s paddr = block_of s l + 1
           then Some (paddr + block_size s, s\<lparr>upstream := stream_record prev x paddr (upstream s)\<rparr>)
           else stream_check_down s True (block_of s paddr = block_of s l - 1) paddr))"

fun stream_run :: "prefetch_stream_t \<Rightarrow> (md_addr_t \<times> md_paddr_t) list \<Rightarrow> (md_paddr_t list \<times> prefetch_stream_t) option" where
  "stream_run s [] = Some ([], s)"
| "stream_run s ((PC, a) # as) =
     (case prefetch_stream_lookup s PC a of None \<Rightarrow> None
      | Some (pf, s) \<Rightarrow> map_option (\<lambda>(pfs, s). (pf # pfs, s)) (stream_run s as))"

fun IP_run :: "prefetch_IP_t \<Rightarrow> (md_addr_t \<times> md_paddr_t) list \<Rightarrow> md_paddr_t list \<times> prefetch_IP_t" where
  "IP_run s [] = ([], s)"
| "IP_run s ((PC, a) # as) =
     (let (pf, s) = prefetch_IP_lookup s PC a; (pfs, s) = IP_run s as in (pf # pfs, s))"

fun context_run :: "prefetch_context_t \<Rightarrow> (md_addr_t \<times> md_paddr_t) list \<Rightarrow> md_paddr_t list \<times> prefetch_context_t" where
  "context_run s [] = ([], s)"
| "context_run s ((PC, a) # as) =
     (let (pf, s) = prefetch_context_lookup s PC a; (pfs, s) = context_run s as in (pf # pfs, s))"

section \<open>The instruction pointer prefetcher locks on\<close>

lemma scast_bit_mask_of:
  assumes "unat k \<le> 31"
  shows "(scast (bit_mask_of k) :: 64 word) = mask (unat k)"
    and "(scast (NOT (bit_mask_of k)) :: 64 word) = NOT (mask (unat k))"
proof -
  have m: "bit_mask_of k = mask (unat k)" by (simp add: bit_mask_of_def shl_def mask_eq_exp_minus_1)
  show "(scast (bit_mask_of k) :: 64 word) = mask (unat k)"
    unfolding m by (rule bit_word_eqI) (use assms in \<open>auto simp: bit_simps min_def\<close>)
  show "(scast (NOT (bit_mask_of k)) :: 64 word) = NOT (mask (unat k))"
    unfolding m by (rule bit_word_eqI) (use assms in \<open>auto simp: bit_simps min_def\<close>)
qed

lemma take_bit_diff_word:
  fixes x y :: "64 word"
  assumes "take_bit n y = take_bit n z" and "n \<le> 64"
  shows "take_bit n (x - y) = take_bit n (x - z)"
proof -
  have "uint (take_bit n (x - w)) = take_bit n (uint x - take_bit n (uint w))" for w :: "64 word"
  proof -
    have "uint (take_bit n (x - w)) = take_bit n ((uint x - uint w) mod 2 ^ 64)"
      by (simp add: unsigned_take_bit_eq uint_word_ariths)
    then show ?thesis
      using mod_mod_cancel [OF le_imp_power_dvd [OF assms(2)], of "uint x - uint w" 2]
      by (simp add: take_bit_eq_mod mod_diff_right_eq)
  qed
  then show ?thesis using assms(1) by (metis unsigned_take_bit_eq word_uint_eq_iff)
qed

lemma this_stride_eq:
  assumes "unat sb \<le> unat ab" and "unat ab \<le> 31"
  shows "this_stride (bit_mask_of ab) (bit_mask_of sb) (take_bit (unat ab) prev) a = ucast (take_bit (unat sb) (a - prev))"
proof -
  let ?y = "(a AND NOT (mask (unat ab))) OR take_bit (unat ab) prev"
  have "take_bit (unat sb) ?y = take_bit (unat sb) prev"
    by (rule bit_word_eqI) (use assms in \<open>auto simp: bit_simps\<close>)
  then have "take_bit (unat sb) (a - ?y) = take_bit (unat sb) (a - prev)"
    using assms by (intro take_bit_diff_word) auto
  then show ?thesis
    using assms by (simp add: this_stride_def scast_bit_mask_of take_bit_eq_mask)
qed

lemma scast_ucast_small: "n \<le> 31 \<Longrightarrow> scast (ucast (take_bit n d) :: cint) = take_bit n d" for d :: "64 word"
  by (rule bit_word_eqI) (auto simp: bit_simps min_def)

text \<open>The stages of an entry that sees addresses \<open>d\<close> apart: it has the last address; it also has the
  stride, with some confidence; it also remembers the prefetch of the last access.\<close>

definition seen :: "cint \<Rightarrow> md_paddr_t \<Rightarrow> prefetch_IP_ent \<Rightarrow> bool" where
  "seen ab a e \<longleftrightarrow> last_paddr e = take_bit (unat ab) a \<and> ctr_ok (conf e)"

definition strided :: "cint \<Rightarrow> cint \<Rightarrow> md_paddr_t \<Rightarrow> nat \<Rightarrow> md_paddr_t \<Rightarrow> prefetch_IP_ent \<Rightarrow> bool" where
  "strided ab sb d k a e \<longleftrightarrow> seen ab a e \<and> last_stride e = ucast (take_bit (unat sb) d) \<and> k \<le> ctr_val (conf e)"

definition prefetched :: "cint \<Rightarrow> cint \<Rightarrow> md_paddr_t \<Rightarrow> md_paddr_t \<Rightarrow> prefetch_IP_ent \<Rightarrow> bool" where
  "prefetched sb pb d a e \<longleftrightarrow> last_prefetch e = take_bit (unat pb) (a + take_bit (unat sb) d)"

lemma ctr_val_strong_taken [simp]: "ctr_val MY2BC_STRONG_TAKEN = 3"
  by (simp add: ctr_consts ctr_val_def MY2BC_DIR_def MY2BC_HYST_def)

lemma update_taken_val: "ctr_ok c \<Longrightarrow> ctr_val (MY2BC_UPDATE c True) = min 3 (ctr_val c + 1)"
  by (auto simp: ctr_cases ctr_val_def update_table MY2BC_DIR_def MY2BC_HYST_def)

abbreviation IP_step :: "cint \<Rightarrow> cint \<Rightarrow> cint \<Rightarrow> prefetch_IP_ent \<Rightarrow> md_paddr_t \<Rightarrow> md_paddr_t \<times> prefetch_IP_ent" where
  "IP_step ab sb pb \<equiv> IP_train (bit_mask_of ab) (bit_mask_of sb) (bit_mask_of pb)"

lemma IP_train_ok: "ctr_ok (conf e) \<Longrightarrow> ctr_ok (conf (snd (IP_train am sm pm e a)))"
  by (simp add: IP_train_def Let_def)

lemma IP_step_seen:
  "unat ab \<le> 31 \<Longrightarrow> ctr_ok (conf e) \<Longrightarrow> seen ab a (snd (IP_step ab sb pb e a))"
  by (simp add: seen_def IP_train_def Let_def scast_bit_mask_of take_bit_eq_mask)

lemma IP_step_strided0:
  assumes "seen ab a e" and "unat sb \<le> unat ab" and "unat ab \<le> 31"
  shows "strided ab sb d 0 (a + d) (snd (IP_step ab sb pb e (a + d)))"
  using assms IP_step_seen [of ab e "a + d" sb pb] this_stride_eq [of sb ab a "a + d"]
  by (simp add: strided_def seen_def IP_train_def Let_def)

lemma IP_step_strided:
  assumes "strided ab sb d k a e" and "unat sb \<le> unat ab" and "unat ab \<le> 31"
  shows "strided ab sb d (min 3 (k + 1)) (a + d) (snd (IP_step ab sb pb e (a + d)))"
  using assms IP_step_strided0 [of ab a e sb d pb] this_stride_eq [of sb ab a "a + d"]
  by (auto simp: strided_def seen_def IP_train_def Let_def update_taken_val min_def)

lemma IP_step_prefetch:
  assumes "strided ab sb d 2 a e" and "unat sb \<le> unat ab" and "unat ab \<le> 31" and "unat pb \<le> 31"
  shows "fst (IP_step ab sb pb e (a + d)) =
      (if take_bit (unat pb) (a + d + take_bit (unat sb) d) = last_prefetch e then 0 else a + d + take_bit (unat sb) d)"
    and "last_prefetch (snd (IP_step ab sb pb e (a + d))) = take_bit (unat pb) (fst (IP_step ab sb pb e (a + d)))"
proof -
  have "MY2BC_UPDATE (conf e) True = MY2BC_STRONG_TAKEN"
    using assms(1) ctr_val_le3 [of "conf e"] update_taken_val [of "conf e"] strong_taken_iff [of "MY2BC_UPDATE (conf e) True"]
    by (simp add: strided_def seen_def)
  then show "fst (IP_step ab sb pb e (a + d)) =
      (if take_bit (unat pb) (a + d + take_bit (unat sb) d) = last_prefetch e then 0 else a + d + take_bit (unat sb) d)"
    and "last_prefetch (snd (IP_step ab sb pb e (a + d))) = take_bit (unat pb) (fst (IP_step ab sb pb e (a + d)))"
    using assms this_stride_eq [of sb ab a "a + d"]
    by (simp_all add: strided_def seen_def IP_train_def Let_def scast_bit_mask_of scast_ucast_small flip: take_bit_eq_mask)
qed

lemma take_bit_shift_neq:
  assumes "take_bit n d \<noteq> 0" and "n \<le> 64"
  shows "take_bit n (x + d) \<noteq> take_bit n (x :: 64 word)"
  using take_bit_diff_word [of n "x + d" x "x + d"] assms by auto

lemma IP_step_locked:
  assumes "strided ab sb d 2 a e" and "prefetched sb pb d a e"
    and "unat sb \<le> unat ab" and "unat ab \<le> 31" and "unat pb \<le> 31" and "take_bit (unat pb) d \<noteq> 0"
  shows "fst (IP_step ab sb pb e (a + d)) = a + d + take_bit (unat sb) d"
    and "prefetched sb pb d (a + d) (snd (IP_step ab sb pb e (a + d)))"
proof -
  have "take_bit (unat pb) (a + d + take_bit (unat sb) d) \<noteq> take_bit (unat pb) (a + take_bit (unat sb) d)"
    using take_bit_shift_neq [of "unat pb" d "a + take_bit (unat sb) d"] assms(5,6) by (simp add: ac_simps)
  then show "fst (IP_step ab sb pb e (a + d)) = a + d + take_bit (unat sb) d"
    using IP_step_prefetch(1) [OF assms(1,3,4,5)] assms(2) by (simp add: prefetched_def)
  then show "prefetched sb pb d (a + d) (snd (IP_step ab sb pb e (a + d)))"
    using IP_step_prefetch(2) [OF assms(1,3,4,5)] by (simp add: prefetched_def)
qed

text \<open>Two confident accesses suffice for the third: either a prefetch was made, or it was suppressed
  twice, and then the remembered value 0 is that of the last prefetch address.\<close>

lemma IP_two_steps_locked:
  assumes s: "strided ab sb d 2 a e" and l: "unat sb \<le> unat ab" "unat ab \<le> 31" "unat pb \<le> 31" and d: "take_bit (unat pb) d \<noteq> 0"
  shows "prefetched sb pb d (a + d + d) (snd (IP_step ab sb pb (snd (IP_step ab sb pb e (a + d))) (a + d + d)))"
proof -
  let ?e = "snd (IP_step ab sb pb e (a + d))"
  have s': "strided ab sb d 2 (a + d) ?e" using IP_step_strided [OF s l(1,2), of pb] by (simp add: strided_def)
  show ?thesis
  proof (cases "prefetched sb pb d (a + d) ?e")
    case True
    then show ?thesis by (rule IP_step_locked(2) [OF s' _ l d])
  next
    case False
    then have "last_prefetch ?e = 0"
      using IP_step_prefetch [OF s l] by (auto simp: prefetched_def split: if_splits)
    then show ?thesis
      using IP_step_prefetch [OF s' l] by (auto simp: prefetched_def)
  qed
qed

text \<open>From the sixth access on, the entry is locked.\<close>

fun IP_ents :: "cint \<Rightarrow> cint \<Rightarrow> cint \<Rightarrow> md_paddr_t \<Rightarrow> md_paddr_t \<Rightarrow> prefetch_IP_ent \<Rightarrow> nat \<Rightarrow> prefetch_IP_ent" where
  "IP_ents ab sb pb d a e 0 = e"
| "IP_ents ab sb pb d a e (Suc i) = snd (IP_step ab sb pb (IP_ents ab sb pb d a e i) (a + of_nat i * d))"

lemma IP_ents_locked:
  assumes l: "unat sb \<le> unat ab" "unat ab \<le> 31" "unat pb \<le> 31" and d: "take_bit (unat pb) d \<noteq> 0"
    and e: "ctr_ok (conf e)"
  shows "strided ab sb d 2 (a + of_nat (5 + i) * d) (IP_ents ab sb pb d a e (6 + i)) \<and>
    prefetched sb pb d (a + of_nat (5 + i) * d) (IP_ents ab sb pb d a e (6 + i))"
proof -
  define A where "A j = a + of_nat j * d" for j
  define E where "E = IP_ents ab sb pb d a e"
  have A: "A (Suc j) = A j + d" for j by (simp add: A_def algebra_simps)
  have E: "E (Suc j) = snd (IP_step ab sb pb (E j) (A j))" for j by (simp add: E_def A_def)
  have step: "strided ab sb d (min 3 (k + 1)) (A (Suc j)) (E (Suc (Suc j)))" if "strided ab sb d k (A j) (E (Suc j))" for k j
    using IP_step_strided [OF that l(1,2), of pb] E [of "Suc j"] A [of j] by simp
  have "seen ab (A 0) (E (Suc 0))" using IP_step_seen [OF l(2) e, of a sb pb] by (simp add: E A_def) (simp add: E_def)
  then have "strided ab sb d 0 (A 1) (E 2)"
    using IP_step_strided0 [OF _ l(1,2), of "A 0" "E (Suc 0)" d pb] E [of 1] A [of 0] by (simp add: numeral_2_eq_2)
  then have "strided ab sb d 1 (A 2) (E 3)" using step [of 0 1] by (simp add: numeral_2_eq_2 numeral_3_eq_3)
  then have s3: "strided ab sb d 2 (A 3) (E 4)" using step [of 1 2] by (simp add: eval_nat_numeral)
  have "strided ab sb d 2 (A (5 + i)) (E (6 + i)) \<and> prefetched sb pb d (A (5 + i)) (E (6 + i))"
  proof (induction i)
    case 0
    have s4: "strided ab sb d 2 (A 4) (E 5)" using step [of 2 3] s3 by (simp add: eval_nat_numeral strided_def)
    have s5: "strided ab sb d 2 (A 5) (E 6)" using step [of 2 4] s4 by (simp add: eval_nat_numeral strided_def)
    have "A 4 = A 3 + d" "A 5 = A 3 + d + d" "E 5 = snd (IP_step ab sb pb (E 4) (A 4))" "E 6 = snd (IP_step ab sb pb (E 5) (A 5))"
      using A [of 3] A [of 4] E [of 4] E [of 5] by simp_all
    then show ?case using s5 IP_two_steps_locked [OF s3 l d] by simp
  next
    case (Suc i)
    have "A (5 + Suc i) = A (5 + i) + d" "E (6 + Suc i) = snd (IP_step ab sb pb (E (6 + i)) (A (5 + i) + d))"
      using A [of "5 + i"] E [of "6 + i"] by simp_all
    moreover have "strided ab sb d 2 (A (5 + Suc i)) (E (6 + Suc i))"
      using step [of 2 "5 + i"] Suc.IH by (simp add: strided_def)
    ultimately show ?case
      using IP_step_locked(2) [of ab sb d "A (5 + i)" "E (6 + i)" pb] Suc.IH l d by simp
  qed
  then show ?thesis by (simp only: A_def E_def)
qed

text \<open>The table: its masks and size are those of the constructor, its counters have two bits.\<close>

definition IP_ok :: "cint \<Rightarrow> cint \<Rightarrow> cint \<Rightarrow> cint \<Rightarrow> prefetch_IP_t \<Rightarrow> bool" where
  "IP_ok n ab sb pb s \<longleftrightarrow> check_ppow2 n \<and> ip_mask s = n - 1 \<and> length (table s) = unat n \<and>
     last_addr_mask s = bit_mask_of ab \<and> last_stride_mask s = bit_mask_of sb \<and> last_prefetch_mask s = bit_mask_of pb \<and>
     list_all (\<lambda>e. ctr_ok (conf e)) (table s)"

lemma prefetch_IP_create_ok: "prefetch_IP_create c n ab sb pb = Inr s \<Longrightarrow> IP_ok n ab sb pb s"
  by (auto simp: prefetch_IP_create_def checks_Inr_iff IP_ok_def prefetch_t.defs prefetch_IP_t.defs prefetch_init_def list_all_length)

lemma prefetch_IP_lookup_step:
  assumes "IP_ok n ab sb pb s"
  shows "unat (pc_mask PC (ip_mask s)) < length (table s)"
    and "IP_ok n ab sb pb (snd (prefetch_IP_lookup s PC a))"
    and "fst (prefetch_IP_lookup s PC a) = fst (IP_step ab sb pb (table s ! unat (pc_mask PC (n - 1))) a)"
    and "table (snd (prefetch_IP_lookup s PC a)) ! unat (pc_mask PC (n - 1)) = snd (IP_step ab sb pb (table s ! unat (pc_mask PC (n - 1))) a)"
proof -
  let ?x = "unat (pc_mask PC (n - 1))"
  let ?r = "IP_step ab sb pb (table s ! ?x) a"
  have m: "ip_mask s = n - 1" and l: "?x < length (table s)" using assms by (auto simp: IP_ok_def)
  then show "unat (pc_mask PC (ip_mask s)) < length (table s)" by simp
  have e: "prefetch_IP_lookup s PC a = (fst ?r, (pf_count s)\<lparr>table := (table s)[?x := snd ?r]\<rparr>)"
    using assms by (simp add: prefetch_IP_lookup_def pf_count_def IP_ok_def Let_def case_prod_beta)
  have "ctr_ok (conf (snd ?r))"
    using assms l by (intro IP_train_ok) (auto simp: IP_ok_def list_all_length)
  then show "IP_ok n ab sb pb (snd (prefetch_IP_lookup s PC a))"
    using assms by (simp add: e IP_ok_def pf_count_def list_all_update)
  show "fst (prefetch_IP_lookup s PC a) = fst ?r" and "table (snd (prefetch_IP_lookup s PC a)) ! ?x = snd ?r"
    using l by (simp_all add: e)
qed

lemma IP_run_ok: "IP_ok n ab sb pb s \<Longrightarrow> IP_ok n ab sb pb (snd (IP_run s as))"
proof (induction as arbitrary: s)
  case (Cons x as)
  then show ?case
    using Cons.IH [OF prefetch_IP_lookup_step(2) [OF Cons.prems, of "fst x" "snd x"]]
    by (cases x) (auto split: prod.splits)
qed simp

lemma IP_run_nth:
  assumes "IP_ok n ab sb pb s" and "i < m"
  shows "fst (IP_run s (map (\<lambda>j. (PC, a + of_nat (k + j) * d)) [0 ..< m])) ! i =
    fst (IP_step ab sb pb (IP_ents ab sb pb d (a + of_nat k * d) (table s ! unat (pc_mask PC (n - 1))) i) (a + of_nat (k + i) * d))"
  using assms
proof (induction m arbitrary: s k i)
  case (Suc m)
  let ?x = "unat (pc_mask PC (n - 1))" and ?s = "snd (prefetch_IP_lookup s PC (a + of_nat k * d))"
  have e: "map (\<lambda>j. (PC, a + of_nat (k + j) * d)) [0 ..< Suc m] =
      (PC, a + of_nat k * d) # map (\<lambda>j. (PC, a + of_nat (Suc k + j) * d)) [0 ..< m]"
    by (subst upt_conv_Cons) (auto simp: map_Suc_upt [symmetric] ac_simps simp del: upt_Suc)
  note st = prefetch_IP_lookup_step(2-4) [OF Suc.prems(1), of PC "a + of_nat k * d"]
  show ?case
  proof (cases i)
    case 0
    then show ?thesis unfolding e using st(2) by (auto split: prod.splits)
  next
    case (Suc j)
    have ents: "IP_ents ab sb pb d (a + d + of_nat k * d) (snd (IP_step ab sb pb v (a + of_nat k * d))) j =
        IP_ents ab sb pb d (a + of_nat k * d) v (Suc j)" for v
      by (induction j) (simp_all add: algebra_simps)
    show ?thesis
      unfolding e using Suc.IH [OF st(1), of j "Suc k"] Suc Suc.prems st(3) ents [of "table s ! ?x"]
      by (auto simp: algebra_simps split: prod.splits)
  qed
qed simp

section \<open>What the context prefetcher returns\<close>

definition context_ok :: "cint \<Rightarrow> md_paddr_t \<Rightarrow> cint \<Rightarrow> prefetch_context_t \<Rightarrow> bool" where
  "context_ok n nm cm s \<longleftrightarrow> check_ppow2 n \<and> cmask s = n - 1 \<and> length (ctable s) = unat n \<and>
     next_mask s = nm \<and> conf_max s = cm \<and> list_all (\<lambda>e. sint (cconf e) \<le> sint cm) (ctable s)"

lemma context_train_conf:
  assumes "sint (cconf e) \<le> sint (conf_max s)" and "0 \<le> sint (conf_max s)"
  shows "sint (cconf (context_train s e a)) \<le> sint (conf_max s)"
proof -
  have "sint (cconf e + 1) \<le> sint (conf_max s)" if "sint (cconf e) < sint (conf_max s)"
  proof -
    have "unat (cconf e + 1) = (unat (cconf e) + 1) mod 2 ^ 32" by (simp add: unat_word_ariths)
    then have "unat (cconf e + 1) = (if unat (cconf e) = 4294967295 then 0 else unat (cconf e) + 1)"
      using unat_lt32 [of "cconf e"] by (cases "unat (cconf e) = 4294967295") auto
    then show ?thesis
      using that unat_lt32 [of "conf_max s"] unfolding sint_cint by (simp split: if_splits del: uint_nat)
  qed
  then show ?thesis using assms by (simp add: context_train_def Let_def word_sless_alt)
qed

lemma prefetch_context_lookup_ok:
  assumes "context_ok n nm cm s" and "0 \<le> sint cm"
  shows "context_ok n nm cm (snd (prefetch_context_lookup s PC a))"
    and "fst (prefetch_context_lookup s PC a) \<in> {0, (a AND NOT nm) OR (scast cm AND nm)}"
proof -
  let ?s = "pf_count s" and ?x = "unat (pc_mask (clast_paddr s) (n - 1))" and ?y = "unat (pc_mask a (n - 1))"
  have x: "?x < length (ctable s)" and y: "?y < length (ctable s)" using assms by (auto simp: context_ok_def)
  then have "sint (cconf (context_train ?s (ctable s ! ?x) a)) \<le> sint cm"
    using assms context_train_conf [of "ctable s ! ?x" ?s a] by (auto simp: context_ok_def list_all_length pf_count_def)
  then show "context_ok n nm cm (snd (prefetch_context_lookup s PC a))"
    using assms by (simp add: prefetch_context_lookup_def Let_def context_ok_def pf_count_def list_all_update)
  have "cconf (ctable s ! ?y) = cm" if "cm \<le>s cconf (ctable s ! ?y)"
    using that assms y by (intro signed.order.antisym) (auto simp: word_sle_eq context_ok_def list_all_length)
  then show "fst (prefetch_context_lookup s PC a) \<in> {0, (a AND NOT nm) OR (scast cm AND nm)}"
    using assms by (auto simp: prefetch_context_lookup_def context_predict_def Let_def context_ok_def pf_count_def)
qed

lemma context_run_outputs:
  assumes "context_ok n nm cm s" and "0 \<le> sint cm"
  shows "list_all2 (\<lambda>x pf. pf \<in> {0, (snd x AND NOT nm) OR (scast cm AND nm)}) as (fst (context_run s as))"
  using assms(1)
proof (induction as arbitrary: s)
  case (Cons x as)
  note ok = prefetch_context_lookup_ok [OF Cons.prems assms(2), of "fst x" "snd x"]
  show ?case using ok(2) Cons.IH [OF ok(1)] by (cases x) (auto split: prod.splits)
qed simp

section \<open>Streams as recency lists\<close>

text \<open>The reference: two lists of addresses, most recent first. An access continues the stream of its
  page in either direction, or starts a stream in place of the oldest one.\<close>

definition same_page :: "md_paddr_t \<Rightarrow> md_paddr_t \<Rightarrow> bool" where
  "same_page a b \<longleftrightarrow> page_round_down a = page_round_down b"

definition promote :: "md_paddr_t \<Rightarrow> md_paddr_t list \<Rightarrow> md_paddr_t list" where
  "promote a xs = a # takeWhile (\<lambda>b. \<not> same_page a b) xs @ tl (dropWhile (\<lambda>b. \<not> same_page a b) xs)"

definition mru_streams :: "nat \<Rightarrow> md_paddr_t \<Rightarrow> md_paddr_t list \<times> md_paddr_t list \<Rightarrow> md_paddr_t \<times> md_paddr_t list \<times> md_paddr_t list" where
  "mru_streams k a = (\<lambda>(U, D).
     (let blk = drop_bit k; u = find (same_page a) U; d = find (same_page a) D;
          next_of = (\<lambda>v. blk a = blk v + 1); prev_of = (\<lambda>v. blk a = blk v - 1) in
      if (case u of None \<Rightarrow> False | Some v \<Rightarrow> next_of v) then (a + 2 ^ k, promote a U, D)
      else if (case d of None \<Rightarrow> False | Some v \<Rightarrow> prev_of v) then (a - 2 ^ k, U, promote a D)
      else if u = None \<and> (case d of None \<Rightarrow> True | Some v \<Rightarrow> next_of v) then (0, a # butlast U, D)
      else if d = None \<and> (case u of None \<Rightarrow> False | Some v \<Rightarrow> prev_of v) then (0, U, a # butlast D)
      else (0, U, D)))"

fun mru_run :: "nat \<Rightarrow> md_paddr_t list \<Rightarrow> md_paddr_t list \<times> md_paddr_t list \<Rightarrow> md_paddr_t list" where
  "mru_run k [] S = []"
| "mru_run k (a # as) S = (let (pf, S') = mru_streams k a S in pf # mru_run k as S')"

definition table_shows :: "prefetch_stream_table_t \<Rightarrow> md_paddr_t list \<Rightarrow> bool" where
  "table_shows t xs \<longleftrightarrow> (\<exists>ns. linked (snext t) (shead t) ns \<and> xs = map (slast_paddr t) ns)"

definition stream_shows :: "prefetch_stream_t \<Rightarrow> md_paddr_t list \<times> md_paddr_t list \<Rightarrow> bool" where
  "stream_shows s = (\<lambda>(U, D). table_shows (upstream s) U \<and> table_shows (downstream s) D \<and> U \<noteq> [] \<and> D \<noteq> [])"

lemma promote_split: "\<forall>y \<in> set ys. \<not> same_page a y \<Longrightarrow> same_page a x \<Longrightarrow> promote a (ys @ x # zs) = a # ys @ zs"
  by (simp add: promote_def)

lemma find_first: "\<forall>y \<in> set ys. \<not> P y \<Longrightarrow> P x \<Longrightarrow> find P (ys @ x # zs) = Some x"
  by (induction ys) auto

lemma stream_record_shows:
  assumes "linked (snext t) (shead t) (ys @ x # zs)"
  shows "table_shows (stream_record (last_opt None ys) x a t) (a # map (slast_paddr t) (ys @ zs))"
proof -
  obtain n where "to_mru (last_opt None ys) x (snext t, shead t) = (n, Some x)" and "linked n (Some x) (x # ys @ zs)"
    using to_mru_linked [OF assms] by blast
  then show ?thesis
    unfolding table_shows_def by (intro exI [of _ "x # ys @ zs"]) (auto simp: stream_record_def linked_def)
qed

text \<open>What the search finds in a table that shows a list.\<close>

lemma stream_find_shows:
  assumes "table_shows t xs"
  shows "(case find (same_page a) xs of
     None \<Rightarrow> \<exists>prev. stream_find (page_round_down a) t = Some (prev, None)
   | Some v \<Rightarrow> \<exists>prev x. stream_find (page_round_down a) t = Some (prev, Some x) \<and> slast_paddr t x = v \<and>
       table_shows (stream_record prev x a t) (promote a xs))"
proof -
  obtain ns where ns: "linked (snext t) (shead t) ns" and xs: "xs = map (slast_paddr t) ns"
    using assms by (auto simp: table_shows_def)
  show ?thesis
  proof (cases "\<exists>x \<in> set ns. same_page a (slast_paddr t x)")
    case False
    then have "find (same_page a) xs = None" by (auto simp: find_None_iff xs)
    moreover have "\<exists>prev. stream_find (page_round_down a) t = Some (prev, None)"
      using False unfolding stream_find_def by (subst find_from_miss [OF ns]) (auto simp: same_page_def)
    ultimately show ?thesis by simp
  next
    case True
    then obtain ys x zs where e: "ns = ys @ x # zs" and x: "same_page a (slast_paddr t x)"
      and ys: "\<forall>y \<in> set ys. \<not> same_page a (slast_paddr t y)"
      using split_list_first_prop [of ns "\<lambda>x. same_page a (slast_paddr t x)"] by blast
    have "find (same_page a) xs = Some (slast_paddr t x)"
      using x ys by (simp add: xs e find_first)
    moreover have "stream_find (page_round_down a) t = Some (last_opt None ys, Some x)"
      unfolding stream_find_def using ns x ys unfolding e same_page_def by (intro find_from_hit) auto
    moreover have "table_shows (stream_record (last_opt None ys) x a t) (promote a xs)"
      using stream_record_shows [of t ys x zs a] ns x ys unfolding xs e by (simp add: promote_split)
    ultimately show ?thesis by auto
  qed
qed

lemma stream_alloc_shows:
  assumes "table_shows t xs" and "xs \<noteq> []"
  obtains t' where "stream_alloc a t = Some t'" and "table_shows t' (a # butlast xs)"
proof -
  obtain ns where ns: "linked (snext t) (shead t) ns" and xs: "xs = map (slast_paddr t) ns"
    using assms by (auto simp: table_shows_def)
  with assms obtain ys x where e: "ns = ys @ [x]" by (cases ns rule: rev_cases) auto
  have "stream_alloc a t = Some (stream_record (last_opt None ys) x a t)"
    using find_from_last ns unfolding e by (simp add: stream_alloc_def)
  moreover have "table_shows (stream_record (last_opt None ys) x a t) (a # butlast xs)"
    using stream_record_shows [of t ys x "[]" a] ns xs unfolding e by simp
  ultimately show thesis by (rule that)
qed

lemma lseg_chain:
  "lseg (\<lambda>i. if int i < int n - 1 then Some (i + 1) else None) (Some k) [k ..< k + Suc d] None" if "n = k + Suc d"
  using that
proof (induction d arbitrary: k)
  case (Suc d)
  have "[k ..< k + Suc (Suc d)] = k # [Suc k ..< Suc k + Suc d]" by (simp add: upt_rec)
  moreover have "n = Suc k + Suc d" using Suc.prems by simp
  ultimately show ?case using Suc.IH [of "Suc k"] Suc.prems by simp
qed simp

lemma stream_table_create_shows:
  "0 < sint n \<Longrightarrow> table_shows (stream_table_create n) (replicate (unat n) 0)"
proof -
  assume n: "0 < sint n"
  then have s: "sint n = int (unat n)" "0 < unat n" using sint_pos_iff [of n] by (simp_all add: sint_cint)
  show ?thesis
    unfolding table_shows_def using lseg_chain [of "unat n" 0 "unat n - 1"] s
    by (intro exI [of _ "[0 ..< unat n]"]) (simp add: stream_table_create_def linked_def map_replicate_const)
qed

lemma promote_ne [simp]: "promote a xs \<noteq> []" by (simp add: promote_def)

lemma block_size_power:
  "unat (geom_addr_shift (pf_cp s)) < 31 \<Longrightarrow> block_size s = 2 ^ unat (geom_addr_shift (pf_cp s))"
  by (rule bit_word_eqI) (auto simp: block_size_def shl_def bit_simps min_def)

text \<open>A look-up of the prefetcher is a step of the reference, and returns.\<close>

definition follows :: "prefetch_stream_t \<Rightarrow> (md_paddr_t \<times> prefetch_stream_t) option \<Rightarrow>
    md_paddr_t \<times> md_paddr_t list \<times> md_paddr_t list \<Rightarrow> bool" where
  "follows s r v \<longleftrightarrow> (\<exists>s'. r = Some (fst v, s') \<and> stream_shows s' (snd v) \<and> pf_cp s' = pf_cp s)"

lemma stream_train_follows:
  assumes "stream_shows s (U, D)"
  shows "follows s (stream_train s uh dh pu pd a)
    (if (\<not> uh \<and> \<not> dh) \<or> (\<not> uh \<and> pu) then (0, a # butlast U, D)
     else if \<not> dh \<and> pd then (0, U, a # butlast D) else (0, U, D))"
proof -
  obtain u where "stream_alloc a (upstream s) = Some u" and "table_shows u (a # butlast U)"
    using assms stream_alloc_shows [of "upstream s" U a] by (auto simp: stream_shows_def)
  moreover obtain d where "stream_alloc a (downstream s) = Some d" and "table_shows d (a # butlast D)"
    using assms stream_alloc_shows [of "downstream s" D a] by (auto simp: stream_shows_def)
  ultimately show ?thesis using assms by (auto simp: stream_train_def follows_def stream_shows_def)
qed

lemma stream_check_down_follows:
  assumes S: "stream_shows s (U, D)" and k: "unat (geom_addr_shift (pf_cp s)) = k" "k < 31"
  shows "follows s (stream_check_down s uh pd a)
    (case find (same_page a) D of
       None \<Rightarrow> if \<not> uh then (0, a # butlast U, D) else if pd then (0, U, a # butlast D) else (0, U, D)
     | Some v \<Rightarrow> if drop_bit k a = drop_bit k v - 1 then (a - 2 ^ k, U, promote a D)
         else if \<not> uh \<and> drop_bit k a = drop_bit k v + 1 then (0, a # butlast U, D) else (0, U, D))"
proof -
  have b: "block_size s = 2 ^ k" "block_of s = drop_bit k"
    using k block_size_power [of s] by (auto simp: block_of_def fun_eq_iff)
  have D: "table_shows (downstream s) D" using S by (simp add: stream_shows_def)
  show ?thesis
  proof (cases "find (same_page a) D")
    case None
    then obtain prev where "stream_find (page_round_down a) (downstream s) = Some (prev, None)"
      using stream_find_shows [OF D, of a] by auto
    then show ?thesis
      using stream_train_follows [OF S, of uh False False pd a] None
      by (cases uh; cases pd) (simp_all add: stream_check_down_def)
  next
    case (Some v)
    then obtain prev x where "stream_find (page_round_down a) (downstream s) = Some (prev, Some x)"
      and "slast_paddr (downstream s) x = v" and "table_shows (stream_record prev x a (downstream s)) (promote a D)"
      using stream_find_shows [OF D, of a] by auto
    then show ?thesis
      using stream_train_follows [OF S, of uh True "drop_bit k a = drop_bit k v + 1" pd a] Some b S
      by (auto simp: stream_check_down_def follows_def stream_shows_def)
  qed
qed

lemma prefetch_stream_lookup_follows:
  assumes S: "stream_shows s (U, D)" and k: "unat (geom_addr_shift (pf_cp s)) = k" "k < 31"
  shows "follows s (prefetch_stream_lookup s PC a) (mru_streams k a (U, D))"
proof -
  let ?s = "pf_count s"
  have S': "stream_shows ?s (U, D)" and c: "pf_cp ?s = pf_cp s" using S by (simp_all add: stream_shows_def pf_count_def)
  have b: "block_size ?s = 2 ^ k" "block_of ?s = drop_bit k"
    using k c block_size_power [of ?s] by (auto simp: block_of_def fun_eq_iff)
  have U: "table_shows (upstream ?s) U" using S' by (simp add: stream_shows_def)
  note down = stream_check_down_follows [OF S', unfolded c, OF k]
  have f: "follows ?s = follows s" by (simp add: follows_def fun_eq_iff c)
  show ?thesis
  proof (cases "find (same_page a) U")
    case None
    then obtain prev where "stream_find (page_round_down a) (upstream ?s) = Some (prev, None)"
      using stream_find_shows [OF U, of a] by auto
    then show ?thesis
      using down [of False False a] None
      by (cases "find (same_page a) D") (auto simp: prefetch_stream_lookup_def mru_streams_def Let_def f)
  next
    case (Some v)
    then obtain prev x where "stream_find (page_round_down a) (upstream ?s) = Some (prev, Some x)"
      and "slast_paddr (upstream ?s) x = v" and "table_shows (stream_record prev x a (upstream ?s)) (promote a U)"
      using stream_find_shows [OF U, of a] by auto
    moreover have "follows s (stream_check_down ?s True (drop_bit k a = drop_bit k v - 1) a) (mru_streams k a (U, D))"
      if "drop_bit k a \<noteq> drop_bit k v + 1"
      using down [of True "drop_bit k a = drop_bit k v - 1" a] Some that
      by (cases "find (same_page a) D") (auto simp: mru_streams_def Let_def f)
    ultimately show ?thesis
      using Some b S' c
      by (cases "drop_bit k a = drop_bit k v + 1")
        (auto simp: prefetch_stream_lookup_def Let_def mru_streams_def stream_shows_def follows_def)
  qed
qed

lemma stream_run_follows:
  assumes "stream_shows s S" and "unat (geom_addr_shift (pf_cp s)) = k" and "k < 31"
  shows "map_option fst (stream_run s as) = Some (mru_run k (map snd as) S)"
  using assms
proof (induction as arbitrary: s S)
  case (Cons x as)
  obtain PC a where x: "x = (PC, a)" by (cases x)
  obtain U D where S: "S = (U, D)" by (cases S)
  obtain s' where "prefetch_stream_lookup s PC a = Some (fst (mru_streams k a S), s')"
    and "stream_shows s' (snd (mru_streams k a S))" and "pf_cp s' = pf_cp s"
    using prefetch_stream_lookup_follows [of s U D k PC a] Cons.prems unfolding S follows_def by auto
  moreover from this have "map_option fst (stream_run s' as) = Some (mru_run k (map snd as) (snd (mru_streams k a S)))"
    using Cons.IH [of s' "snd (mru_streams k a S)"] Cons.prems by auto
  ultimately show ?case by (auto simp: x split: prod.splits option.splits)
qed simp

lemma prefetch_stream_create_shows:
  "0 < sint n \<Longrightarrow> 0 < sint m \<Longrightarrow>
   stream_shows (prefetch_stream_create c n m) (replicate (unat n) 0, replicate (unat m) 0)"
  using stream_table_create_shows [of n] stream_table_create_shows [of m] sint_pos_iff [of n] sint_pos_iff [of m]
  by (auto simp: stream_shows_def prefetch_stream_create_def prefetch_t.defs prefetch_stream_t.defs)

section \<open>Properties\<close>

text \<open>C25: whatever an instruction pointer table has been trained with before, an instruction that
  makes accesses a constant distance apart, with no other access of the table in between, gets, from its
  seventh access on, exactly one prefetch for each access: the address plus the distance, cut to the stride
  bits. There must be no more stride bits than address bits (the shipped configuration, with 13 and 12, is
  not covered), at most 31 address and prefetched-address bits, and the distance must not be a multiple of
  \<^verbatim>\<open>2^last-prefetch-bits\<close> (the filter on the last prefetch would drop the prefetches). For an ascending distance below
  \<^verbatim>\<open>2^stride-bits\<close> this is the next address; a descending one is never sign-extended and the
  prefetch goes forward.\<close>

theorem IP_prefetcher_locks_on:
  assumes "prefetch_IP_create c n ab sb pb = Inr s0" and "s = snd (IP_run s0 before)"
    and "unat sb \<le> unat ab" and "unat ab \<le> 31" and "unat pb \<le> 31" and "take_bit (unat pb) d \<noteq> 0"
    and "6 \<le> i" and "i < m"
  shows "fst (IP_run s (map (\<lambda>j. (PC, a + of_nat j * d)) [0 ..< m])) ! i = a + of_nat i * d + take_bit (unat sb) d"
proof -
  let ?e = "table s ! unat (pc_mask PC (n - 1))"
  have ok: "IP_ok n ab sb pb s" using assms(1,2) prefetch_IP_create_ok IP_run_ok by blast
  then have c: "ctr_ok (conf ?e)" by (auto simp: IP_ok_def list_all_length)
  obtain j where j: "i = 6 + j" using assms(7) le_Suc_ex by blast
  have eq: "a + of_nat i * d = a + of_nat (5 + j) * d + d" by (simp add: j algebra_simps)
  have "strided ab sb d 2 (a + of_nat (5 + j) * d) (IP_ents ab sb pb d a ?e i) \<and>
      prefetched sb pb d (a + of_nat (5 + j) * d) (IP_ents ab sb pb d a ?e i)"
    unfolding j by (rule IP_ents_locked [OF assms(3,4,5,6) c])
  then have "fst (IP_step ab sb pb (IP_ents ab sb pb d a ?e i) (a + of_nat (5 + j) * d + d)) = a + of_nat i * d + take_bit (unat sb) d"
    using IP_step_locked(1) [of ab sb d "a + of_nat (5 + j) * d" "IP_ents ab sb pb d a ?e i" pb] assms(3-6) eq by simp
  then show ?thesis using IP_run_nth [OF ok assms(8), of PC a 0 d] eq by simp
qed

theorem IP_prefetcher_locks_on_witness:
  "\<exists>s0. prefetch_IP_create \<lparr>geom_linesize = 64, geom_addr_shift = 6\<rparr> 4 12 8 12 = Inr s0 \<and>
     fst (IP_run s0 (map (\<lambda>j. (0x400, 0x1000 + of_nat j * 8)) [0 ..< 8])) ! 7 = 0x1040 \<and>
     fst (IP_run s0 (map (\<lambda>j. (0x400, 0x1000 + of_nat j * (- 8))) [0 ..< 8])) ! 7 = 0x10c0"
proof -
  let ?s = "prefetch_IP_create \<lparr>geom_linesize = 64, geom_addr_shift = 6\<rparr> 4 12 8 12"
  have "\<exists>s0. ?s = Inr s0" by (simp add: prefetch_IP_create_def check_ppow2_def IS_POW2_def checks_Inr_iff)
  then obtain s0 where s0: "?s = Inr s0" by blast
  have m: "take_bit (unat (12 :: cint)) (8 :: 64 word) \<noteq> 0" "take_bit (unat (12 :: cint)) (- 8 :: 64 word) \<noteq> 0" by simp_all
  show ?thesis
    using IP_prefetcher_locks_on [OF s0, of s0 "[]", OF _ _ _ _ m(1), of 7 8 "0x400" "0x1000"]
      IP_prefetcher_locks_on [OF s0, of s0 "[]", OF _ _ _ _ m(2), of 7 8 "0x400" "0x1000"] s0 by simp
qed

text \<open>A small context table after \<open>k\<close> accesses, the last one to \<open>a\<close>.\<close>

definition ex_context :: "counter_t \<Rightarrow> prefetch_context_ent list \<Rightarrow> md_paddr_t \<Rightarrow> prefetch_context_t" where
  "ex_context k es a =
     prefetch_t.extend ((prefetch_init \<lparr>geom_linesize = 64, geom_addr_shift = 6\<rparr> ''context'' 108)\<lparr>lookups := k\<rparr>)
       (prefetch_context_t.fields 4 3 8 16 1 2 1020 65535 1 3 es a)"

definition ex_ent :: "md_paddr_t \<Rightarrow> cint \<Rightarrow> cint \<Rightarrow> prefetch_context_ent" where
  "ex_ent nx cf us = \<lparr>ctag = 0, next_paddr = nx, cconf = cf, cu = us\<rparr>"

lemmas ex_context_defs = ex_context_def ex_ent_def prefetch_context_lookup_def context_predict_def context_train_def
  pf_count_def pc_mask_eq prefetch_t.defs prefetch_context_t.defs prefetch_init_def

lemma ex_context_steps:
  "prefetch_context_lookup (ex_context 0 [ex_ent 0 0 0, ex_ent 0 0 0, ex_ent 0 0 0, e] 0) 0 0x5001 =
     (0, ex_context 1 [ex_ent 0x5001 0 0, ex_ent 0 0 0, ex_ent 0 0 0, e] 0x5001)"
  "prefetch_context_lookup (ex_context 1 [e0, ex_ent 0 0 0, ex_ent 0 0 0, e] 0x5001) 0 0x7002 =
     (0, ex_context 2 [e0, ex_ent 0x7002 0 0, ex_ent 0 0 0, e] 0x7002)"
  "prefetch_context_lookup (ex_context 2 [e0, ex_ent 0x7002 0 0, ex_ent 0 0 0, e] 0x7002) 0 0x5001 =
     (0, ex_context 3 [e0, ex_ent 0x7002 0 0, ex_ent 0x5001 0 0, e] 0x5001)"
  "prefetch_context_lookup (ex_context 3 [e0, ex_ent 0x7002 0 0, ex_ent 0x5001 0 0, e] 0x5001) 0 0x7002 =
     (0, ex_context 4 [e0, ex_ent 0x7002 1 1, ex_ent 0x5001 0 0, e] 0x7002)"
  "fst (prefetch_context_lookup (ex_context 4 [e0, ex_ent 0x7002 1 1, ex_ent 0x5001 0 0, e] 0x7002) 0 0x5001) = 1"
  by (simp_all add: ex_context_defs Let_def word_sless_alt)

text \<open>C26: what the context prefetcher learns decides only whether it prefetches, never what: whatever
  sequence of accesses trained it, the answer to an access is no prefetch (0) or one fixed function of the
  accessed address, with its low bits replaced by those of the maximal confidence value, because the look-up
  reads \<^verbatim>\<open>conf\<close> where \<^verbatim>\<open>next_paddr\<close> is meant. In the witness \<^verbatim>\<open>0x5001\<close> is always followed by
  \<^verbatim>\<open>0x7002\<close>, and the answer is 1.\<close>

theorem context_prefetch_address_is_fixed:
  assumes "prefetch_context_create c n tb nb cb ub = Inr s" and "unat cb \<le> 31"
  shows "list_all2 (\<lambda>x pf. pf \<in> {0, (snd x AND NOT (next_mask s)) OR (scast (conf_max s) AND next_mask s)}) as
    (fst (context_run s as))"
proof -
  have "unat (mask (unat cb) :: cint) = take_bit (unat cb) (unat (- 1 :: cint))"
    by (simp only: mask_eq_take_bit_minus_one unsigned_take_bit_eq)
  also have "\<dots> < 2 ^ unat cb" by simp
  also have "(2 :: nat) ^ unat cb \<le> 2 ^ 31" using assms(2) by (intro power_increasing) auto
  finally have "0 \<le> sint (mask (unat cb) :: cint)" by (simp only: sint_nneg_iff)
  then have m: "0 \<le> sint (bit_mask_of cb)" by (simp add: bit_mask_of_def shl_def mask_eq_exp_minus_1)
  have s: "s = prefetch_t.extend (prefetch_init c ''context'' (n * (tb + nb + cb + ub)))
         (prefetch_context_t.fields n (n - 1) tb nb cb ub (scast (shl (bit_mask_of tb) (log2_int n))) (scast (bit_mask_of nb))
           (bit_mask_of cb) (bit_mask_of ub) (replicate (unat n) \<lparr>ctag = 0, next_paddr = 0, cconf = 0, cu = 0\<rparr>) 0)"
    and n: "check_ppow2 n" using assms(1) by (simp_all add: prefetch_context_create_def checks_Inr_iff)
  have cm: "conf_max s = bit_mask_of cb" by (simp add: s prefetch_t.defs prefetch_context_t.defs)
  have "context_ok n (next_mask s) (conf_max s) s"
    using n m unfolding s by (simp add: context_ok_def prefetch_t.defs prefetch_context_t.defs prefetch_init_def list_all_length)
  then show ?thesis by (rule context_run_outputs) (simp add: cm m)
qed

theorem context_prefetch_address_is_fixed_witness:
  "\<exists>s. prefetch_context_create \<lparr>geom_linesize = 64, geom_addr_shift = 6\<rparr> 4 8 16 1 2 = Inr s \<and>
     fst (context_run s [(0, 0x5001), (0, 0x7002), (0, 0x5001), (0, 0x7002), (0, 0x5001)]) = [0, 0, 0, 0, 1] \<and>
     list_all2 (\<lambda>x pf. pf \<in> {0, (snd x AND NOT (next_mask s)) OR (scast (conf_max s) AND next_mask s)})
       [(0 :: md_addr_t, 0x5001), (0, 0x7002), (0, 0x5001), (0, 0x7002), (0, 0x5001)] [0, 0, 0, 0, 1]"
proof -
  let ?as = "[(0 :: md_addr_t, 0x5001 :: md_paddr_t), (0, 0x7002), (0, 0x5001), (0, 0x7002), (0, 0x5001)]"
  let ?s = "ex_context 0 [ex_ent 0 0 0, ex_ent 0 0 0, ex_ent 0 0 0, ex_ent 0 0 0] 0"
  have "replicate 4 x = [x, x, x, x]" for x :: prefetch_context_ent by (simp add: numeral_eq_Suc)
  then have s: "prefetch_context_create \<lparr>geom_linesize = 64, geom_addr_shift = 6\<rparr> 4 8 16 1 2 = Inr ?s"
    by (simp add: ex_context_defs prefetch_context_create_def check_ppow2_def IS_POW2_def checks.simps bit_mask_of_def
        shl_def log2_int_def log2_nat.simps)
  have c: "unat (1 :: cint) \<le> 31" by simp
  have r: "fst (context_run ?s ?as) = [0, 0, 0, 0, 1]"
    by (simp add: ex_context_steps case_prod_beta)
  show ?thesis using context_prefetch_address_is_fixed [OF s c, of ?as] unfolding r
    by (intro exI [of _ ?s] conjI s r)
qed

text \<open>C24: the stream prefetcher, built with positive table sizes, answers every sequence of accesses
  (its pointer loops end and its assertions hold), and prefetches exactly what two recency-ordered
  lists of streams would: the next block of an ascending stream, the previous one of a descending
  stream, nothing otherwise.\<close>

theorem stream_prefetcher_refines_mru_lists:
  assumes "0 < sint n" and "0 < sint m" and "unat (geom_addr_shift c) < 31"
  shows "map_option fst (stream_run (prefetch_stream_create c n m) as) =
    Some (mru_run (unat (geom_addr_shift c)) (map snd as) (replicate (unat n) 0, replicate (unat m) 0))"
  by (rule stream_run_follows [OF prefetch_stream_create_shows])
    (use assms in \<open>simp_all add: prefetch_stream_create_def prefetch_init_def prefetch_t.defs\<close>)

theorem stream_prefetcher_refines_mru_lists_witness:
  "map_option fst (stream_run (prefetch_stream_create \<lparr>geom_linesize = 64, geom_addr_shift = 6\<rparr> 2 2)
     [(0, 0x5000), (0, 0x9000), (0, 0x5040), (0, 0x5080), (0, 0x9fc0)]) = Some [0, 0, 0x5080, 0x50c0, 0]"
proof -
  let ?as = "[(0, 0x5000), (0, 0x9000), (0, 0x5040), (0, 0x5080), (0, 0x9fc0)] :: (md_addr_t \<times> md_paddr_t) list"
  have "mru_run (unat (6 :: cint)) (map snd ?as) (replicate (unat (2 :: cint)) 0, replicate (unat (2 :: cint)) 0) =
      [0, 0, 0x5080, 0x50c0, 0]" by code_simp
  then show ?thesis
    using stream_prefetcher_refines_mru_lists [of 2 2 "\<lparr>geom_linesize = 64, geom_addr_shift = 6\<rparr>" ?as] by simp
qed

end
