(* ===== verification/Dram.thy ===== *)
theory Dram
  imports Complex_Main Cache_Heap
begin

text \<open>
  Main memory: \<^verbatim>\<open>zesto-dram.cpp\<close> and the models of \<^verbatim>\<open>ZCOMPS-dram/\<close> (constant latency, SDRAM with row
  buffers, SDRAM with infinite bandwidth). Ticks are 64-bit words read as signed numbers. Times given in
  nanoseconds and the bus speed are rational numbers, and their conversion to cycles is computed exactly.
  A failed \<^verbatim>\<open>dram_assert\<close> is None.
\<close>

section \<open>State\<close>

text \<open>What the models read of \<^verbatim>\<open>uncore\<close>.\<close>

record fsb_params =
  fsb_width :: cint
  fsb_bits :: cint
  fsb_speed :: rat
  fsb_DDR :: bool

record dram_t =
  dram_accesses :: counter_t
  dram_latency :: counter_t
  best_latency :: cint
  worst_latency :: cint
  total_burst :: counter_t

definition INT_MAX :: cint where "INT_MAX = 2147483647"

definition dram_init :: dram_t where
  "dram_init = \<lparr>dram_accesses = 0, dram_latency = 0, best_latency = 0, worst_latency = 0, total_burst = 0\<rparr>"

definition dram_count :: "cint \<Rightarrow> cint \<Rightarrow> 'a dram_t_scheme \<Rightarrow> 'a dram_t_scheme" where
  "dram_count lat chunks d =
     d\<lparr>dram_accesses := dram_accesses d + 1, dram_latency := dram_latency d + scast lat, total_burst := total_burst d + scast chunks,
       best_latency := (if lat <s best_latency d then lat else best_latency d),
       worst_latency := (if worst_latency d <s lat then lat else worst_latency d)\<rparr>"

text \<open>The length of the burst on the front-side bus, rounded up.\<close>

definition burst_chunks :: "fsb_params \<Rightarrow> cint \<Rightarrow> cint" where
  "burst_chunks u bsize = sar (bsize + (fsb_width u - 1)) (fsb_bits u)"

section \<open>Constant latency (\<^verbatim>\<open>dram-simplescalar.cpp\<close>)\<close>

record dram_simplescalar_t = dram_t +
  ss_latency :: cint
  chunk_latency :: cint

definition dram_simplescalar_create :: "fsb_params \<Rightarrow> cint \<Rightarrow> cint \<Rightarrow> dram_simplescalar_t option" where
  "dram_simplescalar_create u lat units =
     (if units <s 0 \<or> 1 <s units then None
      else Some (dram_t.extend (dram_init\<lparr>best_latency := INT_MAX\<rparr>)
        (dram_simplescalar_t.fields
          (if units \<noteq> 0 then word_of_int \<lceil>of_int (sint lat) * fsb_speed u / 1000\<rceil> else lat) 1)))"

definition dram_simplescalar_access :: "fsb_params \<Rightarrow> cint \<Rightarrow> dram_simplescalar_t \<Rightarrow> (cint \<times> dram_simplescalar_t) option" where
  "dram_simplescalar_access u bsize d =
     (let chunks = burst_chunks u bsize;
          lat = ss_latency d + sar (chunk_latency d * chunks) (if fsb_DDR u then 1 else 0)
      in if 0 <s chunks then Some (lat, dram_count lat chunks d) else None)"

section \<open>SDRAM with row buffers (\<^verbatim>\<open>dram-simplesdram.cpp\<close>)\<close>

record dram_bank_t =
  current_row :: cint
  when_bank_available :: tick_t
  when_precharge_ready :: tick_t

record dram_simplesdram_t = dram_t +
  row_buffer_hits :: counter_t
  num_ranks :: cint
  num_banks :: cint
  num_rows :: cint
  c_RAS :: cint
  c_RCD :: cint
  c_CAS :: cint
  c_WR :: cint
  c_RP :: cint
  c_refresh :: cint
  refresh_rank :: cint
  refresh_bank :: cint
  refresh_row :: cint
  last_refresh :: tick_t
  rank_shift :: cint
  rank_mask :: cint
  dbank_shift :: cint
  dbank_mask :: cint
  row_shift :: cint
  row_mask :: cint
  array :: "dram_bank_t list list"
  when_command_bus_ready :: tick_t
  when_data_bus_ready :: tick_t

definition ns_cycles :: "fsb_params \<Rightarrow> rat \<Rightarrow> cint" where
  "ns_cycles u t = word_of_int \<lceil>t * fsb_speed u / 1000\<rceil>"

text \<open>\<^verbatim>\<open>row_buffer_hits\<close> is left uninitialised: its first value is an argument. Allocating a negative number
  of ranks or banks is fatal.\<close>

definition dram_simplesdram_create ::
  "counter_t \<Rightarrow> fsb_params \<Rightarrow> cint \<Rightarrow> cint \<Rightarrow> rat \<Rightarrow> rat \<Rightarrow> rat \<Rightarrow> rat \<Rightarrow> rat \<Rightarrow> cint \<Rightarrow> dram_simplesdram_t option" where
  "dram_simplesdram_create hits u ranks bnks t_RAS t_RCD t_CAS t_WR t_RP period =
     (let offset_bits = log2_int (fsb_width u); col_bits = 12 - offset_bits;
          bank_bits = log2_int bnks; rank_bits = log2_int ranks;
          row_bits = 33 - rank_bits - bank_bits - col_bits - offset_bits;
          rows = shl 1 row_bits; rshift = 12 + bank_bits;
          refresh_tick = of_int (sint period) / (of_int (sint ranks) * of_int (sint bnks) * of_int (sint rows))
      in if ranks <s 0 \<or> 0 <s ranks \<and> bnks <s 0 then None else
       Some (dram_t.extend (dram_init\<lparr>best_latency := INT_MAX\<rparr>)
        (dram_simplesdram_t.fields hits ranks bnks rows
          (ns_cycles u t_RAS) (ns_cycles u t_RCD) (ns_cycles u t_CAS) (ns_cycles u t_WR) (ns_cycles u t_RP)
          (word_of_int \<lfloor>refresh_tick * 1000 * fsb_speed u\<rfloor>) 0 0 0 0
          (rshift + row_bits) (shl 1 rank_bits - 1) 12 (shl 1 bank_bits - 1) rshift (shl 1 row_bits - 1)
          (replicate (unat ranks) (replicate (unat bnks) \<lparr>current_row = 0, when_bank_available = 0, when_precharge_ready = 0\<rparr>))
          0 0)))"

text \<open>\<^verbatim>\<open>std::max\<close> on ticks.\<close>

definition tmax :: "tick_t \<Rightarrow> tick_t \<Rightarrow> tick_t" where
  "tmax a b = (if a <s b then b else a)"

definition get_dbank :: "cint \<Rightarrow> cint \<Rightarrow> dram_simplesdram_t \<Rightarrow> dram_bank_t" where
  "get_dbank r b d = array d ! unat r ! unat b"

definition set_dbank :: "cint \<Rightarrow> cint \<Rightarrow> dram_bank_t \<Rightarrow> dram_simplesdram_t \<Rightarrow> dram_simplesdram_t" where
  "set_dbank r b v d = d\<lparr>array := (array d)[unat r := (array d ! unat r)[unat b := v]]\<rparr>"

definition addr_rank :: "dram_simplesdram_t \<Rightarrow> md_paddr_t \<Rightarrow> cint" where
  "addr_rank d a = pc_mask (drop_bit (unat (rank_shift d)) a) (rank_mask d)"

definition addr_bank :: "dram_simplesdram_t \<Rightarrow> md_paddr_t \<Rightarrow> cint" where
  "addr_bank d a = pc_mask (drop_bit (unat (dbank_shift d)) a) (dbank_mask d)"

definition addr_row :: "dram_simplesdram_t \<Rightarrow> md_paddr_t \<Rightarrow> cint" where
  "addr_row d a = pc_mask (drop_bit (unat (row_shift d)) a) (row_mask d)"

definition dram_simplesdram_access ::
  "fsb_params \<Rightarrow> tick_t \<Rightarrow> cache_command \<Rightarrow> md_paddr_t \<Rightarrow> cint \<Rightarrow> dram_simplesdram_t \<Rightarrow> (cint \<times> dram_simplesdram_t) option" where
  "dram_simplesdram_access u sim_cycle cmd baddr bsize d =
     (let chunks = burst_chunks u bsize;
          rank = addr_rank d baddr; bank = addr_bank d baddr; row = addr_row d baddr;
          when_start = tmax (when_command_bus_ready d) sim_cycle;
          data_lat = sar chunks (if fsb_DDR u then 1 else 0);
          lat = c_CAS d + data_lat;
          e = get_dbank rank bank d;
          (when_done, d1) =
            (if current_row e = row
             then (let when_done = tmax (when_start + scast lat) (when_data_bus_ready d + scast data_lat);
                       e = e\<lparr>when_bank_available := when_done\<rparr>;
                       e = (if cmd = CACHE_WRITE then e\<lparr>when_precharge_ready := when_done + scast (c_WR d) + scast (c_RP d)\<rparr> else e)
                   in (when_done, set_dbank rank bank e (d\<lparr>row_buffer_hits := row_buffer_hits d + 1\<rparr>)))
             else (let lat = lat + c_RCD d;
                       when_start = tmax (when_start + scast (c_RP d)) (when_precharge_ready e);
                       when_done = tmax (when_start + scast lat) (when_data_bus_ready d + scast data_lat);
                       e = e\<lparr>when_bank_available := when_done, current_row := row\<rparr>;
                       e = (if cmd = CACHE_READ \<or> cmd = CACHE_PREFETCH
                            then e\<lparr>when_precharge_ready := when_start + scast (c_RAS d) + scast (c_RP d)\<rparr>
                            else if cmd = CACHE_WRITE
                            then e\<lparr>when_precharge_ready := when_done + scast (c_WR d) + scast (c_RP d)\<rparr> else e)
                   in (when_done, set_dbank rank bank e d)));
          lat = ucast (when_done - sim_cycle);
          d2 = d1\<lparr>when_data_bus_ready := when_done, when_command_bus_ready := when_command_bus_ready d1 + 1\<rparr>
      in if 0 <s chunks then Some (lat, dram_count lat chunks d2) else None)"

text \<open>The counters of the next row to refresh: ranks turn fastest, then banks, then rows.\<close>

definition refresh_advance :: "dram_simplesdram_t \<Rightarrow> dram_simplesdram_t" where
  "refresh_advance d =
     (let d = d\<lparr>refresh_rank := modinc (refresh_rank d) (num_ranks d)\<rparr> in
      if refresh_rank d = 0
      then (let d = d\<lparr>refresh_bank := modinc (refresh_bank d) (num_banks d)\<rparr> in
            if refresh_bank d = 0 then d\<lparr>refresh_row := modinc (refresh_row d) (num_rows d)\<rparr> else d)
      else d)"

text \<open>In the first branch the code reads \<^verbatim>\<open>when_done\<close>, which is still \<^verbatim>\<open>TICK_T_MAX\<close> there.\<close>

definition refresh_bank_update :: "tick_t \<Rightarrow> cint \<Rightarrow> dram_simplesdram_t \<Rightarrow> dram_bank_t \<Rightarrow> dram_bank_t" where
  "refresh_bank_update sim_cycle row d e =
     (if current_row e = row
      then e\<lparr>when_bank_available := sim_cycle + scast (c_WR d),
             when_precharge_ready := TICK_T_MAX + scast (c_WR d) + scast (c_RP d)\<rparr>
      else (let when_done = tmax sim_cycle (when_precharge_ready e) + scast (c_CAS d) + scast (c_RCD d)
            in e\<lparr>when_bank_available := when_done, current_row := row,
                 when_precharge_ready := when_done + scast (c_WR d) + scast (c_RP d)\<rparr>))"

definition dram_simplesdram_refresh :: "tick_t \<Rightarrow> dram_simplesdram_t \<Rightarrow> dram_simplesdram_t" where
  "dram_simplesdram_refresh sim_cycle d =
     (if c_refresh d \<le>s 0 then d
      else if scast (c_refresh d) \<le>s sim_cycle - last_refresh d
      then (let rank = refresh_rank d; bank = refresh_bank d; row = refresh_row d;
                d = refresh_advance d;
                d = set_dbank rank bank (refresh_bank_update sim_cycle row d (get_dbank rank bank d)) d
            in d\<lparr>when_command_bus_ready := when_command_bus_ready d + 1, last_refresh := sim_cycle\<rparr>)
      else d)"

section \<open>SDRAM with infinite bandwidth (\<^verbatim>\<open>dram-simplesdram-infbw.cpp\<close>)\<close>

text \<open>The same class but for the accesses, which wait for the bank and not for the buses, and for the
  refresh, which does not occupy the command bus.\<close>

definition dram_infbw_access ::
  "fsb_params \<Rightarrow> tick_t \<Rightarrow> cache_command \<Rightarrow> md_paddr_t \<Rightarrow> cint \<Rightarrow> dram_simplesdram_t \<Rightarrow> (cint \<times> dram_simplesdram_t) option" where
  "dram_infbw_access u sim_cycle cmd baddr bsize d =
     (let chunks = burst_chunks u bsize;
          rank = addr_rank d baddr; bank = addr_bank d baddr; row = addr_row d baddr;
          when_start = tmax (when_command_bus_ready d) sim_cycle;
          data_lat = sar chunks (if fsb_DDR u then 1 else 0);
          lat = c_CAS d;
          e = get_dbank rank bank d;
          (when_done, d1) =
            (if current_row e = row
             then (let till = (if sim_cycle <s when_bank_available e then when_bank_available e - sim_cycle else 0);
                       when_done = tmax (when_start + scast lat + till) (when_data_bus_ready d + scast data_lat);
                       e = (if cmd = CACHE_WRITE then e\<lparr>when_precharge_ready := when_done + scast (c_WR d) + scast (c_RP d)\<rparr> else e)
                   in (when_done, set_dbank rank bank e (d\<lparr>row_buffer_hits := row_buffer_hits d + 1\<rparr>)))
             else (let lat = lat + c_RCD d;
                       when_start = tmax (when_start + scast (c_RP d)) (when_precharge_ready e);
                       when_done = tmax (when_start + scast lat) (when_data_bus_ready d + scast data_lat);
                       e = e\<lparr>when_bank_available := when_done, current_row := row\<rparr>;
                       e = (if cmd = CACHE_READ \<or> cmd = CACHE_PREFETCH
                            then e\<lparr>when_precharge_ready := when_start + scast (c_RAS d) + scast (c_RP d)\<rparr>
                            else if cmd = CACHE_WRITE
                            then e\<lparr>when_precharge_ready := when_done + scast (c_WR d) + scast (c_RP d)\<rparr> else e)
                   in (when_done, set_dbank rank bank e d)));
          lat = ucast (when_done - sim_cycle)
      in if 0 <s chunks then Some (lat, dram_count lat chunks d1) else None)"

definition infbw_bank_update :: "tick_t \<Rightarrow> cint \<Rightarrow> dram_simplesdram_t \<Rightarrow> dram_bank_t \<Rightarrow> dram_bank_t" where
  "infbw_bank_update sim_cycle row d e =
     (if current_row e = row
      then (refresh_bank_update sim_cycle row d e)\<lparr>when_bank_available := when_bank_available e\<rparr>
      else refresh_bank_update sim_cycle row d e)"

definition dram_infbw_refresh :: "tick_t \<Rightarrow> dram_simplesdram_t \<Rightarrow> dram_simplesdram_t" where
  "dram_infbw_refresh sim_cycle d =
     (if c_refresh d \<le>s 0 then d
      else if scast (c_refresh d) \<le>s sim_cycle - last_refresh d
      then (let rank = refresh_rank d; bank = refresh_bank d; row = refresh_row d;
                d = refresh_advance d;
                d = set_dbank rank bank (infbw_bank_update sim_cycle row d (get_dbank rank bank d)) d
            in d\<lparr>last_refresh := sim_cycle\<rparr>)
      else d)"

section \<open>Refresh order\<close>

text \<open>A well-formed memory: positive dimensions, refresh counters in range, one entry per bank.\<close>

definition sdram_wf :: "dram_simplesdram_t \<Rightarrow> bool" where
  "sdram_wf d \<longleftrightarrow> 0 < unat (num_ranks d) \<and> unat (num_ranks d) < 2 ^ 31 \<and> 0 < unat (num_banks d) \<and> unat (num_banks d) < 2 ^ 31 \<and>
     0 < unat (num_rows d) \<and> unat (num_rows d) < 2 ^ 31 \<and>
     unat (refresh_rank d) < unat (num_ranks d) \<and> unat (refresh_bank d) < unat (num_banks d) \<and> unat (refresh_row d) < unat (num_rows d)"

definition refresh_pos :: "dram_simplesdram_t \<Rightarrow> nat \<times> nat \<times> nat" where
  "refresh_pos d = (unat (refresh_rank d), unat (refresh_bank d), unat (refresh_row d))"

definition refresh_due :: "tick_t \<Rightarrow> dram_simplesdram_t \<Rightarrow> bool" where
  "refresh_due t d \<longleftrightarrow> \<not> c_refresh d \<le>s 0 \<and> scast (c_refresh d) \<le>s t - last_refresh d"

text \<open>The position of a refresh in the order ranks, banks, rows.\<close>

definition box_index :: "nat \<Rightarrow> nat \<Rightarrow> nat \<times> nat \<times> nat \<Rightarrow> nat" where
  "box_index R B = (\<lambda>(r, b, w). (w * B + b) * R + r)"

lemma box_index_less: "r < R \<Longrightarrow> b < B \<Longrightarrow> w < W \<Longrightarrow> box_index R B (r, b, w) < R * B * W"
proof -
  assume a: "r < R" "b < B" "w < W"
  have "w * B + b < Suc w * B" using a by simp
  also have "\<dots> \<le> W * B" using a by (intro mult_le_mono1) simp
  finally have "Suc (w * B + b) * R \<le> W * B * R" by (intro mult_le_mono1) simp
  moreover have "(w * B + b) * R + r < Suc (w * B + b) * R" using a by simp
  ultimately show ?thesis by (simp add: box_index_def mult.commute mult.left_commute)
qed

lemma box_index_inj: "inj_on (box_index R B) ({..<R} \<times> {..<B} \<times> {..<W})"
proof (rule inj_onI)
  fix x y assume x: "x \<in> {..<R} \<times> {..<B} \<times> {..<W}" and y: "y \<in> {..<R} \<times> {..<B} \<times> {..<W}" and eq: "box_index R B x = box_index R B y"
  obtain r b w r' b' w' where xy: "x = (r, b, w)" "y = (r', b', w')" by (cases x, cases y) auto
  have lt: "r < R" "b < B" "r' < R" "b' < B" using x y xy by auto
  have e: "(w * B + b) * R + r = (w' * B + b') * R + r'" using eq by (simp add: xy box_index_def)
  have r: "r = r'" using arg_cong [OF e, of "\<lambda>n. n mod R"] lt by simp
  have wb: "w * B + b = w' * B + b'" using arg_cong [OF e, of "\<lambda>n. n div R"] lt by simp
  have "b = b'" "w = w'" using arg_cong [OF wb, of "\<lambda>n. n mod B"] arg_cong [OF wb, of "\<lambda>n. n div B"] lt by simp_all
  then show "x = y" using r xy by simp
qed

lemma refresh_advance_pos:
  assumes "sdram_wf d"
  shows "sdram_wf (refresh_advance d)"
    and "box_index (unat (num_ranks d)) (unat (num_banks d)) (refresh_pos (refresh_advance d)) =
      (box_index (unat (num_ranks d)) (unat (num_banks d)) (refresh_pos d) + 1) mod
        (unat (num_ranks d) * unat (num_banks d) * unat (num_rows d))"
proof -
  let ?R = "unat (num_ranks d)" and ?B = "unat (num_banks d)" and ?W = "unat (num_rows d)"
  let ?r = "unat (refresh_rank d)" and ?b = "unat (refresh_bank d)" and ?w = "unat (refresh_row d)"
  have w: "?r < ?R" "?b < ?B" "?w < ?W" and m: "?R < 2 ^ 31" "?B < 2 ^ 31" "?W < 2 ^ 31" using assms by (simp_all add: sdram_wf_def)
  have i: "unat (modinc (refresh_rank d) (num_ranks d)) = (?r + 1) mod ?R" "unat (modinc (refresh_bank d) (num_banks d)) = (?b + 1) mod ?B"
    "unat (modinc (refresh_row d) (num_rows d)) = (?w + 1) mod ?W" using w m unat_modinc by blast+
  have z: "modinc (refresh_rank d) (num_ranks d) = 0 \<longleftrightarrow> (?r + 1) mod ?R = 0" "modinc (refresh_bank d) (num_banks d) = 0 \<longleftrightarrow> (?b + 1) mod ?B = 0"
    using i by (metis unat_eq_zero)+
  have p: "refresh_pos (refresh_advance d) =
    ((?r + 1) mod ?R, if (?r + 1) mod ?R = 0 then (?b + 1) mod ?B else ?b,
      if (?r + 1) mod ?R = 0 \<and> (?b + 1) mod ?B = 0 then (?w + 1) mod ?W else ?w)"
    by (simp add: refresh_pos_def refresh_advance_def Let_def i z)
  have n: "num_ranks (refresh_advance d) = num_ranks d" "num_banks (refresh_advance d) = num_banks d" "num_rows (refresh_advance d) = num_rows d"
    by (simp_all add: refresh_advance_def Let_def)
  have "unat (refresh_rank (refresh_advance d)) < ?R" "unat (refresh_bank (refresh_advance d)) < ?B" "unat (refresh_row (refresh_advance d)) < ?W"
    using p w by (auto simp: refresh_pos_def)
  then show "sdram_wf (refresh_advance d)" using assms by (simp add: sdram_wf_def n)
  have less: "box_index ?R ?B (?r, ?b, ?w) < ?R * ?B * ?W" by (rule box_index_less [OF w])
  have small: "box_index ?R ?B x + 1 < ?R * ?B * ?W \<Longrightarrow> (box_index ?R ?B x + 1) mod (?R * ?B * ?W) = box_index ?R ?B x + 1" for x by simp
  consider (a) "?r + 1 < ?R" | (b) "?r + 1 = ?R" "?b + 1 < ?B" | (c) "?r + 1 = ?R" "?b + 1 = ?B" "?w + 1 < ?W"
    | (d) "?r + 1 = ?R" "?b + 1 = ?B" "?w + 1 = ?W" using w by linarith
  then show "box_index ?R ?B (refresh_pos (refresh_advance d)) = (box_index ?R ?B (refresh_pos d) + 1) mod (?R * ?B * ?W)"
  proof cases
    case a
    then have "box_index ?R ?B (?r + 1, ?b, ?w) < ?R * ?B * ?W" using w by (intro box_index_less) auto
    then show ?thesis using a p by (simp add: box_index_def refresh_pos_def)
  next
    case b
    then have "box_index ?R ?B (0, ?b + 1, ?w) < ?R * ?B * ?W" using w by (intro box_index_less) auto
    moreover have "box_index ?R ?B (0, ?b + 1, ?w) = box_index ?R ?B (?r, ?b, ?w) + 1" using b(1) by (simp add: box_index_def algebra_simps)
    ultimately show ?thesis using b p by (simp add: refresh_pos_def)
  next
    case c
    then have "box_index ?R ?B (0, 0, ?w + 1) < ?R * ?B * ?W" using w by (intro box_index_less) auto
    moreover have "box_index ?R ?B (0, 0, ?w + 1) = box_index ?R ?B (?r, ?b, ?w) + 1"
    proof -
      have "(?w * ?B + ?b) * ?R + ?r + 1 = (?w * ?B + ?b + 1) * ?R" using c(1) by (simp add: algebra_simps)
      also have "?w * ?B + ?b + 1 = (?w + 1) * ?B" using c(2) by (simp add: algebra_simps)
      finally show ?thesis by (simp add: box_index_def)
    qed
    ultimately show ?thesis using c p by (simp add: refresh_pos_def)
  next
    case d
    have "box_index ?R ?B (?r, ?b, ?w) + 1 = ?R * ?B * ?W"
    proof -
      have "(?w * ?B + ?b) * ?R + ?r + 1 = (?w * ?B + ?b + 1) * ?R" using d(1) by (simp add: algebra_simps)
      also have "?w * ?B + ?b + 1 = (?w + 1) * ?B" using d(2) by (simp add: algebra_simps)
      finally show ?thesis unfolding d(3) by (simp add: box_index_def mult.commute mult.left_commute)
    qed
    then show ?thesis using d p by (simp add: refresh_pos_def box_index_def)
  qed
qed

text \<open>A run of the memory: accesses and refresh calls with their cycles. The trace lists the rows the
  due refresh calls refresh.\<close>

datatype dram_op = Dram_Access cache_command md_paddr_t cint | Dram_Refresh

fun dram_step :: "fsb_params \<Rightarrow> tick_t \<times> dram_op \<Rightarrow> dram_simplesdram_t \<Rightarrow> dram_simplesdram_t" where
  "dram_step u (t, Dram_Access cmd a n) d = (case dram_simplesdram_access u t cmd a n d of None \<Rightarrow> d | Some (_, d') \<Rightarrow> d')"
| "dram_step u (t, Dram_Refresh) d = dram_simplesdram_refresh t d"

fun refresh_trace :: "fsb_params \<Rightarrow> (tick_t \<times> dram_op) list \<Rightarrow> dram_simplesdram_t \<Rightarrow> (nat \<times> nat \<times> nat) list" where
  "refresh_trace u [] d = []"
| "refresh_trace u ((t, op) # ops) d =
     (if op = Dram_Refresh \<and> refresh_due t d then [refresh_pos d] else []) @ refresh_trace u ops (dram_step u (t, op) d)"

definition same_refresh :: "dram_simplesdram_t \<Rightarrow> dram_simplesdram_t \<Rightarrow> bool" where
  "same_refresh d d' \<longleftrightarrow> num_ranks d' = num_ranks d \<and> num_banks d' = num_banks d \<and> num_rows d' = num_rows d \<and>
     refresh_pos d' = refresh_pos d"

lemma same_refresh_wf: "same_refresh d d' \<Longrightarrow> sdram_wf d \<Longrightarrow> sdram_wf d'"
  by (auto simp: same_refresh_def sdram_wf_def refresh_pos_def)

lemma set_dbank_simps [simp]:
  "num_ranks (set_dbank r b v d) = num_ranks d" "num_banks (set_dbank r b v d) = num_banks d" "num_rows (set_dbank r b v d) = num_rows d"
  "refresh_pos (set_dbank r b v d) = refresh_pos d"
  by (simp_all add: set_dbank_def refresh_pos_def)

lemma dram_count_simps [simp]:
  "num_ranks (dram_count l c d) = num_ranks d" "num_banks (dram_count l c d) = num_banks d" "num_rows (dram_count l c d) = num_rows d"
  "refresh_pos (dram_count l c d) = refresh_pos d"
  by (simp_all add: dram_count_def refresh_pos_def)

lemma access_same_refresh: "dram_simplesdram_access u t cmd a n d = Some (l, d') \<Longrightarrow> same_refresh d d'"
  by (auto simp: dram_simplesdram_access_def same_refresh_def Let_def refresh_pos_def set_dbank_def dram_count_def split: if_splits)

lemma dram_step_same_refresh: "\<not> (op = Dram_Refresh \<and> refresh_due t d) \<Longrightarrow> same_refresh d (dram_step u (t, op) d)"
  by (cases op) (auto simp: refresh_due_def dram_simplesdram_refresh_def same_refresh_def [of d d]
      intro: access_same_refresh split: option.splits)

lemma refresh_dims [simp]:
  "num_ranks (refresh_advance d) = num_ranks d" "num_banks (refresh_advance d) = num_banks d" "num_rows (refresh_advance d) = num_rows d"
  by (simp_all add: refresh_advance_def Let_def)

lemma dram_step_due: "refresh_due t d \<Longrightarrow> same_refresh (refresh_advance d) (dram_step u (t, Dram_Refresh) d)"
  by (auto simp: refresh_due_def dram_simplesdram_refresh_def same_refresh_def Let_def)
    (simp add: refresh_pos_def set_dbank_def)

lemma refresh_trace_index:
  assumes "sdram_wf d"
  defines "R \<equiv> unat (num_ranks d)" and "B \<equiv> unat (num_banks d)" and "W \<equiv> unat (num_rows d)"
  shows "set (refresh_trace u ops d) \<subseteq> {..<R} \<times> {..<B} \<times> {..<W} \<and>
    map (box_index R B) (refresh_trace u ops d) =
      map (\<lambda>i. (box_index R B (refresh_pos d) + i) mod (R * B * W)) [0 ..< length (refresh_trace u ops d)]"
  using assms(1) unfolding R_def B_def W_def
proof (induction ops arbitrary: d)
  case (Cons top ops)
  obtain t op where top: "top = (t, op)" by (cases top)
  let ?d = "dram_step u top d"
  show ?case
  proof (cases "op = Dram_Refresh \<and> refresh_due t d")
    case False
    then have s: "same_refresh d ?d" using dram_step_same_refresh top by blast
    have "refresh_trace u (top # ops) d = refresh_trace u ops ?d" using False by (auto simp: top)
    then show ?thesis using Cons.IH [OF same_refresh_wf [OF s Cons.prems]] s by (simp add: same_refresh_def)
  next
    case True
    then have s: "same_refresh (refresh_advance d) ?d" using dram_step_due top by blast
    note a = refresh_advance_pos [OF Cons.prems]
    let ?N = "unat (num_ranks d) * unat (num_banks d) * unat (num_rows d)"
    have pos: "refresh_pos d \<in> {..<unat (num_ranks d)} \<times> {..<unat (num_banks d)} \<times> {..<unat (num_rows d)}"
      using Cons.prems by (simp add: sdram_wf_def refresh_pos_def)
    then have lt: "box_index (unat (num_ranks d)) (unat (num_banks d)) (refresh_pos d) < ?N"
      by (auto intro: box_index_less)
    have "refresh_trace u (top # ops) d = refresh_pos d # refresh_trace u ops ?d" using True by (simp add: top)
    moreover have "((k + 1) mod ?N + i) mod ?N = (k + Suc i) mod ?N" for k i by (simp add: mod_simps)
    ultimately show ?thesis
      using Cons.IH [OF same_refresh_wf [OF s a(1)]] s a(2) lt pos
      by (simp add: same_refresh_def upt_conv_Cons map_Suc_upt [symmetric] del: upt_Suc map_Suc_upt)
  qed
qed simp

lemma inj_shift_mod: "inj_on (\<lambda>i. (k + i) mod n) {..<n}" for k n :: nat
proof (rule inj_onI)
  fix i j assume ij: "i \<in> {..<n}" "j \<in> {..<n}" and eq: "(k + i) mod n = (k + j) mod n"
  have le: "b = a" if "a \<le> b" "b < n" "(k + a) mod n = (k + b) mod n" for a b
  proof -
    have "n dvd b - a" using that mod_eq_dvd_iff_nat [of "k + a" "k + b" n] by simp
    then show ?thesis using that dvd_imp_le [of n "b - a"] by fastforce
  qed
  show "i = j"
  proof (cases "i \<le> j")
    case True
    then show ?thesis using le [OF True _ eq] ij by blast
  next
    case False
    then have "j \<le> i" by simp
    from le [OF this _ eq [symmetric]] show ?thesis using ij by blast
  qed
qed

text \<open>C36: the refresh counters sweep the memory: among any run of accesses and refresh calls, as many
  consecutive due refreshes as there are rows in all banks of all ranks refresh each of them exactly
  once.\<close>

theorem refresh_sweeps_all_rows:
  assumes "sdram_wf d"
    and "length (refresh_trace u ops d) = unat (num_ranks d) * unat (num_banks d) * unat (num_rows d)"
  shows "distinct (refresh_trace u ops d) \<and>
    set (refresh_trace u ops d) = {..<unat (num_ranks d)} \<times> {..<unat (num_banks d)} \<times> {..<unat (num_rows d)}"
proof -
  let ?R = "unat (num_ranks d)" and ?B = "unat (num_banks d)" and ?W = "unat (num_rows d)" and ?t = "refresh_trace u ops d"
  note i = refresh_trace_index [OF assms(1), of u ops]
  have "distinct (map (box_index ?R ?B) ?t)" using i assms(2) inj_shift_mod by (simp add: distinct_map atLeast0LessThan)
  then have d: "distinct ?t" by (simp add: distinct_map)
  have "card (set ?t) = card ({..<?R} \<times> {..<?B} \<times> {..<?W})" using d assms(2) by (simp add: distinct_card)
  then have "set ?t = {..<?R} \<times> {..<?B} \<times> {..<?W}" using i by (intro card_subset_eq) auto
  then show ?thesis using d by simp
qed

theorem refresh_sweeps_all_rows_witness:
  "let u = \<lparr>fsb_width = 8, fsb_bits = 3, fsb_speed = 800, fsb_DDR = True\<rparr>;
       d = (the (dram_simplesdram_create 0 u 1 2 35 11 11 15 11 64))\<lparr>num_rows := 2, c_refresh := 10\<rparr>;
       ops = [(12, Dram_Refresh), (15, Dram_Access CACHE_READ 64 64), (15, Dram_Refresh), (22, Dram_Refresh), (40, Dram_Refresh), (50, Dram_Refresh)]
   in set (refresh_trace u ops d) = {..<1} \<times> {..<2} \<times> {..<2}"
proof -
  let ?u = "\<lparr>fsb_width = 8, fsb_bits = 3, fsb_speed = 800, fsb_DDR = True\<rparr>"
  let ?d = "(the (dram_simplesdram_create 0 ?u 1 2 35 11 11 15 11 64))\<lparr>num_rows := 2, c_refresh := 10\<rparr>"
  let ?ops = "[(12, Dram_Refresh), (15, Dram_Access CACHE_READ 64 64), (15, Dram_Refresh), (22, Dram_Refresh), (40, Dram_Refresh), (50, Dram_Refresh)]"
  have d: "num_ranks ?d = 1" "num_banks ?d = 2" "num_rows ?d = 2" "refresh_rank ?d = 0" "refresh_bank ?d = 0" "refresh_row ?d = 0"
    by (simp_all add: dram_simplesdram_create_def Let_def dram_t.extend_def dram_simplesdram_t.fields_def word_sless_alt)
  have w: "sdram_wf ?d" unfolding sdram_wf_def d by simp
  have l: "length (refresh_trace ?u ?ops ?d) = unat (num_ranks ?d) * unat (num_banks ?d) * unat (num_rows ?d)"
    by code_simp
  show ?thesis using refresh_sweeps_all_rows [OF w l] unfolding Let_def d by simp
qed

section \<open>Latency of an access\<close>

lemma sint_plus64:
  "- (2 ^ 63) \<le> sint a + sint b \<Longrightarrow> sint a + sint b < 2 ^ 63 \<Longrightarrow> sint (a + b) = sint a + sint b" for a b :: "64 word"
  by (simp add: sint_word_ariths signed_take_bit_int_eq_self)

lemma sint_minus64:
  "- (2 ^ 63) \<le> sint a - sint b \<Longrightarrow> sint a - sint b < 2 ^ 63 \<Longrightarrow> sint (a - b) = sint a - sint b" for a b :: "64 word"
  by (simp add: sint_word_ariths signed_take_bit_int_eq_self)

lemma sint_plus32:
  "- (2 ^ 31) \<le> sint a + sint b \<Longrightarrow> sint a + sint b < 2 ^ 31 \<Longrightarrow> sint (a + b) = sint a + sint b" for a b :: cint
  by (simp add: sint_word_ariths signed_take_bit_int_eq_self)

lemma sint_scast: "sint (scast a :: tick_t) = sint a" for a :: cint
  by (simp add: sint_up_scast is_up)

lemma sint_ucast32: "- (2 ^ 31) \<le> sint a \<Longrightarrow> sint a < 2 ^ 31 \<Longrightarrow> sint (ucast a :: cint) = sint a" for a :: "64 word"
proof -
  assume b: "- (2 ^ 31) \<le> sint a" "sint a < 2 ^ 31"
  have "sint (ucast a :: cint) = signed_take_bit 31 (uint a)"
    by (simp add: sint_uint unsigned_ucast_eq signed_take_bit_take_bit)
  also have "\<dots> = signed_take_bit 31 (sint a)" by (simp add: sint_uint signed_take_bit_signed_take_bit)
  also have "\<dots> = sint a" using b by (intro signed_take_bit_int_eq_self) simp_all
  finally show ?thesis .
qed

lemma sint_tmax: "sint (tmax a b) = max (sint a) (sint b)"
  by (auto simp: tmax_def word_sless_alt max_def)

text \<open>The cycles at hand: no time is near the end of the 64-bit range, the buses and the bank are not
  promised far into the future, and the timing parameters are below \<open>2 ^ 24\<close> cycles.\<close>

definition timely :: "fsb_params \<Rightarrow> tick_t \<Rightarrow> cint \<Rightarrow> dram_simplesdram_t \<Rightarrow> bool" where
  "timely u t n d \<longleftrightarrow> 0 \<le> sint t \<and> sint t < 2 ^ 62 \<and> 0 < sint (burst_chunks u n) \<and> sint (burst_chunks u n) < 2 ^ 24 \<and>
     (\<forall>c \<in> {c_RCD d, c_CAS d, c_RP d}. 0 \<le> sint c \<and> sint c < 2 ^ 24) \<and>
     (\<forall>w \<in> {when_command_bus_ready d, when_data_bus_ready d}. 0 \<le> sint w \<and> sint w \<le> sint t + 2 ^ 28) \<and>
     list_all (list_all (\<lambda>e. sint (when_precharge_ready e) \<le> sint t + 2 ^ 28)) (array d)"

definition data_cycles :: "fsb_params \<Rightarrow> cint \<Rightarrow> int" where
  "data_cycles u n = sint (burst_chunks u n) div (if fsb_DDR u then 2 else 1)"

definition row_open :: "dram_simplesdram_t \<Rightarrow> md_paddr_t \<Rightarrow> bool" where
  "row_open d a \<longleftrightarrow> current_row (get_dbank (addr_rank d a) (addr_bank d a) d) = addr_row d a"

lemma sint_sar: "sint (sar a k) = sint a div 2 ^ unat k"
  by (simp add: sar_def sint_signed_drop_bit_eq drop_bit_eq_div)

lemma access_latency:
  assumes t: "timely u t n d" and r: "unat (addr_rank d a) < length (array d)" "unat (addr_bank d a) < length (array d ! unat (addr_rank d a))"
  defines "start \<equiv> max (sint (when_command_bus_ready d)) (sint t)" and "dc \<equiv> data_cycles u n"
    and "pre \<equiv> sint (when_precharge_ready (get_dbank (addr_rank d a) (addr_bank d a) d))"
  shows "\<exists>lat d'. dram_simplesdram_access u t cmd a n d = Some (lat, d') \<and>
    sint lat = max ((if row_open d a then start else max (start + sint (c_RP d)) pre + sint (c_RCD d)) + sint (c_CAS d) + dc)
                   (sint (when_data_bus_ready d) + dc) - sint t"
proof -
  let ?dl = "sar (burst_chunks u n) (if fsb_DDR u then 1 else 0)"
  have dl: "sint ?dl = dc" "0 \<le> dc" "dc < 2 ^ 24" using t by (auto simp: sint_sar dc_def data_cycles_def timely_def)
  have c: "0 \<le> sint (c_RCD d)" "sint (c_RCD d) < 2 ^ 24" "0 \<le> sint (c_CAS d)" "sint (c_CAS d) < 2 ^ 24" "0 \<le> sint (c_RP d)" "sint (c_RP d) < 2 ^ 24"
    "0 \<le> sint (when_command_bus_ready d)" "sint (when_command_bus_ready d) \<le> sint t + 2 ^ 28"
    "0 \<le> sint (when_data_bus_ready d)" "sint (when_data_bus_ready d) \<le> sint t + 2 ^ 28" "0 \<le> sint t" "sint t < 2 ^ 62" "0 <s burst_chunks u n"
    using t by (auto simp: timely_def word_sless_alt)
  have p: "pre \<le> sint t + 2 ^ 28" using t r unfolding timely_def pre_def get_dbank_def by (auto simp: list_all_length)
  have l: "sint (c_CAS d + ?dl) = sint (c_CAS d) + dc" "sint (c_CAS d + ?dl + c_RCD d) = sint (c_CAS d) + dc + sint (c_RCD d)"
    using c dl by (simp_all add: sint_plus32)
  let ?st = "tmax (when_command_bus_ready d) t"
  have st: "sint ?st = start" "sint t \<le> start" "start \<le> sint t + 2 ^ 28" using c by (auto simp: sint_tmax start_def)
  have h: "sint (?st + scast (c_CAS d + ?dl)) = start + (sint (c_CAS d) + dc)"
    "sint (when_data_bus_ready d + scast ?dl) = sint (when_data_bus_ready d) + dc"
    "sint (?st + scast (c_RP d)) = start + sint (c_RP d)"
    using c dl st l by (simp_all add: sint_plus64 sint_scast)
  let ?st2 = "tmax (?st + scast (c_RP d)) (when_precharge_ready (get_dbank (addr_rank d a) (addr_bank d a) d))"
  have st2: "sint ?st2 = max (start + sint (c_RP d)) pre" using h by (simp add: sint_tmax pre_def)
  then have m: "sint (?st2 + scast (c_CAS d + ?dl + c_RCD d)) = max (start + sint (c_RP d)) pre + (sint (c_CAS d) + dc + sint (c_RCD d))"
    using c dl st l p by (subst sint_plus64) (auto simp: sint_scast max_def)
  define w where "w = (if row_open d a then tmax (?st + scast (c_CAS d + ?dl)) (when_data_bus_ready d + scast ?dl)
    else tmax (?st2 + scast (c_CAS d + ?dl + c_RCD d)) (when_data_bus_ready d + scast ?dl))"
  have w: "sint w = max ((if row_open d a then start else max (start + sint (c_RP d)) pre + sint (c_RCD d)) + sint (c_CAS d) + dc)
      (sint (when_data_bus_ready d) + dc)"
    using h m by (simp add: w_def sint_tmax ac_simps)
  have b: "sint t \<le> sint w" "sint w \<le> sint t + 2 ^ 30" using c dl st p unfolding w by auto
  then have "sint (w - t) = sint w - sint t" using c by (intro sint_minus64) auto
  then have "sint (ucast (w - t) :: cint) = sint w - sint t" using b by (subst sint_ucast32) simp_all
  moreover have "\<exists>d'. dram_simplesdram_access u t cmd a n d = Some (ucast (w - t), d')"
    using c by (simp add: dram_simplesdram_access_def Let_def w_def row_open_def)
  ultimately show ?thesis using w by auto
qed

text \<open>A well-formed array: the masks of the address keep rank and bank within it.\<close>

definition array_covers :: "dram_simplesdram_t \<Rightarrow> bool" where
  "array_covers d \<longleftrightarrow> unat (rank_mask d) < length (array d) \<and> list_all (\<lambda>bs. unat (dbank_mask d) < length bs) (array d)"

lemma array_covers_addr:
  assumes "array_covers d"
  shows "unat (addr_rank d a) < length (array d)" and "unat (addr_bank d a) < length (array d ! unat (addr_rank d a))"
proof -
  have le: "unat (addr_rank d a) \<le> unat (rank_mask d)" "unat (addr_bank d a) \<le> unat (dbank_mask d)"
    by (simp_all add: addr_rank_def addr_bank_def pc_mask_eq unat_and_le)
  then show *: "unat (addr_rank d a) < length (array d)" using assms by (simp add: array_covers_def)
  have "unat (dbank_mask d) < length (array d ! unat (addr_rank d a))"
    using assms * by (simp add: array_covers_def list_all_length)
  then show "unat (addr_bank d a) < length (array d ! unat (addr_rank d a))" using le by simp
qed

text \<open>C37: an access to an open row is never slower than one to a row that has to be opened: it takes at
  least the column strobe and the burst, the other at least precharge, activation, column strobe and
  burst, and in the same state the first returns no later than the second.\<close>

theorem row_buffer_hit_is_faster:
  assumes "timely u t n d" and "array_covers d" and "row_open d a" and "\<not> row_open d b"
  shows "\<exists>la lb d1 d2. dram_simplesdram_access u t cmd a n d = Some (la, d1) \<and> dram_simplesdram_access u t cmd' b n d = Some (lb, d2) \<and>
    sint (c_CAS d) + data_cycles u n \<le> sint la \<and> sint la \<le> sint lb \<and>
    sint (c_RP d) + sint (c_RCD d) + sint (c_CAS d) + data_cycles u n \<le> sint lb"
proof -
  have "0 \<le> sint (c_RP d)" "0 \<le> sint (c_RCD d)" using assms(1) by (simp_all add: timely_def)
  then show ?thesis
    using access_latency [OF assms(1) array_covers_addr [OF assms(2), of a], of cmd]
      access_latency [OF assms(1) array_covers_addr [OF assms(2), of b], of cmd'] assms(3,4)
    by (auto simp: max_def)
qed

definition ex_fsb :: fsb_params where
  "ex_fsb = \<lparr>fsb_width = 8, fsb_bits = 3, fsb_speed = 800, fsb_DDR = True\<rparr>"

definition ex_dram :: dram_simplesdram_t where
  "ex_dram = the (dram_simplesdram_create 0 ex_fsb 1 2 35 11 11 15 11 64)"

theorem row_buffer_hit_is_faster_witness:
  "\<exists>la lb d1 d2. dram_simplesdram_access ex_fsb 100 CACHE_READ 64 64 ex_dram = Some (la, d1) \<and>
     dram_simplesdram_access ex_fsb 100 CACHE_READ 32768 64 ex_dram = Some (lb, d2) \<and> sint la \<le> sint lb"
proof -
  have "timely ex_fsb 100 64 ex_dram" and "array_covers ex_dram" and "row_open ex_dram 64" and "\<not> row_open ex_dram 32768"
    by code_simp+
  from row_buffer_hit_is_faster [OF this] show ?thesis by blast
qed

text \<open>Refreshing the row that is open computes with \<^verbatim>\<open>TICK_T_MAX\<close>: the sum overflows and the bank counts
  as precharged long ago.\<close>

lemma refresh_open_row_overflows:
  assumes "current_row e = row" and "0 < sint (c_WR d) + sint (c_RP d)" and "0 \<le> sint (c_WR d)" and "0 \<le> sint (c_RP d)"
  shows "sint (when_precharge_ready (refresh_bank_update t row d e)) < 0"
proof -
  have "sint (c_WR d) < 2 ^ 31" "sint (c_RP d) < 2 ^ 31" using sint_lt [of "c_WR d"] sint_lt [of "c_RP d"] by simp_all
  then have s: "sint (scast (c_WR d) + scast (c_RP d) :: tick_t) = sint (c_WR d) + sint (c_RP d)"
    using assms by (subst sint_plus64) (simp_all add: sint_scast)
  have p: "sint (a + b) = signed_take_bit 63 (sint a + sint b)" for a b :: tick_t by (simp add: sint_word_ariths)
  have "sint (TICK_T_MAX + (scast (c_WR d) + scast (c_RP d))) = signed_take_bit 63 (2 ^ 63 - 1 + (sint (c_WR d) + sint (c_RP d)))"
    by (subst p, subst s) (simp add: TICK_T_MAX_def)
  also have "\<dots> = (2 ^ 64 + (sint (c_WR d) + sint (c_RP d) - 1)) mod 2 ^ 64 - 2 ^ 63"
    by (simp add: signed_take_bit_eq_take_bit_shift take_bit_eq_mod)
  also have "\<dots> = sint (c_WR d) + sint (c_RP d) - 1 - 2 ^ 63"
    using assms \<open>sint (c_WR d) < 2 ^ 31\<close> \<open>sint (c_RP d) < 2 ^ 31\<close> by (subst mod_add_self1, subst mod_pos_pos_trivial) simp_all
  also have "\<dots> < 0" using \<open>sint (c_WR d) < 2 ^ 31\<close> \<open>sint (c_RP d) < 2 ^ 31\<close> by simp
  finally show ?thesis using assms by (simp add: refresh_bank_update_def add.assoc)
qed

end
