(* ===== verification/Noc.thy ===== *)
theory Noc
  imports Complex_Main Cache_Heap
begin

text \<open>
  The buses of \<^verbatim>\<open>zesto-noc.cpp\<close>. \<^verbatim>\<open>bus->clock\<close> points to the cycle counter that drives the bus: a
  private cache's, a core's or the uncore's; the current value is an argument. The cycles of a transfer
  are a rational number, computed exactly; utilisation statistics are sums of them. The ratio of a bus
  is positive (\<^verbatim>\<open>bus_create\<close> is called with 1 or with a rounded-up quotient of two speeds).
\<close>

datatype clock_t = Cache_Clock nat | Core_Clock nat | Uncore_Clock

record bus_t =
  is_FSB :: bool
  bus_width :: cint
  bus_clock :: clock_t
  bus_ratio :: cint
  when_available :: tick_t
  accesses :: counter_t
  utilization :: rat
  prefetch_utilization :: rat

definition bus_create :: "bool \<Rightarrow> cint \<Rightarrow> clock_t \<Rightarrow> cint \<Rightarrow> bus_t" where
  "bus_create is_fsb width clk ratio =
     \<lparr>is_FSB = is_fsb, bus_width = width, bus_clock = clk, bus_ratio = ratio, when_available = 0, accesses = 0,
      utilization = 0, prefetch_utilization = 0\<rparr>"

definition bus_free :: "bool \<Rightarrow> tick_t \<Rightarrow> bus_t \<Rightarrow> bool" where
  "bus_free fsb_magic now bus \<longleftrightarrow>
     (fsb_magic \<and> is_FSB bus) \<or> (sint now mod sint (bus_ratio bus) = 0 \<and> when_available bus \<le>s now)"

text \<open>The conversion of a floating-point number to \<^verbatim>\<open>int\<close>: rounding towards zero, and the value the x86
  instruction \<^verbatim>\<open>cvttsd2si\<close> gives when the number does not fit.\<close>

definition double_to_int :: "rat \<Rightarrow> cint" where
  "double_to_int x =
     (let z = (if x < 0 then \<lceil>x\<rceil> else \<lfloor>x\<rfloor>) in if - (2 ^ 31) \<le> z \<and> z < 2 ^ 31 then word_of_int z else 0x80000000)"

definition transfer_cycles :: "bus_t \<Rightarrow> cint \<Rightarrow> rat" where
  "transfer_cycles bus transfer_size = of_int (sint transfer_size) / of_int (sint (bus_width bus)) * of_int (sint (bus_ratio bus))"

definition bus_use :: "tick_t \<Rightarrow> cint \<Rightarrow> bool \<Rightarrow> bus_t \<Rightarrow> bus_t" where
  "bus_use now transfer_size prefetch bus =
     (let lat = transfer_cycles bus transfer_size in
      bus\<lparr>when_available := scast (double_to_int (of_int (sint now) + lat)), accesses := accesses bus + 1,
          utilization := utilization bus + lat,
          prefetch_utilization := prefetch_utilization bus + (if prefetch then lat else 0)\<rparr>)"

section \<open>Properties\<close>

text \<open>While the cycle count fits an \<^verbatim>\<open>int\<close>, a transfer keeps the bus busy for its duration, rounded
  down.\<close>

lemma bus_busy_until:
  assumes "0 \<le> sint now" and "0 \<le> transfer_cycles bus n" and "of_int (sint now) + transfer_cycles bus n < 2 ^ 31"
  shows "sint (when_available (bus_use now n pf bus)) = sint now + \<lfloor>transfer_cycles bus n\<rfloor>"
proof -
  have e: "\<lfloor>of_int (sint now) + transfer_cycles bus n\<rfloor> = sint now + \<lfloor>transfer_cycles bus n\<rfloor>" by (simp del: of_int_sint)
  have "\<lfloor>of_int (sint now) + transfer_cycles bus n\<rfloor> < 2 ^ 31"
    by (subst floor_less_iff) (use assms(3) in \<open>simp del: of_int_sint\<close>)
  then have l: "sint now + \<lfloor>transfer_cycles bus n\<rfloor> < 2 ^ 31" "0 \<le> sint now + \<lfloor>transfer_cycles bus n\<rfloor>"
    using assms(1,2) unfolding e by simp_all
  then have l2: "- 2147483648 \<le> sint now + \<lfloor>transfer_cycles bus n\<rfloor>" by linarith
  have d: "double_to_int (of_int (sint now) + transfer_cycles bus n) = word_of_int (sint now + \<lfloor>transfer_cycles bus n\<rfloor>)"
    using assms l by (simp add: double_to_int_def Let_def not_less e l2 del: of_int_sint)
  have "sint (word_of_int z :: cint) = z" if "0 \<le> z" "z < 2 ^ 31" for z
    using that by (simp add: sint_sbintrunc' signed_take_bit_int_eq_self)
  from this [OF l(2,1)] show ?thesis unfolding bus_use_def Let_def d by (simp add: sint_up_scast is_up)
qed

text \<open>C38: a bus that is used is held for the transfer only while the cycle counter fits an \<^verbatim>\<open>int\<close>: from
  cycle \<open>2 ^ 31\<close> on, \<^verbatim>\<open>bus_use\<close> stores a negative time, and right after a transfer of any size the bus is
  free again at the same cycle.\<close>

theorem bus_never_busy_after_2_31:
  assumes "2 ^ 31 \<le> sint now" and "0 \<le> transfer_cycles bus n" and "sint now mod sint (bus_ratio bus) = 0"
  shows "bus_free magic now (bus_use now n pf bus)"
proof -
  have "(2::rat) ^ 31 \<le> of_int (sint now)" using assms(1) by (metis of_int_le_iff of_int_numeral of_int_power)
  then have g: "(2::rat) ^ 31 \<le> of_int (sint now) + transfer_cycles bus n" using assms(2) by (simp del: of_int_sint)
  then have "2 ^ 31 \<le> \<lfloor>of_int (sint now) + transfer_cycles bus n\<rfloor>" by (subst le_floor_iff) (simp del: of_int_sint)
  then have "double_to_int (of_int (sint now) + transfer_cycles bus n) = 0x80000000" using g by (simp add: double_to_int_def del: of_int_sint)
  then have "sint (when_available (bus_use now n pf bus)) < 0"
    by (simp add: bus_use_def Let_def sint_up_scast is_up del: of_int_sint)
  then show ?thesis using assms(1,3) by (simp add: bus_free_def word_sle_eq bus_use_def Let_def)
qed

theorem bus_never_busy_after_2_31_witness:
  "bus_free False 2147483648 (bus_use 2147483648 64 False (bus_create False 8 Uncore_Clock 4))"
  by (rule bus_never_busy_after_2_31) (simp_all add: transfer_cycles_def bus_create_def)

end
