(* ===== verification/Memsys.thy ===== *)
theory Memsys
  imports Cache_Mshr Prefetch Dram Noc "HOL-Library.Monad_Syntax"
begin

text \<open>
  The memory hierarchy: the caches of \<^verbatim>\<open>zesto-cache.cpp\<close> connected by their coherence controllers
  (\<^verbatim>\<open>ZCOMPS-coherence/\<close>), the buses of \<^verbatim>\<open>zesto-noc.cpp\<close>, the memory controllers of \<^verbatim>\<open>ZCOMPS-MC/\<close> and
  the DRAM. A cache is a \<open>cache_node\<close>: its \<open>base\<close> holds the fields modelled in the theory Cache, the
  other fields are here. Pointers to caches and buses are positions in the lists of the state; the
  callbacks into the core are recorded in \<open>calls\<close>. What the code asks of the core and of the random
  number generator is the environment \<open>env\<close>: whether an address has been translated
  (\<^verbatim>\<open>translated_cb\<close>), the current action of an operation (\<^verbatim>\<open>get_action_id\<close>), the draws of the replacement
  policy and of \<^verbatim>\<open>magic_hit_rate\<close>. None is a failed assertion, \<^verbatim>\<open>fatal()\<close> or a null pointer.
\<close>

section \<open>Virtual dispatch\<close>

datatype prefetcher_t = PF_nextline prefetch_t | PF_IP prefetch_IP_t | PF_2lev_IP prefetch_2lev_IP_t
  | PF_context prefetch_context_t | PF_stream prefetch_stream_t

fun prefetcher_lookup :: "md_addr_t \<Rightarrow> md_paddr_t \<Rightarrow> prefetcher_t \<Rightarrow> (md_paddr_t \<times> prefetcher_t) option" where
  "prefetcher_lookup pc a (PF_nextline s) = Some (map_prod id PF_nextline (prefetch_nextline_lookup s pc a))"
| "prefetcher_lookup pc a (PF_IP s) = Some (map_prod id PF_IP (prefetch_IP_lookup s pc a))"
| "prefetcher_lookup pc a (PF_2lev_IP s) = Some (map_prod id PF_2lev_IP (prefetch_2lev_IP_lookup s pc a))"
| "prefetcher_lookup pc a (PF_context s) = Some (map_prod id PF_context (prefetch_context_lookup s pc a))"
| "prefetcher_lookup pc a (PF_stream s) = map_option (map_prod id PF_stream) (prefetch_stream_lookup s pc a)"

text \<open>Only the two-level prefetcher overrides \<^verbatim>\<open>latest_lookup\<close>, which the base class answers with 0.\<close>

fun prefetcher_latest_lookup :: "md_addr_t \<Rightarrow> md_paddr_t \<Rightarrow> prefetcher_t \<Rightarrow> md_paddr_t" where
  "prefetcher_latest_lookup pc a (PF_2lev_IP s) = prefetch_2lev_IP_latest_lookup s pc a"
| "prefetcher_latest_lookup pc a _ = 0"

datatype dram_model = Dram_simplescalar dram_simplescalar_t | Dram_simplesdram dram_simplesdram_t | Dram_infbw dram_simplesdram_t

fun dram_access :: "fsb_params \<Rightarrow> tick_t \<Rightarrow> cache_command \<Rightarrow> md_paddr_t \<Rightarrow> cint \<Rightarrow> dram_model \<Rightarrow> (cint \<times> dram_model) option" where
  "dram_access u t c a n (Dram_simplescalar d) = map_option (map_prod id Dram_simplescalar) (dram_simplescalar_access u n d)"
| "dram_access u t c a n (Dram_simplesdram d) = map_option (map_prod id Dram_simplesdram) (dram_simplesdram_access u t c a n d)"
| "dram_access u t c a n (Dram_infbw d) = map_option (map_prod id Dram_infbw) (dram_infbw_access u t c a n d)"

fun dram_refresh :: "tick_t \<Rightarrow> dram_model \<Rightarrow> dram_model" where
  "dram_refresh t (Dram_simplescalar d) = Dram_simplescalar d"
| "dram_refresh t (Dram_simplesdram d) = Dram_simplesdram (dram_simplesdram_refresh t d)"
| "dram_refresh t (Dram_infbw d) = Dram_infbw (dram_infbw_refresh t d)"

section \<open>State\<close>

record PFF_t =
  pff_PC :: md_addr_t
  pff_addr :: md_paddr_t
  pff_core :: "nat option"

datatype PF_state_t = PF_REFRAIN | PF_OK

text \<open>A coherence controller: \<^verbatim>\<open>none\<close>, or \<^verbatim>\<open>const\<close> with its penalty and its counters of shared and private
  requests.\<close>

datatype controller_t = Ctl_none | Ctl_const cint counter_t counter_t

record cache_stat_t =
  load_lookups :: counter_t
  load_misses :: counter_t
  store_lookups :: counter_t
  store_misses :: counter_t
  writeback_lookups :: counter_t
  writeback_misses :: counter_t
  prefetch_lookups :: counter_t
  prefetch_misses :: counter_t
  prefetch_useful_insertions :: counter_t
  MSHR_occupancy :: counter_t
  MSHR_full_cycles :: counter_t
  core_lookups :: "nat \<Rightarrow> counter_t"
  core_misses :: "nat \<Rightarrow> counter_t"

record cache_node =
  base :: cache_t
  sim_cycle :: tick_t
  frozen :: bool
  start_point :: cint
  MSHR_cmd_order :: "cache_command list option"
  PFF_size :: cint
  PFF_num :: cint
  PFF_head :: cint
  PFF_tail :: cint
  PFF :: "PFF_t list"
  prefetcher :: "prefetcher_t list"
  prefetch_threshold :: cint
  prefetch_max :: cint
  prefetch_on_miss :: bool
  PF_state :: PF_state_t
  PF_last_sample :: cint
  PF_sample_interval :: cint
  PF_next_sample_cycle :: cint
  PF_low_watermark :: rat
  PF_high_watermark :: rat
  PF_buffer :: "md_paddr_t list"
  next_level :: "nat option"
  next_bus :: "nat option"
  controller :: controller_t
  stat :: cache_stat_t

record MC_action_t =
  mc_valid :: bool
  mc_op :: "nat option"
  mc_action_id :: seq_t
  mc_addr :: md_paddr_t
  mc_linesize :: cint
  mc_MSHR_bank :: cint
  mc_MSHR_index :: cint
  mc_cmd :: cache_command
  mc_prev_cp :: "nat option"
  mc_cb :: "nat option"
  mc_get_action_id :: "nat option"
  mc_when_enqueued :: tick_t
  mc_when_started :: tick_t
  mc_when_finished :: tick_t
  mc_when_returned :: tick_t

record MC_simple_t =
  total_accesses :: counter_t
  total_dram_cycles :: counter_t
  total_service_cycles :: counter_t
  RQ_size :: cint
  RQ_num :: cint
  RQ_head :: cint
  RQ_tail :: cint
  RQ :: "MC_action_t list"
  FIFO_scheduling :: bool
  last_request :: md_paddr_t
  next_available_time :: tick_t

datatype MC_t = MC_ideal counter_t | MC_simple MC_simple_t

text \<open>The calls back into the core: \<^verbatim>\<open>cb(op)\<close> and \<^verbatim>\<open>miss_cb(op, latency)\<close>.\<close>

datatype call_t = Call_cb "nat option" "nat option" | Call_miss_cb "nat option" "nat option" cint

record msys =
  nodes :: "cache_node list"
  buses :: "bus_t list"
  LLC :: nat
  fsb :: nat
  uncore_cycle :: tick_t
  core_cycles :: "tick_t list"
  uncore_params :: fsb_params
  fsb_magic :: bool
  MC :: MC_t
  dram :: dram_model
  writers :: "md_paddr_t \<Rightarrow> nat option"
  vmem :: mem_t
  calls :: "call_t list"

record env =
  translated :: "cache_action_t \<Rightarrow> bool"
  current_id :: "nat option \<Rightarrow> nat option \<Rightarrow> seq_t"
  rand_draw :: "nat \<Rightarrow> nat"
  magic_draw :: "nat \<Rightarrow> bool option"

section \<open>Construction\<close>

text \<open>\<^verbatim>\<open>cache_set_MSHR_cmd_order\<close>: no order for an absent option or \<^verbatim>\<open>fcfs\<close>, otherwise each of the four
  letters once.\<close>

definition to_upper :: "char \<Rightarrow> char" where
  "to_upper c = (let n = of_char c :: nat in if 97 \<le> n \<and> n \<le> 122 then char_of (n - 32) else c)"

fun cmd_letter :: "char \<Rightarrow> cache_command option" where
  "cmd_letter c =
     (if to_upper c = CHR ''R'' then Some CACHE_READ else if to_upper c = CHR ''W'' then Some CACHE_WRITE
      else if to_upper c = CHR ''B'' then Some CACHE_WRITEBACK else if to_upper c = CHR ''P'' then Some CACHE_PREFETCH else None)"

definition cache_set_MSHR_cmd_order :: "string option \<Rightarrow> cache_command list option option" where
  "cache_set_MSHR_cmd_order opt =
     (case opt of
        None \<Rightarrow> Some None
      | Some s \<Rightarrow>
          if map to_upper s = ''FCFS'' then Some None
          else if length s \<noteq> 4 \<or> None \<in> set (map cmd_letter s) then None
          else (let cs = map (the \<circ> cmd_letter) s in
                checked (set cs = {CACHE_READ, CACHE_WRITE, CACHE_WRITEBACK, CACHE_PREFETCH}) (Some cs)))"

definition prefetch_buffer_create :: "cint \<Rightarrow> cache_node \<Rightarrow> cache_node" where
  "prefetch_buffer_create m n = n\<lparr>PF_buffer := replicate (nat (sint m)) (-1) @ PF_buffer n\<rparr>"

record prefetcher_knobs_t =
  pff_size :: cint
  pf_thresh :: cint
  pf_max :: cint
  pf_buffer_size :: cint
  pf_filter_size :: cint
  pf_filter_reset :: cint
  pf_on_miss :: bool
  watermark_interval :: cint
  low_watermark :: rat
  high_watermark :: rat

text \<open>The prefetchers are built from their option strings before (\<^verbatim>\<open>prefetch_create\<close>); without a first one
  there are none.\<close>

definition prefetchers_create :: "prefetcher_t list \<Rightarrow> prefetcher_knobs_t \<Rightarrow> cache_node \<Rightarrow> cache_node" where
  "prefetchers_create ps kn n =
     (let n = n\<lparr>prefetcher := ps, PFF_size := pff_size kn,
                PFF := replicate (unat (pff_size kn)) \<lparr>pff_PC = 0, pff_addr = 0, pff_core = None\<rparr>,
                prefetch_threshold := pf_thresh kn, prefetch_max := pf_max kn\<rparr>;
          n = prefetch_buffer_create (pf_buffer_size kn) n;
          n = n\<lparr>base := prefetch_filter_create (pf_filter_size kn) (pf_filter_reset kn) (base n)\<rparr>
      in n\<lparr>prefetch_on_miss := pf_on_miss kn, PF_sample_interval := watermark_interval kn,
           PF_next_sample_cycle := watermark_interval kn, PF_low_watermark := low_watermark kn, PF_high_watermark := high_watermark kn\<rparr>)"

definition stat0 :: cache_stat_t where
  "stat0 = \<lparr>load_lookups = 0, load_misses = 0, store_lookups = 0, store_misses = 0, writeback_lookups = 0, writeback_misses = 0,
     prefetch_lookups = 0, prefetch_misses = 0, prefetch_useful_insertions = 0, MSHR_occupancy = 0, MSHR_full_cycles = 0,
     core_lookups = (\<lambda>_. 0), core_misses = (\<lambda>_. 0)\<rparr>"

text \<open>The rest of \<^verbatim>\<open>cache_create\<close>, around the fields of \<open>base\<close>.\<close>

definition node_create :: "cache_t \<Rightarrow> cache_command list option \<Rightarrow> nat option \<Rightarrow> nat option \<Rightarrow> controller_t \<Rightarrow> cache_node" where
  "node_create c order nl nb ctl =
     \<lparr>base = c, sim_cycle = 0, frozen = False, start_point = 0, MSHR_cmd_order = order, PFF_size = 0, PFF_num = 0, PFF_head = 0,
      PFF_tail = 0, PFF = [], prefetcher = [], prefetch_threshold = 0, prefetch_max = 0, prefetch_on_miss = False,
      PF_state = PF_REFRAIN, PF_last_sample = 0, PF_sample_interval = 0, PF_next_sample_cycle = 0, PF_low_watermark = 0,
      PF_high_watermark = 0, PF_buffer = [], next_level = nl, next_bus = nb, controller = ctl, stat = stat0\<rparr>"

section \<open>Access to the state\<close>

definition upd_node :: "nat \<Rightarrow> (cache_node \<Rightarrow> cache_node) \<Rightarrow> msys \<Rightarrow> msys" where
  "upd_node k f st = st\<lparr>nodes := upd (nodes st) k f\<rparr>"

definition cache_of :: "msys \<Rightarrow> nat \<Rightarrow> cache_t" where
  "cache_of st k = base (nodes st ! k)"

definition set_cache :: "nat \<Rightarrow> cache_t \<Rightarrow> msys \<Rightarrow> msys" where
  "set_cache k c = upd_node k (\<lambda>n. n\<lparr>base := c\<rparr>)"

definition on_cache :: "nat \<Rightarrow> (cache_t \<Rightarrow> cache_t option) \<Rightarrow> msys \<Rightarrow> msys option" where
  "on_cache k f st = map_option (\<lambda>c. set_cache k c st) (f (cache_of st k))"

definition cache_get_cycle :: "msys \<Rightarrow> nat \<Rightarrow> tick_t" where
  "cache_get_cycle st k = (if k = LLC st then uncore_cycle st else sim_cycle (nodes st ! k))"

fun clock_now :: "msys \<Rightarrow> clock_t \<Rightarrow> tick_t" where
  "clock_now st (Cache_Clock k) = sim_cycle (nodes st ! k)"
| "clock_now st (Core_Clock i) = core_cycles st ! i"
| "clock_now st Uncore_Clock = uncore_cycle st"

definition bus_is_free :: "msys \<Rightarrow> nat \<Rightarrow> bool" where
  "bus_is_free st b = bus_free (fsb_magic st) (clock_now st (bus_clock (buses st ! b))) (buses st ! b)"

definition use_bus :: "nat \<Rightarrow> cint \<Rightarrow> bool \<Rightarrow> msys \<Rightarrow> msys" where
  "use_bus b n pf st = st\<lparr>buses := upd (buses st) b (bus_use (clock_now st (bus_clock (buses st ! b))) n pf)\<rparr>"

definition add_call :: "call_t \<Rightarrow> msys \<Rightarrow> msys" where
  "add_call x st = st\<lparr>calls := x # calls st\<rparr>"

primrec fold_opt :: "('a \<Rightarrow> 's \<Rightarrow> 's option) \<Rightarrow> 'a list \<Rightarrow> 's \<Rightarrow> 's option" where
  "fold_opt f [] s = Some s"
| "fold_opt f (x # xs) s = Option.bind (f x s) (fold_opt f xs)"

text \<open>The banks in the order of the loops \<^verbatim>\<open>for(b=0;b<n;b++) { bank = (start_point+b) & mask; ... }\<close>.\<close>

definition bank_order :: "cint \<Rightarrow> cint \<Rightarrow> cint \<Rightarrow> nat list" where
  "bank_order start n m = map (\<lambda>b. unat ((start + of_nat b) AND m)) [0 ..< unat n]"

text \<open>\<^verbatim>\<open>action_id == get_action_id(op)\<close>, for an operation that is not \<^verbatim>\<open>NULL\<close>. A request with an operation
  is taken to have a \<^verbatim>\<open>get_action_id\<close>, as all callers give it one: the code calls it without a test.\<close>

definition still_wanted :: "env \<Rightarrow> cache_action_t \<Rightarrow> bool" where
  "still_wanted v e \<longleftrightarrow> ca_op e \<noteq> None \<and> action_id e = current_id v (get_action_id e) (ca_op e)"

section \<open>Answers to the level below\<close>

definition deliver :: "nat \<Rightarrow> nat \<Rightarrow> cint \<Rightarrow> tick_t \<Rightarrow> msys \<Rightarrow> msys option" where
  "deliver p bank i delay st = on_cache p (fill_arrived (cache_get_cycle st p) bank i delay) st"

section \<open>Memory controllers\<close>

fun mc_enqueuable :: "MC_t \<Rightarrow> bool" where
  "mc_enqueuable (MC_ideal n) = True"
| "mc_enqueuable (MC_simple m) = (RQ_num m <s RQ_size m)"

definition fsb_size :: "msys \<Rightarrow> cint \<Rightarrow> cint" where
  "fsb_size st n = sar n (if fsb_DDR (uncore_params st) then 1 else 0)"

definition MC_ideal_enqueue :: "request \<Rightarrow> md_paddr_t \<Rightarrow> cint \<Rightarrow> counter_t \<Rightarrow> msys \<Rightarrow> msys option" where
  "MC_ideal_enqueue rq a lsize n st =
     do { st1 \<leftarrow> (case rq_prev_cp rq of
                   None \<Rightarrow> Some st
                 | Some p \<Rightarrow> do { st1 \<leftarrow> deliver p (unat (rq_MSHR_bank rq)) (rq_MSHR_index rq) 0 st;
                                  Some (use_bus (fsb st1) (fsb_size st1 lsize) (rq_cmd rq = CACHE_PREFETCH) st1) });
          Some (st1\<lparr>MC := MC_ideal (n + 1)\<rparr>) }"

definition mc_action0 :: MC_action_t where
  "mc_action0 = \<lparr>mc_valid = False, mc_op = None, mc_action_id = 0, mc_addr = 0, mc_linesize = 0, mc_MSHR_bank = 0, mc_MSHR_index = 0,
     mc_cmd = CACHE_NOP, mc_prev_cp = None, mc_cb = None, mc_get_action_id = None, mc_when_enqueued = 0, mc_when_started = 0,
     mc_when_finished = 0, mc_when_returned = 0\<rparr>"

definition MC_simple_create :: "cint \<Rightarrow> bool \<Rightarrow> MC_simple_t" where
  "MC_simple_create n fifo =
     \<lparr>total_accesses = 0, total_dram_cycles = 0, total_service_cycles = 0, RQ_size = n, RQ_num = 0, RQ_head = 0, RQ_tail = 0,
      RQ = replicate (unat n) mc_action0, FIFO_scheduling = fifo, last_request = 0, next_available_time = 0\<rparr>"

definition mc_action :: "tick_t \<Rightarrow> request \<Rightarrow> md_paddr_t \<Rightarrow> cint \<Rightarrow> MC_action_t" where
  "mc_action cycle rq a lsize =
     \<lparr>mc_valid = True, mc_op = rq_op rq, mc_action_id = rq_action_id rq, mc_addr = a, mc_linesize = lsize,
      mc_MSHR_bank = rq_MSHR_bank rq, mc_MSHR_index = rq_MSHR_index rq, mc_cmd = rq_cmd rq, mc_prev_cp = rq_prev_cp rq,
      mc_cb = rq_cb rq, mc_get_action_id = rq_get_action_id rq, mc_when_enqueued = cycle, mc_when_started = TICK_T_MAX,
      mc_when_finished = TICK_T_MAX, mc_when_returned = TICK_T_MAX\<rparr>"

definition MC_simple_enqueue :: "tick_t \<Rightarrow> request \<Rightarrow> md_paddr_t \<Rightarrow> cint \<Rightarrow> MC_simple_t \<Rightarrow> MC_simple_t option" where
  "MC_simple_enqueue cycle rq a lsize m =
     (if \<not> RQ_num m <s RQ_size m \<or> mc_valid (RQ m ! unat (RQ_tail m)) then None
      else Some (m\<lparr>RQ := (RQ m)[unat (RQ_tail m) := mc_action cycle rq a lsize], RQ_num := RQ_num m + 1,
                   RQ_tail := modinc (RQ_tail m) (RQ_size m), total_accesses := total_accesses m + 1\<rparr>))"

definition mc_enqueue :: "request \<Rightarrow> md_paddr_t \<Rightarrow> cint \<Rightarrow> msys \<Rightarrow> msys option" where
  "mc_enqueue rq a lsize st =
     (case MC st of
        MC_ideal n \<Rightarrow> MC_ideal_enqueue rq a lsize n st
      | MC_simple m \<Rightarrow> map_option (\<lambda>m. st\<lparr>MC := MC_simple m\<rparr>) (MC_simple_enqueue (uncore_cycle st) rq a lsize m))"

text \<open>The scan for the next request to send to the DRAM: the first one not started, or with page
  batching the first one to the page of the last request if there is one.\<close>

definition mc_page :: "MC_action_t \<Rightarrow> md_paddr_t" where
  "mc_page r = drop_bit PAGE_SHIFT (mc_addr r)"

fun mc_pick :: "MC_simple_t \<Rightarrow> nat \<Rightarrow> cint \<Rightarrow> nat option \<Rightarrow> nat option option" where
  "mc_pick m 0 idx pick = Some pick"
| "mc_pick m (Suc n) idx pick =
     (let r = RQ m ! unat idx in
      if \<not> mc_valid r then None
      else if mc_when_started r = TICK_T_MAX \<and>
              ((pick = None \<and> FIFO_scheduling m) \<or> mc_page r = last_request m)
      then Some (Some (unat idx))
      else mc_pick m n (modinc idx (RQ_size m))
             (if mc_when_started r = TICK_T_MAX \<and> pick = None then Some (unat idx) else pick))"

definition mc_start :: "nat \<Rightarrow> MC_simple_t \<Rightarrow> msys \<Rightarrow> msys option" where
  "mc_start j m st =
     (let r = RQ m ! j; cycle = uncore_cycle st in
      do { (lat, d) \<leftarrow> dram_access (uncore_params st) cycle (mc_cmd r) (mc_addr r) (mc_linesize r) (dram st);
           Some (st\<lparr>dram := d, MC := MC_simple (m\<lparr>
             RQ := (RQ m)[j := r\<lparr>mc_when_started := cycle, mc_when_finished := cycle + ucast lat\<rparr>],
             last_request := mc_page r, next_available_time := cycle + 1,
             total_dram_cycles := total_dram_cycles m + ucast lat\<rparr>)\<rparr>) })"

fun mc_return :: "nat \<Rightarrow> cint \<Rightarrow> MC_simple_t \<Rightarrow> msys \<Rightarrow> (MC_simple_t \<times> msys) option" where
  "mc_return 0 idx m st = Some (m, st)"
| "mc_return (Suc n) idx m st =
     (let r = RQ m ! unat idx; cycle = uncore_cycle st in
      if mc_when_finished r \<le>s cycle \<and> mc_when_returned r = TICK_T_MAX \<and> (mc_prev_cp r = None \<or> bus_is_free st (fsb st))
      then (let m = m\<lparr>RQ := (RQ m)[unat idx := r\<lparr>mc_when_returned := cycle\<rparr>],
                      total_service_cycles := total_service_cycles m + (cycle - mc_when_enqueued r)\<rparr>
            in case mc_prev_cp r of
                 Some p \<Rightarrow> do { st1 \<leftarrow> deliver p (unat (mc_MSHR_bank r)) (mc_MSHR_index r) 0 st;
                                Some (m, use_bus (fsb st1) (fsb_size st1 (mc_linesize r)) (mc_cmd r = CACHE_PREFETCH) st1) }
               | None \<Rightarrow> mc_return n (modinc idx (RQ_size m)) m st)
      else mc_return n (modinc idx (RQ_size m)) m st)"

definition mc_commit :: "tick_t \<Rightarrow> MC_simple_t \<Rightarrow> MC_simple_t option" where
  "mc_commit cycle m =
     (let r = RQ m ! unat (RQ_head m) in
      if mc_valid r \<and> mc_when_returned r \<le>s cycle
      then checked (0 \<le> sint (RQ_num m - 1))
             (m\<lparr>RQ := (RQ m)[unat (RQ_head m) := r\<lparr>mc_valid := False\<rparr>], RQ_num := RQ_num m - 1,
                RQ_head := modinc (RQ_head m) (RQ_size m)\<rparr>)
      else Some m)"

definition mc_send :: "MC_simple_t \<Rightarrow> msys \<Rightarrow> msys option" where
  "mc_send m st =
     (if next_available_time m \<le>s uncore_cycle st
      then do { pick \<leftarrow> mc_pick m (unat (RQ_num m)) (RQ_head m) None;
                case pick of None \<Rightarrow> Some st | Some j \<Rightarrow> mc_start j m st }
      else Some st)"

definition mc_finish :: "MC_simple_t \<Rightarrow> msys \<Rightarrow> msys option" where
  "mc_finish m st =
     do { (m, st) \<leftarrow> mc_return (unat (RQ_num m)) (RQ_head m) m st;
          m \<leftarrow> mc_commit (uncore_cycle st) m;
          Some (st\<lparr>MC := MC_simple m\<rparr>) }"

definition mc_step :: "msys \<Rightarrow> msys option" where
  "mc_step st =
     (case MC st of
        MC_ideal _ \<Rightarrow> Some st
      | MC_simple m \<Rightarrow>
          if 0 <s RQ_num m
          then do { st \<leftarrow> mc_send m st; case MC st of MC_simple m \<Rightarrow> mc_finish m st | MC_ideal _ \<Rightarrow> None }
          else Some st)"

section \<open>Coherence controllers\<close>

text \<open>\<^verbatim>\<open>check_array\<close> and \<^verbatim>\<open>check_MSHR\<close> of both controllers: a line that is found is a hit, and a request
  whose address is in a register never stalls.\<close>

datatype controller_response_t = MSHR_CHECK_ARRAY | MSHR_STALL

definition check_array :: "nat option \<Rightarrow> bool" where
  "check_array line \<longleftrightarrow> line \<noteq> None"

definition check_MSHR :: "cache_action_t \<Rightarrow> controller_response_t" where
  "check_MSHR e = MSHR_CHECK_ARRAY"

definition can_schedule_upstream :: "msys \<Rightarrow> nat \<Rightarrow> bool" where
  "can_schedule_upstream st k =
     (case next_level (nodes st ! k) of
        Some _ \<Rightarrow> (case next_bus (nodes st ! k) of None \<Rightarrow> True | Some b \<Rightarrow> bus_is_free st b)
      | None \<Rightarrow> bus_is_free st (fsb st))"

definition can_schedule_downstream :: "msys \<Rightarrow> nat option \<Rightarrow> bool option" where
  "can_schedule_downstream st prev =
     (case prev of None \<Rightarrow> Some True | Some p \<Rightarrow> map_option (bus_is_free st) (next_bus (nodes st ! p)))"

text \<open>\<^verbatim>\<open>const\<close> records the last writer of an address.\<close>

definition note_writer :: "controller_t \<Rightarrow> cache_action_t \<Rightarrow> msys \<Rightarrow> msys option" where
  "note_writer ctl e st =
     (case ctl of
        Ctl_none \<Rightarrow> Some st
      | Ctl_const _ _ _ \<Rightarrow>
          if ca_cmd e = CACHE_WRITE
          then map_option (\<lambda>i. st\<lparr>writers := (writers st)(ca_paddr e \<mapsto> i)\<rparr>) (ca_core e)
          else if ca_cmd e = CACHE_WRITEBACK then Some (st\<lparr>writers := (writers st)(ca_paddr e := None)\<rparr>)
          else Some st)"

definition up_request :: "nat \<Rightarrow> nat \<Rightarrow> nat \<Rightarrow> cache_action_t \<Rightarrow> request" where
  "up_request k bank i e =
     \<lparr>rq_core = ca_core e, rq_prev_cp = Some k, rq_cmd = ca_cmd e, rq_PC = ca_PC e, rq_action_id = action_id e,
      rq_MSHR_bank = of_nat bank, rq_MSHR_index = of_nat i, rq_op = ca_op e, rq_cb = cb e, rq_miss_cb = miss_cb e,
      rq_translated_cb = None, rq_get_action_id = get_action_id e, rq_prefetcher_hint = False\<rparr>"

definition up_size :: "cache_action_t \<Rightarrow> cint \<Rightarrow> cint" where
  "up_size e n = (if writes (ca_cmd e) then n else 1)"

definition send_to_cache :: "nat \<Rightarrow> nat \<Rightarrow> nat \<Rightarrow> nat \<Rightarrow> msys \<Rightarrow> (bool \<times> msys) option" where
  "send_to_cache n k bank i st =
     (let e = MSHR (cache_of st k) ! bank ! i in
      do { ok \<leftarrow> cache_enqueuable (vmem st) (cache_of st n) DO_NOT_TRANSLATE (ca_paddr e);
           if \<not> ok then Some (False, st)
           else do {
             st \<leftarrow> note_writer (controller (nodes st ! k)) e st;
             st \<leftarrow> on_cache n (cache_enqueue (vmem st) (cache_get_cycle st n) (up_request k bank i e) DO_NOT_TRANSLATE (ca_paddr e)) st;
             b \<leftarrow> next_bus (nodes st ! k);
             Some (True, use_bus b (up_size e (linesize (cache_of st k))) (ca_cmd e = CACHE_PREFETCH) st) } })"

definition send_to_MC :: "nat \<Rightarrow> nat \<Rightarrow> nat \<Rightarrow> msys \<Rightarrow> (bool \<times> msys) option" where
  "send_to_MC k bank i st =
     (let e = MSHR (cache_of st k) ! bank ! i; n = linesize (cache_of st k) in
      if \<not> mc_enqueuable (MC st) then Some (False, st)
      else do {
        st \<leftarrow> mc_enqueue (up_request k bank i e) (ca_paddr e) n st;
        Some (True, use_bus (fsb st) (up_size e (fsb_size st n)) (ca_cmd e = CACHE_PREFETCH) st) })"

definition send_request_upstream :: "nat \<Rightarrow> nat \<Rightarrow> nat \<Rightarrow> msys \<Rightarrow> (bool \<times> msys) option" where
  "send_request_upstream k bank i st =
     do { (sent, st) \<leftarrow> (case next_level (nodes st ! k) of
                           Some n \<Rightarrow> send_to_cache n k bank i st
                         | None \<Rightarrow> send_to_MC k bank i st);
          Some (sent, if sent then set_cache k (mark_started (cache_get_cycle st k) bank i (cache_of st k)) st else st) }"

text \<open>The delay of an answer under \<^verbatim>\<open>const\<close>: the penalty when another core wrote the address last.\<close>

definition count_sharing :: "cache_action_t \<Rightarrow> msys \<Rightarrow> controller_t \<Rightarrow> (tick_t \<times> controller_t) option" where
  "count_sharing e st ctl =
     (case ctl of
        Ctl_none \<Rightarrow> Some (0, Ctl_none)
      | Ctl_const pen sh pr \<Rightarrow>
          (case writers st (ca_paddr e) of
             None \<Rightarrow> Some (0, Ctl_const pen sh (pr + 1))
           | Some w \<Rightarrow> (case ca_core e of None \<Rightarrow> None
               | Some i \<Rightarrow> Some (if w \<noteq> i then (ucast pen, Ctl_const pen (sh + 1) pr) else (0, Ctl_const pen sh (pr + 1))))))"

definition send_response_downstream :: "nat \<Rightarrow> cache_action_t \<Rightarrow> msys \<Rightarrow> msys option" where
  "send_response_downstream k e st =
     (case prev_cp e of
        None \<Rightarrow> Some st
      | Some p \<Rightarrow>
          do { (delay, ctl) \<leftarrow> count_sharing e st (controller (nodes st ! k));
               b \<leftarrow> next_bus (nodes st ! p);
               deliver p (unat (MSHR_bank e)) (MSHR_index e) delay
                 (use_bus b (if ca_cmd e = CACHE_WRITEBACK then 1 else linesize (cache_of st p)) (ca_cmd e = CACHE_PREFETCH)
                    (upd_node k (\<lambda>n. n\<lparr>controller := ctl\<rparr>) st)) })"

section \<open>Write-backs in the registers (\<^verbatim>\<open>cache_process_MSHR_WB\<close>)\<close>

definition wb_ready :: "cache_action_t \<Rightarrow> bool" where
  "wb_ready e \<longleftrightarrow> cb e \<noteq> None \<and> mtype e = MSHR_WRITEBACK \<and> when_started e = TICK_T_MAX"

definition wb_bank :: "nat \<Rightarrow> nat \<Rightarrow> bool \<times> msys \<Rightarrow> (bool \<times> msys) option" where
  "wb_bank k bank = (\<lambda>(found, st).
     if MSHR_WB_num (cache_of st k) ! bank = 0 then Some (found, st)
     else case MSHR_oldest wb_ready (MSHR (cache_of st k) ! bank) of
            None \<Rightarrow> Some (found, st)
          | Some i \<Rightarrow> do { (_, st) \<leftarrow> send_request_upstream k bank i st; Some (True, st) })"

definition wb_sent :: "cache_action_t \<Rightarrow> bool" where
  "wb_sent e \<longleftrightarrow> cb e \<noteq> None \<and> mtype e = MSHR_WRITEBACK \<and> when_started e \<noteq> TICK_T_MAX"

definition wb_drop_bank :: "nat \<Rightarrow> nat \<Rightarrow> bool \<times> msys \<Rightarrow> (bool \<times> msys) option" where
  "wb_drop_bank k bank = (\<lambda>(found, st).
     do { st1 \<leftarrow> on_cache k (\<lambda>c. MSHR_WB_drop (cache_get_cycle st k) bank [0 ..< unat (MSHR_size c)] c) st;
          Some (found \<or> list_ex wb_sent (MSHR (cache_of st k) ! bank), st1) })"

definition cache_process_MSHR_WB :: "nat \<Rightarrow> cint \<Rightarrow> msys \<Rightarrow> msys option" where
  "cache_process_MSHR_WB k start st =
     (let c = cache_of st k; order = bank_order start (MSHR_banks c) (MSHR_mask c) in
      if \<not> check_for_MSHR_WB_work c then Some st
      else do {
        (found, st) \<leftarrow> (if can_schedule_upstream st k then fold_opt (wb_bank k) order (False, st) else Some (True, st));
        (found, st) \<leftarrow> fold_opt (wb_drop_bank k) order (found, st);
        Some (set_cache k ((cache_of st k)\<lparr>check_for_MSHR_WB_work := found\<rparr>) st) })"

section \<open>Returned misses (\<^verbatim>\<open>cache_process_MSHR_fill\<close>)\<close>

text \<open>The prefetch buffer is a list, most recently used first. A prefetched address takes the place of
  its own block, of the first empty entry or of the last entry, and moves to the front.\<close>

fun pf_buffer_split :: "(md_paddr_t \<Rightarrow> bool) \<Rightarrow> md_paddr_t list \<Rightarrow> md_paddr_t list \<times> md_paddr_t list" where
  "pf_buffer_split stop [] = ([], [])"
| "pf_buffer_split stop (a # as) =
     (if stop a \<or> as = [] then ([], a # as) else map_prod ((#) a) id (pf_buffer_split stop as))"

definition pf_buffer_insert :: "nat \<Rightarrow> md_paddr_t \<Rightarrow> md_paddr_t list \<Rightarrow> md_paddr_t list" where
  "pf_buffer_insert shift a buf =
     (case pf_buffer_split (\<lambda>x. drop_bit shift a = drop_bit shift x \<or> x = -1) buf of
        (ys, x # zs) \<Rightarrow> (if drop_bit shift a = drop_bit shift x then x else a) # ys @ zs
      | (ys, []) \<Rightarrow> ys)"

text \<open>The prefetch filter's verdict on a returned prefetch, and the filter after it.\<close>

definition filter_verdict :: "tick_t \<Rightarrow> cache_action_t \<Rightarrow> cache_t \<Rightarrow> (bool \<times> prefetch_filter_t option) option" where
  "filter_verdict cycle e c =
     (case PF_filter c of
        Some p \<Rightarrow> if ca_cmd e = CACHE_PREFETCH
          then map_option (\<lambda>(ins, p). (ins, Some p)) (prefetch_filter_lookup (sint cycle) (drop_bit (unat (addr_shift c)) (ca_paddr e)) p)
          else Some (True, Some p)
      | None \<Rightarrow> Some (True, None))"

text \<open>Whether the block of a returned request enters the cache, its buffer or neither.\<close>

definition accept_fill :: "tick_t \<Rightarrow> cache_action_t \<Rightarrow> cache_node \<Rightarrow> cache_node option" where
  "accept_fill cycle e n =
     (if MSHR_linked e then Some n
      else
        (case filter_verdict cycle e (base n) of
           None \<Rightarrow> None
         | Some (ins, flt) \<Rightarrow>
        (let c = (base n)\<lparr>PF_filter := flt\<rparr>; shift = unat (addr_shift c)
         in if ca_cmd e = CACHE_PREFETCH \<and> PF_buffer n \<noteq> [] \<and> ins
            then Some (n\<lparr>base := c, PF_buffer := pf_buffer_insert shift (ca_paddr e) (PF_buffer n)\<rparr>)
            else if fills_array c (ca_cmd e) \<and> ins
            then map_option (\<lambda>c. n\<lparr>base := c\<rparr>) (cache_fill cycle (ca_cmd e) (ca_paddr e) (ca_core e) c)
            else Some (n\<lparr>base := c\<rparr>))))"

definition on_node :: "nat \<Rightarrow> (cache_node \<Rightarrow> cache_node option) \<Rightarrow> msys \<Rightarrow> msys option" where
  "on_node k f st = map_option (\<lambda>n. st\<lparr>nodes := (nodes st)[k := n]\<rparr>) (f (nodes st ! k))"

definition fill_ready :: "tick_t \<Rightarrow> cache_t \<Rightarrow> cache_action_t \<Rightarrow> bool" where
  "fill_ready cycle c e \<longleftrightarrow> mtype e \<noteq> MSHR_WRITEBACK \<and> cb e \<noteq> None \<and> when_returned e \<le>s cycle \<and> cache_fillable c (ca_paddr e)"

text \<open>Callbacks are made at the first level only.\<close>

definition call_back :: "env \<Rightarrow> cache_action_t \<Rightarrow> msys \<Rightarrow> msys" where
  "call_back v e st = (if prev_cp e = None \<and> still_wanted v e then add_call (Call_cb (cb e) (ca_op e)) st else st)"

definition fill_bank :: "env \<Rightarrow> nat \<Rightarrow> nat \<Rightarrow> bool \<times> msys \<Rightarrow> (bool \<times> msys) option" where
  "fill_bank v k bank = (\<lambda>(found, st).
     (let c = cache_of st k; cycle = cache_get_cycle st k in
      if MSHR_fill_num c ! bank = 0 then Some (found, st)
      else case MSHR_oldest (fill_ready cycle c) (MSHR c ! bank) of
             None \<Rightarrow> Some (True, st)
           | Some i \<Rightarrow>
               (let e = MSHR c ! bank ! i in
                do { ok \<leftarrow> can_schedule_downstream st (prev_cp e);
                     if \<not> ok then Some (True, st)
                     else do {
                       st \<leftarrow> on_node k (accept_fill cycle e) st;
                       st \<leftarrow> send_response_downstream k e (call_back v e st);
                       st \<leftarrow> on_cache k (MSHR_deallocate (ca_paddr e) i) st;
                       Some (True, st) } })))"

definition cache_process_MSHR_fill :: "env \<Rightarrow> nat \<Rightarrow> cint \<Rightarrow> msys \<Rightarrow> msys option" where
  "cache_process_MSHR_fill v k start st =
     (let c = cache_of st k in
      if \<not> check_for_MSHR_fill_work c then Some st
      else do {
        (found, st) \<leftarrow> fold_opt (fill_bank v k) (bank_order start (MSHR_banks c) (MSHR_mask c)) (False, st);
        Some (set_cache k ((cache_of st k)\<lparr>check_for_MSHR_fill_work := found\<rparr>) st) })"

section \<open>Fills of the array (\<^verbatim>\<open>cache_process_fills\<close>)\<close>

definition cache_process_fills :: "env \<Rightarrow> nat \<Rightarrow> cint \<Rightarrow> msys \<Rightarrow> msys option" where
  "cache_process_fills v k start st =
     (let c = cache_of st k; order = map (\<lambda>b. unat ((scast (start + of_nat b) :: md_paddr_t) AND bank_mask c)) [0 ..< unat (banks c)] in
      if \<not> check_for_fill_work c then Some st
      else do {
        (found, st) \<leftarrow> fold_opt (\<lambda>bank (found, st). do {
            st1 \<leftarrow> on_cache k (cache_process_fill (cache_get_cycle st k) (rand_draw v bank) k bank) st;
            Some (found \<or> fill_num (cache_of st k) ! bank \<noteq> 0, st1) }) order (False, st);
        Some (set_cache k ((cache_of st k)\<lparr>check_for_fill_work := found\<rparr>) st) })"

section \<open>The access pipeline (\<^verbatim>\<open>cache_process_pipe\<close>)\<close>

definition is_LLC_core :: "msys \<Rightarrow> nat \<Rightarrow> cache_action_t \<Rightarrow> nat option" where
  "is_LLC_core st k e = (if k = LLC st then ca_core e else None)"

definition count_request :: "nat option \<Rightarrow> cache_command \<Rightarrow> bool \<Rightarrow> cache_stat_t \<Rightarrow> cache_stat_t" where
  "count_request core cmnd hit s =
     (let m = (if hit then 0 else 1);
          s = (case core of None \<Rightarrow> s
               | Some i \<Rightarrow> s\<lparr>core_lookups := (core_lookups s)(i := core_lookups s i + 1),
                             core_misses := (core_misses s)(i := core_misses s i + m)\<rparr>)
      in case cmnd of
           CACHE_READ \<Rightarrow> s\<lparr>load_lookups := load_lookups s + 1, load_misses := load_misses s + m\<rparr>
         | CACHE_PREFETCH \<Rightarrow> s\<lparr>prefetch_lookups := prefetch_lookups s + 1, prefetch_misses := prefetch_misses s + m\<rparr>
         | CACHE_WRITE \<Rightarrow> s\<lparr>store_lookups := store_lookups s + 1, store_misses := store_misses s + m\<rparr>
         | CACHE_WRITEBACK \<Rightarrow> s\<lparr>writeback_lookups := writeback_lookups s + 1, writeback_misses := writeback_misses s + m\<rparr>
         | _ \<Rightarrow> s)"

text \<open>The histograms of missing instruction addresses are not modelled. \<open>line\<close> is the set and the line
  of a hit in the array.\<close>

definition update_request_stats :: "nat option \<Rightarrow> cache_action_t \<Rightarrow> (nat \<times> nat) option \<Rightarrow> bool \<Rightarrow> cache_node \<Rightarrow> cache_node" where
  "update_request_stats core e line hit n =
     (let n = (if frozen n then n else n\<lparr>stat := count_request core (ca_cmd e) hit (stat n)\<rparr>) in
      case line of
        None \<Rightarrow> n
      | Some (index, x) \<Rightarrow>
          (let s = blocks (base n) ! index; l = lines s ! x in
           if hit \<and> ca_cmd e \<noteq> CACHE_PREFETCH \<and> cache_line_t.prefetched l \<and> \<not> prefetch_used l
           then (let n = n\<lparr>base := (base n)\<lparr>blocks := (blocks (base n))[index := upd_line x (\<lambda>l. l\<lparr>prefetch_used := True\<rparr>) s]\<rparr>\<rparr> in
                 if frozen n then n
                 else n\<lparr>stat := (stat n)\<lparr>prefetch_useful_insertions := prefetch_useful_insertions (stat n) + 1\<rparr>\<rparr>)
           else n))"

text \<open>The prefetch FIFO: an address that is not in it goes to its tail; a full FIFO loses its oldest
  entry.\<close>

fun pff_search :: "cache_node \<Rightarrow> md_paddr_t \<Rightarrow> nat \<Rightarrow> cint \<Rightarrow> bool" where
  "pff_search n a 0 idx = False"
| "pff_search n a (Suc j) idx = (pff_addr (PFF n ! unat idx) = a \<or> pff_search n a j (modinc idx (PFF_size n)))"

definition pff_push :: "md_addr_t \<Rightarrow> nat option \<Rightarrow> md_paddr_t \<Rightarrow> cache_node \<Rightarrow> cache_node option" where
  "pff_push pc core a n =
     (if page_round_down a = 0 \<or> pff_search n a (unat (PFF_num n)) (PFF_head n) then Some n
      else
        (let full = (PFF_num n = PFF_size n);
             n = (if full then n\<lparr>PFF_head := modinc (PFF_head n) (PFF_size n), PFF_num := PFF_num n - 1\<rparr> else n);
             n' = n\<lparr>PFF := (PFF n)[unat (PFF_tail n) := \<lparr>pff_PC = pc, pff_addr = a, pff_core = core\<rparr>],
                    PFF_tail := modinc (PFF_tail n) (PFF_size n), PFF_num := PFF_num n + 1\<rparr>
         in checked ((full \<longrightarrow> 0 \<le> sint (PFF_num n)) \<and> unat (PFF_tail n) < length (PFF n) \<and> PFF_num n' \<le>s PFF_size n') n'))"

definition ask_prefetcher :: "cache_action_t \<Rightarrow> nat \<Rightarrow> cache_node \<Rightarrow> cache_node option" where
  "ask_prefetcher e ii n =
     (let p = prefetcher n ! ii in
      if prefetcher_hint e then pff_push (ca_PC e) (ca_core e) (prefetcher_latest_lookup (ca_PC e) (ca_paddr e) p) n
      else do { (a, p) \<leftarrow> prefetcher_lookup (ca_PC e) (ca_paddr e) p;
                pff_push (ca_PC e) (ca_core e) a (n\<lparr>prefetcher := (prefetcher n)[ii := p]\<rparr>) })"

definition train_prefetchers :: "bool \<Rightarrow> cache_action_t \<Rightarrow> cache_node \<Rightarrow> cache_node option" where
  "train_prefetchers do_prefetch e n =
     (if do_prefetch \<and> ca_PC e \<noteq> 0 \<and> ca_cmd e = CACHE_READ
      then fold_opt (ask_prefetcher e) [0 ..< length (prefetcher n)] n else Some n)"

text \<open>The end of an access that leaves the pipeline.\<close>

definition leave_pipe :: "bool \<Rightarrow> cache_action_t \<Rightarrow> nat \<Rightarrow> nat \<Rightarrow> msys \<Rightarrow> msys option" where
  "leave_pipe do_prefetch e k bank st =
     do { st \<leftarrow> on_node k (train_prefetchers do_prefetch e) st; on_cache k (pipe_dequeue bank) st }"

definition pipe_hit :: "env \<Rightarrow> cache_action_t \<Rightarrow> nat \<Rightarrow> nat \<Rightarrow> nat \<Rightarrow> msys \<Rightarrow> msys option" where
  "pipe_hit v e k bank x st =
     (let c = cache_of st k; needs_WB = (writes (ca_cmd e) \<and> write_policy c = WRITE_THROUGH) in
      if needs_WB \<and> \<not> MSHR_WB_available c (ca_paddr e) then Some st
      else do {
        ok \<leftarrow> can_schedule_downstream st (prev_cp e);
        if \<not> ok then Some st
        else do {
          st \<leftarrow> (if needs_WB
                then on_cache k (MSHR_WB_insert (cache_get_cycle st k) k
                       (line0\<lparr>cl_core := ca_core e, tag := drop_bit (unat (addr_shift c)) (ca_paddr e), valid := True\<rparr>)) st
                else Some st);
          st \<leftarrow> send_response_downstream k e
                 (upd_node k (update_request_stats (is_LLC_core st k e) e (Some (set_index c (ca_paddr e), x)) True) (call_back v e st));
          leave_pipe (\<not> prefetch_on_miss (nodes st ! k)) e k bank st } })"

text \<open>A miss looks into the prefetch buffer. When it is there, the victim of the set is written back if
  need be and the block goes to the fill pipeline; otherwise the buffer entry moves to its front.\<close>

definition in_pf_buffer :: "cache_node \<Rightarrow> cache_action_t \<Rightarrow> bool" where
  "in_pf_buffer n e \<longleftrightarrow> (ca_cmd e = CACHE_READ \<or> ca_cmd e = CACHE_PREFETCH \<or> (writes (ca_cmd e) \<and> write_combining (base n))) \<and>
     list_ex (\<lambda>a. drop_bit (unat (addr_shift (base n))) a = drop_bit (unat (addr_shift (base n))) (ca_paddr e)) (PF_buffer n)"

definition promote :: "tick_t \<Rightarrow> nat \<Rightarrow> nat \<Rightarrow> cache_action_t \<Rightarrow> cache_node \<Rightarrow> cache_node option" where
  "promote cycle r k e n =
     (let c = base n; shift = unat (addr_shift c); i = set_index c (ca_paddr e) in
      case (pf_buffer_split (\<lambda>a. drop_bit shift a = drop_bit shift (ca_paddr e)) (PF_buffer n),
            set_get_evictee (cache_params.truncate c) r (blocks c ! i)) of
        ((ys, a # zs), Some (Some x, s)) \<Rightarrow>
          (let l = lines s ! x; must_write = (write_policy c = WRITE_BACK \<and> valid l \<and> dirty l);
               can_write = MSHR_WB_available c (ca_paddr e); c = c\<lparr>blocks := (blocks c)[i := s]\<rparr> in
           do { c \<leftarrow> (if must_write \<and> can_write then MSHR_WB_insert cycle k l c else Some c);
                if (must_write \<longrightarrow> can_write) \<and> cache_fillable c (ca_paddr e)
                then map_option (\<lambda>c. n\<lparr>base := c\<rparr>) (cache_fill cycle CACHE_PREFETCH a (ca_core e)
                       (c\<lparr>blocks := (blocks c)[i := upd_line x (\<lambda>l. l\<lparr>valid := False, dirty := False\<rparr>) s]\<rparr>))
                else Some (n\<lparr>base := c, PF_buffer := a # ys @ zs\<rparr>) })
      | _ \<Rightarrow> None)"

definition pipe_buffer_hit :: "env \<Rightarrow> cache_action_t \<Rightarrow> nat \<Rightarrow> nat \<Rightarrow> msys \<Rightarrow> msys option" where
  "pipe_buffer_hit v e k bank st =
     do { st \<leftarrow> on_node k (promote (cache_get_cycle st k) (rand_draw v bank) k e) st;
          ok \<leftarrow> can_schedule_downstream st (prev_cp e);
          if \<not> ok then None
          else do {
            st \<leftarrow> send_response_downstream k e (upd_node k (update_request_stats (is_LLC_core st k e) e None True) (call_back v e st));
            leave_pipe (\<not> prefetch_on_miss (nodes st ! k)) e k bank st } }"

definition pipe_miss :: "cache_action_t \<Rightarrow> nat \<Rightarrow> nat \<Rightarrow> msys \<Rightarrow> msys option" where
  "pipe_miss e k bank st =
     (if \<not> MSHR_available (cache_of st k) (ca_paddr e) then Some st
      else do {
        st \<leftarrow> on_cache k (MSHR_insert (cache_get_cycle st k) e) st;
        leave_pipe True e k bank (upd_node k (update_request_stats (is_LLC_core st k e) e None False) st) })"

definition pipe_access :: "env \<Rightarrow> nat \<Rightarrow> nat \<Rightarrow> msys \<Rightarrow> msys option" where
  "pipe_access v k bank st =
     (let c = cache_of st k; e = pipe c ! bank ! 1 in
      if cb e = None then on_cache k (pipe_dequeue bank) st
      else if \<not> pipe_exit_time e \<le>s cache_get_cycle st k then Some st
      else if map_option check_MSHR (find (\<lambda>m. cb m \<noteq> None \<and> ca_paddr m = ca_paddr e) (MSHR c ! GET_MSHR_BANK c (ca_paddr e))) =
              Some MSHR_STALL then Some st
      else do {
        (line, c) \<leftarrow> cache_is_hit (magic_draw v bank) (ca_cmd e) (ca_paddr e) c;
        case (if check_array line then line else None) of
          Some x \<Rightarrow> pipe_hit v e k bank x (set_cache k c st)
        | None \<Rightarrow> if in_pf_buffer (nodes st ! k) e then pipe_buffer_hit v e k bank (set_cache k c st)
                  else pipe_miss e k bank (set_cache k c st) })"

definition cache_process_pipe :: "env \<Rightarrow> nat \<Rightarrow> cint \<Rightarrow> msys \<Rightarrow> msys option" where
  "cache_process_pipe v k start st =
     (let c = cache_of st k; order = map (\<lambda>b. unat ((scast (start + of_nat b) :: md_paddr_t) AND bank_mask c)) [0 ..< unat (banks c)] in
      if \<not> check_for_pipe_work c then Some st
      else do {
        (found, st) \<leftarrow> fold_opt (\<lambda>bank (found, st).
            if pipe_num (cache_of st k) ! bank = 0 then Some (found, st)
            else do { st \<leftarrow> pipe_access v k bank st; Some (True, st) }) order (False, st);
        Some (set_cache k ((cache_of st k)\<lparr>check_for_pipe_work := found\<rparr>) st) })"

section \<open>Sending misses (\<^verbatim>\<open>cache_process_MSHR\<close>)\<close>

definition BIG_LATENCY :: cint where "BIG_LATENCY = 99999"

text \<open>The core learns of misses that wait for a translation. The test does not look at \<^verbatim>\<open>cb\<close>, so it also
  concerns what is left in released registers.\<close>

definition waits_for_TLB :: "env \<Rightarrow> cache_action_t \<Rightarrow> bool" where
  "waits_for_TLB v e \<longleftrightarrow> mtype e \<noteq> MSHR_WRITEBACK \<and> \<not> miss_cb_invoked e \<and> translated_cb e \<noteq> None \<and> \<not> translated v e \<and>
     miss_cb e \<noteq> None \<and> still_wanted v e"

definition notify_TLB_waits :: "env \<Rightarrow> nat \<Rightarrow> nat \<Rightarrow> msys \<Rightarrow> msys" where
  "notify_TLB_waits v k bank st =
     (let c = cache_of st k; es = MSHR c ! bank in
      (set_cache k (c\<lparr>MSHR := (MSHR c)[bank := map (\<lambda>e. if waits_for_TLB v e then e\<lparr>miss_cb_invoked := True\<rparr> else e) es]\<rparr>) st)
      \<lparr>calls := rev (map (\<lambda>e. Call_miss_cb (miss_cb e) (ca_op e) BIG_LATENCY) (filter (waits_for_TLB v) es)) @ calls st\<rparr>)"

text \<open>What happens to the chosen register: a combined one counts as sent (its call reads the latency of the
  next level without a test for \<^verbatim>\<open>NULL\<close>), any other is handed to the controller. The call tells the core
  the latency to expect.\<close>

definition miss_latency :: "msys \<Rightarrow> nat \<Rightarrow> cint" where
  "miss_latency st k = (case next_level (nodes st ! k) of Some n \<Rightarrow> latency (cache_of st n) | None \<Rightarrow> BIG_LATENCY)"

definition count_sent :: "env \<Rightarrow> nat \<Rightarrow> nat \<Rightarrow> cache_action_t \<Rightarrow> msys \<Rightarrow> msys option" where
  "count_sent v k bank e st =
     (let c = cache_of st k; c = c\<lparr>MSHR_unprocessed_num := upd (MSHR_unprocessed_num c) bank (\<lambda>n. n - 1)\<rparr>;
          st = set_cache k c st
      in checked (0 \<le> MSHR_unprocessed_num c ! bank)
           (if miss_cb e \<noteq> None \<and> still_wanted v e then add_call (Call_miss_cb (miss_cb e) (ca_op e) (miss_latency st k)) st else st))"

definition send_miss :: "env \<Rightarrow> nat \<Rightarrow> nat \<Rightarrow> nat \<Rightarrow> msys \<Rightarrow> (bool \<times> msys) option" where
  "send_miss v k bank i st =
     (let e = MSHR (cache_of st k) ! bank ! i in
      if MSHR_linked e \<and> miss_cb e \<noteq> None \<and> still_wanted v e \<and> next_level (nodes st ! k) = None then None
      else if MSHR_linked e
      then do { st \<leftarrow> count_sent v k bank e (set_cache k (mark_started (cache_get_cycle st k) bank i (cache_of st k)) st); Some (True, st) }
      else do {
        (sent, st) \<leftarrow> send_request_upstream k bank i st;
        if sent then do { st \<leftarrow> count_sent v k bank e st; Some (True, st) } else Some (False, st) })"

text \<open>One bank, in the order of arrival or among the requests of one command. The loops over the banks
  and commands stop after the first request sent. In the second form the code also tests the chosen
  register for a missing translation, which its eligibility excludes.\<close>

definition miss_bank :: "env \<Rightarrow> cache_command option \<Rightarrow> nat \<Rightarrow> nat \<Rightarrow> bool \<times> bool \<times> msys \<Rightarrow> (bool \<times> bool \<times> msys) option" where
  "miss_bank v only k bank = (\<lambda>(found, sent, st).
     (let c = cache_of st k in
      if sent \<or> MSHR_num c ! bank = 0 then Some (found, sent, st)
      else if \<not> 0 < MSHR_unprocessed_num c ! bank then Some (True, sent, st)
      else
        (let pick = MSHR_oldest (\<lambda>e. miss_ready (translated v) e \<and> (only = None \<or> only = Some (ca_cmd e))) (MSHR c ! bank);
             st = (if only = None then notify_TLB_waits v k bank st else st)
         in case pick of
              None \<Rightarrow> Some (True, sent, st)
            | Some i \<Rightarrow> do { (sent, st) \<leftarrow> send_miss v k bank i st; Some (True, sent, st) })))"

definition count_occupancy :: "cache_node \<Rightarrow> cache_node" where
  "count_occupancy n =
     (let c = base n; occ = sum_list (map2 (+) (MSHR_num c) (MSHR_WB_num c)) in
      if frozen n then n
      else n\<lparr>stat := (stat n)\<lparr>MSHR_occupancy := MSHR_occupancy (stat n) + of_int occ,
               MSHR_full_cycles := MSHR_full_cycles (stat n) + of_bool (occ = sint (MSHR_banks c * MSHR_size c))\<rparr>\<rparr>)"

definition cache_process_MSHR :: "env \<Rightarrow> nat \<Rightarrow> cint \<Rightarrow> msys \<Rightarrow> msys option" where
  "cache_process_MSHR v k start st =
     (let c = cache_of st k; order = bank_order start (MSHR_banks c) (MSHR_mask c) in
      do { (found, sent, st) \<leftarrow>
             (if \<not> check_for_MSHR_work c then Some (False, False, st)
              else if can_schedule_upstream st k
              then (case MSHR_cmd_order (nodes st ! k) of
                      None \<Rightarrow> fold_opt (miss_bank v None k) order (False, False, st)
                    | Some cmds \<Rightarrow> fold_opt (\<lambda>cmnd. fold_opt (miss_bank v (Some cmnd) k) order) cmds (False, False, st))
              else Some (list_ex (\<lambda>b. MSHR_num c ! b \<noteq> 0) order, False, st));
           Some (upd_node k count_occupancy (set_cache k ((cache_of st k)\<lparr>check_for_MSHR_work := found\<rparr>) st)) })"

section \<open>One cycle of a cache\<close>

definition any_work :: "cache_t \<Rightarrow> bool" where
  "any_work c \<longleftrightarrow> check_for_MSHR_WB_work c \<or> check_for_MSHR_fill_work c \<or> check_for_fill_work c \<or> check_for_pipe_work c \<or> check_for_MSHR_work c"

definition cache_process :: "env \<Rightarrow> nat \<Rightarrow> msys \<Rightarrow> msys option" where
  "cache_process v k st =
     (let st = (if k = LLC st then st else upd_node k (\<lambda>n. n\<lparr>sim_cycle := sim_cycle n + 1\<rparr>) st);
          start = start_point (nodes st ! k)
      in if \<not> check_for_work (cache_of st k) then Some st
         else do {
           st \<leftarrow> cache_process_MSHR_WB k start (upd_node k (\<lambda>n. n\<lparr>start_point := modinc start (banks (base n))\<rparr>) st);
           st \<leftarrow> cache_process_MSHR_fill v k start st;
           st \<leftarrow> cache_process_fills v k start st;
           st \<leftarrow> cache_process_pipe v k start st;
           st \<leftarrow> cache_process_MSHR v k start st;
           Some (set_cache k ((cache_of st k)\<lparr>check_for_work := any_work (cache_of st k)\<rparr>) st) })"

section \<open>Prefetching\<close>

definition NO_MSHR :: cint where "NO_MSHR = -1"

definition prefetch_request :: "nat option \<Rightarrow> md_addr_t \<Rightarrow> nat \<Rightarrow> request" where
  "prefetch_request core pc bank =
     \<lparr>rq_core = core, rq_prev_cp = None, rq_cmd = CACHE_PREFETCH, rq_PC = pc, rq_action_id = -1, rq_MSHR_bank = of_nat bank,
      rq_MSHR_index = NO_MSHR, rq_op = None, rq_cb = Some dummy_callback, rq_miss_cb = None, rq_translated_cb = None,
      rq_get_action_id = None, rq_prefetcher_hint = False\<rparr>"

definition cache_prefetch :: "nat \<Rightarrow> msys \<Rightarrow> msys option" where
  "cache_prefetch k st =
     (let n = nodes st ! k; c = base n; q = PFF n ! unat (PFF_head n); bank = GET_MSHR_BANK c (pff_addr q) in
      if (PF_sample_interval n = 0 \<or> PF_state n = PF_OK) \<and> PFF_size n \<noteq> 0 \<and> PFF_num n \<noteq> 0 \<and>
         MSHR_num c ! bank < sint (prefetch_threshold n) \<and> MSHR_num_pf c ! bank < sint (prefetch_max n)
      then do {
        ok \<leftarrow> cache_enqueuable (vmem st) c DO_NOT_TRANSLATE (pff_addr q);
        if \<not> ok then Some st
        else do {
          c \<leftarrow> cache_enqueue (vmem st) (cache_get_cycle st k) (prefetch_request (pff_core q) (pff_PC q) bank) DO_NOT_TRANSLATE (pff_addr q) c;
          checked (0 \<le> sint (PFF_num n - 1))
            (upd_node k (\<lambda>n. n\<lparr>base := c, PFF_head := modinc (PFF_head n) (PFF_size n), PFF_num := PFF_num n - 1\<rparr>) st) } }
      else Some st)"

definition prefetch_controller_update :: "nat \<Rightarrow> msys \<Rightarrow> msys option" where
  "prefetch_controller_update k st =
     (let n = nodes st ! k in
      if PF_sample_interval n \<noteq> 0 \<and> cache_get_cycle st k = scast (PF_next_sample_cycle n)
      then do {
        b \<leftarrow> next_bus n;
        let sample = double_to_int (utilization (buses st ! b));
            duty = of_int (sint (sample - PF_last_sample n)) / of_int (sint (PF_sample_interval n))
        in Some (upd_node k (\<lambda>n. n\<lparr>PF_next_sample_cycle := PF_next_sample_cycle n + PF_sample_interval n, PF_last_sample := sample,
                  PF_state := (if duty < PF_low_watermark n then PF_OK else if PF_high_watermark n < duty then PF_REFRAIN else PF_state n)\<rparr>) st) }
      else Some st)"

section \<open>One uncore cycle (\<^verbatim>\<open>global_step\<close>)\<close>

definition uncore_step :: "env \<Rightarrow> msys \<Rightarrow> msys option" where
  "uncore_step v st =
     (let st = st\<lparr>uncore_cycle := uncore_cycle st + 1\<rparr>; st = st\<lparr>dram := dram_refresh (uncore_cycle st) (dram st)\<rparr> in
      do { st \<leftarrow> mc_step st; st \<leftarrow> prefetch_controller_update (LLC st) st; cache_process v (LLC st) st })"

text \<open>A request of the core.\<close>

definition core_enqueue :: "nat \<Rightarrow> request \<Rightarrow> cint \<Rightarrow> md_addr_t \<Rightarrow> msys \<Rightarrow> msys option" where
  "core_enqueue k rq asid a st = on_cache k (cache_enqueue (vmem st) (cache_get_cycle st k) rq asid a) st"

end
