(* ===== verification/Cache_Inv.thy ===== *)
theory Cache_Inv
  imports Cache_Mshr
begin

text \<open>
  The invariant of one cache with all its parts (access and fill pipelines, miss registers, lines), and
  for each operation of the theory Cache the facts the memory hierarchy needs: it succeeds, keeps the
  invariant, and changes the requests the cache holds (\<open>toks\<close>) and the registers that wait for an
  answer (\<open>waits\<close>) in a stated way.
\<close>

section \<open>Requests and waiting registers\<close>

text \<open>A request of a lower level names the register that waits for it: cache, bank and index.\<close>

definition tok :: "cache_action_t \<Rightarrow> nat \<times> nat \<times> nat" where
  "tok e = (the (prev_cp e), unat (MSHR_bank e), unat (MSHR_index e))"

definition ptok :: "cache_action_t \<Rightarrow> (nat \<times> nat \<times> nat) multiset" where
  "ptok e = (if prev_cp e = None then {#} else {#tok e#})"

definition mtok :: "cache_action_t \<Rightarrow> (nat \<times> nat \<times> nat) multiset" where
  "mtok e = (if is_miss e then ptok e else {#})"

definition pipe_toks :: "cache_action_t list \<Rightarrow> nat \<Rightarrow> (nat \<times> nat \<times> nat) multiset" where
  "pipe_toks p n = sum_mset (image_mset ptok (entries p n))"

definition toks :: "cache_t \<Rightarrow> (nat \<times> nat \<times> nat) multiset" where
  "toks c = (\<Sum>b < length (pipe c). pipe_toks (pipe c ! b) (nat (pipe_num c ! b))) +
            (\<Sum>b < length (MSHR c). sum_list (map mtok (MSHR c ! b)))"

definition waiting :: "cache_action_t \<Rightarrow> bool" where
  "waiting e \<longleftrightarrow> occ e \<and> when_started e \<noteq> TICK_T_MAX \<and> when_returned e = TICK_T_MAX"

definition waits :: "cache_t \<Rightarrow> (nat \<times> nat) set" where
  "waits c = {(b, i). b < length (MSHR c) \<and> i < length (MSHR c ! b) \<and> waiting (MSHR c ! b ! i)}"

lemma finite_waits [simp]: "finite (waits c)"
proof -
  have "waits c \<subseteq> (SIGMA b:{..<length (MSHR c)}. {..<length (MSHR c ! b)})" by (auto simp: waits_def)
  then show ?thesis by (rule finite_subset) auto
qed

lemma sum_change:
  fixes f g :: "nat \<Rightarrow> 'a::comm_monoid_add"
  assumes "b < n" and "\<And>b'. b' < n \<Longrightarrow> b' \<noteq> b \<Longrightarrow> g b' = f b'"
  shows "(\<Sum>b<n. g b) + f b = (\<Sum>b<n. f b) + g b"
proof -
  have "(\<Sum>b<n. g b) = g b + (\<Sum>b \<in> {..<n} - {b}. g b)" "(\<Sum>b<n. f b) = f b + (\<Sum>b \<in> {..<n} - {b}. f b)"
    using assms(1) by (simp_all add: sum.remove)
  moreover have "(\<Sum>b \<in> {..<n} - {b}. g b) = (\<Sum>b \<in> {..<n} - {b}. f b)" using assms(2) by (intro sum.cong) auto
  ultimately show ?thesis by (simp add: ac_simps)
qed

lemma sum_list_map_update:
  fixes f :: "'b \<Rightarrow> 'a::comm_monoid_add"
  assumes "i < length xs"
  shows "sum_list (map f (xs[i := x])) + f (xs ! i) = sum_list (map f xs) + f x"
  using assms
proof (induction xs arbitrary: i)
  case (Cons y ys)
  then show ?case
  proof (cases i)
    case (Suc j)
    then have "sum_list (map f (ys[j := x])) + f (ys ! j) = sum_list (map f ys) + f x" using Cons by simp
    then show ?thesis using Suc by (simp add: add.assoc)
  qed (simp add: ac_simps)
qed simp

section \<open>The invariant\<close>

text \<open>A request: it has a core, does not write a read-only cache, a prefetch occurs only where prefetches
  may (\<open>pf\<close>) and carries the register bank of its address, and it comes from the core or from a cache
  below (\<open>from\<close>).\<close>

definition req_ok :: "(nat \<Rightarrow> bool) \<Rightarrow> bool \<Rightarrow> cache_t \<Rightarrow> cache_action_t \<Rightarrow> bool" where
  "req_ok from pf c e \<longleftrightarrow> ca_core e \<noteq> None \<and> (read_only c \<longrightarrow> \<not> writes (ca_cmd e)) \<and>
     (ca_cmd e = CACHE_PREFETCH \<longrightarrow> pf \<and> unat (MSHR_bank e) = GET_MSHR_BANK c (ca_paddr e)) \<and>
     (\<forall>p. prev_cp e = Some p \<longrightarrow> from p)"

definition reg_ok :: "(nat \<Rightarrow> bool) \<Rightarrow> bool \<Rightarrow> cache_t \<Rightarrow> cache_action_t \<Rightarrow> bool" where
  "reg_ok from pf c e \<longleftrightarrow> (occ e \<longrightarrow> ca_core e \<noteq> None \<and> (is_miss e \<longrightarrow> req_ok from pf c e) \<and>
     (is_wb e \<longrightarrow> \<not> (read_only c \<and> write_policy c = WRITE_THROUGH)))"

text \<open>A pipeline: a heap of requests in the first positions, free entries behind them, and never more
  requests than the latency.\<close>

definition pipe_bank_ok :: "(nat \<Rightarrow> bool) \<Rightarrow> bool \<Rightarrow> cache_t \<Rightarrow> nat \<Rightarrow> bool" where
  "pipe_bank_ok from pf c b \<longleftrightarrow>
     (let p = pipe c ! b; n = nat (pipe_num c ! b) in
      0 \<le> pipe_num c ! b \<and> pipe_num c ! b \<le> sint (latency c) \<and> length p = heap_size c \<and> heap_ok exit_time p n \<and>
      (\<forall>e \<in># entries p n. cb e \<noteq> None \<and> exit_time e < sint TICK_T_MAX \<and> req_ok from pf c e \<and> MSHR_link e = None) \<and>
      (\<forall>i. n < i \<and> i < length p \<longrightarrow> cb (p ! i) = None \<and> MSHR_link (p ! i) = None))"

definition fill_bank_ok :: "cache_t \<Rightarrow> nat \<Rightarrow> bool" where
  "fill_bank_ok c b \<longleftrightarrow>
     (let p = fill_pipe c ! b; n = nat (fill_num c ! b) in
      0 \<le> fill_num c ! b \<and> fill_num c ! b \<le> sint (latency c) \<and> length p = heap_size c \<and> heap_ok fill_exit_time p n \<and>
      (\<forall>e \<in># entries p n. fill_exit_time e < sint TICK_T_MAX \<and> cf_core e \<noteq> None) \<and>
      (\<forall>i. n < i \<and> i < length p \<longrightarrow> \<not> cf_valid (p ! i)))"

definition set_cored :: "cache_set_t \<Rightarrow> bool" where
  "set_cored s \<longleftrightarrow> list_all (\<lambda>l. valid l \<longrightarrow> cl_core l \<noteq> None) (lines s)"

definition sets_ok :: "cache_t \<Rightarrow> bool" where
  "sets_ok c \<longleftrightarrow> sets c \<noteq> 0 \<and> length (blocks c) = unat (sets c) \<and>
     list_all (\<lambda>s. set_ok (cache_params.truncate c) s \<and> set_cored s) (blocks c)"

text \<open>The interval of the prefetch filter, if there is one, is not zero.\<close>

definition interval_ok :: "cint option \<Rightarrow> bool" where
  "interval_ok x \<longleftrightarrow> x \<noteq> Some 0"

definition banks_ok :: "cache_t \<Rightarrow> bool" where
  "banks_ok c \<longleftrightarrow> 0 < unat (banks c) \<and> unat (banks c) < 2 ^ 31 \<and> bank_mask c = scast (banks c - 1) \<and>
     length (pipe c) = unat (banks c) \<and> length (pipe_num c) = unat (banks c) \<and>
     length (fill_pipe c) = unat (banks c) \<and> length (fill_num c) = unat (banks c) \<and>
     0 \<le> sint (latency c) \<and> sint (latency c) < int (heap_size c) \<and> interval_ok (map_option reset_interval (PF_filter c))"

definition cache_inv :: "(nat \<Rightarrow> bool) \<Rightarrow> bool \<Rightarrow> cache_t \<Rightarrow> bool" where
  "cache_inv from pf c \<longleftrightarrow> mshr_inv c \<and> banks_ok c \<and> sets_ok c \<and>
     (\<forall>b < unat (banks c). pipe_bank_ok from pf c b \<and> fill_bank_ok c b) \<and>
     (\<forall>b < unat (MSHR_banks c). list_all (reg_ok from pf c) (MSHR c ! b))"

lemma bank_mask_less:
  assumes b: "banks_ok c"
  shows "unat (x AND bank_mask c) < unat (banks c)"
proof -
  have n: "banks c \<noteq> 0" using b by (auto simp: banks_ok_def)
  then have "unat (banks c - 1) < unat (banks c)" by (rule measure_unat)
  moreover have "unat (x AND bank_mask c) \<le> unat (scast (banks c - 1) :: 64 word)" using b unat_and_le by (simp add: banks_ok_def)
  moreover have "unat (scast (banks c - 1) :: 64 word) = unat (banks c - 1)"
    using b \<open>unat (banks c - 1) < unat (banks c)\<close> by (intro scast_nneg) (simp add: banks_ok_def)
  ultimately show ?thesis by simp
qed

lemma GET_BANK_less: "banks_ok c \<Longrightarrow> GET_BANK c a < unat (banks c)"
  by (simp add: GET_BANK_def bank_mask_less)

lemma MSHR_mask_less:
  assumes "static_ok c"
  shows "unat (x AND MSHR_mask c) < unat (MSHR_banks c)"
proof -
  have "MSHR_banks c \<noteq> 0" "MSHR_mask c = MSHR_banks c - 1" using assms by (auto simp: static_ok_def Let_def)
  then show ?thesis using unat_and_le [of x "MSHR_mask c"] measure_unat [of "MSHR_banks c"] by simp
qed

section \<open>What an operation leaves alone\<close>

text \<open>The cache without its registers and work flags.\<close>

definition strip_mshr :: "cache_t \<Rightarrow> cache_t" where
  "strip_mshr c = c\<lparr>MSHR := [], MSHR_num := [], MSHR_num_pf := [], MSHR_fill_num := [], MSHR_WB_num := [], MSHR_unprocessed_num := [],
     check_for_work := False, check_for_MSHR_fill_work := False, check_for_fill_work := False, check_for_pipe_work := False,
     check_for_MSHR_work := False, check_for_MSHR_WB_work := False\<rparr>"

lemma strip_mshr_eq:
  assumes "strip_mshr c' = strip_mshr c"
  shows "pipe c' = pipe c" "pipe_num c' = pipe_num c" "fill_pipe c' = fill_pipe c" "fill_num c' = fill_num c" "blocks c' = blocks c"
    "cache_params.truncate c' = cache_params.truncate c" "banks c' = banks c" "bank_mask c' = bank_mask c" "bank_shift c' = bank_shift c"
    "latency c' = latency c" "heap_size c' = heap_size c" "MSHR_banks c' = MSHR_banks c" "MSHR_mask c' = MSHR_mask c"
    "MSHR_size c' = MSHR_size c" "MSHR_WB_size c' = MSHR_WB_size c" "PF_filter c' = PF_filter c"
    "read_only c' = read_only c" "write_policy c' = write_policy c" "sets c' = sets c" "addr_shift c' = addr_shift c"
    "linesize c' = linesize c"
  using assms by (cases c; cases c'; simp add: strip_mshr_def cache_params.truncate_def)+

text \<open>The configuration, which no operation changes.\<close>

definition cfg :: "cache_t \<Rightarrow> cache_params \<times> cint \<times> cint \<times> md_paddr_t \<times> cint \<times> nat \<times> cint \<times> cint \<times> cint \<times> cint \<times> cint option" where
  "cfg c = (cache_params.truncate c, banks c, bank_shift c, bank_mask c, latency c, heap_size c, MSHR_banks c, MSHR_mask c, MSHR_size c, MSHR_WB_size c,
     map_option reset_interval (PF_filter c))"

lemma strip_mshr_cfg:
  assumes "strip_mshr c' = strip_mshr c"
  shows "cfg c' = cfg c"
  by (simp add: cfg_def strip_mshr_eq [OF assms])

lemma cfg_eq:
  assumes "cfg c' = cfg c"
  shows "cache_params.truncate c' = cache_params.truncate c" "banks c' = banks c" "bank_mask c' = bank_mask c" "bank_shift c' = bank_shift c"
    "latency c' = latency c" "heap_size c' = heap_size c" "MSHR_banks c' = MSHR_banks c" "MSHR_mask c' = MSHR_mask c"
    "MSHR_size c' = MSHR_size c" "MSHR_WB_size c' = MSHR_WB_size c"
    "read_only c' = read_only c" "write_policy c' = write_policy c" "sets c' = sets c" "addr_shift c' = addr_shift c"
    "linesize c' = linesize c" "GET_MSHR_BANK c' = GET_MSHR_BANK c" "GET_BANK c' = GET_BANK c"
    "map_option reset_interval (PF_filter c') = map_option reset_interval (PF_filter c)"
  using assms by (auto simp: cfg_def cache_params.truncate_def GET_MSHR_BANK_def GET_BANK_def fun_eq_iff)

lemma req_ok_cfg:
  assumes "cfg c' = cfg c"
  shows "req_ok from pf c' = req_ok from pf c"
  by (simp add: req_ok_def fun_eq_iff cfg_eq [OF assms])

lemma reg_ok_cfg:
  assumes "cfg c' = cfg c"
  shows "reg_ok from pf c' = reg_ok from pf c"
  by (simp add: reg_ok_def fun_eq_iff cfg_eq [OF assms] req_ok_cfg [OF assms])

lemma sets_ok_cong:
  assumes "cfg c' = cfg c" and "blocks c' = blocks c"
  shows "sets_ok c' = sets_ok c"
  by (simp add: sets_ok_def cfg_eq [OF assms(1)] assms(2))

lemma pipe_bank_ok_cong:
  assumes "cfg c' = cfg c" and "pipe c' ! b = pipe c ! b" and "pipe_num c' ! b = pipe_num c ! b"
  shows "pipe_bank_ok from pf c' b = pipe_bank_ok from pf c b"
  by (simp add: pipe_bank_ok_def cfg_eq [OF assms(1)] req_ok_cfg [OF assms(1)] assms(2,3))

lemma fill_bank_ok_cong:
  assumes "cfg c' = cfg c" and "fill_pipe c' ! b = fill_pipe c ! b" and "fill_num c' ! b = fill_num c ! b"
  shows "fill_bank_ok c' b = fill_bank_ok c b"
  by (simp add: fill_bank_ok_def cfg_eq [OF assms(1)] assms(2,3))

lemma mshr_inv_cong:
  assumes "cfg c' = cfg c" and "MSHR c' = MSHR c" "MSHR_num c' = MSHR_num c" "MSHR_WB_num c' = MSHR_WB_num c"
    "MSHR_fill_num c' = MSHR_fill_num c" "MSHR_unprocessed_num c' = MSHR_unprocessed_num c" "MSHR_num_pf c' = MSHR_num_pf c"
  shows "mshr_inv c' = mshr_inv c"
  by (simp add: mshr_inv_def static_ok_def bank_ok_def cfg_eq [OF assms(1)] assms(2-))

lemma mset_transfer: "A' + x = A + y \<Longrightarrow> y + t = x + t' \<Longrightarrow> A' + t = A + t'" for A :: "'a multiset"
proof -
  assume e: "A' + x = A + y" "y + t = x + t'"
  have "(A' + t) + x = (A' + x) + t" by (simp only: ac_simps)
  also have "\<dots> = A + (y + t)" by (simp only: e(1) add.assoc)
  also have "\<dots> = (A + t') + x" unfolding e(2) by (simp only: ac_simps)
  finally show ?thesis by simp
qed

section \<open>Register updates\<close>

text \<open>All operations on the registers replace one entry.\<close>

definition reg_upd :: "nat \<Rightarrow> nat \<Rightarrow> cache_action_t \<Rightarrow> cache_t \<Rightarrow> cache_t \<Rightarrow> bool" where
  "reg_upd b i e c c' \<longleftrightarrow> b < length (MSHR c) \<and> i < length (MSHR c ! b) \<and> MSHR c' = (MSHR c)[b := (MSHR c ! b)[i := e]] \<and>
     strip_mshr c' = strip_mshr c"

lemma reg_upd_toks:
  assumes "reg_upd b i e c c'"
  shows "toks c' + mtok (MSHR c ! b ! i) = toks c + mtok e"
proof -
  have b: "b < length (MSHR c)" "i < length (MSHR c ! b)" and m: "MSHR c' = (MSHR c)[b := (MSHR c ! b)[i := e]]"
    and p: "pipe c' = pipe c" "pipe_num c' = pipe_num c"
    using assms strip_mshr_eq(1,2) [of c' c] by (auto simp: reg_upd_def)
  have "(\<Sum>b < length (MSHR c). sum_list (map mtok (MSHR c' ! b))) + sum_list (map mtok (MSHR c ! b)) =
      (\<Sum>b < length (MSHR c). sum_list (map mtok (MSHR c ! b))) + sum_list (map mtok (MSHR c' ! b))"
    using b(1) by (intro sum_change) (auto simp: m)
  moreover have "sum_list (map mtok (MSHR c' ! b)) + mtok (MSHR c ! b ! i) = sum_list (map mtok (MSHR c ! b)) + mtok e"
    using sum_list_map_update [OF b(2)] b(1) by (simp add: m)
  ultimately have "(\<Sum>b < length (MSHR c). sum_list (map mtok (MSHR c' ! b))) + mtok (MSHR c ! b ! i) =
      (\<Sum>b < length (MSHR c). sum_list (map mtok (MSHR c ! b))) + mtok e"
    by (rule mset_transfer)
  then show ?thesis by (simp add: toks_def p m add.assoc)
qed

lemma reg_upd_waits:
  assumes "reg_upd b i e c c'"
  shows "waits c' = (if waiting e then insert (b, i) (waits c) else waits c - {(b, i)})"
  using assms by (auto simp: reg_upd_def waits_def nth_list_update split: if_splits)

lemma reg_upd_inv:
  assumes u: "reg_upd b i e c c'" and inv: "cache_inv from pf c" and m: "mshr_inv c'" and e: "reg_ok from pf c e"
  shows "cache_inv from pf c'"
proof -
  have s: "strip_mshr c' = strip_mshr c" using u by (simp add: reg_upd_def)
  note q = strip_mshr_eq [OF s] and g = strip_mshr_cfg [OF s]
  have "list_all (reg_ok from pf c) (MSHR c' ! b')" if "b' < unat (MSHR_banks c)" for b'
    using that inv u e by (cases "b' = b") (auto simp: cache_inv_def reg_upd_def list_all_update)
  then show ?thesis
    using inv m unfolding cache_inv_def banks_ok_def
    by (simp add: q reg_ok_cfg [OF g] sets_ok_cong [OF g] pipe_bank_ok_cong [OF g] fill_bank_ok_cong [OF g])
qed

lemma cache_inv_parts:
  assumes "cache_inv from pf c"
  shows "mshr_inv c" "banks_ok c" "sets_ok c" "static_ok c"
  using assms by (auto simp: cache_inv_def mshr_inv_def)

lemma reg_in_range:
  assumes "cache_inv from pf c" and "b < unat (MSHR_banks c)"
  shows "b < length (MSHR c)" "length (MSHR c ! b) = unat (MSHR_size c)"
  using assms bank_facts(1,2) [of c b] static_bank(1) [of c b] by (auto simp: cache_inv_def)

lemma reg_entry:
  assumes "cache_inv from pf c" and "b < unat (MSHR_banks c)" and "i < unat (MSHR_size c)"
  shows "reg_ok from pf c (MSHR c ! b ! i)" "entry_ok (GET_MSHR_BANK c) b (MSHR c ! b ! i)"
  using assms bank_facts(2,10) [of c b] by (auto simp: cache_inv_def list_all_length)

lemma strip_mshr_simps [simp]:
  "strip_mshr (c\<lparr>MSHR := m\<rparr>) = strip_mshr c" "strip_mshr (c\<lparr>MSHR_num := x\<rparr>) = strip_mshr c" "strip_mshr (c\<lparr>MSHR_num_pf := x\<rparr>) = strip_mshr c"
  "strip_mshr (c\<lparr>MSHR_fill_num := x\<rparr>) = strip_mshr c" "strip_mshr (c\<lparr>MSHR_WB_num := x\<rparr>) = strip_mshr c"
  "strip_mshr (c\<lparr>MSHR_unprocessed_num := x\<rparr>) = strip_mshr c" "strip_mshr (c\<lparr>check_for_work := f\<rparr>) = strip_mshr c"
  "strip_mshr (c\<lparr>check_for_MSHR_fill_work := f\<rparr>) = strip_mshr c" "strip_mshr (c\<lparr>check_for_fill_work := f\<rparr>) = strip_mshr c"
  "strip_mshr (c\<lparr>check_for_pipe_work := f\<rparr>) = strip_mshr c" "strip_mshr (c\<lparr>check_for_MSHR_work := f\<rparr>) = strip_mshr c"
  "strip_mshr (c\<lparr>check_for_MSHR_WB_work := f\<rparr>) = strip_mshr c"
  by (cases c; simp add: strip_mshr_def)+

lemma MSHR_deallocate_shape:
  assumes "MSHR_deallocate a i c = Some c'" and "b = GET_MSHR_BANK c a" and "b < length (MSHR c)" and "i < length (MSHR c ! b)"
  shows "reg_upd b i ((MSHR c ! b ! i)\<lparr>cb := None\<rparr>) c c'"
  using assms by (auto simp: MSHR_deallocate_def reg_upd_def Let_def checked_def upd_def split: if_splits)

lemma fill_arrived_shape:
  assumes "fill_arrived cycle b j delay c = Some c'" and "b < length (MSHR c)" and "unat j < length (MSHR c ! b)" and "cb (MSHR c ! b ! unat j) \<noteq> None"
  shows "reg_upd b (unat j) ((MSHR c ! b ! unat j)\<lparr>when_returned := cycle + delay\<rparr>) c c'"
  using assms by (auto simp: fill_arrived_def reg_upd_def Let_def upd_def split: if_splits)

lemma mark_started_shape:
  assumes "b < length (MSHR c)" and "i < length (MSHR c ! b)"
  shows "reg_upd b i ((MSHR c ! b ! i)\<lparr>when_started := cycle\<rparr>) c (mark_started cycle b i c)"
  using assms by (simp add: mark_started_def reg_upd_def upd_def)

lemma MSHR_allocate_Some:
  assumes "MSHR_allocate a c = Some (i, c1)" and "b = GET_MSHR_BANK c a"
  shows "i < unat (MSHR_size c) \<and> cb (MSHR c ! b ! i) = None \<and> c1 = allocated b i c"
  using assms by (auto simp: MSHR_allocate_def Let_def allocated_def find_Some_iff split: option.splits if_splits)

lemma MSHR_insert_shape:
  assumes r: "MSHR_insert cycle ca c = Some c'" and inv: "cache_inv from pf c" and b: "b = GET_MSHR_BANK c (ca_paddr ca)"
  shows "\<exists>i. cb (MSHR c ! b ! i) = None \<and> reg_upd b i (miss_entry cycle ca) c c'"
proof -
  have bl: "b < unat (MSHR_banks c)" using GET_MSHR_BANK_less cache_inv_parts(4) [OF inv] b by simp
  note l = reg_in_range [OF inv bl]
  obtain i c1 where al: "MSHR_allocate (ca_paddr ca) c = Some (i, c1)" using r by (auto simp: MSHR_insert_def split: option.splits)
  note a = MSHR_allocate_Some [OF al b]
  have al': "MSHR_allocate (ca_paddr ca) c = Some (i, allocated b i c)" using al a by simp
  have il: "i < length (MSHR c ! b)" using a l by simp
  have "c' = inserted b i (miss_entry cycle ca) ca c"
    using r MSHR_insert_eq [OF al' b l(1) il refl, of cycle] by (simp add: checked_def split: if_splits)
  then have "reg_upd b i (miss_entry cycle ca) c c'" using l il by (simp add: reg_upd_def inserted_def Let_def allocated_def) (simp add: upd_def)
  then show ?thesis using a by blast
qed

lemma MSHR_WB_insert_shape:
  assumes r: "MSHR_WB_insert cycle self line c = Some c'" and inv: "cache_inv from pf c"
    and b: "b = GET_MSHR_BANK c (push_bit (unat (addr_shift c)) (tag line))"
  shows "\<exists>i e. cb (MSHR c ! b ! i) = None \<and> reg_upd b i e c c' \<and> is_wb e \<and> when_started e = TICK_T_MAX \<and> ca_core e = cl_core line"
proof -
  have bl: "b < unat (MSHR_banks c)" using GET_MSHR_BANK_less cache_inv_parts(4) [OF inv] b by simp
  note l = reg_in_range [OF inv bl]
  obtain i c1 where al: "MSHR_allocate (push_bit (unat (addr_shift c)) (tag line)) c = Some (i, c1)"
    using r by (auto simp: MSHR_WB_insert_def Let_def split: option.splits)
  note a = MSHR_allocate_Some [OF al b]
  have il: "i < length (MSHR c ! b)" using a l by simp
  define F where "F = (\<lambda>e :: cache_action_t. e\<lparr>ca_core := cl_core line, ca_op := None, ca_PC := 0,
     ca_paddr := push_bit (unat (addr_shift c)) (tag line), mtype := MSHR_WRITEBACK,
     MSHR_bank := of_nat b, MSHR_index := of_nat i, miss_cb_invoked := False, ca_cmd := CACHE_WRITEBACK,
     prev_cp := Some self, cb := Some dummy_callback, miss_cb := None, translated_cb := None,
     get_action_id := None, when_enqueued := cycle, when_started := TICK_T_MAX, when_returned := TICK_T_MAX,
     pipe_exit_time := TICK_T_MAX\<rparr>)"
  have al': "MSHR_allocate (push_bit (unat (addr_shift c)) (tag line)) c = Some (i, allocated b i c)" using al a by simp
  have "c' = (allocated b i c)\<lparr>MSHR_WB_num := upd (MSHR_WB_num c) b (\<lambda>n. n + 1), MSHR := upd (MSHR (allocated b i c)) b (\<lambda>m. upd m i F),
      check_for_work := True, check_for_MSHR_WB_work := True\<rparr>"
    using r al' by (simp add: MSHR_WB_insert_def Let_def checked_def b [symmetric] F_def split: if_splits)
  then have "reg_upd b i (F ((MSHR c ! b ! i)\<lparr>MSHR_link := None, MSHR_linked := False\<rparr>)) c c'"
    using l il by (simp add: reg_upd_def allocated_def) (simp add: upd_def)
  then show ?thesis using a by (intro exI [of _ i] exI) (auto simp: F_def kinds)
qed

section \<open>Operations on the registers\<close>

text \<open>The result of an operation that keeps the invariant, everything but the registers, and changes the
  requests by \<open>A\<close> (more) and \<open>B\<close> (fewer), the waiting registers as stated.\<close>

definition reg_step :: "(nat \<Rightarrow> bool) \<Rightarrow> bool \<Rightarrow> cache_t \<Rightarrow> cache_t \<Rightarrow> (nat \<times> nat \<times> nat) multiset \<Rightarrow> (nat \<times> nat \<times> nat) multiset \<Rightarrow> (nat \<times> nat) set \<Rightarrow> bool" where
  "reg_step from pf c c' A B W \<longleftrightarrow> cache_inv from pf c' \<and> strip_mshr c' = strip_mshr c \<and> toks c' + B = toks c + A \<and> waits c' = W"

lemma reg_stepI:
  assumes "reg_upd b i e c c'" and "cache_inv from pf c" and "mshr_inv c'" and "reg_ok from pf c e"
    and "W = (if waiting e then insert (b, i) (waits c) else waits c - {(b, i)})"
  shows "reg_step from pf c c' (mtok e) (mtok (MSHR c ! b ! i)) W"
  using reg_upd_toks [OF assms(1)] reg_upd_waits [OF assms(1)] reg_upd_inv [OF assms(1-4)] assms(1,5)
  by (simp add: reg_step_def reg_upd_def)

lemma free_entry: "cb e = None \<Longrightarrow> mtok e = {#} \<and> \<not> waiting e"
  by (simp add: mtok_def waiting_def kinds)

lemma not_waits: "\<not> waiting (MSHR c ! b ! i) \<Longrightarrow> waits c - {(b, i)} = waits c"
  by (auto simp: waits_def)

lemma MSHR_insert_inv:
  assumes inv: "cache_inv from pf c" and av: "MSHR_available c (ca_paddr ca)" and ca: "cb ca \<noteq> None" "MSHR_link ca = None" and r: "req_ok from pf c ca"
  shows "\<exists>c'. MSHR_insert cycle ca c = Some c' \<and> reg_step from pf c c' (ptok ca) {#} (waits c)"
proof -
  obtain c' where c': "MSHR_insert cycle ca c = Some c'" "mshr_inv c'"
    using MSHR_insert_ok [OF cache_inv_parts(1) [OF inv] av ca, of cycle] r by (auto simp: req_ok_def)
  obtain i where i: "cb (MSHR c ! GET_MSHR_BANK c (ca_paddr ca) ! i) = None" "reg_upd (GET_MSHR_BANK c (ca_paddr ca)) i (miss_entry cycle ca) c c'"
    using MSHR_insert_shape [OF c'(1) inv refl] by blast
  have e: "reg_ok from pf c (miss_entry cycle ca)" "mtok (miss_entry cycle ca) = ptok ca" "\<not> waiting (miss_entry cycle ca)"
    using ca r by (auto simp: reg_ok_def req_ok_def miss_entry_def mtok_def ptok_def tok_def kinds waiting_def)
  then show ?thesis
    using reg_stepI [OF i(2) inv c'(2) e(1) refl] free_entry [OF i(1)] not_waits c'(1) by auto
qed

lemma MSHR_WB_insert_inv:
  assumes inv: "cache_inv from pf c" and av: "MSHR_WB_available c (push_bit (unat (addr_shift c)) (tag line))" and l: "cl_core line \<noteq> None"
    and w: "\<not> (read_only c \<and> write_policy c = WRITE_THROUGH)"
  shows "\<exists>c'. MSHR_WB_insert cycle self line c = Some c' \<and> reg_step from pf c c' {#} {#} (waits c)"
proof -
  obtain c' where c': "MSHR_WB_insert cycle self line c = Some c'" "mshr_inv c'"
    using MSHR_WB_insert_ok [OF cache_inv_parts(1) [OF inv] av] by blast
  let ?b = "GET_MSHR_BANK c (push_bit (unat (addr_shift c)) (tag line))"
  obtain i e where i: "cb (MSHR c ! ?b ! i) = None" "reg_upd ?b i e c c'" "is_wb e" "when_started e = TICK_T_MAX" "ca_core e = cl_core line"
    using MSHR_WB_insert_shape [OF c'(1) inv refl] by blast
  have e: "reg_ok from pf c e" "mtok e = {#}" "\<not> waiting e"
    using i(3-5) l w by (auto simp: reg_ok_def mtok_def waiting_def kinds)
  then show ?thesis using reg_stepI [OF i(2) inv c'(2) e(1) refl] free_entry [OF i(1)] not_waits c'(1) by auto
qed

lemma MSHR_deallocate_inv:
  assumes inv: "cache_inv from pf c" and b: "b < unat (MSHR_banks c)" and i: "i < unat (MSHR_size c)"
    and o: "occ (MSHR c ! b ! i)" and r: "when_returned (MSHR c ! b ! i) \<noteq> TICK_T_MAX"
  shows "\<exists>c'. MSHR_deallocate (ca_paddr (MSHR c ! b ! i)) i c = Some c' \<and> reg_step from pf c c' {#} (mtok (MSHR c ! b ! i)) (waits c) \<and>
    MSHR c' = (MSHR c)[b := (MSHR c ! b)[i := (MSHR c ! b ! i)\<lparr>cb := None\<rparr>]]"
proof -
  note l = reg_in_range [OF inv b]
  have ok: "entry_ok (GET_MSHR_BANK c) b (MSHR c ! b ! i)" using reg_entry [OF inv b i] by simp
  then have s: "when_started (MSHR c ! b ! i) \<noteq> TICK_T_MAX" "b = GET_MSHR_BANK c (ca_paddr (MSHR c ! b ! i))" using o r by (auto simp: entry_ok_def)
  have il: "i < length (MSHR c ! b)" using i l by simp
  obtain c' where c': "MSHR_deallocate (ca_paddr (MSHR c ! b ! i)) i c = Some c'" "mshr_inv c'"
    using MSHR_deallocate_ok [OF cache_inv_parts(1) [OF inv] b il o s(1)] by blast
  note u = MSHR_deallocate_shape [OF c'(1) s(2) l(1) il]
  have e: "reg_ok from pf c ((MSHR c ! b ! i)\<lparr>cb := None\<rparr>)" "mtok ((MSHR c ! b ! i)\<lparr>cb := None\<rparr>) = {#}"
    "\<not> waiting ((MSHR c ! b ! i)\<lparr>cb := None\<rparr>)" by (simp_all add: reg_ok_def mtok_def waiting_def kinds)
  have "\<not> waiting (MSHR c ! b ! i)" using r by (simp add: waiting_def)
  then show ?thesis using reg_stepI [OF u inv c'(2) e(1) refl] e(2,3) not_waits c'(1) u by (auto simp: reg_upd_def)
qed

lemma fill_arrived_inv:
  assumes inv: "cache_inv from pf c" and w: "(b, unat j) \<in> waits c" and t: "cycle + delay \<noteq> TICK_T_MAX"
  shows "\<exists>c'. fill_arrived cycle b j delay c = Some c' \<and> reg_step from pf c c' {#} {#} (waits c - {(b, unat j)})"
proof -
  have b: "b < unat (MSHR_banks c)" using w cache_inv_parts(4) [OF inv] by (simp add: waits_def static_ok_def Let_def)
  note l = reg_in_range [OF inv b]
  have j: "unat j < unat (MSHR_size c)" "unat j < length (MSHR c ! b)" and wt: "waiting (MSHR c ! b ! unat j)" using w l by (auto simp: waits_def)
  have "sint (MSHR_size c) = int (unat (MSHR_size c))" using bank_facts(11) [OF cache_inv_parts(1) [OF inv] b] .
  then have z: "unat (MSHR_size c) < 2 ^ 31" using sint_cint [of "MSHR_size c"] by (simp del: of_nat_unat split: if_splits)
  have "0 \<le> sint j" "sint j < sint (MSHR_size c)"
    using j z sint_cint [of j] sint_cint [of "MSHR_size c"] by (simp_all del: of_nat_unat)
  then obtain c' where c': "fill_arrived cycle b j delay c = Some c'" "mshr_inv c'"
    using fill_arrived_ok [OF cache_inv_parts(1) [OF inv] b, of j cycle delay] wt by (auto simp: waiting_def)
  note u = fill_arrived_shape [OF c'(1) l(1) j(2)]
  have cb: "cb (MSHR c ! b ! unat j) \<noteq> None" using wt by (simp add: waiting_def occ_def)
  let ?e = "(MSHR c ! b ! unat j)\<lparr>when_returned := cycle + delay\<rparr>"
  have "reg_ok from pf c (MSHR c ! b ! unat j)" using reg_entry [OF inv b j(1)] by simp
  then have e: "reg_ok from pf c ?e" "mtok ?e = mtok (MSHR c ! b ! unat j)" "\<not> waiting ?e"
    using t by (auto simp: reg_ok_def req_ok_def mtok_def ptok_def tok_def kinds waiting_def)
  show ?thesis using reg_stepI [OF u [OF cb] inv c'(2) e(1) refl] e c'(1) by (auto simp: reg_step_def)
qed

lemma mark_started_inv:
  assumes inv: "cache_inv from pf c" and b: "b < unat (MSHR_banks c)" and i: "i < unat (MSHR_size c)" and o: "occ (MSHR c ! b ! i)"
    and s: "when_started (MSHR c ! b ! i) = TICK_T_MAX" and t: "cycle \<noteq> TICK_T_MAX"
    and n: "n = MSHR_unprocessed_num c ! b - of_bool (unsent (MSHR c ! b ! i))"
  shows "reg_step from pf c ((mark_started cycle b i c)\<lparr>MSHR_unprocessed_num := (MSHR_unprocessed_num c)[b := n]\<rparr>) {#} {#} (insert (b, i) (waits c))"
proof -
  note l = reg_in_range [OF inv b]
  have il: "i < length (MSHR c ! b)" using i l by simp
  let ?e = "(MSHR c ! b ! i)\<lparr>when_started := cycle\<rparr>" and ?c = "(mark_started cycle b i c)\<lparr>MSHR_unprocessed_num := (MSHR_unprocessed_num c)[b := n]\<rparr>"
  have u: "reg_upd b i ?e c ?c" using mark_started_shape [OF l(1) il, of cycle] by (simp add: reg_upd_def)
  have ok: "reg_ok from pf c (MSHR c ! b ! i)" "entry_ok (GET_MSHR_BANK c) b (MSHR c ! b ! i)" using reg_entry [OF inv b i] by simp_all
  then have "when_returned (MSHR c ! b ! i) = TICK_T_MAX" using o s by (auto simp: entry_ok_def)
  then have e: "reg_ok from pf c ?e" "mtok ?e = mtok (MSHR c ! b ! i)" "waiting ?e"
    using ok o t by (auto simp: reg_ok_def req_ok_def mtok_def ptok_def tok_def kinds waiting_def)
  show ?thesis using reg_stepI [OF u inv mark_started_ok [OF cache_inv_parts(1) [OF inv] b il t n] e(1) refl] e by (auto simp: reg_step_def)
qed

lemma MSHR_WB_drop_inv:
  assumes "cache_inv from pf c" and "b < unat (MSHR_banks c)" and "\<forall>j \<in> set js. j < unat (MSHR_size c)" and "sint cycle < sint TICK_T_MAX"
  shows "\<exists>c'. MSHR_WB_drop cycle b js c = Some c' \<and> reg_step from pf c c' {#} {#} (waits c)"
  using assms
proof (induction js arbitrary: c)
  case (Cons j js)
  show ?case
  proof (cases "WB_done cycle (MSHR c ! b ! j)")
    case True
    then have w: "occ (MSHR c ! b ! j)" "when_returned (MSHR c ! b ! j) \<noteq> TICK_T_MAX" "mtok (MSHR c ! b ! j) = {#}"
      using Cons.prems(4) by (auto simp: WB_done_def kinds mtok_def word_sle_eq)
    obtain c1 where c1: "MSHR_deallocate (ca_paddr (MSHR c ! b ! j)) j c = Some c1" "reg_step from pf c c1 {#} {#} (waits c)"
      using MSHR_deallocate_inv [OF Cons.prems(1,2) _ w(1,2)] Cons.prems(3) w(3) by auto
    then have "MSHR_banks c1 = MSHR_banks c" "MSHR_size c1 = MSHR_size c" "cache_inv from pf c1"
      using strip_mshr_eq(12,14) [of c1 c] by (auto simp: reg_step_def)
    with Cons.IH [of c1] Cons.prems obtain c' where "MSHR_WB_drop cycle b js c1 = Some c'" "reg_step from pf c1 c' {#} {#} (waits c1)" by auto
    then show ?thesis using True c1 by (auto simp: reg_step_def)
  next
    case False
    then show ?thesis using Cons by simp
  qed
qed (simp add: reg_step_def)

section \<open>Pipelines\<close>

lemma heap_push:
  assumes "heap_ok key p n" and "Suc n < length p"
  shows "heap_ok key (heap_balance key (p[Suc n := e]) (Suc n)) (Suc n)"
    "entries (heap_balance key (p[Suc n := e]) (Suc n)) (Suc n) = add_mset e (entries p n)"
    "length (heap_balance key (p[Suc n := e]) (Suc n)) = length p"
    "Suc n < k \<Longrightarrow> heap_balance key (p[Suc n := e]) (Suc n) ! k = p ! k"
proof -
  have "heap_up key (p[Suc n := e]) (Suc n) (Suc n)" using assms by (auto simp: heap_up_def heap_ok_def nth_list_update)
  note h = heap_balance_spec [OF this]
  show "heap_ok key (heap_balance key (p[Suc n := e]) (Suc n)) (Suc n)"
    "entries (heap_balance key (p[Suc n := e]) (Suc n)) (Suc n) = add_mset e (entries p n)"
    "length (heap_balance key (p[Suc n := e]) (Suc n)) = length p"
    using heap_balance_push [OF assms] by blast+
  show "Suc n < k \<Longrightarrow> heap_balance key (p[Suc n := e]) (Suc n) ! k = p ! k" using h by simp
qed

lemma heap_pop_out:
  assumes h: "heap_ok key p (Suc n)" and m: "\<forall>e \<in># entries p (Suc n). key e < sint TICK_T_MAX"
  shows "Suc n < k \<Longrightarrow> heap_remove key clear p (Suc n) ! k = p ! k" and "heap_remove key clear p (Suc n) ! Suc n = clear (p ! Suc n)"
proof -
  have l: "Suc n < length p" using h by (simp add: heap_ok_def)
  have "(Suc n < k \<longrightarrow> heap_remove key clear p (Suc n) ! k = p ! k) \<and> heap_remove key clear p (Suc n) ! Suc n = clear (p ! Suc n)"
  proof (cases n)
    case 0
    then show ?thesis using l by (simp add: heap_remove_def)
  next
    case (Suc j)
    let ?p = "(p[1 := p ! Suc n])[Suc n := clear ((p[1 := p ! Suc n]) ! Suc n)]"
    have "heap_down key ?p n 1" using h l Suc by (auto simp: heap_down_def heap_ok_def nth_list_update)
    moreover have "key (?p ! i) < sint TICK_T_MAX" if "1 \<le> i" "i \<le> n" for i
    proof -
      have "key (p ! j) < sint TICK_T_MAX" if "1 \<le> j" "j \<le> Suc n" for j using m that by (meson in_entries)
      then show ?thesis using that l by (simp add: nth_list_update)
    qed
    ultimately have "\<forall>k. n < k \<longrightarrow> heap_sift key (Suc n) ?p 1 ! k = ?p ! k" using heap_sift_spec [of key ?p n 1] by blast
    then show ?thesis using Suc l by (simp add: heap_remove_def Let_def)
  qed
  then show "Suc n < k \<Longrightarrow> heap_remove key clear p (Suc n) ! k = p ! k" and "heap_remove key clear p (Suc n) ! Suc n = clear (p ! Suc n)" by auto
qed

lemma pipe_bank_okI:
  assumes "pipe_num c ! b = int n" and "int n \<le> sint (latency c)" and "length (pipe c ! b) = heap_size c" and "heap_ok exit_time (pipe c ! b) n"
    and "\<And>e. e \<in># entries (pipe c ! b) n \<Longrightarrow> cb e \<noteq> None \<and> exit_time e < sint TICK_T_MAX \<and> req_ok from pf c e \<and> MSHR_link e = None"
    and "\<And>i. n < i \<Longrightarrow> i < length (pipe c ! b) \<Longrightarrow> cb (pipe c ! b ! i) = None \<and> MSHR_link (pipe c ! b ! i) = None"
  shows "pipe_bank_ok from pf c b"
  unfolding pipe_bank_ok_def Let_def using assms by simp

lemma fill_bank_okI:
  assumes "fill_num c ! b = int n" and "int n \<le> sint (latency c)" and "length (fill_pipe c ! b) = heap_size c" and "heap_ok fill_exit_time (fill_pipe c ! b) n"
    and "\<And>e. e \<in># entries (fill_pipe c ! b) n \<Longrightarrow> fill_exit_time e < sint TICK_T_MAX \<and> cf_core e \<noteq> None"
    and "\<And>i. n < i \<Longrightarrow> i < length (fill_pipe c ! b) \<Longrightarrow> \<not> cf_valid (fill_pipe c ! b ! i)"
  shows "fill_bank_ok c b"
  unfolding fill_bank_ok_def Let_def using assms by simp

text \<open>A change of one access pipeline.\<close>

definition only_pipe :: "nat \<Rightarrow> cache_t \<Rightarrow> cache_t \<Rightarrow> bool" where
  "only_pipe b c c' \<longleftrightarrow> (\<exists>p n w v. c' = c\<lparr>pipe := (pipe c)[b := p], pipe_num := (pipe_num c)[b := n], check_for_work := w, check_for_pipe_work := v\<rparr>)"

lemma only_pipe_eq:
  assumes "only_pipe b c c'"
  shows "cfg c' = cfg c" "MSHR c' = MSHR c" "MSHR_num c' = MSHR_num c" "MSHR_WB_num c' = MSHR_WB_num c" "MSHR_fill_num c' = MSHR_fill_num c"
    "MSHR_unprocessed_num c' = MSHR_unprocessed_num c" "MSHR_num_pf c' = MSHR_num_pf c" "fill_pipe c' = fill_pipe c" "fill_num c' = fill_num c"
    "blocks c' = blocks c" "b' \<noteq> b \<Longrightarrow> pipe c' ! b' = pipe c ! b'" "b' \<noteq> b \<Longrightarrow> pipe_num c' ! b' = pipe_num c ! b'"
    "length (pipe c') = length (pipe c)" "length (pipe_num c') = length (pipe_num c)" "waits c' = waits c"
  using assms by (auto simp: only_pipe_def cfg_def cache_params.truncate_def waits_def)

lemma only_pipe_inv:
  assumes o: "only_pipe b c c'" and inv: "cache_inv from pf c" and b: "pipe_bank_ok from pf c' b"
  shows "cache_inv from pf c'"
proof -
  note g = only_pipe_eq(1) [OF o] and q = only_pipe_eq(2-10,13,14) [OF o] and p = only_pipe_eq(11,12) [OF o]
  have "mshr_inv c'" using inv mshr_inv_cong [OF g] q by (simp add: cache_inv_def)
  moreover have "pipe_bank_ok from pf c' b'" if "b' < unat (banks c)" for b'
    using that b inv pipe_bank_ok_cong [OF g p] by (cases "b' = b") (auto simp: cache_inv_def)
  ultimately show ?thesis
    using inv unfolding cache_inv_def banks_ok_def
    by (simp add: q cfg_eq [OF g] reg_ok_cfg [OF g] sets_ok_cong [OF g] fill_bank_ok_cong [OF g])
qed

lemma only_pipe_toks:
  assumes o: "only_pipe b c c'" and b: "b < length (pipe c)"
  shows "toks c' + pipe_toks (pipe c ! b) (nat (pipe_num c ! b)) = toks c + pipe_toks (pipe c' ! b) (nat (pipe_num c' ! b))"
proof -
  have "(\<Sum>b < length (pipe c). pipe_toks (pipe c' ! b) (nat (pipe_num c' ! b))) + pipe_toks (pipe c ! b) (nat (pipe_num c ! b)) =
    (\<Sum>b < length (pipe c). pipe_toks (pipe c ! b) (nat (pipe_num c ! b))) + pipe_toks (pipe c' ! b) (nat (pipe_num c' ! b))"
    using b only_pipe_eq(11,12) [OF o] by (intro sum_change) auto
  then show ?thesis using only_pipe_eq(2,13) [OF o] by (simp add: toks_def ac_simps)
qed

definition rtok :: "request \<Rightarrow> (nat \<times> nat \<times> nat) multiset" where
  "rtok rq = (case rq_prev_cp rq of None \<Rightarrow> {#} | Some p \<Rightarrow> {#(p, unat (rq_MSHR_bank rq), unat (rq_MSHR_index rq))#})"

text \<open>A request that may be enqueued at address \<open>a\<close>.\<close>

definition rq_ok :: "(nat \<Rightarrow> bool) \<Rightarrow> bool \<Rightarrow> cache_t \<Rightarrow> request \<Rightarrow> md_paddr_t \<Rightarrow> bool" where
  "rq_ok from pf c rq a \<longleftrightarrow> rq_cb rq \<noteq> None \<and> rq_core rq \<noteq> None \<and> (read_only c \<longrightarrow> \<not> writes (rq_cmd rq)) \<and>
     (rq_cmd rq = CACHE_PREFETCH \<longrightarrow> pf \<and> unat (rq_MSHR_bank rq) = GET_MSHR_BANK c a) \<and>
     (\<forall>p. rq_prev_cp rq = Some p \<longrightarrow> from p)"

text \<open>The cycles of a simulation stay far from the end of the 64-bit range.\<close>

definition early :: "tick_t \<Rightarrow> bool" where
  "early t \<longleftrightarrow> 0 \<le> sint t \<and> sint t \<le> 2 ^ 62"

lemma early_plus:
  assumes "early t" and "0 \<le> sint d" and "sint d < 2 ^ 33"
  shows "sint (t + d) < sint TICK_T_MAX" "t + d \<noteq> TICK_T_MAX" "sint (t + d) = sint t + sint d"
proof -
  have "sint (t + d) = sint t + sint d"
    using assms by (subst sint_word_ariths) (simp add: early_def signed_take_bit_int_eq_self)
  then show "sint (t + d) = sint t + sint d" "sint (t + d) < sint TICK_T_MAX" "t + d \<noteq> TICK_T_MAX"
    using assms by (auto simp: early_def TICK_T_MAX_def)
qed

lemma early_less: "early t \<Longrightarrow> sint t < sint TICK_T_MAX" "early t \<Longrightarrow> t \<noteq> TICK_T_MAX"
  by (auto simp: early_def TICK_T_MAX_def)

lemma latency_small:
  assumes "banks_ok c"
  shows "0 \<le> sint (scast (latency c) :: tick_t)" "sint (scast (latency c) :: tick_t) < 2 ^ 33"
  using assms sint_lt [of "latency c"] by (simp_all add: banks_ok_def sint_up_scast is_up)

lemma cache_enqueue_inv:
  assumes inv: "cache_inv from pf c" and a: "v2p_translate asid addr mem = Inr a" and room: "pipe_num c ! GET_BANK c a < sint (latency c)"
    and rq: "rq_ok from pf c rq a" and t: "early cycle"
  shows "\<exists>c'. cache_enqueue mem cycle rq asid addr c = Some c' \<and> cache_inv from pf c' \<and> only_pipe (GET_BANK c a) c c' \<and> toks c' = toks c + rtok rq"
proof -
  define b where "b = GET_BANK c a"
  define p where "p = pipe c ! b"
  define n where "n = nat (pipe_num c ! b)"
  have bk: "b < unat (banks c)" "b < length (pipe c)" "b < length (pipe_num c)"
    using GET_BANK_less cache_inv_parts(2) [OF inv] by (simp_all add: b_def banks_ok_def)
  have ok: "pipe_bank_ok from pf c b" using inv bk by (simp add: cache_inv_def)
  have n: "pipe_num c ! b = int n" "nat (pipe_num c ! b + 1) = Suc n" using ok by (auto simp: pipe_bank_ok_def Let_def n_def)
  have hs: "Suc n < heap_size c" "length p = heap_size c" "heap_ok exit_time p n"
    using ok room cache_inv_parts(2) [OF inv] n by (auto simp: pipe_bank_ok_def Let_def p_def n_def b_def banks_ok_def)
  have free: "cb (p ! Suc n) = None" "MSHR_link (p ! Suc n) = None" using ok hs by (auto simp: pipe_bank_ok_def Let_def p_def n_def)
  define e where "e = write_action c cycle rq a (p ! Suc n)"
  define p' where "p' = heap_balance exit_time (p[Suc n := e]) (Suc n)"
  define c' where "c' = c\<lparr>pipe := (pipe c)[b := p'], pipe_num := (pipe_num c)[b := pipe_num c ! b + 1], check_for_work := True, check_for_pipe_work := True\<rparr>"
  have sl: "Suc n < length p" using hs by simp
  note h = heap_push [OF hs(3) sl, where e = e, folded p'_def]
  have eq: "cache_enqueue mem cycle rq asid addr c = Some c'"
    unfolding cache_enqueue_def a sum.case Let_def b_def [symmetric] n(2) p_def [symmetric]
    using free hs rq by (simp add: rq_ok_def c'_def p'_def e_def upd_def p_def cache_heap_balance_def)
  have op: "only_pipe b c c'" by (auto simp: only_pipe_def c'_def)
  have c'b: "pipe c' ! b = p'" "pipe_num c' ! b = int (Suc n)" using bk n by (simp_all add: c'_def)
  note g = only_pipe_eq(1) [OF op]
  have e: "cb e \<noteq> None \<and> exit_time e < sint TICK_T_MAX \<and> req_ok from pf c e \<and> MSHR_link e = None" "ptok e = rtok rq"
    using rq free early_plus(1) [OF t latency_small [OF cache_inv_parts(2) [OF inv]]]
    by (auto simp: e_def write_action_def rq_ok_def req_ok_def exit_time_def ptok_def rtok_def tok_def split: option.splits)
  have live: "cb x \<noteq> None \<and> exit_time x < sint TICK_T_MAX \<and> req_ok from pf c x \<and> MSHR_link x = None" if "x \<in># entries p n" for x
    using ok that unfolding pipe_bank_ok_def Let_def p_def [symmetric] n_def [symmetric] by blast
  have "pipe_bank_ok from pf c' b"
  proof (rule pipe_bank_okI [OF c'b(2)], unfold c'b cfg_eq [OF g] req_ok_cfg [OF g])
    show "int (Suc n) \<le> sint (latency c)" using room n by (simp add: b_def)
    show "heap_ok exit_time p' (Suc n)" "length p' = heap_size c" using h hs by simp_all
    show "cb x \<noteq> None \<and> exit_time x < sint TICK_T_MAX \<and> req_ok from pf c x \<and> MSHR_link x = None" if "x \<in># entries p' (Suc n)" for x
      using that e(1) live unfolding h(2) by (metis insert_iff set_mset_add_mset_insert)
    show "cb (p' ! i) = None \<and> MSHR_link (p' ! i) = None" if "Suc n < i" "i < length p'" for i
      using that h(3,4) ok by (simp add: pipe_bank_ok_def Let_def p_def n_def)
  qed
  from only_pipe_inv [OF op inv this] have inv': "cache_inv from pf c'" .
  have "pipe_toks p' (Suc n) = pipe_toks p n + ptok e" by (simp add: pipe_toks_def h(2) del: entries_Suc)
  then have "toks c' + pipe_toks p n = toks c + rtok rq + pipe_toks p n"
    using only_pipe_toks [OF op bk(2)] e(2) unfolding c'b p_def [symmetric] n(1) nat_int by (simp add: ac_simps)
  then have "toks c' = toks c + rtok rq" by simp
  then show ?thesis using eq inv' op by (auto simp: b_def)
qed

lemma pipe_dequeue_inv:
  assumes inv: "cache_inv from pf c" and b: "b < unat (banks c)" and n: "pipe_num c ! b \<noteq> 0"
  shows "\<exists>c'. pipe_dequeue b c = Some c' \<and> cache_inv from pf c' \<and> only_pipe b c c' \<and> toks c' + ptok (pipe c ! b ! 1) = toks c"
proof -
  define p where "p = pipe c ! b"
  define m where "m = nat (pipe_num c ! b) - 1"
  have bk: "b < length (pipe c)" "b < length (pipe_num c)" using cache_inv_parts(2) [OF inv] b by (simp_all add: banks_ok_def)
  have ok: "pipe_bank_ok from pf c b" using inv b by (simp add: cache_inv_def)
  have m: "pipe_num c ! b = int (Suc m)" using ok n by (auto simp: pipe_bank_ok_def Let_def m_def)
  have hs: "length p = heap_size c" "heap_ok exit_time p (Suc m)"
    "\<forall>e \<in># entries p (Suc m). cb e \<noteq> None \<and> exit_time e < sint TICK_T_MAX \<and> req_ok from pf c e \<and> MSHR_link e = None"
    using ok m unfolding pipe_bank_ok_def Let_def p_def [symmetric] m nat_int by blast+
  define p' where "p' = heap_remove exit_time clear_action p (Suc m)"
  define c' where "c' = c\<lparr>pipe := (pipe c)[b := p'], pipe_num := (pipe_num c)[b := int m]\<rparr>"
  have mx: "\<forall>e \<in># entries p (Suc m). exit_time e < sint TICK_T_MAX" using hs(3) by blast
  have h: "heap_ok exit_time p' m" "entries p' m = entries p (Suc m) - {#p ! 1#}" "length p' = length p"
    using heap_remove_pop [OF hs(2) mx, of clear_action] by (simp_all only: p'_def)
  note ho = heap_pop_out [OF hs(2) mx, where clear = clear_action, folded p'_def]
  have eq: "pipe_dequeue b c = Some c'"
    using bk by (simp add: pipe_dequeue_def Let_def checked_def upd_def m c'_def p'_def p_def cache_heap_remove_def nat_add_distrib)
  have op: "only_pipe b c c'" unfolding only_pipe_def c'_def by (rule exI [of _ p'], rule exI [of _ "int m"], rule exI [of _ "check_for_work c"], rule exI [of _ "check_for_pipe_work c"]) simp
  have c'b: "pipe c' ! b = p'" "pipe_num c' ! b = int m" using bk by (simp_all add: c'_def)
  note g = only_pipe_eq(1) [OF op]
  have last_in: "p ! Suc m \<in># entries p (Suc m)" by simp
  have beyond: "cb (p' ! i) = None \<and> MSHR_link (p' ! i) = None" if "m < i" "i < length p'" for i
  proof (cases "i = Suc m")
    case True
    then show ?thesis using ho(2) hs(3) last_in by (simp add: clear_action_def)
  next
    case False
    then have "Suc m < i" using that by simp
    then show ?thesis using ho(1) ok that h(3) m unfolding pipe_bank_ok_def Let_def p_def [symmetric] by simp
  qed
  have "pipe_bank_ok from pf c' b"
  proof (rule pipe_bank_okI [OF c'b(2)], unfold c'b cfg_eq [OF g] req_ok_cfg [OF g])
    show "int m \<le> sint (latency c)" using ok m by (simp add: pipe_bank_ok_def Let_def)
    show "cb x \<noteq> None \<and> exit_time x < sint TICK_T_MAX \<and> req_ok from pf c x \<and> MSHR_link x = None" if "x \<in># entries p' m" for x
      using that hs(3) unfolding h(2) by (meson in_diffD)
  qed (use h hs beyond in simp_all)
  from only_pipe_inv [OF op inv this] have inv': "cache_inv from pf c'" .
  have root: "p ! 1 \<in># entries p (Suc m)" unfolding in_entries by (intro exI [of _ 1]) simp
  then have "pipe_toks p (Suc m) = pipe_toks p' m + ptok (p ! 1)"
    unfolding pipe_toks_def h(2) by (subst insert_DiffM [OF root, symmetric]) (simp del: insert_DiffM)
  then have "toks c' + ptok (p ! 1) + pipe_toks p' m = toks c + pipe_toks p' m"
    using only_pipe_toks [OF op bk(1)] unfolding c'b p_def [symmetric] m nat_int by (simp add: ac_simps)
  then show ?thesis using eq inv' op by (auto simp: p_def)
qed

text \<open>A change of one fill pipeline.\<close>

definition only_fill :: "nat \<Rightarrow> cache_t \<Rightarrow> cache_t \<Rightarrow> bool" where
  "only_fill b c c' \<longleftrightarrow> (\<exists>p n w v. c' = c\<lparr>fill_pipe := (fill_pipe c)[b := p], fill_num := (fill_num c)[b := n], check_for_work := w, check_for_fill_work := v\<rparr>)"

text \<open>Steps that keep the configuration, the requests and the waiting registers.\<close>

definition quiet :: "cache_t \<Rightarrow> cache_t \<Rightarrow> bool" where
  "quiet c c' \<longleftrightarrow> cfg c' = cfg c \<and> toks c' = toks c \<and> waits c' = waits c \<and> pipe c' = pipe c \<and> pipe_num c' = pipe_num c"

lemma quiet_refl [simp]: "quiet c c" by (simp add: quiet_def)

lemma quiet_trans: "quiet c d \<Longrightarrow> quiet d e \<Longrightarrow> quiet c e" by (simp add: quiet_def)

lemma only_fill_inv:
  assumes o: "only_fill b c c'" and inv: "cache_inv from pf c" and b: "fill_bank_ok c' b"
  shows "cache_inv from pf c'" and "quiet c c'" and "MSHR c' = MSHR c"
proof -
  have g: "cfg c' = cfg c" and q: "MSHR c' = MSHR c" "MSHR_num c' = MSHR_num c" "MSHR_WB_num c' = MSHR_WB_num c" "MSHR_fill_num c' = MSHR_fill_num c"
    "MSHR_unprocessed_num c' = MSHR_unprocessed_num c" "MSHR_num_pf c' = MSHR_num_pf c" "pipe c' = pipe c" "pipe_num c' = pipe_num c"
    "blocks c' = blocks c" "length (fill_pipe c') = length (fill_pipe c)" "length (fill_num c') = length (fill_num c)"
    using o by (auto simp: only_fill_def cfg_def cache_params.truncate_def)
  have p: "fill_pipe c' ! b' = fill_pipe c ! b'" "fill_num c' ! b' = fill_num c ! b'" if "b' \<noteq> b" for b'
    using o that by (auto simp: only_fill_def)
  have "mshr_inv c'" using inv mshr_inv_cong [OF g] q by (simp add: cache_inv_def)
  moreover have "fill_bank_ok c' b'" if "b' < unat (banks c)" for b'
    using that b inv fill_bank_ok_cong [OF g p] by (cases "b' = b") (auto simp: cache_inv_def)
  ultimately show "cache_inv from pf c'"
    using inv unfolding cache_inv_def banks_ok_def
    by (simp add: q cfg_eq [OF g] reg_ok_cfg [OF g] sets_ok_cong [OF g] pipe_bank_ok_cong [OF g])
  show "quiet c c'" using g q by (simp add: quiet_def toks_def waits_def)
  show "MSHR c' = MSHR c" by (rule q(1))
qed

lemma cache_fill_inv:
  assumes inv: "cache_inv from pf c" and room: "cache_fillable c a" and core: "core \<noteq> None" and t: "early cycle"
  shows "\<exists>c'. cache_fill cycle cm a core c = Some c' \<and> cache_inv from pf c' \<and> quiet c c' \<and> MSHR c' = MSHR c"
proof -
  define b where "b = GET_BANK c a"
  define p where "p = fill_pipe c ! b"
  define n where "n = nat (fill_num c ! b)"
  have bk: "b < unat (banks c)" "b < length (fill_pipe c)" "b < length (fill_num c)"
    using GET_BANK_less cache_inv_parts(2) [OF inv] by (simp_all add: b_def banks_ok_def)
  have ok: "fill_bank_ok c b" using inv bk by (simp add: cache_inv_def)
  have n: "fill_num c ! b = int n" "nat (fill_num c ! b + 1) = Suc n" using ok by (auto simp: fill_bank_ok_def Let_def n_def)
  have r: "int n < sint (latency c)" using room n by (simp add: cache_fillable_def b_def)
  have hs: "Suc n < heap_size c" "length p = heap_size c" "heap_ok fill_exit_time p n"
    using ok r cache_inv_parts(2) [OF inv] n by (auto simp: fill_bank_ok_def Let_def p_def n_def b_def banks_ok_def)
  have free: "\<not> cf_valid (p ! Suc n)" using ok hs by (auto simp: fill_bank_ok_def Let_def p_def n_def)
  define e where "e = (p ! Suc n)\<lparr>cf_valid := True, cf_cmd := cm, cf_paddr := a, cf_core := core, cf_exit_time := cycle + scast (latency c)\<rparr>"
  define p' where "p' = heap_balance fill_exit_time (p[Suc n := e]) (Suc n)"
  define c' where "c' = c\<lparr>fill_pipe := (fill_pipe c)[b := p'], fill_num := (fill_num c)[b := fill_num c ! b + 1], check_for_work := True, check_for_fill_work := True\<rparr>"
  have sl: "Suc n < length p" using hs by simp
  note h = heap_push [OF hs(3) sl, where e = e, folded p'_def]
  have eq: "cache_fill cycle cm a core c = Some c'"
    unfolding cache_fill_def Let_def b_def [symmetric] n(2) p_def [symmetric]
    using free hs r n(1) by (simp add: c'_def p'_def e_def upd_def p_def fill_heap_balance_def)
  have op: "only_fill b c c'" by (auto simp: only_fill_def c'_def)
  have c'b: "fill_pipe c' ! b = p'" "fill_num c' ! b = int (Suc n)" using bk n by (simp_all add: c'_def)
  have g: "latency c' = latency c" "heap_size c' = heap_size c" by (simp_all add: c'_def)
  have e: "fill_exit_time e < sint TICK_T_MAX \<and> cf_core e \<noteq> None"
    using core early_plus(1) [OF t latency_small [OF cache_inv_parts(2) [OF inv]]] by (simp add: e_def fill_exit_time_def)
  have live: "fill_exit_time x < sint TICK_T_MAX \<and> cf_core x \<noteq> None" if "x \<in># entries p n" for x
    using ok that unfolding fill_bank_ok_def Let_def p_def [symmetric] n_def [symmetric] by blast
  have "fill_bank_ok c' b"
  proof (rule fill_bank_okI [OF c'b(2)], unfold c'b g)
    show "int (Suc n) \<le> sint (latency c)" using r by simp
    show "heap_ok fill_exit_time p' (Suc n)" "length p' = heap_size c" using h hs by simp_all
    show "fill_exit_time x < sint TICK_T_MAX \<and> cf_core x \<noteq> None" if "x \<in># entries p' (Suc n)" for x
      using that e live unfolding h(2) by (metis insert_iff set_mset_add_mset_insert)
    show "\<not> cf_valid (p' ! i)" if "Suc n < i" "i < length p'" for i
      using that h(3,4) ok by (simp add: fill_bank_ok_def Let_def p_def n_def)
  qed
  from only_fill_inv [OF op inv this] eq show ?thesis by blast
qed

text \<open>The end of a fill: the root leaves the fill pipeline.\<close>

lemma fill_dequeue_inv:
  assumes inv: "cache_inv from pf c" and b: "b < unat (banks c)" and n: "fill_num c ! b \<noteq> 0"
    and c': "c' = c\<lparr>fill_pipe := upd (fill_pipe c) b (\<lambda>p. fill_heap_remove p (nat (fill_num c ! b))), fill_num := upd (fill_num c) b (\<lambda>n. n - 1)\<rparr>"
  shows "0 \<le> fill_num c' ! b \<and> cache_inv from pf c' \<and> quiet c c' \<and> MSHR c' = MSHR c"
proof -
  define p where "p = fill_pipe c ! b"
  define m where "m = nat (fill_num c ! b) - 1"
  have bk: "b < length (fill_pipe c)" "b < length (fill_num c)" using cache_inv_parts(2) [OF inv] b by (simp_all add: banks_ok_def)
  have ok: "fill_bank_ok c b" using inv b by (simp add: cache_inv_def)
  have m: "fill_num c ! b = int (Suc m)" using ok n by (auto simp: fill_bank_ok_def Let_def m_def)
  have hs: "length p = heap_size c" "heap_ok fill_exit_time p (Suc m)" "\<forall>e \<in># entries p (Suc m). fill_exit_time e < sint TICK_T_MAX \<and> cf_core e \<noteq> None"
    using ok m unfolding fill_bank_ok_def Let_def p_def [symmetric] m nat_int by blast+
  define p' where "p' = heap_remove fill_exit_time clear_fill p (Suc m)"
  have mx: "\<forall>e \<in># entries p (Suc m). fill_exit_time e < sint TICK_T_MAX" using hs(3) by blast
  have h: "heap_ok fill_exit_time p' m" "entries p' m = entries p (Suc m) - {#p ! 1#}" "length p' = length p"
    using heap_remove_pop [OF hs(2) mx, of clear_fill] by (simp_all only: p'_def)
  note ho = heap_pop_out [OF hs(2) mx, where clear = clear_fill, folded p'_def]
  have c'b: "fill_pipe c' ! b = p'" "fill_num c' ! b = int m" using bk by (simp_all add: c' m p'_def p_def fill_heap_remove_def nat_add_distrib)
  have op: "only_fill b c c'" unfolding only_fill_def c' upd_def
    by (rule exI, rule exI, rule exI [of _ "check_for_work c"], rule exI [of _ "check_for_fill_work c"]) simp
  have g: "latency c' = latency c" "heap_size c' = heap_size c" by (simp_all add: c')
  have beyond: "\<not> cf_valid (p' ! i)" if "m < i" "i < length p'" for i
  proof (cases "i = Suc m")
    case True
    then show ?thesis using ho(2) by (simp add: clear_fill_def)
  next
    case False
    then have "Suc m < i" using that by simp
    then show ?thesis using ho(1) ok that h(3) m unfolding fill_bank_ok_def Let_def p_def [symmetric] by simp
  qed
  have "fill_bank_ok c' b"
  proof (rule fill_bank_okI [OF c'b(2)], unfold c'b g)
    show "int m \<le> sint (latency c)" using ok m by (simp add: fill_bank_ok_def Let_def)
    show "fill_exit_time x < sint TICK_T_MAX \<and> cf_core x \<noteq> None" if "x \<in># entries p' m" for x
      using that hs(3) unfolding h(2) by (meson in_diffD)
  qed (use h hs beyond in simp_all)
  from only_fill_inv [OF op inv this] c'b show ?thesis by simp
qed

section \<open>Lines\<close>

lemma set_cored_same: "same_lines t s \<Longrightarrow> set_cored s \<Longrightarrow> set_cored t"
proof -
  assume "same_lines t s" and c: "set_cored s"
  then have m: "map (meta_update (\<lambda>_. 0)) (lines t) = map (meta_update (\<lambda>_. 0)) (lines s)" by (simp add: same_lines_def)
  have "list_all (\<lambda>l. valid l \<longrightarrow> cl_core l \<noteq> None) (map (meta_update (\<lambda>_. 0)) (lines s))" using c by (simp add: set_cored_def list.pred_map comp_def)
  then show ?thesis unfolding m [symmetric] by (simp add: set_cored_def list.pred_map comp_def)
qed

lemma set_cored_upd:
  assumes "set_cored s" and "\<And>l. (valid l \<longrightarrow> cl_core l \<noteq> None) \<Longrightarrow> valid (f l) \<longrightarrow> cl_core (f l) \<noteq> None"
  shows "set_cored (upd_line x f s)"
proof (cases "x < length (lines s)")
  case True
  then have "valid (f (lines s ! x)) \<longrightarrow> cl_core (f (lines s ! x)) \<noteq> None"
    using assms(1) by (intro assms(2)) (simp add: set_cored_def list_all_length)
  then show ?thesis using assms(1) by (simp add: set_cored_def upd_line_def list_all_update)
next
  case False
  then show ?thesis using assms(1) by (simp add: set_cored_def upd_line_def list_update_beyond)
qed

lemma set_cored_meta: "set_cored s \<Longrightarrow> set_cored (set_meta k v s)"
  by (auto simp: set_meta_def intro!: set_cored_upd split: option.splits)

lemma set_cored_list [simp]: "set_cored (set_list l s) = set_cored s"
  by (cases l) (simp add: set_list_def set_cored_def)

lemma touch_list_cored: "touch_list c prev x s = Some t \<Longrightarrow> set_cored s \<Longrightarrow> set_cored t"
  by (auto simp: touch_list_def move_front_def move_back_def plru_update_def set_cored_meta split: repl_policy_t.splits)

lemma set_is_hit_cored: "set_is_hit c magic cm b s = Some (p, t) \<Longrightarrow> set_cored s \<Longrightarrow> set_cored t"
  by (auto simp: set_is_hit_def clock_reference_def set_cored_meta touch_list_cored split: option.splits if_splits bool.splits prod.splits
      intro!: set_cored_upd dest: touch_list_cored)

lemma set_insert_block_cored:
  "set_insert_block c cm b core s = Some t \<Longrightarrow> set_cored s \<Longrightarrow> core \<noteq> None \<Longrightarrow> set_cored t"
  by (auto simp: set_insert_block_def Let_def split: option.splits if_splits prod.splits intro!: set_cored_upd dest!: touch_list_cored)

lemma set_is_hit_inv:
  assumes "set_ok c s" and "read_only c \<Longrightarrow> \<not> writes cm"
  shows "\<exists>p t. set_is_hit c magic cm b s = Some (p, t) \<and> set_ok c t"
proof (cases magic)
  case None
  then show ?thesis using set_is_hit_ok [OF assms] by metis
next
  case (Some m)
  obtain ns where "ordered s ns" "policy_ok c s" using assms(1) by (auto simp: set_ok_def)
  moreover from this have "ns \<noteq> []" using length_ordered [of s ns] by (auto simp: policy_ok_def)
  ultimately have "head s \<noteq> None" by (cases ns) (auto simp: ordered_def linked_def)
  then show ?thesis using Some assms(1) by (cases m) (auto simp: set_is_hit_def)
qed

lemma set_index_less: "sets_ok c \<Longrightarrow> set_index c a < length (blocks c)"
  by (simp add: sets_ok_def set_index_def pc_mask_less)

lemma truncate_blocks [simp]: "cache_params.truncate (c\<lparr>blocks := bl\<rparr>) = cache_params.truncate c"
  by (simp add: cache_params.truncate_def)

lemma only_blocks_inv:
  assumes inv: "cache_inv from pf c" and i: "i < length (blocks c)" and s: "set_ok (cache_params.truncate c) s" "set_cored s"
  shows "cache_inv from pf (c\<lparr>blocks := (blocks c)[i := s]\<rparr>)" and "quiet c (c\<lparr>blocks := (blocks c)[i := s]\<rparr>)"
proof -
  let ?c = "c\<lparr>blocks := (blocks c)[i := s]\<rparr>"
  have g: "cfg ?c = cfg c" by (simp add: cfg_def)
  have "mshr_inv ?c" using inv mshr_inv_cong [OF g] by (simp add: cache_inv_def)
  moreover have "sets_ok ?c" using inv s by (simp add: cache_inv_def sets_ok_def list_all_update)
  ultimately show "cache_inv from pf ?c"
    using inv unfolding cache_inv_def banks_ok_def
    by (simp add: cfg_eq [OF g] reg_ok_cfg [OF g] fill_bank_ok_cong [OF g] pipe_bank_ok_cong [OF g])
  show "quiet c ?c" using g by (simp add: quiet_def toks_def waits_def)
qed

lemma only_filter_inv:
  assumes inv: "cache_inv from pf c" and flt: "map_option reset_interval flt = map_option reset_interval (PF_filter c)"
  shows "cache_inv from pf (c\<lparr>PF_filter := flt\<rparr>)" and "quiet c (c\<lparr>PF_filter := flt\<rparr>)"
proof -
  let ?c = "c\<lparr>PF_filter := flt\<rparr>"
  have g: "cfg ?c = cfg c" using flt by (simp add: cfg_def cache_params.truncate_def)
  have "mshr_inv ?c" using inv mshr_inv_cong [OF g] by (simp add: cache_inv_def)
  then show "cache_inv from pf ?c"
    using inv unfolding cache_inv_def banks_ok_def
    by (simp add: cfg_eq [OF g] flt reg_ok_cfg [OF g] sets_ok_cong [OF g] fill_bank_ok_cong [OF g] pipe_bank_ok_cong [OF g])
  show "quiet c ?c" using g by (simp add: quiet_def toks_def waits_def)
qed

lemma filter_lookup_ok:
  assumes "reset_interval p \<noteq> 0"
  shows "\<exists>b p'. prefetch_filter_lookup cycle a p = Some (b, p') \<and> reset_interval p' = reset_interval p"
  using assms by (auto simp: prefetch_filter_lookup_def filter_reset_def checked_def)

lemma filter_update_ok:
  assumes "reset_interval p \<noteq> 0"
  shows "\<exists>p'. prefetch_filter_update cycle a u p = Some p' \<and> reset_interval p' = reset_interval p"
  using assms by (auto simp: prefetch_filter_update_def Let_def filter_reset_def checked_def)

lemma filter_interval: "cache_inv from pf c \<Longrightarrow> PF_filter c = Some p \<Longrightarrow> reset_interval p \<noteq> 0"
  by (auto simp: cache_inv_def banks_ok_def interval_ok_def)

lemma set_at:
  assumes "cache_inv from pf c"
  shows "set_index c a < length (blocks c)" "set_ok (cache_params.truncate c) (blocks c ! set_index c a)" "set_cored (blocks c ! set_index c a)"
  using assms set_index_less [of c a] by (auto simp: cache_inv_def sets_ok_def list_all_length)

lemma cache_is_hit_inv:
  assumes inv: "cache_inv from pf c" and ro: "read_only c \<Longrightarrow> \<not> writes cm"
  shows "\<exists>p c' s. cache_is_hit magic cm a c = Some (p, c') \<and> cache_inv from pf c' \<and> quiet c c' \<and> c' = c\<lparr>blocks := (blocks c)[set_index c a := s]\<rparr>"
proof -
  note st = set_at [OF inv, of a]
  have "read_only (cache_params.truncate c) \<Longrightarrow> \<not> writes cm" using ro by (simp add: cache_params.truncate_def)
  then obtain p t where h: "set_is_hit (cache_params.truncate c) magic cm (drop_bit (unat (addr_shift c)) a) (blocks c ! set_index c a) = Some (p, t)"
    "set_ok (cache_params.truncate c) t" using set_is_hit_inv [OF st(2)] by blast
  have "set_cored t" using set_is_hit_cored [OF h(1) st(3)] .
  then show ?thesis using only_blocks_inv [OF inv st(1) h(2)] h(1) by (auto simp: cache_is_hit_def Let_def)
qed

text \<open>The replacement victim and, when the block is absent, the set after the fill.\<close>

lemma set_evictee_inv:
  assumes s: "set_ok c s" "set_cored s"
  shows "\<exists>x t. set_get_evictee c r s = Some (Some x, t) \<and> set_ok c t \<and> set_cored t \<and> x < length (lines t) \<and>
    (set_peek b s = Some None \<longrightarrow> (\<forall>core. core \<noteq> None \<longrightarrow>
       (\<exists>u. set_insert_block c cm b core (upd_line x (\<lambda>l. l\<lparr>valid := False, dirty := False\<rparr>) t) = Some u \<and> set_ok c u \<and> set_cored u)))"
proof -
  obtain ns where o: "ordered s ns" and p: "policy_ok c s" and u: "unique s" using s(1) by (auto simp: set_ok_def)
  obtain x t where e: "set_get_evictee c r s = Some (Some x, t)" "x < length (lines s)" "policy_ok c t" "ordered t ns" "same_lines t s"
    using set_get_evictee_some [OF p o] by blast
  have "unique t" using u is_block_same [OF e(5)] same_lines_length [OF e(5)] unfolding unique_def by simp
  then have ok: "set_ok c t" "set_cored t" using e s(2) set_cored_same by (auto simp: set_ok_def)
  have "set_cored (upd_line x (\<lambda>l. l\<lparr>valid := False, dirty := False\<rparr>) t)" by (rule set_cored_upd [OF ok(2)]) simp
  then have "\<exists>u. set_insert_block c cm b core (upd_line x (\<lambda>l. l\<lparr>valid := False, dirty := False\<rparr>) t) = Some u \<and> set_ok c u \<and> set_cored u"
    if "set_peek b s = Some None" "core \<noteq> None" for core
    using set_fill_ok [OF s(1), of r cm b core] e(1) that set_insert_block_cored by (fastforce simp: set_fill_def)
  then show ?thesis using e ok same_lines_length [OF e(5)] by auto
qed

lemma set_peek_some: "set_ok c s \<Longrightarrow> \<exists>p. set_peek b s = Some p"
proof -
  assume "set_ok c s"
  then obtain ns where o: "ordered s ns" by (auto simp: set_ok_def)
  show ?thesis using set_peek_iff [OF o, of b] by blast
qed

lemma reg_step_quiet: "reg_step from pf c c' {#} {#} (waits c) \<Longrightarrow> cache_inv from pf c' \<and> quiet c c' \<and> fill_num c' = fill_num c \<and> blocks c' = blocks c"
  using strip_mshr_eq [of c' c] strip_mshr_cfg [of c' c] by (simp add: reg_step_def quiet_def)

lemma core_of_victim:
  assumes "set_cored s" and "x < length (lines s)" and "valid (lines s ! x)"
  shows "cl_core (lines s ! x) \<noteq> None"
  using assms by (simp add: set_cored_def list_all_length)

lemma fill_done_inv:
  assumes inv: "cache_inv from pf c" and b: "b < unat (banks c)" and n: "fill_num c ! b \<noteq> 0"
  shows "\<exists>c'. fill_done b c = Some c' \<and> cache_inv from pf c' \<and> quiet c c'"
  using fill_dequeue_inv [OF inv b n refl] by (auto simp: fill_done_def Let_def checked_def)

lemma fill_victim_inv:
  assumes inv: "cache_inv from pf c" and s: "set_cored s" "x < length (lines s)" and p: "p = lines s ! x"
    and av: "valid p \<and> dirty p \<and> write_policy c = WRITE_BACK \<Longrightarrow> MSHR_WB_available c (push_bit (unat (addr_shift c)) (tag p))"
  shows "\<exists>c'. fill_victim cycle self p c = Some c' \<and> cache_inv from pf c' \<and> quiet c c' \<and> fill_num c' = fill_num c \<and> blocks c' = blocks c"
proof -
  let ?w = "valid p \<and> dirty p \<and> write_policy c = WRITE_BACK"
  have "\<exists>d. (if ?w then MSHR_WB_insert cycle self p c else Some c) = Some d \<and> cache_inv from pf d \<and> quiet c d \<and>
      fill_num d = fill_num c \<and> blocks d = blocks c"
  proof (cases ?w)
    case True
    then have "cl_core p \<noteq> None" "\<not> (read_only c \<and> write_policy c = WRITE_THROUGH)" using core_of_victim [OF s] p by auto
    then obtain d where "MSHR_WB_insert cycle self p c = Some d" "reg_step from pf c d {#} {#} (waits c)"
      using MSHR_WB_insert_inv [OF inv av [OF True]] by blast
    then show ?thesis using reg_step_quiet True by fastforce
  qed (use inv in auto)
  then obtain d where d: "(if ?w then MSHR_WB_insert cycle self p c else Some c) = Some d" "cache_inv from pf d" "quiet c d"
    "fill_num d = fill_num c" "blocks d = blocks c" by blast
  show ?thesis
  proof (cases "PF_filter d")
    case (Some f)
    obtain f' where f': "prefetch_filter_update (sint cycle) (tag p) (prefetch_used p) f = Some f'" "reset_interval f' = reset_interval f"
      using filter_update_ok [OF filter_interval [OF d(2) Some]] by blast
    note o = only_filter_inv [OF d(2), of "Some f'"]
    show ?thesis using d f' Some o quiet_trans [OF d(3) o(2)] by (auto simp: fill_victim_def)
  qed (use d in \<open>simp add: fill_victim_def\<close>)
qed

lemma fill_replace_inv:
  assumes inv: "cache_inv from pf c" and b: "b < unat (banks c)" and n: "fill_num c ! b \<noteq> 0" and core: "cf_core cf \<noteq> None"
    and peek: "set_peek (drop_bit (unat (addr_shift c)) (cf_paddr cf)) (blocks c ! set_index c (cf_paddr cf)) = Some None"
  shows "\<exists>c'. fill_replace cycle r self b cf c = Some c' \<and> cache_inv from pf c' \<and> quiet c c'"
proof -
  define i where "i = set_index c (cf_paddr cf)"
  define K where "K = cache_params.truncate c"
  define blk where "blk = drop_bit (unat (addr_shift c)) (cf_paddr cf)"
  note st = set_at [OF inv, of "cf_paddr cf", folded i_def K_def]
  obtain x s where ev: "set_get_evictee K r (blocks c ! i) = Some (Some x, s)" "set_ok K s" "set_cored s" "x < length (lines s)"
    and ins: "\<forall>core. core \<noteq> None \<longrightarrow>
      (\<exists>u. set_insert_block K (cf_cmd cf) blk core (upd_line x (\<lambda>l. l\<lparr>valid := False, dirty := False\<rparr>) s) = Some u \<and> set_ok K u \<and> set_cored u)"
    using set_evictee_inv [OF st(2,3), of r blk "cf_cmd cf"] peek unfolding i_def blk_def by blast
  from ins core obtain u where u: "set_insert_block K (cf_cmd cf) blk (cf_core cf) (upd_line x (\<lambda>l. l\<lparr>valid := False, dirty := False\<rparr>) s) = Some u"
    "set_ok K u" "set_cored u" by blast
  define c1 where "c1 = c\<lparr>blocks := (blocks c)[i := s]\<rparr>"
  have c1: "cache_inv from pf c1" "quiet c c1" "fill_num c1 = fill_num c" "length (blocks c1) = length (blocks c)"
    using only_blocks_inv [OF inv st(1) ev(2,3) [unfolded K_def]] by (simp_all add: c1_def)
  let ?w = "valid (lines s ! x) \<and> dirty (lines s ! x) \<and> write_policy c1 = WRITE_BACK"
  let ?av = "MSHR_WB_available c1 (push_bit (unat (addr_shift c1)) (tag (lines s ! x)))"
  have eq: "fill_replace cycle r self b cf c = (if ?w \<and> \<not> ?av then Some c1
      else Option.bind (fill_victim cycle self (lines s ! x) c1) (\<lambda>d. fill_done b (d\<lparr>blocks := (blocks d)[i := u]\<rparr>)))"
    using ev(1) u(1) by (simp add: fill_replace_def Let_def i_def K_def blk_def c1_def split: option.split)
  show ?thesis
  proof (cases "?w \<and> \<not> ?av")
    case True
    then show ?thesis using c1 unfolding eq by auto
  next
    case False
    then have "?w \<Longrightarrow> ?av" by blast
    then obtain d where d: "fill_victim cycle self (lines s ! x) c1 = Some d" "cache_inv from pf d" "quiet c1 d" "fill_num d = fill_num c1" "blocks d = blocks c1"
      using fill_victim_inv [OF c1(1) ev(3,4) refl, of cycle self] by blast
    have q: "quiet c d" using quiet_trans [OF c1(2) d(3)] .
    then have "cache_params.truncate d = K" "banks d = banks c" using cfg_eq [of d c] by (simp_all add: quiet_def K_def)
    then have "cache_inv from pf (d\<lparr>blocks := (blocks d)[i := u]\<rparr>)" "quiet c (d\<lparr>blocks := (blocks d)[i := u]\<rparr>)" "b < unat (banks (d\<lparr>blocks := (blocks d)[i := u]\<rparr>))"
      using only_blocks_inv [OF d(2), of i u] u st(1) d c1(4) q b by (auto intro: quiet_trans)
    from fill_done_inv [OF this(1,3)] this(2) show ?thesis
      using n c1(3) d(1,4) False unfolding eq by (auto intro: quiet_trans)
  qed
qed

lemma cache_process_fill_inv:
  assumes inv: "cache_inv from pf c" and b: "b < unat (banks c)"
  shows "\<exists>c'. cache_process_fill cycle r self b c = Some c' \<and> cache_inv from pf c' \<and> quiet c c'"
proof -
  define cf where "cf = fill_pipe c ! b ! 1"
  have ok: "fill_bank_ok c b" using inv b by (simp add: cache_inv_def)
  obtain p where p: "set_peek (drop_bit (unat (addr_shift c)) (cf_paddr cf)) (blocks c ! set_index c (cf_paddr cf)) = Some p"
    using set_peek_some [OF set_at(2) [OF inv]] by blast
  show ?thesis
  proof (cases "fill_num c ! b = 0 \<or> \<not> (cf_valid cf \<and> cf_exit_time cf \<le>s cycle)")
    case False
    then have "cf \<in># entries (fill_pipe c ! b) (nat (fill_num c ! b))"
      using ok unfolding in_entries cf_def by (intro exI [of _ 1]) (auto simp: fill_bank_ok_def Let_def)
    then have "cf_core cf \<noteq> None" using ok by (auto simp: fill_bank_ok_def Let_def)
    then show ?thesis
      using False p fill_done_inv [OF inv b] fill_replace_inv [OF inv b, of cf cycle r self]
      by (cases p) (simp_all add: cache_process_fill_def Let_def cf_def)
  qed (use inv in \<open>simp add: cache_process_fill_def Let_def cf_def\<close>)
qed

end
