(* ===== verification/Ring.thy ===== *)
theory Ring
  imports Prelude
begin

text \<open>
  Circular buffers as the code writes them: \<^verbatim>\<open>head\<close>, \<^verbatim>\<open>num\<close> and \<^verbatim>\<open>tail\<close> indices that are advanced with
  \<^verbatim>\<open>modinc\<close>. The request queue of a memory controller and the prefetch FIFO of a cache are such buffers.
\<close>

definition ring_ok :: "cint \<Rightarrow> cint \<Rightarrow> cint \<Rightarrow> cint \<Rightarrow> nat \<Rightarrow> bool" where
  "ring_ok h n t s len \<longleftrightarrow> unat s < 2 ^ 31 \<and> len = unat s \<and> unat h < unat s \<and> unat n \<le> unat s \<and>
     unat t = (unat h + unat n) mod unat s"

text \<open>The position \<open>i\<close> holds an element.\<close>

definition in_ring :: "cint \<Rightarrow> cint \<Rightarrow> cint \<Rightarrow> nat \<Rightarrow> bool" where
  "in_ring h n s i \<longleftrightarrow> (\<exists>j < unat n. i = (unat h + j) mod unat s)"

lemma unat_Suc: "unat x < 2 ^ 31 \<Longrightarrow> unat (x + 1) = Suc (unat x)" for x :: cint
  by (simp add: unat_word_ariths)

lemma ring_inj:
  assumes "(h + i) mod s = (h + j) mod s" and "i < s" and "j < s"
  shows "i = (j::nat)"
proof -
  have "(int h + int i) mod int s = (int h + int j) mod int s" using arg_cong [OF assms(1), of int] by (simp add: zmod_int)
  then have "int i mod int s = int j mod int s" by (metis mod_diff_cong add_diff_cancel_left')
  then show ?thesis using assms(2,3) by simp
qed

lemma ring_push:
  assumes r: "ring_ok h n t s len" and n: "unat n < unat s"
  shows "ring_ok h (n + 1) (modinc t s) s len" and "in_ring h (n + 1) s i \<longleftrightarrow> in_ring h n s i \<or> i = unat t"
    and "\<not> in_ring h n s (unat t)" and "unat t < len"
proof -
  have n1: "unat (n + 1) = Suc (unat n)" using r n by (intro unat_Suc) (simp add: ring_ok_def)
  have t: "unat t = (unat h + unat n) mod unat s" "unat t < unat s" "unat s < 2 ^ 31" "len = unat s" using r n by (auto simp: ring_ok_def)
  show "ring_ok h (n + 1) (modinc t s) s len" using r n by (simp add: ring_ok_def n1 unat_modinc [OF t(2,3)] t(1) mod_Suc_eq)
  show "in_ring h (n + 1) s i \<longleftrightarrow> in_ring h n s i \<or> i = unat t" by (auto simp: in_ring_def n1 less_Suc_eq t(1))
  show "\<not> in_ring h n s (unat t)"
  proof
    assume "in_ring h n s (unat t)"
    then obtain j where j: "j < unat n" "(unat h + unat n) mod unat s = (unat h + j) mod unat s" by (auto simp: in_ring_def t(1))
    then show False using ring_inj [OF j(2) n] n by simp
  qed
  show "unat t < len" using t by simp
qed

lemma ring_pop:
  assumes r: "ring_ok h n t s len" and n: "n \<noteq> 0"
  shows "ring_ok (modinc h s) (n - 1) t s len" and "in_ring h n s i \<longleftrightarrow> i = unat h \<or> in_ring (modinc h s) (n - 1) s i"
    and "\<not> in_ring (modinc h s) (n - 1) s (unat h)" and "unat h < len"
proof -
  have n1: "unat n = Suc (unat (n - 1))" using unat_minus_one [OF n] n by (simp add: unat_gt_0)
  have h: "unat h < unat s" "unat s < 2 ^ 31" "len = unat s" using r by (auto simp: ring_ok_def)
  note m = unat_modinc [OF h(1,2)]
  have sh: "((unat h + 1) mod unat s + j) mod unat s = (unat h + Suc j) mod unat s" for j by (simp add: mod_add_left_eq)
  show "ring_ok (modinc h s) (n - 1) t s len" using r h unfolding ring_ok_def m sh n1 by simp
  have "(\<exists>j < Suc k. i = (unat h + j) mod unat s) \<longleftrightarrow> i = unat h \<or> (\<exists>j < k. i = (unat h + Suc j) mod unat s)" for k
    using h(1) unfolding Ex_less_Suc2 by simp
  then show "in_ring h n s i \<longleftrightarrow> i = unat h \<or> in_ring (modinc h s) (n - 1) s i" by (simp only: in_ring_def n1 m sh)
  show "\<not> in_ring (modinc h s) (n - 1) s (unat h)"
  proof
    assume "in_ring (modinc h s) (n - 1) s (unat h)"
    then obtain j where j: "j < unat (n - 1)" "(unat h + Suc j) mod unat s = (unat h + 0) mod unat s" unfolding in_ring_def m sh using h(1) by auto
    have "Suc j < unat s" using j(1) n1 r by (simp add: ring_ok_def)
    then show False using ring_inj [OF j(2)] by simp
  qed
  show "unat h < len" using h by simp
qed

lemma in_ring_less: "ring_ok h n t s len \<Longrightarrow> in_ring h n s i \<Longrightarrow> i < len"
  by (auto simp: ring_ok_def in_ring_def)

end
