(* ===== verification/Memsys_Inv.thy ===== *)
theory Memsys_Inv
  imports Memsys Cache_Inv Ring
begin

text \<open>
  The invariant of the memory hierarchy. Every cache keeps its own invariant, the links between the
  caches fit together, the queue of the memory controller and the prefetch FIFOs are well formed, and the
  requests balance: the registers that wait for an answer are, each exactly once, the requests that the
  caches above and the memory controller hold.
\<close>

section \<open>The shape of a system\<close>

text \<open>What no operation changes within a cycle.\<close>

definition nshape :: "cache_node \<Rightarrow> (cache_params \<times> cint \<times> cint \<times> md_paddr_t \<times> cint \<times> nat \<times> cint \<times> cint \<times> cint \<times> cint \<times> cint option) \<times> nat option \<times> nat option \<times> tick_t \<times> cint" where
  "nshape n = (cfg (base n), next_level n, next_bus n, sim_cycle n, PF_sample_interval n)"

definition same :: "msys \<Rightarrow> msys \<Rightarrow> bool" where
  "same st st' \<longleftrightarrow> map nshape (nodes st') = map nshape (nodes st) \<and> length (buses st') = length (buses st) \<and> LLC st' = LLC st \<and>
     uncore_cycle st' = uncore_cycle st \<and> uncore_params st' = uncore_params st \<and> vmem st' = vmem st"

lemma same_refl [simp]: "same st st" by (simp add: same_def)

lemma same_trans: "same st st' \<Longrightarrow> same st' st'' \<Longrightarrow> same st st''" by (simp add: same_def)

lemma same_facts:
  assumes "same st st'"
  shows "length (nodes st') = length (nodes st)" "length (buses st') = length (buses st)" "LLC st' = LLC st" "uncore_cycle st' = uncore_cycle st"
    "uncore_params st' = uncore_params st" "vmem st' = vmem st"
    "k < length (nodes st) \<Longrightarrow> cfg (cache_of st' k) = cfg (cache_of st k)"
    "k < length (nodes st) \<Longrightarrow> next_level (nodes st' ! k) = next_level (nodes st ! k)"
    "k < length (nodes st) \<Longrightarrow> next_bus (nodes st' ! k) = next_bus (nodes st ! k)"
    "k < length (nodes st) \<Longrightarrow> sim_cycle (nodes st' ! k) = sim_cycle (nodes st ! k)"
    "k < length (nodes st) \<Longrightarrow> PF_sample_interval (nodes st' ! k) = PF_sample_interval (nodes st ! k)"
proof -
  have m: "map nshape (nodes st') = map nshape (nodes st)" using assms by (simp add: same_def)
  show l: "length (nodes st') = length (nodes st)" using m map_eq_imp_length_eq by blast
  have n: "k < length (nodes st) \<Longrightarrow> nshape (nodes st' ! k) = nshape (nodes st ! k)" using arg_cong [OF m, of "\<lambda>xs. xs ! k"] l by simp
  show "length (buses st') = length (buses st)" "LLC st' = LLC st" "uncore_cycle st' = uncore_cycle st"
    "uncore_params st' = uncore_params st" "vmem st' = vmem st" using assms by (simp_all add: same_def)
  show "k < length (nodes st) \<Longrightarrow> cfg (cache_of st' k) = cfg (cache_of st k)"
    "k < length (nodes st) \<Longrightarrow> next_level (nodes st' ! k) = next_level (nodes st ! k)"
    "k < length (nodes st) \<Longrightarrow> next_bus (nodes st' ! k) = next_bus (nodes st ! k)"
    "k < length (nodes st) \<Longrightarrow> sim_cycle (nodes st' ! k) = sim_cycle (nodes st ! k)"
    "k < length (nodes st) \<Longrightarrow> PF_sample_interval (nodes st' ! k) = PF_sample_interval (nodes st ! k)"
    using n by (simp_all add: nshape_def cache_of_def)
qed

lemma same_node:
  assumes "k < length (nodes st)" and "nshape n = nshape (nodes st ! k)"
  shows "same st (st\<lparr>nodes := (nodes st)[k := n]\<rparr>)"
  using assms by (simp add: same_def map_update) (metis list_update_id nth_map)

section \<open>Links\<close>

text \<open>The requests of cache \<open>k\<close> come from the caches whose next level it is. Above a cache that may not
  write are only caches that accept its requests; where prefetches travel (\<open>Pf\<close>) the register banks of
  adjacent levels agree, because the code counts prefetches under the bank of the level below.\<close>

definition from_of :: "msys \<Rightarrow> nat \<Rightarrow> nat \<Rightarrow> bool" where
  "from_of st k p \<longleftrightarrow> p < length (nodes st) \<and> next_level (nodes st ! p) = Some k"

definition link_ok :: "(nat \<Rightarrow> bool) \<Rightarrow> msys \<Rightarrow> nat \<Rightarrow> bool" where
  "link_ok Pf st k \<longleftrightarrow>
     (let n = nodes st ! k; c = base n in
      bank_shift c = addr_shift c \<and> 0 <s burst_chunks (uncore_params st) (linesize c) \<and>
      (case next_bus n of None \<Rightarrow> next_level n = None \<and> PF_sample_interval n = 0 | Some b \<Rightarrow> b < length (buses st)) \<and>
      (case next_level n of None \<Rightarrow> True
       | Some m \<Rightarrow> m < length (nodes st) \<and> m \<noteq> k \<and>
           (read_only (cache_of st m) \<longrightarrow> read_only c \<and> write_policy c = WRITE_THROUGH) \<and>
           (Pf k \<longrightarrow> Pf m \<and> GET_MSHR_BANK (cache_of st m) = GET_MSHR_BANK c)))"

definition clock_ok :: "int \<Rightarrow> tick_t \<Rightarrow> bool" where
  "clock_ok t x \<longleftrightarrow> 0 \<le> sint x \<and> sint x \<le> t"

definition topo :: "(nat \<Rightarrow> bool) \<Rightarrow> int \<Rightarrow> msys \<Rightarrow> bool" where
  "topo Pf t st \<longleftrightarrow> LLC st < length (nodes st) \<and> clock_ok t (uncore_cycle st) \<and>
     (\<forall>k < length (nodes st). clock_ok t (sim_cycle (nodes st ! k)) \<and> link_ok Pf st k)"

lemma from_of_same:
  assumes "same st st'"
  shows "from_of st' k = from_of st k"
  using same_facts(1,8) [OF assms] by (auto simp: from_of_def fun_eq_iff)

lemma topo_same:
  assumes s: "same st st'" and t: "topo Pf t st"
  shows "topo Pf t st'"
proof -
  note f = same_facts [OF s]
  have "link_ok Pf st' k" if k: "k < length (nodes st)" for k
  proof -
    have l: "link_ok Pf st k" using t k by (simp add: topo_def)
    note q = cfg_eq [OF f(7) [OF k], unfolded cache_of_def] and g = f(1,2,5) f(8-11) [OF k]
    show ?thesis
    proof (cases "next_level (nodes st ! k)")
      case None
      then show ?thesis using l by (simp add: link_ok_def Let_def q g cong: option.case_cong)
    next
      case (Some m)
      then have m: "m < length (nodes st)" using l by (simp add: link_ok_def Let_def)
      show ?thesis using l Some by (simp add: link_ok_def Let_def q g cfg_eq(11,16) [OF f(7) [OF m]] cong: option.case_cong)
    qed
  qed
  then show ?thesis using t f by (simp add: topo_def)
qed

section \<open>Prefetch FIFOs\<close>

definition pfr_ok :: "prefetcher_t \<Rightarrow> bool" where
  "pfr_ok p \<longleftrightarrow> (case p of PF_stream s \<Rightarrow> (\<exists>S. stream_shows s S) \<and> unat (geom_addr_shift (pf_cp s)) < 31 | _ \<Rightarrow> True)"

lemma prefetcher_lookup_ok:
  assumes "pfr_ok p"
  shows "\<exists>a p'. prefetcher_lookup pc x p = Some (a, p') \<and> pfr_ok p'"
proof (cases p)
  case (PF_stream s)
  then obtain U D where "stream_shows s (U, D)" "unat (geom_addr_shift (pf_cp s)) < 31" using assms by (auto simp: pfr_ok_def)
  from prefetch_stream_lookup_follows [OF this(1) refl this(2), of pc x] this(2) show ?thesis
    using PF_stream by (auto simp: follows_def pfr_ok_def simp del: split_paired_Ex)
qed (simp_all add: pfr_ok_def map_prod_def split: prod.split)

definition pff_inv :: "cache_node \<Rightarrow> bool" where
  "pff_inv n \<longleftrightarrow> ring_ok (PFF_head n) (PFF_num n) (PFF_tail n) (PFF_size n) (length (PFF n)) \<and>
     (\<forall>i. in_ring (PFF_head n) (PFF_num n) (PFF_size n) i \<longrightarrow> pff_core (PFF n ! i) \<noteq> None)"

definition pf_ok :: "bool \<Rightarrow> cache_node \<Rightarrow> bool" where
  "pf_ok pf n \<longleftrightarrow> PF_buffer n = [] \<and> (prefetcher n = [] \<and> PFF_num n = 0 \<or> pf \<and> list_all pfr_ok (prefetcher n) \<and> pff_inv n)"

text \<open>Only the FIFO and the prefetchers of a node change.\<close>

definition only_pf :: "cache_node \<Rightarrow> cache_node \<Rightarrow> bool" where
  "only_pf n n' \<longleftrightarrow> base n' = base n \<and> nshape n' = nshape n \<and> controller n' = controller n \<and> length (prefetcher n') = length (prefetcher n) \<and>
     PFF_size n' = PFF_size n"

lemma only_pf_refl [simp]: "only_pf n n" by (simp add: only_pf_def)

lemma only_pf_trans: "only_pf n n' \<Longrightarrow> only_pf n' n'' \<Longrightarrow> only_pf n n''" by (simp add: only_pf_def)

lemma pff_push_room:
  assumes r: "pff_inv n" and room: "unat (PFF_num n) < unat (PFF_size n)" and core: "core \<noteq> None"
    and n': "n' = n\<lparr>PFF := (PFF n)[unat (PFF_tail n) := \<lparr>pff_PC = pc, pff_addr = a, pff_core = core\<rparr>],
                    PFF_tail := modinc (PFF_tail n) (PFF_size n), PFF_num := PFF_num n + 1\<rparr>"
  shows "pff_inv n'" and "unat (PFF_tail n) < length (PFF n)" and "PFF_num n' \<le>s PFF_size n'"
proof -
  have k: "ring_ok (PFF_head n) (PFF_num n) (PFF_tail n) (PFF_size n) (length (PFF n))" using r by (simp add: pff_inv_def)
  note p = ring_push [OF k room]
  show "unat (PFF_tail n) < length (PFF n)" by (rule p(4))
  show "pff_inv n'" using r p core by (auto simp: pff_inv_def n' nth_list_update)
  have "unat (PFF_num n + 1) \<le> unat (PFF_size n)" "unat (PFF_size n) < 2 ^ 31" using p(1) by (auto simp: ring_ok_def)
  then show "PFF_num n' \<le>s PFF_size n'" by (simp add: n' sle_unat)
qed

lemma pff_push_ok:
  assumes r: "pff_inv n" and core: "core \<noteq> None"
  shows "\<exists>n'. pff_push pc core a n = Some n' \<and> pff_inv n' \<and> only_pf n n' \<and> prefetcher n' = prefetcher n \<and> PF_buffer n' = PF_buffer n"
proof (cases "page_round_down a = 0 \<or> pff_search n a (unat (PFF_num n)) (PFF_head n)")
  case True
  then show ?thesis using r by (simp add: pff_push_def)
next
  case False
  have k: "ring_ok (PFF_head n) (PFF_num n) (PFF_tail n) (PFF_size n) (length (PFF n))" using r by (simp add: pff_inv_def)
  define m where "m = (if PFF_num n = PFF_size n then n\<lparr>PFF_head := modinc (PFF_head n) (PFF_size n), PFF_num := PFF_num n - 1\<rparr> else n)"
  have m: "pff_inv m \<and> unat (PFF_num m) < unat (PFF_size m) \<and> (PFF_num n = PFF_size n \<longrightarrow> 0 \<le> sint (PFF_num m))"
  proof (cases "PFF_num n = PFF_size n")
    case True
    then have z: "PFF_num n \<noteq> 0" using k by (auto simp: ring_ok_def)
    note p = ring_pop [OF k z]
    have "unat (PFF_num n - 1) < unat (PFF_size n)" "unat (PFF_num n - 1) < 2 ^ 31"
      using k z True unat_minus_one [OF z] by (auto simp: ring_ok_def unat_gt_0)
    then show ?thesis using r p True by (auto simp: m_def pff_inv_def sint_cint simp del: of_nat_unat)
  next
    case False
    then show ?thesis using r k by (simp add: m_def ring_ok_def le_neq_implies_less word_unat_eq_iff)
  qed
  define n' where "n' = m\<lparr>PFF := (PFF m)[unat (PFF_tail m) := \<lparr>pff_PC = pc, pff_addr = a, pff_core = core\<rparr>],
                    PFF_tail := modinc (PFF_tail m) (PFF_size m), PFF_num := PFF_num m + 1\<rparr>"
  note p = pff_push_room [OF _ _ core n'_def]
  have "pff_push pc core a n = Some n'"
    using False m p(2,3) unfolding pff_push_def m_def [symmetric] n'_def [symmetric] Let_def checked_def by simp
  moreover have "only_pf n n' \<and> prefetcher n' = prefetcher n \<and> PF_buffer n' = PF_buffer n" by (simp add: only_pf_def n'_def m_def nshape_def)
  ultimately show ?thesis using m p(1) by blast
qed

lemma ask_prefetcher_ok:
  assumes n: "pf_ok pf n" and ii: "ii < length (prefetcher n)" and core: "ca_core e \<noteq> None"
  shows "\<exists>n'. ask_prefetcher e ii n = Some n' \<and> pf_ok pf n' \<and> only_pf n n'"
proof -
  have k: "pf" "list_all pfr_ok (prefetcher n)" "pff_inv n" "PF_buffer n = []" using n ii by (auto simp: pf_ok_def)
  show ?thesis
  proof (cases "prefetcher_hint e")
    case True
    then show ?thesis using pff_push_ok [OF k(3) core] k by (fastforce simp: ask_prefetcher_def pf_ok_def)
  next
    case False
    obtain a p' where p': "prefetcher_lookup (ca_PC e) (ca_paddr e) (prefetcher n ! ii) = Some (a, p')" "pfr_ok p'"
      using prefetcher_lookup_ok list_all_nth [OF k(2) ii] by blast
    let ?n = "n\<lparr>prefetcher := (prefetcher n)[ii := p']\<rparr>"
    have "pff_inv ?n" using k by (simp add: pff_inv_def)
    from pff_push_ok [OF this core] obtain n' where n': "pff_push (ca_PC e) (ca_core e) a ?n = Some n'" "pff_inv n'" "only_pf ?n n'"
      "prefetcher n' = prefetcher ?n" "PF_buffer n' = PF_buffer ?n" by blast
    have "only_pf n ?n" by (simp add: only_pf_def nshape_def)
    then show ?thesis using n' False p' k by (auto simp: ask_prefetcher_def pf_ok_def list_all_update intro: only_pf_trans)
  qed
qed

lemma fold_opt_inv:
  assumes "P s" and "\<And>x s. x \<in> set xs \<Longrightarrow> P s \<Longrightarrow> \<exists>s'. f x s = Some s' \<and> P s'"
  shows "\<exists>s'. fold_opt f xs s = Some s' \<and> P s'"
  using assms
proof (induction xs arbitrary: s)
  case (Cons x xs)
  then obtain s1 where "f x s = Some s1" "P s1" by (metis list.set_intros(1))
  then show ?case using Cons.IH [of s1] Cons.prems(2) by auto
qed simp

lemma train_prefetchers_ok:
  assumes n: "pf_ok pf n" and core: "ca_core e \<noteq> None"
  shows "\<exists>n'. train_prefetchers go e n = Some n' \<and> pf_ok pf n' \<and> only_pf n n'"
proof (cases "go \<and> ca_PC e \<noteq> 0 \<and> ca_cmd e = CACHE_READ")
  case True
  have "\<exists>n'. fold_opt (ask_prefetcher e) [0 ..< length (prefetcher n)] n = Some n' \<and> (pf_ok pf n' \<and> only_pf n n')"
  proof (rule fold_opt_inv)
    fix ii m assume "ii \<in> set [0 ..< length (prefetcher n)]" and m: "pf_ok pf m \<and> only_pf n m"
    then have "ii < length (prefetcher m)" by (simp add: only_pf_def)
    then show "\<exists>n'. ask_prefetcher e ii m = Some n' \<and> (pf_ok pf n' \<and> only_pf n n')"
      using ask_prefetcher_ok [OF conjunct1 [OF m] _ core] m only_pf_trans by blast
  qed (use n in simp)
  then show ?thesis using True by (simp add: train_prefetchers_def)
qed (use n in \<open>auto simp: train_prefetchers_def\<close>)

section \<open>The invariant\<close>

definition mctok :: "MC_action_t \<Rightarrow> (nat \<times> nat \<times> nat) multiset" where
  "mctok r = (if mc_valid r \<and> mc_when_returned r = TICK_T_MAX
     then (case mc_prev_cp r of None \<Rightarrow> {#} | Some p \<Rightarrow> {#(p, unat (mc_MSHR_bank r), unat (mc_MSHR_index r))#}) else {#})"

fun mctoks :: "MC_t \<Rightarrow> (nat \<times> nat \<times> nat) multiset" where
  "mctoks (MC_ideal n) = {#}"
| "mctoks (MC_simple m) = sum_list (map mctok (RQ m))"

definition mcs_inv :: "fsb_params \<Rightarrow> MC_simple_t \<Rightarrow> bool" where
  "mcs_inv u m \<longleftrightarrow> ring_ok (RQ_head m) (RQ_num m) (RQ_tail m) (RQ_size m) (length (RQ m)) \<and>
     (\<forall>i < length (RQ m). mc_valid (RQ m ! i) = in_ring (RQ_head m) (RQ_num m) (RQ_size m) i) \<and>
     list_all (\<lambda>r. mc_valid r \<longrightarrow> 0 <s burst_chunks u (mc_linesize r)) (RQ m)"

fun mc_inv :: "fsb_params \<Rightarrow> MC_t \<Rightarrow> bool" where
  "mc_inv u (MC_ideal n) = True"
| "mc_inv u (MC_simple m) = mcs_inv u m"

text \<open>The requests in flight, and the registers that wait.\<close>

definition in_flight :: "msys \<Rightarrow> (nat \<times> nat \<times> nat) multiset" where
  "in_flight st = (\<Sum>k < length (nodes st). toks (cache_of st k)) + mctoks (MC st)"

definition cwaits :: "nat \<Rightarrow> cache_t \<Rightarrow> (nat \<times> nat \<times> nat) multiset" where
  "cwaits k c = image_mset (Pair k) (mset_set (waits c))"

definition all_waits :: "msys \<Rightarrow> (nat \<times> nat \<times> nat) multiset" where
  "all_waits st = (\<Sum>k < length (nodes st). cwaits k (cache_of st k))"

definition node_inv :: "(nat \<Rightarrow> bool) \<Rightarrow> bool \<Rightarrow> cache_node \<Rightarrow> bool" where
  "node_inv from pf n \<longleftrightarrow> cache_inv from pf (base n) \<and> pf_ok pf n"

text \<open>\<open>X\<close> are requests in flight without a waiting register; it is empty between two operations.\<close>

definition sys_inv :: "(nat \<Rightarrow> bool) \<Rightarrow> int \<Rightarrow> (nat \<times> nat \<times> nat) multiset \<Rightarrow> msys \<Rightarrow> bool" where
  "sys_inv Pf t X st \<longleftrightarrow> t \<le> 2 ^ 62 \<and> topo Pf t st \<and> (\<forall>k < length (nodes st). node_inv (from_of st k) (Pf k) (nodes st ! k)) \<and>
     mc_inv (uncore_params st) (MC st) \<and> in_flight st = all_waits st + X"

lemma sys_inv_node:
  assumes "sys_inv Pf t X st" and "k < length (nodes st)"
  shows "cache_inv (from_of st k) (Pf k) (cache_of st k)" "pf_ok (Pf k) (nodes st ! k)" "link_ok Pf st k" "early (cache_get_cycle st k)"
  using assms by (auto simp: sys_inv_def node_inv_def topo_def cache_of_def cache_get_cycle_def clock_ok_def early_def)

lemma sys_inv_uncore:
  assumes "sys_inv Pf t X st"
  shows "early (uncore_cycle st)" "LLC st < length (nodes st)" "topo Pf t st"
  using assms by (auto simp: sys_inv_def topo_def clock_ok_def early_def)

lemma mset_balance:
  fixes A :: "'a multiset"
  assumes "S' + a = S + a'" and "U' + w = U + w'" and "a' + B = a + A" and "w' + D = w + C" and "S + M = U + X" and "X + A + D = X' + B + C"
  shows "S' + M = U' + X'"
proof (rule multiset_eqI)
  fix x
  have e: "count L x = count R x" if "L = R" for L R :: "'a multiset" using that by simp
  show "count (S' + M) x = count (U' + X') x"
    using e [OF assms(1)] e [OF assms(2)] e [OF assms(3)] e [OF assms(4)] e [OF assms(5)] e [OF assms(6)] by simp
qed

text \<open>A change of one cache: its requests grow by \<open>A\<close> and shrink by \<open>B\<close>, its waiting registers grow by
  \<open>C\<close> and shrink by \<open>D\<close>.\<close>

lemma node_step:
  assumes inv: "sys_inv Pf t X st" and k: "k < length (nodes st)" and sh: "nshape n = nshape (nodes st ! k)"
    and n: "node_inv (from_of st k) (Pf k) n"
    and tk: "toks (base n) + B = toks (cache_of st k) + A" and wt: "cwaits k (base n) + D = cwaits k (cache_of st k) + C"
    and X: "X + A + D = X' + B + C"
  shows "sys_inv Pf t X' (st\<lparr>nodes := (nodes st)[k := n]\<rparr>) \<and> same st (st\<lparr>nodes := (nodes st)[k := n]\<rparr>)"
proof -
  let ?st = "st\<lparr>nodes := (nodes st)[k := n]\<rparr>"
  have s: "same st ?st" using same_node [OF k sh] .
  have c: "cache_of ?st k = base n" "\<And>j. j \<noteq> k \<Longrightarrow> cache_of ?st j = cache_of st j" using k by (simp_all add: cache_of_def)
  have b1: "(\<Sum>j < length (nodes st). toks (cache_of ?st j)) + toks (cache_of st k) = (\<Sum>j < length (nodes st). toks (cache_of st j)) + toks (base n)"
    using sum_change [OF k, of "\<lambda>j. toks (cache_of ?st j)" "\<lambda>j. toks (cache_of st j)"] c by simp
  have b2: "(\<Sum>j < length (nodes st). cwaits j (cache_of ?st j)) + cwaits k (cache_of st k) = (\<Sum>j < length (nodes st). cwaits j (cache_of st j)) + cwaits k (base n)"
    using sum_change [OF k, of "\<lambda>j. cwaits j (cache_of ?st j)" "\<lambda>j. cwaits j (cache_of st j)"] c by simp
  have b3: "(\<Sum>j < length (nodes st). toks (cache_of st j)) + mctoks (MC st) = (\<Sum>j < length (nodes st). cwaits j (cache_of st j)) + X"
    using inv by (simp add: sys_inv_def in_flight_def all_waits_def)
  have l: "length (nodes ?st) = length (nodes st)" "MC ?st = MC st" by simp_all
  have "in_flight ?st = all_waits ?st + X'"
    using mset_balance [OF b1 b2 tk wt b3 X] unfolding in_flight_def all_waits_def l .
  moreover have "node_inv (from_of ?st j) (Pf j) (nodes ?st ! j)" if "j < length (nodes st)" for j
    using that inv n k from_of_same [OF s] by (cases "j = k") (simp_all add: sys_inv_def)
  ultimately show ?thesis using inv s topo_same [OF s] by (simp add: sys_inv_def)
qed

lemma cwaits_quiet: "quiet c c' \<Longrightarrow> cwaits k c' = cwaits k c" by (simp add: quiet_def cwaits_def)

lemma cwaits_insert: "waits c' = insert x (waits c) \<Longrightarrow> x \<notin> waits c \<Longrightarrow> cwaits k c' = add_mset (k, x) (cwaits k c)"
  by (simp add: cwaits_def)

lemma cwaits_remove: "waits c' = waits c - {x} \<Longrightarrow> x \<in> waits c \<Longrightarrow> cwaits k c' + {#(k, x)#} = cwaits k c"
  by (simp add: cwaits_def mset_set_Diff image_mset_Diff) 

lemma node_quiet:
  assumes inv: "sys_inv Pf t X st" and k: "k < length (nodes st)" and sh: "nshape n = nshape (nodes st ! k)"
    and n: "node_inv (from_of st k) (Pf k) n" and q: "quiet (cache_of st k) (base n)"
  shows "sys_inv Pf t X (st\<lparr>nodes := (nodes st)[k := n]\<rparr>) \<and> same st (st\<lparr>nodes := (nodes st)[k := n]\<rparr>)"
  using node_step [OF inv k sh n, where A = "{#}" and B = "{#}" and C = "{#}" and D = "{#}" and X' = X] q cwaits_quiet [OF q, of k]
  by (simp add: quiet_def)

text \<open>A change of the fields modelled in the theory Cache.\<close>

lemma cache_step:
  assumes inv: "sys_inv Pf t X st" and k: "k < length (nodes st)" and c: "cache_inv (from_of st k) (Pf k) c" "cfg c = cfg (cache_of st k)"
    and tk: "toks c + B = toks (cache_of st k) + A" and wt: "cwaits k c + D = cwaits k (cache_of st k) + C" and X: "X + A + D = X' + B + C"
  shows "sys_inv Pf t X' (set_cache k c st) \<and> same st (set_cache k c st)"
proof -
  have "node_inv (from_of st k) (Pf k) ((nodes st ! k)\<lparr>base := c\<rparr>)"
    using sys_inv_node(2) [OF inv k] c by (simp add: node_inv_def pf_ok_def pff_inv_def)
  then show ?thesis using node_step [OF inv k _ _ _ _ X, of "(nodes st ! k)\<lparr>base := c\<rparr>"] c tk wt
    by (simp add: nshape_def set_cache_def upd_node_def upd_def cache_of_def)
qed

lemma cache_quiet:
  assumes inv: "sys_inv Pf t X st" and k: "k < length (nodes st)" and c: "cache_inv (from_of st k) (Pf k) c" and q: "quiet (cache_of st k) c"
  shows "sys_inv Pf t X (set_cache k c st) \<and> same st (set_cache k c st)"
  using cache_step [OF inv k c, where A = "{#}" and B = "{#}" and C = "{#}" and D = "{#}" and X' = X] q cwaits_quiet [OF q, of k]
  by (simp add: quiet_def)

lemma set_cache_nodes [simp]:
  "k < length (nodes st) \<Longrightarrow> cache_of (set_cache k c st) k = c" "j \<noteq> k \<Longrightarrow> nodes (set_cache k c st) ! j = nodes st ! j"
  "MC (set_cache k c st) = MC st" "vmem (set_cache k c st) = vmem st" "fsb (set_cache k c st) = fsb st" "length (nodes (set_cache k c st)) = length (nodes st)"
  by (simp_all add: set_cache_def upd_node_def upd_def cache_of_def)

text \<open>Changes outside the caches.\<close>

lemma sys_inv_frame:
  assumes "sys_inv Pf t X st" and "nodes st' = nodes st" and "MC st' = MC st" and "same st st'"
  shows "sys_inv Pf t X st'"
  using assms topo_same [OF assms(4)] from_of_same [OF assms(4)] same_facts(5) [OF assms(4)]
  by (simp add: sys_inv_def in_flight_def all_waits_def cache_of_def)

lemma use_bus_frame [simp]:
  "nodes (use_bus b n pf st) = nodes st" "MC (use_bus b n pf st) = MC st" "same st (use_bus b n pf st)" "fsb (use_bus b n pf st) = fsb st"
  "vmem (use_bus b n pf st) = vmem st"
  by (simp_all add: use_bus_def same_def)

lemma add_call_frame [simp]: "nodes (add_call x st) = nodes st" "MC (add_call x st) = MC st" "same st (add_call x st)"
  by (simp_all add: add_call_def same_def)

lemma use_bus_inv: "sys_inv Pf t X st \<Longrightarrow> sys_inv Pf t X (use_bus b n pf st)"
  by (erule sys_inv_frame) simp_all

section \<open>Answers\<close>

lemma in_all_waits: "(p, b, i) \<in># all_waits st \<longleftrightarrow> p < length (nodes st) \<and> (b, i) \<in> waits (cache_of st p)"
  by (auto simp: all_waits_def cwaits_def set_mset_sum)

lemma reg_step_sys:
  assumes inv: "sys_inv Pf t X st" and k: "k < length (nodes st)" and r: "reg_step (from_of st k) (Pf k) (cache_of st k) c A B W"
    and wt: "cwaits k c + D = cwaits k (cache_of st k) + C" and X: "X + A + D = X' + B + C"
  shows "sys_inv Pf t X' (set_cache k c st) \<and> same st (set_cache k c st)"
  using r strip_mshr_cfg [of c "cache_of st k"] by (intro cache_step [OF inv k _ _ _ wt X]) (auto simp: reg_step_def)

lemma deliver_inv:
  assumes inv: "sys_inv Pf t X st" and w: "(p, b, unat j) \<in># all_waits st" and d: "0 \<le> sint d" "sint d < 2 ^ 33"
  shows "\<exists>c. deliver p b j d st = Some (set_cache p c st) \<and> sys_inv Pf t (add_mset (p, b, unat j) X) (set_cache p c st) \<and> same st (set_cache p c st)"
proof -
  have p: "p < length (nodes st)" "(b, unat j) \<in> waits (cache_of st p)" using w by (simp_all add: in_all_waits)
  have "cache_get_cycle st p + d \<noteq> TICK_T_MAX" using early_plus(2) [OF sys_inv_node(4) [OF inv p(1)] d] .
  from fill_arrived_inv [OF sys_inv_node(1) [OF inv p(1)] p(2) this]
  obtain c where c: "fill_arrived (cache_get_cycle st p) b j d (cache_of st p) = Some c"
    "reg_step (from_of st p) (Pf p) (cache_of st p) c {#} {#} (waits (cache_of st p) - {(b, unat j)})" by blast
  have "cwaits p c + {#(p, b, unat j)#} = cwaits p (cache_of st p) + {#}" using c(2) p(2) cwaits_remove by (simp add: reg_step_def)
  from reg_step_sys [OF inv p(1) c(2) this, where X' = "add_mset (p, b, unat j) X"] c(1) show ?thesis
    by (intro exI [of _ c]) (simp add: deliver_def on_cache_def)
qed

lemma in_flight_toks:
  assumes "k < length (nodes st)"
  shows "toks (cache_of st k) \<subseteq># in_flight st"
proof -
  have "(\<Sum>j < length (nodes st). toks (cache_of st j)) = toks (cache_of st k) + (\<Sum>j \<in> {..<length (nodes st)} - {k}. toks (cache_of st j))"
    using assms by (simp add: sum.remove)
  then show ?thesis by (simp add: in_flight_def add.assoc)
qed

lemma flight_waits:
  assumes "sys_inv Pf t {#} st" and "ptok e \<subseteq># in_flight st" and "prev_cp e = Some p"
  shows "(p, unat (MSHR_bank e), unat (MSHR_index e)) \<in># all_waits st"
  using assms by (simp add: sys_inv_def ptok_def tok_def)

lemma penalty_small: "0 \<le> sint (ucast (x :: cint) :: tick_t)" "sint (ucast (x :: cint) :: tick_t) < 2 ^ 33"
proof -
  have "sint (ucast x :: tick_t) = signed_take_bit 63 (uint x)" by (simp add: sint_uint unsigned_ucast_eq signed_take_bit_take_bit)
  also have "\<dots> = uint x" using uint_lt2p [of x] by (intro signed_take_bit_int_eq_self order.trans [OF _ uint_ge_0]) simp_all
  finally have e: "sint (ucast x :: tick_t) = uint x" .
  show "0 \<le> sint (ucast x :: tick_t)" "sint (ucast x :: tick_t) < 2 ^ 33" unfolding e using uint_lt2p [of x] by simp_all
qed

lemma count_sharing_ok:
  assumes "ca_core e \<noteq> None"
  shows "\<exists>d ctl'. count_sharing e st ctl = Some (d, ctl') \<and> 0 \<le> sint d \<and> sint d < 2 ^ 33"
  using assms penalty_small by (cases ctl) (auto simp: count_sharing_def split: option.splits)

lemma upd_node_step:
  assumes inv: "sys_inv Pf t X st" and k: "k < length (nodes st)" and sh: "nshape (f (nodes st ! k)) = nshape (nodes st ! k)"
    and n: "node_inv (from_of st k) (Pf k) (f (nodes st ! k))" and q: "quiet (cache_of st k) (base (f (nodes st ! k)))"
  shows "sys_inv Pf t X (upd_node k f st) \<and> same st (upd_node k f st)"
  using node_quiet [OF inv k sh n q] by (simp add: upd_node_def upd_def)

lemma upd_node_frame [simp]:
  "MC (upd_node k f st) = MC st" "vmem (upd_node k f st) = vmem st" "fsb (upd_node k f st) = fsb st"
  "length (nodes (upd_node k f st)) = length (nodes st)" "j \<noteq> k \<Longrightarrow> nodes (upd_node k f st) ! j = nodes st ! j"
  "k < length (nodes st) \<Longrightarrow> nodes (upd_node k f st) ! k = f (nodes st ! k)"
  by (simp_all add: upd_node_def upd_def)

lemma send_response_inv:
  assumes inv: "sys_inv Pf t {#} st" and k: "k < length (nodes st)" and prev: "\<And>p. prev_cp e = Some p \<Longrightarrow> from_of st k p"
    and fl: "ptok e \<subseteq># in_flight st" and core: "ca_core e \<noteq> None"
  shows "\<exists>st'. send_response_downstream k e st = Some st' \<and> sys_inv Pf t (ptok e) st' \<and> same st st' \<and> cache_of st' k = cache_of st k"
proof (cases "prev_cp e")
  case None
  then show ?thesis using inv by (simp add: send_response_downstream_def ptok_def)
next
  case (Some p)
  then have p: "p < length (nodes st)" "next_level (nodes st ! p) = Some k" using prev by (auto simp: from_of_def)
  then obtain b where b: "next_bus (nodes st ! p) = Some b" "p \<noteq> k"
    using sys_inv_node(3) [OF inv p(1)] by (auto simp: link_ok_def Let_def split: option.splits)
  obtain d ctl where d: "count_sharing e st (controller (nodes st ! k)) = Some (d, ctl)" "0 \<le> sint d" "sint d < 2 ^ 33"
    using count_sharing_ok [OF core] by blast
  define s1 where "s1 = upd_node k (\<lambda>n. n\<lparr>controller := ctl\<rparr>) st"
  have "node_inv (from_of st k) (Pf k) ((nodes st ! k)\<lparr>controller := ctl\<rparr>)"
    using sys_inv_node(1,2) [OF inv k] by (simp add: node_inv_def pf_ok_def pff_inv_def cache_of_def)
  then have s1: "sys_inv Pf t {#} s1 \<and> same st s1" unfolding s1_def by (intro upd_node_step [OF inv k]) (simp_all add: nshape_def cache_of_def)
  define s2 where "s2 = use_bus b (if ca_cmd e = CACHE_WRITEBACK then 1 else linesize (cache_of st p)) (ca_cmd e = CACHE_PREFETCH) s1"
  have s2: "sys_inv Pf t {#} s2" "same st s2" "cache_of s2 = cache_of st"
    using s1 use_bus_inv same_trans [OF _ use_bus_frame(3)] k by (auto simp: s2_def cache_of_def fun_eq_iff s1_def upd_node_def upd_def nth_list_update)
  have "all_waits s2 = all_waits st" using s2(3) same_facts(1) [OF s2(2)] by (simp add: all_waits_def)
  then have w: "(p, unat (MSHR_bank e), unat (MSHR_index e)) \<in># all_waits s2" using flight_waits [OF inv fl Some] by simp
  obtain c where c: "deliver p (unat (MSHR_bank e)) (MSHR_index e) d s2 = Some (set_cache p c s2)"
    "sys_inv Pf t (add_mset (p, unat (MSHR_bank e), unat (MSHR_index e)) {#}) (set_cache p c s2)" "same s2 (set_cache p c s2)"
    using deliver_inv [OF s2(1) w d(2,3)] by blast
  moreover have "send_response_downstream k e st = Some (set_cache p c s2)"
    using Some d(1) b(1) c(1) by (simp add: send_response_downstream_def s2_def s1_def)
  moreover have "cache_of (set_cache p c s2) k = cache_of st k" using b(2) s2(3) by (metis cache_of_def set_cache_nodes(2))
  ultimately show ?thesis using s2(2) Some by (auto simp: ptok_def tok_def intro: same_trans)
qed

section \<open>The access pipeline\<close>

text \<open>A request at the root of its pipeline.\<close>

definition at_root :: "msys \<Rightarrow> nat \<Rightarrow> nat \<Rightarrow> cache_action_t \<Rightarrow> bool" where
  "at_root st k bank e \<longleftrightarrow> k < length (nodes st) \<and> bank < unat (banks (cache_of st k)) \<and> pipe_num (cache_of st k) ! bank \<noteq> 0 \<and>
     pipe (cache_of st k) ! bank ! 1 = e"

lemma at_root_quiet:
  assumes "at_root st k bank e" and "quiet (cache_of st k) (cache_of st' k)" and "same st st'"
  shows "at_root st' k bank e"
  using assms same_facts(1) [OF assms(3)] cfg_eq(2) [of "cache_of st' k" "cache_of st k"] by (simp add: at_root_def quiet_def)

lemma root_ok:
  assumes inv: "sys_inv Pf t X st" and r: "at_root st k bank e"
  shows "cb e \<noteq> None" "req_ok (from_of st k) (Pf k) (cache_of st k) e" "MSHR_link e = None" "ptok e \<subseteq># in_flight st" "ca_core e \<noteq> None"
proof -
  have k: "k < length (nodes st)" and b: "bank < unat (banks (cache_of st k))" "pipe_num (cache_of st k) ! bank \<noteq> 0" and e: "pipe (cache_of st k) ! bank ! 1 = e"
    using r by (simp_all add: at_root_def)
  note c = sys_inv_node(1) [OF inv k]
  have ok: "pipe_bank_ok (from_of st k) (Pf k) (cache_of st k) bank" using c b by (simp add: cache_inv_def)
  then have "e \<in># entries (pipe (cache_of st k) ! bank) (nat (pipe_num (cache_of st k) ! bank))"
    using b e unfolding in_entries by (intro exI [of _ 1]) (auto simp: pipe_bank_ok_def Let_def)
  then show "cb e \<noteq> None" "req_ok (from_of st k) (Pf k) (cache_of st k) e" "MSHR_link e = None" using ok unfolding pipe_bank_ok_def Let_def by blast+
  then show "ca_core e \<noteq> None" by (simp add: req_ok_def)
  obtain c' where "toks c' + ptok e = toks (cache_of st k)" using pipe_dequeue_inv [OF c b] e by auto
  then have "ptok e \<subseteq># toks (cache_of st k)" by (metis mset_subset_eq_add_right)
  then show "ptok e \<subseteq># in_flight st" using in_flight_toks [OF k] by (rule subset_mset.order_trans)
qed

lemma leave_pipe_inv:
  assumes inv: "sys_inv Pf t (ptok e) st" and r: "at_root st k bank e"
  shows "\<exists>st'. leave_pipe go e k bank st = Some st' \<and> sys_inv Pf t {#} st' \<and> same st st'"
proof -
  have k: "k < length (nodes st)" and b: "bank < unat (banks (cache_of st k))" "pipe_num (cache_of st k) ! bank \<noteq> 0" and e: "pipe (cache_of st k) ! bank ! 1 = e"
    using r by (simp_all add: at_root_def)
  obtain n where n: "train_prefetchers go e (nodes st ! k) = Some n" "pf_ok (Pf k) n" "only_pf (nodes st ! k) n"
    using train_prefetchers_ok [OF sys_inv_node(2) [OF inv k] root_ok(5) [OF inv r]] by blast
  define s1 where "s1 = st\<lparr>nodes := (nodes st)[k := n]\<rparr>"
  have c: "cache_of s1 k = cache_of st k" "k < length (nodes s1)" using n(3) k by (simp_all add: s1_def cache_of_def only_pf_def)
  have s1: "sys_inv Pf t (ptok e) s1" "same st s1"
    using node_quiet [OF inv k, of n] n sys_inv_node(1) [OF inv k] by (auto simp: s1_def only_pf_def node_inv_def cache_of_def)
  obtain c' where c': "pipe_dequeue bank (cache_of s1 k) = Some c'" "cache_inv (from_of s1 k) (Pf k) c'" "only_pipe bank (cache_of s1 k) c'"
    "toks c' + ptok e = toks (cache_of s1 k)"
    using pipe_dequeue_inv [OF sys_inv_node(1) [OF s1(1) c(2)]] b e c(1) by metis
  have "sys_inv Pf t {#} (set_cache k c' s1) \<and> same s1 (set_cache k c' s1)"
    using c'(4) only_pipe_eq(1,15) [OF c'(3)]
    by (intro cache_step [OF s1(1) c(2) c'(2), where A = "{#}" and B = "ptok e" and C = "{#}" and D = "{#}"]) (simp_all add: cwaits_def)
  then show ?thesis using n(1) c'(1) s1(2) by (auto simp: leave_pipe_def on_node_def on_cache_def s1_def [symmetric] intro: same_trans)
qed

lemma call_back_frame [simp]:
  "nodes (call_back v e st) = nodes st" "MC (call_back v e st) = MC st" "same st (call_back v e st)"
  by (simp_all add: call_back_def)

lemma call_back_inv: "sys_inv Pf t X st \<Longrightarrow> sys_inv Pf t X (call_back v e st)"
  by (erule sys_inv_frame) simp_all

lemma set_ok_used:
  assumes "set_ok c s" and "set_cored s"
  shows "set_ok c (upd_line x (\<lambda>l. l\<lparr>prefetch_used := True\<rparr>) s)" "set_cored (upd_line x (\<lambda>l. l\<lparr>prefetch_used := True\<rparr>) s)"
proof -
  let ?s = "upd_line x (\<lambda>l. l\<lparr>prefetch_used := True\<rparr>) s"
  have l: "length (lines ?s) = length (lines s)" by simp
  have b: "is_block ?s b y = is_block s b y" for b y
    by (cases "x < length (lines s)") (auto simp: is_block_def upd_line_def nth_list_update list_update_beyond)
  have "unique ?s" using assms(1) by (simp add: set_ok_def unique_def b)
  moreover have "policy_ok c ?s"
  proof (cases "x < length (lines s)")
    case True
    then show ?thesis using assms(1) by (intro policy_ok_upd_line) (auto simp: set_ok_def)
  next
    case False
    then have "?s = s" by (simp add: upd_line_def list_update_beyond)
    then show ?thesis using assms(1) by (simp add: set_ok_def)
  qed
  ultimately show "set_ok c ?s" using assms(1) by (auto simp: set_ok_def)
  show "set_cored ?s" by (rule set_cored_upd [OF assms(2)]) simp
qed

lemma update_request_stats_ok:
  assumes n: "node_inv from pf n" and l: "line = None \<or> (\<exists>x. line = Some (set_index (base n) a, x))"
  shows "node_inv from pf (update_request_stats core e line hit n)" and "quiet (base n) (base (update_request_stats core e line hit n))"
    and "nshape (update_request_stats core e line hit n) = nshape n"
proof -
  define n' where "n' = update_request_stats core e line hit n"
  have c: "cache_inv from pf (base n)" "pf_ok pf n" using n by (simp_all add: node_inv_def)
  have b: "\<exists>x. base n' = base n \<or> base n' = (base n)\<lparr>blocks := (blocks (base n))[set_index (base n) a :=
      upd_line x (\<lambda>l. l\<lparr>prefetch_used := True\<rparr>) (blocks (base n) ! set_index (base n) a)]\<rparr>"
  proof (cases line)
    case (Some y)
    then obtain x where "y = (set_index (base n) a, x)" using l by auto
    then show ?thesis using Some by (intro exI [of _ x]) (simp add: n'_def update_request_stats_def Let_def)
  qed (simp add: n'_def update_request_stats_def Let_def)
  have i: "cache_inv from pf (base n')" "quiet (base n) (base n')"
    using b only_blocks_inv [OF c(1) set_at(1) [OF c(1), of a] set_ok_used [OF set_at(2,3) [OF c(1), of a]]] c(1) by auto
  have f: "PF_buffer n' = PF_buffer n" "prefetcher n' = prefetcher n" "PFF_num n' = PFF_num n" "PFF_head n' = PFF_head n" "PFF_tail n' = PFF_tail n"
    "PFF_size n' = PFF_size n" "PFF n' = PFF n" "next_level n' = next_level n" "next_bus n' = next_bus n" "sim_cycle n' = sim_cycle n"
    "PF_sample_interval n' = PF_sample_interval n"
    by (auto simp: n'_def update_request_stats_def Let_def split: option.splits prod.splits)
  show "node_inv from pf n'" using i c(2) f by (simp add: node_inv_def pf_ok_def pff_inv_def)
  show "quiet (base n) (base n')" by (rule i(2))
  then show "nshape n' = nshape n" using f by (simp add: nshape_def quiet_def)
qed

end
