(* ===== verification/Memsys_Cycle.thy ===== *)
theory Memsys_Cycle
  imports Memsys_Inv
begin

text \<open>
  Every step of a cycle of the memory hierarchy succeeds and keeps its invariant: the stages of a cache
  (\<^verbatim>\<open>cache_process_*\<close>), the memory controller and the requests of the cores.
\<close>

section \<open>Hits and misses\<close>

lemma can_schedule_ok:
  assumes inv: "sys_inv Pf t X st" and prev: "\<And>p. prev_cp e = Some p \<Longrightarrow> from_of st k p"
  shows "\<exists>ok. can_schedule_downstream st (prev_cp e) = Some ok"
proof (cases "prev_cp e")
  case (Some p)
  then have "p < length (nodes st)" "next_level (nodes st ! p) = Some k" using prev by (auto simp: from_of_def)
  then obtain b where "next_bus (nodes st ! p) = Some b"
    using sys_inv_node(3) [OF inv, of p] by (auto simp: link_ok_def Let_def split: option.splits)
  then show ?thesis using Some by (simp add: can_schedule_downstream_def)
qed (auto simp: can_schedule_downstream_def)

lemma bank_of_block:
  assumes "bank_shift c = addr_shift c"
  shows "GET_MSHR_BANK c (push_bit (unat (addr_shift c)) (drop_bit (unat (addr_shift c)) a)) = GET_MSHR_BANK c a"
proof -
  let ?s = "unat (addr_shift c)"
  have "drop_bit ?s (push_bit ?s (drop_bit ?s a)) = drop_bit ?s a"
    by (rule bit_word_eqI) (auto simp: bit_simps dest: bit_imp_le_length)
  then show ?thesis using assms by (simp add: GET_MSHR_BANK_def)
qed

lemma answer_inv:
  assumes inv: "sys_inv Pf t {#} st" and r: "at_root st k bank e" and line: "line = None \<or> (\<exists>x. line = Some (set_index (cache_of st k) (ca_paddr e), x))"
  shows "\<exists>st'. do { st \<leftarrow> send_response_downstream k e (upd_node k (update_request_stats core e line True) (call_back v e st));
          leave_pipe (\<not> prefetch_on_miss (nodes st ! k)) e k bank st } = Some st' \<and> sys_inv Pf t {#} st' \<and> same st st'"
proof -
  let ?f = "update_request_stats core e line True" and ?s = "call_back v e st"
  define s1 where "s1 = upd_node k ?f ?s"
  have k: "k < length (nodes st)" using r by (simp add: at_root_def)
  have "node_inv (from_of st k) (Pf k) (nodes st ! k)" using sys_inv_node(1,2) [OF inv k] by (simp add: node_inv_def cache_of_def)
  note u = update_request_stats_ok [OF this line [unfolded cache_of_def], of core e True]
  have s1: "sys_inv Pf t {#} s1" "same ?s s1"
    unfolding s1_def using upd_node_step [OF call_back_inv [OF inv], where k = k and f = ?f] u k from_of_same [OF call_back_frame(3)] by (auto simp: cache_of_def)
  have sm: "same st s1" using same_trans [OF call_back_frame(3) s1(2)] .
  have "cache_of s1 k = base (?f (nodes st ! k))" using k by (simp add: s1_def cache_of_def)
  then have q: "quiet (cache_of st k) (cache_of s1 k)" using u(2) by (simp add: cache_of_def)
  note r1 = at_root_quiet [OF r q sm]
  have k1: "k < length (nodes s1)" using r1 by (simp add: at_root_def)
  have prev: "from_of s1 k p" if "prev_cp e = Some p" for p using root_ok(2) [OF s1(1) r1] that by (simp add: req_ok_def)
  obtain s2 where s2: "send_response_downstream k e s1 = Some s2" "sys_inv Pf t (ptok e) s2" "same s1 s2" "cache_of s2 k = cache_of s1 k"
    using send_response_inv [OF s1(1) k1 prev root_ok(4,5) [OF s1(1) r1]] by blast
  have r2: "at_root s2 k bank e" using at_root_quiet [OF r1 _ s2(3)] s2(4) by simp
  from leave_pipe_inv [OF s2(2) r2, of "\<not> prefetch_on_miss (nodes s2 ! k)"] show ?thesis
    using s2(1,3) sm unfolding s1_def by (auto intro: same_trans)
qed

lemma pipe_hit_inv:
  assumes inv: "sys_inv Pf t {#} st" and r: "at_root st k bank e"
  shows "\<exists>st'. pipe_hit v e k bank x st = Some st' \<and> sys_inv Pf t {#} st' \<and> same st st'"
proof -
  let ?c = "cache_of st k"
  have k: "k < length (nodes st)" using r by (simp add: at_root_def)
  note c = sys_inv_node(1) [OF inv k] and q = root_ok(2) [OF inv r]
  obtain ok where ok: "can_schedule_downstream st (prev_cp e) = Some ok"
    using can_schedule_ok [OF inv, of e k] q by (auto simp: req_ok_def)
  define w where "w = (writes (ca_cmd e) \<and> write_policy ?c = WRITE_THROUGH)"
  define l where "l = line0\<lparr>cl_core := ca_core e, tag := drop_bit (unat (addr_shift ?c)) (ca_paddr e), valid := True\<rparr>"
  have "\<exists>c'. (if w then on_cache k (MSHR_WB_insert (cache_get_cycle st k) k l) st else Some st) = Some (set_cache k c' st) \<and>
      cache_inv (from_of st k) (Pf k) c' \<and> quiet ?c c'" if av: "w \<longrightarrow> MSHR_WB_available ?c (ca_paddr e)"
  proof (cases w)
    case True
    have "MSHR_WB_available ?c (push_bit (unat (addr_shift ?c)) (tag l))"
      using av True sys_inv_node(3) [OF inv k] bank_of_block [of ?c "ca_paddr e"] by (simp add: MSHR_WB_available_def l_def link_ok_def Let_def cache_of_def)
    moreover have "\<not> (read_only ?c \<and> write_policy ?c = WRITE_THROUGH)" "cl_core l \<noteq> None" using q True by (auto simp: req_ok_def w_def l_def)
    ultimately obtain c' where "MSHR_WB_insert (cache_get_cycle st k) k l ?c = Some c'" "reg_step (from_of st k) (Pf k) ?c c' {#} {#} (waits ?c)"
      using MSHR_WB_insert_inv [OF c] by blast
    then show ?thesis using True reg_step_quiet by (auto simp: on_cache_def)
  next
    case False
    have "set_cache k ?c st = st" using k by (simp add: set_cache_def upd_node_def upd_def cache_of_def)
    then show ?thesis using False c by (intro exI [of _ ?c]) simp
  qed
  then obtain c' where c': "w \<longrightarrow> MSHR_WB_available ?c (ca_paddr e) \<Longrightarrow>
      (if w then on_cache k (MSHR_WB_insert (cache_get_cycle st k) k l) st else Some st) = Some (set_cache k c' st) \<and>
      cache_inv (from_of st k) (Pf k) c' \<and> quiet ?c c'" by blast
  show ?thesis
  proof (cases "(w \<longrightarrow> MSHR_WB_available ?c (ca_paddr e)) \<and> ok")
    case True
    define s1 where "s1 = set_cache k c' st"
    have s1: "sys_inv Pf t {#} s1" "same st s1" "quiet ?c (cache_of s1 k)" using c' True cache_quiet [OF inv k] k by (auto simp: s1_def)
    have i: "set_index ?c (ca_paddr e) = set_index (cache_of s1 k) (ca_paddr e)"
      using cfg_eq(13,14) [of "cache_of s1 k" ?c] s1(3) by (simp add: set_index_def quiet_def)
    obtain s2 where "do { st \<leftarrow> send_response_downstream k e (upd_node k (update_request_stats (is_LLC_core s1 k e) e
          (Some (set_index ?c (ca_paddr e), x)) True) (call_back v e s1));
          leave_pipe (\<not> prefetch_on_miss (nodes st ! k)) e k bank st } = Some s2" "sys_inv Pf t {#} s2" "same s1 s2"
      using answer_inv [OF s1(1) at_root_quiet [OF r s1(3,2)], of "Some (set_index ?c (ca_paddr e), x)"] unfolding i by blast
    then show ?thesis
      using conjunct1 [OF c' [OF conjunct1 [OF True]]] True ok same_trans [OF s1(2), of s2]
      unfolding pipe_hit_def Let_def w_def [symmetric] l_def [symmetric] s1_def [symmetric] by (auto split: if_splits)
  next
    case False
    then show ?thesis using inv ok by (intro exI [of _ st]) (auto simp: pipe_hit_def Let_def w_def)
  qed
qed

lemma at_root_pipe:
  assumes "at_root st k bank e" and "pipe (cache_of st' k) = pipe (cache_of st k)" and "pipe_num (cache_of st' k) = pipe_num (cache_of st k)" and "same st st'"
  shows "at_root st' k bank e"
  using assms same_facts(1) [OF assms(4)] cfg_eq(2) [OF same_facts(7) [OF assms(4)], of k] by (simp add: at_root_def)

lemma pipe_miss_inv:
  assumes inv: "sys_inv Pf t {#} st" and r: "at_root st k bank e"
  shows "\<exists>st'. pipe_miss e k bank st = Some st' \<and> sys_inv Pf t {#} st' \<and> same st st'"
proof (cases "MSHR_available (cache_of st k) (ca_paddr e)")
  case True
  have k: "k < length (nodes st)" using r by (simp add: at_root_def)
  note q = root_ok [OF inv r]
  obtain c where c: "MSHR_insert (cache_get_cycle st k) e (cache_of st k) = Some c"
    "reg_step (from_of st k) (Pf k) (cache_of st k) c (ptok e) {#} (waits (cache_of st k))"
    using MSHR_insert_inv [OF sys_inv_node(1) [OF inv k] True q(1,3,2)] by blast
  define s1 where "s1 = set_cache k c st"
  have s1: "sys_inv Pf t (ptok e) s1" "same st s1"
    using reg_step_sys [OF inv k c(2), where C = "{#}" and D = "{#}" and X' = "ptok e"] c(2) by (auto simp: s1_def reg_step_def cwaits_def)
  have k1: "k < length (nodes s1)" "cache_of s1 k = c" using k by (simp_all add: s1_def)
  have r1: "at_root s1 k bank e" using at_root_pipe [OF r _ _ s1(2)] k1(2) c(2) strip_mshr_eq(1,2) [of c "cache_of st k"] by (simp add: reg_step_def)
  let ?f = "update_request_stats (is_LLC_core s1 k e) e None False"
  define s2 where "s2 = upd_node k ?f s1"
  have "node_inv (from_of s1 k) (Pf k) (nodes s1 ! k)" using sys_inv_node(1,2) [OF s1(1) k1(1)] by (simp add: node_inv_def cache_of_def)
  note u = update_request_stats_ok [OF this, of None, simplified]
  have s2: "sys_inv Pf t (ptok e) s2" "same s1 s2" "cache_of s2 k = base (?f (nodes s1 ! k))"
    using upd_node_step [OF s1(1) k1(1), of ?f] u k1(1) by (auto simp: s2_def cache_of_def)
  have "quiet (cache_of s1 k) (cache_of s2 k)" using u(2) s2(3) by (simp add: cache_of_def)
  from leave_pipe_inv [OF s2(1) at_root_quiet [OF r1 this s2(2)], of True] show ?thesis
    using True c(1) same_trans [OF s1(2) s2(2)] by (auto simp: pipe_miss_def on_cache_def s1_def [symmetric] s2_def [symmetric] intro: same_trans)
qed (use inv in \<open>auto simp: pipe_miss_def\<close>)

lemma pipe_access_inv:
  assumes inv: "sys_inv Pf t {#} st" and k: "k < length (nodes st)" and b: "bank < unat (banks (cache_of st k))" "pipe_num (cache_of st k) ! bank \<noteq> 0"
  shows "\<exists>st'. pipe_access v k bank st = Some st' \<and> sys_inv Pf t {#} st' \<and> same st st'"
proof -
  define e where "e = pipe (cache_of st k) ! bank ! 1"
  have r: "at_root st k bank e" using k b by (simp add: at_root_def e_def)
  note q = root_ok [OF inv r]
  have "read_only (cache_of st k) \<Longrightarrow> \<not> writes (ca_cmd e)" using q(2) by (simp add: req_ok_def)
  then obtain p c where h: "cache_is_hit (magic_draw v bank) (ca_cmd e) (ca_paddr e) (cache_of st k) = Some (p, c)"
    "cache_inv (from_of st k) (Pf k) c" "quiet (cache_of st k) c"
    using cache_is_hit_inv [OF sys_inv_node(1) [OF inv k]] by blast
  define s1 where "s1 = set_cache k c st"
  have s1: "sys_inv Pf t {#} s1" "same st s1" "cache_of s1 k = c" using cache_quiet [OF inv k h(2,3)] k by (simp_all add: s1_def)
  have r1: "at_root s1 k bank e" using at_root_quiet [OF r _ s1(2)] h(3) s1(3) by simp
  have nb: "\<not> in_pf_buffer (nodes st ! k) e" using sys_inv_node(2) [OF inv k] by (simp add: in_pf_buffer_def pf_ok_def)
  have acc: "pipe_access v k bank st = (if \<not> pipe_exit_time e \<le>s cache_get_cycle st k then Some st
      else case p of Some x \<Rightarrow> pipe_hit v e k bank x s1 | None \<Rightarrow> pipe_miss e k bank s1)"
    unfolding pipe_access_def Let_def e_def [symmetric] using q(1) nb h(1)
    by (cases p) (auto simp: check_MSHR_def check_array_def s1_def)
  show ?thesis
    unfolding acc using inv pipe_hit_inv [OF s1(1) r1, of v] pipe_miss_inv [OF s1(1) r1] same_trans [OF s1(2)]
    by (auto split: option.split)
qed

lemma pipe_banks:
  assumes "sys_inv Pf t X st" and "k < length (nodes st)" and "same st st'"
    and "bank \<in> set (map (\<lambda>b. unat ((scast (start + of_nat b) :: md_paddr_t) AND bank_mask (cache_of st k))) [0 ..< n])"
  shows "bank < unat (banks (cache_of st' k))"
  using assms bank_mask_less [OF cache_inv_parts(2) [OF sys_inv_node(1) [OF assms(1,2)]]] cfg_eq(2) [OF same_facts(7) [OF assms(3,2)]] by auto

lemma MSHR_banks_order:
  assumes "sys_inv Pf t X st" and "k < length (nodes st)" and "same st st'"
    and "bank \<in> set (bank_order start (MSHR_banks (cache_of st k)) (MSHR_mask (cache_of st k)))"
  shows "bank < unat (MSHR_banks (cache_of st' k))"
  using assms MSHR_mask_less [OF cache_inv_parts(4) [OF sys_inv_node(1) [OF assms(1,2)]]] cfg_eq(7) [OF same_facts(7) [OF assms(3,2)]]
  by (auto simp: bank_order_def)

text \<open>The work flags concern no invariant.\<close>

lemma flags_inv:
  assumes "cache_inv from pf c" and "strip_mshr c' = strip_mshr c" and "MSHR c' = MSHR c" and "MSHR_num c' = MSHR_num c" and "MSHR_WB_num c' = MSHR_WB_num c"
    and "MSHR_fill_num c' = MSHR_fill_num c" and "MSHR_unprocessed_num c' = MSHR_unprocessed_num c" and "MSHR_num_pf c' = MSHR_num_pf c"
  shows "cache_inv from pf c' \<and> quiet c c'"
proof -
  note q = strip_mshr_eq [OF assms(2)] and g = strip_mshr_cfg [OF assms(2)]
  have "mshr_inv c'" using assms mshr_inv_cong [OF g] by (simp add: cache_inv_def)
  then have "cache_inv from pf c'"
    using assms(1) unfolding cache_inv_def banks_ok_def
    by (simp add: q assms(3) reg_ok_cfg [OF g] sets_ok_cong [OF g] pipe_bank_ok_cong [OF g] fill_bank_ok_cong [OF g])
  then show ?thesis using q g by (simp add: quiet_def toks_def waits_def assms(3))
qed

lemma set_flag_inv:
  assumes "sys_inv Pf t X st" and "k < length (nodes st)" and "strip_mshr c = strip_mshr (cache_of st k)" and "MSHR c = MSHR (cache_of st k)"
    and "MSHR_num c = MSHR_num (cache_of st k)" and "MSHR_WB_num c = MSHR_WB_num (cache_of st k)"
    and "MSHR_fill_num c = MSHR_fill_num (cache_of st k)" and "MSHR_unprocessed_num c = MSHR_unprocessed_num (cache_of st k)"
    and "MSHR_num_pf c = MSHR_num_pf (cache_of st k)"
  shows "sys_inv Pf t X (set_cache k c st) \<and> same st (set_cache k c st)"
  using cache_quiet [OF assms(1,2)] flags_inv [OF sys_inv_node(1) [OF assms(1,2)] assms(3-)] by blast

lemma cache_process_pipe_inv:
  assumes inv: "sys_inv Pf t {#} st" and k: "k < length (nodes st)"
  shows "\<exists>st'. cache_process_pipe v k start st = Some st' \<and> sys_inv Pf t {#} st' \<and> same st st'"
proof -
  let ?P = "\<lambda>(found :: bool, s). sys_inv Pf t {#} s \<and> same st s"
  let ?order = "map (\<lambda>b. unat ((scast (start + of_nat b) :: md_paddr_t) AND bank_mask (cache_of st k))) [0 ..< unat (banks (cache_of st k))]"
  let ?f = "\<lambda>bank (found, s). if pipe_num (cache_of s k) ! bank = 0 then Some (found, s) else do { s \<leftarrow> pipe_access v k bank s; Some (True, s) }"
  have "\<exists>s'. fold_opt ?f ?order (False, st) = Some s' \<and> ?P s'"
  proof (rule fold_opt_inv)
    fix bank x assume b: "bank \<in> set ?order" and P: "?P x"
    obtain found s where x: "x = (found, s)" by (cases x)
    with P have s: "sys_inv Pf t {#} s" "same st s" by auto
    have k': "k < length (nodes s)" using same_facts(1) [OF s(2)] k by simp
    show "\<exists>s'. ?f bank x = Some s' \<and> ?P s'"
      using pipe_access_inv [OF s(1) k' pipe_banks [OF inv k s(2) b], of v] s same_trans [OF s(2)] by (fastforce simp: x)
  qed (use inv in simp)
  then obtain found s where s: "fold_opt ?f ?order (False, st) = Some (found, s)" "sys_inv Pf t {#} s" "same st s" by auto
  have "k < length (nodes s)" using same_facts(1) [OF s(3)] k by simp
  from set_flag_inv [OF s(2) this, of "(cache_of s k)\<lparr>check_for_pipe_work := found\<rparr>"] s inv show ?thesis
    by (auto simp: cache_process_pipe_def Let_def intro: same_trans)
qed

section \<open>Fills\<close>

lemma cache_process_fills_inv:
  assumes inv: "sys_inv Pf t {#} st" and k: "k < length (nodes st)"
  shows "\<exists>st'. cache_process_fills v k start st = Some st' \<and> sys_inv Pf t {#} st' \<and> same st st'"
proof -
  let ?P = "\<lambda>(found :: bool, s). sys_inv Pf t {#} s \<and> same st s"
  let ?order = "map (\<lambda>b. unat ((scast (start + of_nat b) :: md_paddr_t) AND bank_mask (cache_of st k))) [0 ..< unat (banks (cache_of st k))]"
  let ?f = "\<lambda>bank (found, s). do { s1 \<leftarrow> on_cache k (cache_process_fill (cache_get_cycle s k) (rand_draw v bank) k bank) s;
      Some (found \<or> fill_num (cache_of s k) ! bank \<noteq> 0, s1) }"
  have "\<exists>s'. fold_opt ?f ?order (False, st) = Some s' \<and> ?P s'"
  proof (rule fold_opt_inv)
    fix bank x assume b: "bank \<in> set ?order" and P: "?P x"
    obtain found s where x: "x = (found, s)" by (cases x)
    with P have s: "sys_inv Pf t {#} s" "same st s" by auto
    have k': "k < length (nodes s)" using same_facts(1) [OF s(2)] k by simp
    obtain c where "cache_process_fill (cache_get_cycle s k) (rand_draw v bank) k bank (cache_of s k) = Some c"
      "cache_inv (from_of s k) (Pf k) c" "quiet (cache_of s k) c"
      using cache_process_fill_inv [OF sys_inv_node(1) [OF s(1) k'] pipe_banks [OF inv k s(2) b]] by blast
    then show "\<exists>s'. ?f bank x = Some s' \<and> ?P s'"
      using cache_quiet [OF s(1) k'] same_trans [OF s(2)] by (auto simp: x on_cache_def)
  qed (use inv in simp)
  then obtain found s where s: "fold_opt ?f ?order (False, st) = Some (found, s)" "sys_inv Pf t {#} s" "same st s" by auto
  have "k < length (nodes s)" using same_facts(1) [OF s(3)] k by simp
  from set_flag_inv [OF s(2) this, of "(cache_of s k)\<lparr>check_for_fill_work := found\<rparr>"] s inv show ?thesis
    by (auto simp: cache_process_fills_def Let_def intro: same_trans)
qed

lemma filter_verdict_ok:
  assumes "cache_inv from pf c"
  shows "\<exists>ins flt. filter_verdict cycle e c = Some (ins, flt) \<and> map_option reset_interval flt = map_option reset_interval (PF_filter c)"
proof (cases "PF_filter c")
  case (Some p)
  then show ?thesis
    using filter_lookup_ok [OF filter_interval [OF assms Some], of "sint cycle" "drop_bit (unat (addr_shift c)) (ca_paddr e)"]
    by (auto simp: filter_verdict_def)
qed (auto simp: filter_verdict_def)

lemma accept_fill_ok:
  assumes n: "node_inv from pf n" and core: "ca_core e \<noteq> None" and room: "cache_fillable (base n) (ca_paddr e)" and t: "early cycle"
  shows "\<exists>n'. accept_fill cycle e n = Some n' \<and> node_inv from pf n' \<and> quiet (base n) (base n') \<and> MSHR (base n') = MSHR (base n) \<and> nshape n' = nshape n"
proof (cases "MSHR_linked e")
  case False
  have c: "cache_inv from pf (base n)" "pf_ok pf n" "PF_buffer n = []" using n by (auto simp: node_inv_def pf_ok_def)
  have k: "node_inv from pf (n\<lparr>base := c'\<rparr>) \<and> nshape (n\<lparr>base := c'\<rparr>) = nshape n" if "cache_inv from pf c'" "quiet (base n) c'" for c'
    using that c(2) by (simp add: node_inv_def nshape_def pf_ok_def pff_inv_def quiet_def)
  from filter_verdict_ok [OF c(1)] obtain ins flt where fv: "filter_verdict cycle e (base n) = Some (ins, flt)"
    "map_option reset_interval flt = map_option reset_interval (PF_filter (base n))" by blast
  define c1 where "c1 = (base n)\<lparr>PF_filter := flt\<rparr>"
  have c1: "cache_inv from pf c1" "quiet (base n) c1" "MSHR c1 = MSHR (base n)" using only_filter_inv [OF c(1) fv(2)] by (simp_all add: c1_def)
  have "cache_fillable c1 (ca_paddr e)" using room by (simp add: c1_def cache_fillable_def GET_BANK_def)
  from cache_fill_inv [OF c1(1) this core t] obtain c2 where c2: "cache_fill cycle (ca_cmd e) (ca_paddr e) (ca_core e) c1 = Some c2"
    "cache_inv from pf c2" "quiet c1 c2" "MSHR c2 = MSHR c1" by blast
  have "accept_fill cycle e n = Some (n\<lparr>base := if fills_array c1 (ca_cmd e) \<and> ins then c2 else c1\<rparr>)"
    using False c(3) c2(1) unfolding accept_fill_def Let_def by (simp add: fv(1) c1_def [symmetric])
  then show ?thesis using k [of c1] k [of c2] c1 c2 quiet_trans [OF c1(2) c2(3)] by auto
qed (use n in \<open>simp add: accept_fill_def\<close>)

lemma fill_bank_inv:
  assumes inv: "sys_inv Pf t {#} st" and k: "k < length (nodes st)" and b: "bank < unat (MSHR_banks (cache_of st k))"
  shows "\<exists>f st'. fill_bank v k bank (found, st) = Some (f, st') \<and> sys_inv Pf t {#} st' \<and> same st st'"
proof -
  let ?c = "cache_of st k" and ?t = "cache_get_cycle st k"
  note c = sys_inv_node(1) [OF inv k] and l = reg_in_range [OF sys_inv_node(1) [OF inv k] b]
  show ?thesis
  proof (cases "MSHR_oldest (fill_ready ?t ?c) (MSHR ?c ! bank)")
    case None
    then show ?thesis using inv by (auto simp: fill_bank_def Let_def)
  next
    case (Some i)
    define e where "e = MSHR ?c ! bank ! i"
    have i: "i < unat (MSHR_size ?c)" and rd: "fill_ready ?t ?c e" using MSHR_oldest_Some [OF Some] l by (simp_all add: e_def)
    then have o: "occ e" "is_miss e" "when_returned e \<noteq> TICK_T_MAX"
      using early_less(1) [OF sys_inv_node(4) [OF inv k]] by (cases "mtype e"; auto simp: fill_ready_def kinds word_sle_eq)+
    have rq: "req_ok (from_of st k) (Pf k) ?c e" "ca_core e \<noteq> None" using reg_entry(1) [OF c b i] o by (auto simp: reg_ok_def e_def)
    obtain ok where ok: "can_schedule_downstream st (prev_cp e) = Some ok" using can_schedule_ok [OF inv, of e k] rq by (auto simp: req_ok_def)
    have "node_inv (from_of st k) (Pf k) (nodes st ! k)" using c sys_inv_node(2) [OF inv k] by (simp add: node_inv_def cache_of_def)
    from accept_fill_ok [OF this rq(2) _ sys_inv_node(4) [OF inv k]] rd obtain n where n: "accept_fill ?t e (nodes st ! k) = Some n"
      "node_inv (from_of st k) (Pf k) n" "quiet ?c (base n)" "MSHR (base n) = MSHR ?c" "nshape n = nshape (nodes st ! k)" by (auto simp: fill_ready_def cache_of_def)
    define s1 where "s1 = call_back v e (st\<lparr>nodes := (nodes st)[k := n]\<rparr>)"
    have s1: "sys_inv Pf t {#} s1" "same st s1" "cache_of s1 k = base n" "k < length (nodes s1)"
      using node_quiet [OF inv k n(5,2,3)] call_back_inv same_trans [OF _ call_back_frame(3)] k by (auto simp: s1_def cache_of_def)
    have "bank < unat (MSHR_banks (base n))" "i < unat (MSHR_size (base n))" using n(3) b i cfg_eq(7,9) [of "base n" ?c] by (simp_all add: quiet_def)
    note at = this
    have e1: "MSHR (base n) ! bank ! i = e" using n(4) by (simp add: e_def)
    note de = MSHR_deallocate_inv [OF sys_inv_node(1) [OF s1(1,4), unfolded s1(3)] at, unfolded e1, OF o(1,3)]
    then have "mtok e \<subseteq># toks (base n)" unfolding reg_step_def by (metis add.right_neutral mset_subset_eq_add_right)
    then have fl: "ptok e \<subseteq># in_flight s1" using in_flight_toks [OF s1(4)] o(2) s1(3) by (auto simp: mtok_def intro: subset_mset.order_trans)
    have prev: "from_of s1 k p" if "prev_cp e = Some p" for p using rq(1) that from_of_same [OF s1(2)] by (simp add: req_ok_def)
    obtain s2 where s2: "send_response_downstream k e s1 = Some s2" "sys_inv Pf t (ptok e) s2" "same s1 s2" "cache_of s2 k = cache_of s1 k"
      using send_response_inv [OF s1(1,4) prev fl rq(2)] by blast
    have k2: "k < length (nodes s2)" using same_facts(1) [OF s2(3)] s1(4) by simp
    from de from_of_same [OF s2(3)] obtain c' where c': "MSHR_deallocate (ca_paddr e) i (cache_of s2 k) = Some c'"
      "reg_step (from_of s2 k) (Pf k) (cache_of s2 k) c' {#} (mtok e) (waits (cache_of s2 k))" using s2(4) s1(3) by auto
    have "sys_inv Pf t {#} (set_cache k c' s2) \<and> same s2 (set_cache k c' s2)"
      using c'(2) o(2) by (intro reg_step_sys [OF s2(2) k2 c'(2), where C = "{#}" and D = "{#}"]) (simp_all add: reg_step_def cwaits_def mtok_def)
    then show ?thesis
      using Some n(1) ok inv c'(1) s2(1) same_trans [OF same_trans [OF s1(2) s2(3)]]
      by (auto simp: fill_bank_def Let_def e_def [symmetric] on_node_def on_cache_def s1_def)
  qed
qed

lemma cache_process_MSHR_fill_inv:
  assumes inv: "sys_inv Pf t {#} st" and k: "k < length (nodes st)"
  shows "\<exists>st'. cache_process_MSHR_fill v k start st = Some st' \<and> sys_inv Pf t {#} st' \<and> same st st'"
proof -
  let ?P = "\<lambda>(found :: bool, s). sys_inv Pf t {#} s \<and> same st s"
  let ?order = "bank_order start (MSHR_banks (cache_of st k)) (MSHR_mask (cache_of st k))"
  have "\<exists>s'. fold_opt (fill_bank v k) ?order (False, st) = Some s' \<and> ?P s'"
  proof (rule fold_opt_inv)
    fix bank x assume b: "bank \<in> set ?order" and P: "?P x"
    obtain found s where x: "x = (found, s)" by (cases x)
    with P have s: "sys_inv Pf t {#} s" "same st s" by auto
    have k': "k < length (nodes s)" using same_facts(1) [OF s(2)] k by simp
    show "\<exists>s'. fill_bank v k bank x = Some s' \<and> ?P s'"
      using fill_bank_inv [OF s(1) k' MSHR_banks_order [OF inv k s(2) b], of v found] same_trans [OF s(2)] by (auto simp: x)
  qed (use inv in simp)
  then obtain found s where s: "fold_opt (fill_bank v k) ?order (False, st) = Some (found, s)" "sys_inv Pf t {#} s" "same st s" by auto
  have "k < length (nodes s)" using same_facts(1) [OF s(3)] k by simp
  from set_flag_inv [OF s(2) this, of "(cache_of s k)\<lparr>check_for_MSHR_fill_work := found\<rparr>"] s inv show ?thesis
    by (auto simp: cache_process_MSHR_fill_def Let_def intro: same_trans)
qed

section \<open>Requests to the next level\<close>

text \<open>A register whose request has not been sent.\<close>

definition to_send :: "msys \<Rightarrow> nat \<Rightarrow> nat \<Rightarrow> nat \<Rightarrow> bool" where
  "to_send st k bank i \<longleftrightarrow> k < length (nodes st) \<and> bank < unat (MSHR_banks (cache_of st k)) \<and> i < unat (MSHR_size (cache_of st k)) \<and>
     occ (MSHR (cache_of st k) ! bank ! i) \<and> when_started (MSHR (cache_of st k) ! bank ! i) = TICK_T_MAX"

text \<open>The register marked as sent, with its count of requests to send.\<close>

definition mark_sent :: "tick_t \<Rightarrow> nat \<Rightarrow> nat \<Rightarrow> cache_t \<Rightarrow> cache_t" where
  "mark_sent cycle b i c = (mark_started cycle b i c)\<lparr>MSHR_unprocessed_num :=
     (MSHR_unprocessed_num c)[b := MSHR_unprocessed_num c ! b - of_bool (unsent (MSHR c ! b ! i))]\<rparr>"

lemma small_index:
  assumes inv: "sys_inv Pf t X st" and s: "to_send st k bank i"
  shows "unat (of_nat bank :: cint) = bank" "unat (of_nat i :: cint) = i" "(bank, i) \<notin> waits (cache_of st k)"
proof -
  have "unat (MSHR_size (cache_of st k)) < 2 ^ 32" using unsigned_less [of "MSHR_size (cache_of st k)"] by simp
  moreover have k: "k < length (nodes st)" using s by (simp add: to_send_def)
  ultimately have "bank < 2 ^ 31" "i < 2 ^ 32"
    using s cache_inv_parts(4) [OF sys_inv_node(1) [OF inv k]] by (auto simp: to_send_def static_ok_def Let_def)
  then show "unat (of_nat bank :: cint) = bank" "unat (of_nat i :: cint) = i" by (simp_all add: unsigned_of_nat take_bit_nat_eq_self)
  show "(bank, i) \<notin> waits (cache_of st k)" using s by (simp add: to_send_def waits_def waiting_def)
qed

lemma get_cycle_same: "same st s \<Longrightarrow> k < length (nodes st) \<Longrightarrow> cache_get_cycle s k = cache_get_cycle st k"
  using same_facts [of st s] by (simp add: cache_get_cycle_def)

lemma mark_sent_sys:
  assumes inv: "sys_inv Pf t {#(k, bank, i)#} s" and ts: "to_send s k bank i"
  shows "sys_inv Pf t {#} (set_cache k (mark_sent (cache_get_cycle s k) bank i (cache_of s k)) s) \<and>
    same s (set_cache k (mark_sent (cache_get_cycle s k) bank i (cache_of s k)) s)"
proof -
  let ?c = "cache_of s k"
  have k: "k < length (nodes s)" using ts by (simp add: to_send_def)
  have m: "reg_step (from_of s k) (Pf k) ?c (mark_sent (cache_get_cycle s k) bank i ?c) {#} {#} (insert (bank, i) (waits ?c))"
    unfolding mark_sent_def using ts by (intro mark_started_inv [OF sys_inv_node(1) [OF inv k] _ _ _ _ early_less(2) [OF sys_inv_node(4) [OF inv k]] refl]) (auto simp: to_send_def)
  then have "cwaits k (mark_sent (cache_get_cycle s k) bank i ?c) + {#} = cwaits k ?c + {#(k, bank, i)#}"
    using cwaits_insert [OF _ small_index(3) [OF inv ts]] by (simp add: reg_step_def)
  from reg_step_sys [OF inv k m this, where X' = "{#}"] show ?thesis by simp
qed

lemma up_request_ok:
  assumes inv: "sys_inv Pf t X st" and ts: "to_send st k bank i" and n: "next_level (nodes st ! k) = Some n"
  shows "rq_ok (from_of st n) (Pf n) (cache_of st n) (up_request k bank i (MSHR (cache_of st k) ! bank ! i)) (ca_paddr (MSHR (cache_of st k) ! bank ! i))"
    and "rtok (up_request k bank i (MSHR (cache_of st k) ! bank ! i)) = {#(k, bank, i)#}" and "n < length (nodes st)" and "n \<noteq> k"
    and "ca_core (MSHR (cache_of st k) ! bank ! i) \<noteq> None"
proof -
  let ?c = "cache_of st k"
  let ?e = "MSHR ?c ! bank ! i"
  have k: "k < length (nodes st)" and b: "bank < unat (MSHR_banks ?c)" and i: "i < unat (MSHR_size ?c)" and o: "occ ?e" using ts by (simp_all add: to_send_def)
  have l: "n < length (nodes st)" "n \<noteq> k" "read_only (cache_of st n) \<Longrightarrow> read_only ?c \<and> write_policy ?c = WRITE_THROUGH"
    "Pf k \<Longrightarrow> Pf n \<and> GET_MSHR_BANK (cache_of st n) = GET_MSHR_BANK ?c"
    using sys_inv_node(3) [OF inv k] n by (simp_all add: link_ok_def Let_def cache_of_def)
  note r = reg_entry [OF sys_inv_node(1) [OF inv k] b i]
  have e: "ca_core ?e \<noteq> None" "is_miss ?e \<Longrightarrow> req_ok (from_of st k) (Pf k) ?c ?e" "is_wb ?e \<Longrightarrow> \<not> (read_only ?c \<and> write_policy ?c = WRITE_THROUGH)"
    "is_wb ?e \<Longrightarrow> ca_cmd ?e = CACHE_WRITEBACK" "GET_MSHR_BANK ?c (ca_paddr ?e) = bank"
    using r o by (auto simp: reg_ok_def entry_ok_def is_wb_def)
  have kind: "is_miss ?e \<or> is_wb ?e" using o by (cases "mtype ?e") (auto simp: kinds)
  show "rtok (up_request k bank i ?e) = {#(k, bank, i)#}" using small_index(1,2) [OF inv ts] by (simp add: rtok_def up_request_def)
  have "read_only (cache_of st n) \<longrightarrow> \<not> writes (ca_cmd ?e)" using kind l(3) e(2,3) by (auto simp: req_ok_def)
  moreover have "ca_cmd ?e = CACHE_PREFETCH \<longrightarrow> Pf n \<and> unat (of_nat bank :: cint) = GET_MSHR_BANK (cache_of st n) (ca_paddr ?e)"
    using kind e(2,4,5) l(4) small_index(1) [OF inv ts] by (auto simp: req_ok_def)
  ultimately show "rq_ok (from_of st n) (Pf n) (cache_of st n) (up_request k bank i ?e) (ca_paddr ?e)"
    using e(1) o k n by (simp add: rq_ok_def up_request_def from_of_def occ_def)
  show "n < length (nodes st)" "n \<noteq> k" "ca_core ?e \<noteq> None" using l e by simp_all
qed

lemma note_writer_ok:
  assumes "ca_core e \<noteq> None"
  shows "\<exists>w. note_writer ctl e st = Some (st\<lparr>writers := w\<rparr>)"
proof -
  have "\<exists>w. st = st\<lparr>writers := w\<rparr>" by (rule exI [of _ "writers st"]) simp
  then show ?thesis using assms unfolding note_writer_def by (cases ctl) auto
qed

lemma send_to_cache_inv:
  assumes inv: "sys_inv Pf t {#} st" and ts: "to_send st k bank i" and n: "next_level (nodes st ! k) = Some n"
  shows "send_to_cache n k bank i st = Some (False, st) \<or>
    (\<exists>s. send_to_cache n k bank i st = Some (True, s) \<and> sys_inv Pf t {#(k, bank, i)#} s \<and> same st s \<and> cache_of s k = cache_of st k)"
proof -
  define e where "e = MSHR (cache_of st k) ! bank ! i"
  note u = up_request_ok [OF inv ts n, folded e_def]
  have k: "k < length (nodes st)" using ts by (simp add: to_send_def)
  have tr: "v2p_translate DO_NOT_TRANSLATE a m = Inr a" for a m by (simp add: v2p_translate_def)
  have nb: "\<exists>b. next_bus (nodes st ! k) = Some b" using sys_inv_node(3) [OF inv k] n by (auto simp: link_ok_def Let_def split: option.splits)
  show ?thesis
  proof (cases "pipe_num (cache_of st n) ! GET_BANK (cache_of st n) (ca_paddr e) < sint (latency (cache_of st n))")
    case True
    obtain w where w: "note_writer (controller (nodes st ! k)) e st = Some (st\<lparr>writers := w\<rparr>)" using note_writer_ok [OF u(5)] by blast
    define s1 where "s1 = st\<lparr>writers := w\<rparr>"
    have sm1: "same st s1" by (simp add: s1_def same_def)
    have s1: "sys_inv Pf t {#} s1" "cache_of s1 = cache_of st" "n < length (nodes s1)" "nodes s1 = nodes st" "from_of s1 = from_of st"
      using sys_inv_frame [OF inv _ _ sm1] u(3) by (simp_all add: s1_def cache_of_def fun_eq_iff from_of_def)
    obtain c where c: "cache_enqueue (vmem s1) (cache_get_cycle s1 n) (up_request k bank i e) DO_NOT_TRANSLATE (ca_paddr e) (cache_of s1 n) = Some c"
      "cache_inv (from_of s1 n) (Pf n) c" "only_pipe (GET_BANK (cache_of s1 n) (ca_paddr e)) (cache_of s1 n) c" "toks c = toks (cache_of s1 n) + {#(k, bank, i)#}"
      using cache_enqueue_inv [OF sys_inv_node(1) [OF s1(1,3)] tr _ _ sys_inv_node(4) [OF s1(1,3)], of "ca_paddr e" "up_request k bank i e" "vmem s1"]
        u(1,2) True s1(2,5) by auto
    define s2 where "s2 = set_cache n c s1"
    have s2: "sys_inv Pf t {#(k, bank, i)#} s2" "same s1 s2"
      using cache_step [OF s1(1,3) c(2), where A = "{#(k, bank, i)#}" and B = "{#}" and C = "{#}" and D = "{#}" and X' = "{#(k, bank, i)#}"]
        c(4) only_pipe_eq(1,15) [OF c(3)] by (simp_all add: s2_def cwaits_def)
    have nk: "nodes s2 ! k = nodes st ! k" using u(4) s1(4) by (simp add: s2_def)
    obtain b where b: "next_bus (nodes s2 ! k) = Some b" using nb nk by auto
    let ?s = "use_bus b (up_size e (linesize (cache_of s2 k))) (ca_cmd e = CACHE_PREFETCH) s2"
    have "send_to_cache n k bank i st = Some (True, ?s)"
      using True w c(1) b unfolding send_to_cache_def Let_def e_def [symmetric]
      by (simp add: cache_enqueuable_def tr on_cache_def s1_def [symmetric] s2_def [symmetric])
    moreover have "same st ?s" using same_trans [OF same_trans [OF sm1 s2(2)] use_bus_frame(3)] .
    moreover have "cache_of ?s k = cache_of st k" using nk by (simp add: cache_of_def)
    ultimately show ?thesis using use_bus_inv [OF s2(1)] by blast
  next
    case False
    then show ?thesis by (simp add: send_to_cache_def Let_def e_def [symmetric] cache_enqueuable_def tr)
  qed
qed

section \<open>The memory controller\<close>

lemma MC_step:
  assumes inv: "sys_inv Pf t X st" and m: "mc_inv (uncore_params st) m" and tk: "mctoks m + B = mctoks (MC st) + A" and X: "X + A = X' + B"
  shows "sys_inv Pf t X' (st\<lparr>MC := m\<rparr>) \<and> same st (st\<lparr>MC := m\<rparr>)"
proof -
  let ?st = "st\<lparr>MC := m\<rparr>"
  have s: "same st ?st" by (simp add: same_def)
  let ?S = "\<Sum>k < length (nodes st). toks (cache_of st k)"
  have b: "mctoks (MC st) + ?S = all_waits st + X" using inv by (simp add: sys_inv_def in_flight_def add.commute)
  have "mctoks m + ?S = all_waits st + X'"
    by (rule mset_balance [OF _ _ tk _ b, where w = "{#}" and w' = "{#}" and C = "{#}" and D = "{#}"])
      (use X in \<open>simp_all add: add.commute\<close>)
  then have "in_flight ?st = all_waits ?st + X'" by (simp add: in_flight_def all_waits_def cache_of_def add.commute)
  then show ?thesis using inv s m topo_same [OF s] from_of_same [OF s] by (simp add: sys_inv_def)
qed

lemma mctoks_update:
  assumes "i < length (RQ m)" and "RQ m' = (RQ m)[i := r]"
  shows "mctoks (MC_simple m') + mctok (RQ m ! i) = mctoks (MC_simple m) + mctok r"
  using sum_list_map_update [OF assms(1), of mctok r] assms(2) by simp

lemma MC_simple_enqueue_ok:
  assumes m: "mcs_inv u m" and room: "RQ_num m <s RQ_size m" and l: "0 <s burst_chunks u lsize"
  shows "\<exists>m'. MC_simple_enqueue cycle rq a lsize m = Some m' \<and> mcs_inv u m' \<and> mctoks (MC_simple m') = mctoks (MC_simple m) + rtok rq"
proof -
  have k: "ring_ok (RQ_head m) (RQ_num m) (RQ_tail m) (RQ_size m) (length (RQ m))"
    and v: "\<And>i. i < length (RQ m) \<Longrightarrow> mc_valid (RQ m ! i) = in_ring (RQ_head m) (RQ_num m) (RQ_size m) i" using m by (simp_all add: mcs_inv_def)
  have n: "unat (RQ_num m) < unat (RQ_size m)"
    using room k by (auto simp: word_sless_alt sint_cint ring_ok_def simp del: of_nat_unat split: if_splits)
  note p = ring_push [OF k n]
  let ?r = "mc_action cycle rq a lsize"
  define m' where "m' = m\<lparr>RQ := (RQ m)[unat (RQ_tail m) := ?r], RQ_num := RQ_num m + 1,
                   RQ_tail := modinc (RQ_tail m) (RQ_size m), total_accesses := total_accesses m + 1\<rparr>"
  have free: "\<not> mc_valid (RQ m ! unat (RQ_tail m))" using v p(3,4) by simp
  then have eq: "MC_simple_enqueue cycle rq a lsize m = Some m'" using room by (simp add: MC_simple_enqueue_def m'_def)
  have "mcs_inv u m'"
    using m p l unfolding mcs_inv_def m'_def by (auto simp: nth_list_update mc_action_def intro: list_all_update)
  moreover have "mctoks (MC_simple m') + mctok (RQ m ! unat (RQ_tail m)) = mctoks (MC_simple m) + mctok ?r"
    using mctoks_update [OF p(4), of m' ?r] by (simp add: m'_def)
  then have "mctoks (MC_simple m') = mctoks (MC_simple m) + rtok rq" using free by (simp add: mctok_def mc_action_def rtok_def split: option.split)
  ultimately show ?thesis using eq by blast
qed

text \<open>The ideal controller answers before the register is marked as sent. Together the two steps are quiet.\<close>

lemma answered_at_once:
  assumes inv: "cache_inv from pf c" and b: "b < unat (MSHR_banks c)" and i: "i < unat (MSHR_size c)" and o: "occ (MSHR c ! b ! i)"
    and s: "when_started (MSHR c ! b ! i) = TICK_T_MAX" and t: "early cycle" and j: "unat j = i"
  shows "\<exists>c'. fill_arrived cycle b j 0 c = Some c' \<and> cfg c' = cfg c \<and> MSHR_unprocessed_num c' = MSHR_unprocessed_num c \<and>
    unsent (MSHR c' ! b ! i) = unsent (MSHR c ! b ! i) \<and> cache_inv from pf (mark_sent cycle b i c') \<and> quiet c (mark_sent cycle b i c')"
proof -
  note l = reg_in_range [OF inv b]
  have il: "i < length (MSHR c ! b)" using i l by simp
  let ?c = "mark_sent cycle b i c"
  have m: "reg_step from pf c ?c {#} {#} (insert (b, i) (waits c))"
    unfolding mark_sent_def by (rule mark_started_inv [OF inv b i o s early_less(2) [OF t] refl])
  then have inv': "cache_inv from pf ?c" and w: "(b, unat j) \<in> waits ?c" and st: "strip_mshr ?c = strip_mshr c" by (simp_all add: reg_step_def j)
  from fill_arrived_inv [OF inv' w, of cycle 0] early_less(2) [OF t] obtain c2 where
    c2: "fill_arrived cycle b j 0 ?c = Some c2" "reg_step from pf ?c c2 {#} {#} (waits ?c - {(b, unat j)})" by auto
  have nw: "(b, i) \<notin> waits c" using s by (simp add: waits_def waiting_def)
  define c' where "c' = c\<lparr>check_for_work := True, check_for_MSHR_fill_work := True, check_for_MSHR_WB_work := True,
    MSHR := (MSHR c)[b := (MSHR c ! b)[i := (MSHR c ! b ! i)\<lparr>when_returned := cycle\<rparr>]]\<rparr>"
  define u where "u = (MSHR_unprocessed_num c)[b := MSHR_unprocessed_num c ! b - of_bool (unsent (MSHR c ! b ! i))]"
  have mk: "mark_sent cycle b i c = c\<lparr>MSHR := (MSHR c)[b := (MSHR c ! b)[i := (MSHR c ! b ! i)\<lparr>when_started := cycle\<rparr>]], MSHR_unprocessed_num := u\<rparr>"
    by (simp add: mark_sent_def mark_started_def upd_def u_def)
  have e: "MSHR ?c ! b ! i = (MSHR c ! b ! i)\<lparr>when_started := cycle\<rparr>" using l il by (simp add: mk)
  have ok: "\<not> (sint j < 0 \<or> sint (MSHR_size ?c) \<le> sint j)" "\<not> (MSHR_linked (MSHR ?c ! b ! i) \<or> MSHR_link (MSHR ?c ! b ! i) \<noteq> None)"
    using c2(1) unfolding fill_arrived_def Let_def j by (simp_all split: if_splits)
  have c2e: "c2 = ?c\<lparr>check_for_work := True, check_for_MSHR_fill_work := True, check_for_MSHR_WB_work := True,
      MSHR := (MSHR ?c)[b := (MSHR ?c ! b)[i := (MSHR ?c ! b ! i)\<lparr>when_returned := cycle\<rparr>]]\<rparr>"
    using c2(1) ok o e unfolding fill_arrived_def Let_def j upd_def occ_def by simp
  have fa: "fill_arrived cycle b j 0 c = Some c'"
    using ok o e unfolding fill_arrived_def Let_def j upd_def occ_def c'_def by (simp add: mk)
  have "MSHR c' ! b ! i = (MSHR c ! b ! i)\<lparr>when_returned := cycle\<rparr>" using l il by (simp add: c'_def)
  then have un: "unsent (MSHR c' ! b ! i) = unsent (MSHR c ! b ! i)" by (simp add: kinds)
  have "mark_sent cycle b i c' = c2"
  proof -
    have sw: "x\<lparr>when_returned := cycle, when_started := cycle\<rparr> = x\<lparr>when_started := cycle, when_returned := cycle\<rparr>" for x :: cache_action_t
      by (cases x) simp
    show ?thesis
      unfolding c2e e using un l il by (intro cache_t.equality) (simp_all add: mark_sent_def mark_started_def upd_def c'_def u_def mk sw)
  qed
  moreover have "quiet c c2" "cache_inv from pf c2"
    using c2(2) m nw strip_mshr_eq(1,2) [of c2 ?c] strip_mshr_eq(1,2) [OF st] strip_mshr_cfg [of c2 ?c] strip_mshr_cfg [OF st]
    by (simp_all add: reg_step_def quiet_def j)
  moreover have "cfg c' = cfg c" by (simp add: c'_def cfg_def cache_params.truncate_def)
  moreover have "MSHR_unprocessed_num c' = MSHR_unprocessed_num c" by (simp add: c'_def)
  ultimately show ?thesis using fa un by blast
qed

lemma set_cache_twice: "set_cache k y (set_cache k x s) = set_cache k y s"
  by (simp add: set_cache_def upd_node_def upd_def nth_list_update list_update_beyond split: if_splits) (cases "k < length (nodes s)"; simp add: list_update_beyond)

text \<open>The state after the request has left: it lacks the count of the requests to send.\<close>

definition sent_ok :: "(nat \<Rightarrow> bool) \<Rightarrow> int \<Rightarrow> msys \<Rightarrow> nat \<Rightarrow> nat \<Rightarrow> nat \<Rightarrow> msys \<Rightarrow> bool" where
  "sent_ok Pf t st k bank i st' \<longleftrightarrow> same st st' \<and> MSHR_unprocessed_num (cache_of st' k) = MSHR_unprocessed_num (cache_of st k) \<and>
     sys_inv Pf t {#} (set_cache k ((cache_of st' k)\<lparr>MSHR_unprocessed_num := (MSHR_unprocessed_num (cache_of st k))
       [bank := MSHR_unprocessed_num (cache_of st k) ! bank - of_bool (unsent (MSHR (cache_of st k) ! bank ! i))]\<rparr>) st')"

lemma sent_okI:
  assumes k: "k < length (nodes st)" and s: "same st s" and u: "MSHR_unprocessed_num (cache_of s k) = MSHR_unprocessed_num (cache_of st k)"
    and e: "unsent (MSHR (cache_of s k) ! bank ! i) = unsent (MSHR (cache_of st k) ! bank ! i)"
    and m: "sys_inv Pf t {#} (set_cache k (mark_sent cycle bank i (cache_of s k)) s)" and c: "cache_of s k = c"
  shows "sent_ok Pf t st k bank i (set_cache k (mark_started cycle bank i c) s)"
proof -
  have ks: "k < length (nodes s)" using same_facts(1) [OF s] k by simp
  let ?n = "(nodes s ! k)\<lparr>base := mark_started cycle bank i c\<rparr>"
  have "nshape ?n = nshape (nodes s ! k)" using c by (simp add: nshape_def cache_of_def cfg_def mark_started_def cache_params.truncate_def)
  then have "same s (set_cache k (mark_started cycle bank i c) s)" using same_node [OF ks, of ?n] by (simp add: set_cache_def upd_node_def upd_def)
  moreover have "MSHR_unprocessed_num (mark_started cycle bank i c) = MSHR_unprocessed_num (cache_of st k)" using u c by (simp add: mark_started_def)
  ultimately show ?thesis using m s ks u e c by (auto simp: sent_ok_def set_cache_twice mark_sent_def intro: same_trans)
qed

lemma MC_requests:
  assumes inv: "sys_inv Pf t X st" and ts: "to_send st k bank i"
  shows "k < length (nodes st)" "0 <s burst_chunks (uncore_params st) (linesize (cache_of st k))"
    "rtok (up_request k bank i e) = {#(k, bank, i)#}"
proof -
  show k: "k < length (nodes st)" using ts by (simp add: to_send_def)
  show "0 <s burst_chunks (uncore_params st) (linesize (cache_of st k))" using sys_inv_node(3) [OF inv k] by (simp add: link_ok_def Let_def cache_of_def)
  show "rtok (up_request k bank i e) = {#(k, bank, i)#}" using small_index(1,2) [OF inv ts] by (simp add: rtok_def up_request_def)
qed

lemma send_to_MC_simple:
  assumes inv: "sys_inv Pf t {#} st" and ts: "to_send st k bank i" and mc: "MC st = MC_simple m" and room: "RQ_num m <s RQ_size m"
  shows "\<exists>s. send_to_MC k bank i st = Some (True, s) \<and> same st s \<and>
    sent_ok Pf t st k bank i (set_cache k (mark_started (cache_get_cycle s k) bank i (cache_of s k)) s)"
proof -
  define e where "e = MSHR (cache_of st k) ! bank ! i"
  let ?rq = "up_request k bank i e" and ?n = "linesize (cache_of st k)"
  note r = MC_requests [OF inv ts]
  have "mcs_inv (uncore_params st) m" using inv mc by (simp add: sys_inv_def)
  from MC_simple_enqueue_ok [OF this room r(2), of "uncore_cycle st" ?rq "ca_paddr e"] obtain m' where
    m': "MC_simple_enqueue (uncore_cycle st) ?rq (ca_paddr e) ?n m = Some m'" "mcs_inv (uncore_params st) m'"
      "mctoks (MC_simple m') = mctoks (MC_simple m) + {#(k, bank, i)#}" unfolding r(3) by blast
  define s1 where "s1 = st\<lparr>MC := MC_simple m'\<rparr>"
  have s1: "sys_inv Pf t {#(k, bank, i)#} s1" "same st s1"
    using MC_step [OF inv, of "MC_simple m'" "{#}" "{#(k, bank, i)#}"] m' mc by (simp_all add: s1_def)
  define s2 where "s2 = use_bus (fsb s1) (up_size e (fsb_size s1 ?n)) (ca_cmd e = CACHE_PREFETCH) s1"
  have s2: "sys_inv Pf t {#(k, bank, i)#} s2" "same st s2" "cache_of s2 k = cache_of st k"
    using use_bus_inv [OF s1(1)] same_trans [OF s1(2) use_bus_frame(3)] by (simp_all add: s2_def s1_def cache_of_def)
  have ts2: "to_send s2 k bank i" using ts same_facts(1) [OF s2(2)] s2(3) by (simp add: to_send_def)
  have "sent_ok Pf t st k bank i (set_cache k (mark_started (cache_get_cycle s2 k) bank i (cache_of s2 k)) s2)"
    by (rule sent_okI [OF r(1) s2(2) _ _ conjunct1 [OF mark_sent_sys [OF s2(1) ts2]] refl]) (simp_all add: s2(3))
  moreover have "send_to_MC k bank i st = Some (True, s2)"
    using room mc m'(1) unfolding send_to_MC_def Let_def e_def [symmetric] by (simp add: mc_enqueue_def s1_def [symmetric] s2_def)
  ultimately show ?thesis using s2(2) by blast
qed

lemma send_to_MC_ideal:
  assumes inv: "sys_inv Pf t {#} st" and ts: "to_send st k bank i" and mc: "MC st = MC_ideal n"
  shows "\<exists>s. send_to_MC k bank i st = Some (True, s) \<and> same st s \<and>
    sent_ok Pf t st k bank i (set_cache k (mark_started (cache_get_cycle s k) bank i (cache_of s k)) s)"
proof -
  define e where "e = MSHR (cache_of st k) ! bank ! i"
  let ?n = "linesize (cache_of st k)"
  have k: "k < length (nodes st)" using ts by (simp add: to_send_def)
  note sm = small_index [OF inv ts] and cy = sys_inv_node(4) [OF inv k]
  obtain c where c: "fill_arrived (cache_get_cycle st k) bank (of_nat i) 0 (cache_of st k) = Some c" "cfg c = cfg (cache_of st k)"
    "MSHR_unprocessed_num c = MSHR_unprocessed_num (cache_of st k)" "unsent (MSHR c ! bank ! i) = unsent (MSHR (cache_of st k) ! bank ! i)"
    "cache_inv (from_of st k) (Pf k) (mark_sent (cache_get_cycle st k) bank i c)" "quiet (cache_of st k) (mark_sent (cache_get_cycle st k) bank i c)"
    using answered_at_once [OF sys_inv_node(1) [OF inv k] _ _ _ _ cy sm(2)] ts by (auto simp: to_send_def)
  define s1 where "s1 = set_cache k c st"
  define s2 where "s2 = (use_bus (fsb s1) (fsb_size s1 ?n) (ca_cmd e = CACHE_PREFETCH) s1)\<lparr>MC := MC_ideal (n + 1)\<rparr>"
  define s3 where "s3 = use_bus (fsb s2) (up_size e (fsb_size s2 ?n)) (ca_cmd e = CACHE_PREFETCH) s2"
  have f: "nodes s3 = nodes s1" "MC s3 = MC_ideal (n + 1)" "length (buses s3) = length (buses st)" "LLC s3 = LLC st" "uncore_cycle s3 = uncore_cycle st"
    "uncore_params s3 = uncore_params st" "vmem s3 = vmem st"
    by (simp_all add: s3_def s2_def s1_def use_bus_def set_cache_def upd_node_def)
  have n1: "nodes s1 = (nodes st)[k := (nodes st ! k)\<lparr>base := c\<rparr>]" by (simp add: s1_def set_cache_def upd_node_def upd_def)
  have "nshape ((nodes st ! k)\<lparr>base := c\<rparr>) = nshape (nodes st ! k)" using c(2) by (simp add: nshape_def cache_of_def)
  then have s3: "same st s3" using same_node [OF k] f n1 by (simp add: same_def)
  have c3: "cache_of s3 k = c" using k by (simp add: cache_of_def f n1)
  have "send_to_MC k bank i st = Some (True, s3)"
    using mc c(1) sm(1) unfolding send_to_MC_def Let_def e_def [symmetric]
    by (simp add: mc_enqueue_def MC_ideal_enqueue_def up_request_def deliver_def on_cache_def s1_def [symmetric] s2_def [symmetric] s3_def)
  moreover have "sent_ok Pf t st k bank i (set_cache k (mark_started (cache_get_cycle s3 k) bank i (cache_of s3 k)) s3)"
  proof (rule sent_okI [OF k s3 _ _ _ refl])
    let ?c = "mark_sent (cache_get_cycle st k) bank i c"
    define q where "q = (set_cache k ?c st)\<lparr>MC := MC_ideal (n + 1)\<rparr>"
    have "sys_inv Pf t {#} (set_cache k ?c st)" using cache_quiet [OF inv k c(5,6)] by simp
    from MC_step [OF this, of "MC_ideal (n + 1)" "{#}" "{#}" "{#}"] have q: "sys_inv Pf t {#} q" using mc by (simp add: q_def)
    have nd: "nodes (set_cache k ?c s3) = nodes q" using k by (simp add: q_def set_cache_def upd_node_def upd_def f n1)
    moreover have "same q (set_cache k ?c s3)" unfolding same_def nd using f by (simp add: q_def set_cache_def upd_node_def)
    ultimately show "sys_inv Pf t {#} (set_cache k (mark_sent (cache_get_cycle s3 k) bank i (cache_of s3 k)) s3)"
      using sys_inv_frame [OF q, of "set_cache k ?c s3"] f(2) c3 get_cycle_same [OF s3 k] by (simp add: q_def)
  qed (simp_all add: c3 c)
  ultimately show ?thesis using s3 by blast
qed

lemma send_request_inv:
  assumes inv: "sys_inv Pf t {#} st" and ts: "to_send st k bank i"
  shows "send_request_upstream k bank i st = Some (False, st) \<or>
    (\<exists>s. send_request_upstream k bank i st = Some (True, s) \<and> sent_ok Pf t st k bank i s)"
proof (cases "next_level (nodes st ! k)")
  case (Some n)
  have k: "k < length (nodes st)" using ts by (simp add: to_send_def)
  consider "send_to_cache n k bank i st = Some (False, st)"
    | s where "send_to_cache n k bank i st = Some (True, s)" "sys_inv Pf t {#(k, bank, i)#} s" "same st s" "cache_of s k = cache_of st k"
    using send_to_cache_inv [OF inv ts Some] by blast
  then show ?thesis
  proof cases
    case 1
    then show ?thesis using Some by (simp add: send_request_upstream_def)
  next
    case (2 s)
    have ts2: "to_send s k bank i" using ts same_facts(1) [OF 2(3)] 2(4) by (simp add: to_send_def)
    have "sent_ok Pf t st k bank i (set_cache k (mark_started (cache_get_cycle s k) bank i (cache_of s k)) s)"
      by (rule sent_okI [OF k 2(3) _ _ conjunct1 [OF mark_sent_sys [OF 2(2) ts2]] refl]) (simp_all add: 2(4))
    then show ?thesis using Some 2(1) by (simp add: send_request_upstream_def)
  qed
next
  case None
  show ?thesis
  proof (cases "mc_enqueuable (MC st)")
    case True
    then obtain s where "send_to_MC k bank i st = Some (True, s)"
      "sent_ok Pf t st k bank i (set_cache k (mark_started (cache_get_cycle s k) bank i (cache_of s k)) s)"
      using send_to_MC_ideal [OF inv ts] send_to_MC_simple [OF inv ts] by (cases "MC st") auto
    then show ?thesis using None by (simp add: send_request_upstream_def)
  qed (use None in \<open>simp add: send_request_upstream_def send_to_MC_def Let_def\<close>)
qed

section \<open>Write-backs\<close>

lemma set_cache_id: "set_cache k (cache_of st k) st = st"
  by (simp add: set_cache_def upd_node_def upd_def cache_of_def)

lemma wb_bank_inv:
  assumes inv: "sys_inv Pf t {#} st" and k: "k < length (nodes st)" and b: "bank < unat (MSHR_banks (cache_of st k))"
  shows "\<exists>f st'. wb_bank k bank (found, st) = Some (f, st') \<and> sys_inv Pf t {#} st' \<and> same st st'"
proof (cases "MSHR_oldest wb_ready (MSHR (cache_of st k) ! bank)")
  case None
  then show ?thesis using inv by (auto simp: wb_bank_def)
next
  case (Some i)
  let ?e = "MSHR (cache_of st k) ! bank ! i"
  have i: "i < unat (MSHR_size (cache_of st k))" "wb_ready ?e" using MSHR_oldest_Some [OF Some] reg_in_range [OF sys_inv_node(1) [OF inv k] b] by simp_all
  then have ts: "to_send st k bank i" and u: "\<not> unsent ?e" using k b by (auto simp: to_send_def wb_ready_def kinds)
  have fin: "sys_inv Pf t {#} s \<and> same st s" if "sent_ok Pf t st k bank i s" for s
  proof -
    have "MSHR_unprocessed_num (cache_of s k) = MSHR_unprocessed_num (cache_of st k)" using that by (simp add: sent_ok_def)
    from this [symmetric] have e: "(cache_of s k)\<lparr>MSHR_unprocessed_num := MSHR_unprocessed_num (cache_of st k)\<rparr> = cache_of s k" by (simp only:) simp
    show ?thesis using that u by (simp add: sent_ok_def e set_cache_id)
  qed
  show ?thesis using send_request_inv [OF inv ts] Some fin inv by (auto simp: wb_bank_def)
qed

lemma wb_drop_bank_inv:
  assumes inv: "sys_inv Pf t {#} st" and k: "k < length (nodes st)" and b: "bank < unat (MSHR_banks (cache_of st k))"
  shows "\<exists>f st'. wb_drop_bank k bank (found, st) = Some (f, st') \<and> sys_inv Pf t {#} st' \<and> same st st'"
proof -
  obtain c where "MSHR_WB_drop (cache_get_cycle st k) bank [0 ..< unat (MSHR_size (cache_of st k))] (cache_of st k) = Some c"
    "reg_step (from_of st k) (Pf k) (cache_of st k) c {#} {#} (waits (cache_of st k))"
    using MSHR_WB_drop_inv [OF sys_inv_node(1) [OF inv k] b, of "[0 ..< unat (MSHR_size (cache_of st k))]" "cache_get_cycle st k"]
      early_less(1) [OF sys_inv_node(4) [OF inv k]] by auto
  then show ?thesis using cache_quiet [OF inv k, of c] reg_step_quiet by (auto simp: wb_drop_bank_def on_cache_def)
qed

text \<open>A loop over the banks of registers.\<close>

lemma bank_loop:
  fixes g :: "nat \<Rightarrow> 'a \<times> msys \<Rightarrow> ('a \<times> msys) option"
  assumes inv: "sys_inv Pf t {#} st" and k: "k < length (nodes st)" and s0: "sys_inv Pf t {#} s0" "same st s0"
    and step: "\<And>bank found s. sys_inv Pf t {#} s \<Longrightarrow> same st s \<Longrightarrow> k < length (nodes s) \<Longrightarrow> bank < unat (MSHR_banks (cache_of s k)) \<Longrightarrow>
      \<exists>f s'. g bank (found, s) = Some (f, s') \<and> sys_inv Pf t {#} s' \<and> same s s'"
  shows "\<exists>f s. fold_opt g (bank_order start (MSHR_banks (cache_of st k)) (MSHR_mask (cache_of st k))) (f0, s0) = Some (f, s) \<and> sys_inv Pf t {#} s \<and> same st s"
proof -
  let ?P = "\<lambda>(found :: 'a, s). sys_inv Pf t {#} s \<and> same st s"
  let ?order = "bank_order start (MSHR_banks (cache_of st k)) (MSHR_mask (cache_of st k))"
  have "\<exists>s'. fold_opt g ?order (f0, s0) = Some s' \<and> ?P s'"
  proof (rule fold_opt_inv)
    fix bank x assume b: "bank \<in> set ?order" and P: "?P x"
    obtain found s where x: "x = (found, s)" by (cases x)
    with P have s: "sys_inv Pf t {#} s" "same st s" by auto
    have "k < length (nodes s)" using same_facts(1) [OF s(2)] k by simp
    from step [OF s this MSHR_banks_order [OF inv k s(2) b], of found] obtain f s' where
      "g bank (found, s) = Some (f, s')" "sys_inv Pf t {#} s'" "same s s'" by blast
    then show "\<exists>s'. g bank x = Some s' \<and> ?P s'" using same_trans [OF s(2)] by (intro exI [of _ "(f, s')"]) (simp add: x)
  qed (use s0 in simp)
  then show ?thesis by auto
qed

lemma cache_process_MSHR_WB_inv:
  assumes inv: "sys_inv Pf t {#} st" and k: "k < length (nodes st)"
  shows "\<exists>st'. cache_process_MSHR_WB k start st = Some st' \<and> sys_inv Pf t {#} st' \<and> same st st'"
proof -
  let ?order = "bank_order start (MSHR_banks (cache_of st k)) (MSHR_mask (cache_of st k))"
  obtain f1 s1 where s1: "(if can_schedule_upstream st k then fold_opt (wb_bank k) ?order (False, st) else Some (True, st)) = Some (f1, s1)"
    "sys_inv Pf t {#} s1" "same st s1"
    using bank_loop [OF inv k inv same_refl, of "wb_bank k" start False] wb_bank_inv inv by (cases "can_schedule_upstream st k") auto
  obtain f2 s2 where s2: "fold_opt (wb_drop_bank k) ?order (f1, s1) = Some (f2, s2)" "sys_inv Pf t {#} s2" "same st s2"
    using bank_loop [OF inv k s1(2,3), of "wb_drop_bank k" start f1] wb_drop_bank_inv by auto
  have "k < length (nodes s2)" using same_facts(1) [OF s2(3)] k by simp
  from set_flag_inv [OF s2(2) this, of "(cache_of s2 k)\<lparr>check_for_MSHR_WB_work := f2\<rparr>"] s1(1) s2 inv show ?thesis
    by (auto simp: cache_process_MSHR_WB_def Let_def intro: same_trans)
qed

section \<open>Misses\<close>

lemma cnt_map: "(\<And>e. P (f e) = P e) \<Longrightarrow> cnt P (map f es) = cnt P es"
  by (simp add: cnt_def filter_map comp_def)

lemma notified_inv:
  assumes inv: "cache_inv from pf c" and b: "b < unat (MSHR_banks c)"
    and c': "c' = c\<lparr>MSHR := (MSHR c)[b := map (\<lambda>e. if P e then e\<lparr>miss_cb_invoked := True\<rparr> else e) (MSHR c ! b)]\<rparr>"
  shows "cache_inv from pf c' \<and> quiet c c'"
proof -
  define f :: "cache_action_t \<Rightarrow> cache_action_t" where "f = (\<lambda>e. if P e then e\<lparr>miss_cb_invoked := True\<rparr> else e)"
  have k: "is_miss (f e) = is_miss e" "is_wb (f e) = is_wb e" "unsent (f e) = unsent e" "is_pf (f e) = is_pf e" "mtok (f e) = mtok e"
    "waiting (f e) = waiting e" "entry_ok gb b (f e) = entry_ok gb b e" "reg_ok from pf c (f e) = reg_ok from pf c e" for e gb
    by (simp_all add: f_def kinds mtok_def ptok_def tok_def waiting_def entry_ok_def reg_ok_def req_ok_def)
  have bl: "b < length (MSHR c)" using reg_in_range [OF inv b] by simp
  have q: "strip_mshr c' = strip_mshr c" by (simp add: c')
  note g = strip_mshr_cfg [OF q] and sq = strip_mshr_eq [OF q]
  have m: "MSHR c' ! b' = (if b' = b then map f (MSHR c ! b) else MSHR c ! b')" for b' using bl by (simp add: c' f_def)
  have n: "length (MSHR c') = length (MSHR c)" "MSHR_num c' = MSHR_num c" "MSHR_WB_num c' = MSHR_WB_num c" "MSHR_fill_num c' = MSHR_fill_num c"
    "MSHR_unprocessed_num c' = MSHR_unprocessed_num c" "MSHR_num_pf c' = MSHR_num_pf c" by (simp_all add: c')
  have "bank_ok c' b'" if "b' < unat (MSHR_banks c)" for b'
    using that inv by (simp add: cache_inv_def mshr_inv_def bank_ok_def Let_def m n cfg_eq [OF g] cnt_map k list.pred_map comp_def)
  then have "mshr_inv c'" using inv by (simp add: cache_inv_def mshr_inv_def static_ok_def Let_def n cfg_eq [OF g])
  moreover have "list_all (reg_ok from pf c) (MSHR c' ! b')" if "b' < unat (MSHR_banks c)" for b'
    using that inv by (simp add: cache_inv_def m list.pred_map comp_def k)
  ultimately have "cache_inv from pf c'"
    using inv unfolding cache_inv_def banks_ok_def
    by (simp add: sq reg_ok_cfg [OF g] sets_ok_cong [OF g] pipe_bank_ok_cong [OF g] fill_bank_ok_cong [OF g])
  moreover have "toks c' = toks c"
  proof -
    have "sum_list (map mtok (MSHR c' ! b')) = sum_list (map mtok (MSHR c ! b'))" for b' by (simp add: m k comp_def)
    then show ?thesis by (simp add: toks_def sq n)
  qed
  moreover have "waits c' = waits c" unfolding waits_def n(1) by (auto simp: m k split: if_splits)
  ultimately show ?thesis using g sq by (simp add: quiet_def)
qed

lemma notify_TLB_waits_inv:
  assumes inv: "sys_inv Pf t {#} st" and k: "k < length (nodes st)" and b: "bank < unat (MSHR_banks (cache_of st k))"
  shows "sys_inv Pf t {#} (notify_TLB_waits v k bank st) \<and> same st (notify_TLB_waits v k bank st)"
    and "i < unat (MSHR_size (cache_of st k)) \<Longrightarrow> unsent (MSHR (cache_of (notify_TLB_waits v k bank st) k) ! bank ! i) = unsent (MSHR (cache_of st k) ! bank ! i)"
proof -
  let ?c = "cache_of st k"
  define c where "c = ?c\<lparr>MSHR := (MSHR ?c)[bank := map (\<lambda>e. if waits_for_TLB v e then e\<lparr>miss_cb_invoked := True\<rparr> else e) (MSHR ?c ! bank)]\<rparr>"
  let ?cl = "rev (map (\<lambda>e. Call_miss_cb (miss_cb e) (ca_op e) BIG_LATENCY) (filter (waits_for_TLB v) (MSHR ?c ! bank))) @ calls st"
  have eq: "notify_TLB_waits v k bank st = (set_cache k c st)\<lparr>calls := ?cl\<rparr>" by (simp add: notify_TLB_waits_def Let_def c_def)
  have n: "cache_inv (from_of st k) (Pf k) c \<and> quiet ?c c" by (rule notified_inv [OF sys_inv_node(1) [OF inv k] b c_def])
  then have s: "sys_inv Pf t {#} (set_cache k c st)" "same st (set_cache k c st)" using cache_quiet [OF inv k] by blast+
  have f: "same (set_cache k c st) ((set_cache k c st)\<lparr>calls := ?cl\<rparr>)" by (simp add: same_def)
  show "sys_inv Pf t {#} (notify_TLB_waits v k bank st) \<and> same st (notify_TLB_waits v k bank st)"
    unfolding eq using sys_inv_frame [OF s(1) _ _ f] same_trans [OF s(2) f] by simp
  note l = reg_in_range [OF sys_inv_node(1) [OF inv k] b]
  have "cache_of (notify_TLB_waits v k bank st) k = c" unfolding eq using k by (simp add: cache_of_def set_cache_def upd_node_def)
  then show "unsent (MSHR (cache_of (notify_TLB_waits v k bank st) k) ! bank ! i) = unsent (MSHR ?c ! bank ! i)" if "i < unat (MSHR_size ?c)"
    using that l by (simp add: c_def kinds)
qed

lemma same_cfg:
  assumes "k < length (nodes s)" and "cfg c = cfg (cache_of s k)"
  shows "same s (set_cache k c s)"
  using same_node [OF assms(1), of "(nodes s ! k)\<lparr>base := c\<rparr>"] assms(2) by (simp add: nshape_def cache_of_def set_cache_def upd_node_def upd_def)

lemma count_sent_inv:
  assumes s: "sent_ok Pf t st k bank i s" and ts: "to_send st k bank i" and u: "unsent (MSHR (cache_of st k) ! bank ! i)"
  shows "\<exists>s'. count_sent v k bank e s = Some s' \<and> sys_inv Pf t {#} s' \<and> same st s'"
proof -
  define c where "c = (cache_of s k)\<lparr>MSHR_unprocessed_num := upd (MSHR_unprocessed_num (cache_of s k)) bank (\<lambda>n. n - 1)\<rparr>"
  define s1 where "s1 = set_cache k c s"
  have sm: "same st s" and inv: "sys_inv Pf t {#} s1" using s u by (simp_all add: sent_ok_def s1_def c_def upd_def)
  have k: "k < length (nodes s)" using ts same_facts(1) [OF sm] by (simp add: to_send_def)
  then have c1: "cache_of s1 k = c" "k < length (nodes s1)" by (simp_all add: s1_def)
  have "same s s1" unfolding s1_def by (rule same_cfg [OF k]) (simp add: c_def cfg_def cache_params.truncate_def)
  then have sm1: "same st s1" by (rule same_trans [OF sm])
  have b: "bank < unat (MSHR_banks c)"
    using ts cfg_eq(7) [OF same_facts(7) [OF sm1], of k] c1 by (simp add: to_send_def)
  have "0 \<le> MSHR_unprocessed_num c ! bank"
    using bank_facts(6) [OF cache_inv_parts(1) [OF sys_inv_node(1) [OF inv c1(2)]], unfolded c1(1), OF b] by simp
  then have "count_sent v k bank e s =
      Some (if miss_cb e \<noteq> None \<and> still_wanted v e then add_call (Call_miss_cb (miss_cb e) (ca_op e) (miss_latency s1 k)) s1 else s1)"
    unfolding count_sent_def Let_def c_def [symmetric] s1_def [symmetric] by (simp add: checked_def)
  moreover have "sys_inv Pf t {#} (add_call x s1) \<and> same st (add_call x s1)" for x
    using sys_inv_frame [OF inv add_call_frame] same_trans [OF sm1 add_call_frame(3)] by blast
  ultimately show ?thesis using inv sm1 by auto
qed

lemma send_miss_inv:
  assumes inv: "sys_inv Pf t {#} st" and ts: "to_send st k bank i" and u: "unsent (MSHR (cache_of st k) ! bank ! i)"
  shows "\<exists>b s'. send_miss v k bank i st = Some (b, s') \<and> sys_inv Pf t {#} s' \<and> same st s'"
proof -
  have k: "k < length (nodes st)" and r: "bank < unat (MSHR_banks (cache_of st k))" "i < unat (MSHR_size (cache_of st k))" using ts by (simp_all add: to_send_def)
  have l: "\<not> MSHR_linked (MSHR (cache_of st k) ! bank ! i)" using reg_entry(2) [OF sys_inv_node(1) [OF inv k] r] by (simp add: entry_ok_def)
  consider "send_request_upstream k bank i st = Some (False, st)" | s where "send_request_upstream k bank i st = Some (True, s)" "sent_ok Pf t st k bank i s"
    using send_request_inv [OF inv ts] by blast
  then show ?thesis
  proof cases
    case 1
    then show ?thesis using l inv by (auto simp: send_miss_def Let_def)
  next
    case (2 s)
    then show ?thesis using l count_sent_inv [OF 2(2) ts u, of v "MSHR (cache_of st k) ! bank ! i"] by (auto simp: send_miss_def Let_def)
  qed
qed

lemma miss_bank_inv:
  assumes inv: "sys_inv Pf t {#} st" and k: "k < length (nodes st)" and b: "bank < unat (MSHR_banks (cache_of st k))"
  shows "\<exists>f sn st'. miss_bank v only k bank (found, sent, st) = Some (f, sn, st') \<and> sys_inv Pf t {#} st' \<and> same st st'"
proof -
  let ?c = "cache_of st k" and ?ok = "\<lambda>e. miss_ready (translated v) e \<and> (only = None \<or> only = Some (ca_cmd e))"
  define s where "s = (if only = None then notify_TLB_waits v k bank st else st)"
  have s: "sys_inv Pf t {#} s" "same st s" using notify_TLB_waits_inv(1) [OF inv k b, of v] inv by (auto simp: s_def)
  have "\<exists>sn st'. send_miss v k bank i s = Some (sn, st') \<and> sys_inv Pf t {#} st' \<and> same st st'" if i: "MSHR_oldest ?ok (MSHR ?c ! bank) = Some i" for i
  proof -
    have r: "i < unat (MSHR_size ?c)" "?ok (MSHR ?c ! bank ! i)"
      using MSHR_oldest_Some [OF i] reg_in_range [OF sys_inv_node(1) [OF inv k] b] by simp_all
    then have "unsent (MSHR ?c ! bank ! i)" by (cases "mtype (MSHR ?c ! bank ! i)") (auto simp: miss_ready_def kinds)
    then have u: "unsent (MSHR (cache_of s k) ! bank ! i)" using notify_TLB_waits_inv(2) [OF inv k b r(1), of v] by (simp add: s_def)
    then have "to_send s k bank i"
      using k b r(1) same_facts(1) [OF s(2)] cfg_eq(7,9) [OF same_facts(7) [OF s(2) k]] by (simp add: to_send_def unsent_def is_miss_def)
    from send_miss_inv [OF s(1) this u, of v] show ?thesis using same_trans [OF s(2)] by blast
  qed
  then show ?thesis using inv s by (auto simp: miss_bank_def Let_def s_def [symmetric] split: option.split)
      (rule exI, rule TrueI)
qed

lemma miss_loop:
  assumes inv: "sys_inv Pf t {#} st" and k: "k < length (nodes st)" and P: "sys_inv Pf t {#} s0" "same st s0"
  shows "\<exists>f sn s. fold_opt (miss_bank v only k) (bank_order start (MSHR_banks (cache_of st k)) (MSHR_mask (cache_of st k))) (f0, sn0, s0) = Some (f, sn, s) \<and>
    sys_inv Pf t {#} s \<and> same st s"
proof -
  let ?P = "\<lambda>(found :: bool, sent :: bool, s). sys_inv Pf t {#} s \<and> same st s"
  let ?order = "bank_order start (MSHR_banks (cache_of st k)) (MSHR_mask (cache_of st k))"
  have "\<exists>s'. fold_opt (miss_bank v only k) ?order (f0, sn0, s0) = Some s' \<and> ?P s'"
  proof (rule fold_opt_inv)
    fix bank x assume b: "bank \<in> set ?order" and P: "?P x"
    obtain found sent s where x: "x = (found, sent, s)" by (cases x)
    with P have s: "sys_inv Pf t {#} s" "same st s" by auto
    have "k < length (nodes s)" using same_facts(1) [OF s(2)] k by simp
    from miss_bank_inv [OF s(1) this MSHR_banks_order [OF inv k s(2) b], of v only found sent] obtain f sn s' where
      "miss_bank v only k bank (found, sent, s) = Some (f, sn, s')" "sys_inv Pf t {#} s'" "same s s'" by blast
    then show "\<exists>s'. miss_bank v only k bank x = Some s' \<and> ?P s'" using same_trans [OF s(2)] by (intro exI [of _ "(f, sn, s')"]) (simp add: x)
  qed (use P in simp)
  then show ?thesis by auto
qed

lemma misses_inv:
  assumes inv: "sys_inv Pf t {#} st" and k: "k < length (nodes st)"
  shows "\<exists>f sn s. (case MSHR_cmd_order n of
      None \<Rightarrow> fold_opt (miss_bank v None k) (bank_order start (MSHR_banks (cache_of st k)) (MSHR_mask (cache_of st k))) (False, False, st)
    | Some cmds \<Rightarrow> fold_opt (\<lambda>cmnd. fold_opt (miss_bank v (Some cmnd) k) (bank_order start (MSHR_banks (cache_of st k)) (MSHR_mask (cache_of st k)))) cmds (False, False, st)) =
      Some (f, sn, s) \<and> sys_inv Pf t {#} s \<and> same st s"
proof (cases "MSHR_cmd_order n")
  case None
  then show ?thesis using miss_loop [OF inv k inv same_refl] by simp
next
  case (Some cmds)
  let ?P = "\<lambda>(found :: bool, sent :: bool, s). sys_inv Pf t {#} s \<and> same st s"
  let ?g = "\<lambda>cmnd. fold_opt (miss_bank v (Some cmnd) k) (bank_order start (MSHR_banks (cache_of st k)) (MSHR_mask (cache_of st k)))"
  have "\<exists>s'. fold_opt ?g cmds (False, False, st) = Some s' \<and> ?P s'"
  proof (rule fold_opt_inv)
    fix cmnd x assume P: "?P x"
    obtain found sent s where x: "x = (found, sent, s)" by (cases x)
    with P have s: "sys_inv Pf t {#} s" "same st s" by auto
    from miss_loop [OF inv k s, of v "Some cmnd" start found sent] show "\<exists>s'. ?g cmnd x = Some s' \<and> ?P s'" by (auto simp: x)
  qed (use inv in simp)
  then show ?thesis using Some by auto
qed

lemma node_misc_inv:
  assumes inv: "sys_inv Pf t X st" and k: "k < length (nodes st)" and f: "\<And>n. base (f n) = base n" "\<And>n. nshape (f n) = nshape n"
    "\<And>n pf. pf_ok pf (f n) = pf_ok pf n"
  shows "sys_inv Pf t X (upd_node k f st) \<and> same st (upd_node k f st)"
  using sys_inv_node(1,2) [OF inv k] f by (intro upd_node_step [OF inv k]) (simp_all add: node_inv_def cache_of_def)

lemma cache_process_MSHR_inv:
  assumes inv: "sys_inv Pf t {#} st" and k: "k < length (nodes st)"
  shows "\<exists>st'. cache_process_MSHR v k start st = Some st' \<and> sys_inv Pf t {#} st' \<and> same st st'"
proof -
  let ?order = "bank_order start (MSHR_banks (cache_of st k)) (MSHR_mask (cache_of st k))"
  obtain f sn s where s: "(if \<not> check_for_MSHR_work (cache_of st k) then Some (False, False, st)
              else if can_schedule_upstream st k
              then (case MSHR_cmd_order (nodes st ! k) of
                      None \<Rightarrow> fold_opt (miss_bank v None k) ?order (False, False, st)
                    | Some cmds \<Rightarrow> fold_opt (\<lambda>cmnd. fold_opt (miss_bank v (Some cmnd) k) ?order) cmds (False, False, st))
              else Some (list_ex (\<lambda>b. MSHR_num (cache_of st k) ! b \<noteq> 0) ?order, False, st)) = Some (f, sn, s)" "sys_inv Pf t {#} s" "same st s"
    using misses_inv [OF inv k, where n = "nodes st ! k" and v = v and start = start] inv
    by (cases "check_for_MSHR_work (cache_of st k)"; cases "can_schedule_upstream st k") auto
  define s1 where "s1 = set_cache k ((cache_of s k)\<lparr>check_for_MSHR_work := f\<rparr>) s"
  have ks: "k < length (nodes s)" using same_facts(1) [OF s(3)] k by simp
  then have s1: "sys_inv Pf t {#} s1" "same s s1" "k < length (nodes s1)"
    using set_flag_inv [OF s(2) ks, of "(cache_of s k)\<lparr>check_for_MSHR_work := f\<rparr>"] by (simp_all add: s1_def)
  have "sys_inv Pf t {#} (upd_node k count_occupancy s1) \<and> same s1 (upd_node k count_occupancy s1)"
    by (rule node_misc_inv [OF s1(1,3)]) (simp_all add: count_occupancy_def Let_def nshape_def pf_ok_def pff_inv_def)
  moreover have "cache_process_MSHR v k start st = Some (upd_node k count_occupancy s1)"
    using s(1) unfolding cache_process_MSHR_def Let_def by (simp add: s1_def)
  ultimately show ?thesis using same_trans [OF same_trans [OF s(3) s1(2)]] by blast
qed

end
