(* ===== verification/Memsys_Safe.thy ===== *)
theory Memsys_Safe
  imports Memsys_Cycle
begin

text \<open>
  The memory controller, whole cycles and runs of the memory hierarchy, and the property of the whole: no
  assertion of the code fails and no request is lost or answered twice.
\<close>

section \<open>One step of the memory controller\<close>

lemma mcs_facts:
  assumes "mcs_inv u m"
  shows "ring_ok (RQ_head m) (RQ_num m) (RQ_tail m) (RQ_size m) (length (RQ m))"
    and "i < length (RQ m) \<Longrightarrow> mc_valid (RQ m ! i) = in_ring (RQ_head m) (RQ_num m) (RQ_size m) i"
    and "i < length (RQ m) \<Longrightarrow> mc_valid (RQ m ! i) \<Longrightarrow> 0 <s burst_chunks u (mc_linesize (RQ m ! i))"
  using assms by (auto simp: mcs_inv_def list_all_length)

text \<open>An update of one entry that keeps its place in the queue.\<close>

lemma mcs_entry:
  assumes m: "mcs_inv u m" and i: "i < length (RQ m)" and r: "mc_valid r = mc_valid (RQ m ! i)" "mc_linesize r = mc_linesize (RQ m ! i)"
    and q: "RQ m' = (RQ m)[i := r]" "RQ_head m' = RQ_head m" "RQ_num m' = RQ_num m" "RQ_tail m' = RQ_tail m" "RQ_size m' = RQ_size m"
  shows "mcs_inv u m'"
proof -
  have "mc_valid (RQ m' ! j) = mc_valid (RQ m ! j) \<and> mc_linesize (RQ m' ! j) = mc_linesize (RQ m ! j)" if "j < length (RQ m)" for j
    using that i r q(1) by (cases "j = i") simp_all
  then show ?thesis using m q by (auto simp: mcs_inv_def list_all_length)
qed

text \<open>The entries the scans visit.\<close>

definition scan_ok :: "MC_simple_t \<Rightarrow> nat \<Rightarrow> cint \<Rightarrow> bool" where
  "scan_ok m n idx \<longleftrightarrow> unat idx < unat (RQ_size m) \<and> unat (RQ_size m) < 2 ^ 31 \<and> length (RQ m) = unat (RQ_size m) \<and>
     (\<forall>j < n. mc_valid (RQ m ! ((unat idx + j) mod unat (RQ_size m))))"

lemma scan_head: "mcs_inv u m \<Longrightarrow> scan_ok m (unat (RQ_num m)) (RQ_head m)"
  using mcs_facts [of u m] by (auto simp: scan_ok_def ring_ok_def in_ring_def)

lemma scan_next:
  assumes "scan_ok m (Suc n) idx"
  shows "mc_valid (RQ m ! unat idx)" "unat idx < length (RQ m)" "scan_ok m n (modinc idx (RQ_size m))"
proof -
  have i: "unat idx < unat (RQ_size m)" "unat (RQ_size m) < 2 ^ 31" "length (RQ m) = unat (RQ_size m)"
    and v: "\<And>j. j < Suc n \<Longrightarrow> mc_valid (RQ m ! ((unat idx + j) mod unat (RQ_size m)))" using assms by (auto simp: scan_ok_def)
  show "mc_valid (RQ m ! unat idx)" "unat idx < length (RQ m)" using v [of 0] i by simp_all
  have sh: "((unat idx + 1) mod unat (RQ_size m) + j) mod unat (RQ_size m) = (unat idx + Suc j) mod unat (RQ_size m)" for j by (simp add: mod_add_left_eq)
  have "\<forall>j < n. mc_valid (RQ m ! ((unat idx + Suc j) mod unat (RQ_size m)))" using v by (meson Suc_less_eq)
  then show "scan_ok m n (modinc idx (RQ_size m))" using i modinc_less [OF i(1,2)] unfolding scan_ok_def unat_modinc [OF i(1,2)] sh by simp
qed

lemma mc_pick_ok:
  assumes "scan_ok m n idx" and "\<And>j. pick = Some j \<Longrightarrow> j < length (RQ m) \<and> mc_valid (RQ m ! j)"
  shows "\<exists>p. mc_pick m n idx pick = Some p \<and> (\<forall>j. p = Some j \<longrightarrow> j < length (RQ m) \<and> mc_valid (RQ m ! j))"
  using assms
proof (induction n arbitrary: idx pick)
  case (Suc n)
  note s = scan_next [OF Suc.prems(1)]
  let ?p = "if mc_when_started (RQ m ! unat idx) = TICK_T_MAX \<and> pick = None then Some (unat idx) else pick"
  have "\<exists>p. mc_pick m n (modinc idx (RQ_size m)) ?p = Some p \<and> (\<forall>j. p = Some j \<longrightarrow> j < length (RQ m) \<and> mc_valid (RQ m ! j))"
    by (rule Suc.IH [OF s(3)]) (use s Suc.prems(2) in \<open>auto split: if_splits\<close>)
  then show ?case using s(1,2) by (simp add: Let_def)
qed simp

lemma dram_access_ok: "0 <s burst_chunks u n \<Longrightarrow> \<exists>lat d'. dram_access u cycle c a n d = Some (lat, d')"
  by (cases d) (auto simp: dram_simplescalar_access_def dram_simplesdram_access_def dram_infbw_access_def Let_def split: prod.split)

lemma mc_send_inv:
  assumes inv: "sys_inv Pf t {#} st" and mc: "MC st = MC_simple m"
  shows "\<exists>st' m'. mc_send m st = Some st' \<and> sys_inv Pf t {#} st' \<and> same st st' \<and> MC st' = MC_simple m'"
proof (cases "next_available_time m \<le>s uncore_cycle st")
  case True
  have m: "mcs_inv (uncore_params st) m" using inv mc by (simp add: sys_inv_def)
  obtain p where p: "mc_pick m (unat (RQ_num m)) (RQ_head m) None = Some p" "\<forall>j. p = Some j \<longrightarrow> j < length (RQ m) \<and> mc_valid (RQ m ! j)"
    using mc_pick_ok [OF scan_head [OF m], of None] by auto
  show ?thesis
  proof (cases p)
    case None
    then show ?thesis using inv mc p(1) by (simp add: mc_send_def)
  next
    case (Some j)
    let ?r = "RQ m ! j" and ?u = "uncore_cycle st"
    have j: "j < length (RQ m)" "mc_valid ?r" using p(2) Some by auto
    obtain lat d where d: "dram_access (uncore_params st) ?u (mc_cmd ?r) (mc_addr ?r) (mc_linesize ?r) (dram st) = Some (lat, d)"
      using dram_access_ok [OF mcs_facts(3) [OF m j]] by blast
    define r where "r = ?r\<lparr>mc_when_started := ?u, mc_when_finished := ?u + ucast lat\<rparr>"
    define m' where "m' = m\<lparr>RQ := (RQ m)[j := r], last_request := mc_page ?r, next_available_time := ?u + 1,
             total_dram_cycles := total_dram_cycles m + ucast lat\<rparr>"
    have "mcs_inv (uncore_params st) m'" by (rule mcs_entry [OF m j(1)]) (simp_all add: r_def m'_def)
    moreover have "mctok r = mctok ?r" by (simp add: r_def mctok_def split: option.split)
    then have "mctoks (MC_simple m') = mctoks (MC_simple m)" using mctoks_update [OF j(1), of m' r] by (simp add: m'_def)
    ultimately have s1: "sys_inv Pf t {#} (st\<lparr>MC := MC_simple m'\<rparr>)" "same st (st\<lparr>MC := MC_simple m'\<rparr>)"
      using MC_step [OF inv, of "MC_simple m'" "{#}" "{#}" "{#}"] mc by simp_all
    have fr: "same (st\<lparr>MC := MC_simple m'\<rparr>) (st\<lparr>dram := d, MC := MC_simple m'\<rparr>)" by (simp add: same_def)
    have "mc_send m st = Some (st\<lparr>dram := d, MC := MC_simple m'\<rparr>)" using True p(1) Some d by (simp add: mc_send_def mc_start_def Let_def r_def m'_def)
    then show ?thesis using sys_inv_frame [OF s1(1) _ _ fr] same_trans [OF s1(2) fr] by auto
  qed
qed (use inv mc in \<open>auto simp: mc_send_def\<close>)

text \<open>The answers: the state of the controller is threaded beside the rest.\<close>

lemma mc_return_inv:
  assumes "sys_inv Pf t {#} (st\<lparr>MC := MC_simple m\<rparr>)" and "scan_ok m n idx"
  shows "\<exists>m' st'. mc_return n idx m st = Some (m', st') \<and> sys_inv Pf t {#} (st'\<lparr>MC := MC_simple m'\<rparr>) \<and> same st st'"
  using assms
proof (induction n arbitrary: idx m)
  case (Suc n)
  note s = scan_next [OF Suc.prems(2)]
  let ?r = "RQ m ! unat idx" and ?u = "uncore_cycle st" and ?st = "st\<lparr>MC := MC_simple m\<rparr>"
  show ?case
  proof (cases "mc_when_finished ?r \<le>s ?u \<and> mc_when_returned ?r = TICK_T_MAX \<and> (mc_prev_cp ?r = None \<or> bus_is_free st (fsb st))")
    case False
    then show ?thesis using Suc.IH [OF Suc.prems(1) s(3)] by auto
  next
    case True
    define r where "r = ?r\<lparr>mc_when_returned := ?u\<rparr>"
    define m' where "m' = m\<lparr>RQ := (RQ m)[unat idx := r], total_service_cycles := total_service_cycles m + (?u - mc_when_enqueued ?r)\<rparr>"
    have m: "mcs_inv (uncore_params st) m" using Suc.prems(1) by (simp add: sys_inv_def)
    have "mcs_inv (uncore_params st) m'" by (rule mcs_entry [OF m s(2)]) (simp_all add: r_def m'_def)
    then have mi: "mc_inv (uncore_params X) (MC_simple m')" if "uncore_params X = uncore_params st" for X using that by simp
    have "?u \<noteq> TICK_T_MAX" using early_less(2) [OF sys_inv_uncore(1) [OF Suc.prems(1)]] by simp
    then have r0: "mctok r = {#}" by (simp add: mctok_def r_def)
    have tk: "mctoks (MC_simple m') + mctok ?r = mctoks (MC_simple m)" using mctoks_update [OF s(2), of m' r] r0 by (simp add: m'_def)
    show ?thesis
    proof (cases "mc_prev_cp ?r")
      case None
      then have "mctok ?r = {#}" by (simp add: mctok_def)
      then have i: "sys_inv Pf t {#} (st\<lparr>MC := MC_simple m'\<rparr>)"
        using MC_step [OF Suc.prems(1), of "MC_simple m'" "{#}" "{#}" "{#}"] tk mi [OF refl] by simp
      have "scan_ok m' n (modinc idx (RQ_size m'))"
        using s(3) s(1,2) by (auto simp: scan_ok_def m'_def r_def nth_list_update)
      from Suc.IH [OF i this] show ?thesis using True None unfolding mc_return.simps Let_def r_def [symmetric] m'_def [symmetric] by simp
    next
      case (Some p)
      let ?b = "unat (mc_MSHR_bank ?r)" and ?i = "mc_MSHR_index ?r"
      have mt: "mctok ?r = {#(p, ?b, unat ?i)#}" using s(1) True Some by (simp add: mctok_def)
      then have "(p, ?b, unat ?i) \<in># mctoks (MC_simple m)" unfolding tk [symmetric] by simp
      then have "(p, ?b, unat ?i) \<in># in_flight ?st" by (simp add: in_flight_def)
      then have w: "(p, ?b, unat ?i) \<in># all_waits ?st" using Suc.prems(1) by (simp add: sys_inv_def)
      obtain c where c: "deliver p ?b ?i 0 ?st = Some (set_cache p c ?st)" "sys_inv Pf t {#(p, ?b, unat ?i)#} (set_cache p c ?st)" "same ?st (set_cache p c ?st)"
        using deliver_inv [OF Suc.prems(1) w, of 0] by auto
      define s1 where "s1 = set_cache p c st"
      obtain z where z: "fill_arrived (cache_get_cycle ?st p) ?b ?i 0 (cache_of ?st p) = Some z" "set_cache p z ?st = set_cache p c ?st"
        using c(1) by (auto simp: deliver_def on_cache_def)
      have "cache_get_cycle ?st p = cache_get_cycle st p" "cache_of ?st p = cache_of st p" by (simp_all add: cache_get_cycle_def cache_of_def)
      moreover have "set_cache p z st = s1" using arg_cong [OF z(2), of nodes] by (simp add: s1_def set_cache_def upd_node_def)
      ultimately have d: "deliver p ?b ?i 0 st = Some s1" using z(1) by (simp add: deliver_def on_cache_def)
      have e: "(set_cache p c ?st)\<lparr>MC := MC_simple m'\<rparr> = s1\<lparr>MC := MC_simple m'\<rparr>" by (simp add: s1_def set_cache_def upd_node_def)
      define s2 where "s2 = use_bus (fsb s1) (fsb_size s1 (mc_linesize ?r)) (mc_cmd ?r = CACHE_PREFETCH) s1"
      have "sys_inv Pf t {#} (s1\<lparr>MC := MC_simple m'\<rparr>)"
        using MC_step [OF c(2), of "MC_simple m'" "mctok ?r" "{#}" "{#}"] tk mt mi [of "set_cache p c ?st"] same_facts(5) [OF c(3)] unfolding e by simp
      then have "sys_inv Pf t {#} (s2\<lparr>MC := MC_simple m'\<rparr>)"
        by (rule sys_inv_frame) (simp_all add: s2_def same_def use_bus_def)
      moreover have "same st s2" using c(3) by (simp add: same_def s2_def use_bus_def s1_def set_cache_def upd_node_def)
      ultimately show ?thesis using True Some d unfolding mc_return.simps Let_def r_def [symmetric] m'_def [symmetric] by (simp add: s2_def)
    qed
  qed
qed simp

lemma mc_commit_ok:
  assumes m: "mcs_inv u m" and t: "early cycle"
  shows "\<exists>m'. mc_commit cycle m = Some m' \<and> mcs_inv u m' \<and> mctoks (MC_simple m') = mctoks (MC_simple m)"
proof -
  let ?h = "unat (RQ_head m)"
  note f = mcs_facts [OF m]
  have h: "?h < length (RQ m)" using f(1) by (simp add: ring_ok_def)
  show ?thesis
  proof (cases "mc_valid (RQ m ! ?h) \<and> mc_when_returned (RQ m ! ?h) \<le>s cycle")
    case True
    then have n: "RQ_num m \<noteq> 0" using f(2) [OF h] by (auto simp: in_ring_def)
    note p = ring_pop [OF f(1) n]
    define r where "r = (RQ m ! ?h)\<lparr>mc_valid := False\<rparr>"
    define m' where "m' = m\<lparr>RQ := (RQ m)[?h := r], RQ_num := RQ_num m - 1, RQ_head := modinc (RQ_head m) (RQ_size m)\<rparr>"
    have "unat (RQ_num m - 1) < 2 ^ 31" using p(1) by (simp add: ring_ok_def)
    then have "0 \<le> sint (RQ_num m - 1)" by (simp add: sint_cint del: of_nat_unat)
    then have eq: "mc_commit cycle m = Some m'" using True by (simp add: mc_commit_def Let_def checked_def r_def m'_def)
    have "mc_valid (RQ m' ! i) = in_ring (RQ_head m') (RQ_num m') (RQ_size m') i" if "i < length (RQ m)" for i
      using that f(2) [OF that] p(2) [of i] p(3) h by (cases "i = ?h") (simp_all add: m'_def r_def)
    then have "mcs_inv u m'" using m p(1) by (simp add: mcs_inv_def m'_def r_def list_all_update)
    moreover have "mc_when_returned (RQ m ! ?h) \<noteq> TICK_T_MAX" using True early_less(1) [OF t] by (auto simp: word_sle_eq)
    then have "mctok (RQ m ! ?h) = {#}" "mctok r = {#}" by (simp_all add: mctok_def r_def)
    then have "mctoks (MC_simple m') = mctoks (MC_simple m)" using mctoks_update [OF h, of m' r] by (simp add: m'_def)
    ultimately show ?thesis using eq by blast
  next
    case False
    then show ?thesis using m unfolding mc_commit_def Let_def by auto
  qed
qed

lemma mc_step_inv:
  assumes inv: "sys_inv Pf t {#} st"
  shows "\<exists>st'. mc_step st = Some st' \<and> sys_inv Pf t {#} st' \<and> same st st'"
proof (cases "\<exists>m. MC st = MC_simple m \<and> 0 <s RQ_num m")
  case True
  then obtain m where m: "MC st = MC_simple m" "0 <s RQ_num m" by blast
  obtain s1 m1 where s1: "mc_send m st = Some s1" "sys_inv Pf t {#} s1" "same st s1" "MC s1 = MC_simple m1" using mc_send_inv [OF inv m(1)] by blast
  have m1: "mcs_inv (uncore_params s1) m1" using s1(2,4) by (simp add: sys_inv_def)
  have "s1\<lparr>MC := MC_simple m1\<rparr> = s1" using s1(4) by (cases s1) simp
  then have i1: "sys_inv Pf t {#} (s1\<lparr>MC := MC_simple m1\<rparr>)" using s1(2) by simp
  obtain m2 s2 where s2: "mc_return (unat (RQ_num m1)) (RQ_head m1) m1 s1 = Some (m2, s2)" "sys_inv Pf t {#} (s2\<lparr>MC := MC_simple m2\<rparr>)" "same s1 s2"
    using mc_return_inv [OF i1 scan_head [OF m1]] by blast
  have "mcs_inv (uncore_params s2) m2" "early (uncore_cycle s2)" using s2(2) sys_inv_uncore(1) [OF s2(2)] by (simp_all add: sys_inv_def)
  then obtain m3 where m3: "mc_commit (uncore_cycle s2) m2 = Some m3" "mcs_inv (uncore_params s2) m3" "mctoks (MC_simple m3) = mctoks (MC_simple m2)"
    using mc_commit_ok by blast
  have "sys_inv Pf t {#} (s2\<lparr>MC := MC_simple m3\<rparr>)"
    using MC_step [OF s2(2), of "MC_simple m3" "{#}" "{#}" "{#}"] m3(2,3) by simp
  moreover have "same s2 (s2\<lparr>MC := MC_simple m3\<rparr>)" by (simp add: same_def)
  moreover have "mc_step st = Some (s2\<lparr>MC := MC_simple m3\<rparr>)" using m s1(1,4) s2(1) m3(1) by (simp add: mc_step_def mc_finish_def)
  ultimately show ?thesis using same_trans [OF same_trans [OF s1(3) s2(3)]] by blast
qed (use inv in \<open>auto simp: mc_step_def split: MC_t.split\<close>)

section \<open>Time\<close>

text \<open>Only clocks change.\<close>

lemma sys_inv_clock:
  assumes inv: "sys_inv Pf t X st" and t: "t' \<le> 2 ^ 62" and l: "length (nodes st') = length (nodes st)"
    and n: "\<And>j. j < length (nodes st) \<Longrightarrow> \<exists>x. nodes st' ! j = (nodes st ! j)\<lparr>sim_cycle := x\<rparr> \<and> clock_ok t' x"
    and u: "clock_ok t' (uncore_cycle st')"
    and f: "length (buses st') = length (buses st)" "LLC st' = LLC st" "uncore_params st' = uncore_params st" "MC st' = MC st"
  shows "sys_inv Pf t' X st'"
proof -
  have c: "cache_of st' j = cache_of st j" "next_level (nodes st' ! j) = next_level (nodes st ! j)" "next_bus (nodes st' ! j) = next_bus (nodes st ! j)"
    "PF_sample_interval (nodes st' ! j) = PF_sample_interval (nodes st ! j)" "base (nodes st' ! j) = base (nodes st ! j)"
    "pf_ok pf (nodes st' ! j) = pf_ok pf (nodes st ! j)" if "j < length (nodes st)" for j pf
    using n [OF that] by (auto simp: cache_of_def pf_ok_def pff_inv_def)
  have fr: "from_of st' = from_of st" using c(2) l by (auto simp: from_of_def fun_eq_iff)
  have "link_ok Pf st' j" if j: "j < length (nodes st)" for j
  proof -
    have "link_ok Pf st j" using inv j by (simp add: sys_inv_def topo_def)
    then show ?thesis using c [OF j] c(1) l f by (auto simp: link_ok_def Let_def split: option.splits)
  qed
  moreover have "clock_ok t' (sim_cycle (nodes st' ! j))" if "j < length (nodes st)" for j using n [OF that] by auto
  ultimately have "topo Pf t' st'" using inv u f(2) l by (simp add: sys_inv_def topo_def)
  moreover have "node_inv (from_of st' j) (Pf j) (nodes st' ! j)" if "j < length (nodes st)" for j
    using inv that c [OF that] fr by (simp add: sys_inv_def node_inv_def)
  moreover have "in_flight st' = in_flight st" "all_waits st' = all_waits st" using c(1) l f(4) by (simp_all add: in_flight_def all_waits_def)
  ultimately show ?thesis using inv t l f by (simp add: sys_inv_def)
qed

lemma clock_tick: "clock_ok t x \<Longrightarrow> t < 2 ^ 62 \<Longrightarrow> clock_ok (t + 1) (x + 1)"
  using early_plus(3) [of x 1] by (simp add: clock_ok_def early_def)

lemma clock_mono: "clock_ok t x \<Longrightarrow> t \<le> t' \<Longrightarrow> clock_ok t' x"
  by (simp add: clock_ok_def)

lemma sys_inv_clocks:
  assumes "sys_inv Pf t X st"
  shows "clock_ok t (uncore_cycle st)" "k < length (nodes st) \<Longrightarrow> clock_ok t (sim_cycle (nodes st ! k))"
  using assms by (auto simp: sys_inv_def topo_def)

lemma sys_inv_mono:
  assumes inv: "sys_inv Pf t X st" and "t \<le> t'" and t: "t' \<le> 2 ^ 62"
  shows "sys_inv Pf t' X st"
proof (rule sys_inv_clock [OF inv t])
  fix j assume "j < length (nodes st)"
  then show "\<exists>x. nodes st ! j = (nodes st ! j)\<lparr>sim_cycle := x\<rparr> \<and> clock_ok t' x"
    using clock_mono [OF sys_inv_clocks(2) [OF inv] assms(2)] by (intro exI [of _ "sim_cycle (nodes st ! j)"]) simp
qed (use clock_mono [OF sys_inv_clocks(1) [OF inv] assms(2)] in auto)

lemma tick_inv:
  assumes inv: "sys_inv Pf t X st" and t: "t < 2 ^ 62"
  shows "sys_inv Pf (t + 1) X (upd_node k (\<lambda>n. n\<lparr>sim_cycle := sim_cycle n + 1\<rparr>) st)"
proof (rule sys_inv_clock [OF inv])
  let ?f = "\<lambda>n :: cache_node. n\<lparr>sim_cycle := sim_cycle n + 1\<rparr>"
  fix j assume j: "j < length (nodes st)"
  note c = sys_inv_clocks(2) [OF inv j]
  show "\<exists>x. nodes (upd_node k ?f st) ! j = (nodes st ! j)\<lparr>sim_cycle := x\<rparr> \<and> clock_ok (t + 1) x"
  proof (cases "j = k")
    case True
    then show ?thesis using j clock_tick [OF c t] by (intro exI [of _ "sim_cycle (nodes st ! j) + 1"]) simp
  next
    case False
    then show ?thesis using clock_mono [OF c] by (intro exI [of _ "sim_cycle (nodes st ! j)"]) simp
  qed
qed (use t sys_inv_clocks(1) [OF inv] clock_mono in \<open>auto simp: upd_node_def\<close>)

lemma uncore_tick_inv:
  assumes inv: "sys_inv Pf t X st" and t: "t < 2 ^ 62"
  shows "sys_inv Pf (t + 1) X (st\<lparr>uncore_cycle := uncore_cycle st + 1, dram := d\<rparr>)"
proof (rule sys_inv_clock [OF inv])
  fix j assume "j < length (nodes st)"
  then show "\<exists>x. nodes (st\<lparr>uncore_cycle := uncore_cycle st + 1, dram := d\<rparr>) ! j = (nodes st ! j)\<lparr>sim_cycle := x\<rparr> \<and> clock_ok (t + 1) x"
    using clock_mono [OF sys_inv_clocks(2) [OF inv]] by (intro exI [of _ "sim_cycle (nodes st ! j)"]) simp
qed (use t clock_tick [OF sys_inv_clocks(1) [OF inv] t] in auto)

section \<open>Operations on the hierarchy\<close>

lemma cache_process_stages:
  assumes inv: "sys_inv Pf t {#} st" and k: "k < length (nodes st)"
  shows "\<exists>s. do { st \<leftarrow> cache_process_MSHR_WB k start st; st \<leftarrow> cache_process_MSHR_fill v k start st; st \<leftarrow> cache_process_fills v k start st;
      st \<leftarrow> cache_process_pipe v k start st; st \<leftarrow> cache_process_MSHR v k start st;
      Some (set_cache k ((cache_of st k)\<lparr>check_for_work := any_work (cache_of st k)\<rparr>) st) } = Some s \<and> sys_inv Pf t {#} s \<and> same st s"
proof -
  have ks: "k < length (nodes s)" if "same st s" for s using same_facts(1) [OF that] k by simp
  obtain s1 where s1: "cache_process_MSHR_WB k start st = Some s1" "sys_inv Pf t {#} s1" "same st s1" using cache_process_MSHR_WB_inv [OF inv k] by blast
  obtain s2 where s2: "cache_process_MSHR_fill v k start s1 = Some s2" "sys_inv Pf t {#} s2" "same st s2"
    using cache_process_MSHR_fill_inv [OF s1(2) ks [OF s1(3)]] same_trans [OF s1(3)] by blast
  obtain s3 where s3: "cache_process_fills v k start s2 = Some s3" "sys_inv Pf t {#} s3" "same st s3"
    using cache_process_fills_inv [OF s2(2) ks [OF s2(3)]] same_trans [OF s2(3)] by blast
  obtain s4 where s4: "cache_process_pipe v k start s3 = Some s4" "sys_inv Pf t {#} s4" "same st s4"
    using cache_process_pipe_inv [OF s3(2) ks [OF s3(3)]] same_trans [OF s3(3)] by blast
  obtain s5 where s5: "cache_process_MSHR v k start s4 = Some s5" "sys_inv Pf t {#} s5" "same st s5"
    using cache_process_MSHR_inv [OF s4(2) ks [OF s4(3)]] same_trans [OF s4(3)] by blast
  have "sys_inv Pf t {#} (set_cache k ((cache_of s5 k)\<lparr>check_for_work := any_work (cache_of s5 k)\<rparr>) s5) \<and>
      same s5 (set_cache k ((cache_of s5 k)\<lparr>check_for_work := any_work (cache_of s5 k)\<rparr>) s5)"
    by (rule set_flag_inv [OF s5(2) ks [OF s5(3)]]) simp_all
  then show ?thesis using s1(1) s2(1) s3(1) s4(1) s5(1) same_trans [OF s5(3)] by auto
qed

text \<open>What remains of the shape when the clocks advance.\<close>

definition links :: "msys \<Rightarrow> msys \<Rightarrow> bool" where
  "links st st' \<longleftrightarrow> length (nodes st') = length (nodes st) \<and> LLC st' = LLC st \<and> vmem st' = vmem st"

lemma same_links: "same st st' \<Longrightarrow> links st st'"
  using same_facts [of st st'] by (simp add: links_def)

lemma cache_process_inv:
  assumes inv: "sys_inv Pf t {#} st" and t: "k \<noteq> LLC st \<Longrightarrow> t < 2 ^ 62" and k: "k < length (nodes st)"
  shows "\<exists>st'. cache_process v k st = Some st' \<and> sys_inv Pf (if k = LLC st then t else t + 1) {#} st' \<and> links st st'"
proof -
  define s where "s = (if k = LLC st then st else upd_node k (\<lambda>n. n\<lparr>sim_cycle := sim_cycle n + 1\<rparr>) st)"
  let ?t = "if k = LLC st then t else t + 1" and ?start = "start_point (nodes s ! k)"
  have s: "sys_inv Pf ?t {#} s" "links st s" "k < length (nodes s)"
    using inv tick_inv [OF inv t] k by (auto simp: s_def links_def upd_node_def)
  define s1 where "s1 = upd_node k (\<lambda>n. n\<lparr>start_point := modinc ?start (banks (base n))\<rparr>) s"
  have s1: "sys_inv Pf ?t {#} s1 \<and> same s s1"
    unfolding s1_def by (rule node_misc_inv [OF s(1,3)]) (simp_all add: nshape_def pf_ok_def pff_inv_def)
  then have "k < length (nodes s1)" using s(3) same_facts(1) [of s s1] by simp
  from cache_process_stages [OF conjunct1 [OF s1] this, of ?start v] obtain s2 where
    s2: "do { st \<leftarrow> cache_process_MSHR_WB k ?start s1; st \<leftarrow> cache_process_MSHR_fill v k ?start st; st \<leftarrow> cache_process_fills v k ?start st;
      st \<leftarrow> cache_process_pipe v k ?start st; st \<leftarrow> cache_process_MSHR v k ?start st;
      Some (set_cache k ((cache_of st k)\<lparr>check_for_work := any_work (cache_of st k)\<rparr>) st) } = Some s2" "sys_inv Pf ?t {#} s2" "same s1 s2" by blast
  have "links st s2" using s(2) same_links [OF s2(3)] same_links [OF conjunct2 [OF s1]] by (simp add: links_def)
  then show ?thesis using s s2 unfolding cache_process_def Let_def s_def [symmetric] s1_def [symmetric] by auto
qed

lemma prefetch_controller_update_inv:
  assumes inv: "sys_inv Pf t {#} st" and k: "k < length (nodes st)"
  shows "\<exists>st'. prefetch_controller_update k st = Some st' \<and> sys_inv Pf t {#} st' \<and> same st st'"
proof (cases "PF_sample_interval (nodes st ! k) \<noteq> 0 \<and> cache_get_cycle st k = scast (PF_next_sample_cycle (nodes st ! k))")
  case True
  then obtain b where b: "next_bus (nodes st ! k) = Some b"
    using sys_inv_node(3) [OF inv k] by (auto simp: link_ok_def Let_def split: option.splits)
  show ?thesis using True b unfolding prefetch_controller_update_def Let_def
    by (simp, intro node_misc_inv [OF inv k]) (simp_all add: nshape_def pf_ok_def pff_inv_def)
qed (use inv in \<open>auto simp: prefetch_controller_update_def Let_def\<close>)

lemma cache_prefetch_inv:
  assumes inv: "sys_inv Pf t {#} st" and k: "k < length (nodes st)"
  shows "\<exists>st'. cache_prefetch k st = Some st' \<and> sys_inv Pf t {#} st' \<and> same st st'"
proof -
  let ?n = "nodes st ! k" and ?c = "cache_of st k"
  define q where "q = PFF ?n ! unat (PFF_head ?n)"
  define bank where "bank = GET_MSHR_BANK ?c (pff_addr q)"
  let ?go = "(PF_sample_interval ?n = 0 \<or> PF_state ?n = PF_OK) \<and> PFF_size ?n \<noteq> 0 \<and> PFF_num ?n \<noteq> 0 \<and>
         MSHR_num ?c ! bank < sint (prefetch_threshold ?n) \<and> MSHR_num_pf ?c ! bank < sint (prefetch_max ?n)"
  have tr: "v2p_translate DO_NOT_TRANSLATE a m = Inr a" for a m by (simp add: v2p_translate_def)
  have eq: "cache_prefetch k st = (if ?go \<and> pipe_num ?c ! GET_BANK ?c (pff_addr q) < sint (latency ?c) then
      do { c \<leftarrow> cache_enqueue (vmem st) (cache_get_cycle st k) (prefetch_request (pff_core q) (pff_PC q) bank) DO_NOT_TRANSLATE (pff_addr q) ?c;
           checked (0 \<le> sint (PFF_num ?n - 1))
             (upd_node k (\<lambda>n. n\<lparr>base := c, PFF_head := modinc (PFF_head n) (PFF_size n), PFF_num := PFF_num n - 1\<rparr>) st) } else Some st)"
    unfolding cache_prefetch_def Let_def cache_of_def [symmetric] q_def [symmetric] bank_def [symmetric] by (auto simp: cache_enqueuable_def tr)
  show ?thesis
  proof (cases "?go \<and> pipe_num ?c ! GET_BANK ?c (pff_addr q) < sint (latency ?c)")
    case True
    then have z: "PFF_num ?n \<noteq> 0" by blast
    then have pf: "Pf k" "list_all pfr_ok (prefetcher ?n)" "pff_inv ?n" "PF_buffer ?n = []" using sys_inv_node(2) [OF inv k] by (auto simp: pf_ok_def)
    then have ring: "ring_ok (PFF_head ?n) (PFF_num ?n) (PFF_tail ?n) (PFF_size ?n) (length (PFF ?n))" by (simp add: pff_inv_def)
    note p = ring_pop [OF ring z]
    have core: "pff_core q \<noteq> None" using pf(3) p(2) by (simp add: pff_inv_def q_def)
    have "bank < 2 ^ 31" using GET_MSHR_BANK_less [OF cache_inv_parts(4) [OF sys_inv_node(1) [OF inv k]], of "pff_addr q"]
        cache_inv_parts(4) [OF sys_inv_node(1) [OF inv k]] by (simp add: bank_def static_ok_def Let_def)
    then have "unat (of_nat bank :: cint) = bank" by (simp add: unsigned_of_nat take_bit_nat_eq_self)
    then have rq: "rq_ok (from_of st k) (Pf k) ?c (prefetch_request (pff_core q) (pff_PC q) bank) (pff_addr q)"
      using core pf(1) by (simp add: rq_ok_def prefetch_request_def bank_def writes_def)
    from cache_enqueue_inv [OF sys_inv_node(1) [OF inv k] tr conjunct2 [OF True] rq sys_inv_node(4) [OF inv k], of "vmem st"] obtain c where
      c: "cache_enqueue (vmem st) (cache_get_cycle st k) (prefetch_request (pff_core q) (pff_PC q) bank) DO_NOT_TRANSLATE (pff_addr q) ?c = Some c"
        "cache_inv (from_of st k) (Pf k) c" "only_pipe (GET_BANK ?c (pff_addr q)) ?c c" "toks c = toks ?c"
      by (auto simp: rtok_def prefetch_request_def)
    define n where "n = ?n\<lparr>base := c, PFF_head := modinc (PFF_head ?n) (PFF_size ?n), PFF_num := PFF_num ?n - 1\<rparr>"
    have "pff_inv n" using pf(3) p by (auto simp: pff_inv_def n_def)
    then have "node_inv (from_of st k) (Pf k) n" using pf c(2) by (simp add: node_inv_def pf_ok_def n_def)
    moreover have "nshape n = nshape ?n" using only_pipe_eq(1) [OF c(3)] by (simp add: n_def nshape_def cache_of_def)
    ultimately have "sys_inv Pf t {#} (st\<lparr>nodes := (nodes st)[k := n]\<rparr>) \<and> same st (st\<lparr>nodes := (nodes st)[k := n]\<rparr>)"
      using c(4) only_pipe_eq(15) [OF c(3)]
      by (intro node_step [OF inv k, where A = "{#}" and B = "{#}" and C = "{#}" and D = "{#}"]) (simp_all add: n_def cwaits_def)
    moreover have "unat (PFF_num ?n - 1) < 2 ^ 31" using p(1) by (simp add: ring_ok_def)
    then have "0 \<le> sint (PFF_num ?n - 1)" by (simp add: sint_cint del: of_nat_unat)
    then have "cache_prefetch k st = Some (st\<lparr>nodes := (nodes st)[k := n]\<rparr>)"
      unfolding eq using True c(1) by (simp add: checked_def upd_node_def upd_def n_def)
    ultimately show ?thesis by blast
  next
    case False
    then show ?thesis using inv unfolding eq by auto
  qed
qed

lemma core_enqueue_inv:
  assumes inv: "sys_inv Pf t {#} st" and k: "k < length (nodes st)" and room: "cache_enqueuable (vmem st) (cache_of st k) asid a = Some True"
    and rq: "rq_cb rq \<noteq> None" "rq_core rq \<noteq> None" "rq_prev_cp rq = None" "rq_cmd rq \<noteq> CACHE_PREFETCH" "read_only (cache_of st k) \<longrightarrow> \<not> writes (rq_cmd rq)"
  shows "\<exists>st'. core_enqueue k rq asid a st = Some st' \<and> sys_inv Pf t {#} st' \<and> same st st'"
proof -
  obtain pa where pa: "v2p_translate asid a (vmem st) = Inr pa" "pipe_num (cache_of st k) ! GET_BANK (cache_of st k) pa < sint (latency (cache_of st k))"
    using room by (auto simp: cache_enqueuable_def split: sum.splits)
  have "rq_ok (from_of st k) (Pf k) (cache_of st k) rq pa" using rq by (simp add: rq_ok_def)
  from cache_enqueue_inv [OF sys_inv_node(1) [OF inv k] pa this sys_inv_node(4) [OF inv k]] obtain c where
    c: "cache_enqueue (vmem st) (cache_get_cycle st k) rq asid a (cache_of st k) = Some c" "cache_inv (from_of st k) (Pf k) c"
      "only_pipe (GET_BANK (cache_of st k) pa) (cache_of st k) c" "toks c = toks (cache_of st k)" using rq(3) by (auto simp: rtok_def)
  have "sys_inv Pf t {#} (set_cache k c st) \<and> same st (set_cache k c st)"
    using c(4) only_pipe_eq(1,15) [OF c(3)]
    by (intro cache_step [OF inv k c(2), where A = "{#}" and B = "{#}" and C = "{#}" and D = "{#}"]) (simp_all add: cwaits_def)
  then show ?thesis using c(1) by (auto simp: core_enqueue_def on_cache_def)
qed

lemma uncore_step_inv:
  assumes inv: "sys_inv Pf t {#} st" and t: "t < 2 ^ 62"
  shows "\<exists>st'. uncore_step v st = Some st' \<and> sys_inv Pf (t + 1) {#} st' \<and> links st st'"
proof -
  define s0 where "s0 = st\<lparr>uncore_cycle := uncore_cycle st + 1, dram := dram_refresh (uncore_cycle st + 1) (dram st)\<rparr>"
  have s0: "sys_inv Pf (t + 1) {#} s0" "links st s0" using uncore_tick_inv [OF inv t] by (simp_all add: s0_def links_def)
  obtain s1 where s1: "mc_step s0 = Some s1" "sys_inv Pf (t + 1) {#} s1" "same s0 s1" using mc_step_inv [OF s0(1)] by blast
  have l1: "LLC s1 < length (nodes s1)" by (rule sys_inv_uncore(2) [OF s1(2)])
  obtain s2 where s2: "prefetch_controller_update (LLC s1) s1 = Some s2" "sys_inv Pf (t + 1) {#} s2" "same s1 s2"
    using prefetch_controller_update_inv [OF s1(2) l1] by blast
  have l2: "LLC s2 < length (nodes s2)" by (rule sys_inv_uncore(2) [OF s2(2)])
  obtain s3 where s3: "cache_process v (LLC s2) s2 = Some s3" "sys_inv Pf (t + 1) {#} s3" "links s2 s3"
    using cache_process_inv [OF s2(2) _ l2, of v] by auto
  have "links st s3" using s0(2) same_links [OF s1(3)] same_links [OF s2(3)] s3(3) by (simp add: links_def)
  moreover have "uncore_step v st = Some s3" using s1(1) s2(1) s3(1) by (simp add: uncore_step_def Let_def s0_def)
  ultimately show ?thesis using s3(2) by blast
qed

section \<open>Created systems\<close>

lemma ceil_log2_ge: "n \<le> 2 ^ ceil_log2 n"
proof (induction n rule: ceil_log2.induct)
  case (1 n)
  then show ?case by (cases "n \<le> 1") (auto simp: ceil_log2.simps [of n])
qed

lemma sum_list_empty: "sum_list (replicate n {#}) = ({#} :: 'a multiset)"
  by (induction n) simp_all

text \<open>The parameters the constructor does not check: at least one bank of registers, fewer write-back
  entries than registers, at least one bank and set, a latency that is not negative and an associativity
  that fits the policy.\<close>

definition create_ok :: "cache_t \<Rightarrow> bool" where
  "create_ok c \<longleftrightarrow> 0 < sint (MSHR_banks c) \<and> 0 \<le> sint (MSHR_WB_size c) \<and> sint (MSHR_WB_size c) < sint (MSHR_size c) \<and>
     0 < sint (banks c) \<and> 0 \<le> sint (latency c) \<and> sets c \<noteq> 0 \<and> params_ok (cache_params.truncate c)"

lemma cache_create_fields:
  assumes "cache_create ro n_sets n_assoc lsize rp ap wp wc n_banks bwidth lat msize wbsize mbanks = Some c"
  shows "sets c = n_sets" "assoc c = n_assoc" "banks c = n_banks" "bank_mask c = scast (n_banks - 1)" "latency c = lat" "heap_size c = 2 ^ ceil_log2 (unat lat + 1)"
    "pipe c = replicate (unat n_banks) (replicate (heap_size c) action0)" "pipe_num c = replicate (unat n_banks) 0"
    "fill_pipe c = replicate (unat n_banks) (replicate (heap_size c) fill0)" "fill_num c = replicate (unat n_banks) 0"
    "MSHR_banks c = mbanks" "MSHR_size c = msize" "MSHR_WB_size c = wbsize" "MSHR c = replicate (unat mbanks) (replicate (unat msize) action0)"
    "blocks c = replicate (unat n_sets) (cache_set_create (unat n_assoc))"
  using assms by (auto simp: cache_create_def Let_def split: option.splits if_splits prod.splits)

lemma cache_create_inv:
  assumes c: "cache_create ro n_sets n_assoc lsize rp ap wp wc n_banks bwidth lat msize wbsize mbanks = Some c0"
    and d: "c = c0\<lparr>PF_filter := flt\<rparr>" and flt: "interval_ok (map_option reset_interval flt)" and ok: "create_ok c"
  shows "cache_inv from pf c" and "toks c = {#}" and "waits c = {}"
proof -
  have e: "PF_filter c = flt" "sets c = sets c0" "assoc c = assoc c0" "banks c = banks c0" "bank_mask c = bank_mask c0" "latency c = latency c0"
    "heap_size c = heap_size c0" "pipe c = pipe c0" "pipe_num c = pipe_num c0" "fill_pipe c = fill_pipe c0" "fill_num c = fill_num c0"
    "MSHR_banks c = MSHR_banks c0" "MSHR_size c = MSHR_size c0" "MSHR_WB_size c = MSHR_WB_size c0" "MSHR c = MSHR c0" "blocks c = blocks c0"
    by (simp_all add: d)
  note f = cache_create_fields [OF c, folded e]
  have p: "0 < sint mbanks" "0 \<le> sint wbsize" "sint wbsize < sint msize" "0 < sint n_banks" "0 \<le> sint lat" "n_sets \<noteq> 0" using ok by (simp_all add: create_ok_def f)
  have nb: "0 < unat n_banks" "unat n_banks < 2 ^ 31" using p(4) sint_pos_iff [of n_banks] by simp_all
  have hs: "int (unat lat) < int (heap_size c)" "0 < heap_size c" using ceil_log2_ge [of "unat lat + 1"] by (simp_all add: f del: of_nat_unat)
  have "unat lat < 2 ^ 32" using unsigned_less [of lat] by simp
  then have sl: "sint lat = int (unat lat)" using p(5) sint_cint [of lat] by (simp del: of_nat_unat split: if_splits)
  have a0: "cb action0 = None" "MSHR_link action0 = None" by (simp_all add: action0_def)
  have free: "mtok action0 = {#}" "\<not> waiting action0" "reg_ok from pf c action0" using free_entry [OF a0(1)] a0 by (simp_all add: reg_ok_def occ_def)
  have "mshr_inv c0" by (rule cache_create_mshr_inv [OF c p(1-3)])
  then have "mshr_inv c" by (simp add: d mshr_inv_def static_ok_def bank_ok_def GET_MSHR_BANK_def fun_eq_iff cong: GET_MSHR_BANK_cong)
  moreover have "banks_ok c" using nb hs(1) p(5) sl flt by (simp add: banks_ok_def f e(1) del: of_nat_unat)
  moreover have "set_ok (cache_params.truncate c) (cache_set_create (unat n_assoc))"
    using set_create_ok [of "cache_params.truncate c"] ok f(2) by (simp add: create_ok_def cache_params.truncate_def)
  then have "sets_ok c" using p(6) by (simp add: sets_ok_def f set_cored_def cache_set_create_def line0_def list.pred_map comp_def list_all_length)
  moreover have "pipe_bank_ok from pf c b \<and> fill_bank_ok c b" if "b < unat n_banks" for b
    using that p(5) hs(2) a0 by (simp add: pipe_bank_ok_def fill_bank_ok_def Let_def f(5,7-10) heap_ok_def fill0_def)
  moreover have "list_all (reg_ok from pf c) (MSHR c ! b)" if "b < unat mbanks" for b using that free(3) by (simp add: f list_all_length)
  ultimately show "cache_inv from pf c" by (simp add: cache_inv_def f(3,11))
  show "toks c = {#}" by (simp add: toks_def f(7,8,14) pipe_toks_def free sum_list_empty)
  show "waits c = {}" by (auto simp: waits_def f(14) free(2))
qed

definition created :: "cache_t \<Rightarrow> bool" where
  "created c \<longleftrightarrow> create_ok c \<and> (\<exists>ro n_sets n_assoc lsize rp ap wp wc n_banks bwidth lat msize wbsize mbanks flt.
     \<exists>c0. cache_create ro n_sets n_assoc lsize rp ap wp wc n_banks bwidth lat msize wbsize mbanks = Some c0 \<and>
       c = c0\<lparr>PF_filter := flt\<rparr> \<and> interval_ok (map_option reset_interval flt))"

lemma created_inv:
  assumes "created c"
  shows "cache_inv from pf c \<and> toks c = {#} \<and> waits c = {}"
proof -
  obtain ro n_sets n_assoc lsize rp ap wp wc n_banks bwidth lat msize wbsize mbanks flt c0 where
    c0: "cache_create ro n_sets n_assoc lsize rp ap wp wc n_banks bwidth lat msize wbsize mbanks = Some c0" "c = c0\<lparr>PF_filter := flt\<rparr>"
    "interval_ok (map_option reset_interval flt)"
    using assms unfolding created_def by blast
  then show ?thesis using cache_create_inv [OF c0] assms by (simp add: created_def)
qed

text \<open>A system before its first cycle: created caches and an empty memory controller.\<close>

definition sys_init :: "(nat \<Rightarrow> bool) \<Rightarrow> msys \<Rightarrow> bool" where
  "sys_init Pf st \<longleftrightarrow> topo Pf 0 st \<and> (\<forall>k < length (nodes st). created (cache_of st k) \<and> pf_ok (Pf k) (nodes st ! k)) \<and>
     (case MC st of MC_ideal n \<Rightarrow> True | MC_simple m \<Rightarrow> 0 < sint (RQ_size m) \<and> m = MC_simple_create (RQ_size m) (FIFO_scheduling m))"

lemma sys_init_inv:
  assumes "sys_init Pf st"
  shows "sys_inv Pf 0 {#} st"
proof -
  have c: "node_inv (from_of st k) (Pf k) (nodes st ! k)" "toks (cache_of st k) = {#}" "waits (cache_of st k) = {}" if "k < length (nodes st)" for k
    using assms that created_inv [of "cache_of st k"] by (auto simp: sys_init_def node_inv_def cache_of_def)
  have m: "mc_inv (uncore_params st) (MC st) \<and> mctoks (MC st) = {#}"
  proof (cases "MC st")
    case (MC_simple m)
    then have n: "0 < sint (RQ_size m)" "m = MC_simple_create (RQ_size m) (FIFO_scheduling m)" using assms by (simp_all add: sys_init_def)
    have v: "RQ m = replicate (unat (RQ_size m)) mc_action0" "RQ_num m = 0" "RQ_head m = 0" "RQ_tail m = 0"
      by (subst n(2), simp add: MC_simple_create_def)+
    have s: "0 < unat (RQ_size m)" "unat (RQ_size m) < 2 ^ 31" using n(1) sint_pos_iff [of "RQ_size m"] by simp_all
    then show ?thesis
      by (simp add: MC_simple mcs_inv_def v ring_ok_def in_ring_def mc_action0_def mctok_def sum_list_empty list_all_length)
  qed simp
  have "in_flight st = all_waits st" using c m by (simp add: in_flight_def all_waits_def cwaits_def)
  then show ?thesis using assms c(1) m by (simp add: sys_inv_def sys_init_def)
qed

section \<open>Runs\<close>

text \<open>The operations that the simulation loop and the cores call.\<close>

datatype sys_op = Core_Request nat request cint md_addr_t | Cache_Cycle nat env | Cache_Prefetch nat | Prefetch_Control nat | Uncore_Cycle env

fun sys_step :: "sys_op \<Rightarrow> msys \<Rightarrow> msys option" where
  "sys_step (Core_Request k rq asid a) st = core_enqueue k rq asid a st"
| "sys_step (Cache_Cycle k v) st = cache_process v k st"
| "sys_step (Cache_Prefetch k) st = cache_prefetch k st"
| "sys_step (Prefetch_Control k) st = prefetch_controller_update k st"
| "sys_step (Uncore_Cycle v) st = uncore_step v st"

text \<open>The callers' side of the contract: the cache exists, and a core asks \<^verbatim>\<open>cache_enqueuable\<close> first, gives
  a callback and itself as the core, and does not write a read-only cache.\<close>

fun sys_allowed :: "sys_op \<Rightarrow> msys \<Rightarrow> bool" where
  "sys_allowed (Core_Request k rq asid a) st \<longleftrightarrow> k < length (nodes st) \<and> cache_enqueuable (vmem st) (cache_of st k) asid a = Some True \<and>
     rq_cb rq \<noteq> None \<and> rq_core rq \<noteq> None \<and> rq_prev_cp rq = None \<and> rq_cmd rq \<noteq> CACHE_PREFETCH \<and> (read_only (cache_of st k) \<longrightarrow> \<not> writes (rq_cmd rq))"
| "sys_allowed (Cache_Cycle k v) st \<longleftrightarrow> k < length (nodes st)"
| "sys_allowed (Cache_Prefetch k) st \<longleftrightarrow> k < length (nodes st)"
| "sys_allowed (Prefetch_Control k) st \<longleftrightarrow> k < length (nodes st)"
| "sys_allowed (Uncore_Cycle v) st \<longleftrightarrow> True"

text \<open>A system whose guarded steps succeed and keep an invariant that depends on the time.\<close>

primrec guarded :: "('op \<Rightarrow> 's \<Rightarrow> bool) \<Rightarrow> ('op \<Rightarrow> 's \<Rightarrow> 's option) \<Rightarrow> 'op list \<Rightarrow> 's \<Rightarrow> bool" where
  "guarded g f [] s = True"
| "guarded g f (x # xs) s = (g x s \<and> (case f x s of None \<Rightarrow> True | Some s' \<Rightarrow> guarded g f xs s'))"

locale clocked_system =
  fixes step :: "'op \<Rightarrow> 's \<Rightarrow> 's option" and allow :: "'op \<Rightarrow> 's \<Rightarrow> bool" and kept :: "int \<Rightarrow> 's \<Rightarrow> bool" and bound :: int
  assumes progress: "\<And>t op s. kept t s \<Longrightarrow> t < bound \<Longrightarrow> allow op s \<Longrightarrow> \<exists>s'. step op s = Some s' \<and> kept (t + 1) s'"
begin

lemma run_kept:
  assumes "kept t s" and "guarded allow step ops s" and "t + int (length ops) \<le> bound"
  shows "\<exists>s'. fold_opt step ops s = Some s' \<and> kept (t + int (length ops)) s'"
  using assms
proof (induction ops arbitrary: s t)
  case (Cons op ops)
  then have "t < bound" "allow op s" by simp_all
  with progress [OF Cons.prems(1)] obtain s' where s': "step op s = Some s'" "kept (t + 1) s'" by blast
  then have "guarded allow step ops s'" "t + 1 + int (length ops) \<le> bound" using Cons.prems by simp_all
  from Cons.IH [OF s'(2) this] s'(1) show ?case by (simp add: add.assoc)
qed simp

end

lemma sys_step_inv:
  assumes inv: "sys_inv Pf t {#} st" and t: "t < 2 ^ 62" and a: "sys_allowed op st"
  shows "\<exists>st'. sys_step op st = Some st' \<and> sys_inv Pf (t + 1) {#} st'"
proof -
  have up: "sys_inv Pf (t + 1) {#} s" if "sys_inv Pf t {#} s" for s using sys_inv_mono [OF that, of "t + 1"] t by simp
  show ?thesis
  proof (cases op)
    case (Core_Request k rq asid x)
    then show ?thesis using a core_enqueue_inv [OF inv, of k asid x rq] up by auto
  next
    case (Cache_Cycle k v)
    then show ?thesis using a cache_process_inv [OF inv t, of k v] up by (auto split: if_splits)
  next
    case (Cache_Prefetch k)
    then show ?thesis using a cache_prefetch_inv [OF inv, of k] up by auto
  next
    case (Prefetch_Control k)
    then show ?thesis using a prefetch_controller_update_inv [OF inv, of k] up by auto
  next
    case (Uncore_Cycle v)
    then show ?thesis using uncore_step_inv [OF inv t, of v] by auto
  qed
qed

interpretation msys: clocked_system sys_step sys_allowed "\<lambda>t. sys_inv Pf t {#}" "2 ^ 62" for Pf
  by unfold_locales (rule sys_step_inv)

lemma count_all_waits:
  assumes "k < length (nodes st)"
  shows "count (all_waits st) (k, b, i) = of_bool ((b, i) \<in> waits (cache_of st k))"
proof -
  have "count (cwaits j (cache_of st j)) (k, b, i) = (if j = k then of_bool ((b, i) \<in> waits (cache_of st k)) else 0)" for j
  proof (cases "j = k")
    case True
    have "image_mset (Pair k) (mset_set (waits (cache_of st k))) = mset_set (Pair k ` waits (cache_of st k))"
      by (rule image_mset_mset_set) (simp add: inj_on_def)
    moreover have "(k, b, i) \<in> Pair k ` waits (cache_of st k) \<longleftrightarrow> (b, i) \<in> waits (cache_of st k)" by auto
    ultimately show ?thesis using True by (simp add: cwaits_def count_mset_set')
  next
    case False
    then have "(k, b, i) \<notin># cwaits j (cache_of st j)" by (auto simp: cwaits_def)
    then show ?thesis using False by (simp add: not_in_iff)
  qed
  then show ?thesis using assms by (simp add: all_waits_def count_sum)
qed

text \<open>C1: the memory hierarchy loses no request and fails no assertion, under these conditions.

  The system is in its first cycle: caches from \<^verbatim>\<open>cache_create\<close>, with at least one set, bank and register bank,
  fewer write-back than miss registers, and the ways their policy needs (\<open>params_ok\<close>: two at least for NMRU and
  clock, a power of two for pseudo-LRU, 64 at most for clock); linked by next-level pointers and buses, a
  cache without a bus having neither a next level nor prefetch sampling; over an ideal memory controller or
  an empty queueing one of positive length. Bank and line sizes agree, a line takes at least one burst, there
  is no prefetch buffer, prefetch filters have a reset interval other than zero, prefetch FIFOs and stream
  tables are well-formed, a read-only cache is above read-only write-through caches only, and from a cache
  with prefetchers downwards the register banks of adjacent levels agree.

  Then make any sequence of at most 2^62 requests of the cores, cache cycles, prefetches, prefetch control
  updates and uncore cycles in which a core asks \<^verbatim>\<open>cache_enqueuable\<close> before it enqueues, gives a callback, and
  does not itself prefetch nor write a read-only cache. Every step succeeds: none of the assertions of the
  caches, the controllers of \<^verbatim>\<open>ZCOMPS-coherence\<close>, the prefetch FIFO, the memory controller and the DRAM fails.
  In every state so reached, the requests in flight in the pipelines, miss registers and memory controller
  above a cache are, each exactly once, its registers that were sent and not yet answered: no answer is lost
  and none arrives twice.\<close>

theorem requests_conserved:
  assumes "sys_init Pf st0" and "guarded sys_allowed sys_step ops st0" and "int (length ops) \<le> 2 ^ 62"
  shows "\<exists>st. fold_opt sys_step ops st0 = Some st \<and>
    (\<forall>k < length (nodes st). \<forall>b i. count (in_flight st) (k, b, i) = of_bool ((b, i) \<in> waits (cache_of st k)))"
proof -
  obtain st where st: "fold_opt sys_step ops st0 = Some st" "sys_inv Pf (0 + int (length ops)) {#} st"
    using msys.run_kept [OF sys_init_inv [OF assms(1)] assms(2)] assms(3) by auto
  then have "in_flight st = all_waits st" by (simp add: sys_inv_def)
  then show ?thesis using st(1) count_all_waits by auto
qed

text \<open>A first-level cache with a next-line prefetcher over a last-level cache, a queueing controller and
  SDRAM.\<close>

definition ex_L1 :: cache_t where
  "ex_L1 = the (cache_create False 2 2 64 (CHR ''L'') (CHR ''W'') (CHR ''B'') (CHR ''N'') 1 8 3 4 2 1)"

definition ex_L2 :: cache_t where
  "ex_L2 = the (cache_create False 4 2 64 (CHR ''L'') (CHR ''W'') (CHR ''B'') (CHR ''N'') 1 8 5 4 2 1)"

definition ex_sys :: msys where
  "ex_sys =
     \<lparr>nodes = [prefetchers_create [PF_nextline (prefetch_nextline_create \<lparr>geom_linesize = 64, geom_addr_shift = 6\<rparr>)]
                 \<lparr>pff_size = 8, pf_thresh = 2, pf_max = 1, pf_buffer_size = 0, pf_filter_size = 0, pf_filter_reset = 0, pf_on_miss = False,
                  watermark_interval = 0, low_watermark = 0, high_watermark = 0\<rparr>
                 (node_create ex_L1 None (Some 1) (Some 0) Ctl_none),
               node_create ex_L2 None None (Some 1) Ctl_none],
      buses = [bus_create False 64 Uncore_Clock 1, bus_create True 8 Uncore_Clock 1], LLC = 1, fsb = 1, uncore_cycle = 0, core_cycles = [0],
      uncore_params = ex_fsb, fsb_magic = False, MC = MC_simple (MC_simple_create 4 False), dram = Dram_simplesdram ex_dram,
      writers = Map.empty, vmem = mem_statics, calls = []\<rparr>"

definition ex_request :: request where
  "ex_request = \<lparr>rq_core = Some 0, rq_prev_cp = None, rq_cmd = CACHE_READ, rq_PC = 0x400, rq_action_id = 1, rq_MSHR_bank = 0,
     rq_MSHR_index = NO_MSHR, rq_op = Some 7, rq_cb = Some 9, rq_miss_cb = Some 8, rq_translated_cb = None,
     rq_get_action_id = Some 3, rq_prefetcher_hint = False\<rparr>"

definition ex_env :: env where
  "ex_env = \<lparr>translated = (\<lambda>_. True), current_id = (\<lambda>_ _. 1), rand_draw = (\<lambda>_. 0), magic_draw = (\<lambda>_. None)\<rparr>"

lemmas create_eval = cache_create_def parse_rp_def parse_ap_def parse_wp_def parse_wc_def pow2_or_zero_def Let_def word_sless_alt ceil_log2.simps

lemma ex_caches_created: "created ex_L1" "created ex_L2"
proof -
  have a: "cache_create False 2 2 64 (CHR ''L'') (CHR ''W'') (CHR ''B'') (CHR ''N'') 1 8 3 4 2 1 = Some ex_L1"
    by (simp add: ex_L1_def create_eval)
  have b: "cache_create False 4 2 64 (CHR ''L'') (CHR ''W'') (CHR ''B'') (CHR ''N'') 1 8 5 4 2 1 = Some ex_L2"
    by (simp add: ex_L2_def create_eval)
  have "create_ok ex_L1" by (simp add: ex_L1_def create_eval create_ok_def params_ok_def cache_params.truncate_def)
  moreover have "create_ok ex_L2" by (simp add: ex_L2_def create_eval create_ok_def params_ok_def cache_params.truncate_def)
  moreover have "interval_ok (map_option reset_interval None)" "ex_L1 = ex_L1\<lparr>PF_filter := None\<rparr>" "ex_L2 = ex_L2\<lparr>PF_filter := None\<rparr>" by (simp_all add: ex_L1_def ex_L2_def create_eval interval_ok_def)
  ultimately show "created ex_L1" "created ex_L2" using a b unfolding created_def by blast+
qed

lemma ex_sys_init: "sys_init (\<lambda>_. True) ex_sys"
proof -
  have e: "GET_MSHR_BANK ex_L2 = GET_MSHR_BANK ex_L1" by (rule GET_MSHR_BANK_cong) (simp_all add: ex_L1_def ex_L2_def create_eval)
  have f: "bank_shift ex_L1 = addr_shift ex_L1" "bank_shift ex_L2 = addr_shift ex_L2" "linesize ex_L1 = 64" "linesize ex_L2 = 64"
    "read_only ex_L2 = False" by (simp_all add: ex_L1_def ex_L2_def create_eval)
  have b: "0 <s burst_chunks ex_fsb 64" by code_simp
  have "topo (\<lambda>_. True) 0 ex_sys"
    using e f b by (auto simp: topo_def ex_sys_def link_ok_def Let_def clock_ok_def less_Suc_eq cache_of_def prefetchers_create_def node_create_def
        prefetch_buffer_create_def prefetch_filter_create_def)
  moreover have "created (cache_of ex_sys k) \<and> pf_ok True (nodes ex_sys ! k)" if "k < length (nodes ex_sys)" for k
    using that ex_caches_created
    by (auto simp: ex_sys_def less_Suc_eq cache_of_def prefetchers_create_def node_create_def prefetch_buffer_create_def prefetch_filter_create_def
        pf_ok_def pff_inv_def pfr_ok_def ring_ok_def in_ring_def)
  ultimately show ?thesis by (simp add: sys_init_def ex_sys_def MC_simple_create_def)
qed

definition ex_ops :: "sys_op list" where
  "ex_ops = Core_Request 0 ex_request DO_NOT_TRANSLATE 0x10040 # Cache_Prefetch 0 # concat (replicate 5 [Cache_Cycle 0 ex_env, Uncore_Cycle ex_env])"

theorem requests_conserved_witness:
  "\<exists>st. fold_opt sys_step ex_ops ex_sys = Some st \<and>
    (\<forall>k < length (nodes st). \<forall>b i. count (in_flight st) (k, b, i) = of_bool ((b, i) \<in> waits (cache_of st k)))"
proof (rule requests_conserved [OF ex_sys_init])
  show "guarded sys_allowed sys_step ex_ops ex_sys" by code_simp
  show "int (length ex_ops) \<le> 2 ^ 62" by code_simp
qed

end
