(* ===== verification/Frontend.thy ===== *)
theory Frontend
  imports Ring Cache_Heap "HOL-Library.Monad_Syntax"
begin

text \<open>
  The front end of the detailed pipeline: the byte queue, predecode pipe and instruction queue of
  \<^verbatim>\<open>ZPIPE-fetch/fetch-DPM.cpp\<close> and the decode pipe and uop queue of \<^verbatim>\<open>ZPIPE-decode/decode-DPM.cpp\<close>. A pointer
  to a Mop is its index in the oracle's \<^verbatim>\<open>MopQ\<close>, a pointer to a uop is a Mop and an index into its uops.
  What the oracle, the branch predictor and the cache tell the front end are arguments; the calls to their
  recovery functions are recorded in \<open>events\<close>. The counts of uops and Mops in an entry or a queue (\<^verbatim>\<open>num_Mop\<close>,
  \<^verbatim>\<open>IQ_uop_num\<close>, \<^verbatim>\<open>uopQ_eff_num\<close>, \<^verbatim>\<open>occupancy\<close>) and the sizes of a Mop are mathematical integers, the indices and
  lengths of the circular queues 32-bit words; occupancy statistics are not modelled. None is a failed
  \<^verbatim>\<open>zesto_assert\<close>, a null pointer or an access out of range.
\<close>

definition sure :: "bool \<Rightarrow> 'a \<Rightarrow> 'a option" where
  "sure ok v = (if ok then Some v else None)"

section \<open>State\<close>

text \<open>The fields of \<^verbatim>\<open>uop_t\<close> and \<^verbatim>\<open>Mop_t\<close> that the front end reads and writes.\<close>

record uop_t =
  has_imm :: bool
  in_fusion :: bool
  is_fusion_head :: bool
  fusion_size :: int
  BOM :: bool
  EOM :: bool
  uop_recover_inst :: bool
  when_decoded :: tick_t

record Mop_t =
  uop :: "uop_t list"
  fetch_PC :: md_addr_t
  pred_NPC :: md_addr_t
  ftPC :: md_addr_t
  len :: nat
  first_byte_requested :: bool
  last_byte_requested :: bool
  jeclear_action_id :: seq_t
  bpred_update :: "nat option"
  UNCOND :: bool
  flow_length :: nat
  last_uop_index :: nat
  targetPC :: md_addr_t
  is_ctrl :: bool
  has_rep :: bool
  last_stage_index :: nat
  jeclear_in_flight :: bool
  NextPC :: md_addr_t
  oracle_seq :: seq_t
  taken_branch :: bool
  recover_inst :: bool
  when_fetch_started :: tick_t
  when_fetched :: tick_t
  when_MS_started :: tick_t
  when_decode_started :: tick_t
  when_decode_finished :: tick_t
  num_uops :: int
  num_eff_uops :: int

record byteQ_entry_t =
  bq_addr :: md_addr_t
  bq_when_fetch_requested :: tick_t
  bq_when_fetched :: tick_t
  bq_when_translation_requested :: tick_t
  bq_when_translated :: tick_t
  num_Mop :: int
  MopQ_first_index :: cint
  bq_action_id :: seq_t

record jeclear_pipe_t =
  New_PC :: md_addr_t
  je_Mop :: "nat option"
  je_action_id :: seq_t

datatype decode_stall_t = DSTALL_NONE | DSTALL_FULL | DSTALL_REP | DSTALL_UROM | DSTALL_SMALL | DSTALL_EMPTY | DSTALL_PHANTOM
  | DSTALL_TARGET | DSTALL_MAX_BRANCHES

datatype fetch_stall_t = FSTALL_byteQ_FULL | FSTALL_TBR | FSTALL_EOL | FSTALL_SPLIT | FSTALL_SYSCALL | FSTALL_ZPAGE | FSTALL_REP
  | FSTALL_ORACLE

text \<open>What \<^verbatim>\<open>core->knobs\<close> holds for the front end, and the size of the oracle's queue.\<close>

record knobs_t =
  fetch_depth :: nat
  fetch_width :: nat
  IQ_size :: cint
  byteQ_size :: cint
  byteQ_linemask :: cint
  jeclear_delay :: nat
  decode_depth :: nat
  decode_width :: nat
  target_stage :: nat
  uopQ_size :: cint
  branch_decode_limit :: nat
  MS_latency :: cint
  max_uops :: "int list"
  MopQ_size :: cint

record fetch_t =
  PC :: md_addr_t
  byteQ :: "byteQ_entry_t list"
  byteQ_num :: cint
  byteQ_head :: cint
  byteQ_tail :: cint
  IQ :: "nat option list"
  IQ_num :: cint
  IQ_head :: cint
  IQ_tail :: cint
  IQ_uop_num :: int
  IQ_eff_uop_num :: int
  predecode :: "nat option list list"
  jeclear_pipe :: "jeclear_pipe_t list"
  stall_reason :: fetch_stall_t

record decode_t =
  pipe :: "nat option list list"
  occupancy :: "int list"
  uopQ :: "(nat \<times> nat) option list"
  uopQ_head :: cint
  uopQ_tail :: cint
  uopQ_num :: cint
  uopQ_eff_num :: int

record fe_stat_t =
  target_resteers :: counter_t
  phantom_resteers :: counter_t
  decode_insn :: counter_t
  decode_uops :: counter_t
  decode_eff_uops :: counter_t
  decode_stall :: "decode_stall_t \<Rightarrow> counter_t"
  predecode_insn :: counter_t
  predecode_uops :: counter_t
  predecode_eff_uops :: counter_t
  predecode_bytes :: counter_t
  fetch_insn :: counter_t
  fetch_bytes :: counter_t
  fetch_uops :: counter_t
  fetch_eff_uops :: counter_t
  fetch_stall :: "fetch_stall_t \<Rightarrow> counter_t"

text \<open>The calls that leave the front end.\<close>

datatype fe_event = Bpred_Recover nat bool | Oracle_Recover nat | Oracle_Consume nat | Oracle_Flush | Back_Recover nat | Back_Flush
  | IL1_Read md_addr_t seq_t | ITLB_Read md_addr_t seq_t

record front_t =
  knobs :: knobs_t
  MopQ :: "Mop_t list"
  fetch :: fetch_t
  decode :: decode_t
  sim_cycle :: tick_t
  global_action_id :: seq_t
  active :: bool
  stat :: fe_stat_t
  events :: "fe_event list"

definition ZESTO_STAT :: "(fe_stat_t \<Rightarrow> fe_stat_t) \<Rightarrow> front_t \<Rightarrow> front_t" where
  "ZESTO_STAT f st = (if active st then st\<lparr>stat := f (stat st)\<rparr> else st)"

definition upd_Mop :: "nat \<Rightarrow> (Mop_t \<Rightarrow> Mop_t) \<Rightarrow> front_t \<Rightarrow> front_t" where
  "upd_Mop M f st = st\<lparr>MopQ := (MopQ st)[M := f (MopQ st ! M)]\<rparr>"

definition upd_fetch :: "(fetch_t \<Rightarrow> fetch_t) \<Rightarrow> front_t \<Rightarrow> front_t" where
  "upd_fetch f st = st\<lparr>fetch := f (fetch st)\<rparr>"

definition upd_decode :: "(decode_t \<Rightarrow> decode_t) \<Rightarrow> front_t \<Rightarrow> front_t" where
  "upd_decode f st = st\<lparr>decode := f (decode st)\<rparr>"

definition emit :: "fe_event \<Rightarrow> front_t \<Rightarrow> front_t" where
  "emit e st = st\<lparr>events := e # events st\<rparr>"

section \<open>Construction\<close>

text \<open>The parts of the constructors that concern the queues. A negative width or depth fails in \<^verbatim>\<open>calloc\<close>;
  the decode constructor also tests the stage of the target check.\<close>

definition byteQ_entry0 :: byteQ_entry_t where
  "byteQ_entry0 = \<lparr>bq_addr = 0, bq_when_fetch_requested = 0, bq_when_fetched = 0, bq_when_translation_requested = 0,
     bq_when_translated = 0, num_Mop = 0, MopQ_first_index = 0, bq_action_id = 0\<rparr>"

definition fetch_create :: "knobs_t \<Rightarrow> fetch_t" where
  "fetch_create k =
     \<lparr>PC = 0, byteQ = replicate (unat (byteQ_size k)) byteQ_entry0, byteQ_num = 0, byteQ_head = 0, byteQ_tail = 0,
      IQ = replicate (unat (IQ_size k)) None, IQ_num = 0, IQ_head = 0, IQ_tail = 0, IQ_uop_num = 0, IQ_eff_uop_num = 0,
      predecode = replicate (fetch_depth k) (replicate (fetch_width k) None),
      jeclear_pipe = replicate (jeclear_delay k) \<lparr>New_PC = 0, je_Mop = None, je_action_id = 0\<rparr>, stall_reason = FSTALL_SYSCALL\<rparr>"

definition decode_create :: "knobs_t \<Rightarrow> decode_t option" where
  "decode_create k =
     sure (0 < decode_depth k \<and> 0 < decode_width k \<and> 0 < target_stage k \<and> target_stage k < decode_depth k)
       \<lparr>pipe = replicate (decode_depth k) (replicate (decode_width k) None), occupancy = replicate (decode_depth k) 0,
        uopQ = replicate (unat (uopQ_size k)) None, uopQ_head = 0, uopQ_tail = 0, uopQ_num = 0, uopQ_eff_num = 0\<rparr>"

section \<open>The byte queue\<close>

definition byteQ_is_full :: "front_t \<Rightarrow> bool" where
  "byteQ_is_full st \<longleftrightarrow> byteQ_size (knobs st) \<le>s byteQ_num (fetch st)"

definition line_of :: "front_t \<Rightarrow> md_addr_t \<Rightarrow> md_addr_t" where
  "line_of st a = a AND scast (byteQ_linemask (knobs st))"

definition byteQ_last :: "front_t \<Rightarrow> nat" where
  "byteQ_last st = unat (moddec (byteQ_tail (fetch st)) (byteQ_size (knobs st)))"

definition byteQ_already_requested :: "front_t \<Rightarrow> md_addr_t \<Rightarrow> bool" where
  "byteQ_already_requested st a \<longleftrightarrow> byteQ_num (fetch st) \<noteq> 0 \<and> bq_addr (byteQ (fetch st) ! byteQ_last st) = line_of st a"

definition new_action_id :: "front_t \<Rightarrow> front_t" where
  "new_action_id st = st\<lparr>global_action_id := global_action_id st + 1\<rparr>"

definition byteQ_request :: "md_addr_t \<Rightarrow> front_t \<Rightarrow> front_t option" where
  "byteQ_request lineaddr st =
     (let st = new_action_id st; t = unat (byteQ_tail (fetch st)) in
      sure (t < length (byteQ (fetch st)))
        (upd_fetch (\<lambda>f. f\<lparr>byteQ := (byteQ f)[t := (byteQ f ! t)\<lparr>bq_when_fetch_requested := TICK_T_MAX, bq_when_fetched := TICK_T_MAX,
              bq_when_translation_requested := TICK_T_MAX, bq_when_translated := TICK_T_MAX, bq_addr := lineaddr,
              bq_action_id := global_action_id st\<rparr>],
            byteQ_tail := modinc (byteQ_tail f) (byteQ_size (knobs st)), byteQ_num := byteQ_num f + 1\<rparr>) st))"

text \<open>The callbacks of the instruction cache and TLB, for the entry whose address they were given.\<close>

definition IL1_callback :: "nat \<Rightarrow> front_t \<Rightarrow> front_t" where
  "IL1_callback i st = upd_fetch (\<lambda>f. f\<lparr>byteQ := (byteQ f)[i := (byteQ f ! i)\<lparr>bq_when_fetched := sim_cycle st\<rparr>]\<rparr>) st"

definition ITLB_callback :: "nat \<Rightarrow> front_t \<Rightarrow> front_t" where
  "ITLB_callback i st = upd_fetch (\<lambda>f. f\<lparr>byteQ := (byteQ f)[i := (byteQ f ! i)\<lparr>bq_when_translated := sim_cycle st\<rparr>]\<rparr>) st"

definition translated_callback :: "nat \<Rightarrow> seq_t \<Rightarrow> front_t \<Rightarrow> bool" where
  "translated_callback i aid st \<longleftrightarrow>
     (if bq_action_id (byteQ (fetch st) ! i) = aid then bq_when_translated (byteQ (fetch st) ! i) \<le>s sim_cycle st else True)"

section \<open>Predecode and the instruction queue\<close>

definition free_index :: "nat option list \<Rightarrow> nat" where
  "free_index slots = length (dropWhile (\<lambda>s. s = None) (rev slots))"

definition predecode_enqueue :: "nat \<Rightarrow> front_t \<Rightarrow> bool \<times> front_t" where
  "predecode_enqueue M st =
     (let i = free_index (predecode (fetch st) ! 0) in
      if i < fetch_width (knobs st)
      then (True, upd_fetch (\<lambda>f. f\<lparr>predecode := (predecode f)[0 := (predecode f ! 0)[i := Some M]]\<rparr>) st)
      else (False, st))"

definition at_EOM :: "Mop_t \<Rightarrow> bool" where
  "at_EOM m \<longleftrightarrow> EOM (uop m ! last_uop_index m)"

definition IQ_insert :: "nat \<Rightarrow> nat \<Rightarrow> front_t \<Rightarrow> front_t" where
  "IQ_insert i M st =
     (let m = MopQ st ! M; last = fetch_depth (knobs st) - 1;
          st = (if at_EOM m
                then ZESTO_STAT (\<lambda>s. s\<lparr>predecode_insn := predecode_insn s + 1, predecode_uops := predecode_uops s + of_int (num_uops m),
                       predecode_eff_uops := predecode_eff_uops s + of_int (num_eff_uops m)\<rparr>) st else st);
          st = ZESTO_STAT (\<lambda>s. s\<lparr>predecode_bytes := predecode_bytes s + of_nat (len m)\<rparr>) st
      in upd_fetch (\<lambda>f. f\<lparr>IQ := (IQ f)[unat (IQ_tail f) := Some M],
            predecode := (predecode f)[last := (predecode f ! last)[i := None]],
            IQ_tail := modinc (IQ_tail f) (IQ_size (knobs st)), IQ_num := IQ_num f + 1,
            IQ_uop_num := IQ_uop_num f + num_uops m, IQ_eff_uop_num := IQ_eff_uop_num f + num_eff_uops m\<rparr>) st)"

fun fill_IQ :: "nat list \<Rightarrow> front_t \<Rightarrow> front_t" where
  "fill_IQ [] st = st"
| "fill_IQ (i # is) st =
     (if IQ_num (fetch st) <s IQ_size (knobs st)
      then (case predecode (fetch st) ! (fetch_depth (knobs st) - 1) ! i of
              None \<Rightarrow> fill_IQ is st
            | Some M \<Rightarrow> fill_IQ is (IQ_insert i M st))
      else st)"

fun shuffle_predecode :: "nat \<Rightarrow> nat option list list \<Rightarrow> nat option list list" where
  "shuffle_predecode 0 p = p"
| "shuffle_predecode (Suc i) p =
     shuffle_predecode i (if list_all (\<lambda>s. s = None) (p ! Suc i) then p[Suc i := p ! i, i := map (\<lambda>_. None) (p ! i)] else p)"

definition byteQ_release :: "front_t \<Rightarrow> front_t" where
  "byteQ_release st = upd_fetch (\<lambda>f. f\<lparr>byteQ := (byteQ f)[unat (byteQ_head f) := (byteQ f ! unat (byteQ_head f))
       \<lparr>MopQ_first_index := -1, bq_when_fetch_requested := TICK_T_MAX, bq_when_fetched := TICK_T_MAX,
        bq_when_translation_requested := TICK_T_MAX, bq_when_translated := TICK_T_MAX\<rparr>],
     byteQ_num := byteQ_num f - 1, byteQ_head := modinc (byteQ_head f) (byteQ_size (knobs st))\<rparr>) st"

definition predecode_Mop :: "nat \<Rightarrow> front_t \<Rightarrow> front_t" where
  "predecode_Mop M st =
     (let m = MopQ st ! M; st = upd_Mop M (\<lambda>m. m\<lparr>when_fetched := sim_cycle st\<rparr>) st;
          st = (if at_EOM m then ZESTO_STAT (\<lambda>s. s\<lparr>fetch_insn := fetch_insn s + 1, fetch_bytes := fetch_bytes s + of_nat (len m)\<rparr>) st else st);
          st = ZESTO_STAT (\<lambda>s. s\<lparr>fetch_uops := fetch_uops s + of_int (num_uops m), fetch_eff_uops := fetch_eff_uops s + of_int (num_eff_uops m)\<rparr>) st
      in upd_fetch (\<lambda>f. f\<lparr>byteQ := (byteQ f)[unat (byteQ_head f) := (byteQ f ! unat (byteQ_head f))
            \<lparr>num_Mop := num_Mop (byteQ f ! unat (byteQ_head f)) - 1,
             MopQ_first_index := modinc (MopQ_first_index (byteQ f ! unat (byteQ_head f))) (MopQ_size (knobs st))\<rparr>]\<rparr>) st)"

text \<open>The loop that empties the first byte queue entry. Its index does not follow the head, so a released
  entry, whose time stamps are reset, ends the loop. The argument \<open>n\<close> bounds the Mops of the entry.\<close>

fun drain_byteQ :: "nat \<Rightarrow> front_t \<Rightarrow> front_t option" where
  "drain_byteQ 0 st = None"
| "drain_byteQ (Suc n) st =
     (let e = byteQ (fetch st) ! unat (byteQ_head (fetch st)); M = unat (MopQ_first_index e) in
      if \<not> (byteQ_num (fetch st) \<noteq> 0 \<and> bq_when_fetched e \<noteq> TICK_T_MAX \<and> bq_when_translated e \<noteq> TICK_T_MAX) then Some st
      else if num_Mop e \<noteq> 0 then
        (if length (MopQ st) \<le> M then None
         else (case predecode_enqueue M st of
                 (False, st) \<Rightarrow> Some st
               | (True, st) \<Rightarrow> (if num_Mop e - 1 \<le> 0 then Some (byteQ_release (predecode_Mop M st)) else drain_byteQ n (predecode_Mop M st))))
      else Some (byteQ_release st))"

text \<open>\<^verbatim>\<open>post_fetch\<close> after the cycles of the instruction cache and TLB.\<close>

definition post_fetch :: "front_t \<Rightarrow> front_t option" where
  "post_fetch st =
     (let st = fill_IQ [0 ..< fetch_width (knobs st)] st;
          st = upd_fetch (\<lambda>f. f\<lparr>predecode := shuffle_predecode (fetch_depth (knobs st) - 1) (predecode f)\<rparr>) st
      in do { st \<leftarrow> drain_byteQ (Suc (nat (num_Mop (byteQ (fetch st) ! unat (byteQ_head (fetch st)))))) st;
              Some (upd_fetch (\<lambda>f. f\<lparr>stall_reason := FSTALL_EOL\<rparr>) st) })"

definition Mop_available :: "front_t \<Rightarrow> bool" where
  "Mop_available st \<longleftrightarrow> 0 <s IQ_num (fetch st)"

definition Mop_peek :: "front_t \<Rightarrow> nat option" where
  "Mop_peek st = IQ (fetch st) ! unat (IQ_head (fetch st))"

definition Mop_consume :: "front_t \<Rightarrow> front_t option" where
  "Mop_consume st =
     (case IQ (fetch st) ! unat (IQ_head (fetch st)) of
        None \<Rightarrow> None
      | Some M \<Rightarrow>
          (let m = MopQ st ! M;
               st = upd_fetch (\<lambda>f. f\<lparr>IQ := (IQ f)[unat (IQ_head f) := None], IQ_head := modinc (IQ_head f) (IQ_size (knobs st)),
                      IQ_num := IQ_num f - 1, IQ_uop_num := IQ_uop_num f - num_uops m, IQ_eff_uop_num := IQ_eff_uop_num f - num_eff_uops m\<rparr>) st
           in sure (0 \<le>s IQ_num (fetch st) \<and> 0 \<le> IQ_uop_num (fetch st) \<and> 0 \<le> IQ_eff_uop_num (fetch st)) st))"

section \<open>Recovery of the fetch stage\<close>

fun clear_byteQ :: "nat \<Rightarrow> byteQ_entry_t list \<Rightarrow> front_t \<Rightarrow> byteQ_entry_t list \<times> front_t" where
  "clear_byteQ 0 es st = (es, st)"
| "clear_byteQ (Suc n) es st =
     (let i = length es; st = new_action_id st in
      clear_byteQ n (es @ [\<lparr>bq_addr = 0, bq_when_fetch_requested = TICK_T_MAX, bq_when_fetched = TICK_T_MAX,
         bq_when_translation_requested = TICK_T_MAX, bq_when_translated = TICK_T_MAX, num_Mop = 0, MopQ_first_index = -1,
         bq_action_id = global_action_id st\<rparr>]) st)"

definition fetch_recover :: "md_addr_t \<Rightarrow> front_t \<Rightarrow> front_t" where
  "fetch_recover new_PC st =
     (case clear_byteQ (unat (byteQ_size (knobs st))) [] st of
        (es, st) \<Rightarrow> upd_fetch (\<lambda>f. f\<lparr>PC := new_PC, byteQ := es, byteQ_num := 0, byteQ_head := 0, byteQ_tail := 0,
          IQ := map (\<lambda>_. None) (IQ f), IQ_num := 0, IQ_uop_num := 0, IQ_eff_uop_num := 0, IQ_head := 0, IQ_tail := 0,
          predecode := map (map (\<lambda>_. None)) (predecode f)\<rparr>) st)"

definition jeclear_set :: "nat \<Rightarrow> md_addr_t \<Rightarrow> front_t \<Rightarrow> front_t" where
  "jeclear_set M new_PC st =
     (let st = new_action_id st;
          st = upd_Mop M (\<lambda>m. m\<lparr>jeclear_action_id := global_action_id st, jeclear_in_flight := True\<rparr>) st
      in upd_fetch (\<lambda>f. f\<lparr>jeclear_pipe := (jeclear_pipe f)[0 := \<lparr>New_PC = new_PC, je_Mop = Some M, je_action_id = global_action_id st\<rparr>]\<rparr>) st)"

text \<open>Of two requests in the same cycle the older one stays.\<close>

definition jeclear_enqueue :: "nat \<Rightarrow> md_addr_t \<Rightarrow> front_t \<Rightarrow> front_t" where
  "jeclear_enqueue M new_PC st =
     (case je_Mop (jeclear_pipe (fetch st) ! 0) of
        Some M' \<Rightarrow> if oracle_seq (MopQ st ! M) < oracle_seq (MopQ st ! M') then jeclear_set M new_PC st else st
      | None \<Rightarrow> jeclear_set M new_PC st)"

section \<open>Fetching one instruction (\<^verbatim>\<open>do_fetch\<close>)\<close>

text \<open>The answers of the oracle (whether it drains, the Mop that \<^verbatim>\<open>exec(PC)\<close> returns, its speculation mode)
  and of the branch predictor (the state cache and the predicted address).\<close>

record fetch_env =
  draining :: bool
  exec_Mop :: "nat option"
  spec_mode :: bool
  state_cache :: nat
  predicted :: md_addr_t
  draining_after :: bool

definition stall :: "fetch_stall_t \<Rightarrow> front_t \<Rightarrow> (bool \<times> front_t) option" where
  "stall r st = Some (False, upd_fetch (\<lambda>f. f\<lparr>stall_reason := r\<rparr>) st)"

text \<open>The lines of the first and last byte are requested; None is a full byte queue.\<close>

definition fetch_started :: "nat \<Rightarrow> front_t \<Rightarrow> front_t" where
  "fetch_started M st = upd_Mop M (\<lambda>m. m\<lparr>first_byte_requested := True,
     when_fetch_started := (if when_fetch_started m = TICK_T_MAX then sim_cycle st else when_fetch_started m)\<rparr>) st"

definition request_first :: "nat \<Rightarrow> front_t \<Rightarrow> (bool \<times> front_t) option" where
  "request_first M st =
     (let a = fetch_PC (MopQ st ! M); st = (if byteQ_already_requested st a then fetch_started M st else st) in
      if first_byte_requested (MopQ st ! M) then Some (True, st)
      else if byteQ_is_full st then Some (False, st)
      else do { st \<leftarrow> byteQ_request (line_of st a) (fetch_started M st); Some (True, st) })"

definition request_last :: "nat \<Rightarrow> front_t \<Rightarrow> (bool \<times> front_t) option" where
  "request_last M st =
     (let a = fetch_PC (MopQ st ! M) + of_nat (len (MopQ st ! M)) - 1;
          st = (if byteQ_already_requested st a then upd_Mop M (\<lambda>m. m\<lparr>last_byte_requested := True\<rparr>) st else st) in
      if last_byte_requested (MopQ st ! M) then Some (True, st)
      else if byteQ_is_full st then Some (False, st)
      else do { st \<leftarrow> byteQ_request (line_of st a) (upd_Mop M (\<lambda>m. m\<lparr>last_byte_requested := True\<rparr>) st); Some (True, st) })"

text \<open>The Mop is recorded in the youngest entry and handed over by the oracle.\<close>

definition byteQ_record :: "nat \<Rightarrow> front_t \<Rightarrow> front_t" where
  "byteQ_record M st =
     emit (Oracle_Consume M) (upd_fetch (\<lambda>f. f\<lparr>byteQ := (byteQ f)[byteQ_last st := (byteQ f ! byteQ_last st)
       \<lparr>MopQ_first_index := (if num_Mop (byteQ f ! byteQ_last st) = 0 then of_nat M else MopQ_first_index (byteQ f ! byteQ_last st)),
        num_Mop := num_Mop (byteQ f ! byteQ_last st) + 1\<rparr>]\<rparr>) st)"

definition predict :: "fetch_env \<Rightarrow> nat \<Rightarrow> front_t \<Rightarrow> front_t" where
  "predict v M st =
     (let st = upd_Mop M (\<lambda>m. if is_ctrl m \<or> has_rep m then m\<lparr>bpred_update := Some (state_cache v), pred_NPC := predicted v\<rparr>
                               else m\<lparr>pred_NPC := NextPC m\<rparr>) st;
          st = upd_Mop M (\<lambda>m. if pred_NPC m \<noteq> NextPC m
                 then m\<lparr>recover_inst := True, uop := (uop m)[last_uop_index m := (uop m ! last_uop_index m)\<lparr>uop_recover_inst := True\<rparr>]\<rparr> else m) st
      in upd_fetch (\<lambda>f. f\<lparr>PC := pred_NPC (MopQ st ! M)\<rparr>) st)"

definition do_fetch :: "fetch_env \<Rightarrow> front_t \<Rightarrow> (bool \<times> front_t) option" where
  "do_fetch v st =
     (let pc = PC (fetch st); current_line = line_of st pc in
      if draining v then stall FSTALL_SYSCALL st
      else case exec_Mop v of
        None \<Rightarrow> stall FSTALL_ORACLE st
      | Some M \<Rightarrow>
          if drop_bit 12 pc = 0 then (if spec_mode v then stall FSTALL_ZPAGE st else None)
          else do {
            (ok, st) \<leftarrow> request_first M st;
            if \<not> ok then stall FSTALL_byteQ_FULL st
            else do {
              (ok, st) \<leftarrow> request_last M st;
              if \<not> ok then stall FSTALL_byteQ_FULL st
              else if \<not> (first_byte_requested (MopQ st ! M) \<and> last_byte_requested (MopQ st ! M)) then None
              else
                (let st = predict v M (byteQ_record M st); m = MopQ st ! M; end_PC = fetch_PC m + of_nat (len m) - 1 in
                 if taken_branch m then stall FSTALL_TBR st
                 else if line_of st end_PC \<noteq> current_line then stall FSTALL_SPLIT st
                 else if line_of st (fetch_PC m) \<noteq> current_line then stall FSTALL_EOL st
                 else if has_rep m \<and> PC (fetch st) = NextPC m then stall FSTALL_REP st
                 else if draining_after v then stall FSTALL_SYSCALL st
                 else Some (line_of st (PC (fetch st)) = current_line, st)) } })"

section \<open>The decode pipe\<close>

definition add_stall :: "decode_stall_t \<Rightarrow> front_t \<Rightarrow> front_t" where
  "add_stall r = ZESTO_STAT (\<lambda>s. s\<lparr>decode_stall := (decode_stall s)(r := decode_stall s r + 1)\<rparr>)"

text \<open>Every removal of a Mop from a slot decrements the occupancy of the stage and asserts that it stays
  non-negative.\<close>

definition drop_slot :: "nat \<Rightarrow> nat \<Rightarrow> decode_t \<Rightarrow> decode_t option" where
  "drop_slot stage i d =
     (let d = d\<lparr>pipe := (pipe d)[stage := (pipe d ! stage)[i := None]], occupancy := (occupancy d)[stage := occupancy d ! stage - 1]\<rparr>
      in sure (0 \<le> occupancy d ! stage) d)"

text \<open>\<^verbatim>\<open>recover_decode_pipe(Mop)\<close> and the first half of \<^verbatim>\<open>recover(Mop)\<close>: from the youngest slot on, until the
  Mop is found.\<close>

fun wipe_slots :: "nat \<Rightarrow> nat \<Rightarrow> nat list \<Rightarrow> decode_t \<Rightarrow> (bool \<times> decode_t) option" where
  "wipe_slots M stage [] d = Some (False, d)"
| "wipe_slots M stage (i # is) d =
     (case pipe d ! stage ! i of
        None \<Rightarrow> wipe_slots M stage is d
      | Some M' \<Rightarrow> if M' = M then Some (True, d) else do { d \<leftarrow> drop_slot stage i d; wipe_slots M stage is d })"

fun wipe_stages :: "nat \<Rightarrow> nat list \<Rightarrow> nat list \<Rightarrow> decode_t \<Rightarrow> (bool \<times> decode_t) option" where
  "wipe_stages M slots [] d = Some (False, d)"
| "wipe_stages M slots (s # ss) d =
     do { (found, d) \<leftarrow> (if occupancy d ! s \<noteq> 0 then wipe_slots M s slots d else Some (False, d));
          if found then Some (True, d) else wipe_stages M slots ss d }"

definition recover_decode_pipe :: "nat \<Rightarrow> knobs_t \<Rightarrow> decode_t \<Rightarrow> (bool \<times> decode_t) option" where
  "recover_decode_pipe M k d = wipe_stages M (rev [0 ..< decode_width k]) [0 ..< decode_depth k] d"

text \<open>The same without a Mop to stop at.\<close>

fun clear_slots :: "nat \<Rightarrow> nat list \<Rightarrow> decode_t \<Rightarrow> decode_t option" where
  "clear_slots stage [] d = Some d"
| "clear_slots stage (i # is) d =
     (case pipe d ! stage ! i of
        None \<Rightarrow> clear_slots stage is d
      | Some _ \<Rightarrow> do { d \<leftarrow> drop_slot stage i d; clear_slots stage is d })"

fun clear_stages :: "nat list \<Rightarrow> nat list \<Rightarrow> decode_t \<Rightarrow> decode_t option" where
  "clear_stages slots [] d = Some d"
| "clear_stages slots (s # ss) d =
     do { d \<leftarrow> (if occupancy d ! s \<noteq> 0 then clear_slots s slots d else Some d);
          if occupancy d ! s = 0 then clear_stages slots ss d else None }"

definition recover_decode_pipe_all :: "knobs_t \<Rightarrow> decode_t \<Rightarrow> decode_t option" where
  "recover_decode_pipe_all k d = clear_stages (rev [0 ..< decode_width k]) [0 ..< decode_depth k] d"

section \<open>The uop queue\<close>

definition uop_at :: "front_t \<Rightarrow> nat \<times> nat \<Rightarrow> uop_t" where
  "uop_at st p = uop (MopQ st ! fst p) ! snd p"

text \<open>The number of effective uops that an entry stands for.\<close>

definition eff_size :: "uop_t \<Rightarrow> int" where
  "eff_size u = (if is_fusion_head u then fusion_size u else 1)"

text \<open>\<^verbatim>\<open>recover_uopQ(Mop)\<close>, with as many turns left as there are uops.\<close>

fun pop_uopQ :: "nat \<Rightarrow> nat \<Rightarrow> front_t \<Rightarrow> front_t option" where
  "pop_uopQ M 0 st = Some (upd_decode (\<lambda>d. d\<lparr>uopQ_eff_num := 0\<rparr>) st)"
| "pop_uopQ M (Suc n) st =
     (let i = moddec (uopQ_tail (decode st)) (uopQ_size (knobs st)) in
      case uopQ (decode st) ! unat i of
        None \<Rightarrow> None
      | Some p \<Rightarrow> if fst p = M then Some st
                  else pop_uopQ M n (upd_decode (\<lambda>d. d\<lparr>uopQ_eff_num := uopQ_eff_num d - eff_size (uop_at st p), uopQ_num := uopQ_num d - 1,
                         uopQ := (uopQ d)[unat i := None], uopQ_tail := i\<rparr>) st))"

definition recover_uopQ :: "nat \<Rightarrow> front_t \<Rightarrow> front_t option" where
  "recover_uopQ M st = pop_uopQ M (unat (uopQ_num (decode st))) st"

definition recover_uopQ_all :: "decode_t \<Rightarrow> decode_t" where
  "recover_uopQ_all d = d\<lparr>uopQ := map (\<lambda>_. None) (uopQ d), uopQ_head := 0, uopQ_tail := 0, uopQ_num := 0, uopQ_eff_num := 0\<rparr>"

definition decode_recover :: "nat \<Rightarrow> front_t \<Rightarrow> front_t option" where
  "decode_recover M st =
     do { (found, d) \<leftarrow> recover_decode_pipe M (knobs st) (decode st);
          let st = st\<lparr>decode := d\<rparr> in if found then Some st else recover_uopQ M st }"

definition decode_recover_all :: "front_t \<Rightarrow> front_t option" where
  "decode_recover_all st =
     do { d \<leftarrow> recover_decode_pipe_all (knobs st) (recover_uopQ_all (decode st)); Some (st\<lparr>decode := d\<rparr>) }"

definition uop_available :: "front_t \<Rightarrow> bool" where
  "uop_available st \<longleftrightarrow> 0 <s uopQ_num (decode st)"

definition uop_peek :: "front_t \<Rightarrow> (nat \<times> nat) option" where
  "uop_peek st = uopQ (decode st) ! unat (uopQ_head (decode st))"

definition uop_consume :: "front_t \<Rightarrow> front_t option" where
  "uop_consume st =
     (case uopQ (decode st) ! unat (uopQ_head (decode st)) of
        None \<Rightarrow> None
      | Some p \<Rightarrow> Some (upd_decode (\<lambda>d. d\<lparr>uopQ := (uopQ d)[unat (uopQ_head d) := None], uopQ_num := uopQ_num d - 1,
           uopQ_eff_num := uopQ_eff_num d - eff_size (uop_at st p), uopQ_head := modinc (uopQ_head d) (uopQ_size (knobs st))\<rparr>) st))"

section \<open>Branch address checks\<close>

datatype target_check = Target_ok | Phantom_taken | Wrong_target

definition target_verdict :: "Mop_t \<Rightarrow> target_check" where
  "target_verdict m =
     (if \<not> is_ctrl m then (if pred_NPC m \<noteq> ftPC m then Phantom_taken else Target_ok)
      else if (pred_NPC m \<noteq> ftPC m \<or> UNCOND m) \<and> pred_NPC m \<noteq> targetPC m then Wrong_target else Target_ok)"

definition check_target :: "nat \<Rightarrow> front_t \<Rightarrow> (decode_stall_t \<times> front_t) option" where
  "check_target M st =
     (let m = MopQ st ! M in
      case target_verdict m of
        Target_ok \<Rightarrow> Some (DSTALL_NONE, st)
      | Phantom_taken \<Rightarrow>
          do { (found, d) \<leftarrow> recover_decode_pipe M (knobs st) (decode st);
               let st = emit (Oracle_Recover M) (ZESTO_STAT (\<lambda>s. s\<lparr>phantom_resteers := phantom_resteers s + 1\<rparr>) st)\<lparr>decode := d\<rparr>;
                   st = upd_Mop M (\<lambda>m. m\<lparr>pred_NPC := ftPC m\<rparr>) st
               in Some (DSTALL_PHANTOM, fetch_recover (ftPC m) st) }
      | Wrong_target \<Rightarrow>
          (let st = (case bpred_update m of Some sc \<Rightarrow> emit (Bpred_Recover sc True) st | None \<Rightarrow> st) in
           do { (found, d) \<leftarrow> recover_decode_pipe M (knobs st) (decode st);
                let st = emit (Oracle_Recover M) (ZESTO_STAT (\<lambda>s. s\<lparr>target_resteers := target_resteers s + 1\<rparr>) st)\<lparr>decode := d\<rparr>;
                    st = fetch_recover (targetPC m) st
                in Some (DSTALL_TARGET, upd_Mop M (\<lambda>m. m\<lparr>pred_NPC := targetPC m\<rparr>) st) }))"

definition move_slot :: "nat \<Rightarrow> nat \<Rightarrow> nat \<Rightarrow> decode_t \<Rightarrow> decode_t option" where
  "move_slot width stage i d =
     (let M = pipe d ! (stage - 1) ! i;
          d = d\<lparr>pipe := (pipe d)[stage := (pipe d ! stage)[i := M], stage - 1 := (pipe d ! (stage - 1))[i := None]]\<rparr>
      in if M = None then Some d
         else (let d = d\<lparr>occupancy := (occupancy d)[stage := occupancy d ! stage + 1, stage - 1 := occupancy d ! (stage - 1) - 1]\<rparr>
               in sure (occupancy d ! stage \<le> int width \<and> 0 \<le> occupancy d ! (stage - 1)) d))"

definition check_flush :: "nat \<Rightarrow> nat \<Rightarrow> front_t \<Rightarrow> (bool \<times> front_t) option" where
  "check_flush stage i st =
     (case pipe (decode st) ! (stage - 1) ! i of
        None \<Rightarrow> Some (False, st)
      | Some M \<Rightarrow>
          if stage - 1 \<noteq> target_stage (knobs st) then Some (False, st)
          else do { (r, st) \<leftarrow> check_target M st;
                    if r = DSTALL_NONE then Some (False, st)
                    else do { d \<leftarrow> move_slot (decode_width (knobs st)) stage i (decode st);
                              Some (True, add_stall r (st\<lparr>decode := d\<rparr>)) } })"

section \<open>One cycle of the decode stage\<close>

definition queue_uop :: "nat \<Rightarrow> front_t \<Rightarrow> front_t option" where
  "queue_uop M st =
     (let m = MopQ st ! M; j = last_stage_index m; u = uop m ! j; cycle = sim_cycle st;
          st1 = upd_Mop M (\<lambda>m. m\<lparr>last_stage_index := j + (if has_imm u then 3 else 1), uop := (uop m)[j := u\<lparr>when_decoded := cycle\<rparr>],
                  when_decode_started := (if BOM u then cycle else when_decode_started m),
                  when_decode_finished := (if EOM u then cycle else when_decode_finished m)\<rparr>) st;
          st2 = (if \<not> in_fusion u \<or> is_fusion_head u
                 then ZESTO_STAT (\<lambda>s. s\<lparr>decode_uops := decode_uops s + 1\<rparr>)
                        (upd_decode (\<lambda>d. d\<lparr>uopQ := (uopQ d)[unat (uopQ_tail d) := Some (M, j)],
                           uopQ_tail := modinc (uopQ_tail d) (uopQ_size (knobs st)), uopQ_num := uopQ_num d + 1,
                           uopQ_eff_num := uopQ_eff_num d + eff_size u\<rparr>) st1)
                 else st1)
      in sure (j < length (uop m) \<and> unat (uopQ_tail (decode st)) < length (uopQ (decode st)))
           (ZESTO_STAT (\<lambda>s. s\<lparr>decode_eff_uops := decode_eff_uops s + 1\<rparr>) st2))"

text \<open>The \<^verbatim>\<open>while\<close> loop over the uops of the Mop in slot \<open>i\<close> of the last stage; \<open>n\<close> bounds its turns.\<close>

fun queue_uops :: "nat \<Rightarrow> nat \<Rightarrow> nat \<Rightarrow> front_t \<Rightarrow> front_t option" where
  "queue_uops 0 i M st = None"
| "queue_uops (Suc n) i M st =
     (if uopQ_num (decode st) <s uopQ_size (knobs st)
      then do {
        st \<leftarrow> queue_uop M st;
        if flow_length (MopQ st ! M) \<le> last_stage_index (MopQ st ! M)
        then do {
          d \<leftarrow> drop_slot (decode_depth (knobs st) - 1) i (decode st);
          Some ((if at_EOM (MopQ st ! M) then ZESTO_STAT (\<lambda>s. s\<lparr>decode_insn := decode_insn s + 1\<rparr>) st else st)\<lparr>decode := d\<rparr>) }
        else queue_uops n i M st }
      else Some st)"

fun drain_slots :: "nat list \<Rightarrow> front_t \<Rightarrow> front_t option" where
  "drain_slots [] st = Some st"
| "drain_slots (i # is) st =
     (case pipe (decode st) ! (decode_depth (knobs st) - 1) ! i of
        None \<Rightarrow> drain_slots is st
      | Some M \<Rightarrow> do { st \<leftarrow> queue_uops (Suc (flow_length (MopQ st ! M))) i M st;
                       if uopQ_size (knobs st) \<le>s uopQ_num (decode st) then Some st else drain_slots is st })"

fun move_stage :: "nat \<Rightarrow> nat list \<Rightarrow> front_t \<Rightarrow> (bool \<times> front_t) option" where
  "move_stage stage [] st = Some (False, st)"
| "move_stage stage (i # is) st =
     do { (flushed, st) \<leftarrow> check_flush stage i st;
          if flushed then Some (True, st)
          else do { d \<leftarrow> move_slot (decode_width (knobs st)) stage i (decode st); move_stage stage is (st\<lparr>decode := d\<rparr>) } }"

definition MS_busy :: "nat \<Rightarrow> front_t \<Rightarrow> bool" where
  "MS_busy stage st \<longleftrightarrow>
     (let w = (case pipe (decode st) ! stage ! 0 of None \<Rightarrow> 0 | Some M \<Rightarrow> when_MS_started (MopQ st ! M))
      in w \<noteq> TICK_T_MAX \<and> sim_cycle st \<le>s w)"

fun advance :: "nat \<Rightarrow> front_t \<Rightarrow> (bool \<times> front_t) option" where
  "advance 0 st = Some (False, st)"
| "advance (Suc s) st =
     (if occupancy (decode st) ! Suc s \<noteq> 0 then advance s st
      else if MS_busy s st then Some (False, st)
      else do { (flushed, st) \<leftarrow> (if occupancy (decode st) ! s \<noteq> 0 then move_stage (Suc s) [0 ..< decode_width (knobs st)] st else Some (False, st));
                if flushed then Some (True, st) else advance s st })"

definition take_Mop :: "nat \<Rightarrow> nat \<Rightarrow> front_t \<Rightarrow> front_t option" where
  "take_Mop i M st =
     (let d = (decode st)\<lparr>pipe := (pipe (decode st))[0 := (pipe (decode st) ! 0)[i := Some M]],
                occupancy := (occupancy (decode st))[0 := occupancy (decode st) ! 0 + 1]\<rparr>
      in if occupancy d ! 0 \<le> int (decode_width (knobs st)) then Mop_consume (st\<lparr>decode := d\<rparr>) else None)"

definition fits :: "nat \<Rightarrow> Mop_t \<Rightarrow> knobs_t \<Rightarrow> bool" where
  "fits i m k \<longleftrightarrow> max_uops k ! i = 0 \<or> num_uops m \<le> max_uops k ! i"

definition why_not :: "Mop_t \<Rightarrow> knobs_t \<Rightarrow> decode_stall_t" where
  "why_not m k = (if has_rep m then DSTALL_REP else if num_uops m < max_uops k ! 0 \<and> max_uops k ! 0 \<noteq> 0 then DSTALL_SMALL else DSTALL_UROM)"

fun fill_decoders :: "nat list \<Rightarrow> nat \<Rightarrow> nat \<Rightarrow> decode_stall_t \<Rightarrow> front_t \<Rightarrow> (decode_stall_t \<times> front_t) option" where
  "fill_decoders [] decoded branches r st = Some (r, st)"
| "fill_decoders (i # is) decoded branches r st =
     (let full = (\<lambda>n r. if n = (0::nat) then DSTALL_FULL else r); k = knobs st in
      if \<not> Mop_available st then Some (r, st)
      else if pipe (decode st) ! 0 ! i \<noteq> None then fill_decoders is decoded branches (full decoded r) st
      else case Mop_peek st of
        None \<Rightarrow> None
      | Some M \<Rightarrow>
          (let m = MopQ st ! M; br = branches + of_bool (is_ctrl m) in
           if is_ctrl m \<and> branch_decode_limit k \<noteq> 0 \<and> branch_decode_limit k \<le> branches then Some (DSTALL_MAX_BRANCHES, st)
           else if i = 0 then do {
             st \<leftarrow> take_Mop i M st;
             fill_decoders is (Suc decoded) br r
               (if \<not> fits i m k \<or> has_rep m
                then upd_Mop M (\<lambda>m. m\<lparr>when_MS_started := sim_cycle st + scast (MS_latency k)\<rparr>) st else st) }
           else if fits i m k \<and> \<not> has_rep m then do { st \<leftarrow> take_Mop i M st; fill_decoders is (Suc decoded) br r st }
           else Some (why_not m k, st)))"

definition decode_step :: "front_t \<Rightarrow> front_t option" where
  "decode_step st =
     (let k = knobs st in
      do { st \<leftarrow> (if occupancy (decode st) ! (decode_depth k - 1) \<noteq> 0 then drain_slots [0 ..< decode_width k] st else Some st);
           (flushed, st) \<leftarrow> advance (decode_depth k - 1) st;
           if flushed then Some st
           else if \<not> Mop_available st then Some (add_stall DSTALL_EMPTY st)
           else do { (r, st) \<leftarrow> fill_decoders [0 ..< decode_width k] 0 0 DSTALL_NONE st; Some (add_stall r st) } })"

section \<open>Recoveries from the back end\<close>

text \<open>Everything behind a Mop is flushed, in the order of \<^verbatim>\<open>pipe_recover\<close> and of a dequeued jeclear; the calls to the commit,
  exec and alloc stages are one event.\<close>

definition recover_behind :: "nat \<Rightarrow> md_addr_t \<Rightarrow> front_t \<Rightarrow> front_t option" where
  "recover_behind M new_PC st =
     (let m = MopQ st ! M;
          st = (case bpred_update m of Some sc \<Rightarrow> emit (Bpred_Recover sc (new_PC \<noteq> ftPC m)) st | None \<Rightarrow> st)
      in do { st \<leftarrow> decode_recover M (emit (Back_Recover M) (emit (Oracle_Recover M) st)); Some (fetch_recover new_PC st) })"

definition pipe_recover :: "nat \<Rightarrow> md_addr_t \<Rightarrow> front_t \<Rightarrow> front_t option" where
  "pipe_recover M new_PC st = (if jeclear_delay (knobs st) \<noteq> 0 then Some (jeclear_enqueue M new_PC st) else recover_behind M new_PC st)"

definition sim_drain_pipe :: "md_addr_t \<Rightarrow> front_t \<Rightarrow> front_t option" where
  "sim_drain_pipe feeder_NPC st =
     do { st \<leftarrow> decode_recover_all (emit Back_Flush (emit Oracle_Flush st)); Some (fetch_recover feeder_NPC st) }"

section \<open>Sending requests (\<^verbatim>\<open>pre_fetch\<close>)\<close>

text \<open>What the instruction cache and TLB answer to \<^verbatim>\<open>cache_enqueuable\<close> for an address.\<close>

record pre_env =
  IL1_enqueuable :: "md_addr_t \<Rightarrow> bool"
  ITLB_enqueuable :: "md_addr_t \<Rightarrow> bool"

text \<open>The loop from the head of the byte queue to the first entry that is not yet requested and can be.\<close>

fun send_one :: "nat \<Rightarrow> cint \<Rightarrow> (byteQ_entry_t \<Rightarrow> bool) \<Rightarrow> (byteQ_entry_t \<Rightarrow> byteQ_entry_t) \<Rightarrow> (byteQ_entry_t \<Rightarrow> fe_event) \<Rightarrow> front_t \<Rightarrow> front_t" where
  "send_one 0 index ready mark call st = st"
| "send_one (Suc n) index ready mark call st =
     (let e = byteQ (fetch st) ! unat index in
      if ready e then emit (call e) (upd_fetch (\<lambda>f. f\<lparr>byteQ := (byteQ f)[unat index := mark e]\<rparr>) st)
      else send_one n (modinc index (byteQ_size (knobs st))) ready mark call st)"

definition send_IL1 :: "pre_env \<Rightarrow> front_t \<Rightarrow> front_t" where
  "send_IL1 v st = send_one (nat (sint (byteQ_num (fetch st)))) (byteQ_head (fetch st))
     (\<lambda>e. bq_when_fetch_requested e = TICK_T_MAX \<and> IL1_enqueuable v (bq_addr e))
     (\<lambda>e. e\<lparr>bq_when_fetch_requested := sim_cycle st\<rparr>) (\<lambda>e. IL1_Read (bq_addr e) (bq_action_id e)) st"

definition send_ITLB :: "pre_env \<Rightarrow> front_t \<Rightarrow> front_t" where
  "send_ITLB v st = send_one (nat (sint (byteQ_num (fetch st)))) (byteQ_head (fetch st))
     (\<lambda>e. bq_when_translation_requested e = TICK_T_MAX \<and> ITLB_enqueuable v (bq_addr e))
     (\<lambda>e. e\<lparr>bq_when_translation_requested := sim_cycle st\<rparr>) (\<lambda>e. ITLB_Read (bq_addr e) (bq_action_id e)) st"

text \<open>The jeclear at the end of its pipe, if its Mop has not been given a newer one or been recycled.\<close>

definition jeclear_dequeue :: "front_t \<Rightarrow> front_t option" where
  "jeclear_dequeue st =
     (let e = jeclear_pipe (fetch st) ! (jeclear_delay (knobs st) - 1) in
      case je_Mop e of
        Some M \<Rightarrow> if je_action_id e = jeclear_action_id (MopQ st ! M)
                  then do { st \<leftarrow> recover_behind M (New_PC e) st; Some (upd_Mop M (\<lambda>m. m\<lparr>jeclear_in_flight := False\<rparr>) st) }
                  else Some st
      | None \<Rightarrow> Some st)"

definition jeclear_advance :: "front_t \<Rightarrow> front_t" where
  "jeclear_advance st = upd_fetch (\<lambda>f. f\<lparr>jeclear_pipe := (jeclear_pipe f ! 0)\<lparr>je_Mop := None\<rparr> # butlast (jeclear_pipe f)\<rparr>) st"

definition pre_fetch :: "pre_env \<Rightarrow> front_t \<Rightarrow> front_t option" where
  "pre_fetch v st =
     (let st = ZESTO_STAT (\<lambda>s. s\<lparr>fetch_stall := (fetch_stall s)(stall_reason (fetch st) := fetch_stall s (stall_reason (fetch st)) + 1)\<rparr>) st;
          st = send_ITLB v (send_IL1 v st)
      in if jeclear_delay (knobs st) \<noteq> 0 then do { st \<leftarrow> jeclear_dequeue st; Some (jeclear_advance st) } else Some st)"

end
