(* ===== verification/Pipe_Slots.thy ===== *)
theory Pipe_Slots
  imports Ring
begin

text \<open>
  Stages of slots and the contents of circular buffers. A pipeline is a list of stages, the first stage
  being the youngest; a stage is a list of slots, the first slot being the oldest. The lemmas say how the
  sequence of what is in flight, oldest first, changes with the slot and index updates of the code.
\<close>

section \<open>Slots\<close>

fun present :: "'a option list \<Rightarrow> 'a list" where
  "present [] = []"
| "present (None # xs) = present xs"
| "present (Some x # xs) = x # present xs"

lemma present_append [simp]: "present (xs @ ys) = present xs @ present ys"
  by (induction xs rule: present.induct) simp_all

lemma present_Nones [simp]: "present (replicate n None) = []" "present (map (\<lambda>_. None) xs) = []"
  by (induction n) (simp_all, induction xs, simp_all)

lemma present_Nil_iff: "present xs = [] \<longleftrightarrow> (\<forall>x \<in> set xs. x = None)"
  by (induction xs rule: present.induct) simp_all

lemma present_map_Some [simp]: "present (map Some xs) = xs"
  by (induction xs) simp_all

lemma length_present_le: "length (present xs) \<le> length xs"
  by (induction xs rule: present.induct) simp_all

lemma set_present: "set (present xs) = {x. Some x \<in> set xs}"
  by (induction xs rule: present.induct) auto

lemma present_split: "i < length xs \<Longrightarrow> present xs = present (take i xs) @ present [xs ! i] @ present (drop (Suc i) xs)"
  using present_append [of "take i xs" "xs ! i # drop (Suc i) xs"] present_append [of "[xs ! i]" "drop (Suc i) xs"] id_take_nth_drop [of i xs] by simp

lemma present_update: "i < length xs \<Longrightarrow> present (xs[i := y]) = present (take i xs) @ present [y] @ present (drop (Suc i) xs)"
  using present_append [of "[y]" "drop (Suc i) xs"] by (simp add: upd_conv_take_nth_drop)

lemma present_take_empty: "(\<And>j. j < i \<Longrightarrow> xs ! j = None) \<Longrightarrow> i \<le> length xs \<Longrightarrow> present (take i xs) = []"
  by (auto simp: present_Nil_iff in_set_conv_nth)

lemma present_drop_empty: "(\<And>j. i \<le> j \<Longrightarrow> j < length xs \<Longrightarrow> xs ! j = None) \<Longrightarrow> present (drop i xs) = []"
  by (auto simp: present_Nil_iff in_set_conv_nth)

text \<open>Filling a slot behind the youngest and emptying the oldest.\<close>

lemma present_fill:
  assumes "i < length xs" and "\<And>j. i \<le> j \<Longrightarrow> j < length xs \<Longrightarrow> xs ! j = None"
  shows "present (xs[i := Some x]) = present xs @ [x]"
proof -
  have "present (drop (Suc i) xs) = []" "xs ! i = None" using assms by (auto intro: present_drop_empty)
  then show ?thesis using present_split [OF assms(1)] present_update [OF assms(1), of "Some x"] by simp
qed

lemma present_oldest:
  assumes "i < length xs" and "\<And>j. j < i \<Longrightarrow> xs ! j = None" and "xs ! i = Some x"
  shows "present xs = x # present (xs[i := None])"
proof -
  have "present (take i xs) = []" using assms by (intro present_take_empty) simp_all
  then show ?thesis using present_split [OF assms(1)] present_update [OF assms(1), of None] assms(3) by simp
qed

text \<open>One slot moves from a younger stage \<open>b\<close> to the same slot of the stage \<open>a\<close> above it.\<close>

lemma present_move:
  assumes "i < length a" and "i < length b" and "\<And>j. j < i \<Longrightarrow> b ! j = None" and "\<And>j. i \<le> j \<Longrightarrow> j < length a \<Longrightarrow> a ! j = None"
  shows "present (a[i := b ! i]) @ present (b[i := None]) = present a @ present b"
proof (cases "b ! i")
  case None
  then have "b[i := None] = b" "a[i := b ! i] = a" using assms(1,2,4) list_update_id [of b i] list_update_id [of a i] by simp_all
  then show ?thesis by simp
next
  case (Some x)
  then show ?thesis using present_fill [OF assms(1,4), of x] present_oldest [OF assms(2,3) Some] by simp
qed

text \<open>The first slots are occupied.\<close>

definition packed :: "'a option list \<Rightarrow> bool" where
  "packed xs \<longleftrightarrow> (\<forall>i j. i \<le> j \<and> j < length xs \<and> xs ! i = None \<longrightarrow> xs ! j = None)"

lemma packed_after: "packed xs \<Longrightarrow> xs ! i = None \<Longrightarrow> i \<le> j \<Longrightarrow> j < length xs \<Longrightarrow> xs ! j = None"
  by (auto simp: packed_def)

text \<open>The youngest slots are emptied.\<close>

definition cut :: "nat \<Rightarrow> 'a option list \<Rightarrow> 'a option list" where
  "cut n xs = take n xs @ replicate (length xs - n) None"

lemma cut_simps [simp]: "length (cut n xs) = length xs" "present (cut n xs) = present (take n xs)"
  by (simp_all add: cut_def)

lemma nth_cut: "j < length xs \<Longrightarrow> cut n xs ! j = (if j < n then xs ! j else None)"
  by (auto simp: cut_def nth_append)

lemma cut_packed: "packed xs \<Longrightarrow> packed (cut n xs)"
  unfolding packed_def by (auto simp: nth_cut split: if_splits)

lemma cut_all [simp]: "length xs \<le> n \<Longrightarrow> cut n xs = xs"
  by (simp add: cut_def)

lemma cut_drop: "n < length xs \<Longrightarrow> (cut (Suc n) xs)[n := None] = cut n xs"
  by (rule nth_equalityI) (auto simp: nth_cut nth_list_update less_Suc_eq)

section \<open>Pipelines\<close>

definition pipe_items :: "'a option list list \<Rightarrow> 'a list" where
  "pipe_items p = concat (map present (rev p))"

lemma pipe_items_split:
  "s < length p \<Longrightarrow> pipe_items p = pipe_items (drop (Suc s) p) @ present (p ! s) @ pipe_items (take s p)"
  unfolding pipe_items_def by (subst id_take_nth_drop, assumption) simp

lemma pipe_items_update:
  "s < length p \<Longrightarrow> pipe_items (p[s := x]) = pipe_items (drop (Suc s) p) @ present x @ pipe_items (take s p)"
  unfolding pipe_items_def by (simp add: upd_conv_take_nth_drop)

lemma pipe_items_Nil: "(\<And>s. s < length p \<Longrightarrow> present (p ! s) = []) \<Longrightarrow> pipe_items p = []"
  by (auto simp: pipe_items_def in_set_conv_nth)

lemma pipe_items_Nil_iff: "pipe_items p = [] \<longleftrightarrow> (\<forall>s < length p. present (p ! s) = [])"
  by (auto simp: pipe_items_def in_set_conv_nth all_set_conv_all_nth)

lemma set_pipe_items: "set (pipe_items p) = (\<Union>x \<in> set p. set (present x))"
  by (auto simp: pipe_items_def)

text \<open>Two neighbouring stages.\<close>

lemma pipe_items_two:
  assumes "Suc s < length p"
  shows "pipe_items p = pipe_items (drop (Suc (Suc s)) p) @ (present (p ! Suc s) @ present (p ! s)) @ pipe_items (take s p)"
    and "pipe_items (p[Suc s := a, s := b]) = pipe_items (drop (Suc (Suc s)) p) @ (present a @ present b) @ pipe_items (take s p)"
proof -
  have "pipe_items (take (Suc s) p) = present (p ! s) @ pipe_items (take s p)" if "s < length p" for p :: "'a option list list"
    using that by (simp add: pipe_items_def take_Suc_conv_app_nth)
  then show "pipe_items p = pipe_items (drop (Suc (Suc s)) p) @ (present (p ! Suc s) @ present (p ! s)) @ pipe_items (take s p)"
    using pipe_items_split [OF assms] assms by simp
  have "p[Suc s := a, s := b] = take s p @ b # a # drop (Suc (Suc s)) p"
    using assms by (simp add: upd_conv_take_nth_drop list_update_append take_Suc_conv_app_nth min_def)
  then show "pipe_items (p[Suc s := a, s := b]) = pipe_items (drop (Suc (Suc s)) p) @ (present a @ present b) @ pipe_items (take s p)"
    by (simp add: pipe_items_def)
qed

text \<open>The oldest slot of the last stage.\<close>

lemma pipe_items_top:
  assumes D: "Suc D = length p" and i: "i < length (p ! D)" and e: "\<And>j. j < i \<Longrightarrow> p ! D ! j = None" and M: "p ! D ! i = Some x"
  shows "pipe_items p = x # pipe_items (p[D := (p ! D)[i := None]])"
proof -
  have l: "D < length p" "drop (Suc D) p = []" using D by simp_all
  show ?thesis using present_oldest [OF i e M] unfolding pipe_items_split [OF l(1)] pipe_items_update [OF l(1)] l(2) by (simp add: pipe_items_def)
qed

text \<open>The youngest stage grows.\<close>

lemma pipe_items_young:
  assumes "0 < length p" and "present x = present (p ! 0) @ ys"
  shows "pipe_items (p[0 := x]) = pipe_items p @ ys"
  using pipe_items_update [OF assms(1), of x] pipe_items_split [OF assms(1)] assms(2) by (simp add: pipe_items_def)

section \<open>Contents of circular buffers\<close>

definition ring_items :: "cint \<Rightarrow> cint \<Rightarrow> 'a list \<Rightarrow> 'a list" where
  "ring_items h n xs = map (\<lambda>j. xs ! ((unat h + j) mod length xs)) [0 ..< unat n]"

lemma ring_items_empty [simp]: "ring_items h 0 xs = []"
  by (simp add: ring_items_def)

lemma length_ring_items [simp]: "length (ring_items h n xs) = unat n"
  by (simp add: ring_items_def)

lemma ring_items_cong:
  assumes "length ys = length xs" and "\<And>i. in_ring h n s i \<Longrightarrow> ys ! i = xs ! i" and "length xs = unat s"
  shows "ring_items h n ys = ring_items h n xs"
proof -
  have "ys ! ((unat h + j) mod unat s) = xs ! ((unat h + j) mod unat s)" if "j < unat n" for j
    using that by (intro assms(2)) (auto simp: in_ring_def)
  then show ?thesis using assms(1,3) by (simp add: ring_items_def)
qed

lemma ring_items_push:
  assumes r: "ring_ok h n t s (length xs)" and n: "unat n < unat s"
  shows "ring_items h (n + 1) (xs[unat t := v]) = ring_items h n xs @ [v]"
proof -
  note p = ring_push [OF r n]
  have l: "length xs = unat s" "unat t = (unat h + unat n) mod unat s" using r by (simp_all add: ring_ok_def)
  have "unat (n + 1) = Suc (unat n)" using r n by (intro unat_Suc) (simp add: ring_ok_def)
  then have "ring_items h (n + 1) (xs[unat t := v]) = ring_items h n (xs[unat t := v]) @ [v]"
    using p(4) l by (simp add: ring_items_def)
  also have "ring_items h n (xs[unat t := v]) = ring_items h n xs"
  proof (rule ring_items_cong [where s = s])
    fix i assume "in_ring h n s i"
    then have "i \<noteq> unat t" using p(3) by auto
    then show "xs[unat t := v] ! i = xs ! i" by simp
  qed (simp_all add: l(1))
  finally show ?thesis .
qed

lemma ring_items_pop:
  assumes r: "ring_ok h n t s (length xs)" and n: "n \<noteq> 0"
  shows "ring_items h n xs = xs ! unat h # ring_items (modinc h s) (n - 1) (xs[unat h := v])"
proof -
  note p = ring_pop [OF r n]
  have l: "length xs = unat s" "unat h < unat s" "unat s < 2 ^ 31" using r by (simp_all add: ring_ok_def)
  note m = unat_modinc [OF l(2,3)]
  have n1: "unat n = Suc (unat (n - 1))" using unat_minus_one [OF n] n by (simp add: unat_gt_0)
  have sh: "((unat h + 1) mod unat s + j) mod unat s = (unat h + Suc j) mod unat s" for j by (simp add: mod_add_left_eq)
  have "ring_items h n xs = xs ! unat h # ring_items (modinc h s) (n - 1) xs"
    unfolding ring_items_def n1 l(1) m sh upt_conv_Cons [OF zero_less_Suc] map_Suc_upt [symmetric] list.map map_map comp_def using l(2) by simp
  also have "ring_items (modinc h s) (n - 1) xs = ring_items (modinc h s) (n - 1) (xs[unat h := v])"
  proof (rule ring_items_cong [where s = s, symmetric])
    fix i assume "in_ring (modinc h s) (n - 1) s i"
    then have "i \<noteq> unat h" using p(3) by auto
    then show "xs[unat h := v] ! i = xs ! i" by simp
  qed (simp_all add: l(1))
  finally show ?thesis .
qed

lemma ring_back:
  assumes r: "ring_ok h n t s len" and n: "n \<noteq> 0"
  shows "ring_ok h (n - 1) (moddec t s) s len" and "unat (n - 1) < unat s" and "unat (moddec t s) < len"
proof -
  have l: "len = unat s" "unat h < unat s" "unat s < 2 ^ 31" "unat n \<le> unat s" "unat t = (unat h + unat n) mod unat s" "unat t < unat s"
    using r by (auto simp: ring_ok_def)
  have n1: "unat n = Suc (unat (n - 1))" using unat_minus_one [OF n] n by (simp add: unat_gt_0)
  have "unat (moddec t s) = (unat t + unat s - 1) mod unat s" by (rule unat_moddec [OF l(6,3)])
  also have "\<dots> = ((unat h + unat n) mod unat s + (unat s - 1)) mod unat s" using l by simp
  also have "\<dots> = (unat h + unat n + (unat s - 1)) mod unat s" by (rule mod_add_left_eq)
  also have "unat h + unat n + (unat s - 1) = unat h + unat (n - 1) + unat s" using n1 l(2) by simp
  finally have "unat (moddec t s) = (unat h + unat (n - 1)) mod unat s" by simp
  then show "ring_ok h (n - 1) (moddec t s) s len" "unat (moddec t s) < len" using l n1 by (simp_all add: ring_ok_def)
  show "unat (n - 1) < unat s" using n1 l(4) by simp
qed

lemma ring_items_back:
  assumes r: "ring_ok h n t s (length xs)" and n: "n \<noteq> 0"
  shows "ring_items h n xs = ring_items h (n - 1) (xs[unat (moddec t s) := v]) @ [xs ! unat (moddec t s)]"
proof -
  note b = ring_back [OF r n]
  have "ring_items h (n - 1 + 1) ((xs[unat (moddec t s) := v])[unat (moddec t s) := xs ! unat (moddec t s)]) =
      ring_items h (n - 1) (xs[unat (moddec t s) := v]) @ [xs ! unat (moddec t s)]"
    by (rule ring_items_push [where s = s]) (use b in simp_all)
  then show ?thesis by simp
qed

text \<open>Updating the oldest or the youngest element in place.\<close>

lemma ring_items_first_update:
  assumes r: "ring_ok h n t s (length xs)" and n: "n \<noteq> 0"
  shows "\<exists>zs. ring_items h n xs = xs ! unat h # zs \<and> (\<forall>v. ring_items h n (xs[unat h := v]) = v # zs)"
proof -
  have l: "unat h < length xs" using r by (simp add: ring_ok_def)
  have "ring_items h n (xs[unat h := v]) = v # ring_items (modinc h s) (n - 1) (xs[unat h := undefined])" for v
    using ring_items_pop [of h n t s "xs[unat h := v]" undefined] r n l by simp
  then show ?thesis using ring_items_pop [OF r n, of undefined] by blast
qed

lemma ring_items_last_update:
  assumes r: "ring_ok h n t s (length xs)" and n: "n \<noteq> 0"
  shows "\<exists>zs. ring_items h n xs = zs @ [xs ! unat (moddec t s)] \<and> (\<forall>v. ring_items h n (xs[unat (moddec t s) := v]) = zs @ [v])"
proof -
  have l: "unat (moddec t s) < length xs" by (rule ring_back(3) [OF r n])
  have "ring_items h n (xs[unat (moddec t s) := v]) = ring_items h (n - 1) (xs[unat (moddec t s) := undefined]) @ [v]" for v
    using ring_items_back [of h n t s "xs[unat (moddec t s) := v]" undefined] r n l by simp
  then show ?thesis using ring_items_back [OF r n, of undefined] by blast
qed

end
