(* ===== verification/Frontend_Inv.thy ===== *)
theory Frontend_Inv
  imports Frontend Pipe_Slots "HOL-Library.Sublist"
begin

text \<open>
  The front end is an in-order queue. What is in flight, oldest first, are the uops of the uop queue and
  then what is left of the Mops in the decode pipe, the instruction queue, the predecode pipe and the byte
  queue (\<open>pending\<close>). Every operation succeeds, keeps the invariant of the queues and changes the pending
  sequence in a stated way: a cycle of fetch or decode leaves it alone, or a resteer cuts it behind the
  branch.
\<close>

section \<open>What is left of a Mop\<close>

text \<open>What no operation changes of a Mop in flight.\<close>

definition info :: "Mop_t \<Rightarrow> nat \<times> (bool \<times> bool \<times> bool \<times> int) list \<times> int \<times> int" where
  "info m = (flow_length m, map (\<lambda>u. (has_imm u, in_fusion u, is_fusion_head u, fusion_size u)) (uop m), num_uops m, num_eff_uops m)"

definition queued :: "uop_t \<Rightarrow> bool" where
  "queued u \<longleftrightarrow> \<not> in_fusion u \<or> is_fusion_head u"

definition uop_step :: "uop_t \<Rightarrow> nat" where
  "uop_step u = (if has_imm u then 3 else 1)"

text \<open>The uops that enter the uop queue, from index \<open>i\<close> on: immediates and the bodies of fused uops do
  not.\<close>

function flow :: "Mop_t \<Rightarrow> nat \<Rightarrow> nat list" where
  "flow m i = (if i < flow_length m then (if queued (uop m ! i) then [i] else []) @ flow m (i + uop_step (uop m ! i)) else [])"
  by pat_completeness auto
termination
proof (relation "measure (\<lambda>(m, i). flow_length m - i)")
  fix m :: Mop_t and i
  assume "i < flow_length m"
  moreover have "0 < uop_step (uop m ! i)" by (simp add: uop_step_def)
  ultimately show "((m, i + uop_step (uop m ! i)), m, i) \<in> measure (\<lambda>(m, i). flow_length m - i)" by simp
qed simp

declare flow.simps [simp del]

lemma info_eq:
  assumes "info m' = info m"
  shows "flow_length m' = flow_length m" "length (uop m') = length (uop m)" "num_uops m' = num_uops m" "num_eff_uops m' = num_eff_uops m"
    and "j < length (uop m) \<Longrightarrow> eff_size (uop m' ! j) = eff_size (uop m ! j) \<and> queued (uop m' ! j) = queued (uop m ! j) \<and> uop_step (uop m' ! j) = uop_step (uop m ! j)"
proof -
  let ?f = "\<lambda>u. (has_imm u, in_fusion u, is_fusion_head u, fusion_size u)"
  have e: "flow_length m' = flow_length m" "map ?f (uop m') = map ?f (uop m)" "num_uops m' = num_uops m" "num_eff_uops m' = num_eff_uops m"
    using assms unfolding info_def prod.inject by blast+
  then show "flow_length m' = flow_length m" "num_uops m' = num_uops m" "num_eff_uops m' = num_eff_uops m" by blast+
  show l: "length (uop m') = length (uop m)" using map_eq_imp_length_eq [OF e(2)] .
  assume j: "j < length (uop m)"
  have "map ?f (uop m') ! j = map ?f (uop m) ! j" by (simp only: e(2))
  then have "?f (uop m' ! j) = ?f (uop m ! j)" using j l by (simp only: nth_map)
  then have "has_imm (uop m' ! j) = has_imm (uop m ! j)" "in_fusion (uop m' ! j) = in_fusion (uop m ! j)"
    "is_fusion_head (uop m' ! j) = is_fusion_head (uop m ! j)" "fusion_size (uop m' ! j) = fusion_size (uop m ! j)" unfolding prod.inject by blast+
  then show "eff_size (uop m' ! j) = eff_size (uop m ! j) \<and> queued (uop m' ! j) = queued (uop m ! j) \<and> uop_step (uop m' ! j) = uop_step (uop m ! j)"
    by (simp add: eff_size_def queued_def uop_step_def)
qed

lemma flow_info:
  assumes "info m' = info m" and "flow_length m \<le> length (uop m)"
  shows "flow m' i = flow m i"
  using assms
proof (induction m i rule: flow.induct)
  case (1 m i)
  note e = info_eq [OF 1(2)]
  show ?case
  proof (cases "i < flow_length m")
    case True
    then have "i < length (uop m)" using 1(3) by simp
    then show ?thesis using 1(1) [OF True 1(2,3)] e(1) e(5) [of i] by (simp add: flow.simps [of m] flow.simps [of m'])
  next
    case False
    then show ?thesis using e(1) by (simp add: flow.simps [of m] flow.simps [of m'])
  qed
qed

definition todo :: "Mop_t list \<Rightarrow> nat \<Rightarrow> (nat \<times> nat) list" where
  "todo Q M = map (Pair M) (flow (Q ! M) (last_stage_index (Q ! M)))"

section \<open>The invariant\<close>

definition q_uops :: "decode_t \<Rightarrow> (nat \<times> nat) list" where
  "q_uops d = present (ring_items (uopQ_head d) (uopQ_num d) (uopQ d))"

definition IQ_Mops :: "fetch_t \<Rightarrow> nat list" where
  "IQ_Mops f = present (ring_items (IQ_head f) (IQ_num f) (IQ f))"

definition entry_Mops :: "knobs_t \<Rightarrow> byteQ_entry_t \<Rightarrow> nat list" where
  "entry_Mops k e = map (\<lambda>j. (unat (MopQ_first_index e) + j) mod unat (MopQ_size k)) [0 ..< nat (num_Mop e)]"

definition byteQ_Mops :: "knobs_t \<Rightarrow> fetch_t \<Rightarrow> nat list" where
  "byteQ_Mops k f = concat (map (entry_Mops k) (ring_items (byteQ_head f) (byteQ_num f) (byteQ f)))"

definition fetch_Mops :: "knobs_t \<Rightarrow> fetch_t \<Rightarrow> nat list" where
  "fetch_Mops k f = IQ_Mops f @ pipe_items (predecode f) @ byteQ_Mops k f"

definition fe_Mops :: "front_t \<Rightarrow> nat list" where
  "fe_Mops st = pipe_items (pipe (decode st)) @ fetch_Mops (knobs st) (fetch st)"

definition pending :: "front_t \<Rightarrow> (nat \<times> nat) list" where
  "pending st = q_uops (decode st) @ concat (map (todo (MopQ st)) (fe_Mops st))"

text \<open>The sizes of the machine; every decoder has a limit of uops.\<close>

definition knobs_ok :: "knobs_t \<Rightarrow> bool" where
  "knobs_ok k \<longleftrightarrow> 0 < fetch_depth k \<and> 0 < fetch_width k \<and> 0 < decode_width k \<and> 0 < target_stage k \<and> target_stage k < decode_depth k \<and>
     0 < unat (uopQ_size k) \<and> unat (uopQ_size k) < 2 ^ 31 \<and> 0 < unat (IQ_size k) \<and> unat (IQ_size k) < 2 ^ 31 \<and>
     0 < unat (byteQ_size k) \<and> unat (byteQ_size k) < 2 ^ 31 \<and> 0 < unat (MopQ_size k) \<and> unat (MopQ_size k) < 2 ^ 31 \<and>
     decode_width k \<le> length (max_uops k)"

definition pipe_ok :: "nat \<Rightarrow> nat \<Rightarrow> 'a option list list \<Rightarrow> bool" where
  "pipe_ok depth width p \<longleftrightarrow> length p = depth \<and> (\<forall>s < depth. length (p ! s) = width)"

definition dec_shape :: "knobs_t \<Rightarrow> decode_t \<Rightarrow> bool" where
  "dec_shape k d \<longleftrightarrow> pipe_ok (decode_depth k) (decode_width k) (pipe d) \<and> length (occupancy d) = decode_depth k \<and>
     (\<forall>s < decode_depth k. occupancy d ! s = int (length (present (pipe d ! s)))) \<and>
     ring_ok (uopQ_head d) (uopQ_num d) (uopQ_tail d) (uopQ_size k) (length (uopQ d)) \<and> None \<notin> set (ring_items (uopQ_head d) (uopQ_num d) (uopQ d))"

definition dec_ok :: "knobs_t \<Rightarrow> decode_t \<Rightarrow> bool" where
  "dec_ok k d \<longleftrightarrow> dec_shape k d \<and> packed (pipe d ! 0)"

definition fet_ok :: "knobs_t \<Rightarrow> fetch_t \<Rightarrow> bool" where
  "fet_ok k f \<longleftrightarrow> pipe_ok (fetch_depth k) (fetch_width k) (predecode f) \<and>
     ring_ok (IQ_head f) (IQ_num f) (IQ_tail f) (IQ_size k) (length (IQ f)) \<and> None \<notin> set (ring_items (IQ_head f) (IQ_num f) (IQ f)) \<and>
     ring_ok (byteQ_head f) (byteQ_num f) (byteQ_tail f) (byteQ_size k) (length (byteQ f)) \<and>
     (\<forall>i < length (byteQ f). 0 \<le> num_Mop (byteQ f ! i) \<and> (0 < num_Mop (byteQ f ! i) \<longrightarrow> unat (MopQ_first_index (byteQ f ! i)) < unat (MopQ_size k)) \<and>
        (\<not> in_ring (byteQ_head f) (byteQ_num f) (byteQ_size k) i \<longrightarrow> num_Mop (byteQ f ! i) = 0))"

definition Mop_ok :: "Mop_t \<Rightarrow> bool" where
  "Mop_ok m \<longleftrightarrow> flow_length m \<le> length (uop m) \<and> 0 \<le> num_uops m \<and> 0 \<le> num_eff_uops m"

text \<open>\<open>X\<close> are Mops whose uops are all queued but which still occupy a slot.\<close>

definition fe_inv :: "nat set \<Rightarrow> front_t \<Rightarrow> bool" where
  "fe_inv X st \<longleftrightarrow> knobs_ok (knobs st) \<and> dec_ok (knobs st) (decode st) \<and> fet_ok (knobs st) (fetch st) \<and> length (MopQ st) = unat (MopQ_size (knobs st)) \<and>
     distinct (fe_Mops st) \<and>
     (\<forall>M \<in> set (fe_Mops st). M < length (MopQ st) \<and> Mop_ok (MopQ st ! M) \<and> (M \<notin> X \<longrightarrow> last_stage_index (MopQ st ! M) < flow_length (MopQ st ! M))) \<and>
     (\<forall>p \<in> set (q_uops (decode st)). fst p < length (MopQ st) \<and> snd p < length (uop (MopQ st ! fst p))) \<and>
     uopQ_eff_num (decode st) = sum_list (map (\<lambda>p. eff_size (uop_at st p)) (q_uops (decode st))) \<and>
     IQ_uop_num (fetch st) = sum_list (map (\<lambda>M. num_uops (MopQ st ! M)) (IQ_Mops (fetch st))) \<and>
     IQ_eff_uop_num (fetch st) = sum_list (map (\<lambda>M. num_eff_uops (MopQ st ! M)) (IQ_Mops (fetch st)))"

lemma fe_invD:
  assumes "fe_inv X st"
  shows "knobs_ok (knobs st)" "dec_ok (knobs st) (decode st)" "fet_ok (knobs st) (fetch st)" "length (MopQ st) = unat (MopQ_size (knobs st))"
    "distinct (fe_Mops st)" "M \<in> set (fe_Mops st) \<Longrightarrow> M < length (MopQ st) \<and> Mop_ok (MopQ st ! M)"
    "M \<in> set (fe_Mops st) \<Longrightarrow> M \<notin> X \<Longrightarrow> last_stage_index (MopQ st ! M) < flow_length (MopQ st ! M)"
  using assms unfolding fe_inv_def by blast+

text \<open>Updates that keep the static part of every Mop and the progress of those in flight.\<close>

definition same_Mops :: "Mop_t list \<Rightarrow> Mop_t list \<Rightarrow> bool" where
  "same_Mops Q Q' \<longleftrightarrow> map info Q' = map info Q \<and> map last_stage_index Q' = map last_stage_index Q"

lemma same_Mops_refl [simp]: "same_Mops Q Q"
  by (simp add: same_Mops_def)

lemma same_Mops_trans: "same_Mops Q Q' \<Longrightarrow> same_Mops Q' Q'' \<Longrightarrow> same_Mops Q Q''"
  by (simp add: same_Mops_def)

lemma info_nth:
  assumes "map info Q' = map info Q"
  shows "length Q' = length Q" and "M < length Q \<Longrightarrow> info (Q' ! M) = info (Q ! M)"
proof -
  show l: "length Q' = length Q" using map_eq_imp_length_eq [OF assms] .
  show "info (Q' ! M) = info (Q ! M)" if "M < length Q" using assms l that by (metis nth_map)
qed

lemma same_Mops_nth:
  assumes "same_Mops Q Q'"
  shows "length Q' = length Q" and "M < length Q \<Longrightarrow> info (Q' ! M) = info (Q ! M)" and "M < length Q \<Longrightarrow> last_stage_index (Q' ! M) = last_stage_index (Q ! M)"
proof -
  show l: "length Q' = length Q" using assms unfolding same_Mops_def by (metis length_map)
  show "M < length Q \<Longrightarrow> info (Q' ! M) = info (Q ! M)" "M < length Q \<Longrightarrow> last_stage_index (Q' ! M) = last_stage_index (Q ! M)"
    using assms l unfolding same_Mops_def by (metis nth_map)+
qed

lemma map_upd_same: "(map g Q)[M := g (Q ! M)] = map g Q"
  by (cases "M < length Q") (metis length_map list_update_id nth_map, simp add: list_update_beyond)

lemma uop_static_update:
  fixes us :: "uop_t list"
  assumes "(has_imm v, in_fusion v, is_fusion_head v, fusion_size v) = (has_imm (us ! j), in_fusion (us ! j), is_fusion_head (us ! j), fusion_size (us ! j))"
  shows "map (\<lambda>u. (has_imm u, in_fusion u, is_fusion_head u, fusion_size u)) (us[j := v]) = map (\<lambda>u. (has_imm u, in_fusion u, is_fusion_head u, fusion_size u)) us"
  unfolding map_update assms by (rule map_upd_same)

lemma same_Mops_update:
  assumes "info (f (Q ! M)) = info (Q ! M)" and "last_stage_index (f (Q ! M)) = last_stage_index (Q ! M)"
  shows "same_Mops Q (Q[M := f (Q ! M)])"
  using assms by (simp add: same_Mops_def map_update map_upd_same)

lemma todo_same:
  assumes "same_Mops Q Q'" and "M < length Q" and "Mop_ok (Q ! M)"
  shows "todo Q' M = todo Q M"
proof -
  note n = same_Mops_nth(2,3) [OF assms(1,2)]
  show ?thesis unfolding todo_def n(2) using flow_info [OF n(1)] assms(3) by (simp add: Mop_ok_def)
qed

text \<open>The invariant and the pending sequence depend on the queues, the static part and the progress only.\<close>

lemma fe_inv_change:
  assumes inv: "fe_inv X st" and k: "knobs st' = knobs st" and d: "dec_ok (knobs st) (decode st')" and f: "fet_ok (knobs st) (fetch st')"
    and q: "map info (MopQ st') = map info (MopQ st)"
    and m: "\<And>M. M \<in> set (fe_Mops st') \<Longrightarrow> M < length (MopQ st) \<and> Mop_ok (MopQ st ! M) \<and> (M \<notin> Y \<longrightarrow> last_stage_index (MopQ st' ! M) < flow_length (MopQ st ! M))"
    and dist: "distinct (fe_Mops st')"
    and u: "\<And>p. p \<in> set (q_uops (decode st')) \<Longrightarrow> fst p < length (MopQ st) \<and> snd p < length (uop (MopQ st ! fst p))"
    and e: "uopQ_eff_num (decode st') = sum_list (map (\<lambda>p. eff_size (uop_at st p)) (q_uops (decode st')))"
    and i: "IQ_uop_num (fetch st') = sum_list (map (\<lambda>M. num_uops (MopQ st ! M)) (IQ_Mops (fetch st')))"
    and j: "IQ_eff_uop_num (fetch st') = sum_list (map (\<lambda>M. num_eff_uops (MopQ st ! M)) (IQ_Mops (fetch st')))"
  shows "fe_inv Y st'"
proof -
  note n = info_nth [OF q]
  have "M < length (MopQ st') \<and> Mop_ok (MopQ st' ! M) \<and> (M \<notin> Y \<longrightarrow> last_stage_index (MopQ st' ! M) < flow_length (MopQ st' ! M))"
    if "M \<in> set (fe_Mops st')" for M
  proof -
    have l: "M < length (MopQ st)" using m [OF that] by blast
    show ?thesis using m [OF that] n(1) unfolding Mop_ok_def info_eq(1-4) [OF n(2) [OF l]] by simp
  qed
  moreover have "fst p < length (MopQ st') \<and> snd p < length (uop (MopQ st' ! fst p))" if "p \<in> set (q_uops (decode st'))" for p
    using u [OF that] n(1) info_eq(2) [OF n(2)] by metis
  moreover have "eff_size (uop_at st' p) = eff_size (uop_at st p)" if "p \<in> set (q_uops (decode st'))" for p
    using u [OF that] info_eq(5) [OF n(2)] unfolding uop_at_def by blast
  then have "map (\<lambda>p. eff_size (uop_at st' p)) (q_uops (decode st')) = map (\<lambda>p. eff_size (uop_at st p)) (q_uops (decode st'))" by simp
  moreover have "num_uops (MopQ st' ! M) = num_uops (MopQ st ! M) \<and> num_eff_uops (MopQ st' ! M) = num_eff_uops (MopQ st ! M)" if "M \<in> set (IQ_Mops (fetch st'))" for M
  proof -
    have "M < length (MopQ st)" using m [of M] that by (simp add: fe_Mops_def fetch_Mops_def)
    then show ?thesis using info_eq(3,4) [OF n(2)] by blast
  qed
  then have "map (\<lambda>M. num_uops (MopQ st' ! M)) (IQ_Mops (fetch st')) = map (\<lambda>M. num_uops (MopQ st ! M)) (IQ_Mops (fetch st'))"
    "map (\<lambda>M. num_eff_uops (MopQ st' ! M)) (IQ_Mops (fetch st')) = map (\<lambda>M. num_eff_uops (MopQ st ! M)) (IQ_Mops (fetch st'))" by simp_all
  ultimately show ?thesis using fe_invD(1,4) [OF inv] k d f dist e i j n(1) unfolding fe_inv_def by metis
qed

lemma fe_inv_frame:
  assumes inv: "fe_inv X st" and k: "knobs st' = knobs st" and d: "dec_ok (knobs st) (decode st')" and f: "fet_ok (knobs st) (fetch st')"
    and q: "same_Mops (MopQ st) (MopQ st')" and m: "set (fe_Mops st') \<subseteq> set (fe_Mops st)" "distinct (fe_Mops st')"
    and u: "set (q_uops (decode st')) \<subseteq> set (q_uops (decode st))"
    and e: "uopQ_eff_num (decode st') = sum_list (map (\<lambda>p. eff_size (uop_at st p)) (q_uops (decode st')))"
    and i: "IQ_uop_num (fetch st') = sum_list (map (\<lambda>M. num_uops (MopQ st ! M)) (IQ_Mops (fetch st')))"
    and j: "IQ_eff_uop_num (fetch st') = sum_list (map (\<lambda>M. num_eff_uops (MopQ st ! M)) (IQ_Mops (fetch st')))"
  shows "fe_inv X st'"
proof (rule fe_inv_change [OF inv k d f _ _ m(2) _ e i j])
  show "map info (MopQ st') = map info (MopQ st)" using q by (simp add: same_Mops_def)
  show "M < length (MopQ st) \<and> Mop_ok (MopQ st ! M) \<and> (M \<notin> X \<longrightarrow> last_stage_index (MopQ st' ! M) < flow_length (MopQ st ! M))"
    if "M \<in> set (fe_Mops st')" for M using fe_invD(6,7) [OF inv, of M] that m(1) same_Mops_nth(3) [OF q, of M] by auto
  show "fst p < length (MopQ st) \<and> snd p < length (uop (MopQ st ! fst p))" if "p \<in> set (q_uops (decode st'))" for p
    using inv u that by (auto simp: fe_inv_def)
qed

lemma todos_same:
  assumes inv: "fe_inv X st" and q: "same_Mops (MopQ st) Q'" and m: "set Ms \<subseteq> set (fe_Mops st)"
  shows "map (todo Q') Ms = map (todo (MopQ st)) Ms"
  using todo_same [OF q] fe_invD(6) [OF inv] m by (auto intro!: map_cong)

end
