(* ===== verification/Frontend_Decode.thy ===== *)
theory Frontend_Decode
  imports Frontend_Inv
begin

text \<open>
  The decode stage: recoveries cut the decode pipe and the uop queue behind a Mop, and a cycle moves Mops
  and uops on without changing their order.
\<close>

section \<open>Slots of the decode pipe\<close>

definition only_pipe :: "decode_t \<Rightarrow> decode_t \<Rightarrow> bool" where
  "only_pipe d d' \<longleftrightarrow> (\<exists>p oc. d' = d\<lparr>pipe := p, occupancy := oc\<rparr>)"

lemma only_pipe_refl [simp]: "only_pipe d d"
  unfolding only_pipe_def by (metis decode_t.surjective decode_t.update_convs(1,2))

lemma only_pipe_trans: "only_pipe d d' \<Longrightarrow> only_pipe d' d'' \<Longrightarrow> only_pipe d d''"
  unfolding only_pipe_def by (elim exE) (simp, blast)

lemma only_pipe_queue:
  assumes "only_pipe d d'"
  shows "q_uops d' = q_uops d" "uopQ_eff_num d' = uopQ_eff_num d" "uopQ_num d' = uopQ_num d" "uopQ_head d' = uopQ_head d"
    "uopQ_tail d' = uopQ_tail d" "uopQ d' = uopQ d"
  using assms by (auto simp: only_pipe_def q_uops_def)

lemma pipe_ok_update: "pipe_ok D W p \<Longrightarrow> length x = W \<Longrightarrow> pipe_ok D W (p[s := x])"
  by (cases "s < length p") (auto simp: pipe_ok_def nth_list_update list_update_beyond not_less)

lemma dec_shape_facts:
  assumes "dec_shape k d"
  shows "length (pipe d) = decode_depth k" "length (occupancy d) = decode_depth k" "s < decode_depth k \<Longrightarrow> length (pipe d ! s) = decode_width k"
    "s < decode_depth k \<Longrightarrow> occupancy d ! s = int (length (present (pipe d ! s)))"
  using assms by (simp_all add: dec_shape_def pipe_ok_def)

lemma dec_shape_stage:
  assumes d: "dec_shape k d" and s: "s < decode_depth k" and x: "length x = decode_width k" and o: "oc = int (length (present x))"
  shows "dec_shape k (d\<lparr>pipe := (pipe d)[s := x], occupancy := (occupancy d)[s := oc]\<rparr>)"
  using d s x o by (auto simp: dec_shape_def pipe_ok_def nth_list_update)

lemma drop_slot_ok:
  assumes d: "dec_shape k d" and s: "s < decode_depth k" and i: "i < decode_width k" and M: "pipe d ! s ! i = Some M"
  shows "\<exists>d'. drop_slot s i d = Some d' \<and> dec_shape k d' \<and> only_pipe d d' \<and> pipe d' = (pipe d)[s := (pipe d ! s)[i := None]]"
proof -
  note f = dec_shape_facts [OF d]
  let ?x = "(pipe d ! s)[i := None]"
  have l: "i < length (pipe d ! s)" using f(3) [OF s] i by simp
  have "int (length (present (pipe d ! s))) - 1 = int (length (present ?x))"
    using present_split [OF l] present_update [OF l, of None] M by simp
  then have oc: "occupancy d ! s - 1 = int (length (present ?x))" using f(4) [OF s] by simp
  then have "drop_slot s i d = Some (d\<lparr>pipe := (pipe d)[s := ?x], occupancy := (occupancy d)[s := int (length (present ?x))]\<rparr>)"
    using f(2) s by (simp add: drop_slot_def sure_def)
  then show ?thesis using dec_shape_stage [OF d s _ refl, of ?x] f(3) [OF s] by (auto simp: only_pipe_def)
qed

lemma wipe_slots_ok:
  assumes "dec_shape k d" and "s < decode_depth k" and "n \<le> decode_width k" and "\<And>j. n \<le> j \<Longrightarrow> j < decode_width k \<Longrightarrow> pipe d ! s ! j = None"
  shows "\<exists>b d' c. wipe_slots M s (rev [0 ..< n]) d = Some (b, d') \<and> dec_shape k d' \<and> only_pipe d d' \<and> c \<le> n \<and>
     pipe d' = (pipe d)[s := cut c (pipe d ! s)] \<and> (if b then 0 < c \<and> pipe d ! s ! (c - 1) = Some M else c = 0 \<and> M \<notin> set (present (pipe d ! s)))"
  using assms
proof (induction n arbitrary: d)
  case 0
  note f = dec_shape_facts [OF 0(1)]
  have "pipe d ! s = replicate (decode_width k) None" using 0 f(3) by (intro nth_equalityI) simp_all
  then have "cut 0 (pipe d ! s) = pipe d ! s" "present (pipe d ! s) = []" by (simp_all add: cut_def)
  then show ?case using 0(1) by auto
next
  case (Suc n)
  note f = dec_shape_facts [OF Suc.prems(1)] and s = Suc.prems(2)
  have n: "n < decode_width k" "n < length (pipe d ! s)" using Suc.prems(3) f(3) [OF s] by simp_all
  show ?case
  proof (cases "pipe d ! s ! n")
    case None
    then have "\<And>j. n \<le> j \<Longrightarrow> j < decode_width k \<Longrightarrow> pipe d ! s ! j = None" using Suc.prems(4) by (metis le_antisym not_less_eq_eq)
    from Suc.IH [OF Suc.prems(1,2) _ this] n obtain b d' c where "wipe_slots M s (rev [0 ..< n]) d = Some (b, d')" "dec_shape k d'" "only_pipe d d'" "c \<le> n"
      "pipe d' = (pipe d)[s := cut c (pipe d ! s)]" "if b then 0 < c \<and> pipe d ! s ! (c - 1) = Some M else c = 0 \<and> M \<notin> set (present (pipe d ! s))" by auto
    then show ?thesis using None by (intro exI [of _ b] exI [of _ d'] exI [of _ c]) simp
  next
    case (Some M')
    show ?thesis
    proof (cases "M' = M")
      case True
      have "cut (Suc n) (pipe d ! s) = pipe d ! s" using Suc.prems(4) f(3) [OF s] by (intro nth_equalityI) (auto simp: nth_cut)
      then have "pipe d = (pipe d)[s := cut (Suc n) (pipe d ! s)]" by simp
      then show ?thesis using Some True Suc.prems(1) by (intro exI [of _ True] exI [of _ d] exI [of _ "Suc n"]) simp
    next
      case False
      obtain d1 where d1: "drop_slot s n d = Some d1" "dec_shape k d1" "only_pipe d d1" "pipe d1 = (pipe d)[s := (pipe d ! s)[n := None]]"
        using drop_slot_ok [OF Suc.prems(1) s n(1) Some] by blast
      have st: "pipe d1 ! s = (pipe d ! s)[n := None]" using d1(4) f(1) s by simp
      have "pipe d1 ! s ! j = None" if "n \<le> j" "j < decode_width k" for j
        using that Suc.prems(4) [of j] n by (cases "j = n") (simp_all add: st)
      from Suc.IH [OF d1(2) s _ this] n(1) obtain b d' c where
        h: "wipe_slots M s (rev [0 ..< n]) d1 = Some (b, d')" "dec_shape k d'" "only_pipe d1 d'" "c \<le> n" "pipe d' = (pipe d1)[s := cut c (pipe d1 ! s)]"
          "if b then 0 < c \<and> pipe d1 ! s ! (c - 1) = Some M else c = 0 \<and> M \<notin> set (present (pipe d1 ! s))" by auto
      have c: "cut c ((pipe d ! s)[n := None]) = cut c (pipe d ! s)" using h(4) by (simp add: cut_def)
      have "set (present (pipe d ! s)) = insert M' (set (present ((pipe d ! s)[n := None])))"
        using present_split [OF n(2)] present_update [OF n(2), of None] Some by auto
      then have "if b then 0 < c \<and> pipe d ! s ! (c - 1) = Some M else c = 0 \<and> M \<notin> set (present (pipe d ! s))"
        using h(4,6) False n(2) by (auto simp: st nth_list_update split: if_splits)
      moreover have "pipe d' = (pipe d)[s := cut c (pipe d ! s)]" unfolding h(5) st c unfolding d1(4) by simp
      moreover have "wipe_slots M s (rev [0 ..< Suc n]) d = Some (b, d')" using Some False d1(1) h(1) by simp
      ultimately show ?thesis using h(2,4) only_pipe_trans [OF d1(3) h(3)] le_SucI by blast
    qed
  qed
qed

text \<open>Behind a wipe the pipe holds what was in front of the Mop and the Mop, or nothing. Every stage is
  cut.\<close>

definition wiped :: "nat \<Rightarrow> bool \<Rightarrow> nat option list list \<Rightarrow> nat option list list \<Rightarrow> bool" where
  "wiped M b p p' \<longleftrightarrow> (\<forall>s < length p. \<exists>c. p' ! s = cut c (p ! s)) \<and>
     (if b then (\<exists>ys zs. pipe_items p = ys @ M # zs \<and> pipe_items p' = ys @ [M]) else M \<notin> set (pipe_items p) \<and> pipe_items p' = [])"

lemma wipe_stages_ok:
  assumes "dec_shape k d" and "a \<le> decode_depth k" and "\<And>s. s < a \<Longrightarrow> present (pipe d ! s) = []"
  shows "\<exists>b d'. wipe_stages M (rev [0 ..< decode_width k]) [a ..< decode_depth k] d = Some (b, d') \<and> dec_shape k d' \<and> only_pipe d d' \<and>
     wiped M b (pipe d) (pipe d')"
  using assms
proof (induction "decode_depth k - a" arbitrary: a d)
  case 0
  note f = dec_shape_facts [OF 0(2)]
  have "pipe_items (pipe d) = []" using 0(1,3,4) f(1) by (intro pipe_items_Nil) simp
  moreover have "\<exists>c. pipe d ! s = cut c (pipe d ! s)" for s by (rule exI [of _ "length (pipe d ! s)"]) simp
  ultimately have "wiped M False (pipe d) (pipe d)" by (simp add: wiped_def)
  then show ?case using 0 by auto
next
  case (Suc n)
  note f = dec_shape_facts [OF Suc.prems(1)]
  have a: "a < decode_depth k" using Suc(2) by simp
  then have l: "a < length (pipe d)" using f(1) by simp
  have e: "[a ..< decode_depth k] = a # [Suc a ..< decode_depth k]" using a by (simp add: upt_conv_Cons)
  have low: "pipe_items (take a (pipe d)) = []" using Suc.prems(3) l by (intro pipe_items_Nil) simp
  have "\<exists>b d' c. (if occupancy d ! a \<noteq> 0 then wipe_slots M a (rev [0 ..< decode_width k]) d else Some (False, d)) = Some (b, d') \<and> dec_shape k d' \<and> only_pipe d d' \<and>
     pipe d' = (pipe d)[a := cut c (pipe d ! a)] \<and> (if b then 0 < c \<and> c \<le> decode_width k \<and> pipe d ! a ! (c - 1) = Some M else present (cut c (pipe d ! a)) = [] \<and> M \<notin> set (present (pipe d ! a)))"
  proof (cases "occupancy d ! a = 0")
    case True
    then have "present (pipe d ! a) = []" using f(4) [OF a] by simp
    then show ?thesis using True Suc.prems(1)
      by (intro exI [of _ False] exI [of _ d] exI [of _ "length (pipe d ! a)"]) simp
  next
    case False
    from wipe_slots_ok [OF Suc.prems(1) a le_refl, of M] obtain b d' c where
      "wipe_slots M a (rev [0 ..< decode_width k]) d = Some (b, d')" "dec_shape k d'" "only_pipe d d'" "c \<le> decode_width k" "pipe d' = (pipe d)[a := cut c (pipe d ! a)]"
      "if b then 0 < c \<and> pipe d ! a ! (c - 1) = Some M else c = 0 \<and> M \<notin> set (present (pipe d ! a))" by auto
    then show ?thesis using False by (intro exI [of _ b] exI [of _ d'] exI [of _ c]) (auto split: if_splits)
  qed
  then obtain b d1 c where w: "(if occupancy d ! a \<noteq> 0 then wipe_slots M a (rev [0 ..< decode_width k]) d else Some (False, d)) = Some (b, d1)" "dec_shape k d1" "only_pipe d d1"
     "pipe d1 = (pipe d)[a := cut c (pipe d ! a)]" "if b then 0 < c \<and> c \<le> decode_width k \<and> pipe d ! a ! (c - 1) = Some M else present (cut c (pipe d ! a)) = [] \<and> M \<notin> set (present (pipe d ! a))"
    by blast
  have cut1: "\<exists>c. pipe d1 ! s = cut c (pipe d ! s)" for s
    using w(4) l by (cases "s = a") (auto intro: exI [of _ "length (pipe d ! s)"])
  show ?case
  proof (cases b)
    case True
    have "take c (pipe d ! a) = take (c - 1) (pipe d ! a) @ [Some M]"
    proof -
      have c: "Suc (c - 1) = c" "c - 1 < length (pipe d ! a)" "pipe d ! a ! (c - 1) = Some M" using w(5) True f(3) [OF a] by auto
      show ?thesis using take_Suc_conv_app_nth [OF c(2)] unfolding c(1,3) .
    qed
    then have t: "present (take c (pipe d ! a)) = present (take (c - 1) (pipe d ! a)) @ [M]" by simp
    have "present (pipe d ! a) = present (take c (pipe d ! a)) @ present (drop c (pipe d ! a))" by (metis append_take_drop_id present_append)
    then have "pipe_items (pipe d) = (pipe_items (drop (Suc a) (pipe d)) @ present (take (c - 1) (pipe d ! a))) @ M # present (drop c (pipe d ! a))"
      "pipe_items (pipe d1) = (pipe_items (drop (Suc a) (pipe d)) @ present (take (c - 1) (pipe d ! a))) @ [M]"
      using pipe_items_split [OF l] pipe_items_update [OF l] low t by (simp_all add: w(4))
    then have "wiped M True (pipe d) (pipe d1)" using cut1 unfolding wiped_def by (simp only: if_True) blast
    then show ?thesis using w(1-3) True by (auto simp: e simp del: upt_Suc)
  next
    case False
    have e1: "present (pipe d1 ! s) = []" if "s < Suc a" for s
      using w(4,5) False Suc.prems(3) that l by (cases "s = a") simp_all
    have len: "length (pipe d1) = length (pipe d)" using w(4) by simp
    have na: "n = decode_depth k - Suc a" "Suc a \<le> decode_depth k" using Suc(2) a by simp_all
    from Suc(1) [OF na(1) w(2) na(2) e1] obtain b' d' where
      h: "wipe_stages M (rev [0 ..< decode_width k]) [Suc a ..< decode_depth k] d1 = Some (b', d')" "dec_shape k d'" "only_pipe d1 d'" "wiped M b' (pipe d1) (pipe d')" by blast
    have i1: "pipe_items (pipe d1) = pipe_items (drop (Suc a) (pipe d))" using pipe_items_update [OF l] low w(4,5) False by simp
    have i0: "pipe_items (pipe d) = pipe_items (drop (Suc a) (pipe d)) @ present (pipe d ! a)" using pipe_items_split [OF l] low by simp
    have "\<exists>c. pipe d' ! s = cut c (pipe d ! s)" if "s < length (pipe d)" for s
    proof -
      obtain c1 where "pipe d1 ! s = cut c1 (pipe d ! s)" using cut1 by blast
      moreover have "s < length (pipe d1)" using that len by simp
      then obtain c2 where "pipe d' ! s = cut c2 (pipe d1 ! s)" using h(4) unfolding wiped_def by blast
      ultimately have "pipe d' ! s = cut (min c1 c2) (pipe d ! s)" by (intro nth_equalityI) (auto simp: nth_cut)
      then show ?thesis by blast
    qed
    moreover have "if b' then (\<exists>ys zs. pipe_items (pipe d) = ys @ M # zs \<and> pipe_items (pipe d') = ys @ [M]) else M \<notin> set (pipe_items (pipe d)) \<and> pipe_items (pipe d') = []"
      using h(4) w(5) False unfolding wiped_def i0 i1 by (auto split: if_splits)
    ultimately have "wiped M b' (pipe d) (pipe d')" unfolding wiped_def by blast
    then show ?thesis using w(1) False h(1,2) only_pipe_trans [OF w(3) h(3)] by (auto simp: e simp del: upt_Suc)
  qed
qed

lemma recover_decode_pipe_ok:
  assumes "dec_ok k d"
  shows "\<exists>b d'. recover_decode_pipe M k d = Some (b, d') \<and> dec_ok k d' \<and> only_pipe d d' \<and> wiped M b (pipe d) (pipe d')"
proof -
  have d: "dec_shape k d" "packed (pipe d ! 0)" using assms by (simp_all add: dec_ok_def)
  obtain b d' where w: "wipe_stages M (rev [0 ..< decode_width k]) [0 ..< decode_depth k] d = Some (b, d')" "dec_shape k d'" "only_pipe d d'" "wiped M b (pipe d) (pipe d')"
    using wipe_stages_ok [OF d(1), of 0 M] by auto
  have "packed (pipe d' ! 0)"
  proof (cases "pipe d = []")
    case True
    then have "pipe d' = []" using dec_shape_facts(1) [OF w(2)] dec_shape_facts(1) [OF d(1)] by simp
    then show ?thesis using d(2) True by simp
  next
    case False
    then obtain c where "pipe d' ! 0 = cut c (pipe d ! 0)" using w(4) by (auto simp: wiped_def)
    then show ?thesis using cut_packed [OF d(2)] by simp
  qed
  then show ?thesis using w by (auto simp: recover_decode_pipe_def dec_ok_def)
qed


text \<open>Clearing the whole pipe.\<close>

lemma clear_slots_ok:
  assumes "dec_shape k d" and "s < decode_depth k" and "n \<le> decode_width k" and "\<And>j. n \<le> j \<Longrightarrow> j < decode_width k \<Longrightarrow> pipe d ! s ! j = None"
  shows "\<exists>d'. clear_slots s (rev [0 ..< n]) d = Some d' \<and> dec_shape k d' \<and> only_pipe d d' \<and> pipe d' = (pipe d)[s := cut 0 (pipe d ! s)]"
  using assms
proof (induction n arbitrary: d)
  case 0
  note f = dec_shape_facts [OF 0(1)]
  have "pipe d ! s = replicate (decode_width k) None" using 0 f(3) by (intro nth_equalityI) simp_all
  then have "cut 0 (pipe d ! s) = pipe d ! s" by (simp add: cut_def)
  then show ?case using 0(1) by simp
next
  case (Suc n)
  note f = dec_shape_facts [OF Suc.prems(1)] and s = Suc.prems(2)
  have n: "n < decode_width k" "n < length (pipe d ! s)" using Suc.prems(3) f(3) [OF s] by simp_all
  show ?case
  proof (cases "pipe d ! s ! n")
    case None
    then have "\<And>j. n \<le> j \<Longrightarrow> j < decode_width k \<Longrightarrow> pipe d ! s ! j = None" using Suc.prems(4) by (metis le_antisym not_less_eq_eq)
    from Suc.IH [OF Suc.prems(1,2) _ this] n None show ?thesis by simp
  next
    case (Some M)
    obtain d1 where d1: "drop_slot s n d = Some d1" "dec_shape k d1" "only_pipe d d1" "pipe d1 = (pipe d)[s := (pipe d ! s)[n := None]]"
      using drop_slot_ok [OF Suc.prems(1) s n(1) Some] by blast
    have st: "pipe d1 ! s = (pipe d ! s)[n := None]" using d1(4) f(1) s by simp
    have "pipe d1 ! s ! j = None" if "n \<le> j" "j < decode_width k" for j
      using that Suc.prems(4) [of j] n by (cases "j = n") (simp_all add: st)
    from Suc.IH [OF d1(2) s _ this] n(1) obtain d' where
      h: "clear_slots s (rev [0 ..< n]) d1 = Some d'" "dec_shape k d'" "only_pipe d1 d'" "pipe d' = (pipe d1)[s := cut 0 (pipe d1 ! s)]" by auto
    have "pipe d' = (pipe d)[s := cut 0 (pipe d ! s)]" unfolding h(4) st unfolding d1(4) by (simp add: cut_def)
    then show ?thesis using Some d1(1) h(1,2) only_pipe_trans [OF d1(3) h(3)] by simp
  qed
qed

lemma clear_stages_ok:
  assumes "dec_shape k d" and "a \<le> decode_depth k" and "\<And>s. s < a \<Longrightarrow> present (pipe d ! s) = []"
  shows "\<exists>d'. clear_stages (rev [0 ..< decode_width k]) [a ..< decode_depth k] d = Some d' \<and> dec_shape k d' \<and> only_pipe d d' \<and>
     (\<forall>s < decode_depth k. present (pipe d' ! s) = [])"
  using assms
proof (induction "decode_depth k - a" arbitrary: a d)
  case (Suc n)
  note f = dec_shape_facts [OF Suc.prems(1)]
  have a: "a < decode_depth k" using Suc(2) by simp
  then have e: "[a ..< decode_depth k] = a # [Suc a ..< decode_depth k]" by (simp add: upt_conv_Cons)
  have "\<exists>d1. (if occupancy d ! a \<noteq> 0 then clear_slots a (rev [0 ..< decode_width k]) d else Some d) = Some d1 \<and> dec_shape k d1 \<and> only_pipe d d1 \<and>
      (\<forall>s < Suc a. present (pipe d1 ! s) = [])"
  proof (cases "occupancy d ! a = 0")
    case True
    then have "present (pipe d ! a) = []" using f(4) [OF a] by simp
    then show ?thesis using True Suc.prems(1,3) less_Suc_eq by auto
  next
    case False
    from clear_slots_ok [OF Suc.prems(1) a le_refl] obtain d1 where
      "clear_slots a (rev [0 ..< decode_width k]) d = Some d1" "dec_shape k d1" "only_pipe d d1" "pipe d1 = (pipe d)[a := cut 0 (pipe d ! a)]" by auto
    then show ?thesis using False Suc.prems(3) f(1) a by (auto simp: nth_list_update less_Suc_eq)
  qed
  then obtain d1 where d1: "(if occupancy d ! a \<noteq> 0 then clear_slots a (rev [0 ..< decode_width k]) d else Some d) = Some d1" "dec_shape k d1" "only_pipe d d1"
    "\<And>s. s < Suc a \<Longrightarrow> present (pipe d1 ! s) = []" by blast
  have na: "n = decode_depth k - Suc a" "Suc a \<le> decode_depth k" using Suc(2) a by simp_all
  have "occupancy d1 ! a = 0" using dec_shape_facts(4) [OF d1(2) a] d1(4) [of a] by simp
  then show ?case using Suc(1) [OF na(1) d1(2) na(2) d1(4)] d1(1) only_pipe_trans [OF d1(3)] by (auto simp: e simp del: upt_Suc)
qed auto

lemma packed_empty: "present xs = [] \<Longrightarrow> packed xs"
  by (simp add: packed_def present_Nil_iff)

section \<open>Recovery of the uop queue\<close>

lemma present_all: "None \<notin> set xs \<Longrightarrow> map Some (present xs) = xs"
  by (induction xs rule: present.induct) simp_all

lemma q_uops_items: "dec_shape k d \<Longrightarrow> ring_items (uopQ_head d) (uopQ_num d) (uopQ d) = map Some (q_uops d)"
  by (simp add: q_uops_def dec_shape_def present_all)

lemma decode_self [simp]: "st\<lparr>decode := decode st\<rparr> = st"
  by (cases st) simp

lemma fe_inv_decode:
  assumes inv: "fe_inv X st" and d: "dec_ok (knobs st) d'" and q: "set (q_uops d') \<subseteq> set (q_uops (decode st))"
    and e: "uopQ_eff_num d' = sum_list (map (\<lambda>p. eff_size (uop_at st p)) (q_uops d'))"
    and m: "set (pipe_items (pipe d')) \<subseteq> set (pipe_items (pipe (decode st)))" "distinct (pipe_items (pipe d'))"
  shows "fe_inv X (st\<lparr>decode := d'\<rparr>)"
proof (rule fe_inv_frame [OF inv])
  show "set (fe_Mops (st\<lparr>decode := d'\<rparr>)) \<subseteq> set (fe_Mops st)" using m(1) by (auto simp: fe_Mops_def)
  show "distinct (fe_Mops (st\<lparr>decode := d'\<rparr>))" using m fe_invD(5) [OF inv] by (auto simp: fe_Mops_def)
qed (use inv d q e in \<open>simp_all add: fe_inv_def\<close>)

lemma pop_uopQ_ok:
  assumes "fe_inv X st" and "n = unat (uopQ_num (decode st))"
  shows "\<exists>d' vs. pop_uopQ M n st = Some (st\<lparr>decode := d'\<rparr>) \<and> fe_inv X (st\<lparr>decode := d'\<rparr>) \<and> pipe d' = pipe (decode st) \<and>
    q_uops (decode st) = q_uops d' @ vs \<and> (\<forall>p \<in> set vs. fst p \<noteq> M) \<and> (q_uops d' = [] \<or> fst (last (q_uops d')) = M)"
  using assms
proof (induction n arbitrary: st)
  case 0
  then have n: "uopQ_num (decode st) = 0" by (simp add: unat_eq_0)
  let ?d = "(decode st)\<lparr>uopQ_eff_num := 0\<rparr>"
  have "dec_ok (knobs st) ?d" using fe_invD(2) [OF 0(1)] by (simp add: dec_ok_def dec_shape_def)
  then have "fe_inv X (st\<lparr>decode := ?d\<rparr>)" using fe_invD(5) [OF 0(1)] n
    by (intro fe_inv_decode [OF 0(1)]) (simp_all add: q_uops_def fe_Mops_def)
  then show ?case using n by (intro exI [of _ ?d]) (simp add: upd_decode_def q_uops_def)
next
  case (Suc n)
  let ?d = "decode st" and ?k = "knobs st"
  have nz: "uopQ_num ?d \<noteq> 0" using Suc.prems(2) by auto
  have ok: "dec_ok ?k ?d" "dec_shape ?k ?d" using fe_invD(2) [OF Suc.prems(1)] by (simp_all add: dec_ok_def)
  then have r: "ring_ok (uopQ_head ?d) (uopQ_num ?d) (uopQ_tail ?d) (uopQ_size ?k) (length (uopQ ?d))" by (simp add: dec_shape_def)
  define i where "i = moddec (uopQ_tail ?d) (uopQ_size ?k)"
  note b = ring_back [OF r nz, folded i_def]
  have items: "map Some (q_uops ?d) = ring_items (uopQ_head ?d) (uopQ_num ?d - 1) ((uopQ ?d)[unat i := None]) @ [uopQ ?d ! unat i]"
    using ring_items_back [OF r nz, of None] q_uops_items [OF ok(2)] by (simp add: i_def)
  then obtain p us where p: "uopQ ?d ! unat i = Some p" "q_uops ?d = us @ [p]" "ring_items (uopQ_head ?d) (uopQ_num ?d - 1) ((uopQ ?d)[unat i := None]) = map Some us"
    by (cases "q_uops ?d" rule: rev_cases) (auto dest: sym)
  have n1: "n = unat (uopQ_num ?d - 1)" using Suc.prems(2) unat_minus_one [OF nz] by simp
  show ?case
  proof (cases "fst p = M")
    case True
    then show ?thesis using Suc.prems(1) p by (intro exI [of _ ?d] exI [of _ "[]"]) (simp add: i_def [symmetric])
  next
    case False
    let ?d1 = "?d\<lparr>uopQ_eff_num := uopQ_eff_num ?d - eff_size (uop_at st p), uopQ_num := uopQ_num ?d - 1, uopQ := (uopQ ?d)[unat i := None], uopQ_tail := i\<rparr>"
    have q1: "q_uops ?d1 = us" using p(3) by (simp add: q_uops_def)
    have "dec_ok ?k ?d1" using ok b p(3) by (auto simp: dec_ok_def dec_shape_def)
    moreover have "uopQ_eff_num ?d = sum_list (map (\<lambda>p. eff_size (uop_at st p)) (q_uops ?d))" using Suc.prems(1) by (simp add: fe_inv_def)
    ultimately have inv: "fe_inv X (st\<lparr>decode := ?d1\<rparr>)"
      using fe_invD(5) [OF Suc.prems(1)] q1 p(2) by (intro fe_inv_decode [OF Suc.prems(1)]) (simp_all add: fe_Mops_def subset_insertI)
    from Suc.IH [OF inv] n1 obtain d' vs where h: "pop_uopQ M n (st\<lparr>decode := ?d1\<rparr>) = Some (st\<lparr>decode := d'\<rparr>)" "fe_inv X (st\<lparr>decode := d'\<rparr>)" "pipe d' = pipe ?d"
      "us = q_uops d' @ vs" "\<forall>p \<in> set vs. fst p \<noteq> M" "q_uops d' = [] \<or> fst (last (q_uops d')) = M" using q1 by auto
    have "pop_uopQ M (Suc n) st = Some (st\<lparr>decode := d'\<rparr>)" using p(1) False h(1) by (simp add: i_def [symmetric] upd_decode_def)
    then show ?thesis using h p(2) False by (intro exI [of _ d'] exI [of _ "vs @ [p]"]) auto
  qed
qed


section \<open>Recovery of the front end\<close>

lemma only_pipe_fields:
  assumes inv: "fe_inv X st" and d: "dec_ok (knobs st) d'" "only_pipe (decode st) d'"
    and m: "set (pipe_items (pipe d')) \<subseteq> set (pipe_items (pipe (decode st)))" "distinct (pipe_items (pipe d'))"
  shows "fe_inv X (st\<lparr>decode := d'\<rparr>)"
  using inv by (intro fe_inv_decode [OF inv d(1) _ _ m]) (simp_all add: only_pipe_queue [OF d(2)] fe_inv_def)

lemma clear_byteQ_ok:
  "clear_byteQ n es st = (es', st') \<Longrightarrow> list_all (\<lambda>e. num_Mop e = 0) es \<Longrightarrow>
     length es' = length es + n \<and> list_all (\<lambda>e. num_Mop e = 0) es' \<and> (\<exists>a. st' = st\<lparr>global_action_id := a\<rparr>)"
proof (induction n es st arbitrary: es' st' rule: clear_byteQ.induct)
  case (1 es st)
  then show ?case by (auto intro: exI [of _ "global_action_id st"])
next
  case (2 n es st)
  then show ?case by (auto simp: new_action_id_def Let_def)
qed

lemma fetch_recover_ok:
  assumes inv: "fe_inv X st"
  shows "fe_inv X (fetch_recover pc st)" and "decode (fetch_recover pc st) = decode st" and "MopQ (fetch_recover pc st) = MopQ st"
    and "knobs (fetch_recover pc st) = knobs st" and "fetch_Mops (knobs st) (fetch (fetch_recover pc st)) = []" and "events (fetch_recover pc st) = events st"
proof -
  let ?k = "knobs st" and ?f = "fetch (fetch_recover pc st)"
  obtain es st1 where c: "clear_byteQ (unat (byteQ_size ?k)) [] st = (es, st1)" by (meson surj_pair)
  from clear_byteQ_ok [OF c] obtain a where e: "length es = unat (byteQ_size ?k)" "list_all (\<lambda>e. num_Mop e = 0) es" "st1 = st\<lparr>global_action_id := a\<rparr>" by auto
  have fr: "fetch_recover pc st = st\<lparr>global_action_id := a, fetch := (fetch st)\<lparr>PC := pc, byteQ := es, byteQ_num := 0, byteQ_head := 0, byteQ_tail := 0,
      IQ := map (\<lambda>_. None) (IQ (fetch st)), IQ_num := 0, IQ_uop_num := 0, IQ_eff_uop_num := 0, IQ_head := 0, IQ_tail := 0,
      predecode := map (map (\<lambda>_. None)) (predecode (fetch st))\<rparr>\<rparr>"
    by (simp add: fetch_recover_def c e(3) upd_fetch_def)
  then show d: "decode (fetch_recover pc st) = decode st" "MopQ (fetch_recover pc st) = MopQ st" "knobs (fetch_recover pc st) = ?k"
    "events (fetch_recover pc st) = events st" by simp_all
  have k: "knobs_ok ?k" "fet_ok ?k (fetch st)" using fe_invD(1,3) [OF inv] by simp_all
  have p: "pipe_items (map (map (\<lambda>_. None)) (predecode (fetch st))) = []" by (intro pipe_items_Nil) simp
  then show m: "fetch_Mops ?k ?f = []" by (simp add: fr fetch_Mops_def IQ_Mops_def byteQ_Mops_def)
  have "length (IQ (fetch st)) = unat (IQ_size ?k)" using k(2) by (simp add: fet_ok_def ring_ok_def)
  then have "fet_ok ?k ?f" using k e(1,2) by (simp add: fr fet_ok_def ring_ok_def knobs_ok_def pipe_ok_def list_all_length)
  moreover have "fe_Mops (fetch_recover pc st) = pipe_items (pipe (decode st))" using m d by (simp add: fe_Mops_def)
  ultimately show "fe_inv X (fetch_recover pc st)"
    using fe_invD(2,5) [OF inv] inv by (intro fe_inv_frame [OF inv]) (simp_all add: d fe_Mops_def fr IQ_Mops_def fe_inv_def)
qed

text \<open>Cutting the decode pipe behind a Mop in it, or emptying it, and dropping what was fetched leaves a
  prefix of what was pending.\<close>

lemma pending_cut:
  assumes "fe_inv X st" and q: "q_uops (decode st) = q_uops d' @ vs" and "wiped M b (pipe (decode st)) (pipe d')" and "b \<Longrightarrow> vs = []"
    and d: "fe_inv X (st\<lparr>decode := d'\<rparr>)"
  shows "prefix (pending (fetch_recover pc (st\<lparr>decode := d'\<rparr>))) (pending st)"
proof -
  have "pending (fetch_recover pc (st\<lparr>decode := d'\<rparr>)) = q_uops d' @ concat (map (todo (MopQ st)) (pipe_items (pipe d')))"
    using fetch_recover_ok [OF d, of pc] by (simp add: pending_def fe_Mops_def)
  then show ?thesis using assms(2-4) by (cases b) (auto simp: pending_def fe_Mops_def wiped_def)
qed

lemma decode_recover_ok:
  assumes inv: "fe_inv X st"
  shows "\<exists>d' b vs. decode_recover M st = Some (st\<lparr>decode := d'\<rparr>) \<and> fe_inv X (st\<lparr>decode := d'\<rparr>) \<and> wiped M b (pipe (decode st)) (pipe d') \<and>
    q_uops (decode st) = q_uops d' @ vs \<and> (if b then vs = [] else (\<forall>p \<in> set vs. fst p \<noteq> M) \<and> (q_uops d' = [] \<or> fst (last (q_uops d')) = M))"
proof -
  from recover_decode_pipe_ok [OF fe_invD(2) [OF inv], of M] obtain b d1 where
    w: "recover_decode_pipe M (knobs st) (decode st) = Some (b, d1)" "dec_ok (knobs st) d1" "only_pipe (decode st) d1" "wiped M b (pipe (decode st)) (pipe d1)" by blast
  have "distinct (pipe_items (pipe (decode st)))" using fe_invD(5) [OF inv] by (simp add: fe_Mops_def)
  then have m: "set (pipe_items (pipe d1)) \<subseteq> set (pipe_items (pipe (decode st)))" "distinct (pipe_items (pipe d1))"
    using w(4) by (auto simp: wiped_def split: if_splits)
  have i1: "fe_inv X (st\<lparr>decode := d1\<rparr>)" by (rule only_pipe_fields [OF inv w(2,3) m])
  note q = only_pipe_queue [OF w(3)]
  show ?thesis
  proof (cases b)
    case True
    then show ?thesis using w i1 q(1) by (intro exI [of _ d1] exI [of _ True] exI [of _ "[]"]) (simp add: decode_recover_def)
  next
    case False
    from pop_uopQ_ok [OF i1 refl, of M] obtain d' vs where h: "pop_uopQ M (unat (uopQ_num d1)) (st\<lparr>decode := d1\<rparr>) = Some (st\<lparr>decode := d'\<rparr>)"
      "fe_inv X (st\<lparr>decode := d'\<rparr>)" "pipe d' = pipe d1" "q_uops d1 = q_uops d' @ vs" "\<forall>p \<in> set vs. fst p \<noteq> M" "q_uops d' = [] \<or> fst (last (q_uops d')) = M" by auto
    then have "decode_recover M st = Some (st\<lparr>decode := d'\<rparr>)" using w(1) False by (simp add: decode_recover_def recover_uopQ_def)
    then show ?thesis using h w(4) False q(1) by (intro exI [of _ d'] exI [of _ False] exI [of _ vs]) simp
  qed
qed

lemma decode_recover_all_ok:
  assumes inv: "fe_inv X st"
  shows "\<exists>d'. decode_recover_all st = Some (st\<lparr>decode := d'\<rparr>) \<and> fe_inv X (st\<lparr>decode := d'\<rparr>) \<and> q_uops d' = [] \<and> pipe_items (pipe d') = []"
proof -
  let ?k = "knobs st" and ?d = "recover_uopQ_all (decode st)"
  have ok: "dec_shape ?k (decode st)" "knobs_ok ?k" using fe_invD(1,2) [OF inv] by (simp_all add: dec_ok_def)
  have "length (uopQ (decode st)) = unat (uopQ_size ?k)" using ok by (simp add: dec_shape_def ring_ok_def)
  then have "dec_shape ?k ?d" using ok by (simp add: recover_uopQ_all_def dec_shape_def ring_ok_def knobs_ok_def)
  from clear_stages_ok [OF this, of 0] obtain d' where c: "recover_decode_pipe_all ?k ?d = Some d'" "dec_shape ?k d'" "only_pipe ?d d'"
    "\<And>s. s < decode_depth ?k \<Longrightarrow> present (pipe d' ! s) = []" by (auto simp: recover_decode_pipe_all_def)
  have q: "q_uops d' = []" "uopQ_eff_num d' = 0" using only_pipe_queue(1,2) [OF c(3)] by (simp_all add: recover_uopQ_all_def q_uops_def)
  have p: "pipe_items (pipe d') = []" using c(4) dec_shape_facts(1) [OF c(2)] by (intro pipe_items_Nil) simp
  have "packed (pipe d' ! 0)" using c(4) [of 0] ok(2) by (intro packed_empty) (simp add: knobs_ok_def)
  then have "fe_inv X (st\<lparr>decode := d'\<rparr>)" using c(2) q p by (intro fe_inv_decode [OF inv]) (simp_all add: dec_ok_def)
  then show ?thesis using c(1) q p by (intro exI [of _ d']) (simp add: decode_recover_all_def)
qed

end
