(* ===== verification/Frontend_Cycle.thy ===== *)
theory Frontend_Cycle
  imports Frontend_Decode
begin

text \<open>
  One cycle of the decode stage: uops enter the uop queue from the oldest slot on, Mops advance by a stage
  when the stage above is empty, the branch address check resteers, and the decoders take new Mops from the
  instruction queue.
\<close>

section \<open>Statistics\<close>

lemma ex_flag [simp]: "\<exists>b. \<not> b" "\<exists>b. b"
  by blast+

lemma ZESTO_simps [simp]:
  "knobs (ZESTO_STAT f st) = knobs st" "MopQ (ZESTO_STAT f st) = MopQ st" "fetch (ZESTO_STAT f st) = fetch st"
  "decode (ZESTO_STAT f st) = decode st" "sim_cycle (ZESTO_STAT f st) = sim_cycle st"
  by (simp_all add: ZESTO_STAT_def)

lemma same_state:
  assumes "knobs st' = knobs st" "MopQ st' = MopQ st" "fetch st' = fetch st" "decode st' = decode st"
  shows "fe_inv X st' = fe_inv X st" "pending st' = pending st" "fe_Mops st' = fe_Mops st"
  using assms by (simp_all add: fe_inv_def pending_def fe_Mops_def uop_at_def)

lemma ZESTO_inv [simp]: "fe_inv X (ZESTO_STAT f st) = fe_inv X st" "pending (ZESTO_STAT f st) = pending st" "fe_Mops (ZESTO_STAT f st) = fe_Mops st"
  by (rule same_state; simp)+

section \<open>Filling the uop queue\<close>

lemma q_uops_push:
  assumes d: "dec_ok k d" and n: "unat (uopQ_num d) < unat (uopQ_size k)"
    and d': "d' = d\<lparr>uopQ := (uopQ d)[unat (uopQ_tail d) := Some p], uopQ_tail := modinc (uopQ_tail d) (uopQ_size k), uopQ_num := uopQ_num d + 1, uopQ_eff_num := e\<rparr>"
  shows "dec_ok k d'" and "q_uops d' = q_uops d @ [p]" and "unat (uopQ_tail d) < length (uopQ d)"
proof -
  have r: "ring_ok (uopQ_head d) (uopQ_num d) (uopQ_tail d) (uopQ_size k) (length (uopQ d))" using d by (simp add: dec_ok_def dec_shape_def)
  note i = ring_items_push [OF r n, of "Some p"] and rp = ring_push [OF r n]
  show "dec_ok k d'" using d rp(1) i by (simp add: d' dec_ok_def dec_shape_def)
  show "q_uops d' = q_uops d @ [p]" using i by (simp add: d' q_uops_def)
  show "unat (uopQ_tail d) < length (uopQ d)" by (rule rp(4))
qed

lemma todos_other: "M \<notin> set Ms \<Longrightarrow> concat (map (todo (Q[M := m])) Ms) = concat (map (todo Q) Ms)"
  by (intro arg_cong [of _ _ concat] map_cong refl) (metis todo_def nth_list_update_neq)

lemma queue_uop_ok:
  assumes inv: "fe_inv {} st" and Ms: "fe_Mops st = M # Ms" and n: "unat (uopQ_num (decode st)) < unat (uopQ_size (knobs st))"
  shows "\<exists>st'. queue_uop M st = Some st' \<and> fe_inv {M} st' \<and> pending st' = pending st \<and> knobs st' = knobs st \<and> fetch st' = fetch st \<and>
    pipe (decode st') = pipe (decode st) \<and> sim_cycle st' = sim_cycle st \<and> info (MopQ st' ! M) = info (MopQ st ! M) \<and>
    last_stage_index (MopQ st ! M) < last_stage_index (MopQ st' ! M)"
proof -
  let ?m = "MopQ st ! M" and ?d = "decode st" and ?k = "knobs st" and ?t = "sim_cycle st"
  let ?j = "last_stage_index ?m"
  let ?u = "uop ?m ! ?j"
  have M: "M < length (MopQ st)" "Mop_ok ?m" "?j < flow_length ?m" using fe_invD(6,7) [OF inv, of M] Ms by simp_all
  then have j: "?j < length (uop ?m)" by (simp add: Mop_ok_def)
  let ?m' = "?m\<lparr>last_stage_index := ?j + uop_step ?u, uop := (uop ?m)[?j := ?u\<lparr>when_decoded := ?t\<rparr>],
     when_decode_started := (if BOM ?u then ?t else when_decode_started ?m), when_decode_finished := (if EOM ?u then ?t else when_decode_finished ?m)\<rparr>"
  let ?d' = "if queued ?u then ?d\<lparr>uopQ := (uopQ ?d)[unat (uopQ_tail ?d) := Some (M, ?j)], uopQ_tail := modinc (uopQ_tail ?d) (uopQ_size ?k), uopQ_num := uopQ_num ?d + 1,
     uopQ_eff_num := uopQ_eff_num ?d + eff_size ?u\<rparr> else ?d"
  note p = q_uops_push [OF fe_invD(2) [OF inv] n, where p = "(M, ?j)", OF refl]
  obtain st' where s: "queue_uop M st = Some st'" "knobs st' = ?k" "fetch st' = fetch st" "MopQ st' = (MopQ st)[M := ?m']" "decode st' = ?d'" "sim_cycle st' = sim_cycle st"
    using p(3) j by (cases "queued ?u") (simp_all add: queue_uop_def sure_def upd_Mop_def upd_decode_def queued_def uop_step_def Let_def)
  have i: "info ?m' = info ?m" using uop_static_update [of "?u\<lparr>when_decoded := ?t\<rparr>" "uop ?m" ?j] by (simp add: info_def)
  then have im: "map info (MopQ st') = map info (MopQ st)" by (simp add: s(4) map_update map_upd_same)
  have q: "q_uops ?d' = q_uops ?d @ (if queued ?u then [(M, ?j)] else [])" using p(2) by simp
  have mops: "fe_Mops st' = fe_Mops st" by (simp add: fe_Mops_def s)
  have "fe_inv {M} st'"
  proof (rule fe_inv_change [OF inv s(2) _ _ im])
    show "dec_ok ?k (decode st')" using p(1) fe_invD(2) [OF inv] by (simp add: s(5))
    show "M' < length (MopQ st) \<and> Mop_ok (MopQ st ! M') \<and> (M' \<notin> {M} \<longrightarrow> last_stage_index (MopQ st' ! M') < flow_length (MopQ st ! M'))"
      if "M' \<in> set (fe_Mops st')" for M' using fe_invD(6,7) [OF inv, of M'] that mops by (simp add: s(4))
    show "fst p < length (MopQ st) \<and> snd p < length (uop (MopQ st ! fst p))" if "p \<in> set (q_uops (decode st'))" for p
      using that inv M j unfolding s(5) q by (auto simp: fe_inv_def split: if_splits)
    show "uopQ_eff_num (decode st') = sum_list (map (\<lambda>p. eff_size (uop_at st p)) (q_uops (decode st')))"
      using inv unfolding s(5) q by (simp add: fe_inv_def uop_at_def)
  qed (use fe_invD(3,5) [OF inv] inv in \<open>simp_all add: mops s(3) fe_inv_def\<close>)
  moreover have "pending st' = pending st"
  proof -
    have "flow ?m' (last_stage_index ?m') = flow ?m (?j + uop_step ?u)" using flow_info [OF i] M(2) by (simp add: Mop_ok_def)
    then have "todo (MopQ st') M = map (Pair M) (flow ?m (?j + uop_step ?u))" using M(1) by (simp add: todo_def s(4))
    then have t: "todo (MopQ st) M = (if queued ?u then [(M, ?j)] else []) @ todo (MopQ st') M" using M(3) by (simp add: todo_def flow.simps [of ?m ?j])
    have "M \<notin> set Ms" using fe_invD(5) [OF inv] Ms by simp
    then have "concat (map (todo (MopQ st')) Ms) = concat (map (todo (MopQ st)) Ms)" unfolding s(4) by (rule todos_other)
    then show ?thesis unfolding pending_def mops Ms s(5) q using t by simp
  qed
  ultimately show ?thesis using s i M(1) by (intro exI [of _ st']) (simp add: uop_step_def)
qed

lemma ring_room: "ring_ok h n t s l \<Longrightarrow> n <s s \<longleftrightarrow> unat n < unat s"
  by (auto simp: word_sless_alt sint_cint ring_ok_def simp del: of_nat_unat split: if_splits)

lemma ring_full: "ring_ok h n t s l \<Longrightarrow> s \<le>s n \<longleftrightarrow> \<not> n <s s"
  by (simp add: word_sless_alt word_sle_eq not_less)

lemma fe_inv_shape:
  assumes "fe_inv X st"
  shows "dec_shape (knobs st) (decode st)" "packed (pipe (decode st) ! 0)" "Suc (decode_depth (knobs st) - 1) = decode_depth (knobs st)" "0 < decode_depth (knobs st)"
    "ring_ok (uopQ_head (decode st)) (uopQ_num (decode st)) (uopQ_tail (decode st)) (uopQ_size (knobs st)) (length (uopQ (decode st)))"
  using fe_invD(1,2) [OF assms] by (auto simp: dec_ok_def dec_shape_def knobs_ok_def)

lemma fe_inv_done: "fe_inv {M} st \<Longrightarrow> last_stage_index (MopQ st ! M) < flow_length (MopQ st ! M) \<Longrightarrow> fe_inv {} st"
  by (auto simp: fe_inv_def)

lemma fe_inv_pop:
  assumes inv: "fe_inv {M} st" and Ms: "fe_Mops st = M # fe_Mops st'" and s: "knobs st' = knobs st" "MopQ st' = MopQ st" "fetch st' = fetch st"
    and d: "dec_ok (knobs st) (decode st')" "only_pipe (decode st) (decode st')"
  shows "fe_inv {} st'"
proof (rule fe_inv_change [OF inv s(1) d(1)])
  show "M' < length (MopQ st) \<and> Mop_ok (MopQ st ! M') \<and> (M' \<notin> {} \<longrightarrow> last_stage_index (MopQ st' ! M') < flow_length (MopQ st ! M'))"
    if "M' \<in> set (fe_Mops st')" for M' using fe_invD(5-7) [OF inv] that Ms s(2) by auto
  show "fst p < length (MopQ st) \<and> snd p < length (uop (MopQ st ! fst p))" if "p \<in> set (q_uops (decode st'))" for p
    using inv that by (auto simp: fe_inv_def only_pipe_queue [OF d(2)])
qed (use inv fe_invD(3,5) [OF inv] Ms in \<open>simp_all add: s only_pipe_queue [OF d(2)] fe_inv_def\<close>)

text \<open>The oldest Mop of the pipe.\<close>

lemma top_slot:
  assumes d: "dec_shape k d" and D: "Suc D = decode_depth k" and i: "i < decode_width k" and e: "\<And>j. j < i \<Longrightarrow> pipe d ! D ! j = None" and M: "pipe d ! D ! i = Some M"
  shows "pipe_items (pipe d) = M # pipe_items ((pipe d)[D := (pipe d ! D)[i := None]])"
  using dec_shape_facts(1,3) [OF d] D i by (intro pipe_items_top [OF _ _ e M]) simp_all

lemma queue_uops_ok:
  assumes "fe_inv {} st" and "i < decode_width (knobs st)" and "\<And>j. j < i \<Longrightarrow> pipe (decode st) ! (decode_depth (knobs st) - 1) ! j = None"
    and "pipe (decode st) ! (decode_depth (knobs st) - 1) ! i = Some M" and "flow_length (MopQ st ! M) - last_stage_index (MopQ st ! M) < n"
  shows "\<exists>st'. queue_uops n i M st = Some st' \<and> fe_inv {} st' \<and> pending st' = pending st \<and> knobs st' = knobs st \<and> fetch st' = fetch st \<and>
    (\<not> uopQ_num (decode st') <s uopQ_size (knobs st) \<and> pipe (decode st') = pipe (decode st) \<or>
     pipe (decode st') = (pipe (decode st))[decode_depth (knobs st) - 1 := (pipe (decode st) ! (decode_depth (knobs st) - 1))[i := None]])"
  using assms
proof (induction n arbitrary: st)
  case (Suc n)
  let ?k = "knobs st" and ?D = "decode_depth (knobs st) - 1"
  note sh = fe_inv_shape [OF Suc.prems(1)]
  show ?case
  proof (cases "uopQ_num (decode st) <s uopQ_size ?k")
    case False
    then show ?thesis using Suc.prems(1) by simp
  next
    case True
    have "fe_Mops st = M # pipe_items ((pipe (decode st))[?D := (pipe (decode st) ! ?D)[i := None]]) @ fetch_Mops ?k (fetch st)"
      using top_slot [OF sh(1,3) Suc.prems(2-4)] by (simp add: fe_Mops_def)
    from queue_uop_ok [OF Suc.prems(1) this] ring_room [OF sh(5)] True obtain st1 where
      s: "queue_uop M st = Some st1" "fe_inv {M} st1" "pending st1 = pending st" "knobs st1 = ?k" "fetch st1 = fetch st" "pipe (decode st1) = pipe (decode st)"
        "info (MopQ st1 ! M) = info (MopQ st ! M)" "last_stage_index (MopQ st ! M) < last_stage_index (MopQ st1 ! M)" by blast
    note fl = info_eq(1) [OF s(7)] and sh1 = fe_inv_shape [OF s(2)]
    show ?thesis
    proof (cases "flow_length (MopQ st1 ! M) \<le> last_stage_index (MopQ st1 ! M)")
      case True
      have p: "pipe (decode st1) ! ?D ! i = Some M" "?D < decode_depth ?k" using s(6) Suc.prems(4) sh(3) by simp_all
      from drop_slot_ok [OF sh1(1), of ?D i M] p Suc.prems(2) obtain d' where
        d: "drop_slot ?D i (decode st1) = Some d'" "dec_shape ?k d'" "only_pipe (decode st1) d'" "pipe d' = (pipe (decode st))[?D := (pipe (decode st) ! ?D)[i := None]]"
        by (auto simp: s(4,6))
      let ?e = "if at_EOM (MopQ st1 ! M) then ZESTO_STAT (\<lambda>s. s\<lparr>decode_insn := decode_insn s + 1\<rparr>) st1 else st1"
      have e: "knobs ?e = knobs st1" "MopQ ?e = MopQ st1" "fetch ?e = fetch st1" by simp_all
      have Ms: "fe_Mops st1 = M # fe_Mops (?e\<lparr>decode := d'\<rparr>)"
        using top_slot [OF sh1(1), of ?D i M] Suc.prems(2-4) sh(3) by (simp add: fe_Mops_def s(4,6) d(4) e)
      have "0 < ?D" using fe_invD(1) [OF Suc.prems(1)] by (auto simp: knobs_ok_def)
      then have "dec_ok ?k d'" using d(2,4) sh(2) by (simp add: dec_ok_def)
      then have "fe_inv {} (?e\<lparr>decode := d'\<rparr>)" by (intro fe_inv_pop [OF s(2) Ms]) (use e d(3) in \<open>simp_all add: s(4)\<close>)
      moreover have "todo (MopQ st1) M = []" using True by (simp add: todo_def flow.simps)
      then have "pending st1 = pending (?e\<lparr>decode := d'\<rparr>)" unfolding pending_def Ms by (simp add: only_pipe_queue [OF d(3)] e)
      then have "pending (?e\<lparr>decode := d'\<rparr>) = pending st" using s(3) by simp
      moreover have "queue_uops (Suc n) i M st = Some (?e\<lparr>decode := d'\<rparr>)" using \<open>uopQ_num (decode st) <s uopQ_size ?k\<close> True s(1,4) d(1) by simp
      ultimately show ?thesis using d(4) by (intro exI [of _ "?e\<lparr>decode := d'\<rparr>"]) (simp add: s(4,5) e)
    next
      case False
      then have "fe_inv {} st1" using fe_inv_done [OF s(2)] by simp
      from Suc.IH [OF this] Suc.prems(2-5) s False fl show ?thesis using True by auto
    qed
  qed
qed simp

declare queue_uops.simps [simp del]

text \<open>The slots of the last stage in order, until the queue is full.\<close>

lemma drain_slots_ok:
  assumes "fe_inv {} st" and "n \<le> decode_width (knobs st)" and "\<And>j. j < n \<Longrightarrow> pipe (decode st) ! (decode_depth (knobs st) - 1) ! j = None"
  shows "\<exists>st'. drain_slots [n ..< decode_width (knobs st)] st = Some st' \<and> fe_inv {} st' \<and> pending st' = pending st \<and> knobs st' = knobs st \<and> fetch st' = fetch st"
  using assms
proof (induction "decode_width (knobs st) - n" arbitrary: n st)
  case (Suc w)
  let ?k = "knobs st" and ?D = "decode_depth (knobs st) - 1"
  have n: "n < decode_width ?k" "w = decode_width ?k - Suc n" using Suc(2) by simp_all
  then have u: "[n ..< decode_width ?k] = n # [Suc n ..< decode_width ?k]" by (simp add: upt_conv_Cons)
  note sh = fe_inv_shape [OF Suc.prems(1)]
  show ?case
  proof (cases "pipe (decode st) ! ?D ! n")
    case None
    then have "\<And>j. j < Suc n \<Longrightarrow> pipe (decode st) ! ?D ! j = None" using Suc.prems(3) less_Suc_eq by blast
    from Suc(1) [OF n(2) Suc.prems(1) _ this] n(1) None show ?thesis by (simp add: u del: upt_Suc)
  next
    case (Some M)
    from queue_uops_ok [OF Suc.prems(1) n(1) Suc.prems(3) Some le_imp_less_Suc [OF diff_le_self]] obtain st1 where
      s: "queue_uops (Suc (flow_length (MopQ st ! M))) n M st = Some st1" "fe_inv {} st1" "pending st1 = pending st" "knobs st1 = ?k" "fetch st1 = fetch st"
        "\<not> uopQ_num (decode st1) <s uopQ_size ?k \<and> pipe (decode st1) = pipe (decode st) \<or> pipe (decode st1) = (pipe (decode st))[?D := (pipe (decode st) ! ?D)[n := None]]"
      by blast
    note full = ring_full [OF fe_inv_shape(5) [OF s(2)]]
    show ?thesis
    proof (cases "uopQ_size ?k \<le>s uopQ_num (decode st1)")
      case True
      then show ?thesis using Some s(1-5) by (simp add: u del: upt_Suc)
    next
      case False
      then have p: "pipe (decode st1) = (pipe (decode st))[?D := (pipe (decode st) ! ?D)[n := None]]" using s(6) full by (simp add: s(4))
      have "pipe (decode st1) ! ?D ! j = None" if "j < Suc n" for j
        using that Suc.prems(3) [of j] n(1) dec_shape_facts(1) [OF sh(1)] dec_shape_facts(3) [OF sh(1), of ?D] sh(3,4) by (cases "j = n") (simp_all add: p)
      from Suc(1) [of st1 "Suc n"] this s n show ?thesis using Some False by (auto simp: u simp del: upt_Suc)
    qed
  qed
qed simp

section \<open>Branch address checks\<close>

lemma emit_inv [simp]: "fe_inv X (emit e st) = fe_inv X st" "pending (emit e st) = pending st" "fe_Mops (emit e st) = fe_Mops st"
  by (rule same_state; simp add: emit_def)+

lemma emit_simps [simp]: "knobs (emit e st) = knobs st" "MopQ (emit e st) = MopQ st" "fetch (emit e st) = fetch st" "decode (emit e st) = decode st"
  by (simp_all add: emit_def)

lemma upd_Mop_simps [simp]: "knobs (upd_Mop M f st) = knobs st" "fetch (upd_Mop M f st) = fetch st" "decode (upd_Mop M f st) = decode st" "fe_Mops (upd_Mop M f st) = fe_Mops st"
  by (simp_all add: upd_Mop_def fe_Mops_def)

lemma upd_Mop_decode: "upd_Mop M f (st\<lparr>decode := d\<rparr>) = (upd_Mop M f st)\<lparr>decode := d\<rparr>"
  by (cases st) (simp add: upd_Mop_def)

lemma upd_Mop_ok:
  assumes inv: "fe_inv X st" and f: "info (f (MopQ st ! M)) = info (MopQ st ! M)" "last_stage_index (f (MopQ st ! M)) = last_stage_index (MopQ st ! M)"
  shows "fe_inv X (upd_Mop M f st)" and "pending (upd_Mop M f st) = pending st"
proof -
  have s: "same_Mops (MopQ st) (MopQ (upd_Mop M f st))" using same_Mops_update [of f "MopQ st" M, OF f] by (simp add: upd_Mop_def)
  show "fe_inv X (upd_Mop M f st)" using fe_invD(2,3,5) [OF inv] inv by (intro fe_inv_frame [OF inv _ _ _ s]) (simp_all add: fe_inv_def)
  show "pending (upd_Mop M f st) = pending st" by (simp only: pending_def upd_Mop_simps todos_same [OF inv s subset_refl])
qed

text \<open>A resteer at a Mop in the decode pipe.\<close>

lemma resteer_ok:
  assumes inv: "fe_inv X st" and M: "M \<in> set (pipe_items (pipe (decode st)))"
  shows "\<exists>d. recover_decode_pipe M (knobs st) (decode st) = Some (True, d) \<and> fe_inv X (fetch_recover pc (st\<lparr>decode := d\<rparr>)) \<and>
    decode (fetch_recover pc (st\<lparr>decode := d\<rparr>)) = d \<and> knobs (fetch_recover pc (st\<lparr>decode := d\<rparr>)) = knobs st \<and> wiped M True (pipe (decode st)) (pipe d) \<and> prefix (pending (fetch_recover pc (st\<lparr>decode := d\<rparr>))) (pending st)"
proof -
  from recover_decode_pipe_ok [OF fe_invD(2) [OF inv], of M] obtain b d where
    w: "recover_decode_pipe M (knobs st) (decode st) = Some (b, d)" "dec_ok (knobs st) d" "only_pipe (decode st) d" "wiped M b (pipe (decode st)) (pipe d)" by blast
  have b: "b" using M w(4) by (cases b) (simp_all add: wiped_def)
  have "distinct (pipe_items (pipe (decode st)))" using fe_invD(5) [OF inv] by (simp add: fe_Mops_def)
  then have m: "set (pipe_items (pipe d)) \<subseteq> set (pipe_items (pipe (decode st)))" "distinct (pipe_items (pipe d))"
    using w(4) b by (auto simp: wiped_def)
  have i: "fe_inv X (st\<lparr>decode := d\<rparr>)" by (rule only_pipe_fields [OF inv w(2,3) m])
  have "prefix (pending (fetch_recover pc (st\<lparr>decode := d\<rparr>))) (pending st)"
    by (rule pending_cut [OF inv _ w(4) refl i]) (simp add: only_pipe_queue [OF w(3)])
  then show ?thesis using fetch_recover_ok(1,2,4) [OF i] w(1,4) b by auto
qed

lemma check_target_ok:
  assumes inv: "fe_inv X st" and M: "M \<in> set (pipe_items (pipe (decode st)))"
  shows "\<exists>r st'. check_target M st = Some (r, st') \<and> fe_inv X st' \<and> knobs st' = knobs st \<and>
    (if r = DSTALL_NONE then st' = st else wiped M True (pipe (decode st)) (pipe (decode st')) \<and> prefix (pending st') (pending st))"
proof -
  let ?m = "MopQ st ! M"
  show ?thesis
  proof (cases "target_verdict ?m")
    case Target_ok
    then show ?thesis using inv by (simp add: check_target_def)
  next
    case Phantom_taken
    define s where "s = upd_Mop M (\<lambda>m. m\<lparr>pred_NPC := ftPC m\<rparr>) (emit (Oracle_Recover M) (ZESTO_STAT (\<lambda>s. s\<lparr>phantom_resteers := phantom_resteers s + 1\<rparr>) st))"
    have s: "fe_inv X s" "pending s = pending st" "knobs s = knobs st" "decode s = decode st"
      unfolding s_def by (simp_all add: inv info_def upd_Mop_ok [where X = X])
    from resteer_ok [OF s(1), of M "ftPC ?m"] M obtain d where d: "recover_decode_pipe M (knobs st) (decode st) = Some (True, d)" "fe_inv X (fetch_recover (ftPC ?m) (s\<lparr>decode := d\<rparr>))"
      "decode (fetch_recover (ftPC ?m) (s\<lparr>decode := d\<rparr>)) = d" "knobs (fetch_recover (ftPC ?m) (s\<lparr>decode := d\<rparr>)) = knobs st" "wiped M True (pipe (decode st)) (pipe d)"
      "prefix (pending (fetch_recover (ftPC ?m) (s\<lparr>decode := d\<rparr>))) (pending st)" by (auto simp: s(2-4))
    have "check_target M st = Some (DSTALL_PHANTOM, fetch_recover (ftPC ?m) (s\<lparr>decode := d\<rparr>))"
      using Phantom_taken d(1) by (simp add: check_target_def Let_def s_def upd_Mop_decode)
    then show ?thesis using d by auto
  next
    case Wrong_target
    define s0 where "s0 = (case bpred_update ?m of Some sc \<Rightarrow> emit (Bpred_Recover sc True) st | None \<Rightarrow> st)"
    define s where "s = emit (Oracle_Recover M) (ZESTO_STAT (\<lambda>s. s\<lparr>target_resteers := target_resteers s + 1\<rparr>) s0)"
    have s: "fe_inv X s" "pending s = pending st" "knobs s = knobs st" "decode s = decode st" "knobs s0 = knobs st" "decode s0 = decode st"
      by (simp_all add: s_def s0_def inv split: option.split)
    let ?r = "\<lambda>d. fetch_recover (targetPC ?m) (s\<lparr>decode := d\<rparr>)"
    from resteer_ok [OF s(1), of M "targetPC ?m"] M obtain d where d: "recover_decode_pipe M (knobs st) (decode st) = Some (True, d)" "fe_inv X (?r d)"
      "decode (?r d) = d" "knobs (?r d) = knobs st" "wiped M True (pipe (decode st)) (pipe d)" "prefix (pending (?r d)) (pending st)" by (auto simp: s(2-4))
    have "check_target M st = Some (DSTALL_TARGET, upd_Mop M (\<lambda>m. m\<lparr>pred_NPC := targetPC m\<rparr>) (?r d))"
      using Wrong_target d(1) by (simp add: check_target_def Let_def s_def s0_def [symmetric] s(5,6) emit_def)
    then show ?thesis using d upd_Mop_ok [OF d(2), of "\<lambda>m. m\<lparr>pred_NPC := targetPC m\<rparr>" M] by (simp add: info_def)
  qed
qed

section \<open>Moving Mops to the next stage\<close>

text \<open>Slot \<open>i\<close> of stage \<open>s\<close> moves up: the slots before it have moved, those from it on are free above.\<close>

definition movable :: "knobs_t \<Rightarrow> nat \<Rightarrow> nat \<Rightarrow> nat option list list \<Rightarrow> bool" where
  "movable k s i p \<longleftrightarrow> Suc s < decode_depth k \<and> i \<le> decode_width k \<and> (\<forall>j < i. p ! s ! j = None) \<and> (\<forall>j. i \<le> j \<and> j < decode_width k \<longrightarrow> p ! Suc s ! j = None)"

lemma move_slot_ok:
  assumes d: "dec_shape k d" and m: "movable k s i (pipe d)" and i: "i < decode_width k"
  shows "\<exists>d'. move_slot (decode_width k) (Suc s) i d = Some d' \<and> dec_shape k d' \<and> only_pipe d d' \<and> movable k s (Suc i) (pipe d') \<and>
    pipe_items (pipe d') = pipe_items (pipe d) \<and> (s \<noteq> 0 \<longrightarrow> pipe d' ! 0 = pipe d ! 0)"
proof -
  note f = dec_shape_facts [OF d]
  let ?b = "pipe d ! s" and ?a = "pipe d ! Suc s"
  let ?p = "(pipe d)[Suc s := ?a[i := ?b ! i], s := ?b[i := None]]"
  have l: "Suc s < length (pipe d)" "i < length ?a" "i < length ?b" "Suc s < decode_depth k" "s < decode_depth k" "length ?a = decode_width k"
    using m i f(1) f(3) [of s] f(3) [of "Suc s"] by (auto simp: movable_def)
  have e: "\<And>j. j < i \<Longrightarrow> ?b ! j = None" "\<And>j. i \<le> j \<Longrightarrow> j < length ?a \<Longrightarrow> ?a ! j = None" using m l(6) by (simp_all add: movable_def)
  have mv: "present (?a[i := ?b ! i]) @ present (?b[i := None]) = present ?a @ present ?b" by (rule present_move [OF l(2,3) e])
  then have items: "pipe_items ?p = pipe_items (pipe d)" unfolding pipe_items_two(2) [OF l(1)] pipe_items_two(1) [OF l(1)] by simp
  have mvb: "movable k s (Suc i) ?p" using m i l f(1) by (auto simp: movable_def nth_list_update less_Suc_eq)
  have z: "s \<noteq> 0 \<longrightarrow> ?p ! 0 = pipe d ! 0" by simp
  show ?thesis
  proof (cases "?b ! i")
    case None
    have "?a[i := None] = ?a" "?b[i := None] = ?b" using None e(2) [of i] l list_update_id [of ?a i] list_update_id [of ?b i] by simp_all
    then have p: "?p = pipe d" by (simp add: None)
    have "move_slot (decode_width k) (Suc s) i d = Some d" using p None by (simp add: move_slot_def Let_def)
    then show ?thesis using d mvb p by auto
  next
    case (Some M)
    let ?oc = "(occupancy d)[Suc s := occupancy d ! Suc s + 1, s := occupancy d ! s - 1]"
    let ?d = "d\<lparr>pipe := ?p, occupancy := ?oc\<rparr>"
    have "present (?a[i := Some M]) = present ?a @ [M]" "present ?b = M # present (?b[i := None])"
      using present_fill [OF l(2) e(2), of M] present_oldest [OF l(3) e(1) Some] by simp_all
    then have oc: "occupancy d ! Suc s + 1 = int (length (present (?a[i := Some M])))" "occupancy d ! s - 1 = int (length (present (?b[i := None])))"
      using f(4) [OF l(4)] f(4) [OF l(5)] by simp_all
    have "length (present (?a[i := Some M])) \<le> decode_width k" using length_present_le [of "?a[i := Some M]"] l(6) by simp
    then have "move_slot (decode_width k) (Suc s) i d = Some ?d" using oc Some l(4,5) f(2) by (simp add: move_slot_def Let_def sure_def)
    moreover have "dec_shape k ?d"
      using dec_shape_stage [OF dec_shape_stage [OF d l(4) _ oc(1)] l(5) _, of "?b[i := None]" "occupancy d ! s - 1"] oc(2) f(3) [OF l(5)] l(6) Some by simp
    moreover have "only_pipe d ?d" by (auto simp: only_pipe_def)
    ultimately show ?thesis using items mvb z by auto
  qed
qed

lemma movable_end:
  assumes "dec_shape k d" and "movable k s (decode_width k) (pipe d)"
  shows "present (pipe d ! s) = []"
  using assms dec_shape_facts(3) [OF assms(1), of s] by (auto simp: movable_def present_Nil_iff in_set_conv_nth)

text \<open>The first stage, which has no branch address check.\<close>

lemma move_first_ok:
  assumes "dec_shape (knobs st) (decode st)" and "movable (knobs st) 0 i (pipe (decode st))" and "target_stage (knobs st) \<noteq> 0"
  shows "\<exists>d'. move_stage (Suc 0) [i ..< decode_width (knobs st)] st = Some (False, st\<lparr>decode := d'\<rparr>) \<and> dec_shape (knobs st) d' \<and> only_pipe (decode st) d' \<and>
    pipe_items (pipe d') = pipe_items (pipe (decode st)) \<and> present (pipe d' ! 0) = []"
  using assms
proof (induction "decode_width (knobs st) - i" arbitrary: i st)
  case 0
  then have "i = decode_width (knobs st)" by (simp add: movable_def)
  then show ?case using 0 movable_end [OF 0(2)] by (intro exI [of _ "decode st"]) simp
next
  case (Suc w)
  let ?k = "knobs st"
  have i: "i < decode_width ?k" "w = decode_width ?k - Suc i" using Suc(2) by simp_all
  then have u: "[i ..< decode_width ?k] = i # [Suc i ..< decode_width ?k]" by (simp add: upt_conv_Cons)
  have c: "check_flush (Suc 0) i st = Some (False, st)" using Suc.prems(3) by (simp add: check_flush_def split: option.split)
  from move_slot_ok [OF Suc.prems(1,2) i(1)] obtain d where d: "move_slot (decode_width ?k) (Suc 0) i (decode st) = Some d" "dec_shape ?k d" "only_pipe (decode st) d"
    "movable ?k 0 (Suc i) (pipe d)" "pipe_items (pipe d) = pipe_items (pipe (decode st))" by blast
  from Suc(1) [of "st\<lparr>decode := d\<rparr>" "Suc i"] i(2) d(2,4) Suc.prems(3) obtain d' where
    h: "move_stage (Suc 0) [Suc i ..< decode_width ?k] (st\<lparr>decode := d\<rparr>) = Some (False, st\<lparr>decode := d'\<rparr>)" "dec_shape ?k d'" "only_pipe d d'"
      "pipe_items (pipe d') = pipe_items (pipe d)" "present (pipe d' ! 0) = []" by auto
  have "move_stage (Suc 0) [i ..< decode_width ?k] st = Some (False, st\<lparr>decode := d'\<rparr>)" using c d(1) h(1) by (simp add: u del: upt_Suc)
  then show ?case using h(2,5) only_pipe_trans [OF d(3) h(3)] d(5) h(4) by auto
qed

lemma moved_inv:
  assumes inv: "fe_inv X st" and d: "dec_shape (knobs st) d" "only_pipe (decode st) d" "pipe_items (pipe d) = pipe_items (pipe (decode st))" "packed (pipe d ! 0)"
  shows "fe_inv X (st\<lparr>decode := d\<rparr>)" and "pending (st\<lparr>decode := d\<rparr>) = pending st"
proof -
  have "distinct (pipe_items (pipe (decode st)))" using fe_invD(5) [OF inv] by (simp add: fe_Mops_def)
  then show "fe_inv X (st\<lparr>decode := d\<rparr>)" using d by (intro only_pipe_fields [OF inv _ d(2)]) (simp_all add: dec_ok_def)
  show "pending (st\<lparr>decode := d\<rparr>) = pending st" by (simp add: pending_def fe_Mops_def d(3) only_pipe_queue [OF d(2)])
qed

lemma movable_wiped:
  assumes w: "wiped M b p p'" and m: "movable k s i p" and l: "length p = decode_depth k" "\<And>s. s < decode_depth k \<Longrightarrow> length (p ! s) = decode_width k"
  shows "movable k s i p'"
proof -
  have s: "Suc s < decode_depth k" "s < decode_depth k" using m by (simp_all add: movable_def)
  obtain c c' where "p' ! s = cut c (p ! s)" "p' ! Suc s = cut c' (p ! Suc s)" using w s l(1) unfolding wiped_def by metis
  then show ?thesis using m l(2) [OF s(1)] l(2) [OF s(2)] by (auto simp: movable_def nth_cut)
qed

text \<open>A later stage: the branch address check stops the move at a resteer.\<close>

lemma check_flush_ok:
  assumes inv: "fe_inv X st" and m: "movable (knobs st) s i (pipe (decode st))" and i: "i < decode_width (knobs st)" and s: "0 < s"
  shows "\<exists>b st'. check_flush (Suc s) i st = Some (b, st') \<and> fe_inv X st' \<and> knobs st' = knobs st \<and> (if b then prefix (pending st') (pending st) else st' = st)"
proof (cases "pipe (decode st) ! s ! i")
  case None
  then show ?thesis using inv by (simp add: check_flush_def)
next
  case (Some M)
  let ?k = "knobs st"
  note f = dec_shape_facts [OF fe_inv_shape(1) [OF inv]]
  show ?thesis
  proof (cases "s = target_stage ?k")
    case False
    then show ?thesis using Some inv by (simp add: check_flush_def)
  next
    case True
    have l: "s < length (pipe (decode st))" "i < length (pipe (decode st) ! s)" using m f(1) f(3) [of s] i by (auto simp: movable_def)
    have "M \<in> set (pipe_items (pipe (decode st)))" using l Some by (auto simp: set_pipe_items set_present intro!: bexI [of _ "pipe (decode st) ! s"] nth_mem dest: sym)
    from check_target_ok [OF inv this] obtain r st1 where
      c: "check_target M st = Some (r, st1)" "fe_inv X st1" "knobs st1 = ?k"
        "if r = DSTALL_NONE then st1 = st else wiped M True (pipe (decode st)) (pipe (decode st1)) \<and> prefix (pending st1) (pending st)" by blast
    show ?thesis
    proof (cases "r = DSTALL_NONE")
      case True
      then show ?thesis using Some c \<open>s = target_stage ?k\<close> by (simp add: check_flush_def)
    next
      case False
      then have w: "wiped M True (pipe (decode st)) (pipe (decode st1))" "prefix (pending st1) (pending st)" using c(4) by simp_all
      have "movable (knobs st1) s i (pipe (decode st1))" using movable_wiped [OF w(1) m f(1,3)] c(3) by simp
      from move_slot_ok [OF fe_inv_shape(1) [OF c(2)] this] i c(3) obtain d where
        d: "move_slot (decode_width ?k) (Suc s) i (decode st1) = Some d" "dec_shape (knobs st1) d" "only_pipe (decode st1) d"
          "pipe_items (pipe d) = pipe_items (pipe (decode st1))" "pipe d ! 0 = pipe (decode st1) ! 0" using s by auto
      have "packed (pipe d ! 0)" using fe_inv_shape(2) [OF c(2)] d(5) by simp
      note v = moved_inv [OF c(2) d(2-4) this]
      have "check_flush (Suc s) i st = Some (True, add_stall r (st1\<lparr>decode := d\<rparr>))"
        using Some c(1,3) False d(1) \<open>s = target_stage ?k\<close> by (simp add: check_flush_def)
      then show ?thesis using v c(3) w(2) by (simp add: add_stall_def)
    qed
  qed
qed

lemma move_stage_ok:
  assumes "fe_inv X st" and "movable (knobs st) s i (pipe (decode st))" and "0 < s"
  shows "\<exists>b st'. move_stage (Suc s) [i ..< decode_width (knobs st)] st = Some (b, st') \<and> fe_inv X st' \<and> knobs st' = knobs st \<and>
    (if b then prefix (pending st') (pending st) else pending st' = pending st)"
  using assms
proof (induction "decode_width (knobs st) - i" arbitrary: i st)
  case 0
  then show ?case by simp
next
  case (Suc w)
  let ?k = "knobs st"
  have i: "i < decode_width ?k" "w = decode_width ?k - Suc i" using Suc(2) by simp_all
  then have u: "[i ..< decode_width ?k] = i # [Suc i ..< decode_width ?k]" by (simp add: upt_conv_Cons)
  from check_flush_ok [OF Suc.prems(1,2) i(1) Suc.prems(3)] obtain b st1 where
    c: "check_flush (Suc s) i st = Some (b, st1)" "fe_inv X st1" "knobs st1 = ?k" "if b then prefix (pending st1) (pending st) else st1 = st" by blast
  show ?case
  proof (cases b)
    case True
    then show ?thesis using c by (simp add: u del: upt_Suc)
  next
    case False
    from move_slot_ok [OF fe_inv_shape(1) [OF Suc.prems(1)] Suc.prems(2) i(1)] Suc.prems(3) obtain d where
      d: "move_slot (decode_width ?k) (Suc s) i (decode st) = Some d" "dec_shape ?k d" "only_pipe (decode st) d"
        "movable ?k s (Suc i) (pipe d)" "pipe_items (pipe d) = pipe_items (pipe (decode st))" "pipe d ! 0 = pipe (decode st) ! 0" by auto
    have "packed (pipe d ! 0)" using fe_inv_shape(2) [OF Suc.prems(1)] d(6) by simp
    note v = moved_inv [OF Suc.prems(1) d(2,3,5) this]
    from Suc(1) [of "st\<lparr>decode := d\<rparr>" "Suc i"] i(2) v(1) d(4) Suc.prems(3) obtain b' st' where
      h: "move_stage (Suc s) [Suc i ..< decode_width ?k] (st\<lparr>decode := d\<rparr>) = Some (b', st')" "fe_inv X st'" "knobs st' = ?k"
        "if b' then prefix (pending st') (pending (st\<lparr>decode := d\<rparr>)) else pending st' = pending (st\<lparr>decode := d\<rparr>)" by auto
    then show ?thesis using c False d(1) v(2) by (simp add: u del: upt_Suc split: if_splits)
  qed
qed

lemma advance_ok:
  assumes "fe_inv X st" and "n < decode_depth (knobs st)"
  shows "\<exists>b st'. advance n st = Some (b, st') \<and> fe_inv X st' \<and> knobs st' = knobs st \<and>
    (if b then prefix (pending st') (pending st) else pending st' = pending st)"
  using assms
proof (induction n arbitrary: st)
  case (Suc s)
  let ?k = "knobs st"
  note sh = fe_inv_shape [OF Suc.prems(1)]
  note f = dec_shape_facts [OF sh(1)]
  have s: "s < decode_depth ?k" using Suc.prems(2) by simp
  show ?case
  proof (cases "occupancy (decode st) ! Suc s \<noteq> 0 \<or> MS_busy s st")
    case True
    then show ?thesis using Suc.IH [OF Suc.prems(1) s] Suc.prems(1) by auto
  next
    case False
    then have "present (pipe (decode st) ! Suc s) = []" using f(4) [OF Suc.prems(2)] by simp
    then have m: "movable ?k s 0 (pipe (decode st))" using Suc.prems(2) f(3) [OF Suc.prems(2)] by (auto simp: movable_def present_Nil_iff)
    have "\<exists>b st1. (if occupancy (decode st) ! s \<noteq> 0 then move_stage (Suc s) [0 ..< decode_width ?k] st else Some (False, st)) = Some (b, st1) \<and> fe_inv X st1 \<and>
        knobs st1 = ?k \<and> (if b then prefix (pending st1) (pending st) else pending st1 = pending st)"
    proof (cases "s = 0")
      case True
      have "target_stage ?k \<noteq> 0" using fe_invD(1) [OF Suc.prems(1)] by (simp add: knobs_ok_def)
      from move_first_ok [OF sh(1) m [unfolded True] this] obtain d where
        d: "move_stage (Suc 0) [0 ..< decode_width ?k] st = Some (False, st\<lparr>decode := d\<rparr>)" "dec_shape ?k d" "only_pipe (decode st) d"
          "pipe_items (pipe d) = pipe_items (pipe (decode st))" "present (pipe d ! 0) = []" by blast
      then show ?thesis using moved_inv [OF Suc.prems(1) d(2-4) packed_empty [OF d(5)]] Suc.prems(1) True by simp
    next
      case False
      then show ?thesis using move_stage_ok [OF Suc.prems(1) m] Suc.prems(1) by auto
    qed
    then obtain b st1 where c: "(if occupancy (decode st) ! s \<noteq> 0 then move_stage (Suc s) [0 ..< decode_width ?k] st else Some (False, st)) = Some (b, st1)" "fe_inv X st1"
      "knobs st1 = ?k" "if b then prefix (pending st1) (pending st) else pending st1 = pending st" by blast
    have "advance (Suc s) st = (if b then Some (True, st1) else advance s st1)" using False c(1) by (simp del: upt_Suc)
    note adv = this
    show ?thesis
    proof (cases b)
      case True
      then show ?thesis using c adv by simp
    next
      case False
      from Suc.IH [OF c(2)] s c(3) obtain b' st' where "advance s st1 = Some (b', st')" "fe_inv X st'" "knobs st' = ?k"
        "if b' then prefix (pending st') (pending st1) else pending st' = pending st1" by auto
      then show ?thesis using adv False c(4) by (intro exI [of _ b'] exI [of _ st']) (simp split: if_splits)
    qed
  qed
qed simp

section \<open>Taking Mops from the instruction queue\<close>

lemma ring_pos: "ring_ok h n t s l \<Longrightarrow> 0 <s n \<longleftrightarrow> n \<noteq> 0"
  using unat_gt_0 [of n] by (auto simp: ring_ok_def word_sless_alt sint_cint simp del: of_nat_unat)

lemma packed_fill:
  assumes p: "packed xs" and i: "xs ! i = None" and o: "\<And>j. j < i \<Longrightarrow> xs ! j \<noteq> None"
  shows "packed (xs[i := Some x])"
  unfolding packed_def
proof (intro allI impI)
  fix a b assume ab: "a \<le> b \<and> b < length (xs[i := Some x]) \<and> xs[i := Some x] ! a = None"
  then have "a \<noteq> i" by auto
  then have "i < a" using ab o [of a] by (cases "a < i") auto
  then show "xs[i := Some x] ! b = None" using ab packed_after [OF p i, of b] by simp
qed

lemma Mop_available_iff: "fet_ok (knobs st) (fetch st) \<Longrightarrow> Mop_available st \<longleftrightarrow> IQ_num (fetch st) \<noteq> 0"
  unfolding Mop_available_def fet_ok_def using ring_pos by blast

lemma IQ_items: "fet_ok k f \<Longrightarrow> ring_items (IQ_head f) (IQ_num f) (IQ f) = map Some (IQ_Mops f)"
  by (simp add: IQ_Mops_def fet_ok_def present_all)

lemma IQ_pop:
  assumes f: "fet_ok k f" and n: "IQ_num f \<noteq> 0"
    and f': "f' = f\<lparr>IQ := (IQ f)[unat (IQ_head f) := None], IQ_head := modinc (IQ_head f) (IQ_size k), IQ_num := IQ_num f - 1, IQ_uop_num := u, IQ_eff_uop_num := e\<rparr>"
  shows "\<exists>M. IQ f ! unat (IQ_head f) = Some M \<and> IQ_Mops f = M # IQ_Mops f'" and "fet_ok k f'" and "0 \<le>s IQ_num f'"
proof -
  have r: "ring_ok (IQ_head f) (IQ_num f) (IQ_tail f) (IQ_size k) (length (IQ f))" using f by (simp add: fet_ok_def)
  have i: "map Some (IQ_Mops f) = IQ f ! unat (IQ_head f) # ring_items (IQ_head f') (IQ_num f') (IQ f')"
    using ring_items_pop [OF r n, of None] IQ_items [OF f] by (simp add: f')
  then obtain M Ms where M: "IQ f ! unat (IQ_head f) = Some M" "IQ_Mops f = M # Ms" "ring_items (IQ_head f') (IQ_num f') (IQ f') = map Some Ms"
    by (cases "IQ_Mops f") (auto dest: sym)
  then have "IQ_Mops f' = Ms" by (simp add: IQ_Mops_def)
  then show "\<exists>M. IQ f ! unat (IQ_head f) = Some M \<and> IQ_Mops f = M # IQ_Mops f'" using M by auto
  show "fet_ok k f'" using f ring_pop(1) [OF r n] M(3) by (auto simp: fet_ok_def f')
  have "unat (IQ_num f') < 2 ^ 31" using ring_pop(1) [OF r n] by (simp add: ring_ok_def f')
  then show "0 \<le>s IQ_num f'" by (simp add: word_sle_eq sint_cint)
qed

lemma take_Mop_ok:
  assumes inv: "fe_inv X st" and av: "Mop_available st" and i: "i < decode_width (knobs st)" and e: "pipe (decode st) ! 0 ! i = None" and occ: "\<And>j. j < i \<Longrightarrow> pipe (decode st) ! 0 ! j \<noteq> None"
  shows "\<exists>M st'. Mop_peek st = Some M \<and> take_Mop i M st = Some st' \<and> fe_inv X st' \<and> pending st' = pending st \<and> knobs st' = knobs st \<and> sim_cycle st' = sim_cycle st \<and> MopQ st' = MopQ st \<and>
    events st' = events st \<and> pipe (decode st') ! 0 = (pipe (decode st) ! 0)[i := Some M]"
proof -
  let ?k = "knobs st" and ?d = "decode st" and ?f = "fetch st"
  note sh = fe_inv_shape [OF inv] and fet = fe_invD(3) [OF inv]
  note fa = dec_shape_facts [OF sh(1)]
  have n: "IQ_num ?f \<noteq> 0" using av Mop_available_iff [OF fet] by simp
  define M where "M = the (IQ ?f ! unat (IQ_head ?f))"
  define f' where "f' = ?f\<lparr>IQ := (IQ ?f)[unat (IQ_head ?f) := None], IQ_head := modinc (IQ_head ?f) (IQ_size ?k), IQ_num := IQ_num ?f - 1,
     IQ_uop_num := IQ_uop_num ?f - num_uops (MopQ st ! M), IQ_eff_uop_num := IQ_eff_uop_num ?f - num_eff_uops (MopQ st ! M)\<rparr>"
  note pop = IQ_pop [OF fet n f'_def]
  have M: "IQ ?f ! unat (IQ_head ?f) = Some M" "IQ_Mops ?f = M # IQ_Mops f'" using pop(1) by (auto simp: M_def)
  let ?s = "(pipe ?d ! 0)[i := Some M]"
  define d' where "d' = ?d\<lparr>pipe := (pipe ?d)[0 := ?s], occupancy := (occupancy ?d)[0 := occupancy ?d ! 0 + 1]\<rparr>"
  have l: "0 < length (pipe ?d)" "i < length (pipe ?d ! 0)" "length (pipe ?d ! 0) = decode_width ?k" using fa(1) fa(3) [OF sh(4)] i sh(4) by simp_all
  have free: "\<And>j. i \<le> j \<Longrightarrow> j < length (pipe ?d ! 0) \<Longrightarrow> pipe ?d ! 0 ! j = None" using packed_after [OF sh(2) e] by blast
  have ps: "present ?s = present (pipe ?d ! 0) @ [M]" by (rule present_fill [OF l(2) free])
  then have "occupancy ?d ! 0 + 1 = int (length (present ?s))" using fa(4) [OF sh(4)] by simp
  then have d: "dec_shape ?k d'" "occupancy d' ! 0 = int (length (present ?s))"
    using dec_shape_stage [OF sh(1,4), of ?s "occupancy ?d ! 0 + 1"] l(3) fa(2) sh(4) by (simp_all add: d'_def)
  have "packed ?s" by (rule packed_fill [OF sh(2) e occ])
  then have dk: "dec_ok ?k d'" using d(1) l(1) by (simp add: dec_ok_def d'_def)
  have items: "pipe_items (pipe d') = pipe_items (pipe ?d) @ [M]"
    using pipe_items_young [OF l(1) ps] by (simp add: d'_def)
  define st' where "st' = st\<lparr>decode := d', fetch := f'\<rparr>"
  have mops: "fe_Mops st' = fe_Mops st" using items M(2) by (simp add: fe_Mops_def fetch_Mops_def st'_def byteQ_Mops_def f'_def)
  have q: "q_uops d' = q_uops ?d" "uopQ_eff_num d' = uopQ_eff_num ?d" by (simp_all add: d'_def q_uops_def)
  have sums: "IQ_uop_num f' = sum_list (map (\<lambda>M. num_uops (MopQ st ! M)) (IQ_Mops f'))" "IQ_eff_uop_num f' = sum_list (map (\<lambda>M. num_eff_uops (MopQ st ! M)) (IQ_Mops f'))"
    using inv M(2) by (simp_all add: fe_inv_def f'_def)
  have "fe_inv X st'" by (rule fe_inv_frame [OF inv]) (use dk pop(2) fe_invD(5) [OF inv] inv q sums mops in \<open>simp_all add: st'_def fe_inv_def\<close>)
  moreover have "pending st' = pending st" by (simp only: pending_def mops) (simp add: st'_def q)
  moreover have "take_Mop i M st = Some st'"
  proof -
    have "0 \<le> num_uops (MopQ st ! M') \<and> 0 \<le> num_eff_uops (MopQ st ! M')" if "M' \<in> set (IQ_Mops f')" for M'
      using fe_invD(6) [OF inv, of M'] that M(2) by (simp add: fe_Mops_def fetch_Mops_def Mop_ok_def)
    then have "0 \<le> IQ_uop_num f'" "0 \<le> IQ_eff_uop_num f'" unfolding sums by (auto intro!: sum_list_nonneg)
    then have "num_uops (MopQ st ! M) \<le> IQ_uop_num ?f" "num_eff_uops (MopQ st ! M) \<le> IQ_eff_uop_num ?f" "0 \<le>s IQ_num ?f - 1" using pop(3) by (simp_all add: f'_def)
    moreover have "length (present ?s) \<le> decode_width ?k" using length_present_le [of ?s] l(3) by simp
    ultimately show ?thesis using d(2) M(1)
      by (simp add: take_Mop_def Let_def d'_def [symmetric] Mop_consume_def upd_fetch_def f'_def [symmetric] sure_def st'_def)
  qed
  ultimately show ?thesis using M(1) by (intro exI [of _ M] exI [of _ st']) (simp add: st'_def Mop_peek_def d'_def nth_list_update_eq [OF l(1)])
qed

lemma fill_decoders_ok:
  assumes "fe_inv X st" and "i \<le> decode_width (knobs st)" and "\<And>j. j < i \<Longrightarrow> pipe (decode st) ! 0 ! j \<noteq> None"
  shows "\<exists>r' st'. fill_decoders [i ..< decode_width (knobs st)] decoded branches r st = Some (r', st') \<and> fe_inv X st' \<and> pending st' = pending st \<and> knobs st' = knobs st \<and> events st' = events st"
  using assms
proof (induction "decode_width (knobs st) - i" arbitrary: i decoded branches r st)
  case 0
  then show ?case by simp
next
  case (Suc w)
  let ?k = "knobs st"
  have i: "i < decode_width ?k" "w = decode_width ?k - Suc i" using Suc(2) by simp_all
  then have u: "[i ..< decode_width ?k] = i # [Suc i ..< decode_width ?k]" by (simp add: upt_conv_Cons)
  note fd = fill_decoders.simps(2) [of i "[Suc i ..< decode_width ?k]", folded u]
  have le: "Suc i \<le> decode_width ?k" using i(1) by simp
  show ?case
  proof (cases "Mop_available st")
    case False
    then show ?thesis using Suc.prems(1) by (simp add: fd Let_def)
  next
    case av: True
    show ?thesis
    proof (cases "pipe (decode st) ! 0 ! i")
      case (Some M0)
      have "pipe (decode st) ! 0 ! j \<noteq> None" if "j < Suc i" for j using that Some Suc.prems(3) [of j] by (cases "j = i") simp_all
      from Suc(1) [OF i(2) Suc.prems(1) le this, of decoded branches "if decoded = 0 then DSTALL_FULL else r"] show ?thesis using av Some by (simp add: fd Let_def)
    next
      case None
      from take_Mop_ok [OF Suc.prems(1) av i(1) None Suc.prems(3)] obtain M st1 where
        t: "Mop_peek st = Some M" "take_Mop i M st = Some st1" "fe_inv X st1" "pending st1 = pending st" "knobs st1 = ?k" "events st1 = events st"
          "pipe (decode st1) ! 0 = (pipe (decode st) ! 0)[i := Some M]" by blast
      have occ: "pipe (decode st1) ! 0 ! j \<noteq> None" if "j < Suc i" for j
        using that Suc.prems(3) [of j] i(1) dec_shape_facts(3) [OF fe_inv_shape(1) [OF Suc.prems(1)], of 0] fe_inv_shape(4) [OF Suc.prems(1)]
        by (cases "j = i") (simp_all add: t(7))
      have cont: "\<exists>r' st'. fill_decoders [Suc i ..< decode_width ?k] dn bn r s2 = Some (r', st') \<and> fe_inv X st' \<and> pending st' = pending st \<and> knobs st' = ?k \<and> events st' = events st"
        if s2: "fe_inv X s2" "pending s2 = pending st" "knobs s2 = ?k" "events s2 = events st" "decode s2 = decode st1" for s2 dn bn
      proof -
        have a: "w = decode_width (knobs s2) - Suc i" "Suc i \<le> decode_width (knobs s2)" using i s2(3) by simp_all
        have "pipe (decode s2) ! 0 ! j \<noteq> None" if "j < Suc i" for j using occ [OF that] by (simp only: s2(5)) blast
        from Suc(1) [OF a(1) s2(1) a(2) this, of dn bn r] show ?thesis by (simp only: s2(2-4))
      qed
      let ?m = "MopQ st ! M"
      let ?ms = "upd_Mop M (\<lambda>m. m\<lparr>when_MS_started := sim_cycle st1 + scast (MS_latency ?k)\<rparr>) st1"
      have ms: "fe_inv X ?ms" "pending ?ms = pending st" "events ?ms = events st" using upd_Mop_ok [OF t(3)] t(4,6) by (simp_all add: info_def upd_Mop_def)
      consider (limit) "is_ctrl ?m \<and> branch_decode_limit ?k \<noteq> 0 \<and> branch_decode_limit ?k \<le> branches"
        | (first) "\<not> (is_ctrl ?m \<and> branch_decode_limit ?k \<noteq> 0 \<and> branch_decode_limit ?k \<le> branches)" "i = 0"
        | (other) "\<not> (is_ctrl ?m \<and> branch_decode_limit ?k \<noteq> 0 \<and> branch_decode_limit ?k \<le> branches)" "i \<noteq> 0" by blast
      then show ?thesis
      proof cases
        case limit
        then show ?thesis using av None t(1) Suc.prems(1) by (simp add: fd Let_def)
      next
        case first
        have "\<exists>r' st'. fill_decoders [Suc i ..< decode_width ?k] (Suc decoded) (branches + of_bool (is_ctrl ?m)) r (if \<not> fits i ?m ?k \<or> has_rep ?m then ?ms else st1) =
            Some (r', st') \<and> fe_inv X st' \<and> pending st' = pending st \<and> knobs st' = ?k \<and> events st' = events st"
          by (rule cont) (use ms t in simp_all)
        moreover have "fill_decoders [i ..< decode_width ?k] decoded branches r st =
            fill_decoders [Suc i ..< decode_width ?k] (Suc decoded) (branches + of_bool (is_ctrl ?m)) r (if \<not> fits i ?m ?k \<or> has_rep ?m then ?ms else st1)"
          unfolding fd Let_def using av None t(1,2) first by auto
        ultimately show ?thesis by simp
      next
        case other
        have "\<exists>r' st'. fill_decoders [Suc i ..< decode_width ?k] (Suc decoded) (branches + of_bool (is_ctrl ?m)) r st1 = Some (r', st') \<and>
            fe_inv X st' \<and> pending st' = pending st \<and> knobs st' = ?k \<and> events st' = events st"
          by (rule cont) (use t in simp_all)
        moreover have "fill_decoders [i ..< decode_width ?k] decoded branches r st =
            (if fits i ?m ?k \<and> \<not> has_rep ?m then fill_decoders [Suc i ..< decode_width ?k] (Suc decoded) (branches + of_bool (is_ctrl ?m)) r st1 else Some (why_not ?m ?k, st))"
          unfolding fd Let_def using av None t(1,2) other by auto
        ultimately show ?thesis using Suc.prems(1) by (cases "fits i ?m ?k \<and> \<not> has_rep ?m") simp_all
      qed
    qed
  qed
qed

section \<open>The cycle\<close>

text \<open>The resteers of a run, as the calls to the oracle's recovery.\<close>

fun is_resteer :: "fe_event \<Rightarrow> bool" where
  "is_resteer (Oracle_Recover M) = True"
| "is_resteer Oracle_Flush = True"
| "is_resteer e = False"

definition resteers :: "front_t \<Rightarrow> nat" where
  "resteers st = length (filter is_resteer (events st))"

lemma resteers_simps [simp]:
  "resteers (ZESTO_STAT f st) = resteers st" "resteers (upd_Mop M g st) = resteers st" "resteers (upd_decode h st) = resteers st" "resteers (upd_fetch j st) = resteers st"
  "resteers (st\<lparr>decode := d\<rparr>) = resteers st" "resteers (emit e st) = resteers st + of_bool (is_resteer e)"
  by (simp_all add: resteers_def ZESTO_STAT_def upd_Mop_def upd_decode_def upd_fetch_def emit_def)

lemma clear_byteQ_resteers: "clear_byteQ n es st = (es', st') \<Longrightarrow> resteers st' = resteers st"
  by (induction n es st rule: clear_byteQ.induct) (auto simp: new_action_id_def resteers_def Let_def)

lemma fetch_recover_resteers [simp]: "resteers (fetch_recover pc st) = resteers st"
  by (auto simp: fetch_recover_def clear_byteQ_resteers split: prod.split)

lemma check_target_resteers: "check_target M st = Some (r, st') \<Longrightarrow> resteers st' = resteers st + of_bool (r \<noteq> DSTALL_NONE)"
  by (auto simp: check_target_def Let_def bind_eq_Some_conv split: target_check.splits option.splits)

lemma check_flush_resteers: "check_flush s i st = Some (b, st') \<Longrightarrow> resteers st' = resteers st + of_bool b"
  by (auto simp: check_flush_def add_stall_def bind_eq_Some_conv dest!: check_target_resteers split: option.splits if_splits)

lemma move_stage_resteers: "move_stage s is st = Some (b, st') \<Longrightarrow> resteers st' = resteers st + of_bool b"
  by (induction "is" arbitrary: st) (auto simp: bind_eq_Some_conv dest!: check_flush_resteers split: if_splits)

lemma advance_resteers: "advance s st = Some (b, st') \<Longrightarrow> resteers st' = resteers st + of_bool b"
  by (induction s arbitrary: st) (auto simp: bind_eq_Some_conv dest!: move_stage_resteers split: if_splits)

lemma queue_uop_resteers: "queue_uop M st = Some st' \<Longrightarrow> resteers st' = resteers st"
  by (auto simp: queue_uop_def Let_def sure_def split: if_splits)

lemma queue_uops_resteers: "queue_uops n i M st = Some st' \<Longrightarrow> resteers st' = resteers st"
proof (induction n arbitrary: st)
  case (Suc n)
  show ?case
  proof (cases "uopQ_num (decode st) <s uopQ_size (knobs st)")
    case True
    with Suc.prems obtain s1 where s1: "queue_uop M st = Some s1" by (auto simp: queue_uops.simps(2) bind_eq_Some_conv)
    show ?thesis using Suc.prems True Suc.IH [of s1] queue_uop_resteers [OF s1] s1
      by (auto simp: queue_uops.simps(2) bind_eq_Some_conv split: if_splits)
  qed (use Suc.prems in \<open>simp add: queue_uops.simps(2)\<close>)
qed (simp add: queue_uops.simps(1))

lemma drain_slots_resteers: "drain_slots is st = Some st' \<Longrightarrow> resteers st' = resteers st"
  by (induction "is" arbitrary: st) (auto simp: bind_eq_Some_conv dest!: queue_uops_resteers split: if_splits option.splits)

text \<open>A cycle always succeeds and keeps what is in flight in order; it cuts it at most when it resteers.\<close>

lemma decode_step_ok:
  assumes inv: "fe_inv {} st"
  shows "\<exists>st'. decode_step st = Some st' \<and> fe_inv {} st' \<and> knobs st' = knobs st \<and> prefix (pending st') (pending st) \<and> resteers st \<le> resteers st' \<and>
    (resteers st' = resteers st \<longrightarrow> pending st' = pending st)"
proof -
  let ?k = "knobs st"
  have "\<exists>s1. (if occupancy (decode st) ! (decode_depth ?k - 1) \<noteq> 0 then drain_slots [0 ..< decode_width ?k] st else Some st) = Some s1 \<and>
      fe_inv {} s1 \<and> pending s1 = pending st \<and> knobs s1 = ?k \<and> resteers s1 = resteers st"
    using drain_slots_ok [OF inv, of 0] inv drain_slots_resteers by auto
  then obtain s1 where s1: "(if occupancy (decode st) ! (decode_depth ?k - 1) \<noteq> 0 then drain_slots [0 ..< decode_width ?k] st else Some st) = Some s1"
    "fe_inv {} s1" "pending s1 = pending st" "knobs s1 = ?k" "resteers s1 = resteers st" by blast
  have "decode_depth ?k - 1 < decode_depth (knobs s1)" using fe_inv_shape(4) [OF inv] s1(4) by simp
  from advance_ok [OF s1(2) this] obtain b s2 where s2: "advance (decode_depth ?k - 1) s1 = Some (b, s2)" "fe_inv {} s2" "knobs s2 = ?k"
    "if b then prefix (pending s2) (pending s1) else pending s2 = pending s1" by (auto simp: s1(4))
  note r2 = advance_resteers [OF s2(1)]
  have step: "decode_step st = (if b then Some s2 else if \<not> Mop_available s2 then Some (add_stall DSTALL_EMPTY s2)
      else do { (r, st) \<leftarrow> fill_decoders [0 ..< decode_width ?k] 0 0 DSTALL_NONE s2; Some (add_stall r st) })"
    using s2(1) unfolding decode_step_def Let_def s1(1) by simp
  show ?thesis
  proof (cases b)
    case True
    then show ?thesis using step s2 s1(3,5) r2 by simp
  next
    case False
    from fill_decoders_ok [OF s2(2), of 0 0 0 DSTALL_NONE] obtain r s3 where
      s3: "fill_decoders [0 ..< decode_width ?k] 0 0 DSTALL_NONE s2 = Some (r, s3)" "fe_inv {} s3" "pending s3 = pending s2" "knobs s3 = ?k" "events s3 = events s2" by (auto simp: s2(3))
    then have "resteers s3 = resteers st" using r2 s1(5) False by (simp add: resteers_def)
    then show ?thesis using step s2 s1(3,5) s3 r2 False by (simp add: add_stall_def)
  qed
qed

section \<open>Delivering uops\<close>

lemma uop_available_iff: "fe_inv X st \<Longrightarrow> uop_available st \<longleftrightarrow> uopQ_num (decode st) \<noteq> 0"
  unfolding uop_available_def by (rule ring_pos [OF fe_inv_shape(5)])

lemma uop_consume_ok:
  assumes inv: "fe_inv X st" and av: "uop_available st"
  shows "\<exists>p st'. uop_peek st = Some p \<and> uop_consume st = Some st' \<and> fe_inv X st' \<and> knobs st' = knobs st \<and> resteers st' = resteers st \<and> pending st = p # pending st'"
proof -
  let ?d = "decode st" and ?k = "knobs st"
  note sh = fe_inv_shape [OF inv]
  have n: "uopQ_num ?d \<noteq> 0" using av uop_available_iff [OF inv] by simp
  define p where "p = the (uopQ ?d ! unat (uopQ_head ?d))"
  define d' where "d' = ?d\<lparr>uopQ := (uopQ ?d)[unat (uopQ_head ?d) := None], uopQ_num := uopQ_num ?d - 1, uopQ_eff_num := uopQ_eff_num ?d - eff_size (uop_at st p),
    uopQ_head := modinc (uopQ_head ?d) (uopQ_size ?k)\<rparr>"
  have "map Some (q_uops ?d) = uopQ ?d ! unat (uopQ_head ?d) # ring_items (uopQ_head d') (uopQ_num d') (uopQ d')"
    using ring_items_pop [OF sh(5) n, of None] q_uops_items [OF sh(1)] by (simp add: d'_def)
  then obtain x us where x: "Some x = uopQ ?d ! unat (uopQ_head ?d)" "q_uops ?d = x # us" "map Some us = ring_items (uopQ_head d') (uopQ_num d') (uopQ d')"
    by (cases "q_uops ?d") auto
  have "p = x" unfolding p_def x(1) [symmetric] by simp
  then have p: "uopQ ?d ! unat (uopQ_head ?d) = Some p" "q_uops ?d = p # us" "ring_items (uopQ_head d') (uopQ_num d') (uopQ d') = map Some us"
    using x by simp_all
  then have q: "q_uops d' = us" by (simp add: q_uops_def)
  have "dec_ok ?k d'" using fe_invD(2) [OF inv] ring_pop(1) [OF sh(5) n] p(3) by (auto simp: dec_ok_def dec_shape_def d'_def)
  moreover have "uopQ_eff_num d' = sum_list (map (\<lambda>p. eff_size (uop_at st p)) (q_uops d'))" using inv p(2) q by (simp add: fe_inv_def d'_def)
  moreover have pi: "pipe d' = pipe ?d" by (simp add: d'_def)
  ultimately have "fe_inv X (st\<lparr>decode := d'\<rparr>)" using fe_invD(5) [OF inv] p(2) q by (intro fe_inv_decode [OF inv]) (simp_all add: fe_Mops_def subset_insertI)
  moreover have "uop_consume st = Some (st\<lparr>decode := d'\<rparr>)" using p(1) by (simp add: uop_consume_def upd_decode_def d'_def)
  moreover have "pending st = p # pending (st\<lparr>decode := d'\<rparr>)" using p(2) q pi by (simp add: pending_def fe_Mops_def)
  ultimately show ?thesis using p(1) by (simp add: uop_peek_def)
qed

end
