(* ===== verification/Frontend_Fetch.thy ===== *)
theory Frontend_Fetch
  imports Frontend_Cycle
begin

text \<open>
  The fetch stage: Mops enter the byte queue, pass the predecode pipe and reach the instruction queue in
  order.
\<close>

section \<open>Updates of the fetch stage\<close>

lemma upd_fetch_simps [simp]: "knobs (upd_fetch g st) = knobs st" "MopQ (upd_fetch g st) = MopQ st" "decode (upd_fetch g st) = decode st"
  "fetch (upd_fetch g st) = g (fetch st)" "events (upd_fetch g st) = events st" "sim_cycle (upd_fetch g st) = sim_cycle st"
  by (simp_all add: upd_fetch_def)

lemma ZESTO_events: "events (ZESTO_STAT f st) = events st"
  by (simp add: ZESTO_STAT_def)

lemma fe_inv_fetch:
  assumes inv: "fe_inv X st" and f: "fet_ok (knobs st) (g (fetch st))" and m: "fetch_Mops (knobs st) (g (fetch st)) = fetch_Mops (knobs st) (fetch st)"
    and s: "IQ_uop_num (g (fetch st)) = sum_list (map (\<lambda>M. num_uops (MopQ st ! M)) (IQ_Mops (g (fetch st))))"
      "IQ_eff_uop_num (g (fetch st)) = sum_list (map (\<lambda>M. num_eff_uops (MopQ st ! M)) (IQ_Mops (g (fetch st))))"
  shows "fe_inv X (upd_fetch g st)" and "pending (upd_fetch g st) = pending st" and "fe_Mops (upd_fetch g st) = fe_Mops st"
proof -
  show mops: "fe_Mops (upd_fetch g st) = fe_Mops st" by (simp add: fe_Mops_def m)
  show "fe_inv X (upd_fetch g st)" by (rule fe_inv_frame [OF inv]) (use fe_invD(2,5) [OF inv] inv f s mops in \<open>simp_all add: fe_inv_def\<close>)
  show "pending (upd_fetch g st) = pending st" by (simp only: pending_def mops) simp
qed

text \<open>An update that leaves the instruction queue alone.\<close>

lemma fe_inv_fetch':
  assumes inv: "fe_inv X st" and f: "fet_ok (knobs st) (g (fetch st))"
    and i: "IQ (g (fetch st)) = IQ (fetch st)" "IQ_head (g (fetch st)) = IQ_head (fetch st)" "IQ_num (g (fetch st)) = IQ_num (fetch st)"
      "IQ_uop_num (g (fetch st)) = IQ_uop_num (fetch st)" "IQ_eff_uop_num (g (fetch st)) = IQ_eff_uop_num (fetch st)"
    and m: "pipe_items (predecode (g (fetch st))) @ byteQ_Mops (knobs st) (g (fetch st)) = pipe_items (predecode (fetch st)) @ byteQ_Mops (knobs st) (fetch st)"
  shows "fe_inv X (upd_fetch g st)" and "pending (upd_fetch g st) = pending st" and "fe_Mops (upd_fetch g st) = fe_Mops st"
proof -
  have q: "IQ_Mops (g (fetch st)) = IQ_Mops (fetch st)" by (simp add: IQ_Mops_def i)
  then have "fetch_Mops (knobs st) (g (fetch st)) = fetch_Mops (knobs st) (fetch st)" using m by (simp add: fetch_Mops_def)
  note h = fe_inv_fetch [of X st g, OF inv f this, unfolded q i]
  show "fe_inv X (upd_fetch g st)" "pending (upd_fetch g st) = pending st" "fe_Mops (upd_fetch g st) = fe_Mops st"
    using h inv by (simp_all add: fe_inv_def)
qed

lemma fet_facts:
  assumes "fet_ok k f"
  shows "length (predecode f) = fetch_depth k" "s < fetch_depth k \<Longrightarrow> length (predecode f ! s) = fetch_width k"
    "ring_ok (IQ_head f) (IQ_num f) (IQ_tail f) (IQ_size k) (length (IQ f))"
    "ring_ok (byteQ_head f) (byteQ_num f) (byteQ_tail f) (byteQ_size k) (length (byteQ f))"
    "i < length (byteQ f) \<Longrightarrow> 0 \<le> num_Mop (byteQ f ! i)"
    "i < length (byteQ f) \<Longrightarrow> 0 < num_Mop (byteQ f ! i) \<Longrightarrow> unat (MopQ_first_index (byteQ f ! i)) < unat (MopQ_size k)"
    "i < length (byteQ f) \<Longrightarrow> \<not> in_ring (byteQ_head f) (byteQ_num f) (byteQ_size k) i \<Longrightarrow> num_Mop (byteQ f ! i) = 0"
  using assms unfolding fet_ok_def pipe_ok_def by blast+

text \<open>An entry of the byte queue and the predecode pipe are replaced.\<close>

lemma fet_ok_entry:
  assumes f: "fet_ok k f" and p: "pipe_ok (fetch_depth k) (fetch_width k) p" and i: "i < length (byteQ f)" and v: "0 \<le> num_Mop v"
    "0 < num_Mop v \<Longrightarrow> unat (MopQ_first_index v) < unat (MopQ_size k)" "in_ring (byteQ_head f) (byteQ_num f) (byteQ_size k) i \<or> num_Mop v = 0"
  shows "fet_ok k (f\<lparr>predecode := p, byteQ := (byteQ f)[i := v]\<rparr>)"
  using f p i v by (auto simp: fet_ok_def nth_list_update)

lemma predecode_self [simp]: "f\<lparr>predecode := predecode f, byteQ := x\<rparr> = (f :: fetch_t)\<lparr>byteQ := x\<rparr>"
  by (cases f) simp

section \<open>The instruction queue\<close>

lemma IQ_push:
  assumes f: "fet_ok k f" and n: "unat (IQ_num f) < unat (IQ_size k)" and D: "Suc D = fetch_depth k" and i: "i < fetch_width k"
    and e: "\<forall>j < i. predecode f ! D ! j = None" and M: "predecode f ! D ! i = Some M"
    and f': "f' = f\<lparr>IQ := (IQ f)[unat (IQ_tail f) := Some M], predecode := (predecode f)[D := (predecode f ! D)[i := None]],
      IQ_tail := modinc (IQ_tail f) (IQ_size k), IQ_num := IQ_num f + 1, IQ_uop_num := u, IQ_eff_uop_num := v\<rparr>"
  shows "fet_ok k f'" and "IQ_Mops f' = IQ_Mops f @ [M]" and "fetch_Mops k f' = fetch_Mops k f"
proof -
  note fa = fet_facts [OF f]
  note p = ring_push [OF fa(3) n] and it = ring_items_push [OF fa(3) n, of "Some M"]
  show iq: "IQ_Mops f' = IQ_Mops f @ [M]" using it by (simp add: IQ_Mops_def f')
  have pr: "pipe_ok (fetch_depth k) (fetch_width k) (predecode f)" using f by (simp add: fet_ok_def)
  have "pipe_ok (fetch_depth k) (fetch_width k) (predecode f')" using pipe_ok_update [OF pr, of "(predecode f ! D)[i := None]" D] fa(2) [of D] D by (simp add: f')
  then show "fet_ok k f'" using f p(1) it by (simp add: fet_ok_def f')
  have "pipe_items (predecode f) = M # pipe_items (predecode f')"
    using pipe_items_top [of D "predecode f" i M] D i e M fa(1) fa(2) [of D] by (simp add: f')
  then show "fetch_Mops k f' = fetch_Mops k f" using iq by (simp add: fetch_Mops_def byteQ_Mops_def f')
qed

lemma IQ_insert_ok:
  assumes inv: "fe_inv X st" and n: "IQ_num (fetch st) <s IQ_size (knobs st)" and i: "i < fetch_width (knobs st)"
    and e: "\<forall>j < i. predecode (fetch st) ! (fetch_depth (knobs st) - 1) ! j = None"
    and M: "predecode (fetch st) ! (fetch_depth (knobs st) - 1) ! i = Some M"
  shows "fe_inv X (IQ_insert i M st)" and "pending (IQ_insert i M st) = pending st" and "knobs (IQ_insert i M st) = knobs st" and "events (IQ_insert i M st) = events st"
    and "predecode (fetch (IQ_insert i M st)) ! (fetch_depth (knobs st) - 1) = (predecode (fetch st) ! (fetch_depth (knobs st) - 1))[i := None]"
proof -
  let ?k = "knobs st" and ?f = "fetch st" and ?m = "MopQ st ! M"
  let ?D = "fetch_depth ?k - 1"
  define g where "g = (\<lambda>f :: fetch_t. f\<lparr>IQ := (IQ f)[unat (IQ_tail f) := Some M], predecode := (predecode f)[?D := (predecode f ! ?D)[i := None]],
     IQ_tail := modinc (IQ_tail f) (IQ_size ?k), IQ_num := IQ_num f + 1, IQ_uop_num := IQ_uop_num f + num_uops ?m, IQ_eff_uop_num := IQ_eff_uop_num f + num_eff_uops ?m\<rparr>)"
  define s0 where "s0 = ZESTO_STAT (\<lambda>s. s\<lparr>predecode_bytes := predecode_bytes s + of_nat (len ?m)\<rparr>)
     (if at_EOM ?m then ZESTO_STAT (\<lambda>s. s\<lparr>predecode_insn := predecode_insn s + 1, predecode_uops := predecode_uops s + of_int (num_uops ?m),
        predecode_eff_uops := predecode_eff_uops s + of_int (num_eff_uops ?m)\<rparr>) st else st)"
  have s0: "IQ_insert i M st = upd_fetch g s0" "knobs s0 = ?k" "MopQ s0 = MopQ st" "fetch s0 = ?f" "decode s0 = decode st" "events s0 = events st"
    by (simp_all add: IQ_insert_def Let_def g_def s0_def ZESTO_events)
  have D: "Suc ?D = fetch_depth ?k" using fe_invD(1) [OF inv] by (simp add: knobs_ok_def)
  note fa = fet_facts [OF fe_invD(3) [OF inv]]
  have "unat (IQ_num ?f) < unat (IQ_size ?k)" using ring_room [OF fa(3)] n by simp
  note p = IQ_push [OF fe_invD(3) [OF inv] this D i e M fun_cong [OF g_def, of ?f]]
  note same = same_state [OF s0(2-5)]
  have inv0: "fe_inv X s0" using same(1) inv by simp
  have g: "fe_inv X (upd_fetch g s0)" "pending (upd_fetch g s0) = pending s0"
    using inv p(2) by (intro fe_inv_fetch [OF inv0]; simp add: s0(2-4) p(1,3); simp add: fe_inv_def g_def)+
  then show "fe_inv X (IQ_insert i M st)" "pending (IQ_insert i M st) = pending st" using s0(1) same(2) by simp_all
  show "knobs (IQ_insert i M st) = ?k" "events (IQ_insert i M st) = events st" by (simp_all add: s0)
  show "predecode (fetch (IQ_insert i M st)) ! ?D = (predecode ?f ! ?D)[i := None]" using D fa(1) by (simp add: s0 g_def)
qed

lemma fill_IQ_ok:
  assumes "fe_inv X st" and "i \<le> fetch_width (knobs st)" and "\<forall>j < i. predecode (fetch st) ! (fetch_depth (knobs st) - 1) ! j = None"
  shows "fe_inv X (fill_IQ [i ..< fetch_width (knobs st)] st) \<and> pending (fill_IQ [i ..< fetch_width (knobs st)] st) = pending st \<and>
    knobs (fill_IQ [i ..< fetch_width (knobs st)] st) = knobs st \<and> events (fill_IQ [i ..< fetch_width (knobs st)] st) = events st"
  using assms
proof (induction "fetch_width (knobs st) - i" arbitrary: i st)
  case (Suc w)
  let ?k = "knobs st" and ?D = "fetch_depth (knobs st) - 1"
  have i: "i < fetch_width ?k" "w = fetch_width ?k - Suc i" "Suc i \<le> fetch_width ?k" using Suc(2) by simp_all
  then have u: "[i ..< fetch_width ?k] = i # [Suc i ..< fetch_width ?k]" by (simp add: upt_conv_Cons)
  note fi = fill_IQ.simps(2) [of i "[Suc i ..< fetch_width ?k]", folded u]
  show ?case
  proof (cases "IQ_num (fetch st) <s IQ_size ?k")
    case False
    then show ?thesis using Suc.prems(1) by (simp add: fi)
  next
    case room: True
    show ?thesis
    proof (cases "predecode (fetch st) ! ?D ! i")
      case None
      have "\<forall>j < Suc i. predecode (fetch st) ! ?D ! j = None" using None Suc.prems(3) less_Suc_eq by auto
      from Suc(1) [OF i(2) Suc.prems(1) i(3) this] show ?thesis using room None by (simp add: fi)
    next
      case (Some M)
      note t = IQ_insert_ok [OF Suc.prems(1) room i(1) Suc.prems(3) Some]
      have len: "i < length (predecode (fetch st) ! ?D)" using fet_facts(2) [OF fe_invD(3) [OF Suc.prems(1)], of ?D] i(1) fe_invD(1) [OF Suc.prems(1)] by (simp add: knobs_ok_def)
      have "\<forall>j < Suc i. predecode (fetch (IQ_insert i M st)) ! ?D ! j = None"
        unfolding t(5) using len Suc.prems(3) by (simp add: nth_list_update less_Suc_eq)
      with Suc(1) [of "IQ_insert i M st" "Suc i"] t(1-4) i show ?thesis using room Some by (simp add: fi)
    qed
  qed
qed simp

section \<open>The predecode pipe\<close>

lemma shuffle_predecode_ok:
  assumes "pipe_ok D W p" and "i < D"
  shows "pipe_ok D W (shuffle_predecode i p) \<and> pipe_items (shuffle_predecode i p) = pipe_items p"
  using assms
proof (induction i arbitrary: p)
  case (Suc i)
  have l: "Suc i < length p" "length (p ! i) = W" using Suc.prems by (simp_all add: pipe_ok_def)
  let ?q = "p[Suc i := p ! i, i := map (\<lambda>_. None) (p ! i)]"
  have q: "pipe_ok D W ?q" using l by (intro pipe_ok_update Suc.prems(1)) simp_all
  show ?case
  proof (cases "list_all (\<lambda>s. s = None) (p ! Suc i)")
    case True
    then have "present (p ! Suc i) = []" by (simp add: present_Nil_iff list_all_iff)
    then have "pipe_items ?q = pipe_items p" unfolding pipe_items_two(2) [OF l(1)] pipe_items_two(1) [OF l(1)] by simp
    then show ?thesis using True Suc.IH [OF q] Suc.prems(2) by simp
  next
    case False
    then show ?thesis using Suc.IH [OF Suc.prems(1)] Suc.prems(2) by simp
  qed
qed simp

lemma free_index_free:
  assumes "free_index xs \<le> j" and "j < length xs"
  shows "xs ! j = None"
proof -
  let ?t = "takeWhile (\<lambda>s. s = None) (rev xs)" and ?d = "dropWhile (\<lambda>s. s = None) (rev xs)"
  have x: "xs = rev ?d @ rev ?t" by (metis rev_append rev_rev_ident takeWhile_dropWhile_id)
  have "length ?d \<le> j" using assms(1) by (simp add: free_index_def)
  moreover have "length xs = length ?d + length ?t" by (metis x length_append length_rev)
  ultimately have "xs ! j = rev ?t ! (j - length ?d)" "j - length ?d < length (rev ?t)" using assms(2) x by (metis length_rev nth_append linorder_not_le, simp)
  then have "xs ! j \<in> set ?t" by (metis nth_mem set_rev)
  then show ?thesis by (auto dest: set_takeWhileD)
qed

section \<open>Draining the byte queue\<close>

lemma entry_Mops_pop:
  assumes k: "knobs_ok k" and n: "0 < num_Mop e" and f: "unat (MopQ_first_index e) < unat (MopQ_size k)"
  shows "entry_Mops k e = unat (MopQ_first_index e) # entry_Mops k (e\<lparr>num_Mop := num_Mop e - 1, MopQ_first_index := modinc (MopQ_first_index e) (MopQ_size k)\<rparr>)"
proof -
  let ?s = "unat (MopQ_size k)" and ?f = "unat (MopQ_first_index e)"
  have s: "?s < 2 ^ 31" using k by (simp add: knobs_ok_def)
  have n1: "nat (num_Mop e) = Suc (nat (num_Mop e - 1))" using n by simp
  show ?thesis using f unfolding entry_Mops_def n1 upt_conv_Cons [OF zero_less_Suc] map_Suc_upt [symmetric]
    by (simp add: unat_modinc [OF f s] mod_add_left_eq)
qed

text \<open>A Mop moves from the first entry of the byte queue to the first stage of the predecode pipe.\<close>

lemma predecode_one:
  assumes inv: "fe_inv X st" and n: "byteQ_num (fetch st) \<noteq> 0" and e: "e = byteQ (fetch st) ! unat (byteQ_head (fetch st))" and pos: "num_Mop e \<noteq> 0"
    and M: "M = unat (MopQ_first_index e)"
  shows "M < length (MopQ st)" and "predecode_enqueue M st = (True, st1) \<Longrightarrow> st2 = predecode_Mop M st1 \<Longrightarrow>
      fe_inv X st2 \<and> pending st2 = pending st \<and> knobs st2 = knobs st \<and> events st2 = events st \<and> byteQ_num (fetch st2) = byteQ_num (fetch st) \<and>
      byteQ_head (fetch st2) = byteQ_head (fetch st) \<and> num_Mop (byteQ (fetch st2) ! unat (byteQ_head (fetch st))) = num_Mop e - 1"
    and "predecode_enqueue M st = (False, st1) \<Longrightarrow> st1 = st"
proof -
  let ?k = "knobs st" and ?f = "fetch st"
  let ?h = "unat (byteQ_head ?f)"
  note fo = fe_invD(3) [OF inv] and ko = fe_invD(1) [OF inv]
  note fa = fet_facts [OF fo]
  have h: "?h < length (byteQ ?f)" using fa(4) by (simp add: ring_ok_def)
  have p: "0 < num_Mop e" using fa(5) [OF h] pos e by simp
  have first: "unat (MopQ_first_index e) < unat (MopQ_size ?k)" using fa(6) [OF h] p e by simp
  then show "M < length (MopQ st)" using fe_invD(4) [OF inv] M by simp
  show "predecode_enqueue M st = (False, st1) \<Longrightarrow> st1 = st" by (auto simp: predecode_enqueue_def Let_def split: if_splits)
  assume en: "predecode_enqueue M st = (True, st1)" and st2: "st2 = predecode_Mop M st1"
  define i where "i = free_index (predecode ?f ! 0)"
  have i: "i < fetch_width ?k" "st1 = upd_fetch (\<lambda>f. f\<lparr>predecode := (predecode f)[0 := (predecode f ! 0)[i := Some M]]\<rparr>) st"
    using en by (auto simp: predecode_enqueue_def Let_def i_def split: if_splits)
  let ?e' = "e\<lparr>num_Mop := num_Mop e - 1, MopQ_first_index := modinc (MopQ_first_index e) (MopQ_size ?k)\<rparr>"
  define g where "g = (\<lambda>f :: fetch_t. f\<lparr>predecode := (predecode f)[0 := (predecode f ! 0)[i := Some M]], byteQ := (byteQ f)[?h := ?e']\<rparr>)"
  define s0 where "s0 = upd_Mop M (\<lambda>m. m\<lparr>when_fetched := sim_cycle st\<rparr>) st"
  have s0: "fe_inv X s0" "pending s0 = pending st" "knobs s0 = ?k" "fetch s0 = ?f" "events s0 = events st"
    using upd_Mop_ok [OF inv, of "\<lambda>m. m\<lparr>when_fetched := sim_cycle st\<rparr>" M] by (simp_all add: s0_def info_def upd_Mop_def)
  have w: "0 < fetch_depth ?k" "0 < length (predecode ?f)" "length (predecode ?f ! 0) = fetch_width ?k" using ko fa(1) fa(2) [of 0] by (simp_all add: knobs_ok_def)
  have pr: "present ((predecode ?f ! 0)[i := Some M]) = present (predecode ?f ! 0) @ [M]"
    by (rule present_fill) (use i(1) w(3) free_index_free in \<open>auto simp: i_def\<close>)
  have pm: "pipe_items (predecode (g ?f)) = pipe_items (predecode ?f) @ [M]" using pipe_items_young [OF w(2) pr] by (simp add: g_def)
  from ring_items_first_update [OF fa(4) n] obtain zs where zs: "ring_items (byteQ_head ?f) (byteQ_num ?f) (byteQ ?f) = e # zs"
    "\<And>v. ring_items (byteQ_head ?f) (byteQ_num ?f) ((byteQ ?f)[?h := v]) = v # zs" unfolding e by blast
  have bm: "byteQ_Mops ?k ?f = M # byteQ_Mops ?k (g ?f)" using entry_Mops_pop [OF ko p first] by (simp add: byteQ_Mops_def zs g_def M)
  have fg: "fet_ok ?k (g ?f)"
  proof -
    have "pipe_ok (fetch_depth ?k) (fetch_width ?k) (predecode (g ?f))"
      using fo w(3) pipe_ok_update [of "fetch_depth ?k" "fetch_width ?k" "predecode ?f" "(predecode ?f ! 0)[i := Some M]" 0] by (simp add: g_def fet_ok_def)
    moreover have "unat (MopQ_first_index ?e') < unat (MopQ_size ?k)" using modinc_less [OF first] ko by (simp add: knobs_ok_def)
    moreover have "in_ring (byteQ_head ?f) (byteQ_num ?f) (byteQ_size ?k) ?h" using ring_pop(2) [OF fa(4) n] by blast
    ultimately show ?thesis unfolding g_def by (intro fet_ok_entry [OF fo _ h]) (use p in \<open>simp_all add: g_def\<close>)
  qed
  have gi: "fe_inv X (upd_fetch g s0)" "pending (upd_fetch g s0) = pending s0"
    using fe_inv_fetch'(1,2) [OF s0(1), of g] fg pm bm by (simp_all add: s0(3,4)) (simp_all add: g_def)
  have s2: "knobs st2 = ?k" "MopQ st2 = MopQ s0" "fetch st2 = g ?f" "decode st2 = decode st" "events st2 = events st"
    by (simp_all add: st2 predecode_Mop_def Let_def i(2) g_def e s0_def ZESTO_events upd_Mop_def)
  have "fe_inv X st2" "pending st2 = pending st" using gi s0(2) same_state [of st2 "upd_fetch g s0"] s2 by (simp_all add: s0 s0_def)
  then show "fe_inv X st2 \<and> pending st2 = pending st \<and> knobs st2 = ?k \<and> events st2 = events st \<and> byteQ_num (fetch st2) = byteQ_num ?f \<and>
      byteQ_head (fetch st2) = byteQ_head ?f \<and> num_Mop (byteQ (fetch st2) ! ?h) = num_Mop e - 1"
    using s2 h by (simp add: g_def)
qed

lemma byteQ_release_ok:
  assumes inv: "fe_inv X st" and n: "byteQ_num (fetch st) \<noteq> 0" and z: "num_Mop (byteQ (fetch st) ! unat (byteQ_head (fetch st))) = 0"
  shows "fe_inv X (byteQ_release st)" and "pending (byteQ_release st) = pending st" and "knobs (byteQ_release st) = knobs st" and "events (byteQ_release st) = events st"
proof -
  let ?k = "knobs st" and ?f = "fetch st"
  let ?h = "unat (byteQ_head ?f)"
  let ?v = "(byteQ ?f ! ?h)\<lparr>MopQ_first_index := -1, bq_when_fetch_requested := TICK_T_MAX, bq_when_fetched := TICK_T_MAX,
        bq_when_translation_requested := TICK_T_MAX, bq_when_translated := TICK_T_MAX\<rparr>"
  define g where "g = (\<lambda>f :: fetch_t. f\<lparr>byteQ := (byteQ f)[unat (byteQ_head f) := (byteQ f ! unat (byteQ_head f))\<lparr>MopQ_first_index := -1, bq_when_fetch_requested := TICK_T_MAX,
        bq_when_fetched := TICK_T_MAX, bq_when_translation_requested := TICK_T_MAX, bq_when_translated := TICK_T_MAX\<rparr>],
     byteQ_num := byteQ_num f - 1, byteQ_head := modinc (byteQ_head f) (byteQ_size ?k)\<rparr>)"
  note fo = fe_invD(3) [OF inv]
  note fa = fet_facts [OF fo]
  note rp = ring_pop [OF fa(4) n]
  have eq: "byteQ_release st = upd_fetch g st" by (simp add: byteQ_release_def g_def)
  have "\<not> in_ring (byteQ_head (g ?f)) (byteQ_num (g ?f)) (byteQ_size ?k) i \<Longrightarrow> i \<noteq> ?h \<Longrightarrow> \<not> in_ring (byteQ_head ?f) (byteQ_num ?f) (byteQ_size ?k) i" for i
    using rp(2) by (simp add: g_def)
  then have f': "fet_ok ?k (g ?f)" using fo rp(1,4) z by (auto simp: fet_ok_def nth_list_update g_def)
  have "entry_Mops ?k (byteQ ?f ! ?h) = []" using z by (simp add: entry_Mops_def)
  then have "byteQ_Mops ?k (g ?f) = byteQ_Mops ?k ?f" using ring_items_pop [OF fa(4) n, of ?v] by (simp add: byteQ_Mops_def g_def)
  then have "fe_inv X (upd_fetch g st) \<and> pending (upd_fetch g st) = pending st" using fe_inv_fetch'(1,2) [of X st g] inv f' by (simp add: g_def)
  then show "fe_inv X (byteQ_release st)" "pending (byteQ_release st) = pending st" by (simp_all add: eq)
  show "knobs (byteQ_release st) = ?k" "events (byteQ_release st) = events st" by (simp_all add: eq)
qed

lemma drain_byteQ_ok:
  assumes "fe_inv X st" and "nat (num_Mop (byteQ (fetch st) ! unat (byteQ_head (fetch st)))) < n"
  shows "\<exists>st'. drain_byteQ n st = Some st' \<and> fe_inv X st' \<and> pending st' = pending st \<and> knobs st' = knobs st \<and> events st' = events st"
  using assms
proof (induction n arbitrary: st)
  case (Suc n)
  let ?f = "fetch st"
  define e where "e = byteQ ?f ! unat (byteQ_head ?f)"
  define M where "M = unat (MopQ_first_index e)"
  note fa = fet_facts [OF fe_invD(3) [OF Suc.prems(1)]]
  have ge: "0 \<le> num_Mop e" using fa(4) fa(5) [of "unat (byteQ_head ?f)"] by (simp add: e_def ring_ok_def)
  note db = drain_byteQ.simps(2) [of n st, folded e_def, unfolded Let_def, folded M_def]
  show ?case
  proof (cases "byteQ_num ?f \<noteq> 0 \<and> bq_when_fetched e \<noteq> TICK_T_MAX \<and> bq_when_translated e \<noteq> TICK_T_MAX")
    case False
    then have "drain_byteQ (Suc n) st = Some st" unfolding db by auto
    then show ?thesis using Suc.prems(1) by simp
  next
    case ready: True
    show ?thesis
    proof (cases "num_Mop e = 0")
      case True
      then have "drain_byteQ (Suc n) st = Some (byteQ_release st)" unfolding db using ready by simp
      then show ?thesis using byteQ_release_ok [OF Suc.prems(1)] ready True by (simp add: e_def)
    next
      case False
      obtain b st1 where en: "predecode_enqueue M st = (b, st1)" by (meson surj_pair)
      note p = predecode_one [OF Suc.prems(1) _ e_def False M_def]
      have M: "M < length (MopQ st)" using p(1) ready by simp
      show ?thesis
      proof (cases b)
        case no: False
        then have "drain_byteQ (Suc n) st = Some st" unfolding db using ready False M en p(3) by simp
        then show ?thesis using Suc.prems(1) by simp
      next
        case True
        define st2 where "st2 = predecode_Mop M st1"
        have s2: "fe_inv X st2" "pending st2 = pending st" "knobs st2 = knobs st" "events st2 = events st" "byteQ_num (fetch st2) = byteQ_num ?f"
          "byteQ_head (fetch st2) = byteQ_head ?f" "num_Mop (byteQ (fetch st2) ! unat (byteQ_head ?f)) = num_Mop e - 1"
          using p(2) [OF _ _ st2_def] ready en True by simp_all
        have eq: "drain_byteQ (Suc n) st = (if num_Mop e - 1 \<le> 0 then Some (byteQ_release st2) else drain_byteQ n st2)"
          unfolding db using ready False M en True by (simp add: st2_def)
        show ?thesis
        proof (cases "num_Mop e - 1 \<le> 0")
          case True
          then show ?thesis using eq byteQ_release_ok [OF s2(1)] s2 ge False ready by simp
        next
          case False
          have "nat (num_Mop (byteQ (fetch st2) ! unat (byteQ_head (fetch st2)))) < n" using s2(6,7) Suc.prems(2) False by (simp add: e_def)
          from Suc.IH [OF s2(1) this] show ?thesis using eq False s2(2-4) by simp
        qed
      qed
    qed
  qed
qed simp

text \<open>\<^verbatim>\<open>post_fetch\<close> moves Mops and never changes what is in flight.\<close>

lemma post_fetch_ok:
  assumes inv: "fe_inv X st"
  shows "\<exists>st'. post_fetch st = Some st' \<and> fe_inv X st' \<and> pending st' = pending st \<and> knobs st' = knobs st \<and> events st' = events st"
proof -
  let ?k = "knobs st"
  define s1 where "s1 = fill_IQ [0 ..< fetch_width ?k] st"
  have s1: "fe_inv X s1" "pending s1 = pending st" "knobs s1 = ?k" "events s1 = events st" using fill_IQ_ok [OF inv, of 0] by (simp_all add: s1_def)
  define g where "g = (\<lambda>f :: fetch_t. f\<lparr>predecode := shuffle_predecode (fetch_depth ?k - 1) (predecode f)\<rparr>)"
  have fo: "fet_ok ?k (fetch s1)" using fe_invD(3) [OF s1(1)] s1(3) by simp
  have "fetch_depth ?k - 1 < fetch_depth ?k" using fe_invD(1) [OF inv] by (simp add: knobs_ok_def)
  from shuffle_predecode_ok [OF _ this] fo have sh: "fet_ok ?k (g (fetch s1))" "pipe_items (predecode (g (fetch s1))) = pipe_items (predecode (fetch s1))"
    by (auto simp: fet_ok_def g_def)
  have s2: "fe_inv X (upd_fetch g s1)" "pending (upd_fetch g s1) = pending st"
    using fe_inv_fetch'(1,2) [OF s1(1), of g] sh s1(2,3) by (simp_all add: byteQ_Mops_def) (simp_all add: g_def)
  from drain_byteQ_ok [OF s2(1) lessI] obtain s3 where
    s3: "drain_byteQ (Suc (nat (num_Mop (byteQ (fetch (upd_fetch g s1)) ! unat (byteQ_head (fetch (upd_fetch g s1))))))) (upd_fetch g s1) = Some s3"
      "fe_inv X s3" "pending s3 = pending st" "knobs s3 = ?k" "events s3 = events st" using s2(2) s1 by auto
  have "post_fetch st = Some (upd_fetch (\<lambda>f. f\<lparr>stall_reason := FSTALL_EOL\<rparr>) s3)"
    using s3(1) by (simp add: post_fetch_def Let_def s1_def [symmetric] g_def s1(3) del: drain_byteQ.simps)
  moreover have "fe_inv X (upd_fetch (\<lambda>f. f\<lparr>stall_reason := FSTALL_EOL\<rparr>) s3) \<and> pending (upd_fetch (\<lambda>f. f\<lparr>stall_reason := FSTALL_EOL\<rparr>) s3) = pending st"
    using fe_inv_fetch'(1,2) [OF s3(2), of "\<lambda>f. f\<lparr>stall_reason := FSTALL_EOL\<rparr>"] fe_invD(3) [OF s3(2)] s3(3) by (simp add: fet_ok_def byteQ_Mops_def)
  ultimately show ?thesis using s3(4,5) by simp
qed

section \<open>Requesting lines\<close>

text \<open>Steps that no other part can tell apart: the Mops in flight and their progress are the same.\<close>

definition quiet :: "nat set \<Rightarrow> front_t \<Rightarrow> front_t \<Rightarrow> bool" where
  "quiet X st st' \<longleftrightarrow> fe_inv X st' \<and> pending st' = pending st \<and> fe_Mops st' = fe_Mops st \<and> knobs st' = knobs st \<and> events st' = events st \<and> same_Mops (MopQ st) (MopQ st')"

lemma quiet_self: "fe_inv X st \<Longrightarrow> quiet X st st"
  by (simp add: quiet_def)

lemma quiet_step: "quiet X st st' \<Longrightarrow> quiet X st' st'' \<Longrightarrow> quiet X st st''"
  unfolding quiet_def using same_Mops_trans by metis

lemma quietD:
  assumes "quiet X st st'"
  shows "fe_inv X st'" "pending st' = pending st" "fe_Mops st' = fe_Mops st" "knobs st' = knobs st" "events st' = events st" "same_Mops (MopQ st) (MopQ st')"
  using assms unfolding quiet_def by blast+

lemma MopQ_upd [simp]: "M < length (MopQ st) \<Longrightarrow> MopQ (upd_Mop M g st) ! M = g (MopQ st ! M)" "length (MopQ (upd_Mop M g st)) = length (MopQ st)"
  by (simp_all add: upd_Mop_def)

lemma quiet_upd_Mop:
  assumes "fe_inv X st" "info (g (MopQ st ! M)) = info (MopQ st ! M)" "last_stage_index (g (MopQ st ! M)) = last_stage_index (MopQ st ! M)"
  shows "quiet X st (upd_Mop M g st)"
  using upd_Mop_ok [of X st g M, OF assms] same_Mops_update [of g "MopQ st" M, OF assms(2,3)] by (simp add: quiet_def) (simp add: upd_Mop_def)

lemma quiet_fetch:
  assumes inv: "fe_inv X st" and f: "fet_ok (knobs st) (g (fetch st))"
    and i: "IQ (g (fetch st)) = IQ (fetch st)" "IQ_head (g (fetch st)) = IQ_head (fetch st)" "IQ_num (g (fetch st)) = IQ_num (fetch st)"
      "IQ_uop_num (g (fetch st)) = IQ_uop_num (fetch st)" "IQ_eff_uop_num (g (fetch st)) = IQ_eff_uop_num (fetch st)" "predecode (g (fetch st)) = predecode (fetch st)"
    and m: "byteQ_Mops (knobs st) (g (fetch st)) = byteQ_Mops (knobs st) (fetch st)"
  shows "quiet X st (upd_fetch g st)"
  using fe_inv_fetch' [of X st g, OF inv f i(1-5)] i(6) m by (simp add: quiet_def)

lemma quiet_stall:
  assumes "fe_inv X st"
  shows "quiet X st (upd_fetch (\<lambda>f. f\<lparr>stall_reason := r\<rparr>) st)" and "quiet X st (upd_fetch (\<lambda>f. f\<lparr>PC := pc\<rparr>) st)"
  using fe_invD(3) [OF assms] by (intro quiet_fetch [OF assms]; simp add: fet_ok_def byteQ_Mops_def)+

lemma quiet_new_action: "fe_inv X st \<Longrightarrow> quiet X st (new_action_id st)"
  using same_state [of "new_action_id st" st] by (simp add: quiet_def new_action_id_def)

text \<open>The oracle numbers Mops consecutively: the next one follows those of the youngest entry.\<close>

definition next_ok :: "nat \<Rightarrow> front_t \<Rightarrow> bool" where
  "next_ok M st \<longleftrightarrow> (let e = byteQ (fetch st) ! byteQ_last st in
     byteQ_num (fetch st) \<noteq> 0 \<and> 0 < num_Mop e \<longrightarrow> M = (unat (MopQ_first_index e) + nat (num_Mop e)) mod unat (MopQ_size (knobs st)))"

lemma next_ok_upd_Mop [simp]: "next_ok M (upd_Mop M' g st) = next_ok M st"
  by (simp add: next_ok_def byteQ_last_def)

lemma byteQ_request_ok:
  assumes inv: "fe_inv X st" and room: "\<not> byteQ_is_full st"
  shows "\<exists>st'. byteQ_request a st = Some st' \<and> quiet X st st' \<and> MopQ st' = MopQ st \<and> byteQ_num (fetch st') \<noteq> 0 \<and> next_ok M st'"
proof -
  let ?k = "knobs st" and ?f = "fetch st"
  let ?t = "unat (byteQ_tail ?f)"
  note fo = fe_invD(3) [OF inv]
  note fa = fet_facts [OF fo]
  have n: "unat (byteQ_num ?f) < unat (byteQ_size ?k)" using room ring_room [OF fa(4)] ring_full [OF fa(4)] by (simp add: byteQ_is_full_def)
  note p = ring_push [OF fa(4) n]
  define v where "v = (byteQ ?f ! ?t)\<lparr>bq_when_fetch_requested := TICK_T_MAX, bq_when_fetched := TICK_T_MAX,
     bq_when_translation_requested := TICK_T_MAX, bq_when_translated := TICK_T_MAX, bq_addr := a, bq_action_id := global_action_id st + 1\<rparr>"
  have z: "num_Mop v = 0" using fa(7) [OF p(4,3)] by (simp add: v_def)
  define g where "g = (\<lambda>f :: fetch_t. f\<lparr>byteQ := (byteQ f)[unat (byteQ_tail f) := (byteQ f ! unat (byteQ_tail f))\<lparr>bq_when_fetch_requested := TICK_T_MAX, bq_when_fetched := TICK_T_MAX,
     bq_when_translation_requested := TICK_T_MAX, bq_when_translated := TICK_T_MAX, bq_addr := a, bq_action_id := global_action_id st + 1\<rparr>],
     byteQ_tail := modinc (byteQ_tail f) (byteQ_size ?k), byteQ_num := byteQ_num f + 1\<rparr>)"
  have g: "g ?f = ?f\<lparr>byteQ := (byteQ ?f)[?t := v], byteQ_tail := modinc (byteQ_tail ?f) (byteQ_size ?k), byteQ_num := byteQ_num ?f + 1\<rparr>" by (simp add: g_def v_def)
  note q0 = quiet_new_action [OF inv]
  have n0: "knobs (new_action_id st) = ?k" "fetch (new_action_id st) = ?f" "MopQ (new_action_id st) = MopQ st" "global_action_id (new_action_id st) = global_action_id st + 1"
    by (simp_all add: new_action_id_def)
  have eq: "byteQ_request a st = Some (upd_fetch g (new_action_id st))"
    using p(4) by (simp add: byteQ_request_def Let_def sure_def n0 upd_fetch_def g_def v_def)
  have "fet_ok ?k (g ?f)" using fo p(1,2,4) z by (auto simp: fet_ok_def g nth_list_update)
  moreover have bm: "byteQ_Mops ?k (g ?f) = byteQ_Mops ?k ?f" using ring_items_push [OF fa(4) n, of v] z by (simp add: byteQ_Mops_def g entry_Mops_def)
  ultimately have "quiet X (new_action_id st) (upd_fetch g (new_action_id st))" by (intro quiet_fetch [OF quietD(1) [OF q0]]) (simp_all add: n0 g)
  then have "quiet X st (upd_fetch g (new_action_id st))" by (rule quiet_step [OF q0])
  moreover have nz: "byteQ_num ?f + 1 \<noteq> 0" using n fa(4) unat_Suc [of "byteQ_num ?f"] by (auto simp: ring_ok_def)
  moreover have "unat (moddec (modinc (byteQ_tail ?f) (byteQ_size ?k)) (byteQ_size ?k)) = ?t"
    using ring_back(1) [OF p(1) nz] fa(4) by (simp add: ring_ok_def)
  then have "next_ok M (upd_fetch g (new_action_id st))" using z p(4) by (simp add: next_ok_def byteQ_last_def n0 g)
  ultimately show ?thesis using eq by (simp add: n0 g)
qed

lemma request_first_ok:
  assumes inv: "fe_inv X st" and nx: "next_ok M st" and M: "M < length (MopQ st)"
  shows "\<exists>b st'. request_first M st = Some (b, st') \<and> quiet X st st' \<and> next_ok M st' \<and> (b \<longrightarrow> first_byte_requested (MopQ st' ! M)) \<and>
    last_byte_requested (MopQ st' ! M) = last_byte_requested (MopQ st ! M) \<and> fetch_PC (MopQ st' ! M) = fetch_PC (MopQ st ! M)"
proof -
  define a where "a = fetch_PC (MopQ st ! M)"
  define s1 where "s1 = (if byteQ_already_requested st a then fetch_started M st else st)"
  have fs: "quiet X s (fetch_started M s) \<and> last_byte_requested (MopQ (fetch_started M s) ! M) = last_byte_requested (MopQ s ! M) \<and>
      next_ok M (fetch_started M s) = next_ok M s \<and> first_byte_requested (MopQ (fetch_started M s) ! M) \<and>
      fetch_PC (MopQ (fetch_started M s) ! M) = fetch_PC (MopQ s ! M) \<and> byteQ_is_full (fetch_started M s) = byteQ_is_full s" if "fe_inv X s" "M < length (MopQ s)" for s
    using that(2) quiet_upd_Mop [OF that(1), of "\<lambda>m. m\<lparr>first_byte_requested := True, when_fetch_started := (if when_fetch_started m = TICK_T_MAX then sim_cycle s else when_fetch_started m)\<rparr>" M]
    unfolding fetch_started_def by (simp add: info_def byteQ_is_full_def)
  have s1: "quiet X st s1" "next_ok M s1" "last_byte_requested (MopQ s1 ! M) = last_byte_requested (MopQ st ! M)" "fetch_PC (MopQ s1 ! M) = fetch_PC (MopQ st ! M)"
    using fs [OF inv M] quiet_self [OF inv] nx by (simp_all add: s1_def)
  have M1: "M < length (MopQ s1)" using M same_Mops_nth(1) [OF quietD(6) [OF s1(1)]] by simp
  have eq: "request_first M st = (if first_byte_requested (MopQ s1 ! M) then Some (True, s1) else if byteQ_is_full s1 then Some (False, s1)
      else do { s2 \<leftarrow> byteQ_request (line_of s1 a) (fetch_started M s1); Some (True, s2) })"
    by (simp add: request_first_def Let_def a_def s1_def)
  show ?thesis
  proof (cases "first_byte_requested (MopQ s1 ! M) \<or> byteQ_is_full s1")
    case True
    then show ?thesis using eq s1 by auto
  next
    case False
    note f1 = fs [OF quietD(1) [OF s1(1)] M1]
    from byteQ_request_ok [of X "fetch_started M s1" "line_of s1 a" M] f1 False obtain s2 where
      s2: "byteQ_request (line_of s1 a) (fetch_started M s1) = Some s2" "quiet X (fetch_started M s1) s2" "MopQ s2 = MopQ (fetch_started M s1)" "next_ok M s2" using quietD(1) by blast
    have "quiet X st s2" using quiet_step [OF quiet_step [OF s1(1)] s2(2)] f1 by blast
    then show ?thesis using eq False s2 f1 s1(3,4) M1 by simp
  qed
qed

lemma request_last_ok:
  assumes inv: "fe_inv X st" and nx: "next_ok M st" and M: "M < length (MopQ st)" and no: "\<not> last_byte_requested (MopQ st ! M)"
  shows "\<exists>b st'. request_last M st = Some (b, st') \<and> quiet X st st' \<and> next_ok M st' \<and> (b \<longrightarrow> last_byte_requested (MopQ st' ! M) \<and> byteQ_num (fetch st') \<noteq> 0) \<and>
    first_byte_requested (MopQ st' ! M) = first_byte_requested (MopQ st ! M)"
proof -
  define a where "a = fetch_PC (MopQ st ! M) + of_nat (len (MopQ st ! M)) - 1"
  let ?u = "upd_Mop M (\<lambda>m. m\<lparr>last_byte_requested := True\<rparr>) st"
  have u: "quiet X st ?u" "next_ok M ?u" "last_byte_requested (MopQ ?u ! M)" "first_byte_requested (MopQ ?u ! M) = first_byte_requested (MopQ st ! M)" "byteQ_is_full ?u = byteQ_is_full st"
    using quiet_upd_Mop [OF inv, of "\<lambda>m. m\<lparr>last_byte_requested := True\<rparr>" M] nx M by (simp_all add: info_def byteQ_is_full_def)
  show ?thesis
  proof (cases "byteQ_already_requested st a")
    case True
    then have "request_last M st = Some (True, ?u)" using u(3) by (simp add: request_last_def Let_def a_def)
    then show ?thesis using u True by (simp add: byteQ_already_requested_def)
  next
    case False
    then have eq: "request_last M st = (if byteQ_is_full st then Some (False, st) else do { s2 \<leftarrow> byteQ_request (line_of st a) ?u; Some (True, s2) })"
      using no by (simp add: request_last_def Let_def a_def)
    show ?thesis
    proof (cases "byteQ_is_full st")
      case True
      then show ?thesis using eq quiet_self [OF inv] nx by (intro exI [of _ False] exI [of _ st]) simp
    next
      case False
      from byteQ_request_ok [of X ?u "line_of st a" M] u(5) False obtain s2 where
        s2: "byteQ_request (line_of st a) ?u = Some s2" "quiet X ?u s2" "MopQ s2 = MopQ ?u" "byteQ_num (fetch s2) \<noteq> 0" "next_ok M s2" using quietD(1) [OF u(1)] by blast
      then show ?thesis using eq False u(3,4) quiet_step [OF u(1) s2(2)] by simp
    qed
  qed
qed

section \<open>Fetching a Mop\<close>

lemma entry_Mops_push:
  assumes k: "knobs_ok k" and M: "M < unat (MopQ_size k)" and n: "0 \<le> num_Mop e"
    and nx: "0 < num_Mop e \<Longrightarrow> M = (unat (MopQ_first_index e) + nat (num_Mop e)) mod unat (MopQ_size k)"
    and e': "e' = e\<lparr>MopQ_first_index := (if num_Mop e = 0 then of_nat M else MopQ_first_index e), num_Mop := num_Mop e + 1\<rparr>"
  shows "entry_Mops k e' = entry_Mops k e @ [M]" and "0 < num_Mop e \<Longrightarrow> MopQ_first_index e' = MopQ_first_index e" and "num_Mop e = 0 \<Longrightarrow> unat (MopQ_first_index e') = M"
proof -
  have "M < 2 ^ 32" using M k by (simp add: knobs_ok_def)
  then have u: "unat (of_nat M :: cint) = M" by (simp add: unat_of_nat)
  show "0 < num_Mop e \<Longrightarrow> MopQ_first_index e' = MopQ_first_index e" "num_Mop e = 0 \<Longrightarrow> unat (MopQ_first_index e') = M" using u by (simp_all add: e')
  show "entry_Mops k e' = entry_Mops k e @ [M]"
  proof (cases "num_Mop e = 0")
    case True
    then show ?thesis using M u by (simp add: entry_Mops_def e')
  next
    case False
    then have "nat (num_Mop e + 1) = Suc (nat (num_Mop e))" "0 < num_Mop e" using n by simp_all
    then show ?thesis using nx by (simp add: entry_Mops_def e')
  qed
qed

definition fresh :: "nat \<Rightarrow> front_t \<Rightarrow> bool" where
  "fresh M st \<longleftrightarrow> M < length (MopQ st) \<and> M \<notin> set (fe_Mops st) \<and> Mop_ok (MopQ st ! M) \<and> last_stage_index (MopQ st ! M) < flow_length (MopQ st ! M)"

lemma fresh_quiet: "quiet X st st' \<Longrightarrow> fresh M st \<Longrightarrow> fresh M st'"
proof -
  assume q: "quiet X st st'" and f: "fresh M st"
  have M: "M < length (MopQ st)" using f by (simp add: fresh_def)
  note n = same_Mops_nth [OF quietD(6) [OF q]]
  show ?thesis using f info_eq(1-4) [OF n(2) [OF M]] n(1) n(3) [OF M] quietD(3) [OF q] by (simp add: fresh_def Mop_ok_def)
qed

lemma byteQ_record_ok:
  assumes inv: "fe_inv X st" and M: "fresh M st" and n: "byteQ_num (fetch st) \<noteq> 0" and nx: "next_ok M st"
  shows "fe_inv X (byteQ_record M st)" and "pending (byteQ_record M st) = pending st @ todo (MopQ st) M" and "knobs (byteQ_record M st) = knobs st"
    and "events (byteQ_record M st) = Oracle_Consume M # events st" and "MopQ (byteQ_record M st) = MopQ st"
proof -
  let ?k = "knobs st" and ?f = "fetch st"
  define l where "l = byteQ_last st"
  define e where "e = byteQ ?f ! l"
  define e' where "e' = e\<lparr>MopQ_first_index := (if num_Mop e = 0 then of_nat M else MopQ_first_index e), num_Mop := num_Mop e + 1\<rparr>"
  note fo = fe_invD(3) [OF inv] and ko = fe_invD(1) [OF inv]
  note fa = fet_facts [OF fo]
  note b = ring_back [OF fa(4) n]
  have l: "l = unat (moddec (byteQ_tail ?f) (byteQ_size ?k))" "l < length (byteQ ?f)" using b(3) by (simp_all add: l_def byteQ_last_def)
  have ge: "0 \<le> num_Mop e" using fa(5) [OF l(2)] by (simp add: e_def)
  have Ml: "M < unat (MopQ_size ?k)" using M fe_invD(4) [OF inv] by (simp add: fresh_def)
  have "0 < num_Mop e \<Longrightarrow> M = (unat (MopQ_first_index e) + nat (num_Mop e)) mod unat (MopQ_size ?k)" using nx n by (simp add: next_ok_def Let_def l_def e_def)
  note p = entry_Mops_push [OF ko Ml ge this e'_def]
  have eq: "byteQ_record M st = emit (Oracle_Consume M) (upd_fetch (\<lambda>f. f\<lparr>byteQ := (byteQ f)[l := e']\<rparr>) st)"
    by (simp add: byteQ_record_def upd_fetch_def l_def e_def e'_def)
  from ring_items_last_update [OF fa(4) n] obtain zs where zs: "ring_items (byteQ_head ?f) (byteQ_num ?f) (byteQ ?f) = zs @ [e]"
    "\<And>v. ring_items (byteQ_head ?f) (byteQ_num ?f) ((byteQ ?f)[l := v]) = zs @ [v]" unfolding e_def l(1) by blast
  let ?st = "upd_fetch (\<lambda>f. f\<lparr>byteQ := (byteQ f)[l := e']\<rparr>) st"
  have mops: "fe_Mops ?st = fe_Mops st @ [M]" using p(1) by (simp add: fe_Mops_def fetch_Mops_def byteQ_Mops_def IQ_Mops_def zs)
  have ring: "in_ring (byteQ_head ?f) (byteQ_num ?f) (byteQ_size ?k) l"
    using ring_push(2) [OF b(1,2), of l] b(3) l(1) by simp
  have "unat (MopQ_first_index e') < unat (MopQ_size ?k)"
    using p(2,3) fa(6) [OF l(2)] Ml ge by (cases "num_Mop e = 0") (simp_all add: e_def)
  then have "fet_ok ?k (?f\<lparr>byteQ := (byteQ ?f)[l := e']\<rparr>)"
    using fet_ok_entry [OF fo _ l(2), of "predecode ?f" e'] fo ge ring by (simp add: fet_ok_def e'_def)
  then have "fe_inv X ?st"
    using fe_invD(2,5,6,7) [OF inv] M inv by (intro fe_inv_change [OF inv]) (auto simp: mops fresh_def fe_inv_def IQ_Mops_def)
  then show "fe_inv X (byteQ_record M st)" by (simp add: eq)
  have "pending ?st = pending st @ todo (MopQ st) M" unfolding pending_def mops by simp
  then show "pending (byteQ_record M st) = pending st @ todo (MopQ st) M" by (simp add: eq)
  show "knobs (byteQ_record M st) = ?k" "MopQ (byteQ_record M st) = MopQ st" "events (byteQ_record M st) = Oracle_Consume M # events st" by (simp_all add: eq emit_def)
qed

lemma predict_quiet:
  assumes inv: "fe_inv X st"
  shows "quiet X st (predict v M st)"
proof -
  define s1 where "s1 = upd_Mop M (\<lambda>m. if is_ctrl m \<or> has_rep m then m\<lparr>bpred_update := Some (state_cache v), pred_NPC := predicted v\<rparr> else m\<lparr>pred_NPC := NextPC m\<rparr>) st"
  define g where "g = (\<lambda>m :: Mop_t. if pred_NPC m \<noteq> NextPC m then m\<lparr>recover_inst := True, uop := (uop m)[last_uop_index m := (uop m ! last_uop_index m)\<lparr>uop_recover_inst := True\<rparr>]\<rparr> else m)"
  have q1: "quiet X st s1" unfolding s1_def by (rule quiet_upd_Mop [OF inv]) (simp_all add: info_def)
  have "info (g m) = info m" "last_stage_index (g m) = last_stage_index m" for m
    using uop_static_update [of "(uop m ! last_uop_index m)\<lparr>uop_recover_inst := True\<rparr>" "uop m" "last_uop_index m"] by (simp_all add: g_def info_def)
  then have q2: "quiet X s1 (upd_Mop M g s1)" by (intro quiet_upd_Mop [OF quietD(1) [OF q1]])
  have "predict v M st = upd_fetch (\<lambda>f. f\<lparr>PC := pred_NPC (MopQ (upd_Mop M g s1) ! M)\<rparr>) (upd_Mop M g s1)"
    by (simp add: predict_def Let_def s1_def g_def)
  then show ?thesis using quiet_step [OF quiet_step [OF q1 q2] quiet_stall(2) [OF quietD(1) [OF q2]]] by simp
qed

text \<open>What the oracle promises of the Mop that it hands over.\<close>

definition fetch_guard :: "fetch_env \<Rightarrow> front_t \<Rightarrow> bool" where
  "fetch_guard v st \<longleftrightarrow> (case exec_Mop v of None \<Rightarrow> True
     | Some M \<Rightarrow> \<not> draining v \<longrightarrow> fresh M st \<and> next_ok M st \<and> \<not> last_byte_requested (MopQ st ! M) \<and> (drop_bit 12 (PC (fetch st)) = 0 \<longrightarrow> spec_mode v))"

text \<open>The uops that a call of \<^verbatim>\<open>do_fetch\<close> has accepted.\<close>

definition accepted :: "fetch_env \<Rightarrow> front_t \<Rightarrow> front_t \<Rightarrow> (nat \<times> nat) list" where
  "accepted v st st' = (case exec_Mop v of Some M \<Rightarrow> if events st' = Oracle_Consume M # events st then todo (MopQ st) M else [] | None \<Rightarrow> [])"

lemma do_fetch_ok:
  assumes inv: "fe_inv X st" and g: "fetch_guard v st"
  shows "\<exists>b st'. do_fetch v st = Some (b, st') \<and> fe_inv X st' \<and> knobs st' = knobs st \<and> resteers st' = resteers st \<and> pending st' = pending st @ accepted v st st'"
proof -
  have idle: "fe_inv X s' \<and> knobs s' = knobs st \<and> resteers s' = resteers st \<and> pending s' = pending st @ accepted v st s'" if "quiet X st s'" for s'
    using quietD(1,2,4,5) [OF that] by (simp add: accepted_def resteers_def split: option.split)
  have stop: "\<exists>b st'. stall r s = Some (b, st') \<and> quiet X s st'" if "fe_inv X s" for r s
    using quiet_stall(1) [OF that] by (simp add: stall_def)
  show ?thesis
  proof (cases "draining v \<or> exec_Mop v = None")
    case True
    then have "\<exists>r. do_fetch v st = stall r st" by (auto simp: do_fetch_def Let_def)
    then show ?thesis using stop [OF inv] idle by metis
  next
    case False
    then obtain M where M: "exec_Mop v = Some M" "\<not> draining v" by auto
    then have gd: "fresh M st" "next_ok M st" "\<not> last_byte_requested (MopQ st ! M)" "drop_bit 12 (PC (fetch st)) = 0 \<longrightarrow> spec_mode v" using g by (simp_all add: fetch_guard_def)
    have Ml: "M < length (MopQ st)" using gd(1) by (simp add: fresh_def)
    show ?thesis
    proof (cases "drop_bit 12 (PC (fetch st)) = 0")
      case True
      then have "do_fetch v st = stall FSTALL_ZPAGE st" using M gd(4) by (simp add: do_fetch_def Let_def)
      then show ?thesis using stop [OF inv] idle by metis
    next
      case page: False
      from request_first_ok [OF inv gd(2) Ml] obtain b1 s1 where s1: "request_first M st = Some (b1, s1)" "quiet X st s1" "next_ok M s1"
        "b1 \<longrightarrow> first_byte_requested (MopQ s1 ! M)" "\<not> last_byte_requested (MopQ s1 ! M)" using gd(3) by blast
      show ?thesis
      proof (cases b1)
        case False
        then have "do_fetch v st = stall FSTALL_byteQ_FULL s1" using M page s1(1) by (simp add: do_fetch_def Let_def)
        then show ?thesis using stop [OF quietD(1) [OF s1(2)]] quiet_step [OF s1(2)] idle by metis
      next
        case b1: True
        have "M < length (MopQ s1)" using Ml same_Mops_nth(1) [OF quietD(6) [OF s1(2)]] by simp
        from request_last_ok [OF quietD(1) [OF s1(2)] s1(3) this s1(5)] obtain b2 s2 where s2: "request_last M s1 = Some (b2, s2)" "quiet X s1 s2" "next_ok M s2"
          "b2 \<longrightarrow> last_byte_requested (MopQ s2 ! M) \<and> byteQ_num (fetch s2) \<noteq> 0" "first_byte_requested (MopQ s2 ! M)" using s1(4) b1 by blast
        note q2 = quiet_step [OF s1(2) s2(2)]
        show ?thesis
        proof (cases b2)
          case False
          then have "do_fetch v st = stall FSTALL_byteQ_FULL s2" using M page s1(1) b1 s2(1) by (simp add: do_fetch_def Let_def)
          then show ?thesis using stop [OF quietD(1) [OF q2]] quiet_step [OF q2] idle by metis
        next
          case b2: True
          define s4 where "s4 = predict v M (byteQ_record M s2)"
          note r = byteQ_record_ok [OF quietD(1) [OF q2] fresh_quiet [OF q2 gd(1)] _ s2(3)]
          have "quiet X (byteQ_record M s2) s4" unfolding s4_def by (rule predict_quiet [OF r(1)]) (use s2(4) b2 in simp)
          moreover have "\<exists>b r. do_fetch v st = stall r s4 \<or> do_fetch v st = Some (b, s4)"
            using M page s1(1) b1 s2(1,4,5) b2 by (auto simp: do_fetch_def Let_def s4_def [symmetric])
          then obtain b st' where d: "do_fetch v st = Some (b, st')" "quiet X s4 st'" using stop [of s4] quiet_self [of X s4] quietD(1) [OF calculation] by metis
          ultimately have q: "quiet X (byteQ_record M s2) st'" using quiet_step by blast
          have "events st' = Oracle_Consume M # events st" using quietD(5) [OF q] r(4) s2(4) b2 quietD(5) [OF q2] by simp
          moreover have "todo (MopQ s2) M = todo (MopQ st) M" by (rule todo_same [OF quietD(6) [OF q2] Ml]) (use gd(1) in \<open>simp add: fresh_def\<close>)
          ultimately show ?thesis using d(1) quietD(1,2,4) [OF q] r(2,3) s2(4) b2 quietD(2,4) [OF q2] M(1) by (simp add: accepted_def resteers_def)
        qed
      qed
    qed
  qed
qed

end
