(* ===== verification/Frontend_Run.thy ===== *)
theory Frontend_Run
  imports Frontend_Fetch
begin

text \<open>
  The front end as a whole: the calls that the simulation loop, the oracle, the caches and the back end make
  to the fetch and decode stages, in any order. Whatever the order, no assertion fails, and the uops
  delivered are those accepted, in program order, less what a resteer cut off.
\<close>

section \<open>Requests, callbacks and jeclears\<close>









lemma recover_behind_parts:
  assumes inv: "fe_inv {} st"
  shows "\<exists>s0 d b vs. recover_behind M pc st = Some (fetch_recover pc (s0\<lparr>decode := d\<rparr>)) \<and> fe_inv {} s0 \<and> fe_inv {} (s0\<lparr>decode := d\<rparr>) \<and>
    pending s0 = pending st \<and> fe_Mops s0 = fe_Mops st \<and> decode s0 = decode st \<and> knobs s0 = knobs st \<and> resteers s0 = Suc (resteers st) \<and>
    wiped M b (pipe (decode st)) (pipe d) \<and> q_uops (decode st) = q_uops d @ vs \<and> (b \<longrightarrow> vs = [])"
proof -
  define s0 where "s0 = emit (Back_Recover M) (emit (Oracle_Recover M)
     (case bpred_update (MopQ st ! M) of Some sc \<Rightarrow> emit (Bpred_Recover sc (pc \<noteq> ftPC (MopQ st ! M))) st | None \<Rightarrow> st))"
  have s0: "fe_inv {} s0" "pending s0 = pending st" "fe_Mops s0 = fe_Mops st" "decode s0 = decode st" "knobs s0 = knobs st" "resteers s0 = Suc (resteers st)"
    by (simp_all add: s0_def inv split: option.split)
  from decode_recover_ok [OF s0(1), of M] obtain d b vs where d: "decode_recover M s0 = Some (s0\<lparr>decode := d\<rparr>)" "fe_inv {} (s0\<lparr>decode := d\<rparr>)"
    "wiped M b (pipe (decode s0)) (pipe d)" "q_uops (decode s0) = q_uops d @ vs" "b \<longrightarrow> vs = []" by (metis (full_types))
  have "recover_behind M pc st = Some (fetch_recover pc (s0\<lparr>decode := d\<rparr>))" using d(1) by (simp add: recover_behind_def Let_def s0_def)
  then show ?thesis using s0 d(2-5) by (intro exI [of _ s0] exI [of _ d] exI [of _ b] exI [of _ vs]) simp
qed









lemma fetch_recover_PC: "PC (fetch (fetch_recover pc st)) = pc"
  by (simp add: fetch_recover_def upd_fetch_def split: prod.split)

section \<open>Construction\<close>




section \<open>In-order queues\<close>




section \<open>Runs\<close>










section \<open>Properties of the front end\<close>

text \<open>A recovery behind a Mop in the decode pipe keeps that Mop, the older Mops and the queued uops, drops everything younger and
  restarts fetch at the new address.\<close>

lemma recovery_keeps_the_older:
  assumes inv: "fe_inv {} st" and M: "fe_Mops st = ys @ M # zs" "M \<in> set (pipe_items (pipe (decode st)))"
  shows "\<exists>st'. recover_behind M new_PC st = Some st' \<and> fe_Mops st' = ys @ [M] \<and> q_uops (decode st') = q_uops (decode st) \<and> PC (fetch st') = new_PC"
proof -
  from recover_behind_parts [OF inv, of M new_PC] obtain s0 d b vs where s: "recover_behind M new_PC st = Some (fetch_recover new_PC (s0\<lparr>decode := d\<rparr>))" "fe_inv {} (s0\<lparr>decode := d\<rparr>)"
    "wiped M b (pipe (decode st)) (pipe d)" "q_uops (decode st) = q_uops d @ vs" "b \<longrightarrow> vs = []" by blast
  have b using s(3) M(2) by (cases b) (simp_all add: wiped_def)
  with s(3) obtain as bs where w: "pipe_items (pipe (decode st)) = as @ M # bs" "pipe_items (pipe d) = as @ [M]" by (auto simp: wiped_def)
  have "as @ M # (bs @ fetch_Mops (knobs st) (fetch st)) = ys @ M # zs" using M(1) w(1) by (simp add: fe_Mops_def)
  moreover have "M \<notin> set as" "M \<notin> set (bs @ fetch_Mops (knobs st) (fetch st))" using fe_invD(5) [OF inv] w(1) by (auto simp: fe_Mops_def)
  ultimately have "as = ys" using append_Cons_eq_iff [of M as "bs @ fetch_Mops (knobs st) (fetch st)" ys zs] by simp
  then have "fe_Mops (fetch_recover new_PC (s0\<lparr>decode := d\<rparr>)) = ys @ [M]" using fetch_recover_ok(2,4,5) [OF s(2), of new_PC] w(2) by (simp add: fe_Mops_def)
  then show ?thesis using s(1,4,5) \<open>b\<close> fetch_recover_ok(2) [OF s(2), of new_PC] by (simp add: fetch_recover_PC)
qed


section \<open>A concrete run\<close>














end
