(* ===== verification/Spec2Isabelle.thy ===== *)
theory Spec2Isabelle
  imports Bpred_Client Memdep Memsys_Safe Frontend_Run
begin

text \<open>
  A verification library for the timing models of XIOSim, a cycle-level x86 simulator. A Pin tool feeds
  instructions to the simulator; each core fetches, decodes, executes and commits them against a branch
  predictor, a memory dependence predictor and a hierarchy of caches, buses, memory controller and DRAM.
  The library models the two subsystems that carry the algorithms of the simulator, the branch predictor
  and the memory hierarchy, and the front end of the pipeline, from \<^verbatim>\<open>src/xiosim\<close>, every operation with its
  assertions, its \<^verbatim>\<open>fatal()\<close> calls and the widths of its integers.

  \<^bold>\<open>Conventions.\<close> C++ structs and classes are records, derived classes extend the record of their base
  class, enums are datatypes; fields and functions keep their names up to clashes. \<^verbatim>\<open>int\<close> is a 32-bit
  word read as signed, addresses and ticks are 64-bit words (\<open>Prelude\<close>: LP64). Constructors return
  \<open>fatal + 'a\<close> or an option; None stands for a failed assertion, \<^verbatim>\<open>fatal()\<close>, a bad cast or a null pointer.
  Linked lists are kept as heaps of cells with next and previous indices. Random draws, oracle answers and
  callbacks into the core are arguments, and so is the first value of a field that the code leaves
  uninitialised. Floating-point durations and logarithms are computed exactly, and \<^verbatim>\<open>(int)\<close> of a number that
  does not fit gives the x86 value. Deliberately not kept at their width: the ticks of the memory dependence
  predictors and the occupancy counters of the caches and of the front end are mathematical integers (the
  theorems about them tie them to the contents of the queues). A request with an operation is taken to have a
  \<^verbatim>\<open>get_action_id\<close>, as every caller gives it one.

  \<^bold>\<open>Foundations.\<close>
  \<^item> \<open>Prelude\<close>: machine types, \<^verbatim>\<open>valcheck.h\<close>, \<^verbatim>\<open>modinc\<close>, \<^verbatim>\<open>moddec\<close>, \<^verbatim>\<open>mod2m\<close>, list and word lemmas.
  \<^item> \<open>History\<close>, \<open>TwoBitC\<close> (\<^verbatim>\<open>2bitc.h\<close>), \<open>Btb_List\<close>, \<open>Slist\<close>, \<open>Ring\<close>: history registers, the packed
    two-bit counters (refined to saturating counters), doubly and singly linked recency lists and circular
    buffers, which several components share.

  \<^bold>\<open>The branch predictor\<close> (\<^verbatim>\<open>zesto-bpred.cpp\<close>, \<^verbatim>\<open>ZCOMPS-bpred\<close>, \<^verbatim>\<open>ZCOMPS-fusion\<close>, \<^verbatim>\<open>ZCOMPS-btb\<close>, \<^verbatim>\<open>ZCOMPS-ras\<close>).
  \<^item> \<open>Bpred_Dir\<close>: the base class and the interface as the locale \<open>dir_predictor\<close> (well-formedness is
    kept, statistics are counted once, frozen counters stay), extended by \<open>spec_history\<close> (recovery
    restores the history). \<open>Bpred_2bC\<close>, \<open>Bpred_2lev\<close>, \<open>Bpred_Bimode\<close>, \<open>Bpred_Skewed\<close>, \<open>Bpred_Yags\<close>,
    \<open>Bpred_Static\<close>, \<open>Bpred_Perceptron\<close>, \<open>Bpred_Tage\<close> interpret it, one file per class; \<open>Bpred_Tage\<close> also
    shows that the hash loop folds the global history.
  \<^item> \<open>Ras\<close>: the locale \<open>ras_view\<close> gives the stack that a return address stack shows; the circular and the
    two-part stack are shown to predict what an unbounded stack would while the depth fits, the latter also
    after recoveries from its committed half, which is a third instance of the locale.
  \<^item> \<open>Fusion\<close>: the locale \<open>fusion_selector\<close> (a fused prediction is one of the components'), its six
    interpretations, the colt predictor, the invariant of the priority tables, the tournament.
  \<^item> \<open>Btb\<close>, \<open>Btb_2lev\<close>: target buffers at the level of their pointers, refined to recency lists.
  \<^item> \<open>Bpred_Dispatch\<close>, \<open>Front_Dispatch\<close>: virtual calls with the casts of the state caches.
  \<^item> \<open>Bpred_Top\<close>: \<^verbatim>\<open>bpred_t\<close>; \<open>Bpred_Client\<close>: the calls of the pipeline and of the Pin tool, the pool of
    state caches as the locale \<open>lifo_pool\<close>, and the safety of every run.

  \<^bold>\<open>Memory.\<close>
  \<^item> \<open>Memory\<close> (\<^verbatim>\<open>memory.cpp\<close>): page tables, brk, the notifications of the feeder; translation is
    injective in every reachable memory.
  \<^item> \<open>Memdep\<close>: the dependence predictors, locale \<open>dep_predictor\<close>. \<open>Prefetch\<close>: the five prefetchers.
  \<^item> \<open>Cache_Set\<close>: the lines of a set with six replacement policies; \<open>Cache_Heap\<close>: the pipelines as heaps,
    locale \<open>exit_time_queue\<close>; \<open>Cache\<close>: one cache, its miss registers, fills and prefetch filter;
    \<open>Cache_Mshr\<close>: the counters of the registers; \<open>Cache_Inv\<close>: the invariant of a whole cache.
  \<^item> \<open>Dram\<close> (\<^verbatim>\<open>ZCOMPS-dram\<close>) and \<open>Noc\<close> (\<^verbatim>\<open>zesto-noc.cpp\<close>): latencies, refresh, buses.
  \<^item> \<open>Memsys\<close>: the caches linked to each other (the five stages of \<^verbatim>\<open>cache_process\<close>, the prefetch FIFO and
    its controller), the coherence controllers (\<^verbatim>\<open>ZCOMPS-coherence\<close>), the memory controllers
    (\<^verbatim>\<open>ZCOMPS-MC\<close>) and the uncore cycle of \<^verbatim>\<open>sim-loop.cpp\<close>. \<open>Memsys_Inv\<close> states the invariant,
    \<open>Memsys_Cycle\<close> and \<open>Memsys_Safe\<close> show that every step keeps it; the locale \<open>clocked_system\<close> lifts this
    to runs, in which every request sent upwards is answered at most once and none is lost.

  \<^bold>\<open>The front end\<close> (\<^verbatim>\<open>ZPIPE-fetch/fetch-DPM.cpp\<close>, \<^verbatim>\<open>ZPIPE-decode/decode-DPM.cpp\<close>).
  \<^item> \<open>Frontend\<close>: byte queue, predecode pipe, instruction queue, decode pipe and uop queue, with target checks,
    jeclears and recoveries. The oracle, the branch predictor and the caches are arguments and events.
  \<^item> \<open>Pipe_Slots\<close>, \<open>Frontend_Inv\<close>: pipes of slots and rings as lists, the invariant, and what is pending.
    \<open>Frontend_Decode\<close>, \<open>Frontend_Cycle\<close>, \<open>Frontend_Fetch\<close>: every operation keeps it and leaves the pending uops
    alone, takes them at one end, adds at the other, or cuts them behind a branch. \<open>Frontend_Run\<close>: the locale
    \<open>in_order\<close> lifts this to runs of calls.

  \<^bold>\<open>Termination and bounds.\<close> Loops over linked cells are \<open>find_from\<close> and \<open>page_loop\<close>, partial functions
  that are shown to return on well-formed lists and for every range, also one that wraps around. The clock
  replacement loop has \<open>20 * assoc + 1\<close> units of fuel, shown to be enough; the loops of the front end that empty
  a byte queue entry and a decoder have one unit more than there are Mops and uops, shown to be enough by the
  theorem that every run succeeds. Sums of ticks do not overflow
  because the results about the memory hierarchy concern the first \<open>2 ^ 62\<close> steps. Runs of the branch
  predictor may be of any length; what is bounded, by \<open>2 ^ 29\<close>, is the number of branches in flight at a time
  (\<open>flight_ok\<close>), so that the size of the pool of state caches, an \<^verbatim>\<open>int\<close>, can double. Its safety also assumes
  what the code needs and does not check: no prefetch buffer (a hit in it asserts that the bus is free),
  register banks that agree between adjacent levels where prefetches travel, a filter interval that is not
  zero, a write-back share smaller than the number of registers, and two ways for the NMRU and clock
  policies. Theorems about flaws show what happens
  without such assumptions.

  \<^bold>\<open>Not modelled.\<close> The back end of the pipeline (\<^verbatim>\<open>ZPIPE-alloc\<close>, \<^verbatim>\<open>-exec\<close>, \<^verbatim>\<open>-commit\<close>) apart from its
  calls to the branch predictor, the oracle and micro-operation cracking (which rest on
  the XED decoder), the remaining neural predictors, the Pin tool apart from \<^verbatim>\<open>BranchPredict\<close>, the
  repeater, voltage scaling and power models (McPAT), \<^verbatim>\<open>MC-dramsim.cpp\<close> (calls of DRAMSim), the threads and
  messages of the simulation loop, registration and printing of statistics, and the parsing of options.
\<close>

end
